(* ===== verification/Prelude.thy ===== *)
theory Prelude
  imports Main "HOL-Library.Word" "HOL-Library.Monad_Syntax"
begin

text \<open>
  Shared vocabulary of the development: Rust's machine integers, \<open>std::time\<close>,
  \<open>Result\<close>, panics and the generic lemmas on lists, options and words that the
  component theories use.

  \<^item> \<open>u8\<close> \dots \<open>u64\<close> are words of that width; arithmetic operators wrap, and the
    \<open>saturating_*\<close> and \<open>checked_*\<close> methods of the standard library are written out.
  \<^item> A \<open>std::time::Duration\<close> is its number of nanoseconds; \<open>Duration::MAX\<close> is the
    largest one. A \<open>std::time::Instant\<close> is a number of nanoseconds since the start of
    the monotonic clock; adding a duration to it panics past the last representable instant.
  \<^item> \<open>'a run\<close> is the result of code that may panic.
  \<^item> \<open>('e, 'a) result\<close> is Rust's \<open>Result<'a, 'e>\<close>.
\<close>

section \<open>Machine integers\<close>

type_synonym u8 = "8 word"
type_synonym u16 = "16 word"
type_synonym u32 = "32 word"
type_synonym u64 = "64 word"

named_theorems word_ops \<open>definitions of the integer methods of the standard library\<close>

definition saturating_add :: "'a::len word \<Rightarrow> 'a word \<Rightarrow> 'a word" where
  [word_ops]: "saturating_add a b = (if unat a + unat b < 2 ^ LENGTH('a) then a + b else - 1)"

definition saturating_sub :: "'a::len word \<Rightarrow> 'a word \<Rightarrow> 'a word" where
  [word_ops]: "saturating_sub a b = (if b \<le> a then a - b else 0)"

lemma unat_saturating_add:
  "unat (saturating_add a b) = min (unat a + unat b) (2 ^ LENGTH('a) - 1)"
  for a b :: "'a::len word"
  by (auto simp: saturating_add_def unat_word_ariths unsigned_minus_1_eq_mask mask_eq_exp_minus_1)

lemma unat_saturating_sub: "unat (saturating_sub a b) = unat a - unat b"
  by (auto simp: saturating_sub_def word_le_nat_alt unat_sub_if' unat_gt_0)

lemma unat_min_word: "unat (min a b) = min (unat a) (unat b)" for a b :: "'a::len word"
  by (simp add: min_def word_le_nat_alt)

lemma unat_Suc_word: "a < b \<Longrightarrow> unat (a + 1) = Suc (unat a)" for a b :: "'a::len word"
proof -
  assume "a < b"
  then have "a \<noteq> - 1"
    by (metis not_less word_order.extremum)
  then have "a + 1 \<noteq> 0"
    by (metis add_diff_cancel_right' diff_0)
  then show ?thesis
    by (metis add.commute unatSuc)
qed

section \<open>Panics\<close>

datatype 'a run = Panic | Ret 'a

fun bind_run :: "'a run \<Rightarrow> ('a \<Rightarrow> 'b run) \<Rightarrow> 'b run" where
  "bind_run Panic f = Panic"
| "bind_run (Ret a) f = f a"

fun map_run :: "('a \<Rightarrow> 'b) \<Rightarrow> 'a run \<Rightarrow> 'b run" where
  "map_run f Panic = Panic"
| "map_run f (Ret a) = Ret (f a)"

lemma bind_run_Ret_iff: "bind_run m f = Ret b \<longleftrightarrow> (\<exists>a. m = Ret a \<and> f a = Ret b)"
  by (cases m) auto

lemma bind_run_Panic_iff: "bind_run m f = Panic \<longleftrightarrow> m = Panic \<or> (\<exists>a. m = Ret a \<and> f a = Panic)"
  by (cases m) auto

lemma map_run_Ret_iff: "map_run f m = Ret b \<longleftrightarrow> (\<exists>a. m = Ret a \<and> b = f a)"
  by (cases m) auto

lemma map_run_Panic_iff: "map_run f m = Panic \<longleftrightarrow> m = Panic"
  by (cases m) auto

lemma bind_run_assoc: "bind_run (bind_run m f) g = bind_run m (\<lambda>a. bind_run (f a) g)"
  by (cases m) auto

section \<open>Results\<close>

datatype ('e, 'a) result = Err 'e | Ok 'a

fun is_ok :: "('e, 'a) result \<Rightarrow> bool" where
  "is_ok (Ok _) = True"
| "is_ok (Err _) = False"

lemma case_result_eq:
  "(case r of Err e \<Rightarrow> f e | Ok a \<Rightarrow> g a) = y \<longleftrightarrow>
     (\<exists>e. r = Err e \<and> f e = y) \<or> (\<exists>a. r = Ok a \<and> g a = y)"
  by (cases r) auto

lemma case_prod_eq: "(case p of (a, b) \<Rightarrow> f a b) = y \<longleftrightarrow> (\<exists>a b. p = (a, b) \<and> f a b = y)"
  by (cases p) auto

section \<open>Time\<close>

type_synonym duration = nat
type_synonym instant = nat

abbreviation NANOS :: nat where "NANOS \<equiv> 1000000000"

definition from_secs :: "nat \<Rightarrow> duration" where
  "from_secs s = s * NANOS"

definition from_millis :: "nat \<Rightarrow> duration" where
  "from_millis m = m * 1000000"

definition DURATION_MAX :: duration where
  "DURATION_MAX = (2 ^ 64 - 1) * NANOS + (NANOS - 1)"

text \<open>The standard library keeps the seconds of an instant in an \<open>i64\<close>.\<close>

definition INSTANT_LIMIT :: instant where
  "INSTANT_LIMIT = 2 ^ 63 * NANOS"

definition instant_add :: "instant \<Rightarrow> duration \<Rightarrow> instant run" where
  "instant_add t d = (if t + d < INSTANT_LIMIT then Ret (t + d) else Panic)"

lemma instant_add_Ret [simp]: "instant_add t d = Ret t' \<longleftrightarrow> t' = t + d \<and> t + d < INSTANT_LIMIT"
  by (auto simp: instant_add_def)

lemma instant_add_Panic [simp]: "instant_add t d = Panic \<longleftrightarrow> INSTANT_LIMIT \<le> t + d"
  by (auto simp: instant_add_def)

section \<open>Decimal numerals\<close>

text \<open>The \<open>Display\<close> of an unsigned integer.\<close>

fun dec :: "nat \<Rightarrow> string" where
  "dec n = (if n < 10 then [char_of (48 + n)] else dec (n div 10) @ [char_of (48 + n mod 10)])"

declare dec.simps [simp del]

section \<open>Options\<close>

definition is_some_and :: "('a \<Rightarrow> bool) \<Rightarrow> 'a option \<Rightarrow> bool" where
  "is_some_and p x = (case x of None \<Rightarrow> False | Some a \<Rightarrow> p a)"

lemma is_some_and_simps [simp]:
  "is_some_and p None = False"
  "is_some_and p (Some a) = p a"
  by (simp_all add: is_some_and_def)

lemma is_some_and_iff: "is_some_and p x \<longleftrightarrow> (\<exists>a. x = Some a \<and> p a)"
  by (cases x) auto

end
