(* ===== verification/Rpc_Error.thy ===== *)
theory Rpc_Error
  imports Prelude
begin

text \<open>
  The error model of the \<open>gax\<close> crate: the RPC status codes and the status message of
  \<open>gax/src/error/rpc.rs\<close>, the credentials errors of \<open>gax/src/error/credentials.rs\<close>
  and the error type with its constructors, classifiers and display of
  \<open>gax/src/error/core_error.rs\<close>.

  A \<open>Box<dyn Error>\<close> is the datatype \<open>box_error\<close>: the boxed types the
  library itself creates, and \<open>OtherError\<close> for the boxes of other crates, known by their
  display text. The payloads of the status details are kept as their JSON text: the modelled
  code moves them without looking inside.
\<close>

section \<open>Status codes\<close>

datatype code =
    OkCode | Cancelled | Unknown | InvalidArgument | DeadlineExceeded | NotFound
  | AlreadyExists | PermissionDenied | ResourceExhausted | FailedPrecondition | Aborted
  | OutOfRange | Unimplemented | Internal | Unavailable | DataLoss | Unauthenticated

definition code_default :: code where
  "code_default = Unknown"

text \<open>The discriminants of the enumeration, \<open>code as i32\<close>.\<close>

fun code_as_i32 :: "code \<Rightarrow> int" where
  "code_as_i32 OkCode = 0"
| "code_as_i32 Cancelled = 1"
| "code_as_i32 Unknown = 2"
| "code_as_i32 InvalidArgument = 3"
| "code_as_i32 DeadlineExceeded = 4"
| "code_as_i32 NotFound = 5"
| "code_as_i32 AlreadyExists = 6"
| "code_as_i32 PermissionDenied = 7"
| "code_as_i32 ResourceExhausted = 8"
| "code_as_i32 FailedPrecondition = 9"
| "code_as_i32 Aborted = 10"
| "code_as_i32 OutOfRange = 11"
| "code_as_i32 Unimplemented = 12"
| "code_as_i32 Internal = 13"
| "code_as_i32 Unavailable = 14"
| "code_as_i32 DataLoss = 15"
| "code_as_i32 Unauthenticated = 16"

fun code_name :: "code \<Rightarrow> string" where
  "code_name OkCode = ''OK''"
| "code_name Cancelled = ''CANCELLED''"
| "code_name Unknown = ''UNKNOWN''"
| "code_name InvalidArgument = ''INVALID_ARGUMENT''"
| "code_name DeadlineExceeded = ''DEADLINE_EXCEEDED''"
| "code_name NotFound = ''NOT_FOUND''"
| "code_name AlreadyExists = ''ALREADY_EXISTS''"
| "code_name PermissionDenied = ''PERMISSION_DENIED''"
| "code_name ResourceExhausted = ''RESOURCE_EXHAUSTED''"
| "code_name FailedPrecondition = ''FAILED_PRECONDITION''"
| "code_name Aborted = ''ABORTED''"
| "code_name OutOfRange = ''OUT_OF_RANGE''"
| "code_name Unimplemented = ''UNIMPLEMENTED''"
| "code_name Internal = ''INTERNAL''"
| "code_name Unavailable = ''UNAVAILABLE''"
| "code_name DataLoss = ''DATA_LOSS''"
| "code_name Unauthenticated = ''UNAUTHENTICATED''"

definition code_from_i32 :: "int \<Rightarrow> code" where
  "code_from_i32 value =
     (if value = 0 then OkCode
      else if value = 1 then Cancelled
      else if value = 2 then Unknown
      else if value = 3 then InvalidArgument
      else if value = 4 then DeadlineExceeded
      else if value = 5 then NotFound
      else if value = 6 then AlreadyExists
      else if value = 7 then PermissionDenied
      else if value = 8 then ResourceExhausted
      else if value = 9 then FailedPrecondition
      else if value = 10 then Aborted
      else if value = 11 then OutOfRange
      else if value = 12 then Unimplemented
      else if value = 13 then Internal
      else if value = 14 then Unavailable
      else if value = 15 then DataLoss
      else if value = 16 then Unauthenticated
      else code_default)"

definition code_try_from :: "string \<Rightarrow> (string, code) result" where
  "code_try_from value =
     (if value = ''OK'' then Ok OkCode
      else if value = ''CANCELLED'' then Ok Cancelled
      else if value = ''UNKNOWN'' then Ok Unknown
      else if value = ''INVALID_ARGUMENT'' then Ok InvalidArgument
      else if value = ''DEADLINE_EXCEEDED'' then Ok DeadlineExceeded
      else if value = ''NOT_FOUND'' then Ok NotFound
      else if value = ''ALREADY_EXISTS'' then Ok AlreadyExists
      else if value = ''PERMISSION_DENIED'' then Ok PermissionDenied
      else if value = ''RESOURCE_EXHAUSTED'' then Ok ResourceExhausted
      else if value = ''FAILED_PRECONDITION'' then Ok FailedPrecondition
      else if value = ''ABORTED'' then Ok Aborted
      else if value = ''OUT_OF_RANGE'' then Ok OutOfRange
      else if value = ''UNIMPLEMENTED'' then Ok Unimplemented
      else if value = ''INTERNAL'' then Ok Internal
      else if value = ''UNAVAILABLE'' then Ok Unavailable
      else if value = ''DATA_LOSS'' then Ok DataLoss
      else if value = ''UNAUTHENTICATED'' then Ok Unauthenticated
      else Err (''unknown status code value '' @ value))"

text \<open>The serde implementations go through the integer.\<close>

definition code_serialize :: "code \<Rightarrow> int" where
  "code_serialize c = code_as_i32 c"

definition code_deserialize :: "int \<Rightarrow> code" where
  "code_deserialize n = code_from_i32 n"

section \<open>Status messages\<close>

type_synonym json = string

record error_info =
  ei_reason :: string
  ei_domain :: string
  ei_metadata :: "(string \<times> string) list"

datatype status_details =
    BadRequest json | DebugInfo json | ErrorInfo error_info | Help json
  | LocalizedMessage json | PreconditionFailure json | QuotaFailure json
  | RequestInfo json | ResourceInfo json | RetryInfo json | OtherDetails json

record status =
  status_code :: code
  status_message :: string
  status_details :: "status_details list"

definition status_default :: status where
  "status_default = \<lparr>status_code = code_default, status_message = '''', status_details = []\<rparr>"

definition set_code :: "status \<Rightarrow> code \<Rightarrow> status" where
  "set_code s v = s\<lparr>status_code := v\<rparr>"

definition set_message :: "status \<Rightarrow> string \<Rightarrow> status" where
  "set_message s v = s\<lparr>status_message := v\<rparr>"

definition set_details :: "status \<Rightarrow> status_details list \<Rightarrow> status" where
  "set_details s v = s\<lparr>status_details := v\<rparr>"

text \<open>A JSON value as the error items hold it: a string, or any other value as its text.\<close>

datatype json_value = JString string | JOther json

record error_item =
  item_reason :: "string option"
  item_domain :: "string option"
  item_extra :: "(string \<times> json_value) list"

fun json_to_string :: "json_value \<Rightarrow> string" where
  "json_to_string (JString s) = s"
| "json_to_string (JOther t) = t"

definition details_from_item :: "error_item \<Rightarrow> status_details" where
  "details_from_item item = ErrorInfo
     \<lparr>ei_reason = (case item_reason item of Some r \<Rightarrow> r | None \<Rightarrow> ''''),
      ei_domain = (case item_domain item of Some d \<Rightarrow> d | None \<Rightarrow> ''''),
      ei_metadata = map (\<lambda>(k, v). (k, json_to_string v)) (item_extra item)\<rparr>"

record wrapper_status =
  ws_code :: int
  ws_message :: string
  ws_status :: "string option"
  ws_details :: "status_details list"
  ws_errors :: "error_item list"

section \<open>Errors\<close>

type_synonym header_map = "(string \<times> string) list"
type_synonym payload = "u8 list"

record transport_details =
  td_status_code :: "u16 option"
  td_headers :: "header_map option"
  td_payload :: "payload option"

record service_details =
  sd_status_code :: "u16 option"
  sd_headers :: "header_map option"
  sd_status :: status

datatype error_kind =
    Binding | Serialization | Deserialization | Authentication | Timeout | ExhaustedKind
  | Connect | Transport transport_details | Service service_details

text \<open>
  \<open>ElapsedTimeError\<close> is \<open>LimitedElapsedTimeError\<close> of the retry policies, and
  \<open>PollingExhausted\<close> is \<open>Exhausted\<close> of the polling policies (operation, name of
  the limit, value and limit, the last two before formatting).
\<close>

datatype error = Error (kind: error_kind) (source: "box_error option")
and credentials_error =
    CredentialsError (ce_transient: bool) (ce_message: "string option") (ce_source: "box_error option")
and box_error =
    MsgError string
  | CredsError credentials_error
  | GaxError error
  | ElapsedTimeError duration error
  | PollingExhausted string string nat nat
  | OtherError string

subsection \<open>Credentials errors\<close>

definition creds_from_source :: "bool \<Rightarrow> box_error \<Rightarrow> credentials_error" where
  "creds_from_source is_transient src = CredentialsError is_transient None (Some src)"

definition creds_from_msg :: "bool \<Rightarrow> string \<Rightarrow> credentials_error" where
  "creds_from_msg is_transient message = CredentialsError is_transient (Some message) None"

definition creds_new :: "bool \<Rightarrow> string \<Rightarrow> box_error \<Rightarrow> credentials_error" where
  "creds_new is_transient message src = CredentialsError is_transient (Some message) (Some src)"

definition creds_is_transient :: "credentials_error \<Rightarrow> bool" where
  "creds_is_transient e = ce_transient e"

definition creds_display :: "credentials_error \<Rightarrow> string" where
  "creds_display e =
     (let msg = (if ce_transient e then ''but future attempts may succeed''
                 else ''and future attempts will not succeed'')
      in case ce_message e of
           None \<Rightarrow> ''cannot create auth headers '' @ msg
         | Some m \<Rightarrow> m @ '' '' @ msg)"

subsection \<open>Constructors\<close>

definition service :: "status \<Rightarrow> error" where
  "service s = Error (Service \<lparr>sd_status_code = None, sd_headers = None, sd_status = s\<rparr>) None"

definition timeout :: "box_error \<Rightarrow> error" where
  "timeout src = Error Timeout (Some src)"

definition exhausted :: "box_error \<Rightarrow> error" where
  "exhausted src = Error ExhaustedKind (Some src)"

definition deser :: "box_error \<Rightarrow> error" where
  "deser src = Error Deserialization (Some src)"

definition ser :: "box_error \<Rightarrow> error" where
  "ser src = Error Serialization (Some src)"

definition service_full ::
  "status \<Rightarrow> u16 option \<Rightarrow> header_map option \<Rightarrow> box_error option \<Rightarrow> error" where
  "service_full s code headers src =
     Error (Service \<lparr>sd_status_code = code, sd_headers = headers, sd_status = s\<rparr>) src"

definition service_with_http_metadata ::
  "status \<Rightarrow> u16 option \<Rightarrow> header_map option \<Rightarrow> error" where
  "service_with_http_metadata s code headers = service_full s code headers None"

definition binding :: "box_error \<Rightarrow> error" where
  "binding src = Error Binding (Some src)"

definition authentication :: "credentials_error \<Rightarrow> error" where
  "authentication src = Error Authentication (Some (CredsError src))"

definition http :: "u16 \<Rightarrow> header_map \<Rightarrow> payload \<Rightarrow> error" where
  "http code headers p =
     Error (Transport \<lparr>td_status_code = Some code, td_headers = Some headers, td_payload = Some p\<rparr>) None"

definition io :: "box_error \<Rightarrow> error" where
  "io src = Error (Transport \<lparr>td_status_code = None, td_headers = None, td_payload = None\<rparr>) (Some src)"

definition connect :: "box_error \<Rightarrow> error" where
  "connect src = Error Connect (Some src)"

definition transport :: "header_map \<Rightarrow> box_error \<Rightarrow> error" where
  "transport headers src =
     Error (Transport \<lparr>td_status_code = None, td_headers = Some headers, td_payload = None\<rparr>) (Some src)"

lemmas error_constructors =
  service_def timeout_def exhausted_def deser_def ser_def service_full_def
  service_with_http_metadata_def binding_def authentication_def http_def io_def connect_def
  transport_def

subsection \<open>Classifiers\<close>

definition is_timeout :: "error \<Rightarrow> bool" where
  "is_timeout e = (case kind e of Timeout \<Rightarrow> True | _ \<Rightarrow> False)"

definition is_exhausted :: "error \<Rightarrow> bool" where
  "is_exhausted e = (case kind e of ExhaustedKind \<Rightarrow> True | _ \<Rightarrow> False)"

definition is_deserialization :: "error \<Rightarrow> bool" where
  "is_deserialization e = (case kind e of Deserialization \<Rightarrow> True | _ \<Rightarrow> False)"

definition is_serialization :: "error \<Rightarrow> bool" where
  "is_serialization e = (case kind e of Serialization \<Rightarrow> True | _ \<Rightarrow> False)"

definition error_status :: "error \<Rightarrow> status option" where
  "error_status e = (case kind e of Service d \<Rightarrow> Some (sd_status d) | _ \<Rightarrow> None)"

definition http_status_code :: "error \<Rightarrow> u16 option" where
  "http_status_code e =
     (case kind e of
        Transport d \<Rightarrow> td_status_code d
      | Service d \<Rightarrow> sd_status_code d
      | _ \<Rightarrow> None)"

definition http_headers :: "error \<Rightarrow> header_map option" where
  "http_headers e =
     (case kind e of
        Transport d \<Rightarrow> td_headers d
      | Service d \<Rightarrow> sd_headers d
      | _ \<Rightarrow> None)"

definition http_payload :: "error \<Rightarrow> payload option" where
  "http_payload e = (case kind e of Transport d \<Rightarrow> td_payload d | _ \<Rightarrow> None)"

definition is_binding :: "error \<Rightarrow> bool" where
  "is_binding e = (case kind e of Binding \<Rightarrow> True | _ \<Rightarrow> False)"

definition is_authentication :: "error \<Rightarrow> bool" where
  "is_authentication e = (case kind e of Authentication \<Rightarrow> True | _ \<Rightarrow> False)"

definition is_io :: "error \<Rightarrow> bool" where
  "is_io e =
     (case kind e of
        Transport d \<Rightarrow> td_status_code d = None \<and> td_headers d = None \<and> td_payload d = None
      | _ \<Rightarrow> False)"

definition is_connect :: "error \<Rightarrow> bool" where
  "is_connect e = (case kind e of Connect \<Rightarrow> True | _ \<Rightarrow> False)"

definition is_transport :: "error \<Rightarrow> bool" where
  "is_transport e = (case kind e of Transport _ \<Rightarrow> True | _ \<Rightarrow> False)"

definition is_transient_and_before_rpc :: "error \<Rightarrow> bool" where
  "is_transient_and_before_rpc e =
     (case kind e of
        Connect \<Rightarrow> True
      | Authentication \<Rightarrow>
          (case source e of Some (CredsError c) \<Rightarrow> creds_is_transient c | _ \<Rightarrow> False)
      | _ \<Rightarrow> False)"

lemmas error_classifiers =
  is_timeout_def is_exhausted_def is_deserialization_def is_serialization_def error_status_def
  http_status_code_def http_headers_def http_payload_def is_binding_def is_authentication_def
  is_io_def is_connect_def is_transport_def is_transient_and_before_rpc_def creds_is_transient_def

subsection \<open>Display\<close>

text \<open>
  The display of a boxed error (\<open>disp\<close>), the UTF-8 decoding of a payload and its debug
  format are parameters. \<open>Panic\<close> is the \<open>unreachable!\<close> of the two last branches.
\<close>

definition transport_display ::
  "(box_error \<Rightarrow> string) \<Rightarrow> (payload \<Rightarrow> string option) \<Rightarrow> (payload \<Rightarrow> string) \<Rightarrow>
   transport_details \<Rightarrow> box_error option \<Rightarrow> string run" where
  "transport_display disp utf8 dbg d src =
     (case (td_status_code d, td_payload d) of
        (Some code, Some p) \<Rightarrow>
          (case utf8 p of
             Some message \<Rightarrow>
               Ret (''the HTTP transport reports a ['' @ dec (unat code) @ ''] error: '' @ message)
           | None \<Rightarrow>
               Ret (''the HTTP transport reports a ['' @ dec (unat code) @ ''] error: '' @ dbg p))
      | _ \<Rightarrow>
          (case src of
             Some s \<Rightarrow> Ret (''the transport reports an error: '' @ disp s)
           | None \<Rightarrow> Panic))"

definition error_display ::
  "(box_error \<Rightarrow> string) \<Rightarrow> (payload \<Rightarrow> string option) \<Rightarrow> (payload \<Rightarrow> string) \<Rightarrow>
   error \<Rightarrow> string run" where
  "error_display disp utf8 dbg e =
     (case (kind e, source e) of
        (Binding, Some s) \<Rightarrow> Ret (''cannot find a matching binding to send the request: '' @ disp s)
      | (Serialization, Some s) \<Rightarrow> Ret (''cannot serialize the request '' @ disp s)
      | (Deserialization, Some s) \<Rightarrow> Ret (''cannot deserialize the response '' @ disp s)
      | (Authentication, Some s) \<Rightarrow> Ret (''cannot create the authentication headers '' @ disp s)
      | (Timeout, Some s) \<Rightarrow> Ret (''the request exceeded the request deadline '' @ disp s)
      | (ExhaustedKind, Some s) \<Rightarrow> Ret (disp s)
      | (Connect, Some s) \<Rightarrow> Ret (''cannot connect to endpoint: '' @ disp s)
      | (Transport d, src) \<Rightarrow> transport_display disp utf8 dbg d src
      | (Service d, _) \<Rightarrow>
          Ret (''the service reports an error with code '' @ code_name (status_code (sd_status d))
               @ '' described as: '' @ status_message (sd_status d))
      | (_, None) \<Rightarrow> Panic)"

subsection \<open>Statuses from the wire\<close>

text \<open>
  \<open>from_slice\<close> stands for \<open>serde_json::from_slice::<ErrorWrapper>\<close> followed by the
  projection to the wrapped status.
\<close>

definition status_try_from ::
  "(payload \<Rightarrow> (box_error, wrapper_status) result) \<Rightarrow> payload \<Rightarrow> (error, status) result" where
  "status_try_from from_slice value =
     (case from_slice value of
        Err e \<Rightarrow> Err (deser e)
      | Ok wrapper \<Rightarrow>
          let code = (case map_option code_try_from (ws_status wrapper) of
                        Some (Ok c) \<Rightarrow> c
                      | Some (Err _) \<Rightarrow> Unknown
                      | None \<Rightarrow> Unknown);
              details = (if ws_details wrapper \<noteq> [] then ws_details wrapper
                         else map details_from_item (ws_errors wrapper))
          in Ok \<lparr>status_code = code, status_message = ws_message wrapper, status_details = details\<rparr>)"

text \<open>
  \<open>google_cloud_rpc::model::Status\<close>; the conversion of one \<open>wkt::Any\<close> to its status
  detail is the parameter \<open>from_any\<close>.
\<close>

record rpc_status =
  rs_code :: int
  rs_message :: string
  rs_details :: "json list"

definition status_from_rpc :: "(json \<Rightarrow> status_details) \<Rightarrow> rpc_status \<Rightarrow> status" where
  "status_from_rpc from_any value =
     \<lparr>status_code = code_from_i32 (rs_code value),
      status_message = rs_message value,
      status_details = map from_any (rs_details value)\<rparr>"

section \<open>Properties\<close>

lemma code_from_as_i32 [simp]: "code_from_i32 (code_as_i32 c) = c"
  by (cases c) (simp_all add: code_from_i32_def)

lemma code_try_from_name [simp]: "code_try_from (code_name c) = Ok c"
  by (cases c) (simp_all add: code_try_from_def)

lemma code_from_i32_out_of_range: "value < 0 \<or> 16 < value \<Longrightarrow> code_from_i32 value = Unknown"
  by (auto simp: code_from_i32_def code_default_def)

lemma code_as_from_i32: "0 \<le> value \<Longrightarrow> value \<le> 16 \<Longrightarrow> code_as_i32 (code_from_i32 value) = value"
proof -
  assume "0 \<le> value" "value \<le> 16"
  then have "value \<in> {0, 1, 2, 3, 4, 5, 6, 7, 8, 9, 10, 11, 12, 13, 14, 15, 16}"
    by simp presburger
  then show ?thesis
    by (elim insertE emptyE) (simp_all add: code_from_i32_def)
qed

lemma if_Ok_elim:
  assumes "(if P then Ok a else x) = Ok c"
  obtains "P" "a = c" | "x = Ok c"
  using assms by (auto split: if_splits)

lemma code_try_from_OkD: "code_try_from s = Ok c \<Longrightarrow> s = code_name c"
  unfolding code_try_from_def
  by (elim if_Ok_elim) (simp_all only: code_name.simps result.distinct)

lemma code_try_from_Ok_iff: "code_try_from s = Ok c \<longleftrightarrow> s = code_name c"
  using code_try_from_OkD by auto

lemma code_try_from_Err: "(\<forall>c. s \<noteq> code_name c) \<Longrightarrow> \<exists>m. code_try_from s = Err m"
  by (cases "code_try_from s") (auto simp: code_try_from_Ok_iff)

text \<open>The errors the public constructors can build.\<close>

inductive constructed :: "error \<Rightarrow> bool" where
  "constructed (service s)"
| "constructed (timeout b)"
| "constructed (exhausted b)"
| "constructed (deser b)"
| "constructed (ser b)"
| "constructed (service_full s c h b')"
| "constructed (binding b)"
| "constructed (authentication ce)"
| "constructed (http code hs p)"
| "constructed (io b)"
| "constructed (connect b)"
| "constructed (transport hs b)"

lemma constructed_with_http_metadata: "constructed (service_with_http_metadata s c h)"
  by (simp add: service_with_http_metadata_def constructed.intros)

lemma constructed_display: "constructed e \<Longrightarrow> error_display disp utf8 dbg e \<noteq> Panic"
  by (induction rule: constructed.induct)
    (auto simp: error_display_def transport_display_def error_constructors split: option.splits)

lemma is_io_transport: "is_io e \<Longrightarrow> is_transport e"
  by (cases "kind e") (auto simp: error_classifiers)

lemma status_not_before_rpc: "error_status e \<noteq> None \<Longrightarrow> \<not> is_transient_and_before_rpc e"
  by (cases "kind e") (auto simp: error_classifiers)

lemma io_not_before_rpc: "is_io e \<Longrightarrow> \<not> is_transient_and_before_rpc e"
  by (cases "kind e") (auto simp: error_classifiers)

lemma exhausted_not_retryable [simp]:
  "\<not> is_transient_and_before_rpc (exhausted b)" "\<not> is_io (exhausted b)"
  "error_status (exhausted b) = None" "http_status_code (exhausted b) = None"
  by (simp_all add: error_classifiers exhausted_def)

section \<open>Properties\<close>

text \<open>
  Status codes survive their wire forms: a code is read back from its number, and a name parses
  to a code exactly if it is the name of that code; numbers outside the range become \<open>Unknown\<close>.
\<close>

theorem code_wire_forms:
  "code_deserialize (code_serialize c) = c \<and>
   (code_try_from s = Ok c \<longleftrightarrow> s = code_name c) \<and>
   code_as_i32 (code_from_i32 n) = (if 0 \<le> n \<and> n \<le> 16 then n else 2)"
  using code_from_i32_out_of_range [of n] code_as_from_i32 [of n]
  by (auto simp: code_serialize_def code_deserialize_def code_try_from_Ok_iff)

text \<open>
  Printing an error never panics: for every error that one of the public constructors builds,
  the \<open>unwrap\<close>s of the \<open>Display\<close> implementations are safe.
\<close>

theorem constructed_errors_display:
  assumes "constructed e"
  shows "\<exists>text. error_display disp utf8 dbg e = Ret text"
  using constructed_display [OF assms, of disp utf8 dbg] by (cases "error_display disp utf8 dbg e") auto

lemma constructed_errors_display_witness:
  "constructed (http 404 [] []) \<and>
   (\<exists>text. error_display (\<lambda>_. []) (\<lambda>_. None) (\<lambda>_. []) (http 404 [] []) = Ret text)"
  using constructed_errors_display [OF constructed.intros(9)] constructed.intros(9) by blast

end
