(* ===== verification/Retry_Policy.thy ===== *)
theory Retry_Policy
  imports Rpc_Error
begin

text \<open>
  Retry policies of the \<open>gax\<close> crate (\<open>gax/src/retry_policy.rs\<close>,
  \<open>retry_policy/too_many_requests.rs\<close>, \<open>retry_policy/client_timeout.rs\<close>) and the
  data they exchange with the retry loop (\<open>retry_result.rs\<close>, \<open>throttle_result.rs\<close>,
  \<open>retry_state.rs\<close>).

  A \<open>dyn RetryPolicy\<close> is a record of its three methods. The clock is read once per call
  and passed as \<open>now\<close>; the methods return \<open>Panic\<close> where \<open>Instant + Duration\<close>
  overflows. Each implementation of the trait is a definition of such a record, and each
  decorator a function on records.
\<close>

section \<open>Results and state\<close>

datatype retry_result = Permanent error | Exhausted error | Continue error

fun is_permanent :: "retry_result \<Rightarrow> bool" where
  "is_permanent (Permanent _) = True"
| "is_permanent (Exhausted _) = False"
| "is_permanent (Continue _) = False"

fun is_exhausted_result :: "retry_result \<Rightarrow> bool" where
  "is_exhausted_result (Exhausted _) = True"
| "is_exhausted_result (Permanent _) = False"
| "is_exhausted_result (Continue _) = False"

fun is_continue :: "retry_result \<Rightarrow> bool" where
  "is_continue (Continue _) = True"
| "is_continue (Permanent _) = False"
| "is_continue (Exhausted _) = False"

datatype throttle_result = ThrottleExhausted error | ThrottleContinue error

text \<open>Case distinctions in equations, as disjunctions.\<close>

lemma case_retry_result_eq:
  "(case r of Permanent e \<Rightarrow> f e | Exhausted e \<Rightarrow> g e | Continue e \<Rightarrow> h e) = y \<longleftrightarrow>
     (\<exists>e. r = Permanent e \<and> f e = y) \<or> (\<exists>e. r = Exhausted e \<and> g e = y) \<or>
     (\<exists>e. r = Continue e \<and> h e = y)"
  by (cases r) auto

lemma case_throttle_result_eq:
  "(case r of ThrottleExhausted e \<Rightarrow> f e | ThrottleContinue e \<Rightarrow> g e) = y \<longleftrightarrow>
     (\<exists>e. r = ThrottleExhausted e \<and> f e = y) \<or> (\<exists>e. r = ThrottleContinue e \<and> g e = y)"
  by (cases r) auto

record retry_state =
  idempotent :: bool
  start :: instant
  attempt_count :: u32

text \<open>\<open>RetryState::default\<close> reads the clock.\<close>

definition retry_state_default :: "instant \<Rightarrow> retry_state" where
  "retry_state_default now = \<lparr>idempotent = False, start = now, attempt_count = 0\<rparr>"

definition set_idempotent :: "retry_state \<Rightarrow> bool \<Rightarrow> retry_state" where
  "set_idempotent s v = s\<lparr>idempotent := v\<rparr>"

definition set_start :: "retry_state \<Rightarrow> instant \<Rightarrow> retry_state" where
  "set_start s v = s\<lparr>start := v\<rparr>"

definition set_attempt_count :: "retry_state \<Rightarrow> u32 \<Rightarrow> retry_state" where
  "set_attempt_count s v = s\<lparr>attempt_count := v\<rparr>"

definition retry_state_new :: "instant \<Rightarrow> bool \<Rightarrow> retry_state" where
  "retry_state_new now i = set_idempotent (retry_state_default now) i"

lemmas retry_state_defs =
  retry_state_default_def set_idempotent_def set_start_def set_attempt_count_def
  retry_state_new_def

section \<open>Policies\<close>

record retry_policy =
  on_error :: "instant \<Rightarrow> retry_state \<Rightarrow> error \<Rightarrow> retry_result run"
  on_throttle :: "instant \<Rightarrow> retry_state \<Rightarrow> error \<Rightarrow> throttle_result run"
  remaining_time :: "instant \<Rightarrow> retry_state \<Rightarrow> duration option run"

text \<open>The default methods of the trait.\<close>

definition default_on_throttle :: "instant \<Rightarrow> retry_state \<Rightarrow> error \<Rightarrow> throttle_result run" where
  "default_on_throttle now st e = Ret (ThrottleContinue e)"

definition default_remaining_time :: "instant \<Rightarrow> retry_state \<Rightarrow> duration option run" where
  "default_remaining_time now st = Ret None"

definition simple_policy :: "(retry_state \<Rightarrow> error \<Rightarrow> retry_result) \<Rightarrow> retry_policy" where
  "simple_policy f =
     \<lparr>on_error = (\<lambda>now st e. Ret (f st e)),
      on_throttle = default_on_throttle,
      remaining_time = default_remaining_time\<rparr>"

lemma simple_policy_sel [simp]:
  "on_error (simple_policy f) now st e = Ret (f st e)"
  "on_throttle (simple_policy f) now st e = Ret (ThrottleContinue e)"
  "remaining_time (simple_policy f) now st = Ret None"
  by (simp_all add: simple_policy_def default_on_throttle_def default_remaining_time_def)

subsection \<open>Aip194Strict\<close>

definition aip194_on_error :: "retry_state \<Rightarrow> error \<Rightarrow> retry_result" where
  "aip194_on_error st e =
     (if is_transient_and_before_rpc e then Continue e
      else if \<not> idempotent st then Permanent e
      else if is_io e then Continue e
      else if is_some_and (\<lambda>s. status_code s = Unavailable) (error_status e) then Continue e
      else if is_some_and (\<lambda>code. code = 503) (http_status_code e) then Continue e
      else Permanent e)"

definition aip194_strict :: retry_policy where
  "aip194_strict = simple_policy aip194_on_error"

subsection \<open>AlwaysRetry and NeverRetry\<close>

definition always_retry :: retry_policy where
  "always_retry = simple_policy (\<lambda>st e. Continue e)"

definition never_retry :: retry_policy where
  "never_retry = simple_policy (\<lambda>st e. Exhausted e)"

subsection \<open>LimitedElapsedTime\<close>

definition elapsed_error_if_exhausted ::
  "duration \<Rightarrow> instant \<Rightarrow> retry_state \<Rightarrow> error \<Rightarrow> throttle_result run" where
  "elapsed_error_if_exhausted maximum_duration now st e =
     bind_run (instant_add (start st) maximum_duration) (\<lambda>deadline.
       if now < deadline then Ret (ThrottleContinue e)
       else Ret (ThrottleExhausted (exhausted (ElapsedTimeError maximum_duration e))))"

definition elapsed_on_error ::
  "retry_policy \<Rightarrow> duration \<Rightarrow> instant \<Rightarrow> retry_state \<Rightarrow> error \<Rightarrow> retry_result run" where
  "elapsed_on_error inner maximum_duration now st e =
     bind_run (on_error inner now st e) (\<lambda>r.
       case r of
         Permanent e' \<Rightarrow> Ret (Permanent e')
       | Exhausted e' \<Rightarrow> Ret (Exhausted e')
       | Continue e' \<Rightarrow>
           bind_run (instant_add (start st) maximum_duration) (\<lambda>deadline.
             if deadline \<le> now then Ret (Exhausted e') else Ret (Continue e')))"

definition elapsed_on_throttle ::
  "retry_policy \<Rightarrow> duration \<Rightarrow> instant \<Rightarrow> retry_state \<Rightarrow> error \<Rightarrow> throttle_result run" where
  "elapsed_on_throttle inner maximum_duration now st e =
     bind_run (on_throttle inner now st e) (\<lambda>r.
       case r of
         ThrottleContinue e' \<Rightarrow> elapsed_error_if_exhausted maximum_duration now st e'
       | ThrottleExhausted e' \<Rightarrow> Ret (ThrottleExhausted e'))"

text \<open>\<open>saturating_duration_since\<close> is the truncating subtraction of \<open>nat\<close>.\<close>

definition elapsed_remaining_time ::
  "retry_policy \<Rightarrow> duration \<Rightarrow> instant \<Rightarrow> retry_state \<Rightarrow> duration option run" where
  "elapsed_remaining_time inner maximum_duration now st =
     bind_run (instant_add (start st) maximum_duration) (\<lambda>deadline.
       let remaining = deadline - now
       in bind_run (remaining_time inner now st) (\<lambda>r.
            case r of
              Some t \<Rightarrow> Ret (Some (min remaining t))
            | None \<Rightarrow> Ret (Some remaining)))"

definition limited_elapsed_time :: "retry_policy \<Rightarrow> duration \<Rightarrow> retry_policy" where
  "limited_elapsed_time inner maximum_duration =
     \<lparr>on_error = elapsed_on_error inner maximum_duration,
      on_throttle = elapsed_on_throttle inner maximum_duration,
      remaining_time = elapsed_remaining_time inner maximum_duration\<rparr>"

definition limited_elapsed_time_new :: "duration \<Rightarrow> retry_policy" where
  "limited_elapsed_time_new maximum_duration = limited_elapsed_time aip194_strict maximum_duration"

subsection \<open>LimitedAttemptCount\<close>

definition attempt_on_error ::
  "retry_policy \<Rightarrow> u32 \<Rightarrow> instant \<Rightarrow> retry_state \<Rightarrow> error \<Rightarrow> retry_result run" where
  "attempt_on_error inner maximum_attempts now st e =
     bind_run (on_error inner now st e) (\<lambda>r.
       case r of
         Permanent e' \<Rightarrow> Ret (Permanent e')
       | Exhausted e' \<Rightarrow> Ret (Exhausted e')
       | Continue e' \<Rightarrow>
           (if maximum_attempts \<le> attempt_count st then Ret (Exhausted e') else Ret (Continue e')))"

definition attempt_on_throttle ::
  "retry_policy \<Rightarrow> u32 \<Rightarrow> instant \<Rightarrow> retry_state \<Rightarrow> error \<Rightarrow> throttle_result run" where
  "attempt_on_throttle inner maximum_attempts now st e =
     bind_run (on_throttle inner now st e) (\<lambda>r.
       case r of
         ThrottleContinue e' \<Rightarrow>
           (if maximum_attempts \<le> attempt_count st then Ret (ThrottleExhausted e') else Ret r)
       | ThrottleExhausted _ \<Rightarrow> Ret r)"

definition limited_attempt_count :: "retry_policy \<Rightarrow> u32 \<Rightarrow> retry_policy" where
  "limited_attempt_count inner maximum_attempts =
     \<lparr>on_error = attempt_on_error inner maximum_attempts,
      on_throttle = attempt_on_throttle inner maximum_attempts,
      remaining_time = remaining_time inner\<rparr>"

definition limited_attempt_count_new :: "u32 \<Rightarrow> retry_policy" where
  "limited_attempt_count_new maximum_attempts = limited_attempt_count aip194_strict maximum_attempts"

subsection \<open>TooManyRequests\<close>

definition is_resource_exhausted :: "error \<Rightarrow> bool" where
  "is_resource_exhausted e = is_some_and (\<lambda>s. status_code s = ResourceExhausted) (error_status e)"

definition is_too_many_requests :: "error \<Rightarrow> bool" where
  "is_too_many_requests e = is_some_and (\<lambda>code. code = 429) (http_status_code e)"

definition too_many_requests :: "retry_policy \<Rightarrow> retry_policy" where
  "too_many_requests inner =
     \<lparr>on_error = (\<lambda>now st e.
        if is_resource_exhausted e \<or> is_too_many_requests e then Ret (Continue e)
        else on_error inner now st e),
      on_throttle = (\<lambda>now st e. on_throttle inner now st e),
      remaining_time = (\<lambda>now st. remaining_time inner now st)\<rparr>"

subsection \<open>ClientTimeout\<close>

definition client_timeout :: "retry_policy \<Rightarrow> retry_policy" where
  "client_timeout inner =
     \<lparr>on_error = (\<lambda>now st e.
        if idempotent st \<and> is_timeout e then Ret (Continue e)
        else on_error inner now st e),
      on_throttle = (\<lambda>now st e. on_throttle inner now st e),
      remaining_time = (\<lambda>now st. remaining_time inner now st)\<rparr>"

subsection \<open>Extension methods\<close>

definition with_time_limit :: "retry_policy \<Rightarrow> duration \<Rightarrow> retry_policy" where
  "with_time_limit self maximum_duration = limited_elapsed_time self maximum_duration"

definition with_attempt_limit :: "retry_policy \<Rightarrow> u32 \<Rightarrow> retry_policy" where
  "with_attempt_limit self maximum_attempts = limited_attempt_count self maximum_attempts"

definition continue_on_too_many_requests :: "retry_policy \<Rightarrow> retry_policy" where
  "continue_on_too_many_requests self = too_many_requests self"

definition continue_on_client_timeout :: "retry_policy \<Rightarrow> retry_policy" where
  "continue_on_client_timeout self = client_timeout self"

lemmas policy_ext_defs =
  with_time_limit_def with_attempt_limit_def continue_on_too_many_requests_def
  continue_on_client_timeout_def

section \<open>Selector lemmas\<close>

lemma limited_elapsed_time_sel [simp]:
  "on_error (limited_elapsed_time p d) = elapsed_on_error p d"
  "on_throttle (limited_elapsed_time p d) = elapsed_on_throttle p d"
  "remaining_time (limited_elapsed_time p d) = elapsed_remaining_time p d"
  by (simp_all add: limited_elapsed_time_def)

lemma limited_attempt_count_sel [simp]:
  "on_error (limited_attempt_count p n) = attempt_on_error p n"
  "on_throttle (limited_attempt_count p n) = attempt_on_throttle p n"
  "remaining_time (limited_attempt_count p n) = remaining_time p"
  by (simp_all add: limited_attempt_count_def)

lemma too_many_requests_sel [simp]:
  "on_error (too_many_requests p) now st e =
     (if is_resource_exhausted e \<or> is_too_many_requests e then Ret (Continue e)
      else on_error p now st e)"
  "on_throttle (too_many_requests p) = on_throttle p"
  "remaining_time (too_many_requests p) = remaining_time p"
  by (simp_all add: too_many_requests_def)

lemma client_timeout_sel [simp]:
  "on_error (client_timeout p) now st e =
     (if idempotent st \<and> is_timeout e then Ret (Continue e) else on_error p now st e)"
  "on_throttle (client_timeout p) = on_throttle p"
  "remaining_time (client_timeout p) = remaining_time p"
  by (simp_all add: client_timeout_def)

section \<open>What the decorators do\<close>

lemma elapsed_on_error_cases:
  "elapsed_on_error p d now st e =
     (case on_error p now st e of
        Ret (Continue e') \<Rightarrow>
          (if INSTANT_LIMIT \<le> start st + d then Panic
           else if start st + d \<le> now then Ret (Exhausted e') else Ret (Continue e'))
      | r \<Rightarrow> r)"
  by (cases "on_error p now st e")
    (auto simp: elapsed_on_error_def instant_add_def split: retry_result.splits)

lemma attempt_on_error_cases:
  "attempt_on_error p n now st e =
     (case on_error p now st e of
        Ret (Continue e') \<Rightarrow>
          (if n \<le> attempt_count st then Ret (Exhausted e') else Ret (Continue e'))
      | r \<Rightarrow> r)"
  by (cases "on_error p now st e")
    (auto simp: attempt_on_error_def split: retry_result.splits)

lemma elapsed_on_throttle_cases:
  "elapsed_on_throttle p d now st e =
     (case on_throttle p now st e of
        Ret (ThrottleContinue e') \<Rightarrow>
          (if INSTANT_LIMIT \<le> start st + d then Panic
           else if now < start st + d then Ret (ThrottleContinue e')
           else Ret (ThrottleExhausted (exhausted (ElapsedTimeError d e'))))
      | r \<Rightarrow> r)"
  by (cases "on_throttle p now st e")
    (auto simp: elapsed_on_throttle_def elapsed_error_if_exhausted_def instant_add_def
      split: throttle_result.splits)

lemma attempt_on_throttle_cases:
  "attempt_on_throttle p n now st e =
     (case on_throttle p now st e of
        Ret (ThrottleContinue e') \<Rightarrow>
          (if n \<le> attempt_count st then Ret (ThrottleExhausted e') else Ret (ThrottleContinue e'))
      | r \<Rightarrow> r)"
  by (cases "on_throttle p now st e")
    (auto simp: attempt_on_throttle_def split: throttle_result.splits)

lemmas policy_cases =
  elapsed_on_error_cases attempt_on_error_cases elapsed_on_throttle_cases attempt_on_throttle_cases

lemmas policy_splits = run.splits retry_result.splits throttle_result.splits if_splits

lemma elapsed_on_error_ContinueD:
  "elapsed_on_error p d now st e = Ret (Continue e') \<Longrightarrow>
     on_error p now st e = Ret (Continue e') \<and> now < start st + d"
  by (auto simp: elapsed_on_error_cases split: run.splits retry_result.splits if_splits)

lemma attempt_on_error_ContinueD:
  "attempt_on_error p n now st e = Ret (Continue e') \<Longrightarrow>
     on_error p now st e = Ret (Continue e') \<and> attempt_count st < n"
  by (auto simp: attempt_on_error_cases split: run.splits retry_result.splits if_splits)

lemma elapsed_remaining_time_eq:
  "elapsed_remaining_time p d now st =
     (if INSTANT_LIMIT \<le> start st + d then Panic
      else map_run (\<lambda>r. Some (case r of Some t \<Rightarrow> min (start st + d - now) t
                                      | None \<Rightarrow> start st + d - now))
             (remaining_time p now st))"
  by (cases "remaining_time p now st")
    (auto simp: elapsed_remaining_time_def instant_add_def Let_def split: option.splits)

section \<open>Contracts\<close>

text \<open>
  What the retry loop relies on: a policy hands back the error it was asked about, and a
  throttled attempt either keeps the previous error or wraps it in an exhausted error.
\<close>

fun result_error :: "retry_result \<Rightarrow> error" where
  "result_error (Permanent e) = e"
| "result_error (Exhausted e) = e"
| "result_error (Continue e) = e"

locale retry_contract =
  fixes P :: retry_policy
  assumes on_error_keeps: "on_error P now st e = Ret r \<Longrightarrow> result_error r = e"
    and on_throttle_continue: "on_throttle P now st e = Ret (ThrottleContinue e') \<Longrightarrow> e' = e"
    and on_throttle_exhausted: "on_throttle P now st e = Ret (ThrottleExhausted e') \<Longrightarrow>
          e' = e \<or> (\<exists>d. e' = exhausted (ElapsedTimeError d e))"
begin

lemmas laws = on_error_keeps on_throttle_continue on_throttle_exhausted

lemma limited_elapsed_time_contract: "retry_contract (limited_elapsed_time P d)"
  by unfold_locales (auto simp: policy_cases split: policy_splits dest: laws)

lemma limited_attempt_count_contract: "retry_contract (limited_attempt_count P n)"
  by unfold_locales (auto simp: policy_cases split: policy_splits dest: laws)

lemma too_many_requests_contract: "retry_contract (too_many_requests P)"
  by unfold_locales (auto split: if_splits dest: laws)

lemma client_timeout_contract: "retry_contract (client_timeout P)"
  by unfold_locales (auto split: if_splits dest: laws)

end

lemma simple_policy_contract:
  "(\<And>st e. result_error (f st e) = e) \<Longrightarrow> retry_contract (simple_policy f)"
  by unfold_locales auto

text \<open>
  Policies that never repeat a request that is not idempotent once it may have reached the
  service.
\<close>

locale idempotency_contract = retry_contract +
  assumes not_idempotent: "on_error P now st e = Ret (Continue e') \<Longrightarrow> \<not> idempotent st \<Longrightarrow>
     is_transient_and_before_rpc e"
begin

lemma limited_elapsed_time_idem: "idempotency_contract (limited_elapsed_time P d)"
  by (intro idempotency_contract.intro limited_elapsed_time_contract
      idempotency_contract_axioms.intro)
    (auto dest!: elapsed_on_error_ContinueD not_idempotent)

lemma limited_attempt_count_idem: "idempotency_contract (limited_attempt_count P n)"
  by (intro idempotency_contract.intro limited_attempt_count_contract
      idempotency_contract_axioms.intro)
    (auto dest!: attempt_on_error_ContinueD not_idempotent)

lemma client_timeout_idem: "idempotency_contract (client_timeout P)"
  by (intro idempotency_contract.intro client_timeout_contract idempotency_contract_axioms.intro)
    (auto split: if_splits dest: not_idempotent)

end

interpretation aip: idempotency_contract aip194_strict
  unfolding aip194_strict_def
  by (intro idempotency_contract.intro simple_policy_contract idempotency_contract_axioms.intro)
    (auto simp: aip194_on_error_def split: if_splits)

interpretation always: retry_contract always_retry
  unfolding always_retry_def by (rule simple_policy_contract) simp

interpretation never: idempotency_contract never_retry
  unfolding never_retry_def
  by (intro idempotency_contract.intro simple_policy_contract idempotency_contract_axioms.intro) auto

section \<open>The policies of the library\<close>

text \<open>The policies that can be put together from the parts of this theory.\<close>

inductive library_policy :: "retry_policy \<Rightarrow> bool" where
  "library_policy aip194_strict"
| "library_policy always_retry"
| "library_policy never_retry"
| "library_policy p \<Longrightarrow> library_policy (with_time_limit p d)"
| "library_policy p \<Longrightarrow> library_policy (with_attempt_limit p n)"
| "library_policy p \<Longrightarrow> library_policy (continue_on_too_many_requests p)"
| "library_policy p \<Longrightarrow> library_policy (continue_on_client_timeout p)"

lemma library_policy_contract: "library_policy p \<Longrightarrow> retry_contract p"
  by (induction rule: library_policy.induct)
    (simp_all add: policy_ext_defs aip.retry_contract_axioms always.retry_contract_axioms
      never.retry_contract_axioms retry_contract.limited_elapsed_time_contract
      retry_contract.limited_attempt_count_contract retry_contract.too_many_requests_contract
      retry_contract.client_timeout_contract)

text \<open>The ones among them that respect idempotency.\<close>

inductive idempotency_policy :: "retry_policy \<Rightarrow> bool" where
  "idempotency_policy aip194_strict"
| "idempotency_policy never_retry"
| "idempotency_policy p \<Longrightarrow> idempotency_policy (with_time_limit p d)"
| "idempotency_policy p \<Longrightarrow> idempotency_policy (with_attempt_limit p n)"
| "idempotency_policy p \<Longrightarrow> idempotency_policy (continue_on_client_timeout p)"

lemma idempotency_policy_contract: "idempotency_policy p \<Longrightarrow> idempotency_contract p"
  by (induction rule: idempotency_policy.induct)
    (simp_all add: policy_ext_defs aip.idempotency_contract_axioms
      never.idempotency_contract_axioms idempotency_contract.limited_elapsed_time_idem
      idempotency_contract.limited_attempt_count_idem idempotency_contract.client_timeout_idem)

section \<open>Properties\<close>

text \<open>
  Limits combine as a conjunction, in any order: a policy with a time limit and an attempt
  limit continues exactly if the inner policy continues, the attempts are below the limit and the
  deadline has not passed.
\<close>

theorem limits_are_conjunctive:
  assumes "start st + d < INSTANT_LIMIT"
  shows "(on_error (with_time_limit (with_attempt_limit p n) d) now st e = Ret (Continue e') \<longleftrightarrow>
       on_error p now st e = Ret (Continue e') \<and> attempt_count st < n \<and> now < start st + d) \<and>
    (on_error (with_attempt_limit (with_time_limit p d) n) now st e = Ret (Continue e') \<longleftrightarrow>
       on_error p now st e = Ret (Continue e') \<and> attempt_count st < n \<and> now < start st + d)"
  using assms by (auto simp: policy_ext_defs policy_cases not_le not_less split: policy_splits)

lemma limits_are_conjunctive_witness:
  "on_error (with_time_limit (with_attempt_limit always_retry 3) (from_secs 10)) (from_secs 1)
     (set_attempt_count (retry_state_new 0 True) 2) (timeout (MsgError [])) =
     Ret (Continue (timeout (MsgError [])))"
  using limits_are_conjunctive [of "set_attempt_count (retry_state_new 0 True) 2" "from_secs 10"
      always_retry 3 "from_secs 1" "timeout (MsgError [])" "timeout (MsgError [])"]
  by (simp add: always_retry_def retry_state_defs from_secs_def INSTANT_LIMIT_def)

end
