(* ===== verification/Retry_Throttler.thy ===== *)
theory Retry_Throttler
  imports Retry_Policy
begin

text \<open>
  Retry throttling, \<open>gax/src/retry_throttler.rs\<close>: the \<open>CircuitBreaker\<close> throttler
  with its constructors and the three methods of the \<open>RetryThrottler\<close> trait. The
  counters are 64-bit words with the saturating arithmetic of the source. The locale
  \<open>token_throttler\<close> states what a token-counting throttler promises in terms of a
  natural number of tokens; the circuit breaker is an instance of it.
\<close>

section \<open>Model\<close>

datatype throttler_error = TooFewMinTokens (tf_min: u64) (tf_initial: u64)

record circuit_breaker =
  max_tokens :: u64
  min_tokens :: u64
  cur_tokens :: u64
  error_cost :: u64

definition cb_new :: "u64 \<Rightarrow> u64 \<Rightarrow> u64 \<Rightarrow> (throttler_error, circuit_breaker) result" where
  "cb_new tokens mn cost =
     (if tokens < mn then Err (TooFewMinTokens mn tokens)
      else Ok \<lparr>max_tokens = tokens, min_tokens = mn, cur_tokens = tokens, error_cost = cost\<rparr>)"

definition cb_clamp :: "u64 \<Rightarrow> u64 \<Rightarrow> u64 \<Rightarrow> circuit_breaker" where
  "cb_clamp tokens mn cost =
     \<lparr>max_tokens = tokens, min_tokens = min mn tokens, cur_tokens = tokens, error_cost = cost\<rparr>"

definition cb_default :: circuit_breaker where
  "cb_default = cb_clamp 100 50 10"

definition cb_throttle_retry_attempt :: "circuit_breaker \<Rightarrow> bool" where
  "cb_throttle_retry_attempt cb = (cur_tokens cb \<le> min_tokens cb)"

definition cb_on_success :: "circuit_breaker \<Rightarrow> circuit_breaker" where
  "cb_on_success cb =
     cb\<lparr>cur_tokens := min (max_tokens cb) (saturating_add (cur_tokens cb) 1)\<rparr>"

definition cb_on_retry_failure :: "retry_result \<Rightarrow> circuit_breaker \<Rightarrow> circuit_breaker" where
  "cb_on_retry_failure flow cb =
     (case flow of
        Continue _ \<Rightarrow> cb\<lparr>cur_tokens := saturating_sub (cur_tokens cb) (error_cost cb)\<rparr>
      | Exhausted _ \<Rightarrow> cb\<lparr>cur_tokens := saturating_sub (cur_tokens cb) (error_cost cb)\<rparr>
      | Permanent _ \<Rightarrow> cb_on_success cb)"

section \<open>Well-formedness\<close>

definition cb_wf :: "circuit_breaker \<Rightarrow> bool" where
  "cb_wf cb \<longleftrightarrow> min_tokens cb \<le> max_tokens cb \<and> cur_tokens cb \<le> max_tokens cb"

lemma cb_new_wf: "cb_new t m c = Ok cb \<Longrightarrow> cb_wf cb"
  by (auto simp: cb_new_def cb_wf_def split: if_splits)

lemma cb_clamp_wf: "cb_wf (cb_clamp t m c)"
  by (simp add: cb_clamp_def cb_wf_def)

lemma unat_cb_on_success:
  "cb_wf cb \<Longrightarrow>
     unat (cur_tokens (cb_on_success cb)) = min (unat (max_tokens cb)) (Suc (unat (cur_tokens cb)))"
  using unsigned_less [of "max_tokens cb", where ?'a = nat]
  by (auto simp: cb_on_success_def cb_wf_def unat_min_word unat_saturating_add)

lemma unat_cb_failure:
  "unat (cur_tokens (cb_on_retry_failure (Continue e) cb)) =
     unat (cur_tokens cb) - unat (error_cost cb)"
  "unat (cur_tokens (cb_on_retry_failure (Exhausted e) cb)) =
     unat (cur_tokens cb) - unat (error_cost cb)"
  by (simp_all add: cb_on_retry_failure_def unat_saturating_sub)

lemma cb_frame [simp]:
  "max_tokens (cb_on_success cb) = max_tokens cb"
  "min_tokens (cb_on_success cb) = min_tokens cb"
  "error_cost (cb_on_success cb) = error_cost cb"
  "max_tokens (cb_on_retry_failure flow cb) = max_tokens cb"
  "min_tokens (cb_on_retry_failure flow cb) = min_tokens cb"
  "error_cost (cb_on_retry_failure flow cb) = error_cost cb"
  by (simp_all add: cb_on_success_def cb_on_retry_failure_def split: retry_result.splits)

lemma cb_on_success_wf: "cb_wf cb \<Longrightarrow> cb_wf (cb_on_success cb)"
  by (simp add: cb_wf_def cb_on_success_def)

lemma cb_on_retry_failure_wf: "cb_wf cb \<Longrightarrow> cb_wf (cb_on_retry_failure flow cb)"
  by (cases flow)
    (auto simp: cb_wf_def cb_on_retry_failure_def cb_on_success_def word_le_nat_alt
      unat_saturating_sub unat_min_word)

section \<open>The contract\<close>

text \<open>
  A token-counting throttler over a state type: \<open>level\<close> is the number of tokens,
  \<open>floor\<close> the threshold, \<open>ceiling\<close> the largest level and \<open>cost\<close> the price of
  a failed retry.
\<close>

locale token_throttler =
  fixes wf :: "'t \<Rightarrow> bool"
    and throttled :: "'t \<Rightarrow> bool"
    and failure :: "'t \<Rightarrow> 't"
    and success :: "'t \<Rightarrow> 't"
    and level :: "'t \<Rightarrow> nat"
    and floor :: "'t \<Rightarrow> nat"
    and ceiling :: "'t \<Rightarrow> nat"
    and cost :: "'t \<Rightarrow> nat"
  assumes wf_failure: "wf t \<Longrightarrow> wf (failure t)"
    and wf_success: "wf t \<Longrightarrow> wf (success t)"
    and throttled_iff: "wf t \<Longrightarrow> throttled t \<longleftrightarrow> level t \<le> floor t"
    and level_failure: "wf t \<Longrightarrow> level (failure t) = level t - cost t"
    and level_success: "wf t \<Longrightarrow> level (success t) = min (ceiling t) (Suc (level t))"
    and frame_failure: "floor (failure t) = floor t" "ceiling (failure t) = ceiling t"
        "cost (failure t) = cost t"
    and frame_success: "floor (success t) = floor t" "ceiling (success t) = ceiling t"
        "cost (success t) = cost t"
    and floor_le_ceiling: "wf t \<Longrightarrow> floor t \<le> ceiling t"
    and level_le_ceiling: "wf t \<Longrightarrow> level t \<le> ceiling t"
begin

lemma wf_successes: "wf t \<Longrightarrow> wf ((success ^^ n) t)"
  by (induction n) (auto simp: wf_success)

lemma wf_failures: "wf t \<Longrightarrow> wf ((failure ^^ n) t)"
  by (induction n) (auto simp: wf_failure)

lemma frame_successes:
  "floor ((success ^^ n) t) = floor t" "ceiling ((success ^^ n) t) = ceiling t"
  by (induction n) (auto simp: frame_success)

lemma frame_failures: "floor ((failure ^^ n) t) = floor t" "cost ((failure ^^ n) t) = cost t"
  by (induction n) (auto simp: frame_failure)

lemma level_successes: "wf t \<Longrightarrow> level ((success ^^ n) t) = min (ceiling t) (level t + n)"
proof (induction n)
  case 0
  then show ?case using level_le_ceiling [of t] by simp
next
  case (Suc n)
  then show ?case by (simp add: level_success wf_successes frame_successes)
qed

lemma level_failures: "wf t \<Longrightarrow> level ((failure ^^ n) t) = level t - n * cost t"
  by (induction n) (auto simp: level_failure wf_failures frame_failures)

lemma throttled_after_failures:
  assumes "wf t" "level t \<le> floor t + n * cost t"
  shows "throttled ((failure ^^ n) t)"
  using assms by (simp add: throttled_iff wf_failures level_failures frame_failures)

lemma recovers:
  assumes "wf t" "floor t < ceiling t" "floor t < level t + n"
  shows "\<not> throttled ((success ^^ n) t)"
  using assms by (simp add: throttled_iff wf_successes level_successes frame_successes)

lemma recovers_iff:
  assumes "wf t" "floor t < ceiling t"
  shows "\<not> throttled ((success ^^ n) t) \<longleftrightarrow> floor t < level t + n"
  using assms by (auto simp: throttled_iff wf_successes level_successes frame_successes)

end

interpretation cb: token_throttler cb_wf cb_throttle_retry_attempt
  "cb_on_retry_failure (Continue e)" cb_on_success
  "\<lambda>t. unat (cur_tokens t)" "\<lambda>t. unat (min_tokens t)" "\<lambda>t. unat (max_tokens t)"
  "\<lambda>t. unat (error_cost t)" for e
  by unfold_locales
    (auto simp: cb_on_retry_failure_wf cb_on_success_wf cb_throttle_retry_attempt_def
      word_le_nat_alt unat_cb_failure unat_cb_on_success cb_wf_def)

section \<open>Properties\<close>

text \<open>
  The circuit breaker trips and recovers when it should: for a breaker with threshold below its
  capacity, retries are throttled after \<open>n\<close> failed retries exactly if the failures cost all
  tokens above the threshold, and they are allowed again after \<open>n\<close> successes exactly if these
  bring the tokens above it.
\<close>

theorem circuit_breaker_trips_and_recovers:
  assumes "cb_new tokens mn error_cost' = Ok b" "mn < tokens"
  shows "(cb_throttle_retry_attempt ((cb_on_retry_failure (Continue e) ^^ n) b) \<longleftrightarrow>
       unat tokens \<le> unat mn + n * unat error_cost') \<and>
    (\<not> cb_throttle_retry_attempt ((cb_on_success ^^ m) ((cb_on_retry_failure (Continue e) ^^ n) b)) \<longleftrightarrow>
       unat mn < unat tokens - n * unat error_cost' + m)"
proof -
  have wf: "cb_wf b" by (rule cb_new_wf [OF assms(1)])
  have b: "cur_tokens b = tokens" "max_tokens b = tokens" "min_tokens b = mn" "error_cost b = error_cost'"
    using assms(1) by (auto simp: cb_new_def split: if_splits)
  let ?f = "(cb_on_retry_failure (Continue e) ^^ n) b"
  have frame: "min_tokens ?f = mn" "max_tokens ?f = tokens"
    using b by (induction n) simp_all
  have level: "unat (cur_tokens ?f) = unat tokens - n * unat error_cost'"
    using cb.level_failures [OF wf, of n e] b by simp
  have "cb_throttle_retry_attempt ?f \<longleftrightarrow> unat (cur_tokens ?f) \<le> unat (min_tokens ?f)"
    by (rule cb.throttled_iff [OF cb.wf_failures [OF wf]])
  moreover have "\<not> cb_throttle_retry_attempt ((cb_on_success ^^ m) ?f) \<longleftrightarrow>
      unat (min_tokens ?f) < unat (cur_tokens ?f) + m"
    using assms(2) frame by (intro cb.recovers_iff cb.wf_failures wf) (simp add: word_less_nat_alt)
  ultimately show ?thesis using level frame by auto
qed

lemma circuit_breaker_trips_and_recovers_witness:
  "cb_new 100 50 10 = Ok \<lparr>max_tokens = 100, min_tokens = 50, cur_tokens = 100, error_cost = 10\<rparr> \<and>
   cb_throttle_retry_attempt ((cb_on_retry_failure (Continue (timeout (MsgError []))) ^^ 5)
     \<lparr>max_tokens = 100, min_tokens = 50, cur_tokens = 100, error_cost = 10\<rparr>)"
proof -
  have h: "cb_new 100 50 10 = Ok \<lparr>max_tokens = 100, min_tokens = 50, cur_tokens = 100, error_cost = 10\<rparr>"
    by (simp add: cb_new_def)
  show ?thesis using h circuit_breaker_trips_and_recovers [OF h] by simp
qed

text \<open>
  The tokens of a circuit breaker stay between zero and its capacity with no wrap-around, for
  any sequence of successes and failed retries.
\<close>

theorem circuit_breaker_invariant:
  assumes "cb_new tokens mn error_cost' = Ok b"
  shows "cb_wf (fold (\<lambda>flow. case flow of None \<Rightarrow> cb_on_success | Some r \<Rightarrow> cb_on_retry_failure r) flows b)"
proof -
  have "cb_wf b" by (rule cb_new_wf [OF assms])
  then show ?thesis
    by (induction flows arbitrary: b) (auto simp: cb_on_success_wf cb_on_retry_failure_wf split: option.splits)
qed

lemma circuit_breaker_invariant_witness:
  "\<exists>b. cb_new 3 1 2 = Ok b \<and>
     cb_wf (fold (\<lambda>flow. case flow of None \<Rightarrow> cb_on_success | Some r \<Rightarrow> cb_on_retry_failure r)
       [Some (Continue (timeout (MsgError []))), Some (Exhausted (timeout (MsgError []))), None] b)"
proof -
  have "\<exists>b. cb_new 3 1 2 = Ok b" by (simp add: cb_new_def)
  then obtain b where h: "cb_new 3 1 2 = Ok b" by blast
  show ?thesis using h circuit_breaker_invariant [OF h] by blast
qed

end
