(* ===== verification/Retry_Loop.thy ===== *)
theory Retry_Loop
  imports Retry_Throttler
begin

text \<open>
  The retry loop, \<open>gax/src/retry_loop_internal.rs\<close>.

  The loop is generic in the request it retries, the clock, the sleep function, the shared
  throttler and the backoff policy. They are the fields of a \<open>loop_env\<close>: functions on a
  world \<open>'w\<close> that each call may change, so other clients of a shared throttler are part
  of the world too. A poisoned lock panics. One iteration of the loop is \<open>retry_step\<close>;
  \<open>retry_loop\<close> iterates it with fuel (\<open>None\<close> is "still running"), since the loop
  may not end.
\<close>

section \<open>Model\<close>

datatype retry_loop_attempt = Initial | Retry u32 duration error

fun attempt_number :: "retry_loop_attempt \<Rightarrow> u32" where
  "attempt_number Initial = 0"
| "attempt_number (Retry count _ _) = count"

record ('w, 'r) loop_env =
  env_now :: "'w \<Rightarrow> instant"
  env_inner :: "duration option \<Rightarrow> 'w \<Rightarrow> (error, 'r) result \<times> 'w"
  env_sleep :: "duration \<Rightarrow> 'w \<Rightarrow> 'w"
  env_throttle :: "'w \<Rightarrow> (bool \<times> 'w) run"
  env_on_retry_failure :: "retry_result \<Rightarrow> 'w \<Rightarrow> 'w run"
  env_on_success :: "'w \<Rightarrow> 'w run"
  env_backoff :: "retry_state \<Rightarrow> 'w \<Rightarrow> duration \<times> 'w"

datatype ('w, 'r) loop_step =
    Next retry_loop_attempt 'w
  | Return "(error, 'r) result" 'w

text \<open>The second half of the loop body: the request and what follows it.\<close>

definition retry_call ::
  "('w, 'r) loop_env \<Rightarrow> retry_policy \<Rightarrow> retry_state \<Rightarrow> u32 \<Rightarrow> duration option \<Rightarrow> 'w \<Rightarrow>
   ('w, 'r) loop_step run" where
  "retry_call env policy state0 count remaining w =
     (let count = count + 1;
          state = set_attempt_count state0 count
      in case env_inner env remaining w of
           (Ok r, w1) \<Rightarrow> bind_run (env_on_success env w1) (\<lambda>w2. Ret (Return (Ok r) w2))
         | (Err e, w1) \<Rightarrow>
             bind_run (on_error policy (env_now env w1) state e) (\<lambda>flow.
               case env_backoff env state w1 of
                 (delay, w2) \<Rightarrow>
                   bind_run (env_on_retry_failure env flow w2) (\<lambda>w3.
                     case flow of
                       Permanent e' \<Rightarrow> Ret (Return (Err e') w3)
                     | Exhausted e' \<Rightarrow> Ret (Return (Err e') w3)
                     | Continue e' \<Rightarrow> Ret (Next (Retry count delay e') w3))))"

definition retry_step ::
  "('w, 'r) loop_env \<Rightarrow> retry_policy \<Rightarrow> bool \<Rightarrow> instant \<Rightarrow> retry_loop_attempt \<Rightarrow> 'w \<Rightarrow>
   ('w, 'r) loop_step run" where
  "retry_step env policy idem loop_start attempt w =
     (let count = attempt_number attempt;
          state = set_start (set_attempt_count (retry_state_new (env_now env w) idem) count) loop_start
      in bind_run (remaining_time policy (env_now env w) state) (\<lambda>remaining.
           case attempt of
             Initial \<Rightarrow> retry_call env policy state count remaining w
           | Retry c delay prev_error \<Rightarrow>
               (if is_some_and (\<lambda>t. t < delay) remaining
                then Ret (Return (Err (exhausted (GaxError prev_error))) w)
                else let w1 = env_sleep env delay w
                     in bind_run (env_throttle env w1) (\<lambda>(throttled, w2).
                          if throttled
                          then bind_run (on_throttle policy (env_now env w2) state prev_error) (\<lambda>r.
                                 case r of
                                   ThrottleExhausted e \<Rightarrow> Ret (Return (Err e) w2)
                                 | ThrottleContinue e \<Rightarrow>
                                     (case env_backoff env state w2 of
                                        (d, w3) \<Rightarrow> Ret (Next (Retry c d e) w3)))
                          else retry_call env policy state count remaining w2))))"

fun retry_loop_from ::
  "nat \<Rightarrow> ('w, 'r) loop_env \<Rightarrow> retry_policy \<Rightarrow> bool \<Rightarrow> instant \<Rightarrow> retry_loop_attempt \<Rightarrow> 'w \<Rightarrow>
   ((error, 'r) result \<times> 'w) run option" where
  "retry_loop_from 0 env policy idem loop_start attempt w = None"
| "retry_loop_from (Suc fuel) env policy idem loop_start attempt w =
     (case retry_step env policy idem loop_start attempt w of
        Panic \<Rightarrow> Some Panic
      | Ret (Return r w') \<Rightarrow> Some (Ret (r, w'))
      | Ret (Next attempt' w') \<Rightarrow> retry_loop_from fuel env policy idem loop_start attempt' w')"

definition retry_loop ::
  "nat \<Rightarrow> ('w, 'r) loop_env \<Rightarrow> retry_policy \<Rightarrow> bool \<Rightarrow> 'w \<Rightarrow>
   ((error, 'r) result \<times> 'w) run option" where
  "retry_loop fuel env policy idem w =
     retry_loop_from fuel env policy idem (env_now env w) Initial w"

text \<open>\<open>RequestOptions\<close> contributes its attempt timeout only.\<close>

definition effective_timeout :: "duration option \<Rightarrow> duration option \<Rightarrow> duration option" where
  "effective_timeout attempt_timeout remaining =
     (case (attempt_timeout, remaining) of
        (None, None) \<Rightarrow> None
      | (None, Some t) \<Rightarrow> Some t
      | (Some t, None) \<Rightarrow> Some t
      | (Some a, Some r) \<Rightarrow> Some (min a r))"

section \<open>Fuel\<close>

lemma retry_loop_from_numeral [simp]:
  "retry_loop_from (numeral k) env p idem t0 a w =
     (case retry_step env p idem t0 a w of
        Panic \<Rightarrow> Some Panic
      | Ret (Return r w') \<Rightarrow> Some (Ret (r, w'))
      | Ret (Next a' w') \<Rightarrow> retry_loop_from (pred_numeral k) env p idem t0 a' w')"
  by (simp add: numeral_eq_Suc)

lemma retry_loop_from_mono:
  "retry_loop_from fuel env p idem t0 a w = Some out \<Longrightarrow> fuel \<le> fuel' \<Longrightarrow>
     retry_loop_from fuel' env p idem t0 a w = Some out"
proof (induction fuel arbitrary: fuel' a w)
  case 0
  then show ?case by simp
next
  case (Suc fuel)
  then obtain f' where "fuel' = Suc f'" "fuel \<le> f'"
    by (cases fuel') auto
  with Suc show ?case
    by (auto split: run.splits loop_step.splits)
qed

section \<open>The states of a run\<close>

text \<open>\<open>loop_state env p idem t0 w0 a w\<close>: the loop started in \<open>w0\<close> gets to the top of an
  iteration with attempt \<open>a\<close> and world \<open>w\<close>.\<close>

inductive loop_state ::
  "('w, 'r) loop_env \<Rightarrow> retry_policy \<Rightarrow> bool \<Rightarrow> instant \<Rightarrow> 'w \<Rightarrow> retry_loop_attempt \<Rightarrow> 'w \<Rightarrow> bool"
  for env p idem t0 w0 where
  loop_start: "loop_state env p idem t0 w0 Initial w0"
| loop_next: "loop_state env p idem t0 w0 a w \<Longrightarrow>
    retry_step env p idem t0 a w = Ret (Next a' w') \<Longrightarrow> loop_state env p idem t0 w0 a' w'"

lemma retry_loop_from_last:
  "retry_loop_from fuel env p idem t0 a w = Some (Ret (r, w')) \<Longrightarrow>
     loop_state env p idem t0 w0 a w \<Longrightarrow>
     \<exists>a1 w1. loop_state env p idem t0 w0 a1 w1 \<and>
       retry_step env p idem t0 a1 w1 = Ret (Return r w')"
proof (induction fuel arbitrary: a w)
  case 0
  then show ?case by simp
next
  case (Suc fuel)
  show ?case
  proof (cases "retry_step env p idem t0 a w")
    case Panic
    with Suc.prems(1) show ?thesis by simp
  next
    case (Ret s)
    show ?thesis
    proof (cases s)
      case (Return r2 w2)
      with Ret Suc.prems show ?thesis by auto
    next
      case (Next a2 w2)
      with Ret Suc.prems(1) have "retry_loop_from fuel env p idem t0 a2 w2 = Some (Ret (r, w'))"
        by simp
      moreover from Ret Next Suc.prems(2) have "loop_state env p idem t0 w0 a2 w2"
        by (auto intro: loop_next)
      ultimately show ?thesis by (rule Suc.IH)
    qed
  qed
qed

lemma retry_loop_last:
  assumes "retry_loop fuel env p idem w0 = Some (Ret (r, w'))"
  shows "\<exists>a1 w1. loop_state env p idem (env_now env w0) w0 a1 w1 \<and>
       retry_step env p idem (env_now env w0) a1 w1 = Ret (Return r w')"
  using retry_loop_from_last [OF assms [unfolded retry_loop_def] loop_start] .

section \<open>One iteration, by cases\<close>

text \<open>
  What the loop did is recorded by an environment that keeps a log beside the world: every
  answer of the inner function and every sleep with the time it began.
\<close>

datatype 'r event = Called "(error, 'r) result" | Slept instant duration

definition logged :: "('w, 'r) loop_env \<Rightarrow> ('w \<times> 'r event list, 'r) loop_env" where
  "logged env =
     \<lparr>env_now = (\<lambda>(w, l). env_now env w),
      env_inner = (\<lambda>t (w, l). case env_inner env t w of (r, w') \<Rightarrow> (r, (w', l @ [Called r]))),
      env_sleep = (\<lambda>d (w, l). (env_sleep env d w, l @ [Slept (env_now env w) d])),
      env_throttle = (\<lambda>(w, l). map_run (\<lambda>(b, w'). (b, (w', l))) (env_throttle env w)),
      env_on_retry_failure = (\<lambda>f (w, l). map_run (\<lambda>w'. (w', l)) (env_on_retry_failure env f w)),
      env_on_success = (\<lambda>(w, l). map_run (\<lambda>w'. (w', l)) (env_on_success env w)),
      env_backoff = (\<lambda>st (w, l). case env_backoff env st w of (d, w') \<Rightarrow> (d, (w', l)))\<rparr>"

definition calls :: "'r event list \<Rightarrow> (error, 'r) result list" where
  "calls l = List.map_filter (\<lambda>ev. case ev of Called r \<Rightarrow> Some r | Slept _ _ \<Rightarrow> None) l"

definition sleeps :: "'r event list \<Rightarrow> (instant \<times> duration) list" where
  "sleeps l = List.map_filter (\<lambda>ev. case ev of Called _ \<Rightarrow> None | Slept t d \<Rightarrow> Some (t, d)) l"

lemma calls_simps [simp]:
  "calls [] = []" "calls (l @ [Called r]) = calls l @ [r]" "calls (l @ [Slept t d]) = calls l"
  by (simp_all add: calls_def List.map_filter_def)

lemma calls_append: "calls (l @ l') = calls l @ calls l'"
  by (simp add: calls_def List.map_filter_def)

lemma calls_Cons [simp]:
  "calls (Called r # l) = r # calls l" "calls (Slept t d # l) = calls l"
  by (simp_all add: calls_def List.map_filter_def)

lemma sleeps_simps [simp]:
  "sleeps [] = []" "sleeps (l @ [Called r]) = sleeps l"
  "sleeps (l @ [Slept t d]) = sleeps l @ [(t, d)]"
  by (simp_all add: sleeps_def List.map_filter_def)

lemma sleeps_append: "sleeps (l @ l') = sleeps l @ sleeps l'"
  by (simp add: sleeps_def List.map_filter_def)

lemma sleeps_Cons [simp]:
  "sleeps (Called r # l) = sleeps l" "sleeps (Slept t d # l) = (t, d) # sleeps l"
  by (simp_all add: sleeps_def List.map_filter_def)

lemma logged_sel [simp]:
  "env_now (logged env) (w, l) = env_now env w"
  "env_inner (logged env) t (w, l) =
     (case env_inner env t w of (r, w') \<Rightarrow> (r, (w', l @ [Called r])))"
  "env_sleep (logged env) d (w, l) = (env_sleep env d w, l @ [Slept (env_now env w) d])"
  "env_throttle (logged env) (w, l) = map_run (\<lambda>(b, w'). (b, (w', l))) (env_throttle env w)"
  "env_on_retry_failure (logged env) f (w, l) = map_run (\<lambda>w'. (w', l)) (env_on_retry_failure env f w)"
  "env_on_success (logged env) (w, l) = map_run (\<lambda>w'. (w', l)) (env_on_success env w)"
  "env_backoff (logged env) st (w, l) = (case env_backoff env st w of (d, w') \<Rightarrow> (d, (w', l)))"
  by (simp_all add: logged_def)

definition loop_retry_state :: "bool \<Rightarrow> instant \<Rightarrow> u32 \<Rightarrow> retry_state" where
  "loop_retry_state idem t0 c = \<lparr>idempotent = idem, start = t0, attempt_count = c\<rparr>"

lemma loop_retry_state_sel [simp]:
  "idempotent (loop_retry_state idem t0 c) = idem"
  "start (loop_retry_state idem t0 c) = t0"
  "attempt_count (loop_retry_state idem t0 c) = c"
  "set_attempt_count (loop_retry_state idem t0 c) c' = loop_retry_state idem t0 c'"
  "set_start (set_attempt_count (retry_state_new now idem) c) t0 = loop_retry_state idem t0 c"
  by (simp_all add: loop_retry_state_def retry_state_defs)

text \<open>The outcomes of the request half of an iteration.\<close>

lemma retry_call_logged_Next:
  assumes "retry_call (logged env) p (loop_retry_state idem t0 c0) c rem (w, l) = Ret (Next a' wl')"
  obtains e e' d w' now where "a' = Retry (c + 1) d e'" "wl' = (w', l @ [Called (Err e)])"
    "on_error p now (loop_retry_state idem t0 (c + 1)) e = Ret (Continue e')"
  using assms
  unfolding retry_call_def Let_def loop_retry_state_sel
  by (auto simp: bind_run_Ret_iff map_run_Ret_iff case_prod_eq case_result_eq case_retry_result_eq)

lemma retry_call_logged_Return:
  assumes "retry_call (logged env) p (loop_retry_state idem t0 c0) c rem (w, l) = Ret (Return r wl')"
  obtains (ok) x w' where "r = Ok x" "wl' = (w', l @ [Called (Ok x)])"
  | (err) e f w' now where "on_error p now (loop_retry_state idem t0 (c + 1)) e = Ret f"
      "\<not> is_continue f" "r = Err (result_error f)" "wl' = (w', l @ [Called (Err e)])"
proof (cases "env_inner env rem w")
  case (Pair res w1)
  show thesis
  proof (cases res)
    case (Ok x)
    with Pair assms show thesis
      by (auto simp: retry_call_def Let_def bind_run_Ret_iff map_run_Ret_iff intro: ok)
  next
    case (Err e)
    with Pair assms obtain f where
      f: "on_error p (env_now env w1) (loop_retry_state idem t0 (c + 1)) e = Ret f"
      by (auto simp: retry_call_def Let_def bind_run_Ret_iff)
    with Pair Err assms show thesis
      by (cases f)
        (auto simp: retry_call_def Let_def bind_run_Ret_iff map_run_Ret_iff case_prod_eq
          intro: err [OF f])
  qed
qed

text \<open>
  The steps that go on: the first request failed, a retry was throttled, or a retry was sent and
  failed. In the last two the loop slept for the whole delay, which the policy's remaining time
  covered.
\<close>

lemma retry_step_logged_Next:
  assumes "retry_step (logged env) p idem t0 a (w, l) = Ret (Next a' wl')"
  obtains (first) e e' d w' now where "a = Initial"
      "a' = Retry 1 d e'" "wl' = (w', l @ [Called (Err e)])"
      "on_error p now (loop_retry_state idem t0 1) e = Ret (Continue e')"
  | (throttled) c d prev d' e' w' now rem where "a = Retry c d prev"
      "a' = Retry c d' e'" "wl' = (w', l @ [Slept (env_now env w) d])"
      "on_throttle p now (loop_retry_state idem t0 c) prev = Ret (ThrottleContinue e')"
      "remaining_time p (env_now env w) (loop_retry_state idem t0 c) = Ret rem"
      "\<not> is_some_and (\<lambda>t. t < d) rem"
  | (again) c d prev e e' d' w' now rem where "a = Retry c d prev"
      "a' = Retry (c + 1) d' e'" "wl' = (w', l @ [Slept (env_now env w) d, Called (Err e)])"
      "on_error p now (loop_retry_state idem t0 (c + 1)) e = Ret (Continue e')"
      "remaining_time p (env_now env w) (loop_retry_state idem t0 c) = Ret rem"
      "\<not> is_some_and (\<lambda>t. t < d) rem"
proof (cases a)
  case Initial
  with assms show ?thesis
    by (auto simp: retry_step_def Let_def bind_run_Ret_iff elim!: retry_call_logged_Next intro: first)
next
  case (Retry c d prev)
  with assms obtain rem where rem: "remaining_time p (env_now env w) (loop_retry_state idem t0 c) = Ret rem"
    and le: "\<not> is_some_and (\<lambda>t. t < d) rem"
    by (auto simp: retry_step_def Let_def bind_run_Ret_iff split: if_splits)
  from assms Retry rem le obtain b w2 where thr: "env_throttle env (env_sleep env d w) = Ret (b, w2)"
    by (auto simp: retry_step_def Let_def bind_run_Ret_iff map_run_Ret_iff)
  show ?thesis
  proof (cases b)
    case True
    with assms Retry rem le thr show ?thesis
      by (auto simp: retry_step_def Let_def bind_run_Ret_iff case_throttle_result_eq case_prod_eq
          intro: throttled)
  next
    case False
    with assms Retry rem le thr show ?thesis
      by (auto simp: retry_step_def Let_def elim!: retry_call_logged_Next intro: again)
  qed
qed

text \<open>What an iteration does before the request: nothing, or the sleep of a retry.\<close>

fun wait_events :: "instant \<Rightarrow> retry_loop_attempt \<Rightarrow> 'r event list" where
  "wait_events now Initial = []"
| "wait_events now (Retry _ d _) = [Slept now d]"

lemma calls_wait [simp]: "calls (wait_events now a) = []"
  by (cases a) simp_all

lemma retry_step_logged_Return:
  assumes "retry_step (logged env) p idem t0 a (w, l) = Ret (Return r wl')"
  obtains (timeup) c d prev where "a = Retry c d prev" "r = Err (exhausted (GaxError prev))"
      "wl' = (w, l)"
  | (throttled) c d prev e' w' now where "a = Retry c d prev"
      "on_throttle p now (loop_retry_state idem t0 c) prev = Ret (ThrottleExhausted e')"
      "r = Err e'" "wl' = (w', l @ [Slept (env_now env w) d])"
  | (ok) x w' where "r = Ok x" "wl' = (w', l @ wait_events (env_now env w) a @ [Called (Ok x)])"
  | (err) e f w' now where
      "on_error p now (loop_retry_state idem t0 (attempt_number a + 1)) e = Ret f"
      "\<not> is_continue f" "r = Err (result_error f)"
      "wl' = (w', l @ wait_events (env_now env w) a @ [Called (Err e)])"
proof (cases a)
  case Initial
  with assms show ?thesis
    by (auto simp: retry_step_def Let_def bind_run_Ret_iff elim!: retry_call_logged_Return
        intro: ok err)
next
  case (Retry c d prev)
  show ?thesis
  proof (cases "r = Err (exhausted (GaxError prev)) \<and> wl' = (w, l)")
    case True
    with Retry show ?thesis by (auto intro: timeup)
  next
    case False
    with assms Retry obtain rem where
      rem: "remaining_time p (env_now env w) (loop_retry_state idem t0 c) = Ret rem"
      and le: "\<not> is_some_and (\<lambda>t. t < d) rem"
      by (auto simp: retry_step_def Let_def bind_run_Ret_iff split: if_splits)
    from assms Retry rem le obtain b w2 where thr: "env_throttle env (env_sleep env d w) = Ret (b, w2)"
      by (auto simp: retry_step_def Let_def bind_run_Ret_iff map_run_Ret_iff)
    show ?thesis
    proof (cases b)
      case True
      with assms Retry rem le thr show ?thesis
        by (auto simp: retry_step_def Let_def bind_run_Ret_iff case_throttle_result_eq case_prod_eq
            intro: throttled)
    next
      case False
      with assms Retry rem le thr show ?thesis
        by (auto simp: retry_step_def Let_def elim!: retry_call_logged_Return intro: ok err)
    qed
  qed
qed

section \<open>Invariants of the loop\<close>

text \<open>
  At the top of an iteration: before the first request nothing was called; before a retry, every
  call so far failed, the attempt count is their number, and the error carried along is the one
  of the last call.
\<close>

definition loop_inv :: "retry_loop_attempt \<Rightarrow> 'r event list \<Rightarrow> bool" where
  "loop_inv a l =
     (case a of
        Initial \<Rightarrow> l = []
      | Retry c d e \<Rightarrow> (\<exists>es. calls l = map Err es @ [Err e]) \<and> c = of_nat (length (calls l)))"

context retry_contract
begin

lemma loop_inv:
  "loop_state (logged env) P idem t0 (w0, []) a wl \<Longrightarrow> loop_inv a (snd wl)"
proof (induction rule: loop_state.induct)
  case loop_start
  then show ?case by (simp add: loop_inv_def)
next
  case (loop_next a wl a' wl')
  obtain w l where wl: "wl = (w, l)" by (cases wl)
  from loop_next.hyps(2) [unfolded wl] show ?case
  proof (cases rule: retry_step_logged_Next)
    case (first e e' d w' now)
    with loop_next.IH wl on_error_keeps [OF first(4)] show ?thesis
      by (simp add: loop_inv_def calls_append)
  next
    case (throttled c d prev d' e' w' now rem)
    with loop_next.IH wl on_throttle_continue [OF throttled(4)] show ?thesis
      by (simp add: loop_inv_def calls_append)
  next
    case (again c d prev e e' d' w' now rem)
    from loop_next.IH wl again(1) obtain es where es: "calls l = map Err (es @ [prev])"
      and c: "c = of_nat (length (calls l))"
      by (auto simp: loop_inv_def)
    have "map Err (es @ [prev]) @ [Err e] = map Err (es @ [prev]) @ [Err e']"
      using on_error_keeps [OF again(4)] by simp
    with es c again(2,3) show ?thesis
      by (auto simp: loop_inv_def calls_append simp del: map_append)
  qed
qed

text \<open>Where a result comes from.\<close>

lemma loop_result:
  assumes "retry_loop fuel (logged env) P idem (w0, []) = Some (Ret (r, (w', l)))"
  shows "\<exists>es. (\<exists>x. r = Ok x \<and> calls l = map Err es @ [Ok x]) \<or>
    (\<exists>e. calls l = map Err es @ [Err e] \<and>
       (r = Err e \<or> r = Err (exhausted (GaxError e)) \<or> (\<exists>d. r = Err (exhausted (ElapsedTimeError d e)))))"
proof -
  let ?t0 = "env_now (logged env) (w0, [])"
  obtain a w1 l1 where st: "loop_state (logged env) P idem ?t0 (w0, []) a (w1, l1)"
    and last: "retry_step (logged env) P idem ?t0 a (w1, l1) = Ret (Return r (w', l))"
    using retry_loop_last [OF assms] by auto
  from loop_inv [OF st] have inv: "loop_inv a l1" by simp
  have "\<exists>es. calls l1 = map Err es"
    using inv by (cases a) (auto simp: loop_inv_def intro: exI [of _ "[]"] exI [of _ "es @ [e]" for es e])
  then obtain es where es: "calls l1 = map Err es" ..
  from last show ?thesis
  proof (cases rule: retry_step_logged_Return)
    case (timeup c d prev)
    with inv show ?thesis by (auto simp: loop_inv_def)
  next
    case (throttled c d prev e' w'' now)
    with inv on_throttle_exhausted [OF throttled(2)] show ?thesis
      by (auto simp: loop_inv_def calls_append)
  next
    case (ok x w'')
    with es show ?thesis by (auto simp: calls_append)
  next
    case (err e f w'' now)
    with es on_error_keeps [OF err(1)] show ?thesis by (auto simp: calls_append)
  qed
qed

end

section \<open>Attempt limits\<close>

lemma attempt_limit_state:
  "loop_state (logged env) (limited_attempt_count p n) idem t0 (w0, []) a wl \<Longrightarrow>
     case a of
       Initial \<Rightarrow> calls (snd wl) = []
     | Retry c d e \<Rightarrow> unat c = length (calls (snd wl)) \<and> 1 \<le> unat c \<and> c < n"
proof (induction rule: loop_state.induct)
  case loop_start
  then show ?case by simp
next
  case (loop_next a wl a' wl')
  obtain w l where wl: "wl = (w, l)" by (cases wl)
  from loop_next.hyps(2) [unfolded wl] show ?case
  proof (cases rule: retry_step_logged_Next)
    case (first e e' d w' now)
    with loop_next.IH wl show ?thesis
      by (auto simp: calls_append dest: attempt_on_error_ContinueD)
  next
    case (throttled c d prev d' e' w' now rem)
    with loop_next.IH wl show ?thesis by (simp add: calls_append)
  next
    case (again c d prev e e' d' w' now rem)
    with loop_next.IH wl have "unat (c + 1) = Suc (unat c)"
      using unat_Suc_word [of c n] by simp
    with again loop_next.IH wl show ?thesis
      by (auto simp: calls_append dest: attempt_on_error_ContinueD)
  qed
qed

lemma attempt_limit_return:
  assumes st: "loop_state (logged env) (limited_attempt_count p n) idem t0 (w0, []) a (w, l)"
    and step: "retry_step (logged env) (limited_attempt_count p n) idem t0 a (w, l) = Ret (Return r (w', l'))"
  shows "1 \<le> length (calls l') \<and> length (calls l') \<le> max 1 (unat n)"
proof -
  from attempt_limit_state [OF st]
  have inv: "length (calls l) = unat (attempt_number a)"
    "a = Initial \<or> (1 \<le> unat (attempt_number a) \<and> attempt_number a < n)"
    by (cases a; simp)+
  from step have "length (calls l') = length (calls l) \<and> a \<noteq> Initial \<or>
      length (calls l') = Suc (length (calls l))"
    by (cases rule: retry_step_logged_Return) (auto simp: calls_append)
  with inv show ?thesis
    by (auto simp: word_less_nat_alt)
qed

text \<open>The potential of the loop when nothing is throttled: the attempts that are left.\<close>

definition never_throttles :: "('w, 'r) loop_env \<Rightarrow> bool" where
  "never_throttles env \<longleftrightarrow> (\<forall>w w'. env_throttle env w \<noteq> Ret (True, w'))"

lemma retry_call_attempt_limit_Next:
  "retry_call env (limited_attempt_count p n) st c rem w = Ret (Next a' w') \<Longrightarrow>
     \<exists>d e. a' = Retry (c + 1) d e \<and> c + 1 < n"
  unfolding retry_call_def Let_def
  by (auto simp: bind_run_Ret_iff case_prod_eq case_result_eq case_retry_result_eq
      set_attempt_count_def dest!: attempt_on_error_ContinueD)

lemma retry_step_attempt_limit_Next:
  assumes "never_throttles env"
    and "retry_step env (limited_attempt_count p n) idem t0 a w = Ret (Next a' w')"
  shows "\<exists>d e. a' = Retry (attempt_number a + 1) d e \<and> attempt_number a + 1 < n"
  using assms unfolding retry_step_def Let_def never_throttles_def
  by (cases a)
    (auto simp: bind_run_Ret_iff split: if_splits dest!: retry_call_attempt_limit_Next)

lemma attempt_limit_returns:
  assumes "never_throttles env" and "a = Initial \<or> attempt_number a < n"
    and "unat n \<le> unat (attempt_number a) + fuel"
  shows "\<exists>out. retry_loop_from (Suc fuel) env (limited_attempt_count p n) idem t0 a w = Some out"
  using assms(2,3)
proof (induction fuel arbitrary: a w)
  case 0
  have "\<not> attempt_number a + 1 < n"
    using 0 by (auto simp: word_less_nat_alt unat_eq_0)
  with retry_step_attempt_limit_Next [OF assms(1)] show ?case
    by (auto split: run.splits loop_step.splits)
next
  case (Suc fuel)
  show ?case
  proof (cases "retry_step env (limited_attempt_count p n) idem t0 a w")
    case (Ret s)
    show ?thesis
    proof (cases s)
      case (Next a' w')
      with Ret retry_step_attempt_limit_Next [OF assms(1)] obtain d e where
        a': "a' = Retry (attempt_number a + 1) d e" and lt: "attempt_number a + 1 < n"
        by blast
      have "unat (attempt_number a + 1) = Suc (unat (attempt_number a))"
        using Suc.prems(1) by (auto intro: unat_Suc_word)
      with Suc.prems(2) a' have "unat n \<le> unat (attempt_number a') + fuel" by simp
      with a' lt Suc.IH [of a' w'] have "\<exists>out. retry_loop_from (Suc fuel) env (limited_attempt_count p n) idem t0 a' w' = Some out"
        by simp
      with Ret Next show ?thesis by simp
    qed (use Ret in simp)
  qed simp
qed

section \<open>Time limits\<close>

lemma elapsed_remaining_le:
  "elapsed_remaining_time p d now st = Ret rem \<Longrightarrow> \<exists>t. rem = Some t \<and> t \<le> start st + d - now"
  by (auto simp: elapsed_remaining_time_eq map_run_Ret_iff split: if_splits option.splits)

lemma time_limit_sleeps:
  "loop_state (logged env) (limited_elapsed_time p lim) idem t0 (w0, []) a wl \<Longrightarrow>
     \<forall>(t, d) \<in> set (sleeps (snd wl)). d \<le> t0 + lim - t"
proof (induction rule: loop_state.induct)
  case loop_start
  then show ?case by simp
next
  case (loop_next a wl a' wl')
  obtain w l where wl: "wl = (w, l)" by (cases wl)
  from loop_next.hyps(2) [unfolded wl] show ?case
  proof (cases rule: retry_step_logged_Next)
    case (first e e' d w' now)
    with loop_next.IH wl show ?thesis by (simp add: sleeps_append)
  next
    case (throttled c d prev d' e' w' now rem)
    with loop_next.IH wl show ?thesis
      by (auto simp: sleeps_append dest!: elapsed_remaining_le)
  next
    case (again c d prev e e' d' w' now rem)
    with loop_next.IH wl show ?thesis
      by (auto simp: sleeps_append dest!: elapsed_remaining_le)
  qed
qed

text \<open>
  A clock that is never set back, and sleeps that take at least the time asked for, as
  \<open>tokio::time::sleep\<close> does. Then the time that is left bounds the iterations, throttled ones
  included, by the delays that the backoff draws: these may be short or zero, but the loop sleeps all of
  them.
\<close>

definition clock_runs :: "('w, 'r) loop_env \<Rightarrow> bool" where
  "clock_runs env \<longleftrightarrow>
     (\<forall>t w. env_now env w \<le> env_now env (snd (env_inner env t w))) \<and>
     (\<forall>d w. env_now env w + d \<le> env_now env (env_sleep env d w)) \<and>
     (\<forall>w b w'. env_throttle env w = Ret (b, w') \<longrightarrow> env_now env w \<le> env_now env w') \<and>
     (\<forall>f w w'. env_on_retry_failure env f w = Ret w' \<longrightarrow> env_now env w \<le> env_now env w') \<and>
     (\<forall>st w. env_now env w \<le> env_now env (snd (env_backoff env st w)))"

fun next_delay :: "retry_loop_attempt \<Rightarrow> duration" where
  "next_delay Initial = 0"
| "next_delay (Retry c d e) = d"

text \<open>The delays drawn in the first iterations, as far as the loop gets.\<close>

fun loop_delays ::
  "nat \<Rightarrow> ('w, 'r) loop_env \<Rightarrow> retry_policy \<Rightarrow> bool \<Rightarrow> instant \<Rightarrow> retry_loop_attempt \<Rightarrow> 'w \<Rightarrow> duration list" where
  "loop_delays 0 env policy idem loop_start attempt w = []"
| "loop_delays (Suc n) env policy idem loop_start attempt w =
     (case retry_step env policy idem loop_start attempt w of
        Ret (Next attempt' w') \<Rightarrow>
          next_delay attempt' # loop_delays n env policy idem loop_start attempt' w'
      | _ \<Rightarrow> [])"

definition delays_reach :: "duration \<Rightarrow> nat \<Rightarrow> duration list \<Rightarrow> bool" where
  "delays_reach lim n ds \<longleftrightarrow> (length ds = n \<longrightarrow> lim \<le> sum_list ds)"

lemma clock_runsD:
  assumes "clock_runs env"
  shows "env_inner env t w = (r, w') \<Longrightarrow> env_now env w \<le> env_now env w'"
    and "env_now env w + d \<le> env_now env (env_sleep env d w)"
    and "env_throttle env w = Ret (b, w') \<Longrightarrow> env_now env w \<le> env_now env w'"
    and "env_on_retry_failure env f w = Ret w' \<Longrightarrow> env_now env w \<le> env_now env w'"
    and "env_backoff env st w = (d, w') \<Longrightarrow> env_now env w \<le> env_now env w'"
  using assms unfolding clock_runs_def by (metis snd_conv)+

lemma retry_call_time_limit_Next:
  assumes clk: "clock_runs env" and st: "start st = t0"
    and "retry_call env (limited_elapsed_time p lim) st c rem w = Ret (Next a' w')"
  shows "a' \<noteq> Initial \<and> env_now env w \<le> env_now env w' \<and> env_now env w < t0 + lim"
proof -
  obtain e f e' d w1 w2 where inner: "env_inner env rem w = (Err e, w1)"
    and err: "elapsed_on_error p lim (env_now env w1) (set_attempt_count st (c + 1)) e = Ret (Continue f)"
    and rest: "env_backoff env (set_attempt_count st (c + 1)) w1 = (d, w2)"
      "env_on_retry_failure env (Continue f) w2 = Ret w'"
    and a': "a' = Retry (c + 1) d e'"
    using assms(3) unfolding retry_call_def Let_def
    by (auto simp: bind_run_Ret_iff case_prod_eq case_result_eq case_retry_result_eq)
  have "env_now env w1 < t0 + lim"
    using err st by (auto simp: elapsed_on_error_def bind_run_Ret_iff set_attempt_count_def
        case_retry_result_eq split: if_splits)
  with clock_runsD(1) [OF clk inner] clock_runsD(5) [OF clk rest(1)] clock_runsD(4) [OF clk rest(2)] a'
  show ?thesis by simp
qed

lemma retry_step_time_limit_Next:
  assumes clk: "clock_runs env"
    and step: "retry_step env (limited_elapsed_time p lim) idem t0 a w = Ret (Next a' w')"
  shows "a' \<noteq> Initial \<and> env_now env w + next_delay a \<le> env_now env w' \<and>
    (a \<noteq> Initial \<longrightarrow> env_now env w + next_delay a < t0 + lim)"
proof (cases a)
  case Initial
  with step show ?thesis
    by (auto simp: retry_step_def Let_def bind_run_Ret_iff
        dest!: retry_call_time_limit_Next [OF clk loop_retry_state_sel(2)])
next
  case (Retry c d prev)
  let ?st = "loop_retry_state idem t0 c"
  from step Retry obtain b w2 rem where thr: "env_throttle env (env_sleep env d w) = Ret (b, w2)"
    and body: "(if b then bind_run (elapsed_on_throttle p lim (env_now env w2) ?st prev) (\<lambda>r.
        case r of ThrottleExhausted e \<Rightarrow> Ret (Return (Err e) w2)
        | ThrottleContinue e \<Rightarrow> (case env_backoff env ?st w2 of (d, w3) \<Rightarrow> Ret (Next (Retry c d e) w3)))
      else retry_call env (limited_elapsed_time p lim) ?st c rem w2) = Ret (Next a' w')"
    by (auto simp: retry_step_def Let_def bind_run_Ret_iff split: if_splits)
  have now: "env_now env w + d \<le> env_now env w2"
    using clock_runsD(2) [OF clk, of w d] clock_runsD(3) [OF clk thr] by simp
  show ?thesis
  proof (cases b)
    case True
    with body obtain e d' where thr: "elapsed_on_throttle p lim (env_now env w2) ?st prev = Ret (ThrottleContinue e)"
      and bo: "env_backoff env ?st w2 = (d', w')" and a': "a' = Retry c d' e"
      by (auto simp: bind_run_Ret_iff case_throttle_result_eq case_prod_eq)
    from thr have "env_now env w2 < t0 + lim"
      by (auto simp: elapsed_on_throttle_def elapsed_error_if_exhausted_def bind_run_Ret_iff
          case_throttle_result_eq split: if_splits)
    with now a' Retry clock_runsD(5) [OF clk bo] show ?thesis by simp
  next
    case False
    with body have "retry_call env (limited_elapsed_time p lim) ?st c rem w2 = Ret (Next a' w')" by simp
    from retry_call_time_limit_Next [OF clk loop_retry_state_sel(2) this] now Retry show ?thesis by simp
  qed
qed

lemma time_limit_returns:
  assumes clk: "clock_runs env"
  shows "a \<noteq> Initial \<Longrightarrow>
    delays_reach (t0 + lim - (env_now env w + next_delay a)) k
      (loop_delays k env (limited_elapsed_time p lim) idem t0 a w) \<Longrightarrow>
    \<exists>out. retry_loop_from (Suc k) env (limited_elapsed_time p lim) idem t0 a w = Some out"
proof (induction k arbitrary: a w)
  case 0
  with retry_step_time_limit_Next [OF clk] show ?case
    by (fastforce simp: delays_reach_def split: run.splits loop_step.splits)
next
  case (Suc k)
  show ?case
  proof (cases "\<exists>a' w'. retry_step env (limited_elapsed_time p lim) idem t0 a w = Ret (Next a' w')")
    case True
    then obtain a' w' where s: "retry_step env (limited_elapsed_time p lim) idem t0 a w = Ret (Next a' w')"
      by blast
    note n = retry_step_time_limit_Next [OF clk s]
    then have "a' \<noteq> Initial" by simp
    moreover have "delays_reach (t0 + lim - (env_now env w' + next_delay a')) k
        (loop_delays k env (limited_elapsed_time p lim) idem t0 a' w')"
      using Suc.prems(2) s n by (auto simp: delays_reach_def)
    ultimately show ?thesis using Suc.IH s by simp
  next
    case False
    then show ?thesis by (auto split: run.splits loop_step.splits)
  qed
qed

lemma retry_loop_time_limit_exact:
  assumes "clock_runs env"
    and "delays_reach lim (Suc k) (loop_delays (Suc k) env (with_time_limit p lim) idem (env_now env w) Initial w)"
  shows "\<exists>out. retry_loop (Suc (Suc k)) env (with_time_limit p lim) idem w = Some out"
proof (cases "\<exists>a' w'. retry_step env (limited_elapsed_time p lim) idem (env_now env w) Initial w = Ret (Next a' w')")
  case True
  then obtain a' w' where s: "retry_step env (limited_elapsed_time p lim) idem (env_now env w) Initial w = Ret (Next a' w')"
    by blast
  note n = retry_step_time_limit_Next [OF assms(1) s]
  then have "a' \<noteq> Initial" by simp
  moreover have "delays_reach (env_now env w + lim - (env_now env w' + next_delay a')) k
      (loop_delays k env (limited_elapsed_time p lim) idem (env_now env w) a' w')"
    using assms(2) s n by (auto simp: delays_reach_def with_time_limit_def)
  ultimately show ?thesis using time_limit_returns [OF assms(1)] s
    by (simp add: retry_loop_def with_time_limit_def)
next
  case False
  then show ?thesis
    by (auto simp: retry_loop_def with_time_limit_def split: run.splits loop_step.splits)
qed

text \<open>Delays that have a lower bound add up.\<close>

lemma retry_call_delay:
  assumes "\<And>st w. \<delta> \<le> fst (env_backoff env st w)" "retry_call env policy st c rem w = Ret (Next a' w')"
  shows "\<delta> \<le> next_delay a'"
  using assms(2) assms(1) unfolding retry_call_def Let_def
  by (auto simp: bind_run_Ret_iff case_prod_eq case_result_eq case_retry_result_eq) (metis fst_conv)+

lemma retry_step_delay:
  assumes "\<And>st w. \<delta> \<le> fst (env_backoff env st w)" "retry_step env policy idem t0 a w = Ret (Next a' w')"
  shows "\<delta> \<le> next_delay a'"
  using assms(2) assms(1)
  by (cases a) (auto simp: retry_step_def Let_def bind_run_Ret_iff case_prod_eq case_throttle_result_eq
      split: if_splits intro: retry_call_delay [OF assms(1)], (metis fst_conv)+)

lemma loop_delays_bounded:
  assumes "\<And>st w. \<delta> \<le> fst (env_backoff env st w)"
  shows "length (loop_delays n env policy idem t0 a w) * \<delta> \<le> sum_list (loop_delays n env policy idem t0 a w)"
proof (induction n arbitrary: a w)
  case (Suc n)
  show ?case
    using Suc.IH retry_step_delay [OF assms, of policy idem t0 a w]
    by (auto split: run.splits loop_step.splits intro: add_mono)
qed simp

section \<open>Invariants of the world\<close>

text \<open>
  What a request does to the world it shares with its caller: \<open>before\<close> holds when the loop
  starts, every request turns \<open>before\<close> or \<open>after\<close> into \<open>after\<close>, and the rest of the
  loop does not touch it. Since the loop makes at least one request, \<open>after\<close> holds when it
  returns.
\<close>

locale loop_world =
  fixes env :: "('w, 'r) loop_env" and before after :: "'w \<Rightarrow> bool"
  assumes inner_after: "before w \<or> after w \<Longrightarrow> env_inner env t w = (r, w') \<Longrightarrow> after w'"
    and sleep_after: "after w \<Longrightarrow> after (env_sleep env d w)"
    and throttle_after: "after w \<Longrightarrow> env_throttle env w = Ret (b, w') \<Longrightarrow> after w'"
    and failure_after: "after w \<Longrightarrow> env_on_retry_failure env f w = Ret w' \<Longrightarrow> after w'"
    and success_after: "after w \<Longrightarrow> env_on_success env w = Ret w' \<Longrightarrow> after w'"
    and backoff_after: "after w \<Longrightarrow> env_backoff env st w = (d, w') \<Longrightarrow> after w'"
begin

fun step_world :: "('w, 'r) loop_step \<Rightarrow> 'w" where
  "step_world (Next a w) = w"
| "step_world (Return r w) = w"

lemma call_after:
  assumes "before w \<or> after w" and "retry_call env p st c rem w = Ret s"
  shows "after (step_world s)"
proof (cases "env_inner env rem w")
  case (Pair r w1)
  note w1 = inner_after [OF assms(1) Pair]
  show ?thesis
  proof (cases r)
    case (Ok x)
    with Pair assms(2) w1 show ?thesis
      by (auto simp: retry_call_def Let_def bind_run_Ret_iff intro: success_after)
  next
    case (Err e)
    with Pair assms(2) obtain flow d w2 w3 where "env_backoff env (set_attempt_count st (c + 1)) w1 = (d, w2)"
      "env_on_retry_failure env flow w2 = Ret w3" "step_world s = w3"
      by (auto simp: retry_call_def Let_def bind_run_Ret_iff case_prod_eq case_retry_result_eq)
    then show ?thesis using w1 by (blast intro: failure_after backoff_after)
  qed
qed

lemma step_after:
  assumes "if a = Initial then before w else after w" and "retry_step env p idem t0 a w = Ret s"
  shows "after (step_world s)"
proof (cases a)
  case Initial
  with assms show ?thesis
    by (auto simp: retry_step_def Let_def bind_run_Ret_iff intro: call_after)
next
  case (Retry c d prev)
  with assms(1) have w: "after w" by simp
  show ?thesis
  proof (cases "s = Return (Err (exhausted (GaxError prev))) w")
    case False
    with assms(2) Retry obtain b w2 rem where thr: "env_throttle env (env_sleep env d w) = Ret (b, w2)"
      and body: "step_world s = w2 \<or> (\<exists>st d'. env_backoff env st w2 = (d', step_world s)) \<or>
        (\<exists>st. retry_call env p st c rem w2 = Ret s)"
      by (auto simp: retry_step_def Let_def bind_run_Ret_iff case_throttle_result_eq case_prod_eq
          split: if_splits) (metis step_world.simps)+
    from throttle_after [OF sleep_after [OF w] thr] have "after w2" .
    with body show ?thesis by (auto intro: backoff_after call_after)
  qed (simp add: w)
qed

lemma loop_after:
  "(if a = Initial then before w else after w) \<Longrightarrow>
     retry_loop_from fuel env p idem t0 a w = Some (Ret (r, w')) \<Longrightarrow> after w'"
proof (induction fuel arbitrary: a w)
  case (Suc fuel)
  from Suc.prems(2) obtain s where s: "retry_step env p idem t0 a w = Ret s"
    by (auto split: run.splits)
  note w = step_after [OF Suc.prems(1) s]
  show ?case
  proof (cases s)
    case (Next a' w1)
    have "a' \<noteq> Initial"
      using s Next unfolding retry_step_def retry_call_def Let_def
      by (cases a) (auto simp: bind_run_Ret_iff case_prod_eq case_result_eq case_retry_result_eq
          case_throttle_result_eq split: if_splits)
    with Suc.IH [of a' w1] Suc.prems(2) s w Next show ?thesis by simp
  next
    case (Return r1 w1)
    with Suc.prems(2) s w show ?thesis by simp
  qed
qed simp

end

section \<open>Panics\<close>

text \<open>The loop panics only if the policy, the throttler or the reports to it do.\<close>

lemma retry_loop_no_panic:
  assumes policy: "\<And>now c. remaining_time p now (loop_retry_state idem t0 c) \<noteq> Panic"
      "\<And>now c e. on_error p now (loop_retry_state idem t0 c) e \<noteq> Panic"
      "\<And>now c e. on_throttle p now (loop_retry_state idem t0 c) e \<noteq> Panic"
    and env: "\<And>w. env_throttle env w \<noteq> Panic" "\<And>f w. env_on_retry_failure env f w \<noteq> Panic"
      "\<And>w. env_on_success env w \<noteq> Panic"
  shows "retry_loop_from fuel env p idem t0 a w \<noteq> Some Panic"
proof -
  have call: "retry_call env p (loop_retry_state idem t0 c0) c rem w \<noteq> Panic" for c0 c rem w
    unfolding retry_call_def Let_def loop_retry_state_sel
    using policy env by (auto simp: bind_run_Panic_iff case_prod_eq case_result_eq case_retry_result_eq)
  have step: "retry_step env p idem t0 a w \<noteq> Panic" for a w
    unfolding retry_step_def Let_def loop_retry_state_sel
    using policy env call
    by (cases a) (auto simp: bind_run_Panic_iff case_prod_eq case_throttle_result_eq split: if_splits)
  show ?thesis
    by (induction fuel arbitrary: a w) (use step in \<open>auto split: run.splits loop_step.splits\<close>)
qed

section \<open>Idempotency\<close>

context idempotency_contract
begin

lemma loop_idem:
  "loop_state (logged env) P False t0 (w0, []) a wl \<Longrightarrow>
     \<forall>r \<in> set (calls (snd wl)). \<exists>e. r = Err e \<and> is_transient_and_before_rpc e"
proof (induction rule: loop_state.induct)
  case loop_start
  then show ?case by simp
next
  case (loop_next a wl a' wl')
  obtain w l where wl: "wl = (w, l)" by (cases wl)
  from loop_next.hyps(2) [unfolded wl] show ?case
  proof (cases rule: retry_step_logged_Next)
    case (first e e' d w' now)
    with loop_next.IH wl show ?thesis by (auto simp: calls_append dest: not_idempotent)
  next
    case (throttled c d prev d' e' w' now rem)
    with loop_next.IH wl show ?thesis by (simp add: calls_append)
  next
    case (again c d prev e e' d' w' now rem)
    with loop_next.IH wl show ?thesis by (auto simp: calls_append dest: not_idempotent)
  qed
qed

lemma loop_result_idem:
  assumes "retry_loop fuel (logged env) P False (w0, []) = Some (Ret (r, (w', l)))"
  shows "\<forall>c \<in> set (butlast (calls l)). \<exists>e. c = Err e \<and> is_transient_and_before_rpc e"
proof -
  let ?t0 = "env_now (logged env) (w0, [])"
  obtain a w1 l1 where st: "loop_state (logged env) P False ?t0 (w0, []) a (w1, l1)"
    and last: "retry_step (logged env) P False ?t0 a (w1, l1) = Ret (Return r (w', l))"
    using retry_loop_last [OF assms] by auto
  from loop_idem [OF st] have inv: "\<forall>c \<in> set (calls l1). \<exists>e. c = Err e \<and> is_transient_and_before_rpc e"
    by simp
  from last have "calls l = calls l1 \<or> (\<exists>x. calls l = calls l1 @ [x])"
    by (cases rule: retry_step_logged_Return) (auto simp: calls_append)
  with inv show ?thesis by (auto dest: in_set_butlastD)
qed

end

section \<open>A simulated client\<close>

text \<open>
  A closed environment to run the loop in: a clock, a script of answers of the service, a circuit
  breaker of its own and a constant backoff of one second. A call takes ten milliseconds.
\<close>

record sim =
  sim_clock :: instant
  sim_script :: "(error, nat) result list"
  sim_breaker :: circuit_breaker

definition sim_env :: "(sim, nat) loop_env" where
  "sim_env =
     \<lparr>env_now = sim_clock,
      env_inner = (\<lambda>t w. case sim_script w of
          [] \<Rightarrow> (Err (timeout (MsgError ''no answer'')), w\<lparr>sim_clock := sim_clock w + from_millis 10\<rparr>)
        | r # rs \<Rightarrow> (r, w\<lparr>sim_clock := sim_clock w + from_millis 10, sim_script := rs\<rparr>)),
      env_sleep = (\<lambda>d w. w\<lparr>sim_clock := sim_clock w + d\<rparr>),
      env_throttle = (\<lambda>w. Ret (cb_throttle_retry_attempt (sim_breaker w), w)),
      env_on_retry_failure = (\<lambda>f w. Ret (w\<lparr>sim_breaker := cb_on_retry_failure f (sim_breaker w)\<rparr>)),
      env_on_success = (\<lambda>w. Ret (w\<lparr>sim_breaker := cb_on_success (sim_breaker w)\<rparr>)),
      env_backoff = (\<lambda>st w. (from_secs 1, w))\<rparr>"

definition sim_start :: "(error, nat) result list \<Rightarrow> sim" where
  "sim_start script = \<lparr>sim_clock = 0, sim_script = script, sim_breaker = cb_default\<rparr>"

definition unavailable :: error where
  "unavailable = service (set_code status_default Unavailable)"

lemma unavailable_sel [simp]:
  "\<not> is_transient_and_before_rpc unavailable" "\<not> is_io unavailable" "\<not> is_timeout unavailable"
  "error_status unavailable = Some (set_code status_default Unavailable)"
  "http_status_code unavailable = None"
  by (simp_all add: unavailable_def service_def error_classifiers)

lemma set_code_sel [simp]: "status_code (set_code s c) = c"
  by (simp add: set_code_def)

lemma sim_sel [simp]:
  "env_now sim_env w = sim_clock w"
  "env_sleep sim_env d w = w\<lparr>sim_clock := sim_clock w + d\<rparr>"
  "env_throttle sim_env w = Ret (cb_throttle_retry_attempt (sim_breaker w), w)"
  "env_on_retry_failure sim_env f w = Ret (w\<lparr>sim_breaker := cb_on_retry_failure f (sim_breaker w)\<rparr>)"
  "env_on_success sim_env w = Ret (w\<lparr>sim_breaker := cb_on_success (sim_breaker w)\<rparr>)"
  "env_backoff sim_env st w = (from_secs 1, w)"
  "sim_script w = r # rs \<Longrightarrow> env_inner sim_env t w =
     (r, w\<lparr>sim_clock := sim_clock w + from_millis 10, sim_script := rs\<rparr>)"
  "sim_script w = [] \<Longrightarrow> env_inner sim_env t w =
     (Err (timeout (MsgError ''no answer'')), w\<lparr>sim_clock := sim_clock w + from_millis 10\<rparr>)"
  by (simp_all add: sim_env_def)

lemmas loop_eval =
  retry_loop_def retry_step_def retry_call_def sim_start_def policy_ext_defs
  attempt_on_error_def attempt_on_throttle_def elapsed_on_error_def elapsed_on_throttle_def
  elapsed_remaining_time_def elapsed_error_if_exhausted_def instant_add_def INSTANT_LIMIT_def
  always_retry_def never_retry_def aip194_strict_def aip194_on_error_def
  cb_default_def cb_clamp_def cb_on_success_def cb_on_retry_failure_def
  cb_throttle_retry_attempt_def saturating_sub_def saturating_add_def
  from_secs_def from_millis_def

section \<open>Properties\<close>

text \<open>
  C1. With an attempt limit of \<open>n\<close> on any inner policy, a loop that returns called the
  request at least once and at most \<open>max 1 n\<close> times, whatever the service, the clock, the
  throttler and the backoff policy did: a limit of 0 or 1 means no retries.
\<close>

theorem retry_loop_attempt_bound:
  assumes "retry_loop fuel (logged env) (with_attempt_limit p n) idem (w0, []) = Some (Ret (r, (w', l)))"
  shows "1 \<le> length (calls l) \<and> length (calls l) \<le> max 1 (unat n)"
proof -
  obtain a w1 l1 where
    "loop_state (logged env) (limited_attempt_count p n) idem (env_now env w0) (w0, []) a (w1, l1)"
    "retry_step (logged env) (limited_attempt_count p n) idem (env_now env w0) a (w1, l1) = Ret (Return r (w', l))"
    using retry_loop_last [OF assms] by (auto simp: with_attempt_limit_def)
  then show ?thesis by (rule attempt_limit_return)
qed

lemma retry_loop_attempt_bound_witness:
  "\<exists>w' l. retry_loop 5 (logged sim_env) (with_attempt_limit always_retry 2) True
       (sim_start [Err unavailable, Err unavailable, Ok 7], []) = Some (Ret (Err unavailable, (w', l)))
     \<and> 1 \<le> length (calls l) \<and> length (calls l) \<le> max 1 (unat (2 :: u32))"
proof -
  have run: "\<exists>w' l. retry_loop 5 (logged sim_env) (with_attempt_limit always_retry 2) True
       (sim_start [Err unavailable, Err unavailable, Ok 7], []) = Some (Ret (Err unavailable, (w', l)))"
    by (simp add: loop_eval)
  then obtain w' l where "retry_loop 5 (logged sim_env) (with_attempt_limit always_retry 2) True
       (sim_start [Err unavailable, Err unavailable, Ok 7], []) = Some (Ret (Err unavailable, (w', l)))"
    by blast
  from retry_loop_attempt_bound [OF this] this show ?thesis by blast
qed

text \<open>
  C2. With an attempt limit of \<open>n\<close> and a throttler that lets every retry through, the loop
  ends: \<open>n + 1\<close> iterations are always enough, for every request, policy and backoff.
\<close>

theorem retry_loop_terminates:
  assumes "never_throttles env"
  shows "\<exists>out. retry_loop (Suc (unat n)) env (with_attempt_limit p n) idem w = Some out"
  unfolding retry_loop_def with_attempt_limit_def
  by (rule attempt_limit_returns [OF assms]) simp_all

lemma never_throttles_witness_env: "never_throttles (sim_env\<lparr>env_throttle := (\<lambda>w. Ret (False, w))\<rparr>)"
  by (simp add: never_throttles_def)

lemma retry_loop_terminates_witness:
  "\<exists>out. retry_loop (Suc (unat (3 :: u32))) (sim_env\<lparr>env_throttle := (\<lambda>w. Ret (False, w))\<rparr>)
     (with_attempt_limit always_retry 3) False (sim_start [Err unavailable, Ok 1]) = Some out"
  by (rule retry_loop_terminates [OF never_throttles_witness_env])

text \<open>
  With a time limit the loop ends, throttled or not: if the clock is not set back and sleeps last as long as
  asked for, it returns within \<open>k + 2\<close> iterations unless the first \<open>k + 1\<close> delays that its
  backoff draws add up to less than the limit, for every request, inner policy and throttler.
\<close>

theorem retry_loop_time_limit_terminates:
  assumes "clock_runs env"
    and "delays_reach lim (Suc k) (loop_delays (Suc k) env (with_time_limit p lim) idem (env_now env w) Initial w)"
  shows "\<exists>out. retry_loop (Suc (Suc k)) env (with_time_limit p lim) idem w = Some out"
  by (rule retry_loop_time_limit_exact [OF assms])

definition slow_env :: "(sim, nat) loop_env" where
  "slow_env = sim_env\<lparr>env_throttle := (\<lambda>w. Ret (True, w))\<rparr>"

lemma retry_loop_time_limit_terminates_witness:
  "\<exists>out. retry_loop (Suc (Suc 60)) slow_env (with_time_limit always_retry (from_secs 60)) True
     (sim_start [Err unavailable, Ok 1]) = Some out"
proof (rule retry_loop_time_limit_terminates)
  show "clock_runs slow_env" by (auto simp: clock_runs_def slow_env_def sim_env_def split: list.splits)
  have "from_secs 1 \<le> fst (env_backoff slow_env st w)" for st w by (simp add: slow_env_def sim_env_def)
  from loop_delays_bounded [OF this, of "Suc 60" "with_time_limit always_retry (from_secs 60)" True
      "env_now slow_env (sim_start [Err unavailable, Ok 1])" Initial "sim_start [Err unavailable, Ok 1]"]
  show "delays_reach (from_secs 60) (Suc 60) (loop_delays (Suc 60) slow_env (with_time_limit always_retry (from_secs 60)) True
      (env_now slow_env (sim_start [Err unavailable, Ok 1])) Initial (sim_start [Err unavailable, Ok 1]))"
    by (simp add: delays_reach_def from_secs_def del: loop_delays.simps)
qed

text \<open>
  The result of the loop comes from the request. With a policy put together from the
  library's parts, a successful result is the answer of the last call and all calls before it
  failed; a failure is the error of the last call, possibly wrapped once as exhausted when a time
  limit ended the loop before the next retry.
\<close>

theorem retry_loop_result_origin:
  assumes "library_policy P"
    and "retry_loop fuel (logged env) P idem (w0, []) = Some (Ret (r, (w', l)))"
  shows "\<exists>es. (\<exists>x. r = Ok x \<and> calls l = map Err es @ [Ok x]) \<or>
    (\<exists>e. calls l = map Err es @ [Err e] \<and>
       (r = Err e \<or> r = Err (exhausted (GaxError e)) \<or>
        (\<exists>d. r = Err (exhausted (ElapsedTimeError d e)))))"
  using retry_contract.loop_result [OF library_policy_contract [OF assms(1)] assms(2)] .

lemma retry_loop_result_origin_witness:
  "\<exists>w' l es. retry_loop 5 (logged sim_env) (with_time_limit aip194_strict (from_millis 500)) True
      (sim_start [Err unavailable, Ok 7], []) =
      Some (Ret (Err (exhausted (GaxError unavailable)), (w', l)))
    \<and> ((\<exists>x. (Err (exhausted (GaxError unavailable)) :: (error, nat) result) = Ok x
            \<and> calls l = map Err es @ [Ok x]) \<or>
       (\<exists>e. calls l = map Err es @ [Err e] \<and>
          ((Err (exhausted (GaxError unavailable)) :: (error, nat) result) = Err e \<or>
           (Err (exhausted (GaxError unavailable)) :: (error, nat) result) = Err (exhausted (GaxError e)) \<or>
           (\<exists>d. (Err (exhausted (GaxError unavailable)) :: (error, nat) result) =
              Err (exhausted (ElapsedTimeError d e))))))"
proof -
  have "\<exists>w' l. retry_loop 5 (logged sim_env) (with_time_limit aip194_strict (from_millis 500)) True
      (sim_start [Err unavailable, Ok 7], []) =
      Some (Ret (Err (exhausted (GaxError unavailable)), (w', l)))"
    by (simp add: loop_eval)
  then obtain w' l where "retry_loop 5 (logged sim_env) (with_time_limit aip194_strict (from_millis 500)) True
      (sim_start [Err unavailable, Ok 7], []) =
      Some (Ret (Err (exhausted (GaxError unavailable)), (w', l)))"
    by blast
  from retry_loop_result_origin [OF library_policy.intros(4) [OF library_policy.intros(1)] this] this
  show ?thesis by blast
qed

text \<open>
  C25. Requests that are not idempotent are not repeated once they may have reached the service, under
  the policies that respect idempotency: the AIP-194 policy and the policy that never retries, under any
  time, attempt and client-timeout decorators. With these, every call but the last failed before the RPC
  was sent (no connection, or no credentials yet). Policies such as \<open>AlwaysRetry\<close> and the
  decorator that continues on too many requests retry such requests on purpose and are not covered.
\<close>

theorem retry_loop_respects_idempotency:
  assumes "idempotency_policy P"
    and "retry_loop fuel (logged env) P False (w0, []) = Some (Ret (r, (w', l)))"
  shows "\<forall>c \<in> set (butlast (calls l)). \<exists>e. c = Err e \<and> is_transient_and_before_rpc e"
  using idempotency_contract.loop_result_idem [OF idempotency_policy_contract [OF assms(1)] assms(2)] .

lemma retry_loop_respects_idempotency_witness:
  "\<exists>w' l. retry_loop 5 (logged sim_env) (with_attempt_limit aip194_strict 4) False
      (sim_start [Err (connect (MsgError ''refused'')), Err unavailable, Ok 7], []) =
      Some (Ret (Err unavailable, (w', l)))
    \<and> (\<forall>c \<in> set (butlast (calls l)). \<exists>e. c = Err e \<and> is_transient_and_before_rpc e)"
proof -
  have "\<exists>w' l. retry_loop 5 (logged sim_env) (with_attempt_limit aip194_strict 4) False
      (sim_start [Err (connect (MsgError ''refused'')), Err unavailable, Ok 7], []) =
      Some (Ret (Err unavailable, (w', l)))"
    by (simp add: loop_eval connect_def error_classifiers unavailable_def service_def word_le_nat_alt)
  then obtain w' l where "retry_loop 5 (logged sim_env) (with_attempt_limit aip194_strict 4) False
      (sim_start [Err (connect (MsgError ''refused'')), Err unavailable, Ok 7], []) =
      Some (Ret (Err unavailable, (w', l)))"
    by blast
  from retry_loop_respects_idempotency [OF idempotency_policy.intros(4) [OF idempotency_policy.intros(1)] this] this
  show ?thesis by blast
qed

text \<open>
  Under a time limit the loop never sleeps past its deadline: in every state the loop can
  reach, each sleep of \<open>d\<close> that began at \<open>t\<close> fits into the time that was left then.
\<close>

theorem retry_loop_sleeps_within_limit:
  assumes "loop_state (logged env) (with_time_limit p lim) idem t0 (w0, []) a (w, l)"
    and "(t, d) \<in> set (sleeps l)" and "0 < d"
  shows "t + d \<le> t0 + lim"
  using time_limit_sleeps [OF assms(1) [unfolded with_time_limit_def]] assms(2,3) by auto

lemma retry_loop_sleeps_within_limit_witness:
  "\<exists>a w l t d. loop_state (logged sim_env) (with_time_limit aip194_strict (from_secs 60)) True 0
      (sim_start [Err unavailable, Err unavailable], []) a (w, l)
    \<and> (t, d) \<in> set (sleeps l) \<and> 0 < d \<and> t + d \<le> 0 + from_secs 60"
proof -
  let ?p = "with_time_limit aip194_strict (from_secs 60)"
  let ?w0 = "(sim_start [Err unavailable, Err unavailable], [])"
  have "\<exists>w1 l1 w2 l2 d1 d2 e1 e2. retry_step (logged sim_env) ?p True 0 Initial ?w0 = Ret (Next (Retry 1 d1 e1) (w1, l1))
      \<and> retry_step (logged sim_env) ?p True 0 (Retry 1 d1 e1) (w1, l1) = Ret (Next (Retry 2 d2 e2) (w2, l2))
      \<and> (from_millis 10, from_secs 1) \<in> set (sleeps l2)"
    by (simp add: loop_eval)
  then obtain w1 l1 w2 l2 d1 d2 e1 e2 where
    s1: "retry_step (logged sim_env) ?p True 0 Initial ?w0 = Ret (Next (Retry 1 d1 e1) (w1, l1))"
    and s2: "retry_step (logged sim_env) ?p True 0 (Retry 1 d1 e1) (w1, l1) = Ret (Next (Retry 2 d2 e2) (w2, l2))"
    and sl: "(from_millis 10, from_secs 1) \<in> set (sleeps l2)"
    by blast
  have st: "loop_state (logged sim_env) ?p True 0 ?w0 (Retry 2 d2 e2) (w2, l2)"
    using loop_next [OF loop_next [OF loop_start s1] s2] .
  have pos: "0 < from_secs 1" by (simp add: from_secs_def)
  show ?thesis
    by (intro exI conjI) (rule st, rule sl, rule pos, rule retry_loop_sleeps_within_limit [OF st sl pos])
qed

text \<open>
  A policy without a notion of time that keeps going when throttled cannot end the loop while the
  throttler holds back every retry.
\<close>

lemma throttled_forever:
  assumes thr: "\<forall>w. \<exists>w'. env_throttle env w = Ret (True, w')"
    and nopanic: "\<forall>f w. env_on_retry_failure env f w \<noteq> Panic"
    and inner: "env_inner env None w0 = (Err e, w1)"
    and cont: "on_error P (env_now env w1) (loop_retry_state idem (env_now env w0) 1) e = Ret (Continue e)"
    and untimed: "\<And>now st. remaining_time P now st = Ret None"
    and deaf: "\<And>now t0 x. on_throttle P now (loop_retry_state idem t0 1) x = Ret (ThrottleContinue x)"
  shows "retry_loop fuel env P idem w0 = None"
proof -
  have later: "retry_loop_from fuel env P idem t0 (Retry 1 d prev) w = None"
    for fuel t0 d prev w
  proof (induction fuel arbitrary: d prev w)
    case (Suc fuel)
    obtain w2 where "env_throttle env (env_sleep env d w) = Ret (True, w2)"
      using thr by blast
    moreover obtain d' w3 where "env_backoff env (loop_retry_state idem t0 1) w2 = (d', w3)"
      by fastforce
    ultimately show ?case
      using Suc.IH [of d' prev w3] by (simp add: retry_step_def Let_def untimed deaf)
  qed simp
  show ?thesis
  proof (cases fuel)
    case (Suc k)
    obtain d w2 where bo: "env_backoff env (loop_retry_state idem (env_now env w0) 1) w1 = (d, w2)"
      by fastforce
    obtain w3 where "env_on_retry_failure env (Continue e) w2 = Ret w3"
      using nopanic by (metis run.exhaust)
    with bo inner cont later Suc show ?thesis
      by (simp add: retry_loop_def retry_step_def retry_call_def Let_def untimed)
  qed (simp add: retry_loop_def)
qed

text \<open>
  Throttled retries do not count as attempts. If the throttler holds back every retry, a loop
  whose only limit is a number of attempts of at least two never returns: after the first failure
  it sleeps and asks the throttler for ever.
\<close>

theorem retry_loop_throttled_forever:
  assumes "\<forall>w. \<exists>w'. env_throttle env w = Ret (True, w')"
    and "\<forall>f w. env_on_retry_failure env f w \<noteq> Panic"
    and "env_inner env None w0 = (Err e, w1)" and "1 < n"
  shows "retry_loop fuel env (with_attempt_limit always_retry n) idem w0 = None"
proof -
  have "\<not> n \<le> 1" using assms(4) by simp
  then show ?thesis
    by (intro throttled_forever [OF assms(1-3)])
      (simp_all add: with_attempt_limit_def always_retry_def attempt_on_error_def attempt_on_throttle_def)
qed

lemma retry_loop_throttled_forever_witness:
  "\<forall>fuel. retry_loop fuel (sim_env\<lparr>env_throttle := (\<lambda>w. Ret (True, w))\<rparr>)
     (with_attempt_limit always_retry 3) True (sim_start [Err unavailable, Ok 1]) = None"
  by (rule allI, rule retry_loop_throttled_forever)
    (simp_all add: sim_env_def sim_start_def)

end
