(* ===== verification/Client_Policies.thy ===== *)
theory Client_Policies
  imports Retry_Loop
begin

text \<open>
  The retry policies of the hand-written clients, all run by the loop of \<open>Retry_Loop\<close>:
  Storage (\<open>storage/src/retry_policy.rs\<close>), Pub/Sub (\<open>pubsub/src/retry_policy.rs\<close>,
  \<open>pubsub/src/subscriber/retry_policy.rs\<close>), BigQuery (\<open>bigquery/src/query/retry_policy.rs\<close>,
  \<open>bigquery/src/write/retry_policy.rs\<close>, \<open>bigquery/src/read/retry_policy.rs\<close>),
  Spanner (\<open>spanner/src/retry_policy.rs\<close>), the read resume policies of Storage
  (\<open>storage/src/read_resume_policy.rs\<close>) and the retries of the token providers
  (\<open>auth/src/retry.rs\<close>).
\<close>

section \<open>Storage\<close>

definition storage_retryable_http :: "u16 \<Rightarrow> bool" where
  "storage_retryable_http code = (code = 408 \<or> code = 429 \<or> (500 \<le> code \<and> code < 600))"

definition storage_retryable_code :: "code \<Rightarrow> bool" where
  "storage_retryable_code c =
     (case c of
        Internal \<Rightarrow> True | ResourceExhausted \<Rightarrow> True | Unavailable \<Rightarrow> True
      | DeadlineExceeded \<Rightarrow> True
      | _ \<Rightarrow> False)"

definition storage_on_error :: "retry_state \<Rightarrow> error \<Rightarrow> retry_result" where
  "storage_on_error st e =
     (if is_transient_and_before_rpc e then Continue e
      else if \<not> idempotent st then Permanent e
      else if is_io e \<or> is_timeout e then Continue e
      else if is_transport e \<and> http_status_code e = None then Continue e
      else case http_status_code e of
             Some code \<Rightarrow> if storage_retryable_http code then Continue e else Permanent e
           | None \<Rightarrow>
               (case map_option status_code (error_status e) of
                  Some c \<Rightarrow> if storage_retryable_code c then Continue e else Permanent e
                | None \<Rightarrow> Permanent e))"

definition storage_retryable_errors :: retry_policy where
  "storage_retryable_errors = simple_policy storage_on_error"

definition storage_default :: retry_policy where
  "storage_default = with_time_limit storage_retryable_errors (from_secs 300)"

text \<open>\<open>ContinueOn308\<close> implements \<open>on_error\<close> and inherits the other two methods.\<close>

definition continue_on_308 :: "retry_policy \<Rightarrow> retry_policy" where
  "continue_on_308 inner =
     \<lparr>on_error = (\<lambda>now st e.
        if http_status_code e = Some 308 then Ret (Continue e) else on_error inner now st e),
      on_throttle = default_on_throttle,
      remaining_time = default_remaining_time\<rparr>"

section \<open>Pub/Sub\<close>

definition gateway_http :: "u16 \<Rightarrow> bool" where
  "gateway_http code = (code = 429 \<or> code = 500 \<or> code = 502 \<or> code = 503 \<or> code = 504)"

definition pubsub_retryable_code :: "code \<Rightarrow> bool" where
  "pubsub_retryable_code c =
     (case c of
        Aborted \<Rightarrow> True | DeadlineExceeded \<Rightarrow> True | Internal \<Rightarrow> True
      | ResourceExhausted \<Rightarrow> True | Unavailable \<Rightarrow> True | Unknown \<Rightarrow> True
      | _ \<Rightarrow> False)"

definition pubsub_on_error :: "retry_state \<Rightarrow> error \<Rightarrow> retry_result" where
  "pubsub_on_error st e =
     (if is_transient_and_before_rpc e then Continue e
      else if is_io e \<or> is_timeout e then Continue e
      else if is_transport e \<and> http_status_code e = None then Continue e
      else if is_some_and gateway_http (http_status_code e) then Continue e
      else case error_status e of
             Some s \<Rightarrow> if pubsub_retryable_code (status_code s) then Continue e else Permanent e
           | None \<Rightarrow> Permanent e)"

definition pubsub_retryable_errors :: retry_policy where
  "pubsub_retryable_errors = simple_policy pubsub_on_error"

definition stream_retryable_code :: "code \<Rightarrow> bool" where
  "stream_retryable_code c =
     (case c of
        DeadlineExceeded \<Rightarrow> True | ResourceExhausted \<Rightarrow> True | Aborted \<Rightarrow> True
      | Internal \<Rightarrow> True | Unavailable \<Rightarrow> True
      | _ \<Rightarrow> False)"

definition stream_on_error :: "retry_state \<Rightarrow> error \<Rightarrow> retry_result" where
  "stream_on_error st e =
     (if is_transient_and_before_rpc e then Continue e
      else if is_io e then Continue e
      else case error_status e of
             Some s \<Rightarrow> if stream_retryable_code (status_code s) then Continue e else Permanent e
           | None \<Rightarrow> Permanent e)"

definition stream_retry_policy :: retry_policy where
  "stream_retry_policy = simple_policy stream_on_error"

definition on_midstream_error :: "instant \<Rightarrow> error \<Rightarrow> retry_result" where
  "on_midstream_error now e =
     (if is_transport e then Continue e else stream_on_error (retry_state_default now) e)"

definition only_transport_errors :: retry_policy where
  "only_transport_errors = simple_policy (\<lambda>st e. if is_transport e then Continue e else Permanent e)"

definition settle_retry_policy :: retry_policy where
  "settle_retry_policy = simple_policy (\<lambda>st e.
     if is_transport e \<or> is_some_and (\<lambda>s. status_code s = Unavailable) (error_status e)
     then Continue e else Permanent e)"

text \<open>The retry policies that the request options of the subscriber carry.\<close>

definition rpc_options_policy :: "u64 \<Rightarrow> retry_policy" where
  "rpc_options_policy grpc_subchannel_count =
     with_attempt_limit only_transport_errors (ucast grpc_subchannel_count + 1)"

definition settle_options_policy :: retry_policy where
  "settle_options_policy = with_time_limit settle_retry_policy (from_secs 60)"

definition exactly_once_options_policy :: "duration \<Rightarrow> retry_policy" where
  "exactly_once_options_policy time_limit = with_time_limit only_transport_errors time_limit"

definition eo_ack_options_policy :: retry_policy where
  "eo_ack_options_policy = exactly_once_options_policy (from_secs 600)"

section \<open>BigQuery\<close>

definition bigquery_query_on_error :: "retry_state \<Rightarrow> error \<Rightarrow> retry_result" where
  "bigquery_query_on_error st e =
     (if is_transient_and_before_rpc e then Continue e
      else if \<not> idempotent st then Permanent e
      else if is_io e \<or> is_timeout e then Continue e
      else if is_transport e \<and> http_status_code e = None then Continue e
      else if is_some_and gateway_http (http_status_code e) then Continue e
      else case error_status e of
             Some s \<Rightarrow> if pubsub_retryable_code (status_code s) then Continue e else Permanent e
           | None \<Rightarrow> Permanent e)"

definition bigquery_query_retryable_errors :: retry_policy where
  "bigquery_query_retryable_errors = simple_policy bigquery_query_on_error"

definition bigquery_default_retry_policy :: retry_policy where
  "bigquery_default_retry_policy = with_attempt_limit bigquery_query_retryable_errors 6"

definition storage_stream_code :: "code \<Rightarrow> bool" where
  "storage_stream_code c =
     (case c of
        Aborted \<Rightarrow> True | Cancelled \<Rightarrow> True | DeadlineExceeded \<Rightarrow> True | Internal \<Rightarrow> True
      | ResourceExhausted \<Rightarrow> True | Unavailable \<Rightarrow> True
      | _ \<Rightarrow> False)"

definition bigquery_write_on_error :: "retry_state \<Rightarrow> error \<Rightarrow> retry_result" where
  "bigquery_write_on_error st e =
     (if is_transient_and_before_rpc e \<or> is_io e \<or> is_timeout e \<or> is_connect e then Continue e
      else if is_transport e \<and> http_status_code e = None then Continue e
      else if is_some_and gateway_http (http_status_code e) then Continue e
      else case error_status e of
             Some s \<Rightarrow> if storage_stream_code (status_code s) then Continue e else Permanent e
           | None \<Rightarrow> Permanent e)"

definition bigquery_write_default_policy :: retry_policy where
  "bigquery_write_default_policy = with_time_limit (simple_policy bigquery_write_on_error) (from_secs 300)"

definition bigquery_read_on_error :: "retry_state \<Rightarrow> error \<Rightarrow> retry_result" where
  "bigquery_read_on_error st e =
     (if is_transient_and_before_rpc e then Continue e
      else if is_io e \<or> is_timeout e \<or> is_connect e then Continue e
      else if is_transport e \<and> http_status_code e = None then Continue e
      else if is_some_and gateway_http (http_status_code e) then Continue e
      else case error_status e of
             Some s \<Rightarrow> if storage_stream_code (status_code s) then Continue e else Permanent e
           | None \<Rightarrow> Permanent e)"

subsection \<open>Retrying query jobs\<close>

text \<open>\<open>ErrorProto\<close> contributes its reason. Other query errors are never retried.\<close>

datatype query_error = JobFailed "string list" | RpcError error | OtherQueryError

datatype job_retry_result =
    JobContinue duration query_error | JobExhausted query_error | JobPermanent query_error

definition is_retryable_error_reason :: "string \<Rightarrow> bool" where
  "is_retryable_error_reason reason =
     (reason = ''backendError'' \<or> reason = ''jobBackendError'' \<or> reason = ''rateLimitExceeded''
      \<or> reason = ''jobRateLimitExceeded'' \<or> reason = ''internalError'' \<or> reason = ''jobInternalError'')"

definition is_retryable_errors :: "string list \<Rightarrow> bool" where
  "is_retryable_errors errors = (errors \<noteq> [] \<and> list_all is_retryable_error_reason errors)"

definition is_rpc_error_retryable :: "error \<Rightarrow> bool" where
  "is_rpc_error_retryable e =
     (case error_status e of
        Some s \<Rightarrow> list_ex (\<lambda>d. case d of ErrorInfo info \<Rightarrow> is_retryable_error_reason (ei_reason info)
                                | _ \<Rightarrow> False) (status_details s)
      | None \<Rightarrow> False)"

fun is_query_error_retryable :: "query_error \<Rightarrow> bool" where
  "is_query_error_retryable (JobFailed errors) = is_retryable_errors errors"
| "is_query_error_retryable (RpcError e) = is_rpc_error_retryable e"
| "is_query_error_retryable OtherQueryError = False"

fun is_duplicate_job_error :: "query_error \<Rightarrow> bool" where
  "is_duplicate_job_error (RpcError e) =
     (http_status_code e = Some 409 \<or> is_some_and (\<lambda>s. status_code s = AlreadyExists) (error_status e))"
| "is_duplicate_job_error _ = False"

definition job_on_error ::
  "u32 \<Rightarrow> (retry_state \<Rightarrow> duration) \<Rightarrow> retry_state \<Rightarrow> query_error \<Rightarrow> job_retry_result" where
  "job_on_error attempt_limit backoff st e =
     (if \<not> is_query_error_retryable e then JobPermanent e
      else if attempt_limit \<le> attempt_count st then JobExhausted e
      else JobContinue (backoff st) e)"

section \<open>Spanner\<close>

definition retryable_internal_error_messages :: "string list" where
  "retryable_internal_error_messages =
     [''HTTP/2 error code: INTERNAL_ERROR'',
      ''Connection closed with unknown cause'',
      ''Received unexpected EOS on DATA frame from server'',
      ''stream terminated by RST_STREAM'',
      ''Authentication backend internal server error. Please retry'']"

text \<open>\<open>str::contains\<close>.\<close>

fun starts_with :: "'a list \<Rightarrow> 'a list \<Rightarrow> bool" where
  "starts_with s [] = True"
| "starts_with [] (p # ps) = False"
| "starts_with (c # s) (p # ps) = (c = p \<and> starts_with s ps)"

fun str_contains :: "'a list \<Rightarrow> 'a list \<Rightarrow> bool" where
  "str_contains [] p = (p = [])"
| "str_contains (c # s) p = (starts_with (c # s) p \<or> str_contains s p)"

definition is_retryable_internal_error :: "error \<Rightarrow> bool" where
  "is_retryable_internal_error e =
     is_some_and (\<lambda>s. status_code s = Internal \<and>
        list_ex (str_contains (status_message s)) retryable_internal_error_messages) (error_status e)"

definition spanner_on_error :: "instant \<Rightarrow> retry_state \<Rightarrow> error \<Rightarrow> retry_result run" where
  "spanner_on_error now st e =
     map_run (\<lambda>r. case r of
          Permanent e' \<Rightarrow>
            (if idempotent st \<and> (is_transport e' \<or> is_io e' \<or> is_retryable_internal_error e')
             then Continue e' else Permanent e')
        | _ \<Rightarrow> r)
       (on_error aip194_strict now st e)"

definition spanner_retry_policy :: retry_policy where
  "spanner_retry_policy =
     \<lparr>on_error = spanner_on_error,
      on_throttle = (\<lambda>now st e. on_throttle aip194_strict now st e),
      remaining_time = (\<lambda>now st. remaining_time aip194_strict now st)\<rparr>"

section \<open>Resuming reads\<close>

text \<open>
  A \<open>ReadResumePolicy\<close> decides on the number of attempts and the error only.
\<close>

type_synonym read_resume_policy = "u32 \<Rightarrow> error \<Rightarrow> retry_result"

definition is_transient_code :: "code \<Rightarrow> bool" where
  "is_transient_code c =
     (case c of
        Unavailable \<Rightarrow> True | ResourceExhausted \<Rightarrow> True | Internal \<Rightarrow> True | DeadlineExceeded \<Rightarrow> True
      | _ \<Rightarrow> False)"

definition resume_is_transient :: "error \<Rightarrow> bool" where
  "resume_is_transient e =
     (if is_io e then True
      else if is_transport e then True
      else if is_timeout e then True
      else is_some_and (\<lambda>s. is_transient_code (status_code s)) (error_status e))"

definition resume_recommended :: read_resume_policy where
  "resume_recommended attempts e = (if resume_is_transient e then Continue e else Permanent e)"

definition always_resume :: read_resume_policy where
  "always_resume attempts e = Continue e"

definition never_resume :: read_resume_policy where
  "never_resume attempts e = Permanent e"

definition resume_attempt_limit :: "read_resume_policy \<Rightarrow> u32 \<Rightarrow> read_resume_policy" where
  "resume_attempt_limit inner maximum_attempts attempts e =
     (case inner attempts e of
        Continue e' \<Rightarrow> if maximum_attempts \<le> attempts then Exhausted e' else Continue e'
      | r \<Rightarrow> r)"

section \<open>Token providers\<close>

definition RETRY_EXHAUSTED_ERROR :: string where
  "RETRY_EXHAUSTED_ERROR = ''Fetching the token resulted in transient errors. Subsequent calls with this credential might succeed.''"

definition TOKEN_FETCH_FAILED_ERROR :: string where
  "TOKEN_FETCH_FAILED_ERROR = ''Request to fetch the token failed. Subsequent calls with this credential will also fail.''"

definition map_retry_error :: "error \<Rightarrow> credentials_error" where
  "map_retry_error e =
     (if \<not> is_authentication e then creds_from_source False (GaxError e)
      else case source e of
             Some (CredsError c) \<Rightarrow>
               (if creds_is_transient c then creds_new True RETRY_EXHAUSTED_ERROR (GaxError e)
                else creds_new False TOKEN_FETCH_FAILED_ERROR (GaxError e))
           | _ \<Rightarrow> creds_new False TOKEN_FETCH_FAILED_ERROR (GaxError e))"

text \<open>
  The token request is the inner function of the environment, with its credentials errors
  wrapped; the environment's other parts are those of the provider.
\<close>

definition fetch_env ::
  "('w \<Rightarrow> (credentials_error, 'r) result \<times> 'w) \<Rightarrow> ('w, 'r) loop_env \<Rightarrow> ('w, 'r) loop_env" where
  "fetch_env token env =
     env\<lparr>env_inner := (\<lambda>_ w. case token w of
          (Err c, w') \<Rightarrow> (Err (authentication c), w')
        | (Ok t, w') \<Rightarrow> (Ok t, w'))\<rparr>"

definition execute_retry_loop ::
  "nat \<Rightarrow> ('w \<Rightarrow> (credentials_error, 'r) result \<times> 'w) \<Rightarrow> ('w, 'r) loop_env \<Rightarrow> retry_policy \<Rightarrow> 'w \<Rightarrow>
   ((credentials_error, 'r) result \<times> 'w) run option" where
  "execute_retry_loop fuel token env policy w =
     map_option (map_run (\<lambda>(r, w'). (case r of Err e \<Rightarrow> Err (map_retry_error e) | Ok t \<Rightarrow> Ok t, w')))
       (retry_loop fuel (fetch_env token env) policy True w)"

text \<open>The policy used when none is configured.\<close>

definition resolve_retry_policy :: "retry_policy option \<Rightarrow> retry_policy" where
  "resolve_retry_policy p = (case p of Some q \<Rightarrow> q | None \<Rightarrow> with_attempt_limit always_retry 1)"

section \<open>Contracts of the client policies\<close>

lemma storage_on_error_result [simp]: "result_error (storage_on_error st e) = e"
  by (simp add: storage_on_error_def split: option.splits)

lemma bigquery_query_on_error_result [simp]: "result_error (bigquery_query_on_error st e) = e"
  by (simp add: bigquery_query_on_error_def split: option.splits)

interpretation storage: idempotency_contract storage_retryable_errors
  unfolding storage_retryable_errors_def
  by (intro idempotency_contract.intro simple_policy_contract idempotency_contract_axioms.intro)
    (auto simp: storage_on_error_def split: if_splits option.splits)

interpretation bigquery: idempotency_contract bigquery_query_retryable_errors
  unfolding bigquery_query_retryable_errors_def
  by (intro idempotency_contract.intro simple_policy_contract idempotency_contract_axioms.intro)
    (auto simp: bigquery_query_on_error_def split: if_splits option.splits)

lemma spanner_on_error_Ret:
  "spanner_on_error now st e = Ret r \<longleftrightarrow>
     (\<exists>r0. on_error aip194_strict now st e = Ret r0 \<and>
        r = (if is_permanent r0 \<and> idempotent st \<and>
               (is_transport (result_error r0) \<or> is_io (result_error r0) \<or>
                is_retryable_internal_error (result_error r0))
             then Continue (result_error r0) else r0))"
proof (cases "on_error aip194_strict now st e")
  case (Ret r0)
  then show ?thesis by (cases r0) (auto simp: spanner_on_error_def)
qed (simp add: spanner_on_error_def)

interpretation spanner: idempotency_contract spanner_retry_policy
proof unfold_locales
  fix now st e r
  assume "on_error spanner_retry_policy now st e = Ret r"
  then show "result_error r = e"
    by (auto simp: spanner_retry_policy_def spanner_on_error_Ret dest: aip.on_error_keeps
        split: if_splits)
next
  fix now st e e'
  assume "on_throttle spanner_retry_policy now st e = Ret (ThrottleContinue e')"
  then show "e' = e"
    by (auto simp: spanner_retry_policy_def dest: aip.on_throttle_continue)
next
  fix now st e e'
  assume "on_throttle spanner_retry_policy now st e = Ret (ThrottleExhausted e')"
  then show "e' = e \<or> (\<exists>d. e' = exhausted (ElapsedTimeError d e))"
    by (auto simp: spanner_retry_policy_def dest: aip.on_throttle_exhausted)
next
  fix now st e e'
  assume "on_error spanner_retry_policy now st e = Ret (Continue e')" "\<not> idempotent st"
  then show "is_transient_and_before_rpc e"
    by (auto simp: spanner_retry_policy_def spanner_on_error_Ret dest: aip.not_idempotent
        split: if_splits)
qed

lemma continue_on_308_contract: "retry_contract p \<Longrightarrow> retry_contract (continue_on_308 p)"
  by unfold_locales
    (auto simp: continue_on_308_def default_on_throttle_def split: if_splits
      dest: retry_contract.on_error_keeps)

section \<open>Properties\<close>

text \<open>
  The policies of Storage, of BigQuery queries and of Spanner, each under a time limit and
  an attempt limit, do not repeat a request that is not idempotent once it may have reached the
  service.
\<close>

theorem client_policies_respect_idempotency:
  assumes "P \<in> {storage_retryable_errors, bigquery_query_retryable_errors, spanner_retry_policy}"
    and "retry_loop fuel (logged env) (with_attempt_limit (with_time_limit P d) n) False (w0, []) =
           Some (Ret (r, (w', l)))"
  shows "\<forall>c \<in> set (butlast (calls l)). \<exists>e. c = Err e \<and> is_transient_and_before_rpc e"
proof -
  have "idempotency_contract P"
    using assms(1) storage.idempotency_contract_axioms bigquery.idempotency_contract_axioms
      spanner.idempotency_contract_axioms by auto
  then have "idempotency_contract (limited_attempt_count (limited_elapsed_time P d) n)"
    by (intro idempotency_contract.limited_attempt_count_idem
        idempotency_contract.limited_elapsed_time_idem)
  from idempotency_contract.loop_result_idem [OF this] assms(2) show ?thesis
    by (simp add: policy_ext_defs)
qed

lemma client_policies_respect_idempotency_witness:
  "\<exists>w' l. retry_loop 5 (logged sim_env)
      (with_attempt_limit (with_time_limit storage_retryable_errors (from_secs 60)) 4) False
      (sim_start [Err (connect (MsgError ''refused'')), Err unavailable, Ok 7], []) =
      Some (Ret (Err unavailable, (w', l)))
    \<and> (\<forall>c \<in> set (butlast (calls l)). \<exists>e. c = Err e \<and> is_transient_and_before_rpc e)"
proof -
  have "\<exists>w' l. retry_loop 5 (logged sim_env)
      (with_attempt_limit (with_time_limit storage_retryable_errors (from_secs 60)) 4) False
      (sim_start [Err (connect (MsgError ''refused'')), Err unavailable, Ok 7], []) =
      Some (Ret (Err unavailable, (w', l)))"
    by (simp add: loop_eval connect_def error_classifiers unavailable_def service_def word_le_nat_alt
        storage_retryable_errors_def storage_on_error_def)
  then obtain w' l where run: "retry_loop 5 (logged sim_env)
      (with_attempt_limit (with_time_limit storage_retryable_errors (from_secs 60)) 4) False
      (sim_start [Err (connect (MsgError ''refused'')), Err unavailable, Ok 7], []) =
      Some (Ret (Err unavailable, (w', l)))"
    by blast
  from client_policies_respect_idempotency [OF _ run] run show ?thesis by blast
qed

text \<open>
  \<open>ContinueOn308\<close>, which wraps the configured policy in resumable uploads, forgets
  the limits of that policy between requests: whatever the inner policy is, for instance one with
  a time limit, no remaining time is reported and a throttled retry is never the end. When an
  upload got a 308 and the throttler then holds back every retry, the loop never returns.
\<close>

theorem continue_on_308_drops_limits:
  assumes "\<forall>w. \<exists>w'. env_throttle env w = Ret (True, w')"
    and "\<forall>f w. env_on_retry_failure env f w \<noteq> Panic"
    and "env_inner env None w0 = (Err e, w1)" and "http_status_code e = Some 308"
  shows "retry_loop fuel env (continue_on_308 (with_time_limit p d)) idem w0 = None"
  by (intro throttled_forever [OF assms(1-3)])
    (simp_all add: assms(4) continue_on_308_def default_on_throttle_def default_remaining_time_def)

lemma continue_on_308_drops_limits_witness:
  "\<forall>fuel. retry_loop fuel (sim_env\<lparr>env_throttle := (\<lambda>w. Ret (True, w))\<rparr>)
     (continue_on_308 (with_time_limit storage_retryable_errors (from_secs 300))) True
     (sim_start [Err (http 308 [] []), Ok 1]) = None"
  by (rule allI, rule continue_on_308_drops_limits [where e = "http 308 [] []"])
    (simp_all add: sim_env_def sim_start_def http_def error_classifiers)

text \<open>
  How a failed token request is reported after the retries: it is transient exactly if the
  loop ended with an authentication error that holds a transient credentials error.
\<close>

lemma map_retry_error_transient:
  "creds_is_transient (map_retry_error e) \<longleftrightarrow>
     is_authentication e \<and> (\<exists>c. source e = Some (CredsError c) \<and> creds_is_transient c)"
  by (auto simp: map_retry_error_def creds_is_transient_def creds_from_source_def creds_new_def
      split: option.splits box_error.splits)

definition flaky_token :: "sim \<Rightarrow> (credentials_error, nat) result \<times> sim" where
  "flaky_token w = (Err (creds_from_msg True ''try again''), w\<lparr>sim_clock := sim_clock w + from_millis 10\<rparr>)"

text \<open>
  Time limits turn transient token errors into permanent ones: a token request that keeps failing with a transient
  credentials error is reported as a permanent failure when the time limit ends the retries, and
  as a transient one when an attempt limit does.
\<close>

theorem transient_token_error_reported_permanent:
  "(\<exists>c w'. execute_retry_loop 5 flaky_token sim_env (with_time_limit always_retry (from_millis 500))
       (sim_start []) = Some (Ret (Err c, w')) \<and> \<not> creds_is_transient c) \<and>
   (\<exists>c w'. execute_retry_loop 5 flaky_token sim_env (with_attempt_limit always_retry 2)
       (sim_start []) = Some (Ret (Err c, w')) \<and> creds_is_transient c)"
  by (simp add: execute_retry_loop_def fetch_env_def flaky_token_def loop_eval map_retry_error_def
      authentication_def exhausted_def is_authentication_def creds_is_transient_def creds_new_def
      creds_from_source_def creds_from_msg_def sim_env_def)

end
