(* ===== verification/Polling_Policy.thy ===== *)
theory Polling_Policy
  imports Retry_Policy
begin

text \<open>
  Polling policies of the \<open>gax\<close> crate (\<open>gax/src/polling_error_policy.rs\<close>) and the
  state of a polling loop (\<open>gax/src/polling_state.rs\<close>). A \<open>dyn PollingErrorPolicy\<close>
  is a record of its two methods, as for the retry policies.
\<close>

section \<open>Model\<close>

record polling_state =
  ps_start :: instant
  ps_attempt_count :: u32

definition polling_state_default :: "instant \<Rightarrow> polling_state" where
  "polling_state_default now = \<lparr>ps_start = now, ps_attempt_count = 0\<rparr>"

definition polling_set_start :: "polling_state \<Rightarrow> instant \<Rightarrow> polling_state" where
  "polling_set_start s v = s\<lparr>ps_start := v\<rparr>"

definition polling_set_attempt_count :: "polling_state \<Rightarrow> u32 \<Rightarrow> polling_state" where
  "polling_set_attempt_count s v = s\<lparr>ps_attempt_count := v\<rparr>"

record polling_error_policy =
  poll_on_error :: "instant \<Rightarrow> polling_state \<Rightarrow> error \<Rightarrow> retry_result run"
  poll_on_in_progress :: "instant \<Rightarrow> polling_state \<Rightarrow> string \<Rightarrow> (error, unit) result run"

text \<open>The default method of the trait.\<close>

definition default_on_in_progress :: "instant \<Rightarrow> polling_state \<Rightarrow> string \<Rightarrow> (error, unit) result run" where
  "default_on_in_progress now st name = Ret (Ok ())"

definition polling_aip194_on_error :: "error \<Rightarrow> retry_result" where
  "polling_aip194_on_error e =
     (if is_transient_and_before_rpc e then Continue e
      else if is_io e then Continue e
      else case error_status e of
             Some s \<Rightarrow> if status_code s = Unavailable then Continue e else Permanent e
           | None \<Rightarrow>
               (case http_status_code e of
                  Some code \<Rightarrow> if code = 503 then Continue e else Permanent e
                | None \<Rightarrow> Permanent e))"

definition polling_aip194_strict :: polling_error_policy where
  "polling_aip194_strict =
     \<lparr>poll_on_error = (\<lambda>now st e. Ret (polling_aip194_on_error e)),
      poll_on_in_progress = default_on_in_progress\<rparr>"

definition always_continue :: polling_error_policy where
  "always_continue =
     \<lparr>poll_on_error = (\<lambda>now st e. Ret (Continue e)),
      poll_on_in_progress = default_on_in_progress\<rparr>"

subsection \<open>LimitedElapsedTime\<close>

text \<open>
  \<open>checked_duration_since(start).unwrap()\<close> panics if the clock is before the start.
\<close>

definition elapsed_in_progress_impl ::
  "duration \<Rightarrow> instant \<Rightarrow> instant \<Rightarrow> string \<Rightarrow> (error, unit) result run" where
  "elapsed_in_progress_impl maximum_duration now t0 name =
     bind_run (instant_add t0 maximum_duration) (\<lambda>deadline.
       if now < deadline then Ret (Ok ())
       else if now < t0 then Panic
       else Ret (Err (exhausted (PollingExhausted name ''elapsed time'' (now - t0) maximum_duration))))"

definition polling_elapsed_on_error ::
  "polling_error_policy \<Rightarrow> duration \<Rightarrow> instant \<Rightarrow> polling_state \<Rightarrow> error \<Rightarrow> retry_result run" where
  "polling_elapsed_on_error inner maximum_duration now st e =
     bind_run (poll_on_error inner now st e) (\<lambda>r.
       case r of
         Permanent e' \<Rightarrow> Ret (Permanent e')
       | Exhausted e' \<Rightarrow> Ret (Exhausted e')
       | Continue e' \<Rightarrow>
           bind_run (instant_add (ps_start st) maximum_duration) (\<lambda>deadline.
             if deadline \<le> now then Ret (Exhausted e') else Ret (Continue e')))"

definition polling_elapsed_on_in_progress ::
  "polling_error_policy \<Rightarrow> duration \<Rightarrow> instant \<Rightarrow> polling_state \<Rightarrow> string \<Rightarrow> (error, unit) result run" where
  "polling_elapsed_on_in_progress inner maximum_duration now st name =
     bind_run (poll_on_in_progress inner now st name) (\<lambda>r.
       case r of
         Err e \<Rightarrow> Ret (Err e)
       | Ok _ \<Rightarrow> elapsed_in_progress_impl maximum_duration now (ps_start st) name)"

definition polling_limited_elapsed_time :: "polling_error_policy \<Rightarrow> duration \<Rightarrow> polling_error_policy" where
  "polling_limited_elapsed_time inner maximum_duration =
     \<lparr>poll_on_error = polling_elapsed_on_error inner maximum_duration,
      poll_on_in_progress = polling_elapsed_on_in_progress inner maximum_duration\<rparr>"

subsection \<open>LimitedAttemptCount\<close>

definition attempt_in_progress_impl :: "u32 \<Rightarrow> u32 \<Rightarrow> string \<Rightarrow> (error, unit) result run" where
  "attempt_in_progress_impl maximum_attempts count name =
     (if count < maximum_attempts then Ret (Ok ())
      else Ret (Err (exhausted
             (PollingExhausted name ''attempt count'' (unat count) (unat maximum_attempts)))))"

definition polling_attempt_on_error ::
  "polling_error_policy \<Rightarrow> u32 \<Rightarrow> instant \<Rightarrow> polling_state \<Rightarrow> error \<Rightarrow> retry_result run" where
  "polling_attempt_on_error inner maximum_attempts now st e =
     bind_run (poll_on_error inner now st e) (\<lambda>r.
       case r of
         Permanent e' \<Rightarrow> Ret (Permanent e')
       | Exhausted e' \<Rightarrow> Ret (Exhausted e')
       | Continue e' \<Rightarrow>
           (if maximum_attempts \<le> ps_attempt_count st then Ret (Exhausted e') else Ret (Continue e')))"

definition polling_attempt_on_in_progress ::
  "polling_error_policy \<Rightarrow> u32 \<Rightarrow> instant \<Rightarrow> polling_state \<Rightarrow> string \<Rightarrow> (error, unit) result run" where
  "polling_attempt_on_in_progress inner maximum_attempts now st name =
     bind_run (poll_on_in_progress inner now st name) (\<lambda>r.
       case r of
         Err e \<Rightarrow> Ret (Err e)
       | Ok _ \<Rightarrow> attempt_in_progress_impl maximum_attempts (ps_attempt_count st) name)"

definition polling_limited_attempt_count :: "polling_error_policy \<Rightarrow> u32 \<Rightarrow> polling_error_policy" where
  "polling_limited_attempt_count inner maximum_attempts =
     \<lparr>poll_on_error = polling_attempt_on_error inner maximum_attempts,
      poll_on_in_progress = polling_attempt_on_in_progress inner maximum_attempts\<rparr>"

subsection \<open>Extension methods\<close>

definition polling_with_time_limit :: "polling_error_policy \<Rightarrow> duration \<Rightarrow> polling_error_policy" where
  "polling_with_time_limit self maximum_duration = polling_limited_elapsed_time self maximum_duration"

definition polling_with_attempt_limit :: "polling_error_policy \<Rightarrow> u32 \<Rightarrow> polling_error_policy" where
  "polling_with_attempt_limit self maximum_attempts = polling_limited_attempt_count self maximum_attempts"

section \<open>Facts\<close>

lemma polling_limited_sel [simp]:
  "poll_on_error (polling_limited_elapsed_time p d) = polling_elapsed_on_error p d"
  "poll_on_in_progress (polling_limited_elapsed_time p d) = polling_elapsed_on_in_progress p d"
  "poll_on_error (polling_limited_attempt_count p n) = polling_attempt_on_error p n"
  "poll_on_in_progress (polling_limited_attempt_count p n) = polling_attempt_on_in_progress p n"
  by (simp_all add: polling_limited_elapsed_time_def polling_limited_attempt_count_def)

lemma polling_simple_sel [simp]:
  "poll_on_error polling_aip194_strict now st e = Ret (polling_aip194_on_error e)"
  "poll_on_in_progress polling_aip194_strict now st name = Ret (Ok ())"
  "poll_on_error always_continue now st e = Ret (Continue e)"
  "poll_on_in_progress always_continue now st name = Ret (Ok ())"
  by (simp_all add: polling_aip194_strict_def always_continue_def default_on_in_progress_def)

lemma polling_attempt_on_error_ContinueD:
  "polling_attempt_on_error p n now st e = Ret (Continue e') \<Longrightarrow> ps_attempt_count st < n"
  by (auto simp: polling_attempt_on_error_def bind_run_Ret_iff case_retry_result_eq split: if_splits)

lemma polling_attempt_on_in_progress_OkD:
  "polling_attempt_on_in_progress p n now st name = Ret (Ok u) \<Longrightarrow> ps_attempt_count st < n"
  by (auto simp: polling_attempt_on_in_progress_def attempt_in_progress_impl_def bind_run_Ret_iff
      case_result_eq split: if_splits)

text \<open>Policies that never panic, under which the pollers cannot panic either.\<close>

definition polling_total :: "polling_error_policy \<Rightarrow> bool" where
  "polling_total p \<longleftrightarrow>
     (\<forall>now st e. poll_on_error p now st e \<noteq> Panic) \<and>
     (\<forall>now st name. poll_on_in_progress p now st name \<noteq> Panic)"

lemma polling_total_simple: "polling_total polling_aip194_strict" "polling_total always_continue"
  by (simp_all add: polling_total_def)

lemma polling_total_attempts: "polling_total p \<Longrightarrow> polling_total (polling_limited_attempt_count p n)"
  by (auto simp: polling_total_def polling_attempt_on_error_def polling_attempt_on_in_progress_def
      attempt_in_progress_impl_def bind_run_Panic_iff split: retry_result.splits result.splits if_splits)

end
