(* ===== verification/Long_Running.thy ===== *)
theory Long_Running
  imports Polling_Policy
begin

text \<open>
  Long-running operations, the \<open>lro\<close> crate: the polling results and the \<open>until_done\<close>
  loop of \<open>lro/src/lib.rs\<close>, the handling of a polled operation of
  \<open>lro/src/details.rs\<close>, the AIP-151 poller of \<open>lro/src/internal/aip151.rs\<close> and the
  poller for discovery-based services of \<open>lro/src/internal/discovery.rs\<close>.

  A poller is a state and a \<open>poll\<close> function on that state and the world: the closures that
  start and query the operation, the clock and the sleep are functions on the world. The
  telemetry recorder is not part of the model.
\<close>

section \<open>Polling results and the generic loop\<close>

datatype ('r, 'm) polling_result =
    InProgress "'m option"
  | Completed "(error, 'r) result"
  | PollingError error

text \<open>
  One call of \<open>poll\<close>; \<open>None\<close> is the end of the stream.
\<close>

type_synonym ('s, 'w, 'r, 'm) poll_fun = "'s \<Rightarrow> 'w \<Rightarrow> (('r, 'm) polling_result option \<times> 's \<times> 'w) run"

text \<open>\<open>until_done\<close>: \<open>None\<close> is "still running"; \<open>backoff\<close> is the poller's wait.\<close>

fun until_done_from ::
  "nat \<Rightarrow> ('s, 'w, 'r, 'm) poll_fun \<Rightarrow> (polling_state \<Rightarrow> 'w \<Rightarrow> 'w) \<Rightarrow> polling_state \<Rightarrow> 's \<Rightarrow> 'w \<Rightarrow>
   ((error, 'r) result \<times> 'w) run option" where
  "until_done_from 0 poll backoff state s w = None"
| "until_done_from (Suc fuel) poll backoff state s w =
     (case poll s w of
        Panic \<Rightarrow> Some Panic
      | Ret (Some (Completed r), s', w') \<Rightarrow> Some (Ret (r, w'))
      | Ret (None, s', w') \<Rightarrow> Some Panic
      | Ret (Some (InProgress _), s', w') \<Rightarrow>
          (let state' = polling_set_attempt_count state (ps_attempt_count state + 1)
           in until_done_from fuel poll backoff state' s' (backoff state' w'))
      | Ret (Some (PollingError _), s', w') \<Rightarrow>
          (let state' = polling_set_attempt_count state (ps_attempt_count state + 1)
           in until_done_from fuel poll backoff state' s' (backoff state' w')))"

definition until_done ::
  "nat \<Rightarrow> ('s, 'w, 'r, 'm) poll_fun \<Rightarrow> (polling_state \<Rightarrow> 'w \<Rightarrow> 'w) \<Rightarrow> ('w \<Rightarrow> instant) \<Rightarrow> 's \<Rightarrow> 'w \<Rightarrow>
   ((error, 'r) result \<times> 'w) run option" where
  "until_done fuel poll backoff clock s w =
     until_done_from fuel poll backoff (polling_state_default (clock w)) s w"

text \<open>\<open>into_stream\<close>: the first \<open>n\<close> items of the stream, with no waiting between them.\<close>

fun into_stream ::
  "nat \<Rightarrow> ('s, 'w, 'r, 'm) poll_fun \<Rightarrow> 's \<Rightarrow> 'w \<Rightarrow> ('r, 'm) polling_result list run" where
  "into_stream 0 poll s w = Ret []"
| "into_stream (Suc n) poll s w =
     (case poll s w of
        Panic \<Rightarrow> Panic
      | Ret (None, s', w') \<Rightarrow> Ret []
      | Ret (Some item, s', w') \<Rightarrow> map_run (\<lambda>items. item # items) (into_stream n poll s' w'))"

section \<open>Operations\<close>

text \<open>\<open>google_cloud_longrunning::model::Operation\<close>; an \<open>Any\<close> is its JSON text.\<close>

datatype operation_result = ResultError rpc_status | ResultResponse json

record operation =
  op_name :: string
  op_done :: bool
  op_metadata :: "json option"
  op_result :: "operation_result option"

definition op_response :: "operation \<Rightarrow> json option" where
  "op_response op =
     (case op_result op of
        Some (ResultResponse r) \<Rightarrow> Some r
      | Some (ResultError _) \<Rightarrow> None
      | None \<Rightarrow> None)"

definition op_error :: "operation \<Rightarrow> rpc_status option" where
  "op_error op =
     (case op_result op of
        Some (ResultError rpc) \<Rightarrow> Some rpc
      | Some (ResultResponse _) \<Rightarrow> None
      | None \<Rightarrow> None)"

text \<open>
  The decoders of the generated message types: \<open>Any::to_msg\<close> for the response and the
  metadata, and the conversion of a status detail.
\<close>

record ('r, 'm) codec =
  to_response :: "json \<Rightarrow> (box_error, 'r) result"
  to_metadata :: "json \<Rightarrow> (box_error, 'm) result"
  detail_from_any :: "json \<Rightarrow> status_details"

definition as_result :: "('r, 'm) codec \<Rightarrow> operation \<Rightarrow> (error, 'r) result run" where
  "as_result c op =
     (case (op_response op, op_error op) of
        (Some any, None) \<Rightarrow>
          Ret (case to_response c any of Ok r \<Rightarrow> Ok r | Err e \<Rightarrow> Err (deser e))
      | (None, Some e) \<Rightarrow> Ret (Err (service (status_from_rpc (detail_from_any c) e)))
      | (None, None) \<Rightarrow> Ret (Err (deser (MsgError ''neither result nor error set in LRO result'')))
      | (Some _, Some _) \<Rightarrow> Panic)"

definition as_metadata :: "('r, 'm) codec \<Rightarrow> operation \<Rightarrow> 'm option" where
  "as_metadata c op =
     (case op_metadata op of
        None \<Rightarrow> None
      | Some a \<Rightarrow> (case to_metadata c a of Ok m \<Rightarrow> Some m | Err _ \<Rightarrow> None))"

definition handle_common ::
  "('r, 'm) codec \<Rightarrow> operation \<Rightarrow> (string option \<times> ('r, 'm) polling_result) run" where
  "handle_common c op =
     (if op_done op then map_run (\<lambda>r. (None, Completed r)) (as_result c op)
      else Ret (Some (op_name op), InProgress (as_metadata c op)))"

definition handle_start ::
  "('r, 'm) codec \<Rightarrow> (error, operation) result \<Rightarrow> (string option \<times> ('r, 'm) polling_result) run" where
  "handle_start c result =
     (case result of
        Err e \<Rightarrow> Ret (None, Completed (Err e))
      | Ok op \<Rightarrow> handle_common c op)"

definition handle_polling_error ::
  "retry_result \<Rightarrow> string \<Rightarrow> string option \<times> ('r, 'm) polling_result" where
  "handle_polling_error state name =
     (case state of
        Continue e \<Rightarrow> (Some name, PollingError e)
      | Exhausted e \<Rightarrow> (None, Completed (Err e))
      | Permanent e \<Rightarrow> (None, Completed (Err e)))"

definition handle_poll ::
  "('r, 'm) codec \<Rightarrow> polling_error_policy \<Rightarrow> instant \<Rightarrow> polling_state \<Rightarrow> string \<Rightarrow>
   (error, operation) result \<Rightarrow> (string option \<times> ('r, 'm) polling_result) run" where
  "handle_poll c policy now st operation_name result =
     (case result of
        Err e \<Rightarrow>
          map_run (\<lambda>r. handle_polling_error r operation_name) (poll_on_error policy now st e)
      | Ok op \<Rightarrow>
          bind_run (handle_common c op) (\<lambda>(name, res).
            case res of
              Completed _ \<Rightarrow> Ret (name, res)
            | InProgress _ \<Rightarrow>
                map_run (\<lambda>x. case x of Ok _ \<Rightarrow> (name, res) | Err e \<Rightarrow> (None, Completed (Err e)))
                  (poll_on_in_progress policy now st operation_name)
            | PollingError _ \<Rightarrow> Panic))"

section \<open>The AIP-151 poller\<close>

text \<open>
  \<open>PollerImpl\<close>: \<open>po_start\<close> says whether the start closure is still there.
\<close>

record poller =
  po_start :: bool
  po_operation :: "string option"
  po_state :: polling_state

record ('w, 'o) lro_env =
  lro_now :: "'w \<Rightarrow> instant"
  lro_start :: "'w \<Rightarrow> (error, 'o) result \<times> 'w"
  lro_query :: "string \<Rightarrow> 'w \<Rightarrow> (error, 'o) result \<times> 'w"
  lro_sleep :: "duration \<Rightarrow> 'w \<Rightarrow> 'w"

definition poller_new :: "instant \<Rightarrow> poller" where
  "poller_new now = \<lparr>po_start = True, po_operation = None, po_state = polling_state_default now\<rparr>"

text \<open>The second branch of \<open>poll\<close> counts the query before it is sent.\<close>

definition next_poll_state :: "polling_state \<Rightarrow> polling_state" where
  "next_poll_state st = polling_set_attempt_count st (ps_attempt_count st + 1)"

definition poll ::
  "('r, 'm) codec \<Rightarrow> polling_error_policy \<Rightarrow> ('w, operation) lro_env \<Rightarrow> (poller, 'w, 'r, 'm) poll_fun" where
  "poll c policy env s w =
     (if po_start s then
        (case lro_start env w of
           (result, w') \<Rightarrow>
             map_run (\<lambda>(op, p). (Some p, s\<lparr>po_start := False, po_operation := op\<rparr>, w'))
               (handle_start c result))
      else
        (case po_operation s of
           Some name \<Rightarrow>
             (let st = next_poll_state (po_state s)
              in case lro_query env name w of
                   (result, w') \<Rightarrow>
                     map_run (\<lambda>(op, p). (Some p, s\<lparr>po_operation := op, po_state := st\<rparr>, w'))
                       (handle_poll c policy (lro_now env w') st name result))
         | None \<Rightarrow> Ret (None, s, w)))"

definition poller_backoff ::
  "('w, 'o) lro_env \<Rightarrow> (polling_state \<Rightarrow> duration) \<Rightarrow> polling_state \<Rightarrow> 'w \<Rightarrow> 'w" where
  "poller_backoff env wait_period st w = lro_sleep env (wait_period st) w"

text \<open>The pollers for services without a response or without metadata.\<close>

fun map_polling_result :: "('r, 'm) polling_result \<Rightarrow> (unit, 'm) polling_result" where
  "map_polling_result (Completed r) = Completed (case r of Ok _ \<Rightarrow> Ok () | Err e \<Rightarrow> Err e)"
| "map_polling_result (InProgress m) = InProgress m"
| "map_polling_result (PollingError e) = PollingError e"

fun map_polling_metadata :: "('r, 'm) polling_result \<Rightarrow> ('r, unit) polling_result" where
  "map_polling_metadata (Completed r) = Completed r"
| "map_polling_metadata (InProgress m) = InProgress (map_option (\<lambda>_. ()) m)"
| "map_polling_metadata (PollingError e) = PollingError e"

definition unit_response_poll :: "('s, 'w, 'r, 'm) poll_fun \<Rightarrow> ('s, 'w, unit, 'm) poll_fun" where
  "unit_response_poll inner s w =
     map_run (\<lambda>(p, s', w'). (map_option map_polling_result p, s', w')) (inner s w)"

definition unit_metadata_poll :: "('s, 'w, 'r, 'm) poll_fun \<Rightarrow> ('s, 'w, 'r, unit) poll_fun" where
  "unit_metadata_poll inner s w =
     map_run (\<lambda>(p, s', w'). (map_option map_polling_metadata p, s', w')) (inner s w)"

section \<open>The poller of discovery-based services\<close>

text \<open>The operation type of the service with its \<open>done\<close> and \<open>name\<close> methods.\<close>

record 'o discovery_operation =
  do_done :: "'o \<Rightarrow> bool"
  do_name :: "'o \<Rightarrow> string option"

definition discovery_polling_success ::
  "'o discovery_operation \<Rightarrow> 'o \<Rightarrow> string option \<times> ('o, 'o) polling_result" where
  "discovery_polling_success d x = (do_name d x, InProgress (Some x))"

definition discovery_handle_start ::
  "'o discovery_operation \<Rightarrow> (error, 'o) result \<Rightarrow> string option \<times> ('o, 'o) polling_result" where
  "discovery_handle_start d result =
     (case result of
        Err e \<Rightarrow> (None, Completed (Err e))
      | Ok x \<Rightarrow> (if do_done d x then (None, Completed (Ok x)) else discovery_polling_success d x))"

definition discovery_handle_poll ::
  "'o discovery_operation \<Rightarrow> polling_error_policy \<Rightarrow> instant \<Rightarrow> polling_state \<Rightarrow> string \<Rightarrow>
   (error, 'o) result \<Rightarrow> (string option \<times> ('o, 'o) polling_result) run" where
  "discovery_handle_poll d policy now st operation_name result =
     (case result of
        Err e \<Rightarrow>
          map_run (\<lambda>r. handle_polling_error r operation_name) (poll_on_error policy now st e)
      | Ok x \<Rightarrow>
          Ret (if do_done d x then (None, Completed (Ok x)) else discovery_polling_success d x))"

definition discovery_poll ::
  "'o discovery_operation \<Rightarrow> polling_error_policy \<Rightarrow> ('w, 'o) lro_env \<Rightarrow> (poller, 'w, 'o, 'o) poll_fun" where
  "discovery_poll d policy env s w =
     (if po_start s then
        (case lro_start env w of
           (result, w') \<Rightarrow>
             (case discovery_handle_start d result of
                (op, p) \<Rightarrow> Ret (Some p, s\<lparr>po_start := False, po_operation := op\<rparr>, w')))
      else
        (case po_operation s of
           Some name \<Rightarrow>
             (let st = next_poll_state (po_state s)
              in case lro_query env name w of
                   (result, w') \<Rightarrow>
                     map_run (\<lambda>(op, p). (Some p, s\<lparr>po_operation := op, po_state := st\<rparr>, w'))
                       (discovery_handle_poll d policy (lro_now env w') st name result))
         | None \<Rightarrow> Ret (None, s, w)))"

section \<open>The contract of a poller\<close>

fun is_completed :: "('r, 'm) polling_result \<Rightarrow> bool" where
  "is_completed (Completed _) = True"
| "is_completed (InProgress _) = False"
| "is_completed (PollingError _) = False"

text \<open>
  What \<open>until_done\<close> and the stream rely on: a live poller answers, it stays live exactly until
  it answered \<open>Completed\<close>, and a dead one ends the stream.
\<close>

locale poller_contract =
  fixes P :: "('s, 'w, 'r, 'm) poll_fun"
    and live :: "'s \<Rightarrow> bool"
  assumes live_poll: "live s \<Longrightarrow> P s w = Ret (p, s', w') \<Longrightarrow>
            \<exists>r. p = Some r \<and> (live s' \<longleftrightarrow> \<not> is_completed r)"
    and dead_poll: "\<not> live s \<Longrightarrow> P s w = Ret (None, s, w)"
begin

lemma live_poll_cases:
  assumes "live s"
  obtains (panic) "P s w = Panic"
  | (completed) r s' w' where "P s w = Ret (Some (Completed r), s', w')" "\<not> live s'"
  | (in_progress) m s' w' where "P s w = Ret (Some (InProgress m), s', w')" "live s'"
  | (polling_error) e s' w' where "P s w = Ret (Some (PollingError e), s', w')" "live s'"
proof (cases "P s w")
  case Panic
  then show thesis by (rule panic)
next
  case (Ret x)
  then obtain p s' w' where P: "P s w = Ret (p, s', w')" by (cases x) auto
  with live_poll [OF assms] obtain r where r: "p = Some r" "live s' \<longleftrightarrow> \<not> is_completed r"
    by blast
  with P show thesis
    by (cases r) (auto intro: completed in_progress polling_error)
qed

lemma until_done_not_stuck:
  assumes "\<And>s w. P s w \<noteq> Panic"
  shows "live s \<Longrightarrow> until_done_from fuel P backoff st s w \<noteq> Some Panic"
proof (induction fuel arbitrary: st s w)
  case (Suc fuel)
  from Suc.prems show ?case
    by (cases rule: live_poll_cases [of s w]) (use Suc.IH assms in \<open>auto simp: Let_def\<close>)
qed simp

lemma stream_after_end: "\<not> live s \<Longrightarrow> into_stream n P s w = Ret []"
  by (cases n) (simp_all add: dead_poll)

lemma stream_shape:
  "live s \<Longrightarrow> into_stream n P s w = Ret items \<Longrightarrow>
     (\<forall>i \<in> set (butlast items). \<not> is_completed i) \<and>
     (length items < n \<longrightarrow> items \<noteq> [] \<and> is_completed (last items))"
proof (induction n arbitrary: s w items)
  case (Suc n)
  from Suc.prems(1) show ?case
  proof (cases rule: live_poll_cases [of s w])
    case panic
    with Suc.prems show ?thesis by simp
  next
    case (completed r s' w')
    with Suc.prems show ?thesis by (auto simp: stream_after_end)
  next
    case (in_progress m s' w')
    with Suc.prems Suc.IH [of s' w'] show ?thesis by (auto simp: map_run_Ret_iff split: if_splits)
  next
    case (polling_error e s' w')
    with Suc.prems Suc.IH [of s' w'] show ?thesis by (auto simp: map_run_Ret_iff split: if_splits)
  qed
qed simp

lemma unit_response_contract: "poller_contract (unit_response_poll P) live"
proof unfold_locales
  fix s w p s' w'
  assume "live s" "unit_response_poll P s w = Ret (p, s', w')"
  then show "\<exists>r. p = Some r \<and> (live s' \<longleftrightarrow> \<not> is_completed r)"
    by (cases rule: live_poll_cases [of s w]) (auto simp: unit_response_poll_def)
qed (simp add: unit_response_poll_def dead_poll)

lemma unit_metadata_contract: "poller_contract (unit_metadata_poll P) live"
proof unfold_locales
  fix s w p s' w'
  assume "live s" "unit_metadata_poll P s w = Ret (p, s', w')"
  then show "\<exists>r. p = Some r \<and> (live s' \<longleftrightarrow> \<not> is_completed r)"
    by (cases rule: live_poll_cases [of s w]) (auto simp: unit_metadata_poll_def)
qed (simp add: unit_metadata_poll_def dead_poll)

end

definition poller_live :: "poller \<Rightarrow> bool" where
  "poller_live s \<longleftrightarrow> po_start s \<or> po_operation s \<noteq> None"

lemma handle_common_name:
  "handle_common c op = Ret (name, p) \<Longrightarrow> (name = None \<longleftrightarrow> is_completed p) \<and> (\<forall>e. p \<noteq> PollingError e)"
  by (auto simp: handle_common_def map_run_Ret_iff split: if_splits)

lemma handle_start_name:
  "handle_start c r = Ret (name, p) \<Longrightarrow> name = None \<longleftrightarrow> is_completed p"
  by (auto simp: handle_start_def split: result.splits dest: handle_common_name)

lemma handle_polling_error_name:
  "handle_polling_error r n = (name, p) \<Longrightarrow> name = None \<longleftrightarrow> is_completed p"
  by (auto simp: handle_polling_error_def split: retry_result.splits)

lemma handle_poll_name:
  "handle_poll c policy now st n r = Ret (name, p) \<Longrightarrow> name = None \<longleftrightarrow> is_completed p"
proof (cases r)
  case (Err e)
  assume "handle_poll c policy now st n r = Ret (name, p)"
  with Err show ?thesis
    by (auto simp: handle_poll_def map_run_Ret_iff dest: handle_polling_error_name [OF sym])
next
  case (Ok op)
  assume h: "handle_poll c policy now st n r = Ret (name, p)"
  with Ok obtain name' p' where hc: "handle_common c op = Ret (name', p')"
    by (auto simp: handle_poll_def bind_run_Ret_iff)
  with h Ok handle_common_name [OF hc] show ?thesis
    by (cases p'; cases "poll_on_in_progress policy now st n")
      (auto simp: handle_poll_def split: result.split_asm)
qed

interpretation aip151: poller_contract "poll c policy env" poller_live for c policy env
proof unfold_locales
  fix s w p s' w'
  assume "poller_live s" "poll c policy env s w = Ret (p, s', w')"
  then show "\<exists>r. p = Some r \<and> (poller_live s' \<longleftrightarrow> \<not> is_completed r)"
    by (auto simp: poll_def poller_live_def Let_def case_prod_eq map_run_Ret_iff
        split: if_splits option.splits dest: handle_start_name handle_poll_name)
next
  fix s w
  assume "\<not> poller_live s"
  then show "poll c policy env s w = Ret (None, s, w)"
    by (simp add: poll_def poller_live_def)
qed


lemma discovery_contract:
  assumes "\<And>x. \<not> do_done d x \<Longrightarrow> do_name d x \<noteq> None"
  shows "poller_contract (discovery_poll d policy env) poller_live"
proof unfold_locales
  fix s w p s' w'
  have ok: "name = None \<longleftrightarrow> is_completed q"
    if "discovery_handle_start d r = (name, q)" for r name q
    using that by (auto dest: assms simp: discovery_handle_start_def discovery_polling_success_def split: result.splits if_splits)
  have ok': "name = None \<longleftrightarrow> is_completed q"
    if "discovery_handle_poll d policy now st n r = Ret (name, q)" for now st n r name q
    using that by (auto dest: assms simp: discovery_handle_poll_def discovery_polling_success_def map_run_Ret_iff
        split: result.splits if_splits dest: handle_polling_error_name [OF sym])
  assume "poller_live s" "discovery_poll d policy env s w = Ret (p, s', w')"
  then show "\<exists>r. p = Some r \<and> (poller_live s' \<longleftrightarrow> \<not> is_completed r)"
    by (auto simp: discovery_poll_def poller_live_def Let_def case_prod_eq map_run_Ret_iff
        split: if_splits option.splits dest: ok ok')
next
  fix s w
  assume "\<not> poller_live s"
  then show "discovery_poll d policy env s w = Ret (None, s, w)"
    by (simp add: discovery_poll_def poller_live_def)
qed

section \<open>Panics and termination\<close>

lemma as_result_not_Panic: "as_result c op \<noteq> Panic"
  by (auto simp: as_result_def op_response_def op_error_def
      split: option.splits operation_result.splits)

lemma handle_common_cases:
  obtains (finished) r where "handle_common c op = Ret (None, Completed r)"
  | (running) "handle_common c op = Ret (Some (op_name op), InProgress (as_metadata c op))"
proof (cases "op_done op")
  case True
  with as_result_not_Panic [of c op] obtain r where "as_result c op = Ret r"
    by (cases "as_result c op") auto
  with True show thesis by (intro finished [of r]) (simp add: handle_common_def)
next
  case False
  then show thesis by (intro running) (simp add: handle_common_def)
qed

lemma handle_common_not_Panic: "handle_common c op \<noteq> Panic"
  by (cases rule: handle_common_cases [of c op]) simp_all

lemma handle_start_not_Panic: "handle_start c r \<noteq> Panic"
  by (cases r) (simp_all add: handle_start_def handle_common_not_Panic)

lemma handle_poll_not_Panic: "polling_total policy \<Longrightarrow> handle_poll c policy now st n r \<noteq> Panic"
proof (cases r)
  case (Err e)
  assume "polling_total policy"
  with Err show ?thesis
    by (cases "poll_on_error policy now st e") (auto simp: handle_poll_def polling_total_def)
next
  case (Ok op)
  assume "polling_total policy"
  then have "poll_on_in_progress policy now st n \<noteq> Panic" by (simp add: polling_total_def)
  then show ?thesis
    using Ok by (cases rule: handle_common_cases [of c op]; cases "poll_on_in_progress policy now st n")
      (auto simp: handle_poll_def)
qed

lemma map_run_not_Panic [simp]: "map_run f m = Panic \<longleftrightarrow> m = Panic"
  by (cases m) auto

lemma poll_not_Panic: "polling_total policy \<Longrightarrow> poll c policy env s w \<noteq> Panic"
  by (auto simp: poll_def Let_def case_prod_eq handle_start_not_Panic handle_poll_not_Panic
      split: option.splits)

lemma handle_poll_attempt_limit:
  assumes "handle_poll c (polling_limited_attempt_count p n) now st name r = Ret (Some name', q)"
  shows "ps_attempt_count st < n"
proof (cases r)
  case (Err e)
  with assms show ?thesis
    by (cases "polling_attempt_on_error p n now st e")
      (auto simp: handle_poll_def handle_polling_error_def split: retry_result.split_asm
        dest: polling_attempt_on_error_ContinueD)
next
  case (Ok op)
  with assms show ?thesis
    by (cases rule: handle_common_cases [of c op]; cases "polling_attempt_on_in_progress p n now st name")
      (auto simp: handle_poll_def split: result.split_asm dest: polling_attempt_on_in_progress_OkD)
qed

lemma poll_attempt_limit_step:
  assumes "poll c (polling_limited_attempt_count p n) env s w = Ret (Some q, s', w')"
    and "\<not> po_start s" and "poller_live s'"
  shows "\<not> po_start s'" "po_state s' = next_poll_state (po_state s)"
    "ps_attempt_count (po_state s') < n"
  using assms
  by (auto simp: poll_def poller_live_def Let_def case_prod_eq map_run_Ret_iff
      split: option.splits dest: handle_poll_attempt_limit)

lemma poll_start_step:
  assumes "poll c policy env s w = Ret (Some q, s', w')" and "po_start s"
  shows "\<not> po_start s'" "po_state s' = po_state s"
  using assms by (auto simp: poll_def case_prod_eq map_run_Ret_iff)

lemma attempt_limit_until_done:
  assumes "\<not> po_start s" "poller_live s"
    and "ps_attempt_count (po_state s) = 0 \<or> ps_attempt_count (po_state s) < n"
    and "unat n \<le> Suc (unat (ps_attempt_count (po_state s)) + fuel)"
  shows "\<exists>out. until_done_from (Suc fuel) (poll c (polling_limited_attempt_count p n) env) b st s w = Some out"
  using assms
proof (induction fuel arbitrary: st s w)
  case 0
  have "unat (ps_attempt_count (po_state s) + 1) = Suc (unat (ps_attempt_count (po_state s)))"
    using 0(3) by (auto intro: unat_Suc_word)
  with 0(4) have stop: "\<not> (ps_attempt_count (po_state s) + 1 < n)"
    by (simp add: word_less_nat_alt)
  from 0(2) show ?case
  proof (cases rule: aip151.live_poll_cases [of s c "polling_limited_attempt_count p n" env w])
    case (in_progress m s' w')
    from poll_attempt_limit_step [OF in_progress(1) 0(1) in_progress(2)] stop show ?thesis
      by (simp add: next_poll_state_def polling_set_attempt_count_def)
  next
    case (polling_error e s' w')
    from poll_attempt_limit_step [OF polling_error(1) 0(1) polling_error(2)] stop show ?thesis
      by (simp add: next_poll_state_def polling_set_attempt_count_def)
  qed simp_all
next
  case (Suc fuel)
  have step: "\<exists>out. until_done_from (Suc fuel) (poll c (polling_limited_attempt_count p n) env) b st' s' w'' = Some out"
    if q: "poll c (polling_limited_attempt_count p n) env s w = Ret (Some q, s', w')" "poller_live s'"
    for q s' w' st' w''
  proof (rule Suc.IH)
    note next_state = poll_attempt_limit_step [OF q(1) Suc.prems(1) q(2)]
    show "\<not> po_start s'" "poller_live s'" using next_state q by auto
    show "ps_attempt_count (po_state s') = 0 \<or> ps_attempt_count (po_state s') < n"
      using next_state by simp
    have "unat (ps_attempt_count (po_state s) + 1) = Suc (unat (ps_attempt_count (po_state s)))"
      using Suc.prems(3) by (auto intro: unat_Suc_word)
    then show "unat n \<le> Suc (unat (ps_attempt_count (po_state s')) + fuel)"
      using next_state Suc.prems(4) by (simp add: next_poll_state_def polling_set_attempt_count_def)
  qed
  from Suc.prems(2) show ?case
    by (cases rule: aip151.live_poll_cases [of s c "polling_limited_attempt_count p n" env w])
      (use step in \<open>simp_all add: Let_def del: until_done_from.simps(2) add: until_done_from.simps(2) [of "Suc fuel"]\<close>)
qed

lemma discovery_in_progress_step:
  assumes "\<And>v. \<exists>v'. lro_start env v = (Ok x, v')" "\<And>m v. \<exists>v'. lro_query env m v = (Ok x, v')"
    and "\<not> do_done d x" "do_name d x = Some name" "poller_live s"
  obtains s' w' where "discovery_poll d policy env s w = Ret (Some (InProgress (Some x)), s', w')"
    "poller_live s'"
proof -
  obtain v where v: "lro_start env w = (Ok x, v)" using assms(1) by blast
  have "\<forall>m. \<exists>v'. lro_query env m w = (Ok x, v')" using assms(2) by blast
  then obtain q where q: "\<And>m. lro_query env m w = (Ok x, q m)" by (auto simp: choice_iff)
  show thesis
  proof (cases "po_start s")
    case True
    with v assms show thesis
      by (intro that) (auto simp: discovery_poll_def discovery_handle_start_def
          discovery_polling_success_def poller_live_def)
  next
    case False
    with assms(5) obtain y where "po_operation s = Some y" by (auto simp: poller_live_def)
    with False q [of y] assms(3,4) show thesis
      by (intro that [of "s\<lparr>po_operation := Some name, po_state := next_poll_state (po_state s)\<rparr>" "q y"])
        (simp_all add: discovery_poll_def discovery_handle_poll_def Let_def
          discovery_polling_success_def poller_live_def)
  qed
qed

lemma discovery_in_progress_until_done:
  assumes "\<And>v. \<exists>v'. lro_start env v = (Ok x, v')" "\<And>m v. \<exists>v'. lro_query env m v = (Ok x, v')"
    and "\<not> do_done d x" "do_name d x = Some name"
  shows "poller_live s \<Longrightarrow> until_done_from fuel (discovery_poll d policy env) b st s w = None"
proof (induction fuel arbitrary: st s w)
  case (Suc fuel)
  obtain s' w' where "discovery_poll d policy env s w = Ret (Some (InProgress (Some x)), s', w')"
    "poller_live s'"
    by (rule discovery_in_progress_step [OF assms Suc.prems])
  with Suc.IH show ?case by (simp add: Let_def)
qed simp

section \<open>Where a successful result comes from\<close>

text \<open>A finished operation whose response decodes to \<open>r\<close>.\<close>

definition delivers :: "('r, 'm) codec \<Rightarrow> operation \<Rightarrow> 'r \<Rightarrow> bool" where
  "delivers c op r \<longleftrightarrow>
     op_done op \<and> (\<exists>any. op_result op = Some (ResultResponse any) \<and> to_response c any = Ok r)"

lemma as_result_Ok: "as_result c op = Ret (Ok r) \<longleftrightarrow>
    (\<exists>any. op_result op = Some (ResultResponse any) \<and> to_response c any = Ok r)"
  by (auto simp: as_result_def op_response_def op_error_def case_result_eq
      split: option.splits operation_result.splits)

lemma handle_common_Ok:
  "handle_common c op = Ret (name, Completed (Ok r)) \<longleftrightarrow> name = None \<and> delivers c op r"
  by (auto simp: handle_common_def delivers_def map_run_Ret_iff as_result_Ok [symmetric])

lemma handle_start_Ok:
  "handle_start c res = Ret (name, Completed (Ok r)) \<Longrightarrow> \<exists>op. res = Ok op \<and> delivers c op r"
  by (auto simp: handle_start_def handle_common_Ok split: result.splits)

lemma handle_poll_Ok:
  assumes "handle_poll c policy now st n res = Ret (name, Completed (Ok r))"
  shows "\<exists>op. res = Ok op \<and> delivers c op r"
proof (cases res)
  case (Err e)
  with assms show ?thesis
    by (cases "poll_on_error policy now st e")
      (auto simp: handle_poll_def handle_polling_error_def split: retry_result.split_asm)
next
  case (Ok op)
  with assms show ?thesis
    by (cases rule: handle_common_cases [of c op]; cases "poll_on_in_progress policy now st n")
      (auto simp: handle_poll_def split: result.split_asm dest: handle_common_Ok [THEN iffD1])
qed

definition answered :: "('w, 'o) lro_env \<Rightarrow> (error, 'o) result \<Rightarrow> 'w \<Rightarrow> bool" where
  "answered env res w' \<longleftrightarrow> (\<exists>v. lro_start env v = (res, w')) \<or> (\<exists>name v. lro_query env name v = (res, w'))"

lemma poll_Ok:
  "poll c policy env s w = Ret (Some (Completed (Ok r)), s', w') \<Longrightarrow>
     \<exists>op. answered env (Ok op) w' \<and> delivers c op r"
  by (auto simp: poll_def answered_def Let_def case_prod_eq map_run_Ret_iff
      split: if_splits option.splits dest!: handle_start_Ok handle_poll_Ok)

lemma until_done_Ok:
  "until_done_from fuel (poll c policy env) b st s w = Some (Ret (Ok r, w')) \<Longrightarrow>
     \<exists>op. answered env (Ok op) w' \<and> delivers c op r"
proof (induction fuel arbitrary: st s w)
  case (Suc fuel)
  then show ?case
    by (auto simp: Let_def dest: poll_Ok
        split: run.split_asm option.split_asm polling_result.split_asm)
qed simp

section \<open>A simulated service\<close>

text \<open>
  A clock in nanoseconds and the answers the service gives to the start call and to the queries;
  when they run out it repeats the last one.
\<close>

type_synonym 'o lro_sim = "instant \<times> (error, 'o) result list"

fun sim_answer :: "'o lro_sim \<Rightarrow> (error, 'o) result \<times> 'o lro_sim" where
  "sim_answer (t, []) = (Err (deser (MsgError ''no answer'')), (t, []))"
| "sim_answer (t, [a]) = (a, (t, [a]))"
| "sim_answer (t, a # as) = (a, (t, as))"

definition sim_lro :: "('o lro_sim, 'o) lro_env" where
  "sim_lro = \<lparr>lro_now = fst, lro_start = sim_answer, lro_query = (\<lambda>name. sim_answer),
     lro_sleep = (\<lambda>d (t, as). (t + d, as))\<rparr>"

definition text_codec :: "(json, json) codec" where
  "text_codec = \<lparr>to_response = Ok, to_metadata = Ok, detail_from_any = OtherDetails\<rparr>"

definition running_op :: operation where
  "running_op = \<lparr>op_name = ''op'', op_done = False, op_metadata = None, op_result = None\<rparr>"

lemmas lro_eval = until_done_def poll_def poller_new_def poller_backoff_def sim_lro_def text_codec_def
  running_op_def handle_start_def handle_poll_def handle_common_def as_result_def as_metadata_def
  op_response_def op_error_def next_poll_state_def polling_state_default_def
  polling_set_attempt_count_def Let_def

section \<open>Properties\<close>

text \<open>
  Waiting for an AIP-151 operation never panics: under a policy whose methods do not panic,
  \<open>until_done\<close> on a new poller never reaches its \<open>unreachable!\<close> and never ends in
  a panic, whatever the service answers and for however long it is run.
\<close>

theorem until_done_never_panics:
  assumes "polling_total policy"
  shows "until_done fuel (poll c policy env) (poller_backoff env wait) (lro_now env)
    (poller_new now) w \<noteq> Some Panic"
  unfolding until_done_def
  by (rule aip151.until_done_not_stuck)
    (simp_all add: poll_not_Panic assms poller_new_def poller_live_def)

lemma until_done_never_panics_witness:
  "polling_total polling_aip194_strict \<and>
   until_done 3 (poll text_codec polling_aip194_strict sim_lro) (poller_backoff sim_lro (\<lambda>_. 1))
     (lro_now sim_lro) (poller_new 0) (0, [Ok running_op]) \<noteq> Some Panic"
  by (rule conjI [OF polling_total_simple(1) until_done_never_panics [OF polling_total_simple(1)]])

text \<open>
  C38. With an attempt limit waiting for an AIP-151 operation ends: \<open>until_done\<close> returns after
  the start call and at most \<open>max 1 n\<close> queries, one per turn of its loop, for any inner policy,
  service and clock.
\<close>

theorem until_done_terminates:
  "\<exists>out. until_done (Suc (max 1 (unat n))) (poll c (polling_with_attempt_limit p n) env)
     (poller_backoff env wait) (lro_now env) (poller_new now) w = Some out"
proof -
  let ?P = "poll c (polling_limited_attempt_count p n) env"
  have live: "poller_live (poller_new now)" by (simp add: poller_new_def poller_live_def)
  obtain k where k: "max 1 (unat n) = Suc k" by (cases "max 1 (unat n)") auto
  have rest: "\<exists>out. until_done_from (Suc k) ?P (poller_backoff env wait) st s' w'' = Some out"
    if "?P (poller_new now) w = Ret (Some q, s', w')" "poller_live s'" for q s' w' st w''
    using poll_start_step [OF that(1)] that(2) k
    by (intro attempt_limit_until_done) (auto simp: poller_new_def polling_state_default_def)
  show ?thesis
    unfolding until_done_def polling_with_attempt_limit_def k
    by (cases rule: aip151.live_poll_cases [OF live, of c "polling_limited_attempt_count p n" env w])
      (use rest in \<open>simp_all add: Let_def del: until_done_from.simps(2)
        add: until_done_from.simps(2) [of "Suc k"]\<close>)
qed

text \<open>
  The stream of polling results ends with the result: every item before the last one is a
  progress report or a polling error, and a stream that ended holds the completed operation (or
  the final error) as its last item.
\<close>

theorem poller_stream_shape:
  assumes "into_stream n (poll c policy env) (poller_new now) w = Ret items"
  shows "(\<forall>i \<in> set (butlast items). \<not> is_completed i) \<and>
    (length items < n \<longrightarrow> items \<noteq> [] \<and> is_completed (last items))"
  using assms by (intro aip151.stream_shape) (simp_all add: poller_new_def poller_live_def)

lemma poller_stream_shape_witness:
  "into_stream 3 (poll text_codec polling_aip194_strict sim_lro) (poller_new 0)
     (0, [Ok running_op, Ok (running_op\<lparr>op_done := True, op_result := Some (ResultResponse ''r'')\<rparr>)]) =
     Ret [InProgress None, Completed (Ok ''r'')] \<and>
   \<not> is_completed (InProgress None :: (json, json) polling_result)"
proof -
  have "into_stream 3 (poll text_codec polling_aip194_strict sim_lro) (poller_new 0)
     (0, [Ok running_op, Ok (running_op\<lparr>op_done := True, op_result := Some (ResultResponse ''r'')\<rparr>)]) =
     Ret [InProgress None, Completed (Ok ''r'')]"
    by (simp add: numeral_3_eq_3 lro_eval)
  with poller_stream_shape [OF this] show ?thesis by simp
qed

text \<open>
  A successful result of \<open>until_done\<close> is the service's answer: the last call (the start
  call or a query) returned a finished operation holding a response, and the result is that
  response decoded.
\<close>

theorem until_done_result_origin:
  assumes "until_done fuel (poll c policy env) (poller_backoff env wait) (lro_now env)
      (poller_new now) w = Some (Ret (Ok r, w'))"
  shows "\<exists>op any. (\<exists>v. lro_start env v = (Ok op, w') \<or> (\<exists>name. lro_query env name v = (Ok op, w')))
    \<and> op_done op \<and> op_result op = Some (ResultResponse any) \<and> to_response c any = Ok r"
  using until_done_Ok [OF assms [unfolded until_done_def]]
  by (auto simp: answered_def delivers_def)

lemma until_done_result_origin_witness:
  "until_done 3 (poll text_codec polling_aip194_strict sim_lro) (poller_backoff sim_lro (\<lambda>_. 5))
     (lro_now sim_lro) (poller_new 0)
     (0, [Ok running_op, Ok (running_op\<lparr>op_done := True, op_result := Some (ResultResponse ''r'')\<rparr>)]) =
     Some (Ret (Ok ''r'', (5, [Ok (running_op\<lparr>op_done := True, op_result := Some (ResultResponse ''r'')\<rparr>)])))
   \<and> (\<exists>op :: operation. \<exists>any. op_done op \<and> op_result op = Some (ResultResponse any) \<and>
        to_response text_codec any = Ok ''r'')"
proof -
  have "until_done 3 (poll text_codec polling_aip194_strict sim_lro) (poller_backoff sim_lro (\<lambda>_. 5))
     (lro_now sim_lro) (poller_new 0)
     (0, [Ok running_op, Ok (running_op\<lparr>op_done := True, op_result := Some (ResultResponse ''r'')\<rparr>)]) =
     Some (Ret (Ok ''r'', (5, [Ok (running_op\<lparr>op_done := True, op_result := Some (ResultResponse ''r'')\<rparr>)])))"
    by (simp add: numeral_3_eq_3 lro_eval)
  from this until_done_result_origin [OF this] show ?thesis by blast
qed

text \<open>
  The poller of discovery-based services does not ask its policy about operations that are in
  progress: while the service keeps reporting an unfinished operation with a name,
  \<open>until_done\<close> never returns, also under an attempt limit and a time limit.
\<close>

theorem discovery_until_done_ignores_limits:
  assumes "\<And>v. \<exists>v'. lro_start env v = (Ok x, v')" "\<And>m v. \<exists>v'. lro_query env m v = (Ok x, v')"
    and "\<not> do_done d x" "do_name d x = Some name"
  shows "until_done fuel
     (discovery_poll d (polling_with_time_limit (polling_with_attempt_limit p n) limit) env)
     (poller_backoff env wait) (lro_now env) (poller_new now) w = None"
  unfolding until_done_def
  by (rule discovery_in_progress_until_done [OF assms]) (simp_all add: poller_new_def poller_live_def)

lemma discovery_until_done_ignores_limits_witness:
  "until_done 1000
     (discovery_poll \<lparr>do_done = (\<lambda>_. False), do_name = (\<lambda>_. Some ''op'')\<rparr>
        (polling_with_time_limit (polling_with_attempt_limit always_continue 3) (from_secs 1))
        \<lparr>lro_now = id, lro_start = Pair (Ok ()), lro_query = (\<lambda>_. Pair (Ok ())), lro_sleep = (+)\<rparr>)
     (poller_backoff \<lparr>lro_now = id, lro_start = Pair (Ok ()), lro_query = (\<lambda>_. Pair (Ok ())), lro_sleep = (+)\<rparr>
        (\<lambda>_. from_secs 1)) id (poller_new 0) 0 = None"
  using discovery_until_done_ignores_limits [of
      "\<lparr>lro_now = id, lro_start = Pair (Ok ()), lro_query = (\<lambda>_. Pair (Ok ())), lro_sleep = (+)\<rparr>" "()"
      "\<lparr>do_done = (\<lambda>_. False), do_name = (\<lambda>_. Some ''op'')\<rparr>" "''op''" 1000
      always_continue 3 "from_secs 1" "\<lambda>_. from_secs 1" 0 0]
  by simp

text \<open>
  If a discovery-based service reports an unfinished operation without a name the poller
  ends its stream, and \<open>until_done\<close> runs into its \<open>unreachable!\<close>.
\<close>

theorem discovery_until_done_without_name:
  assumes "lro_start env w = (Ok x, w')" "\<not> do_done d x" "do_name d x = None"
  shows "until_done (Suc (Suc fuel)) (discovery_poll d policy env) (poller_backoff env wait)
     (lro_now env) (poller_new now) w = Some Panic"
  using assms
  by (simp add: until_done_def Let_def discovery_poll_def discovery_handle_start_def
      discovery_polling_success_def poller_new_def)

lemma discovery_until_done_without_name_witness:
  "until_done 2 (discovery_poll \<lparr>do_done = (\<lambda>_. False), do_name = (\<lambda>_. None)\<rparr> always_continue sim_lro)
     (poller_backoff sim_lro (\<lambda>_. 1)) (lro_now sim_lro) (poller_new 0) (0, [Ok ()]) = Some Panic"
  using discovery_until_done_without_name [of sim_lro "(0, [Ok ()])" "()" "(0, [Ok ()])"
      "\<lparr>do_done = (\<lambda>_. False), do_name = (\<lambda>_. None)\<rparr>" 0 always_continue "\<lambda>_. 1" 0]
  by (simp add: sim_lro_def numeral_2_eq_2)

end
