(* ===== verification/Paginator.thy ===== *)
theory Paginator
  imports Prelude "HOL-Library.Monad_Syntax"
begin

text \<open>
  Paginated list calls (\<open>gax/src/paginator.rs\<close>): the stream of pages, which passes the token
  of each page to the next call, and the stream of items on top of it.

  The list call \<open>execute\<close> is a function of the page token and the world; a page is any type
  with its items and its next token. \<open>PaginatorImpl\<close> wraps the state that its
  \<open>unfold\<close> closure passes on; asking the closure in state \<open>Break\<close> ends the stream, and
  a stream is not asked again after it ended. The loop of \<open>ItemPaginatorImpl::next\<close> goes on
  while the service sends empty pages with a token, so it is a partial function: \<open>None\<close> is
  "does not return".
\<close>

section \<open>Model\<close>

datatype control_flow = FlowContinue string | FlowBreak

record ('p, 'i) pageable =
  page_items :: "'p \<Rightarrow> 'i list"
  next_page_token :: "'p \<Rightarrow> string"

type_synonym ('w, 'e, 'p) execute = "string \<Rightarrow> 'w \<Rightarrow> ('e, 'p) result \<times> 'w"

definition new_paginator :: "string \<Rightarrow> control_flow" where
  "new_paginator seed_token = FlowContinue seed_token"

definition page_next ::
  "('p, 'i) pageable \<Rightarrow> ('w, 'e, 'p) execute \<Rightarrow> control_flow \<Rightarrow> 'w \<Rightarrow>
   ('e, 'p) result option \<times> control_flow \<times> 'w" where
  "page_next pg execute state w =
     (case state of
        FlowBreak \<Rightarrow> (None, FlowBreak, w)
      | FlowContinue token \<Rightarrow>
          (case execute token w of
             (Ok page_resp, w') \<Rightarrow>
               (let tok = next_page_token pg page_resp;
                    next_state = (if tok = [] then FlowBreak else FlowContinue tok)
                in (Some (Ok page_resp), next_state, w'))
           | (Err e, w') \<Rightarrow> (Some (Err e), FlowBreak, w')))"

record 'i item_paginator =
  ip_stream :: control_flow
  ip_current_items :: "'i list option"

definition item_paginator_new :: "control_flow \<Rightarrow> 'i item_paginator" where
  "item_paginator_new paginator = \<lparr>ip_stream = paginator, ip_current_items = None\<rparr>"

partial_function (option) item_next ::
  "('p, 'i) pageable \<Rightarrow> ('w, 'e, 'p) execute \<Rightarrow> 'i item_paginator \<Rightarrow> 'w \<Rightarrow>
   (('e, 'i) result option \<times> 'i item_paginator \<times> 'w) option" where
  "item_next pg execute self w =
     (case ip_current_items self of
        Some (item # rest) \<Rightarrow> Some (Some (Ok item), self\<lparr>ip_current_items := Some rest\<rparr>, w)
      | _ \<Rightarrow>
          (case page_next pg execute (ip_stream self) w of
             (Some (Ok page), st, w') \<Rightarrow>
               item_next pg execute
                 (self\<lparr>ip_stream := st, ip_current_items := Some (page_items pg page)\<rparr>) w'
           | (Some (Err e), st, w') \<Rightarrow>
               Some (Some (Err e),
                 self\<lparr>ip_stream := st, ip_current_items := map_option (\<lambda>_. []) (ip_current_items self)\<rparr>, w')
           | (None, st, w') \<Rightarrow>
               Some (None,
                 self\<lparr>ip_stream := st, ip_current_items := map_option (\<lambda>_. []) (ip_current_items self)\<rparr>, w')))"

text \<open>\<open>into_stream\<close> of the two paginators, collected until the end of the stream.\<close>

partial_function (option) collect_pages ::
  "('p, 'i) pageable \<Rightarrow> ('w, 'e, 'p) execute \<Rightarrow> control_flow \<Rightarrow> 'w \<Rightarrow> (('e, 'p) result list \<times> 'w) option" where
  "collect_pages pg execute st w =
     (case page_next pg execute st w of
        (None, st', w') \<Rightarrow> Some ([], w')
      | (Some page, st', w') \<Rightarrow>
          do { (pages, w'') \<leftarrow> collect_pages pg execute st' w'; Some (page # pages, w'') })"

partial_function (option) collect_items ::
  "('p, 'i) pageable \<Rightarrow> ('w, 'e, 'p) execute \<Rightarrow> 'i item_paginator \<Rightarrow> 'w \<Rightarrow> (('e, 'i) result list \<times> 'w) option" where
  "collect_items pg execute self w =
     do {
       (item, self', w') \<leftarrow> item_next pg execute self w;
       (case item of
          None \<Rightarrow> Some ([], w')
        | Some i \<Rightarrow> do { (items, w'') \<leftarrow> collect_items pg execute self' w'; Some (i # items, w'') })
     }"

declare item_next.simps [code] collect_pages.simps [code] collect_items.simps [code]

section \<open>Pages\<close>

lemma page_next_FlowBreak [simp]: "page_next pg ex FlowBreak w = (None, FlowBreak, w)"
  by (simp add: page_next_def)

lemma page_next_cases:
  obtains (ended) "st = FlowBreak" "page_next pg ex st w = (None, FlowBreak, w)"
  | (failed) t e w' where "st = FlowContinue t" "ex t w = (Err e, w')"
      "page_next pg ex st w = (Some (Err e), FlowBreak, w')"
  | (final_page) t p w' where "st = FlowContinue t" "ex t w = (Ok p, w')" "next_page_token pg p = []"
      "page_next pg ex st w = (Some (Ok p), FlowBreak, w')"
  | (more) t p w' where "st = FlowContinue t" "ex t w = (Ok p, w')" "next_page_token pg p \<noteq> []"
      "page_next pg ex st w = (Some (Ok p), FlowContinue (next_page_token pg p), w')"
proof (cases st)
  case (FlowContinue t)
  obtain r w' where "ex t w = (r, w')" by fastforce
  with FlowContinue show thesis
    by (cases r; cases "next_page_token pg (case r of Ok p \<Rightarrow> p) = []")
      (auto simp: page_next_def Let_def intro: failed final_page more)
qed (simp add: ended)

lemma collect_pages_FlowBreak [simp]: "collect_pages pg ex FlowBreak w = Some ([], w)"
  by (simp add: collect_pages.simps)

lemma collect_pages_FlowContinue:
  "collect_pages pg ex (FlowContinue t) w =
     (case ex t w of (r, w') \<Rightarrow>
        (case r of
           Err e \<Rightarrow> Some ([Err e], w')
         | Ok p \<Rightarrow>
             if next_page_token pg p = [] then Some ([Ok p], w')
             else map_option (\<lambda>(rs, v). (Ok p # rs, v))
               (collect_pages pg ex (FlowContinue (next_page_token pg p)) w')))"
  by (subst collect_pages.simps)
    (auto simp: page_next_def Let_def Option.bind_def map_option_case split: result.splits prod.splits option.splits)

text \<open>The successful run of the page stream, as a relation that proofs induct on.\<close>

inductive page_run ::
  "('p, 'i) pageable \<Rightarrow> ('w, 'e, 'p) execute \<Rightarrow> control_flow \<Rightarrow> 'w \<Rightarrow> ('e, 'p) result list \<Rightarrow> 'w \<Rightarrow> bool"
  for pg ex where
  finished: "page_run pg ex FlowBreak w [] w"
| step: "page_next pg ex st w = (Some r, st', w') \<Longrightarrow> page_run pg ex st' w' rs w'' \<Longrightarrow>
    page_run pg ex st w (r # rs) w''"

lemma collect_pages_page_run:
  fixes pg :: "('p, 'i) pageable" and ex :: "('w, 'e, 'p) execute"
  assumes "collect_pages pg ex st w = Some (rs, w')"
  shows "page_run pg ex st w rs w'"
proof -
  have "page_run pg ex st w (fst (rs, w')) (snd (rs, w'))"
  proof (rule collect_pages.raw_induct
      [where P = "\<lambda>pg ex st w y. page_run pg ex st w (fst y) (snd y)", OF _ assms])
    fix collect :: "('p, 'i) pageable \<Rightarrow> ('w, 'e, 'p) execute \<Rightarrow> control_flow \<Rightarrow> 'w \<Rightarrow>
        (('e, 'p) result list \<times> 'w) option"
      and pg :: "('p, 'i) pageable" and ex :: "('w, 'e, 'p) execute" and st w y
    assume IH: "\<And>pg ex st w y. collect pg ex st w = Some y \<Longrightarrow> page_run pg ex st w (fst y) (snd y)"
      and "(case page_next pg ex st w of
          (None, st', w') \<Rightarrow> Some ([], w')
        | (Some page, st', w') \<Rightarrow>
            collect pg ex st' w' \<bind> (\<lambda>(pages, w''). Some (page # pages, w''))) = Some y"
    then show "page_run pg ex st w (fst y) (snd y)"
      by (cases rule: page_next_cases [of st pg ex w])
        (auto simp: bind_eq_Some_conv intro!: page_run.intros dest!: IH)
  qed
  then show ?thesis by simp
qed

lemma page_run_collect_pages: "page_run pg ex st w rs w' \<Longrightarrow> collect_pages pg ex st w = Some (rs, w')"
proof (induction rule: page_run.induct)
  case (step st w r st' w' rs w'')
  then show ?case by (subst collect_pages.simps) simp
qed simp

text \<open>The shape of a run: every page but the last has a token, the last one ends the stream.\<close>

definition ends_stream :: "('p, 'i) pageable \<Rightarrow> ('e, 'p) result \<Rightarrow> bool" where
  "ends_stream pg r = (case r of Err _ \<Rightarrow> True | Ok p \<Rightarrow> next_page_token pg p = [])"

lemma page_run_FlowBreak [simp]: "page_run pg ex FlowBreak w rs w' \<longleftrightarrow> rs = [] \<and> w' = w"
  by (auto elim: page_run.cases intro: page_run.intros)

lemma page_run_shape:
  "page_run pg ex st w rs w' \<Longrightarrow> st = FlowContinue t \<Longrightarrow>
     rs \<noteq> [] \<and> ends_stream pg (last rs) \<and> (\<forall>r \<in> set (butlast rs). \<not> ends_stream pg r)"
proof (induction arbitrary: t rule: page_run.induct)
  case (step st w r st' w' rs w'')
  then show ?case
    by (cases rule: page_next_cases [of st pg ex w]) (auto simp: ends_stream_def)
qed simp

section \<open>Requests\<close>

text \<open>A service that records the tokens of its calls.\<close>

definition recorded :: "('w, 'e, 'p) execute \<Rightarrow> ('w \<times> string list, 'e, 'p) execute" where
  "recorded ex t wl = (case ex t (fst wl) of (r, w') \<Rightarrow> (r, (w', snd wl @ [t])))"

definition token_of :: "('p, 'i) pageable \<Rightarrow> ('e, 'p) result \<Rightarrow> string" where
  "token_of pg r = (case r of Ok p \<Rightarrow> next_page_token pg p | Err _ \<Rightarrow> [])"

lemma recorded_snd: "recorded ex t wl = (r, v) \<Longrightarrow> snd v = snd wl @ [t]"
  by (auto simp: recorded_def case_prod_eq)

lemma page_run_tokens:
  "page_run pg (recorded ex) st wl rs wl' \<Longrightarrow> st = FlowContinue t \<Longrightarrow>
     snd wl' = snd wl @ t # map (token_of pg) (butlast rs)"
proof (induction arbitrary: t rule: page_run.induct)
  case (step st wl r st' wl' rs wl'')
  from step.hyps(1) show ?case
  proof (cases rule: page_next_cases [of st pg "recorded ex" wl])
    case (more t' p v)
    with step have "snd wl'' = snd wl' @ next_page_token pg p # map (token_of pg) (butlast rs)"
      and "rs \<noteq> []" and "snd wl' = snd wl @ [t]" and "r = Ok p"
      by (auto dest: page_run_shape recorded_snd)
    then show ?thesis by (simp add: token_of_def)
  qed (use step in \<open>auto dest: recorded_snd\<close>)
qed simp

section \<open>Items\<close>

text \<open>The items of a sequence of pages.\<close>

definition items_of :: "('p, 'i) pageable \<Rightarrow> ('e, 'p) result \<Rightarrow> ('e, 'i) result list" where
  "items_of pg r = (case r of Ok p \<Rightarrow> map Ok (page_items pg p) | Err e \<Rightarrow> [Err e])"

lemma item_next_Cons:
  "item_next pg ex \<lparr>ip_stream = st, ip_current_items = Some (x # xs)\<rparr> w =
     Some (Some (Ok x), \<lparr>ip_stream = st, ip_current_items = Some xs\<rparr>, w)"
  by (simp add: item_next.simps)

lemma collect_items_current:
  "collect_items pg ex \<lparr>ip_stream = st, ip_current_items = Some xs\<rparr> w =
     map_option (\<lambda>(is, w'). (map Ok xs @ is, w'))
       (collect_items pg ex \<lparr>ip_stream = st, ip_current_items = Some []\<rparr> w)"
proof (induction xs)
  case (Cons x xs)
  have "collect_items pg ex \<lparr>ip_stream = st, ip_current_items = Some (x # xs)\<rparr> w =
     map_option (\<lambda>(is, w'). (Ok x # is, w'))
       (collect_items pg ex \<lparr>ip_stream = st, ip_current_items = Some xs\<rparr> w)"
    by (subst collect_items.simps) (simp add: item_next_Cons map_option_case Option.bind_def split: option.splits)
  then show ?case by (simp add: Cons.IH option.map_comp comp_def split_def)
qed (simp add: option.map_ident_strong split_def)

lemma collect_items_page:
  assumes "page_next pg ex st w = (Some (Ok p), st', w')" "c = None \<or> c = Some []"
  shows "collect_items pg ex \<lparr>ip_stream = st, ip_current_items = c\<rparr> w =
    collect_items pg ex \<lparr>ip_stream = st', ip_current_items = Some (page_items pg p)\<rparr> w'"
proof -
  have "item_next pg ex \<lparr>ip_stream = st, ip_current_items = c\<rparr> w =
      item_next pg ex \<lparr>ip_stream = st', ip_current_items = Some (page_items pg p)\<rparr> w'"
    using assms by (subst item_next.simps) auto
  then show ?thesis
    by (subst (1 2) collect_items.simps) simp
qed

lemma collect_items_run:
  "page_run pg ex st w rs w' \<Longrightarrow> c = None \<or> c = Some [] \<Longrightarrow>
     collect_items pg ex \<lparr>ip_stream = st, ip_current_items = c\<rparr> w = Some (concat (map (items_of pg) rs), w')"
proof (induction arbitrary: c rule: page_run.induct)
  case (finished w)
  then have "item_next pg ex \<lparr>ip_stream = FlowBreak, ip_current_items = c\<rparr> w =
      Some (None, \<lparr>ip_stream = FlowBreak, ip_current_items = c\<rparr>, w)"
    by (subst item_next.simps) auto
  then show ?case by (subst collect_items.simps) simp
next
  case (step st w r st' w' rs w'')
  show ?case
  proof (cases r)
    case (Ok p)
    with step show ?thesis
      by (simp add: collect_items_page [of pg ex st w p st' w'] collect_items_current [of pg ex st' "page_items pg p"]
          items_of_def)
  next
    case (Err e)
    have "st' = FlowBreak"
      using step.hyps(1) Err by (cases rule: page_next_cases [of st pg ex w]) auto
    moreover have "item_next pg ex \<lparr>ip_stream = st, ip_current_items = c\<rparr> w =
        Some (Some (Err e), \<lparr>ip_stream = st', ip_current_items = c\<rparr>, w')"
      using step.hyps(1) step.prems Err by (subst item_next.simps) auto
    ultimately show ?thesis
      using step Err by (subst collect_items.simps) (simp add: items_of_def)
  qed
qed

section \<open>Properties\<close>

text \<open>
  The item stream is the page stream flattened: whenever the pages can be collected, collecting
  the items ends too, in the same world (the same calls were made), and gives the items of all pages
  in order, skipping empty pages, followed by the error if the last call failed.
\<close>

theorem paginator_items_flatten:
  assumes "collect_pages pg ex (new_paginator seed) w = Some (rs, w')"
  shows "collect_items pg ex (item_paginator_new (new_paginator seed)) w =
    Some (concat (map (\<lambda>r. case r of Ok p \<Rightarrow> map Ok (page_items pg p) | Err e \<Rightarrow> [Err e]) rs), w')"
  using collect_items_run [OF collect_pages_page_run [OF assms], of None]
  by (simp add: item_paginator_new_def items_of_def [abs_def])

text \<open>
  The pages follow the tokens: the first call has the seed token and every later call the token
  of the page before it; the stream ends exactly at the first failed call or the first page without
  a token.
\<close>

theorem paginator_follows_tokens:
  fixes pg :: "('p, 'i) pageable" and ex :: "('w, 'e, 'p) execute"
  assumes "collect_pages pg (recorded ex) (new_paginator seed) (w, []) = Some (rs, (w', requests))"
  shows "rs \<noteq> [] \<and>
    (\<forall>r \<in> set (butlast rs). \<exists>p. r = Ok p \<and> next_page_token pg p \<noteq> []) \<and>
    ((\<exists>e. last rs = Err e) \<or> (\<exists>p. last rs = Ok p \<and> next_page_token pg p = [])) \<and>
    requests = seed # map (\<lambda>r. case r of Ok p \<Rightarrow> next_page_token pg p | Err _ \<Rightarrow> []) (butlast rs)"
proof -
  note run = collect_pages_page_run [OF assms, unfolded new_paginator_def]
  have "\<exists>p. r = Ok p \<and> next_page_token pg p \<noteq> []" if "\<not> ends_stream pg r" for r :: "('e, 'p) result"
    using that by (cases r) (auto simp: ends_stream_def)
  moreover have "(\<exists>e. r = Err e) \<or> (\<exists>p. r = Ok p \<and> next_page_token pg p = [])"
    if "ends_stream pg r" for r :: "('e, 'p) result"
    using that by (cases r) (auto simp: ends_stream_def)
  ultimately show ?thesis
    using page_run_shape [OF run refl] page_run_tokens [OF run refl]
    by (simp add: token_of_def [abs_def])
qed

text \<open>A service with three pages, the second of them empty.\<close>

definition sample_pages :: "(unit, string, string list \<times> string) execute" where
  "sample_pages t w =
     (if t = [] then (Ok ([''a'', ''b''], ''1''), w)
      else if t = ''1'' then (Ok ([], ''2''), w)
      else (Ok ([''c''], []), w))"

definition sample_pageable :: "(string list \<times> string, string) pageable" where
  "sample_pageable = \<lparr>page_items = fst, next_page_token = snd\<rparr>"

lemma paginator_items_flatten_witness:
  "collect_items sample_pageable sample_pages (item_paginator_new (new_paginator [])) () =
     Some ([Ok ''a'', Ok ''b'', Ok ''c''], ())"
proof -
  have "collect_pages sample_pageable sample_pages (new_paginator []) () =
      Some ([Ok ([''a'', ''b''], ''1''), Ok ([], ''2''), Ok ([''c''], [])], ())"
    by code_simp
  from paginator_items_flatten [OF this] show ?thesis by (simp add: sample_pageable_def)
qed

lemma paginator_follows_tokens_witness:
  "collect_pages sample_pageable (recorded sample_pages) (new_paginator []) ((), []) =
      Some ([Ok ([''a'', ''b''], ''1''), Ok ([], ''2''), Ok ([''c''], [])], ((), [[], ''1'', ''2''])) \<and>
   [[], ''1'', ''2''] = [] # map (\<lambda>r. case r of Ok p \<Rightarrow> next_page_token sample_pageable p | Err _ \<Rightarrow> [])
     (butlast [Ok ([''a'', ''b''], ''1'') :: (string, string list \<times> string) result, Ok ([], ''2''), Ok ([''c''], [])])"
proof -
  have h: "collect_pages sample_pageable (recorded sample_pages) (new_paginator []) ((), []) =
      Some ([Ok ([''a'', ''b''], ''1''), Ok ([], ''2''), Ok ([''c''], [])], ((), [[], ''1'', ''2'']))"
    by code_simp
  from h paginator_follows_tokens [OF h, THEN conjunct2, THEN conjunct2, THEN conjunct2] show ?thesis
    by (rule conjI)
qed

end
