(* ===== verification/Well_Known_Types.thy ===== *)
theory Well_Known_Types
  imports Prelude "HOL-Library.Signed_Division"
begin

text \<open>
  The well-known types of the \<open>wkt\<close> crate: \<open>Duration\<close> with its text format
  (\<open>wkt/src/duration.rs\<close>), \<open>Timestamp\<close> and its conversions
  (\<open>wkt/src/timestamp.rs\<close>) and \<open>FieldMask\<close> with its JSON form
  (\<open>wkt/src/field_mask.rs\<close>).

  The components of durations and timestamps are integers with their ranges written out; Rust's
  \<open>/\<close> and \<open>%\<close> truncate towards zero and are \<open>sdiv\<close> and \<open>smod\<close>. Strings are
  the bytes of their UTF-8 form. The RFC 3339 parser and printer of the \<open>time\<close> crate are
  parameters: they relate a text to the nanoseconds since the epoch.
\<close>

section \<open>Signed integers\<close>

abbreviation I64_MAX :: int where "I64_MAX \<equiv> 9223372036854775807"
abbreviation I64_MIN :: int where "I64_MIN \<equiv> - 9223372036854775808"

definition i64_saturating_add :: "int \<Rightarrow> int \<Rightarrow> int" where
  "i64_saturating_add a b = max I64_MIN (min I64_MAX (a + b))"

definition i64_saturating_sub :: "int \<Rightarrow> int \<Rightarrow> int" where
  "i64_saturating_sub a b = max I64_MIN (min I64_MAX (a - b))"

section \<open>Duration\<close>

record duration_wkt =
  du_seconds :: int
  du_nanos :: int

datatype duration_error = OutOfRange | MismatchedSigns | Deserialize string

abbreviation NS :: int where "NS \<equiv> 1000000000"

definition DURATION_MAX_SECONDS :: int where "DURATION_MAX_SECONDS = 315576000000"
definition DURATION_MIN_SECONDS :: int where "DURATION_MIN_SECONDS = - DURATION_MAX_SECONDS"
definition DURATION_MAX_NANOS :: int where "DURATION_MAX_NANOS = NS - 1"
definition DURATION_MIN_NANOS :: int where "DURATION_MIN_NANOS = - DURATION_MAX_NANOS"

definition duration_new :: "int \<Rightarrow> int \<Rightarrow> (duration_error, duration_wkt) result" where
  "duration_new seconds nanos =
     (if \<not> (DURATION_MIN_SECONDS \<le> seconds \<and> seconds \<le> DURATION_MAX_SECONDS) then Err OutOfRange
      else if \<not> (DURATION_MIN_NANOS \<le> nanos \<and> nanos \<le> DURATION_MAX_NANOS) then Err OutOfRange
      else if (seconds \<noteq> 0 \<and> nanos \<noteq> 0) \<and> ((seconds < 0) \<noteq> (nanos < 0)) then Err MismatchedSigns
      else Ok \<lparr>du_seconds = seconds, du_nanos = nanos\<rparr>)"

definition duration_clamp :: "int \<Rightarrow> int \<Rightarrow> duration_wkt" where
  "duration_clamp seconds0 nanos0 =
     (let seconds = i64_saturating_add seconds0 (nanos0 sdiv NS);
          nanos = nanos0 smod NS;
          (seconds, nanos) =
            (if seconds > 0 \<and> nanos < 0 then (i64_saturating_sub seconds 1, nanos + NS)
             else if seconds < 0 \<and> nanos > 0 then (i64_saturating_add seconds 1, - (NS - nanos))
             else (seconds, nanos))
      in if seconds > DURATION_MAX_SECONDS then \<lparr>du_seconds = DURATION_MAX_SECONDS, du_nanos = 0\<rparr>
         else if seconds < DURATION_MIN_SECONDS then \<lparr>du_seconds = DURATION_MIN_SECONDS, du_nanos = 0\<rparr>
         else \<lparr>du_seconds = seconds, du_nanos = nanos\<rparr>)"

subsection \<open>The text format\<close>

text \<open>\<open>format!("{:09}")\<close> and \<open>trim_end_matches('0')\<close>.\<close>

definition pad09 :: "nat \<Rightarrow> string" where
  "pad09 n = replicate (9 - length (dec n)) CHR ''0'' @ dec n"

definition trim_end_zeros :: "string \<Rightarrow> string" where
  "trim_end_zeros s = rev (dropWhile (\<lambda>c. c = CHR ''0'') (rev s))"

definition duration_to_string :: "duration_wkt \<Rightarrow> string" where
  "duration_to_string d =
     (let sign = (if du_seconds d < 0 \<or> du_nanos d < 0 then ''-'' else '''')
      in if du_nanos d = 0 then sign @ dec (nat \<bar>du_seconds d\<bar>) @ ''s''
         else (let ns = pad09 (nat \<bar>du_nanos d\<bar>)
               in sign @ dec (nat \<bar>du_seconds d\<bar>) @ ''.'' @ trim_end_zeros ns @ ''s''))"

definition is_ascii_digit :: "char \<Rightarrow> bool" where
  "is_ascii_digit c \<longleftrightarrow> 48 \<le> (of_char c :: nat) \<and> (of_char c :: nat) \<le> 57"

definition digits_value :: "string \<Rightarrow> nat" where
  "digits_value s = foldl (\<lambda>acc c. acc * 10 + (of_char c - 48)) 0 s"

text \<open>\<open>str::parse\<close> to a signed integer, for a non-empty string of digits.\<close>

definition parse_digits :: "int \<Rightarrow> string \<Rightarrow> (string, int) result" where
  "parse_digits bound s =
     (if int (digits_value s) \<le> bound then Ok (int (digits_value s))
      else Err ''number too large to fit in target type'')"

text \<open>\<open>splitn(2, c)\<close>.\<close>

definition splitn2 :: "char \<Rightarrow> string \<Rightarrow> string \<times> string option" where
  "splitn2 c s =
     (case dropWhile (\<lambda>x. x \<noteq> c) s of
        [] \<Rightarrow> (s, None)
      | _ # rest \<Rightarrow> (takeWhile (\<lambda>x. x \<noteq> c) s, Some rest))"

definition parse_seconds :: "string \<Rightarrow> (duration_error, int) result" where
  "parse_seconds s =
     (if s = [] \<or> \<not> list_all is_ascii_digit s
      then Err (Deserialize (''seconds are not a number ['' @ s @ '']''))
      else case parse_digits I64_MAX s of Ok v \<Rightarrow> Ok v | Err e \<Rightarrow> Err (Deserialize e))"

definition parse_nanos :: "string \<Rightarrow> (duration_error, int) result" where
  "parse_nanos s =
     (if s = [] \<or> \<not> list_all is_ascii_digit s
      then Err (Deserialize (''nanos are not a number ['' @ s @ '']''))
      else
        (let (digits, power) = (if length s > 9 then (take 9 s, 0) else (s, 9 - length s))
         in case parse_digits 2147483647 digits of
              Err e \<Rightarrow> Err (Deserialize e)
            | Ok v \<Rightarrow> Ok (if power > 0 then v * 10 ^ power else v)))"

definition strip_sign :: "string \<Rightarrow> int \<times> string" where
  "strip_sign digits =
     (case digits of
        c # stripped \<Rightarrow>
          (if c = CHR ''-'' then (- 1, stripped) else if c = CHR ''+'' then (1, stripped) else (1, digits))
      | [] \<Rightarrow> (1, digits))"

definition duration_try_from :: "string \<Rightarrow> (duration_error, duration_wkt) result" where
  "duration_try_from value =
     (if value = [] \<or> last value \<noteq> CHR ''s'' then Err (Deserialize (''missing trailing '' @ [CHR 0x27] @ ''s'' @ [CHR 0x27]))
      else
        (let (sign, digits) = strip_sign (butlast value);
             (seconds, nanos) = splitn2 CHR ''.'' digits
         in case parse_seconds seconds of
              Err e \<Rightarrow> Err e
            | Ok seconds \<Rightarrow>
                (case (case nanos of None \<Rightarrow> Ok 0 | Some n \<Rightarrow> parse_nanos n) of
                   Err e \<Rightarrow> Err e
                 | Ok nanos \<Rightarrow> duration_new (sign * seconds) (sign * nanos))))"

text \<open>The serde implementations: the JSON form is the text.\<close>

definition duration_serialize :: "duration_wkt \<Rightarrow> string" where
  "duration_serialize d = duration_to_string d"

definition duration_visit_str :: "string \<Rightarrow> (duration_error, duration_wkt) result" where
  "duration_visit_str value = duration_try_from value"

subsection \<open>Conversions with \<open>std::time::Duration\<close>\<close>

definition duration_from_std :: "duration \<Rightarrow> (duration_error, duration_wkt) result" where
  "duration_from_std value =
     (if int (value div NANOS) > I64_MAX then Err OutOfRange
      else duration_new (int (value div NANOS)) (int (value mod NANOS)))"

definition duration_into_std :: "duration_wkt \<Rightarrow> (duration_error, duration) result" where
  "duration_into_std value =
     (if du_seconds value < 0 then Err OutOfRange
      else if du_nanos value < 0 then Err OutOfRange
      else Ok (nat (du_seconds value) * NANOS + nat (du_nanos value)))"

section \<open>Timestamp\<close>

record timestamp_wkt =
  ts_seconds :: int
  ts_nanos :: int

datatype timestamp_error = TsOutOfRange | TsDeserialize string

definition TIMESTAMP_MIN_SECONDS :: int where "TIMESTAMP_MIN_SECONDS = - 62135596800"
definition TIMESTAMP_MAX_SECONDS :: int where "TIMESTAMP_MAX_SECONDS = 253402300799"
definition TIMESTAMP_MIN_NANOS :: int where "TIMESTAMP_MIN_NANOS = 0"
definition TIMESTAMP_MAX_NANOS :: int where "TIMESTAMP_MAX_NANOS = NS - 1"

definition timestamp_new :: "int \<Rightarrow> int \<Rightarrow> (timestamp_error, timestamp_wkt) result" where
  "timestamp_new seconds nanos =
     (if \<not> (TIMESTAMP_MIN_SECONDS \<le> seconds \<and> seconds \<le> TIMESTAMP_MAX_SECONDS) then Err TsOutOfRange
      else if \<not> (TIMESTAMP_MIN_NANOS \<le> nanos \<and> nanos \<le> TIMESTAMP_MAX_NANOS) then Err TsOutOfRange
      else Ok \<lparr>ts_seconds = seconds, ts_nanos = nanos\<rparr>)"

text \<open>\<open>div_euclid\<close> and \<open>rem_euclid\<close> by a positive number are \<open>div\<close> and \<open>mod\<close>.\<close>

definition timestamp_clamp :: "int \<Rightarrow> int \<Rightarrow> timestamp_wkt" where
  "timestamp_clamp seconds0 nanos0 =
     (let seconds = i64_saturating_add seconds0 (nanos0 div NS);
          nanos = nanos0 mod NS
      in if seconds < TIMESTAMP_MIN_SECONDS then \<lparr>ts_seconds = TIMESTAMP_MIN_SECONDS, ts_nanos = 0\<rparr>
         else if seconds > TIMESTAMP_MAX_SECONDS then \<lparr>ts_seconds = TIMESTAMP_MAX_SECONDS, ts_nanos = 0\<rparr>
         else \<lparr>ts_seconds = seconds, ts_nanos = nanos\<rparr>)"

text \<open>
  \<open>format_rfc3339\<close> is \<open>OffsetDateTime::from_unix_timestamp_nanos\<close> and
  \<open>format(&Rfc3339)\<close>, where \<open>None\<close> is one of their errors, on which the code panics;
  \<open>parse_rfc3339\<close> is \<open>OffsetDateTime::parse\<close> and \<open>unix_timestamp_nanos\<close>.
\<close>

definition timestamp_to_string :: "(int \<Rightarrow> string option) \<Rightarrow> timestamp_wkt \<Rightarrow> string run" where
  "timestamp_to_string format_rfc3339 timestamp =
     (case format_rfc3339 (ts_seconds timestamp * NS + ts_nanos timestamp) of
        Some s \<Rightarrow> Ret s
      | None \<Rightarrow> Panic)"

definition timestamp_try_from ::
  "(string \<Rightarrow> (string, int) result) \<Rightarrow> string \<Rightarrow> (timestamp_error, timestamp_wkt) result" where
  "timestamp_try_from parse_rfc3339 value =
     (case parse_rfc3339 value of
        Err e \<Rightarrow> Err (TsDeserialize e)
      | Ok nanos_since_epoch \<Rightarrow>
          (let seconds = nanos_since_epoch sdiv NS;
               nanos = nanos_since_epoch smod NS
           in if nanos < 0 then timestamp_new (seconds - 1) (NS + nanos)
              else timestamp_new seconds nanos))"

text \<open>
  A \<open>std::time::SystemTime\<close> is its distance to the epoch in nanoseconds; the standard library
  keeps the seconds in an \<open>i64\<close>, which bounds \<open>checked_add\<close> and \<open>checked_sub\<close>.
\<close>

definition system_time_ok :: "int \<Rightarrow> bool" where
  "system_time_ok t \<longleftrightarrow> I64_MIN \<le> t div NS \<and> t div NS \<le> I64_MAX"

definition system_checked_add :: "int \<Rightarrow> int \<Rightarrow> int option" where
  "system_checked_add t d = (if system_time_ok (t + d) then Some (t + d) else None)"

definition timestamp_from_system_time :: "int \<Rightarrow> (timestamp_error, timestamp_wkt) result" where
  "timestamp_from_system_time value =
     (if 0 \<le> value then
        (let s = value div NS
         in if s > I64_MAX then Err TsOutOfRange else timestamp_new s (value mod NS))
      else
        (let d = - value; s = d div NS
         in if s > I64_MAX then Err TsOutOfRange
            else
              (let seconds = - s; nanos = d mod NS
               in if nanos > 0 then timestamp_new (seconds - 1) (NS - nanos)
                  else timestamp_new seconds 0)))"

definition timestamp_into_system_time :: "timestamp_wkt \<Rightarrow> (timestamp_error, int) result" where
  "timestamp_into_system_time value =
     (let s = ts_seconds value
      in case (if s \<ge> 0 then system_checked_add 0 (s * NS) else system_checked_add 0 (- (- s * NS))) of
           None \<Rightarrow> Err TsOutOfRange
         | Some ts \<Rightarrow>
             (case system_checked_add ts (ts_nanos value) of
                None \<Rightarrow> Err TsOutOfRange
              | Some t \<Rightarrow> Ok t))"

section \<open>FieldMask\<close>

definition is_ascii_uppercase :: "char \<Rightarrow> bool" where
  "is_ascii_uppercase c \<longleftrightarrow> 65 \<le> (of_char c :: nat) \<and> (of_char c :: nat) \<le> 90"

definition is_ascii_lowercase :: "char \<Rightarrow> bool" where
  "is_ascii_lowercase c \<longleftrightarrow> 97 \<le> (of_char c :: nat) \<and> (of_char c :: nat) \<le> 122"

definition to_ascii_uppercase :: "char \<Rightarrow> char" where
  "to_ascii_uppercase c = (if is_ascii_lowercase c then char_of ((of_char c :: nat) - 32) else c)"

definition to_ascii_lowercase :: "char \<Rightarrow> char" where
  "to_ascii_lowercase c = (if is_ascii_uppercase c then char_of ((of_char c :: nat) + 32) else c)"

fun camel_loop :: "bool \<Rightarrow> string \<Rightarrow> string" where
  "camel_loop capitalize_next [] = []"
| "camel_loop capitalize_next (c # cs) =
     (if c = CHR ''_'' then camel_loop True cs
      else if capitalize_next then to_ascii_uppercase c # camel_loop False cs
      else c # camel_loop capitalize_next cs)"

definition to_camel_case :: "string \<Rightarrow> string" where
  "to_camel_case snake = camel_loop False snake"

fun to_snake_case :: "string \<Rightarrow> string" where
  "to_snake_case [] = []"
| "to_snake_case (c # cs) =
     (if is_ascii_uppercase c then CHR ''_'' # to_ascii_lowercase c # to_snake_case cs
      else c # to_snake_case cs)"

text \<open>\<open>join\<close> and \<open>split\<close> of the standard library.\<close>

fun join_with :: "char \<Rightarrow> string list \<Rightarrow> string" where
  "join_with c [] = []"
| "join_with c [x] = x"
| "join_with c (x # y # ys) = x @ c # join_with c (y # ys)"

fun split_on :: "char \<Rightarrow> string \<Rightarrow> string list" where
  "split_on c [] = [[]]"
| "split_on c (x # xs) =
     (if x = c then [] # split_on c xs
      else (case split_on c xs of [] \<Rightarrow> [[x]] | w # ws \<Rightarrow> (x # w) # ws))"

definition field_mask_serialize :: "string list \<Rightarrow> string" where
  "field_mask_serialize paths = join_with CHR '','' (map to_camel_case paths)"

definition field_mask_visit_str :: "string \<Rightarrow> string list" where
  "field_mask_visit_str value =
     (if value = [] then [] else map to_snake_case (split_on CHR '','' value))"

section \<open>Decimal numerals\<close>

lemma of_char_digit [simp]: "d < 10 \<Longrightarrow> of_char (char_of (48 + d) :: char) = (48 + d :: nat)"
  by simp

lemma is_ascii_digit_char_of: "d < 10 \<Longrightarrow> is_ascii_digit (char_of (48 + d :: nat))"
  by (simp add: is_ascii_digit_def)

lemma digits_value_foldl:
  "foldl (\<lambda>acc c. acc * 10 + (of_char c - 48)) a s = a * 10 ^ length s + digits_value s"
proof (induction s rule: rev_induct)
  case (snoc c s)
  then show ?case by (simp add: digits_value_def algebra_simps)
qed (simp add: digits_value_def)

lemma digits_value_append: "digits_value (s @ t) = digits_value s * 10 ^ length t + digits_value t"
  unfolding digits_value_def [of "s @ t"] foldl_append digits_value_foldl [of _ t]
  by (simp add: digits_value_def)

lemma digits_value_zeros: "digits_value (replicate n CHR ''0'') = 0"
  by (induction n) (simp_all add: digits_value_def)

lemma digits_value_Nil [simp]: "digits_value [] = 0"
  by (simp add: digits_value_def)

lemma digits_value_digit: "d < 10 \<Longrightarrow> digits_value [char_of (48 + d :: nat)] = d"
  by (simp add: digits_value_def)

lemma dec_digits: "list_all is_ascii_digit (dec n) \<and> dec n \<noteq> [] \<and> digits_value (dec n) = n"
proof (induction n rule: dec.induct)
  case (1 n)
  then show ?case
    by (subst (1 2 3) dec.simps)
      (auto simp: is_ascii_digit_char_of digits_value_append digits_value_digit)
qed

lemma length_dec: "n < 10 ^ Suc k \<Longrightarrow> length (dec n) \<le> Suc k"
proof (induction k arbitrary: n)
  case 0
  then show ?case by (simp add: dec.simps)
next
  case (Suc k)
  then have "n div 10 < 10 ^ Suc k" by (simp add: less_mult_imp_div_less mult.commute)
  with Suc.IH show ?case by (subst dec.simps) simp
qed

lemma pad09_facts:
  assumes "n < 1000000000"
  shows "length (pad09 n) = 9" "digits_value (pad09 n) = n" "list_all is_ascii_digit (pad09 n)"
proof -
  have "length (dec n) \<le> 9" using length_dec [of n 8] assms by simp
  then show "length (pad09 n) = 9" by (simp add: pad09_def)
  show "digits_value (pad09 n) = n"
    by (simp add: pad09_def digits_value_append digits_value_zeros dec_digits)
  show "list_all is_ascii_digit (pad09 n)"
    using dec_digits [of n] by (auto simp: pad09_def list_all_iff is_ascii_digit_def)
qed

lemma trim_end_zeros_split: "\<exists>k. s = trim_end_zeros s @ replicate k CHR ''0''"
proof -
  have "rev s = takeWhile (\<lambda>c. c = CHR ''0'') (rev s) @ dropWhile (\<lambda>c. c = CHR ''0'') (rev s)"
    by simp
  moreover have "takeWhile (\<lambda>c. c = CHR ''0'') (rev s) =
      replicate (length (takeWhile (\<lambda>c. c = CHR ''0'') (rev s))) CHR ''0''"
    by (rule replicate_eqI [OF refl]) (auto dest: set_takeWhileD)
  ultimately have "s = trim_end_zeros s @ rev (replicate (length (takeWhile (\<lambda>c. c = CHR ''0'') (rev s))) CHR ''0'')"
    unfolding trim_end_zeros_def by (metis rev_append rev_rev_ident)
  then show ?thesis by (auto simp: rev_replicate)
qed

lemma parse_nanos_trim:
  assumes "0 < n" "n < 1000000000"
  shows "parse_nanos (trim_end_zeros (pad09 n)) = Ok (int n)"
proof -
  let ?t = "trim_end_zeros (pad09 n)"
  obtain k where k: "pad09 n = ?t @ replicate k CHR ''0''" using trim_end_zeros_split by blast
  note pad = pad09_facts [OF assms(2)]
  from k have len: "length ?t + k = 9" using pad(1) by (metis length_append length_replicate)
  from k have val: "digits_value ?t * 10 ^ k = n"
    using pad(2) by (metis add_0_right digits_value_append digits_value_zeros length_replicate)
  then have "?t \<noteq> []" using assms(1) by auto
  moreover have "list_all is_ascii_digit ?t" using k pad(3) by (metis list_all_append)
  moreover have "digits_value ?t \<le> 2147483647"
  proof -
    have "digits_value ?t * 1 \<le> digits_value ?t * 10 ^ k" by (rule mult_le_mono2) simp
    with val assms(2) show ?thesis by linarith
  qed
  moreover have "9 - length ?t = k" "length ?t \<le> 9" using len by simp_all
  moreover have "int (digits_value ?t) * 10 ^ k = int n" using arg_cong [OF val, of int] by simp
  ultimately show ?thesis
    by (cases "k = 0") (simp_all add: parse_nanos_def parse_digits_def Let_def)
qed

subsection \<open>Splitting\<close>

lemma digit_not_special: "is_ascii_digit c \<Longrightarrow> c \<noteq> CHR ''.'' \<and> c \<noteq> CHR ''-'' \<and> c \<noteq> CHR ''+''"
  by (auto simp: is_ascii_digit_def)

lemma splitn2_digits:
  assumes "list_all is_ascii_digit s"
  shows "splitn2 CHR ''.'' s = (s, None)" "splitn2 CHR ''.'' (s @ CHR ''.'' # t) = (s, Some t)"
proof -
  have no: "\<And>c. c \<in> set s \<Longrightarrow> c \<noteq> CHR ''.''"
    using assms digit_not_special by (auto simp: list_all_iff)
  then have "dropWhile (\<lambda>x. x \<noteq> CHR ''.'') s = []" by (simp add: dropWhile_eq_Nil_conv)
  then show "splitn2 CHR ''.'' s = (s, None)" unfolding splitn2_def by (simp only: list.case)
  show "splitn2 CHR ''.'' (s @ CHR ''.'' # t) = (s, Some t)"
    using no by (simp add: splitn2_def dropWhile_append2 takeWhile_append2)
qed

lemma strip_sign_dec:
  "strip_sign (CHR ''-'' # s) = (- 1, s)" "strip_sign (dec n @ s) = (1, dec n @ s)"
proof -
  obtain c cs where c: "dec n = c # cs" "is_ascii_digit c"
    using dec_digits [of n] by (cases "dec n") auto
  then show "strip_sign (dec n @ s) = (1, dec n @ s)"
    using digit_not_special by (auto simp: strip_sign_def)
qed (simp add: strip_sign_def)

lemma parse_seconds_dec: "int n \<le> I64_MAX \<Longrightarrow> parse_seconds (dec n) = Ok (int n)"
  using dec_digits [of n] by (simp add: parse_seconds_def parse_digits_def)

section \<open>Validity\<close>

definition duration_valid :: "duration_wkt \<Rightarrow> bool" where
  "duration_valid d \<longleftrightarrow>
     \<bar>du_seconds d\<bar> \<le> 315576000000 \<and> \<bar>du_nanos d\<bar> < NS \<and>
     (0 \<le> du_seconds d \<and> 0 \<le> du_nanos d \<or> du_seconds d \<le> 0 \<and> du_nanos d \<le> 0)"

lemmas duration_consts = DURATION_MAX_SECONDS_def DURATION_MIN_SECONDS_def
  DURATION_MAX_NANOS_def DURATION_MIN_NANOS_def

lemmas timestamp_consts = TIMESTAMP_MAX_SECONDS_def TIMESTAMP_MIN_SECONDS_def
  TIMESTAMP_MAX_NANOS_def TIMESTAMP_MIN_NANOS_def

lemma duration_new_Ok:
  "duration_new s n = Ok d \<longleftrightarrow> d = \<lparr>du_seconds = s, du_nanos = n\<rparr> \<and> duration_valid d"
  by (auto simp: duration_new_def duration_valid_def duration_consts split: if_splits)

lemma timestamp_new_Ok:
  "timestamp_new s n = Ok t \<longleftrightarrow> t = \<lparr>ts_seconds = s, ts_nanos = n\<rparr> \<and>
     - 62135596800 \<le> s \<and> s \<le> 253402300799 \<and> 0 \<le> n \<and> n < NS"
  by (auto simp: timestamp_new_def timestamp_consts split: if_splits)

lemma duration_text:
  assumes "duration_valid d"
  shows "duration_try_from (duration_to_string d) = Ok d"
proof -
  define neg where "neg \<longleftrightarrow> du_seconds d < 0 \<or> du_nanos d < 0"
  define sg where "sg = (if neg then - 1 else 1 :: int)"
  let ?s = "nat \<bar>du_seconds d\<bar>" and ?n = "nat \<bar>du_nanos d\<bar>"
  define frac where "frac = (if du_nanos d = 0 then [] else CHR ''.'' # trim_end_zeros (pad09 ?n))"
  have shown: "duration_to_string d = (if neg then ''-'' else []) @ dec ?s @ frac @ ''s''"
    by (simp add: duration_to_string_def Let_def neg_def frac_def)
  have strip: "strip_sign (butlast (duration_to_string d)) = (sg, dec ?s @ frac)"
    unfolding shown by (simp add: butlast_append sg_def strip_sign_dec)
  have secs: "parse_seconds (dec ?s) = Ok \<bar>du_seconds d\<bar>"
    using assms by (subst parse_seconds_dec) (simp_all add: duration_valid_def)
  have frac: "splitn2 CHR ''.'' (dec ?s @ frac) =
      (dec ?s, if du_nanos d = 0 then None else Some (trim_end_zeros (pad09 ?n)))"
    using dec_digits [of ?s] splitn2_digits by (simp add: frac_def)
  have nanos: "parse_nanos (trim_end_zeros (pad09 ?n)) = Ok \<bar>du_nanos d\<bar>" if "du_nanos d \<noteq> 0"
    using assms that by (subst parse_nanos_trim) (auto simp: duration_valid_def)
  have "sg * \<bar>du_seconds d\<bar> = du_seconds d" "sg * \<bar>du_nanos d\<bar> = du_nanos d"
    using assms by (auto simp: sg_def neg_def duration_valid_def)
  then have new: "duration_new (sg * \<bar>du_seconds d\<bar>) (sg * \<bar>du_nanos d\<bar>) = Ok d"
    using assms by (simp add: duration_new_Ok)
  have "duration_to_string d \<noteq> []" "last (duration_to_string d) = CHR ''s''"
    by (simp_all add: shown)
  then show ?thesis
    using strip secs frac nanos new
    by (cases "du_nanos d = 0") (simp_all add: duration_try_from_def)
qed


section \<open>Truncating division\<close>

lemma trunc_nonneg: "0 \<le> a \<Longrightarrow> a sdiv NS = a div NS" "0 \<le> a \<Longrightarrow> a smod NS = a mod NS"
  by (cases "a = 0"; simp add: signed_divide_int_def smod_int_alt_def)+

lemma trunc_neg: "a < 0 \<Longrightarrow> a sdiv NS = - (- a div NS)" "a < 0 \<Longrightarrow> a smod NS = - (- a mod NS)"
  by (simp_all add: signed_divide_int_def smod_int_alt_def)

lemma trunc_cases:
  obtains (pos) "0 \<le> a" "0 \<le> a sdiv NS" "0 \<le> a smod NS" "a smod NS < NS"
      "a = (a sdiv NS) * NS + a smod NS"
  | (neg) "a < 0" "a sdiv NS \<le> 0" "a smod NS \<le> 0" "- NS < a smod NS"
      "a = (a sdiv NS) * NS + a smod NS"
proof (cases "0 \<le> a")
  case True
  then show thesis by (intro pos) (simp_all add: trunc_nonneg div_mult_mod_eq)
next
  case False
  then have "a < 0" by simp
  moreover have "- NS < - (- a mod NS)" using pos_mod_bound [of NS "- a"] by simp
  ultimately show thesis
    by (intro neg) (simp_all add: trunc_neg pos_imp_zdiv_nonneg_iff, use div_mult_mod_eq [of "- a" NS] in linarith)
qed

lemma euclid_unique: "a = q * NS + r \<Longrightarrow> 0 \<le> r \<Longrightarrow> r < NS \<Longrightarrow> a div NS = q \<and> a mod NS = r"
  by simp

lemma trunc_floor:
  "(if a smod NS < 0 then (a sdiv NS - 1, NS + a smod NS) else (a sdiv NS, a smod NS)) = (a div NS, a mod NS)"
proof (cases rule: trunc_cases [of a])
  case pos
  then show ?thesis by (simp add: trunc_nonneg)
next
  case neg
  then show ?thesis
    using euclid_unique [of a "a sdiv NS - 1" "NS + a smod NS"] euclid_unique [of a "a sdiv NS" "a smod NS"]
    by (cases "a smod NS < 0") simp_all
qed

section \<open>Clamping\<close>

definition duration_total :: "duration_wkt \<Rightarrow> int" where
  "duration_total d = du_seconds d * NS + du_nanos d"

lemma i64_saturating_range:
  "I64_MIN \<le> a + b \<Longrightarrow> a + b \<le> I64_MAX \<Longrightarrow> i64_saturating_add a b = a + b"
  "I64_MIN \<le> a - b \<Longrightarrow> a - b \<le> I64_MAX \<Longrightarrow> i64_saturating_sub a b = a - b"
  by (simp_all add: i64_saturating_add_def i64_saturating_sub_def)

text \<open>The carry between the parts of a duration, when the seconds are in range.\<close>

lemma duration_carry:
  fixes s r :: int
  assumes "I64_MIN < s" "s < I64_MAX" "\<bar>r\<bar> < NS"
  obtains s' r' where
    "(if s > 0 \<and> r < 0 then (i64_saturating_sub s 1, r + NS)
      else if s < 0 \<and> r > 0 then (i64_saturating_add s 1, - (NS - r)) else (s, r)) = (s', r')"
    "s' * NS + r' = s * NS + r" "\<bar>r'\<bar> < NS" "0 \<le> s' \<and> 0 \<le> r' \<or> s' \<le> 0 \<and> r' \<le> 0"
proof -
  consider "s > 0" "r < 0" | "s < 0" "r > 0" | "\<not> (s > 0 \<and> r < 0)" "\<not> (s < 0 \<and> r > 0)" by blast
  then show thesis
  proof cases
    case 1
    with assms show thesis by (intro that [of "s - 1" "r + NS"]) (simp_all add: i64_saturating_range)
  next
    case 2
    with assms show thesis by (intro that [of "s + 1" "r - NS"]) (simp_all add: i64_saturating_range)
  next
    case 3
    with assms show thesis by (intro that [of s r]) auto
  qed
qed

lemma duration_clamp_in_range:
  assumes "I64_MIN < s + n sdiv NS" "s + n sdiv NS < I64_MAX"
  shows "duration_valid (duration_clamp s n) \<and>
    (if s * NS + n \<ge> 315576000001 * NS then duration_clamp s n = \<lparr>du_seconds = 315576000000, du_nanos = 0\<rparr>
     else if s * NS + n \<le> - 315576000001 * NS then duration_clamp s n = \<lparr>du_seconds = - 315576000000, du_nanos = 0\<rparr>
     else duration_total (duration_clamp s n) = s * NS + n)"
proof -
  have r: "\<bar>n smod NS\<bar> < NS" "(n sdiv NS) * NS + n smod NS = n"
    by (cases rule: trunc_cases [of n]; linarith)+
  obtain s' r' where carry:
    "(if s + n sdiv NS > 0 \<and> n smod NS < 0 then (i64_saturating_sub (s + n sdiv NS) 1, n smod NS + NS)
      else if s + n sdiv NS < 0 \<and> n smod NS > 0 then (i64_saturating_add (s + n sdiv NS) 1, - (NS - n smod NS))
      else (s + n sdiv NS, n smod NS)) = (s', r')"
    and tot: "s' * NS + r' = (s + n sdiv NS) * NS + n smod NS"
    and norm: "\<bar>r'\<bar> < NS" "0 \<le> s' \<and> 0 \<le> r' \<or> s' \<le> 0 \<and> r' \<le> 0"
    using duration_carry [OF assms r(1)] by metis
  have T: "s * NS + n = s' * NS + r'" using tot r(2) by (simp add: algebra_simps)
  have clamp: "duration_clamp s n =
      (if s' > 315576000000 then \<lparr>du_seconds = 315576000000, du_nanos = 0\<rparr>
       else if s' < - 315576000000 then \<lparr>du_seconds = - 315576000000, du_nanos = 0\<rparr>
       else \<lparr>du_seconds = s', du_nanos = r'\<rparr>)"
    using assms by (simp add: duration_clamp_def Let_def i64_saturating_range carry duration_consts)
  consider "s' > 315576000000" | "s' < - 315576000000" | "\<bar>s'\<bar> \<le> 315576000000" by linarith
  then show ?thesis
    unfolding T clamp using norm by cases (simp_all add: duration_valid_def duration_total_def, arith)
qed

lemma duration_clamp_total:
  assumes "I64_MIN \<le> s" "s \<le> I64_MAX"
  shows "duration_valid (duration_clamp s n) \<and>
    (if s * NS + n \<ge> 315576000001 * NS then duration_clamp s n = \<lparr>du_seconds = 315576000000, du_nanos = 0\<rparr>
     else if s * NS + n \<le> - 315576000001 * NS then duration_clamp s n = \<lparr>du_seconds = - 315576000000, du_nanos = 0\<rparr>
     else duration_total (duration_clamp s n) = s * NS + n)"
proof -
  have r: "\<bar>n smod NS\<bar> < NS" "(n sdiv NS) * NS + n smod NS = n"
    by (cases rule: trunc_cases [of n]; linarith)+
  then have T: "s * NS + n = (s + n sdiv NS) * NS + n smod NS" by (simp add: algebra_simps)
  consider "s + n sdiv NS \<ge> I64_MAX" | "s + n sdiv NS \<le> I64_MIN"
    | "I64_MIN < s + n sdiv NS" "s + n sdiv NS < I64_MAX" by linarith
  then show ?thesis
  proof cases
    case 1
    then have "i64_saturating_add s (n sdiv NS) = I64_MAX" by (simp add: i64_saturating_add_def)
    then have "duration_clamp s n = \<lparr>du_seconds = 315576000000, du_nanos = 0\<rparr>"
      by (auto simp: duration_clamp_def Let_def duration_consts i64_saturating_sub_def)
    moreover have "s * NS + n \<ge> 315576000001 * NS" unfolding T using mult_right_mono [OF 1, of NS] r(1) by simp
    ultimately show ?thesis by (simp add: duration_valid_def)
  next
    case 2
    then have "i64_saturating_add s (n sdiv NS) = I64_MIN" by (simp add: i64_saturating_add_def)
    then have "duration_clamp s n = \<lparr>du_seconds = - 315576000000, du_nanos = 0\<rparr>"
      by (auto simp: duration_clamp_def Let_def duration_consts i64_saturating_add_def)
    moreover have "s * NS + n \<le> - 315576000001 * NS" unfolding T using mult_right_mono [OF 2, of NS] r(1) by simp
    ultimately show ?thesis by (simp add: duration_valid_def)
  qed (rule duration_clamp_in_range)
qed

section \<open>Field masks\<close>

text \<open>
  Snake-case paths: no commas, no upper-case letters, and every underscore followed by a
  lower-case letter.
\<close>

fun snake_path :: "string \<Rightarrow> bool" where
  "snake_path [] = True"
| "snake_path (c # cs) \<longleftrightarrow>
     \<not> is_ascii_uppercase c \<and> c \<noteq> CHR '','' \<and>
     (c = CHR ''_'' \<longrightarrow> cs \<noteq> [] \<and> is_ascii_lowercase (hd cs)) \<and> snake_path cs"

lemma upper_of_lower:
  assumes "is_ascii_lowercase c"
  shows "is_ascii_uppercase (to_ascii_uppercase c)" "to_ascii_lowercase (to_ascii_uppercase c) = c"
    "to_ascii_uppercase c \<noteq> CHR '',''" "c \<noteq> CHR ''_''"
proof -
  have c: "97 \<le> (of_char c :: nat)" "(of_char c :: nat) \<le> 122"
    using assms by (simp_all add: is_ascii_lowercase_def)
  then have u: "of_char (to_ascii_uppercase c) = (of_char c - 32 :: nat)"
    using assms by (simp add: to_ascii_uppercase_def)
  have "65 \<le> (of_char c :: nat) - 32" "(of_char c :: nat) - 32 \<le> 90" using c by linarith+
  with u show "is_ascii_uppercase (to_ascii_uppercase c)" by (simp add: is_ascii_uppercase_def)
  with u c show "to_ascii_lowercase (to_ascii_uppercase c) = c" by (simp add: to_ascii_lowercase_def)
  show "to_ascii_uppercase c \<noteq> CHR '',''" using u c by auto
  show "c \<noteq> CHR ''_''" using c by auto
qed

lemma snake_camel:
  "snake_path s \<Longrightarrow> (b \<longrightarrow> s \<noteq> [] \<and> is_ascii_lowercase (hd s)) \<Longrightarrow>
     to_snake_case (camel_loop b s) = (if b then CHR ''_'' # s else s) \<and>
     CHR '','' \<notin> set (camel_loop b s)"
proof (induction s arbitrary: b)
  case (Cons c cs)
  show ?case
  proof (cases "c = CHR ''_''")
    case True
    then have "\<not> b" using Cons.prems upper_of_lower(4) by fastforce
    with True Cons show ?thesis by simp
  next
    case False
    show ?thesis
    proof (cases b)
      case True
      with Cons.prems have "is_ascii_lowercase c" by simp
      with True False Cons upper_of_lower [of c] show ?thesis by (simp add: eq_commute [of _ "CHR '','' "])
    next
      case False': False
      with False Cons show ?thesis by auto
    qed
  qed
qed simp

lemma split_on_join:
  "ws \<noteq> [] \<Longrightarrow> \<forall>w \<in> set ws. c \<notin> set w \<Longrightarrow> split_on c (join_with c ws) = ws"
proof (induction c ws rule: join_with.induct)
  case (2 c x)
  then show ?case by (induction x) auto
next
  case (3 c x y ys)
  have "c \<notin> set x \<Longrightarrow> split_on c (x @ c # t) = x # split_on c t" for t
    by (induction x) auto
  with 3 show ?case by simp
qed simp

lemma join_with_Nil: "join_with c ws = [] \<longleftrightarrow> ws = [] \<or> ws = [[]]"
  by (cases "(c, ws)" rule: join_with.cases) auto

lemma camel_loop_Nil: "snake_path s \<Longrightarrow> camel_loop False s = [] \<Longrightarrow> s = []"
  using snake_camel [of s False] by auto

lemma timestamp_try_from_eq:
  "timestamp_try_from parse value =
     (case parse value of
        Err e \<Rightarrow> Err (TsDeserialize e)
      | Ok t \<Rightarrow> timestamp_new (t div NS) (t mod NS))"
proof (cases "parse value")
  case (Ok t)
  then show ?thesis
    using trunc_floor [of t] by (auto simp: timestamp_try_from_def Let_def split: if_splits)
qed (simp add: timestamp_try_from_def)

section \<open>Properties\<close>

text \<open>
  C39. The text form of a duration round-trips: every duration that \<open>Duration::new\<close> accepts
  parses back from its string, for both signs and with the trailing zeros of the fraction trimmed.
\<close>

theorem duration_text_roundtrip:
  assumes "duration_new seconds nanos = Ok d"
  shows "duration_visit_str (duration_serialize d) = Ok d"
  using assms duration_text [of d]
  unfolding duration_visit_str_def duration_serialize_def duration_new_Ok by blast

lemma duration_text_roundtrip_witness:
  "duration_new (- 12) (- 340000000) = Ok \<lparr>du_seconds = - 12, du_nanos = - 340000000\<rparr> \<and>
   duration_visit_str (duration_serialize \<lparr>du_seconds = - 12, du_nanos = - 340000000\<rparr>) =
     Ok \<lparr>du_seconds = - 12, du_nanos = - 340000000\<rparr>"
proof -
  have h: "duration_new (- 12) (- 340000000) = Ok \<lparr>du_seconds = - 12, du_nanos = - 340000000\<rparr>"
    by (simp add: duration_new_def duration_consts)
  show ?thesis using h duration_text_roundtrip [OF h] by simp
qed

text \<open>
  \<open>Duration::clamp\<close> adds the nanoseconds to the seconds with carry and saturation: for
  every \<open>i64\<close> of seconds the result is a duration that \<open>new\<close> accepts, it is the exact
  sum when that is less than a second outside the range of the seconds, and the end of the range
  otherwise.
\<close>

theorem duration_clamp_correct:
  assumes "I64_MIN \<le> s" "s \<le> I64_MAX"
  shows "let d = duration_clamp s n in
    duration_new (du_seconds d) (du_nanos d) = Ok d \<and>
    (if s * NS + n \<ge> 315576000001 * NS then d = \<lparr>du_seconds = 315576000000, du_nanos = 0\<rparr>
     else if s * NS + n \<le> - 315576000001 * NS then d = \<lparr>du_seconds = - 315576000000, du_nanos = 0\<rparr>
     else du_seconds d * NS + du_nanos d = s * NS + n)"
  using duration_clamp_total [OF assms, of n]
  unfolding Let_def duration_new_Ok duration_total_def by simp

lemma duration_clamp_correct_witness:
  "let d = duration_clamp 10 2000000001 in
    duration_new (du_seconds d) (du_nanos d) = Ok d \<and> du_seconds d * NS + du_nanos d = 12000000001"
  using duration_clamp_correct [of 10 2000000001] by (simp add: Let_def)

text \<open>
  Parsing a timestamp rounds towards the past: the seconds and nanoseconds are the quotient and
  the non-negative remainder of the parsed nanoseconds, also before the epoch, and they are then
  checked as by \<open>Timestamp::new\<close>.
\<close>

theorem timestamp_try_from_floor:
  "timestamp_try_from parse value =
     (case parse value of
        Err e \<Rightarrow> Err (TsDeserialize e)
      | Ok t \<Rightarrow> timestamp_new (t div NS) (t mod NS))"
  by (rule timestamp_try_from_eq)

text \<open>
  The text form of a timestamp round-trips: if the RFC 3339 printer of the \<open>time\<close> crate
  can print every instant of the years 1 to 9999 and its parser reads the printed text back, then
  printing a timestamp does not panic and parsing the text gives the timestamp.
\<close>

theorem timestamp_text_roundtrip:
  assumes "timestamp_new seconds nanos = Ok t"
    and "\<And>n. - 62135596800 * NS \<le> n \<Longrightarrow> n < 253402300800 * NS \<Longrightarrow>
           \<exists>s. format_rfc3339 n = Some s \<and> parse_rfc3339 s = Ok n"
  shows "\<exists>s. timestamp_to_string format_rfc3339 t = Ret s \<and> timestamp_try_from parse_rfc3339 s = Ok t"
proof -
  from assms(1) have t: "t = \<lparr>ts_seconds = seconds, ts_nanos = nanos\<rparr>"
    "- 62135596800 \<le> seconds" "seconds \<le> 253402300799" "0 \<le> nanos" "nanos < NS"
    by (auto simp: timestamp_new_Ok)
  have "- 62135596800 * NS \<le> seconds * NS + nanos" "seconds * NS + nanos < 253402300800 * NS"
    using t mult_right_mono [OF t(2), of NS] mult_right_mono [OF t(3), of NS] by linarith+
  with assms(2) obtain s where
    "format_rfc3339 (seconds * NS + nanos) = Some s" "parse_rfc3339 s = Ok (seconds * NS + nanos)" by blast
  then show ?thesis
    using t assms(1) by (simp add: timestamp_to_string_def timestamp_try_from_eq)
qed

text \<open>A printer and a parser that satisfy the hypothesis: one digit string per instant.\<close>

definition unary_format :: "int \<Rightarrow> string option" where
  "unary_format n = Some ((if n < 0 then ''-'' else ''+'') @ dec (nat \<bar>n\<bar>))"

definition unary_parse :: "string \<Rightarrow> (string, int) result" where
  "unary_parse s =
     (case s of
        [] \<Rightarrow> Err ''empty''
      | c # ds \<Rightarrow> Ok ((if c = CHR ''-'' then - 1 else 1) * int (digits_value ds)))"

lemma unary_roundtrip: "\<exists>s. unary_format n = Some s \<and> unary_parse s = Ok n"
  by (simp add: unary_format_def unary_parse_def dec_digits)

lemma timestamp_text_roundtrip_witness:
  "timestamp_new (- 1) 500000000 = Ok \<lparr>ts_seconds = - 1, ts_nanos = 500000000\<rparr> \<and>
   (\<exists>s. timestamp_to_string unary_format \<lparr>ts_seconds = - 1, ts_nanos = 500000000\<rparr> = Ret s \<and>
     timestamp_try_from unary_parse s = Ok \<lparr>ts_seconds = - 1, ts_nanos = 500000000\<rparr>)"
proof -
  have h: "timestamp_new (- 1) 500000000 = Ok \<lparr>ts_seconds = - 1, ts_nanos = 500000000\<rparr>"
    by (simp add: timestamp_new_def timestamp_consts)
  show ?thesis
    using h timestamp_text_roundtrip [OF h, of unary_format unary_parse, OF unary_roundtrip] by blast
qed

text \<open>
  \<open>Timestamp::clamp\<close> always gives a valid timestamp, the exact sum of the two parts when
  the seconds stay in range, and the first or last second otherwise.
\<close>

theorem timestamp_clamp_correct:
  assumes "I64_MIN \<le> s" "s \<le> I64_MAX"
  shows "let t = timestamp_clamp s n in
    timestamp_new (ts_seconds t) (ts_nanos t) = Ok t \<and>
    (if s * NS + n < - 62135596800 * NS then t = \<lparr>ts_seconds = - 62135596800, ts_nanos = 0\<rparr>
     else if s * NS + n \<ge> 253402300800 * NS then t = \<lparr>ts_seconds = 253402300799, ts_nanos = 0\<rparr>
     else ts_seconds t * NS + ts_nanos t = s * NS + n)"
proof -
  define q r where "q = n div NS" and "r = n mod NS"
  have qr: "n = q * NS + r" "0 \<le> r" "r < NS" by (simp_all add: q_def r_def div_mult_mod_eq)
  have T: "s * NS + n = (s + q) * NS + r" using qr(1) by (simp add: algebra_simps)
  consider "s + q < - 62135596800" | "s + q > 253402300799" | "- 62135596800 \<le> s + q" "s + q \<le> 253402300799"
    by linarith
  then show ?thesis
    unfolding T using qr(2,3)
    by cases (simp_all add: timestamp_clamp_def Let_def timestamp_consts timestamp_new_def
        i64_saturating_add_def q_def [symmetric] r_def [symmetric], arith?)
qed

lemma timestamp_clamp_correct_witness:
  "let t = timestamp_clamp 0 (- 1) in
    timestamp_new (ts_seconds t) (ts_nanos t) = Ok t \<and> ts_seconds t * NS + ts_nanos t = - 1"
  using timestamp_clamp_correct [of 0 "- 1"] by (simp add: Let_def)

text \<open>
  Timestamps survive the conversion to the operating system's clock and back, before and after
  the epoch, and the conversion to it never fails.
\<close>

theorem timestamp_system_time_roundtrip:
  assumes "timestamp_new seconds nanos = Ok t"
  shows "timestamp_into_system_time t = Ok (seconds * NS + nanos) \<and>
    timestamp_from_system_time (seconds * NS + nanos) = Ok t"
proof -
  from assms have t: "t = \<lparr>ts_seconds = seconds, ts_nanos = nanos\<rparr>"
    "- 62135596800 \<le> seconds" "seconds \<le> 253402300799" "0 \<le> nanos" "nanos < NS"
    by (auto simp: timestamp_new_Ok)
  have ok: "system_time_ok (seconds * NS + nanos)" "system_time_ok (seconds * NS)"
    using t by (simp_all add: system_time_ok_def)
  have into: "timestamp_into_system_time t = Ok (seconds * NS + nanos)"
    using t ok by (simp add: timestamp_into_system_time_def system_checked_add_def)
  have "timestamp_from_system_time (seconds * NS + nanos) = timestamp_new seconds nanos"
  proof (cases "0 \<le> seconds * NS + nanos")
    case True
    with t show ?thesis by (simp add: timestamp_from_system_time_def)
  next
    case False
    define d where "d = - (seconds * NS + nanos)"
    have "nanos = 0 \<Longrightarrow> d div NS = - seconds \<and> d mod NS = 0"
      using euclid_unique [of d "- seconds" 0] by (simp add: d_def)
    moreover have "nanos > 0 \<Longrightarrow> d div NS = - seconds - 1 \<and> d mod NS = NS - nanos"
      using euclid_unique [of d "- seconds - 1" "NS - nanos"] t by (simp add: d_def algebra_simps)
    moreover have v: "seconds * NS + nanos = - d" "0 < d" using False by (simp_all add: d_def)
    ultimately show ?thesis
      unfolding v(1) using v(2) t by (cases "nanos = 0")
        (simp_all add: timestamp_from_system_time_def Let_def)
  qed
  with into assms show ?thesis by simp
qed

lemma timestamp_system_time_roundtrip_witness:
  "timestamp_into_system_time \<lparr>ts_seconds = - 1, ts_nanos = 500000000\<rparr> = Ok (- 500000000) \<and>
   timestamp_from_system_time (- 500000000) = Ok \<lparr>ts_seconds = - 1, ts_nanos = 500000000\<rparr>"
proof -
  have h: "timestamp_new (- 1) 500000000 = Ok \<lparr>ts_seconds = - 1, ts_nanos = 500000000\<rparr>"
    by (simp add: timestamp_new_def timestamp_consts)
  show ?thesis using timestamp_system_time_roundtrip [OF h] by simp
qed

text \<open>
  Field masks round-trip through JSON: a list of snake-case paths is read back from its
  camel-case, comma-separated form. The one exception is the list with a single empty path, which
  has the same form as the empty list.
\<close>

theorem field_mask_roundtrip:
  assumes "list_all snake_path paths" "paths \<noteq> [[]]"
  shows "field_mask_visit_str (field_mask_serialize paths) = paths"
proof -
  have each: "\<forall>p \<in> set paths. to_snake_case (to_camel_case p) = p \<and> CHR '','' \<notin> set (to_camel_case p)"
    using assms(1) snake_camel [of _ False] by (auto simp: list_all_iff to_camel_case_def)
  have "map to_camel_case paths \<noteq> [[]]"
    using assms camel_loop_Nil by (auto simp: list_all_iff to_camel_case_def map_eq_Cons_conv)
  then have "field_mask_serialize paths = [] \<longleftrightarrow> paths = []"
    by (simp add: field_mask_serialize_def join_with_Nil)
  moreover have "split_on CHR '','' (field_mask_serialize paths) = map to_camel_case paths" if "paths \<noteq> []"
    using each that by (simp add: field_mask_serialize_def split_on_join)
  ultimately show ?thesis
    using each by (auto simp: field_mask_visit_str_def map_idI)
qed

lemma field_mask_roundtrip_witness:
  "list_all snake_path [''user.display_name'', ''field1''] \<and>
   field_mask_visit_str (field_mask_serialize [''user.display_name'', ''field1'']) =
     [''user.display_name'', ''field1'']"
proof -
  have h: "list_all snake_path [''user.display_name'', ''field1'']" by code_simp
  show ?thesis using h field_mask_roundtrip [OF h] by simp
qed

end
