(* ===== verification/Storage_Read.thy ===== *)
theory Storage_Read
  imports Client_Policies "HOL-Library.AList"
begin

text \<open>
  Streaming reads of Cloud Storage objects over one connection, the \<open>storage\<close> crate's
  \<open>bidi\<close> module: the ranges still to be received (\<open>requested_range.rs\<close>,
  \<open>normalized_range.rs\<close>, \<open>remaining_range.rs\<close>), a read in progress
  (\<open>active_read.rs\<close>), the worker that dispatches the responses of the stream and resumes
  it (\<open>worker.rs\<close>), the redirect decorators of the policies and the reader of a range
  (\<open>range_reader.rs\<close>).

  An \<open>i64\<close> is an integer in its range, an \<open>as\<close> cast wraps. A channel to a reader is
  the list of the items sent on it; the sending half is owned by the \<open>ActiveRead\<close>, so the
  channel is closed once no active read of the worker has it. The CRC32C function is a parameter.
\<close>

section \<open>Ranges\<close>

type_synonym bytes = "u8 list"

definition as_i64 :: "int \<Rightarrow> int" where
  "as_i64 x = sint (word_of_int x :: u64)"

definition as_u64 :: "int \<Rightarrow> u64" where
  "as_u64 x = word_of_int x"

definition idec :: "int \<Rightarrow> string" where
  "idec i = (if i < 0 then CHR ''-'' # dec (nat (- i)) else dec (nat i))"

record proto_range =
  pr_read_id :: int
  pr_read_offset :: int
  pr_read_length :: int

datatype requested_range = ROffset u64 | RTail u64 | RSegment u64 u64

fun requested_as_proto :: "requested_range \<Rightarrow> int \<Rightarrow> proto_range" where
  "requested_as_proto (ROffset o') read_id =
     \<lparr>pr_read_id = read_id, pr_read_offset = sint o', pr_read_length = 0\<rparr>"
| "requested_as_proto (RTail o') read_id =
     \<lparr>pr_read_id = read_id, pr_read_offset = as_i64 (- sint o'), pr_read_length = 0\<rparr>"
| "requested_as_proto (RSegment offset limit) read_id =
     \<lparr>pr_read_id = read_id, pr_read_offset = sint offset, pr_read_length = sint limit\<rparr>"

datatype checksum_mismatch =
    Crc32cMismatch u32 u32
  | Md5Mismatch bytes bytes
  | BothMismatch "u32 \<times> bytes" "u32 \<times> bytes"

datatype read_error =
    ChecksumMismatch checksum_mismatch
  | ShortRead u64
  | LongRead u64 u64
  | UnexpectedSuccessCode nat
  | MissingHeader string
  | BadHeaderFormat string string
  | UnrecoverableBidiReadInterrupt error
  | InvalidBidiStreamingReadResponse string

definition bidi_out_of_order :: "int \<Rightarrow> int \<Rightarrow> read_error" where
  "bidi_out_of_order expected got =
     InvalidBidiStreamingReadResponse
       (''message offset mismatch, expected='' @ idec expected @ '', got='' @ idec got)"

record normalized_range =
  nr_offset :: int
  nr_length :: "int option"

definition normalized_new :: "int \<Rightarrow> (read_error, normalized_range) result" where
  "normalized_new offset =
     (if offset < 0 then Err (InvalidBidiStreamingReadResponse (''invalid offset ('' @ idec offset @ '')''))
      else Ok \<lparr>nr_offset = offset, nr_length = None\<rparr>)"

definition with_length :: "normalized_range \<Rightarrow> int \<Rightarrow> (read_error, normalized_range) result" where
  "with_length self len =
     (if len < 0 then Err (InvalidBidiStreamingReadResponse (''invalid length ('' @ idec len @ '')''))
      else Ok (self\<lparr>nr_length := Some len\<rparr>))"

definition from_proto :: "proto_range \<Rightarrow> (read_error, normalized_range) result" where
  "from_proto response =
     (if pr_read_length response = 0 then normalized_new (pr_read_offset response)
      else case normalized_new (pr_read_offset response) of
             Err e \<Rightarrow> Err e
           | Ok n \<Rightarrow> with_length n (pr_read_length response))"

definition normalized_as_proto :: "normalized_range \<Rightarrow> int \<Rightarrow> proto_range" where
  "normalized_as_proto self read_id =
     \<lparr>pr_read_id = read_id, pr_read_offset = nr_offset self,
      pr_read_length = (case nr_length self of Some l \<Rightarrow> l | None \<Rightarrow> 0)\<rparr>"

definition normalized_update :: "normalized_range \<Rightarrow> proto_range \<Rightarrow> (read_error, normalized_range) result" where
  "normalized_update self response =
     (case from_proto response of
        Err e \<Rightarrow> Err e
      | Ok update \<Rightarrow>
          (if nr_offset update \<noteq> nr_offset self
           then Err (bidi_out_of_order (nr_offset self) (nr_offset update))
           else
             (case (case (nr_length self, nr_length update) of
                      (None, _) \<Rightarrow> Ok None
                    | (Some l, None) \<Rightarrow> Ok (Some l)
                    | (Some expected, Some got) \<Rightarrow>
                        (if got \<le> expected then Ok (Some (expected - got))
                         else Err (LongRead (as_u64 got) (as_u64 expected)))) of
                Err e \<Rightarrow> Err e
              | Ok len \<Rightarrow>
                  Ok \<lparr>nr_offset = as_i64 (nr_offset update + (case nr_length update of Some l \<Rightarrow> l | None \<Rightarrow> 0)),
                      nr_length = len\<rparr>)))"

definition normalized_handle_empty :: "normalized_range \<Rightarrow> bool \<Rightarrow> (read_error, unit) result" where
  "normalized_handle_empty self fin =
     (case (fin, nr_length self) of
        (True, Some l) \<Rightarrow> (if l > 0 then Err (ShortRead (as_u64 l)) else Ok ())
      | _ \<Rightarrow> Ok ())"

datatype remaining_range = Requested requested_range | Normalized normalized_range

definition normalize :: "requested_range \<Rightarrow> proto_range \<Rightarrow> (read_error, normalized_range) result" where
  "normalize current response =
     (case current of
        RTail _ \<Rightarrow> normalized_new (pr_read_offset response)
      | ROffset offset \<Rightarrow>
          (if as_u64 (pr_read_offset response) \<noteq> offset
           then Err (bidi_out_of_order (sint offset) (pr_read_offset response))
           else normalized_new (pr_read_offset response))
      | RSegment offset limit \<Rightarrow>
          (if as_u64 (pr_read_length response) > limit \<and> limit \<noteq> 0
           then Err (LongRead (as_u64 (pr_read_length response)) limit)
           else if as_u64 (pr_read_offset response) \<noteq> offset
           then Err (bidi_out_of_order (sint offset) (pr_read_offset response))
           else if limit = 0 then normalized_new (pr_read_offset response)
           else case normalized_new (pr_read_offset response) of
                  Err e \<Rightarrow> Err e
                | Ok n \<Rightarrow> with_length n (sint (min limit (as_u64 9223372036854775807)))))"

definition remaining_update :: "remaining_range \<Rightarrow> proto_range \<Rightarrow> (read_error, remaining_range) result" where
  "remaining_update self response =
     (case self of
        Normalized segment \<Rightarrow>
          (case normalized_update segment response of Err e \<Rightarrow> Err e | Ok s \<Rightarrow> Ok (Normalized s))
      | Requested requested \<Rightarrow>
          (case normalize requested response of
             Err e \<Rightarrow> Err e
           | Ok segment \<Rightarrow>
               (case normalized_update segment response of Err e \<Rightarrow> Err e | Ok s \<Rightarrow> Ok (Normalized s))))"

fun remaining_as_proto :: "remaining_range \<Rightarrow> int \<Rightarrow> proto_range" where
  "remaining_as_proto (Requested r) read_id = requested_as_proto r read_id"
| "remaining_as_proto (Normalized s) read_id = normalized_as_proto s read_id"

fun remaining_handle_empty :: "remaining_range \<Rightarrow> bool \<Rightarrow> (read_error, unit) result run" where
  "remaining_handle_empty (Normalized s) fin = Ret (normalized_handle_empty s fin)"
| "remaining_handle_empty (Requested _) fin = Panic"

section \<open>Active reads\<close>

record checksummed_data =
  cd_content :: bytes
  cd_crc32c :: "u32 option"

record active_read =
  ar_state :: remaining_range
  ar_sender :: nat

definition active_read_new :: "nat \<Rightarrow> requested_range \<Rightarrow> active_read" where
  "active_read_new sender requested = \<lparr>ar_state = Requested requested, ar_sender = sender\<rparr>"

datatype handler = NoData | Send nat bytes

definition handle_data ::
  "(bytes \<Rightarrow> u32) \<Rightarrow> active_read \<Rightarrow> checksummed_data option \<Rightarrow> proto_range \<Rightarrow> bool \<Rightarrow>
   ((read_error, handler) result \<times> active_read) run" where
  "handle_data crc32c self data received fin =
     (case remaining_update (ar_state self) received of
        Err e \<Rightarrow> Ret (Err e, self)
      | Ok st \<Rightarrow>
          (let self' = self\<lparr>ar_state := st\<rparr>
           in case data of
                None \<Rightarrow>
                  map_run (\<lambda>r. (case r of Err e \<Rightarrow> Err e | Ok _ \<Rightarrow> Ok NoData, self'))
                    (remaining_handle_empty st fin)
              | Some d \<Rightarrow>
                  (case cd_crc32c d of
                     Some want \<Rightarrow>
                       (let got = crc32c (cd_content d)
                        in if want \<noteq> got
                           then Ret (Err (ChecksumMismatch (Crc32cMismatch got want)), self')
                           else Ret (Ok (Send (ar_sender self) (cd_content d)), self'))
                   | None \<Rightarrow> Ret (Ok (Send (ar_sender self) (cd_content d)), self'))))"

section \<open>Redirects\<close>

text \<open>
  \<open>is_redirect\<close> looks for a redirect message in the details of the gRPC status behind an
  aborted error; decoding them is a parameter.
\<close>

definition is_redirect :: "(error \<Rightarrow> bool) \<Rightarrow> error \<Rightarrow> bool" where
  "is_redirect has_redirect_detail e =
     (case error_status e of
        None \<Rightarrow> False
      | Some s \<Rightarrow> (if status_code s \<noteq> Aborted then False else has_redirect_detail e))"

definition resume_redirect :: "(error \<Rightarrow> bool) \<Rightarrow> read_resume_policy \<Rightarrow> read_resume_policy" where
  "resume_redirect has_redirect_detail inner attempts e =
     (case inner attempts e of
        Permanent e' \<Rightarrow> (if is_redirect has_redirect_detail e' then Continue e' else Permanent e')
      | result \<Rightarrow> result)"

definition retry_redirect_on_error ::
  "(error \<Rightarrow> bool) \<Rightarrow> retry_policy \<Rightarrow> instant \<Rightarrow> retry_state \<Rightarrow> error \<Rightarrow> retry_result run" where
  "retry_redirect_on_error has_redirect_detail inner now st e =
     map_run (\<lambda>r. case r of
         Permanent e' \<Rightarrow> (if is_redirect has_redirect_detail e' then Continue e' else Permanent e')
       | result \<Rightarrow> result) (on_error inner now st e)"

text \<open>The decorator implements two of the three methods of the trait.\<close>

definition retry_redirect :: "(error \<Rightarrow> bool) \<Rightarrow> retry_policy \<Rightarrow> retry_policy" where
  "retry_redirect has_redirect_detail inner =
     \<lparr>on_error = retry_redirect_on_error has_redirect_detail inner,
      on_throttle = on_throttle inner,
      remaining_time = default_remaining_time\<rparr>"

section \<open>The worker\<close>

text \<open>
  \<open>Worker\<close> with the channels to its readers: \<open>wk_sent s\<close> are the items sent so far on
  channel \<open>s\<close>. The hash map of active reads is an association list. The error of the loop is
  an invalid response (\<open>Error::io\<close> of the read error) or the error of a failed reconnect.
\<close>

datatype read_item = Data bytes | Failed read_error

datatype loop_error = BadResponse read_error | Disconnected error

record worker =
  wk_next_range_id :: int
  wk_ranges :: "(int \<times> active_read) list"
  wk_sent :: "nat \<Rightarrow> read_item list"

record object_range_data =
  rd_checksummed_data :: "checksummed_data option"
  rd_read_range :: "proto_range option"
  rd_range_end :: bool

text \<open>The connection attempts, a parameter: the answer to a reconnect with the given ranges.\<close>

record 'status connector =
  cn_attempt :: "u32 \<Rightarrow> 'status \<Rightarrow> proto_range list \<Rightarrow> (error, object_range_data list) result"
  cn_error :: "'status \<Rightarrow> error"
  cn_policy :: read_resume_policy
  cn_redirect_detail :: "error \<Rightarrow> bool"

definition worker_new :: "active_read list \<Rightarrow> worker" where
  "worker_new request_ranges =
     \<lparr>wk_next_range_id = as_i64 (int (length request_ranges)),
      wk_ranges = zip (map (\<lambda>i. as_i64 (int i)) [0..<length request_ranges]) request_ranges,
      wk_sent = (\<lambda>_. [])\<rparr>"

definition send_item :: "worker \<Rightarrow> nat \<Rightarrow> read_item \<Rightarrow> worker" where
  "send_item w ch item = w\<lparr>wk_sent := (wk_sent w)(ch := wk_sent w ch @ [item])\<rparr>"

fun handler_send :: "worker \<Rightarrow> handler \<Rightarrow> worker" where
  "handler_send w NoData = w"
| "handler_send w (Send tx data) = send_item w tx (Data data)"

definition handle_range_data ::
  "(bytes \<Rightarrow> u32) \<Rightarrow> worker \<Rightarrow> object_range_data \<Rightarrow> ((read_error, unit) result \<times> worker) run" where
  "handle_range_data crc32c w response =
     (case rd_read_range response of
        None \<Rightarrow> Ret (Err (InvalidBidiStreamingReadResponse ''missing range''), w)
      | Some rg \<Rightarrow>
          (case map_of (wk_ranges w) (pr_read_id rg) of
             None \<Rightarrow>
               Ret (Err (InvalidBidiStreamingReadResponse
                 (''unknown read id ('' @ idec (pr_read_id rg) @ (if rd_range_end response then '')'' else []))), w)
           | Some pending \<Rightarrow>
               map_run
                 (\<lambda>(r, pending').
                    let w' = w\<lparr>wk_ranges :=
                          (if rd_range_end response then AList.delete (pr_read_id rg) (wk_ranges w)
                           else AList.update (pr_read_id rg) pending' (wk_ranges w))\<rparr>
                    in case r of
                         Err e \<Rightarrow> (Err e, w')
                       | Ok h \<Rightarrow> (Ok (), handler_send w' h))
                 (handle_data crc32c pending (rd_checksummed_data response) rg (rd_range_end response))))"

text \<open>\<open>handle_ranges\<close>: all the data is handled, the first error is kept.\<close>

fun handle_ranges_loop ::
  "(bytes \<Rightarrow> u32) \<Rightarrow> (read_error, unit) result \<Rightarrow> worker \<Rightarrow> object_range_data list \<Rightarrow>
   ((read_error, unit) result \<times> worker) run" where
  "handle_ranges_loop crc32c result w [] = Ret (result, w)"
| "handle_ranges_loop crc32c result w (response # rest) =
     bind_run (handle_range_data crc32c w response) (\<lambda>(r, w').
       handle_ranges_loop crc32c
         (case r of Ok _ \<Rightarrow> result | Err e \<Rightarrow> (case result of Ok _ \<Rightarrow> Err e | Err e0 \<Rightarrow> Err e0)) w' rest)"

definition handle_ranges ::
  "(bytes \<Rightarrow> u32) \<Rightarrow> worker \<Rightarrow> object_range_data list \<Rightarrow> ((loop_error, unit) result \<times> worker) run" where
  "handle_ranges crc32c w data =
     map_run (\<lambda>(r, w'). (case r of Ok _ \<Rightarrow> Ok () | Err e \<Rightarrow> Err (BadResponse e), w'))
       (handle_ranges_loop crc32c (Ok ()) w data)"

text \<open>\<open>close_readers\<close>: every reader of an active range gets the error, then the map is cleared.\<close>

definition interrupted :: "error \<Rightarrow> worker \<Rightarrow> active_read \<Rightarrow> worker" where
  "interrupted e w a = send_item w (ar_sender a) (Failed (UnrecoverableBidiReadInterrupt e))"

definition close_readers :: "error \<Rightarrow> worker \<Rightarrow> worker" where
  "close_readers e w =
     (fold (\<lambda>(_, a) w'. interrupted e w' a) (wk_ranges w) w)\<lparr>wk_ranges := []\<rparr>"

text \<open>The \<open>crate::Error\<close> of a loop error, as the readers see it.\<close>

fun loop_error_source :: "(read_error \<Rightarrow> box_error) \<Rightarrow> loop_error \<Rightarrow> error" where
  "loop_error_source box (BadResponse e) = io (box e)"
| "loop_error_source box (Disconnected e) = e"

definition handle_response_success ::
  "(bytes \<Rightarrow> u32) \<Rightarrow> (read_error \<Rightarrow> box_error) \<Rightarrow> worker \<Rightarrow> object_range_data list \<Rightarrow>
   ((loop_error, unit) result \<times> worker) run" where
  "handle_response_success crc32c box w data =
     map_run (\<lambda>(r, w'). case r of
         Err e \<Rightarrow> (Err e, close_readers (loop_error_source box e) w')
       | Ok _ \<Rightarrow> (Ok (), w'))
       (handle_ranges crc32c w data)"

text \<open>
  \<open>Connector::reconnect\<close> counts the attempt and asks the resume policy; \<open>Worker::reconnect\<close>
  sends the remaining part of every active range and handles the data of the first response.
\<close>

definition connector_reconnect ::
  "'status connector \<Rightarrow> u32 \<Rightarrow> 'status \<Rightarrow> proto_range list \<Rightarrow>
   (error, object_range_data list) result \<times> u32" where
  "connector_reconnect cn attempts status ranges =
     (let attempts' = attempts + 1
      in case resume_redirect (cn_redirect_detail cn) (cn_policy cn) attempts' (cn_error cn status) of
           Continue _ \<Rightarrow> (cn_attempt cn attempts' status ranges, attempts')
         | Exhausted e \<Rightarrow> (Err e, attempts')
         | Permanent e \<Rightarrow> (Err e, attempts'))"

definition pending_ranges :: "worker \<Rightarrow> proto_range list" where
  "pending_ranges w = map (\<lambda>(i, a). remaining_as_proto (ar_state a) i) (wk_ranges w)"

definition worker_reconnect ::
  "(bytes \<Rightarrow> u32) \<Rightarrow> (read_error \<Rightarrow> box_error) \<Rightarrow> 'status connector \<Rightarrow> u32 \<Rightarrow> worker \<Rightarrow> 'status \<Rightarrow>
   ((loop_error, unit) result \<times> u32 \<times> worker) run" where
  "worker_reconnect crc32c box cn attempts w status =
     (case connector_reconnect cn attempts status (pending_ranges w) of
        (Err e, attempts') \<Rightarrow> Ret (Err (Disconnected e), attempts', close_readers e w)
      | (Ok data, attempts') \<Rightarrow>
          map_run (\<lambda>(r, w'). (r, attempts', w')) (handle_response_success crc32c box w data))"

definition insert_range :: "worker \<Rightarrow> active_read \<Rightarrow> worker \<times> proto_range" where
  "insert_range w a =
     (let i = wk_next_range_id w
      in (w\<lparr>wk_next_range_id := as_i64 (i + 1), wk_ranges := AList.update i a (wk_ranges w)\<rparr>,
          remaining_as_proto (ar_state a) i))"

fun insert_ranges :: "worker \<Rightarrow> active_read list \<Rightarrow> worker \<times> proto_range list" where
  "insert_ranges w [] = (w, [])"
| "insert_ranges w (a # as) =
     (case insert_range w a of (w', r) \<Rightarrow>
        (case insert_ranges w' as of (w'', rs) \<Rightarrow> (w'', r # rs)))"

text \<open>
  The events of the \<open>select!\<close> loop of \<open>run\<close>, and the loop over a sequence of them. The
  loop ends with the end of the stream, an unrecoverable error or the end of the requests; reads
  requested after an error are answered with it.
\<close>

datatype 'status worker_event =
    Message "object_range_data list"
  | StreamEnd
  | StreamError 'status
  | NewReads "active_read list"
  | RequestsClosed

datatype loop_exit = Running | Done | Broken loop_error

fun worker_step ::
  "(bytes \<Rightarrow> u32) \<Rightarrow> (read_error \<Rightarrow> box_error) \<Rightarrow> 'status connector \<Rightarrow> u32 \<Rightarrow> worker \<Rightarrow> 'status worker_event \<Rightarrow>
   (loop_exit \<times> u32 \<times> worker) run" where
  "worker_step crc32c box cn k w (Message data) =
     map_run (\<lambda>(r, w'). (case r of Ok _ \<Rightarrow> Running | Err e \<Rightarrow> Broken e, k, w'))
       (handle_response_success crc32c box w data)"
| "worker_step crc32c box cn k w StreamEnd = Ret (Done, k, w)"
| "worker_step crc32c box cn k w (StreamError status) =
     map_run (\<lambda>(r, k', w'). (case r of Ok _ \<Rightarrow> Running | Err e \<Rightarrow> Broken e, k', w'))
       (worker_reconnect crc32c box cn k w status)"
| "worker_step crc32c box cn k w (NewReads as) = Ret (Running, k, fst (insert_ranges w as))"
| "worker_step crc32c box cn k w RequestsClosed = Ret (Done, k, w)"

fun drain_requests :: "error \<Rightarrow> worker \<Rightarrow> 'status worker_event list \<Rightarrow> worker" where
  "drain_requests e w [] = w"
| "drain_requests e w (NewReads as # evs) = drain_requests e (fold (\<lambda>a w'. interrupted e w' a) as w) evs"
| "drain_requests e w (_ # evs) = drain_requests e w evs"

fun worker_run ::
  "(bytes \<Rightarrow> u32) \<Rightarrow> (read_error \<Rightarrow> box_error) \<Rightarrow> 'status connector \<Rightarrow> u32 \<Rightarrow> worker \<Rightarrow> 'status worker_event list \<Rightarrow>
   (loop_exit \<times> worker) run" where
  "worker_run crc32c box cn k w [] = Ret (Running, w)"
| "worker_run crc32c box cn k w (ev # evs) =
     bind_run (worker_step crc32c box cn k w ev) (\<lambda>(ex, k', w').
       case ex of
         Running \<Rightarrow> worker_run crc32c box cn k' w' evs
       | Done \<Rightarrow> Ret (Done, w'\<lparr>wk_ranges := []\<rparr>)
       | Broken e \<Rightarrow> Ret (Broken e, drain_requests (loop_error_source box e) w' evs))"

section \<open>The reader of a range\<close>

text \<open>
  \<open>RangeReader::next\<close> on the next item of its channel, \<open>None\<close> being the end of a closed
  channel. The checksum validation of the received bytes is a parameter; it is \<open>None\<close> if the
  metadata has no checksums.
\<close>

datatype reader_item = Chunk bytes | ReaderError read_error | ChecksumError checksum_mismatch

record range_reader =
  rr_exhausted :: bool
  rr_received :: bytes

definition reader_next ::
  "(bytes \<Rightarrow> checksum_mismatch option) option \<Rightarrow> range_reader \<Rightarrow> read_item option \<Rightarrow>
   reader_item option \<times> range_reader" where
  "reader_next validate rr msg =
     (if rr_exhausted rr then (None, rr)
      else case msg of
             Some (Data b) \<Rightarrow> (Some (Chunk b), rr\<lparr>rr_received := rr_received rr @ b\<rparr>)
           | Some (Failed e) \<Rightarrow> (Some (ReaderError e), rr\<lparr>rr_exhausted := True\<rparr>)
           | None \<Rightarrow>
               (let rr' = rr\<lparr>rr_exhausted := True\<rparr>
                in case validate of
                     None \<Rightarrow> (None, rr')
                   | Some v \<Rightarrow>
                       (case v (rr_received rr) of
                          Some e \<Rightarrow> (Some (ChecksumError e), rr')
                        | None \<Rightarrow> (None, rr'))))"

section \<open>Casts\<close>

lemma as_i64_id: "- 9223372036854775808 \<le> x \<Longrightarrow> x \<le> 9223372036854775807 \<Longrightarrow> as_i64 x = x"
  unfolding as_i64_def by (subst sint_sbintrunc') (simp add: signed_take_bit_int_eq_self)

lemma uint_as_u64: "0 \<le> x \<Longrightarrow> x \<le> 9223372036854775807 \<Longrightarrow> uint (as_u64 x) = x"
  by (simp add: as_u64_def uint_word_of_int)

lemma sint_small: "uint (a :: u64) \<le> 9223372036854775807 \<Longrightarrow> sint a = uint a"
  unfolding sint_uint
  by (intro signed_take_bit_int_eq_self order_trans [OF _ uint_ge_0]) simp_all

lemma as_u64_inj:
  "as_u64 x = a \<Longrightarrow> 0 \<le> x \<Longrightarrow> x \<le> 9223372036854775807 \<Longrightarrow> x = uint a"
  using uint_as_u64 by auto

section \<open>The remaining range\<close>

text \<open>A sequence of responses for one read.\<close>

fun updates :: "remaining_range \<Rightarrow> proto_range list \<Rightarrow> (read_error, remaining_range) result" where
  "updates st [] = Ok st"
| "updates st (r # rs) = (case remaining_update st r of Err e \<Rightarrow> Err e | Ok st' \<Rightarrow> updates st' rs)"

fun contiguous :: "int \<Rightarrow> proto_range list \<Rightarrow> bool" where
  "contiguous offset [] = True"
| "contiguous offset (r # rs) \<longleftrightarrow>
     pr_read_offset r = offset \<and> 0 \<le> pr_read_length r \<and> contiguous (offset + pr_read_length r) rs"

definition received :: "proto_range list \<Rightarrow> int" where
  "received rs = sum_list (map pr_read_length rs)"

definition i64_range :: "proto_range \<Rightarrow> bool" where
  "i64_range r \<longleftrightarrow>
     - 9223372036854775808 \<le> pr_read_offset r \<and> pr_read_offset r \<le> 9223372036854775807 \<and>
     - 9223372036854775808 \<le> pr_read_length r \<and> pr_read_length r \<le> 9223372036854775807"

lemma received_simps [simp]: "received [] = 0" "received (r # rs) = pr_read_length r + received rs"
  by (simp_all add: received_def)

lemma received_nonneg: "contiguous a rs \<Longrightarrow> 0 \<le> received rs"
  by (induction rs arbitrary: a) fastforce+

lemma from_proto_Ok:
  "from_proto r = Ok n \<longleftrightarrow> 0 \<le> pr_read_offset r \<and> 0 \<le> pr_read_length r \<and>
     n = \<lparr>nr_offset = pr_read_offset r,
          nr_length = (if pr_read_length r = 0 then None else Some (pr_read_length r))\<rparr>"
  by (auto simp: from_proto_def normalized_new_def with_length_def split: if_splits)

lemma normalized_update_Ok:
  "normalized_update n r = Ok n' \<Longrightarrow>
     pr_read_offset r = nr_offset n \<and> 0 \<le> pr_read_length r \<and>
     nr_offset n' = as_i64 (nr_offset n + pr_read_length r) \<and>
     (case nr_length n of
        None \<Rightarrow> nr_length n' = None
      | Some l \<Rightarrow> pr_read_length r = 0 \<and> nr_length n' = Some l \<or>
          pr_read_length r \<le> l \<and> nr_length n' = Some (l - pr_read_length r))"
  by (auto simp: normalized_update_def from_proto_Ok case_result_eq split: if_splits option.splits)

lemma updates_Normalized:
  assumes "updates (Normalized \<lparr>nr_offset = a, nr_length = Some l\<rparr>) rs = Ok st"
    and "0 \<le> a" "0 \<le> l" "a + l \<le> 9223372036854775807"
  shows "contiguous a rs \<and> received rs \<le> l \<and>
    st = Normalized \<lparr>nr_offset = a + received rs, nr_length = Some (l - received rs)\<rparr>"
  using assms
proof (induction rs arbitrary: a l)
  case (Cons r rs)
  from Cons.prems(1) obtain n where
    upd: "normalized_update \<lparr>nr_offset = a, nr_length = Some l\<rparr> r = Ok n" and rest: "updates (Normalized n) rs = Ok st"
    by (auto simp: remaining_update_def case_result_eq)
  from normalized_update_Ok [OF upd] have r: "pr_read_offset r = a" "0 \<le> pr_read_length r"
    "pr_read_length r \<le> l" and n: "n = \<lparr>nr_offset = a + pr_read_length r, nr_length = Some (l - pr_read_length r)\<rparr>"
    using Cons.prems(2-4) by (auto simp: as_i64_id intro!: normalized_range.equality)
  show ?case
    using Cons.IH [OF rest [unfolded n]] r Cons.prems by simp
qed simp

lemma updates_Segment:
  assumes "updates (Requested (RSegment offset limit)) rs = Ok st" "rs \<noteq> []"
    and "limit \<noteq> 0" "uint offset + uint limit \<le> 9223372036854775807" "list_all i64_range rs"
  shows "contiguous (uint offset) rs \<and> received rs \<le> uint limit \<and>
    st = Normalized \<lparr>nr_offset = uint offset + received rs, nr_length = Some (uint limit - received rs)\<rparr>"
proof -
  obtain r rs' where rs: "rs = r # rs'" using assms(2) by (cases rs) auto
  from assms(1) rs obtain n where n: "normalize (RSegment offset limit) r = Ok n"
    and upd: "updates (Normalized n) (r # rs') = Ok st"
    by (auto simp: remaining_update_def case_result_eq)
  have "uint (min limit (as_u64 9223372036854775807)) = uint limit"
    using assms(4) by (simp add: min_def word_le_def uint_as_u64) (use uint_ge_0 [of offset] in linarith)
  then have lim: "sint (min limit (as_u64 9223372036854775807)) = uint limit"
    using assms(4) uint_ge_0 [of offset] by (subst sint_small) linarith+
  from n assms(3) have "0 \<le> pr_read_offset r" "as_u64 (pr_read_offset r) = offset"
    and len: "n = \<lparr>nr_offset = pr_read_offset r, nr_length = Some (uint limit)\<rparr>"
    by (auto simp: normalize_def normalized_new_def with_length_def lim split: if_splits)
  moreover have "pr_read_offset r \<le> 9223372036854775807" using assms(5) rs by (simp add: i64_range_def)
  ultimately have "n = \<lparr>nr_offset = uint offset, nr_length = Some (uint limit)\<rparr>"
    using as_u64_inj by auto
  with upd show ?thesis
    unfolding rs using assms(4) by (intro updates_Normalized) simp_all
qed

section \<open>The worker's invariant\<close>

text \<open>
  The identifiers of the active ranges are distinct and below the next one, and no two active
  reads share a channel.
\<close>

definition worker_wf :: "worker \<Rightarrow> bool" where
  "worker_wf w \<longleftrightarrow>
     distinct (map fst (wk_ranges w)) \<and> 0 \<le> wk_next_range_id w \<and>
     (\<forall>i \<in> fst ` set (wk_ranges w). i < wk_next_range_id w) \<and>
     distinct (map (ar_sender \<circ> snd) (wk_ranges w))"

definition open_channels :: "worker \<Rightarrow> nat set" where
  "open_channels w = (ar_sender \<circ> snd) ` set (wk_ranges w)"

lemma send_item_sel [simp]:
  "wk_ranges (send_item w ch x) = wk_ranges w"
  "wk_next_range_id (send_item w ch x) = wk_next_range_id w"
  "wk_sent (send_item w ch x) c = wk_sent w c @ (if c = ch then [x] else [])"
  by (simp_all add: send_item_def)

lemma handler_send_sel [simp]:
  "wk_ranges (handler_send w h) = wk_ranges w"
  "wk_next_range_id (handler_send w h) = wk_next_range_id w"
  by (cases h; simp)+

lemma handle_data_sender: "handle_data c a d r fin = Ret (x, a') \<Longrightarrow> ar_sender a' = ar_sender a"
  by (cases "remaining_update (ar_state a) r")
    (auto simp: handle_data_def Let_def map_run_Ret_iff split: option.splits if_splits)

text \<open>The three outcomes of a piece of data.\<close>

lemma handle_range_data_cases:
  assumes "handle_range_data c w d = Ret (r, w')"
  obtains (rejected) e where "r = Err e" "w' = w" "\<forall>rg. rd_read_range d = Some rg \<longrightarrow> map_of (wk_ranges w) (pr_read_id rg) = None"
  | (failed) e rg a a' where "rd_read_range d = Some rg" "map_of (wk_ranges w) (pr_read_id rg) = Some a"
      "handle_data c a (rd_checksummed_data d) rg (rd_range_end d) = Ret (Err e, a')" "r = Err e"
      "w' = w\<lparr>wk_ranges := (if rd_range_end d then AList.delete (pr_read_id rg) (wk_ranges w)
             else AList.update (pr_read_id rg) a' (wk_ranges w))\<rparr>"
  | (handled) h rg a a' where "rd_read_range d = Some rg" "map_of (wk_ranges w) (pr_read_id rg) = Some a"
      "handle_data c a (rd_checksummed_data d) rg (rd_range_end d) = Ret (Ok h, a')" "r = Ok ()"
      "w' = handler_send (w\<lparr>wk_ranges := (if rd_range_end d then AList.delete (pr_read_id rg) (wk_ranges w)
             else AList.update (pr_read_id rg) a' (wk_ranges w))\<rparr>) h"
proof (cases "rd_read_range d")
  case None
  with assms show thesis by (intro rejected) (auto simp: handle_range_data_def)
next
  case (Some rg)
  show thesis
  proof (cases "map_of (wk_ranges w) (pr_read_id rg)")
    case None
    with assms Some show thesis by (intro rejected) (auto simp: handle_range_data_def)
  next
    case act: (Some a)
    with assms Some obtain x a' where x: "handle_data c a (rd_checksummed_data d) rg (rd_range_end d) = Ret (x, a')"
      by (auto simp: handle_range_data_def map_run_Ret_iff)
    with assms Some act show thesis
      by (cases x) (auto simp: handle_range_data_def Let_def intro: failed handled)
  qed
qed

lemma senders_update:
  "map_of rs i = Some a \<Longrightarrow> ar_sender a' = ar_sender a \<Longrightarrow> distinct (map fst rs) \<Longrightarrow>
     map (ar_sender \<circ> snd) (AList.update i a' rs) = map (ar_sender \<circ> snd) rs"
  by (induction rs) (auto split: if_splits)

lemma fst_update: "map_of rs i = Some a \<Longrightarrow> map fst (AList.update i a' rs) = map fst rs"
  by (induction rs) (auto split: if_splits)

lemma worker_wf_update:
  assumes "worker_wf w" "map_of (wk_ranges w) i = Some a" "ar_sender a' = ar_sender a"
  shows "worker_wf (w\<lparr>wk_ranges := AList.update i a' (wk_ranges w)\<rparr>)"
    "worker_wf (w\<lparr>wk_ranges := AList.delete i (wk_ranges w)\<rparr>)"
proof -
  note fsts = fst_update [OF assms(2), of a']
  have senders: "map (ar_sender \<circ> snd) (AList.update i a' (wk_ranges w)) = map (ar_sender \<circ> snd) (wk_ranges w)"
    using assms by (intro senders_update) (simp_all add: worker_wf_def)
  show "worker_wf (w\<lparr>wk_ranges := AList.update i a' (wk_ranges w)\<rparr>)"
    using assms(1) unfolding worker_wf_def image_set by (simp add: fsts senders)
  show "worker_wf (w\<lparr>wk_ranges := AList.delete i (wk_ranges w)\<rparr>)"
    using assms(1) by (auto simp: worker_wf_def AList.delete_eq intro: distinct_map_filter)
qed

lemma handle_range_data_wf:
  assumes "handle_range_data c w d = Ret (r, w')" "worker_wf w"
  shows "worker_wf w'"
  using assms(1)
proof (cases rule: handle_range_data_cases)
  case rejected
  with assms(2) show ?thesis by simp
next
  case (failed e rg a a')
  with assms(2) worker_wf_update [OF assms(2) failed(2) handle_data_sender [OF failed(3)]] show ?thesis
    by simp
next
  case (handled h rg a a')
  with worker_wf_update [OF assms(2) handled(2) handle_data_sender [OF handled(3)]] show ?thesis
    by (simp add: worker_wf_def)
qed

lemma handle_ranges_loop_induct:
  assumes "handle_ranges_loop c r w ds = Ret (r', w')" "P w"
    and "\<And>w d x w'. d \<in> set ds \<Longrightarrow> handle_range_data c w d = Ret (x, w') \<Longrightarrow> P w \<Longrightarrow> P w'"
  shows "P w'"
  using assms
proof (induction ds arbitrary: r w)
  case (Cons d ds)
  from Cons.prems(1) obtain x v where x: "handle_range_data c w d = Ret (x, v)"
    and rest: "handle_ranges_loop c (case x of Ok _ \<Rightarrow> r | Err e \<Rightarrow> (case r of Ok _ \<Rightarrow> Err e | Err e0 \<Rightarrow> Err e0)) v ds = Ret (r', w')"
    by (auto simp: bind_run_Ret_iff)
  show ?case
    by (rule Cons.IH [OF rest]) (use Cons.prems x in \<open>auto intro: Cons.prems(3)\<close>)
qed auto

lemma interrupted_fold:
  "wk_sent (fold (\<lambda>(_, a) w'. interrupted e w' a) rs w) c =
     wk_sent w c @ map (\<lambda>_. Failed (UnrecoverableBidiReadInterrupt e)) (filter (\<lambda>(_, a). ar_sender a = c) rs)"
  "wk_next_range_id (fold (\<lambda>(_, a) w'. interrupted e w' a) rs w) = wk_next_range_id w"
  by (induction rs arbitrary: w) (auto simp: interrupted_def)

lemma filter_sender:
  "distinct (map (ar_sender \<circ> snd) rs) \<Longrightarrow> (i, a) \<in> set rs \<Longrightarrow>
     filter (\<lambda>(_, b). ar_sender b = ar_sender a) rs = [(i, a)]"
proof (induction rs)
  case (Cons x rs)
  show ?case
  proof (cases "x = (i, a)")
    case True
    with Cons.prems have "filter (\<lambda>(_, b). ar_sender b = ar_sender a) rs = []"
      by (force simp: filter_empty_conv)
    with True show ?thesis by simp
  next
    case False
    with Cons.prems have "(i, a) \<in> set rs" by simp
    moreover from this Cons.prems have "ar_sender (snd x) \<noteq> ar_sender a" by force
    ultimately show ?thesis using Cons by (simp add: split_def)
  qed
qed simp

lemma close_readers_facts:
  assumes "worker_wf w"
  shows "wk_ranges (close_readers e w) = []" "worker_wf (close_readers e w)"
    "(i, a) \<in> set (wk_ranges w) \<Longrightarrow> wk_sent (close_readers e w) (ar_sender a) =
       wk_sent w (ar_sender a) @ [Failed (UnrecoverableBidiReadInterrupt e)]"
    "c \<notin> open_channels w \<Longrightarrow> wk_sent (close_readers e w) c = wk_sent w c"
proof -
  have d: "distinct (map (ar_sender \<circ> snd) (wk_ranges w))" using assms by (simp add: worker_wf_def)
  show "wk_ranges (close_readers e w) = []" "worker_wf (close_readers e w)"
    using assms by (simp_all add: close_readers_def worker_wf_def interrupted_fold)
  show "wk_sent (close_readers e w) (ar_sender a) = wk_sent w (ar_sender a) @ [Failed (UnrecoverableBidiReadInterrupt e)]"
    if "(i, a) \<in> set (wk_ranges w)"
    using filter_sender [OF d that] by (simp add: close_readers_def interrupted_fold)
  show "wk_sent (close_readers e w) c = wk_sent w c" if "c \<notin> open_channels w"
    using that by (force simp: close_readers_def interrupted_fold open_channels_def filter_empty_conv)
qed

lemma handle_ranges_wf: "handle_ranges c w ds = Ret (r, w') \<Longrightarrow> worker_wf w \<Longrightarrow> worker_wf w'"
  by (auto simp: handle_ranges_def map_run_Ret_iff
      elim!: handle_ranges_loop_induct [where P = worker_wf] intro: handle_range_data_wf)

lemma handle_response_success_wf:
  assumes "handle_response_success c box w ds = Ret (r, w')" "worker_wf w"
  shows "worker_wf w'"
proof -
  from assms(1) obtain x v where x: "handle_ranges c w ds = Ret (x, v)"
    by (auto simp: handle_response_success_def map_run_Ret_iff)
  with assms handle_ranges_wf [OF x assms(2)] close_readers_facts(2) show ?thesis
    by (cases x) (auto simp: handle_response_success_def)
qed

lemma update_nonmem: "i \<notin> fst ` set rs \<Longrightarrow> AList.update i a rs = rs @ [(i, a)]"
  by (induction rs) auto

lemma insert_range_wf:
  assumes "worker_wf w" "ar_sender a \<notin> open_channels w" "wk_next_range_id w < 9223372036854775807"
  shows "worker_wf (fst (insert_range w a))"
    "open_channels (fst (insert_range w a)) = insert (ar_sender a) (open_channels w)"
    "map_of (wk_ranges (fst (insert_range w a))) = (map_of (wk_ranges w))(wk_next_range_id w \<mapsto> a)"
    "map_of (wk_ranges w) (wk_next_range_id w) = None"
proof -
  have new: "wk_next_range_id w \<notin> fst ` set (wk_ranges w)" using assms(1) by (auto simp: worker_wf_def)
  then have upd: "AList.update (wk_next_range_id w) a (wk_ranges w) = wk_ranges w @ [(wk_next_range_id w, a)]"
    by (rule update_nonmem)
  show "worker_wf (fst (insert_range w a))"
    "open_channels (fst (insert_range w a)) = insert (ar_sender a) (open_channels w)"
    using assms new by (auto simp: insert_range_def Let_def upd worker_wf_def open_channels_def as_i64_id)
  show "map_of (wk_ranges (fst (insert_range w a))) = (map_of (wk_ranges w))(wk_next_range_id w \<mapsto> a)"
    by (simp add: insert_range_def Let_def update_conv')
  show "map_of (wk_ranges w) (wk_next_range_id w) = None" using new by (simp add: map_of_eq_None_iff)
qed

lemma insert_ranges_wf:
  assumes "worker_wf w" "distinct (map ar_sender as)" "ar_sender ` set as \<inter> open_channels w = {}"
    and "wk_next_range_id w + int (length as) \<le> 9223372036854775807"
  shows "worker_wf (fst (insert_ranges w as))"
  using assms
proof (induction as arbitrary: w)
  case (Cons a as)
  obtain w' r where i: "insert_range w a = (w', r)" by fastforce
  with Cons.prems insert_range_wf(1,2) [of w a]
  have "worker_wf w'" "open_channels w' = insert (ar_sender a) (open_channels w)" by auto
  moreover have "wk_next_range_id w' = wk_next_range_id w + 1"
    using i Cons.prems(1,4) by (auto simp: insert_range_def Let_def as_i64_id worker_wf_def)
  ultimately have "worker_wf (fst (insert_ranges w' as))" using Cons.prems by (intro Cons.IH) auto
  with i show ?case by (simp add: split_def)
qed simp

lemma worker_step_wf:
  assumes "worker_step c box cn k w ev = Ret (ex, k', w')" "worker_wf w"
    and "\<And>as. ev = NewReads as \<Longrightarrow> distinct (map ar_sender as) \<and> ar_sender ` set as \<inter> open_channels w = {} \<and>
      wk_next_range_id w + int (length as) \<le> 9223372036854775807"
  shows "worker_wf w'"
proof (cases ev)
  case (Message ds)
  with assms show ?thesis by (auto simp: map_run_Ret_iff dest: handle_response_success_wf)
next
  case (StreamError status)
  obtain r a where "connector_reconnect cn k status (pending_ranges w) = (r, a)" by fastforce
  with StreamError assms show ?thesis
    by (cases r) (auto simp: worker_reconnect_def map_run_Ret_iff close_readers_facts dest: handle_response_success_wf)
next
  case (NewReads as)
  with assms insert_ranges_wf show ?thesis by auto
qed (use assms in auto)

section \<open>Bad responses\<close>

text \<open>An active range that the data does not end stays active, on the same channel.\<close>

lemma handle_range_data_keeps:
  assumes "handle_range_data c w d = Ret (x, w')"
    and "\<And>rg. rd_read_range d = Some rg \<Longrightarrow> rd_range_end d \<Longrightarrow> pr_read_id rg \<noteq> i"
    and "\<exists>a. map_of (wk_ranges w) i = Some a \<and> ar_sender a = ch"
  shows "\<exists>a. map_of (wk_ranges w') i = Some a \<and> ar_sender a = ch"
  using assms(1)
proof (cases rule: handle_range_data_cases)
  case rejected
  with assms(3) show ?thesis by simp
next
  case (failed e rg a a')
  with assms(2,3) handle_data_sender [OF failed(3)] show ?thesis
    by (auto simp: update_conv' delete_conv')
next
  case (handled h rg a a')
  with assms(2,3) handle_data_sender [OF handled(3)] show ?thesis
    by (auto simp: update_conv' delete_conv')
qed

lemma bad_response_reaches_reader:
  assumes "handle_response_success c box w ds = Ret (Err e, w')" "worker_wf w"
    and "map_of (wk_ranges w) i = Some a"
    and "\<And>d rg. d \<in> set ds \<Longrightarrow> rd_read_range d = Some rg \<Longrightarrow> rd_range_end d \<Longrightarrow> pr_read_id rg \<noteq> i"
  shows "wk_ranges w' = [] \<and>
    (\<exists>items. wk_sent w' (ar_sender a) = items @ [Failed (UnrecoverableBidiReadInterrupt (loop_error_source box e))])"
proof -
  from assms(1) obtain x v where x: "handle_ranges c w ds = Ret (x, v)"
    by (auto simp: handle_response_success_def map_run_Ret_iff)
  with assms(1) have xe: "x = Err e" and w': "w' = close_readers (loop_error_source box e) v"
    by (cases x; auto simp: handle_response_success_def)+
  from x obtain r where loop: "handle_ranges_loop c (Ok ()) w ds = Ret (r, v)"
    by (auto simp: handle_ranges_def map_run_Ret_iff)
  have "\<exists>b. map_of (wk_ranges v) i = Some b \<and> ar_sender b = ar_sender a"
    by (rule handle_ranges_loop_induct [OF loop]) (use assms(3,4) handle_range_data_keeps in \<open>blast+\<close>)
  then obtain b where "(i, b) \<in> set (wk_ranges v)" "ar_sender b = ar_sender a"
    by (auto dest: map_of_SomeD)
  with close_readers_facts(1,3) [OF handle_ranges_wf [OF x assms(2)]] w' show ?thesis by metis
qed

lemma ended_range_not_notified:
  assumes "worker_wf w" "map_of (wk_ranges w) (pr_read_id rg) = Some a"
    and "rd_read_range d = Some rg" "rd_range_end d"
    and "handle_data c a (rd_checksummed_data d) rg True = Ret (Err e, a')"
  shows "\<exists>w'. handle_response_success c box w [d] = Ret (Err (BadResponse e), w') \<and>
    ar_sender a \<notin> open_channels w' \<and> wk_sent w' (ar_sender a) = wk_sent w (ar_sender a)"
proof -
  let ?v = "w\<lparr>wk_ranges := AList.delete (pr_read_id rg) (wk_ranges w)\<rparr>"
  let ?w = "close_readers (loop_error_source box (BadResponse e)) ?v"
  have resp: "handle_response_success c box w [d] = Ret (Err (BadResponse e), ?w)"
    using assms by (simp add: handle_response_success_def handle_ranges_def handle_range_data_def)
  have "(pr_read_id rg, a) \<in> set (wk_ranges w)" using assms(2) by (rule map_of_SomeD)
  then have "b = a" if "(i, b) \<in> set (wk_ranges w)" "ar_sender b = ar_sender a" for i b
    using that assms(1) by (force simp: worker_wf_def distinct_map inj_on_def)
  moreover have "i = pr_read_id rg" if "(i, a) \<in> set (wk_ranges w)" for i
    using that \<open>(pr_read_id rg, a) \<in> set (wk_ranges w)\<close> assms(1)
    by (force simp: worker_wf_def distinct_map inj_on_def)
  ultimately have closed: "ar_sender a \<notin> open_channels ?v"
    by (auto simp: open_channels_def AList.delete_eq)
  have "worker_wf ?v" using worker_wf_update(2) [OF assms(1,2) refl] .
  from close_readers_facts(1,4) [OF this] closed resp show ?thesis
    by (simp add: open_channels_def)
qed

lemma worker_run_append:
  assumes "worker_run c box cn k w evs = Ret (Running, w')"
  shows "\<exists>k'. worker_run c box cn k w (evs @ later) = worker_run c box cn k' w' later"
  using assms
proof (induction evs arbitrary: k w)
  case (Cons ev evs)
  from Cons.prems obtain ex k' v where st: "worker_step c box cn k w ev = Ret (ex, k', v)"
    by (auto simp: bind_run_Ret_iff)
  with Cons.prems have "ex = Running" by (cases ex) auto
  with st Cons show ?case by auto
qed auto

section \<open>Properties\<close>

text \<open>
  C16. Progress of a segment read: whatever sequence of responses the worker accepts for the bytes
  \<open>offset .. offset + limit\<close>, the responses are contiguous from \<open>offset\<close>, they never exceed
  the limit, and while a byte is missing the range that is sent when the stream is resumed means, as the
  library reads ranges, exactly the part that was not received. After the last byte its length is zero,
  which means no limit.
\<close>

theorem segment_read_progress:
  assumes "updates (Requested (RSegment offset limit)) rs = Ok st" "rs \<noteq> []"
    and "limit \<noteq> 0" "uint offset + uint limit \<le> 9223372036854775807" "list_all i64_range rs"
  shows "contiguous (uint offset) rs \<and> received rs \<le> uint limit \<and>
    pr_read_id (remaining_as_proto st i) = i \<and>
    from_proto (remaining_as_proto st i) =
      Ok \<lparr>nr_offset = uint offset + received rs,
          nr_length = (if received rs < uint limit then Some (uint limit - received rs) else None)\<rparr>"
proof -
  from updates_Segment [OF assms] have r: "contiguous (uint offset) rs" "received rs \<le> uint limit"
    and st: "st = Normalized \<lparr>nr_offset = uint offset + received rs, nr_length = Some (uint limit - received rs)\<rparr>" by auto
  from r(1) have "0 \<le> received rs" by (rule received_nonneg)
  with r st uint_ge_0 [of offset] show ?thesis by (auto simp: normalized_as_proto_def from_proto_Ok)
qed

lemma segment_read_progress_witness:
  "\<exists>st. updates (Requested (RSegment 100 50))
       [\<lparr>pr_read_id = 1, pr_read_offset = 100, pr_read_length = 20\<rparr>,
        \<lparr>pr_read_id = 1, pr_read_offset = 120, pr_read_length = 10\<rparr>] = Ok st \<and>
     from_proto (remaining_as_proto st 1) = Ok \<lparr>nr_offset = 130, nr_length = Some 20\<rparr>"
proof -
  let ?rs = "[\<lparr>pr_read_id = 1, pr_read_offset = 100, pr_read_length = 20\<rparr>,
        \<lparr>pr_read_id = 1, pr_read_offset = 120, pr_read_length = 10\<rparr>]"
  have h: "updates (Requested (RSegment 100 50)) ?rs =
      Ok (Normalized \<lparr>nr_offset = 130, nr_length = Some 20\<rparr>)"
    by (simp add: remaining_update_def normalize_def as_u64_def normalized_new_def with_length_def
        normalized_update_def from_proto_def as_i64_def min_def)
  from segment_read_progress [OF h, of 1] h show ?thesis by (simp add: i64_range_def)
qed

text \<open>
  C40. Every step of the worker keeps its bookkeeping sound: the identifiers of the active ranges
  stay distinct and below the next one to be given out, and no two active reads share a channel, so
  that data is never delivered to the wrong reader. New reads come on channels of their own, and their
  identifiers do not overflow the \<open>i64\<close> counter.
\<close>

theorem worker_step_preserves_wf:
  assumes "worker_step crc32c box cn k w ev = Ret (ex, k', w')" "worker_wf w"
    and "\<And>as. ev = NewReads as \<Longrightarrow> distinct (map ar_sender as) \<and> ar_sender ` set as \<inter> open_channels w = {} \<and>
      wk_next_range_id w + int (length as) \<le> 9223372036854775807"
  shows "worker_wf w'"
  by (rule worker_step_wf [OF assms])

definition sample_read :: active_read where
  "sample_read = active_read_new 7 (RSegment 0 100)"

definition sample_connector :: "unit connector" where
  "sample_connector =
     \<lparr>cn_attempt = (\<lambda>k s rs. Ok []), cn_error = (\<lambda>_. unavailable), cn_policy = always_resume,
      cn_redirect_detail = (\<lambda>_. False)\<rparr>"

lemma sample_worker_sel:
  "wk_ranges (worker_new [sample_read]) = [(0, sample_read)]"
  "wk_sent (worker_new [sample_read]) = (\<lambda>_. [])"
  "wk_next_range_id (worker_new [sample_read]) = 1"
  "ar_sender sample_read = 7" "open_channels (worker_new [sample_read]) = {7}"
  by (simp_all add: worker_new_def sample_read_def active_read_new_def open_channels_def as_i64_def)

lemma sample_worker_wf: "worker_wf (worker_new [sample_read])"
  by (simp add: worker_wf_def worker_new_def as_i64_def)

lemma worker_step_preserves_wf_witness:
  "worker_wf (fst (insert_ranges (worker_new [sample_read]) [active_read_new 8 (ROffset 5)]))"
  by (rule worker_step_preserves_wf [of "\<lambda>_. 0" "\<lambda>_. MsgError []" sample_connector 0 "worker_new [sample_read]"
        "NewReads [active_read_new 8 (ROffset 5)]" Running 0])
    (simp_all add: sample_worker_wf sample_worker_sel active_read_new_def)

text \<open>
  An invalid response is reported to the readers: when the worker rejects a response, every
  reader whose range the response did not end gets the error as the last item of its channel, and no
  range stays active.
\<close>

theorem invalid_response_interrupts_readers:
  assumes "handle_response_success crc32c box w ds = Ret (Err e, w')" "worker_wf w"
    and "map_of (wk_ranges w) i = Some a"
    and "\<And>d rg. d \<in> set ds \<Longrightarrow> rd_read_range d = Some rg \<Longrightarrow> rd_range_end d \<Longrightarrow> pr_read_id rg \<noteq> i"
  shows "wk_ranges w' = [] \<and>
    (\<exists>items. wk_sent w' (ar_sender a) =
       items @ [Failed (UnrecoverableBidiReadInterrupt (loop_error_source box e))])"
  by (rule bad_response_reaches_reader [OF assms])

lemma invalid_response_interrupts_readers_witness:
  "\<exists>w' items. handle_response_success (\<lambda>_. 0) (\<lambda>_. MsgError []) (worker_new [sample_read])
      [\<lparr>rd_checksummed_data = None, rd_read_range = None, rd_range_end = False\<rparr>] =
      Ret (Err (BadResponse (InvalidBidiStreamingReadResponse ''missing range'')), w') \<and>
    wk_sent w' 7 = items @ [Failed (UnrecoverableBidiReadInterrupt (io (MsgError [])))]"
proof -
  have "\<exists>w'. handle_response_success (\<lambda>_. 0) (\<lambda>_. MsgError []) (worker_new [sample_read])
      [\<lparr>rd_checksummed_data = None, rd_read_range = None, rd_range_end = False\<rparr>] =
      Ret (Err (BadResponse (InvalidBidiStreamingReadResponse ''missing range'')), w')"
    by (simp add: handle_response_success_def handle_ranges_def handle_range_data_def)
  then obtain w' where h: "handle_response_success (\<lambda>_. 0) (\<lambda>_. MsgError []) (worker_new [sample_read])
      [\<lparr>rd_checksummed_data = None, rd_read_range = None, rd_range_end = False\<rparr>] =
      Ret (Err (BadResponse (InvalidBidiStreamingReadResponse ''missing range'')), w')" by blast
  have a: "map_of (wk_ranges (worker_new [sample_read])) 0 = Some sample_read" by (simp add: sample_worker_sel)
  from invalid_response_interrupts_readers [OF h sample_worker_wf a] h show ?thesis
    by (simp add: sample_read_def active_read_new_def)
qed

text \<open>
  The reader whose range a bad response ends is not told: if the data with the end marker is
  rejected (too short, out of order or with a bad checksum) the read was already removed, so its
  channel is closed with no error on it, and a reader without checksums sees a normal end of data.
\<close>

theorem rejected_range_end_looks_complete:
  assumes "worker_wf w" "map_of (wk_ranges w) (pr_read_id rg) = Some a"
    and "rd_read_range d = Some rg" "rd_range_end d"
    and "handle_data crc32c a (rd_checksummed_data d) rg True = Ret (Err e, a')"
  shows "\<exists>w'. handle_response_success crc32c box w [d] = Ret (Err (BadResponse e), w') \<and>
    ar_sender a \<notin> open_channels w' \<and> wk_sent w' (ar_sender a) = wk_sent w (ar_sender a) \<and>
    fst (reader_next None \<lparr>rr_exhausted = False, rr_received = b\<rparr> None) = None"
  using ended_range_not_notified [OF assms, of box] by (simp add: reader_next_def)

lemma rejected_range_end_looks_complete_witness:
  "\<exists>w'. handle_response_success (\<lambda>_. 0) (\<lambda>_. MsgError []) (worker_new [sample_read])
      [\<lparr>rd_checksummed_data = None,
        rd_read_range = Some \<lparr>pr_read_id = 0, pr_read_offset = 0, pr_read_length = 0\<rparr>, rd_range_end = True\<rparr>] =
      Ret (Err (BadResponse (ShortRead 100)), w') \<and> 7 \<notin> open_channels w' \<and> wk_sent w' 7 = []"
proof -
  have d: "\<exists>a'. handle_data (\<lambda>_. 0) sample_read None \<lparr>pr_read_id = 0, pr_read_offset = 0, pr_read_length = 0\<rparr> True =
      Ret (Err (ShortRead 100), a')"
    by (simp add: handle_data_def sample_read_def active_read_new_def remaining_update_def normalize_def
        as_u64_def normalized_new_def with_length_def normalized_update_def from_proto_def as_i64_def
        min_def normalized_handle_empty_def Let_def)
  then obtain a' where d': "handle_data (\<lambda>_. 0) sample_read None
      \<lparr>pr_read_id = 0, pr_read_offset = 0, pr_read_length = 0\<rparr> True = Ret (Err (ShortRead 100), a')" by blast
  from rejected_range_end_looks_complete [OF sample_worker_wf, where
      rg = "\<lparr>pr_read_id = 0, pr_read_offset = 0, pr_read_length = 0\<rparr>" and a = sample_read and
      crc32c = "\<lambda>_. 0" and e = "ShortRead 100" and a' = a' and box = "\<lambda>_. MsgError []" and
      d = "\<lparr>rd_checksummed_data = None,
        rd_read_range = Some \<lparr>pr_read_id = 0, pr_read_offset = 0, pr_read_length = 0\<rparr>, rd_range_end = True\<rparr>"]
    d' show ?thesis by (simp add: sample_worker_sel) blast
qed

text \<open>
  When the service closes the stream while reads are in progress, the worker ends without an
  error, whatever happened before: every channel is closed with nothing but the items sent until
  then on it, and the worker takes no more reads.
\<close>

theorem stream_end_drops_reads:
  assumes "worker_run crc32c box cn k w evs = Ret (Running, w')"
  shows "worker_run crc32c box cn k w (evs @ StreamEnd # later) = Ret (Done, w'\<lparr>wk_ranges := []\<rparr>) \<and>
    open_channels (w'\<lparr>wk_ranges := []\<rparr>) = {} \<and> wk_sent (w'\<lparr>wk_ranges := []\<rparr>) = wk_sent w'"
  using worker_run_append [OF assms, of "StreamEnd # later"] by (auto simp: open_channels_def)

lemma stream_end_drops_reads_witness:
  "worker_run (\<lambda>_. 0) (\<lambda>_. MsgError []) sample_connector 0 (worker_new []) ([NewReads [sample_read]] @ [StreamEnd]) =
     Ret (Done, (fst (insert_ranges (worker_new []) [sample_read]))\<lparr>wk_ranges := []\<rparr>) \<and>
   open_channels (fst (insert_ranges (worker_new []) [sample_read])) = {7}"
  using stream_end_drops_reads [of "\<lambda>_. 0" "\<lambda>_. MsgError []" sample_connector 0 "worker_new []"
      "[NewReads [sample_read]]" "fst (insert_ranges (worker_new []) [sample_read])" "[]"]
  by (simp add: insert_range_def worker_new_def open_channels_def sample_read_def active_read_new_def Let_def)

end
