(* ===== verification/Storage_Download.thy ===== *)
theory Storage_Download
  imports Storage_Read Well_Known_Types "HOL-Library.Sublist"
begin

text \<open>
  Downloads of Cloud Storage objects over HTTP: the range of a request and its header
  (\<open>storage/src/model_ext.rs\<close>, \<open>read_object.rs\<close>), the range announced by a
  response (\<open>read_object/resumable.rs\<close>, \<open>parse_http_response.rs\<close>), the response that
  resumes interrupted downloads, and the running checksums (\<open>checksum/details.rs\<close>).

  The body of a response is the list of the chunks or errors the HTTP client will return; the call
  that opens a response is a function on the world. The positions are natural numbers: the code
  never advances past the announced end. The CRC32C step and the MD5 digest are parameters.
\<close>

section \<open>Requests\<close>

record read_request =
  rq_read_offset :: int
  rq_read_limit :: int
  rq_generation :: int

definition clamp_i64 :: "u64 \<Rightarrow> int" where
  "clamp_i64 v = uint (min v (as_u64 9223372036854775807))"

fun with_range :: "read_request \<Rightarrow> requested_range \<Rightarrow> read_request" where
  "with_range self (ROffset o') = self\<lparr>rq_read_offset := clamp_i64 o'\<rparr>"
| "with_range self (RTail t) = self\<lparr>rq_read_offset := - clamp_i64 t\<rparr>"
| "with_range self (RSegment offset limit) =
     self\<lparr>rq_read_offset := clamp_i64 offset, rq_read_limit := clamp_i64 limit\<rparr>"

text \<open>The \<open>range\<close> header of \<open>http_request_builder\<close>.\<close>

definition range_header :: "int \<Rightarrow> int \<Rightarrow> string option run" where
  "range_header o' l =
     (if l < 0 then Panic
      else if o' < 0 \<and> l > 0 then Panic
      else if o' = 0 \<and> l = 0 then Ret None
      else if l = 0 \<and> o' < 0 then Ret (Some (''bytes='' @ idec o'))
      else if l = 0 then Ret (Some (''bytes='' @ idec o' @ ''-''))
      else Ret (Some (''bytes='' @ idec o' @ ''-'' @ idec (as_i64 (o' + l - 1)))))"

section \<open>Responses\<close>

text \<open>Headers with their values; \<open>None\<close> is a value that is not visible ASCII.\<close>

type_synonym read_headers = "(string \<times> string option) list"

definition required_header :: "read_headers \<Rightarrow> string \<Rightarrow> (read_error, string) result" where
  "required_header headers name =
     (case map_of headers name of
        None \<Rightarrow> Err (MissingHeader name)
      | Some None \<Rightarrow> Err (BadHeaderFormat name ''failed to convert header to a str'')
      | Some (Some v) \<Rightarrow> Ok v)"

text \<open>\<open>str::parse::<u64>\<close>, which accepts a leading plus sign.\<close>

definition parse_u64 :: "string \<Rightarrow> (string, nat) result" where
  "parse_u64 s =
     (let ds = (case s of c # cs \<Rightarrow> if c = CHR ''+'' then cs else s | [] \<Rightarrow> s)
      in if s = [] then Err ''cannot parse integer from empty string''
         else if ds = [] \<or> \<not> list_all is_ascii_digit ds then Err ''invalid digit found in string''
         else if digits_value ds < 2 ^ 64 then Ok (digits_value ds)
         else Err ''number too large to fit in target type'')"

definition read_limit :: "string \<Rightarrow> read_headers \<Rightarrow> (read_error, nat) result" where
  "read_limit name headers =
     (case required_header headers name of
        Err e \<Rightarrow> Err e
      | Ok h \<Rightarrow> (case parse_u64 h of Ok v \<Rightarrow> Ok v | Err e \<Rightarrow> Err (BadHeaderFormat name e)))"

definition split_once :: "char \<Rightarrow> string \<Rightarrow> (string \<times> string) option" where
  "split_once c s =
     (case splitn2 c s of (a, Some b) \<Rightarrow> Some (a, b) | (_, None) \<Rightarrow> None)"

definition strip_prefix :: "string \<Rightarrow> string \<Rightarrow> string option" where
  "strip_prefix p s = (if take (length p) s = p then Some (drop (length p) s) else None)"

text \<open>The range \<open>bytes start-end/size\<close>; the end is inclusive and \<open>end + 1\<close> is 64-bit.\<close>

definition parse_content_range :: "string \<Rightarrow> (read_error, nat \<times> nat) result" where
  "parse_content_range header =
     (case strip_prefix ''bytes '' header of
        None \<Rightarrow> Err (BadHeaderFormat ''content-range'' ''missing bytes prefix'')
      | Some h \<Rightarrow>
          (case split_once CHR ''/'' h of
             None \<Rightarrow> Err (BadHeaderFormat ''content-range'' ''missing / separator'')
           | Some (rg, _) \<Rightarrow>
               (case split_once CHR ''-'' rg of
                  None \<Rightarrow> Err (BadHeaderFormat ''content-range'' ''missing - separator'')
                | Some (first, fin) \<Rightarrow>
                    (case parse_u64 first of
                       Err e \<Rightarrow> Err (BadHeaderFormat ''content-range'' e)
                     | Ok s \<Rightarrow>
                         (case parse_u64 fin of
                            Err e \<Rightarrow> Err (BadHeaderFormat ''content-range'' e)
                          | Ok f \<Rightarrow>
                              (let e = (f + 1) mod 2 ^ 64
                               in if s \<le> e then Ok (s, e - s)
                                  else Err (BadHeaderFormat ''content-range''
                                    (''range start ('' @ dec s @
                                     '') should be less than or equal to the range end ('' @ dec e @ '')''))))))))"

definition response_range :: "nat \<Rightarrow> read_headers \<Rightarrow> (read_error, nat \<times> nat) result" where
  "response_range status headers =
     (if status = 200 then
        (case (read_limit ''content-length'' headers, read_limit ''x-goog-stored-content-length'' headers) of
           (Ok limit, _) \<Rightarrow> Ok (0, limit)
         | (Err _, Ok limit) \<Rightarrow> Ok (0, limit)
         | (Err e, Err (MissingHeader _)) \<Rightarrow> Err e
         | (Err (MissingHeader _), Err e) \<Rightarrow> Err e
         | (Err e, Err _) \<Rightarrow> Err e)
      else if status = 206 then
        (case required_header headers ''content-range'' of
           Err e \<Rightarrow> Err e
         | Ok header \<Rightarrow> parse_content_range header)
      else Err (UnexpectedSuccessCode status))"

section \<open>Checksums\<close>

record object_checksums =
  oc_crc32c :: "u32 option"
  oc_md5_hash :: bytes

definition checksums_new :: object_checksums where
  "checksums_new = \<lparr>oc_crc32c = None, oc_md5_hash = []\<rparr>"

definition checksums_update :: "object_checksums \<Rightarrow> object_checksums \<Rightarrow> object_checksums" where
  "checksums_update known computed =
     \<lparr>oc_crc32c = (case oc_crc32c known of Some c \<Rightarrow> Some c | None \<Rightarrow> oc_crc32c computed),
      oc_md5_hash = (if oc_md5_hash known = [] then oc_md5_hash computed else oc_md5_hash known)\<rparr>"

definition validate :: "object_checksums \<Rightarrow> object_checksums option \<Rightarrow> (checksum_mismatch, unit) result" where
  "validate expected recv_opt =
     (case recv_opt of
        None \<Rightarrow> Ok ()
      | Some recv \<Rightarrow>
          (let crc32c = (case (oc_crc32c expected, oc_crc32c recv) of
                 (Some e, Some r) \<Rightarrow> (if e \<noteq> r then Some (r, e) else None)
               | _ \<Rightarrow> None);
               md5 = (let e = oc_md5_hash expected; r = oc_md5_hash recv
                      in if e = [] \<or> r = [] \<or> e = r then None else Some (r, e))
           in case (crc32c, md5) of
                (None, None) \<Rightarrow> Ok ()
              | (Some (got, want), None) \<Rightarrow> Err (Crc32cMismatch got want)
              | (None, Some (got, want)) \<Rightarrow> Err (Md5Mismatch got want)
              | (Some (cg, cw), Some (mg, mw)) \<Rightarrow> Err (BothMismatch (cg, mg) (cw, mw))))"

record crc32c_state =
  crc_checksum :: u32
  crc_offset :: nat

record md5_state =
  md5_hasher :: bytes
  md5_offset :: nat

record checksum =
  ck_crc32c :: "crc32c_state option"
  ck_md5_hash :: "md5_state option"

text \<open>
  \<open>checked_update\<close>: data that starts at or before the current position and reaches past it is
  consumed from the current position on, everything else is ignored. The result is the new position
  and the data to consume.
\<close>

definition checked_update :: "nat \<Rightarrow> nat \<Rightarrow> bytes \<Rightarrow> nat \<times> bytes option" where
  "checked_update current offset data =
     (let fin = offset + length data
      in if offset \<le> current \<and> current < fin then (fin, Some (drop (current - offset) data))
         else (current, None))"

definition crc32c_update :: "(u32 \<Rightarrow> bytes \<Rightarrow> u32) \<Rightarrow> crc32c_state \<Rightarrow> nat \<Rightarrow> bytes \<Rightarrow> crc32c_state" where
  "crc32c_update crc32c_append self offset data =
     (case checked_update (crc_offset self) offset data of
        (pos, Some d) \<Rightarrow> \<lparr>crc_checksum = crc32c_append (crc_checksum self) d, crc_offset = pos\<rparr>
      | (pos, None) \<Rightarrow> self\<lparr>crc_offset := pos\<rparr>)"

definition md5_update :: "md5_state \<Rightarrow> nat \<Rightarrow> bytes \<Rightarrow> md5_state" where
  "md5_update self offset data =
     (case checked_update (md5_offset self) offset data of
        (pos, Some d) \<Rightarrow> \<lparr>md5_hasher = md5_hasher self @ d, md5_offset = pos\<rparr>
      | (pos, None) \<Rightarrow> self\<lparr>md5_offset := pos\<rparr>)"

definition checksum_update :: "(u32 \<Rightarrow> bytes \<Rightarrow> u32) \<Rightarrow> checksum \<Rightarrow> nat \<Rightarrow> bytes \<Rightarrow> checksum" where
  "checksum_update crc32c_append self offset data =
     \<lparr>ck_crc32c = map_option (\<lambda>c. crc32c_update crc32c_append c offset data) (ck_crc32c self),
      ck_md5_hash = map_option (\<lambda>m. md5_update m offset data) (ck_md5_hash self)\<rparr>"

definition checksum_finalize :: "(bytes \<Rightarrow> bytes) \<Rightarrow> checksum \<Rightarrow> object_checksums" where
  "checksum_finalize md5_digest self =
     \<lparr>oc_crc32c = map_option crc_checksum (ck_crc32c self),
      oc_md5_hash = (case ck_md5_hash self of Some m \<Rightarrow> md5_digest (md5_hasher m) | None \<Rightarrow> [])\<rparr>"

definition checksums_from_response ::
  "(read_headers \<Rightarrow> u32 option) \<Rightarrow> (read_headers \<Rightarrow> bytes) \<Rightarrow> bool \<Rightarrow> nat \<Rightarrow> read_headers \<Rightarrow> object_checksums" where
  "checksums_from_response headers_to_crc32c headers_to_md5_hash full_content_requested status headers =
     (if \<not> full_content_requested \<or> status = 206 then checksums_new
      else
        (let get = (\<lambda>name. case map_of headers name of Some (Some v) \<Rightarrow> v | _ \<Rightarrow> []);
             stored_encoding = get ''x-goog-stored-content-encoding'';
             content_encoding = get ''content-encoding''
         in if stored_encoding = ''gzip'' \<and> content_encoding \<noteq> ''gzip'' then checksums_new
            else \<lparr>oc_crc32c = headers_to_crc32c headers, oc_md5_hash = headers_to_md5_hash headers\<rparr>))"

section \<open>Resumable responses\<close>

datatype chunk_event = ChunkOk bytes | ChunkErr box_error

record response =
  resp_status :: nat
  resp_headers :: read_headers
  resp_body :: "chunk_event list"

record resumable =
  rs_request :: read_request
  rs_checksum :: checksum
  rs_response :: "chunk_event list option"
  rs_response_checksums :: object_checksums
  rs_start :: nat
  rs_limit :: nat
  rs_generation :: int
  rs_resume_count :: u32

text \<open>
  What the response needs of its surroundings: \<open>Reader::read\<close>, the resume policy, the checksum
  functions and the boxing of a \<open>ReadError\<close>.
\<close>

record 'w download_env =
  de_read :: "read_request \<Rightarrow> 'w \<Rightarrow> (error, response) result \<times> 'w"
  de_policy :: read_resume_policy
  de_crc32c_append :: "u32 \<Rightarrow> bytes \<Rightarrow> u32"
  de_md5_digest :: "bytes \<Rightarrow> bytes"
  de_crc32c_header :: "read_headers \<Rightarrow> u32 option"
  de_md5_header :: "read_headers \<Rightarrow> bytes"
  de_box :: "read_error \<Rightarrow> box_error"

definition response_generation ::
  "(string \<Rightarrow> (string, int) result) \<Rightarrow> read_headers \<Rightarrow> (read_error, int) result" where
  "response_generation parse_i64 headers =
     (case required_header headers ''x-goog-generation'' of
        Err e \<Rightarrow> Err e
      | Ok h \<Rightarrow> (case parse_i64 h of Ok g \<Rightarrow> Ok g | Err e \<Rightarrow> Err (BadHeaderFormat ''x-goog-generation'' e)))"

text \<open>\<open>ResumableResponse::new\<close>: checksums the service did not send are not computed.\<close>

definition resumable_new ::
  "'w download_env \<Rightarrow> (string \<Rightarrow> (string, int) result) \<Rightarrow> read_request \<Rightarrow> checksum \<Rightarrow> response \<Rightarrow>
   (error, resumable) result" where
  "resumable_new env parse_i64 request ck resp =
     (let full = rq_read_offset request = 0 \<and> rq_read_limit request = 0;
          headers = resp_headers resp;
          sums = checksums_from_response (de_crc32c_header env) (de_md5_header env) full (resp_status resp) headers
      in case response_range (resp_status resp) headers of
           Err e \<Rightarrow> Err (deser (de_box env e))
         | Ok (start', limit) \<Rightarrow>
             (case response_generation parse_i64 headers of
                Err e \<Rightarrow> Err (deser (de_box env e))
              | Ok gen \<Rightarrow>
                  Ok \<lparr>rs_request = request,
                      rs_checksum =
                        \<lparr>ck_crc32c = (if oc_crc32c sums = None then None else ck_crc32c ck),
                         ck_md5_hash = (if oc_md5_hash sums = [] then None else ck_md5_hash ck)\<rparr>,
                      rs_response = Some (resp_body resp), rs_response_checksums = sums,
                      rs_start = start', rs_limit = limit, rs_generation = gen, rs_resume_count = 0\<rparr>))"

text \<open>\<open>next_attempt\<close>: one chunk of the current response; the outer \<open>None\<close> is the end.\<close>

definition next_attempt ::
  "'w download_env \<Rightarrow> resumable \<Rightarrow> (error, bytes) result option \<times> resumable" where
  "next_attempt env self =
     (case rs_response self of
        None \<Rightarrow> (None, self)
      | Some (ChunkOk chunk # rest) \<Rightarrow>
          (let self' = self\<lparr>rs_response := Some rest,
                 rs_checksum := checksum_update (de_crc32c_append env) (rs_checksum self) (rs_start self) chunk\<rparr>;
               len = length chunk
           in if rs_limit self < len
              then (Some (Err (deser (de_box env (LongRead (of_nat len) (of_nat (rs_limit self)))))), self')
              else (Some (Ok chunk),
                    self'\<lparr>rs_limit := rs_limit self - len, rs_start := rs_start self + len\<rparr>))
      | Some [] \<Rightarrow>
          (if rs_limit self \<noteq> 0
           then (Some (Err (io (de_box env (ShortRead (of_nat (rs_limit self)))))), self)
           else
             (case validate (rs_response_checksums self)
                     (Some (checksum_finalize (de_md5_digest env) (rs_checksum self))) of
                Err e \<Rightarrow> (Some (Err (deser (de_box env (ChecksumMismatch e)))), self)
              | Ok _ \<Rightarrow> (None, self)))
      | Some (ChunkErr e # rest) \<Rightarrow> (Some (Err (io e)), self\<lparr>rs_response := Some rest\<rparr>))"

definition resume_request :: "resumable \<Rightarrow> read_request" where
  "resume_request self =
     \<lparr>rq_read_offset = as_i64 (int (rs_start self)), rq_read_limit = as_i64 (int (rs_limit self)),
      rq_generation = rs_generation self\<rparr>"

text \<open>
  \<open>next\<close> with \<open>resume\<close> inlined in its error branch, as the two call each other: the fuel
  bounds the number of resumes, and \<open>None\<close> is "still resuming".
\<close>

fun download_next ::
  "nat \<Rightarrow> 'w download_env \<Rightarrow> resumable \<Rightarrow> 'w \<Rightarrow> ((error, bytes) result option \<times> resumable \<times> 'w) option" where
  "download_next 0 env self w = None"
| "download_next (Suc fuel) env self w =
     (case next_attempt env self of
        (None, self') \<Rightarrow> Some (None, self', w)
      | (Some (Ok b), self') \<Rightarrow> Some (Some (Ok b), self', w)
      | (Some (Err e), self') \<Rightarrow>
          (let count = rs_resume_count self' + 1;
               self1 = self'\<lparr>rs_response := None, rs_resume_count := count\<rparr>
           in case de_policy env count e of
                Permanent e' \<Rightarrow> Some (Some (Err e'), self1, w)
              | Exhausted e' \<Rightarrow> Some (Some (Err e'), self1, w)
              | Continue _ \<Rightarrow>
                  (let request = resume_request self1; self2 = self1\<lparr>rs_request := request\<rparr>
                   in case de_read env request w of
                        (Ok r, w') \<Rightarrow> download_next fuel env (self2\<lparr>rs_response := Some (resp_body r)\<rparr>) w'
                      | (Err e', w') \<Rightarrow> Some (Some (Err e'), self2, w'))))"

text \<open>
  An application that reads until the end or the first error: \<open>(data, True)\<close> is a download that
  ended normally. The first fuel bounds the chunks.
\<close>

fun download_all ::
  "nat \<Rightarrow> nat \<Rightarrow> 'w download_env \<Rightarrow> resumable \<Rightarrow> 'w \<Rightarrow> (bytes \<times> bool) option" where
  "download_all 0 fuel env self w = None"
| "download_all (Suc n) fuel env self w =
     (case download_next fuel env self w of
        None \<Rightarrow> None
      | Some (None, _, _) \<Rightarrow> Some ([], True)
      | Some (Some (Err _), _, _) \<Rightarrow> Some ([], False)
      | Some (Some (Ok b), self', w') \<Rightarrow>
          (case download_all n fuel env self' w' of
             None \<Rightarrow> None
           | Some (bs, ok) \<Rightarrow> Some (b @ bs, ok)))"

section \<open>Facts: checksums\<close>

text \<open>
  Feeding pieces of one object, in any order and with repetitions, consumes each byte at most once:
  the consumed data is always a prefix of the object.
\<close>

lemma checked_update_prefix:
  assumes "data = take (length data) (drop offset content)" "offset + length data \<le> length content"
    and "checked_update current offset data = (pos, d)" "current \<le> length content"
  shows "pos \<le> length content \<and> current \<le> pos \<and>
    take pos content = take current content @ (case d of Some x \<Rightarrow> x | None \<Rightarrow> [])"
proof (cases "offset \<le> current \<and> current < offset + length data")
  case True
  with assms(3) have pos: "pos = offset + length data" and d: "d = Some (drop (current - offset) data)"
    by (auto simp: checked_update_def Let_def)
  have "drop (current - offset) data = drop (current - offset) (take (length data) (drop offset content))"
    using assms(1) by simp
  also have "\<dots> = drop current (take pos content)"
    using True by (simp add: pos drop_take add.commute)
  finally have piece: "drop (current - offset) data = drop current (take pos content)" .
  have "take pos content = take current (take pos content) @ drop current (take pos content)"
    by (rule append_take_drop_id [symmetric])
  with piece True pos d assms(2) show ?thesis by (simp add: min_def)
next
  case False
  with assms(3,4) show ?thesis by (auto simp: checked_update_def Let_def)
qed

fun pieces_of :: "bytes \<Rightarrow> (nat \<times> bytes) list \<Rightarrow> bool" where
  "pieces_of content [] = True"
| "pieces_of content ((offset, data) # ps) \<longleftrightarrow>
     data = take (length data) (drop offset content) \<and> offset + length data \<le> length content \<and>
     pieces_of content ps"

text \<open>The end of the data seen so far, and sequences that never skip ahead of it.\<close>

fun reach :: "nat \<Rightarrow> (nat \<times> bytes) list \<Rightarrow> nat" where
  "reach hi [] = hi"
| "reach hi ((offset, data) # ps) = reach (max hi (offset + length data)) ps"

fun gapless :: "nat \<Rightarrow> (nat \<times> bytes) list \<Rightarrow> bool" where
  "gapless hi [] = True"
| "gapless hi ((offset, data) # ps) \<longleftrightarrow> offset \<le> hi \<and> gapless (max hi (offset + length data)) ps"

lemma checked_update_gapless:
  assumes "offset \<le> current" "current \<le> length content"
    and "data = take (length data) (drop offset content)" "offset + length data \<le> length content"
  obtains (skip) "checked_update current offset data = (current, None)"
      "max current (offset + length data) = current"
  | (consume) d where "checked_update current offset data = (max current (offset + length data), Some d)"
      "take (max current (offset + length data)) content = take current content @ d"
proof (cases "current < offset + length data")
  case True
  obtain pos d where c: "checked_update current offset data = (pos, d)" by fastforce
  with True assms(1) have "pos = max current (offset + length data)" "d = Some (drop (current - offset) data)"
    by (auto simp: checked_update_def Let_def)
  with c checked_update_prefix [OF assms(3,4) c assms(2)] show thesis by (intro consume) auto
next
  case False
  with assms(1) show thesis by (intro skip) (auto simp: checked_update_def Let_def)
qed

definition checksum_state :: "(u32 \<Rightarrow> bytes \<Rightarrow> u32) \<Rightarrow> bytes \<Rightarrow> nat \<Rightarrow> checksum" where
  "checksum_state app content pos =
     \<lparr>ck_crc32c = Some \<lparr>crc_checksum = app 0 (take pos content), crc_offset = pos\<rparr>,
      ck_md5_hash = Some \<lparr>md5_hasher = take pos content, md5_offset = pos\<rparr>\<rparr>"

lemma checksum_pieces:
  assumes "\<And>c a b. app (app c a) b = app c (a @ b)"
    and "pieces_of content ps" "gapless pos ps" "pos \<le> length content"
  shows "fold (\<lambda>(o', d) ck. checksum_update app ck o' d) ps (checksum_state app content pos) =
    checksum_state app content (reach pos ps)"
  using assms(2-)
proof (induction ps arbitrary: pos)
  case (Cons p ps)
  obtain offset data where p: "p = (offset, data)" by fastforce
  let ?pos = "max pos (offset + length data)"
  have facts: "offset \<le> pos" "pos \<le> length content" "data = take (length data) (drop offset content)"
    "offset + length data \<le> length content"
    using Cons.prems p by auto
  have "checksum_update app (checksum_state app content pos) offset data =
      checksum_state app content ?pos"
    using facts
    by (cases rule: checked_update_gapless)
      (auto simp: checksum_update_def checksum_state_def crc32c_update_def md5_update_def assms(1))
  with Cons p show ?case by simp
qed simp

section \<open>Facts: downloads\<close>

text \<open>
  A body that holds the bytes of \<open>content\<close> from a position on: chunks in order, until an error
  or the end of the body, however many there are.
\<close>

fun serves_from :: "bytes \<Rightarrow> nat \<Rightarrow> chunk_event list \<Rightarrow> bool" where
  "serves_from content pos [] = True"
| "serves_from content pos (ChunkErr e # rest) = True"
| "serves_from content pos (ChunkOk b # rest) \<longleftrightarrow>
     b = take (length b) (drop pos content) \<and>
     serves_from content (pos + length b) rest"

definition download_inv :: "bytes \<Rightarrow> resumable \<Rightarrow> bool" where
  "download_inv content self \<longleftrightarrow> (\<exists>body. rs_response self = Some body \<and> serves_from content (rs_start self) body)"

text \<open>A service that answers a request with the bytes from the requested offset on.\<close>

definition serves :: "bytes \<Rightarrow> 'w download_env \<Rightarrow> bool" where
  "serves content env \<longleftrightarrow>
     (\<forall>rq w r w'. de_read env rq w = (Ok r, w') \<longrightarrow> serves_from content (nat (rq_read_offset rq)) (resp_body r))"

lemma next_attempt_cases:
  assumes "download_inv content self"
  obtains (fin) "next_attempt env self = (None, self)" "rs_limit self = 0"
  | (chunk) b self' where "next_attempt env self = (Some (Ok b), self')" "download_inv content self'"
      "length b \<le> rs_limit self" "rs_limit self' = rs_limit self - length b"
      "rs_start self' = rs_start self + length b" "b = take (length b) (drop (rs_start self) content)"
      "rs_resume_count self' = rs_resume_count self"
  | (failed) e self' where "next_attempt env self = (Some (Err e), self')"
      "rs_limit self' = rs_limit self" "rs_start self' = rs_start self"
      "rs_resume_count self' = rs_resume_count self"
proof -
  from assms obtain body where body: "rs_response self = Some body" "serves_from content (rs_start self) body"
    by (auto simp: download_inv_def)
  show thesis
  proof (cases body)
    case Nil
    show thesis
    proof (cases "validate (rs_response_checksums self)
        (Some (checksum_finalize (de_md5_digest env) (rs_checksum self)))")
      case (Err e)
      with Nil body show thesis
        by (cases "rs_limit self = 0") (auto simp: next_attempt_def intro: fin failed)
    next
      case (Ok u)
      with Nil body show thesis
        by (cases "rs_limit self = 0") (auto simp: next_attempt_def intro: fin failed)
    qed
  next
    case (Cons ev rest)
    show thesis
    proof (cases ev)
      case (ChunkOk b)
      show thesis
      proof (cases "rs_limit self < length b")
        case True
        with ChunkOk Cons body have "next_attempt env self =
            (Some (Err (deser (de_box env (LongRead (of_nat (length b)) (of_nat (rs_limit self)))))),
             self\<lparr>rs_response := Some rest,
               rs_checksum := checksum_update (de_crc32c_append env) (rs_checksum self) (rs_start self) b\<rparr>)"
          by (simp add: next_attempt_def Let_def)
        then show thesis by (rule failed) simp_all
      next
        case False
        with ChunkOk Cons body have "next_attempt env self = (Some (Ok b),
             self\<lparr>rs_response := Some rest,
               rs_checksum := checksum_update (de_crc32c_append env) (rs_checksum self) (rs_start self) b,
               rs_limit := rs_limit self - length b, rs_start := rs_start self + length b\<rparr>)"
          by (simp add: next_attempt_def Let_def)
        then show thesis by (rule chunk) (use False ChunkOk Cons body in \<open>auto simp: download_inv_def\<close>)
      qed
    next
      case (ChunkErr e)
      with Cons body have "next_attempt env self = (Some (Err (io e)), self\<lparr>rs_response := Some rest\<rparr>)"
        by (simp add: next_attempt_def)
      then show thesis by (rule failed) simp_all
    qed
  qed
qed

lemma download_next_inv:
  assumes "serves content env"
  shows "download_next fuel env self w = Some (r, self', w') \<Longrightarrow> download_inv content self \<Longrightarrow> rs_start self < 2 ^ 63 \<Longrightarrow>
    (case r of
       None \<Rightarrow> rs_limit self = 0
     | Some (Ok b) \<Rightarrow> download_inv content self' \<and> length b \<le> rs_limit self \<and>
         rs_limit self' = rs_limit self - length b \<and> rs_start self' = rs_start self + length b \<and>
         b = take (length b) (drop (rs_start self) content)
     | Some (Err _) \<Rightarrow> True)"
proof (induction fuel arbitrary: self w)
  case (Suc fuel)
  from Suc.prems(2) show ?case
  proof (cases rule: next_attempt_cases [of content self env])
    case fin
    with Suc.prems show ?thesis by simp
  next
    case (chunk b v)
    with Suc.prems show ?thesis by auto
  next
    case (failed e v)
    define v1 where "v1 = v\<lparr>rs_response := None, rs_resume_count := rs_resume_count v + 1\<rparr>"
    show ?thesis
    proof (cases "de_policy env (rs_resume_count v + 1) e")
      case (Continue e')
      obtain x v' where x: "de_read env (resume_request v1) w = (x, v')" by fastforce
      show ?thesis
      proof (cases x)
        case (Err e'')
        with Suc.prems failed Continue x show ?thesis by (auto simp: Let_def v1_def)
      next
        case (Ok resp)
        let ?s = "v1\<lparr>rs_request := resume_request v1, rs_response := Some (resp_body resp)\<rparr>"
        have "serves_from content (rs_start v) (resp_body resp)"
          using assms x Ok Suc.prems(3) failed(3) unfolding serves_def by (fastforce simp: resume_request_def v1_def as_i64_id)
        then have inv: "download_inv content ?s" by (simp add: download_inv_def v1_def)
        have "download_next fuel env ?s v' = Some (r, self', w')"
          using Suc.prems(1) failed Continue x Ok by (simp add: Let_def v1_def)
        note IH = Suc.IH [OF this inv]
        have "rs_limit ?s = rs_limit self" "rs_start ?s = rs_start self" using failed by (simp_all add: v1_def)
        with IH Suc.prems(3) show ?thesis by (simp only:)
      qed
    qed (use Suc.prems failed in \<open>auto simp: Let_def\<close>)
  qed
qed simp

lemma download_all_exact:
  assumes "serves content env"
  shows "download_all n fuel env self w = Some (data, True) \<Longrightarrow> download_inv content self \<Longrightarrow>
    rs_start self + rs_limit self < 2 ^ 63 \<Longrightarrow>
    data = take (rs_limit self) (drop (rs_start self) content) \<and> length data = rs_limit self"
proof (induction n arbitrary: self w data)
  case (Suc n)
  from Suc.prems(1) obtain r v w' where nx: "download_next fuel env self w = Some (r, v, w')"
    by (auto split: option.splits)
  have "rs_start self < 2 ^ 63" using Suc.prems(3) by simp
  note inv = download_next_inv [OF assms nx Suc.prems(2) this]
  show ?case
  proof (cases r)
    case None
    with Suc.prems(1) inv nx show ?thesis by simp
  next
    case (Some x)
    with Suc.prems(1) nx obtain b bs where x: "x = Ok b" "download_all n fuel env v w' = Some (bs, True)"
      "data = b @ bs"
      by (cases x) (auto split: option.splits)
    with Suc.IH [OF x(2)] inv Some Suc.prems(3) have
      bs: "bs = take (rs_limit self - length b) (drop (rs_start self + length b) content)"
        "length bs = rs_limit self - length b" "length b \<le> rs_limit self"
        "b = take (length b) (drop (rs_start self) content)"
      by auto
    have "take (rs_limit self) (drop (rs_start self) content) =
        take (length b) (drop (rs_start self) content) @
        take (rs_limit self - length b) (drop (length b) (drop (rs_start self) content))"
      using bs(3) by (metis le_add_diff_inverse take_add)
    with bs x show ?thesis by (simp add: add.commute)
  qed
qed simp

lemma resume_limit_Continue: "resume_attempt_limit p n k e = Continue e' \<Longrightarrow> k < n"
  by (auto simp: resume_attempt_limit_def split: retry_result.splits if_splits)

lemma download_next_returns:
  assumes "de_policy env = resume_attempt_limit p n"
  shows "rs_resume_count self = 0 \<or> rs_resume_count self < n \<Longrightarrow>
    unat n \<le> unat (rs_resume_count self) + fuel \<Longrightarrow>
    \<exists>out. download_next (Suc fuel) env self w = Some out"
proof (induction fuel arbitrary: self w)
  case 0
  then have stop: "\<not> rs_resume_count self + 1 < n" by (auto simp: word_less_nat_alt unat_eq_0)
  obtain r v where r: "next_attempt env self = (r, v)" by fastforce
  have "rs_resume_count v = rs_resume_count self"
    using r by (auto simp: next_attempt_def Let_def split: option.splits list.splits chunk_event.splits if_splits result.splits)
  with r stop show ?case
    by (auto simp: assms Let_def split: option.splits result.splits retry_result.splits prod.splits
        dest: resume_limit_Continue)
next
  case (Suc fuel)
  obtain r v where r: "next_attempt env self = (r, v)" by fastforce
  have count: "rs_resume_count v = rs_resume_count self"
    using r by (auto simp: next_attempt_def Let_def split: option.splits list.splits chunk_event.splits if_splits result.splits)
  have step: "\<exists>out. download_next (Suc fuel) env s w' = Some out"
    if "rs_resume_count s = rs_resume_count self + 1" "rs_resume_count self + 1 < n" for s w'
  proof (rule Suc.IH)
    have "unat (rs_resume_count self + 1) = Suc (unat (rs_resume_count self))"
      using Suc.prems(1) by (auto intro: unat_Suc_word)
    with that Suc.prems(2) show "unat n \<le> unat (rs_resume_count s) + fuel" by simp
    show "rs_resume_count s = 0 \<or> rs_resume_count s < n" using that by simp
  qed
  show ?case
    using r count step
    by (auto simp: assms Let_def simp del: download_next.simps(2) simp add: download_next.simps(2) [of "Suc fuel"]
        split: option.splits result.splits retry_result.splits prod.splits dest: resume_limit_Continue)
qed

section \<open>Properties\<close>

text \<open>
  C3. A resumed download is exact: if every response of the service holds the object's bytes from
  the requested offset on, then a download that ends normally, after any number of interruptions,
  short bodies and resumes, delivered exactly the announced range, with no byte lost or repeated.
  The announced range ends below \<open>2 ^ 63\<close>, so that the offsets of resumed requests survive their
  casts to \<open>i64\<close>.
\<close>

theorem download_exact:
  assumes "resumable_new env parse_i64 request ck resp = Ok self"
    and "serves_from content (rs_start self) (resp_body resp)"
    and "\<And>rq w r w'. de_read env rq w = (Ok r, w') \<Longrightarrow>
           serves_from content (nat (rq_read_offset rq)) (resp_body r)"
    and "download_all n fuel env self w = Some (data, True)"
    and "rs_start self + rs_limit self < 2 ^ 63"
  shows "data = take (rs_limit self) (drop (rs_start self) content) \<and> length data = rs_limit self"
proof (rule download_all_exact [OF _ assms(4) _ assms(5)])
  show "serves content env" using assms(3) by (auto simp: serves_def)
  have "rs_response self = Some (resp_body resp)"
    using assms(1) by (auto simp: resumable_new_def Let_def split: result.splits)
  with assms(2) show "download_inv content self" by (simp add: download_inv_def)
qed

definition sample_env :: "bytes \<Rightarrow> nat download_env" where
  "sample_env content =
     \<lparr>de_read = (\<lambda>rq w. (Ok \<lparr>resp_status = 206, resp_headers = [],
          resp_body = [ChunkOk (take 2 (drop (nat (rq_read_offset rq)) content))]\<rparr>, w + 1)),
      de_policy = resume_attempt_limit always_resume 3,
      de_crc32c_append = (\<lambda>c bs. c + sum_list (map ucast bs)), de_md5_digest = (\<lambda>bs. bs),
      de_crc32c_header = (\<lambda>_. None), de_md5_header = (\<lambda>_. []), de_box = (\<lambda>_. MsgError [])\<rparr>"

definition sample_response :: "bytes \<Rightarrow> response" where
  "sample_response content =
     \<lparr>resp_status = 200, resp_headers = [(''content-length'', Some ''4''), (''x-goog-generation'', Some ''9'')],
      resp_body = [ChunkOk (take 2 content), ChunkErr (MsgError ''reset'')]\<rparr>"

definition sample_request :: read_request where
  "sample_request = \<lparr>rq_read_offset = 0, rq_read_limit = 0, rq_generation = 0\<rparr>"

lemma download_exact_witness:
  "\<exists>self. resumable_new (sample_env [1, 2, 3, 4]) (\<lambda>_. Ok 9) sample_request
       \<lparr>ck_crc32c = None, ck_md5_hash = None\<rparr> (sample_response [1, 2, 3, 4]) = Ok self \<and>
     download_all 5 4 (sample_env [1, 2, 3, 4]) self 0 = Some ([1, 2, 3, 4], True) \<and>
     [1, 2, 3, 4] = take (rs_limit self) (drop (rs_start self) [1, 2, 3, 4 :: u8])"
proof -
  let ?c = "[1, 2, 3, 4 :: u8]"
  let ?self = "\<lparr>rs_request = sample_request, rs_checksum = \<lparr>ck_crc32c = None, ck_md5_hash = None\<rparr>,
      rs_response = Some (resp_body (sample_response ?c)), rs_response_checksums = checksums_new,
      rs_start = 0, rs_limit = 4, rs_generation = 9, rs_resume_count = 0\<rparr>"
  have new: "resumable_new (sample_env ?c) (\<lambda>_. Ok 9) sample_request
       \<lparr>ck_crc32c = None, ck_md5_hash = None\<rparr> (sample_response ?c) = Ok ?self"
    by (simp add: resumable_new_def sample_env_def sample_response_def sample_request_def
        response_generation_def response_range_def read_limit_def required_header_def parse_u64_def
        digits_value_def is_ascii_digit_def checksums_from_response_def checksums_new_def Let_def)
  have lim: "\<not> (3 :: u32) \<le> 1" by (simp add: word_le_nat_alt)
  have all: "download_all 5 4 (sample_env ?c) ?self 0 = Some (?c, True)"
    by (simp add: eval_nat_numeral next_attempt_def sample_env_def sample_response_def Let_def
        checksum_update_def validate_def checksum_finalize_def checksums_new_def resume_request_def
        resume_attempt_limit_def always_resume_def lim as_i64_id)
  have serves: "serves_from ?c (nat (rq_read_offset rq)) (resp_body r)"
    if "de_read (sample_env ?c) rq w = (Ok r, w')" for rq w r w'
    using that by (auto simp: sample_env_def min_def)
  have "serves_from ?c (rs_start ?self) (resp_body (sample_response ?c))"
    by (simp add: sample_response_def)
  from download_exact [OF new this serves all] new all show ?thesis by auto
qed

text \<open>
  With an attempt limit on the resume policy, asking for the next chunk returns: after at most
  \<open>n\<close> resumes there is a chunk, the end of the data or an error, whatever the service does.
\<close>

theorem download_next_terminates:
  assumes "de_policy env = resume_attempt_limit p n"
    and "resumable_new env parse_i64 request ck resp = Ok self"
  shows "\<exists>out. download_next (Suc (unat n)) env self w = Some out"
proof -
  have "rs_resume_count self = 0"
    using assms(2) by (auto simp: resumable_new_def Let_def split: result.splits)
  then show ?thesis by (intro download_next_returns [OF assms(1)]) simp_all
qed

lemma download_next_terminates_witness:
  "\<exists>self out. resumable_new (sample_env [1, 2, 3, 4]) (\<lambda>_. Ok 9) sample_request
       \<lparr>ck_crc32c = None, ck_md5_hash = None\<rparr> (sample_response [1, 2, 3, 4]) = Ok self \<and>
     download_next (Suc (unat (3 :: u32))) (sample_env [1, 2, 3, 4]) self 0 = Some out"
proof -
  have pol: "de_policy (sample_env [1, 2, 3, 4]) = resume_attempt_limit always_resume 3"
    by (simp add: sample_env_def)
  have "\<exists>self. resumable_new (sample_env [1, 2, 3, 4]) (\<lambda>_. Ok 9) sample_request
       \<lparr>ck_crc32c = None, ck_md5_hash = None\<rparr> (sample_response [1, 2, 3, 4]) = Ok self"
    by (simp add: resumable_new_def sample_env_def sample_response_def sample_request_def
        response_generation_def response_range_def read_limit_def required_header_def parse_u64_def
        digits_value_def is_ascii_digit_def checksums_from_response_def checksums_new_def Let_def)
  then show ?thesis using download_next_terminates [OF pol] by blast
qed

text \<open>
  Checksums count every byte once: if pieces of one object are fed with their offsets and none
  starts beyond the data already seen, then, however much of it is sent again after a seek, the
  checksums are those of the object's prefix up to the last byte seen.
\<close>

theorem checksums_count_once:
  assumes "\<And>c a b. crc32c_append (crc32c_append c a) b = crc32c_append c (a @ b)"
    and "crc32c_append 0 [] = 0"
    and "pieces_of content ps" "gapless 0 ps"
  shows "checksum_finalize md5_digest
      (fold (\<lambda>(offset, data) ck. checksum_update crc32c_append ck offset data) ps
        \<lparr>ck_crc32c = Some \<lparr>crc_checksum = 0, crc_offset = 0\<rparr>,
         ck_md5_hash = Some \<lparr>md5_hasher = [], md5_offset = 0\<rparr>\<rparr>) =
    \<lparr>oc_crc32c = Some (crc32c_append 0 (take (reach 0 ps) content)),
     oc_md5_hash = md5_digest (take (reach 0 ps) content)\<rparr>"
proof -
  have "\<lparr>ck_crc32c = Some \<lparr>crc_checksum = 0, crc_offset = 0\<rparr>,
       ck_md5_hash = Some \<lparr>md5_hasher = [], md5_offset = 0\<rparr>\<rparr> = checksum_state crc32c_append content 0"
    by (simp add: checksum_state_def assms(2))
  then show ?thesis
    using checksum_pieces [OF assms(1,3,4)] by (simp add: checksum_finalize_def checksum_state_def)
qed

lemma checksums_count_once_witness:
  "checksum_finalize (\<lambda>bs. bs)
      (fold (\<lambda>(offset, data) ck. checksum_update (\<lambda>c bs. c + sum_list (map ucast bs)) ck offset data)
        [(0, [1, 2]), (1, [2, 3]), (0, [1])]
        \<lparr>ck_crc32c = Some \<lparr>crc_checksum = 0, crc_offset = 0\<rparr>,
         ck_md5_hash = Some \<lparr>md5_hasher = [], md5_offset = 0\<rparr>\<rparr>) =
    \<lparr>oc_crc32c = Some 6, oc_md5_hash = [1, 2, 3]\<rparr>"
  using checksums_count_once [of "\<lambda>c bs. c + sum_list (map ucast bs)" "[1, 2, 3, 4]"
      "[(0, [1, 2]), (1, [2, 3]), (0, [1])]" "\<lambda>bs. bs"]
  by simp

text \<open>
  A download whose connection fails after the last byte but before the end of the body asks for
  the rest of the object: the remaining length is zero, which the request takes as "no limit".
\<close>

theorem resume_after_last_byte_is_unbounded:
  assumes "rs_limit self = 0" "0 < rs_start self" "rs_start self < 2 ^ 63"
  shows "range_header (rq_read_offset (resume_request self)) (rq_read_limit (resume_request self)) =
    Ret (Some (''bytes='' @ dec (rs_start self) @ ''-''))"
  using assms by (simp add: range_header_def resume_request_def idec_def as_i64_id)

lemma resume_after_last_byte_is_unbounded_witness:
  "range_header (rq_read_offset (resume_request
      \<lparr>rs_request = sample_request, rs_checksum = \<lparr>ck_crc32c = None, ck_md5_hash = None\<rparr>,
       rs_response = None, rs_response_checksums = checksums_new,
       rs_start = 5, rs_limit = 0, rs_generation = 9, rs_resume_count = 0\<rparr>)) 0 =
    Ret (Some (''bytes='' @ dec 5 @ ''-''))"
  using resume_after_last_byte_is_unbounded [of
      "\<lparr>rs_request = sample_request, rs_checksum = \<lparr>ck_crc32c = None, ck_md5_hash = None\<rparr>,
       rs_response = None, rs_response_checksums = checksums_new,
       rs_start = 5, rs_limit = 0, rs_generation = 9, rs_resume_count = 0\<rparr>"]
  by (simp add: resume_request_def as_i64_id)

end
