(* ===== verification/Pubsub_Publisher.thy ===== *)
theory Pubsub_Publisher
  imports Rpc_Error "HOL-Library.Multiset" "HOL-Library.Sublist"
begin

text \<open>
  The Pub/Sub publisher, \<open>pubsub/src/publisher\<close>: batches (\<open>batch.rs\<close>), the sequential
  actor that publishes the messages of one ordering key and the concurrent actor for messages
  without one (\<open>actor.rs\<close>), and the dispatcher in front of them.

  Messages carry the number of the oneshot channel of their \<open>PublishFuture\<close>. What happens to
  a channel is its \<open>fate\<close>: a value was sent on it, or it was dropped. An actor is a record of
  the locals of its \<open>run\<close> loop, with a log of what it did to the outside: calls started, calls
  finished, resumes, fates of channels and acknowledged flushes. The branches of its
  \<open>select!\<close> are events; a step is partial, for branches that are disabled. The outcome of a call is
  a parameter: the generated client and the service decide it.
\<close>

section \<open>Messages and batches\<close>

record message =
  msg_data :: "u8 list"
  msg_attributes :: "(string \<times> string) list"
  msg_ordering_key :: string

record bundled_message =
  bm_msg :: message
  bm_tx :: nat

record batching_options =
  message_count_threshold :: u32
  byte_threshold :: u32
  delay_threshold :: duration

definition MAX_DELAY :: duration where "MAX_DELAY = from_secs (60 * 60 * 24)"
definition MAX_MESSAGES :: u32 where "MAX_MESSAGES = 1000"
definition MAX_BYTES :: u32 where "MAX_BYTES = 10000000"

definition batching_options_default :: batching_options where
  "batching_options_default = \<lparr>message_count_threshold = 100, byte_threshold = 1000000,
     delay_threshold = from_millis 10\<rparr>"

text \<open>What the builder of a publisher does to the options it is given.\<close>

definition clamp_options :: "batching_options \<Rightarrow> batching_options" where
  "clamp_options opts = \<lparr>
     message_count_threshold = min (message_count_threshold opts) MAX_MESSAGES,
     byte_threshold = min (byte_threshold opts) MAX_BYTES,
     delay_threshold = min (delay_threshold opts) MAX_DELAY\<rparr>"

record batch =
  messages :: "bundled_message list"
  initial_size :: u32
  messages_byte_size :: u32
  batch_opts :: batching_options

definition batch_new :: "u32 \<Rightarrow> batching_options \<Rightarrow> batch" where
  "batch_new n opts = \<lparr>messages = [], initial_size = n, messages_byte_size = n,
     batch_opts = opts\<rparr>"

definition batch_is_empty :: "batch \<Rightarrow> bool" where
  "batch_is_empty b = (messages b = [])"

definition batch_len :: "batch \<Rightarrow> nat" where
  "batch_len b = length (messages b)"

definition batch_size :: "batch \<Rightarrow> u32" where
  "batch_size b = messages_byte_size b"

definition message_size :: "message \<Rightarrow> nat" where
  "message_size m =
     foldl (\<lambda>acc (k, v). acc + length k + length v)
       (length (msg_data m) + length (msg_ordering_key m)) (msg_attributes m)"

definition batch_push :: "batch \<Rightarrow> bundled_message \<Rightarrow> batch" where
  "batch_push b m = b\<lparr>
     messages_byte_size := messages_byte_size b + of_nat (message_size (bm_msg m)),
     messages := messages b @ [m]\<rparr>"

definition at_threshold :: "batch \<Rightarrow> bool" where
  "at_threshold b \<longleftrightarrow>
     message_count_threshold (batch_opts b) \<le> of_nat (batch_len b) \<or>
     byte_threshold (batch_opts b) \<le> batch_size b"

definition can_add :: "batch \<Rightarrow> bundled_message \<Rightarrow> bool" where
  "can_add b m \<longleftrightarrow> batch_size b + of_nat (message_size (bm_msg m)) \<le> byte_threshold (batch_opts b)"

definition drain_messages :: "batch \<Rightarrow> message list \<times> nat list \<times> batch" where
  "drain_messages b =
     (map bm_msg (messages b), map bm_tx (messages b),
      b\<lparr>messages_byte_size := initial_size b, messages := []\<rparr>)"

section \<open>Futures and calls\<close>

datatype publish_error = PublishRpc error | OrderingKeyPaused | PublishShutdown

datatype fate = Sent "(publish_error, string) result" | Dropped

text \<open>What \<open>PublishFuture::poll\<close> makes of the fate of its channel.\<close>

fun publish_future_poll :: "fate \<Rightarrow> (publish_error, string) result" where
  "publish_future_poll (Sent r) = r"
| "publish_future_poll Dropped = Err PublishShutdown"

text \<open>\<open>zip\<close> stops at the shorter list; the senders that are left over are dropped.\<close>

definition batch_resolve_publish_futures ::
  "(error, string list) result \<Rightarrow> nat list \<Rightarrow> (nat \<times> fate) list \<times> (error, unit) result" where
  "batch_resolve_publish_futures resp txs =
     (case resp of
        Err e \<Rightarrow> (map (\<lambda>tx. (tx, Sent (Err (PublishRpc e)))) txs, Err (io (GaxError e)))
      | Ok ids \<Rightarrow>
          (map (\<lambda>(tx, i). (tx, Sent (Ok i))) (zip txs ids) @
             map (\<lambda>tx. (tx, Dropped)) (drop (length ids) txs),
           Ok ()))"

text \<open>A task of the \<open>JoinSet\<close>: the n-th call of the actor. The task may also panic, which
  drops its senders.\<close>

record publish_task =
  task_rpc :: nat
  task_msgs :: "message list"
  task_txs :: "nat list"

datatype rpc_outcome = Answered "(error, string list) result" | TaskPanicked

type_synonym publish_client = "nat \<Rightarrow> message list \<Rightarrow> rpc_outcome"

datatype join_result = JoinError | Joined "(error, unit) result"

definition run_task :: "publish_client \<Rightarrow> publish_task \<Rightarrow> (nat \<times> fate) list \<times> join_result" where
  "run_task client t =
     (case client (task_rpc t) (task_msgs t) of
        TaskPanicked \<Rightarrow> (map (\<lambda>tx. (tx, Dropped)) (task_txs t), JoinError)
      | Answered resp \<Rightarrow>
          (case batch_resolve_publish_futures resp (task_txs t) of
             (fates, r) \<Rightarrow> (fates, Joined r)))"

fun join_failed :: "join_result \<Rightarrow> bool" where
  "join_failed JoinError = True"
| "join_failed (Joined (Err _)) = True"
| "join_failed (Joined (Ok _)) = False"

datatype batch_actor_cmd = Publish bundled_message | Flush nat | ResumePublish

datatype trace_event = Started publish_task | Finished publish_task join_result | Resumed

section \<open>The sequential actor\<close>

record seq_actor =
  pending_msgs :: "bundled_message list"
  paused :: bool
  sq_batch :: batch
  sq_inflight :: "publish_task list"
  sq_timer :: "duration option"
  sq_stopped :: bool
  sq_trace :: "trace_event list"
  sq_fates :: "(nat \<times> fate) list"
  sq_flushed :: "nat list"

definition seq_new :: "string \<Rightarrow> batching_options \<Rightarrow> seq_actor" where
  "seq_new topic opts = \<lparr>pending_msgs = [], paused = False,
     sq_batch = batch_new (of_nat (length topic)) opts, sq_inflight = [], sq_timer = None,
     sq_stopped = False, sq_trace = [], sq_fates = [], sq_flushed = []\<rparr>"

fun started_count :: "trace_event list \<Rightarrow> nat" where
  "started_count [] = 0"
| "started_count (Started _ # es) = Suc (started_count es)"
| "started_count (_ # es) = started_count es"

text \<open>\<open>send\<close> spawns the call and adds it to the set.\<close>

definition seq_send :: "message list \<Rightarrow> nat list \<Rightarrow> seq_actor \<Rightarrow> seq_actor" where
  "seq_send msgs txs s =
     (let t = \<lparr>task_rpc = started_count (sq_trace s), task_msgs = msgs, task_txs = txs\<rparr>
      in s\<lparr>sq_inflight := sq_inflight s @ [t], sq_trace := sq_trace s @ [Started t]\<rparr>)"

definition seq_flush :: "seq_actor \<Rightarrow> seq_actor" where
  "seq_flush s =
     (if batch_is_empty (sq_batch s) then s
      else case drain_messages (sq_batch s) of
        (msgs, txs, b) \<Rightarrow> seq_send msgs txs (s\<lparr>sq_batch := b\<rparr>))"

fun move_loop :: "bundled_message list \<Rightarrow> batch \<Rightarrow> bundled_message list \<times> batch \<times> bool" where
  "move_loop [] b = ([], b, False)"
| "move_loop (m # ms) b =
     (if \<not> can_add b m \<and> \<not> batch_is_empty b then (m # ms, b, True)
      else let b' = batch_push b m
           in if at_threshold b' then (ms, b', True) else move_loop ms b')"

text \<open>The \<open>debug_assert!\<close> at the start is a panic.\<close>

definition move_to_batch_and_flush :: "seq_actor \<Rightarrow> seq_actor run" where
  "move_to_batch_and_flush s =
     (if sq_inflight s \<noteq> [] then Panic
      else case move_loop (pending_msgs s) (sq_batch s) of
        (ms, b, should_flush) \<Rightarrow>
          let s' = s\<lparr>pending_msgs := ms, sq_batch := b\<rparr>
          in Ret (if should_flush then seq_flush s' else s'))"

definition seq_pause :: "seq_actor \<Rightarrow> seq_actor" where
  "seq_pause s = s\<lparr>paused := True,
     sq_fates := sq_fates s @
       map (\<lambda>m. (bm_tx m, Sent (Err OrderingKeyPaused))) (pending_msgs s),
     pending_msgs := []\<rparr>"

text \<open>\<open>inflight.join_next().await\<close>: waits for a task of the set, or is \<open>None\<close>.\<close>

definition seq_join_next :: "publish_client \<Rightarrow> seq_actor \<Rightarrow> join_result option \<times> seq_actor" where
  "seq_join_next client s =
     (case sq_inflight s of
        [] \<Rightarrow> (None, s)
      | t # ts \<Rightarrow>
          (case run_task client t of
             (fates, r) \<Rightarrow>
               (Some r, s\<lparr>sq_inflight := ts, sq_trace := sq_trace s @ [Finished t r],
                  sq_fates := sq_fates s @ fates\<rparr>)))"

definition handle_inflight_join :: "join_result option \<times> seq_actor \<Rightarrow> seq_actor" where
  "handle_inflight_join js =
     (case js of (j, s) \<Rightarrow> if is_some_and join_failed j then seq_pause s else s)"

abbreviation seq_join :: "publish_client \<Rightarrow> seq_actor \<Rightarrow> seq_actor" where
  "seq_join client s \<equiv> handle_inflight_join (seq_join_next client s)"

text \<open>The loop of \<open>flush_all\<close>. It ends because every turn moves a message to the batch or
  sends the batch.\<close>

lemma move_loop_split:
  "move_loop ms b = (ms', b', f) \<Longrightarrow>
     messages b @ ms = messages b' @ ms' \<and> length (messages b) \<le> length (messages b')"
  by (induction ms b rule: move_loop.induct)
    (auto simp: Let_def batch_push_def split: if_splits)

lemma move_loop_progress:
  "move_loop ms b = (ms', b', f) \<Longrightarrow> ms \<noteq> [] \<Longrightarrow>
     messages b' \<noteq> [] \<and> (f \<or> ms' = [])"
proof (induction ms b arbitrary: rule: move_loop.induct)
  case (2 m ms b)
  show ?case
  proof (cases "ms = []")
    case True
    with 2 show ?thesis
      by (auto simp: Let_def batch_push_def batch_is_empty_def split: if_splits)
  next
    case False
    with 2 show ?thesis
      by (auto simp: Let_def batch_push_def batch_is_empty_def split: if_splits)
  qed
qed simp

lemma seq_flush_simps [simp]:
  "pending_msgs (seq_flush s) = pending_msgs s"
  "paused (seq_flush s) = paused s"
  "sq_timer (seq_flush s) = sq_timer s"
  "sq_stopped (seq_flush s) = sq_stopped s"
  "sq_fates (seq_flush s) = sq_fates s"
  "sq_flushed (seq_flush s) = sq_flushed s"
  "messages (sq_batch (seq_flush s)) = []"
  "batch_opts (sq_batch (seq_flush s)) = batch_opts (sq_batch s)"
  by (auto simp: seq_flush_def seq_send_def drain_messages_def batch_is_empty_def Let_def)

lemma seq_join_simps [simp]:
  "sq_batch (seq_join c s) = sq_batch s"
  "sq_timer (seq_join c s) = sq_timer s"
  "sq_stopped (seq_join c s) = sq_stopped s"
  "sq_flushed (seq_join c s) = sq_flushed s"
  "sq_inflight (seq_join c s) = tl (sq_inflight s)"
  by (auto simp: handle_inflight_join_def seq_join_next_def seq_pause_def
      split: list.splits prod.splits)

lemma seq_join_pending: "pending_msgs (seq_join c s) = pending_msgs s \<or> pending_msgs (seq_join c s) = []"
  by (auto simp: handle_inflight_join_def seq_join_next_def seq_pause_def
      split: list.splits prod.splits)

lemma move_to_batch_measure:
  assumes "move_to_batch_and_flush s = Ret s1" "pending_msgs s \<noteq> []"
  shows "2 * length (pending_msgs s1) + batch_len (sq_batch s1)
    < 2 * length (pending_msgs s) + batch_len (sq_batch s)"
proof -
  obtain ms b f where m: "move_loop (pending_msgs s) (sq_batch s) = (ms, b, f)"
    by (cases "move_loop (pending_msgs s) (sq_batch s)")
  have "messages (sq_batch s) @ pending_msgs s = messages b @ ms"
    and "length (messages (sq_batch s)) \<le> length (messages b)"
    using move_loop_split [OF m] by auto
  then have len: "length (messages (sq_batch s)) + length (pending_msgs s) = length (messages b) + length ms"
    by (metis length_append)
  have prog: "0 < length (messages b)" "f \<or> ms = []" "0 < length (pending_msgs s)"
    using move_loop_progress [OF m assms(2)] assms(2) by auto
  have s1: "s1 = (let s' = s\<lparr>pending_msgs := ms, sq_batch := b\<rparr> in if f then seq_flush s' else s')"
    using assms(1) m by (auto simp: move_to_batch_and_flush_def Let_def split: if_splits)
  show ?thesis
  proof (cases f)
    case True
    with len prog(1) s1 \<open>length (messages (sq_batch s)) \<le> _\<close> show ?thesis
      by (simp add: batch_len_def Let_def del: length_greater_0_conv)
  next
    case False
    with len prog(2, 3) s1 show ?thesis
      by (simp add: batch_len_def Let_def del: length_greater_0_conv)
  qed
qed

function flush_loop :: "publish_client \<Rightarrow> seq_actor \<Rightarrow> seq_actor run" where
  "flush_loop client s =
     (if pending_msgs s = [] then Ret s
      else case move_to_batch_and_flush s of
        Panic \<Rightarrow> Panic
      | Ret s1 \<Rightarrow> flush_loop client (seq_join client s1))"
  by pat_completeness auto

termination
proof (relation "measure (\<lambda>(c, s). 2 * length (pending_msgs s) + batch_len (sq_batch s))", goal_cases)
  case (2 client s s1)
  then show ?case
    using move_to_batch_measure [of s s1] seq_join_pending [of client s1] by auto
qed simp

declare flush_loop.simps [simp del]

definition flush_all :: "publish_client \<Rightarrow> seq_actor \<Rightarrow> seq_actor run" where
  "flush_all client s =
     bind_run (flush_loop client (seq_join client s)) (\<lambda>s1.
       Ret (seq_join client (seq_flush s1)))"

text \<open>The turns of the loop of \<open>run\<close>.\<close>

datatype actor_event = InflightDone nat | TimerFired | Received "batch_actor_cmd option"

text \<open>While the actor is paused only the channel is read.\<close>

fun seq_paused_msg :: "batch_actor_cmd option \<Rightarrow> seq_actor \<Rightarrow> seq_actor" where
  "seq_paused_msg (Some (Publish m)) s =
     s\<lparr>sq_fates := sq_fates s @ [(bm_tx m, Sent (Err OrderingKeyPaused))]\<rparr>"
| "seq_paused_msg (Some (Flush tx)) s = s\<lparr>sq_flushed := sq_flushed s @ [tx]\<rparr>"
| "seq_paused_msg (Some ResumePublish) s = s\<lparr>paused := False, sq_trace := sq_trace s @ [Resumed]\<rparr>"
| "seq_paused_msg None s = s\<lparr>sq_stopped := True\<rparr>"

definition seq_publish :: "bundled_message \<Rightarrow> seq_actor \<Rightarrow> seq_actor run" where
  "seq_publish m s =
     (let s1 = s\<lparr>pending_msgs := pending_msgs s @ [m]\<rparr>
      in bind_run (if sq_inflight s1 = [] then move_to_batch_and_flush s1 else Ret s1) (\<lambda>s2.
           Ret (if pending_msgs s2 = [] \<and> batch_is_empty (sq_batch s2) then s2\<lparr>sq_timer := None\<rparr>
                else if sq_timer s2 = None
                then s2\<lparr>sq_timer := Some (delay_threshold (batch_opts (sq_batch s2)))\<rparr>
                else s2)))"

text \<open>Replacing the set by a new one aborts what is left in it.\<close>

definition flush_and_reset :: "publish_client \<Rightarrow> seq_actor \<Rightarrow> seq_actor run" where
  "flush_and_reset client s =
     map_run (\<lambda>s1. s1\<lparr>sq_inflight := [], sq_timer := None\<rparr>) (flush_all client s)"

fun seq_msg :: "publish_client \<Rightarrow> batch_actor_cmd option \<Rightarrow> seq_actor \<Rightarrow> seq_actor run" where
  "seq_msg client (Some (Publish m)) s = seq_publish m s"
| "seq_msg client (Some (Flush tx)) s =
     map_run (\<lambda>s1. s1\<lparr>sq_flushed := sq_flushed s1 @ [tx]\<rparr>) (flush_and_reset client s)"
| "seq_msg client (Some ResumePublish) s = Ret s"
| "seq_msg client None s = map_run (\<lambda>s1. s1\<lparr>sq_stopped := True\<rparr>) (flush_all client s)"

definition seq_step :: "publish_client \<Rightarrow> actor_event \<Rightarrow> seq_actor \<Rightarrow> seq_actor run option" where
  "seq_step client ev s =
     (if sq_stopped s then None
      else if paused s
      then (case ev of Received c \<Rightarrow> Some (Ret (seq_paused_msg c s)) | _ \<Rightarrow> None)
      else case ev of
        InflightDone _ \<Rightarrow>
          (if sq_inflight s = [] then None
           else Some (move_to_batch_and_flush (seq_join client s)))
      | TimerFired \<Rightarrow>
          (if sq_timer s = None then None else Some (flush_and_reset client s))
      | Received c \<Rightarrow> Some (seq_msg client c s))"

section \<open>Small steps of the sequential actor\<close>

text \<open>Between two turns of the loop at most one call is in flight, the batch is empty while one
  is, and a paused actor holds nothing.\<close>

definition seq_ok :: "seq_actor \<Rightarrow> bool" where
  "seq_ok s \<longleftrightarrow>
     length (sq_inflight s) \<le> 1 \<and>
     (sq_inflight s \<noteq> [] \<longrightarrow> messages (sq_batch s) = []) \<and>
     (paused s \<longrightarrow> pending_msgs s = [] \<and> messages (sq_batch s) = [] \<and> sq_inflight s = []) \<and>
     (messages (sq_batch s) = [] \<or> \<not> at_threshold (sq_batch s))"

text \<open>What the handlers are made of: a message enters the batch, the batch is sent, a call
  ends.\<close>

inductive micro :: "publish_client \<Rightarrow> seq_actor \<Rightarrow> seq_actor \<Rightarrow> bool" for c where
  micro_take: "\<not> paused s \<Longrightarrow> sq_inflight s = [] \<Longrightarrow> pending_msgs s = m # ms \<Longrightarrow>
     messages (sq_batch s) = [] \<or> \<not> at_threshold (sq_batch s) \<and> can_add (sq_batch s) m \<Longrightarrow>
     micro c s (s\<lparr>pending_msgs := ms, sq_batch := batch_push (sq_batch s) m\<rparr>)"
| micro_send: "\<not> paused s \<Longrightarrow> sq_inflight s = [] \<Longrightarrow> messages (sq_batch s) \<noteq> [] \<Longrightarrow>
     micro c s (seq_flush s)"
| micro_join: "\<not> paused s \<Longrightarrow> sq_inflight s = [t] \<Longrightarrow> messages (sq_batch s) = [] \<Longrightarrow>
     micro c s (seq_join c s)"

abbreviation micros :: "publish_client \<Rightarrow> seq_actor \<Rightarrow> seq_actor \<Rightarrow> bool" where
  "micros c \<equiv> (micro c)\<^sup>*\<^sup>*"

lemma seq_update_same [simp]:
  "pending_msgs s = ms \<Longrightarrow> s\<lparr>pending_msgs := ms\<rparr> = s"
  "sq_batch s = b \<Longrightarrow> s\<lparr>sq_batch := b\<rparr> = s"
  "sq_inflight s = ts \<Longrightarrow> s\<lparr>sq_inflight := ts\<rparr> = s"
  by (cases s; auto)+

lemma move_loop_micros:
  assumes "move_loop ms b = (ms', b', f)" "\<not> paused s" "sq_inflight s = []"
    "messages b = [] \<or> \<not> at_threshold b" "pending_msgs s = ms" "sq_batch s = b"
  shows "micros c s (s\<lparr>pending_msgs := ms', sq_batch := b'\<rparr>) \<and>
    (f \<longrightarrow> messages b' \<noteq> []) \<and> (\<not> f \<longrightarrow> ms' = [] \<and> (messages b' = [] \<or> \<not> at_threshold b'))"
  using assms
proof (induction ms b arbitrary: s rule: move_loop.induct)
  case (1 b)
  then show ?case by auto
next
  case (2 m ms b)
  show ?case
  proof (cases "\<not> can_add b m \<and> \<not> batch_is_empty b")
    case True
    with 2 show ?thesis by (auto simp: batch_is_empty_def)
  next
    case False
    let ?s1 = "s\<lparr>pending_msgs := ms, sq_batch := batch_push b m\<rparr>"
    have take1: "micro c s ?s1"
      using False 2 micro_take [of s m ms c] by (auto simp: batch_is_empty_def)
    have ne: "messages (batch_push b m) \<noteq> []" by (simp add: batch_push_def)
    show ?thesis
    proof (cases "at_threshold (batch_push b m)")
      case True
      with False 2 have "ms' = ms" "b' = batch_push b m" f by (auto simp: Let_def)
      with take1 ne show ?thesis by auto
    next
      case thr: False
      from False 2 thr have "move_loop ms (batch_push b m) = (ms', b', f)"
        by (auto simp: Let_def)
      then have "micros c ?s1 (?s1\<lparr>pending_msgs := ms', sq_batch := b'\<rparr>) \<and>
          (f \<longrightarrow> messages b' \<noteq> []) \<and> (\<not> f \<longrightarrow> ms' = [] \<and> (messages b' = [] \<or> \<not> at_threshold b'))"
        using 2(1) [OF False refl thr, of ?s1] 2(3-7) thr by auto
      then show ?thesis
        using take1 by (auto intro: converse_rtranclp_into_rtranclp)
    qed
  qed
qed

lemma seq_flush_micros:
  assumes "\<not> paused s" "sq_inflight s = []"
  shows "micros c s (seq_flush s)"
proof (cases "messages (sq_batch s) = []")
  case True
  then show ?thesis by (simp add: seq_flush_def batch_is_empty_def)
next
  case False
  then show ?thesis using assms by (auto intro: micro_send)
qed

lemma seq_flush_inflight:
  "sq_inflight s = [] \<Longrightarrow> length (sq_inflight (seq_flush s)) \<le> 1"
  by (auto simp: seq_flush_def seq_send_def drain_messages_def Let_def)

lemma seq_ok_flush:
  assumes "seq_ok s" "sq_inflight s = []"
  shows "seq_ok (seq_flush s) \<and> micros c s (seq_flush s)"
proof (cases "paused s")
  case True
  with assms have "seq_flush s = s"
    by (simp add: seq_ok_def seq_flush_def batch_is_empty_def)
  with assms show ?thesis by simp
next
  case False
  with assms show ?thesis
    using seq_flush_inflight [of s] seq_flush_micros [of s c] by (simp add: seq_ok_def)
qed

lemma seq_ok_join:
  assumes "seq_ok s"
  shows "seq_ok (seq_join c s) \<and> micros c s (seq_join c s) \<and> sq_inflight (seq_join c s) = []"
proof (cases "sq_inflight s")
  case Nil
  with assms show ?thesis by (simp add: handle_inflight_join_def seq_join_next_def)
next
  case (Cons t ts)
  with assms have t: "sq_inflight s = [t]" "\<not> paused s" "messages (sq_batch s) = []"
    by (auto simp: seq_ok_def)
  have "seq_ok (seq_join c s)"
    using t by (auto simp: seq_ok_def handle_inflight_join_def seq_join_next_def seq_pause_def
        split: prod.splits)
  with t show ?thesis
    using micro_join [OF t(2) t(1) t(3), of c] by auto
qed

lemma move_to_batch_ok:
  assumes "seq_ok s" "sq_inflight s = []"
  obtains s1 where "move_to_batch_and_flush s = Ret s1" "seq_ok s1" "micros c s s1"
    "sq_timer s1 = sq_timer s" "sq_stopped s1 = sq_stopped s" "sq_flushed s1 = sq_flushed s"
    "pending_msgs s = [] \<Longrightarrow> s1 = s"
proof (cases "pending_msgs s = []")
  case True
  with assms that show ?thesis by (auto simp: move_to_batch_and_flush_def Let_def)
next
  case False
  with assms have np: "\<not> paused s" by (auto simp: seq_ok_def)
  obtain ms b f where m: "move_loop (pending_msgs s) (sq_batch s) = (ms, b, f)"
    by (cases "move_loop (pending_msgs s) (sq_batch s)")
  let ?s1 = "s\<lparr>pending_msgs := ms, sq_batch := b\<rparr>"
  have *: "micros c s ?s1" "f \<longrightarrow> messages b \<noteq> []" "\<not> f \<longrightarrow> ms = [] \<and> (messages b = [] \<or> \<not> at_threshold b)"
    using move_loop_micros [OF m np assms(2), of c] assms(1) by (auto simp: seq_ok_def)
  show ?thesis
  proof (cases f)
    case True
    have "micros c ?s1 (seq_flush ?s1)"
      using np assms(2) by (intro seq_flush_micros) auto
    with *(1) have "micros c s (seq_flush ?s1)" by (rule rtranclp_trans)
    moreover have "seq_ok (seq_flush ?s1)"
      using np assms(2) seq_flush_inflight [of ?s1] by (simp add: seq_ok_def)
    ultimately show ?thesis
      using True False m assms(2) that [of "seq_flush ?s1"]
      by (simp add: move_to_batch_and_flush_def Let_def)
  next
    case f: False
    with * np assms(2) have "seq_ok ?s1" by (simp add: seq_ok_def)
    with f False *(1) m assms(2) show ?thesis
      using that [of ?s1] by (simp add: move_to_batch_and_flush_def Let_def)
  qed
qed

lemma flush_loop_ok:
  assumes "seq_ok s" "sq_inflight s = []"
  shows "\<exists>s1. flush_loop c s = Ret s1 \<and> seq_ok s1 \<and> micros c s s1 \<and> sq_inflight s1 = [] \<and>
    pending_msgs s1 = [] \<and> sq_timer s1 = sq_timer s \<and> sq_stopped s1 = sq_stopped s \<and>
    sq_flushed s1 = sq_flushed s"
  using assms
proof (induction c s rule: flush_loop.induct)
  case (1 c s)
  show ?case
  proof (cases "pending_msgs s = []")
    case True
    with 1 show ?thesis by (auto simp: flush_loop.simps)
  next
    case False
    obtain s1 where s1: "move_to_batch_and_flush s = Ret s1" "seq_ok s1" "micros c s s1"
        "sq_timer s1 = sq_timer s" "sq_stopped s1 = sq_stopped s" "sq_flushed s1 = sq_flushed s"
      using move_to_batch_ok [OF 1(2, 3), of c] by blast
    have j: "seq_ok (seq_join c s1)" "micros c s1 (seq_join c s1)" "sq_inflight (seq_join c s1) = []"
      using seq_ok_join [OF s1(2), of c] by auto
    obtain s2 where s2: "flush_loop c (seq_join c s1) = Ret s2" "seq_ok s2"
        "micros c (seq_join c s1) s2" "sq_inflight s2 = []" "pending_msgs s2 = []"
        "sq_timer s2 = sq_timer s" "sq_stopped s2 = sq_stopped s" "sq_flushed s2 = sq_flushed s"
      using 1(1) [OF False s1(1) j(1, 3)] s1(4-6) by auto
    have "flush_loop c s = Ret s2"
      using False s1(1) s2(1) by (simp add: flush_loop.simps [of c s])
    moreover have "micros c s s2"
      using s1(3) j(2) s2(3) by (meson rtranclp_trans)
    ultimately show ?thesis using s2 by blast
  qed
qed

lemma flush_all_ok:
  assumes "seq_ok s"
  obtains s1 where "flush_all c s = Ret s1" "seq_ok s1" "micros c s s1" "sq_inflight s1 = []"
    "pending_msgs s1 = []" "messages (sq_batch s1) = []" "sq_timer s1 = sq_timer s"
    "sq_stopped s1 = sq_stopped s" "sq_flushed s1 = sq_flushed s"
proof -
  have j: "seq_ok (seq_join c s)" "micros c s (seq_join c s)" "sq_inflight (seq_join c s) = []"
    using seq_ok_join [OF assms, of c] by auto
  obtain s2 where s2: "flush_loop c (seq_join c s) = Ret s2" "seq_ok s2" "micros c (seq_join c s) s2"
      "sq_inflight s2 = []" "pending_msgs s2 = []" "sq_timer s2 = sq_timer s"
      "sq_stopped s2 = sq_stopped s" "sq_flushed s2 = sq_flushed s"
    using flush_loop_ok [OF j(1, 3), of c] by auto
  have f: "seq_ok (seq_flush s2)" "micros c s2 (seq_flush s2)"
    using seq_ok_flush [OF s2(2, 4), of c] by auto
  let ?s3 = "seq_join c (seq_flush s2)"
  have k: "seq_ok ?s3" "micros c (seq_flush s2) ?s3" "sq_inflight ?s3 = []"
    using seq_ok_join [OF f(1), of c] by auto
  have "flush_all c s = Ret ?s3"
    using s2(1) by (simp add: flush_all_def)
  moreover have "micros c s ?s3"
    using j(2) s2(3) f(2) k(2) by (meson rtranclp_trans)
  moreover have "pending_msgs ?s3 = []"
    using seq_join_pending [of c "seq_flush s2"] s2(5) by auto
  ultimately show ?thesis
    using that [of ?s3] k s2 by simp
qed

text \<open>Sequences of events, with the commands received so far.\<close>

fun received :: "actor_event \<Rightarrow> batch_actor_cmd list" where
  "received (Received (Some c)) = [c]"
| "received _ = []"

inductive seq_reach ::
  "publish_client \<Rightarrow> string \<Rightarrow> batching_options \<Rightarrow> batch_actor_cmd list \<Rightarrow> seq_actor \<Rightarrow> bool"
  for c topic opts where
  seq_start: "seq_reach c topic opts [] (seq_new topic opts)"
| seq_event: "seq_reach c topic opts cmds s \<Longrightarrow> seq_step c ev s = Some (Ret s') \<Longrightarrow>
    seq_reach c topic opts (cmds @ received ev) s'"

text \<open>What a turn does, as small steps: it may accept a message, does small steps, and then
  touches only the timer, the stop flag and the flush log.\<close>

definition quiet :: "seq_actor \<Rightarrow> seq_actor \<Rightarrow> bool" where
  "quiet s s' \<longleftrightarrow>
     pending_msgs s' = pending_msgs s \<and> paused s' = paused s \<and> sq_batch s' = sq_batch s \<and>
     sq_inflight s' = sq_inflight s \<and> sq_trace s' = sq_trace s \<and> sq_fates s' = sq_fates s"

lemma quiet_seq_ok: "quiet s s' \<Longrightarrow> seq_ok s' = seq_ok s"
  by (auto simp: quiet_def seq_ok_def)

fun accept :: "actor_event \<Rightarrow> seq_actor \<Rightarrow> seq_actor" where
  "accept (Received (Some (Publish m))) s = s\<lparr>pending_msgs := pending_msgs s @ [m]\<rparr>"
| "accept _ s = s"

definition armed :: "seq_actor \<Rightarrow> bool" where
  "armed s \<longleftrightarrow> (pending_msgs s \<noteq> [] \<or> messages (sq_batch s) \<noteq> [] \<longrightarrow> sq_timer s \<noteq> None)"

lemma seq_publish_ok:
  assumes "seq_ok s" "\<not> paused s"
  shows "\<exists>s1 s2. seq_publish m s = Ret s2 \<and> micros c (s\<lparr>pending_msgs := pending_msgs s @ [m]\<rparr>) s1 \<and>
    quiet s1 s2 \<and> seq_ok s2 \<and> armed s2"
proof -
  let ?s = "s\<lparr>pending_msgs := pending_msgs s @ [m]\<rparr>"
  have ok: "seq_ok ?s" using assms by (simp add: seq_ok_def)
  have "\<exists>s1. (if sq_inflight ?s = [] then move_to_batch_and_flush ?s else Ret ?s) = Ret s1 \<and>
      seq_ok s1 \<and> micros c ?s s1"
  proof (cases "sq_inflight ?s = []")
    case True
    obtain s1 where "move_to_batch_and_flush ?s = Ret s1" "seq_ok s1" "micros c ?s s1"
      using move_to_batch_ok [OF ok True, of c] by blast
    with True show ?thesis by auto
  qed (use ok in auto)
  then obtain s1 where
    s1: "(if sq_inflight ?s = [] then move_to_batch_and_flush ?s else Ret ?s) = Ret s1"
      "seq_ok s1" "micros c ?s s1" by blast
  define s2 where "s2 =
    (if pending_msgs s1 = [] \<and> batch_is_empty (sq_batch s1) then s1\<lparr>sq_timer := None\<rparr>
     else if sq_timer s1 = None then s1\<lparr>sq_timer := Some (delay_threshold (batch_opts (sq_batch s1)))\<rparr>
     else s1)"
  have "seq_publish m s = Ret s2"
    using s1(1) by (simp add: seq_publish_def Let_def s2_def)
  moreover have q: "quiet s1 s2" by (simp add: quiet_def s2_def)
  moreover have "armed s2" by (auto simp: armed_def s2_def batch_is_empty_def)
  ultimately show ?thesis
    using s1(2, 3) quiet_seq_ok [OF q] by blast
qed

lemma flush_and_reset_ok:
  assumes "seq_ok s"
  shows "\<exists>s1 s2. flush_and_reset c s = Ret s2 \<and> micros c s s1 \<and> quiet s1 s2 \<and> seq_ok s2 \<and>
    pending_msgs s2 = [] \<and> messages (sq_batch s2) = [] \<and> sq_inflight s2 = [] \<and>
    sq_stopped s2 = sq_stopped s \<and> sq_flushed s2 = sq_flushed s"
proof -
  obtain s1 where s1: "flush_all c s = Ret s1" "seq_ok s1" "micros c s s1" "sq_inflight s1 = []"
      "pending_msgs s1 = []" "messages (sq_batch s1) = []"
      "sq_stopped s1 = sq_stopped s" "sq_flushed s1 = sq_flushed s"
    using flush_all_ok [OF assms, of c] by blast
  let ?s2 = "s1\<lparr>sq_inflight := [], sq_timer := None\<rparr>"
  have "quiet s1 ?s2" using s1(4) by (simp add: quiet_def)
  with s1 show ?thesis
    by - (rule exI [of _ s1], rule exI [of _ ?s2],
        simp add: flush_and_reset_def seq_ok_def)
qed

lemma seq_step_ok:
  assumes "seq_ok s" "armed s" "\<not> paused s" "seq_step c ev s = Some r"
  shows "\<exists>s1 s'. r = Ret s' \<and> micros c (accept ev s) s1 \<and> quiet s1 s' \<and> seq_ok s' \<and> armed s'"
proof (cases ev)
  case (InflightDone i)
  with assms have r: "r = move_to_batch_and_flush (seq_join c s)"
    by (auto simp: seq_step_def split: if_splits)
  have j: "seq_ok (seq_join c s)" "micros c s (seq_join c s)" "sq_inflight (seq_join c s) = []"
    using seq_ok_join [OF assms(1), of c] by auto
  obtain s1 where s1: "r = Ret s1" "seq_ok s1" "micros c (seq_join c s) s1"
      "sq_timer s1 = sq_timer s" "pending_msgs (seq_join c s) = [] \<Longrightarrow> s1 = seq_join c s"
    using move_to_batch_ok [OF j(1, 3), of c] r by auto
  have "micros c s s1" using j(2) s1(3) by (rule rtranclp_trans)
  moreover have "armed s1"
    using assms(2) s1(4, 5) seq_join_pending [of c s] by (auto simp: armed_def)
  ultimately show ?thesis
    using s1(1, 2) InflightDone by (auto simp: quiet_def)
next
  case TimerFired
  with assms have "r = flush_and_reset c s"
    by (auto simp: seq_step_def split: if_splits)
  with flush_and_reset_ok [OF assms(1), of c] TimerFired show ?thesis
    by (fastforce simp: armed_def)
next
  case (Received cmd)
  with assms have r: "r = seq_msg c cmd s"
    by (auto simp: seq_step_def split: if_splits)
  consider (publish) m where "cmd = Some (Publish m)" | (flush) tx where "cmd = Some (Flush tx)"
    | (resume) "cmd = Some ResumePublish" | (closed) "cmd = None"
    by (metis batch_actor_cmd.exhaust option.exhaust)
  then show ?thesis
  proof cases
    case publish
    with seq_publish_ok [OF assms(1, 3), of m c] r Received show ?thesis by fastforce
  next
    case flush
    obtain s1 s2 where "flush_and_reset c s = Ret s2" "micros c s s1" "quiet s1 s2" "seq_ok s2"
        "pending_msgs s2 = []" "messages (sq_batch s2) = []"
      using flush_and_reset_ok [OF assms(1), of c] by blast
    with flush r Received show ?thesis
      by - (rule exI [of _ s1], rule exI [of _ "s2\<lparr>sq_flushed := sq_flushed s2 @ [tx]\<rparr>"],
        auto simp: quiet_def seq_ok_def armed_def)
  next
    case resume
    with assms r Received show ?thesis by (auto simp: quiet_def)
  next
    case closed
    obtain s1 where "flush_all c s = Ret s1" "seq_ok s1" "micros c s s1"
        "pending_msgs s1 = []" "messages (sq_batch s1) = []"
      using flush_all_ok [OF assms(1), of c] by blast
    with closed r Received show ?thesis
      by - (rule exI [of _ s1], rule exI [of _ "s1\<lparr>sq_stopped := True\<rparr>"],
        auto simp: quiet_def seq_ok_def armed_def)
  qed
qed

lemma seq_paused_step:
  assumes "paused s" "seq_step c ev s = Some r"
  shows "\<exists>cmd. ev = Received cmd \<and> r = Ret (seq_paused_msg cmd s)"
  using assms by (auto simp: seq_step_def split: if_splits actor_event.splits)

lemma seq_paused_msg_ok: "seq_ok s \<Longrightarrow> paused s \<Longrightarrow> seq_ok (seq_paused_msg cmd s) \<and> armed (seq_paused_msg cmd s)"
  by (cases "(cmd, s)" rule: seq_paused_msg.cases) (auto simp: seq_ok_def armed_def)

lemma seq_reach_ok: "seq_reach c topic opts cmds s \<Longrightarrow> seq_ok s \<and> armed s"
proof (induction rule: seq_reach.induct)
  case seq_start
  then show ?case by (simp add: seq_ok_def armed_def seq_new_def batch_new_def)
next
  case (seq_event cmds s ev s')
  then show ?case
    using seq_step_ok [of s c ev "Ret s'"] seq_paused_step [of s c ev "Ret s'"] seq_paused_msg_ok [of s]
    by (cases "paused s") auto
qed

section \<open>Invariants of the sequential actor\<close>

definition published :: "batch_actor_cmd list \<Rightarrow> bundled_message list" where
  "published cmds = concat (map (\<lambda>c. case c of Publish m \<Rightarrow> [m] | _ \<Rightarrow> []) cmds)"

lemma published_simps [simp]:
  "published [] = []"
  "published (xs @ ys) = published xs @ published ys"
  "published [Publish m] = [m]"
  "published [Flush tx] = []"
  "published [ResumePublish] = []"
  by (simp_all add: published_def)

text \<open>A property of the published messages and the state holds in every reachable state if it holds
  at the start and is kept when a message is accepted or refused, by every small step, and by a
  resume.\<close>

locale actor_invariant =
  fixes c :: publish_client and topic :: string and opts :: batching_options
    and P :: "bundled_message list \<Rightarrow> seq_actor \<Rightarrow> bool"
  assumes P_start: "P [] (seq_new topic opts)"
    and P_accept: "P ms s \<Longrightarrow> \<not> paused s \<Longrightarrow> P (ms @ [m]) (s\<lparr>pending_msgs := pending_msgs s @ [m]\<rparr>)"
    and P_micro: "P ms s \<Longrightarrow> micro c s s' \<Longrightarrow> P ms s'"
    and P_refuse: "P ms s \<Longrightarrow> seq_ok s \<Longrightarrow> paused s \<Longrightarrow>
      P (ms @ [m]) (s\<lparr>sq_fates := sq_fates s @ [(bm_tx m, Sent (Err OrderingKeyPaused))]\<rparr>)"
    and P_resume: "P ms s \<Longrightarrow> seq_ok s \<Longrightarrow> paused s \<Longrightarrow>
      P ms (s\<lparr>paused := False, sq_trace := sq_trace s @ [Resumed]\<rparr>)"
    and P_quiet: "P ms s \<Longrightarrow> quiet s s' \<Longrightarrow> P ms s'"
begin

lemma P_micros: "micros c s s' \<Longrightarrow> P ms s \<Longrightarrow> P ms s'"
  by (induction rule: rtranclp_induct) (auto intro: P_micro)

lemma P_step:
  assumes "P (published cmds) s" "seq_ok s" "armed s" "seq_step c ev s = Some (Ret s')"
  shows "P (published (cmds @ received ev)) s'"
proof (cases "paused s")
  case True
  with assms obtain cmd where ev: "ev = Received cmd" "s' = seq_paused_msg cmd s"
    using seq_paused_step by fastforce
  show ?thesis
    using assms(1, 2) True ev
    by (cases "(cmd, s)" rule: seq_paused_msg.cases)
      (auto simp: quiet_def intro: P_refuse P_resume P_quiet)
next
  case False
  have "P (published (cmds @ received ev)) (accept ev s)"
    using assms(1) False P_accept by (cases "(ev, s)" rule: accept.cases) auto
  moreover obtain s1 where "micros c (accept ev s) s1" "quiet s1 s'"
    using seq_step_ok [OF assms(2, 3) False assms(4)] by auto
  ultimately show ?thesis
    using P_micros P_quiet by blast
qed

lemma P_reach: "seq_reach c topic opts cmds s \<Longrightarrow> P (published cmds) s"
proof (induction rule: seq_reach.induct)
  case seq_start
  then show ?case using P_start by simp
next
  case (seq_event cmds s ev s')
  then show ?case using P_step seq_reach_ok by blast
qed

end

text \<open>What happens to the senders: every one of them is with a call in flight, in the batch, in the
  queue, or has met its fate.\<close>

definition seq_books :: "bundled_message list \<Rightarrow> seq_actor \<Rightarrow> bool" where
  "seq_books ms s \<longleftrightarrow>
     mset (map bm_tx ms) =
       mset (map fst (sq_fates s)) + mset (concat (map task_txs (sq_inflight s))) +
       mset (map bm_tx (messages (sq_batch s))) + mset (map bm_tx (pending_msgs s))"

lemma batch_resolve_txs:
  "map fst (fst (batch_resolve_publish_futures resp txs)) = txs"
proof (cases resp)
  case (Ok ids)
  have "map fst (map (\<lambda>(tx, i). (tx, Sent (Ok i))) (zip txs ids)) = take (length ids) txs"
    by (induction txs ids rule: list_induct2') auto
  with Ok show ?thesis
    by (simp add: batch_resolve_publish_futures_def comp_def)
qed (simp add: batch_resolve_publish_futures_def comp_def)

lemma run_task_txs: "map fst (fst (run_task c t)) = task_txs t"
  using batch_resolve_txs [of _ "task_txs t"]
  by (auto simp: run_task_def comp_def split: rpc_outcome.splits prod.splits)
    (metis fst_conv)

lemma seq_flush_fields:
  assumes "messages (sq_batch s) \<noteq> []"
  shows "sq_inflight (seq_flush s) = sq_inflight s @ [\<lparr>task_rpc = started_count (sq_trace s),
      task_msgs = map bm_msg (messages (sq_batch s)), task_txs = map bm_tx (messages (sq_batch s))\<rparr>]"
    and "sq_trace (seq_flush s) = sq_trace s @ [Started \<lparr>task_rpc = started_count (sq_trace s),
      task_msgs = map bm_msg (messages (sq_batch s)), task_txs = map bm_tx (messages (sq_batch s))\<rparr>]"
  using assms
  by (simp_all add: seq_flush_def batch_is_empty_def drain_messages_def seq_send_def Let_def)

lemma seq_join_fields:
  assumes "sq_inflight s = [t]"
  shows "sq_trace (seq_join c s) = sq_trace s @ [Finished t (snd (run_task c t))]"
    and "sq_fates (seq_join c s) = sq_fates s @ fst (run_task c t) @
      (if join_failed (snd (run_task c t))
       then map (\<lambda>m. (bm_tx m, Sent (Err OrderingKeyPaused))) (pending_msgs s) else [])"
    and "paused (seq_join c s) = (paused s \<or> join_failed (snd (run_task c t)))"
    and "pending_msgs (seq_join c s) =
      (if join_failed (snd (run_task c t)) then [] else pending_msgs s)"
  using assms
  by (auto simp: handle_inflight_join_def seq_join_next_def seq_pause_def split: prod.splits)

interpretation books: actor_invariant c topic opts seq_books
proof unfold_locales
  fix ms s s'
  assume P: "seq_books ms s" and m: "micro c s s'"
  from m show "seq_books ms s'"
  proof cases
    case (micro_take m ms')
    with P show ?thesis by (simp add: seq_books_def batch_push_def)
  next
    case micro_send
    with P show ?thesis by (simp add: seq_books_def seq_flush_fields)
  next
    case (micro_join t)
    with P show ?thesis by (auto simp: seq_books_def seq_join_fields run_task_txs comp_def multiset.map_comp)
  qed
qed (auto simp: seq_books_def quiet_def seq_new_def batch_new_def seq_ok_def)

text \<open>The order of the calls.\<close>

definition as_pair :: "bundled_message \<Rightarrow> message \<times> nat" where
  "as_pair m = (bm_msg m, bm_tx m)"

fun started_tasks :: "trace_event list \<Rightarrow> publish_task list" where
  "started_tasks [] = []"
| "started_tasks (Started t # es) = t # started_tasks es"
| "started_tasks (_ # es) = started_tasks es"

definition task_pairs :: "publish_task \<Rightarrow> (message \<times> nat) list" where
  "task_pairs t = zip (task_msgs t) (task_txs t)"

definition sent_pairs :: "trace_event list \<Rightarrow> (message \<times> nat) list" where
  "sent_pairs tr = concat (map task_pairs (started_tasks tr))"

lemma started_tasks_append [simp]: "started_tasks (xs @ ys) = started_tasks xs @ started_tasks ys"
  by (induction xs rule: started_tasks.induct) auto

lemma sent_pairs_simps [simp]:
  "sent_pairs [] = []"
  "sent_pairs (xs @ [Started t]) = sent_pairs xs @ task_pairs t"
  "sent_pairs (xs @ [Finished t r]) = sent_pairs xs"
  "sent_pairs (xs @ [Resumed]) = sent_pairs xs"
  by (simp_all add: sent_pairs_def)

lemma subseq_append_left: "subseq (xs @ ys) zs \<Longrightarrow> subseq xs zs"
  by (meson list_emb_prefix subseq_order.refl subseq_order.trans)

lemma zip_as_pair: "zip (map bm_msg ms) (map bm_tx ms) = map as_pair ms"
  by (induction ms) (auto simp: as_pair_def)

definition seq_order :: "bundled_message list \<Rightarrow> seq_actor \<Rightarrow> bool" where
  "seq_order ms s \<longleftrightarrow>
     subseq (sent_pairs (sq_trace s) @ map as_pair (messages (sq_batch s)) @
       map as_pair (pending_msgs s)) (map as_pair ms)"

interpretation in_order: actor_invariant c topic opts seq_order
proof unfold_locales
  fix ms s s'
  assume P: "seq_order ms s" and m: "micro c s s'"
  from m show "seq_order ms s'"
  proof cases
    case (micro_take m ms')
    with P show ?thesis by (simp add: seq_order_def batch_push_def)
  next
    case micro_send
    with P show ?thesis by (simp add: seq_order_def seq_flush_fields task_pairs_def zip_as_pair)
  next
    case (micro_join t)
    with P show ?thesis
      by (auto simp: seq_order_def seq_join_fields intro: subseq_append_left)
  qed
next
  fix ms s m
  assume "seq_order ms s"
  then show "seq_order (ms @ [m]) (s\<lparr>pending_msgs := pending_msgs s @ [m]\<rparr>)"
    unfolding seq_order_def
    using list_emb_append_mono [of "(=)" _ "map as_pair ms" "[as_pair m]" "[as_pair m]"] by fastforce
qed (auto simp: seq_order_def quiet_def seq_new_def batch_new_def)

text \<open>
  The fate that the outcome of a call gives to its senders: the \<open>k\<close>-th sender gets the \<open>k\<close>-th identifier of
  the answer, or the error of the call. Senders are dropped only by a call that panicked, or that was
  answered with too few identifiers.
\<close>

fun sender_fate :: "rpc_outcome \<Rightarrow> nat \<Rightarrow> fate" where
  "sender_fate (Answered (Ok ids)) k = (if k < length ids then Sent (Ok (ids ! k)) else Dropped)"
| "sender_fate (Answered (Err e)) k = Sent (Err (PublishRpc e))"
| "sender_fate TaskPanicked k = Dropped"

definition task_outcome :: "publish_client \<Rightarrow> publish_task \<Rightarrow> rpc_outcome" where
  "task_outcome c t = c (task_rpc t) (task_msgs t)"

definition call_fates :: "publish_client \<Rightarrow> publish_task \<Rightarrow> (nat \<times> fate) list" where
  "call_fates c t = map (\<lambda>k. (task_txs t ! k, sender_fate (task_outcome c t) k)) [0..<length (task_txs t)]"

fun call_failed :: "rpc_outcome \<Rightarrow> bool" where
  "call_failed (Answered (Ok ids)) = False"
| "call_failed _ = True"

fun finished_tasks :: "trace_event list \<Rightarrow> publish_task list" where
  "finished_tasks [] = []"
| "finished_tasks (Finished t r # es) = t # finished_tasks es"
| "finished_tasks (_ # es) = finished_tasks es"

lemma finished_tasks_append [simp]: "finished_tasks (xs @ ys) = finished_tasks xs @ finished_tasks ys"
  by (induction xs rule: finished_tasks.induct) auto

lemma batch_resolve_fates:
  "fst (batch_resolve_publish_futures resp txs) = map (\<lambda>k. (txs ! k, sender_fate (Answered resp) k)) [0..<length txs]"
  using arg_cong [OF batch_resolve_txs [of resp txs], of length]
  by (cases resp) (auto simp: batch_resolve_publish_futures_def nth_append intro!: nth_equalityI)

lemma run_task_fates: "fst (run_task c t) = call_fates c t" "join_failed (snd (run_task c t)) = call_failed (task_outcome c t)"
proof -
  show "fst (run_task c t) = call_fates c t"
  proof (cases "task_outcome c t")
    case (Answered resp)
    with batch_resolve_fates [of resp "task_txs t"] show ?thesis
      by (auto simp: run_task_def call_fates_def task_outcome_def split: prod.splits)
  qed (auto simp: run_task_def call_fates_def task_outcome_def intro: nth_equalityI)
  show "join_failed (snd (run_task c t)) = call_failed (task_outcome c t)"
    by (cases "task_outcome c t" rule: call_failed.cases)
      (auto simp: run_task_def batch_resolve_publish_futures_def task_outcome_def)
qed

definition seq_fated :: "publish_client \<Rightarrow> bundled_message list \<Rightarrow> seq_actor \<Rightarrow> bool" where
  "seq_fated c ms s \<longleftrightarrow>
     started_tasks (sq_trace s) = finished_tasks (sq_trace s) @ sq_inflight s \<and>
     (\<exists>refused. mset (sq_fates s) = mset (concat (map (call_fates c) (finished_tasks (sq_trace s)))) +
         mset (map (\<lambda>tx. (tx, Sent (Err OrderingKeyPaused))) refused) \<and>
       (refused \<noteq> [] \<or> paused s \<longrightarrow> (\<exists>t\<in>set (finished_tasks (sq_trace s)). call_failed (task_outcome c t))))"

lemma seq_fated_join:
  assumes "seq_fated c ms s" "sq_inflight s = [t]"
  shows "seq_fated c ms (seq_join c s)"
proof -
  from assms(1) obtain refused where r: "mset (sq_fates s) = mset (concat (map (call_fates c) (finished_tasks (sq_trace s)))) +
      mset (map (\<lambda>tx. (tx, Sent (Err OrderingKeyPaused))) refused)"
    and f: "refused \<noteq> [] \<or> paused s \<longrightarrow> (\<exists>t\<in>set (finished_tasks (sq_trace s)). call_failed (task_outcome c t))"
    by (auto simp: seq_fated_def)
  let ?more = "if call_failed (task_outcome c t) then map bm_tx (pending_msgs s) else []"
  have "mset (sq_fates (seq_join c s)) = mset (concat (map (call_fates c) (finished_tasks (sq_trace (seq_join c s))))) +
      mset (map (\<lambda>tx. (tx, Sent (Err OrderingKeyPaused))) (refused @ ?more))"
    using r assms(2) by (simp add: seq_join_fields run_task_fates comp_def multiset.map_comp)
  moreover have "refused @ ?more \<noteq> [] \<or> paused (seq_join c s) \<longrightarrow>
      (\<exists>t\<in>set (finished_tasks (sq_trace (seq_join c s))). call_failed (task_outcome c t))"
    using f assms(2) by (auto simp: seq_join_fields run_task_fates)
  moreover have "started_tasks (sq_trace (seq_join c s)) = finished_tasks (sq_trace (seq_join c s)) @ sq_inflight (seq_join c s)"
    using assms by (simp add: seq_fated_def seq_join_fields)
  ultimately show ?thesis unfolding seq_fated_def by blast
qed

interpretation fated: actor_invariant c topic opts "seq_fated c"
proof unfold_locales
  fix ms s s'
  assume P: "seq_fated c ms s" and m: "micro c s s'"
  from m show "seq_fated c ms s'"
  proof cases
    case (micro_join t)
    with seq_fated_join [OF P] show ?thesis by simp
  qed (use P in \<open>auto simp: seq_fated_def seq_flush_fields\<close>)
next
  fix ms s m
  assume "seq_fated c ms s" "paused s"
  then obtain refused where "started_tasks (sq_trace s) = finished_tasks (sq_trace s) @ sq_inflight s"
      "mset (sq_fates s) = mset (concat (map (call_fates c) (finished_tasks (sq_trace s)))) +
        mset (map (\<lambda>tx. (tx, Sent (Err OrderingKeyPaused))) refused)"
      "\<exists>t\<in>set (finished_tasks (sq_trace s)). call_failed (task_outcome c t)"
    by (auto simp: seq_fated_def)
  then show "seq_fated c (ms @ [m]) (s\<lparr>sq_fates := sq_fates s @ [(bm_tx m, Sent (Err OrderingKeyPaused))]\<rparr>)"
    unfolding seq_fated_def by (intro conjI exI [of _ "refused @ [bm_tx m]"]) auto
qed (auto simp: seq_fated_def quiet_def seq_new_def)

text \<open>The calls seen from outside: one at a time, and after a failed one nothing until the ordering
  key is resumed.\<close>

datatype serial_state = Idle | Busy publish_task | Broken

fun serial_next :: "serial_state \<Rightarrow> trace_event \<Rightarrow> serial_state option" where
  "serial_next Idle (Started t) = Some (Busy t)"
| "serial_next (Busy t) (Finished t' r) =
     (if t = t' then Some (if join_failed r then Broken else Idle) else None)"
| "serial_next Broken Resumed = Some Idle"
| "serial_next _ _ = None"

fun serial_run :: "serial_state \<Rightarrow> trace_event list \<Rightarrow> serial_state option" where
  "serial_run st [] = Some st"
| "serial_run st (e # es) = (case serial_next st e of None \<Rightarrow> None | Some st' \<Rightarrow> serial_run st' es)"

lemma serial_run_append:
  "serial_run st (xs @ ys) = (case serial_run st xs of None \<Rightarrow> None | Some st' \<Rightarrow> serial_run st' ys)"
  by (induction xs arbitrary: st) (auto split: option.splits)

definition serial_abs :: "seq_actor \<Rightarrow> serial_state" where
  "serial_abs s = (if paused s then Broken else case sq_inflight s of [] \<Rightarrow> Idle | t # _ \<Rightarrow> Busy t)"

definition seq_serial :: "bundled_message list \<Rightarrow> seq_actor \<Rightarrow> bool" where
  "seq_serial ms s \<longleftrightarrow> serial_run Idle (sq_trace s) = Some (serial_abs s)"

interpretation one_call: actor_invariant c topic opts seq_serial
proof unfold_locales
  fix ms s s'
  assume P: "seq_serial ms s" and m: "micro c s s'"
  from m show "seq_serial ms s'"
  proof cases
    case (micro_take m ms')
    with P show ?thesis by (simp add: seq_serial_def serial_abs_def)
  next
    case micro_send
    with P show ?thesis by (simp add: seq_serial_def serial_abs_def seq_flush_fields serial_run_append)
  next
    case (micro_join t)
    with P show ?thesis
      by (simp add: seq_serial_def serial_abs_def seq_join_fields serial_run_append)
  qed
qed (auto simp: seq_serial_def serial_abs_def quiet_def seq_new_def seq_ok_def serial_run_append)

text \<open>The size of the calls, for messages that do not overflow the 32-bit counter.\<close>

definition messages_fit :: "string \<Rightarrow> batching_options \<Rightarrow> bundled_message list \<Rightarrow> bool" where
  "messages_fit topic opts ms \<longleftrightarrow>
     (\<forall>m \<in> set ms. length topic + message_size (bm_msg m) < 2 ^ 32 \<and>
        unat (byte_threshold opts) + message_size (bm_msg m) < 2 ^ 32)"

definition call_bytes :: "string \<Rightarrow> message list \<Rightarrow> nat" where
  "call_bytes topic msgs = length topic + sum_list (map message_size msgs)"

definition within_limits :: "string \<Rightarrow> batching_options \<Rightarrow> message list \<Rightarrow> bool" where
  "within_limits topic opts msgs \<longleftrightarrow>
     msgs \<noteq> [] \<and> length msgs \<le> max 1 (unat (message_count_threshold opts)) \<and>
     (length msgs = 1 \<or> call_bytes topic msgs \<le> unat (byte_threshold opts))"

definition batch_counted :: "string \<Rightarrow> batching_options \<Rightarrow> batch \<Rightarrow> bool" where
  "batch_counted topic opts b \<longleftrightarrow>
     batch_opts b = opts \<and> initial_size b = of_nat (length topic) \<and>
     (if messages b = [] then messages_byte_size b = initial_size b
      else unat (messages_byte_size b) = call_bytes topic (map bm_msg (messages b)) \<and>
        within_limits topic opts (map bm_msg (messages b)))"

lemma batch_push_counted:
  assumes "batch_counted topic opts b" "messages_fit topic opts [m]"
    "messages b = [] \<or> \<not> at_threshold b \<and> can_add b m"
  shows "batch_counted topic opts (batch_push b m)"
proof (cases "messages b = []")
  case True
  with assms(1, 2) have "unat (messages_byte_size b + of_nat (message_size (bm_msg m))) =
      length topic + message_size (bm_msg m)"
    by (simp add: batch_counted_def messages_fit_def unat_word_ariths unat_of_nat)
  with True assms(1) show ?thesis
    by (simp add: batch_counted_def batch_push_def call_bytes_def within_limits_def)
next
  case False
  let ?n = "length (messages b)"
  have b: "unat (messages_byte_size b) = call_bytes topic (map bm_msg (messages b))"
      "within_limits topic opts (map bm_msg (messages b))" "batch_opts b = opts"
    using False assms(1) by (auto simp: batch_counted_def)
  have free: "\<not> at_threshold b" "can_add b m" using False assms(3) by auto
  have "?n < 2 ^ 32"
    using b(2) unsigned_less [of "message_count_threshold opts", where ?'a = nat] by (auto simp: within_limits_def)
  with free(1) b(3) have n: "?n < unat (message_count_threshold opts)"
    by (simp add: at_threshold_def batch_len_def word_le_nat_alt unat_of_nat)
  have "unat (messages_byte_size b) < unat (byte_threshold opts)"
    using free(1) b(3) by (simp add: at_threshold_def batch_size_def word_le_nat_alt)
  then have sum: "unat (messages_byte_size b + of_nat (message_size (bm_msg m))) =
      unat (messages_byte_size b) + message_size (bm_msg m)"
    using assms(2) by (simp add: messages_fit_def unat_word_ariths unat_of_nat)
  then have "unat (messages_byte_size b) + message_size (bm_msg m) \<le> unat (byte_threshold opts)"
    using free(2) b(3) by (simp add: can_add_def batch_size_def word_le_nat_alt)
  with False n b sum assms(1) show ?thesis
    by (simp add: batch_counted_def batch_push_def call_bytes_def within_limits_def)
qed

definition seq_limits ::
  "string \<Rightarrow> batching_options \<Rightarrow> bundled_message list \<Rightarrow> seq_actor \<Rightarrow> bool" where
  "seq_limits topic opts ms s \<longleftrightarrow>
     (messages_fit topic opts ms \<longrightarrow>
       set (pending_msgs s) \<subseteq> set ms \<and> batch_counted topic opts (sq_batch s) \<and>
       (\<forall>t \<in> set (started_tasks (sq_trace s)). within_limits topic opts (task_msgs t)))"

interpretation limits: actor_invariant c topic opts "seq_limits topic opts"
proof unfold_locales
  fix ms s s'
  assume P: "seq_limits topic opts ms s" and m: "micro c s s'"
  show "seq_limits topic opts ms s'"
  proof (cases "messages_fit topic opts ms")
    case fit: True
    with P have P: "set (pending_msgs s) \<subseteq> set ms" "batch_counted topic opts (sq_batch s)"
        "\<forall>t \<in> set (started_tasks (sq_trace s)). within_limits topic opts (task_msgs t)"
      by (auto simp: seq_limits_def)
    from m show ?thesis
    proof cases
      case (micro_take m ms')
      with P(1) fit have "messages_fit topic opts [m]" by (auto simp: messages_fit_def)
      with micro_take P show ?thesis
        using batch_push_counted [of topic opts "sq_batch s" m] by (auto simp: seq_limits_def)
    next
      case micro_send
      with P(2) have "within_limits topic opts (map bm_msg (messages (sq_batch s)))"
        by (simp add: batch_counted_def)
      moreover have "batch_counted topic opts (sq_batch (seq_flush s))"
        using P(2) micro_send
        by (simp add: batch_counted_def seq_flush_def drain_messages_def seq_send_def
            batch_is_empty_def Let_def)
      ultimately show ?thesis
        using P micro_send by (simp add: seq_limits_def seq_flush_fields)
    next
      case (micro_join t)
      with P show ?thesis by (auto simp: seq_limits_def seq_join_fields)
    qed
  qed (simp add: seq_limits_def)
qed (auto simp: seq_limits_def messages_fit_def quiet_def seq_new_def batch_counted_def batch_new_def)

section \<open>Properties of ordered publishing\<close>

text \<open>Runs of a given sequence of events, for concrete examples.\<close>

fun seq_exec :: "publish_client \<Rightarrow> actor_event list \<Rightarrow> seq_actor \<Rightarrow> seq_actor option" where
  "seq_exec c [] s = Some s"
| "seq_exec c (ev # evs) s =
     (case seq_step c ev s of Some (Ret s') \<Rightarrow> seq_exec c evs s' | _ \<Rightarrow> None)"

lemma seq_exec_reach:
  "seq_exec c evs s = Some s' \<Longrightarrow> seq_reach c topic opts cmds s \<Longrightarrow>
     seq_reach c topic opts (cmds @ concat (map received evs)) s'"
proof (induction evs arbitrary: s cmds)
  case (Cons ev evs)
  then obtain s1 where "seq_step c ev s = Some (Ret s1)" "seq_exec c evs s1 = Some s'"
    by (auto split: option.splits run.splits)
  with Cons show ?case
    using seq_event by fastforce
qed simp

definition sample_message :: "nat \<Rightarrow> bundled_message" where
  "sample_message n = \<lparr>bm_msg = \<lparr>msg_data = [0, 0], msg_attributes = [(''a'', ''b'')],
     msg_ordering_key = ''k''\<rparr>, bm_tx = n\<rparr>"

definition sample_options :: batching_options where
  "sample_options = \<lparr>message_count_threshold = 2, byte_threshold = 100, delay_threshold = 5\<rparr>"

text \<open>The second call fails, all others succeed.\<close>

definition sample_client :: publish_client where
  "sample_client n msgs =
     (if n = 1 then Answered (Err (io (MsgError ''down'')))
      else Answered (Ok (map (\<lambda>_. ''id'') msgs)))"

definition sample_events :: "actor_event list" where
  "sample_events =
     map (\<lambda>n. Received (Some (Publish (sample_message n)))) [0, 1, 2, 3, 4] @
     [InflightDone 0, InflightDone 0, Received (Some (Publish (sample_message 5))),
      Received (Some ResumePublish), Received (Some (Publish (sample_message 6)))]"

definition sample_state :: seq_actor where
  "sample_state = the (seq_exec sample_client sample_events (seq_new ''t'' sample_options))"

definition sample_cmds :: "batch_actor_cmd list" where
  "sample_cmds = concat (map received sample_events)"

lemmas seq_eval = seq_step_def seq_publish_def move_to_batch_and_flush_def seq_flush_def
  seq_send_def handle_inflight_join_def seq_join_next_def seq_pause_def run_task_def
  flush_and_reset_def flush_all_def flush_loop.simps batch_resolve_publish_futures_def
  batch_push_def batch_new_def batch_is_empty_def batch_len_def batch_size_def message_size_def
  at_threshold_def can_add_def drain_messages_def seq_new_def Let_def word_le_nat_alt

lemmas sample_defs = sample_client_def sample_events_def sample_options_def sample_message_def

lemma sample_options_clamped [simp]: "clamp_options sample_options = sample_options"
  by (simp add: clamp_options_def sample_options_def MAX_MESSAGES_def MAX_BYTES_def MAX_DELAY_def
      from_secs_def min_def word_le_nat_alt)

lemma sample_exec: "seq_exec sample_client sample_events (seq_new ''t'' sample_options) = Some sample_state"
  by (simp add: sample_state_def seq_eval sample_defs)

lemma sample_reach: "seq_reach sample_client ''t'' sample_options sample_cmds sample_state"
  using seq_exec_reach [OF sample_exec seq_start] by (simp add: sample_cmds_def)

lemma sample_facts:
  "map snd (sent_pairs (sq_trace sample_state)) = [0, 1, 2, 3]"
  "map bm_tx (published sample_cmds) = [0, 1, 2, 3, 4, 5, 6]"
  "map fst (sq_fates sample_state) = [0, 1, 2, 3, 4, 5]"
  "length (filter (\<lambda>e. e = Resumed) (sq_trace sample_state)) = 1"
  "\<not> paused sample_state \<and> \<not> sq_stopped sample_state"
  by (simp_all add: sample_state_def sample_cmds_def published_def sent_pairs_def task_pairs_def
      seq_eval sample_defs)

text \<open>Messages with an ordering key are sent in the order in which they were published: the messages
  of the calls, in the order of the calls, are a subsequence of the published messages, and the
  messages still held come after them, in order.\<close>

lemma ordered_publish_keeps_order:
  "seq_reach c topic opts cmds s \<Longrightarrow>
     subseq (sent_pairs (sq_trace s) @ map as_pair (messages (sq_batch s)) @
       map as_pair (pending_msgs s)) (map as_pair (published cmds))"
  using in_order.P_reach by (simp add: seq_order_def)

text \<open>
  C22. The actor of an ordering key implements the serial publisher: calls do not overlap, and
  after a call fails (or its task dies) no call is started until the key is resumed. The actor is
  paused exactly in the state that waits for the resume.
\<close>

theorem ordered_publish_is_serial:
  "seq_reach c topic opts cmds s \<Longrightarrow> serial_run Idle (sq_trace s) = Some (serial_abs s)"
  using one_call.P_reach by (simp add: seq_serial_def)

theorem ordered_publish_is_serial_witness:
  "length (filter (\<lambda>e. e = Resumed) (sq_trace sample_state)) = 1 \<and>
   serial_run Idle (sq_trace sample_state) = Some (serial_abs sample_state)"
  using ordered_publish_is_serial [OF sample_reach] sample_facts by blast

text \<open>
  C24. Every published message is accounted for, and every future gets the result of its message. The senders
  of the published messages are, counted with multiplicity, those that have met their fate, those of the call
  in flight, of the batch and of the queue. The fates are exactly the results of the finished calls, each
  sender with the identifier of its message or the error of its call, and \<open>OrderingKeyPaused\<close> for messages
  that were refused or taken back, of which there are none unless a call has failed.
\<close>

theorem ordered_publish_accounts_for_messages:
  "seq_reach c topic opts cmds s \<Longrightarrow>
     mset (map bm_tx (published cmds)) =
       mset (map fst (sq_fates s)) + mset (concat (map task_txs (sq_inflight s))) +
       mset (map bm_tx (messages (sq_batch s))) + mset (map bm_tx (pending_msgs s)) \<and>
     started_tasks (sq_trace s) = finished_tasks (sq_trace s) @ sq_inflight s \<and>
     (\<exists>refused. mset (sq_fates s) = mset (concat (map (call_fates c) (finished_tasks (sq_trace s)))) +
         mset (map (\<lambda>tx. (tx, Sent (Err OrderingKeyPaused))) refused) \<and>
       (refused \<noteq> [] \<longrightarrow> (\<exists>t\<in>set (finished_tasks (sq_trace s)). call_failed (task_outcome c t))))"
  using books.P_reach fated.P_reach unfolding seq_books_def seq_fated_def by blast

theorem ordered_publish_accounts_for_messages_witness:
  "(\<exists>refused. mset [(0, Sent (Ok ''id'')), (1, Sent (Ok ''id'')), (2, Sent (Err (PublishRpc (io (MsgError ''down''))))),
        (3, Sent (Err (PublishRpc (io (MsgError ''down''))))), (4, Sent (Err OrderingKeyPaused)),
        (5, Sent (Err OrderingKeyPaused))] =
      mset (concat (map (call_fates sample_client) (finished_tasks (sq_trace sample_state)))) +
         mset (map (\<lambda>tx. (tx, Sent (Err OrderingKeyPaused))) refused)) \<and>
   mset (map bm_tx (published sample_cmds)) =
       mset (map fst (sq_fates sample_state)) + mset (concat (map task_txs (sq_inflight sample_state))) +
       mset (map bm_tx (messages (sq_batch sample_state))) + mset (map bm_tx (pending_msgs sample_state))"
proof -
  have "sq_fates sample_state = [(0, Sent (Ok ''id'')), (1, Sent (Ok ''id'')), (2, Sent (Err (PublishRpc (io (MsgError ''down''))))),
      (3, Sent (Err (PublishRpc (io (MsgError ''down''))))), (4, Sent (Err OrderingKeyPaused)), (5, Sent (Err OrderingKeyPaused))]"
    by (simp add: sample_state_def seq_eval sample_defs)
  with ordered_publish_accounts_for_messages [OF sample_reach] show ?thesis by metis
qed

text \<open>
  With the options the builder enforces, every call has at least one and at most 1000 messages,
  and at most the configured number of them; unless it has a single message, the topic and the
  messages take at most the configured number of bytes, which is at most ten million. The
  hypothesis rules out messages so large that the 32-bit byte counter wraps around.
\<close>

theorem ordered_publish_batch_limits:
  assumes "seq_reach c topic (clamp_options opts) cmds s"
    and "length topic \<le> 10000000"
    and "\<And>m. m \<in> set (published cmds) \<Longrightarrow> message_size (bm_msg m) < 2 ^ 32 - 10000000"
    and "t \<in> set (started_tasks (sq_trace s))"
  shows "task_msgs t \<noteq> [] \<and>
    length (task_msgs t) \<le> max 1 (min (unat (message_count_threshold opts)) 1000) \<and>
    (length (task_msgs t) = 1 \<or>
     call_bytes topic (task_msgs t) \<le> min (unat (byte_threshold opts)) 10000000)"
proof -
  have clamped: "unat (byte_threshold (clamp_options opts)) = min (unat (byte_threshold opts)) 10000000"
      "unat (message_count_threshold (clamp_options opts)) =
        min (unat (message_count_threshold opts)) 1000"
    by (simp_all add: clamp_options_def unat_min_word MAX_BYTES_def MAX_MESSAGES_def)
  have "messages_fit topic (clamp_options opts) (published cmds)"
    using assms(2, 3) by (fastforce simp: messages_fit_def clamped)
  then have "within_limits topic (clamp_options opts) (task_msgs t)"
    using limits.P_reach [OF assms(1)] assms(4) by (simp add: seq_limits_def)
  then show ?thesis by (simp add: within_limits_def clamped)
qed

theorem ordered_publish_batch_limits_witness:
  "map (length \<circ> task_msgs) (started_tasks (sq_trace sample_state)) = [2, 2] \<and>
   list_all (\<lambda>t. task_msgs t \<noteq> [] \<and>
    length (task_msgs t) \<le> max 1 (min (unat (message_count_threshold sample_options)) 1000) \<and>
    (length (task_msgs t) = 1 \<or>
     call_bytes ''t'' (task_msgs t) \<le> min (unat (byte_threshold sample_options)) 10000000))
    (started_tasks (sq_trace sample_state))"
proof -
  have small: "message_size (bm_msg m) < 2 ^ 32 - 10000000" if "m \<in> set (published sample_cmds)" for m
    using that
    by (auto simp: sample_cmds_def published_def sample_defs message_size_def)
  have reach: "seq_reach sample_client ''t'' (clamp_options sample_options) sample_cmds sample_state"
    using sample_reach by simp
  have "map (length \<circ> task_msgs) (started_tasks (sq_trace sample_state)) = [2, 2]"
    by (simp add: sample_state_def seq_eval sample_defs)
  moreover note ordered_publish_batch_limits [OF reach _ small]
  ultimately show ?thesis by (simp add: list_all_iff)
qed

text \<open>
  A flush, and the end of the actor when the publisher is dropped, wait for every message
  published before: when the handler returns, the futures of exactly these messages have been resolved,
  each once, and nothing is left in the queue, in the batch or in flight. The handler does return: the
  loop over the queue ends.
\<close>

theorem ordered_flush_resolves_all:
  assumes "seq_reach c topic opts cmds s" "\<not> paused s" "\<not> sq_stopped s"
    and "ev = Received None \<or> ev = Received (Some (Flush tx))"
  shows "\<exists>s'. seq_step c ev s = Some (Ret s') \<and>
    mset (map fst (sq_fates s')) = mset (map bm_tx (published cmds)) \<and>
    pending_msgs s' = [] \<and> messages (sq_batch s') = [] \<and> sq_inflight s' = [] \<and>
    (ev = Received None \<longrightarrow> sq_stopped s') \<and>
    (ev = Received (Some (Flush tx)) \<longrightarrow> sq_flushed s' = sq_flushed s @ [tx])"
proof -
  have ok: "seq_ok s" using seq_reach_ok [OF assms(1)] by simp
  have "\<exists>s'. seq_step c ev s = Some (Ret s') \<and>
    pending_msgs s' = [] \<and> messages (sq_batch s') = [] \<and> sq_inflight s' = [] \<and>
    (ev = Received None \<longrightarrow> sq_stopped s') \<and>
    (ev = Received (Some (Flush tx)) \<longrightarrow> sq_flushed s' = sq_flushed s @ [tx])"
    using assms(4)
  proof
    assume ev: "ev = Received None"
    obtain s1 where "flush_all c s = Ret s1" "pending_msgs s1 = []" "messages (sq_batch s1) = []"
        "sq_inflight s1 = []"
      using flush_all_ok [OF ok, of c] by blast
    with ev assms(2, 3) show ?thesis by (simp add: seq_step_def)
  next
    assume ev: "ev = Received (Some (Flush tx))"
    obtain s1 where "flush_and_reset c s = Ret s1" "pending_msgs s1 = []" "messages (sq_batch s1) = []"
        "sq_inflight s1 = []" "sq_flushed s1 = sq_flushed s"
      using flush_and_reset_ok [OF ok, of c] by blast
    with ev assms(2, 3) show ?thesis by (simp add: seq_step_def)
  qed
  then obtain s' where s': "seq_step c ev s = Some (Ret s')"
      "pending_msgs s' = []" "messages (sq_batch s') = []" "sq_inflight s' = []"
      "ev = Received None \<longrightarrow> sq_stopped s'"
      "ev = Received (Some (Flush tx)) \<longrightarrow> sq_flushed s' = sq_flushed s @ [tx]" by blast
  have "seq_books (published (cmds @ received ev)) s'"
    using books.P_reach [OF seq_event [OF assms(1) s'(1)]] .
  moreover have "published (cmds @ received ev) = published cmds"
    using assms(4) by auto
  ultimately have "mset (map fst (sq_fates s')) = mset (map bm_tx (published cmds))"
    using s'(2-4) by (simp add: seq_books_def)
  with s' show ?thesis by blast
qed

theorem ordered_flush_resolves_all_witness:
  "\<exists>s'. seq_step sample_client (Received (Some (Flush 9))) sample_state = Some (Ret s') \<and>
    mset (map fst (sq_fates s')) = mset [0, 1, 2, 3, 4, 5, 6]"
  using ordered_flush_resolves_all [OF sample_reach _ _ disjI2, of "Received (Some (Flush 9))" 9]
    sample_facts by fastforce

text \<open>
  The actor never panics (in particular its debug assertion holds), and no message is stranded:
  whenever messages wait in the queue or in the batch, the actor is not paused and its flush timer is
  armed.
\<close>

theorem ordered_publish_never_stuck:
  assumes "seq_reach c topic opts cmds s"
  shows "seq_step c ev s \<noteq> Some Panic \<and>
    (pending_msgs s \<noteq> [] \<or> messages (sq_batch s) \<noteq> [] \<longrightarrow> \<not> paused s \<and> sq_timer s \<noteq> None)"
proof -
  have ok: "seq_ok s" "armed s" using seq_reach_ok [OF assms] by auto
  have "seq_step c ev s \<noteq> Some Panic"
    using seq_step_ok [OF ok, of c ev Panic] seq_paused_step [of s c ev Panic] by auto
  with ok show ?thesis by (auto simp: armed_def seq_ok_def)
qed

theorem ordered_publish_never_stuck_witness:
  "messages (sq_batch sample_state) = [sample_message 6] \<and> sq_timer sample_state \<noteq> None \<and>
   seq_step sample_client TimerFired sample_state \<noteq> Some Panic"
proof -
  have "messages (sq_batch sample_state) = [sample_message 6]"
    by (simp add: sample_state_def seq_eval sample_defs)
  with ordered_publish_never_stuck [OF sample_reach, of TimerFired] show ?thesis by simp
qed

end
