(* ===== verification/Pubsub_Dispatch.thy ===== *)
theory Pubsub_Dispatch
  imports Pubsub_Publisher
begin

text \<open>
  The rest of the Pub/Sub publisher, \<open>pubsub/src/publisher\<close>: the token bucket
  (\<open>token_bucket.rs\<close>), request hedging (\<open>hedging.rs\<close>), the concurrent actor for
  messages without ordering key, and the dispatcher (\<open>actor.rs\<close>).

  The state shared by the attempts of a batch (\<open>BatchState\<close>, behind an \<open>Arc\<close>) lives in a store,
  and the queue of the scheduler refers to it by number. The refill amount of a bucket is the
  rounded product of a float; it is an argument here.
\<close>

section \<open>The token bucket\<close>

definition SCALE :: u32 where "SCALE = 1000"

record token_bucket =
  tokens :: u32
  max_scaled_tokens :: u32
  refill_amount :: u32

definition token_bucket_new :: "u32 \<Rightarrow> u32 \<Rightarrow> token_bucket" where
  "token_bucket_new max_tokens refill =
     \<lparr>tokens = 0, max_scaled_tokens = max_tokens * SCALE, refill_amount = refill\<rparr>"

definition try_acquire :: "token_bucket \<Rightarrow> bool \<times> token_bucket" where
  "try_acquire tb =
     (if SCALE \<le> tokens tb then (True, tb\<lparr>tokens := tokens tb - SCALE\<rparr>) else (False, tb))"

definition refill :: "token_bucket \<Rightarrow> token_bucket" where
  "refill tb =
     (if max_scaled_tokens tb \<le> tokens tb then tb
      else tb\<lparr>tokens := min (saturating_add (tokens tb) (refill_amount tb)) (max_scaled_tokens tb)\<rparr>)"

lemma try_acquire_unat:
  "try_acquire tb = (True, tb') \<Longrightarrow> unat (tokens tb) = unat (tokens tb') + 1000"
  "try_acquire tb = (False, tb') \<Longrightarrow> tb' = tb \<and> unat (tokens tb) < 1000"
  by (auto simp: try_acquire_def SCALE_def word_le_nat_alt unat_sub_if' split: if_splits)

lemma try_acquire_params [simp]:
  "max_scaled_tokens (snd (try_acquire tb)) = max_scaled_tokens tb"
  "refill_amount (snd (try_acquire tb)) = refill_amount tb"
  by (simp_all add: try_acquire_def)

lemma refill_unat:
  "unat (tokens (refill tb)) \<le> unat (tokens tb) + unat (refill_amount tb)"
  "unat (tokens tb) \<le> unat (max_scaled_tokens tb) \<Longrightarrow>
     unat (tokens (refill tb)) \<le> unat (max_scaled_tokens tb)"
  by (auto simp: refill_def unat_min_word unat_saturating_add word_le_nat_alt)

lemma refill_params [simp]:
  "max_scaled_tokens (refill tb) = max_scaled_tokens tb"
  "refill_amount (refill tb) = refill_amount tb"
  by (simp_all add: refill_def)

section \<open>Hedging\<close>

definition DEFAULT_HEDGING_DELAY :: duration where "DEFAULT_HEDGING_DELAY = from_secs 1"
definition MIN_HEDGING_DELAY :: duration where "MIN_HEDGING_DELAY = from_millis 100"
definition MAX_HEDGING_DELAY :: duration where "MAX_HEDGING_DELAY = from_secs 10"
definition DEFAULT_HEDGING_MAX_TOKENS :: u32 where "DEFAULT_HEDGING_MAX_TOKENS = 50"
definition MIN_HEDGING_MAX_TOKENS :: u32 where "MIN_HEDGING_MAX_TOKENS = 1"
definition MAX_HEDGING_MAX_TOKENS :: u32 where "MAX_HEDGING_MAX_TOKENS = 250"

record hedging_options =
  ho_delay :: duration
  ho_max_tokens :: u32

definition hedging_options_default :: hedging_options where
  "hedging_options_default = \<lparr>ho_delay = DEFAULT_HEDGING_DELAY, ho_max_tokens = DEFAULT_HEDGING_MAX_TOKENS\<rparr>"

definition set_delay :: "hedging_options \<Rightarrow> duration \<Rightarrow> hedging_options" where
  "set_delay ho v = ho\<lparr>ho_delay := max MIN_HEDGING_DELAY (min v MAX_HEDGING_DELAY)\<rparr>"

definition set_max_tokens :: "hedging_options \<Rightarrow> u32 \<Rightarrow> hedging_options" where
  "set_max_tokens ho v = ho\<lparr>ho_max_tokens := max MIN_HEDGING_MAX_TOKENS (min v MAX_HEDGING_MAX_TOKENS)\<rparr>"

text \<open>The senders are taken by the first attempt that finishes; \<open>bs_done\<close> is what was sent to the
  set of the actor.\<close>

record batch_state =
  bs_msgs :: "message list"
  bs_txs :: "nat list option"
  bs_start :: instant
  bs_total_timeout :: "duration option"
  bs_cancelled :: bool
  bs_done :: "(error, unit) result option"

definition batch_state_new :: "message list \<Rightarrow> nat list \<Rightarrow> instant \<Rightarrow> duration option \<Rightarrow> batch_state" where
  "batch_state_new msgs txs now limit = \<lparr>bs_msgs = msgs, bs_txs = Some txs, bs_start = now,
     bs_total_timeout = limit, bs_cancelled = False, bs_done = None\<rparr>"

text \<open>The attempt number is an \<open>i32\<close> that counts the hedges of one batch, at least 100 milliseconds
  apart; it is a natural number here.\<close>

record hedge_item =
  hi_state :: nat
  hi_deadline :: instant
  hi_attempt :: nat

text \<open>The scheduler with its channel, the store and a log: hedged calls (batch and attempt number), and the fates of
  senders.\<close>

record hedging =
  hg_delay :: duration
  hg_bucket :: token_bucket
  hg_store :: "batch_state list"
  hg_rx :: "nat list"
  hg_queue :: "hedge_item list"
  hg_timer :: "instant option"
  hg_hedges :: "(nat \<times> nat) list"
  hg_fates :: "(nat \<times> fate) list"

definition hedging_spawn :: "hedging_options \<Rightarrow> u32 \<Rightarrow> hedging" where
  "hedging_spawn ho amount = \<lparr>hg_delay = ho_delay ho,
     hg_bucket = token_bucket_new (ho_max_tokens ho) amount, hg_store = [], hg_rx = [], hg_queue = [],
     hg_timer = None, hg_hedges = [], hg_fates = []\<rparr>"

definition complete :: "nat \<Rightarrow> (error, string list) result \<Rightarrow> hedging \<Rightarrow> hedging" where
  "complete i resp h =
     (let b = hg_store h ! i
      in case bs_txs b of
           None \<Rightarrow> h
         | Some txs \<Rightarrow>
             (case batch_resolve_publish_futures resp txs of
                (fates, r) \<Rightarrow>
                  h\<lparr>hg_store := (hg_store h)[i := b\<lparr>bs_txs := None, bs_cancelled := True,
                      bs_done := Some r\<rparr>],
                    hg_bucket := (if is_ok resp then refill (hg_bucket h) else hg_bucket h),
                    hg_fates := hg_fates h @ fates\<rparr>))"

text \<open>The end of the first attempt. A cancelled attempt is dropped with its answer.\<close>

definition initial_done :: "nat \<Rightarrow> (error, string list) result \<Rightarrow> hedging \<Rightarrow> hedging" where
  "initial_done i resp h = (if bs_cancelled (hg_store h ! i) then h else complete i resp h)"

text \<open>A hedged attempt: whether it sends anything, and with which timeout; its errors are ignored.\<close>

definition MAX_ATTEMPT_TIMEOUT :: duration where "MAX_ATTEMPT_TIMEOUT = from_secs 10"

definition hedged_timeout :: "instant \<Rightarrow> batch_state \<Rightarrow> duration option" where
  "hedged_timeout now b =
     (if bs_cancelled b then None
      else let t = min (case bs_total_timeout b of
                          None \<Rightarrow> MAX_ATTEMPT_TIMEOUT
                        | Some t \<Rightarrow> t - (now - bs_start b)) MAX_ATTEMPT_TIMEOUT
           in if t = 0 then None else Some t)"

definition hedged_done :: "nat \<Rightarrow> (error, string list) result \<Rightarrow> hedging \<Rightarrow> hedging" where
  "hedged_done i resp h =
     (if bs_cancelled (hg_store h ! i) then h
      else case resp of Ok ids \<Rightarrow> complete i (Ok ids) h | Err _ \<Rightarrow> h)"

definition handle_new_batch :: "instant \<Rightarrow> nat \<Rightarrow> hedging \<Rightarrow> hedging" where
  "handle_new_batch now i h =
     (let deadline = now + hg_delay h
      in h\<lparr>hg_queue := hg_queue h @ [\<lparr>hi_state = i, hi_deadline = deadline, hi_attempt = 1\<rparr>],
           hg_timer := (case hg_timer h of None \<Rightarrow> Some deadline | Some t \<Rightarrow> Some t)\<rparr>)"

text \<open>\<open>dispatch\<close>: a new state, the first attempt (whose end is \<open>initial_done\<close>), and the
  registration with the scheduler, which receives it later.\<close>

definition hedging_dispatch ::
  "instant \<Rightarrow> message list \<Rightarrow> nat list \<Rightarrow> duration option \<Rightarrow> hedging \<Rightarrow> hedging" where
  "hedging_dispatch now msgs txs limit h =
     h\<lparr>hg_store := hg_store h @ [batch_state_new msgs txs now limit],
       hg_rx := hg_rx h @ [length (hg_store h)]\<rparr>"

text \<open>The loop over the expired hedges: an item that gets a token costs a token, any other leaves
  the queue.\<close>

function expire_loop :: "instant \<Rightarrow> hedging \<Rightarrow> hedging" where
  "expire_loop now h =
     (case hg_queue h of
        [] \<Rightarrow> h
      | item # rest \<Rightarrow>
          (if hi_deadline item \<le> now
           then let h1 = h\<lparr>hg_queue := rest\<rparr>
                in if bs_cancelled (hg_store h ! hi_state item) then expire_loop now h1
                   else if fst (try_acquire (hg_bucket h))
                   then expire_loop now (h1\<lparr>hg_bucket := snd (try_acquire (hg_bucket h)),
                     hg_hedges := hg_hedges h @ [(hi_state item, hi_attempt item)],
                     hg_queue := rest @ [\<lparr>hi_state = hi_state item, hi_deadline = now + hg_delay h,
                       hi_attempt = Suc (hi_attempt item)\<rparr>]\<rparr>)
                   else expire_loop now h1
           else h))"
  by pat_completeness auto

termination
proof (relation "measures [\<lambda>(now, h). unat (tokens (hg_bucket h)), \<lambda>(now, h). length (hg_queue h)]",
    goal_cases)
  case (3 now h item rest h1)
  then show ?case
    using try_acquire_unat(1) [of "hg_bucket h" "snd (try_acquire (hg_bucket h))"]
    by (cases "try_acquire (hg_bucket h)") auto
qed auto

declare expire_loop.simps [simp del]

definition handle_expired_hedges :: "instant \<Rightarrow> hedging \<Rightarrow> hedging" where
  "handle_expired_hedges now h =
     (let h1 = expire_loop now h
      in h1\<lparr>hg_timer := (case hg_queue h1 of [] \<Rightarrow> None | item # _ \<Rightarrow> Some (hi_deadline item))\<rparr>)"

subsection \<open>Runs of the hedging scheduler\<close>

datatype hedge_event =
    Dispatch "message list" "nat list" "duration option"
  | Register
  | InitialDone nat "(error, string list) result"
  | HedgedDone nat "(error, string list) result"
  | HedgeTimer

fun dispatched :: "hedge_event \<Rightarrow> nat list" where
  "dispatched (Dispatch _ txs _) = txs"
| "dispatched _ = []"

text \<open>An event at a time. Attempts end only for batches that made them.\<close>

fun hedge_step :: "instant \<Rightarrow> hedge_event \<Rightarrow> hedging \<Rightarrow> hedging option" where
  "hedge_step now (Dispatch msgs txs limit) h = Some (hedging_dispatch now msgs txs limit h)"
| "hedge_step now Register h =
     (case hg_rx h of [] \<Rightarrow> None | i # is \<Rightarrow> Some (handle_new_batch now i (h\<lparr>hg_rx := is\<rparr>)))"
| "hedge_step now (InitialDone i resp) h =
     (if i < length (hg_store h) then Some (initial_done i resp h) else None)"
| "hedge_step now (HedgedDone i resp) h =
     (if i \<in> fst ` set (hg_hedges h) then Some (hedged_done i resp h) else None)"
| "hedge_step now HedgeTimer h =
     (if is_some_and (\<lambda>t. t \<le> now) (hg_timer h) then Some (handle_expired_hedges now h) else None)"

inductive hedge_reach ::
  "hedging_options \<Rightarrow> u32 \<Rightarrow> instant \<Rightarrow> nat list \<Rightarrow> hedging \<Rightarrow> bool" for ho amount where
  hedge_start: "hedge_reach ho amount now [] (hedging_spawn ho amount)"
| hedge_event: "hedge_reach ho amount now txs h \<Longrightarrow> now \<le> now' \<Longrightarrow> hedge_step now' ev h = Some h' \<Longrightarrow>
    hedge_reach ho amount now' (txs @ dispatched ev) h'"

definition resolved_ok :: "batch_state list \<Rightarrow> nat" where
  "resolved_ok bs = length (filter (\<lambda>b. bs_done b = Some (Ok ())) bs)"

definition open_txs :: "batch_state list \<Rightarrow> nat list" where
  "open_txs bs = concat (map (\<lambda>b. case bs_txs b of None \<Rightarrow> [] | Some txs \<Rightarrow> txs) bs)"

definition hedge_inv :: "hedging_options \<Rightarrow> u32 \<Rightarrow> nat list \<Rightarrow> hedging \<Rightarrow> bool" where
  "hedge_inv ho amount txs h \<longleftrightarrow>
     refill_amount (hg_bucket h) = amount \<and>
     max_scaled_tokens (hg_bucket h) = ho_max_tokens ho * SCALE \<and>
     unat (tokens (hg_bucket h)) \<le> unat (ho_max_tokens ho * SCALE) \<and>
     1000 * length (hg_hedges h) + unat (tokens (hg_bucket h)) \<le>
       unat amount * resolved_ok (hg_store h) \<and>
     mset txs = mset (map fst (hg_fates h)) + mset (open_txs (hg_store h)) \<and>
     (\<forall>b \<in> set (hg_store h). (bs_txs b = None) = bs_cancelled b \<and> (bs_done b = None) = (bs_txs b \<noteq> None)) \<and>
     (\<forall>item \<in> set (hg_queue h). hi_state item < length (hg_store h)) \<and>
     (\<forall>i \<in> set (hg_rx h). i < length (hg_store h)) \<and>
     (\<forall>i a. (i, a) \<in> set (hg_hedges h) \<longrightarrow> i < length (hg_store h))"

lemma resolved_ok_update:
  "i < length bs \<Longrightarrow> bs_done (bs ! i) = None \<Longrightarrow>
     resolved_ok (bs[i := b]) = resolved_ok bs + (if bs_done b = Some (Ok ()) then 1 else 0)"
  by (induction bs arbitrary: i) (auto simp: resolved_ok_def less_Suc_eq_0_disj)

lemma open_txs_update:
  "i < length bs \<Longrightarrow> bs_txs (bs ! i) = Some txs \<Longrightarrow> bs_txs b = None \<Longrightarrow>
     mset (open_txs bs) = mset txs + mset (open_txs (bs[i := b]))"
  by (induction bs arbitrary: i) (auto simp: open_txs_def less_Suc_eq_0_disj)

lemma store_update_ok:
  "i < length bs \<Longrightarrow> Q b \<Longrightarrow> \<forall>b \<in> set bs. Q b \<Longrightarrow> \<forall>b \<in> set (bs[i := b]). Q b"
  by (metis in_set_conv_nth length_list_update nth_list_update_eq nth_list_update_neq)

lemma complete_inv:
  assumes "hedge_inv ho amount txs h" "i < length (hg_store h)"
  shows "hedge_inv ho amount txs (complete i resp h)"
proof (cases "bs_txs (hg_store h ! i)")
  case None
  with assms show ?thesis by (simp add: complete_def)
next
  case (Some ts)
  let ?b = "hg_store h ! i"
  obtain fates r where fr: "batch_resolve_publish_futures resp ts = (fates, r)"
    by (cases "batch_resolve_publish_futures resp ts")
  have ok: "r = Ok () \<longleftrightarrow> is_ok resp"
    using fr by (cases resp) (auto simp: batch_resolve_publish_futures_def)
  let ?b' = "?b\<lparr>bs_txs := None, bs_cancelled := True, bs_done := Some r\<rparr>"
  have done0: "bs_done ?b = None"
    using assms Some by (force simp: hedge_inv_def)
  have open_eq: "mset (open_txs (hg_store h)) = mset (map fst fates) + mset (open_txs ((hg_store h)[i := ?b']))"
    using open_txs_update [OF assms(2) Some, of ?b'] batch_resolve_txs [of resp ts] fr by simp
  have count: "resolved_ok ((hg_store h)[i := ?b']) = resolved_ok (hg_store h) + (if is_ok resp then 1 else 0)"
    using resolved_ok_update [OF assms(2) done0, of ?b'] ok by simp
  have store: "\<forall>b \<in> set ((hg_store h)[i := ?b']).
      (bs_txs b = None) = bs_cancelled b \<and> (bs_done b = None) = (bs_txs b \<noteq> None)"
    using assms by (intro store_update_ok) (auto simp: hedge_inv_def)
  have bucket: "1000 * length (hg_hedges h) + unat (tokens (if is_ok resp then refill (hg_bucket h) else hg_bucket h))
      \<le> unat amount * (resolved_ok (hg_store h) + (if is_ok resp then 1 else 0))"
    using assms(1) refill_unat(1) [of "hg_bucket h"] by (auto simp: hedge_inv_def)
  show ?thesis
    using assms Some fr open_eq count store bucket refill_unat(2) [of "hg_bucket h"]
    by (auto simp: complete_def hedge_inv_def Let_def)
qed

lemma expire_loop_inv:
  "hedge_inv ho amount txs h \<Longrightarrow> hedge_inv ho amount txs (expire_loop now h)"
proof (induction now h rule: expire_loop.induct)
  case (1 now h)
  show ?case
  proof (cases "hg_queue h")
    case Nil
    with 1 show ?thesis by (simp add: expire_loop.simps)
  next
    case (Cons item rest)
    let ?h1 = "h\<lparr>hg_queue := rest\<rparr>"
    have h1: "hedge_inv ho amount txs ?h1"
      using 1(4) Cons by (auto simp: hedge_inv_def)
    obtain got tb where acq: "try_acquire (hg_bucket h) = (got, tb)"
      by (cases "try_acquire (hg_bucket h)")
    let ?h2 = "?h1\<lparr>hg_bucket := tb, hg_hedges := hg_hedges h @ [(hi_state item, hi_attempt item)],
      hg_queue := rest @ [\<lparr>hi_state = hi_state item, hi_deadline = now + hg_delay h,
        hi_attempt = Suc (hi_attempt item)\<rparr>]\<rparr>"
    have h2: "hedge_inv ho amount txs ?h2" if got
      using 1(4) Cons that acq try_acquire_unat(1) [of "hg_bucket h" tb]
        try_acquire_params [of "hg_bucket h"]
      by (auto simp: hedge_inv_def)
    show ?thesis
    proof (cases "hi_deadline item \<le> now")
      case True
      show ?thesis
        using 1(1) [OF Cons True refl _ h1] 1(2) [OF Cons True refl] 1(3) [OF Cons True refl _ _ h1]
          h1 h2 Cons True acq
        by (cases got) (auto simp: expire_loop.simps [of now h] Let_def)
    next
      case False
      with 1(4) Cons show ?thesis by (simp add: expire_loop.simps [of now h])
    qed
  qed
qed

lemma hedge_step_inv:
  assumes "hedge_inv ho amount txs h" "hedge_step now ev h = Some h'"
  shows "hedge_inv ho amount (txs @ dispatched ev) h'"
proof (cases ev)
  case (Dispatch msgs ts limit)
  with assms show ?thesis
    by (auto simp: hedging_dispatch_def hedge_inv_def resolved_ok_def open_txs_def batch_state_new_def
        less_Suc_eq) blast
next
  case Register
  with assms show ?thesis
    by (auto simp: handle_new_batch_def hedge_inv_def Let_def split: list.splits) blast
next
  case (InitialDone i resp)
  with assms show ?thesis
    by (auto simp: initial_done_def intro: complete_inv split: if_splits)
next
  case (HedgedDone i resp)
  moreover have "i < length (hg_store h)"
    using assms HedgedDone by (auto simp: hedge_inv_def split: if_splits)
  ultimately show ?thesis
    using assms by (auto simp: hedged_done_def intro: complete_inv split: if_splits result.splits)
next
  case HedgeTimer
  have "hedge_inv ho amount txs (expire_loop now h)"
    using assms(1) by (rule expire_loop_inv)
  with HedgeTimer assms(2) show ?thesis
    by (auto simp: handle_expired_hedges_def hedge_inv_def Let_def split: if_splits) blast
qed

lemma hedge_reach_inv: "hedge_reach ho amount now txs h \<Longrightarrow> hedge_inv ho amount txs h"
proof (induction rule: hedge_reach.induct)
  case hedge_start
  then show ?case
    by (simp add: hedge_inv_def hedging_spawn_def token_bucket_new_def open_txs_def)
qed (rule hedge_step_inv)

lemma expire_loop_delay [simp]: "hg_delay (expire_loop now h) = hg_delay h"
  by (induction now h rule: expire_loop.induct)
    (subst expire_loop.simps, auto simp: Let_def split: list.splits)

subsection \<open>The queue of the scheduler\<close>

text \<open>Deadlines are in order, none is later than a delay from now, and the timer is set to the
  first one.\<close>

definition queue_inv :: "instant \<Rightarrow> hedging \<Rightarrow> bool" where
  "queue_inv now h \<longleftrightarrow>
     sorted (map hi_deadline (hg_queue h)) \<and>
     (\<forall>item \<in> set (hg_queue h). hi_deadline item \<le> now + hg_delay h) \<and>
     hg_timer h = (case hg_queue h of [] \<Rightarrow> None | item # _ \<Rightarrow> Some (hi_deadline item))"

definition queue_sorted :: "instant \<Rightarrow> hedging \<Rightarrow> bool" where
  "queue_sorted now h \<longleftrightarrow>
     sorted (map hi_deadline (hg_queue h)) \<and>
     (\<forall>item \<in> set (hg_queue h). hi_deadline item \<le> now + hg_delay h)"

lemma expire_loop_sorted:
  "queue_sorted now h \<Longrightarrow> queue_sorted now (expire_loop now h)"
proof (induction now h rule: expire_loop.induct)
  case (1 now h)
  show ?case
  proof (cases "hg_queue h")
    case Nil
    with 1 show ?thesis by (simp add: expire_loop.simps)
  next
    case (Cons item rest)
    let ?h1 = "h\<lparr>hg_queue := rest\<rparr>"
    let ?h2 = "?h1\<lparr>hg_bucket := snd (try_acquire (hg_bucket h)),
      hg_hedges := hg_hedges h @ [(hi_state item, hi_attempt item)],
      hg_queue := rest @ [\<lparr>hi_state = hi_state item, hi_deadline = now + hg_delay h,
        hi_attempt = Suc (hi_attempt item)\<rparr>]\<rparr>"
    have h1: "queue_sorted now ?h1" and h2: "queue_sorted now ?h2"
      using 1(4) Cons by (auto simp: queue_sorted_def sorted_append)
    show ?thesis
      using 1(1) [OF Cons _ refl _ h1] 1(2) [OF Cons _ refl _ _ h2] 1(3) [OF Cons _ refl _ _ h1]
        1(4) Cons
      by (subst expire_loop.simps) (auto simp: Let_def)
  qed
qed

text \<open>After the loop, with a positive delay, everything that is left is in the future.\<close>

lemma expire_loop_future:
  "queue_sorted now h \<Longrightarrow> 0 < hg_delay h \<Longrightarrow>
     \<forall>item \<in> set (hg_queue (expire_loop now h)). now < hi_deadline item"
proof (induction now h rule: expire_loop.induct)
  case (1 now h)
  show ?case
  proof (cases "hg_queue h")
    case Nil
    with 1 show ?thesis by (simp add: expire_loop.simps)
  next
    case (Cons item rest)
    let ?h1 = "h\<lparr>hg_queue := rest\<rparr>"
    let ?h2 = "?h1\<lparr>hg_bucket := snd (try_acquire (hg_bucket h)),
      hg_hedges := hg_hedges h @ [(hi_state item, hi_attempt item)],
      hg_queue := rest @ [\<lparr>hi_state = hi_state item, hi_deadline = now + hg_delay h,
        hi_attempt = Suc (hi_attempt item)\<rparr>]\<rparr>"
    have h1: "queue_sorted now ?h1" and h2: "queue_sorted now ?h2"
      using 1(4) Cons by (auto simp: queue_sorted_def sorted_append)
    show ?thesis
    proof (cases "hi_deadline item \<le> now")
      case True
      then show ?thesis
        using 1(1) [OF Cons _ refl _ h1] 1(2) [OF Cons _ refl _ _ h2] 1(3) [OF Cons _ refl _ _ h1]
          1(5) Cons
        by (subst expire_loop.simps) (simp add: Let_def)
    next
      case False
      moreover have "\<forall>i \<in> set (hg_queue h). hi_deadline item \<le> hi_deadline i"
        using 1(4) Cons by (auto simp: queue_sorted_def)
      ultimately have "\<forall>i \<in> set (hg_queue h). now < hi_deadline i" by auto
      with False Cons show ?thesis by (subst expire_loop.simps) simp
    qed
  qed
qed

lemma complete_queue [simp]:
  "hg_queue (complete i resp h) = hg_queue h"
  "hg_timer (complete i resp h) = hg_timer h"
  "hg_delay (complete i resp h) = hg_delay h"
  by (auto simp: complete_def Let_def split: option.splits prod.splits)

lemma queue_inv_step:
  assumes "queue_inv now h" "now \<le> now'" "hedge_step now' ev h = Some h'"
  shows "queue_inv now' h' \<and> hg_delay h' = hg_delay h"
proof (cases ev)
  case HedgeTimer
  have "queue_sorted now' h" using assms(1, 2) by (fastforce simp: queue_inv_def queue_sorted_def)
  then have "queue_sorted now' (expire_loop now' h)" by (rule expire_loop_sorted)
  with HedgeTimer assms(3) show ?thesis
    by (auto simp: handle_expired_hedges_def queue_inv_def queue_sorted_def Let_def split: if_splits)
next
  case Register
  with assms show ?thesis
    by (fastforce simp: handle_new_batch_def queue_inv_def Let_def sorted_append split: list.splits)
next
  case (HedgedDone i resp)
  with assms show ?thesis
    by (cases resp) (fastforce simp: hedged_done_def queue_inv_def split: if_splits)+
qed (use assms in \<open>fastforce simp: hedging_dispatch_def initial_done_def queue_inv_def
      split: if_splits\<close>)+

lemma hedge_reach_queue:
  "hedge_reach ho amount now txs h \<Longrightarrow> queue_inv now h \<and> hg_delay h = ho_delay ho"
proof (induction rule: hedge_reach.induct)
  case (hedge_event now txs h now' ev h')
  then show ?case using queue_inv_step by metis
qed (simp add: queue_inv_def hedging_spawn_def)

subsection \<open>Properties of hedging\<close>

fun hedge_exec :: "(instant \<times> hedge_event) list \<Rightarrow> hedging \<Rightarrow> hedging option" where
  "hedge_exec [] h = Some h"
| "hedge_exec ((now, ev) # evs) h =
     (case hedge_step now ev h of None \<Rightarrow> None | Some h' \<Rightarrow> hedge_exec evs h')"

lemma hedge_exec_reach:
  "hedge_exec evs h = Some h' \<Longrightarrow> hedge_reach ho amount now txs h \<Longrightarrow>
     sorted (now # map fst evs) \<Longrightarrow>
     hedge_reach ho amount (last (now # map fst evs)) (txs @ concat (map (dispatched \<circ> snd) evs)) h'"
proof (induction evs arbitrary: h now txs)
  case (Cons tev evs)
  obtain t ev where tev: "tev = (t, ev)" by (cases tev)
  with Cons.prems obtain h1 where h1: "hedge_step t ev h = Some h1" "hedge_exec evs h1 = Some h'"
    by (auto split: option.splits)
  have "hedge_reach ho amount t (txs @ dispatched ev) h1"
    using hedge_event [OF Cons.prems(2) _ h1(1)] Cons.prems(3) tev by simp
  from Cons.IH [OF h1(2) this] Cons.prems(3) tev show ?case by (auto simp: comp_def)
qed auto

text \<open>One batch succeeds and pays for a hedge of the second, which then wins over the first
  attempt.\<close>

definition hedge_sample_events :: "(instant \<times> hedge_event) list" where
  "hedge_sample_events =
     [(0, Dispatch [] [0, 1] None), (0, Register), (10, InitialDone 0 (Ok [''a'', ''b''])),
      (20, Dispatch [] [2] None), (30, Register), (1000000030, HedgeTimer),
      (1000000040, HedgedDone 1 (Ok [''c''])), (1000000050, InitialDone 1 (Err (io (MsgError ''late''))))]"

definition hedge_sample :: hedging where
  "hedge_sample = the (hedge_exec hedge_sample_events (hedging_spawn hedging_options_default 1000))"

lemmas hedge_eval = hedging_spawn_def token_bucket_new_def hedging_dispatch_def batch_state_new_def
  handle_new_batch_def initial_done_def hedged_done_def complete_def handle_expired_hedges_def
  expire_loop.simps try_acquire_def refill_def saturating_add_def batch_resolve_publish_futures_def
  hedging_options_default_def DEFAULT_HEDGING_DELAY_def DEFAULT_HEDGING_MAX_TOKENS_def SCALE_def
  from_secs_def Let_def word_le_nat_alt min_def

lemma hedge_sample_exec:
  "hedge_exec hedge_sample_events (hedging_spawn hedging_options_default 1000) = Some hedge_sample"
  by (simp add: hedge_sample_def hedge_sample_events_def hedge_eval)

lemma hedge_sample_facts:
  "hg_hedges hedge_sample = [(1, 1)]"
  "hg_fates hedge_sample = [(0, Sent (Ok ''a'')), (1, Sent (Ok ''b'')), (2, Sent (Ok ''c''))]"
  by (simp_all add: hedge_sample_def hedge_sample_events_def hedge_eval)

lemma hedge_sample_reach: "hedge_reach hedging_options_default 1000 1000000050 [0, 1, 2] hedge_sample"
  using hedge_exec_reach [OF hedge_sample_exec hedge_start, of 0]
  by (simp add: hedge_sample_events_def)

text \<open>
  What a sequence of events means for the batches, in the order of their dispatch: the attempt that decides
  about a batch is the first that ends with success, or its first attempt if that ends before, with any
  outcome.
\<close>

fun batches :: "hedge_event list \<Rightarrow> nat list list" where
  "batches [] = []"
| "batches (Dispatch msgs txs limit # evs) = txs # batches evs"
| "batches (_ # evs) = batches evs"

fun decides :: "nat \<Rightarrow> hedge_event \<Rightarrow> (error, string list) result option" where
  "decides i (InitialDone j resp) = (if i = j then Some resp else None)"
| "decides i (HedgedDone j (Ok ids)) = (if i = j then Some (Ok ids) else None)"
| "decides i _ = None"

fun winner :: "nat \<Rightarrow> hedge_event list \<Rightarrow> (error, string list) result option" where
  "winner i [] = None"
| "winner i (ev # evs) = (case decides i ev of Some resp \<Rightarrow> Some resp | None \<Rightarrow> winner i evs)"

fun batch_fates :: "(error, string list) result option \<Rightarrow> nat list \<Rightarrow> (nat \<times> fate) list" where
  "batch_fates None txs = []"
| "batch_fates (Some resp) txs = map (\<lambda>k. (txs ! k, sender_fate (Answered resp) k)) [0..<length txs]"

lemma batches_append [simp]: "batches (xs @ ys) = batches xs @ batches ys"
  by (induction xs rule: batches.induct) auto

lemma winner_append [simp]:
  "winner i (xs @ ys) = (case winner i xs of Some resp \<Rightarrow> Some resp | None \<Rightarrow> winner i ys)"
  by (induction xs) (auto split: option.splits)

definition decided_fates :: "hedge_event list \<Rightarrow> (nat \<times> fate) multiset" where
  "decided_fates evs = (\<Sum>i<length (batches evs). mset (batch_fates (winner i evs) (batches evs ! i)))"

definition undecided :: "hedge_event list \<Rightarrow> nat list option list" where
  "undecided evs = map (\<lambda>i. if winner i evs = None then Some (batches evs ! i) else None) [0..<length (batches evs)]"

definition won :: "hedge_event list \<Rightarrow> nat" where
  "won evs = length (filter (\<lambda>i. is_some_and is_ok (winner i evs)) [0..<length (batches evs)])"

definition hedge_results :: "hedge_event list \<Rightarrow> hedging \<Rightarrow> bool" where
  "hedge_results evs h \<longleftrightarrow>
     mset (hg_fates h) = decided_fates evs \<and> length (hg_store h) = length (batches evs) \<and>
     (\<forall>i. winner i evs \<noteq> None \<longrightarrow> i < length (batches evs)) \<and>
     (\<forall>i<length (batches evs).
        bs_txs (hg_store h ! i) = (if winner i evs = None then Some (batches evs ! i) else None) \<and>
        bs_cancelled (hg_store h ! i) = (winner i evs \<noteq> None) \<and>
        (bs_done (hg_store h ! i) = Some (Ok ()) \<longleftrightarrow> is_some_and is_ok (winner i evs)))"

text \<open>An event that decides nothing, and the one that decides about a batch.\<close>

lemma hedge_results_quiet:
  assumes "hedge_results evs h" "hg_fates h' = hg_fates h" "hg_store h' = hg_store h"
    and "batches [ev] = []" "\<And>i. winner i evs = None \<Longrightarrow> decides i ev = None"
  shows "hedge_results (evs @ [ev]) h'"
proof -
  have w: "winner i (evs @ [ev]) = winner i evs" for i using assms(5) by (auto split: option.splits)
  have "batches (evs @ [ev]) = batches evs" using assms(4) by simp
  then show ?thesis using assms(1-3) unfolding hedge_results_def decided_fates_def w by simp
qed

lemma sum_one_more:
  fixes f g :: "nat \<Rightarrow> 'a multiset"
  assumes "j < n" "f j = {#}" "\<And>i. i \<noteq> j \<Longrightarrow> g i = f i"
  shows "(\<Sum>i<n. g i) = (\<Sum>i<n. f i) + g j"
proof -
  have "(\<Sum>i<n. g i) = g j + (\<Sum>i\<in>{..<n} - {j}. g i)" "(\<Sum>i<n. f i) = f j + (\<Sum>i\<in>{..<n} - {j}. f i)"
    using assms(1) by (simp_all add: sum.remove)
  moreover have "(\<Sum>i\<in>{..<n} - {j}. g i) = (\<Sum>i\<in>{..<n} - {j}. f i)" using assms(3) by (intro sum.cong) auto
  ultimately show ?thesis using assms(2) by simp
qed

lemma hedge_results_complete:
  assumes r: "hedge_results evs h" and j: "j < length (hg_store h)" "winner j evs = None"
    and ev: "batches [ev] = []" "\<And>i. decides i ev = (if i = j then Some resp else None)"
  shows "hedge_results (evs @ [ev]) (complete j resp h)"
proof -
  let ?B = "batches evs" and ?W = "\<lambda>i. winner i (evs @ [ev])"
  have n: "length (hg_store h) = length ?B" "bs_txs (hg_store h ! j) = Some (?B ! j)"
    using r j by (simp_all add: hedge_results_def)
  have w: "?W i = (if i = j then Some resp else winner i evs)" for i
    using j(2) ev(2) by (auto split: option.splits)
  have B: "batches (evs @ [ev]) = ?B" using ev(1) by simp
  obtain fates x where fr: "batch_resolve_publish_futures resp (?B ! j) = (fates, x)" by fastforce
  have x: "x = Ok () \<longleftrightarrow> is_ok resp" using fr by (cases resp) (auto simp: batch_resolve_publish_futures_def)
  have "(\<Sum>i<length ?B. mset (batch_fates (?W i) (?B ! i))) =
      (\<Sum>i<length ?B. mset (batch_fates (winner i evs) (?B ! i))) + mset (batch_fates (?W j) (?B ! j))"
    using j n(1) w by (intro sum_one_more) auto
  then have "mset (hg_fates (complete j resp h)) = decided_fates (evs @ [ev])"
    using r n fr batch_resolve_fates [of resp "?B ! j"] unfolding decided_fates_def B w
    by (simp add: complete_def hedge_results_def decided_fates_def)
  moreover have "hg_store (complete j resp h) = (hg_store h)[j := (hg_store h ! j)\<lparr>bs_txs := None, bs_cancelled := True,
      bs_done := Some x\<rparr>]"
    using n fr by (simp add: complete_def)
  ultimately show ?thesis using r n(1) j x unfolding hedge_results_def B w
    by (simp add: nth_list_update)
qed

lemma expire_loop_keeps [simp]:
  "hg_store (expire_loop now h) = hg_store h" "hg_fates (expire_loop now h) = hg_fates h"
  by (induction now h rule: expire_loop.induct)
    (subst expire_loop.simps, auto simp: Let_def split: list.splits)+

lemma hedge_step_results:
  assumes r: "hedge_results evs h" and inv: "hedge_inv ho amount txs h" and s: "hedge_step now ev h = Some h'"
  shows "hedge_results (evs @ [ev]) h'"
proof (cases ev)
  case (Dispatch msgs txs limit)
  have "winner (length (batches evs)) evs = None" using r by (auto simp: hedge_results_def)
  moreover have w: "winner i (evs @ [ev]) = winner i evs" for i using Dispatch by (auto split: option.splits)
  moreover have B: "batches (evs @ [ev]) = batches evs @ [txs]" using Dispatch by simp
  moreover have "decided_fates (evs @ [ev]) = decided_fates evs"
    using calculation(1) unfolding decided_fates_def w B by (simp add: nth_append)
  ultimately show ?thesis using r s Dispatch unfolding hedge_results_def w B
    by (auto simp: hedging_dispatch_def batch_state_new_def nth_append less_Suc_eq)
next
  case Register
  with s show ?thesis by (intro hedge_results_quiet [OF r]) (auto simp: handle_new_batch_def Let_def split: list.splits)
next
  case (InitialDone j resp)
  with s have j: "j < length (hg_store h)" and h': "h' = initial_done j resp h" by (auto split: if_splits)
  have c: "bs_cancelled (hg_store h ! j) = (winner j evs \<noteq> None)" using r j by (simp add: hedge_results_def)
  show ?thesis
  proof (cases "winner j evs")
    case None
    with c h' hedge_results_complete [OF r j None, of ev resp] InitialDone show ?thesis by (simp add: initial_done_def)
  next
    case (Some w)
    with c h' InitialDone show ?thesis by (intro hedge_results_quiet [OF r]) (auto simp: initial_done_def)
  qed
next
  case (HedgedDone j resp)
  have j: "j < length (hg_store h)" and h': "h' = hedged_done j resp h"
    using s HedgedDone inv by (auto simp: hedge_inv_def split: if_splits)
  have c: "bs_cancelled (hg_store h ! j) = (winner j evs \<noteq> None)" using r j by (simp add: hedge_results_def)
  show ?thesis
  proof (cases "winner j evs = None \<and> is_ok resp")
    case True
    then obtain ids where "resp = Ok ids" by (cases resp) auto
    with True c h' hedge_results_complete [OF r j, of ev resp] HedgedDone show ?thesis by (simp add: hedged_done_def)
  next
    case False
    with c h' HedgedDone show ?thesis
      by (intro hedge_results_quiet [OF r]; cases resp) (auto simp: hedged_done_def)
  qed
next
  case HedgeTimer
  with s show ?thesis
    by (intro hedge_results_quiet [OF r]) (auto simp: handle_expired_hedges_def Let_def split: if_splits)
qed

lemma hedge_exec_results:
  assumes "hedge_exec evs h = Some h'" "hedge_results before h" "hedge_reach ho amount now txs h" "sorted (now # map fst evs)"
  shows "hedge_results (before @ map snd evs) h'"
  using assms
proof (induction evs arbitrary: h now txs before)
  case (Cons tev evs)
  obtain t ev where tev: "tev = (t, ev)" by (cases tev)
  with Cons.prems obtain h1 where h1: "hedge_step t ev h = Some h1" "hedge_exec evs h1 = Some h'"
    by (auto split: option.splits)
  have "hedge_reach ho amount t (txs @ dispatched ev) h1"
    using hedge_event [OF Cons.prems(3) _ h1(1)] Cons.prems(4) tev by simp
  moreover have "hedge_results (before @ [ev]) h1"
    using hedge_step_results [OF Cons.prems(2) hedge_reach_inv [OF Cons.prems(3)] h1(1)] .
  ultimately show ?case using Cons.IH [OF h1(2)] Cons.prems(4) tev by fastforce
qed simp

lemma hedge_results_counted:
  assumes "hedge_results evs h"
  shows "map bs_txs (hg_store h) = undecided evs" "resolved_ok (hg_store h) = won evs"
proof -
  have n: "length (hg_store h) = length (batches evs)" using assms by (simp add: hedge_results_def)
  show "map bs_txs (hg_store h) = undecided evs"
    using assms by (intro nth_equalityI) (auto simp: hedge_results_def undecided_def)
  have "resolved_ok (hg_store h) = length (filter (\<lambda>i. bs_done (hg_store h ! i) = Some (Ok ())) [0..<length (hg_store h)])"
    unfolding resolved_ok_def using filter_map [of "\<lambda>b. bs_done b = Some (Ok ())" "(!) (hg_store h)" "[0..<length (hg_store h)]"]
    by (simp add: map_nth comp_def)
  also have "\<dots> = won evs" unfolding won_def n using assms by (intro arg_cong [of _ _ length] filter_cong) (auto simp: hedge_results_def)
  finally show "resolved_ok (hg_store h) = won evs" .
qed

text \<open>
  C28. Hedging resolves every batch as soon as it is decided, once, and within its budget. For every sequence
  of events: the fates of the senders are exactly those given by the deciding attempts, each sender with the
  identifier of its message or the error of the first attempt; the batches that still have their senders are
  exactly the undecided ones; and a thousand times the number of hedged calls is at most the refill amount
  times the number of batches that succeeded.
\<close>

theorem hedging_resolves_once_within_budget:
  assumes "hedge_exec evs (hedging_spawn ho amount) = Some h" "sorted (map fst evs)"
  shows "mset (hg_fates h) = decided_fates (map snd evs) \<and> map bs_txs (hg_store h) = undecided (map snd evs) \<and>
    1000 * length (hg_hedges h) \<le> unat amount * won (map snd evs)"
proof -
  have s: "sorted (0 # map fst evs)" using assms(2) by simp
  have "hedge_results [] (hedging_spawn ho amount)" by (simp add: hedge_results_def decided_fates_def hedging_spawn_def)
  from hedge_exec_results [OF assms(1) this hedge_start s]
  have r: "hedge_results (map snd evs) h" by simp
  from hedge_reach_inv [OF hedge_exec_reach [OF assms(1) hedge_start s]]
  have "1000 * length (hg_hedges h) \<le> unat amount * resolved_ok (hg_store h)" by (simp add: hedge_inv_def)
  with r hedge_results_counted [OF r] show ?thesis by (simp add: hedge_results_def)
qed

theorem hedging_resolves_once_within_budget_witness:
  "length (hg_hedges hedge_sample) = 1 \<and> won (map snd hedge_sample_events) = 2 \<and>
   mset [(0, Sent (Ok ''a'')), (1, Sent (Ok ''b'')), (2, Sent (Ok ''c''))] = decided_fates (map snd hedge_sample_events) \<and>
   1000 * length (hg_hedges hedge_sample) \<le> unat (1000 :: u32) * won (map snd hedge_sample_events)"
proof -
  have "sorted (map fst hedge_sample_events)" "won (map snd hedge_sample_events) = 2"
    by (simp_all add: hedge_sample_events_def won_def)
  with hedging_resolves_once_within_budget [OF hedge_sample_exec] hedge_sample_facts show ?thesis by simp
qed

text \<open>
  The scheduler does not miss or delay hedges: when its timer fires, every hedge that is due leaves
  the queue or is scheduled again a full delay later, so that all that remain are in the future, and the
  timer is set to the earliest of them (and to none only if there are none). Deadlines stay in
  order, so a queue is enough. The loop over the due hedges ends for every delay.
\<close>

theorem hedge_timer_handles_all_due:
  assumes "hedge_reach ho amount now txs h" "now \<le> now'" "0 < ho_delay ho"
    and "hedge_step now' HedgeTimer h = Some h'"
  shows "(\<forall>item \<in> set (hg_queue h'). now' < hi_deadline item) \<and>
    sorted (map hi_deadline (hg_queue h')) \<and>
    hg_timer h' = (case hg_queue h' of [] \<Rightarrow> None | item # _ \<Rightarrow> Some (hi_deadline item))"
proof -
  have q: "queue_inv now h" "hg_delay h = ho_delay ho" using hedge_reach_queue [OF assms(1)] by auto
  then have "queue_sorted now' h"
    using assms(2) by (fastforce simp: queue_inv_def queue_sorted_def)
  then have "\<forall>item \<in> set (hg_queue (expire_loop now' h)). now' < hi_deadline item"
    using assms(3) q(2) by (intro expire_loop_future) auto
  moreover have "h' = handle_expired_hedges now' h"
    using assms(4) by (simp split: if_splits)
  moreover have "queue_inv now' h'"
    using queue_inv_step [OF q(1) assms(2, 4)] by simp
  ultimately show ?thesis
    by (simp add: handle_expired_hedges_def queue_inv_def Let_def)
qed

theorem hedge_timer_handles_all_due_witness:
  "let h = the (hedge_exec (take 5 hedge_sample_events) (hedging_spawn hedging_options_default 1000));
       h' = handle_expired_hedges 1000000030 h
   in length (hg_queue h') = 1 \<and>
      list_all (\<lambda>item. 1000000030 < hi_deadline item) (hg_queue h') \<and>
      sorted (map hi_deadline (hg_queue h')) \<and>
      hg_timer h' = (case hg_queue h' of [] \<Rightarrow> None | item # _ \<Rightarrow> Some (hi_deadline item))"
proof -
  define h where "h = the (hedge_exec (take 5 hedge_sample_events) (hedging_spawn hedging_options_default 1000))"
  have ex: "hedge_exec (take 5 hedge_sample_events) (hedging_spawn hedging_options_default 1000) = Some h"
    and timer: "hg_timer h = Some 1000000000"
    and len: "length (hg_queue (handle_expired_hedges 1000000030 h)) = 1"
    by (simp_all add: h_def hedge_sample_events_def hedge_eval)
  have r: "hedge_reach hedging_options_default 1000 30 [0, 1, 2] h"
    using hedge_exec_reach [OF ex hedge_start, of 0] by (simp add: hedge_sample_events_def)
  have step: "hedge_step 1000000030 HedgeTimer h = Some (handle_expired_hedges 1000000030 h)"
    using timer by simp
  have "0 < ho_delay hedging_options_default"
    by (simp add: hedging_options_default_def DEFAULT_HEDGING_DELAY_def from_secs_def)
  from hedge_timer_handles_all_due [OF r _ this step] len show ?thesis
    by (simp add: h_def Let_def list_all_iff)
qed

section \<open>The concurrent actor\<close>

text \<open>With hedging, a batch goes through the scheduler above; the task in the set of the actor then
  ends with what the winning attempt sent. Without, \<open>send\<close> is the task. In both cases the actor
  sees a task that resolves the senders of its batch.\<close>

record conc_actor =
  cc_batch :: batch
  cc_inflight :: "publish_task list"
  cc_timer :: "duration option"
  cc_stopped :: bool
  cc_sent :: "publish_task list"
  cc_fates :: "(nat \<times> fate) list"
  cc_flushed :: "nat list"

definition conc_new :: "string \<Rightarrow> batching_options \<Rightarrow> conc_actor" where
  "conc_new topic opts = \<lparr>cc_batch = batch_new (of_nat (length topic)) opts, cc_inflight = [],
     cc_timer = None, cc_stopped = False, cc_sent = [], cc_fates = [], cc_flushed = []\<rparr>"

definition conc_flush :: "conc_actor \<Rightarrow> conc_actor" where
  "conc_flush s =
     (if batch_is_empty (cc_batch s) then s
      else case drain_messages (cc_batch s) of
        (msgs, txs, b) \<Rightarrow>
          let t = \<lparr>task_rpc = length (cc_sent s), task_msgs = msgs, task_txs = txs\<rparr>
          in s\<lparr>cc_batch := b, cc_inflight := cc_inflight s @ [t], cc_sent := cc_sent s @ [t]\<rparr>)"

definition add_msg_and_flush :: "bundled_message \<Rightarrow> conc_actor \<Rightarrow> conc_actor" where
  "add_msg_and_flush m s =
     (let s1 = (if can_add (cc_batch s) m then s else conc_flush s);
          s2 = s1\<lparr>cc_batch := batch_push (cc_batch s1) m\<rparr>
      in if at_threshold (cc_batch s2) then conc_flush s2 else s2)"

definition conc_publish :: "bundled_message \<Rightarrow> conc_actor \<Rightarrow> conc_actor" where
  "conc_publish m s =
     (let s1 = add_msg_and_flush m s
      in if batch_is_empty (cc_batch s1) then s1\<lparr>cc_timer := None\<rparr>
         else if cc_timer s1 = None
         then s1\<lparr>cc_timer := Some (delay_threshold (batch_opts (cc_batch s1)))\<rparr>
         else s1)"

text \<open>A task of the set ends; \<open>join_all\<close> waits for all of them.\<close>

definition conc_join :: "publish_client \<Rightarrow> nat \<Rightarrow> conc_actor \<Rightarrow> conc_actor" where
  "conc_join client i s =
     s\<lparr>cc_fates := cc_fates s @ fst (run_task client (cc_inflight s ! i)),
       cc_inflight := take i (cc_inflight s) @ drop (Suc i) (cc_inflight s)\<rparr>"

definition conc_join_all :: "publish_client \<Rightarrow> conc_actor \<Rightarrow> conc_actor" where
  "conc_join_all client s =
     s\<lparr>cc_fates := cc_fates s @ concat (map (fst \<circ> run_task client) (cc_inflight s)),
       cc_inflight := []\<rparr>"

fun conc_msg :: "publish_client \<Rightarrow> batch_actor_cmd option \<Rightarrow> conc_actor \<Rightarrow> conc_actor" where
  "conc_msg client (Some (Publish m)) s = conc_publish m s"
| "conc_msg client (Some (Flush tx)) s =
     (let s1 = conc_join_all client (conc_flush s)
      in s1\<lparr>cc_timer := None, cc_flushed := cc_flushed s1 @ [tx]\<rparr>)"
| "conc_msg client (Some ResumePublish) s = s"
| "conc_msg client None s = (conc_join_all client (conc_flush s))\<lparr>cc_stopped := True\<rparr>"

definition conc_step :: "publish_client \<Rightarrow> actor_event \<Rightarrow> conc_actor \<Rightarrow> conc_actor option" where
  "conc_step client ev s =
     (if cc_stopped s then None
      else case ev of
        InflightDone i \<Rightarrow> if i < length (cc_inflight s) then Some (conc_join client i s) else None
      | TimerFired \<Rightarrow>
          (if cc_timer s = None then None else Some ((conc_flush s)\<lparr>cc_timer := None\<rparr>))
      | Received c \<Rightarrow> Some (conc_msg client c s))"

inductive conc_reach ::
  "publish_client \<Rightarrow> string \<Rightarrow> batching_options \<Rightarrow> batch_actor_cmd list \<Rightarrow> conc_actor \<Rightarrow> bool"
  for c topic opts where
  conc_start: "conc_reach c topic opts [] (conc_new topic opts)"
| conc_event: "conc_reach c topic opts cmds s \<Longrightarrow> conc_step c ev s = Some s' \<Longrightarrow>
    conc_reach c topic opts (cmds @ received ev) s'"

definition conc_books :: "bundled_message list \<Rightarrow> conc_actor \<Rightarrow> bool" where
  "conc_books ms s \<longleftrightarrow>
     mset (map bm_tx ms) =
       mset (map fst (cc_fates s)) + mset (concat (map task_txs (cc_inflight s))) +
       mset (map bm_tx (messages (cc_batch s)))"

definition conc_limits ::
  "string \<Rightarrow> batching_options \<Rightarrow> bundled_message list \<Rightarrow> conc_actor \<Rightarrow> bool" where
  "conc_limits topic opts ms s \<longleftrightarrow>
     (messages_fit topic opts ms \<longrightarrow>
       batch_counted topic opts (cc_batch s) \<and>
       (\<forall>t \<in> set (cc_sent s). within_limits topic opts (task_msgs t)))"

definition conc_ready :: "conc_actor \<Rightarrow> bool" where
  "conc_ready s \<longleftrightarrow> messages (cc_batch s) = [] \<or> \<not> at_threshold (cc_batch s) \<and> cc_timer s \<noteq> None"

lemma conc_flush_simps [simp]:
  "messages (cc_batch (conc_flush s)) = []"
  "cc_timer (conc_flush s) = cc_timer s"
  "cc_fates (conc_flush s) = cc_fates s"
  "cc_stopped (conc_flush s) = cc_stopped s"
  "cc_flushed (conc_flush s) = cc_flushed s"
  by (auto simp: conc_flush_def batch_is_empty_def drain_messages_def Let_def)

lemma conc_flush_books: "conc_books ms (conc_flush s) = conc_books ms s"
  by (auto simp: conc_books_def conc_flush_def batch_is_empty_def drain_messages_def Let_def)

lemma conc_push_books:
  "conc_books (ms @ [m]) (s\<lparr>cc_batch := batch_push (cc_batch s) m\<rparr>) = conc_books ms s"
  by (simp add: conc_books_def batch_push_def)

lemma add_msg_books: "conc_books (ms @ [m]) (add_msg_and_flush m s) = conc_books ms s"
  by (simp add: add_msg_and_flush_def Let_def conc_flush_books conc_push_books)

lemma concat_remove:
  "i < length ts \<Longrightarrow>
     mset (concat (map f ts)) = mset (f (ts ! i)) + mset (concat (map f (take i ts @ drop (Suc i) ts)))"
  by (induction ts arbitrary: i) (auto simp: less_Suc_eq_0_disj)

lemma conc_join_books:
  "i < length (cc_inflight s) \<Longrightarrow> conc_books ms (conc_join c i s) = conc_books ms s"
  using concat_remove [of i "cc_inflight s" task_txs] run_task_txs [of c "cc_inflight s ! i"]
  by (simp add: conc_books_def conc_join_def ac_simps)

lemma conc_join_all_books: "conc_books ms (conc_join_all c s) = conc_books ms s"
proof -
  have "map fst (concat (map (fst \<circ> run_task c) ts)) = concat (map task_txs ts)" for ts
    by (induction ts) (auto simp: run_task_txs)
  then have "mset (map fst (concat (map (fst \<circ> run_task c) (cc_inflight s)))) =
      mset (concat (map task_txs (cc_inflight s)))" by simp
  then show ?thesis
    by (simp add: conc_books_def conc_join_all_def)
qed

lemma conc_flush_limits:
  "conc_limits topic opts ms s \<Longrightarrow> conc_limits topic opts ms (conc_flush s)"
  by (auto simp: conc_limits_def conc_flush_def batch_is_empty_def drain_messages_def Let_def
      batch_counted_def split: if_splits)

lemma add_msg_limits:
  assumes "conc_limits topic opts ms s" "conc_ready s"
  shows "conc_limits topic opts (ms @ [m]) (add_msg_and_flush m s)"
proof (cases "messages_fit topic opts (ms @ [m])")
  case fit: True
  then have fits: "messages_fit topic opts ms" "messages_fit topic opts [m]"
    by (auto simp: messages_fit_def)
  define s1 where "s1 = (if can_add (cc_batch s) m then s else conc_flush s)"
  define s2 where "s2 = s1\<lparr>cc_batch := batch_push (cc_batch s1) m\<rparr>"
  have "conc_limits topic opts ms s1"
    using assms(1) conc_flush_limits by (simp add: s1_def)
  then have s1: "batch_counted topic opts (cc_batch s1)"
      "\<forall>t \<in> set (cc_sent s1). within_limits topic opts (task_msgs t)"
    using fits(1) by (auto simp: conc_limits_def)
  have "messages (cc_batch s1) = [] \<or> \<not> at_threshold (cc_batch s1) \<and> can_add (cc_batch s1) m"
    using assms(2) by (auto simp: s1_def conc_ready_def)
  then have "conc_limits topic opts (ms @ [m]) s2"
    using batch_push_counted [OF s1(1) fits(2)] s1(2) by (simp add: s2_def conc_limits_def)
  then have "conc_limits topic opts (ms @ [m]) (if at_threshold (cc_batch s2) then conc_flush s2 else s2)"
    using conc_flush_limits by simp
  then show ?thesis by (simp only: add_msg_and_flush_def s1_def s2_def Let_def)
qed (simp add: conc_limits_def)

lemma conc_publish_ready: "conc_ready (conc_publish m s)"
proof -
  have "messages (cc_batch (add_msg_and_flush m s)) = [] \<or> \<not> at_threshold (cc_batch (add_msg_and_flush m s))"
    by (auto simp: add_msg_and_flush_def Let_def)
  then show ?thesis
    by (auto simp: conc_ready_def conc_publish_def Let_def batch_is_empty_def)
qed

lemma conc_publish_keeps:
  "conc_books ms (conc_publish m s) = conc_books ms (add_msg_and_flush m s)"
  "conc_limits topic opts ms (conc_publish m s) = conc_limits topic opts ms (add_msg_and_flush m s)"
  by (auto simp: conc_publish_def conc_books_def conc_limits_def Let_def)

lemma conc_frame:
  "conc_books ms (s\<lparr>cc_timer := t\<rparr>) = conc_books ms s"
  "conc_books ms (s\<lparr>cc_timer := t, cc_flushed := f\<rparr>) = conc_books ms s"
  "conc_books ms (s\<lparr>cc_stopped := b\<rparr>) = conc_books ms s"
  "conc_limits topic opts ms (s\<lparr>cc_timer := t\<rparr>) = conc_limits topic opts ms s"
  "conc_limits topic opts ms (s\<lparr>cc_timer := t, cc_flushed := f\<rparr>) = conc_limits topic opts ms s"
  "conc_limits topic opts ms (s\<lparr>cc_stopped := b\<rparr>) = conc_limits topic opts ms s"
  "conc_limits topic opts ms (conc_join_all c s) = conc_limits topic opts ms s"
  "conc_limits topic opts ms (conc_join c i s) = conc_limits topic opts ms s"
  by (simp_all add: conc_books_def conc_limits_def conc_join_all_def conc_join_def)

lemma conc_step_inv:
  assumes "conc_books (published cmds) s" "conc_limits topic opts (published cmds) s" "conc_ready s"
    and "conc_step c ev s = Some s'"
  shows "conc_books (published (cmds @ received ev)) s' \<and>
    conc_limits topic opts (published (cmds @ received ev)) s' \<and> conc_ready s'"
proof (cases ev)
  case (InflightDone i)
  then have "s' = conc_join c i s" "i < length (cc_inflight s)"
    using assms(4) by (auto simp: conc_step_def split: if_splits)
  with InflightDone assms show ?thesis
    by (simp add: conc_join_books conc_frame) (simp add: conc_ready_def conc_join_def)
next
  case TimerFired
  then have "s' = (conc_flush s)\<lparr>cc_timer := None\<rparr>"
    using assms(4) by (auto simp: conc_step_def split: if_splits)
  with TimerFired assms show ?thesis
    by (simp add: conc_frame conc_flush_books conc_flush_limits conc_ready_def)
next
  case (Received cmd)
  then have s': "s' = conc_msg c cmd s"
    using assms(4) by (auto simp: conc_step_def split: if_splits)
  show ?thesis
  proof (cases "(c, cmd, s)" rule: conc_msg.cases)
    case (1 client m s0)
    with Received s' assms show ?thesis
      by (simp add: conc_publish_keeps add_msg_books add_msg_limits conc_publish_ready)
  next
    case (2 client tx s0)
    with Received s' assms show ?thesis
      by (simp add: conc_frame conc_join_all_books conc_flush_books conc_flush_limits Let_def)
        (simp add: conc_ready_def conc_join_all_def)
  next
    case (3 client s0)
    with Received s' assms show ?thesis by simp
  next
    case (4 client s0)
    with Received s' assms show ?thesis
      by (simp add: conc_frame conc_join_all_books conc_flush_books conc_flush_limits)
        (simp add: conc_ready_def conc_join_all_def)
  qed
qed

lemma conc_reach_inv:
  "conc_reach c topic opts cmds s \<Longrightarrow>
     conc_books (published cmds) s \<and> conc_limits topic opts (published cmds) s \<and> conc_ready s"
proof (induction rule: conc_reach.induct)
  case conc_start
  then show ?case
    by (simp add: conc_books_def conc_limits_def conc_ready_def conc_new_def batch_new_def
        batch_counted_def)
qed (use conc_step_inv in blast)

text \<open>
  Messages without ordering key are published soundly: their senders are exactly those
  resolved or dropped, those of the calls in flight and those of the batch, with multiplicity; a
  waiting batch has its timer armed; every call obeys the limits of the options (if no message
  overflows the byte counter); and the handler of a flush resolves everything published before it.
\<close>

theorem concurrent_publish_sound:
  assumes "conc_reach c topic opts cmds s"
  shows "mset (map bm_tx (published cmds)) =
      mset (map fst (cc_fates s)) + mset (concat (map task_txs (cc_inflight s))) +
      mset (map bm_tx (messages (cc_batch s))) \<and>
    (messages (cc_batch s) \<noteq> [] \<longrightarrow> cc_timer s \<noteq> None) \<and>
    (messages_fit topic opts (published cmds) \<longrightarrow>
      (\<forall>t \<in> set (cc_sent s). within_limits topic opts (task_msgs t))) \<and>
    mset (map fst (cc_fates (conc_msg c (Some (Flush tx)) s))) = mset (map bm_tx (published cmds))"
proof -
  have inv: "conc_books (published cmds) s" "conc_limits topic opts (published cmds) s" "conc_ready s"
    using conc_reach_inv [OF assms] by auto
  have "conc_books (published cmds) (conc_msg c (Some (Flush tx)) s)"
    using inv(1) by (simp add: conc_frame conc_join_all_books conc_flush_books Let_def)
  then have "mset (map fst (cc_fates (conc_msg c (Some (Flush tx)) s))) = mset (map bm_tx (published cmds))"
    by (simp add: conc_books_def conc_join_all_def Let_def)
  with inv show ?thesis
    by (simp add: conc_books_def conc_limits_def conc_ready_def) blast
qed

definition conc_sample :: conc_actor where
  "conc_sample = foldl (\<lambda>s n. conc_publish (sample_message n) s) (conc_new ''t'' sample_options) [0, 1, 2]"

lemma conc_sample_reach:
  "conc_reach sample_client ''t'' sample_options (map (\<lambda>n. Publish (sample_message n)) [0, 1, 2]) conc_sample"
proof -
  have step: "conc_reach sample_client ''t'' sample_options (cmds @ [Publish m]) (conc_publish m s)"
    if "conc_reach sample_client ''t'' sample_options cmds s" "\<not> cc_stopped s" for cmds s m
    using conc_event [OF that(1), of "Received (Some (Publish m))"] that(2) by (simp add: conc_step_def)
  have running: "cc_stopped (conc_publish m s) = cc_stopped s" for m s
    by (simp add: conc_publish_def add_msg_and_flush_def Let_def)
  show ?thesis
    using step [OF step [OF step [OF conc_start]]]
    by (simp add: conc_sample_def running conc_new_def)
qed

theorem concurrent_publish_sound_witness:
  "length (cc_sent conc_sample) = 1 \<and> messages (cc_batch conc_sample) = [sample_message 2] \<and>
   cc_timer conc_sample \<noteq> None \<and>
   list_all (\<lambda>t. within_limits ''t'' sample_options (task_msgs t)) (cc_sent conc_sample) \<and>
   mset (map fst (cc_fates (conc_msg sample_client (Some (Flush 7)) conc_sample))) = {#0, 1, 2#}"
proof -
  have eval: "length (cc_sent conc_sample) = 1" "messages (cc_batch conc_sample) = [sample_message 2]"
    by (simp_all add: conc_sample_def conc_publish_def add_msg_and_flush_def conc_flush_def conc_new_def
        seq_eval sample_defs)
  have pub: "published (map (\<lambda>n. Publish (sample_message n)) [0, 1, 2]) = map sample_message [0, 1, 2]"
    by (simp add: published_def)
  have fit: "messages_fit ''t'' sample_options (map sample_message [0, 1, 2])"
    by (simp add: messages_fit_def sample_defs message_size_def)
  have tx: "bm_tx (sample_message n) = n" for n
    by (simp add: sample_message_def)
  show ?thesis
    using concurrent_publish_sound [OF conc_sample_reach, of 7] eval fit pub tx by (simp add: list_all_iff)
qed

section \<open>The dispatcher\<close>

text \<open>The dispatcher owns one actor per ordering key, made on the first message with that key;
  \<open>dp_actors\<close> has what was put into the channel of each. \<open>alive\<close> tells whether the
  receiver of a channel still exists; if it does not, the dispatcher stops. The channels that a flush
  opens to the actors carry its number.\<close>

datatype to_dispatcher = DPublish bundled_message | DFlush nat | DResume string

datatype actor_kind = ConcurrentActor | SequentialActor

definition spawn_actor :: "string \<Rightarrow> actor_kind" where
  "spawn_actor key = (if key = [] then ConcurrentActor else SequentialActor)"

record dispatcher =
  dp_actors :: "(string \<times> batch_actor_cmd list) list"
  dp_waits :: "(nat \<times> string list) list"
  dp_stopped :: bool

definition dispatcher_new :: dispatcher where
  "dispatcher_new = \<lparr>dp_actors = [], dp_waits = [], dp_stopped = False\<rparr>"

definition send_to :: "string \<Rightarrow> batch_actor_cmd \<Rightarrow> dispatcher \<Rightarrow> dispatcher" where
  "send_to k c d =
     d\<lparr>dp_actors := map (\<lambda>(k', cs). if k' = k then (k', cs @ [c]) else (k', cs)) (dp_actors d)\<rparr>"

fun flush_actors :: "(string \<Rightarrow> bool) \<Rightarrow> nat \<Rightarrow> string list \<Rightarrow> dispatcher \<Rightarrow> bool \<times> dispatcher" where
  "flush_actors alive tx [] d = (True, d)"
| "flush_actors alive tx (k # ks) d =
     (if alive k then flush_actors alive tx ks (send_to k (Flush tx) d) else (False, d))"

fun dispatch :: "(string \<Rightarrow> bool) \<Rightarrow> to_dispatcher \<Rightarrow> dispatcher \<Rightarrow> dispatcher" where
  "dispatch alive (DPublish m) d =
     (let k = msg_ordering_key (bm_msg m);
          d1 = (if map_of (dp_actors d) k = None then d\<lparr>dp_actors := dp_actors d @ [(k, [])]\<rparr> else d)
      in if alive k then send_to k (Publish m) d1 else d1\<lparr>dp_stopped := True\<rparr>)"
| "dispatch alive (DFlush tx) d =
     (case flush_actors alive tx (map fst (dp_actors d)) d of
        (True, d1) \<Rightarrow> d1\<lparr>dp_waits := dp_waits d @ [(tx, map fst (dp_actors d))]\<rparr>
      | (False, d1) \<Rightarrow> d1\<lparr>dp_stopped := True\<rparr>)"
| "dispatch alive (DResume k) d =
     (if map_of (dp_actors d) k = None then d
      else if alive k then send_to k ResumePublish d else d\<lparr>dp_stopped := True\<rparr>)"

definition dispatcher_run :: "(string \<Rightarrow> bool) \<Rightarrow> to_dispatcher list \<Rightarrow> dispatcher" where
  "dispatcher_run alive cmds =
     foldl (\<lambda>d c. if dp_stopped d then d else dispatch alive c d) dispatcher_new cmds"

text \<open>What the actor of one key should receive: the messages with that key, in order, and after the
  first of them every flush and the resumes of the key.\<close>

fun key_step :: "string \<Rightarrow> batch_actor_cmd list option \<Rightarrow> to_dispatcher \<Rightarrow> batch_actor_cmd list option" where
  "key_step k ch (DPublish m) =
     (if msg_ordering_key (bm_msg m) = k
      then Some ((case ch of None \<Rightarrow> [] | Some cs \<Rightarrow> cs) @ [Publish m]) else ch)"
| "key_step k ch (DFlush tx) = map_option (\<lambda>cs. cs @ [Flush tx]) ch"
| "key_step k ch (DResume k') = (if k' = k then map_option (\<lambda>cs. cs @ [ResumePublish]) ch else ch)"

definition key_channel :: "string \<Rightarrow> to_dispatcher list \<Rightarrow> batch_actor_cmd list option" where
  "key_channel k cmds = foldl (key_step k) None cmds"

definition all_published :: "to_dispatcher list \<Rightarrow> bundled_message list" where
  "all_published cmds = concat (map (\<lambda>c. case c of DPublish m \<Rightarrow> [m] | _ \<Rightarrow> []) cmds)"

lemma map_of_send_to [simp]:
  "map_of (dp_actors (send_to k c d)) k' =
     (if k' = k then map_option (\<lambda>cs. cs @ [c]) (map_of (dp_actors d) k') else map_of (dp_actors d) k')"
proof -
  have "map_of (map (\<lambda>(k', cs). if k' = k then (k', cs @ [c]) else (k', cs)) xs) k' =
     (if k' = k then map_option (\<lambda>cs. cs @ [c]) (map_of xs k') else map_of xs k')" for xs
    by (induction xs) auto
  then show ?thesis by (simp add: send_to_def)
qed

lemma map_fst_send_to [simp]: "map fst (dp_actors (send_to k c d)) = map fst (dp_actors d)"
  by (simp add: send_to_def comp_def case_prod_beta if_distrib)

lemma dp_stopped_send_to [simp]: "dp_stopped (send_to k c d) = dp_stopped d"
  by (simp add: send_to_def)

lemma flush_actors_alive:
  assumes "\<forall>k. alive k" "distinct ks"
  shows "fst (flush_actors alive tx ks d)"
    and "map_of (dp_actors (snd (flush_actors alive tx ks d))) k =
      (if k \<in> set ks then map_option (\<lambda>cs. cs @ [Flush tx]) (map_of (dp_actors d) k)
       else map_of (dp_actors d) k)"
    and "map fst (dp_actors (snd (flush_actors alive tx ks d))) = map fst (dp_actors d)"
    and "dp_stopped (snd (flush_actors alive tx ks d)) = dp_stopped d"
  using assms
  by (induction ks arbitrary: d) auto

definition routes :: "to_dispatcher list \<Rightarrow> dispatcher \<Rightarrow> bool" where
  "routes cmds d \<longleftrightarrow>
     \<not> dp_stopped d \<and> distinct (map fst (dp_actors d)) \<and>
     (\<forall>k. map_of (dp_actors d) k = key_channel k cmds)"

lemma routes_dispatch:
  assumes "\<forall>k. alive k" "routes cmds d"
  shows "routes (cmds @ [c]) (dispatch alive c d)"
proof (cases c)
  case (DPublish m)
  then show ?thesis
    using assms
    by (auto simp: routes_def key_channel_def Let_def map_add_def map_of_eq_None_iff
        split: option.splits) (metis option.distinct(1) weak_map_of_SomeI)
next
  case (DFlush tx)
  have ok: "distinct (map fst (dp_actors d))" using assms(2) by (simp add: routes_def)
  note fl = flush_actors_alive [OF assms(1) ok, of tx d]
  have none: "map_of (dp_actors d) k = None" if "k \<notin> set (map fst (dp_actors d))" for k
    using that by (simp add: map_of_eq_None_iff)
  show ?thesis
    using DFlush assms(2) fl none
    by (cases "flush_actors alive tx (map fst (dp_actors d)) d")
      (auto simp: routes_def key_channel_def)
next
  case (DResume k)
  then show ?thesis
    using assms
    by (auto simp: routes_def key_channel_def)
qed

lemma dispatcher_routes: "\<forall>k. alive k \<Longrightarrow> routes cmds (dispatcher_run alive cmds)"
proof (induction cmds rule: rev_induct)
  case Nil
  then show ?case
    by (simp add: routes_def dispatcher_run_def dispatcher_new_def key_channel_def)
next
  case (snoc c cmds)
  then have "routes cmds (dispatcher_run alive cmds)" by blast
  with routes_dispatch [OF snoc.prems this, of c] show ?case
    by (simp add: dispatcher_run_def routes_def)
qed

lemma key_channel_published:
  "published (case key_channel k cmds of None \<Rightarrow> [] | Some cs \<Rightarrow> cs) =
     filter (\<lambda>m. msg_ordering_key (bm_msg m) = k) (all_published cmds)"
proof (induction cmds rule: rev_induct)
  case Nil
  then show ?case by (simp add: key_channel_def all_published_def)
next
  case (snoc c cmds)
  then show ?case
    by (cases c) (auto simp: key_channel_def all_published_def split: option.splits)
qed

lemma published_prefix: "prefix cs ch \<Longrightarrow> prefix (published cs) (published ch)"
  by (auto simp: prefix_def)

text \<open>
  C23. End to end, the publisher keeps the order of each ordering key: take any commands given to the
  dispatcher, any nonempty key, any part of what the actor of that key has received so far, and any
  state this actor can be in. The messages it has sent are, in the order of the calls, a subsequence of
  the messages published with that key. (Actors end only when their channels close, so that all
  receivers exist while the dispatcher runs.)
\<close>

theorem publisher_keeps_key_order:
  assumes "\<forall>k. alive k"
    and "map_of (dp_actors (dispatcher_run alive cmds)) k = Some ch" "spawn_actor k = SequentialActor"
    and "prefix cs ch" "seq_reach c topic opts cs s"
  shows "subseq (sent_pairs (sq_trace s))
    (map as_pair (filter (\<lambda>m. msg_ordering_key (bm_msg m) = k) (all_published cmds)))"
proof -
  have "key_channel k cmds = Some ch"
    using dispatcher_routes [OF assms(1), of cmds] assms(2) by (simp add: routes_def)
  then have pub: "published ch = filter (\<lambda>m. msg_ordering_key (bm_msg m) = k) (all_published cmds)"
    using key_channel_published [of k cmds] by simp
  have "subseq (sent_pairs (sq_trace s)) (map as_pair (published cs))"
    using ordered_publish_keeps_order [OF assms(5)] by (rule subseq_append_left)
  moreover have "subseq (map as_pair (published cs)) (map as_pair (published ch))"
    using published_prefix [OF assms(4)] by (auto simp: prefix_def)
  ultimately show ?thesis
    using pub subseq_order.trans by metis
qed

definition other_message :: bundled_message where
  "other_message = \<lparr>bm_msg = \<lparr>msg_data = [], msg_attributes = [], msg_ordering_key = ''z''\<rparr>, bm_tx = 99\<rparr>"

definition dispatch_sample :: "to_dispatcher list" where
  "dispatch_sample = DPublish other_message #
     map (\<lambda>c. case c of Publish m \<Rightarrow> DPublish m | Flush tx \<Rightarrow> DFlush tx | ResumePublish \<Rightarrow> DResume ''k'') sample_cmds"

theorem publisher_keeps_key_order_witness:
  "map snd (sent_pairs (sq_trace sample_state)) = [0, 1, 2, 3] \<and>
   subseq (sent_pairs (sq_trace sample_state))
    (map as_pair (filter (\<lambda>m. msg_ordering_key (bm_msg m) = ''k'') (all_published dispatch_sample)))"
proof -
  have ch: "map_of (dp_actors (dispatcher_run (\<lambda>_. True) dispatch_sample)) ''k'' = Some sample_cmds"
    by (simp add: dispatcher_run_def dispatch_sample_def sample_cmds_def sample_events_def
        sample_message_def other_message_def dispatcher_new_def send_to_def Let_def)
  have "spawn_actor ''k'' = SequentialActor" by (simp add: spawn_actor_def)
  from publisher_keeps_key_order [OF _ ch this _ sample_reach] sample_facts show ?thesis by simp
qed

end
