(* ===== verification/Pubsub_Leases.thy ===== *)
theory Pubsub_Leases
  imports Rpc_Error "HOL-Library.AList" "HOL-Library.Multiset"
begin

text \<open>
  Lease management of the Pub/Sub subscriber, \<open>pubsub/src/subscriber\<close>:
  \<open>lease_state.rs\<close> with its two kinds of leases, the actions of \<open>handler.rs\<close> and the
  loop of \<open>lease_loop.rs\<close>.

  A \<open>HashMap\<close> is an association list in its iteration order. The sender of the result of an
  exactly-once message is a number; its fate is the result sent, or that it was dropped. The requests
  of the leaser are logged, not made: their answers come back as events. \<open>max_lease\<close> is
  clamped to a century by the builder so that the sums of instants do not overflow; they are plain sums
  here.
\<close>

section \<open>Batches of identifiers\<close>

definition MAX_IDS_PER_RPC :: nat where "MAX_IDS_PER_RPC = 1000"
definition EXTEND_PERIOD :: duration where "EXTEND_PERIOD = from_secs 3"
definition EXTEND_BUFFER :: duration where "EXTEND_BUFFER = from_secs 2"

type_synonym ack_id = string

text \<open>The \<open>chunks\<close> of a slice.\<close>

fun chunks :: "nat \<Rightarrow> 'a list \<Rightarrow> 'a list list" where
  "chunks n xs = (if xs = [] \<or> n = 0 then [] else take n xs # chunks n (drop n xs))"

declare chunks.simps [simp del]

definition batch_ids :: "ack_id list \<Rightarrow> ack_id list list" where
  "batch_ids ids = chunks MAX_IDS_PER_RPC ids"

lemma chunks_Nil [simp]: "chunks n [] = []"
  by (simp add: chunks.simps)


lemma chunks_append: "0 < n \<Longrightarrow> length xs = n \<Longrightarrow> chunks n (xs @ ys) = xs # chunks n ys"
  by (subst chunks.simps) auto

lemma chunks_small: "xs \<noteq> [] \<Longrightarrow> length xs \<le> n \<Longrightarrow> chunks n xs = [xs]"
  by (subst chunks.simps) (cases n, auto)

lemma chunks_bounds: "c \<in> set (chunks n xs) \<Longrightarrow> c \<noteq> [] \<and> length c \<le> n"
proof (induction n xs rule: chunks.induct)
  case (1 n xs)
  show ?case
  proof (cases "xs = [] \<or> n = 0")
    case True
    with 1(2) show ?thesis by (simp add: chunks.simps)
  next
    case False
    then have "chunks n xs = take n xs # chunks n (drop n xs)" by (simp add: chunks.simps)
    with 1 False show ?thesis by auto
  qed
qed

section \<open>At-least-once leases\<close>

record alo_info =
  al_receive_time :: instant
  al_last_extension :: "instant option"

definition alo_info_new :: "instant \<Rightarrow> alo_info" where
  "alo_info_new now = \<lparr>al_receive_time = now, al_last_extension = None\<rparr>"

record alo_leases =
  al_under_lease :: "(ack_id \<times> alo_info) list"
  al_to_ack :: "ack_id list"
  al_to_nack :: "ack_id list"

definition alo_default :: alo_leases where
  "alo_default = \<lparr>al_under_lease = [], al_to_ack = [], al_to_nack = []\<rparr>"

definition alo_add :: "ack_id \<Rightarrow> alo_info \<Rightarrow> alo_leases \<Rightarrow> alo_leases" where
  "alo_add i info l = l\<lparr>al_under_lease := AList.update i info (al_under_lease l)\<rparr>"

definition alo_ack :: "ack_id \<Rightarrow> alo_leases \<Rightarrow> alo_leases" where
  "alo_ack i l = l\<lparr>al_under_lease := AList.delete i (al_under_lease l), al_to_ack := al_to_ack l @ [i]\<rparr>"

definition alo_nack :: "ack_id \<Rightarrow> alo_leases \<Rightarrow> alo_leases" where
  "alo_nack i l =
     (if map_of (al_under_lease l) i \<noteq> None
      then l\<lparr>al_under_lease := AList.delete i (al_under_lease l), al_to_nack := al_to_nack l @ [i]\<rparr>
      else l)"

definition alo_needs_flush :: "alo_leases \<Rightarrow> bool" where
  "alo_needs_flush l \<longleftrightarrow>
     MAX_IDS_PER_RPC \<le> length (al_to_ack l) \<or> MAX_IDS_PER_RPC \<le> length (al_to_nack l)"

definition alo_drain :: "alo_leases \<Rightarrow> (ack_id list \<times> ack_id list) \<times> alo_leases" where
  "alo_drain l = ((al_to_ack l, al_to_nack l), l\<lparr>al_to_ack := [], al_to_nack := []\<rparr>)"

definition alo_update_last_extension :: "instant \<Rightarrow> ack_id list \<Rightarrow> alo_leases \<Rightarrow> alo_leases" where
  "alo_update_last_extension now ids l =
     l\<lparr>al_under_lease := map (\<lambda>(i, info).
       (i, if i \<in> set ids then info\<lparr>al_last_extension := Some now\<rparr> else info)) (al_under_lease l)\<rparr>"

text \<open>The closure of \<open>HashMap::retain\<close>, with the batches it fills.\<close>

definition lease_long :: "instant \<Rightarrow> duration \<Rightarrow> instant option \<Rightarrow> bool" where
  "lease_long now max_extension ext =
     is_some_and (\<lambda>i. now + EXTEND_PERIOD + EXTEND_BUFFER < i + max_extension) ext"

definition push_id :: "ack_id \<Rightarrow> ack_id list list \<times> ack_id list \<Rightarrow> ack_id list list \<times> ack_id list" where
  "push_id i bb =
     (case bb of (batches, batch) \<Rightarrow>
        let batch' = batch @ [i]
        in if length batch' = MAX_IDS_PER_RPC then (batches @ [batch'], []) else (batches, batch'))"

fun alo_retain_loop ::
  "instant \<Rightarrow> duration \<Rightarrow> duration \<Rightarrow> (ack_id \<times> alo_info) list \<Rightarrow>
   ack_id list list \<times> ack_id list \<Rightarrow>
   (ack_id \<times> alo_info) list \<times> ack_id list list \<times> ack_id list" where
  "alo_retain_loop now max_lease max_extension [] bb = ([], bb)"
| "alo_retain_loop now max_lease max_extension ((i, info) # rest) bb =
     (if al_receive_time info + max_lease < now
      then alo_retain_loop now max_lease max_extension rest bb
      else case alo_retain_loop now max_lease max_extension rest
                  (if lease_long now max_extension (al_last_extension info) then bb else push_id i bb) of
             (kept, bb') \<Rightarrow> ((i, info) # kept, bb'))"

definition close_batches :: "ack_id list list \<times> ack_id list \<Rightarrow> ack_id list list" where
  "close_batches bb = (case bb of (batches, batch) \<Rightarrow> if batch \<noteq> [] then batches @ [batch] else batches)"

definition alo_retain ::
  "instant \<Rightarrow> duration \<Rightarrow> duration \<Rightarrow> alo_leases \<Rightarrow> ack_id list list \<times> alo_leases" where
  "alo_retain now max_lease max_extension l =
     (case alo_retain_loop now max_lease max_extension (al_under_lease l) ([], []) of
        (kept, bb) \<Rightarrow> (close_batches bb, l\<lparr>al_under_lease := kept\<rparr>))"

definition alo_evict_and_drain :: "alo_leases \<Rightarrow> ack_id list \<times> ack_id list list" where
  "alo_evict_and_drain l = (al_to_ack l, batch_ids (al_to_nack l @ map fst (al_under_lease l)))"

section \<open>Exactly-once leases\<close>

datatype ack_error = LeaseExpired | AckRpc error | ShutdownBeforeAck | AckShutdown string

type_synonym ack_result = "(ack_error, unit) result"

datatype ack_fate = ResultSent ack_result | ResultDropped

text \<open>What the handler waiting for a confirmation gets.\<close>

definition confirmed_result :: "ack_fate \<Rightarrow> ack_result" where
  "confirmed_result f =
     (case f of ResultSent r \<Rightarrow> r | ResultDropped \<Rightarrow> Err (AckShutdown ''channel closed''))"

datatype message_status = Leased | Acking | Nacking

record eo_info =
  eo_receive_time :: instant
  eo_result_tx :: nat
  eo_status :: message_status
  eo_last_extension :: "instant option"

definition eo_info_new :: "instant \<Rightarrow> nat \<Rightarrow> eo_info" where
  "eo_info_new now tx = \<lparr>eo_receive_time = now, eo_result_tx = tx, eo_status = Leased,
     eo_last_extension = None\<rparr>"

record eo_leases =
  eo_under_lease :: "(ack_id \<times> eo_info) list"
  eo_to_ack :: "ack_id list"
  eo_to_nack :: "ack_id list"
  eo_fates :: "(nat \<times> ack_fate) list"

definition eo_default :: eo_leases where
  "eo_default = \<lparr>eo_under_lease = [], eo_to_ack = [], eo_to_nack = [], eo_fates = []\<rparr>"

text \<open>Inserting over an entry drops it, and its sender with it.\<close>

definition eo_add :: "ack_id \<Rightarrow> eo_info \<Rightarrow> eo_leases \<Rightarrow> eo_leases" where
  "eo_add i info l =
     l\<lparr>eo_under_lease := AList.update i info (eo_under_lease l),
       eo_fates := eo_fates l @
         (case map_of (eo_under_lease l) i of
            None \<Rightarrow> [] | Some old \<Rightarrow> [(eo_result_tx old, ResultDropped)])\<rparr>"

definition eo_confirm :: "ack_id \<Rightarrow> ack_result \<Rightarrow> eo_leases \<Rightarrow> eo_leases" where
  "eo_confirm i r l =
     (case map_of (eo_under_lease l) i of
        None \<Rightarrow> l
      | Some info \<Rightarrow>
          l\<lparr>eo_under_lease := AList.delete i (eo_under_lease l),
            eo_fates := eo_fates l @ [(eo_result_tx info, ResultSent r)]\<rparr>)"

definition eo_set_status :: "ack_id \<Rightarrow> message_status \<Rightarrow> eo_leases \<Rightarrow> eo_leases" where
  "eo_set_status i st l =
     l\<lparr>eo_under_lease := map (\<lambda>(j, info). (j, if j = i then info\<lparr>eo_status := st\<rparr> else info))
       (eo_under_lease l)\<rparr>"

definition eo_ack :: "ack_id \<Rightarrow> eo_leases \<Rightarrow> eo_leases" where
  "eo_ack i l =
     (if map_of (eo_under_lease l) i = None then l
      else (eo_set_status i Acking l)\<lparr>eo_to_ack := eo_to_ack l @ [i]\<rparr>)"

definition eo_nack :: "ack_id \<Rightarrow> eo_leases \<Rightarrow> eo_leases" where
  "eo_nack i l =
     (if map_of (eo_under_lease l) i = None then l
      else (eo_set_status i Nacking l)\<lparr>eo_to_nack := eo_to_nack l @ [i]\<rparr>)"

definition eo_needs_flush :: "eo_leases \<Rightarrow> bool" where
  "eo_needs_flush l \<longleftrightarrow>
     MAX_IDS_PER_RPC \<le> length (eo_to_ack l) \<or> MAX_IDS_PER_RPC \<le> length (eo_to_nack l)"

definition eo_drain :: "eo_leases \<Rightarrow> (ack_id list \<times> ack_id list) \<times> eo_leases" where
  "eo_drain l = ((eo_to_ack l, eo_to_nack l), l\<lparr>eo_to_ack := [], eo_to_nack := []\<rparr>)"

definition eo_update_last_extension :: "instant \<Rightarrow> ack_id list \<Rightarrow> eo_leases \<Rightarrow> eo_leases" where
  "eo_update_last_extension now ids l =
     l\<lparr>eo_under_lease := map (\<lambda>(i, info).
       (i, if i \<in> set ids then info\<lparr>eo_last_extension := Some now\<rparr> else info)) (eo_under_lease l)\<rparr>"

text \<open>The closure of \<open>HashMap::extract_if\<close>: the extracted entries are the expired ones.\<close>

fun eo_retain_loop ::
  "instant \<Rightarrow> duration \<Rightarrow> duration \<Rightarrow> (ack_id \<times> eo_info) list \<Rightarrow>
   ack_id list list \<times> ack_id list \<Rightarrow>
   ((ack_id \<times> eo_info) list \<times> (ack_id \<times> eo_info) list) \<times> ack_id list list \<times> ack_id list" where
  "eo_retain_loop now max_lease max_extension [] bb = (([], []), bb)"
| "eo_retain_loop now max_lease max_extension ((i, info) # rest) bb =
     (if eo_status info = Leased \<and> eo_receive_time info + max_lease < now
      then case eo_retain_loop now max_lease max_extension rest bb of
             ((kept, gone), bb') \<Rightarrow> ((kept, (i, info) # gone), bb')
      else case eo_retain_loop now max_lease max_extension rest
                  (if eo_status info = Nacking \<or> lease_long now max_extension (eo_last_extension info)
                   then bb else push_id i bb) of
             ((kept, gone), bb') \<Rightarrow> (((i, info) # kept, gone), bb'))"

definition eo_retain ::
  "instant \<Rightarrow> duration \<Rightarrow> duration \<Rightarrow> eo_leases \<Rightarrow> ack_id list list \<times> eo_leases" where
  "eo_retain now max_lease max_extension l =
     (case eo_retain_loop now max_lease max_extension (eo_under_lease l) ([], []) of
        ((kept, gone), bb) \<Rightarrow>
          (close_batches bb,
           l\<lparr>eo_under_lease := kept,
             eo_fates := eo_fates l @
               map (\<lambda>(i, info). (eo_result_tx info, ResultSent (Err LeaseExpired))) gone\<rparr>))"

definition NACK_SHUTDOWN_ERROR :: string where
  "NACK_SHUTDOWN_ERROR = ''subscriber is configured to `NackImmediately` on shutdown. To avoid this error, consider setting the shutdown behavior to `WaitForProcessing`.''"

definition eo_evict_and_drain :: "eo_leases \<Rightarrow> (ack_id list \<times> ack_id list list) \<times> (nat \<times> ack_fate) list" where
  "eo_evict_and_drain l =
     ((eo_to_ack l, batch_ids (map fst (eo_under_lease l))),
      eo_fates l @ map (\<lambda>(i, info).
        (eo_result_tx info, ResultSent (Err (AckShutdown NACK_SHUTDOWN_ERROR)))) (eo_under_lease l))"

section \<open>The lease state and the lease loop\<close>

datatype lease_info = AtLeastOnceLease alo_info | ExactlyOnceLease eo_info

datatype action = Ack ack_id | Nack ack_id | ExactlyOnceAck ack_id | ExactlyOnceNack ack_id

text \<open>The requests given to the leaser.\<close>

datatype lease_call =
    CallAck (call_ids: "ack_id list") | CallNack (call_ids: "ack_id list")
  | CallExtend (call_ids: "ack_id list") | CallConfirmedAck (call_ids: "ack_id list")
  | CallConfirmedNack (call_ids: "ack_id list") | CallEoExtend (call_ids: "ack_id list")

text \<open>\<open>ls_calls\<close> and \<open>ls_expired\<close> are logs: of the requests, and of the at-least-once leases
  dropped because they are too old.\<close>

record lease_state =
  ls_leases :: alo_leases
  ls_eo_leases :: eo_leases
  ls_max_lease :: duration
  ls_max_extension :: duration
  ls_stopped :: bool
  ls_calls :: "lease_call list"
  ls_expired :: "ack_id list"

definition lease_state_new :: "duration \<Rightarrow> duration \<Rightarrow> lease_state" where
  "lease_state_new max_lease max_extension = \<lparr>ls_leases = alo_default, ls_eo_leases = eo_default,
     ls_max_lease = max_lease, ls_max_extension = max_extension, ls_stopped = False, ls_calls = [],
     ls_expired = []\<rparr>"

definition ls_needs_flush :: "lease_state \<Rightarrow> bool" where
  "ls_needs_flush s \<longleftrightarrow> alo_needs_flush (ls_leases s) \<or> eo_needs_flush (ls_eo_leases s)"

fun ls_add :: "ack_id \<Rightarrow> lease_info \<Rightarrow> lease_state \<Rightarrow> lease_state" where
  "ls_add i (AtLeastOnceLease info) s = s\<lparr>ls_leases := alo_add i info (ls_leases s)\<rparr>"
| "ls_add i (ExactlyOnceLease info) s = s\<lparr>ls_eo_leases := eo_add i info (ls_eo_leases s)\<rparr>"

fun ls_process :: "action \<Rightarrow> lease_state \<Rightarrow> lease_state" where
  "ls_process (Ack i) s = s\<lparr>ls_leases := alo_ack i (ls_leases s)\<rparr>"
| "ls_process (Nack i) s = s\<lparr>ls_leases := alo_nack i (ls_leases s)\<rparr>"
| "ls_process (ExactlyOnceAck i) s = s\<lparr>ls_eo_leases := eo_ack i (ls_eo_leases s)\<rparr>"
| "ls_process (ExactlyOnceNack i) s = s\<lparr>ls_eo_leases := eo_nack i (ls_eo_leases s)\<rparr>"

definition ls_confirm :: "(ack_id \<times> ack_result) list \<Rightarrow> lease_state \<Rightarrow> lease_state" where
  "ls_confirm results s =
     s\<lparr>ls_eo_leases := foldl (\<lambda>l (i, r). eo_confirm i r l) (ls_eo_leases s) results\<rparr>"

definition nonempty_call :: "(ack_id list \<Rightarrow> lease_call) \<Rightarrow> ack_id list \<Rightarrow> lease_call list" where
  "nonempty_call call ids = (if ids \<noteq> [] then [call ids] else [])"

definition ls_flush :: "lease_state \<Rightarrow> lease_state" where
  "ls_flush s =
     (case (alo_drain (ls_leases s), eo_drain (ls_eo_leases s)) of
        (((to_ack, to_nack), l), ((eo_acks, eo_nacks), eo)) \<Rightarrow>
          s\<lparr>ls_leases := l, ls_eo_leases := eo,
            ls_calls := ls_calls s @ nonempty_call CallAck to_ack @ nonempty_call CallNack to_nack @
              nonempty_call CallConfirmedAck eo_acks @ nonempty_call CallConfirmedNack eo_nacks\<rparr>)"

definition ls_extend :: "instant \<Rightarrow> lease_state \<Rightarrow> lease_state" where
  "ls_extend now s =
     (case (alo_retain now (ls_max_lease s) (ls_max_extension s) (ls_leases s),
            eo_retain now (ls_max_lease s) (ls_max_extension s) (ls_eo_leases s)) of
        ((batches, l), (eo_batches, eo)) \<Rightarrow>
          s\<lparr>ls_leases := l, ls_eo_leases := eo,
            ls_calls := ls_calls s @ map CallExtend batches @ map CallEoExtend eo_batches,
            ls_expired := ls_expired s @
              filter (\<lambda>i. i \<notin> fst ` set (al_under_lease l)) (map fst (al_under_lease (ls_leases s)))\<rparr>)"

definition ls_shutdown :: "lease_state \<Rightarrow> lease_state" where
  "ls_shutdown s =
     (case (alo_evict_and_drain (ls_leases s), eo_evict_and_drain (ls_eo_leases s)) of
        ((to_ack, to_nack), ((_, eo_nacks), fates)) \<Rightarrow>
          s\<lparr>ls_leases := alo_default,
            ls_eo_leases := eo_default\<lparr>eo_fates := fates\<rparr>,
            ls_calls := ls_calls s @ nonempty_call CallAck to_ack @ map CallNack to_nack @
              map CallConfirmedNack eo_nacks,
            ls_stopped := True\<rparr>)"

text \<open>The branches of the loop. The first one is taken whenever a batch is full. The channels from the
  leaser do not close while the state holds the leaser.\<close>

datatype lease_input =
    FlushDue | ExtendDue | ExtendCompleted "ack_id list"
  | NewMessage ack_id lease_info
  | AppAction action
  | ConfirmedAcks "(ack_id \<times> ack_result) list"
  | EoExtendResults "(ack_id \<times> ack_result) list"
  | MessagesClosed "action list"
  | ActionsClosed

definition extended_ids :: "(ack_id \<times> ack_result) list \<Rightarrow> ack_id list" where
  "extended_ids r = map fst (filter (\<lambda>(i, res). is_ok res) r)"

text \<open>\<open>shutdown\<close> of the loop: the actions that are already queued, then the state.\<close>

definition loop_shutdown :: "action list \<Rightarrow> lease_state \<Rightarrow> lease_state" where
  "loop_shutdown acts s = ls_shutdown (foldl (\<lambda>s a. ls_process a s) s acts)"

fun lease_turn :: "instant \<Rightarrow> lease_input \<Rightarrow> lease_state \<Rightarrow> lease_state" where
  "lease_turn now FlushDue s = ls_flush s"
| "lease_turn now ExtendDue s = ls_extend now s"
| "lease_turn now (ExtendCompleted ids) s =
     s\<lparr>ls_leases := alo_update_last_extension now ids (ls_leases s)\<rparr>"
| "lease_turn now (NewMessage i info) s = ls_add i info s"
| "lease_turn now (AppAction a) s = ls_process a s"
| "lease_turn now (ConfirmedAcks r) s = ls_confirm r s"
| "lease_turn now (EoExtendResults r) s =
     s\<lparr>ls_eo_leases := eo_update_last_extension now (extended_ids r) (ls_eo_leases s)\<rparr>"
| "lease_turn now (MessagesClosed acts) s = loop_shutdown acts s"
| "lease_turn now ActionsClosed s = ls_shutdown s"

definition lease_step :: "instant \<Rightarrow> lease_input \<Rightarrow> lease_state \<Rightarrow> lease_state option" where
  "lease_step now ev s =
     (if ls_stopped s \<or> ls_needs_flush s \<and> ev \<noteq> FlushDue then None else Some (lease_turn now ev s))"

text \<open>Runs of the loop, with their inputs.\<close>

inductive lease_reach :: "duration \<Rightarrow> duration \<Rightarrow> lease_input list \<Rightarrow> lease_state \<Rightarrow> bool"
  for max_lease max_extension where
  lease_start: "lease_reach max_lease max_extension [] (lease_state_new max_lease max_extension)"
| lease_next: "lease_reach max_lease max_extension evs s \<Longrightarrow> lease_step now ev s = Some s' \<Longrightarrow>
    lease_reach max_lease max_extension (evs @ [ev]) s'"

section \<open>Extending leases\<close>

lemma close_push_id:
  assumes "length batch < MAX_IDS_PER_RPC" "push_id i (bs, batch) = (bs', batch')"
  shows "length batch' < MAX_IDS_PER_RPC"
    and "bs' @ chunks MAX_IDS_PER_RPC (batch' @ ids) = bs @ chunks MAX_IDS_PER_RPC (batch @ i # ids)"
  using assms chunks_append [of MAX_IDS_PER_RPC "batch @ [i]" ids]
  by (auto simp: push_id_def Let_def MAX_IDS_PER_RPC_def split: if_splits)

lemma close_batches_eq:
  "length batch < MAX_IDS_PER_RPC \<Longrightarrow> close_batches (bs, batch) = bs @ chunks MAX_IDS_PER_RPC batch"
  by (cases "batch = []") (auto simp: close_batches_def chunks_small)

definition alo_live :: "instant \<Rightarrow> duration \<Rightarrow> alo_info \<Rightarrow> bool" where
  "alo_live now max_lease info \<longleftrightarrow> now \<le> al_receive_time info + max_lease"

definition alo_due :: "instant \<Rightarrow> duration \<Rightarrow> alo_info \<Rightarrow> bool" where
  "alo_due now max_extension info \<longleftrightarrow> \<not> lease_long now max_extension (al_last_extension info)"

lemma alo_retain_loop_eq:
  "alo_retain_loop now max_lease max_extension xs (bs, batch) = (kept, bb) \<Longrightarrow>
     length batch < MAX_IDS_PER_RPC \<Longrightarrow>
     kept = filter (\<lambda>(i, info). alo_live now max_lease info) xs \<and>
     close_batches bb = bs @ chunks MAX_IDS_PER_RPC (batch @
       map fst (filter (\<lambda>(i, info). alo_live now max_lease info \<and> alo_due now max_extension info) xs))"
proof (induction xs arbitrary: bs batch kept)
  case Nil
  then show ?case by (auto simp: close_batches_eq)
next
  case (Cons x xs)
  obtain i info where x: "x = (i, info)" by (cases x)
  obtain bs' batch' where p: "push_id i (bs, batch) = (bs', batch')" by (cases "push_id i (bs, batch)")
  show ?case
    using Cons.prems Cons.IH [of bs batch] Cons.IH [of bs' batch'] close_push_id [OF Cons.prems(2) p] x p
    by (auto simp: alo_live_def alo_due_def split: if_splits prod.splits)
qed

lemma alo_retain_eq:
  "alo_retain now max_lease max_extension l =
     (batch_ids (map fst (filter (\<lambda>(i, info). alo_live now max_lease info \<and>
        alo_due now max_extension info) (al_under_lease l))),
      l\<lparr>al_under_lease := filter (\<lambda>(i, info). alo_live now max_lease info) (al_under_lease l)\<rparr>)"
  using alo_retain_loop_eq [of now max_lease max_extension "al_under_lease l" "[]" "[]"]
  by (auto simp: alo_retain_def batch_ids_def MAX_IDS_PER_RPC_def split: prod.splits)

definition eo_live :: "instant \<Rightarrow> duration \<Rightarrow> eo_info \<Rightarrow> bool" where
  "eo_live now max_lease info \<longleftrightarrow> eo_status info \<noteq> Leased \<or> now \<le> eo_receive_time info + max_lease"

definition eo_due :: "instant \<Rightarrow> duration \<Rightarrow> eo_info \<Rightarrow> bool" where
  "eo_due now max_extension info \<longleftrightarrow>
     eo_status info \<noteq> Nacking \<and> \<not> lease_long now max_extension (eo_last_extension info)"

lemma eo_retain_loop_eq:
  "eo_retain_loop now max_lease max_extension xs (bs, batch) = ((kept, gone), bb) \<Longrightarrow>
     length batch < MAX_IDS_PER_RPC \<Longrightarrow>
     kept = filter (\<lambda>(i, info). eo_live now max_lease info) xs \<and>
     gone = filter (\<lambda>(i, info). \<not> eo_live now max_lease info) xs \<and>
     close_batches bb = bs @ chunks MAX_IDS_PER_RPC (batch @
       map fst (filter (\<lambda>(i, info). eo_live now max_lease info \<and> eo_due now max_extension info) xs))"
proof (induction xs arbitrary: bs batch kept gone)
  case Nil
  then show ?case by (auto simp: close_batches_eq)
next
  case (Cons x xs)
  obtain i info where x: "x = (i, info)" by (cases x)
  obtain bs' batch' where p: "push_id i (bs, batch) = (bs', batch')" by (cases "push_id i (bs, batch)")
  show ?case
    using Cons.prems Cons.IH [of bs batch] Cons.IH [of bs' batch'] close_push_id [OF Cons.prems(2) p] x p
    by (auto simp: eo_live_def eo_due_def split: if_splits prod.splits)
qed

lemma eo_retain_eq:
  "eo_retain now max_lease max_extension l =
     (batch_ids (map fst (filter (\<lambda>(i, info). eo_live now max_lease info \<and>
        eo_due now max_extension info) (eo_under_lease l))),
      l\<lparr>eo_under_lease := filter (\<lambda>(i, info). eo_live now max_lease info) (eo_under_lease l),
        eo_fates := eo_fates l @ map (\<lambda>(i, info). (eo_result_tx info, ResultSent (Err LeaseExpired)))
          (filter (\<lambda>(i, info). \<not> eo_live now max_lease info) (eo_under_lease l))\<rparr>)"
  using eo_retain_loop_eq [of now max_lease max_extension "eo_under_lease l" "[]" "[]"]
  by (auto simp: eo_retain_def batch_ids_def MAX_IDS_PER_RPC_def split: prod.splits)

section \<open>Invariants of the lease loop\<close>

locale lease_invariant =
  fixes max_lease max_extension :: duration
    and P :: "lease_input list \<Rightarrow> lease_state \<Rightarrow> bool"
  assumes P_start: "P [] (lease_state_new max_lease max_extension)"
    and P_turn: "P evs s \<Longrightarrow> \<not> ls_stopped s \<Longrightarrow> (ls_needs_flush s \<Longrightarrow> ev = FlushDue) \<Longrightarrow>
      P (evs @ [ev]) (lease_turn now ev s)"
begin

lemma P_reach: "lease_reach max_lease max_extension evs s \<Longrightarrow> P evs s"
proof (induction rule: lease_reach.induct)
  case lease_start
  then show ?case by (rule P_start)
next
  case (lease_next evs s now ev s')
  then show ?case using P_turn [of evs s ev now] by (auto simp: lease_step_def split: if_splits)
qed

end

subsection \<open>The results of exactly-once messages\<close>

fun added_tx :: "lease_input \<Rightarrow> nat list" where
  "added_tx (NewMessage i (ExactlyOnceLease info)) = [eo_result_tx info]"
| "added_tx _ = []"

definition leased_txs :: "eo_leases \<Rightarrow> nat list" where
  "leased_txs l = map (eo_result_tx \<circ> snd) (eo_under_lease l)"

definition eo_books :: "nat multiset \<Rightarrow> eo_leases \<Rightarrow> bool" where
  "eo_books txs l \<longleftrightarrow>
     distinct (map fst (eo_under_lease l)) \<and>
     txs = mset (map fst (eo_fates l)) + mset (leased_txs l)"

lemma mset_delete:
  "distinct (map fst al) \<Longrightarrow> map_of al i = Some v \<Longrightarrow>
     mset (map f al) = {#f (i, v)#} + mset (map f (AList.delete i al))"
  by (induction al) (auto simp: image_iff)

lemma mset_update_new:
  "map_of al i = None \<Longrightarrow> mset (map f (AList.update i v al)) = mset (map f al) + {#f (i, v)#}"
  by (induction al) (auto split: if_splits)

lemma mset_update_old:
  "distinct (map fst al) \<Longrightarrow> map_of al i = Some w \<Longrightarrow>
     mset (map f (AList.update i v al)) + {#f (i, w)#} = mset (map f al) + {#f (i, v)#}"
  by (induction al) (auto split: if_splits)

lemma keys_map_values: "map fst (map (\<lambda>(i, info). (i, f i info)) xs) = map fst xs"
  by (induction xs) auto

lemma eo_books_add: "eo_books txs l \<Longrightarrow> eo_books (add_mset (eo_result_tx info) txs) (eo_add i info l)"
  using mset_update_new [of "eo_under_lease l" i "eo_result_tx \<circ> snd" info]
    mset_update_old [of "eo_under_lease l" i _ "eo_result_tx \<circ> snd" info]
  by (auto simp: eo_books_def eo_add_def leased_txs_def distinct_update ac_simps split: option.splits)

lemma eo_books_confirm: "eo_books txs l \<Longrightarrow> eo_books txs (eo_confirm i r l)"
  using mset_delete [of "eo_under_lease l" i _ "eo_result_tx \<circ> snd"]
  by (auto simp: eo_books_def eo_confirm_def leased_txs_def distinct_delete ac_simps split: option.splits)

lemma eo_books_values:
  assumes "\<And>i info. eo_result_tx (f i info) = eo_result_tx info"
  shows "eo_books txs (l\<lparr>eo_under_lease := map (\<lambda>(i, info). (i, f i info)) (eo_under_lease l)\<rparr>) =
    eo_books txs l"
proof -
  have "map (eo_result_tx \<circ> snd) (map (\<lambda>(i, info). (i, f i info)) xs) = map (eo_result_tx \<circ> snd) xs" for xs
    using assms by (induction xs) auto
  then show ?thesis by (simp add: eo_books_def leased_txs_def keys_map_values del: map_map)
qed

lemma eo_books_frame [simp]:
  "eo_books txs (l\<lparr>eo_to_ack := a\<rparr>) = eo_books txs l"
  "eo_books txs (l\<lparr>eo_to_nack := b\<rparr>) = eo_books txs l"
  "eo_books txs (l\<lparr>eo_to_ack := a, eo_to_nack := b\<rparr>) = eo_books txs l"
  by (simp_all add: eo_books_def leased_txs_def)

lemma eo_books_status [simp]: "eo_books txs (eo_set_status i st l) = eo_books txs l"
  unfolding eo_set_status_def by (rule eo_books_values) simp

lemma eo_books_retain: "eo_books txs l \<Longrightarrow> eo_books txs (snd (eo_retain now ml me l))"
proof -
  have part: "mset (map f (filter p xs)) + mset (map f (filter (\<lambda>x. \<not> p x) xs)) = mset (map f xs)"
    for f :: "ack_id \<times> eo_info \<Rightarrow> nat" and p xs
    by (induction xs) auto
  assume "eo_books txs l"
  then show ?thesis
    using part [of "eo_result_tx \<circ> snd" "\<lambda>(i, info). eo_live now ml info" "eo_under_lease l"]
    by (auto simp: eo_retain_eq eo_books_def leased_txs_def distinct_map_filter comp_def case_prod_beta
        ac_simps)
qed

lemma eo_books_confirm_all:
  "eo_books txs l \<Longrightarrow> eo_books txs (foldl (\<lambda>l (i, r). eo_confirm i r l) l results)"
  by (induction results arbitrary: l) (auto intro: eo_books_confirm)

lemma eo_books_process: "eo_books txs (ls_eo_leases s) \<Longrightarrow> eo_books txs (ls_eo_leases (ls_process a s))"
  by (cases a) (auto simp: eo_ack_def eo_nack_def)

lemma eo_books_shutdown:
  "eo_books txs (ls_eo_leases s) \<Longrightarrow> eo_books txs (ls_eo_leases (ls_shutdown s))"
  by (auto simp: ls_shutdown_def eo_evict_and_drain_def alo_evict_and_drain_def eo_books_def
      leased_txs_def eo_default_def comp_def case_prod_beta)

lemma eo_books_processes:
  "eo_books txs (ls_eo_leases s) \<Longrightarrow>
     eo_books txs (ls_eo_leases (foldl (\<lambda>s a. ls_process a s) s acts))"
  by (induction acts arbitrary: s) (auto intro: eo_books_process)

interpretation results_once: lease_invariant max_lease max_extension
  "\<lambda>evs s. eo_books (mset (concat (map added_tx evs))) (ls_eo_leases s)"
proof unfold_locales
  show "eo_books (mset (concat (map added_tx []))) (ls_eo_leases (lease_state_new max_lease max_extension))"
    by (simp add: eo_books_def lease_state_new_def eo_default_def leased_txs_def)
next
  fix evs and s :: lease_state and ev now
  assume P: "eo_books (mset (concat (map added_tx evs))) (ls_eo_leases s)"
  show "eo_books (mset (concat (map added_tx (evs @ [ev])))) (ls_eo_leases (lease_turn now ev s))"
  proof (cases ev)
    case FlushDue
    with P show ?thesis by (simp add: ls_flush_def alo_drain_def eo_drain_def)
  next
    case ExtendDue
    with P show ?thesis
      using eo_books_retain [OF P] by (simp add: ls_extend_def case_prod_beta)
  next
    case (NewMessage i info)
    with P show ?thesis by (cases info) (auto intro: eo_books_add)
  next
    case (AppAction a)
    with P show ?thesis by (simp add: eo_books_process)
  next
    case (ConfirmedAcks r)
    with P show ?thesis by (simp add: ls_confirm_def eo_books_confirm_all)
  next
    case (EoExtendResults r)
    have "eo_books txs (eo_update_last_extension now ids l) = eo_books txs l" for txs ids l
      unfolding eo_update_last_extension_def by (rule eo_books_values) simp
    with EoExtendResults P show ?thesis by simp
  next
    case (MessagesClosed acts)
    with P show ?thesis by (simp add: loop_shutdown_def eo_books_shutdown eo_books_processes)
  qed (use P in \<open>simp_all add: eo_books_shutdown\<close>)
qed

subsection \<open>Where the results come from\<close>

text \<open>
  A message came under lease management, possibly again; and what explains the fate of its sender: it is
  dropped if the same identifier was delivered again, and otherwise it gets a result that was confirmed for
  its identifier, the error of an expired lease, or that of a shutdown.
\<close>

definition came :: "lease_input list \<Rightarrow> ack_id \<Rightarrow> nat \<Rightarrow> bool" where
  "came evs i tx \<longleftrightarrow> (i, tx) \<in> set (concat (map (\<lambda>ev. case ev of NewMessage j (ExactlyOnceLease info) \<Rightarrow> [(j, eo_result_tx info)] | _ \<Rightarrow> []) evs))"

definition came_again :: "lease_input list \<Rightarrow> ack_id \<Rightarrow> nat \<Rightarrow> bool" where
  "came_again evs i tx \<longleftrightarrow> (\<exists>k tx'. came (take k evs) i tx \<and> came (drop k evs) i tx')"

definition confirmed_for :: "lease_input list \<Rightarrow> ack_id \<Rightarrow> ack_result \<Rightarrow> bool" where
  "confirmed_for evs i r \<longleftrightarrow> (\<exists>results. ConfirmedAcks results \<in> set evs \<and> (i, r) \<in> set results)"

definition loop_closed :: "lease_input list \<Rightarrow> bool" where
  "loop_closed evs \<longleftrightarrow> ActionsClosed \<in> set evs \<or> (\<exists>acts. MessagesClosed acts \<in> set evs)"

fun fate_explained :: "lease_input list \<Rightarrow> nat \<Rightarrow> ack_fate \<Rightarrow> bool" where
  "fate_explained evs tx ResultDropped \<longleftrightarrow> (\<exists>i. came_again evs i tx)"
| "fate_explained evs tx (ResultSent r) \<longleftrightarrow>
     (\<exists>i. came evs i tx \<and> confirmed_for evs i r) \<or>
     r = Err LeaseExpired \<and> ExtendDue \<in> set evs \<or>
     r = Err (AckShutdown NACK_SHUTDOWN_ERROR) \<and> loop_closed evs"

definition eo_pairs :: "eo_leases \<Rightarrow> (ack_id \<times> nat) set" where
  "eo_pairs l = (\<lambda>(i, info). (i, eo_result_tx info)) ` set (eo_under_lease l)"

definition eo_explained :: "lease_input list \<Rightarrow> eo_leases \<Rightarrow> bool" where
  "eo_explained evs l \<longleftrightarrow>
     (\<forall>(i, tx) \<in> eo_pairs l. came evs i tx) \<and> (\<forall>(tx, f) \<in> set (eo_fates l). fate_explained evs tx f)"

lemma came_snoc: "came (evs @ [ev]) i tx \<longleftrightarrow> came evs i tx \<or> came [ev] i tx"
  by (auto simp: came_def)

lemma came_again_snoc: "came_again evs i tx \<Longrightarrow> came_again (evs @ [ev]) i tx"
proof -
  assume "came_again evs i tx"
  then obtain k tx' where k: "came (take k evs) i tx" "came (drop k evs) i tx'" by (auto simp: came_again_def)
  have "drop k evs \<noteq> []" using k(2) by (auto simp: came_def)
  then have "take k (evs @ [ev]) = take k evs" "drop k (evs @ [ev]) = drop k evs @ [ev]" by simp_all
  with k came_snoc show ?thesis unfolding came_again_def by metis
qed

lemma fate_explained_snoc: "fate_explained evs tx f \<Longrightarrow> fate_explained (evs @ [ev]) tx f"
  by (cases f) (auto simp: came_snoc confirmed_for_def loop_closed_def intro: came_again_snoc)

lemma came_again_now: "came evs i tx \<Longrightarrow> came [ev] i tx' \<Longrightarrow> came_again (evs @ [ev]) i tx"
  unfolding came_again_def by (rule exI [of _ "length evs"]) auto

text \<open>A step that keeps or drops leases and gives fates that the new event explains.\<close>

lemma eo_explained_step:
  assumes "eo_explained evs l" "eo_fates l' = eo_fates l @ fs"
    and "\<And>i tx. (i, tx) \<in> eo_pairs l' \<Longrightarrow> (i, tx) \<in> eo_pairs l \<or> came [ev] i tx"
    and "\<And>tx f. (tx, f) \<in> set fs \<Longrightarrow> fate_explained (evs @ [ev]) tx f"
  shows "eo_explained (evs @ [ev]) l'"
  using assms by (fastforce simp: eo_explained_def came_snoc intro: fate_explained_snoc)

lemma eo_explained_same:
  "eo_explained evs l \<Longrightarrow> eo_fates l' = eo_fates l \<Longrightarrow> eo_pairs l' = eo_pairs l \<Longrightarrow> eo_explained (evs @ [ev]) l'"
  by (rule eo_explained_step [where fs = "[]"]) auto

lemma eo_pairs_values:
  assumes "\<And>i info. eo_result_tx (f i info) = eo_result_tx info"
  shows "eo_pairs (l\<lparr>eo_under_lease := map (\<lambda>(i, info). (i, f i info)) (eo_under_lease l)\<rparr>) = eo_pairs l"
proof -
  have "(\<lambda>(i, info). (i, eo_result_tx info)) \<circ> (\<lambda>(i, info). (i, f i info)) = (\<lambda>(i, info). (i, eo_result_tx info))"
    using assms by auto
  then show ?thesis by (simp add: eo_pairs_def image_comp)
qed

lemma eo_pairs_simps [simp]:
  "eo_pairs (l\<lparr>eo_to_ack := a\<rparr>) = eo_pairs l" "eo_pairs (l\<lparr>eo_to_nack := b\<rparr>) = eo_pairs l"
  "eo_pairs (eo_set_status i st l) = eo_pairs l" "eo_pairs (eo_update_last_extension now ids l) = eo_pairs l"
  "eo_fates (eo_set_status i st l) = eo_fates l" "eo_fates (eo_update_last_extension now ids l) = eo_fates l"
proof -
  show "eo_pairs (eo_set_status i st l) = eo_pairs l" unfolding eo_set_status_def by (rule eo_pairs_values) simp
  show "eo_pairs (eo_update_last_extension now ids l) = eo_pairs l"
    unfolding eo_update_last_extension_def by (rule eo_pairs_values) simp
qed (simp_all add: eo_pairs_def eo_set_status_def eo_update_last_extension_def)

lemma eo_pairs_process [simp]:
  "eo_pairs (ls_eo_leases (ls_process a s)) = eo_pairs (ls_eo_leases s)"
  "eo_fates (ls_eo_leases (ls_process a s)) = eo_fates (ls_eo_leases s)"
  by (cases a; simp add: eo_ack_def eo_nack_def)+

lemma eo_pairs_processes [simp]:
  "eo_pairs (ls_eo_leases (foldl (\<lambda>s a. ls_process a s) s acts)) = eo_pairs (ls_eo_leases s)"
  "eo_fates (ls_eo_leases (foldl (\<lambda>s a. ls_process a s) s acts)) = eo_fates (ls_eo_leases s)"
  by (induction acts arbitrary: s) auto

lemma set_update_subset: "set (AList.update i v al) \<subseteq> insert (i, v) (set al)"
  by (induction al) auto

lemma shutdown_fates:
  "eo_pairs (ls_eo_leases (ls_shutdown s)) = {}"
  "eo_fates (ls_eo_leases (ls_shutdown s)) = eo_fates (ls_eo_leases s) @
     map (\<lambda>(i, info). (eo_result_tx info, ResultSent (Err (AckShutdown NACK_SHUTDOWN_ERROR)))) (eo_under_lease (ls_eo_leases s))"
  by (auto simp: ls_shutdown_def eo_evict_and_drain_def alo_evict_and_drain_def eo_pairs_def eo_default_def)

lemma confirm_fates:
  "\<exists>fs. eo_fates (foldl (\<lambda>l (i, r). eo_confirm i r l) l results) = eo_fates l @ fs \<and>
     (\<forall>(tx, f) \<in> set fs. \<exists>i r. (i, tx) \<in> eo_pairs l \<and> (i, r) \<in> set results \<and> f = ResultSent r) \<and>
     eo_pairs (foldl (\<lambda>l (i, r). eo_confirm i r l) l results) \<subseteq> eo_pairs l"
proof (induction results arbitrary: l)
  case (Cons x results)
  obtain i r where x: "x = (i, r)" by fastforce
  let ?l = "eo_confirm i r l"
  obtain fs where fs: "eo_fates (foldl (\<lambda>l (i, r). eo_confirm i r l) ?l results) = eo_fates ?l @ fs"
    "\<forall>(tx, f) \<in> set fs. \<exists>i r. (i, tx) \<in> eo_pairs ?l \<and> (i, r) \<in> set results \<and> f = ResultSent r"
    "eo_pairs (foldl (\<lambda>l (i, r). eo_confirm i r l) ?l results) \<subseteq> eo_pairs ?l"
    using Cons.IH [of ?l] by blast
  have sub: "eo_pairs ?l \<subseteq> eo_pairs l"
    by (auto simp: eo_confirm_def eo_pairs_def AList.delete_eq split: option.splits)
  obtain gs where gs: "eo_fates ?l = eo_fates l @ gs"
    "\<forall>(tx, f) \<in> set gs. (i, tx) \<in> eo_pairs l \<and> f = ResultSent r"
    by (force simp: eo_confirm_def eo_pairs_def dest: map_of_SomeD split: option.splits)
  have "\<forall>(tx, f) \<in> set (gs @ fs). \<exists>i r. (i, tx) \<in> eo_pairs l \<and> (i, r) \<in> set (x # results) \<and> f = ResultSent r"
    using fs(2) gs(2) sub x by fastforce
  with fs gs sub x show ?case by (intro exI [of _ "gs @ fs"]) auto
qed auto

interpretation fates_explained: lease_invariant max_lease max_extension "\<lambda>evs s. eo_explained evs (ls_eo_leases s)"
proof unfold_locales
  fix evs and s :: lease_state and ev now
  assume P: "eo_explained evs (ls_eo_leases s)"
  note step = eo_explained_step [OF P, where ev = ev]
  show "eo_explained (evs @ [ev]) (ls_eo_leases (lease_turn now ev s))"
  proof (cases ev)
    case ExtendDue
    let ?gone = "filter (\<lambda>(i, info). \<not> eo_live now (ls_max_lease s) info) (eo_under_lease (ls_eo_leases s))"
    show ?thesis
      by (rule step [where fs = "map (\<lambda>(i, info). (eo_result_tx info, ResultSent (Err LeaseExpired))) ?gone"])
        (use ExtendDue in \<open>auto simp: ls_extend_def eo_retain_eq eo_pairs_def case_prod_beta\<close>)
  next
    case (NewMessage i info)
    show ?thesis
    proof (cases info)
      case (ExactlyOnceLease x)
      let ?old = "case map_of (eo_under_lease (ls_eo_leases s)) i of None \<Rightarrow> [] | Some old \<Rightarrow> [(eo_result_tx old, ResultDropped)]"
      have now: "came [ev] i (eo_result_tx x)" using NewMessage ExactlyOnceLease by (simp add: came_def)
      have "came evs i (eo_result_tx old)" if "map_of (eo_under_lease (ls_eo_leases s)) i = Some old" for old
        using P map_of_SomeD [OF that] by (force simp: eo_explained_def eo_pairs_def)
      then have "fate_explained (evs @ [ev]) tx f" if "(tx, f) \<in> set ?old" for tx f
        using that came_again_now [OF _ now] by (cases "map_of (eo_under_lease (ls_eo_leases s)) i") auto
      moreover have "(j, tx) \<in> eo_pairs (ls_eo_leases s) \<or> came [ev] j tx"
        if "(j, tx) \<in> eo_pairs (eo_add i x (ls_eo_leases s))" for j tx
        using that now set_update_subset [of i x "eo_under_lease (ls_eo_leases s)"]
        by (auto simp: eo_add_def eo_pairs_def)
      ultimately show ?thesis using NewMessage ExactlyOnceLease
        by (intro step [where fs = ?old]) (auto simp: eo_add_def)
    qed (use NewMessage P in \<open>auto intro: eo_explained_same\<close>)
  next
    case (ConfirmedAcks r)
    obtain fs where fs: "eo_fates (ls_eo_leases (lease_turn now ev s)) = eo_fates (ls_eo_leases s) @ fs"
      "\<forall>(tx, f) \<in> set fs. \<exists>i x. (i, tx) \<in> eo_pairs (ls_eo_leases s) \<and> (i, x) \<in> set r \<and> f = ResultSent x"
      "eo_pairs (ls_eo_leases (lease_turn now ev s)) \<subseteq> eo_pairs (ls_eo_leases s)"
      using confirm_fates [of "ls_eo_leases s" r] ConfirmedAcks by (auto simp: ls_confirm_def)
    have "came evs i tx" if "(i, tx) \<in> eo_pairs (ls_eo_leases s)" for i tx using P that by (auto simp: eo_explained_def)
    with fs show ?thesis using ConfirmedAcks
      by (intro step [where fs = fs]) (fastforce simp: came_snoc confirmed_for_def)+
  next
    case (MessagesClosed acts)
    let ?s = "foldl (\<lambda>s a. ls_process a s) s acts"
    show ?thesis
      by (rule step [where fs = "map (\<lambda>(i, info). (eo_result_tx info, ResultSent (Err (AckShutdown NACK_SHUTDOWN_ERROR))))
          (eo_under_lease (ls_eo_leases ?s))"])
        (use MessagesClosed in \<open>auto simp: loop_shutdown_def shutdown_fates loop_closed_def\<close>)
  next
    case ActionsClosed
    show ?thesis
      by (rule step [where fs = "map (\<lambda>(i, info). (eo_result_tx info, ResultSent (Err (AckShutdown NACK_SHUTDOWN_ERROR))))
          (eo_under_lease (ls_eo_leases s))"])
        (use ActionsClosed in \<open>auto simp: shutdown_fates loop_closed_def\<close>)
  qed (use P in \<open>auto intro!: eo_explained_same [OF P] simp: ls_flush_def alo_drain_def eo_drain_def\<close>)
qed (simp add: eo_explained_def eo_pairs_def lease_state_new_def eo_default_def)

text \<open>A confirmation gives its result to the message that is under lease.\<close>

lemma confirm_delivers:
  "map_of (eo_under_lease l) i = Some info \<Longrightarrow> map_of results i = Some r \<Longrightarrow>
     (eo_result_tx info, ResultSent r) \<in> set (eo_fates (foldl (\<lambda>l (i, r). eo_confirm i r l) l results))"
proof (induction results arbitrary: l)
  case (Cons x results)
  obtain j q where x: "x = (j, q)" by fastforce
  obtain fs where fs: "eo_fates (foldl (\<lambda>l (i, r). eo_confirm i r l) (eo_confirm j q l) results) =
      eo_fates (eo_confirm j q l) @ fs"
    using confirm_fates by blast
  show ?case
  proof (cases "j = i")
    case True
    with Cons.prems x fs show ?thesis by (simp add: eo_confirm_def)
  next
    case False
    with Cons.prems x have "map_of (eo_under_lease (eo_confirm j q l)) i = Some info" "map_of results i = Some r"
      by (auto simp: eo_confirm_def delete_conv' split: option.splits)
    with Cons.IH x show ?thesis by simp
  qed
qed simp

subsection \<open>The size of the requests\<close>

definition small_call :: "lease_call \<Rightarrow> bool" where
  "small_call c \<longleftrightarrow> call_ids c \<noteq> [] \<and> length (call_ids c) \<le> MAX_IDS_PER_RPC"

definition small_batches :: "lease_state \<Rightarrow> bool" where
  "small_batches s \<longleftrightarrow>
     length (al_to_ack (ls_leases s)) \<le> MAX_IDS_PER_RPC \<and>
     length (al_to_nack (ls_leases s)) \<le> MAX_IDS_PER_RPC \<and>
     length (eo_to_ack (ls_eo_leases s)) \<le> MAX_IDS_PER_RPC \<and>
     length (eo_to_nack (ls_eo_leases s)) \<le> MAX_IDS_PER_RPC \<and>
     list_all small_call (ls_calls s)"

lemma small_nonempty_call:
  "(\<And>ids. call_ids (call ids) = ids) \<Longrightarrow> length ids \<le> MAX_IDS_PER_RPC \<Longrightarrow>
     list_all small_call (nonempty_call call ids)"
  by (simp add: nonempty_call_def small_call_def)

lemma small_chunk_calls:
  assumes "\<And>ids. call_ids (call ids) = ids"
  shows "list_all small_call (map call (batch_ids ids))"
  using assms chunks_bounds [of _ MAX_IDS_PER_RPC ids]
  by (auto simp: batch_ids_def small_call_def list_all_iff)

lemma eo_confirm_all_frame [simp]:
  "eo_to_ack (foldl (\<lambda>l (i, r). eo_confirm i r l) l results) = eo_to_ack l"
  "eo_to_nack (foldl (\<lambda>l (i, r). eo_confirm i r l) l results) = eo_to_nack l"
  by (induction results arbitrary: l) (auto simp: eo_confirm_def split: option.splits)

lemma small_process:
  assumes "small_batches s" "\<not> ls_needs_flush s"
  shows "small_batches (ls_process a s)"
  using assms
  by (cases a) (auto simp: small_batches_def ls_needs_flush_def alo_needs_flush_def eo_needs_flush_def
      alo_ack_def alo_nack_def eo_ack_def eo_nack_def eo_set_status_def)

interpretation small_requests: lease_invariant max_lease max_extension
  "\<lambda>evs s. ls_stopped s \<or> small_batches s"
proof unfold_locales
  show "ls_stopped (lease_state_new max_lease max_extension) \<or>
      small_batches (lease_state_new max_lease max_extension)"
    by (simp add: small_batches_def lease_state_new_def eo_default_def alo_default_def)
next
  fix evs :: "lease_input list" and s :: lease_state and ev now
  assume "ls_stopped s \<or> small_batches s" "\<not> ls_stopped s" and nf: "ls_needs_flush s \<Longrightarrow> ev = FlushDue"
  then have P: "small_batches s" by simp
  show "ls_stopped (lease_turn now ev s) \<or> small_batches (lease_turn now ev s)"
  proof (cases ev)
    case FlushDue
    with P show ?thesis
      by (simp add: ls_flush_def alo_drain_def eo_drain_def small_batches_def small_nonempty_call)
  next
    case ExtendDue
    with P show ?thesis
      by (simp add: ls_extend_def alo_retain_eq eo_retain_eq small_batches_def small_chunk_calls)
  next
    case (ExtendCompleted ids)
    with P show ?thesis by (simp add: small_batches_def alo_update_last_extension_def)
  next
    case (NewMessage i info)
    with P show ?thesis by (cases info) (simp_all add: small_batches_def alo_add_def eo_add_def)
  next
    case (AppAction a)
    with P nf show ?thesis using small_process [of s a] by auto
  next
    case (ConfirmedAcks r)
    with P show ?thesis by (simp add: small_batches_def ls_confirm_def)
  next
    case (EoExtendResults r)
    with P show ?thesis by (simp add: small_batches_def eo_update_last_extension_def)
  qed (simp_all add: loop_shutdown_def ls_shutdown_def alo_evict_and_drain_def eo_evict_and_drain_def)
qed

subsection \<open>The fate of at-least-once messages\<close>


definition called :: "(lease_call \<Rightarrow> bool) \<Rightarrow> lease_state \<Rightarrow> ack_id set" where
  "called p s = (\<Union>c \<in> set (filter p (ls_calls s)). set (call_ids c))"












lemma called_append [simp]:
  "called p (s\<lparr>ls_calls := ls_calls s @ cs\<rparr>) = called p s \<union> (\<Union>c \<in> set (filter p cs). set (call_ids c))"
  by (auto simp: called_def)

lemma called_frame [simp]:
  "called p (s\<lparr>ls_leases := l\<rparr>) = called p s"
  "called p (s\<lparr>ls_eo_leases := e\<rparr>) = called p s"
  "called p (s\<lparr>ls_expired := x\<rparr>) = called p s"
  "called p (s\<lparr>ls_stopped := b\<rparr>) = called p s"
  by (simp_all add: called_def)













section \<open>Handlers\<close>

text \<open>A handler given to the application. The methods consume it, and consuming it ends with
  \<open>drop\<close>; so its life is one of the methods and then \<open>drop\<close>. The actions sent are the first
  component.\<close>

record handler_impl =
  h_ack_id :: ack_id
  h_exactly_once :: bool
  h_delivery_attempt :: "int option"

type_synonym handler = "handler_impl option"

definition impl_ack :: "handler_impl \<Rightarrow> action" where
  "impl_ack h = (if h_exactly_once h then ExactlyOnceAck (h_ack_id h) else Ack (h_ack_id h))"

definition impl_nack :: "handler_impl \<Rightarrow> action" where
  "impl_nack h = (if h_exactly_once h then ExactlyOnceNack (h_ack_id h) else Nack (h_ack_id h))"

definition handler_ack :: "handler \<Rightarrow> action list \<times> handler" where
  "handler_ack h = (case h of None \<Rightarrow> ([], None) | Some i \<Rightarrow> ([impl_ack i], None))"

definition handler_nack :: "handler \<Rightarrow> action list \<times> handler" where
  "handler_nack h = (case h of None \<Rightarrow> ([], None) | Some i \<Rightarrow> ([impl_nack i], None))"

definition handler_drop :: "handler \<Rightarrow> action list \<times> handler" where
  "handler_drop h = (case h of None \<Rightarrow> ([], None) | Some i \<Rightarrow> ([impl_nack i], None))"

definition delivery_attempt :: "handler \<Rightarrow> int option" where
  "delivery_attempt h = Option.bind h h_delivery_attempt"

datatype handler_use = UseAck | UseNack | JustDropped

fun handler_life :: "handler_use \<Rightarrow> handler \<Rightarrow> action list" where
  "handler_life UseAck h = (case handler_ack h of (as, h') \<Rightarrow> as @ fst (handler_drop h'))"
| "handler_life UseNack h = (case handler_nack h of (as, h') \<Rightarrow> as @ fst (handler_drop h'))"
| "handler_life JustDropped h = fst (handler_drop h)"

text \<open>Waiting for a confirmation: \<open>fate\<close> is \<open>None\<close> if the loop is gone and the action
  cannot be sent.\<close>

definition confirmed_ack :: "ack_fate option \<Rightarrow> ack_result" where
  "confirmed_ack fate = (case fate of None \<Rightarrow> Err ShutdownBeforeAck | Some f \<Rightarrow> confirmed_result f)"

definition confirmed_nack :: "ack_fate option \<Rightarrow> ack_result" where
  "confirmed_nack fate =
     (case fate of None \<Rightarrow> Err (AckShutdown NACK_SHUTDOWN_ERROR) | Some f \<Rightarrow> confirmed_result f)"

text \<open>Every handler sends exactly one action, which is what \<open>single_actions\<close> asks for.\<close>

lemma handler_acts_once: "\<exists>a \<in> {impl_ack i, impl_nack i}. handler_life u (Some i) = [a]"
  by (cases u) (auto simp: handler_ack_def handler_nack_def handler_drop_def)

section \<open>Properties of lease management\<close>

lemma lease_stop_only_at_shutdown:
  assumes "\<not> ls_stopped s" "ls_stopped (lease_turn now ev s)"
  shows "ls_leases (lease_turn now ev s) = alo_default \<and>
    leased_txs (ls_eo_leases (lease_turn now ev s)) = []"
proof -
  have p: "ls_stopped (ls_process a s) = ls_stopped s" for a s by (cases a) simp_all
  have sh: "ls_leases (ls_shutdown s) = alo_default \<and> leased_txs (ls_eo_leases (ls_shutdown s)) = []" for s
    by (simp add: ls_shutdown_def alo_evict_and_drain_def eo_evict_and_drain_def leased_txs_def eo_default_def)
  show ?thesis
  proof (cases ev)
    case (NewMessage i info)
    with assms show ?thesis by (cases info) simp_all
  qed (use assms sh p in \<open>simp_all add: ls_flush_def alo_drain_def eo_drain_def ls_extend_def case_prod_beta
        ls_confirm_def loop_shutdown_def\<close>)
qed

fun lease_exec :: "(instant \<times> lease_input) list \<Rightarrow> lease_state \<Rightarrow> lease_state option" where
  "lease_exec [] s = Some s"
| "lease_exec ((now, ev) # evs) s =
     (case lease_step now ev s of None \<Rightarrow> None | Some s' \<Rightarrow> lease_exec evs s')"

lemma lease_exec_reach:
  "lease_exec evs s = Some s' \<Longrightarrow> lease_reach ml me evs0 s \<Longrightarrow> lease_reach ml me (evs0 @ map snd evs) s'"
proof (induction evs arbitrary: s evs0)
  case (Cons e evs)
  obtain now ev where e: "e = (now, ev)" by (cases e)
  with Cons.prems(1) obtain s1 where s1: "lease_step now ev s = Some s1" "lease_exec evs s1 = Some s'"
    by (auto split: option.splits)
  from Cons.IH [OF s1(2) lease_next [OF Cons.prems(2) s1(1)]] e show ?case by simp
qed simp

definition lease_sample_inputs :: "(instant \<times> lease_input) list" where
  "lease_sample_inputs =
     [(0, NewMessage ''a'' (AtLeastOnceLease (alo_info_new 0))),
      (0, NewMessage ''b'' (AtLeastOnceLease (alo_info_new 0))),
      (0, NewMessage ''c'' (ExactlyOnceLease (eo_info_new 0 1))),
      (0, NewMessage ''d'' (ExactlyOnceLease (eo_info_new 0 2))),
      (0, NewMessage ''e'' (ExactlyOnceLease (eo_info_new 0 3))),
      (1, AppAction (Ack ''a'')), (1, AppAction (ExactlyOnceAck ''c'')),
      (2, FlushDue), (3, ConfirmedAcks [(''c'', Ok ())]),
      (4, AppAction (ExactlyOnceAck ''d'')), (20, ExtendDue),
      (21, NewMessage ''f'' (AtLeastOnceLease (alo_info_new 21))),
      (22, MessagesClosed [])]"

definition lease_sample :: lease_state where
  "lease_sample = the (lease_exec lease_sample_inputs (lease_state_new 10 10))"

lemmas lease_eval = lease_step_def lease_state_new_def alo_default_def eo_default_def alo_info_new_def
  eo_info_new_def ls_needs_flush_def alo_needs_flush_def eo_needs_flush_def MAX_IDS_PER_RPC_def
  alo_add_def eo_add_def alo_ack_def alo_nack_def eo_ack_def eo_nack_def eo_set_status_def
  ls_flush_def alo_drain_def eo_drain_def nonempty_call_def ls_confirm_def eo_confirm_def
  ls_extend_def alo_retain_def eo_retain_def lease_long_def push_id_def close_batches_def
  loop_shutdown_def ls_shutdown_def alo_evict_and_drain_def eo_evict_and_drain_def batch_ids_def
  chunks.simps Let_def

lemma lease_sample_exec: "lease_exec lease_sample_inputs (lease_state_new 10 10) = Some lease_sample"
  by (simp add: lease_sample_def lease_sample_inputs_def lease_eval)

lemma lease_sample_facts:
  "ls_stopped lease_sample"
  "eo_fates (ls_eo_leases lease_sample) =
     [(1, ResultSent (Ok ())), (3, ResultSent (Err LeaseExpired)),
      (2, ResultSent (Err (AckShutdown NACK_SHUTDOWN_ERROR)))]"
  "ls_calls lease_sample =
     [CallAck [''a''], CallConfirmedAck [''c''], CallEoExtend [''d''], CallNack [''f''], CallConfirmedNack [''d'']]"
  "ls_expired lease_sample = [''b'']"
  by (simp_all add: lease_sample_def lease_sample_inputs_def lease_eval)

text \<open>
  C29. Every exactly-once message gets its result, once. The senders of the messages that came under lease
  management are those with a fate plus those still under lease, with multiplicity. A sender is dropped
  without a result only when the same identifier was delivered again; every other fate is a result that was
  confirmed for the identifier of the message, the error of an expired lease, or the error of the shutdown.
  When a confirmation arrives for a message under lease its sender gets that result, and when the loop has
  shut down no message is under lease.
\<close>

theorem exactly_once_results_once:
  assumes "lease_reach max_lease max_extension evs s"
  shows "mset (concat (map added_tx evs)) =
      mset (map fst (eo_fates (ls_eo_leases s))) + mset (leased_txs (ls_eo_leases s)) \<and>
    (\<forall>(tx, f) \<in> set (eo_fates (ls_eo_leases s)). fate_explained evs tx f) \<and>
    (lease_step now (ConfirmedAcks results) s = Some s' \<longrightarrow>
     map_of (eo_under_lease (ls_eo_leases s)) i = Some info \<longrightarrow> map_of results i = Some r \<longrightarrow>
       (eo_result_tx info, ResultSent r) \<in> set (eo_fates (ls_eo_leases s'))) \<and>
    (ls_stopped s \<longrightarrow> leased_txs (ls_eo_leases s) = [])"
proof -
  have "ls_stopped s \<longrightarrow> leased_txs (ls_eo_leases s) = []"
    using assms
  proof cases
    case (lease_next evs' s' now ev)
    then show ?thesis
      using lease_stop_only_at_shutdown [of s' now ev] by (auto simp: lease_step_def split: if_splits)
  qed (simp add: lease_state_new_def)
  moreover have "(eo_result_tx info, ResultSent r) \<in> set (eo_fates (ls_eo_leases s'))"
    if "lease_step now (ConfirmedAcks results) s = Some s'"
      "map_of (eo_under_lease (ls_eo_leases s)) i = Some info" "map_of results i = Some r"
    using that(1) confirm_delivers [OF that(2,3)] by (auto simp: lease_step_def ls_confirm_def split: if_splits)
  ultimately show ?thesis
    using results_once.P_reach [OF assms] fates_explained.P_reach [OF assms] by (auto simp: eo_books_def eo_explained_def)
qed

theorem exactly_once_results_once_witness:
  "ls_stopped lease_sample \<and> leased_txs (ls_eo_leases lease_sample) = [] \<and>
   mset [1, 2, 3] = mset (map fst (eo_fates (ls_eo_leases lease_sample))) \<and>
   fate_explained (map snd lease_sample_inputs) 1 (ResultSent (Ok ()))"
  using exactly_once_results_once [OF lease_exec_reach [OF lease_sample_exec lease_start]]
    lease_sample_facts by (simp add: lease_sample_inputs_def eo_info_new_def)



text \<open>
  C31. Lease extension is exact. For both kinds of leases one pass over the map gives the same as
  filtering it: what stays under lease, and the identifiers to extend, in batches of at most a
  thousand. Old at-least-once leases are dropped. An exactly-once lease expires only if the
  application has not acted on the message: then its handler is told so; a message being acknowledged
  is extended however old it is, and one being rejected is neither extended nor expired. Leases that
  were extended recently enough are not extended again.
\<close>

theorem lease_extension_exact:
  "alo_retain now max_lease max_extension l =
     (batch_ids (map fst (filter (\<lambda>(i, info). alo_live now max_lease info \<and>
        alo_due now max_extension info) (al_under_lease l))),
      l\<lparr>al_under_lease := filter (\<lambda>(i, info). alo_live now max_lease info) (al_under_lease l)\<rparr>) \<and>
   eo_retain now max_lease max_extension e =
     (batch_ids (map fst (filter (\<lambda>(i, info). eo_live now max_lease info \<and>
        eo_due now max_extension info) (eo_under_lease e))),
      e\<lparr>eo_under_lease := filter (\<lambda>(i, info). eo_live now max_lease info) (eo_under_lease e),
        eo_fates := eo_fates e @ map (\<lambda>(i, info). (eo_result_tx info, ResultSent (Err LeaseExpired)))
          (filter (\<lambda>(i, info). \<not> eo_live now max_lease info) (eo_under_lease e))\<rparr>)"
  by (simp add: alo_retain_eq eo_retain_eq)

text \<open>
  While the loop runs, every request to the leaser names at least one and at most a thousand
  identifiers.
\<close>

theorem lease_requests_bounded:
  assumes "lease_reach max_lease max_extension evs s" "\<not> ls_stopped s" "c \<in> set (ls_calls s)"
  shows "1 \<le> length (call_ids c) \<and> length (call_ids c) \<le> 1000"
proof -
  have "small_call c"
    using small_requests.P_reach [OF assms(1)] assms(2, 3) by (simp add: small_batches_def list_all_iff)
  then show ?thesis by (simp add: small_call_def MAX_IDS_PER_RPC_def Suc_le_eq)
qed

theorem lease_requests_bounded_witness:
  "let s = the (lease_exec (take 8 lease_sample_inputs) (lease_state_new 10 10))
   in ls_calls s = [CallAck [''a''], CallConfirmedAck [''c'']] \<and>
      1 \<le> length (call_ids (hd (ls_calls s))) \<and> length (call_ids (hd (ls_calls s))) \<le> 1000"
proof -
  define s where "s = the (lease_exec (take 8 lease_sample_inputs) (lease_state_new 10 10))"
  have ex: "lease_exec (take 8 lease_sample_inputs) (lease_state_new 10 10) = Some s"
    and calls: "ls_calls s = [CallAck [''a''], CallConfirmedAck [''c'']]" and run: "\<not> ls_stopped s"
    by (simp_all add: s_def lease_sample_inputs_def lease_eval)
  have "hd (ls_calls s) \<in> set (ls_calls s)" using calls by simp
  from lease_requests_bounded [OF lease_exec_reach [OF ex lease_start] run this] calls
  show ?thesis by (simp add: s_def Let_def)
qed

text \<open>
  At shutdown the limit is not kept for acknowledgements: the queued actions are processed without
  flushing in between, and the acknowledgements are sent in one request, however many they are
  (rejections are sent in batches).
\<close>

theorem shutdown_acks_in_one_request:
  assumes "lease_step now (MessagesClosed (map Ack ids)) (lease_state_new max_lease max_extension) = Some s"
    and "ids \<noteq> []"
  shows "CallAck ids \<in> set (ls_calls s)"
proof -
  have fold: "al_to_ack (ls_leases (foldl (\<lambda>s a. ls_process a s) s0 (map Ack ids))) =
      al_to_ack (ls_leases s0) @ ids" for s0
    by (induction ids arbitrary: s0) (auto simp: alo_ack_def)
  have "s = loop_shutdown (map Ack ids) (lease_state_new max_lease max_extension)"
    using assms(1) by (simp add: lease_step_def split: if_splits)
  then show ?thesis
    using assms(2) fold [of "lease_state_new max_lease max_extension"]
    by (auto simp: loop_shutdown_def ls_shutdown_def alo_evict_and_drain_def eo_evict_and_drain_def
        nonempty_call_def lease_state_new_def alo_default_def)
qed

theorem shutdown_acks_in_one_request_witness:
  "let ids = map dec [0..<1001];
       s = loop_shutdown (map Ack ids) (lease_state_new 10 10)
   in CallAck ids \<in> set (ls_calls s) \<and> 1000 < length (call_ids (CallAck ids))"
proof -
  let ?ids = "map dec [0..<1001]"
  have "lease_step 0 (MessagesClosed (map Ack ?ids)) (lease_state_new 10 10) =
      Some (loop_shutdown (map Ack ?ids) (lease_state_new 10 10))"
    by (simp add: lease_step_def lease_state_new_def ls_needs_flush_def alo_needs_flush_def
        eo_needs_flush_def alo_default_def eo_default_def MAX_IDS_PER_RPC_def)
  from shutdown_acks_in_one_request [OF this] show ?thesis by (simp add: Let_def)
qed

end
