(* ===== verification/Pubsub_Exactly_Once.thy ===== *)
theory Pubsub_Exactly_Once
  imports Client_Policies Pubsub_Leases
begin

text \<open>
  The requests of the lease manager: \<open>pubsub/src/subscriber/leaser.rs\<close> and the retry loop for
  exactly-once messages, \<open>exactly_once_retry.rs\<close>, on top of the retry loop of \<open>gax\<close>.

  The stub, which makes one request, is a function on a world. The shared variables of the closures
  are the record \<open>eo_retry\<close> around that world; \<open>er_sent\<close> holds the maps sent on the
  channel to the lease loop, in order, and \<open>er_log\<close> records what each attempt asked for and
  was answered.
\<close>

section \<open>Reading the failures of an answer\<close>

definition starts_with :: "string \<Rightarrow> string \<Rightarrow> bool" where
  "starts_with p s \<longleftrightarrow> take (length p) s = p"

definition insert_failure ::
  "ack_id list \<times> ack_id list \<Rightarrow> string \<times> string \<Rightarrow> ack_id list \<times> ack_id list" where
  "insert_failure fs kv =
     (case (fs, kv) of ((transient, permanent), (k, v)) \<Rightarrow>
        if starts_with ''TRANSIENT_FAILURE_'' v then (List.insert k transient, permanent)
        else if starts_with ''PERMANENT_FAILURE_'' v then (transient, List.insert k permanent)
        else (transient, permanent))"

definition extract_failures :: "error \<Rightarrow> ack_id list \<times> ack_id list" where
  "extract_failures e =
     (case error_status e of
        None \<Rightarrow> ([], [])
      | Some s \<Rightarrow> foldl (\<lambda>fs detail. case detail of
            ErrorInfo info \<Rightarrow> foldl insert_failure fs (ei_metadata info)
          | _ \<Rightarrow> fs) ([], []) (status_details s))"

text \<open>Collecting \<open>(id, r)\<close> for a list of identifiers into a map.\<close>

definition confirm_all :: "ack_result \<Rightarrow> ack_id list \<Rightarrow> (ack_id \<times> ack_result) list" where
  "confirm_all r ids = foldl (\<lambda>m i. AList.update i r m) [] ids"

definition retry_ack_code :: "code \<Rightarrow> bool" where
  "retry_ack_code c \<longleftrightarrow>
     c \<in> {DeadlineExceeded, ResourceExhausted, Aborted, Internal, Unavailable}"

definition sort_failures ::
  "ack_id list \<Rightarrow> ack_id list \<Rightarrow> error \<Rightarrow> ack_id list \<Rightarrow> (ack_id \<times> ack_result) list \<times> ack_id list" where
  "sort_failures transient_failures permanent_failures e ids =
     foldl (\<lambda>(to_confirm, transient) i.
        if i \<in> set transient_failures then (to_confirm, transient @ [i])
        else if i \<in> set permanent_failures then (AList.update i (Err (AckRpc e)) to_confirm, transient)
        else (AList.update i (Ok ()) to_confirm, transient)) ([], []) ids"

definition process_attempt_error ::
  "ack_id list \<Rightarrow> error \<Rightarrow> (ack_id \<times> ack_result) list \<times> ack_id list" where
  "process_attempt_error ids e =
     (case extract_failures e of (transient_failures, permanent_failures) \<Rightarrow>
        if transient_failures = [] \<and> permanent_failures = [] then
          if is_some_and (\<lambda>s. retry_ack_code (status_code s)) (error_status e) then ([], ids)
          else (confirm_all (Err (AckRpc e)) ids, [])
        else sort_failures transient_failures permanent_failures e ids)"

section \<open>The retry loop\<close>

record 'w eo_retry =
  er_remaining :: "ack_id list"
  er_last_error :: "error option"
  er_sent :: "(ack_id \<times> ack_result) list list"
  er_log :: "(ack_id list \<times> (error, unit) result) list"
  er_world :: 'w

type_synonym 'w lease_rpc = "ack_id list \<Rightarrow> 'w \<Rightarrow> (error, unit) result \<times> 'w"

definition attempt_outcome ::
  "ack_id list \<Rightarrow> (error, unit) result \<Rightarrow> (ack_id \<times> ack_result) list \<times> ack_id list" where
  "attempt_outcome ids response =
     (case response of Ok _ \<Rightarrow> (confirm_all (Ok ()) ids, []) | Err e \<Rightarrow> process_attempt_error ids e)"

definition eo_attempt :: "'w lease_rpc \<Rightarrow> 'w eo_retry \<Rightarrow> (error, unit) result \<times> 'w eo_retry" where
  "eo_attempt rpc s =
     (let ids = er_remaining s
      in case rpc ids (er_world s) of
           (response, w) \<Rightarrow>
             (case attempt_outcome ids response of
                (to_confirm, remaining) \<Rightarrow>
                  (if remaining = [] then Ok () else Err (transport [] (MsgError ''retry me'')),
                   \<lparr>er_remaining = remaining,
                    er_last_error = (case response of
                        Err e \<Rightarrow> if remaining \<noteq> [] then Some e else er_last_error s
                      | Ok _ \<Rightarrow> er_last_error s),
                    er_sent = (if to_confirm \<noteq> [] then er_sent s @ [to_confirm] else er_sent s),
                    er_log = er_log s @ [(ids, response)],
                    er_world = w\<rparr>)))"

text \<open>The clock, the sleep, the throttler and the backoff act on the inner world.\<close>

definition eo_retry_env :: "'w lease_rpc \<Rightarrow> ('w, unit) loop_env \<Rightarrow> ('w eo_retry, unit) loop_env" where
  "eo_retry_env rpc base =
     \<lparr>env_now = (\<lambda>s. env_now base (er_world s)),
      env_inner = (\<lambda>_. eo_attempt rpc),
      env_sleep = (\<lambda>d s. s\<lparr>er_world := env_sleep base d (er_world s)\<rparr>),
      env_throttle = (\<lambda>s. map_run (\<lambda>(b, w). (b, s\<lparr>er_world := w\<rparr>)) (env_throttle base (er_world s))),
      env_on_retry_failure = (\<lambda>f s.
        map_run (\<lambda>w. s\<lparr>er_world := w\<rparr>) (env_on_retry_failure base f (er_world s))),
      env_on_success = (\<lambda>s. map_run (\<lambda>w. s\<lparr>er_world := w\<rparr>) (env_on_success base (er_world s))),
      env_backoff = (\<lambda>st s. case env_backoff base st (er_world s) of (d, w) \<Rightarrow> (d, s\<lparr>er_world := w\<rparr>))\<rparr>"

definition eo_retry_start :: "ack_id list \<Rightarrow> 'w \<Rightarrow> 'w eo_retry" where
  "eo_retry_start ids w =
     \<lparr>er_remaining = ids, er_last_error = None, er_sent = [], er_log = [], er_world = w\<rparr>"

text \<open>After the loop: what is left fails with the last error.\<close>

definition eo_retry_finish :: "'w eo_retry \<Rightarrow> 'w eo_retry" where
  "eo_retry_finish s =
     (if er_remaining s \<noteq> [] then
        (case er_last_error s of
           Some e \<Rightarrow> s\<lparr>er_remaining := [], er_last_error := None,
             er_sent := er_sent s @ [confirm_all (Err (AckRpc e)) (er_remaining s)]\<rparr>
         | None \<Rightarrow> s\<lparr>er_remaining := []\<rparr>)
      else s)"

definition exactly_once_retry_loop ::
  "nat \<Rightarrow> 'w lease_rpc \<Rightarrow> ('w, unit) loop_env \<Rightarrow> retry_policy \<Rightarrow> ack_id list \<Rightarrow> 'w \<Rightarrow>
   'w eo_retry run option" where
  "exactly_once_retry_loop fuel rpc base policy ids w =
     map_option (map_run (\<lambda>(r, s). eo_retry_finish s))
       (retry_loop fuel (eo_retry_env rpc base) policy True (eo_retry_start ids w))"

section \<open>The leaser\<close>

datatype lease_request =
    Acknowledge string "ack_id list"
  | ModifyAckDeadline string "ack_id list" int

text \<open>The policies in the request options; the stub applies the ones it is given.\<close>

record leaser =
  le_options :: "retry_policy option"
  le_settle_options :: "retry_policy option"
  le_eo_ack_options :: "retry_policy option"
  le_eo_modack_options :: "retry_policy option"
  le_subscription :: string
  le_ack_deadline_seconds :: int

type_synonym 'w lease_stub =
  "lease_request \<Rightarrow> retry_policy option \<Rightarrow> 'w \<Rightarrow> (error, unit) result \<times> 'w"

definition eo_modack_options_policy :: "duration \<Rightarrow> retry_policy" where
  "eo_modack_options_policy time_limit = exactly_once_options_policy time_limit"

text \<open>The cast of the deadline to \<open>u64\<close> is written out.\<close>

definition leaser_new :: "string \<Rightarrow> int \<Rightarrow> u64 \<Rightarrow> leaser" where
  "leaser_new subscription ack_deadline_seconds grpc_subchannel_count =
     \<lparr>le_options = Some (rpc_options_policy grpc_subchannel_count),
      le_settle_options = Some settle_options_policy,
      le_eo_ack_options = Some eo_ack_options_policy,
      le_eo_modack_options = Some (eo_modack_options_policy
        (from_secs (nat (ack_deadline_seconds mod 2 ^ 64)))),
      le_subscription = subscription,
      le_ack_deadline_seconds = ack_deadline_seconds\<rparr>"

definition leaser_retry_policy :: "retry_policy option \<Rightarrow> retry_policy" where
  "leaser_retry_policy options = (case options of Some p \<Rightarrow> p | None \<Rightarrow> stream_retry_policy)"

text \<open>The options hold no throttler, so every loop gets a circuit breaker of its own, with a cost of
  zero.\<close>

definition leaser_retry_throttler :: "circuit_breaker run" where
  "leaser_retry_throttler = (case cb_new 1000 0 0 of Ok cb \<Rightarrow> Ret cb | Err _ \<Rightarrow> Panic)"

definition breaker_env :: "('w, unit) loop_env \<Rightarrow> (circuit_breaker \<times> 'w, unit) loop_env" where
  "breaker_env base =
     \<lparr>env_now = (\<lambda>(cb, w). env_now base w),
      env_inner = (\<lambda>t (cb, w). case env_inner base t w of (r, w') \<Rightarrow> (r, (cb, w'))),
      env_sleep = (\<lambda>d (cb, w). (cb, env_sleep base d w)),
      env_throttle = (\<lambda>(cb, w). Ret (cb_throttle_retry_attempt cb, (cb, w))),
      env_on_retry_failure = (\<lambda>f (cb, w). Ret (cb_on_retry_failure f cb, w)),
      env_on_success = (\<lambda>(cb, w). Ret (cb_on_success cb, w)),
      env_backoff = (\<lambda>st (cb, w). case env_backoff base st w of (d, w') \<Rightarrow> (d, (cb, w')))\<rparr>"

definition leaser_retry ::
  "nat \<Rightarrow> 'w lease_rpc \<Rightarrow> ('w, unit) loop_env \<Rightarrow> retry_policy option \<Rightarrow> ack_id list \<Rightarrow> 'w \<Rightarrow>
   (circuit_breaker \<times> 'w) eo_retry run option" where
  "leaser_retry fuel rpc base options ids w =
     (case leaser_retry_throttler of
        Panic \<Rightarrow> Some Panic
      | Ret cb \<Rightarrow> exactly_once_retry_loop fuel
          (\<lambda>ids (cb, w). case rpc ids w of (r, w') \<Rightarrow> (r, (cb, w')))
          (breaker_env base) (leaser_retry_policy options) ids (cb, w))"

definition leaser_ack :: "leaser \<Rightarrow> 'w lease_stub \<Rightarrow> ack_id list \<Rightarrow> 'w \<Rightarrow> 'w" where
  "leaser_ack l stub ids w =
     snd (stub (Acknowledge (le_subscription l) ids) (le_settle_options l) w)"

definition leaser_nack :: "leaser \<Rightarrow> 'w lease_stub \<Rightarrow> ack_id list \<Rightarrow> 'w \<Rightarrow> 'w" where
  "leaser_nack l stub ids w =
     snd (stub (ModifyAckDeadline (le_subscription l) ids 0) (le_settle_options l) w)"

definition leaser_extend :: "leaser \<Rightarrow> 'w lease_stub \<Rightarrow> ack_id list \<Rightarrow> 'w \<Rightarrow> ack_id list \<times> 'w" where
  "leaser_extend l stub ids w =
     (case stub (ModifyAckDeadline (le_subscription l) ids (le_ack_deadline_seconds l)) (le_options l) w of
        (response, w') \<Rightarrow> (if is_ok response then ids else [], w'))"

definition leaser_confirmed_ack ::
  "nat \<Rightarrow> leaser \<Rightarrow> 'w lease_stub \<Rightarrow> ('w, unit) loop_env \<Rightarrow> ack_id list \<Rightarrow> 'w \<Rightarrow>
   (circuit_breaker \<times> 'w) eo_retry run option" where
  "leaser_confirmed_ack fuel l stub base ids w =
     leaser_retry fuel (\<lambda>ids. stub (Acknowledge (le_subscription l) ids) (le_options l)) base
       (le_eo_ack_options l) ids w"

definition leaser_confirmed_nack ::
  "nat \<Rightarrow> leaser \<Rightarrow> 'w lease_stub \<Rightarrow> ('w, unit) loop_env \<Rightarrow> ack_id list \<Rightarrow> 'w \<Rightarrow>
   (circuit_breaker \<times> 'w) eo_retry run option" where
  "leaser_confirmed_nack fuel l stub base ids w =
     leaser_retry fuel (\<lambda>ids. stub (ModifyAckDeadline (le_subscription l) ids 0) (le_options l)) base
       (le_eo_modack_options l) ids w"

definition leaser_eo_extend ::
  "nat \<Rightarrow> leaser \<Rightarrow> 'w lease_stub \<Rightarrow> ('w, unit) loop_env \<Rightarrow> ack_id list \<Rightarrow> 'w \<Rightarrow>
   (circuit_breaker \<times> 'w) eo_retry run option" where
  "leaser_eo_extend fuel l stub base ids w =
     leaser_retry fuel
       (\<lambda>ids. stub (ModifyAckDeadline (le_subscription l) ids (le_ack_deadline_seconds l)) (le_options l))
       base (le_eo_modack_options l) ids w"

section \<open>What an attempt reports\<close>

lemma map_of_foldl_update:
  "map_of (foldl (\<lambda>m i. AList.update i r m) m0 ids) =
     (\<lambda>i. if i \<in> set ids then Some r else map_of m0 i)"
  by (induction ids arbitrary: m0) (auto simp: update_conv' fun_eq_iff)

lemma distinct_foldl_update:
  "distinct (map fst m0) \<Longrightarrow> distinct (map fst (foldl (\<lambda>m i. AList.update i r m) m0 ids))"
  by (induction ids arbitrary: m0) (simp_all add: distinct_update)

lemma confirm_all_sound:
  "distinct (map fst (confirm_all r ids))" "fst ` set (confirm_all r ids) = set ids"
  "(i, x) \<in> set (confirm_all r ids) \<Longrightarrow> i \<in> set ids \<and> x = r"
proof -
  show d: "distinct (map fst (confirm_all r ids))"
    by (simp add: confirm_all_def distinct_foldl_update)
  have m: "map_of (confirm_all r ids) = (\<lambda>i. if i \<in> set ids then Some r else None)"
    by (simp add: confirm_all_def map_of_foldl_update fun_eq_iff)
  show "fst ` set (confirm_all r ids) = set ids"
    using m by (auto simp: dom_map_of_conv_image_fst [symmetric] split: if_splits)
  show "i \<in> set ids \<and> x = r" if "(i, x) \<in> set (confirm_all r ids)"
    using map_of_is_SomeI [OF d that] m by (auto split: if_splits)
qed

text \<open>The map and the rest split the identifiers, and each entry follows from the answer.\<close>

definition answer_for :: "(error, unit) result \<Rightarrow> ack_id \<Rightarrow> ack_result \<Rightarrow> bool" where
  "answer_for response i r =
     (case response of
        Ok _ \<Rightarrow> r = Ok ()
      | Err e \<Rightarrow>
          r = Err (AckRpc e) \<and> i \<notin> set (fst (extract_failures e)) \<or>
          r = Ok () \<and> extract_failures e \<noteq> ([], []) \<and>
            i \<notin> set (fst (extract_failures e)) \<and> i \<notin> set (snd (extract_failures e)))"

definition splits_ids ::
  "((ack_id \<Rightarrow> ack_result \<Rightarrow> bool) \<Rightarrow> ack_id list \<Rightarrow>
   (ack_id \<times> ack_result) list \<times> ack_id list \<Rightarrow> bool)" where
  "splits_ids ok ids out \<longleftrightarrow>
     distinct (map fst (fst out)) \<and> fst ` set (fst out) \<inter> set (snd out) = {} \<and>
     fst ` set (fst out) \<union> set (snd out) = set ids \<and> (\<forall>(i, r) \<in> set (fst out). ok i r)"

lemma splits_confirm_all: "(\<And>i. i \<in> set ids \<Longrightarrow> ok i r) \<Longrightarrow> splits_ids ok ids (confirm_all r ids, [])"
  using confirm_all_sound by (fastforce simp: splits_ids_def)

lemma splits_snoc:
  assumes "splits_ids ok ids (m, rest)"
  shows "i \<notin> fst ` set m \<Longrightarrow> splits_ids ok (ids @ [i]) (m, rest @ [i])"
    and "i \<notin> set rest \<Longrightarrow> ok i r \<Longrightarrow> splits_ids ok (ids @ [i]) (AList.update i r m, rest)"
proof -
  show "splits_ids ok (ids @ [i]) (m, rest @ [i])" if "i \<notin> fst ` set m"
    using assms that by (auto simp: splits_ids_def)
  have "fst ` set (AList.update i r m) = insert i (fst ` set m)"
    using dom_update [of i r m] by (simp add: dom_map_of_conv_image_fst)
  moreover have "set (AList.update i r m) \<subseteq> insert (i, r) (set m)"
    by (induction m) auto
  ultimately show "splits_ids ok (ids @ [i]) (AList.update i r m, rest)" if "i \<notin> set rest" "ok i r"
    using assms that by (auto simp: splits_ids_def distinct_update)
qed

lemma splits_sort_failures:
  assumes "extract_failures e = (ts, ps)" and "ts \<noteq> [] \<or> ps \<noteq> []"
  shows "splits_ids (answer_for (Err e)) ids (sort_failures ts ps e ids) \<and>
    set (snd (sort_failures ts ps e ids)) \<subseteq> set ts \<and>
    fst ` set (fst (sort_failures ts ps e ids)) \<inter> set ts = {}"
proof (induction ids rule: rev_induct)
  case Nil
  show ?case by (simp add: sort_failures_def splits_ids_def)
next
  case (snoc i ids)
  obtain m rest where out: "sort_failures ts ps e ids = (m, rest)" by (cases "sort_failures ts ps e ids")
  with snoc have IH: "splits_ids (answer_for (Err e)) ids (m, rest)" "set rest \<subseteq> set ts" "fst ` set m \<inter> set ts = {}"
    by simp_all
  have step: "sort_failures ts ps e (ids @ [i]) =
      (if i \<in> set ts then (m, rest @ [i])
       else if i \<in> set ps then (AList.update i (Err (AckRpc e)) m, rest) else (AList.update i (Ok ()) m, rest))"
    using out by (simp add: sort_failures_def)
  have keys: "fst ` set (AList.update i r m) = insert i (fst ` set m)" for r
    using dom_update [of i r m] by (simp add: dom_map_of_conv_image_fst)
  have ok: "i \<notin> set ts \<Longrightarrow> answer_for (Err e) i (if i \<in> set ps then Err (AckRpc e) else Ok ())"
    using assms by (auto simp: answer_for_def)
  show ?case
  proof (cases "i \<in> set ts")
    case True
    then have "i \<notin> fst ` set m" using IH(3) by blast
    with True step IH(2, 3) splits_snoc(1) [OF IH(1)] show ?thesis by auto
  next
    case False
    then have "i \<notin> set rest" using IH(2) by blast
    from splits_snoc(2) [OF IH(1) this ok [OF False]] False step IH(2, 3) keys show ?thesis
      by (auto split: if_splits)
  qed
qed

lemma attempt_outcome_splits: "splits_ids (answer_for response) ids (attempt_outcome ids response)"
proof (cases response)
  case (Ok x)
  then show ?thesis by (auto simp: attempt_outcome_def answer_for_def intro: splits_confirm_all)
next
  case (Err e)
  obtain ts ps where f: "extract_failures e = (ts, ps)" by (cases "extract_failures e")
  show ?thesis
  proof (cases "ts = [] \<and> ps = []")
    case True
    with Err f show ?thesis
      by (auto simp: attempt_outcome_def process_attempt_error_def answer_for_def splits_ids_def [of _ _ "([], ids)"]
          intro: splits_confirm_all)
  next
    case False
    then have "attempt_outcome ids response = sort_failures ts ps e ids"
      using Err f by (auto simp: attempt_outcome_def process_attempt_error_def)
    with False Err splits_sort_failures [OF f] show ?thesis by auto
  qed
qed



section \<open>Every identifier is reported once\<close>

lemma splits_trans:
  assumes "splits_ids p ids (m, mid)" and "splits_ids q mid (m', rest)"
    and "\<And>i r. p i r \<Longrightarrow> ok i r" and "\<And>i r. q i r \<Longrightarrow> i \<in> set mid \<Longrightarrow> ok i r"
  shows "splits_ids ok ids (m @ m', rest)"
proof -
  let ?a = "fst ` set m" and ?b = "fst ` set m'"
  have keys: "?a \<inter> set mid = {}" "?a \<union> set mid = set ids" "?b \<inter> set rest = {}" "?b \<union> set rest = set mid"
    using assms(1, 2) by (simp_all add: splits_ids_def)
  then have sets: "?a \<inter> ?b = {}" "(?a \<union> ?b) \<inter> set rest = {}" "(?a \<union> ?b) \<union> set rest = set ids"
    by blast+
  have mid: "(i, r) \<in> set m' \<Longrightarrow> i \<in> set mid" for i r
    using keys(4) by force
  have "\<forall>(i, r) \<in> set m. ok i r" "\<forall>(i, r) \<in> set m'. ok i r"
    using assms mid by (auto simp: splits_ids_def)
  then have "\<forall>(i, r) \<in> set (m @ m'). ok i r" by auto
  moreover have "distinct (map fst (m @ m'))"
    using assms(1, 2) sets(1) by (simp add: splits_ids_def)
  ultimately show ?thesis
    using sets(2, 3) by (simp add: splits_ids_def image_Un)
qed

text \<open>When an answer confirms an identifier, and what explains a reported result.\<close>

definition confirms :: "(error, unit) result \<Rightarrow> ack_id \<Rightarrow> bool" where
  "confirms response i =
     (case response of
        Ok _ \<Rightarrow> True
      | Err e \<Rightarrow> extract_failures e \<noteq> ([], []) \<and>
          i \<notin> set (fst (extract_failures e)) \<and> i \<notin> set (snd (extract_failures e)))"

definition explained :: "(ack_id list \<times> (error, unit) result) list \<Rightarrow> ack_id \<Rightarrow> ack_result \<Rightarrow> bool" where
  "explained log i r \<longleftrightarrow>
     (\<exists>(ids, response) \<in> set log. i \<in> set ids \<and>
        (case r of
           Ok _ \<Rightarrow> confirms response i
         | Err x \<Rightarrow> (\<exists>e. x = AckRpc e \<and> response = Err e)))"

definition reported :: "'w eo_retry \<Rightarrow> (ack_id \<times> ack_result) list" where
  "reported s = concat (er_sent s)"

lemma explained_answer: "answer_for response i r \<Longrightarrow> i \<in> set ids \<Longrightarrow> explained (log @ [(ids, response)]) i r"
  by (auto simp: explained_def answer_for_def confirms_def split: result.splits)

lemma explained_mono: "explained log i r \<Longrightarrow> explained (log @ log') i r"
  unfolding explained_def by fastforce

definition eo_before :: "ack_id list \<Rightarrow> 'w eo_retry \<Rightarrow> bool" where
  "eo_before ids s \<longleftrightarrow> er_remaining s = ids \<and> er_sent s = []"

definition eo_after :: "ack_id list \<Rightarrow> 'w eo_retry \<Rightarrow> bool" where
  "eo_after ids s \<longleftrightarrow>
     splits_ids (explained (er_log s)) ids (reported s, er_remaining s) \<and>
     (er_remaining s \<noteq> [] \<longrightarrow>
        (\<exists>e ids'. er_last_error s = Some e \<and> (ids', Err e) \<in> set (er_log s) \<and>
           set (er_remaining s) \<subseteq> set ids'))"

lemma eo_attempt_after:
  assumes "eo_before ids s \<or> eo_after ids s" and "eo_attempt rpc s = (r, s')"
  shows "eo_after ids s'"
proof -
  obtain response w where rpc: "rpc (er_remaining s) (er_world s) = (response, w)" by fastforce
  obtain m rest where out: "attempt_outcome (er_remaining s) response = (m, rest)" by fastforce
  from attempt_outcome_splits [of response "er_remaining s"] out
  have sp: "splits_ids (answer_for response) (er_remaining s) (m, rest)" by simp
  have s': "reported s' = reported s @ m" "er_remaining s' = rest"
    "er_log s' = er_log s @ [(er_remaining s, response)]"
    "rest \<noteq> [] \<Longrightarrow> response = Err e \<Longrightarrow> er_last_error s' = Some e" for e
    using assms(2) rpc out by (auto simp: eo_attempt_def Let_def reported_def split: if_splits result.splits)
  have old: "splits_ids (explained (er_log s)) ids (reported s, er_remaining s)"
    using assms(1) by (auto simp: eo_before_def eo_after_def splits_ids_def reported_def)
  have new: "splits_ids (explained (er_log s')) ids (reported s', er_remaining s')"
    unfolding s'
    by (rule splits_trans [OF old sp]) (simp_all add: explained_mono explained_answer)
  have "\<exists>e. response = Err e" if "rest \<noteq> []"
    using out that by (cases response) (auto simp: attempt_outcome_def)
  with new sp show ?thesis by (fastforce simp: eo_after_def s' splits_ids_def)
qed

lemma eo_frame [simp]: "eo_after ids (s\<lparr>er_world := w\<rparr>) = eo_after ids s"
  by (simp add: eo_after_def reported_def)

interpretation eo_loop: loop_world "eo_retry_env rpc base" "eo_before ids" "eo_after ids"
  by unfold_locales
    (auto simp: eo_retry_env_def map_run_Ret_iff case_prod_eq intro: eo_attempt_after)

lemma eo_finish_splits:
  assumes "eo_after ids s"
  shows "splits_ids (explained (er_log (eo_retry_finish s))) ids (reported (eo_retry_finish s), []) \<and>
    er_remaining (eo_retry_finish s) = []"
proof (cases "er_remaining s = []")
  case True
  with assms show ?thesis by (simp add: eo_after_def eo_retry_finish_def)
next
  case False
  with assms obtain e ids' where e: "er_last_error s = Some e" "(ids', Err e) \<in> set (er_log s)"
      "set (er_remaining s) \<subseteq> set ids'"
    and sp: "splits_ids (explained (er_log s)) ids (reported s, er_remaining s)"
    by (auto simp: eo_after_def)
  have "explained (er_log s) i (Err (AckRpc e))" if "i \<in> set (er_remaining s)" for i
    using that e by (fastforce simp: explained_def)
  then have "splits_ids (explained (er_log s)) (er_remaining s) (confirm_all (Err (AckRpc e)) (er_remaining s), [])"
    by (rule splits_confirm_all)
  from splits_trans [OF sp this] False e show ?thesis
    by (simp add: eo_retry_finish_def reported_def)
qed

lemma exactly_once_retry_loop_splits:
  assumes "exactly_once_retry_loop fuel rpc base policy ids w = Some (Ret s)"
  shows "splits_ids (explained (er_log s)) ids (reported s, []) \<and> er_remaining s = []"
proof -
  obtain r s0 where run: "retry_loop fuel (eo_retry_env rpc base) policy True (eo_retry_start ids w) = Some (Ret (r, s0))"
    and s: "s = eo_retry_finish s0"
    using assms by (auto simp: exactly_once_retry_loop_def map_run_Ret_iff)
  have "eo_before ids (eo_retry_start ids w)" by (simp add: eo_before_def eo_retry_start_def)
  with eo_loop.loop_after [OF _ run [unfolded retry_loop_def]] have "eo_after ids s0" by simp
  from eo_finish_splits [OF this] s show ?thesis by simp
qed

section \<open>The results reach the leases\<close>

lemma eo_confirm_lookup:
  "map_of (eo_under_lease (eo_confirm j r l)) i = (if i = j then None else map_of (eo_under_lease l) i)"
  by (auto simp: eo_confirm_def delete_conv' split: option.splits)

lemma eo_confirms_lookup:
  "map_of (eo_under_lease (foldl (\<lambda>l (i, r). eo_confirm i r l) l rs)) i =
     (if i \<in> fst ` set rs then None else map_of (eo_under_lease l) i)"
  by (induction rs arbitrary: l) (auto simp: eo_confirm_lookup)

lemma eo_confirms_delivered:
  assumes "i \<in> fst ` set rs" "map_of (eo_under_lease l) i = Some info"
  shows "\<exists>r. (i, r) \<in> set rs \<and>
       (eo_result_tx info, ResultSent r) \<in> set (eo_fates (foldl (\<lambda>l (i, r). eo_confirm i r l) l rs))"
proof -
  from assms(1) obtain r where r: "map_of rs i = Some r" by (cases "map_of rs i") (auto simp: map_of_eq_None_iff)
  from map_of_SomeD [OF r] confirm_delivers [OF assms(2) r] show ?thesis by blast
qed

lemma ls_confirms:
  "ls_eo_leases (foldl (\<lambda>st m. ls_confirm m st) st ms) =
     foldl (\<lambda>l (i, r). eo_confirm i r l) (ls_eo_leases st) (concat ms)"
  by (induction ms arbitrary: st) (simp_all add: ls_confirm_def)

section \<open>The leaser's loops end\<close>

text \<open>
  What the loops need of time: the clock is not set back, and a sleep lasts at least as long as asked for, as
  that of \<open>tokio\<close> does.
\<close>

definition lease_clock :: "'w lease_stub \<Rightarrow> ('w, unit) loop_env \<Rightarrow> bool" where
  "lease_clock stub base \<longleftrightarrow>
     (\<forall>d w. env_now base w + d \<le> env_now base (env_sleep base d w)) \<and>
     (\<forall>st w. env_now base w \<le> env_now base (snd (env_backoff base st w))) \<and>
     (\<forall>req opts w. env_now base w \<le> env_now base (snd (stub req opts w)))"

text \<open>The first \<open>n\<close> delays that the backoff draws for a request, as far as its loop gets.\<close>

definition leaser_delays ::
  "nat \<Rightarrow> 'w lease_rpc \<Rightarrow> ('w, unit) loop_env \<Rightarrow> retry_policy \<Rightarrow> ack_id list \<Rightarrow> 'w \<Rightarrow> duration list" where
  "leaser_delays n rpc base policy ids w =
     loop_delays n (eo_retry_env (\<lambda>ids (cb, w). case rpc ids w of (r, w') \<Rightarrow> (r, (cb, w'))) (breaker_env base))
       policy True (env_now base w) Initial
       (eo_retry_start ids (\<lparr>max_tokens = 1000, min_tokens = 0, cur_tokens = 1000, error_cost = 0\<rparr>, w))"

definition delays_add_up ::
  "duration \<Rightarrow> nat \<Rightarrow> 'w lease_stub \<Rightarrow> ('w, unit) loop_env \<Rightarrow> ack_id list \<Rightarrow> 'w \<Rightarrow> bool" where
  "delays_add_up lim n stub base ids w \<longleftrightarrow>
     (\<forall>req opts policy. delays_reach lim n (leaser_delays n (\<lambda>ids. stub (req ids) opts) base policy ids w))"

lemma er_world_attempt: "er_world (snd (eo_attempt rpc s)) = snd (rpc (er_remaining s) (er_world s))"
  by (simp add: eo_attempt_def Let_def case_prod_beta)

lemma leaser_clock_runs:
  assumes "lease_clock stub base"
  shows "clock_runs (eo_retry_env
    (\<lambda>ids (cb, w). case stub (req ids) opts w of (r, w') \<Rightarrow> (r, (cb, w'))) (breaker_env base))"
  using assms
  by (auto simp: clock_runs_def lease_clock_def eo_retry_env_def breaker_env_def map_run_Ret_iff
      case_prod_beta er_world_attempt)

lemma exactly_once_options_no_panic:
  assumes "t0 + lim < INSTANT_LIMIT"
  shows "remaining_time (exactly_once_options_policy lim) now (loop_retry_state idem t0 c) \<noteq> Panic"
    and "on_error (exactly_once_options_policy lim) now (loop_retry_state idem t0 c) e \<noteq> Panic"
    and "on_throttle (exactly_once_options_policy lim) now (loop_retry_state idem t0 c) e \<noteq> Panic"
  using assms
  by (auto simp: exactly_once_options_policy_def with_time_limit_def only_transport_errors_def
      elapsed_remaining_time_def elapsed_on_error_def elapsed_on_throttle_def
      elapsed_error_if_exhausted_def Let_def bind_run_Panic_iff split: option.splits if_splits)

lemma leaser_retry_returns:
  assumes "lease_clock stub base"
    and delays: "delays_reach lim (Suc k)
      (leaser_delays (Suc k) (\<lambda>ids. stub (req ids) opts) base (exactly_once_options_policy lim) ids w)"
    and "env_now base w + lim < INSTANT_LIMIT" and fuel: "fuel = Suc (Suc k)"
  shows "\<exists>s. leaser_retry fuel (\<lambda>ids. stub (req ids) opts) base (Some (exactly_once_options_policy lim)) ids w =
    Some (Ret s)"
proof -
  let ?rpc = "\<lambda>ids (cb, w). case stub (req ids) opts w of (r, w') \<Rightarrow> (r, (cb, w'))"
  let ?cb = "\<lparr>max_tokens = 1000, min_tokens = 0, cur_tokens = 1000, error_cost = 0\<rparr> :: circuit_breaker"
  let ?env = "eo_retry_env ?rpc (breaker_env base)"
  let ?run = "retry_loop (Suc (Suc k)) ?env (exactly_once_options_policy lim) True (eo_retry_start ids (?cb, w))"
  have now: "env_now ?env (eo_retry_start ids (?cb, w)) = env_now base w"
    by (simp add: eo_retry_env_def eo_retry_start_def breaker_env_def)
  have "\<exists>out. ?run = Some out"
    using delays unfolding exactly_once_options_policy_def
    by (intro retry_loop_time_limit_exact [OF leaser_clock_runs [OF assms(1)]])
      (simp add: leaser_delays_def now [unfolded exactly_once_options_policy_def] del: loop_delays.simps)
  then obtain out where out: "?run = Some out" by blast
  have "?run \<noteq> Some Panic"
    unfolding retry_loop_def now
    by (rule retry_loop_no_panic)
      (use exactly_once_options_no_panic [OF assms(3)] in
        \<open>auto simp: eo_retry_env_def breaker_env_def map_run_Panic_iff case_prod_beta\<close>)
  with out obtain r s where "?run = Some (Ret (r, s))" by (cases out) auto
  then show ?thesis
    by (simp add: fuel leaser_retry_def leaser_retry_throttler_def cb_new_def leaser_retry_policy_def
        exactly_once_retry_loop_def)
qed

lemma leaser_retry_splits:
  assumes "leaser_retry fuel rpc base opts ids w = Some (Ret s)"
  shows "splits_ids (explained (er_log s)) ids (reported s, [])"
proof -
  from assms obtain rpc' base' policy w' where
    "exactly_once_retry_loop fuel rpc' base' policy ids w' = Some (Ret s)"
    by (auto simp: leaser_retry_def split: run.splits)
  then show ?thesis by (rule exactly_once_retry_loop_splits [THEN conjunct1])
qed

section \<open>Properties of confirmed requests\<close>

text \<open>A simulated service for the examples: a clock and the answers it will give.\<close>

definition script_env :: "(instant \<times> (error, unit) result list, unit) loop_env" where
  "script_env =
     \<lparr>env_now = fst, env_inner = (\<lambda>_ w. (Ok (), w)),
      env_sleep = (\<lambda>d (t, script). (t + d, script)),
      env_throttle = (\<lambda>w. Ret (False, w)), env_on_retry_failure = (\<lambda>_ w. Ret w),
      env_on_success = Ret, env_backoff = (\<lambda>_ w. (from_secs 1, w))\<rparr>"

definition script_stub :: "(instant \<times> (error, unit) result list) lease_stub" where
  "script_stub req opts w =
     (case w of (t, []) \<Rightarrow> (Ok (), (t, [])) | (t, r # script) \<Rightarrow> (r, (t, script)))"

definition partial_failure :: error where
  "partial_failure = service (set_details status_default
     [ErrorInfo \<lparr>ei_reason = '''', ei_domain = '''',
        ei_metadata = [(''a'', ''TRANSIENT_FAILURE_BUSY''), (''b'', ''PERMANENT_FAILURE_INVALID'')]\<rparr>])"

definition confirmed_ack_sample :: "(circuit_breaker \<times> instant \<times> (error, unit) result list) eo_retry run option" where
  "confirmed_ack_sample = leaser_confirmed_ack 4 (leaser_new ''s'' 10 1) script_stub script_env
     [''a'', ''b'', ''c''] (0, [Err partial_failure, Ok ()])"

lemma partial_failure_sel [simp]:
  "extract_failures partial_failure = ([''a''], [''b''])"
  by (simp add: extract_failures_def partial_failure_def service_def error_classifiers set_details_def
      insert_failure_def starts_with_def)

lemmas confirmed_eval = leaser_confirmed_ack_def leaser_retry_def leaser_retry_throttler_def cb_new_def
  leaser_retry_policy_def leaser_new_def exactly_once_retry_loop_def eo_ack_options_policy_def
  exactly_once_options_policy_def only_transport_errors_def is_transport_def transport_def
  eo_retry_env_def breaker_env_def eo_attempt_def attempt_outcome_def process_attempt_error_def
  sort_failures_def confirm_all_def eo_retry_start_def eo_retry_finish_def script_env_def script_stub_def
  word_le_nat_alt

lemma confirmed_ack_sample_runs:
  "\<exists>s. confirmed_ack_sample = Some (Ret s) \<and>
     er_sent s = [[(''b'', Err (AckRpc partial_failure)), (''c'', Ok ())], [(''a'', Ok ())]]"
  by (simp add: confirmed_ack_sample_def confirmed_eval loop_eval)

text \<open>
  C32. Partial results are reported once. When the retry loop for exactly-once requests returns, every
  identifier it was given has been reported to the lease loop exactly once, however the attempts were
  answered: the successes are those of an attempt that succeeded or whose failures did not name the
  identifier, and the errors are those of an attempt that asked for it.
\<close>

theorem exactly_once_reports_once:
  assumes "exactly_once_retry_loop fuel rpc base policy ids w = Some (Ret s)"
  shows "distinct (map fst (concat (er_sent s))) \<and> set (map fst (concat (er_sent s))) = set ids \<and>
    list_all (\<lambda>(i, r). explained (er_log s) i r) (concat (er_sent s))"
  using exactly_once_retry_loop_splits [OF assms]
  by (simp add: splits_ids_def reported_def list_all_iff)

theorem exactly_once_reports_once_witness:
  "\<exists>s. exactly_once_retry_loop 3 (\<lambda>ids. script_stub (Acknowledge ''s'' ids) None) script_env
      eo_ack_options_policy [''a'', ''b'', ''c''] (0, [Err partial_failure, Ok ()]) = Some (Ret s) \<and>
    distinct (map fst (concat (er_sent s))) \<and> set (map fst (concat (er_sent s))) = {''a'', ''b'', ''c''} \<and>
    list_all (\<lambda>(i, r). explained (er_log s) i r) (concat (er_sent s))"
proof -
  have "\<exists>s. exactly_once_retry_loop 3 (\<lambda>ids. script_stub (Acknowledge ''s'' ids) None) script_env
      eo_ack_options_policy [''a'', ''b'', ''c''] (0, [Err partial_failure, Ok ()]) = Some (Ret s)"
    by (simp add: confirmed_eval loop_eval)
  then obtain s where s: "exactly_once_retry_loop 3 (\<lambda>ids. script_stub (Acknowledge ''s'' ids) None) script_env
      eo_ack_options_policy [''a'', ''b'', ''c''] (0, [Err partial_failure, Ok ()]) = Some (Ret s)" ..
  from exactly_once_reports_once [OF s] s show ?thesis by auto
qed

text \<open>
  C33. The exactly-once requests of the leaser end and answer for all their identifiers, if the clock is not
  set back, sleeps last as long as asked for, and the first \<open>k + 1\<close> delays that the backoff draws
  for a request, if its loop gets so far, add up to at least the ten minutes of the time limit: then the
  loop returns within \<open>k + 2\<close> iterations, does not panic, and each identifier has got its result.
  A backoff with full jitter may draw short delays or zero; then \<open>k\<close> is larger.
\<close>

theorem confirmed_requests_answered:
  assumes "lease_clock stub base" "delays_add_up (from_secs 600) (Suc k) stub base ids w"
    and "env_now base w + from_secs 600 < INSTANT_LIMIT" "0 \<le> secs" "secs \<le> 600"
  shows "(\<exists>s. leaser_confirmed_ack (Suc (Suc k)) (leaser_new sub secs n) stub base ids w = Some (Ret s) \<and>
      distinct (map fst (reported s)) \<and> set (map fst (reported s)) = set ids) \<and>
    (\<exists>s. leaser_confirmed_nack (Suc (Suc k)) (leaser_new sub secs n) stub base ids w = Some (Ret s) \<and>
      distinct (map fst (reported s)) \<and> set (map fst (reported s)) = set ids) \<and>
    (\<exists>s. leaser_eo_extend (Suc (Suc k)) (leaser_new sub secs n) stub base ids w = Some (Ret s) \<and>
      distinct (map fst (reported s)) \<and> set (map fst (reported s)) = set ids)"
proof -
  have reports: "\<exists>s. leaser_retry (Suc (Suc k)) (\<lambda>ids. stub (req ids) opts) base
      (Some (exactly_once_options_policy lim)) ids w = Some (Ret s) \<and>
      distinct (map fst (reported s)) \<and> set (map fst (reported s)) = set ids"
    if "lim \<le> from_secs 600" for req opts lim
  proof -
    have "delays_reach lim (Suc k) (leaser_delays (Suc k) (\<lambda>ids. stub (req ids) opts) base (exactly_once_options_policy lim) ids w)"
      using assms(2) that unfolding delays_add_up_def delays_reach_def by (blast intro: order_trans)
    moreover have "env_now base w + lim < INSTANT_LIMIT" using assms(3) that by simp
    ultimately obtain s where
      s: "leaser_retry (Suc (Suc k)) (\<lambda>ids. stub (req ids) opts) base
        (Some (exactly_once_options_policy lim)) ids w = Some (Ret s)"
      using leaser_retry_returns [OF assms(1) _ _ refl] by blast
    from leaser_retry_splits [OF s] s show ?thesis by (auto simp: splits_ids_def)
  qed
  have "from_secs (nat (secs mod 18446744073709551616)) \<le> from_secs 600"
    using assms(4, 5) by (simp add: from_secs_def)
  note reports [OF this] reports [of "from_secs 600"]
  then show ?thesis
    by (simp add: leaser_confirmed_ack_def leaser_confirmed_nack_def leaser_eo_extend_def leaser_new_def
        eo_ack_options_policy_def eo_modack_options_policy_def)
qed

lemma script_delays: "delays_add_up (from_secs 600) (Suc 599) script_stub script_env ids w"
  unfolding delays_add_up_def delays_reach_def
proof (intro allI impI)
  fix req opts policy
  let ?ds = "leaser_delays (Suc 599) (\<lambda>ids. script_stub (req ids) opts) script_env policy ids w"
  assume "length ?ds = Suc 599"
  moreover have "from_secs 1 \<le> fst (env_backoff (eo_retry_env rpc (breaker_env script_env)) st v)" for rpc st v
    by (simp add: eo_retry_env_def breaker_env_def script_env_def case_prod_beta)
  then have "length ?ds * from_secs 1 \<le> sum_list ?ds" unfolding leaser_delays_def by (rule loop_delays_bounded)
  moreover have "Suc 599 * from_secs 1 = from_secs 600" by (simp add: from_secs_def)
  ultimately show "from_secs 600 \<le> sum_list ?ds" by (simp only:)
qed

theorem confirmed_requests_answered_witness:
  "\<exists>s. leaser_confirmed_ack (Suc (Suc 599)) (leaser_new ''s'' 10 1) script_stub script_env
      [''a'', ''b'', ''c''] (0, [Err partial_failure, Ok ()]) = Some (Ret s) \<and>
    distinct (map fst (reported s)) \<and> set (map fst (reported s)) = set [''a'', ''b'', ''c'']"
proof -
  have "lease_clock script_stub script_env"
    by (auto simp: lease_clock_def script_env_def script_stub_def split: list.splits)
  then show ?thesis
    by (rule confirmed_requests_answered [OF _ script_delays, THEN conjunct1])
      (simp_all add: from_secs_def INSTANT_LIMIT_def script_env_def)
qed

text \<open>
  The answers reach the leases. Once the lease loop has processed what a confirmed
  acknowledgement reported, none of its identifiers is under lease any more, and each message that was
  under lease has been sent the result reported for it.
\<close>

theorem confirmed_results_reach_leases:
  assumes "leaser_confirmed_ack fuel l stub base ids w = Some (Ret s)" and "i \<in> set ids"
  shows "map_of (eo_under_lease (ls_eo_leases (foldl (\<lambda>st m. ls_confirm m st) st (er_sent s)))) i = None \<and>
    (\<forall>info. map_of (eo_under_lease (ls_eo_leases st)) i = Some info \<longrightarrow>
      (\<exists>r. (i, r) \<in> set (concat (er_sent s)) \<and> (eo_result_tx info, ResultSent r) \<in>
        set (eo_fates (ls_eo_leases (foldl (\<lambda>st m. ls_confirm m st) st (er_sent s))))))"
proof -
  from leaser_retry_splits [OF assms(1) [unfolded leaser_confirmed_ack_def]] assms(2) have "i \<in> fst ` set (concat (er_sent s))" by (auto simp: splits_ids_def reported_def)
  then show ?thesis
    using eo_confirms_delivered [of i "concat (er_sent s)" "ls_eo_leases st"]
    by (simp only: ls_confirms eo_confirms_lookup if_True) blast
qed

theorem confirmed_results_reach_leases_witness:
  "\<exists>s r. confirmed_ack_sample = Some (Ret s) \<and> (''a'', r) \<in> set (concat (er_sent s)) \<and>
    (7, ResultSent r) \<in> set (eo_fates (ls_eo_leases (foldl (\<lambda>st m. ls_confirm m st)
      (ls_add ''a'' (ExactlyOnceLease (eo_info_new 0 7)) (lease_state_new 10 10)) (er_sent s))))"
proof -
  let ?st = "ls_add ''a'' (ExactlyOnceLease (eo_info_new 0 7)) (lease_state_new 10 10)"
  obtain s where s: "confirmed_ack_sample = Some (Ret s)" using confirmed_ack_sample_runs by blast
  have "map_of (eo_under_lease (ls_eo_leases ?st)) ''a'' = Some (eo_info_new 0 7)"
    by (simp add: lease_eval)
  with confirmed_results_reach_leases [OF s [unfolded confirmed_ack_sample_def], of "''a''" ?st] s
  show ?thesis by (auto simp: eo_info_new_def)
qed

end
