(* ===== verification/Spanner_Keys.thy ===== *)
theory Spanner_Keys
  imports Rpc_Error
begin

text \<open>
  The sortable key format of the Spanner client, \<open>spanner/src/routing/ssformat.rs\<close>.

  An encoder appends to an output vector; here it returns the bytes it appends. Keys are compared as
  byte vectors, lexicographically. An \<open>i64\<close> is an integer in its range and an \<open>f64\<close> is its
  bit pattern.

  What makes the format work is stronger than being monotone: the code of a smaller value differs from
  the code of a larger one at some byte, where it is smaller. Then what follows does not matter, and
  codes can be put one after the other. This is the relation \<open>before\<close>, and the locale
  \<open>ordered_code\<close> says that an encoder respects it.
\<close>

unbundle bit_operations_syntax

section \<open>Comparing byte vectors\<close>

definition before :: "u8 list \<Rightarrow> u8 list \<Rightarrow> bool" where
  "before xs ys \<longleftrightarrow> (\<exists>p x y s t. xs = p @ x # s \<and> ys = p @ y # t \<and> x < y)"

lemma before_Cons [simp]: "before (x # xs) (y # ys) \<longleftrightarrow> x < y \<or> x = y \<and> before xs ys"
proof
  assume "before (x # xs) (y # ys)"
  then obtain p a b s t where "x # xs = p @ a # s" "y # ys = p @ b # t" "a < b" by (auto simp: before_def)
  then show "x < y \<or> x = y \<and> before xs ys" by (cases p) (auto simp: before_def)
next
  assume "x < y \<or> x = y \<and> before xs ys"
  then show "before (x # xs) (y # ys)"
  proof
    assume "x < y"
    then have "x # xs = [] @ x # xs \<and> y # ys = [] @ y # ys \<and> x < y" by simp
    then show ?thesis unfolding before_def by blast
  next
    assume "x = y \<and> before xs ys"
    then obtain p a b s t where "x = y" "xs = p @ a # s" "ys = p @ b # t" "a < b" by (auto simp: before_def)
    then have "x # xs = (x # p) @ a # s \<and> y # ys = (x # p) @ b # t \<and> a < b" by simp
    then show ?thesis unfolding before_def by blast
  qed
qed

lemma before_Nil [simp]: "\<not> before [] ys" "\<not> before xs []"
  by (simp_all add: before_def)

lemma before_append_same [simp]: "before (p @ xs) (p @ ys) = before xs ys"
  by (induction p) simp_all

lemma before_append: "before xs ys \<Longrightarrow> before (xs @ s) (ys @ t)"
  by (auto simp: before_def) fastforce

lemma before_less: "before xs ys \<Longrightarrow> ord_class.lexordp xs ys"
  by (auto simp: before_def lexordp_append_left_rightI)

lemma before_irrefl: "\<not> before xs xs"
  using before_less lexordp_irreflexive' by blast

lemma before_same_length:
  "length xs = length ys \<Longrightarrow> ord_class.lexordp xs ys \<longleftrightarrow> before xs ys"
  by (induction xs ys rule: list_induct2) auto

locale ordered_code =
  fixes smaller :: "'a \<Rightarrow> 'a \<Rightarrow> bool" and code :: "'a \<Rightarrow> u8 list"
  assumes code_before: "smaller a b \<Longrightarrow> before (code a) (code b)"
begin

text \<open>Whatever follows them, the codes are in order.\<close>

lemma code_less: "smaller a b \<Longrightarrow> ord_class.lexordp (code a @ s) (code b @ t)"
  by (rule before_less [OF before_append [OF code_before]])

lemma code_prefix_free:
  assumes "smaller a b \<or> smaller b a"
  shows "code a @ s \<noteq> code b @ t"
  using assms code_less lexordp_irreflexive' by metis

end

section \<open>Big-endian bytes\<close>

definition be_bytes :: "nat \<Rightarrow> int \<Rightarrow> u8 list" where
  "be_bytes n v = map (\<lambda>i. of_int (drop_bit (8 * i) v)) (rev [0..<n])"

lemma length_be_bytes [simp]: "length (be_bytes n v) = n"
  by (simp add: be_bytes_def)

lemma be_bytes_Suc: "be_bytes (Suc n) v = of_int (v div 256 ^ n) # be_bytes n v"
  by (simp add: be_bytes_def drop_bit_eq_div power_mult)

lemma be_bytes_0 [simp]: "be_bytes 0 v = []"
  by (simp add: be_bytes_def)

lemma of_int_u8_eq: "(of_int a :: u8) = of_int b \<longleftrightarrow> a mod 256 = b mod 256"
  by (simp add: word_of_int_eq_iff take_bit_eq_mod)

lemma of_int_u8_less: "(of_int a :: u8) < of_int b \<longleftrightarrow> a mod 256 < b mod 256"
  by (simp add: word_less_def uint_word_of_int)

lemma be_bytes_mod: "256 ^ n dvd a - b \<Longrightarrow> be_bytes n a = be_bytes n b"
proof (induction n)
  case (Suc n)
  then obtain k where k: "a = b + 256 ^ Suc n * k" by (metis add_diff_cancel_left' diff_add_cancel dvd_def add.commute)
  then have "256 ^ n dvd a - b" by simp
  moreover have "a div 256 ^ n = b div 256 ^ n + 256 * k"
  proof -
    have "b + 256 ^ Suc n * k = b + 256 * k * 256 ^ n" by simp
    then show ?thesis unfolding k by (simp only: div_mult_self1) simp
  qed
  then have "(of_int (a div 256 ^ n) :: u8) = of_int (b div 256 ^ n)" unfolding of_int_u8_eq by simp
  ultimately show ?case using Suc.IH by (simp add: be_bytes_Suc)
qed simp

lemma int_div_less: "0 < p \<Longrightarrow> a < k * p \<Longrightarrow> a div p < k" for a k p :: int
proof (rule ccontr)
  assume p: "0 < p" and less: "a < k * p" and "\<not> a div p < k"
  then have "k * p \<le> a div p * p" by (simp add: mult_right_mono)
  also have "\<dots> \<le> a" using p by (simp add: minus_mod_eq_div_mult [symmetric])
  finally show False using less by simp
qed

lemma be_bytes_before: "0 \<le> a \<Longrightarrow> a < b \<Longrightarrow> b < 256 ^ n \<Longrightarrow> before (be_bytes n a) (be_bytes n b)"
proof (induction n arbitrary: a b)
  case (Suc n)
  have div: "0 \<le> a div 256 ^ n" "a div 256 ^ n \<le> b div 256 ^ n" "b div 256 ^ n < 256"
    using Suc.prems
    by (simp_all add: pos_imp_zdiv_nonneg_iff zdiv_mono1 int_div_less)
  then have top: "(of_int (a div 256 ^ n) :: u8) < of_int (b div 256 ^ n) \<longleftrightarrow> a div 256 ^ n < b div 256 ^ n"
    by (simp add: of_int_u8_less)
  show ?case
  proof (cases "a div 256 ^ n < b div 256 ^ n")
    case True
    with top show ?thesis by (simp add: be_bytes_Suc)
  next
    case False
    with div have eq: "a div 256 ^ n = b div 256 ^ n" by simp
    then have "a mod 256 ^ n < b mod 256 ^ n"
      using Suc.prems(2) by (metis add_less_cancel_left div_mult_mod_eq)
    from Suc.IH [OF _ this] have "before (be_bytes n (a mod 256 ^ n)) (be_bytes n (b mod 256 ^ n))" by simp
    moreover have "be_bytes n (v mod 256 ^ n) = be_bytes n v" for v
      by (rule be_bytes_mod) (simp add: mod_eq_dvd_iff [symmetric])
    ultimately show ?thesis using eq by (simp add: be_bytes_Suc)
  qed
qed simp

section \<open>Constants\<close>

definition IS_KEY :: u8 where "IS_KEY = 0x80"
definition TYPE_UINT_1 :: u8 where "TYPE_UINT_1 = 0"
definition TYPE_DECREASING_UINT_1 :: u8 where "TYPE_DECREASING_UINT_1 = 40"
definition TYPE_NEG_INT_1 :: u8 where "TYPE_NEG_INT_1 = 16"
definition TYPE_POS_INT_1 :: u8 where "TYPE_POS_INT_1 = 17"
definition TYPE_DECREASING_NEG_INT_1 :: u8 where "TYPE_DECREASING_NEG_INT_1 = 48"
definition TYPE_DECREASING_POS_INT_1 :: u8 where "TYPE_DECREASING_POS_INT_1 = 49"
definition TYPE_STRING :: u8 where "TYPE_STRING = 25"
definition TYPE_DECREASING_STRING :: u8 where "TYPE_DECREASING_STRING = 57"
definition TYPE_NULL_ORDERED_FIRST :: u8 where "TYPE_NULL_ORDERED_FIRST = 27"
definition TYPE_NULLABLE_NOT_NULL_NULL_ORDERED_FIRST :: u8 where
  "TYPE_NULLABLE_NOT_NULL_NULL_ORDERED_FIRST = 28"
definition TYPE_NULLABLE_NOT_NULL_NULL_ORDERED_LAST :: u8 where
  "TYPE_NULLABLE_NOT_NULL_NULL_ORDERED_LAST = 59"
definition TYPE_NULL_ORDERED_LAST :: u8 where "TYPE_NULL_ORDERED_LAST = 60"
definition TYPE_NEG_DOUBLE_1 :: u8 where "TYPE_NEG_DOUBLE_1 = 73"
definition TYPE_POS_DOUBLE_1 :: u8 where "TYPE_POS_DOUBLE_1 = 74"
definition TYPE_DECREASING_NEG_DOUBLE_1 :: u8 where "TYPE_DECREASING_NEG_DOUBLE_1 = 89"
definition TYPE_DECREASING_POS_DOUBLE_1 :: u8 where "TYPE_DECREASING_POS_DOUBLE_1 = 90"
definition ASCENDING_ZERO_ESCAPE :: u8 where "ASCENDING_ZERO_ESCAPE = 0xf0"
definition ASCENDING_FF_ESCAPE :: u8 where "ASCENDING_FF_ESCAPE = 0x10"
definition SEP :: u8 where "SEP = 0x78"
definition K_OBJECT_EXISTENCE_TAG :: u32 where "K_OBJECT_EXISTENCE_TAG = 0x7e"
definition K_MAX_FIELD_TAG :: u32 where "K_MAX_FIELD_TAG = 0xffff"

lemmas key_constants = IS_KEY_def TYPE_UINT_1_def TYPE_DECREASING_UINT_1_def TYPE_NEG_INT_1_def
  TYPE_POS_INT_1_def TYPE_DECREASING_NEG_INT_1_def TYPE_DECREASING_POS_INT_1_def TYPE_STRING_def
  TYPE_DECREASING_STRING_def TYPE_NULL_ORDERED_FIRST_def TYPE_NULLABLE_NOT_NULL_NULL_ORDERED_FIRST_def
  TYPE_NULLABLE_NOT_NULL_NULL_ORDERED_LAST_def TYPE_NULL_ORDERED_LAST_def TYPE_NEG_DOUBLE_1_def
  TYPE_POS_DOUBLE_1_def TYPE_DECREASING_NEG_DOUBLE_1_def TYPE_DECREASING_POS_DOUBLE_1_def
  ASCENDING_ZERO_ESCAPE_def ASCENDING_FF_ESCAPE_def SEP_def K_OBJECT_EXISTENCE_TAG_def K_MAX_FIELD_TAG_def

section \<open>Encoders\<close>

text \<open>\<open>i64\<close>, and the casts from and to the unsigned numbers of the same width.\<close>

definition I64_MIN :: int where "I64_MIN = - (2 ^ 63)"

definition is_i64 :: "int \<Rightarrow> bool" where
  "is_i64 v \<longleftrightarrow> - (2 ^ 63) \<le> v \<and> v < 2 ^ 63"

definition wrap_i64 :: "int \<Rightarrow> int" where
  "wrap_i64 v = (v + 2 ^ 63) mod 2 ^ 64 - 2 ^ 63"

definition spanner_error :: "string \<Rightarrow> error" where
  "spanner_error message = deser (MsgError message)"

definition append_composite_tag :: "u32 \<Rightarrow> (error, u8 list) result" where
  "append_composite_tag tag =
     (if tag = K_OBJECT_EXISTENCE_TAG \<or> tag = 0 \<or> K_MAX_FIELD_TAG < tag
      then Err (spanner_error (''Invalid tag value: '' @ dec (unat tag)))
      else if tag < 16 then Ok [ucast (push_bit 1 tag)]
      else let shifted_tag = push_bit 1 tag
           in if shifted_tag < push_bit (5 + 8) 1
              then Ok [ucast (push_bit 5 1 OR drop_bit 8 shifted_tag), ucast (shifted_tag AND 0xFF)]
              else Ok [ucast (push_bit 5 2 OR drop_bit 16 shifted_tag),
                       ucast (drop_bit 8 shifted_tag AND 0xFF), ucast (shifted_tag AND 0xFF)])"

definition append_null_ordered_first :: "u8 list" where
  "append_null_ordered_first = [IS_KEY OR TYPE_NULL_ORDERED_FIRST, 0]"

definition append_null_ordered_last :: "u8 list" where
  "append_null_ordered_last = [IS_KEY OR TYPE_NULL_ORDERED_LAST, 0]"

definition append_not_null_marker_null_ordered_first :: "u8 list" where
  "append_not_null_marker_null_ordered_first = [IS_KEY OR TYPE_NULLABLE_NOT_NULL_NULL_ORDERED_FIRST]"

definition append_not_null_marker_null_ordered_last :: "u8 list" where
  "append_not_null_marker_null_ordered_last = [IS_KEY OR TYPE_NULLABLE_NOT_NULL_NULL_ORDERED_LAST]"

definition append_bool_increasing :: "bool \<Rightarrow> u8 list" where
  "append_bool_increasing value =
     (let encoded = of_bool value in [IS_KEY OR TYPE_UINT_1, push_bit 1 encoded])"

definition append_bool_decreasing :: "bool \<Rightarrow> u8 list" where
  "append_bool_decreasing value =
     (let encoded = of_bool value in [IS_KEY OR TYPE_DECREASING_UINT_1, push_bit 1 (NOT encoded AND 0x7F)])"

text \<open>\<open>64 - leading_zeros\<close> of a number that is not negative, and \<open>64 - leading_ones\<close> of
  a negative one.\<close>

fun bit_len :: "nat \<Rightarrow> nat" where
  "bit_len n = (if n = 0 then 0 else Suc (bit_len (n div 2)))"

declare bit_len.simps [simp del]

definition int64_len :: "int \<Rightarrow> nat" where
  "int64_len temp_val =
     (let bits = (if 0 \<le> temp_val then bit_len (nat temp_val) else bit_len (nat (NOT temp_val)))
      in 1 + (bits + 7) div 8)"

definition int64_type :: "int \<Rightarrow> bool \<Rightarrow> bool \<Rightarrow> nat \<Rightarrow> u8" where
  "int64_type val decreasing is_double len =
     (case (0 \<le> val, decreasing, is_double) of
        (True, False, False) \<Rightarrow> TYPE_POS_INT_1 + of_nat len - 1
      | (True, False, True) \<Rightarrow> TYPE_POS_DOUBLE_1 + of_nat len - 1
      | (True, True, False) \<Rightarrow> TYPE_DECREASING_POS_INT_1 + of_nat len - 1
      | (True, True, True) \<Rightarrow> TYPE_DECREASING_POS_DOUBLE_1 + of_nat len - 1
      | (False, False, False) \<Rightarrow> TYPE_NEG_INT_1 - of_nat len + 1
      | (False, False, True) \<Rightarrow> TYPE_NEG_DOUBLE_1 - of_nat len + 1
      | (False, True, False) \<Rightarrow> TYPE_DECREASING_NEG_INT_1 - of_nat len + 1
      | (False, True, True) \<Rightarrow> TYPE_DECREASING_NEG_DOUBLE_1 - of_nat len + 1)"

definition append_int64_internal :: "int \<Rightarrow> bool \<Rightarrow> bool \<Rightarrow> u8 list" where
  "append_int64_internal val0 decreasing is_double =
     (let val = (if decreasing then NOT val0 else val0);
          low = of_int (push_bit 1 (val AND 0x7F));
          temp_val = drop_bit 7 val;
          len = int64_len temp_val;
          temp_bytes = be_bytes 8 temp_val
      in (IS_KEY OR int64_type val decreasing is_double len) # drop (9 - len) temp_bytes @ [low])"

definition append_int64_increasing :: "int \<Rightarrow> u8 list" where
  "append_int64_increasing value = append_int64_internal value False False"

definition append_int64_decreasing :: "int \<Rightarrow> u8 list" where
  "append_int64_decreasing value = append_int64_internal value True False"

text \<open>Bit patterns of \<open>f64\<close>.\<close>

type_synonym f64 = u64

definition is_nan :: "f64 \<Rightarrow> bool" where
  "is_nan value \<longleftrightarrow> 0x7ff0000000000000 < value AND 0x7fffffffffffffff"

definition canonical_double_bits :: "f64 \<Rightarrow> int" where
  "canonical_double_bits value = (if is_nan value then 0x7ff8000000000000 else sint value)"

definition double_enc :: "f64 \<Rightarrow> int" where
  "double_enc value =
     (let enc = canonical_double_bits value in if enc < 0 then wrap_i64 (I64_MIN - enc) else enc)"

definition append_double_increasing :: "f64 \<Rightarrow> u8 list" where
  "append_double_increasing value = append_int64_internal (double_enc value) False True"

definition append_double_decreasing :: "f64 \<Rightarrow> u8 list" where
  "append_double_decreasing value = append_int64_internal (double_enc value) True True"

definition escape_byte :: "u8 \<Rightarrow> u8 list" where
  "escape_byte b =
     (if b = 0 then [0, ASCENDING_ZERO_ESCAPE] else if b = 0xFF then [0xFF, ASCENDING_FF_ESCAPE] else [b])"

definition append_byte_sequence :: "u8 list \<Rightarrow> bool \<Rightarrow> u8 list" where
  "append_byte_sequence bytes decreasing =
     (IS_KEY OR (if decreasing then TYPE_DECREASING_STRING else TYPE_STRING)) #
     concat (map (\<lambda>b. escape_byte (if decreasing then NOT b else b)) bytes) @
     [if decreasing then 0xFF else 0, SEP]"

definition append_bytes_increasing :: "u8 list \<Rightarrow> u8 list" where
  "append_bytes_increasing value = append_byte_sequence value False"

definition append_bytes_decreasing :: "u8 list \<Rightarrow> u8 list" where
  "append_bytes_decreasing value = append_byte_sequence value True"

text \<open>A string is its UTF-8 bytes.\<close>

definition as_bytes :: "string \<Rightarrow> u8 list" where
  "as_bytes s = map of_char s"

definition append_string_increasing :: "string \<Rightarrow> u8 list" where
  "append_string_increasing value = append_byte_sequence (as_bytes value) False"

definition append_string_decreasing :: "string \<Rightarrow> u8 list" where
  "append_string_decreasing value = append_byte_sequence (as_bytes value) True"

definition encode_timestamp :: "int \<Rightarrow> int \<Rightarrow> u8 list" where
  "encode_timestamp seconds nanos = be_bytes 8 (wrap_i64 (seconds + I64_MIN)) @ be_bytes 4 nanos"

definition encode_uuid :: "u64 \<Rightarrow> u64 \<Rightarrow> u8 list" where
  "encode_uuid high low = be_bytes 8 (uint high) @ be_bytes 8 (uint low)"

section \<open>Integers\<close>

lemma bit_len_upper: "n < 2 ^ bit_len n"
proof (induction n rule: bit_len.induct)
  case (1 n)
  then show ?case by (subst bit_len.simps) auto
qed

lemma bit_len_le: "n < 2 ^ k \<Longrightarrow> bit_len n \<le> k"
proof (induction k arbitrary: n)
  case (Suc k)
  then have "bit_len (n div 2) \<le> k" by simp
  then show ?case by (subst bit_len.simps) simp
qed (simp add: bit_len.simps)

lemma bit_len_mono: "m \<le> n \<Longrightarrow> bit_len m \<le> bit_len n"
  by (meson bit_len_le bit_len_upper le_less_trans)

lemma drop_be_bytes: "drop k (be_bytes n v) = be_bytes (n - k) v"
proof -
  have "drop k (rev [0..<n]) = rev [0..<n - k]"
    by (simp add: drop_rev take_upt)
  then show ?thesis by (simp add: be_bytes_def drop_map)
qed

lemma be_bytes_snoc: "be_bytes (Suc n) v = be_bytes n (v div 256) @ [of_int v]"
proof (induction n)
  case (Suc n)
  have "v div 256 ^ Suc n = v div 256 div 256 ^ n" by (simp add: zdiv_zmult2_eq)
  with Suc.IH show ?case by (simp add: be_bytes_Suc [of "Suc n"] be_bytes_Suc [of n "v div 256"])
qed (simp add: be_bytes_Suc)

text \<open>The length used for a value that is not negative.\<close>

definition int_len :: "int \<Rightarrow> nat" where
  "int_len v = int64_len (drop_bit 7 v)"

lemma int_len_NOT: "int_len (NOT v) = int_len v"
proof -
  have "drop_bit 7 (NOT v) = NOT (drop_bit 7 v)" 
    by (simp add: not_int_def drop_bit_eq_div)
  then show ?thesis by (auto simp: int_len_def int64_len_def Let_def not_int_def)
qed

lemma int_len_ge1: "1 \<le> int_len v"
  by (simp add: int_len_def int64_len_def Let_def)

lemma int_len_nonneg: "0 \<le> v \<Longrightarrow> int_len v = 1 + (bit_len (nat (v div 128)) + 7) div 8"
  by (simp add: int_len_def int64_len_def Let_def drop_bit_eq_div)

lemma int_len_mono: "0 \<le> a \<Longrightarrow> a \<le> b \<Longrightarrow> int_len a \<le> int_len b"
  by (simp add: int_len_nonneg div_le_mono bit_len_mono nat_mono zdiv_mono1)

lemma int_len_le8: "0 \<le> v \<Longrightarrow> v < 2 ^ 63 \<Longrightarrow> int_len v \<le> 8"
proof -
  assume v: "0 \<le> v" "v < 2 ^ 63"
  then have "v div 128 < 2 ^ 56" by (intro int_div_less) simp_all
  then have "nat (v div 128) < 2 ^ 56" using v by (simp add: nat_less_iff pos_imp_zdiv_nonneg_iff)
  then have "bit_len (nat (v div 128)) \<le> 56" by (rule bit_len_le)
  with v show ?thesis by (simp add: int_len_nonneg)
qed

lemma int_len_bound: "0 \<le> v \<Longrightarrow> v < 128 * 256 ^ (int_len v - 1)"
proof -
  assume v: "0 \<le> v"
  let ?t = "nat (v div 128)" and ?k = "int_len v - 1"
  have "?t < 2 ^ bit_len ?t" by (rule bit_len_upper)
  also have "\<dots> \<le> 2 ^ (8 * ?k)" using v by (intro power_increasing) (auto simp: int_len_nonneg)
  also have "(2 :: nat) ^ (8 * ?k) = 256 ^ ?k" by (simp add: power_mult)
  finally have "v div 128 < 256 ^ ?k" using v by (simp add: nat_less_iff pos_imp_zdiv_nonneg_iff)
  then show ?thesis by simp
qed

lemma and_127: "v AND 127 = v mod 128" for v :: int
  using take_bit_eq_mask [of 7 v] by (simp add: take_bit_eq_mod mask_eq_exp_minus_1)

text \<open>The codes: a header, and twice the value in so many bytes.\<close>

definition int64_header :: "int \<Rightarrow> bool \<Rightarrow> bool \<Rightarrow> u8" where
  "int64_header v decreasing is_double = IS_KEY OR int64_type v decreasing is_double (int_len v)"

definition int64_code :: "bool \<Rightarrow> bool \<Rightarrow> int \<Rightarrow> u8 list" where
  "int64_code decreasing is_double v = int64_header v decreasing is_double # be_bytes (int_len v) (2 * v)"

lemma append_int64_internal_eq:
  assumes "int_len (if decreasing then NOT v else v) \<le> 8"
  shows "append_int64_internal v decreasing is_double =
    int64_code decreasing is_double (if decreasing then NOT v else v)"
proof -
  define val where "val = (if decreasing then NOT v else v)"
  obtain n where n: "int_len val = Suc n" "n \<le> 7"
    using int_len_ge1 [of val] assms by (cases "int_len val") (auto simp: val_def)
  have "(of_int (push_bit 1 (val AND 0x7F)) :: u8) = of_int (2 * val)"
    unfolding of_int_u8_eq using mult_mod_right [of 2 val 128]
    by (simp add: push_bit_eq_mult and_127 mult.commute [of _ 2])
  moreover have "drop (9 - Suc n) (be_bytes 8 (drop_bit 7 val)) = be_bytes n (2 * val div 256)"
    using n(2) by (simp add: drop_be_bytes drop_bit_eq_div)
  ultimately show ?thesis
    using n by (simp add: append_int64_internal_def int64_code_def int64_header_def Let_def
        be_bytes_snoc int_len_def [symmetric] val_def [symmetric])
qed

text \<open>The numbers of the headers around zero.\<close>

fun header_base :: "bool \<Rightarrow> bool \<Rightarrow> nat" where
  "header_base False False = 144"
| "header_base False True = 201"
| "header_base True False = 176"
| "header_base True True = 217"

lemma unat_int64_header:
  assumes "int_len v \<le> 8"
  shows "unat (int64_header v decreasing is_double) =
    (if 0 \<le> v then header_base decreasing is_double + int_len v
     else header_base decreasing is_double + 1 - int_len v)"
proof -
  have "int_len v = 1 \<or> int_len v = 2 \<or> int_len v = 3 \<or> int_len v = 4 \<or> int_len v = 5 \<or> int_len v = 6 \<or>
      int_len v = 7 \<or> int_len v = 8"
    using assms int_len_ge1 [of v] by linarith
  then show ?thesis
    by (elim disjE) (cases "0 \<le> v"; cases decreasing; cases is_double;
      simp add: int64_header_def int64_type_def key_constants)+
qed

lemma int_len_i64: "is_i64 v \<Longrightarrow> int_len v \<le> 8"
  using int_len_le8 [of v] int_len_le8 [of "NOT v"] int_len_NOT [of v]
  by (cases "0 \<le> v") (auto simp: is_i64_def not_int_def)

lemma pow256_len: "256 ^ int_len v = 256 * 256 ^ (int_len v - 1)" for v
  using int_len_ge1 [of v] by (cases "int_len v") simp_all

lemma int64_code_before:
  assumes "is_i64 a" "is_i64 b" "a < b"
  shows "before (int64_code d f a) (int64_code d f b)"
proof -
  note ha = unat_int64_header [OF int_len_i64 [OF assms(1)], of d f]
  note hb = unat_int64_header [OF int_len_i64 [OF assms(2)], of d f]
  note la = int_len_ge1 [of a] int_len_i64 [OF assms(1)]
  note lb = int_len_ge1 [of b] int_len_i64 [OF assms(2)]
  have base: "144 \<le> header_base d f" by (cases d; cases f) simp_all
  consider "0 \<le> a" | "a < 0" "0 \<le> b" | "b < 0" by linarith
  then show ?thesis
  proof cases
    case 1
    then have "int_len a \<le> int_len b" using assms(3) by (intro int_len_mono) simp_all
    then consider "int_len a < int_len b" | "int_len a = int_len b" by linarith
    then show ?thesis
    proof cases
      case 1
      with \<open>0 \<le> a\<close> assms(3) ha hb show ?thesis by (simp add: int64_code_def word_less_nat_alt)
    next
      case 2
      then have "int64_header a d f = int64_header b d f"
        using \<open>0 \<le> a\<close> assms(3) ha hb by (simp add: word_unat_eq_iff)
      moreover have "before (be_bytes (int_len b) (2 * a)) (be_bytes (int_len b) (2 * b))"
        using \<open>0 \<le> a\<close> assms(3) int_len_bound [of b] by (intro be_bytes_before) (simp_all add: pow256_len)
      ultimately show ?thesis using 2 by (simp add: int64_code_def)
    qed
  next
    case 2
    with ha hb la lb base have "unat (int64_header a d f) < unat (int64_header b d f)" by simp
    then show ?thesis by (simp add: int64_code_def word_less_nat_alt)
  next
    case 3
    then have "int_len (NOT b) \<le> int_len (NOT a)" using assms(3) by (intro int_len_mono) (simp_all add: not_int_def)
    then consider "int_len b < int_len a" | "int_len a = int_len b" unfolding int_len_NOT by linarith
    then show ?thesis
    proof cases
      case 1
      with 3 assms(3) ha hb la lb base have "unat (int64_header a d f) < unat (int64_header b d f)" by simp
      then show ?thesis by (simp add: int64_code_def word_less_nat_alt)
    next
      case 2
      let ?n = "int_len a"
      have "int64_header a d f = int64_header b d f"
        using 2 3 assms(3) ha hb by (simp add: word_unat_eq_iff)
      moreover have "NOT a < 128 * 256 ^ (?n - 1)"
        using int_len_bound [of "NOT a"] 3 assms(3) unfolding int_len_NOT by (simp add: not_int_def)
      then have "before (be_bytes ?n (2 * a + 256 ^ ?n)) (be_bytes ?n (2 * b + 256 ^ ?n))"
        using 3 assms(3) by (intro be_bytes_before) (simp_all add: pow256_len not_int_def)
      moreover have "be_bytes ?n (v + 256 ^ ?n) = be_bytes ?n v" for v by (rule be_bytes_mod) simp
      ultimately show ?thesis using 2 by (simp add: int64_code_def)
    qed
  qed
qed

lemma is_i64_NOT: "is_i64 v \<Longrightarrow> is_i64 (NOT v)"
  by (auto simp: is_i64_def not_int_def)

lemma append_int64_before:
  assumes "is_i64 a" "is_i64 b" "a < b"
  shows "before (append_int64_internal a False f) (append_int64_internal b False f)"
    and "before (append_int64_internal b True f) (append_int64_internal a True f)"
  using int64_code_before [OF assms] int64_code_before [OF is_i64_NOT [OF assms(2)] is_i64_NOT [OF assms(1)]]
    assms int_len_i64
  by (simp_all add: append_int64_internal_eq int_len_NOT) (simp add: not_int_def)

interpretation int64_inc: ordered_code "\<lambda>a b. is_i64 a \<and> is_i64 b \<and> a < b" append_int64_increasing
  by unfold_locales (simp add: append_int64_increasing_def append_int64_before)

interpretation int64_dec: ordered_code "\<lambda>a b. is_i64 a \<and> is_i64 b \<and> b < a" append_int64_decreasing
  by unfold_locales (simp add: append_int64_decreasing_def append_int64_before)

section \<open>Booleans and null markers\<close>

interpretation bool_inc: ordered_code "\<lambda>a b. \<not> a \<and> b" append_bool_increasing
  by unfold_locales (simp add: append_bool_increasing_def)

interpretation bool_dec: ordered_code "\<lambda>a b. a \<and> \<not> b" append_bool_decreasing
  by unfold_locales (simp add: append_bool_decreasing_def)

lemma null_markers_before:
  "before (append_null_ordered_first @ s) (append_not_null_marker_null_ordered_first @ t)"
  "before (append_not_null_marker_null_ordered_last @ s) (append_null_ordered_last @ t)"
  by (simp_all add: append_null_ordered_first_def append_not_null_marker_null_ordered_first_def
      append_null_ordered_last_def append_not_null_marker_null_ordered_last_def key_constants)

section \<open>Strings and bytes\<close>

lemma escape_before:
  fixes x y :: u8
  shows "x < y \<Longrightarrow> before (escape_byte x @ s) (escape_byte y @ t)"
    and "before [0, SEP] (escape_byte y @ t)"
    and "before (escape_byte y @ t) [0xFF, SEP]"
proof -
  have max: "y \<le> 0xFF" for y :: u8
    using unsigned_less [of y, where ?'a = nat] by (simp add: word_le_nat_alt)
  show "before (escape_byte x @ s) (escape_byte y @ t)" if "x < y"
  proof -
    have "y \<noteq> 0" "x \<noteq> 0xFF" using that max [of y] by auto
    with that show ?thesis by (auto simp: escape_byte_def)
  qed
  show "before [0, SEP] (escape_byte y @ t)"
    by (simp add: escape_byte_def key_constants word_neq_0_conv)
  show "before (escape_byte y @ t) [0xFF, SEP]"
    using max [of y] by (auto simp: escape_byte_def key_constants order.strict_iff_order)
qed

lemma uint_NOT_u8: "uint (NOT x) = 255 - uint x" for x :: u8
proof -
  have "take_bit 8 (uint x) = uint x" using uint_bounded [of x] by (simp add: take_bit_eq_mod)
  then show ?thesis by (simp add: unsigned_not_eq take_bit_not_eq_mask_diff mask_eq_exp_minus_1)
qed

lemma NOT_less: "NOT y < NOT x \<longleftrightarrow> x < y" for x y :: u8
  by (simp add: word_less_def uint_NOT_u8)

lemma byte_sequence_increasing:
  "ord_class.lexordp a b \<Longrightarrow> before (append_byte_sequence a False) (append_byte_sequence b False)"
proof (induction rule: lexordp_induct)
  case (Nil y ys)
  show ?case using escape_before(2) by (simp add: append_byte_sequence_def)
next
  case (Cons x xs y ys)
  then show ?case using escape_before(1) by (simp add: append_byte_sequence_def)
next
  case (Cons_eq x xs ys)
  then show ?case by (simp add: append_byte_sequence_def)
qed

lemma byte_sequence_decreasing:
  "ord_class.lexordp a b \<Longrightarrow> before (append_byte_sequence b True) (append_byte_sequence a True)"
proof (induction rule: lexordp_induct)
  case (Nil y ys)
  show ?case using escape_before(3) by (simp add: append_byte_sequence_def)
next
  case (Cons x xs y ys)
  then show ?case using escape_before(1) NOT_less by (simp add: append_byte_sequence_def)
next
  case (Cons_eq x xs ys)
  then show ?case by (simp add: append_byte_sequence_def)
qed

interpretation bytes_inc: ordered_code "ord_class.lexordp" append_bytes_increasing
  by unfold_locales (simp add: append_bytes_increasing_def byte_sequence_increasing)

interpretation bytes_dec: ordered_code "\<lambda>a b. ord_class.lexordp b a" append_bytes_decreasing
  by unfold_locales (simp add: append_bytes_decreasing_def byte_sequence_decreasing)

interpretation string_inc: ordered_code "\<lambda>a b. ord_class.lexordp (as_bytes a) (as_bytes b)"
  append_string_increasing
  by unfold_locales (simp add: append_string_increasing_def byte_sequence_increasing)

interpretation string_dec: ordered_code "\<lambda>a b. ord_class.lexordp (as_bytes b) (as_bytes a)"
  append_string_decreasing
  by unfold_locales (simp add: append_string_decreasing_def byte_sequence_decreasing)

section \<open>Floating-point numbers\<close>

text \<open>
  The bit pattern of a float is a sign and a magnitude; read as such a number it orders the floats as
  IEEE 754 does, with both zeros equal and all NaNs as one value above infinity.
\<close>

definition double_rank :: "f64 \<Rightarrow> int" where
  "double_rank v = (if is_nan v then 0x7ff8000000000000
     else if uint v < 2 ^ 63 then uint v else - (uint v - 2 ^ 63))"

lemma sint_u64: "sint v = (if uint v < 2 ^ 63 then uint v else uint v - 2 ^ 64)" for v :: u64
proof -
  define u where "u = uint v"
  have u: "0 \<le> u" "u < 2 ^ 64" using uint_bounded [of v] by (simp_all add: u_def)
  have "u div 2 ^ 63 = (if u < 2 ^ 63 then 0 else 1)"
  proof (cases "u < 2 ^ 63")
    case False
    then have "(u - 2 ^ 63) div 2 ^ 63 = 0" using u by simp
    with False div_add_self2 [of "2 ^ 63" "u - 2 ^ 63"] show ?thesis by simp
  qed (use u in simp)
  then have "bit u 63 \<longleftrightarrow> \<not> u < 2 ^ 63" by (simp add: bit_iff_odd)
  with u show ?thesis
    unfolding u_def [symmetric] sint_uint
    by (simp add: signed_take_bit_eq_take_bit_minus take_bit_eq_mod)
qed

lemma double_enc_rank: "double_enc v = double_rank v"
proof -
  define u where "u = uint v"
  have "0 \<le> u" "u < 2 ^ 64" using uint_bounded [of v] by (simp_all add: u_def)
  then show ?thesis
    unfolding double_enc_def Let_def canonical_double_bits_def double_rank_def sint_u64 u_def [symmetric]
    by (simp add: wrap_i64_def I64_MIN_def zmod_zminus1_eq_if)
qed

lemma double_rank_i64: "is_i64 (double_rank v)"
proof -
  define u where "u = uint v"
  have "0 \<le> u" "u < 2 ^ 64" using uint_bounded [of v] by (simp_all add: u_def)
  then show ?thesis unfolding double_rank_def is_i64_def u_def [symmetric] by simp
qed

interpretation double_inc: ordered_code "\<lambda>a b. double_rank a < double_rank b" append_double_increasing
  by unfold_locales (simp add: append_double_increasing_def double_enc_rank double_rank_i64 append_int64_before)

interpretation double_dec: ordered_code "\<lambda>a b. double_rank b < double_rank a" append_double_decreasing
  by unfold_locales (simp add: append_double_decreasing_def double_enc_rank double_rank_i64 append_int64_before)

section \<open>Timestamps and UUIDs\<close>

lemma timestamp_before:
  assumes "is_i64 s" "is_i64 s'" "0 \<le> n" "n' < 2 ^ 31"
    and "s < s' \<or> s = s' \<and> n < n'"
  shows "before (encode_timestamp s n) (encode_timestamp s' n')"
proof -
  have secs: "be_bytes 8 (wrap_i64 (t + I64_MIN)) = be_bytes 8 (t + 2 ^ 63)" for t
    by (rule be_bytes_mod) (simp add: wrap_i64_def I64_MIN_def mod_eq_dvd_iff [symmetric])
  show ?thesis
  proof (cases "s < s'")
    case True
    then have "before (be_bytes 8 (s + 2 ^ 63)) (be_bytes 8 (s' + 2 ^ 63))"
      using assms(1, 2) by (intro be_bytes_before) (simp_all add: is_i64_def)
    then show ?thesis by (simp add: encode_timestamp_def secs before_append)
  next
    case False
    with assms(5) have "s = s'" "n < n'" by auto
    with be_bytes_before [of n n' 4] assms(3, 4) show ?thesis by (simp add: encode_timestamp_def)
  qed
qed

lemma uuid_before:
  assumes "h < h' \<or> h = h' \<and> l < l'"
  shows "before (encode_uuid h l) (encode_uuid h' l')"
proof -
  have "before (be_bytes 8 (uint v)) (be_bytes 8 (uint v'))" if "v < v'" for v v' :: u64
    using that uint_bounded [of v'] by (intro be_bytes_before) (simp_all add: word_less_def)
  with assms show ?thesis by (auto simp: encode_uuid_def before_append)
qed

section \<open>Composite tags\<close>

lemma or_exp_nat: "x < 2 ^ k \<Longrightarrow> (2 ^ k OR x :: nat) = 2 ^ k + x"
proof -
  assume "x < 2 ^ k"
  then have "take_bit k x = x" by (simp add: take_bit_nat_eq_self)
  then have "2 ^ k AND x = (0 :: nat)"
    by (metis (no_types) bit_and_iff bit_eqI bit_exp_iff bit_take_bit_iff bit_0_eq bot_apply less_irrefl_nat bot_bool_def)
  then show ?thesis by (simp add: disjunctive_add_eq_or)
qed

lemma be_bytes_small:
  "be_bytes (Suc 0) v = [of_int v]" "be_bytes 2 v = [of_int (v div 256), of_int v]"
  "be_bytes 3 v = [of_int (v div 65536), of_int (v div 256), of_int v]"
  by (simp_all add: be_bytes_Suc numeral_2_eq_2 numeral_3_eq_3)

definition tag_code :: "nat \<Rightarrow> u8 list" where
  "tag_code t =
     (if t < 16 then be_bytes 1 (int (2 * t))
      else if 2 * t < 8192 then be_bytes 2 (int (8192 + 2 * t))
      else be_bytes 3 (int (4194304 + 2 * t)))"

lemma tag_code_before:
  assumes "t < t'" "t' \<le> 65535"
  shows "before (tag_code t) (tag_code t')"
proof -
  consider "t' < 16" | "t < 16" "16 \<le> t'" | "16 \<le> t" "2 * t' < 8192" | "16 \<le> t" "2 * t < 8192" "8192 \<le> 2 * t'"
    | "8192 \<le> 2 * t" using assms(1) by linarith
  then show ?thesis
  proof cases
    case 1
    with assms show ?thesis by (simp add: tag_code_def be_bytes_before)
  next
    case 2
    have "(of_int (int (2 * t)) :: u8) < of_int (int (8192 + 2 * t') div 256)" if "2 * t' < 8192"
      unfolding of_int_u8_less using 2 that by (simp add: zdiv_int [symmetric] zmod_int [symmetric])
    moreover have "(of_int (int (2 * t)) :: u8) < of_int (int (4194304 + 2 * t') div 65536)"
      unfolding of_int_u8_less using 2 assms(2) by (simp add: zdiv_int [symmetric] zmod_int [symmetric])
    ultimately show ?thesis using 2 by (auto simp: tag_code_def be_bytes_small simp del: of_int_of_nat_eq)
  next
    case 3
    with assms show ?thesis by (simp add: tag_code_def be_bytes_before)
  next
    case 4
    have "(of_int (int (8192 + 2 * t) div 256) :: u8) < of_int (int (4194304 + 2 * t') div 65536)"
    proof -
      have "int (8192 + 2 * t) div 256 < 64" "0 \<le> int (8192 + 2 * t) div 256"
        using 4 by (simp_all add: int_div_less pos_imp_zdiv_nonneg_iff)
      moreover have "64 \<le> int (4194304 + 2 * t') div 65536"
        using zdiv_mono1 [of 4194304 "int (4194304 + 2 * t')" 65536] by simp
      moreover have "int (4194304 + 2 * t') div 65536 < 66" using assms(2) by (simp add: int_div_less)
      ultimately show ?thesis unfolding of_int_u8_less by simp
    qed
    with 4 show ?thesis by (simp add: tag_code_def be_bytes_small del: of_int_of_nat_eq)
  next
    case 5
    with assms show ?thesis by (simp add: tag_code_def be_bytes_before)
  qed
qed

lemma append_composite_tag_Ok:
  assumes "append_composite_tag tag = Ok out"
  shows "out = tag_code (unat tag) \<and> 0 < unat tag \<and> unat tag \<le> 65535"
proof -
  define t where "t = unat tag"
  from assms have valid: "tag \<noteq> 0" "tag \<le> 0xffff"
    by (auto simp: append_composite_tag_def key_constants not_less split: if_splits)
  then have t: "0 < t" "t \<le> 65535" by (simp_all add: t_def unat_gt_0 word_le_nat_alt)
  have sh: "unat (push_bit 1 tag) = 2 * t"
    using t by (simp add: t_def push_bit_eq_mult unat_word_ariths)
  have byte: "(ucast w :: u8) = of_int (int (unat w))" for w :: u32 by (simp add: unsigned_ucast_eq word_eq_iff_unsigned)
  have ff: "(ucast (w AND 0xFF) :: u8) = ucast w" for w :: u32
  proof -
    have "w AND 0xFF = take_bit 8 w" by (simp add: take_bit_eq_mask mask_eq_exp_minus_1)
    then show ?thesis by (auto intro: bit_word_eqI simp: bit_ucast_iff bit_take_bit_iff)
  qed
  have drop: "unat (drop_bit n w) = unat w div 2 ^ n" for n and w :: u32
    unfolding unsigned_drop_bit_eq drop_bit_eq_div [symmetric]
    using unsigned_less [of w, where ?'a = nat] by (simp add: take_bit_nat_eq_self)
  have two: "unat (push_bit 5 1 OR drop_bit 8 (push_bit 1 tag)) = 32 + 2 * t div 256" if "2 * t < 8192"
    unfolding unsigned_or_eq drop sh using that or_exp_nat [of "2 * t div 256" 5] by simp
  have three: "unat (push_bit 5 2 OR drop_bit 16 (push_bit 1 tag)) = 64 + 2 * t div 65536"
    unfolding unsigned_or_eq drop sh using t or_exp_nat [of "2 * t div 65536" 6] by simp
  have mid: "unat (drop_bit 8 (push_bit 1 tag)) = 2 * t div 256"
    unfolding drop sh by simp
  have less: "tag < 16 \<longleftrightarrow> t < 16" "push_bit 1 tag < push_bit (5 + 8) 1 \<longleftrightarrow> 2 * t < 8192"
    using sh by (simp_all add: t_def word_less_nat_alt)
  consider "t < 16" | "16 \<le> t" "2 * t < 8192" | "16 \<le> t" "8192 \<le> 2 * t" by linarith
  then have "out = tag_code t"
  proof cases
    case 1
    with assms less have "out = [ucast (push_bit 1 tag)]"
      by (auto simp: append_composite_tag_def split: if_splits)
    with 1 show ?thesis unfolding byte sh by (simp add: tag_code_def be_bytes_small)
  next
    case 2
    with assms less have "out = [ucast (push_bit 5 1 OR drop_bit 8 (push_bit 1 tag)), ucast (push_bit 1 tag)]"
      by (auto simp: append_composite_tag_def Let_def ff split: if_splits)
    then have "out = [of_int (int (32 + 2 * t div 256)), of_int (int (2 * t))]"
      unfolding byte sh two [OF 2(2)] .
    moreover have "int (8192 + 2 * t) div 256 = int (32 + 2 * t div 256)" by (simp add: zdiv_int)
    moreover have "(of_int (int (8192 + 2 * t)) :: u8) = of_int (int (2 * t))"
      unfolding of_int_u8_eq by (simp add: mod_eq_dvd_iff)
    ultimately show ?thesis using 2 by (simp add: tag_code_def be_bytes_small del: of_int_of_nat_eq)
  next
    case 3
    with assms less have "out = [ucast (push_bit 5 2 OR drop_bit 16 (push_bit 1 tag)),
        ucast (drop_bit 8 (push_bit 1 tag)), ucast (push_bit 1 tag)]"
      by (auto simp: append_composite_tag_def Let_def ff split: if_splits)
    then have "out = [of_int (int (64 + 2 * t div 65536)), of_int (int (2 * t div 256)), of_int (int (2 * t))]"
      unfolding byte sh mid three .
    moreover have "int (4194304 + 2 * t) div 65536 = int (64 + 2 * t div 65536)" by (simp add: zdiv_int)
    moreover have "int (4194304 + 2 * t) div 256 = int (2 * t div 256) + 16384"
      using div_mult_self1 [of 256 "int (2 * t)" 16384] by (simp add: zdiv_int add.commute)
    then have "(of_int (int (4194304 + 2 * t) div 256) :: u8) = of_int (int (2 * t div 256))"
      unfolding of_int_u8_eq by (simp add: mod_eq_dvd_iff)
    moreover have "(of_int (int (4194304 + 2 * t)) :: u8) = of_int (int (2 * t))"
      unfolding of_int_u8_eq by (simp add: mod_eq_dvd_iff)
    ultimately show ?thesis using 3 by (simp add: tag_code_def be_bytes_small del: of_int_of_nat_eq)
  qed
  with t show ?thesis by (simp add: t_def)
qed

section \<open>Properties\<close>

text \<open>
  Integer keys sort like integers and never run into what follows. For every pair of 64-bit
  integers the increasing code of the smaller one, and the decreasing code of the larger one, is the
  smaller byte vector, whatever is appended to either.
\<close>

theorem int64_keys_ordered:
  assumes "is_i64 a" "is_i64 b" "a < b"
  shows "ord_class.lexordp (append_int64_increasing a @ s) (append_int64_increasing b @ t) \<and>
    ord_class.lexordp (append_int64_decreasing b @ s) (append_int64_decreasing a @ t)"
  using int64_inc.code_less int64_dec.code_less assms by blast

theorem int64_keys_ordered_witness:
  "ord_class.lexordp (append_int64_increasing (- 300) @ [255]) (append_int64_increasing 7 @ [0]) \<and>
    ord_class.lexordp (append_int64_decreasing 7 @ [255]) (append_int64_decreasing (- 300) @ [0])"
  by (rule int64_keys_ordered) (simp_all add: is_i64_def)

text \<open>Composite tags sort like numbers, and exactly the reserved and oversized ones are refused.\<close>

lemma composite_tags_ordered:
  assumes "append_composite_tag tag = Ok a" "append_composite_tag tag' = Ok b" "tag < tag'"
  shows "before a b"
  using append_composite_tag_Ok [OF assms(1)] append_composite_tag_Ok [OF assms(2)] assms(3)
  by (simp add: tag_code_before word_less_nat_alt)

interpretation tag_order: ordered_code
  "\<lambda>t t'. is_ok (append_composite_tag t) \<and> is_ok (append_composite_tag t') \<and> t < t'"
  "\<lambda>t. tag_code (unat t)"
proof
  fix t t' :: u32
  assume "is_ok (append_composite_tag t) \<and> is_ok (append_composite_tag t') \<and> t < t'"
  then obtain a b where "append_composite_tag t = Ok a" "append_composite_tag t' = Ok b" "t < t'"
    by (metis is_ok.elims(2))
  with composite_tags_ordered [OF this] append_composite_tag_Ok
  show "before (tag_code (unat t)) (tag_code (unat t'))" by blast
qed

end
