(* ===== verification/Spanner_Recipe.thy ===== *)
theory Spanner_Recipe
  imports Spanner_Keys Well_Known_Types
begin

text \<open>
  Routing keys of the Spanner client: the evaluation of key recipes,
  \<open>spanner/src/routing/key_recipe.rs\<close>, with the codecs of \<open>temporal.rs\<close> and
  \<open>uuid.rs\<close>, on top of \<open>Spanner_Keys\<close>.

  The output vector is explicit: an encoder takes it and returns it with its result, so that what is
  left in it after an error is part of the model. The parsers of the \<open>time\<close> and \<open>base64\<close>
  crates are the record \<open>key_codecs\<close>; \<open>rng\<close> gives the random number drawn for each part
  of a recipe. A JSON number is given by what \<open>as_i64\<close> and \<open>as_f64\<close> say about it.
\<close>

section \<open>Data\<close>

datatype type_code =
    TcUnspecified | TcBool | TcInt64 | TcFloat64 | TcFloat32 | TcTimestamp | TcDate | TcString | TcBytes
  | TcArray | TcStruct | TcNumeric | TcJson | TcProto | TcEnum | TcInterval | TcUuid
  | TcUnknownValue string

datatype part_order = OrderUnspecified | Ascending | Descending | OrderUnknownValue

datatype null_order = NullUnspecified | NullsFirst | NullsLast | NotNull | NullUnknownValue

datatype json_tree =
    JsonNull | JsonBool bool | JsonNumber "int option" "f64 option" | JsonString string
  | JsonArray "json_tree list" | JsonObject

datatype spanner_value =
    VNull | VNumber f64 | VString string | VBool bool | VList "spanner_value list" | VUnknown

datatype part_value_type = Identifier string | Constant json_tree | Random bool

record part =
  part_tag :: u32
  part_order :: part_order
  part_null_order :: null_order
  part_type :: "type_code option"
  part_struct_identifiers :: "int list"
  part_value_type :: "part_value_type option"

type_synonym key_recipe = "part list"

fun part_random :: "part_value_type option \<Rightarrow> bool option" where
  "part_random (Some (Random b)) = Some b"
| "part_random _ = None"

fun part_constant :: "part_value_type option \<Rightarrow> json_tree option" where
  "part_constant (Some (Constant v)) = Some v"
| "part_constant _ = None"

fun part_identifier :: "part_value_type option \<Rightarrow> string option" where
  "part_identifier (Some (Identifier s)) = Some s"
| "part_identifier _ = None"

fun as_str :: "spanner_value \<Rightarrow> string option" where
  "as_str (VString s) = Some s"
| "as_str _ = None"

fun as_bool :: "spanner_value \<Rightarrow> bool option" where
  "as_bool (VBool b) = Some b"
| "as_bool _ = None"

fun as_f64 :: "spanner_value \<Rightarrow> f64 option" where
  "as_f64 (VNumber f) = Some f"
| "as_f64 _ = None"

fun as_list :: "spanner_value \<Rightarrow> spanner_value list option" where
  "as_list (VList l) = Some l"
| "as_list _ = None"

fun json_as_str :: "json_tree \<Rightarrow> string option" where
  "json_as_str (JsonString s) = Some s"
| "json_as_str _ = None"

fun json_as_bool :: "json_tree \<Rightarrow> bool option" where
  "json_as_bool (JsonBool b) = Some b"
| "json_as_bool _ = None"

fun json_as_i64 :: "json_tree \<Rightarrow> int option" where
  "json_as_i64 (JsonNumber i f) = i"
| "json_as_i64 _ = None"

fun json_as_f64 :: "json_tree \<Rightarrow> f64 option" where
  "json_as_f64 (JsonNumber i f) = f"
| "json_as_f64 _ = None"

fun json_as_array :: "json_tree \<Rightarrow> json_tree list option" where
  "json_as_array (JsonArray l) = Some l"
| "json_as_array _ = None"

text \<open>Code of other crates: the Julian day of an ISO date, the Unix seconds and nanoseconds of an RFC 3339
  timestamp, and base64 (into a buffer of 512 bytes, and into a vector).\<close>

record key_codecs =
  kc_julian_day :: "string \<Rightarrow> (string, int) result"
  kc_rfc3339 :: "string \<Rightarrow> (string, int \<times> int) result"
  kc_base64_slice :: "string \<Rightarrow> u8 list option"
  kc_base64 :: "string \<Rightarrow> (string, u8 list) result"

text \<open>A string between single quotes in a message.\<close>

definition quoted :: "string \<Rightarrow> string" where
  "quoted s = [CHR 0x27] @ s @ [CHR 0x27]"

section \<open>Encoders\<close>

type_synonym enc = "u8 list \<Rightarrow> (error, unit) result \<times> u8 list"

definition put :: "u8 list \<Rightarrow> enc" where
  "put bytes buffer = (Ok (), buffer @ bytes)"

definition fails :: "error \<Rightarrow> enc" where
  "fails e buffer = (Err e, buffer)"

definition and_then :: "enc \<Rightarrow> enc \<Rightarrow> enc" where
  "and_then m k buffer = (case m buffer of (Ok _, b) \<Rightarrow> k b | (Err e, b) \<Rightarrow> (Err e, b))"

definition try_enc :: "(error, 'a) result \<Rightarrow> ('a \<Rightarrow> enc) \<Rightarrow> enc" where
  "try_enc r k = (case r of Ok a \<Rightarrow> k a | Err e \<Rightarrow> fails e)"

definition ok_or :: "'a option \<Rightarrow> error \<Rightarrow> (error, 'a) result" where
  "ok_or x e = (case x of Some a \<Rightarrow> Ok a | None \<Rightarrow> Err e)"

definition append_int64_ordered :: "int \<Rightarrow> bool \<Rightarrow> enc" where
  "append_int64_ordered v decreasing =
     put (if decreasing then append_int64_decreasing v else append_int64_increasing v)"

definition append_bytes_ordered :: "u8 list \<Rightarrow> bool \<Rightarrow> enc" where
  "append_bytes_ordered v decreasing =
     put (if decreasing then append_bytes_decreasing v else append_bytes_increasing v)"

definition append_string_ordered :: "string \<Rightarrow> bool \<Rightarrow> enc" where
  "append_string_ordered v decreasing =
     put (if decreasing then append_string_decreasing v else append_string_increasing v)"

definition append_double_ordered :: "f64 \<Rightarrow> bool \<Rightarrow> enc" where
  "append_double_ordered v decreasing =
     put (if decreasing then append_double_decreasing v else append_double_increasing v)"

definition append_bool_ordered :: "bool \<Rightarrow> bool \<Rightarrow> enc" where
  "append_bool_ordered v decreasing =
     put (if decreasing then append_bool_decreasing v else append_bool_increasing v)"

definition append_null_ordered :: "bool \<Rightarrow> enc" where
  "append_null_ordered nulls_last =
     put (if nulls_last then append_null_ordered_last else append_null_ordered_first)"

definition append_not_null_marker_ordered :: "bool \<Rightarrow> enc" where
  "append_not_null_marker_ordered nulls_last =
     put (if nulls_last then append_not_null_marker_null_ordered_last
          else append_not_null_marker_null_ordered_first)"

fun encode_null_part :: "null_order \<Rightarrow> bool \<Rightarrow> enc" where
  "encode_null_part NullsFirst decreasing = append_null_ordered False"
| "encode_null_part NullUnknownValue decreasing = append_null_ordered False"
| "encode_null_part NullsLast decreasing = append_null_ordered True"
| "encode_null_part NullUnspecified decreasing = append_null_ordered decreasing"
| "encode_null_part NotNull decreasing =
     fails (spanner_error ''NULL value provided for NOT NULL key recipe column'')"

fun encode_not_null_marker :: "null_order \<Rightarrow> bool \<Rightarrow> enc" where
  "encode_not_null_marker NullsFirst decreasing = append_not_null_marker_ordered False"
| "encode_not_null_marker NullUnknownValue decreasing = append_not_null_marker_ordered False"
| "encode_not_null_marker NullsLast decreasing = append_not_null_marker_ordered True"
| "encode_not_null_marker NullUnspecified decreasing = append_not_null_marker_ordered decreasing"
| "encode_not_null_marker NotNull decreasing = put []"

section \<open>Parsing the values\<close>

text \<open>\<open>str::parse\<close> to an \<open>i64\<close>.\<close>

fun parse_i64_digits :: "bool \<Rightarrow> int \<Rightarrow> string \<Rightarrow> (string, int) result" where
  "parse_i64_digits neg acc [] = Ok acc"
| "parse_i64_digits neg acc (c # cs) =
     (if \<not> is_ascii_digit c then Err ''invalid digit found in string''
      else let d = of_char c - 48;
               acc' = (if neg then acc * 10 - d else acc * 10 + d)
           in if is_i64 acc' then parse_i64_digits neg acc' cs
              else Err (if neg then ''number too small to fit in target type''
                        else ''number too large to fit in target type''))"

definition parse_i64 :: "string \<Rightarrow> (string, int) result" where
  "parse_i64 s =
     (if s = [] then Err ''cannot parse integer from empty string''
      else if s = ''+'' \<or> s = ''-'' then Err ''invalid digit found in string''
      else if hd s = CHR ''-'' then parse_i64_digits True 0 (tl s)
      else if hd s = CHR ''+'' then parse_i64_digits False 0 (tl s)
      else parse_i64_digits False 0 s)"

definition UNIX_EPOCH_JULIAN_DAY :: int where "UNIX_EPOCH_JULIAN_DAY = 2440588"

definition parse_date_days :: "key_codecs \<Rightarrow> string \<Rightarrow> (error, int) result" where
  "parse_date_days c date_string =
     (case kc_julian_day c date_string of
        Err e \<Rightarrow> Err (spanner_error (''Failed to parse DATE string '' @ quoted date_string @ '': '' @ e))
      | Ok day \<Rightarrow> Ok (day - UNIX_EPOCH_JULIAN_DAY))"

definition parse_timestamp_bytes :: "key_codecs \<Rightarrow> string \<Rightarrow> (error, u8 list) result" where
  "parse_timestamp_bytes c timestamp_string =
     (case kc_rfc3339 c timestamp_string of
        Err e \<Rightarrow> Err (spanner_error (''Failed to parse TIMESTAMP string '' @ quoted timestamp_string @ '': '' @ e))
      | Ok (seconds, nanos) \<Rightarrow> Ok (encode_timestamp seconds nanos))"

definition hex_digit :: "u8 \<Rightarrow> u64 option" where
  "hex_digit b =
     (if 48 \<le> b \<and> b \<le> 57 then Some (ucast (b - 48))
      else if 97 \<le> b \<and> b \<le> 102 then Some (ucast (b - 97 + 10))
      else if 65 \<le> b \<and> b \<le> 70 then Some (ucast (b - 65 + 10))
      else None)"

fun parse_hex_digits :: "u64 \<Rightarrow> u8 list \<Rightarrow> string \<Rightarrow> (error, u64) result" where
  "parse_hex_digits v [] uuid_string = Ok v"
| "parse_hex_digits v (b # bs) uuid_string =
     (case hex_digit b of
        None \<Rightarrow> Err (spanner_error (''Invalid UUID string '' @ quoted uuid_string @ '': non-hex character''))
      | Some digit \<Rightarrow> parse_hex_digits (push_bit 4 v OR digit) bs uuid_string)"

definition slice :: "nat \<Rightarrow> nat \<Rightarrow> 'a list \<Rightarrow> 'a list" where
  "slice i j xs = take (j - i) (drop i xs)"

definition uuid_text :: "string \<Rightarrow> (error, string) result" where
  "uuid_text uuid_string =
     (if length uuid_string = 36 then Ok uuid_string
      else if length uuid_string = 38 then
        (if uuid_string ! 0 \<noteq> CHR ''{'' \<or> uuid_string ! 37 \<noteq> CHR ''}''
         then Err (spanner_error (''Invalid UUID string '' @ quoted uuid_string @ '': malformed braces''))
         else Ok (slice 1 37 uuid_string))
      else Err (spanner_error (''Invalid UUID string '' @ quoted uuid_string @ '': expected 36 or 38 characters'')))"

definition bind_result :: "('e, 'a) result \<Rightarrow> ('a \<Rightarrow> ('e, 'b) result) \<Rightarrow> ('e, 'b) result" where
  "bind_result r k = (case r of Ok a \<Rightarrow> k a | Err e \<Rightarrow> Err e)"

definition parse_uuid :: "string \<Rightarrow> (error, u64 \<times> u64) result" where
  "parse_uuid uuid_string =
     bind_result (uuid_text uuid_string) (\<lambda>text.
       if text ! 8 \<noteq> CHR ''-'' \<or> text ! 13 \<noteq> CHR ''-'' \<or> text ! 18 \<noteq> CHR ''-'' \<or> text ! 23 \<noteq> CHR ''-''
       then Err (spanner_error (''Invalid UUID string '' @ quoted uuid_string @ '': malformed hyphens''))
       else
         (let hex = (\<lambda>i j. parse_hex_digits 0 (slice i j (as_bytes text)) uuid_string)
          in bind_result (hex 0 8) (\<lambda>a. bind_result (hex 9 13) (\<lambda>b. bind_result (hex 14 18) (\<lambda>c.
               bind_result (hex 19 23) (\<lambda>d. bind_result (hex 24 36) (\<lambda>e.
                 Ok (push_bit 32 a OR push_bit 16 b OR c, push_bit 48 d OR e))))))))"

definition parse_uuid_bytes :: "string \<Rightarrow> (error, u8 list) result" where
  "parse_uuid_bytes uuid_string =
     bind_result (parse_uuid uuid_string) (\<lambda>(high, low). Ok (encode_uuid high low))"

text \<open>Bytes come as base64; decoding is first tried into a buffer on the stack.\<close>

definition decode_base64 :: "key_codecs \<Rightarrow> string \<Rightarrow> (error, u8 list) result" where
  "decode_base64 c string_value =
     (case kc_base64_slice c string_value of
        Some bytes \<Rightarrow> Ok bytes
      | None \<Rightarrow>
          (case kc_base64 c string_value of
             Ok bytes \<Rightarrow> Ok bytes
           | Err e \<Rightarrow> Err (spanner_error
               (''Failed to decode base64 Bytes from string '' @ quoted string_value @ '': '' @ e))))"

definition F64_NAN :: f64 where "F64_NAN = 0x7ff8000000000000"
definition F64_INFINITY :: f64 where "F64_INFINITY = 0x7ff0000000000000"
definition F64_NEG_INFINITY :: f64 where "F64_NEG_INFINITY = 0xfff0000000000000"

definition parse_special_float :: "string \<Rightarrow> (error, f64) result" where
  "parse_special_float s =
     (if s = ''NaN'' then Ok F64_NAN
      else if s = ''Infinity'' then Ok F64_INFINITY
      else if s = ''-Infinity'' then Ok F64_NEG_INFINITY
      else Err (spanner_error (''Type mismatch: invalid FLOAT64 string '' @ quoted s @
        '' (only NaN and Infinity strings permitted)'')))"

definition int64_from_str :: "string \<Rightarrow> (error, int) result" where
  "int64_from_str s =
     (case parse_i64 s of
        Ok v \<Rightarrow> Ok v
      | Err e \<Rightarrow> Err (spanner_error (''Failed to parse Int64 from string '' @ quoted s @ '': '' @ e)))"

section \<open>Key columns\<close>

fun type_code_debug :: "type_code \<Rightarrow> string" where
  "type_code_debug TcUnspecified = ''Unspecified''"
| "type_code_debug TcBool = ''Bool''"
| "type_code_debug TcInt64 = ''Int64''"
| "type_code_debug TcFloat64 = ''Float64''"
| "type_code_debug TcFloat32 = ''Float32''"
| "type_code_debug TcTimestamp = ''Timestamp''"
| "type_code_debug TcDate = ''Date''"
| "type_code_debug TcString = ''String''"
| "type_code_debug TcBytes = ''Bytes''"
| "type_code_debug TcArray = ''Array''"
| "type_code_debug TcStruct = ''Struct''"
| "type_code_debug TcNumeric = ''Numeric''"
| "type_code_debug TcJson = ''Json''"
| "type_code_debug TcProto = ''Proto''"
| "type_code_debug TcEnum = ''Enum''"
| "type_code_debug TcInterval = ''Interval''"
| "type_code_debug TcUuid = ''Uuid''"
| "type_code_debug (TcUnknownValue s) = s"

definition check_supported_key_type :: "part \<Rightarrow> (error, type_code) result" where
  "check_supported_key_type p =
     (case part_type p of
        None \<Rightarrow> Err (spanner_error ''Invalid KeyRecipe part: missing type definition'')
      | Some code \<Rightarrow>
          (if code \<in> {TcBool, TcInt64, TcFloat64, TcString, TcBytes, TcDate, TcTimestamp, TcUuid, TcEnum}
           then Ok code
           else if code = TcUnspecified
           then Err (spanner_error ''Invalid KeyRecipe part: TypeCode::Unspecified is not permitted'')
           else Err (spanner_error (''TypeCode '' @ type_code_debug code @
             '' is not supported for key recipe encoding''))))"

definition is_descending :: "part \<Rightarrow> bool" where
  "is_descending p \<longleftrightarrow> part_order p = Descending"

definition encode_bool_part :: "spanner_value \<Rightarrow> bool \<Rightarrow> enc" where
  "encode_bool_part v decreasing =
     try_enc (ok_or (as_bool v) (spanner_error ''Type mismatch: expected Bool value for BOOL column''))
       (\<lambda>b. append_bool_ordered b decreasing)"

definition encode_int64_part :: "spanner_value \<Rightarrow> bool \<Rightarrow> enc" where
  "encode_int64_part v decreasing =
     try_enc (ok_or (as_str v) (spanner_error ''Type mismatch: expected String value for INT64 or ENUM column''))
       (\<lambda>s. try_enc (int64_from_str s) (\<lambda>i. append_int64_ordered i decreasing))"

definition encode_float64_part :: "spanner_value \<Rightarrow> bool \<Rightarrow> enc" where
  "encode_float64_part v decreasing =
     (case as_str v of
        Some s \<Rightarrow> try_enc (parse_special_float s) (\<lambda>f. append_double_ordered f decreasing)
      | None \<Rightarrow> try_enc (ok_or (as_f64 v)
            (spanner_error ''Type mismatch: expected Number or special String value for FLOAT64 column''))
          (\<lambda>f. append_double_ordered f decreasing))"

definition encode_string_part :: "spanner_value \<Rightarrow> bool \<Rightarrow> enc" where
  "encode_string_part v decreasing =
     try_enc (ok_or (as_str v) (spanner_error ''Type mismatch: expected String value for STRING column''))
       (\<lambda>s. append_string_ordered s decreasing)"

definition encode_bytes_part :: "key_codecs \<Rightarrow> spanner_value \<Rightarrow> bool \<Rightarrow> enc" where
  "encode_bytes_part c v decreasing =
     try_enc (ok_or (as_str v) (spanner_error ''Type mismatch: expected base64 String value for BYTES column''))
       (\<lambda>s. try_enc (decode_base64 c s) (\<lambda>bs. append_bytes_ordered bs decreasing))"

definition encode_date_part :: "key_codecs \<Rightarrow> spanner_value \<Rightarrow> bool \<Rightarrow> enc" where
  "encode_date_part c v decreasing =
     try_enc (ok_or (as_str v) (spanner_error ''Type mismatch: expected ISO 8601 String value for DATE column''))
       (\<lambda>s. try_enc (parse_date_days c s) (\<lambda>days. append_int64_ordered days decreasing))"

definition encode_timestamp_part :: "key_codecs \<Rightarrow> spanner_value \<Rightarrow> bool \<Rightarrow> enc" where
  "encode_timestamp_part c v decreasing =
     try_enc (ok_or (as_str v)
         (spanner_error ''Type mismatch: expected RFC 3339 String value for TIMESTAMP column''))
       (\<lambda>s. try_enc (parse_timestamp_bytes c s) (\<lambda>bs. append_bytes_ordered bs decreasing))"

definition encode_uuid_part :: "spanner_value \<Rightarrow> bool \<Rightarrow> enc" where
  "encode_uuid_part v decreasing =
     try_enc (ok_or (as_str v) (spanner_error ''Type mismatch: expected String value for UUID column''))
       (\<lambda>s. try_enc (parse_uuid_bytes s) (\<lambda>bs. append_bytes_ordered bs decreasing))"

definition unsupported_type :: "type_code \<Rightarrow> enc" where
  "unsupported_type other =
     fails (spanner_error (''Unsupported TypeCode '' @ type_code_debug other @ '' for key recipe encoding''))"

definition encode_part :: "key_codecs \<Rightarrow> part \<Rightarrow> spanner_value \<Rightarrow> enc" where
  "encode_part c p v =
     try_enc (check_supported_key_type p) (\<lambda>code.
       let decreasing = is_descending p
       in if v = VNull then encode_null_part (part_null_order p) decreasing
          else and_then (encode_not_null_marker (part_null_order p) decreasing)
            (case code of
               TcBool \<Rightarrow> encode_bool_part v decreasing
             | TcInt64 \<Rightarrow> encode_int64_part v decreasing
             | TcEnum \<Rightarrow> encode_int64_part v decreasing
             | TcFloat64 \<Rightarrow> encode_float64_part v decreasing
             | TcString \<Rightarrow> encode_string_part v decreasing
             | TcBytes \<Rightarrow> encode_bytes_part c v decreasing
             | TcDate \<Rightarrow> encode_date_part c v decreasing
             | TcTimestamp \<Rightarrow> encode_timestamp_part c v decreasing
             | TcUuid \<Rightarrow> encode_uuid_part v decreasing
             | other \<Rightarrow> unsupported_type other))"

text \<open>The same for JSON values.\<close>

definition encode_json_parsed_string ::
  "json_tree \<Rightarrow> string \<Rightarrow> (string \<Rightarrow> (error, 'a) result) \<Rightarrow> (error, 'a) result" where
  "encode_json_parsed_string v type_name parse =
     bind_result (ok_or (json_as_str v)
       (spanner_error (''Type mismatch: expected String value for '' @ type_name @ '' column''))) parse"

definition encode_json_date_part :: "key_codecs \<Rightarrow> json_tree \<Rightarrow> bool \<Rightarrow> enc" where
  "encode_json_date_part c v decreasing =
     try_enc (encode_json_parsed_string v ''DATE'' (parse_date_days c))
       (\<lambda>days. append_int64_ordered days decreasing)"

definition encode_json_timestamp_part :: "key_codecs \<Rightarrow> json_tree \<Rightarrow> bool \<Rightarrow> enc" where
  "encode_json_timestamp_part c v decreasing =
     try_enc (encode_json_parsed_string v ''TIMESTAMP'' (parse_timestamp_bytes c))
       (\<lambda>bs. append_bytes_ordered bs decreasing)"

definition encode_json_uuid_part :: "json_tree \<Rightarrow> bool \<Rightarrow> enc" where
  "encode_json_uuid_part v decreasing =
     try_enc (encode_json_parsed_string v ''UUID'' parse_uuid_bytes)
       (\<lambda>bs. append_bytes_ordered bs decreasing)"

definition encode_json_bool_part :: "json_tree \<Rightarrow> bool \<Rightarrow> enc" where
  "encode_json_bool_part v decreasing =
     try_enc (ok_or (json_as_bool v) (spanner_error ''Type mismatch: expected Bool value for BOOL column''))
       (\<lambda>b. append_bool_ordered b decreasing)"

definition json_int64 :: "json_tree \<Rightarrow> (error, int) result" where
  "json_int64 v =
     (case json_as_str v of
        Some s \<Rightarrow> int64_from_str s
      | None \<Rightarrow> ok_or (json_as_i64 v)
          (spanner_error ''Type mismatch: expected String or Integer value for INT64 column''))"

definition encode_json_int64_part :: "json_tree \<Rightarrow> bool \<Rightarrow> enc" where
  "encode_json_int64_part v decreasing = try_enc (json_int64 v) (\<lambda>i. append_int64_ordered i decreasing)"

definition json_float64 :: "json_tree \<Rightarrow> (error, f64) result" where
  "json_float64 v =
     (case json_as_str v of
        Some s \<Rightarrow> parse_special_float s
      | None \<Rightarrow> ok_or (json_as_f64 v)
          (spanner_error ''Type mismatch: expected Number or special String value for FLOAT64 column''))"

definition encode_json_float64_part :: "json_tree \<Rightarrow> bool \<Rightarrow> enc" where
  "encode_json_float64_part v decreasing = try_enc (json_float64 v) (\<lambda>f. append_double_ordered f decreasing)"

definition encode_json_string_part :: "json_tree \<Rightarrow> bool \<Rightarrow> enc" where
  "encode_json_string_part v decreasing =
     try_enc (ok_or (json_as_str v) (spanner_error ''Type mismatch: expected String value for STRING column''))
       (\<lambda>s. append_string_ordered s decreasing)"

definition encode_json_bytes_part :: "key_codecs \<Rightarrow> json_tree \<Rightarrow> bool \<Rightarrow> enc" where
  "encode_json_bytes_part c v decreasing =
     try_enc (ok_or (json_as_str v)
         (spanner_error ''Type mismatch: expected base64 String value for BYTES column''))
       (\<lambda>s. try_enc (decode_base64 c s) (\<lambda>bs. append_bytes_ordered bs decreasing))"

definition encode_json_part :: "key_codecs \<Rightarrow> part \<Rightarrow> json_tree \<Rightarrow> enc" where
  "encode_json_part c p v =
     try_enc (check_supported_key_type p) (\<lambda>code.
       let decreasing = is_descending p
       in if v = JsonNull then encode_null_part (part_null_order p) decreasing
          else and_then (encode_not_null_marker (part_null_order p) decreasing)
            (case code of
               TcBool \<Rightarrow> encode_json_bool_part v decreasing
             | TcInt64 \<Rightarrow> encode_json_int64_part v decreasing
             | TcEnum \<Rightarrow> encode_json_int64_part v decreasing
             | TcFloat64 \<Rightarrow> encode_json_float64_part v decreasing
             | TcString \<Rightarrow> encode_json_string_part v decreasing
             | TcBytes \<Rightarrow> encode_json_bytes_part c v decreasing
             | TcDate \<Rightarrow> encode_json_date_part c v decreasing
             | TcTimestamp \<Rightarrow> encode_json_timestamp_part c v decreasing
             | TcUuid \<Rightarrow> encode_json_uuid_part v decreasing
             | other \<Rightarrow> unsupported_type other))"

section \<open>Recipes\<close>

text \<open>Walking into nested structs; \<open>children\<close> is \<open>as_list\<close> or \<open>as_array\<close>.\<close>

fun resolve_field :: "('v \<Rightarrow> 'v list option) \<Rightarrow> string \<Rightarrow> 'v \<Rightarrow> int list \<Rightarrow> (error, 'v) result" where
  "resolve_field children expected current [] = Ok current"
| "resolve_field children expected current (i # is) =
     (if i < 0 then Err (spanner_error
        (''Invalid negative struct index -'' @ dec (nat (- i)) @ '' in key recipe part''))
      else case children current of
        None \<Rightarrow> Err (spanner_error expected)
      | Some l \<Rightarrow>
          (if nat i < length l then resolve_field children expected (l ! nat i) is
           else Err (spanner_error (''Struct field index '' @ dec (nat i) @ '' out of bounds (len '' @
             dec (length l) @ '')''))))"

definition resolve_struct_field :: "spanner_value \<Rightarrow> int list \<Rightarrow> (error, spanner_value) result" where
  "resolve_struct_field =
     resolve_field as_list ''Expected Struct ListValue for struct parameter traversal''"

definition resolve_struct_field_json :: "json_tree \<Rightarrow> int list \<Rightarrow> (error, json_tree) result" where
  "resolve_struct_field_json =
     resolve_field json_as_array ''Expected Struct array for struct parameter traversal''"

text \<open>The random number has its sign bit cleared.\<close>

definition encode_random_part :: "part \<Rightarrow> bool \<Rightarrow> int \<Rightarrow> enc" where
  "encode_random_part p decreasing random =
     try_enc (check_supported_key_type p) (\<lambda>code.
       if code \<noteq> TcInt64 then fails (spanner_error ''Random key recipe part must have TypeCode::Int64'')
       else append_int64_ordered (random AND (2 ^ 63 - 1)) decreasing)"

text \<open>\<open>None\<close> when the part takes a value.\<close>

definition encode_recipe_part_preamble :: "key_codecs \<Rightarrow> int \<Rightarrow> part \<Rightarrow> enc option" where
  "encode_recipe_part_preamble c random p =
     (if part_tag p \<noteq> 0 then Some (try_enc (append_composite_tag (part_tag p)) put)
      else if part_random (part_value_type p) = Some True
      then Some (encode_random_part p (is_descending p) random)
      else case part_constant (part_value_type p) of
        Some v \<Rightarrow> Some (try_enc (resolve_struct_field_json v (part_struct_identifiers p)) (encode_json_part c p))
      | None \<Rightarrow> None)"

definition validate_recipe_structure :: "key_recipe \<Rightarrow> (error, unit) result" where
  "validate_recipe_structure recipe =
     (if recipe = [] then Err (spanner_error ''Invalid KeyRecipe: must have at least one part'')
      else if part_tag (hd recipe) = 0
      then Err (spanner_error ''Invalid KeyRecipe: must start with a table or index tag'')
      else Ok ())"

text \<open>\<open>resolve_value\<close> may keep state, as an iterator does; \<open>encode_into\<close> is the method of the
  trait.\<close>

fun encode_parts ::
  "key_codecs \<Rightarrow> (nat \<Rightarrow> int) \<Rightarrow> (part \<Rightarrow> 's \<Rightarrow> (error, 'v) result \<times> 's) \<Rightarrow> (part \<Rightarrow> 'v \<Rightarrow> enc) \<Rightarrow>
   nat \<Rightarrow> key_recipe \<Rightarrow> 's \<Rightarrow> nat \<Rightarrow> enc" where
  "encode_parts c rng resolve_value encode_into initial_len [] s n buffer = (Ok (), buffer)"
| "encode_parts c rng resolve_value encode_into initial_len (p # ps) s n buffer =
     (case encode_recipe_part_preamble c (rng n) p of
        Some m \<Rightarrow>
          (case m buffer of
             (Ok _, b) \<Rightarrow> encode_parts c rng resolve_value encode_into initial_len ps s (Suc n) b
           | (Err e, b) \<Rightarrow> (Err e, take initial_len b))
      | None \<Rightarrow>
          (case resolve_value p s of
             (Err e, s') \<Rightarrow> (Err e, take initial_len buffer)
           | (Ok v, s') \<Rightarrow>
               (case encode_into p v buffer of
                  (Ok _, b) \<Rightarrow> encode_parts c rng resolve_value encode_into initial_len ps s' (Suc n) b
                | (Err e, b) \<Rightarrow> (Err e, take initial_len b))))"

definition encode_key_from_parts_internal ::
  "key_codecs \<Rightarrow> (nat \<Rightarrow> int) \<Rightarrow> key_recipe \<Rightarrow> (part \<Rightarrow> 's \<Rightarrow> (error, 'v) result \<times> 's) \<Rightarrow>
   (part \<Rightarrow> 'v \<Rightarrow> enc) \<Rightarrow> 's \<Rightarrow> enc" where
  "encode_key_from_parts_internal c rng recipe resolve_value encode_into s buffer =
     (case validate_recipe_structure recipe of
        Err e \<Rightarrow> (Err e, buffer)
      | Ok _ \<Rightarrow> encode_parts c rng resolve_value encode_into (length buffer) recipe s 0 buffer)"

fun next_value :: "part \<Rightarrow> 'v list \<Rightarrow> (error, 'v) result \<times> 'v list" where
  "next_value p [] = (Err (spanner_error
     ''Not enough column values to encode key recipe: more values required''), [])"
| "next_value p (v # vs) = (Ok v, vs)"

definition encode_key_from_recipe_into :: "key_codecs \<Rightarrow> (nat \<Rightarrow> int) \<Rightarrow> key_recipe \<Rightarrow> spanner_value list \<Rightarrow> enc" where
  "encode_key_from_recipe_into c rng recipe values =
     encode_key_from_parts_internal c rng recipe next_value (encode_part c) values"

definition encode_key_from_json_recipe_into :: "key_codecs \<Rightarrow> (nat \<Rightarrow> int) \<Rightarrow> key_recipe \<Rightarrow> json_tree list \<Rightarrow> enc" where
  "encode_key_from_json_recipe_into c rng recipe values =
     encode_key_from_parts_internal c rng recipe next_value (encode_json_part c) values"

definition to_ascii_lower :: "char \<Rightarrow> char" where
  "to_ascii_lower ch =
     (let n = of_char ch :: nat in if 65 \<le> n \<and> n \<le> 90 then char_of (n + 32) else ch)"

definition eq_ignore_ascii_case :: "string \<Rightarrow> string \<Rightarrow> bool" where
  "eq_ignore_ascii_case a b \<longleftrightarrow> map to_ascii_lower a = map to_ascii_lower b"

definition lookup_json_query_param :: "(string \<times> json_tree) list \<Rightarrow> string \<Rightarrow> json_tree option" where
  "lookup_json_query_param params identifier =
     (case map_of params identifier of
        Some v \<Rightarrow> Some v
      | None \<Rightarrow> map_option snd (find (\<lambda>(key, _). eq_ignore_ascii_case key identifier) params))"

definition param_value ::
  "(string \<times> json_tree) list \<Rightarrow> part \<Rightarrow> unit \<Rightarrow> (error, json_tree) result \<times> unit" where
  "param_value params p s =
     (bind_result (ok_or (part_identifier (part_value_type p))
         (spanner_error ''Invalid KeyRecipe part: missing parameter identifier'')) (\<lambda>identifier.
      bind_result (ok_or (lookup_json_query_param params identifier)
         (spanner_error (''Missing query parameter '' @ quoted identifier @ '' required by key recipe'')))
       (\<lambda>v. resolve_struct_field_json v (part_struct_identifiers p))), s)"

definition encode_key_from_json_query_params_into ::
  "key_codecs \<Rightarrow> (nat \<Rightarrow> int) \<Rightarrow> key_recipe \<Rightarrow> (string \<times> json_tree) list \<Rightarrow> enc" where
  "encode_key_from_json_query_params_into c rng recipe params =
     encode_key_from_parts_internal c rng recipe (param_value params) (encode_json_part c) ()"

fun position :: "('a \<Rightarrow> bool) \<Rightarrow> 'a list \<Rightarrow> nat option" where
  "position f [] = None"
| "position f (x # xs) = (if f x then Some 0 else map_option Suc (position f xs))"

definition column_value ::
  "('v \<Rightarrow> int list \<Rightarrow> (error, 'v) result) \<Rightarrow> string list \<Rightarrow> 'v list \<Rightarrow> part \<Rightarrow> unit \<Rightarrow>
   (error, 'v) result \<times> unit" where
  "column_value resolve columns values p s =
     (bind_result (ok_or (part_identifier (part_value_type p))
         (spanner_error ''Invalid KeyRecipe part: missing column identifier'')) (\<lambda>identifier.
      bind_result (ok_or (position (\<lambda>column. eq_ignore_ascii_case column identifier) columns)
         (spanner_error (''Missing key column '' @ quoted identifier @ '' in mutation columns''))) (\<lambda>i.
      bind_result (ok_or (if i < length values then Some (values ! i) else None)
         (spanner_error (''Missing value at column index '' @ dec i @ '' for key column '' @ quoted identifier)))
       (\<lambda>v. resolve v (part_struct_identifiers p)))), s)"

definition encode_key_from_columns_and_values_into ::
  "key_codecs \<Rightarrow> (nat \<Rightarrow> int) \<Rightarrow> key_recipe \<Rightarrow> string list \<Rightarrow> spanner_value list \<Rightarrow> enc" where
  "encode_key_from_columns_and_values_into c rng recipe columns values =
     encode_key_from_parts_internal c rng recipe (column_value resolve_struct_field columns values)
       (encode_part c) ()"

definition encode_key_from_json_columns_and_values_into ::
  "key_codecs \<Rightarrow> (nat \<Rightarrow> int) \<Rightarrow> key_recipe \<Rightarrow> string list \<Rightarrow> json_tree list \<Rightarrow> enc" where
  "encode_key_from_json_columns_and_values_into c rng recipe columns values =
     encode_key_from_parts_internal c rng recipe (column_value resolve_struct_field_json columns values)
       (encode_json_part c) ()"

section \<open>What encoders do to the buffer\<close>

text \<open>An encoder appends bytes that do not depend on what is in the buffer.\<close>

definition appends :: "enc \<Rightarrow> bool" where
  "appends m \<longleftrightarrow> (\<exists>r bs. \<forall>buffer. m buffer = (r, buffer @ bs))"

lemma appends_put [simp, intro]: "appends (put bs)"
  by (auto simp: appends_def put_def)

lemma appends_fails [simp, intro]: "appends (fails e)"
  unfolding appends_def fails_def by (metis append_Nil2)

lemma appends_and_then [intro]: "appends m \<Longrightarrow> appends k \<Longrightarrow> appends (and_then m k)"
  unfolding appends_def and_then_def
  by (elim exE, rename_tac r bs r' bs') (case_tac r; auto)

lemma appends_try [intro]: "(\<And>a. r = Ok a \<Longrightarrow> appends (k a)) \<Longrightarrow> appends (try_enc r k)"
  by (cases r) (auto simp: try_enc_def)

lemma appends_null [simp, intro]: "appends (encode_null_part nulls d)"
  by (cases nulls) (simp_all add: append_null_ordered_def)

lemma appends_marker [simp, intro]: "appends (encode_not_null_marker nulls d)"
  by (cases nulls) (simp_all add: append_not_null_marker_ordered_def)

lemmas ordered_defs = append_int64_ordered_def append_bytes_ordered_def append_string_ordered_def
  append_double_ordered_def append_bool_ordered_def

lemmas typed_part_defs = encode_bool_part_def encode_int64_part_def encode_float64_part_def
  encode_string_part_def encode_bytes_part_def encode_date_part_def encode_timestamp_part_def
  encode_uuid_part_def unsupported_type_def

lemmas json_part_defs = encode_json_bool_part_def encode_json_int64_part_def encode_json_float64_part_def
  encode_json_string_part_def encode_json_bytes_part_def encode_json_date_part_def
  encode_json_timestamp_part_def encode_json_uuid_part_def unsupported_type_def

lemma appends_encode_part: "appends (encode_part c p v)"
proof -
  have "appends (encode_bool_part v d)" "appends (encode_int64_part v d)" "appends (encode_float64_part v d)"
    "appends (encode_string_part v d)" "appends (encode_bytes_part c v d)" "appends (encode_date_part c v d)"
    "appends (encode_timestamp_part c v d)" "appends (encode_uuid_part v d)" "appends (unsupported_type t)" for d t
    by (auto simp: typed_part_defs ordered_defs split: option.splits)
  then show ?thesis
    unfolding encode_part_def Let_def by (intro appends_try) (auto split: type_code.splits)
qed

lemma appends_encode_json_part: "appends (encode_json_part c p v)"
proof -
  have "appends (encode_json_bool_part v d)" "appends (encode_json_int64_part v d)"
    "appends (encode_json_float64_part v d)" "appends (encode_json_string_part v d)"
    "appends (encode_json_bytes_part c v d)" "appends (encode_json_date_part c v d)"
    "appends (encode_json_timestamp_part c v d)" "appends (encode_json_uuid_part v d)"
    "appends (unsupported_type t)" for d t
    by (auto simp: json_part_defs ordered_defs)
  then show ?thesis
    unfolding encode_json_part_def Let_def by (intro appends_try) (auto split: type_code.splits)
qed

lemma appends_preamble: "encode_recipe_part_preamble c r p = Some m \<Longrightarrow> appends m"
  by (auto simp: encode_recipe_part_preamble_def encode_random_part_def append_int64_ordered_def
      appends_encode_json_part split: if_splits option.splits)

text \<open>The interface of the trait of values, as the core loop relies on it.\<close>

locale recipe_value =
  fixes encode_into :: "part \<Rightarrow> 'v \<Rightarrow> enc"
  assumes appends_into: "appends (encode_into p v)"
begin

lemma encode_parts_appends:
  "\<exists>r bs. \<forall>k buffer. k \<le> length buffer \<longrightarrow>
     encode_parts c rng res encode_into k ps s n buffer =
       (case r of Ok _ \<Rightarrow> (r, buffer @ bs) | Err _ \<Rightarrow> (r, take k buffer))"
proof (induction ps arbitrary: s n)
  case Nil
  show ?case by (intro exI [of _ "Ok ()"] exI [of _ "[]"]) simp
next
  case (Cons p ps)
  have step: ?case if m: "appends m"
    and eq: "\<And>k buffer. encode_parts c rng res encode_into k (p # ps) s n buffer =
      (case m buffer of (Ok _, b) \<Rightarrow> encode_parts c rng res encode_into k ps s' (Suc n) b
       | (Err e, b) \<Rightarrow> (Err e, take k b))" for m s'
  proof -
    from m obtain r bs where m': "\<And>buffer. m buffer = (r, buffer @ bs)" by (auto simp: appends_def)
    show ?thesis
    proof (cases r)
      case (Err e)
      then show ?thesis using m' eq by (intro exI [of _ "Err e"]) simp
    next
      case (Ok u)
      obtain r' bs' where IH: "\<And>k buffer. k \<le> length buffer \<Longrightarrow>
          encode_parts c rng res encode_into k ps s' (Suc n) buffer =
            (case r' of Ok _ \<Rightarrow> (r', buffer @ bs') | Err _ \<Rightarrow> (r', take k buffer))"
        using Cons.IH [of s' "Suc n"] by blast
      show ?thesis
        using m' eq Ok IH by (intro exI [of _ r'] exI [of _ "bs @ bs'"]) (auto split: result.splits)
    qed
  qed
  show ?case
  proof (cases "encode_recipe_part_preamble c (rng n) p")
    case (Some m)
    show ?thesis by (rule step [OF appends_preamble [OF Some]]) (simp add: Some)
  next
    case None
    obtain r s' where r: "res p s = (r, s')" by fastforce
    show ?thesis
    proof (cases r)
      case (Err e)
      then show ?thesis using None r by (intro exI [of _ "Err e"]) simp
    next
      case (Ok v)
      show ?thesis by (rule step [OF appends_into [of p v], of s']) (simp add: None r Ok)
    qed
  qed
qed

lemma encode_key_appends:
  "\<exists>r key. \<forall>buffer. encode_key_from_parts_internal c rng recipe res encode_into s buffer =
     (r, if is_ok r then buffer @ key else buffer)"
proof (cases "validate_recipe_structure recipe")
  case (Err e)
  then show ?thesis by (intro exI [of _ "Err e"]) (simp add: encode_key_from_parts_internal_def)
next
  case (Ok u)
  obtain r bs where "\<And>k buffer. k \<le> length buffer \<Longrightarrow>
     encode_parts c rng res encode_into k recipe s 0 buffer =
       (case r of Ok _ \<Rightarrow> (r, buffer @ bs) | Err _ \<Rightarrow> (r, take k buffer))"
    using encode_parts_appends [of c rng res recipe s 0] by blast
  with Ok show ?thesis
    by (intro exI [of _ r] exI [of _ bs])
      (simp add: encode_key_from_parts_internal_def split: result.splits)
qed

end

interpretation typed: recipe_value "encode_part c"
  by unfold_locales (rule appends_encode_part)

interpretation json: recipe_value "encode_json_part c"
  by unfold_locales (rule appends_encode_json_part)
section \<open>The order of rows and the order of keys\<close>

text \<open>What a column value stands for, and how such values compare.\<close>

datatype key_value =
    KBool bool | KInt int | KFloat f64 | KBytes "u8 list" | KTime int int | KUuid u64 u64

fun key_less :: "key_value \<Rightarrow> key_value \<Rightarrow> bool" where
  "key_less (KBool a) (KBool b) \<longleftrightarrow> \<not> a \<and> b"
| "key_less (KInt a) (KInt b) \<longleftrightarrow> a < b"
| "key_less (KFloat a) (KFloat b) \<longleftrightarrow> double_rank a < double_rank b"
| "key_less (KBytes a) (KBytes b) \<longleftrightarrow> ord_class.lexordp a b"
| "key_less (KTime s n) (KTime s' n') \<longleftrightarrow> s < s' \<or> s = s' \<and> n < n'"
| "key_less (KUuid h l) (KUuid h' l') \<longleftrightarrow> h < h' \<or> h = h' \<and> l < l'"
| "key_less _ _ \<longleftrightarrow> False"

fun key_wf :: "key_value \<Rightarrow> bool" where
  "key_wf (KInt i) \<longleftrightarrow> is_i64 i"
| "key_wf (KTime s n) \<longleftrightarrow> is_i64 s \<and> 0 \<le> n \<and> n < 2 ^ 31"
| "key_wf _ \<longleftrightarrow> True"

fun key_code :: "bool \<Rightarrow> key_value \<Rightarrow> u8 list" where
  "key_code d (KBool b) = (if d then append_bool_decreasing b else append_bool_increasing b)"
| "key_code d (KInt i) = (if d then append_int64_decreasing i else append_int64_increasing i)"
| "key_code d (KFloat f) = (if d then append_double_decreasing f else append_double_increasing f)"
| "key_code d (KBytes bs) = (if d then append_bytes_decreasing bs else append_bytes_increasing bs)"
| "key_code d (KTime s n) = (if d then append_bytes_decreasing (encode_timestamp s n)
     else append_bytes_increasing (encode_timestamp s n))"
| "key_code d (KUuid h l) = (if d then append_bytes_decreasing (encode_uuid h l)
     else append_bytes_increasing (encode_uuid h l))"

lemma key_code_before:
  assumes "key_wf a" "key_wf b" "key_less a b"
  shows "before (key_code False a) (key_code False b) \<and> before (key_code True b) (key_code True a)"
  using assms
  by (cases a; cases b)
    (auto intro: int64_inc.code_before int64_dec.code_before bool_inc.code_before bool_dec.code_before
      double_inc.code_before double_dec.code_before bytes_inc.code_before bytes_dec.code_before
      before_less timestamp_before [simplified] uuid_before)

interpretation key_inc: ordered_code "\<lambda>a b. key_wf a \<and> key_wf b \<and> key_less a b" "key_code False"
  by unfold_locales (simp add: key_code_before)

interpretation key_dec: ordered_code "\<lambda>a b. key_wf a \<and> key_wf b \<and> key_less b a" "key_code True"
  by unfold_locales (simp add: key_code_before)

text \<open>The documented ranges of the parsers' results.\<close>

definition codec_ranges :: "key_codecs \<Rightarrow> bool" where
  "codec_ranges c \<longleftrightarrow>
     (\<forall>s day. kc_julian_day c s = Ok day \<longrightarrow> is_i64 (day - UNIX_EPOCH_JULIAN_DAY)) \<and>
     (\<forall>s t n. kc_rfc3339 c s = Ok (t, n) \<longrightarrow> is_i64 t \<and> 0 \<le> n \<and> n < 2 ^ 31)"

definition result_opt :: "('e, 'a) result \<Rightarrow> 'a option" where
  "result_opt r = (case r of Ok a \<Rightarrow> Some a | Err _ \<Rightarrow> None)"

lemma result_opt_Some: "result_opt r = Some a \<longleftrightarrow> r = Ok a"
  by (cases r) (simp_all add: result_opt_def)

fun typed_key :: "key_codecs \<Rightarrow> type_code \<Rightarrow> spanner_value \<Rightarrow> key_value option" where
  "typed_key c TcBool v = map_option KBool (as_bool v)"
| "typed_key c TcInt64 v = Option.bind (as_str v) (\<lambda>s. map_option KInt (result_opt (parse_i64 s)))"
| "typed_key c TcEnum v = Option.bind (as_str v) (\<lambda>s. map_option KInt (result_opt (parse_i64 s)))"
| "typed_key c TcFloat64 v =
     (case as_str v of
        Some s \<Rightarrow> map_option KFloat (result_opt (parse_special_float s))
      | None \<Rightarrow> map_option KFloat (as_f64 v))"
| "typed_key c TcString v = map_option (\<lambda>s. KBytes (as_bytes s)) (as_str v)"
| "typed_key c TcBytes v = Option.bind (as_str v) (\<lambda>s. map_option KBytes (result_opt (decode_base64 c s)))"
| "typed_key c TcDate v = Option.bind (as_str v) (\<lambda>s. map_option KInt (result_opt (parse_date_days c s)))"
| "typed_key c TcTimestamp v =
     Option.bind (as_str v) (\<lambda>s. map_option (\<lambda>(t, n). KTime t n) (result_opt (kc_rfc3339 c s)))"
| "typed_key c TcUuid v =
     Option.bind (as_str v) (\<lambda>s. map_option (\<lambda>(h, l). KUuid h l) (result_opt (parse_uuid s)))"
| "typed_key c _ v = None"

lemma parse_i64_digits_range: "is_i64 acc \<Longrightarrow> parse_i64_digits neg acc s = Ok v \<Longrightarrow> is_i64 v"
  by (induction neg acc s rule: parse_i64_digits.induct) (auto simp: Let_def split: if_splits)

lemma parse_i64_range: "parse_i64 s = Ok v \<Longrightarrow> is_i64 v"
proof -
  have "is_i64 0" by (simp add: is_i64_def)
  then show "parse_i64 s = Ok v \<Longrightarrow> is_i64 v"
    using parse_i64_digits_range by (auto simp: parse_i64_def split: if_splits)
qed

lemma typed_key_wf: "codec_ranges c \<Longrightarrow> typed_key c code v = Some k \<Longrightarrow> key_wf k"
  by (cases code)
    (auto simp: result_opt_Some codec_ranges_def parse_date_days_def bind_eq_Some_conv case_result_eq
      dest: parse_i64_range split: option.splits)

definition part_nulls_last :: "part \<Rightarrow> bool" where
  "part_nulls_last p =
     (case part_null_order p of NullsLast \<Rightarrow> True | NullUnspecified \<Rightarrow> is_descending p | _ \<Rightarrow> False)"

definition null_code :: "part \<Rightarrow> u8 list" where
  "null_code p = (if part_nulls_last p then append_null_ordered_last else append_null_ordered_first)"

definition marker_code :: "part \<Rightarrow> u8 list" where
  "marker_code p =
     (if part_null_order p = NotNull then []
      else if part_nulls_last p then append_not_null_marker_null_ordered_last
      else append_not_null_marker_null_ordered_first)"

lemma encode_null_part_Ok:
  "encode_null_part (part_null_order p) (is_descending p) buffer = (Ok u, b) \<Longrightarrow>
     b = buffer @ null_code p \<and> part_null_order p \<noteq> NotNull"
  by (cases "part_null_order p")
    (auto simp: append_null_ordered_def put_def fails_def null_code_def part_nulls_last_def)

lemma encode_not_null_marker_eq:
  "encode_not_null_marker (part_null_order p) (is_descending p) = put (marker_code p)"
  by (cases "part_null_order p")
    (auto simp: append_not_null_marker_ordered_def marker_code_def part_nulls_last_def)

lemma try_enc_Ok: "try_enc r k buffer = (Ok u, b) \<Longrightarrow> \<exists>a. r = Ok a \<and> k a buffer = (Ok u, b)"
  by (cases r) (auto simp: try_enc_def fails_def)

lemma encode_part_Ok:
  assumes "encode_part c p v buffer = (Ok u, b)"
  obtains code where "check_supported_key_type p = Ok code"
    "v = VNull \<and> b = buffer @ null_code p \<and> part_null_order p \<noteq> NotNull \<or>
     v \<noteq> VNull \<and> (\<exists>k. typed_key c code v = Some k \<and>
       b = buffer @ marker_code p @ key_code (is_descending p) k)"
proof -
  from try_enc_Ok [OF assms [unfolded encode_part_def Let_def]] obtain code where
    code: "check_supported_key_type p = Ok code"
    and run: "(if v = VNull then encode_null_part (part_null_order p) (is_descending p)
      else and_then (put (marker_code p)) (case code of
               TcBool \<Rightarrow> encode_bool_part v (is_descending p)
             | TcInt64 \<Rightarrow> encode_int64_part v (is_descending p)
             | TcEnum \<Rightarrow> encode_int64_part v (is_descending p)
             | TcFloat64 \<Rightarrow> encode_float64_part v (is_descending p)
             | TcString \<Rightarrow> encode_string_part v (is_descending p)
             | TcBytes \<Rightarrow> encode_bytes_part c v (is_descending p)
             | TcDate \<Rightarrow> encode_date_part c v (is_descending p)
             | TcTimestamp \<Rightarrow> encode_timestamp_part c v (is_descending p)
             | TcUuid \<Rightarrow> encode_uuid_part v (is_descending p)
             | other \<Rightarrow> unsupported_type other)) buffer = (Ok u, b)"
    unfolding encode_not_null_marker_eq by auto
  show thesis
  proof (cases "v = VNull")
    case True
    with run encode_null_part_Ok code show thesis by (intro that [of code]) auto
  next
    case False
    with run have "\<exists>k. typed_key c code v = Some k \<and> b = (buffer @ marker_code p) @ key_code (is_descending p) k"
      by (cases code)
        (auto simp: and_then_def put_def typed_part_defs ordered_defs ok_or_def int64_from_str_def
          result_opt_def parse_timestamp_bytes_def parse_uuid_bytes_def bind_result_def fails_def
          append_string_increasing_def append_string_decreasing_def append_bytes_increasing_def
          append_bytes_decreasing_def
          split: option.splits result.splits dest!: try_enc_Ok)
    with False code show thesis by (intro that [of code]) auto
  qed
qed

definition value_part :: "part \<Rightarrow> bool" where
  "value_part p \<longleftrightarrow> part_tag p = 0 \<and> part_random (part_value_type p) \<noteq> Some True \<and>
     part_constant (part_value_type p) = None"

lemma preamble_None: "encode_recipe_part_preamble c r p = None \<longleftrightarrow> value_part p"
  by (auto simp: encode_recipe_part_preamble_def value_part_def split: option.splits)

text \<open>How a key column orders its values.\<close>

definition column_less :: "key_codecs \<Rightarrow> part \<Rightarrow> spanner_value \<Rightarrow> spanner_value \<Rightarrow> bool" where
  "column_less c p v w \<longleftrightarrow>
     v = VNull \<and> w \<noteq> VNull \<and> \<not> part_nulls_last p \<or>
     v \<noteq> VNull \<and> w = VNull \<and> part_nulls_last p \<or>
     v \<noteq> VNull \<and> w \<noteq> VNull \<and>
       (\<exists>code a b. part_type p = Some code \<and> typed_key c code v = Some a \<and> typed_key c code w = Some b \<and>
          (if is_descending p then key_less b a else key_less a b))"

lemma encode_part_before:
  assumes "codec_ranges c" and "column_less c p v w"
    and v: "encode_part c p v buffer = (Ok u, buffer @ a)" and w: "encode_part c p w buffer = (Ok u', buffer @ b)"
  shows "before a b"
proof -
  have null: "before (null_code p) (marker_code p @ s)" if "\<not> part_nulls_last p" "part_null_order p \<noteq> NotNull" for s
    using that null_markers_before(1) [of "[]" s] by (simp add: null_code_def marker_code_def)
  have last: "before (marker_code p @ s) (null_code p)" if "part_nulls_last p" "part_null_order p \<noteq> NotNull" for s
    using that null_markers_before(2) [of s "[]"] by (simp add: null_code_def marker_code_def)
  from v obtain code where code: "check_supported_key_type p = Ok code" and
    a: "v = VNull \<and> a = null_code p \<and> part_null_order p \<noteq> NotNull \<or>
     v \<noteq> VNull \<and> (\<exists>k. typed_key c code v = Some k \<and> a = marker_code p @ key_code (is_descending p) k)"
    by (rule encode_part_Ok) auto
  from w code have
    b: "w = VNull \<and> b = null_code p \<and> part_null_order p \<noteq> NotNull \<or>
     w \<noteq> VNull \<and> (\<exists>k. typed_key c code w = Some k \<and> b = marker_code p @ key_code (is_descending p) k)"
    by (elim encode_part_Ok) auto
  have type: "part_type p = Some code"
    using code by (auto simp: check_supported_key_type_def split: option.splits if_splits)
  show ?thesis
  proof (cases "v = VNull \<or> w = VNull")
    case True
    with assms(2) a b null last show ?thesis by (auto simp: column_less_def)
  next
    case False
    then obtain x y where x: "typed_key c code v = Some x" "a = marker_code p @ key_code (is_descending p) x"
      and y: "typed_key c code w = Some y" "b = marker_code p @ key_code (is_descending p) y"
      using a b by auto
    have "if is_descending p then key_less y x else key_less x y"
      using assms(2) False type x y by (auto simp: column_less_def)
    with typed_key_wf [OF assms(1)] x y show ?thesis
      using key_inc.code_before key_dec.code_before by (cases "is_descending p") auto
  qed
qed

lemma encode_parts_prefix:
  assumes "encode_parts c rng next_value (encode_part c) k ps vs n buffer = (Ok u, b)" "k \<le> length buffer"
  shows "\<exists>s. b = buffer @ s"
proof -
  obtain r bs where "\<And>k buffer. k \<le> length buffer \<Longrightarrow>
      encode_parts c rng next_value (encode_part c) k ps vs n buffer =
        (case r of Ok _ \<Rightarrow> (r, buffer @ bs) | Err _ \<Rightarrow> (r, take k buffer))"
    using typed.encode_parts_appends by metis
  with assms show ?thesis by (auto split: result.splits)
qed

lemma appends_prefix: "appends m \<Longrightarrow> m buffer = (r, b) \<Longrightarrow> \<exists>bs. b = buffer @ bs"
  by (auto simp: appends_def)

lemma encode_parts_before:
  assumes "codec_ranges c" and "column_less c p v w"
  shows "encode_parts c rng next_value (encode_part c) k ps (xs @ v # ys) n buffer = (Ok u, buffer @ a) \<Longrightarrow>
    encode_parts c rng next_value (encode_part c) k ps (xs @ w # zs) n buffer = (Ok u', buffer @ b) \<Longrightarrow>
    k \<le> length buffer \<Longrightarrow> length xs < length (filter value_part ps) \<Longrightarrow>
    filter value_part ps ! length xs = p \<Longrightarrow> before a b"
proof (induction ps arbitrary: xs n buffer a b)
  case (Cons q ps)
  show ?case
  proof (cases "encode_recipe_part_preamble c (rng n) q")
    case (Some m)
    then have "\<not> value_part q" using preamble_None [of c "rng n" q] by simp
    obtain bs where bs: "m buffer = (Ok (), buffer @ bs)"
      using Cons.prems(1) Some appends_preamble [OF Some] by (fastforce simp: appends_def split: result.splits)
    obtain a' b' where "a = bs @ a'" "b = bs @ b'"
      using Cons.prems(1-3) Some bs encode_parts_prefix [of c rng k ps _ "Suc n" "buffer @ bs"] by fastforce
    with Cons.IH [of xs "Suc n" "buffer @ bs" a' b'] Cons.prems Some bs \<open>\<not> value_part q\<close> show ?thesis by simp
  next
    case None
    then have q: "value_part q" using preamble_None by blast
    show ?thesis
    proof (cases xs)
      case Nil
      obtain bv rv where v: "encode_part c q v buffer = (Ok rv, buffer @ bv)"
        using Cons.prems(1) None Nil appends_encode_part [of c q v] by (fastforce simp: appends_def split: result.splits)
      obtain bw rw where w: "encode_part c q w buffer = (Ok rw, buffer @ bw)"
        using Cons.prems(2) None Nil appends_encode_part [of c q w] by (fastforce simp: appends_def split: result.splits)
      obtain a' b' where "a = bv @ a'" "b = bw @ b'"
        using Cons.prems(1-3) None Nil v w encode_parts_prefix [of c rng k ps _ "Suc n"] by fastforce
      moreover have "before bv bw"
        using encode_part_before [OF assms(1) _ v w] assms(2) Cons.prems(5) q Nil by simp
      ultimately show ?thesis by (simp add: before_append)
    next
      case (Cons x xs')
      obtain bx rx where x: "encode_part c q x buffer = (Ok rx, buffer @ bx)"
        using Cons.prems(1) None Cons appends_encode_part [of c q x] by (fastforce simp: appends_def split: result.splits)
      obtain a' b' where "a = bx @ a'" "b = bx @ b'"
        using Cons.prems(1-3) None Cons x encode_parts_prefix [of c rng k ps _ "Suc n" "buffer @ bx"] by fastforce
      with Cons.IH [of xs' "Suc n" "buffer @ bx" a' b'] Cons.prems None Cons x q show ?thesis by simp
    qed
  qed
qed simp
section \<open>JSON values\<close>

fun json_of :: "spanner_value \<Rightarrow> json_tree" where
  "json_of VNull = JsonNull"
| "json_of (VNumber f) = JsonNumber None (Some f)"
| "json_of (VString s) = JsonString s"
| "json_of (VBool b) = JsonBool b"
| "json_of (VList l) = JsonArray (map json_of l)"
| "json_of VUnknown = JsonObject"

text \<open>Two encoders agree if they succeed together and leave the same buffer; messages may differ.\<close>

definition agree :: "enc \<Rightarrow> enc \<Rightarrow> bool" where
  "agree m m' \<longleftrightarrow> (\<forall>buffer. is_ok (fst (m buffer)) = is_ok (fst (m' buffer)) \<and> snd (m buffer) = snd (m' buffer))"

lemma agree_refl [simp]: "agree m m"
  by (simp add: agree_def)

lemma agree_fails [simp]: "agree (fails e) (fails e')"
  by (simp add: agree_def fails_def)

lemma agree_and_then: "agree k k' \<Longrightarrow> agree (and_then m k) (and_then m k')"
  by (auto simp: agree_def and_then_def split: prod.splits result.splits)

lemma json_of_sel [simp]:
  "json_as_str (json_of v) = as_str v" "json_as_bool (json_of v) = as_bool v"
  "json_as_i64 (json_of v) = None" "json_as_f64 (json_of v) = as_f64 v"
  "json_of v = JsonNull \<longleftrightarrow> v = VNull"
  by (cases v; simp)+

lemma encode_part_agree: "agree (encode_part c p v) (encode_json_part c p (json_of v))"
proof -
  have "agree (encode_bool_part v d) (encode_json_bool_part (json_of v) d)"
    "agree (encode_int64_part v d) (encode_json_int64_part (json_of v) d)"
    "agree (encode_float64_part v d) (encode_json_float64_part (json_of v) d)"
    "agree (encode_string_part v d) (encode_json_string_part (json_of v) d)"
    "agree (encode_bytes_part c v d) (encode_json_bytes_part c (json_of v) d)"
    "agree (encode_date_part c v d) (encode_json_date_part c (json_of v) d)"
    "agree (encode_timestamp_part c v d) (encode_json_timestamp_part c (json_of v) d)"
    "agree (encode_uuid_part v d) (encode_json_uuid_part (json_of v) d)" for d
    by (auto simp: typed_part_defs json_part_defs json_int64_def json_float64_def try_enc_def ok_or_def
        encode_json_parsed_string_def bind_result_def split: option.splits)
  then show ?thesis
    unfolding encode_part_def encode_json_part_def Let_def
    by (cases "check_supported_key_type p")
      (auto simp: try_enc_def intro!: agree_and_then split: type_code.splits)
qed

lemma encode_parts_agree:
  "agree (encode_parts c rng next_value (encode_part c) k ps vs n)
     (encode_parts c rng next_value (encode_json_part c) k ps (map json_of vs) n)"
proof (induction ps arbitrary: vs n)
  case (Cons p ps)
  note IH = Cons.IH [unfolded agree_def, rule_format]
  show ?case
  proof (cases "encode_recipe_part_preamble c (rng n) p")
    case (Some m)
    then show ?thesis using IH by (auto simp: agree_def split: prod.splits result.splits)
  next
    case None
    show ?thesis
    proof (cases vs)
      case Nil
      with None show ?thesis by (simp add: agree_def)
    next
      case (Cons v vs')
      have "is_ok (fst (encode_part c p v b)) = is_ok (fst (encode_json_part c p (json_of v) b))"
        "snd (encode_part c p v b) = snd (encode_json_part c p (json_of v) b)" for b
        using encode_part_agree [of c p v] by (simp_all add: agree_def)
      with None Cons IH [of vs' "Suc n"] show ?thesis
        unfolding agree_def
        by (auto split: prod.splits result.splits) (metis fst_conv snd_conv is_ok.simps)+
    qed
  qed
qed (simp add: agree_def)

section \<open>Properties\<close>

text \<open>Codecs for the examples: the dates and timestamps are already numbers.\<close>

definition plain_codecs :: key_codecs where
  "plain_codecs =
     \<lparr>kc_julian_day = (\<lambda>s. if s = ''1970-01-02'' then Ok 2440589 else Err ''bad date''),
      kc_rfc3339 = (\<lambda>s. if s = ''1970-01-01T00:00:01Z'' then Ok (1, 0) else Err ''bad time''),
      kc_base64_slice = (\<lambda>s. None), kc_base64 = (\<lambda>s. Err ''bad base64'')\<rparr>"

definition tag_part :: "u32 \<Rightarrow> part" where
  "tag_part t = \<lparr>part_tag = t, part_order = OrderUnspecified, part_null_order = NullUnspecified,
     part_type = None, part_struct_identifiers = [], part_value_type = None\<rparr>"

definition column_part :: "type_code \<Rightarrow> part_order \<Rightarrow> part" where
  "column_part code ord = \<lparr>part_tag = 0, part_order = ord, part_null_order = NullsFirst,
     part_type = Some code, part_struct_identifiers = [], part_value_type = Some (Identifier ''col'')\<rparr>"

definition sample_recipe :: key_recipe where
  "sample_recipe = [tag_part 50, column_part TcString Ascending, tag_part 3, column_part TcInt64 Descending]"

lemmas recipe_eval = encode_key_from_recipe_into_def encode_key_from_parts_internal_def
  validate_recipe_structure_def sample_recipe_def tag_part_def column_part_def encode_recipe_part_preamble_def
  append_composite_tag_def try_enc_def put_def encode_part_def check_supported_key_type_def is_descending_def
  and_then_def append_not_null_marker_ordered_def append_null_ordered_def encode_string_part_def
  encode_int64_part_def int64_from_str_def parse_i64_def is_ascii_digit_def ordered_defs
  ok_or_def is_i64_def fails_def key_constants word_less_nat_alt

text \<open>
  C34. Routing keys sort like the rows they belong to. Take two rows of key values for the same recipe
  that agree up to some column, where the first row comes before the second in the order of that column:
  ascending or descending, nulls first or last, the values compared by their type. If both encode, the
  key of the first is smaller as a byte vector, whatever the other columns hold and whatever follows.
\<close>

theorem routing_keys_ordered:
  assumes "codec_ranges c"
    and "encode_key_from_recipe_into c rng recipe (xs @ v # ys) [] = (Ok (), key1)"
    and "encode_key_from_recipe_into c rng recipe (xs @ w # zs) [] = (Ok (), key2)"
    and "length xs < length (filter value_part recipe)"
    and "column_less c (filter value_part recipe ! length xs) v w"
  shows "ord_class.lexordp (key1 @ s) (key2 @ t)"
proof -
  have "encode_parts c rng next_value (encode_part c) 0 recipe (xs @ v # ys) 0 [] = (Ok (), [] @ key1)"
    "encode_parts c rng next_value (encode_part c) 0 recipe (xs @ w # zs) 0 [] = (Ok (), [] @ key2)"
    using assms(2, 3)
    by (auto simp: encode_key_from_recipe_into_def encode_key_from_parts_internal_def split: result.splits)
  from encode_parts_before [OF assms(1, 5) this _ assms(4) refl] have "before key1 key2" by simp
  then show ?thesis by (intro before_less before_append)
qed

theorem routing_keys_ordered_witness:
  "\<exists>key1 key2. encode_key_from_recipe_into plain_codecs (\<lambda>_. 0) sample_recipe ([VString ''a''] @ VString ''7'' # []) [] = (Ok (), key1) \<and>
     encode_key_from_recipe_into plain_codecs (\<lambda>_. 0) sample_recipe ([VString ''a''] @ VString ''-300'' # []) [] = (Ok (), key2) \<and>
     ord_class.lexordp (key1 @ []) (key2 @ [])"
proof -
  have laws: "codec_ranges plain_codecs"
    by (auto simp: codec_ranges_def plain_codecs_def UNIX_EPOCH_JULIAN_DAY_def is_i64_def split: if_splits)
  have "\<exists>key1. encode_key_from_recipe_into plain_codecs (\<lambda>_. 0) sample_recipe ([VString ''a''] @ VString ''7'' # []) [] = (Ok (), key1)"
    by (simp add: recipe_eval)
  then obtain key1 where k1: "encode_key_from_recipe_into plain_codecs (\<lambda>_. 0) sample_recipe ([VString ''a''] @ VString ''7'' # []) [] = (Ok (), key1)" ..
  have "\<exists>key2. encode_key_from_recipe_into plain_codecs (\<lambda>_. 0) sample_recipe ([VString ''a''] @ VString ''-300'' # []) [] = (Ok (), key2)"
    by (simp add: recipe_eval)
  then obtain key2 where k2: "encode_key_from_recipe_into plain_codecs (\<lambda>_. 0) sample_recipe ([VString ''a''] @ VString ''-300'' # []) [] = (Ok (), key2)" ..
  have "length [VString ''a''] < length (filter value_part sample_recipe)"
    "column_less plain_codecs (filter value_part sample_recipe ! length [VString ''a'']) (VString ''7'') (VString ''-300'')"
    by (simp_all add: sample_recipe_def tag_part_def column_part_def value_part_def column_less_def
        is_descending_def parse_i64_def is_ascii_digit_def is_i64_def result_opt_def)
  from routing_keys_ordered [OF laws k1 k2 this] k1 k2 show ?thesis by blast
qed

text \<open>
  C35. Encoding a key is all or nothing. Whatever the recipe and the values, an encoder either succeeds
  and appends a key that does not depend on what the buffer held, or fails and leaves the buffer as it
  was; typed values, JSON values, query parameters and mutation columns alike.
\<close>

theorem recipe_encoding_atomic:
  "(\<exists>r key. \<forall>buffer. encode_key_from_recipe_into c rng recipe values buffer =
     (r, if is_ok r then buffer @ key else buffer)) \<and>
   (\<exists>r key. \<forall>buffer. encode_key_from_json_recipe_into c rng recipe jsons buffer =
     (r, if is_ok r then buffer @ key else buffer)) \<and>
   (\<exists>r key. \<forall>buffer. encode_key_from_json_query_params_into c rng recipe params buffer =
     (r, if is_ok r then buffer @ key else buffer)) \<and>
   (\<exists>r key. \<forall>buffer. encode_key_from_columns_and_values_into c rng recipe columns values buffer =
     (r, if is_ok r then buffer @ key else buffer)) \<and>
   (\<exists>r key. \<forall>buffer. encode_key_from_json_columns_and_values_into c rng recipe columns jsons buffer =
     (r, if is_ok r then buffer @ key else buffer))"
  unfolding encode_key_from_recipe_into_def encode_key_from_json_recipe_into_def
    encode_key_from_json_query_params_into_def encode_key_from_columns_and_values_into_def
    encode_key_from_json_columns_and_values_into_def
  by (intro conjI typed.encode_key_appends json.encode_key_appends)

text \<open>
  The encoder of typed values and the one of JSON values compute the same keys: on a row and its
  JSON form they succeed together and leave the same bytes in the buffer.
\<close>

theorem json_keys_agree:
  "is_ok (fst (encode_key_from_recipe_into c rng recipe values buffer)) =
     is_ok (fst (encode_key_from_json_recipe_into c rng recipe (map json_of values) buffer)) \<and>
   snd (encode_key_from_recipe_into c rng recipe values buffer) =
     snd (encode_key_from_json_recipe_into c rng recipe (map json_of values) buffer)"
  using encode_parts_agree [of c rng "length buffer" recipe "values" 0]
  by (auto simp: encode_key_from_recipe_into_def encode_key_from_json_recipe_into_def
      encode_key_from_parts_internal_def agree_def split: result.splits)

end
