(* ===== verification/Spanner_Ranges.thy ===== *)
theory Spanner_Ranges
  imports Prelude "HOL-Library.List_Lexorder" "HOL-Library.AList" "HOL-Library.Multiset"
begin

text \<open>
  The key range cache of the Spanner client, \<open>spanner/src/routing/key_range_cache.rs\<close>: which
  group of replicas serves a routing key.

  A \<open>BTreeMap\<close> from start keys to ranges is the list of its ranges in the order of their keys (the
  key of an entry is always its start key). \<open>BTreeMap::range\<close> panics if its bounds are reversed.
  An empty limit key stands for no limit. The locks are left out: the state is locked by each
  operation as a whole. The random choice is the parameter \<open>pick\<close>, which gets the number of ranges
  to choose from.
\<close>

section \<open>Replica groups\<close>

type_synonym bytes = "u8 list"

record tablet =
  tb_tablet_uid :: u64
  tb_server_address :: string
  tb_location :: string
  tb_role :: int
  tb_incarnation :: bytes
  tb_distance :: u32
  tb_skip :: bool

record group =
  gr_group_uid :: u64
  gr_tablets :: "tablet list"
  gr_leader_index :: int
  gr_generation :: bytes

record cached_group =
  cg_group_uid :: u64
  cg_generation :: bytes
  cg_tablets :: "tablet list"
  cg_leader_index :: "nat option"
  cg_local_leader_index :: "nat option"
  cg_eligible_replica_indices :: "nat list"

definition MAX_LOCAL_REPLICA_DISTANCE :: u32 where "MAX_LOCAL_REPLICA_DISTANCE = 5"

definition parse_leader_index :: "int \<Rightarrow> nat \<Rightarrow> nat option" where
  "parse_leader_index leader_index tablets_count =
     (if leader_index < 0 then None
      else let index = nat leader_index in if tablets_count \<le> index then None else Some index)"

definition is_routable :: "tablet \<Rightarrow> bool" where
  "is_routable t \<longleftrightarrow> \<not> tb_skip t \<and> tb_server_address t \<noteq> []"

definition is_local_distance :: "u32 \<Rightarrow> bool" where
  "is_local_distance distance \<longleftrightarrow> distance \<le> MAX_LOCAL_REPLICA_DISTANCE"

definition compute_local_leader_index :: "tablet list \<Rightarrow> nat option \<Rightarrow> nat option" where
  "compute_local_leader_index tablets leader_index =
     (case leader_index of
        None \<Rightarrow> None
      | Some index \<Rightarrow>
          (let candidate = tablets ! index
           in if \<not> is_routable candidate \<or> \<not> is_local_distance (tb_distance candidate) then None
              else Some index))"

definition collect_minimum_distance_index :: "nat list \<times> u32 \<Rightarrow> nat \<Rightarrow> u32 \<Rightarrow> nat list \<times> u32" where
  "collect_minimum_distance_index cm index distance =
     (case cm of (candidates, minimum_distance) \<Rightarrow>
        if distance < minimum_distance then ([index], distance)
        else if distance = minimum_distance then (candidates @ [index], minimum_distance)
        else (candidates, minimum_distance))"

fun eligible_loop :: "tablet list \<Rightarrow> nat \<Rightarrow> nat list \<times> u32 \<Rightarrow> bool \<Rightarrow> nat list" where
  "eligible_loop [] index cm local_tier_active = fst cm"
| "eligible_loop (t # ts) index cm local_tier_active =
     (if \<not> is_routable t then eligible_loop ts (Suc index) cm local_tier_active
      else
        let is_local = is_local_distance (tb_distance t);
            switch = is_local \<and> \<not> local_tier_active;
            cm = (if switch then ([], - 1) else cm);
            local_tier_active = (local_tier_active \<or> switch)
        in if \<not> is_local \<and> local_tier_active then eligible_loop ts (Suc index) cm local_tier_active
           else eligible_loop ts (Suc index) (collect_minimum_distance_index cm index (tb_distance t))
                  local_tier_active)"

definition compute_eligible_replica_indices :: "tablet list \<Rightarrow> nat list" where
  "compute_eligible_replica_indices tablets = eligible_loop tablets 0 ([], - 1) False"

definition group_from_proto :: "group \<Rightarrow> cached_group" where
  "group_from_proto proto =
     (let leader_index = parse_leader_index (gr_leader_index proto) (length (gr_tablets proto))
      in \<lparr>cg_group_uid = gr_group_uid proto, cg_generation = gr_generation proto,
          cg_tablets = gr_tablets proto, cg_leader_index = leader_index,
          cg_local_leader_index = compute_local_leader_index (gr_tablets proto) leader_index,
          cg_eligible_replica_indices = compute_eligible_replica_indices (gr_tablets proto)\<rparr>)"

definition should_update_from :: "cached_group \<Rightarrow> group \<Rightarrow> bool" where
  "should_update_from self proto \<longleftrightarrow>
     cg_generation self < gr_generation proto \<or>
     gr_generation proto = cg_generation self \<and>
       (parse_leader_index (gr_leader_index proto) (length (gr_tablets proto)) \<noteq> cg_leader_index self \<or>
        gr_tablets proto \<noteq> cg_tablets self)"

section \<open>Ranges\<close>

record range_in =
  ri_start :: bytes
  ri_limit :: bytes
  ri_group :: u64
  ri_split :: u64
  ri_generation :: bytes

record cached_range =
  cr_start :: bytes
  cr_limit :: bytes
  cr_group :: u64
  cr_split :: u64
  cr_generation :: bytes
  cr_last_access :: u64

record group_entry =
  ge_group :: "cached_group option"
  ge_references :: nat

record key_cache =
  kr_ranges :: "cached_range list"
  kr_groups :: "(u64 \<times> group_entry) list"
  kr_access_counter :: u64
  kr_min_entries :: nat

definition key_cache_new :: key_cache where
  "key_cache_new = \<lparr>kr_ranges = [], kr_groups = [], kr_access_counter = 0, kr_min_entries = 1000\<rparr>"

definition cache_clear :: "key_cache \<Rightarrow> key_cache" where
  "cache_clear c = c\<lparr>kr_ranges := [], kr_groups := []\<rparr>"

text \<open>The operations of the map.\<close>

definition bt_insert :: "cached_range \<Rightarrow> cached_range list \<Rightarrow> cached_range list" where
  "bt_insert r m = filter (\<lambda>x. cr_start x < cr_start r) m @ r # filter (\<lambda>x. cr_start r < cr_start x) m"

definition bt_remove :: "bytes \<Rightarrow> cached_range list \<Rightarrow> cached_range list" where
  "bt_remove k m = filter (\<lambda>x. cr_start x \<noteq> k) m"

definition bt_last_upto :: "bytes \<Rightarrow> cached_range list \<Rightarrow> cached_range option" where
  "bt_last_upto k m =
     (case filter (\<lambda>x. cr_start x \<le> k) m of [] \<Rightarrow> None | xs \<Rightarrow> Some (last xs))"

definition bt_range :: "bytes \<Rightarrow> bytes option \<Rightarrow> cached_range list \<Rightarrow> cached_range list run" where
  "bt_range lo hi m =
     (if is_some_and (\<lambda>h. h < lo) hi then Panic
      else Ret (filter (\<lambda>x. lo \<le> cr_start x \<and> (case hi of None \<Rightarrow> True | Some h \<Rightarrow> cr_start x < h)) m))"

definition increment_group_references :: "u64 \<Rightarrow> key_cache \<Rightarrow> key_cache" where
  "increment_group_references g c =
     (let e = (case map_of (kr_groups c) g of
                 Some e \<Rightarrow> e | None \<Rightarrow> \<lparr>ge_group = None, ge_references = 0\<rparr>)
      in c\<lparr>kr_groups := AList.update g (e\<lparr>ge_references := ge_references e + 1\<rparr>) (kr_groups c)\<rparr>)"

definition decrement_group_references :: "u64 \<Rightarrow> key_cache \<Rightarrow> bool \<times> key_cache" where
  "decrement_group_references g c =
     (case map_of (kr_groups c) g of
        None \<Rightarrow> (False, c)
      | Some e \<Rightarrow>
          (let e' = e\<lparr>ge_references := ge_references e - 1\<rparr>
           in (ge_references e' = 0, c\<lparr>kr_groups := AList.update g e' (kr_groups c)\<rparr>)))"

definition remove_if_unreferenced :: "u64 \<Rightarrow> key_cache \<Rightarrow> bool \<times> key_cache" where
  "remove_if_unreferenced g c =
     (case map_of (kr_groups c) g of
        Some e \<Rightarrow>
          (if ge_references e = 0
           then (ge_group e \<noteq> None, c\<lparr>kr_groups := AList.delete g (kr_groups c)\<rparr>) else (False, c))
      | None \<Rightarrow> (False, c))"

definition access_time_now :: "key_cache \<Rightarrow> u64 \<times> key_cache" where
  "access_time_now c = (kr_access_counter c + 1, c\<lparr>kr_access_counter := kr_access_counter c + 1\<rparr>)"

definition insert_cached :: "cached_range \<Rightarrow> key_cache \<Rightarrow> key_cache" where
  "insert_cached r c =
     (increment_group_references (cr_group r) c)\<lparr>kr_ranges := bt_insert r (kr_ranges c)\<rparr>"

definition insert_new_range :: "range_in \<Rightarrow> key_cache \<Rightarrow> key_cache" where
  "insert_new_range ri c =
     (case access_time_now c of
        (now, c') \<Rightarrow> insert_cached \<lparr>cr_start = ri_start ri, cr_limit = ri_limit ri, cr_group = ri_group ri,
          cr_split = ri_split ri, cr_generation = ri_generation ri, cr_last_access = now\<rparr> c')"

definition start_key_query :: "range_in \<Rightarrow> cached_range list \<Rightarrow> bytes" where
  "start_key_query ri m =
     (case bt_last_upto (ri_start ri) m of
        Some first \<Rightarrow>
          (if cr_limit first = [] \<or> ri_start ri < cr_limit first then cr_start first else ri_start ri)
      | None \<Rightarrow> ri_start ri)"

definition overlaps :: "range_in \<Rightarrow> cached_range \<Rightarrow> bool" where
  "overlaps ri x \<longleftrightarrow> cr_limit x = [] \<or> ri_start ri < cr_limit x"

definition stale :: "range_in \<Rightarrow> cached_range \<Rightarrow> bool" where
  "stale ri x \<longleftrightarrow> ri_generation ri < cr_generation x \<or>
     ri_generation ri = cr_generation x \<and> ri_start ri = cr_start x \<and> ri_limit ri = cr_limit x"

text \<open>The first pass over the overlapping ranges: \<open>None\<close> if the update is stale, otherwise whether
  there is an overlap.\<close>

fun scan_overlaps :: "range_in \<Rightarrow> cached_range list \<Rightarrow> bool \<Rightarrow> bool option" where
  "scan_overlaps ri [] has_overlap = Some has_overlap"
| "scan_overlaps ri (x # xs) has_overlap =
     (if \<not> overlaps ri x then scan_overlaps ri xs has_overlap
      else if stale ri x then None else scan_overlaps ri xs True)"

definition drop_references :: "cached_range list \<Rightarrow> key_cache \<times> u64 list \<Rightarrow> key_cache \<times> u64 list" where
  "drop_references xs s =
     foldl (\<lambda>(c, unref) x. case decrement_group_references (cr_group x) c of
        (zero, c') \<Rightarrow> (c', if zero then unref @ [cr_group x] else unref)) s xs"

definition replace_overlapping :: "range_in \<Rightarrow> cached_range list \<Rightarrow> key_cache \<Rightarrow> key_cache" where
  "replace_overlapping ri overlapping c =
     (let c1 = c\<lparr>kr_ranges := foldl (\<lambda>m x. bt_remove (cr_start x) m) (kr_ranges c) overlapping\<rparr>;
          first = hd overlapping;
          c2 = (if cr_start first < ri_start ri then insert_cached (first\<lparr>cr_limit := ri_start ri\<rparr>) c1 else c1);
          last = last overlapping;
          c3 = (if ri_limit ri \<noteq> [] \<and> (cr_limit last = [] \<or> ri_limit ri < cr_limit last)
                then insert_cached (last\<lparr>cr_start := ri_limit ri\<rparr>) c2 else c2)
      in insert_new_range ri c3)"

definition replace_range_if_newer :: "range_in \<Rightarrow> key_cache \<times> u64 list \<Rightarrow> (key_cache \<times> u64 list) run" where
  "replace_range_if_newer ri s =
     (case s of (c, unref) \<Rightarrow>
        if ri_limit ri \<noteq> [] \<and> ri_limit ri \<le> ri_start ri then Ret s
        else
          let lo = start_key_query ri (kr_ranges c);
              hi = (if ri_limit ri = [] then None else Some (ri_limit ri))
          in bind_run (bt_range lo hi (kr_ranges c)) (\<lambda>xs.
               case scan_overlaps ri xs False of
                 None \<Rightarrow> Ret s
               | Some False \<Rightarrow> Ret (insert_new_range ri c, unref)
               | Some True \<Rightarrow>
                   bind_run (bt_range lo hi (kr_ranges c)) (\<lambda>ys.
                     let overlapping = filter (overlaps ri) ys
                     in Ret (drop_references overlapping (replace_overlapping ri overlapping c, unref)))))"

fun replace_ranges :: "range_in list \<Rightarrow> key_cache \<times> u64 list \<Rightarrow> (key_cache \<times> u64 list) run" where
  "replace_ranges [] s = Ret s"
| "replace_ranges (ri # ris) s = bind_run (replace_range_if_newer ri s) (replace_ranges ris)"

definition remove_unreferenced :: "u64 list \<Rightarrow> bool \<times> key_cache \<Rightarrow> bool \<times> key_cache" where
  "remove_unreferenced unref s =
     foldl (\<lambda>(changed, c) g. case remove_if_unreferenced g c of (b, c') \<Rightarrow> (changed \<or> b, c')) s unref"

definition update_group :: "group \<Rightarrow> bool \<times> key_cache \<Rightarrow> bool \<times> key_cache" where
  "update_group g s =
     (case s of (changed, c) \<Rightarrow>
        case map_of (kr_groups c) (gr_group_uid g) of
          None \<Rightarrow> s
        | Some e \<Rightarrow>
            (if (case ge_group e of None \<Rightarrow> True | Some existing \<Rightarrow> should_update_from existing g)
             then (True, c\<lparr>kr_groups := AList.update (gr_group_uid g)
                     (e\<lparr>ge_group := Some (group_from_proto g)\<rparr>) (kr_groups c)\<rparr>)
             else s))"

definition add_ranges :: "range_in list \<Rightarrow> group list \<Rightarrow> key_cache \<Rightarrow> (bool \<times> key_cache) run" where
  "add_ranges ranges groups c =
     (if groups = [] \<and> ranges = [] then Ret (False, c)
      else bind_run (replace_ranges ranges (c, [])) (\<lambda>(c', unref).
        Ret (foldl (\<lambda>s g. update_group g s) (remove_unreferenced unref (False, c')) groups)))"

section \<open>Lookups\<close>

definition get_group :: "u64 \<Rightarrow> key_cache \<Rightarrow> cached_group option" where
  "get_group g c = Option.bind (map_of (kr_groups c) g) ge_group"

definition active_addresses :: "key_cache \<Rightarrow> string set" where
  "active_addresses c =
     set (filter (\<lambda>a. a \<noteq> []) (map tb_server_address (concat (map cg_tablets
       (List.map_filter (ge_group \<circ> snd) (kr_groups c))))))"

datatype range_mode = CoveringSplit | PickRandom

text \<open>Storing the time of access in the entry.\<close>

definition touch :: "cached_range \<Rightarrow> key_cache \<Rightarrow> cached_range option \<times> key_cache" where
  "touch r c =
     (case access_time_now c of
        (now, c') \<Rightarrow>
          (Some (r\<lparr>cr_last_access := now\<rparr>),
           c'\<lparr>kr_ranges := map (\<lambda>x. if cr_start x = cr_start r then x\<lparr>cr_last_access := now\<rparr> else x)
             (kr_ranges c)\<rparr>))"

record scan_state =
  sc_total :: nat
  sc_found_gap :: bool
  sc_sampled :: "cached_range option"
  sc_last_limit :: bytes

fun pick_loop :: "(nat \<Rightarrow> nat) \<Rightarrow> nat \<Rightarrow> bytes \<Rightarrow> cached_range list \<Rightarrow> scan_state \<Rightarrow> scan_state" where
  "pick_loop pick min_entries limit [] s = s"
| "pick_loop pick min_entries limit (x # xs) s =
     (if limit \<le> cr_start x then s
      else
        let total = sc_total s + 1;
            s' = \<lparr>sc_total = total,
                  sc_found_gap = (sc_found_gap s \<or> sc_last_limit s \<noteq> cr_start x),
                  sc_sampled = (if total = 1 \<or> pick total = 0 then Some x else sc_sampled s),
                  sc_last_limit = cr_limit x\<rparr>
        in if cr_limit x = [] \<or> limit \<le> cr_limit x \<or> min_entries \<le> total then s'
           else pick_loop pick min_entries limit xs s')"

definition covers_key :: "cached_range \<Rightarrow> bytes \<Rightarrow> bool" where
  "covers_key r k \<longleftrightarrow> cr_limit r = [] \<or> k < cr_limit r"

definition pick_start :: "bytes \<Rightarrow> cached_range option \<Rightarrow> cached_range list \<Rightarrow> scan_state \<times> cached_range list" where
  "pick_start key first m =
     (case first of
        Some r \<Rightarrow>
          (if covers_key r key
           then (\<lparr>sc_total = 1, sc_found_gap = False, sc_sampled = Some r, sc_last_limit = cr_limit r\<rparr>,
                 filter (\<lambda>x. cr_start r < cr_start x) m)
           else (\<lparr>sc_total = 0, sc_found_gap = True, sc_sampled = None, sc_last_limit = key\<rparr>,
                 filter (\<lambda>x. cr_start r < cr_start x) m))
      | None \<Rightarrow>
          (\<lparr>sc_total = 0, sc_found_gap = True, sc_sampled = None, sc_last_limit = key\<rparr>,
           filter (\<lambda>x. key \<le> cr_start x) m))"

definition find_random ::
  "(nat \<Rightarrow> nat) \<Rightarrow> bytes \<Rightarrow> bytes \<Rightarrow> cached_range option \<Rightarrow> key_cache \<Rightarrow> cached_range option \<times> key_cache" where
  "find_random pick key limit first c =
     (case pick_start key first (kr_ranges c) of
        (s0, xs) \<Rightarrow>
          let s = pick_loop pick (kr_min_entries c) limit xs s0;
              found_gap = (sc_found_gap s \<or> sc_last_limit s \<noteq> [] \<and> sc_last_limit s < limit)
          in case sc_sampled s of
               Some r \<Rightarrow> (if \<not> found_gap \<or> kr_min_entries c \<le> sc_total s then touch r c else (None, c))
             | None \<Rightarrow> (None, c))"

definition find_range ::
  "(nat \<Rightarrow> nat) \<Rightarrow> bytes \<Rightarrow> bytes \<Rightarrow> range_mode \<Rightarrow> key_cache \<Rightarrow> cached_range option \<times> key_cache" where
  "find_range pick key limit mode c =
     (let first = bt_last_upto key (kr_ranges c);
          rest = (if limit = [] \<or> mode = CoveringSplit then (None, c) else find_random pick key limit first c)
      in case first of
           None \<Rightarrow> rest
         | Some r \<Rightarrow>
             (if limit = [] then (if covers_key r key then touch r c else (None, c))
              else if covers_key r key \<and> (cr_limit r = [] \<or> limit \<le> cr_limit r) then touch r c
              else rest))"

section \<open>The ranges are disjoint\<close>

definition covers :: "cached_range \<Rightarrow> bytes \<Rightarrow> bool" where
  "covers r k \<longleftrightarrow> cr_start r \<le> k \<and> covers_key r k"

definition valid_range :: "cached_range \<Rightarrow> bool" where
  "valid_range r \<longleftrightarrow> covers_key r (cr_start r)"

definition before :: "cached_range \<Rightarrow> cached_range \<Rightarrow> bool" where
  "before a b \<longleftrightarrow> cr_limit a \<noteq> [] \<and> cr_limit a \<le> cr_start b"

definition ranges_sorted :: "cached_range list \<Rightarrow> bool" where
  "ranges_sorted m \<longleftrightarrow> sorted_wrt (\<lambda>a b. cr_start a < cr_start b) m"

definition ranges_apart :: "cached_range set \<Rightarrow> bool" where
  "ranges_apart S \<longleftrightarrow> (\<forall>a\<in>S. valid_range a) \<and> (\<forall>a\<in>S. \<forall>b\<in>S. cr_start a < cr_start b \<longrightarrow> before a b)"

definition ranges_wf :: "cached_range list \<Rightarrow> bool" where
  "ranges_wf m \<longleftrightarrow> ranges_sorted m \<and> ranges_apart (set m)"

text \<open>What the cache says of a key: the group, the split and the generation of its range.\<close>

definition route :: "cached_range list \<Rightarrow> bytes \<Rightarrow> (u64 \<times> u64 \<times> bytes) option" where
  "route m k = map_option (\<lambda>r. (cr_group r, cr_split r, cr_generation r)) (find (\<lambda>r. covers r k) m)"

definition malformed :: "range_in \<Rightarrow> bool" where
  "malformed ri \<longleftrightarrow> ri_limit ri \<noteq> [] \<and> ri_limit ri \<le> ri_start ri"

definition in_update :: "range_in \<Rightarrow> bytes \<Rightarrow> bool" where
  "in_update ri k \<longleftrightarrow> ri_start ri \<le> k \<and> (ri_limit ri = [] \<or> k < ri_limit ri)"

text \<open>A range shares a key with the update.\<close>

definition meets :: "range_in \<Rightarrow> cached_range \<Rightarrow> bool" where
  "meets ri x \<longleftrightarrow> overlaps ri x \<and> (ri_limit ri = [] \<or> cr_start x < ri_limit ri)"

lemma same_start_same_range:
  assumes "ranges_sorted m" "a \<in> set m" "b \<in> set m" "cr_start a = cr_start b"
  shows "a = b"
  using assms by (induction m) (auto simp: ranges_sorted_def)

lemma covers_unique:
  assumes wf: "ranges_wf m" and ab: "a \<in> set m" "b \<in> set m" and k: "covers a k" "covers b k"
  shows "a = b"
proof (rule ccontr)
  assume "a \<noteq> b"
  then have "cr_start a < cr_start b \<or> cr_start b < cr_start a"
    using same_start_same_range [of m a b] wf ab less_linear [of "cr_start a" "cr_start b"]
    by (auto simp: ranges_wf_def)
  then show False using wf ab k
    by (fastforce simp: ranges_wf_def ranges_apart_def before_def covers_def covers_key_def)
qed

lemma find_covers_iff:
  assumes wf: "ranges_wf m"
  shows "find (\<lambda>r. covers r k) m = Some r \<longleftrightarrow> r \<in> set m \<and> covers r k"
proof
  assume "find (\<lambda>r. covers r k) m = Some r"
  then show "r \<in> set m \<and> covers r k" by (auto simp: find_Some_iff)
next
  assume r: "r \<in> set m \<and> covers r k"
  then obtain x where x: "find (\<lambda>r. covers r k) m = Some x"
    by (cases "find (\<lambda>r. covers r k) m") (auto simp: find_None_iff)
  then have "x \<in> set m" "covers x k" by (auto simp: find_Some_iff)
  with covers_unique [OF wf] r have "x = r" by blast
  with x show "find (\<lambda>r. covers r k) m = Some r" by simp
qed

lemma route_covered:
  "ranges_wf m \<Longrightarrow> r \<in> set m \<Longrightarrow> covers r k \<Longrightarrow> route m k = Some (cr_group r, cr_split r, cr_generation r)"
  by (simp add: route_def find_covers_iff [THEN iffD2])

lemma route_uncovered: "route m k = None \<longleftrightarrow> (\<forall>r\<in>set m. \<not> covers r k)"
  by (auto simp: route_def find_None_iff)

lemma routeE:
  assumes "route m k = Some v"
  obtains r where "r \<in> set m" "covers r k" "v = (cr_group r, cr_split r, cr_generation r)"
  using assms by (auto simp: route_def find_Some_iff intro: nth_mem)

lemma route_eqI:
  assumes "ranges_wf m" "ranges_wf m'"
    and "\<And>r. r \<in> set m \<Longrightarrow> covers r k \<Longrightarrow>
           \<exists>r'\<in>set m'. covers r' k \<and> cr_group r' = cr_group r \<and> cr_split r' = cr_split r \<and>
             cr_generation r' = cr_generation r"
    and "\<And>r. r \<in> set m' \<Longrightarrow> covers r k \<Longrightarrow> \<exists>r'\<in>set m. covers r' k"
  shows "route m' k = route m k"
proof (cases "route m k")
  case None
  then have "route m' k = None" using assms(4) by (auto simp: route_uncovered)
  with None show ?thesis by simp
next
  case (Some v)
  then obtain r where r: "r \<in> set m" "covers r k" "v = (cr_group r, cr_split r, cr_generation r)"
    by (rule routeE)
  from assms(3) [OF r(1,2)] obtain r' where "r' \<in> set m'" "covers r' k" "cr_group r' = cr_group r"
    "cr_split r' = cr_split r" "cr_generation r' = cr_generation r" by blast
  with route_covered [OF assms(2)] have "route m' k = Some v" using r(3) by simp
  with Some show ?thesis by simp
qed


section \<open>Finding the overlapping ranges\<close>

lemma ranges_sorted_filter: "ranges_sorted m \<Longrightarrow> ranges_sorted (filter P m)"
  by (simp add: ranges_sorted_def sorted_wrt_filter)

lemma ranges_apart_mono: "ranges_apart S \<Longrightarrow> T \<subseteq> S \<Longrightarrow> ranges_apart T"
  unfolding ranges_apart_def by blast

lemma sorted_hd_le:
  "ranges_sorted m \<Longrightarrow> x \<in> set m \<Longrightarrow> cr_start (hd m) \<le> cr_start x"
  by (cases m) (auto simp: ranges_sorted_def)

lemma sorted_le_last:
  "ranges_sorted m \<Longrightarrow> x \<in> set m \<Longrightarrow> cr_start x \<le> cr_start (last m)"
  by (induction m rule: rev_induct) (auto simp: ranges_sorted_def sorted_wrt_append)

lemma bt_last_upto_None: "bt_last_upto k m = None \<longleftrightarrow> (\<forall>x\<in>set m. k < cr_start x)"
  by (auto simp: bt_last_upto_def filter_empty_conv not_le split: list.splits)
    (metis list.distinct(1) filter_empty_conv not_le)

lemma bt_last_upto_Some:
  assumes "ranges_sorted m" "bt_last_upto k m = Some f"
  shows "f \<in> set m" "cr_start f \<le> k" "\<And>x. x \<in> set m \<Longrightarrow> cr_start x \<le> k \<Longrightarrow> cr_start x \<le> cr_start f"
proof -
  let ?xs = "filter (\<lambda>x. cr_start x \<le> k) m"
  have f: "?xs \<noteq> []" "f = last ?xs" using assms(2) by (auto simp: bt_last_upto_def split: list.splits)
  have "f \<in> set ?xs" unfolding f(2) by (rule last_in_set [OF f(1)])
  then show "f \<in> set m" "cr_start f \<le> k" by auto
  show "cr_start x \<le> cr_start f" if "x \<in> set m" "cr_start x \<le> k" for x
    using sorted_le_last [OF ranges_sorted_filter [OF assms(1)], of x "\<lambda>x. cr_start x \<le> k"] that f(2) by simp
qed

lemma start_key_query_le:
  "ranges_sorted m \<Longrightarrow> start_key_query ri m \<le> ri_start ri"
  by (auto simp: start_key_query_def dest: bt_last_upto_Some split: option.splits)

lemma overlaps_from_query:
  assumes wf: "ranges_wf m" and x: "x \<in> set m" "overlaps ri x"
  shows "start_key_query ri m \<le> cr_start x"
proof (cases "cr_start x \<le> ri_start ri")
  case False
  with start_key_query_le [of m ri] wf show ?thesis by (auto simp: ranges_wf_def)
next
  case True
  have srt: "ranges_sorted m" using wf by (simp add: ranges_wf_def)
  obtain f where f: "bt_last_upto (ri_start ri) m = Some f"
    using True x(1) bt_last_upto_None [of "ri_start ri" m] by (cases "bt_last_upto (ri_start ri) m") (auto simp: not_less)
  note ff = bt_last_upto_Some [OF srt f]
  have "\<not> cr_start x < cr_start f"
  proof
    assume "cr_start x < cr_start f"
    then have "before x f" using wf x(1) ff(1) by (simp add: ranges_wf_def ranges_apart_def)
    with ff(2) x(2) show False by (auto simp: before_def overlaps_def)
  qed
  then have "f = x" using ff(3) [OF x(1) True] same_start_same_range [OF srt ff(1) x(1)] by auto
  then show ?thesis using f x(2) by (auto simp: start_key_query_def overlaps_def)
qed

definition update_bound :: "range_in \<Rightarrow> bytes option" where
  "update_bound ri = (if ri_limit ri = [] then None else Some (ri_limit ri))"

lemma bt_range_returns:
  assumes "ranges_sorted m" "\<not> malformed ri"
  shows "bt_range (start_key_query ri m) (update_bound ri) m =
    Ret (filter (\<lambda>x. start_key_query ri m \<le> cr_start x \<and> (ri_limit ri = [] \<or> cr_start x < ri_limit ri)) m)"
  using start_key_query_le [OF assms(1), of ri] assms(2)
  by (auto simp: bt_range_def update_bound_def malformed_def is_some_and_def intro!: filter_cong)

lemma filter_overlaps_meets:
  assumes "ranges_wf m"
  shows "filter (overlaps ri) (filter (\<lambda>x. start_key_query ri m \<le> cr_start x \<and>
      (ri_limit ri = [] \<or> cr_start x < ri_limit ri)) m) = filter (meets ri) m"
  using overlaps_from_query [OF assms] by (auto simp: meets_def intro!: filter_cong)

lemma scan_overlaps_iff:
  "scan_overlaps ri xs b =
     (if \<exists>x\<in>set xs. overlaps ri x \<and> stale ri x then None else Some (b \<or> (\<exists>x\<in>set xs. overlaps ri x)))"
  by (induction xs arbitrary: b) auto

text \<open>The update as one function of the ranges it meets.\<close>

lemma replace_range_if_newer_eq:
  assumes wf: "ranges_wf (kr_ranges c)"
  shows "replace_range_if_newer ri (c, unref) =
    Ret (if malformed ri \<or> (\<exists>x\<in>set (kr_ranges c). meets ri x \<and> stale ri x) then (c, unref)
         else let ov = filter (meets ri) (kr_ranges c)
              in if ov = [] then (insert_new_range ri c, unref)
                 else drop_references ov (replace_overlapping ri ov c, unref))"
proof (cases "malformed ri")
  case True then show ?thesis by (simp add: replace_range_if_newer_def malformed_def)
next
  case False
  let ?xs = "filter (\<lambda>x. start_key_query ri (kr_ranges c) \<le> cr_start x \<and>
      (ri_limit ri = [] \<or> cr_start x < ri_limit ri)) (kr_ranges c)"
  have ov: "filter (overlaps ri) ?xs = filter (meets ri) (kr_ranges c)"
    by (rule filter_overlaps_meets [OF wf])
  have ex: "(\<exists>x\<in>set ?xs. overlaps ri x \<and> Q x) \<longleftrightarrow> (\<exists>x\<in>set (kr_ranges c). meets ri x \<and> Q x)" for Q
    using overlaps_from_query [OF wf, of _ ri] by (auto simp: meets_def)
  have ex1: "(\<exists>x\<in>set ?xs. overlaps ri x) \<longleftrightarrow> filter (meets ri) (kr_ranges c) \<noteq> []"
    using ex [of "\<lambda>x. True"] by (simp add: filter_empty_conv)
  have srt: "ranges_sorted (kr_ranges c)" using wf by (simp add: ranges_wf_def)
  have "replace_range_if_newer ri (c, unref) =
    (case scan_overlaps ri ?xs False of
                 None \<Rightarrow> Ret (c, unref)
               | Some False \<Rightarrow> Ret (insert_new_range ri c, unref)
               | Some True \<Rightarrow> Ret (drop_references (filter (overlaps ri) ?xs)
                      (replace_overlapping ri (filter (overlaps ri) ?xs) c, unref)))"
    unfolding replace_range_if_newer_def prod.case Let_def update_bound_def [symmetric]
      bt_range_returns [OF srt False]
    using False by (auto simp: malformed_def split: option.splits bool.splits)
  then show ?thesis
    unfolding scan_overlaps_iff ex ex1 ov using False by (auto simp: Let_def)
qed


section \<open>Replacing the overlapping ranges\<close>

definition new_range :: "range_in \<Rightarrow> key_cache \<Rightarrow> cached_range" where
  "new_range ri c = \<lparr>cr_start = ri_start ri, cr_limit = ri_limit ri, cr_group = ri_group ri,
     cr_split = ri_split ri, cr_generation = ri_generation ri, cr_last_access = kr_access_counter c + 1\<rparr>"

definition head_piece :: "range_in \<Rightarrow> cached_range \<Rightarrow> cached_range list" where
  "head_piece ri a = (if cr_start a < ri_start ri then [a\<lparr>cr_limit := ri_start ri\<rparr>] else [])"

definition tail_piece :: "range_in \<Rightarrow> cached_range \<Rightarrow> cached_range list" where
  "tail_piece ri z = (if ri_limit ri \<noteq> [] \<and> (cr_limit z = [] \<or> ri_limit ri < cr_limit z)
     then [z\<lparr>cr_start := ri_limit ri\<rparr>] else [])"

lemma insert_cached_ranges [simp]: "kr_ranges (insert_cached r c) = bt_insert r (kr_ranges c)"
  by (simp add: insert_cached_def)

lemma insert_cached_counter [simp]: "kr_access_counter (insert_cached r c) = kr_access_counter c"
  by (simp add: insert_cached_def increment_group_references_def Let_def)

lemma insert_new_range_eq:
  "insert_new_range ri c = insert_cached (new_range ri c) (snd (access_time_now c))"
  by (simp add: insert_new_range_def access_time_now_def new_range_def)

lemma access_time_now_ranges [simp]: "kr_ranges (snd (access_time_now c)) = kr_ranges c"
  by (simp add: access_time_now_def)

lemma decrement_ranges [simp]: "kr_ranges (snd (decrement_group_references g c)) = kr_ranges c"
  by (auto simp: decrement_group_references_def Let_def split: option.splits)

lemma drop_references_Cons:
  "drop_references (x # xs) (c, unref) =
     drop_references xs (snd (decrement_group_references (cr_group x) c),
       if fst (decrement_group_references (cr_group x) c) then unref @ [cr_group x] else unref)"
  by (simp add: drop_references_def split_beta)

lemma drop_references_ranges [simp]: "kr_ranges (fst (drop_references xs s)) = kr_ranges (fst s)"
proof (induction xs arbitrary: s)
  case Nil then show ?case by (simp add: drop_references_def)
next
  case (Cons x xs) then show ?case by (cases s) (simp add: drop_references_Cons)
qed

lemma foldl_bt_remove:
  "foldl (\<lambda>m x. bt_remove (cr_start x) m) m ov = filter (\<lambda>x. cr_start x \<notin> cr_start ` set ov) m"
  by (induction ov arbitrary: m) (auto simp: bt_remove_def intro!: filter_cong)

lemma bt_remove_meeting:
  assumes "ranges_sorted m"
  shows "foldl (\<lambda>m x. bt_remove (cr_start x) m) m (filter P m) = filter (\<lambda>x. \<not> P x) m"
  unfolding foldl_bt_remove using same_start_same_range [OF assms] by (auto intro!: filter_cong)

lemma bt_insert_apart:
  assumes wf: "ranges_wf m" and r: "valid_range r" and ap: "\<And>x. x \<in> set m \<Longrightarrow> before x r \<or> before r x"
  shows "ranges_wf (bt_insert r m)" "mset (bt_insert r m) = add_mset r (mset m)"
proof -
  have v: "valid_range x" if "x \<in> set m" for x using wf that by (simp add: ranges_wf_def ranges_apart_def)
  have ne: "cr_start x < cr_start r \<longleftrightarrow> before x r" "cr_start r < cr_start x \<longleftrightarrow> before r x"
    "cr_start x \<noteq> cr_start r" if "x \<in> set m" for x
    using v [OF that] r ap [OF that] by (auto simp: valid_range_def covers_key_def before_def)
  have "filter (\<lambda>x. cr_start r < cr_start x) m = filter (\<lambda>x. \<not> cr_start x < cr_start r) m"
    by (intro filter_cong refl) (metis ne(3) less_linear less_asym)
  then show ms: "mset (bt_insert r m) = add_mset r (mset m)" by (simp add: bt_insert_def)
  have "ranges_sorted (bt_insert r m)" using wf
    by (auto simp: bt_insert_def ranges_wf_def ranges_sorted_def sorted_wrt_append sorted_wrt_filter)
  moreover have "set (bt_insert r m) = insert r (set m)" using arg_cong [OF ms, of set_mset] by simp
  moreover have "ranges_apart (insert r (set m))"
    using wf r ne by (auto simp: ranges_wf_def ranges_apart_def)
  ultimately show "ranges_wf (bt_insert r m)" by (simp add: ranges_wf_def)
qed

lemma bt_insert_set:
  "mset (bt_insert r m) = add_mset r (mset m) \<Longrightarrow> set (bt_insert r m) = insert r (set m)"
  by (metis set_mset_add_mset_insert set_mset_mset)


text \<open>The ranges that do not meet the update stay, and the pieces of the first and of the last range
  that stick out of it.\<close>

lemma replace_overlapping_ranges:
  "ranges_sorted (kr_ranges c) \<Longrightarrow> ov = filter (meets ri) (kr_ranges c) \<Longrightarrow>
   \<exists>n. kr_ranges (replace_overlapping ri ov c) =
     bt_insert (new_range ri n) (foldr bt_insert (tail_piece ri (last ov))
       (foldr bt_insert (head_piece ri (hd ov)) (filter (\<lambda>x. \<not> meets ri x) (kr_ranges c))))"
  by (simp add: replace_overlapping_def Let_def insert_new_range_eq head_piece_def tail_piece_def
      bt_remove_meeting) blast

lemma meeting_ends:
  assumes wf: "ranges_wf m" and ov: "ov = filter (meets ri) m" "ov \<noteq> []"
  shows "hd ov \<in> set m" "last ov \<in> set m" "meets ri (hd ov)" "meets ri (last ov)"
    "\<And>x. x \<in> set m \<Longrightarrow> meets ri x \<Longrightarrow> cr_start (hd ov) \<le> cr_start x \<and> cr_start x \<le> cr_start (last ov)"
proof -
  have srt: "ranges_sorted ov" using wf ov(1) by (simp add: ranges_wf_def ranges_sorted_filter)
  have "hd ov \<in> set ov" "last ov \<in> set ov" using ov(2) by simp_all
  then show "hd ov \<in> set m" "last ov \<in> set m" "meets ri (hd ov)" "meets ri (last ov)"
    using ov(1) by auto
  show "cr_start (hd ov) \<le> cr_start x \<and> cr_start x \<le> cr_start (last ov)" if "x \<in> set m" "meets ri x" for x
    using sorted_hd_le [OF srt, of x] sorted_le_last [OF srt, of x] that ov(1) by simp
qed

lemma before_or_after:
  assumes "ranges_wf m" "a \<in> set m" "b \<in> set m" "a \<noteq> b"
  shows "before a b \<or> before b a"
proof -
  have "cr_start a < cr_start b \<or> cr_start b < cr_start a"
    using same_start_same_range [of m a b] assms less_linear [of "cr_start a" "cr_start b"]
    by (auto simp: ranges_wf_def)
  then show ?thesis using assms by (auto simp: ranges_wf_def ranges_apart_def)
qed

lemma head_apart:
  assumes wf: "ranges_wf m" and a: "a \<in> set m" "meets ri a" and h: "h \<in> set (head_piece ri a)"
    and x: "x \<in> set m" "\<not> meets ri x"
  shows "before x h \<or> before h x"
proof -
  have "x \<noteq> a" using a(2) x(2) by blast
  then show ?thesis using before_or_after [OF wf x(1) a(1)] a(2) h
    by (auto simp: head_piece_def before_def meets_def overlaps_def split: if_splits)
qed

lemma head_valid: "h \<in> set (head_piece ri a) \<Longrightarrow> valid_range h"
  by (auto simp: head_piece_def valid_range_def covers_key_def split: if_splits)

lemma tail_apart:
  assumes wf: "ranges_wf m" and z: "z \<in> set m" "meets ri z" and t: "t \<in> set (tail_piece ri z)"
    and x: "x \<in> set m" "\<not> meets ri x"
  shows "before x t \<or> before t x"
proof -
  have "x \<noteq> z" using z(2) x(2) by blast
  then show ?thesis using before_or_after [OF wf x(1) z(1)] z(2) t
    by (auto simp: tail_piece_def before_def meets_def overlaps_def split: if_splits)
qed

lemma tail_valid: "t \<in> set (tail_piece ri a) \<Longrightarrow> valid_range t"
  by (auto simp: tail_piece_def valid_range_def covers_key_def split: if_splits)

lemma head_before_tail:
  "\<not> malformed ri \<Longrightarrow> h \<in> set (head_piece ri a) \<Longrightarrow> t \<in> set (tail_piece ri z) \<Longrightarrow> before h t"
  by (auto simp: head_piece_def tail_piece_def before_def malformed_def split: if_splits)

lemma new_range_apart:
  "\<not> malformed ri \<Longrightarrow> \<not> meets ri x \<Longrightarrow> before x (new_range ri n) \<or> before (new_range ri n) x"
  by (auto simp: meets_def overlaps_def before_def new_range_def malformed_def not_less)

lemma new_range_valid: "\<not> malformed ri \<Longrightarrow> valid_range (new_range ri n)"
  by (auto simp: malformed_def valid_range_def covers_key_def new_range_def)

lemma head_misses: "h \<in> set (head_piece ri a) \<Longrightarrow> \<not> meets ri h"
  by (auto simp: head_piece_def meets_def overlaps_def split: if_splits)

lemma tail_misses: "t \<in> set (tail_piece ri a) \<Longrightarrow> \<not> meets ri t"
  by (auto simp: tail_piece_def meets_def overlaps_def split: if_splits)

lemma insert_pieces:
  assumes "ranges_wf m" "\<And>p. p \<in> set ps \<Longrightarrow> valid_range p" "length ps \<le> 1"
    "\<And>p x. p \<in> set ps \<Longrightarrow> x \<in> set m \<Longrightarrow> before x p \<or> before p x"
  shows "ranges_wf (foldr bt_insert ps m)" "mset (foldr bt_insert ps m) = mset ps + mset m"
  using assms bt_insert_apart [of m] by (cases ps; fastforce)+

lemma pieces_length [simp]: "length (head_piece ri a) \<le> 1" "length (tail_piece ri z) \<le> 1"
  by (simp_all add: head_piece_def tail_piece_def)

lemma insert_new_apart:
  assumes "ranges_wf m" "\<not> malformed ri" "\<And>x. x \<in> set m \<Longrightarrow> \<not> meets ri x"
  shows "ranges_wf (bt_insert (new_range ri n) m)"
    "mset (bt_insert (new_range ri n) m) = add_mset (new_range ri n) (mset m)"
  using bt_insert_apart [OF assms(1) new_range_valid [OF assms(2)]]
    new_range_apart [OF assms(2,3)] by auto


definition pieces :: "range_in \<Rightarrow> cached_range list \<Rightarrow> cached_range list" where
  "pieces ri ov = (if ov = [] then [] else head_piece ri (hd ov) @ tail_piece ri (last ov))"

definition accepted :: "range_in \<Rightarrow> cached_range list \<Rightarrow> bool" where
  "accepted ri m \<longleftrightarrow> \<not> malformed ri \<and> (\<forall>x\<in>set m. meets ri x \<longrightarrow> \<not> stale ri x)"

definition replaced :: "range_in \<Rightarrow> key_cache \<Rightarrow> key_cache" where
  "replaced ri c =
     (let ov = filter (meets ri) (kr_ranges c)
      in if ov = [] then insert_new_range ri c else replace_overlapping ri ov c)"

lemma replaced_ranges:
  assumes wf: "ranges_wf (kr_ranges c)" and ok: "\<not> malformed ri"
  shows "\<exists>n. ranges_wf (kr_ranges (replaced ri c)) \<and>
    mset (kr_ranges (replaced ri c)) = add_mset (new_range ri n)
      (mset (pieces ri (filter (meets ri) (kr_ranges c))) + mset (filter (\<lambda>x. \<not> meets ri x) (kr_ranges c)))"
proof (cases "filter (meets ri) (kr_ranges c) = []")
  case True
  then have no: "\<And>x. x \<in> set (kr_ranges c) \<Longrightarrow> \<not> meets ri x" by (auto simp: filter_empty_conv)
  then have "filter (\<lambda>x. \<not> meets ri x) (kr_ranges c) = kr_ranges c" by (simp add: filter_id_conv)
  with True insert_new_apart [OF wf ok no] show ?thesis
    by (auto simp: replaced_def pieces_def insert_new_range_eq)
next
  case False
  define m ov where "m = kr_ranges c" and "ov = filter (meets ri) m"
  have wfm: "ranges_wf m" and ov: "ov \<noteq> []" using wf False by (auto simp: m_def ov_def)
  define m0 where "m0 = filter (\<lambda>x. \<not> meets ri x) m"
  define m1 where "m1 = foldr bt_insert (head_piece ri (hd ov)) m0"
  define m2 where "m2 = foldr bt_insert (tail_piece ri (last ov)) m1"
  note ends = meeting_ends [OF wfm ov_def ov]
  have w0: "ranges_wf m0" using wfm
    by (auto simp: m0_def ranges_wf_def ranges_sorted_filter intro: ranges_apart_mono)
  have in0: "x \<in> set m0 \<longleftrightarrow> x \<in> set m \<and> \<not> meets ri x" for x by (auto simp: m0_def)
  have h: "ranges_wf m1" "mset m1 = mset (head_piece ri (hd ov)) + mset m0"
    unfolding m1_def using insert_pieces [OF w0 head_valid pieces_length(1)]
      head_apart [OF wfm ends(1,3)] in0 by auto
  have in1: "x \<in> set m1 \<longleftrightarrow> x \<in> set m0 \<or> x \<in> set (head_piece ri (hd ov))" for x
    using arg_cong [OF h(2), of "\<lambda>M. x \<in># M"] by auto
  have t: "ranges_wf m2" "mset m2 = mset (tail_piece ri (last ov)) + mset m1"
    unfolding m2_def using insert_pieces [OF h(1) tail_valid pieces_length(2)]
      tail_apart [OF wfm ends(2,4)] head_before_tail [OF ok] in0 in1 by (meson, meson)
  have in2: "x \<in> set m2 \<longleftrightarrow> x \<in> set m1 \<or> x \<in> set (tail_piece ri (last ov))" for x
    using arg_cong [OF t(2), of "\<lambda>M. x \<in># M"] by auto
  have "\<not> meets ri x" if "x \<in> set m2" for x
    using that in0 in1 in2 head_misses tail_misses by blast
  note n = insert_new_apart [OF t(1) ok this]
  obtain n where "kr_ranges (replaced ri c) = bt_insert (new_range ri n) m2"
    using replace_overlapping_ranges [of c ov ri] wf False
    by (auto simp: replaced_def ranges_wf_def m_def ov_def m0_def m1_def m2_def)
  then show ?thesis using n [of n] ov t(2) h(2) by (auto simp: pieces_def m_def ov_def m0_def)
qed


lemma replace_range_if_newer_accepts:
  "ranges_wf (kr_ranges c) \<Longrightarrow> accepted ri (kr_ranges c) \<Longrightarrow>
   replace_range_if_newer ri (c, unref) =
     Ret (drop_references (filter (meets ri) (kr_ranges c)) (replaced ri c, unref))"
  by (subst replace_range_if_newer_eq)
    (auto simp: accepted_def replaced_def Let_def drop_references_def [of "[]"])

lemma replace_range_if_newer_ignores:
  "ranges_wf (kr_ranges c) \<Longrightarrow> \<not> accepted ri (kr_ranges c) \<Longrightarrow>
   replace_range_if_newer ri (c, unref) = Ret (c, unref)"
  by (subst replace_range_if_newer_eq) (auto simp: accepted_def)

lemma in_update_covers: "covers (new_range ri n) k \<longleftrightarrow> in_update ri k"
  by (auto simp: covers_def covers_key_def new_range_def in_update_def)

lemma covers_misses: "covers r k \<Longrightarrow> \<not> meets ri r \<Longrightarrow> \<not> in_update ri k"
  by (auto simp: covers_def covers_key_def meets_def overlaps_def in_update_def)

lemma covers_head:
  "meets ri a \<Longrightarrow> h \<in> set (head_piece ri a) \<Longrightarrow> covers h k \<longleftrightarrow> covers a k \<and> k < ri_start ri"
  by (auto simp: covers_def covers_key_def meets_def overlaps_def head_piece_def split: if_splits)

lemma covers_tail:
  "meets ri z \<Longrightarrow> t \<in> set (tail_piece ri z) \<Longrightarrow> covers t k \<longleftrightarrow> covers z k \<and> ri_limit ri \<le> k"
  by (auto simp: covers_def covers_key_def meets_def overlaps_def tail_piece_def split: if_splits)

lemma head_info: "h \<in> set (head_piece ri a) \<Longrightarrow>
    cr_group h = cr_group a \<and> cr_split h = cr_split a \<and> cr_generation h = cr_generation a"
  by (auto simp: head_piece_def split: if_splits)

lemma tail_info: "t \<in> set (tail_piece ri a) \<Longrightarrow>
    cr_group t = cr_group a \<and> cr_split t = cr_split a \<and> cr_generation t = cr_generation a"
  by (auto simp: tail_piece_def split: if_splits)

text \<open>A meeting range that covers a key outside the update is the first one or the last one.\<close>

lemma sticks_out:
  assumes wf: "ranges_wf m" and ov: "ov = filter (meets ri) m" "ov \<noteq> []"
    and r: "r \<in> set m" "covers r k" "meets ri r" "\<not> in_update ri k"
  shows "\<exists>p\<in>set (pieces ri ov). covers p k \<and> cr_group p = cr_group r \<and> cr_split p = cr_split r \<and>
    cr_generation p = cr_generation r"
proof -
  note ends = meeting_ends [OF wf ov]
  consider "k < ri_start ri" | "ri_limit ri \<noteq> []" "ri_limit ri \<le> k"
    using r(4) by (auto simp: in_update_def)
  then show ?thesis
  proof cases
    case 1
    have "r = hd ov"
    proof (rule ccontr)
      assume "r \<noteq> hd ov"
      from before_or_after [OF wf r(1) ends(1) this] ends(3) ends(5) [OF r(1,3)] r(2) 1 show False
        by (auto simp: before_def covers_def covers_key_def meets_def overlaps_def)
    qed
    then show ?thesis using 1 r(2) ov(2)
      by (intro bexI [of _ "(hd ov)\<lparr>cr_limit := ri_start ri\<rparr>"])
        (auto simp: pieces_def head_piece_def covers_def covers_key_def)
  next
    case 2
    have v: "valid_range (last ov)" using wf ends(2) by (simp add: ranges_wf_def ranges_apart_def)
    have "r = last ov"
    proof (rule ccontr)
      assume "r \<noteq> last ov"
      from before_or_after [OF wf r(1) ends(2) this] ends(4) ends(5) [OF r(1,3)] r(2) v 2 show False
        by (auto simp: valid_range_def before_def covers_def covers_key_def meets_def overlaps_def)
    qed
    then show ?thesis using 2 r(2) ov(2)
      by (intro bexI [of _ "(last ov)\<lparr>cr_start := ri_limit ri\<rparr>"])
        (auto simp: pieces_def tail_piece_def covers_def covers_key_def)
  qed
qed

lemma piece_covers:
  assumes wf: "ranges_wf m" and ov: "ov = filter (meets ri) m" and p: "p \<in> set (pieces ri ov)" "covers p k"
  shows "\<exists>r\<in>set m. covers r k"
proof -
  have "ov \<noteq> []" using p(1) by (auto simp: pieces_def)
  note ends = meeting_ends [OF wf ov this]
  show ?thesis using p covers_head [OF ends(3)] covers_tail [OF ends(4)] ends(1,2)
    by (auto simp: pieces_def split: if_splits)
qed

lemma route_replaced:
  assumes wf: "ranges_wf (kr_ranges c)" and ok: "\<not> malformed ri"
  shows "route (kr_ranges (replaced ri c)) k =
    (if in_update ri k then Some (ri_group ri, ri_split ri, ri_generation ri) else route (kr_ranges c) k)"
proof -
  let ?ov = "filter (meets ri) (kr_ranges c)"
  let ?m' = "kr_ranges (replaced ri c)"
  obtain n where wf': "ranges_wf ?m'" and ms: "mset ?m' = add_mset (new_range ri n)
      (mset (pieces ri ?ov) + mset (filter (\<lambda>x. \<not> meets ri x) (kr_ranges c)))"
    using replaced_ranges [OF wf ok] by blast
  have set': "x \<in> set ?m' \<longleftrightarrow> x = new_range ri n \<or> x \<in> set (pieces ri ?ov) \<or>
      x \<in> set (kr_ranges c) \<and> \<not> meets ri x" for x
    using arg_cong [OF ms, of "\<lambda>M. x \<in># M"] by auto
  show ?thesis
  proof (cases "in_update ri k")
    case True
    then have "covers (new_range ri n) k" by (simp add: in_update_covers)
    then have "route ?m' k = Some (cr_group (new_range ri n), cr_split (new_range ri n),
        cr_generation (new_range ri n))"
      by (intro route_covered [OF wf']) (simp_all add: set')
    with True show ?thesis by (simp add: new_range_def)
  next
    case False
    have "route ?m' k = route (kr_ranges c) k"
    proof (rule route_eqI [OF wf wf'])
      show "\<exists>r'\<in>set ?m'. covers r' k \<and> cr_group r' = cr_group r \<and> cr_split r' = cr_split r \<and>
          cr_generation r' = cr_generation r" if r: "r \<in> set (kr_ranges c)" "covers r k" for r
      proof (cases "meets ri r")
        case True
        then have "?ov \<noteq> []" using r by (auto simp: filter_empty_conv)
        from sticks_out [OF wf refl this r True False] set' show ?thesis by blast
      qed (use r set' in blast)
      show "\<exists>r'\<in>set (kr_ranges c). covers r' k" if "r \<in> set ?m'" "covers r k" for r
        using that set' False piece_covers [OF wf refl] by (auto simp: in_update_covers)
    qed
    with False show ?thesis by simp
  qed
qed


section \<open>Reference counts\<close>

definition refs :: "key_cache \<Rightarrow> u64 \<Rightarrow> nat" where
  "refs c g = (case map_of (kr_groups c) g of None \<Rightarrow> 0 | Some e \<Rightarrow> ge_references e)"

definition uses :: "cached_range multiset \<Rightarrow> u64 \<Rightarrow> nat" where
  "uses M g = count (image_mset cr_group M) g"

text \<open>The entries without a reference are due for removal.\<close>

definition zeros_in :: "key_cache \<Rightarrow> u64 list \<Rightarrow> bool" where
  "zeros_in c unref \<longleftrightarrow> (\<forall>g e. map_of (kr_groups c) g = Some e \<longrightarrow> ge_references e = 0 \<longrightarrow> g \<in> set unref)"

definition cache_ok :: "key_cache \<Rightarrow> u64 list \<Rightarrow> bool" where
  "cache_ok c unref \<longleftrightarrow> ranges_wf (kr_ranges c) \<and> distinct (map fst (kr_groups c)) \<and>
     (\<forall>g. refs c g = uses (mset (kr_ranges c)) g) \<and> zeros_in c unref"

lemma uses_simps [simp]:
  "uses {#} g = 0" "uses (add_mset r M) g = (if cr_group r = g then 1 else 0) + uses M g"
  "uses (M + N) g = uses M g + uses N g"
  by (simp_all add: uses_def)

lemma uses_partition: "uses (mset m) g = uses (mset (filter P m)) g + uses (mset (filter (\<lambda>x. \<not> P x) m)) g"
  by (induction m) auto

lemma increment_refs [simp]:
  "refs (increment_group_references g c) h = (if g = h then 1 else 0) + refs c h"
  by (auto simp: refs_def increment_group_references_def Let_def update_conv split: option.splits)

lemma increment_zeros: "zeros_in c unref \<Longrightarrow> zeros_in (increment_group_references g c) unref"
  by (auto simp: zeros_in_def increment_group_references_def Let_def update_conv split: if_splits)

lemma increment_distinct:
  "distinct (map fst (kr_groups c)) \<Longrightarrow> distinct (map fst (kr_groups (increment_group_references g c)))"
  by (simp add: increment_group_references_def Let_def distinct_update)

lemma insert_cached_groups [simp]: "kr_groups (insert_cached r c) = kr_groups (increment_group_references (cr_group r) c)"
  by (simp add: insert_cached_def)

lemma same_groups:
  assumes "kr_groups c = kr_groups d"
  shows "refs c = refs d" "zeros_in c unref = zeros_in d unref"
    "kr_groups (increment_group_references g c) = kr_groups (increment_group_references g d)"
  using assms by (auto simp: refs_def zeros_in_def increment_group_references_def Let_def)

text \<open>Inserting ranges counts them.\<close>

definition counted_in :: "key_cache \<Rightarrow> u64 list \<Rightarrow> cached_range list \<Rightarrow> key_cache \<Rightarrow> bool" where
  "counted_in c unref xs d \<longleftrightarrow> (\<forall>g. refs d g = refs c g + uses (mset xs) g) \<and>
     (zeros_in c unref \<longrightarrow> zeros_in d unref) \<and>
     (distinct (map fst (kr_groups c)) \<longrightarrow> distinct (map fst (kr_groups d)))"

lemma counted_in_insert:
  assumes "counted_in c unref xs d"
  shows "counted_in c unref (r # xs) (insert_cached r d)"
proof -
  have "refs (insert_cached r d) = refs (increment_group_references (cr_group r) d)"
    "zeros_in (insert_cached r d) unref = zeros_in (increment_group_references (cr_group r) d) unref"
    by (rule same_groups(1), simp) (rule same_groups(2), simp)
  then show ?thesis using assms increment_zeros [of d unref "cr_group r"] increment_distinct [of d "cr_group r"]
    by (auto simp: counted_in_def)
qed

lemma counted_in_same: "kr_groups c = kr_groups d \<Longrightarrow> counted_in c unref [] d"
  by (simp add: counted_in_def same_groups(1,2) [of c d])

lemma counted_in_groups:
  "kr_groups d = kr_groups d' \<Longrightarrow> counted_in c unref xs d = counted_in c unref xs d'"
  by (simp add: counted_in_def same_groups(1,2) [of d d'])

lemma counted_in_new:
  "counted_in c unref xs d \<Longrightarrow> counted_in c unref (new_range ri n # xs) (insert_new_range ri d)"
  using counted_in_insert [of c unref xs "snd (access_time_now d)" "new_range ri d"]
    counted_in_groups [of d "snd (access_time_now d)" c unref xs]
  by (simp add: insert_new_range_eq access_time_now_def counted_in_def new_range_def)

lemma replaced_counted:
  "\<exists>xs. counted_in c unref (new_range ri n # xs) (replaced ri c) \<and>
     mset xs = mset (pieces ri (filter (meets ri) (kr_ranges c)))"
proof -
  define ov where "ov = filter (meets ri) (kr_ranges c)"
  define c1 where "c1 = c\<lparr>kr_ranges := foldl (\<lambda>m x. bt_remove (cr_start x) m) (kr_ranges c) ov\<rparr>"
  define c2 where "c2 = (if cr_start (hd ov) < ri_start ri
    then insert_cached ((hd ov)\<lparr>cr_limit := ri_start ri\<rparr>) c1 else c1)"
  define c3 where "c3 = (if ri_limit ri \<noteq> [] \<and> (cr_limit (last ov) = [] \<or> ri_limit ri < cr_limit (last ov))
    then insert_cached ((last ov)\<lparr>cr_start := ri_limit ri\<rparr>) c2 else c2)"
  have 1: "counted_in c unref [] c1" by (rule counted_in_same) (simp add: c1_def)
  have 2: "counted_in c unref (head_piece ri (hd ov)) c2"
    using counted_in_insert [OF 1] 1 by (auto simp: c2_def head_piece_def)
  have 3: "counted_in c unref (tail_piece ri (last ov) @ head_piece ri (hd ov)) c3"
    using counted_in_insert [OF 2] 2 by (auto simp: c3_def tail_piece_def)
  show ?thesis
  proof (cases "ov = []")
    case True
    then show ?thesis using counted_in_new [OF counted_in_same [OF refl, of c unref], of ri n]
      by (auto simp: replaced_def ov_def [symmetric] pieces_def)
  next
    case False
    have "replaced ri c = insert_new_range ri c3"
      using False by (simp add: replaced_def ov_def [symmetric] replace_overlapping_def Let_def c1_def c2_def c3_def)
    then show ?thesis using counted_in_new [OF 3, of ri n] False
      by (intro exI [of _ "tail_piece ri (last ov) @ head_piece ri (hd ov)"]) (simp add: pieces_def ov_def)
  qed
qed


lemma decrement_refs [simp]:
  "refs (snd (decrement_group_references g c)) h = (if g = h then refs c h - 1 else refs c h)"
  by (auto simp: refs_def decrement_group_references_def Let_def update_conv split: option.splits)

lemma decrement_zeros:
  "zeros_in c unref \<Longrightarrow> zeros_in (snd (decrement_group_references g c))
     (if fst (decrement_group_references g c) then unref @ [g] else unref)"
  by (auto simp: zeros_in_def decrement_group_references_def Let_def update_conv split: option.splits if_splits)

lemma decrement_distinct:
  "distinct (map fst (kr_groups c)) \<Longrightarrow> distinct (map fst (kr_groups (snd (decrement_group_references g c))))"
  by (simp add: decrement_group_references_def Let_def distinct_update split: option.split)

lemma drop_references_ok:
  assumes "zeros_in c unref" "distinct (map fst (kr_groups c))" "drop_references xs (c, unref) = (d, unref')"
  shows "refs d g = refs c g - uses (mset xs) g" "zeros_in d unref'" "distinct (map fst (kr_groups d))"
    "kr_ranges d = kr_ranges c"
proof -
  have "refs d g = refs c g - uses (mset xs) g \<and> zeros_in d unref' \<and> distinct (map fst (kr_groups d)) \<and>
    kr_ranges d = kr_ranges c"
    using assms
  proof (induction xs arbitrary: c unref)
    case Nil then show ?case by (simp add: drop_references_def)
  next
    case (Cons x xs)
    from Cons.IH [OF decrement_zeros [OF Cons.prems(1), of "cr_group x"]
        decrement_distinct [OF Cons.prems(2), of "cr_group x"]
        Cons.prems(3) [unfolded drop_references_Cons]]
    show ?case by auto
  qed
  then show "refs d g = refs c g - uses (mset xs) g" "zeros_in d unref'" "distinct (map fst (kr_groups d))"
    "kr_ranges d = kr_ranges c" by blast+
qed

lemma replace_range_ok:
  assumes ok: "cache_ok c unref"
  obtains c' unref' where "replace_range_if_newer ri (c, unref) = Ret (c', unref')" "cache_ok c' unref'"
    "kr_ranges c' = kr_ranges (if accepted ri (kr_ranges c) then replaced ri c else c)"
proof (cases "accepted ri (kr_ranges c)")
  case False
  with replace_range_if_newer_ignores [of c ri unref] ok that [of c unref] show thesis
    by (simp add: cache_ok_def)
next
  case True
  let ?ov = "filter (meets ri) (kr_ranges c)"
  have wf: "ranges_wf (kr_ranges c)" and z: "zeros_in c unref" and di: "distinct (map fst (kr_groups c))"
    and rc: "\<And>g. refs c g = uses (mset (kr_ranges c)) g" using ok by (auto simp: cache_ok_def)
  obtain n where wf': "ranges_wf (kr_ranges (replaced ri c))" and ms: "mset (kr_ranges (replaced ri c)) =
      add_mset (new_range ri n) (mset (pieces ri ?ov) + mset (filter (\<lambda>x. \<not> meets ri x) (kr_ranges c)))"
    using replaced_ranges [OF wf] True by (auto simp: accepted_def)
  obtain xs where xs: "counted_in c unref (new_range ri n # xs) (replaced ri c)" "mset xs = mset (pieces ri ?ov)"
    using replaced_counted by blast
  obtain d unref' where d: "drop_references ?ov (replaced ri c, unref) = (d, unref')" by fastforce
  have zr: "zeros_in (replaced ri c) unref" "distinct (map fst (kr_groups (replaced ri c)))"
    using xs(1) z di by (simp_all add: counted_in_def)
  note dr = drop_references_ok [OF zr d]
  have "refs d g = uses (mset (kr_ranges d)) g" for g
    using dr(1) [of g] xs rc [of g] uses_partition [of "kr_ranges c" g "meets ri"]
    by (simp add: counted_in_def dr(4) ms)
  then have "cache_ok d unref'" using dr(2-4) wf' by (simp add: cache_ok_def)
  with that [of d unref'] d dr(4) replace_range_if_newer_accepts [OF wf True] True show thesis by simp
qed


lemma get_group_cong: "kr_groups c = kr_groups d \<Longrightarrow> get_group g c = get_group g d"
  by (simp add: get_group_def)

lemma get_group_increment [simp]: "get_group h (increment_group_references g c) = get_group h c"
  by (auto simp: get_group_def increment_group_references_def Let_def update_conv split: option.splits)

lemma get_group_insert [simp]: "get_group h (insert_cached r c) = get_group h c"
  using get_group_cong [of "insert_cached r c" "increment_group_references (cr_group r) c"] by simp

lemma get_group_insert_new [simp]: "get_group h (insert_new_range ri c) = get_group h c"
  using get_group_cong [of "snd (access_time_now c)" c] by (simp add: insert_new_range_eq access_time_now_def)

lemma get_group_decrement [simp]: "get_group h (snd (decrement_group_references g c)) = get_group h c"
  by (auto simp: get_group_def decrement_group_references_def Let_def update_conv split: option.splits)

lemma get_group_ranges [simp]: "get_group h (c\<lparr>kr_ranges := m\<rparr>) = get_group h c"
  by (simp add: get_group_def)

lemma get_group_drop [simp]: "get_group h (fst (drop_references xs (c, unref))) = get_group h c"
proof (induction xs arbitrary: c unref)
  case Nil then show ?case by (simp add: drop_references_def)
next
  case (Cons x xs) then show ?case by (simp add: drop_references_Cons)
qed

lemma get_group_replaced [simp]: "get_group h (replaced ri c) = get_group h c"
  by (simp add: replaced_def replace_overlapping_def Let_def)

lemma replace_range_groups:
  assumes "ranges_wf (kr_ranges c)" "replace_range_if_newer ri (c, unref) = Ret (c', unref')"
  shows "get_group h c' = get_group h c"
proof (cases "accepted ri (kr_ranges c)")
  case True
  with assms have "(c', unref') = drop_references (filter (meets ri) (kr_ranges c)) (replaced ri c, unref)"
    by (simp add: replace_range_if_newer_accepts)
  then have "c' = fst (drop_references (filter (meets ri) (kr_ranges c)) (replaced ri c, unref))"
    by (metis fst_conv)
  then show ?thesis by simp
qed (use assms replace_range_if_newer_ignores [of c ri unref] in simp)

text \<open>A key that is covered stays covered, by a range that is not older.\<close>

definition route_newer :: "cached_range list \<Rightarrow> cached_range list \<Rightarrow> bool" where
  "route_newer m m' \<longleftrightarrow> (\<forall>k g s n. route m k = Some (g, s, n) \<longrightarrow>
     (\<exists>g' s' n'. route m' k = Some (g', s', n') \<and> n \<le> n'))"

lemma route_newer_refl [simp]: "route_newer m m"
  by (simp add: route_newer_def)

lemma route_newer_trans: "route_newer m m' \<Longrightarrow> route_newer m' m'' \<Longrightarrow> route_newer m m''"
  unfolding route_newer_def by (meson order_trans)

lemma accepted_newer:
  assumes wf: "ranges_wf m" and acc: "accepted ri m" "in_update ri k" and r: "route m k = Some (g, s, n)"
  shows "n \<le> ri_generation ri"
proof -
  obtain r where r: "r \<in> set m" "covers r k" "n = cr_generation r" using r by (auto elim: routeE)
  have "meets ri r" using covers_misses r(2) acc(2) by blast
  with acc(1) r(1,3) show ?thesis by (auto simp: accepted_def stale_def not_less)
qed

lemma replaced_newer:
  assumes "ranges_wf (kr_ranges c)" "accepted ri (kr_ranges c)"
  shows "route_newer (kr_ranges c) (kr_ranges (replaced ri c))"
  using route_replaced [OF assms(1), of ri] accepted_newer [OF assms] assms(2)
  by (auto simp: route_newer_def accepted_def)

section \<open>The contract of the cache\<close>

text \<open>What a router needs of a map from keys to answers that learns ranges one at a time: an update
  answers its own keys if it is taken, and no other key.\<close>

locale learned_map =
  fixes inv :: "'s \<Rightarrow> bool" and answer :: "'s \<Rightarrow> bytes \<Rightarrow> 'v option"
    and update :: "'u \<Rightarrow> 's \<Rightarrow> 's run" and updates :: "'u list \<Rightarrow> 's \<Rightarrow> 's run"
    and taken :: "'u \<Rightarrow> 's \<Rightarrow> bool" and within :: "'u \<Rightarrow> bytes \<Rightarrow> bool" and says :: "'u \<Rightarrow> 'v"
  assumes update_ok: "inv s \<Longrightarrow> \<exists>s'. update u s = Ret s' \<and> inv s' \<and>
      (\<forall>k. answer s' k = (if taken u s \<and> within u k then Some (says u) else answer s k))"
    and updates_Nil: "updates [] s = Ret s"
    and updates_Cons: "updates (u # us) s = bind_run (update u s) (updates us)"
begin

lemma updates_answer:
  "inv s \<Longrightarrow> \<exists>s'. updates us s = Ret s' \<and> inv s' \<and>
    (\<forall>k. answer s' k = answer s k \<or> (\<exists>u\<in>set us. within u k \<and> answer s' k = Some (says u)))"
proof (induction us arbitrary: s)
  case Nil
  then show ?case by (simp add: updates_Nil)
next
  case (Cons u us)
  obtain s1 where s1: "update u s = Ret s1" "inv s1"
    "\<And>k. answer s1 k = (if taken u s \<and> within u k then Some (says u) else answer s k)"
    using update_ok [OF Cons.prems, of u] by blast
  obtain s2 where s2: "updates us s1 = Ret s2" "inv s2"
    "\<And>k. answer s2 k = answer s1 k \<or> (\<exists>u\<in>set us. within u k \<and> answer s2 k = Some (says u))"
    using Cons.IH [OF s1(2)] by blast
  have "answer s2 k = answer s k \<or> (\<exists>u\<in>set (u # us). within u k \<and> answer s2 k = Some (says u))" for k
    using s1(3) [of k] s2(3) [of k] by (cases "taken u s \<and> within u k") auto
  with s1(1) s2(1,2) show ?case by (auto simp: updates_Cons)
qed

end

definition update_info :: "range_in \<Rightarrow> u64 \<times> u64 \<times> bytes" where
  "update_info ri = (ri_group ri, ri_split ri, ri_generation ri)"

lemma range_update_step:
  assumes "cache_ok c unref"
  shows "\<exists>c' unref'. replace_range_if_newer ri (c, unref) = Ret (c', unref') \<and> cache_ok c' unref' \<and>
    (\<forall>k. route (kr_ranges c') k =
      (if accepted ri (kr_ranges c) \<and> in_update ri k then Some (update_info ri) else route (kr_ranges c) k))"
proof -
  obtain c' unref' where c': "replace_range_if_newer ri (c, unref) = Ret (c', unref')" "cache_ok c' unref'"
    "kr_ranges c' = kr_ranges (if accepted ri (kr_ranges c) then replaced ri c else c)"
    using replace_range_ok [OF assms] .
  have "ranges_wf (kr_ranges c)" using assms by (simp add: cache_ok_def)
  from route_replaced [OF this, of ri] c' show ?thesis
    by (auto simp: accepted_def update_info_def)
qed

interpretation range_cache: learned_map "\<lambda>(c, unref). cache_ok c unref" "\<lambda>s. route (kr_ranges (fst s))"
  replace_range_if_newer replace_ranges "\<lambda>ri s. accepted ri (kr_ranges (fst s))" in_update update_info
proof
  fix s u
  assume "case s of (c, unref) \<Rightarrow> cache_ok c unref"
  then show "\<exists>s'. replace_range_if_newer u s = Ret s' \<and> (case s' of (c, unref) \<Rightarrow> cache_ok c unref) \<and>
      (\<forall>k. route (kr_ranges (fst s')) k = (if accepted u (kr_ranges (fst s)) \<and> in_update u k
        then Some (update_info u) else route (kr_ranges (fst s)) k))"
    using range_update_step by (cases s) fastforce
qed simp_all

text \<open>Along the updates a covered key stays covered, by a range that is not older.\<close>

lemma replace_ranges_newer:
  assumes "cache_ok c unref" "replace_ranges ris (c, unref) = Ret (c', unref')"
  shows "route_newer (kr_ranges c) (kr_ranges c') \<and> (\<forall>h. get_group h c' = get_group h c)"
  using assms
proof (induction ris arbitrary: c unref)
  case Nil then show ?case by simp
next
  case (Cons ri ris)
  obtain d unref1 where d: "replace_range_if_newer ri (c, unref) = Ret (d, unref1)" "cache_ok d unref1"
    "kr_ranges d = kr_ranges (if accepted ri (kr_ranges c) then replaced ri c else c)"
    using replace_range_ok [OF Cons.prems(1)] by metis
  have wf: "ranges_wf (kr_ranges c)" using Cons.prems by (simp add: cache_ok_def)
  have "route_newer (kr_ranges c) (kr_ranges d)" using replaced_newer [OF wf, of ri] d(3) by simp
  with Cons.IH [OF d(2)] Cons.prems(2) d(1) replace_range_groups [OF wf d(1)] show ?case
    by (auto intro: route_newer_trans)
qed

section \<open>Groups\<close>

lemma remove_if_unreferenced_simps [simp]:
  "kr_ranges (snd (remove_if_unreferenced g c)) = kr_ranges c"
  "refs (snd (remove_if_unreferenced g c)) h = refs c h"
  by (auto simp: remove_if_unreferenced_def refs_def delete_conv split: option.splits)

lemma remove_if_unreferenced_distinct:
  "distinct (map fst (kr_groups c)) \<Longrightarrow> distinct (map fst (kr_groups (snd (remove_if_unreferenced g c))))"
  by (simp add: remove_if_unreferenced_def distinct_delete split: option.split)

lemma remove_if_unreferenced_zeros:
  "zeros_in c (g # unref) \<Longrightarrow> zeros_in (snd (remove_if_unreferenced g c)) unref"
  by (auto simp: remove_if_unreferenced_def zeros_in_def delete_conv split: option.splits if_splits)
    (metis option.distinct(1), metis gr_implies_not0 option.inject)

lemma remove_if_unreferenced_group:
  "\<not> fst (remove_if_unreferenced g c) \<Longrightarrow> get_group h (snd (remove_if_unreferenced g c)) = get_group h c"
  by (auto simp: remove_if_unreferenced_def get_group_def delete_conv split: option.splits if_splits)

text \<open>The rest of an update keeps the ranges and the counts, and reports each group it changes.\<close>

definition groups_step :: "bool \<times> key_cache \<Rightarrow> bool \<times> key_cache \<Rightarrow> bool" where
  "groups_step s s' \<longleftrightarrow> kr_ranges (snd s') = kr_ranges (snd s) \<and> refs (snd s') = refs (snd s) \<and>
     (distinct (map fst (kr_groups (snd s))) \<longrightarrow> distinct (map fst (kr_groups (snd s')))) \<and>
     (\<not> fst s' \<longrightarrow> \<not> fst s \<and> (\<forall>h. get_group h (snd s') = get_group h (snd s)))"

lemma groups_step_refl [simp]: "groups_step s s"
  by (simp add: groups_step_def)

lemma groups_step_trans: "groups_step s s' \<Longrightarrow> groups_step s' s'' \<Longrightarrow> groups_step s s''"
  by (simp add: groups_step_def)

lemma remove_unreferenced_ok:
  "zeros_in (snd s) unref \<Longrightarrow>
   groups_step s (remove_unreferenced unref s) \<and> zeros_in (snd (remove_unreferenced unref s)) []"
proof (induction unref arbitrary: s)
  case Nil then show ?case by (simp add: remove_unreferenced_def)
next
  case (Cons g unref)
  obtain b c where s: "s = (b, c)" by fastforce
  let ?s1 = "(b \<or> fst (remove_if_unreferenced g c), snd (remove_if_unreferenced g c))"
  have eq: "remove_unreferenced (g # unref) s = remove_unreferenced unref ?s1"
    by (simp add: remove_unreferenced_def s split_beta)
  have "groups_step s ?s1"
    using remove_if_unreferenced_distinct [of c g] remove_if_unreferenced_group [of g c]
    by (auto simp: groups_step_def s)
  moreover have "zeros_in (snd ?s1) unref" using Cons.prems remove_if_unreferenced_zeros s by simp
  ultimately show ?case using Cons.IH [of ?s1] eq groups_step_trans by metis
qed

lemma update_group_ok:
  "groups_step s (update_group g s) \<and> zeros_in (snd (update_group g s)) u = zeros_in (snd s) u"
  by (cases s) (auto simp: groups_step_def update_group_def refs_def zeros_in_def distinct_update update_conv
      split: option.splits if_splits)

lemma update_groups_ok:
  "groups_step s (foldl (\<lambda>s g. update_group g s) s gs) \<and>
   zeros_in (snd (foldl (\<lambda>s g. update_group g s) s gs)) u = zeros_in (snd s) u"
proof (induction gs arbitrary: s)
  case (Cons g gs)
  from Cons.IH [of "update_group g s"] update_group_ok [of s g u] show ?case
    by (auto intro: groups_step_trans)
qed simp

text \<open>After a whole update no entry is without a reference.\<close>

definition answered_by :: "range_in list \<Rightarrow> cached_range list \<Rightarrow> cached_range list \<Rightarrow> bool" where
  "answered_by ris m m' \<longleftrightarrow>
     (\<forall>k. route m' k = route m k \<or> (\<exists>ri\<in>set ris. in_update ri k \<and> route m' k = Some (update_info ri)))"

lemma add_ranges_ok:
  assumes "cache_ok c []"
  shows "\<exists>b c'. add_ranges ris gs c = Ret (b, c') \<and> cache_ok c' [] \<and>
    route_newer (kr_ranges c) (kr_ranges c') \<and> answered_by ris (kr_ranges c) (kr_ranges c') \<and>
    (\<not> b \<longrightarrow> (\<forall>h. get_group h c' = get_group h c))"
proof (cases "gs = [] \<and> ris = []")
  case True
  with assms show ?thesis
    by (intro exI [of _ False] exI [of _ c]) (simp add: add_ranges_def answered_by_def)
next
  case False
  obtain d unref where d: "replace_ranges ris (c, []) = Ret (d, unref)" "cache_ok d unref"
    "answered_by ris (kr_ranges c) (kr_ranges d)"
    using range_cache.updates_answer [of "(c, [])" ris] assms by (auto simp: answered_by_def)
  note n = replace_ranges_newer [OF assms d(1)]
  let ?s1 = "remove_unreferenced unref (False, d)"
  let ?s2 = "foldl (\<lambda>s g. update_group g s) ?s1 gs"
  have 1: "groups_step (False, d) ?s1" "zeros_in (snd ?s1) []"
    using remove_unreferenced_ok [of "(False, d)" unref] d(2) by (auto simp: cache_ok_def)
  have 2: "groups_step ?s1 ?s2" "zeros_in (snd ?s2) []"
    using update_groups_ok [of ?s1 gs "[]"] 1(2) by auto
  have 3: "groups_step (False, d) ?s2" using groups_step_trans [OF 1(1) 2(1)] .
  have "cache_ok (snd ?s2) []" using d(2) 2(2) 3 by (simp add: cache_ok_def groups_step_def)
  then show ?thesis using d n 3 False
    by (intro exI [of _ "fst ?s2"] exI [of _ "snd ?s2"])
      (auto simp: add_ranges_def groups_step_def)
qed

lemma cache_ok_groups:
  assumes "cache_ok c []"
  shows "fst ` set (kr_groups c) = cr_group ` set (kr_ranges c)"
proof (rule set_eqI)
  fix g
  have "g \<in> fst ` set (kr_groups c) \<longleftrightarrow> refs c g \<noteq> 0"
    using assms map_of_eq_None_iff [of "kr_groups c" g]
    by (cases "map_of (kr_groups c) g") (auto simp: cache_ok_def refs_def zeros_in_def)
  also have "\<dots> \<longleftrightarrow> g \<in> cr_group ` set (kr_ranges c)"
    using assms by (auto simp: cache_ok_def uses_def count_eq_zero_iff)
  finally show "g \<in> fst ` set (kr_groups c) \<longleftrightarrow> g \<in> cr_group ` set (kr_ranges c)" .
qed

lemma active_addresses_eq:
  assumes "distinct (map fst (kr_groups c))"
  shows "active_addresses c = {a. a \<noteq> [] \<and> (\<exists>g cg t. get_group g c = Some cg \<and> t \<in> set (cg_tablets cg) \<and>
    a = tb_server_address t)}"
  using assms unfolding active_addresses_def get_group_def
  by (auto simp: List.map_filter_def bind_eq_Some_conv map_of_eq_Some_iff image_iff) force+


section \<open>The nearest replicas\<close>

definition least_distance :: "tablet list \<Rightarrow> u32" where
  "least_distance ts = fold min (map tb_distance (filter is_routable ts)) (- 1)"

definition nearest :: "tablet list \<Rightarrow> nat list" where
  "nearest ts = filter (\<lambda>i. is_routable (ts ! i) \<and> tb_distance (ts ! i) = least_distance ts) [0..<length ts]"

lemma least_distance_snoc:
  "least_distance (ts @ [t]) = (if is_routable t then min (tb_distance t) (least_distance ts) else least_distance ts)"
  by (simp add: least_distance_def)

lemma least_distance_le: "t \<in> set ts \<Longrightarrow> is_routable t \<Longrightarrow> least_distance ts \<le> tb_distance t"
  by (induction ts rule: rev_induct) (auto simp: least_distance_snoc min.coboundedI2)

lemma least_distance_attained:
  "\<exists>t\<in>set ts. is_routable t \<Longrightarrow> \<exists>t\<in>set ts. is_routable t \<and> tb_distance t = least_distance ts"
proof (induction ts rule: rev_induct)
  case (snoc t ts)
  show ?case
  proof (cases "\<exists>t\<in>set ts. is_routable t")
    case True
    with snoc.IH show ?thesis by (auto simp: least_distance_snoc min_def)
  next
    case False
    then have "least_distance ts = - 1" by (auto simp: least_distance_def filter_empty_conv filter_False)
    with snoc.prems False show ?thesis by (auto simp: least_distance_snoc min_def)
  qed
qed simp

lemma max_is_remote: "\<not> (- 1 :: u32) \<le> 5" "\<not> is_local_distance (- 1)"
  by (simp_all add: is_local_distance_def MAX_LOCAL_REPLICA_DISTANCE_def word_le_nat_alt
      unsigned_minus_1_eq_mask mask_eq_exp_minus_1)

lemma least_is_local: "is_local_distance (least_distance ts) \<longleftrightarrow> (\<exists>t\<in>set ts. is_routable t \<and> is_local_distance (tb_distance t))"
proof (induction ts rule: rev_induct)
  case Nil
  then show ?case by (simp add: least_distance_def max_is_remote)
next
  case (snoc t ts)
  then show ?case by (auto simp: least_distance_snoc is_local_distance_def min_le_iff_disj)
qed

lemma nearest_snoc:
  "nearest (ts @ [t]) =
     (if \<not> is_routable t then nearest ts
      else fst (collect_minimum_distance_index (nearest ts, least_distance ts) (length ts) (tb_distance t)))"
proof -
  have nth: "(ts @ [t]) ! i = ts ! i" if "i \<in> set [0..<length ts]" for i using that by (simp add: nth_append)
  have le: "is_routable (ts ! i) \<Longrightarrow> least_distance ts \<le> tb_distance (ts ! i)" if "i \<in> set [0..<length ts]" for i
    using least_distance_le [of "ts ! i" ts] that by simp
  show ?thesis
    using le by (auto simp: nearest_def least_distance_snoc nth collect_minimum_distance_index_def min_def filter_empty_conv
        cong: filter_cong intro!: filter_cong) (metis leD)
qed

lemma least_collect:
  "is_routable t \<Longrightarrow> snd (collect_minimum_distance_index (cs, least_distance ts) i (tb_distance t)) = least_distance (ts @ [t])"
  by (auto simp: collect_minimum_distance_index_def least_distance_snoc min_def)

lemma collect_switch:
  "is_local_distance d \<Longrightarrow> \<not> is_local_distance l \<Longrightarrow>
   collect_minimum_distance_index ([], - 1) i d = collect_minimum_distance_index (cs, l) i d"
  using max_is_remote(2) word_order.extremum [of d]
  by (auto simp: collect_minimum_distance_index_def is_local_distance_def)


lemma eligible_loop_nearest:
  "eligible_loop ts (length ps) (nearest ps, least_distance ps) (is_local_distance (least_distance ps)) = nearest (ps @ ts)"
proof (induction ts arbitrary: ps)
  case Nil then show ?case by simp
next
  case (Cons t ts)
  note IH = Cons.IH [of "ps @ [t]"]
  let ?cm = "collect_minimum_distance_index (nearest ps, least_distance ps) (length ps) (tb_distance t)"
  show ?case
  proof (cases "is_routable t")
    case False
    with IH show ?thesis by (simp add: nearest_snoc least_distance_snoc)
  next
    case True
    have new: "?cm = (nearest (ps @ [t]), least_distance (ps @ [t]))"
      using True least_collect [OF True, of "nearest ps" ps "length ps"] by (simp add: nearest_snoc prod_eq_iff)
    have loc: "is_local_distance (least_distance (ps @ [t])) \<longleftrightarrow>
        is_local_distance (least_distance ps) \<or> is_local_distance (tb_distance t)"
      using True by (auto simp: least_is_local)
    have far: "?cm = (nearest ps, least_distance ps)"
      if "is_local_distance (least_distance ps)" "\<not> is_local_distance (tb_distance t)"
      using that by (auto simp: collect_minimum_distance_index_def is_local_distance_def)
    consider "is_local_distance (tb_distance t)" "\<not> is_local_distance (least_distance ps)"
      | "\<not> is_local_distance (tb_distance t)" "is_local_distance (least_distance ps)"
      | "is_local_distance (tb_distance t) = is_local_distance (least_distance ps)" by blast
    then show ?thesis
    proof cases
      case 1
      with IH loc True new collect_switch [OF 1, of "length ps" "nearest ps"] show ?thesis by simp
    next
      case 2
      with IH loc True new far [OF 2(2,1)] show ?thesis by simp
    next
      case 3
      with IH loc True new show ?thesis by simp
    qed
  qed
qed

lemma compute_eligible_nearest: "compute_eligible_replica_indices ts = nearest ts"
  using eligible_loop_nearest [of ts "[]"] max_is_remote(2)
  by (simp add: compute_eligible_replica_indices_def nearest_def least_distance_def)

section \<open>Looking up a key\<close>

lemma bt_last_upto_covers:
  assumes wf: "ranges_wf m"
  shows "find (\<lambda>r. covers r k) m =
    (case bt_last_upto k m of Some r \<Rightarrow> if covers_key r k then Some r else None | None \<Rightarrow> None)"
proof (cases "bt_last_upto k m")
  case None
  then have "\<forall>r\<in>set m. \<not> covers r k" by (auto simp: bt_last_upto_None covers_def)
  with None show ?thesis by (simp add: find_None_iff)
next
  case (Some f)
  have srt: "ranges_sorted m" using wf by (simp add: ranges_wf_def)
  note f = bt_last_upto_Some [OF srt Some]
  show ?thesis
  proof (cases "covers_key f k")
    case True
    then have "covers f k" using f(2) by (simp add: covers_def)
    with f(1) Some True show ?thesis by (simp add: find_covers_iff [OF wf])
  next
    case False
    have "\<not> covers r k" if r: "r \<in> set m" for r
    proof
      assume c: "covers r k"
      then have "r \<noteq> f" "cr_start r \<le> cr_start f" using False f(3) [OF r] by (auto simp: covers_def)
      then have "before r f" using before_or_after [OF wf r f(1)] wf r f(1)
        by (auto simp: ranges_wf_def ranges_apart_def before_def valid_range_def covers_key_def)
      with f(2) c show False by (auto simp: before_def covers_def covers_key_def)
    qed
    with False Some show ?thesis by (simp add: find_None_iff)
  qed
qed


text \<open>A lookup changes nothing but times of access.\<close>

definition retimed :: "(cached_range \<Rightarrow> cached_range) \<Rightarrow> bool" where
  "retimed f \<longleftrightarrow> (\<forall>x. cr_start (f x) = cr_start x \<and> cr_limit (f x) = cr_limit x \<and> cr_group (f x) = cr_group x \<and>
     cr_split (f x) = cr_split x \<and> cr_generation (f x) = cr_generation x)"

lemma retimed_covers: "retimed f \<Longrightarrow> covers (f x) k = covers x k"
  by (simp add: retimed_def covers_def covers_key_def)

lemma retimed_wf: "retimed f \<Longrightarrow> ranges_wf m \<Longrightarrow> ranges_wf (map f m)"
  by (auto simp: retimed_def ranges_wf_def ranges_sorted_def ranges_apart_def sorted_wrt_map valid_range_def
      covers_key_def before_def)

lemma retimed_route: "retimed f \<Longrightarrow> route (map f m) k = route m k"
proof (induction m)
  case (Cons x m)
  then show ?case by (simp add: route_def retimed_covers) (simp add: retimed_def)
qed (simp add: route_def)

lemma retimed_uses: "retimed f \<Longrightarrow> uses (mset (map f m)) g = uses (mset m) g"
  by (simp add: uses_def image_mset.compositionality comp_def retimed_def)

lemma touch_retimed:
  obtains f where "retimed f" "kr_ranges (snd (touch r c)) = map f (kr_ranges c)"
    "kr_groups (snd (touch r c)) = kr_groups c" "fst (touch r c) = Some (r\<lparr>cr_last_access := kr_access_counter c + 1\<rparr>)"
  by (rule that [of "\<lambda>x. if cr_start x = cr_start r then x\<lparr>cr_last_access := kr_access_counter c + 1\<rparr> else x"])
    (simp_all add: retimed_def touch_def access_time_now_def)

lemma find_range_shape:
  "find_range pick key limit mode c = (None, c) \<or>
   (\<exists>r. find_range pick key limit mode c = touch r c)"
proof -
  have "find_random pick key limit first c = (None, c) \<or> (\<exists>r. find_random pick key limit first c = touch r c)" for first
    by (auto simp: find_random_def Let_def split: prod.split option.split)
  then show ?thesis by (auto simp: find_range_def Let_def split: option.split)
qed

lemma find_range_keeps:
  "\<exists>f. retimed f \<and> kr_ranges (snd (find_range pick key limit mode c)) = map f (kr_ranges c) \<and>
     kr_groups (snd (find_range pick key limit mode c)) = kr_groups c"
proof (cases "find_range pick key limit mode c = (None, c)")
  case True
  then show ?thesis by (intro exI [of _ id]) (simp add: retimed_def)
next
  case False
  then obtain r where "find_range pick key limit mode c = touch r c" using find_range_shape by blast
  then show ?thesis using touch_retimed [of r c] by metis
qed

lemma find_range_ok:
  assumes "cache_ok c []"
  shows "cache_ok (snd (find_range pick key limit mode c)) [] \<and>
    route (kr_ranges (snd (find_range pick key limit mode c))) = route (kr_ranges c)"
proof -
  obtain f where f: "retimed f" "kr_ranges (snd (find_range pick key limit mode c)) = map f (kr_ranges c)"
    "kr_groups (snd (find_range pick key limit mode c)) = kr_groups c" using find_range_keeps by blast
  show ?thesis using assms f(2) retimed_wf [OF f(1)] retimed_uses [OF f(1)] retimed_route [OF f(1)]
      same_groups(1,2) [OF f(3)] f(3)
    by (auto simp: cache_ok_def)
qed

lemma find_range_point:
  assumes "ranges_wf (kr_ranges c)"
  shows "map_option (\<lambda>r. (cr_group r, cr_split r, cr_generation r)) (fst (find_range pick key [] mode c)) =
    route (kr_ranges c) key"
  by (simp add: find_range_def Let_def route_def bt_last_upto_covers [OF assms] touch_def access_time_now_def
      split: option.split)

lemma find_range_covering:
  assumes wf: "ranges_wf (kr_ranges c)" and lim: "limit \<noteq> []"
  shows "map_option (\<lambda>r. (cr_group r, cr_split r, cr_generation r)) (fst (find_range pick key limit CoveringSplit c)) =
    (if \<exists>r\<in>set (kr_ranges c). covers r key \<and> (cr_limit r = [] \<or> limit \<le> cr_limit r) then route (kr_ranges c) key
     else None)"
proof -
  have "(\<exists>r\<in>set (kr_ranges c). covers r key \<and> (cr_limit r = [] \<or> limit \<le> cr_limit r)) \<longleftrightarrow>
    (case find (\<lambda>r. covers r key) (kr_ranges c) of None \<Rightarrow> False | Some r \<Rightarrow> cr_limit r = [] \<or> limit \<le> cr_limit r)"
  proof (cases "find (\<lambda>r. covers r key) (kr_ranges c)")
    case None
    then have "\<forall>r\<in>set (kr_ranges c). \<not> covers r key" by (simp add: find_None_iff)
    with None show ?thesis by simp
  next
    case (Some f)
    then have f: "f \<in> set (kr_ranges c)" "covers f key" by (simp_all add: find_covers_iff [OF wf])
    then have "r \<in> set (kr_ranges c) \<and> covers r key \<longleftrightarrow> r = f" for r
      using covers_unique [OF wf] by blast
    then show ?thesis unfolding Bex_def conj_assoc [symmetric] using Some by simp
  qed
  then show ?thesis using lim
    by (auto simp: find_range_def Let_def route_def bt_last_upto_covers [OF wf] touch_def access_time_now_def
      split: option.split)
qed


text \<open>The scan over the ranges of \<open>[key, limit)\<close>.\<close>

definition covered_upto :: "cached_range list \<Rightarrow> bytes \<Rightarrow> bytes \<Rightarrow> bytes \<Rightarrow> bool" where
  "covered_upto m key limit l \<longleftrightarrow>
     (\<forall>k. key \<le> k \<longrightarrow> k < limit \<longrightarrow> l = [] \<or> k < l \<longrightarrow> (\<exists>r\<in>set m. covers r k))"

definition scan_ok :: "cached_range list \<Rightarrow> bytes \<Rightarrow> bytes \<Rightarrow> cached_range list \<Rightarrow> scan_state \<Rightarrow> bool" where
  "scan_ok m key limit xs s \<longleftrightarrow>
     (\<forall>r. sc_sampled s = Some r \<longrightarrow> r \<in> set m \<and> (\<exists>k. key \<le> k \<and> k < limit \<and> covers r k)) \<and>
     (\<not> sc_found_gap s \<longrightarrow> covered_upto m key limit (sc_last_limit s)) \<and> sc_total s + length xs \<le> length m"

lemma pick_loop_ok:
  assumes "scan_ok m key limit xs s" "\<forall>x\<in>set xs. x \<in> set m \<and> valid_range x \<and> key \<le> cr_start x"
  shows "scan_ok m key limit [] (pick_loop pick n limit xs s)"
  using assms
proof (induction xs arbitrary: s)
  case Nil then show ?case by (simp add: scan_ok_def)
next
  case (Cons x xs)
  show ?case
  proof (cases "limit \<le> cr_start x")
    case True
    with Cons.prems show ?thesis by (simp add: scan_ok_def)
  next
    case False
    let ?s = "\<lparr>sc_total = sc_total s + 1, sc_found_gap = (sc_found_gap s \<or> sc_last_limit s \<noteq> cr_start x),
      sc_sampled = (if sc_total s + 1 = 1 \<or> pick (sc_total s + 1) = 0 then Some x else sc_sampled s),
      sc_last_limit = cr_limit x\<rparr>"
    have x: "x \<in> set m" "valid_range x" "key \<le> cr_start x" using Cons.prems(2) by auto
    have "covers x (cr_start x)" using x(2) by (simp add: covers_def valid_range_def)
    then have gx: "\<exists>k. key \<le> k \<and> k < limit \<and> covers x k" using x(3) False by (auto simp: not_le)
    have cov: "covered_upto m key limit (cr_limit x)"
      if "covered_upto m key limit (cr_start x)"
      unfolding covered_upto_def
    proof (intro allI impI)
      fix k assume k: "key \<le> k" "k < limit" "cr_limit x = [] \<or> k < cr_limit x"
      show "\<exists>r\<in>set m. covers r k"
      proof (cases "k < cr_start x")
        case True with that k show ?thesis by (auto simp: covered_upto_def)
      next
        case False with x(1) k show ?thesis by (intro bexI [of _ x]) (auto simp: covers_def covers_key_def not_less)
      qed
    qed
    have "scan_ok m key limit xs ?s" using Cons.prems(1) gx cov x(1) by (auto simp: scan_ok_def)
    moreover from this have "scan_ok m key limit [] ?s" by (simp add: scan_ok_def)
    ultimately show ?thesis using Cons.IH [of ?s] Cons.prems(2) False by (simp add: Let_def)
  qed
qed

lemma pick_start_ok:
  assumes wf: "ranges_wf m" and kl: "key < limit"
    and p: "pick_start key (bt_last_upto key m) m = (s0, xs)"
  shows "scan_ok m key limit xs s0" "\<forall>x\<in>set xs. x \<in> set m \<and> valid_range x \<and> key \<le> cr_start x"
proof -
  have srt: "ranges_sorted m" using wf by (simp add: ranges_wf_def)
  have val: "\<And>x. x \<in> set m \<Longrightarrow> valid_range x" using wf by (simp add: ranges_wf_def ranges_apart_def)
  show "scan_ok m key limit xs s0"
  proof (cases "bt_last_upto key m")
    case None
    with p show ?thesis by (auto simp: pick_start_def scan_ok_def)
  next
    case (Some f)
    note f = bt_last_upto_Some [OF srt Some]
    have "length (filter (\<lambda>x. cr_start f < cr_start x) m) < length m"
      using length_filter_less [OF f(1), of "\<lambda>x. cr_start f < cr_start x"] by simp
    moreover have "covered_upto m key limit (cr_limit f)"
      using f(1,2) by (auto simp: covered_upto_def covers_def covers_key_def intro!: bexI [of _ f])
    ultimately show ?thesis using Some f p kl
      by (auto simp: pick_start_def scan_ok_def covers_def covers_key_def split: if_splits)
  qed
  show "\<forall>x\<in>set xs. x \<in> set m \<and> valid_range x \<and> key \<le> cr_start x"
  proof (cases "bt_last_upto key m")
    case None
    with p val show ?thesis by (auto simp: pick_start_def)
  next
    case (Some f)
    have "key \<le> cr_start x" if "x \<in> set m" "cr_start f < cr_start x" for x
      using bt_last_upto_Some(3) [OF srt Some that(1)] that(2) by (cases "cr_start x \<le> key") auto
    with Some p val show ?thesis by (auto simp: pick_start_def split: if_splits)
  qed
qed

lemma find_random_sound:
  assumes wf: "ranges_wf (kr_ranges c)" and kl: "key < limit"
    and r: "fst (find_random pick key limit (bt_last_upto key (kr_ranges c)) c) = Some r"
  shows "\<exists>r0\<in>set (kr_ranges c). r = r0\<lparr>cr_last_access := kr_access_counter c + 1\<rparr> \<and>
      (\<exists>k. key \<le> k \<and> k < limit \<and> covers r k) \<and>
      ((\<forall>k. key \<le> k \<and> k < limit \<longrightarrow> route (kr_ranges c) k \<noteq> None) \<or> kr_min_entries c \<le> length (kr_ranges c))"
proof -
  obtain s0 xs where p: "pick_start key (bt_last_upto key (kr_ranges c)) (kr_ranges c) = (s0, xs)" by fastforce
  define s where "s = pick_loop pick (kr_min_entries c) limit xs s0"
  note ok = pick_loop_ok [OF pick_start_ok [OF wf kl p], of pick "kr_min_entries c", folded s_def]
  obtain r0 where r0: "sc_sampled s = Some r0" "r = r0\<lparr>cr_last_access := kr_access_counter c + 1\<rparr>"
    "\<not> (sc_found_gap s \<or> sc_last_limit s \<noteq> [] \<and> sc_last_limit s < limit) \<or> kr_min_entries c \<le> sc_total s"
    using r by (auto simp: find_random_def p s_def [symmetric] Let_def touch_def access_time_now_def
        split: option.splits if_splits)
  have "\<exists>k. key \<le> k \<and> k < limit \<and> covers r k"
    using ok r0(1,2) by (auto simp: scan_ok_def covers_def covers_key_def)
  moreover have "(\<forall>k. key \<le> k \<and> k < limit \<longrightarrow> route (kr_ranges c) k \<noteq> None) \<or> kr_min_entries c \<le> length (kr_ranges c)"
    using r0(3)
  proof
    assume "\<not> (sc_found_gap s \<or> sc_last_limit s \<noteq> [] \<and> sc_last_limit s < limit)"
    then have "covered_upto (kr_ranges c) key limit (sc_last_limit s)"
      "sc_last_limit s = [] \<or> limit \<le> sc_last_limit s" using ok by (auto simp: scan_ok_def)
    then show ?thesis by (auto simp: covered_upto_def route_uncovered)
  qed (use ok in \<open>simp add: scan_ok_def\<close>)
  ultimately show ?thesis using ok r0(1,2) by (auto simp: scan_ok_def)
qed


lemma sorted_after_tail:
  assumes "ranges_sorted m" "filter (\<lambda>x. cr_start p < cr_start x) m = x # xs"
  shows "xs = filter (\<lambda>y. cr_start x < cr_start y) m"
proof -
  have srt: "ranges_sorted (x # xs)" using ranges_sorted_filter [OF assms(1), of "\<lambda>x. cr_start p < cr_start x"] assms(2) by simp
  have px: "cr_start p < cr_start x" using assms(2) by (metis filter_eq_ConsD)
  have "filter (\<lambda>y. cr_start x < cr_start y) m = filter (\<lambda>y. cr_start x < cr_start y) (x # xs)"
    unfolding assms(2) [symmetric] filter_filter using px by (auto intro!: filter_cong)
  also have "\<dots> = xs" using srt by (auto simp: ranges_sorted_def filter_id_conv)
  finally show ?thesis by simp
qed

text \<open>If every key is covered, the range after \<open>p\<close> starts where \<open>p\<close> ends.\<close>

lemma next_range_adjacent:
  assumes wf: "ranges_wf m" and p: "p \<in> set m" "cr_limit p \<noteq> []" "cr_limit p < limit" "key \<le> cr_limit p"
    and cov: "covered_upto m key limit []"
  obtains x xs where "filter (\<lambda>x. cr_start p < cr_start x) m = x # xs" "cr_start x = cr_limit p" "x \<in> set m"
proof -
  let ?F = "filter (\<lambda>x. cr_start p < cr_start x) m"
  have srt: "ranges_sorted m" and vp: "valid_range p"
    using wf p(1) by (auto simp: ranges_wf_def ranges_apart_def)
  obtain y where y: "y \<in> set m" "covers y (cr_limit p)" using cov p(3,4) by (auto simp: covered_upto_def)
  have "y \<noteq> p" using y(2) p(2) by (auto simp: covers_def covers_key_def)
  with before_or_after [OF wf y(1) p(1)] y(2) vp p(2) have "before p y"
    by (auto simp: before_def covers_def covers_key_def valid_range_def)
  with y(2) vp have sy: "cr_start y = cr_limit p" "cr_start p < cr_start y"
    by (auto simp: before_def covers_def valid_range_def covers_key_def)
  then obtain x xs where F: "?F = x # xs" using y(1) by (cases ?F) (auto simp: filter_empty_conv)
  have x: "x \<in> set m" "cr_start p < cr_start x" using arg_cong [OF F, of set] by auto
  have "y \<in> set ?F" using y(1) sy(2) by simp
  then have "cr_start (hd ?F) \<le> cr_start y" by (rule sorted_hd_le [OF ranges_sorted_filter [OF srt]])
  then have "cr_start x \<le> cr_start y" unfolding F by simp
  moreover have "before p x" using wf x p(1) by (simp add: ranges_wf_def ranges_apart_def)
  ultimately have "cr_start x = cr_limit p" using sy(1) by (auto simp: before_def)
  with that F x(1) show thesis by blast
qed

lemma pick_loop_complete:
  assumes wf: "ranges_wf m" and cov: "covered_upto m key limit []"
  shows "p \<in> set m \<Longrightarrow> xs = filter (\<lambda>x. cr_start p < cr_start x) m \<Longrightarrow> cr_limit p \<noteq> [] \<Longrightarrow>
    cr_limit p < limit \<Longrightarrow> key \<le> cr_limit p \<Longrightarrow> sc_last_limit s = cr_limit p \<Longrightarrow> \<not> sc_found_gap s \<Longrightarrow>
    sc_sampled s \<noteq> None \<Longrightarrow> s' = pick_loop pick n limit xs s \<Longrightarrow>
    sc_sampled s' \<noteq> None \<and>
    (\<not> (sc_found_gap s' \<or> sc_last_limit s' \<noteq> [] \<and> sc_last_limit s' < limit) \<or> n \<le> sc_total s')"
proof (induction xs arbitrary: p s)
  case Nil
  with next_range_adjacent [OF wf Nil.prems(1,3,4,5) cov] show ?case by (metis list.distinct(1))
next
  case (Cons x xs)
  have eq: "cr_start x = cr_limit p" and xm: "x \<in> set m"
    using next_range_adjacent [OF wf Cons.prems(1,3,4,5) cov] Cons.prems(2) by (metis list.inject)+
  have vx: "valid_range x" and srt: "ranges_sorted m" using wf xm by (auto simp: ranges_wf_def ranges_apart_def)
  let ?s = "\<lparr>sc_total = sc_total s + 1, sc_found_gap = False,
    sc_sampled = (if sc_total s + 1 = 1 \<or> pick (sc_total s + 1) = 0 then Some x else sc_sampled s),
    sc_last_limit = cr_limit x\<rparr>"
  have step: "pick_loop pick n limit (x # xs) s =
      (if cr_limit x = [] \<or> limit \<le> cr_limit x \<or> n \<le> sc_total s + 1 then ?s else pick_loop pick n limit xs ?s)"
    using Cons.prems(4,6,7) eq by (simp add: Let_def)
  show ?case
  proof (cases "cr_limit x = [] \<or> limit \<le> cr_limit x \<or> n \<le> sc_total s + 1")
    case True
    with step Cons.prems(8,9) show ?thesis by auto
  next
    case False
    have "key \<le> cr_limit x" using vx Cons.prems(5) eq False by (auto simp: valid_range_def covers_key_def)
    moreover have "s' = pick_loop pick n limit xs ?s" using step Cons.prems(9) False by (simp only: if_False)
    ultimately show ?thesis using False Cons.prems(8)
      by (intro Cons.IH [OF xm sorted_after_tail [OF srt Cons.prems(2) [symmetric]], of ?s]) (simp_all add: not_le)
  qed
qed

lemma find_random_complete:
  assumes wf: "ranges_wf (kr_ranges c)" and kl: "key < limit"
    and cov: "covered_upto (kr_ranges c) key limit []"
    and f: "bt_last_upto key (kr_ranges c) = Some f" "cr_limit f \<noteq> []" "cr_limit f < limit"
  shows "fst (find_random pick key limit (Some f) c) \<noteq> None"
proof -
  have srt: "ranges_sorted (kr_ranges c)" using wf by (simp add: ranges_wf_def)
  note fm = bt_last_upto_Some [OF srt f(1)]
  obtain r where "find (\<lambda>r. covers r key) (kr_ranges c) = Some r"
    using cov kl by (cases "find (\<lambda>r. covers r key) (kr_ranges c)") (auto simp: covered_upto_def find_None_iff)
  then have ck: "covers_key f key" using f(1) by (auto simp: bt_last_upto_covers [OF wf] split: if_splits)
  let ?s0 = "\<lparr>sc_total = 1, sc_found_gap = False, sc_sampled = Some f, sc_last_limit = cr_limit f\<rparr>"
  let ?xs = "filter (\<lambda>x. cr_start f < cr_start x) (kr_ranges c)"
  have "key \<le> cr_limit f" using ck f(2) by (simp add: covers_key_def)
  from pick_loop_complete [OF wf cov fm(1) refl f(2,3) this, of ?s0 _ pick "kr_min_entries c"]
  show ?thesis using ck by (auto simp: find_random_def pick_start_def Let_def touch_def access_time_now_def
      split: option.split)
qed


lemma first_covers:
  assumes "ranges_sorted m" "bt_last_upto key m = Some f" "covers_key f key"
    "cr_limit f = [] \<or> limit \<le> cr_limit f"
  shows "f \<in> set m" "covers f key" "covered_upto m key limit []"
  using bt_last_upto_Some [OF assms(1,2)] assms(3,4)
  by (auto simp: covers_def covered_upto_def covers_key_def intro!: bexI [of _ f])

lemma find_range_random_sound:
  assumes wf: "ranges_wf (kr_ranges c)" and kl: "key < limit"
    and r: "fst (find_range pick key limit PickRandom c) = Some r"
  shows "(\<exists>k. key \<le> k \<and> k < limit \<and> covers r k) \<and>
    (covered_upto (kr_ranges c) key limit [] \<or> kr_min_entries c \<le> length (kr_ranges c))"
proof (cases "\<exists>f. bt_last_upto key (kr_ranges c) = Some f \<and> covers_key f key \<and> (cr_limit f = [] \<or> limit \<le> cr_limit f)")
  case True
  then obtain f where f: "bt_last_upto key (kr_ranges c) = Some f" "covers_key f key"
    "cr_limit f = [] \<or> limit \<le> cr_limit f" by blast
  have lim: "limit \<noteq> []" and "ranges_sorted (kr_ranges c)" using wf kl by (auto simp: ranges_wf_def)
  note fc = first_covers [OF this(2) f]
  have "r = f\<lparr>cr_last_access := kr_access_counter c + 1\<rparr>"
    using r f lim by (auto simp: find_range_def touch_def access_time_now_def)
  with fc kl show ?thesis by (auto simp: covers_def covers_key_def)
next
  case False
  then have "find_range pick key limit PickRandom c = find_random pick key limit (bt_last_upto key (kr_ranges c)) c"
    using kl by (auto simp: find_range_def Let_def split: option.split)
  with find_random_sound [OF wf kl] r show ?thesis by (auto simp: covered_upto_def route_uncovered)
qed

lemma find_range_random_complete:
  assumes wf: "ranges_wf (kr_ranges c)" and kl: "key < limit" and cov: "covered_upto (kr_ranges c) key limit []"
  shows "fst (find_range pick key limit PickRandom c) \<noteq> None"
proof -
  obtain r where "find (\<lambda>r. covers r key) (kr_ranges c) = Some r"
    using cov kl by (cases "find (\<lambda>r. covers r key) (kr_ranges c)") (auto simp: covered_upto_def find_None_iff)
  then obtain f where f: "bt_last_upto key (kr_ranges c) = Some f" "covers_key f key"
    by (auto simp: bt_last_upto_covers [OF wf] split: option.splits if_splits)
  show ?thesis
  proof (cases "cr_limit f = [] \<or> limit \<le> cr_limit f")
    case True
    with f kl show ?thesis by (auto simp: find_range_def Let_def touch_def access_time_now_def)
  next
    case False
    with find_random_complete [OF wf kl cov f(1)] f kl show ?thesis
      by (auto simp: find_range_def Let_def not_le)
  qed
qed

section \<open>Properties\<close>

text \<open>A cache of one range, and an update of its middle.\<close>

definition one_range_cache :: key_cache where
  "one_range_cache = \<lparr>kr_ranges = [\<lparr>cr_start = [1], cr_limit = [9], cr_group = 7, cr_split = 1,
      cr_generation = [1], cr_last_access = 1\<rparr>],
    kr_groups = [(7, \<lparr>ge_group = None, ge_references = 1\<rparr>)], kr_access_counter = 1, kr_min_entries = 1000\<rparr>"

definition middle_update :: range_in where
  "middle_update = \<lparr>ri_start = [3], ri_limit = [5], ri_group = 8, ri_split = 2, ri_generation = [2]\<rparr>"

lemma one_range_cache_ok: "cache_ok one_range_cache []"
  by (auto simp: cache_ok_def one_range_cache_def ranges_wf_def ranges_sorted_def ranges_apart_def valid_range_def
      covers_key_def refs_def zeros_in_def)

lemma middle_update_accepted: "accepted middle_update (kr_ranges one_range_cache)"
  by (simp add: accepted_def middle_update_def one_range_cache_def malformed_def stale_def)

text \<open>
  C36. Learning a range. On a cache whose ranges are disjoint and whose group entries count the
  ranges that use them, an update never panics (the bounds it gives to the map are in order) and keeps
  that invariant. It refines the map from keys to answers: an update that is well-formed and not older
  than any range it meets answers exactly the keys of its range, and every other key keeps its answer,
  though the ranges around may be cut; any other update changes no answer.\<close>

theorem range_update_refines:
  assumes "cache_ok c unref"
  shows "\<exists>c' unref'. replace_range_if_newer ri (c, unref) = Ret (c', unref') \<and> cache_ok c' unref' \<and>
    (\<forall>k. route (kr_ranges c') k =
      (if accepted ri (kr_ranges c) \<and> in_update ri k then Some (ri_group ri, ri_split ri, ri_generation ri)
       else route (kr_ranges c) k))"
  by (rule range_update_step [OF assms, unfolded update_info_def])

theorem range_update_refines_witness:
  "cache_ok one_range_cache [] \<and>
   (\<exists>c' unref'. replace_range_if_newer middle_update (one_range_cache, []) = Ret (c', unref') \<and>
      route (kr_ranges c') [4] = Some (8, 2, [2]) \<and> route (kr_ranges c') [6] = Some (7, 1, [1]) \<and>
      route (kr_ranges c') [9] = None)"
proof -
  obtain c' unref' where c': "replace_range_if_newer middle_update (one_range_cache, []) = Ret (c', unref')"
    "\<And>k. route (kr_ranges c') k = (if accepted middle_update (kr_ranges one_range_cache) \<and> in_update middle_update k
      then Some (ri_group middle_update, ri_split middle_update, ri_generation middle_update)
      else route (kr_ranges one_range_cache) k)"
    using range_update_refines [OF one_range_cache_ok, of middle_update] by blast
  have "route (kr_ranges c') [4] = Some (8, 2, [2]) \<and> route (kr_ranges c') [6] = Some (7, 1, [1]) \<and>
      route (kr_ranges c') [9] = None"
    unfolding c'(2) by (simp add: middle_update_accepted)
      (simp add: in_update_def middle_update_def route_def one_range_cache_def covers_def covers_key_def)
  with c'(1) one_range_cache_ok show ?thesis by blast
qed

text \<open>
  C37. Whole updates. Starting from a cache that satisfies the invariant, applying a message never
  panics and keeps the invariant; afterwards the groups that have an entry are exactly those that some
  cached range names; every key that had an answer still has one, of a generation that is not older;
  every answer that changed is that of a range of the message that contains the key; and if the
  message is reported to have changed no group, the active addresses are those from before.\<close>

theorem cache_message_applied:
  assumes "cache_ok c []"
  shows "\<exists>b c'. add_ranges ris gs c = Ret (b, c') \<and> cache_ok c' [] \<and>
    fst ` set (kr_groups c') = cr_group ` set (kr_ranges c') \<and>
    route_newer (kr_ranges c) (kr_ranges c') \<and> answered_by ris (kr_ranges c) (kr_ranges c') \<and>
    (b \<or> active_addresses c' = active_addresses c)"
proof -
  obtain b c' where c': "add_ranges ris gs c = Ret (b, c')" "cache_ok c' []"
    "route_newer (kr_ranges c) (kr_ranges c')" "answered_by ris (kr_ranges c) (kr_ranges c')"
    "\<not> b \<Longrightarrow> (\<forall>h. get_group h c' = get_group h c)"
    using add_ranges_ok [OF assms] by blast
  have "b \<or> active_addresses c' = active_addresses c"
  proof (cases b)
    case False
    have d: "distinct (map fst (kr_groups c'))" "distinct (map fst (kr_groups c))"
      using c'(2) assms by (simp_all add: cache_ok_def)
    show ?thesis unfolding d [THEN active_addresses_eq] using c'(5) [OF False] by simp
  qed simp
  with c' cache_ok_groups [OF c'(2)] show ?thesis by blast
qed

theorem cache_message_applied_witness:
  "cache_ok one_range_cache [] \<and>
   (\<exists>b c'. add_ranges [middle_update] [] one_range_cache = Ret (b, c') \<and> cache_ok c' [] \<and>
      fst ` set (kr_groups c') = cr_group ` set (kr_ranges c') \<and>
      route_newer (kr_ranges one_range_cache) (kr_ranges c'))"
  using cache_message_applied [OF one_range_cache_ok, of "[middle_update]" "[]"] one_range_cache_ok by blast

text \<open>
  Replica choice. The replicas that are eligible for reads are the routable tablets whose
  distance is least among the routable tablets, in order: the two tiers of the loop never change
  that.\<close>

theorem eligible_replicas_nearest:
  "compute_eligible_replica_indices ts =
     filter (\<lambda>i. is_routable (ts ! i) \<and>
       list_all (\<lambda>t. tb_distance (ts ! i) \<le> tb_distance t) (filter is_routable ts)) [0..<length ts]"
  unfolding compute_eligible_nearest nearest_def
proof (rule filter_cong [OF refl], rule conj_cong [OF refl])
  fix i assume "i \<in> set [0..<length ts]" and r: "is_routable (ts ! i)"
  then have "ts ! i \<in> set ts" by simp
  with least_distance_attained [of ts] least_distance_le [of _ ts] r
  show "tb_distance (ts ! i) = least_distance ts \<longleftrightarrow>
      list_all (\<lambda>t. tb_distance (ts ! i) \<le> tb_distance t) (filter is_routable ts)"
    by (auto simp: list_all_iff) (metis order_antisym)
qed

text \<open>
  Lookups. A lookup keeps the invariant and every answer. For one key it returns the range
  that covers the key, if any. For a span of keys that must lie in one split it returns that range only
  if it covers the whole span. With random choice, it returns a range that shares a key with the span;
  and then either every key of the span is covered or the cache holds the minimum of entries.\<close>

theorem find_range_answers:
  assumes "cache_ok c []" "key < limit"
  shows "cache_ok (snd (find_range pick key lim mode c)) [] \<and>
    route (kr_ranges (snd (find_range pick key lim mode c))) = route (kr_ranges c) \<and>
    map_option (\<lambda>r. (cr_group r, cr_split r, cr_generation r)) (fst (find_range pick key [] mode c)) =
      route (kr_ranges c) key \<and>
    map_option (\<lambda>r. (cr_group r, cr_split r, cr_generation r))
        (fst (find_range pick key limit CoveringSplit c)) =
      (if \<exists>r\<in>set (kr_ranges c). covers r key \<and> (cr_limit r = [] \<or> limit \<le> cr_limit r)
       then route (kr_ranges c) key else None) \<and>
    (\<forall>r. fst (find_range pick key limit PickRandom c) = Some r \<longrightarrow>
       (\<exists>k. key \<le> k \<and> k < limit \<and> covers r k) \<and>
       (covered_upto (kr_ranges c) key limit [] \<or> kr_min_entries c \<le> length (kr_ranges c))) \<and>
    (covered_upto (kr_ranges c) key limit [] \<longrightarrow> fst (find_range pick key limit PickRandom c) \<noteq> None)"
proof -
  have wf: "ranges_wf (kr_ranges c)" using assms by (simp add: cache_ok_def)
  have lim: "limit \<noteq> []" using assms(2) by auto
  have sound: "(\<exists>k. key \<le> k \<and> k < limit \<and> covers r k) \<and>
       (covered_upto (kr_ranges c) key limit [] \<or> kr_min_entries c \<le> length (kr_ranges c))"
    if "fst (find_range pick key limit PickRandom c) = Some r" for r
    using find_range_random_sound [OF wf assms(2) that] .
  have complete: "fst (find_range pick key limit PickRandom c) \<noteq> None" if "covered_upto (kr_ranges c) key limit []"
    using find_range_random_complete [OF wf assms(2) that] .
  show ?thesis using find_range_ok [OF assms(1)] find_range_point [OF wf] find_range_covering [OF wf lim]
      sound complete by blast
qed

theorem find_range_answers_witness:
  "cache_ok one_range_cache [] \<and> [2] < ([4] :: bytes) \<and>
   map_option (\<lambda>r. (cr_group r, cr_split r, cr_generation r))
     (fst (find_range (\<lambda>n. 0) [2] [4] CoveringSplit one_range_cache)) = Some (7, 1, [1]) \<and>
   map_option (\<lambda>r. (cr_group r, cr_split r, cr_generation r))
     (fst (find_range (\<lambda>n. 0) [2] [] CoveringSplit one_range_cache)) = Some (7, 1, [1])"
proof -
  have lt: "[2] < ([4] :: bytes)" by simp
  have r: "route (kr_ranges one_range_cache) [2] = Some (7, 1, [1])"
    "\<exists>r\<in>set (kr_ranges one_range_cache). covers r [2] \<and> (cr_limit r = [] \<or> [4] \<le> cr_limit r)"
    by (simp_all add: route_def one_range_cache_def covers_def covers_key_def)
  show ?thesis
    using find_range_answers [OF one_range_cache_ok lt, of "\<lambda>n. 0" "[]" CoveringSplit] r one_range_cache_ok lt
    by simp
qed

end
