(* ===== verification/Spanner_Transaction.thy ===== *)
theory Spanner_Transaction
  imports Client_Policies Spanner_Keys
begin

text \<open>
  How the statements of a Spanner transaction share its start, \<open>spanner/src/read_only_transaction.rs\<close>:
  the transaction selector, whose first user begins the transaction inside its own request while the
  others wait, the record of an aborted transaction, and the precommit tokens and the commit of
  \<open>precommit.rs\<close>.

  A lock is held only inside one operation, so each operation is one step on the state. A \<open>Notify\<close>
  is a number; an operation that wakes its waiters returns it. Of the transaction options only the mode
  matters here, a read timestamp is an integer, and the text of an error (\<open>to_string\<close>) is a parameter.
\<close>

section \<open>Precommit tokens and aborted transactions\<close>

record precommit_token =
  pt_seq_num :: int
  pt_token :: "u8 list"

datatype token_tracker = TrackerNoOp | TrackerTrack "precommit_token option"

fun tracker_update :: "token_tracker \<Rightarrow> precommit_token option \<Rightarrow> token_tracker" where
  "tracker_update t None = t"
| "tracker_update TrackerNoOp (Some token) = TrackerNoOp"
| "tracker_update (TrackerTrack current) (Some token) =
     (if (case current of None \<Rightarrow> True | Some c \<Rightarrow> pt_seq_num c < pt_seq_num token)
      then TrackerTrack (Some token) else TrackerTrack current)"

fun tracker_get :: "token_tracker \<Rightarrow> precommit_token option" where
  "tracker_get TrackerNoOp = None"
| "tracker_get (TrackerTrack current) = current"

definition is_internal_emulator_error :: "error \<Rightarrow> bool" where
  "is_internal_emulator_error e \<longleftrightarrow>
     is_some_and (\<lambda>s. status_code s = Internal \<and> str_contains (status_message s) ''Schema generation'' \<and>
       str_contains (status_message s) ''was not registered with the Action Manager'') (error_status e)"

definition is_aborted :: "error \<Rightarrow> bool" where
  "is_aborted e \<longleftrightarrow> is_some_and (\<lambda>s. status_code s = Aborted) (error_status e)"

definition is_aborted_or_emulator_error :: "error \<Rightarrow> bool \<Rightarrow> bool" where
  "is_aborted_or_emulator_error e is_emulator \<longleftrightarrow> is_aborted e \<or> is_emulator \<and> is_internal_emulator_error e"

text \<open>The delay that an error recommends (\<open>extract_retry_delay_from_error\<close>) is a parameter.\<close>

record aborted_info =
  ai_status :: status
  ai_retry_delay :: "duration option"

definition aborted_info_from_error :: "(error \<Rightarrow> duration option) \<Rightarrow> error \<Rightarrow> aborted_info option" where
  "aborted_info_from_error delay_of e =
     map_option (\<lambda>s. \<lparr>ai_status = s, ai_retry_delay = delay_of e\<rparr>) (error_status e)"

definition aborted_to_error :: "aborted_info \<Rightarrow> error" where
  "aborted_to_error info = service (ai_status info)"

datatype aborted_state = AbortedNoOp | AbortedTrack "aborted_info option"

fun aborted_record :: "(error \<Rightarrow> duration option) \<Rightarrow> bool \<Rightarrow> error \<Rightarrow> aborted_state \<Rightarrow> aborted_state" where
  "aborted_record delay_of is_emulator e AbortedNoOp = AbortedNoOp"
| "aborted_record delay_of is_emulator e (AbortedTrack info) =
     (if info \<noteq> None \<or> \<not> is_aborted_or_emulator_error e is_emulator then AbortedTrack info
      else case aborted_info_from_error delay_of e of
             Some i \<Rightarrow> AbortedTrack (Some i)
           | None \<Rightarrow> AbortedTrack info)"

fun aborted_info_of :: "aborted_state \<Rightarrow> aborted_info option" where
  "aborted_info_of AbortedNoOp = None"
| "aborted_info_of (AbortedTrack info) = info"

definition aborted_due_to_failed_initial_statement :: error where
  "aborted_due_to_failed_initial_statement =
     service (set_message (set_code status_default Aborted) ''Aborted due to failed initial statement'')"

section \<open>The transaction selector\<close>

text \<open>A read-write transaction may name a previous transaction whose lock priority it inherits.\<close>

datatype txn_mode = ModeReadWrite "u8 list" | ModeReadOnly | ModePartitionedDml

record txn_options =
  to_mode :: "txn_mode option"

datatype txn_selector = SelectNone | SelectSingleUse txn_options | SelectBegin txn_options | SelectId "u8 list"

fun selector_id :: "txn_selector \<Rightarrow> u8 list option" where
  "selector_id (SelectId i) = Some i"
| "selector_id _ = None"

datatype start_failure = ServiceFailure status | InternalFailure string

text \<open>The message of a \<open>SpannerInternalError\<close> is the source of the errors made by \<open>internal_error\<close>.\<close>

definition failure_from_error :: "(error \<Rightarrow> string) \<Rightarrow> error \<Rightarrow> start_failure" where
  "failure_from_error text e =
     (case error_status e of
        Some s \<Rightarrow> ServiceFailure s
      | None \<Rightarrow> (case source e of Some (MsgError m) \<Rightarrow> InternalFailure m | _ \<Rightarrow> InternalFailure (text e)))"

definition CANNOT_BE_USED :: string where
  "CANNOT_BE_USED = ''Transaction cannot be used: initial statement failed with: ''"

fun failure_to_error :: "start_failure \<Rightarrow> error" where
  "failure_to_error (ServiceFailure s) =
     (let description = (if status_message s = [] then ''status code '' @ code_name (status_code s) else status_message s)
      in service (set_message s (CANNOT_BE_USED @ description)))"
| "failure_to_error (InternalFailure m) = spanner_error (CANNOT_BE_USED @ m)"

datatype txn_state =
    NotStarted txn_options
  | Starting txn_options nat
  | Started txn_selector "int option"
  | Failed start_failure
  | FirstStatementFailed

datatype selector_status = StatusReady txn_selector | StatusWait nat

datatype commit_action = CommitReady "u8 list" | CommitStarting | CommitBegin txn_options nat

text \<open>\<open>poll_selector_status\<close>; the first argument is the identity of a new \<open>Notify\<close>.\<close>

definition poll_selector_status :: "nat \<Rightarrow> txn_state \<Rightarrow> (error, selector_status) result \<times> txn_state" where
  "poll_selector_status fresh st =
     (case st of
        Started sel ts \<Rightarrow> (Ok (StatusReady sel), st)
      | NotStarted options \<Rightarrow> (Ok (StatusReady (SelectBegin options)), Starting options fresh)
      | Failed f \<Rightarrow> (Err (failure_to_error f), st)
      | FirstStatementFailed \<Rightarrow> (Err aborted_due_to_failed_initial_statement, st)
      | Starting _ n \<Rightarrow> (Ok (StatusWait n), st))"

definition already_started :: error where
  "already_started = spanner_error ''got a transaction id for an already Started or Failed transaction''"

text \<open>The operations that end the start of a transaction also return whom they wake.\<close>

fun txn_update :: "u8 list \<Rightarrow> int option \<Rightarrow> txn_state \<Rightarrow> (error, unit) result \<times> txn_state \<times> nat option" where
  "txn_update i ts (NotStarted _) = (Ok (), Started (SelectId i) ts, None)"
| "txn_update i ts (Starting _ n) = (Ok (), Started (SelectId i) ts, Some n)"
| "txn_update i ts (Started sel ts') =
     (if selector_id sel = Some i then (Ok (), Started sel ts', None) else (Err already_started, Started sel ts', None))"
| "txn_update i ts st = (Err already_started, st, None)"

definition is_read_write :: "txn_options \<Rightarrow> bool" where
  "is_read_write options \<longleftrightarrow> (case to_mode options of Some (ModeReadWrite _) \<Rightarrow> True | _ \<Rightarrow> False)"

fun on_cancelled_starting :: "txn_state \<Rightarrow> txn_state \<times> nat option" where
  "on_cancelled_starting (Starting options n) =
     (if is_read_write options then FirstStatementFailed else NotStarted options, Some n)"
| "on_cancelled_starting st = (st, None)"

fun set_failed :: "(error \<Rightarrow> string) \<Rightarrow> error \<Rightarrow> bool \<Rightarrow> txn_state \<Rightarrow> txn_state \<times> nat option" where
  "set_failed text e is_emulator (Starting options n) =
     (if is_read_write options then
        (if \<not> is_aborted_or_emulator_error e is_emulator then FirstStatementFailed
         else Failed (failure_from_error text e))
      else Failed (failure_from_error text e), Some n)"
| "set_failed text e is_emulator st = (st, None)"

fun prepare_fixed_for_commit :: "txn_selector \<Rightarrow> (error, commit_action) result" where
  "prepare_fixed_for_commit sel =
     (case selector_id sel of
        Some i \<Rightarrow> Ok (CommitReady i)
      | None \<Rightarrow> Err (spanner_error ''Transaction ID is missing''))"

fun prepare_lazy_for_commit :: "nat \<Rightarrow> txn_state \<Rightarrow> (error, commit_action) result \<times> txn_state" where
  "prepare_lazy_for_commit fresh (Started sel ts) = (prepare_fixed_for_commit sel, Started sel ts)"
| "prepare_lazy_for_commit fresh (Starting options n) = (Ok CommitStarting, Starting options n)"
| "prepare_lazy_for_commit fresh (Failed f) = (Err (failure_to_error f), Failed f)"
| "prepare_lazy_for_commit fresh FirstStatementFailed = (Err aborted_due_to_failed_initial_statement, FirstStatementFailed)"
| "prepare_lazy_for_commit fresh (NotStarted options) = (Ok (CommitBegin options fresh), Starting options fresh)"

text \<open>\<open>ReadContextTransactionSelector\<close>: fixed, or a shared state.\<close>

datatype ctx_selector = Fixed txn_selector "int option" | Lazy txn_state

fun is_lazy :: "ctx_selector \<Rightarrow> bool" where
  "is_lazy (Lazy _) \<longleftrightarrow> True"
| "is_lazy (Fixed _ _) \<longleftrightarrow> False"

fun is_started :: "ctx_selector \<Rightarrow> bool" where
  "is_started (Fixed sel _) \<longleftrightarrow> selector_id sel \<noteq> None"
| "is_started (Lazy (Started _ _)) \<longleftrightarrow> True"
| "is_started (Lazy _) \<longleftrightarrow> False"

fun ctx_update :: "u8 list \<Rightarrow> int option \<Rightarrow> ctx_selector \<Rightarrow> (error, unit) result \<times> ctx_selector" where
  "ctx_update i ts (Fixed sel t) = (Ok (), Fixed sel t)"
| "ctx_update i ts (Lazy st) = (case txn_update i ts st of (r, st', _) \<Rightarrow> (r, Lazy st'))"

fun ctx_set_failed :: "(error \<Rightarrow> string) \<Rightarrow> error \<Rightarrow> bool \<Rightarrow> ctx_selector \<Rightarrow> ctx_selector" where
  "ctx_set_failed text e is_emulator (Fixed sel t) = Fixed sel t"
| "ctx_set_failed text e is_emulator (Lazy st) = Lazy (fst (set_failed text e is_emulator st))"

fun selector_for_restart :: "ctx_selector \<Rightarrow> (error, txn_selector) result" where
  "selector_for_restart (Fixed sel _) = Ok sel"
| "selector_for_restart (Lazy (Started sel _)) = Ok sel"
| "selector_for_restart (Lazy (Starting options _)) = Ok (SelectBegin options)"
| "selector_for_restart (Lazy (NotStarted _)) = Err (spanner_error ''Cannot restart stream on a NotStarted transaction'')"
| "selector_for_restart (Lazy (Failed f)) = Err (failure_to_error f)"
| "selector_for_restart (Lazy FirstStatementFailed) = Err aborted_due_to_failed_initial_statement"

fun get_id_no_wait :: "ctx_selector \<Rightarrow> u8 list option" where
  "get_id_no_wait (Fixed sel _) = selector_id sel"
| "get_id_no_wait (Lazy (Started sel _)) = selector_id sel"
| "get_id_no_wait (Lazy _) = None"

fun is_first_statement_failed :: "ctx_selector \<Rightarrow> bool" where
  "is_first_statement_failed (Lazy FirstStatementFailed) \<longleftrightarrow> True"
| "is_first_statement_failed _ \<longleftrightarrow> False"

fun prepare_for_commit :: "nat \<Rightarrow> ctx_selector \<Rightarrow> (error, commit_action) result \<times> ctx_selector" where
  "prepare_for_commit fresh (Fixed sel t) = (prepare_fixed_for_commit sel, Fixed sel t)"
| "prepare_for_commit fresh (Lazy st) = (case prepare_lazy_for_commit fresh st of (r, st') \<Rightarrow> (r, Lazy st'))"

fun read_timestamp :: "ctx_selector \<Rightarrow> int option" where
  "read_timestamp (Fixed _ t) = t"
| "read_timestamp (Lazy (Started _ t)) = t"
| "read_timestamp (Lazy _) = None"

section \<open>Statements that share a selector\<close>

text \<open>
  Where a statement (or the commit) of a lazily begun transaction is: it has not asked yet, waits for the
  notification \<open>n\<close>, has been woken, begins the transaction (in its own request, or by the RPC of a
  commit) and will wake the waiters of \<open>n\<close>, runs with a selector, was refused, or is over.
\<close>

datatype phase = Idle | Parked nat | Woken | Leading nat | Beginning nat | Running txn_selector | Refused error | Over

record txn_system =
  sy_state :: txn_state
  sy_fresh :: nat
  sy_phase :: "nat \<Rightarrow> phase"

datatype txn_event =
    Ask nat
  | Metadata nat "u8 list" "int option"
  | StatementFails nat error
  | Cancel nat
  | Commit nat
  | Begun nat "u8 list" "int option"
  | BeginFails nat error

definition wake :: "nat option \<Rightarrow> (nat \<Rightarrow> phase) \<Rightarrow> nat \<Rightarrow> phase" where
  "wake w ph u = (case w of Some n \<Rightarrow> if ph u = Parked n then Woken else ph u | None \<Rightarrow> ph u)"

definition txn_system_new :: "txn_options \<Rightarrow> txn_system" where
  "txn_system_new options = \<lparr>sy_state = NotStarted options, sy_fresh = 0, sy_phase = (\<lambda>_. Idle)\<rparr>"

text \<open>\<open>selector\<close>, one turn: parked statements that are woken ask again.\<close>

definition ask_step :: "nat \<Rightarrow> txn_system \<Rightarrow> txn_system" where
  "ask_step t s =
     (case poll_selector_status (sy_fresh s) (sy_state s) of
        (Ok (StatusReady (SelectBegin options)), st) \<Rightarrow>
          \<lparr>sy_state = st, sy_fresh = sy_fresh s + 1, sy_phase = (sy_phase s)(t := Leading (sy_fresh s))\<rparr>
      | (Ok (StatusReady sel), st) \<Rightarrow> s\<lparr>sy_state := st, sy_phase := (sy_phase s)(t := Running sel)\<rparr>
      | (Ok (StatusWait n), st) \<Rightarrow> s\<lparr>sy_state := st, sy_phase := (sy_phase s)(t := Parked n)\<rparr>
      | (Err e, st) \<Rightarrow> s\<lparr>sy_state := st, sy_phase := (sy_phase s)(t := Refused e)\<rparr>)"

definition metadata_step :: "nat \<Rightarrow> u8 list \<Rightarrow> int option \<Rightarrow> txn_system \<Rightarrow> txn_system" where
  "metadata_step t i ts s =
     (case txn_update i ts (sy_state s) of
        (r, st, w) \<Rightarrow>
          s\<lparr>sy_state := st, sy_phase := (wake w (sy_phase s))(t := (case r of Ok _ \<Rightarrow> Running (SelectId i) | Err _ \<Rightarrow> sy_phase s t))\<rparr>)"

definition end_step :: "nat \<Rightarrow> txn_state \<times> nat option \<Rightarrow> txn_system \<Rightarrow> txn_system" where
  "end_step t r s = s\<lparr>sy_state := fst r, sy_phase := (wake (snd r) (sy_phase s))(t := Over)\<rparr>"

definition commit_step :: "nat \<Rightarrow> txn_system \<Rightarrow> txn_system" where
  "commit_step t s =
     (case prepare_lazy_for_commit (sy_fresh s) (sy_state s) of
        (Ok (CommitReady i), st) \<Rightarrow> s\<lparr>sy_state := st, sy_phase := (sy_phase s)(t := Running (SelectId i))\<rparr>
      | (Ok CommitStarting, st) \<Rightarrow>
          s\<lparr>sy_state := st, sy_phase := (sy_phase s)(t := Refused (spanner_error
              ''Commit called while an asynchronous statement is still starting the transaction''))\<rparr>
      | (Ok (CommitBegin options n), st) \<Rightarrow>
          \<lparr>sy_state = st, sy_fresh = sy_fresh s + 1, sy_phase = (sy_phase s)(t := Beginning n)\<rparr>
      | (Err e, st) \<Rightarrow> s\<lparr>sy_state := st, sy_phase := (sy_phase s)(t := Refused e)\<rparr>)"

text \<open>
  The end of \<open>begin_explicitly_for_commit\<close>: an answer updates the selector, and if that fails the guard
  still cancels the start; an error fails it (\<open>handle_explicit_begin_commit_failure\<close>).
\<close>

definition begun_step :: "nat \<Rightarrow> u8 list \<Rightarrow> int option \<Rightarrow> txn_system \<Rightarrow> txn_system" where
  "begun_step t i ts s =
     (case txn_update i ts (sy_state s) of
        (Ok _, st, w) \<Rightarrow> s\<lparr>sy_state := st, sy_phase := (wake w (sy_phase s))(t := Running (SelectId i))\<rparr>
      | (Err _, st, w) \<Rightarrow> end_step t (on_cancelled_starting st) s)"

definition begin_fails_step :: "(error \<Rightarrow> string) \<Rightarrow> nat \<Rightarrow> nat \<Rightarrow> error \<Rightarrow> txn_system \<Rightarrow> txn_system" where
  "begin_fails_step text t n e s = end_step t (Failed (failure_from_error text e), Some n) s"

text \<open>An event that its statement cannot make changes nothing.\<close>

fun txn_step :: "(error \<Rightarrow> string) \<Rightarrow> bool \<Rightarrow> txn_event \<Rightarrow> txn_system \<Rightarrow> txn_system" where
  "txn_step text emu (Ask t) s =
     (case sy_phase s t of Idle \<Rightarrow> ask_step t s | Woken \<Rightarrow> ask_step t s | _ \<Rightarrow> s)"
| "txn_step text emu (Metadata t i ts) s =
     (case sy_phase s t of Leading _ \<Rightarrow> metadata_step t i ts s | Running _ \<Rightarrow> metadata_step t i ts s | _ \<Rightarrow> s)"
| "txn_step text emu (StatementFails t e) s =
     (case sy_phase s t of
        Leading _ \<Rightarrow> end_step t (set_failed text e emu (sy_state s)) s
      | Running _ \<Rightarrow> end_step t (set_failed text e emu (sy_state s)) s
      | _ \<Rightarrow> s)"
| "txn_step text emu (Cancel t) s =
     (case sy_phase s t of
        Leading _ \<Rightarrow> end_step t (on_cancelled_starting (sy_state s)) s
      | Beginning _ \<Rightarrow> end_step t (on_cancelled_starting (sy_state s)) s
      | Running _ \<Rightarrow> end_step t (on_cancelled_starting (sy_state s)) s
      | _ \<Rightarrow> s\<lparr>sy_phase := (sy_phase s)(t := Over)\<rparr>)"
| "txn_step text emu (Commit t) s = (case sy_phase s t of Idle \<Rightarrow> commit_step t s | _ \<Rightarrow> s)"
| "txn_step text emu (Begun t i ts) s = (case sy_phase s t of Beginning _ \<Rightarrow> begun_step t i ts s | _ \<Rightarrow> s)"
| "txn_step text emu (BeginFails t e) s =
     (case sy_phase s t of Beginning n \<Rightarrow> begin_fails_step text t n e s | _ \<Rightarrow> s)"

definition txn_run :: "(error \<Rightarrow> string) \<Rightarrow> bool \<Rightarrow> txn_event list \<Rightarrow> txn_system \<Rightarrow> txn_system" where
  "txn_run text emu events s = fold (txn_step text emu) events s"

section \<open>One start, and nobody left waiting\<close>

definition leads :: "phase \<Rightarrow> nat option" where
  "leads p = (case p of Leading n \<Rightarrow> Some n | Beginning n \<Rightarrow> Some n | _ \<Rightarrow> None)"

fun phase_ok :: "txn_state \<Rightarrow> phase \<Rightarrow> bool" where
  "phase_ok st (Parked n) \<longleftrightarrow> (case st of Starting _ m \<Rightarrow> m = n | _ \<Rightarrow> False)"
| "phase_ok st (Leading n) \<longleftrightarrow> (case st of Starting _ m \<Rightarrow> m = n | _ \<Rightarrow> False)"
| "phase_ok st (Beginning n) \<longleftrightarrow> (case st of Starting _ m \<Rightarrow> m = n | _ \<Rightarrow> False)"
| "phase_ok st (Running sel) \<longleftrightarrow> (case st of Started sel' _ \<Rightarrow> sel' = sel | _ \<Rightarrow> False)"
| "phase_ok st _ \<longleftrightarrow> True"

text \<open>While the transaction is starting, exactly one statement starts it.\<close>

definition start_ok :: "txn_state \<Rightarrow> (nat \<Rightarrow> phase) \<Rightarrow> bool" where
  "start_ok st ph \<longleftrightarrow>
     (case st of
        Starting _ n \<Rightarrow> \<exists>t. leads (ph t) = Some n \<and> (\<forall>u. u \<noteq> t \<longrightarrow> leads (ph u) = None)
      | Started sel _ \<Rightarrow> \<exists>i. sel = SelectId i
      | _ \<Rightarrow> True)"

definition shared_start :: "txn_system \<Rightarrow> bool" where
  "shared_start s \<longleftrightarrow> (\<forall>t. phase_ok (sy_state s) (sy_phase s t)) \<and> start_ok (sy_state s) (sy_phase s)"

lemma shared_start_new: "shared_start (txn_system_new options)"
  by (simp add: txn_system_new_def shared_start_def start_ok_def)

text \<open>A statement that does not start the transaction moves to a phase that fits the state.\<close>

lemma shared_start_move:
  assumes inv: "shared_start s" and t: "leads (sy_phase s t) = None" and st: "sy_state s = st"
    and p: "phase_ok st p" "leads p = None"
  shows "shared_start (s\<lparr>sy_state := st, sy_phase := (sy_phase s)(t := p)\<rparr>)"
proof -
  have "start_ok st ((sy_phase s)(t := p))"
  proof (cases st)
    case (Starting options n)
    with inv st obtain u where u: "leads (sy_phase s u) = Some n" "\<forall>v. v \<noteq> u \<longrightarrow> leads (sy_phase s v) = None"
      by (auto simp: shared_start_def start_ok_def)
    moreover have "u \<noteq> t" using u t by auto
    ultimately show ?thesis using Starting p by (auto simp: start_ok_def)
  qed (use inv st in \<open>auto simp: shared_start_def start_ok_def\<close>)
  with inv st p show ?thesis by (simp add: shared_start_def)
qed

text \<open>The statement that started the transaction ends the start, and wakes everybody.\<close>

lemma shared_start_end:
  assumes inv: "shared_start s" and st: "sy_state s = Starting options n" and t: "leads (sy_phase s t) = Some n"
    and st': "start_ok st' (\<lambda>_. Idle)" and p: "phase_ok st' p" "leads p = None"
  shows "shared_start (s\<lparr>sy_state := st', sy_phase := (wake (Some n) (sy_phase s))(t := p)\<rparr>)"
proof -
  from inv st obtain v where v: "\<forall>u. u \<noteq> v \<longrightarrow> leads (sy_phase s u) = None" by (auto simp: shared_start_def start_ok_def)
  with t have "t = v" by (cases "t = v") auto
  with v have others: "leads (sy_phase s u) = None" if "u \<noteq> t" for u using that by simp
  have "phase_ok st' (wake (Some n) (sy_phase s) u)" if "u \<noteq> t" for u
    using inv st others [OF that]
    by (cases "sy_phase s u") (auto simp: shared_start_def wake_def leads_def dest: spec [of _ u])
  moreover have "start_ok st' ph" for ph
    using st' by (cases st') (auto simp: start_ok_def leads_def)
  ultimately show ?thesis using p by (simp add: shared_start_def)
qed

lemma shared_start_begin:
  assumes inv: "shared_start s" and st: "sy_state s = NotStarted options" and p: "leads p = Some n" "phase_ok (Starting options n) p"
  shows "shared_start \<lparr>sy_state = Starting options n, sy_fresh = m, sy_phase = (sy_phase s)(t := p)\<rparr>"
proof -
  have none: "leads (sy_phase s u) = None \<and> phase_ok (Starting options n) (sy_phase s u)" for u
    using inv st by (cases "sy_phase s u") (auto simp: shared_start_def leads_def dest: spec [of _ u])
  then show ?thesis using p by (auto simp: shared_start_def start_ok_def)
qed

lemma shared_start_ask:
  assumes inv: "shared_start s" and t: "sy_phase s t = Idle \<or> sy_phase s t = Woken"
  shows "shared_start (ask_step t s)"
proof -
  have none: "leads (sy_phase s t) = None" using t by (auto simp: leads_def)
  show ?thesis
  proof (cases "sy_state s")
    case (NotStarted options)
    with shared_start_begin [OF inv NotStarted, of "Leading (sy_fresh s)" "sy_fresh s"] show ?thesis
      by (simp add: ask_step_def poll_selector_status_def leads_def)
  next
    case (Started sel ts)
    then obtain i where "sel = SelectId i" using inv by (auto simp: shared_start_def start_ok_def)
    with Started shared_start_move [OF inv none _ , of _ "Running sel"] show ?thesis
      by (simp add: ask_step_def poll_selector_status_def leads_def)
  next
    case (Starting options n)
    with shared_start_move [OF inv none _ , of _ "Parked n"] show ?thesis
      by (simp add: ask_step_def poll_selector_status_def leads_def)
  next
    case (Failed f)
    with shared_start_move [OF inv none _ , of _ "Refused (failure_to_error f)"] show ?thesis
      by (simp add: ask_step_def poll_selector_status_def leads_def)
  next
    case FirstStatementFailed
    with shared_start_move [OF inv none _ , of _ "Refused aborted_due_to_failed_initial_statement"] show ?thesis
      by (simp add: ask_step_def poll_selector_status_def leads_def)
  qed
qed

lemma shared_start_commit:
  assumes inv: "shared_start s" and t: "sy_phase s t = Idle"
  shows "shared_start (commit_step t s)"
proof -
  have none: "leads (sy_phase s t) = None" using t by (simp add: leads_def)
  note move = shared_start_move [OF inv none]
  show ?thesis
  proof (cases "sy_state s")
    case (NotStarted options)
    with shared_start_begin [OF inv NotStarted, of "Beginning (sy_fresh s)" "sy_fresh s"] show ?thesis
      by (simp add: commit_step_def leads_def)
  next
    case (Started sel ts)
    then obtain i where "sel = SelectId i" using inv by (auto simp: shared_start_def start_ok_def)
    with Started move [of _ "Running sel"] show ?thesis by (simp add: commit_step_def leads_def)
  qed (use move [of _ "Refused x" for x] in \<open>auto simp: commit_step_def leads_def\<close>)
qed

lemma leads_state:
  assumes "shared_start s" "leads (sy_phase s t) = Some n"
  obtains options where "sy_state s = Starting options n"
proof -
  have "phase_ok (sy_state s) (sy_phase s t)" using assms(1) by (simp add: shared_start_def)
  with assms(2) that show ?thesis by (cases "sy_phase s t") (auto simp: leads_def split: txn_state.splits)
qed

lemma running_state:
  assumes "shared_start s" "sy_phase s t = Running sel"
  obtains i ts where "sel = SelectId i" "sy_state s = Started sel ts"
proof -
  have "phase_ok (sy_state s) (sy_phase s t)" "start_ok (sy_state s) (sy_phase s)"
    using assms(1) by (auto simp: shared_start_def)
  with assms(2) that show ?thesis by (cases "sy_state s") (auto simp: start_ok_def)
qed

lemma ended_by_leader:
  assumes inv: "shared_start s" and t: "leads (sy_phase s t) = Some n"
  shows "shared_start (end_step t (set_failed text e emu (sy_state s)) s)"
    and "shared_start (end_step t (on_cancelled_starting (sy_state s)) s)"
    and "shared_start (end_step t (Failed f, Some n) s)"
    and "txn_update i ts (sy_state s) = (Ok (), Started (SelectId i) ts, Some n)"
    and "shared_start (s\<lparr>sy_state := Started (SelectId i) ts, sy_phase := (wake (Some n) (sy_phase s))(t := Running (SelectId i))\<rparr>)"
proof -
  from leads_state [OF inv t] obtain options where st: "sy_state s = Starting options n" .
  note fin = shared_start_end [OF inv st t]
  show "shared_start (end_step t (set_failed text e emu (sy_state s)) s)"
    "shared_start (end_step t (on_cancelled_starting (sy_state s)) s)"
    "shared_start (end_step t (Failed f, Some n) s)"
    unfolding end_step_def st by (auto intro!: fin simp: start_ok_def leads_def)
  show "txn_update i ts (sy_state s) = (Ok (), Started (SelectId i) ts, Some n)" by (simp add: st)
  show "shared_start (s\<lparr>sy_state := Started (SelectId i) ts, sy_phase := (wake (Some n) (sy_phase s))(t := Running (SelectId i))\<rparr>)"
    by (rule fin) (auto simp: start_ok_def leads_def)
qed

lemma wake_None [simp]: "wake None ph = ph"
  by (rule ext) (simp add: wake_def)

lemma ended_by_runner:
  assumes inv: "shared_start s" and t: "sy_phase s t = Running sel"
  shows "shared_start (end_step t (set_failed text e emu (sy_state s)) s)"
    and "shared_start (end_step t (on_cancelled_starting (sy_state s)) s)"
    and "shared_start (metadata_step t i ts s)"
proof -
  from running_state [OF inv t] obtain j ts' where st: "sel = SelectId j" "sy_state s = Started sel ts'" .
  have none: "leads (sy_phase s t) = None" by (simp add: t leads_def)
  note move = shared_start_move [OF inv none st(2)]
  show "shared_start (end_step t (set_failed text e emu (sy_state s)) s)"
    "shared_start (end_step t (on_cancelled_starting (sy_state s)) s)"
    using move [of Over] st by (auto simp: end_step_def leads_def)
  show "shared_start (metadata_step t i ts s)"
    using move [of "Running sel"] st t by (auto simp: metadata_step_def leads_def)
qed

lemma shared_start_step: "shared_start s \<Longrightarrow> shared_start (txn_step text emu event s)"
proof (cases event)
  case (Ask t)
  assume "shared_start s"
  with Ask shared_start_ask [of s t] show ?thesis by (auto split: phase.splits)
next
  case (Metadata t i ts)
  assume inv: "shared_start s"
  have "shared_start (metadata_step t i ts s)" if "sy_phase s t = Leading n" for n
    using ended_by_leader(4,5) [OF inv, of t n] that by (simp add: leads_def metadata_step_def)
  with Metadata inv ended_by_runner(3) [OF inv, of t] show ?thesis by (auto split: phase.splits)
next
  case (StatementFails t e)
  assume inv: "shared_start s"
  with StatementFails ended_by_leader(1) [OF inv, of t] ended_by_runner(1) [OF inv, of t] show ?thesis
    by (auto simp: leads_def split: phase.splits)
next
  case (Cancel t)
  assume inv: "shared_start s"
  have "shared_start (s\<lparr>sy_phase := (sy_phase s)(t := Over)\<rparr>)" if "leads (sy_phase s t) = None"
    using shared_start_move [OF inv that refl, of Over] by (simp add: leads_def)
  with Cancel ended_by_leader(2) [OF inv, of t] ended_by_runner(2) [OF inv, of t] show ?thesis
    by (auto simp: leads_def split: phase.splits)
next
  case (Commit t)
  assume "shared_start s"
  with Commit shared_start_commit [of s t] show ?thesis by (auto split: phase.splits)
next
  case (Begun t i ts)
  assume inv: "shared_start s"
  have "shared_start (begun_step t i ts s)" if "sy_phase s t = Beginning n" for n
    using ended_by_leader(4,5) [OF inv, of t n] that by (simp add: leads_def begun_step_def)
  with Begun inv show ?thesis by (auto split: phase.splits)
next
  case (BeginFails t e)
  assume inv: "shared_start s"
  with BeginFails ended_by_leader(3) [OF inv, of t] show ?thesis
    by (auto simp: leads_def begin_fails_step_def split: phase.splits)
qed

lemma shared_start_run: "shared_start s \<Longrightarrow> shared_start (txn_run text emu events s)"
  by (induction events arbitrary: s) (auto simp: txn_run_def shared_start_step)

text \<open>A transaction that has been started, or whose start has failed, stays as it is.\<close>

fun decided :: "txn_state \<Rightarrow> bool" where
  "decided (Started _ _) \<longleftrightarrow> True"
| "decided (Failed _) \<longleftrightarrow> True"
| "decided FirstStatementFailed \<longleftrightarrow> True"
| "decided _ \<longleftrightarrow> False"

lemma decided_stays:
  assumes inv: "shared_start s" and st: "decided (sy_state s)"
  shows "sy_state (txn_step text emu event s) = sy_state s"
proof -
  have no: "leads (sy_phase s t) = None" for t
  proof (cases "leads (sy_phase s t)")
    case (Some n)
    from leads_state [OF inv Some] obtain options where "sy_state s = Starting options n" .
    with st show ?thesis by simp
  qed simp
  have phases: "sy_phase s t \<noteq> Leading n" "sy_phase s t \<noteq> Beginning n" for t n
    using no [of t] by (auto simp: leads_def)
  note defs = ask_step_def poll_selector_status_def metadata_step_def end_step_def commit_step_def
  show ?thesis
  proof (cases "sy_state s")
    case (Started sel ts)
    moreover obtain i where "sel = SelectId i" using inv Started by (auto simp: shared_start_def start_ok_def)
    ultimately show ?thesis using phases by (cases event) (auto simp: defs split: phase.splits)
  next
    case (Failed f)
    then have "sy_phase s t \<noteq> Running sel" for t sel using running_state [OF inv] by fastforce
    with Failed phases show ?thesis by (cases event) (auto simp: defs split: phase.splits)
  next
    case FirstStatementFailed
    then have "sy_phase s t \<noteq> Running sel" for t sel using running_state [OF inv] by fastforce
    with FirstStatementFailed phases show ?thesis by (cases event) (auto simp: defs split: phase.splits)
  qed (use st in simp_all)
qed

lemma decided_stays_run:
  "shared_start s \<Longrightarrow> decided (sy_state s) \<Longrightarrow> sy_state (txn_run text emu events s) = sy_state s"
  by (induction events arbitrary: s) (auto simp: txn_run_def shared_start_step decided_stays)

text \<open>
  C9. All statements of a lazily begun transaction use the same transaction: whatever the statements
  and the commit do, in whatever order, a statement that runs has the same selector, with a transaction
  id, as every statement that runs at that time or later.\<close>

theorem one_transaction_id:
  assumes "s = txn_run text emu events (txn_system_new options)" "sy_phase s t = Running sel"
    and "sy_phase (txn_run text emu rest s) u = Running sel'"
  shows "sel' = sel \<and> (\<exists>i. sel = SelectId i)"
proof -
  have inv: "shared_start s" by (simp add: assms(1) shared_start_run shared_start_new)
  from running_state [OF inv assms(2)] obtain i ts where i: "sel = SelectId i" "sy_state s = Started sel ts" .
  have "shared_start (txn_run text emu rest s)" using inv by (rule shared_start_run)
  from running_state [OF this assms(3)] obtain i' ts' where "sel' = SelectId i'"
    "sy_state (txn_run text emu rest s) = Started sel' ts'" .
  with decided_stays_run [OF inv, of "text" emu rest] i show ?thesis by auto
qed

text \<open>The events with which the statement that starts the transaction ends the start.\<close>

fun ends_start :: "phase \<Rightarrow> nat \<Rightarrow> txn_event \<Rightarrow> bool" where
  "ends_start (Leading _) t (Metadata u _ _) \<longleftrightarrow> u = t"
| "ends_start (Leading _) t (StatementFails u _) \<longleftrightarrow> u = t"
| "ends_start (Leading _) t (Cancel u) \<longleftrightarrow> u = t"
| "ends_start (Beginning _) t (Begun u _ _) \<longleftrightarrow> u = t"
| "ends_start (Beginning _) t (BeginFails u _) \<longleftrightarrow> u = t"
| "ends_start (Beginning _) t (Cancel u) \<longleftrightarrow> u = t"
| "ends_start _ _ _ \<longleftrightarrow> False"

lemma start_ends:
  assumes st: "sy_state s = Starting options n" and t: "leads (sy_phase s t) = Some n"
    and u: "sy_phase s u = Parked n" "u \<noteq> t" and ev: "ends_start (sy_phase s t) t event"
  shows "sy_phase (txn_step text emu event s) u = Woken \<and> (\<forall>o' m. sy_state (txn_step text emu event s) \<noteq> Starting o' m)"
proof (cases "sy_phase s t")
  case (Leading m)
  with t have "m = n" by (simp add: leads_def)
  with ev Leading st u show ?thesis
    by (cases event) (auto simp: metadata_step_def end_step_def wake_def)
next
  case (Beginning m)
  with t have "m = n" by (simp add: leads_def)
  with ev Beginning st u show ?thesis
    by (cases event) (auto simp: begun_step_def begin_fails_step_def end_step_def wake_def)
qed (use t in \<open>auto simp: leads_def\<close>)

lemma ask_not_parked:
  assumes "\<forall>o' m. sy_state s \<noteq> Starting o' m" "sy_phase s u = Woken"
  shows "sy_phase (txn_step text emu (Ask u) s) u \<noteq> Parked m"
  using assms by (cases "sy_state s") (auto simp: ask_step_def poll_selector_status_def split: txn_selector.splits)

lemma start_ends_decided:
  assumes "sy_state s = Starting o' n" "leads (sy_phase s t) = Some n" "ends_start (sy_phase s t) t event"
    and "\<forall>c. event \<noteq> Cancel c"
  shows "decided (sy_state (txn_step text emu event s))"
  using assms
  by (cases "sy_phase s t"; cases event)
    (auto simp: leads_def metadata_step_def end_step_def begun_step_def begin_fails_step_def)

lemma decided_not_parked:
  assumes "shared_start s" "decided (sy_state s)"
  shows "sy_phase (txn_run text emu later s) v \<noteq> Parked m"
proof -
  have "phase_ok (sy_state s) (sy_phase (txn_run text emu later s) v)"
    using shared_start_run [OF assms(1), of "text" emu later] decided_stays_run [OF assms, of "text" emu later]
    by (simp add: shared_start_def)
  with assms(2) show ?thesis by (cases "sy_state s") auto
qed

text \<open>
  C8. A parked statement is released when the start it waits for ends: it waits for exactly one other
  statement, which is starting the transaction, and every way in which that one can end - it learns the
  transaction id, it fails, it is cancelled, or the commit's own begin succeeds or fails - wakes it. When
  it then asks it is not parked: it runs, is refused, or starts the transaction itself. Unless the start
  was cancelled, no statement is ever parked again; after a cancelled start another statement may ask
  first and start the transaction anew, and the released one waits for that.\<close>

theorem parked_statements_released:
  assumes s: "s = txn_run text emu events (txn_system_new options)" and u: "sy_phase s u = Parked n"
  shows "\<exists>t. leads (sy_phase s t) = Some n \<and> (\<forall>v. leads (sy_phase s v) \<noteq> None \<longrightarrow> v = t) \<and>
    (\<forall>event. ends_start (sy_phase s t) t event \<longrightarrow>
       sy_phase (txn_step text emu event s) u = Woken \<and>
       (\<forall>m. sy_phase (txn_step text emu (Ask u) (txn_step text emu event s)) u \<noteq> Parked m) \<and>
       ((\<forall>c. event \<noteq> Cancel c) \<longrightarrow>
          (\<forall>later v m. sy_phase (txn_run text emu later (txn_step text emu event s)) v \<noteq> Parked m)))"
proof -
  have inv: "shared_start s" by (simp add: s shared_start_run shared_start_new)
  have "phase_ok (sy_state s) (sy_phase s u)" using inv by (simp add: shared_start_def)
  with u obtain o' where st: "sy_state s = Starting o' n" by (auto split: txn_state.splits)
  with inv obtain t where t: "leads (sy_phase s t) = Some n" "\<forall>v. v \<noteq> t \<longrightarrow> leads (sy_phase s v) = None"
    by (auto simp: shared_start_def start_ok_def)
  then have "u \<noteq> t" using u by (auto simp: leads_def)
  note ends = start_ends [OF st t(1) u \<open>u \<noteq> t\<close>]
  have "sy_phase (txn_step text emu (Ask u) (txn_step text emu event s)) u \<noteq> Parked m"
    if "ends_start (sy_phase s t) t event" for event m
    by (rule ask_not_parked) (use ends [OF that] in auto)
  moreover have "sy_phase (txn_run text emu later (txn_step text emu event s)) v \<noteq> Parked m"
    if "ends_start (sy_phase s t) t event" "\<forall>c. event \<noteq> Cancel c" for event later v m
    by (rule decided_not_parked [OF shared_start_step [OF inv] start_ends_decided [OF st t(1) that]])
  ultimately show ?thesis using t ends by (intro exI [of _ t]) auto
qed

text \<open>Two statements share a read-only transaction whose first attempt to begin is cancelled.\<close>

definition shared_events :: "txn_event list" where
  "shared_events = [Ask 1, Ask 2, Ask 3, Cancel 1, Ask 2, Ask 3]"

definition shared_options :: txn_options where
  "shared_options = \<lparr>to_mode = Some ModeReadOnly\<rparr>"

theorem one_transaction_id_witness:
  "sy_phase (txn_run (\<lambda>_. []) False (shared_events @ [Metadata 2 [42] None]) (txn_system_new shared_options)) 2 =
     Running (SelectId [42]) \<and>
   sy_phase (txn_run (\<lambda>_. []) False [Ask 3, Ask 4] (txn_run (\<lambda>_. []) False (shared_events @ [Metadata 2 [42] None])
     (txn_system_new shared_options))) 4 = Running (SelectId [42])"
proof -
  let ?s = "txn_run (\<lambda>_. []) False (shared_events @ [Metadata 2 [42] None]) (txn_system_new shared_options)"
  have two: "sy_phase ?s 2 = Running (SelectId [42])"
    and four: "sy_phase (txn_run (\<lambda>_. []) False [Ask 3, Ask 4] ?s) 4 = Running (SelectId [42])"
    by code_simp+
  from one_transaction_id [OF refl two four] two four show ?thesis by simp
qed

theorem parked_statements_released_witness:
  "\<exists>t. leads (sy_phase (txn_run (\<lambda>_. []) False shared_events (txn_system_new shared_options)) t) = Some 1 \<and> t = 2 \<and>
     sy_phase (txn_step (\<lambda>_. []) False (Metadata t [42] None)
       (txn_run (\<lambda>_. []) False shared_events (txn_system_new shared_options))) 3 = Woken"
proof -
  let ?s = "txn_run (\<lambda>_. []) False shared_events (txn_system_new shared_options)"
  have parked: "sy_phase ?s 3 = Parked 1" and two: "sy_phase ?s 2 = Leading 1" by code_simp+
  from parked_statements_released [OF refl parked] obtain t
    where t: "leads (sy_phase ?s t) = Some 1" "\<forall>v. leads (sy_phase ?s v) \<noteq> None \<longrightarrow> v = t"
      and w: "\<forall>event. ends_start (sy_phase ?s t) t event \<longrightarrow> sy_phase (txn_step (\<lambda>_. []) False event ?s) 3 = Woken"
    by blast
  have "leads (sy_phase ?s 2) \<noteq> None" by (simp add: two leads_def)
  with t(2) have "t = 2" by blast
  moreover have "ends_start (sy_phase ?s 2) 2 (Metadata 2 [42] None)" by (simp add: two)
  ultimately show ?thesis using t(1) w by blast
qed

section \<open>The commit\<close>

record 'm commit_request =
  cr_session :: string
  cr_transaction_id :: "u8 list"
  cr_mutations :: "'m list"
  cr_precommit_token :: "precommit_token option"

definition create_commit_request ::
  "string \<Rightarrow> u8 list \<Rightarrow> 'm list \<Rightarrow> precommit_token option \<Rightarrow> 'm commit_request" where
  "create_commit_request session i mutations token =
     \<lparr>cr_session = session, cr_transaction_id = i, cr_mutations = mutations, cr_precommit_token = token\<rparr>"

definition create_retry_commit_request :: "string \<Rightarrow> u8 list \<Rightarrow> precommit_token option \<Rightarrow> 'm commit_request" where
  "create_retry_commit_request session i token = create_commit_request session i [] token"

record commit_response =
  co_timestamp :: "int option"
  co_retry :: "precommit_token option"

text \<open>
  \<open>commit_with_precommit_retry\<close>: the service acts on the world \<open>'w\<close>; \<open>inspect_err\<close> records
  aborts. The result also has the requests that were sent.
\<close>

definition UNEXPECTED_PRECOMMIT :: string where
  "UNEXPECTED_PRECOMMIT = ''commit failed: received an unexpected subsequent precommit token on multiplexed session commit retry''"

definition commit_with_precommit_retry ::
  "('m commit_request \<Rightarrow> 'w \<Rightarrow> (error, commit_response) result \<times> 'w) \<Rightarrow> (error \<Rightarrow> 'a \<Rightarrow> 'a) \<Rightarrow>
   (precommit_token option \<Rightarrow> 'm commit_request) \<Rightarrow> 'm commit_request \<Rightarrow> token_tracker \<Rightarrow> 'a \<Rightarrow> 'w \<Rightarrow>
   (error, commit_response) result \<times> token_tracker \<times> 'a \<times> 'm commit_request list \<times> 'w" where
  "commit_with_precommit_retry commit inspect_err build_retry_request request tracker a w =
     (case commit request w of
        (Err e, w1) \<Rightarrow> (Err e, tracker, inspect_err e a, [request], w1)
      | (Ok response, w1) \<Rightarrow>
          (case co_retry response of
             None \<Rightarrow> (Ok response, tracker, a, [request], w1)
           | Some token \<Rightarrow>
               (let tracker' = tracker_update tracker (Some token);
                    retry = build_retry_request (tracker_get tracker')
                in case commit retry w1 of
                     (Err e, w2) \<Rightarrow> (Err e, tracker', inspect_err e a, [request, retry], w2)
                   | (Ok response', w2) \<Rightarrow>
                       (if co_retry response' \<noteq> None
                        then (Err (spanner_error UNEXPECTED_PRECOMMIT), tracker', a, [request, retry], w2)
                        else (Ok response', tracker', a, [request, retry], w2)))))"

lemma tracker_update_newest:
  "tracker_get (tracker_update (TrackerTrack current) (Some token)) =
     (case current of
        None \<Rightarrow> Some token
      | Some c \<Rightarrow> if pt_seq_num c < pt_seq_num token then Some token else Some c)"
  by (cases current) auto

text \<open>
  A commit sends its mutations once, and is reported as successful only on an answer that asks for
  nothing more; the second request carries the newest token.\<close>

lemma commit_sends_mutations_once:
  assumes "commit_with_precommit_retry commit inspect (create_retry_commit_request session i) request tracker a w =
    (r, tracker', a', requests, w')"
  shows "concat (map cr_mutations requests) = cr_mutations request \<and> length requests \<le> 2 \<and>
    (case r of Ok response \<Rightarrow> co_retry response = None | Err _ \<Rightarrow> True) \<and>
    (case tl requests of [] \<Rightarrow> True | retry # _ \<Rightarrow> cr_precommit_token retry = tracker_get tracker')"
  using assms
  by (auto simp: commit_with_precommit_retry_def create_retry_commit_request_def create_commit_request_def Let_def
    split: result.splits option.splits if_splits prod.splits)

end
