(* ===== verification/Spanner_Results.thy ===== *)
theory Spanner_Results
  imports Spanner_Transaction "HOL-Library.Sublist"
begin

text \<open>
  The rows of a query, \<open>spanner/src/result_set.rs\<close>: partial result sets are buffered until a resume
  token makes them safe, values that were split are merged, rows are cut, and a broken stream is
  resumed from the last token. The first message of a query that begins its transaction also tells the
  transaction selector of \<open>Spanner_Transaction\<close> the transaction id.

  A stream is the list of what it still yields. The attempts to open a stream are a list too, each a
  function of the transaction selector and the resume token of the request; \<open>None\<close> as a result means
  that the next one is awaited. No other statement uses the selector in the meantime. The clock readings
  are parameters. Metrics, backoff delays, the routing of requests and the background task that drains a
  finished stream are left out.
\<close>

section \<open>Values and messages\<close>

text \<open>\<open>prost_types::Value\<close>; numbers by their bits.\<close>

datatype pvalue =
    NoKind
  | NullValue
  | NumberValue u64
  | StringValue string
  | BoolValue bool
  | StructValue "(string \<times> pvalue) list"
  | ListValue "pvalue list"

fun same_chunk_kind :: "pvalue \<Rightarrow> pvalue \<Rightarrow> bool" where
  "same_chunk_kind (StringValue _) (StringValue _) \<longleftrightarrow> True"
| "same_chunk_kind (ListValue _) (ListValue _) \<longleftrightarrow> True"
| "same_chunk_kind _ _ \<longleftrightarrow> False"

lemma last_smaller: "ts \<noteq> [] \<Longrightarrow> size (last ts) < Suc (size_list size ts)"
  using last_in_set [of ts] by (simp add: less_Suc_eq_le size_list_estimation' [OF _ order.refl])

fun merge_values :: "pvalue \<Rightarrow> pvalue \<Rightarrow> (error, pvalue) result" where
  "merge_values (StringValue a) (StringValue b) = Ok (StringValue (a @ b))"
| "merge_values (ListValue ts) (ListValue ss) =
     (case ss of
        [] \<Rightarrow> Ok (ListValue ts)
      | s # rest \<Rightarrow>
          (if ts = [] then Ok (ListValue ss)
           else if same_chunk_kind (last ts) s then
             (case merge_values (last ts) s of
                Err e \<Rightarrow> Err e
              | Ok m \<Rightarrow> Ok (ListValue (butlast ts @ m # rest)))
           else Ok (ListValue (ts @ ss))))"
| "merge_values _ _ = Err (spanner_error ''Incompatible types for merging chunked values'')"

type_synonym result_metadata = "(string \<times> nat) list"

datatype row_count = RowCountExact int | RowCountLowerBound int

record result_stats =
  st_row_count :: "row_count option"

text \<open>
  Metadata are the columns, with the id and the read timestamp of a transaction; the statistics are
  \<open>Err\<close> if they cannot be converted.
\<close>

type_synonym begun_transaction = "u8 list \<times> int option"

record partial_result_set =
  pr_metadata :: "(result_metadata \<times> begun_transaction option) option"
  pr_values :: "pvalue list"
  pr_chunked_value :: bool
  pr_resume_token :: "u8 list"
  pr_stats :: "(string, result_stats) result option"
  pr_precommit_token :: "precommit_token option"
  pr_last :: bool

record row =
  row_values :: "pvalue list"
  row_metadata :: result_metadata

definition aborted_error :: "aborted_state \<Rightarrow> error option" where
  "aborted_error st = map_option aborted_to_error (aborted_info_of st)"

section \<open>The result set\<close>

datatype stream_event = StreamMessage partial_result_set | StreamError error

record result_set =
  rs_stream :: "stream_event list option"
  rs_buffered_values :: "pvalue list"
  rs_chunked :: bool
  rs_seen_last :: bool
  rs_ready_rows :: "row list"
  rs_metadata :: "result_metadata option"
  rs_stats :: "result_stats option"
  rs_tracker :: token_tracker
  rs_last_resume_token :: "u8 list"
  rs_buffer :: "partial_result_set list"
  rs_safe_to_retry :: bool
  rs_max_buffered :: nat
  rs_retry_count :: nat
  rs_aborted :: aborted_state
  rs_selector :: "ctx_selector option"

text \<open>
  The environment: the retry policy, and the clock when the state for it is made and when it looks,
  for each retry; the text of an error and the delay it recommends.
\<close>

record result_env =
  rv_policy :: "retry_policy option"
  rv_start :: "nat \<Rightarrow> instant"
  rv_now :: "nat \<Rightarrow> instant"
  rv_text :: "error \<Rightarrow> string"
  rv_delay_of :: "error \<Rightarrow> duration option"
  rv_is_emulator :: bool

type_synonym stream_attempts = "(txn_selector option \<Rightarrow> u8 list \<Rightarrow> (error, stream_event list) result) list"

definition MAX_BUFFERED_PARTIAL_RESULT_SETS :: nat where "MAX_BUFFERED_PARTIAL_RESULT_SETS = 10"

definition DEFAULT_ATTEMPT_LIMIT :: u32 where "DEFAULT_ATTEMPT_LIMIT = 10"

definition result_set_new :: "ctx_selector option \<Rightarrow> token_tracker \<Rightarrow> aborted_state \<Rightarrow> result_set" where
  "result_set_new selector tracker aborted =
     \<lparr>rs_stream = None, rs_buffered_values = [], rs_chunked = False, rs_seen_last = False, rs_ready_rows = [],
      rs_metadata = None, rs_stats = None, rs_tracker = tracker, rs_last_resume_token = [], rs_buffer = [],
      rs_safe_to_retry = True, rs_max_buffered = MAX_BUFFERED_PARTIAL_RESULT_SETS, rs_retry_count = 0,
      rs_aborted = aborted, rs_selector = selector\<rparr>"

definition record_if_aborted :: "result_env \<Rightarrow> error \<Rightarrow> result_set \<Rightarrow> result_set" where
  "record_if_aborted env e rs = rs\<lparr>rs_aborted := aborted_record (rv_delay_of env) (rv_is_emulator env) e (rs_aborted rs)\<rparr>"

text \<open>Cutting complete rows off the values; the last row waits while its last value is incomplete.\<close>

function cut_rows :: "nat \<Rightarrow> bool \<Rightarrow> result_metadata \<Rightarrow> pvalue list \<Rightarrow> row list \<times> pvalue list" where
  "cut_rows n chunked md vs =
     (if n = 0 \<or> length vs < n \<or> length vs = n \<and> chunked then ([], vs)
      else case cut_rows n chunked md (drop n vs) of
             (rows, rest) \<Rightarrow> (\<lparr>row_values = take n vs, row_metadata = md\<rparr> # rows, rest))"
  by pat_completeness auto
termination by (relation "measure (\<lambda>(n, chunked, md, vs). length vs)") auto

declare cut_rows.simps [simp del]

definition merge_first ::
  "bool \<Rightarrow> pvalue list \<Rightarrow> pvalue list \<Rightarrow> (error, pvalue list) result" where
  "merge_first chunked buffered vs =
     (case vs of
        v # rest \<Rightarrow>
          (if chunked \<and> buffered \<noteq> []
           then case merge_values (last buffered) v of
                  Err e \<Rightarrow> Err e
                | Ok m \<Rightarrow> Ok (butlast buffered @ m # rest)
           else Ok (buffered @ vs))
      | [] \<Rightarrow> Ok buffered)"

type_synonym result_step = "(error, unit) result \<times> result_set"

definition process_stats :: "partial_result_set \<Rightarrow> result_set \<Rightarrow> result_step" where
  "process_stats p rs =
     (case (rs_stats rs, pr_stats p) of
        (Some _, Some _) \<Rightarrow> (Err (spanner_error ''Additional stats received after first''), rs)
      | (None, Some (Ok s)) \<Rightarrow> (Ok (), rs\<lparr>rs_stats := Some s\<rparr>)
      | (None, Some (Err e)) \<Rightarrow> (Err (spanner_error (''failed to convert stats: '' @ e)), rs)
      | _ \<Rightarrow> (Ok (), rs))"

definition process_values :: "partial_result_set \<Rightarrow> result_metadata \<Rightarrow> result_set \<Rightarrow> result_step" where
  "process_values p md rs =
     (if md = [] then
        (Err (spanner_error ''PartialResultSet contained values but no column metadata was provided''), rs)
      else case merge_first (rs_chunked rs) (rs_buffered_values rs) (pr_values p) of
             Err e \<Rightarrow> (Err e, rs)
           | Ok vs \<Rightarrow>
               (case cut_rows (length md) (pr_chunked_value p) md vs of
                  (rows, rest) \<Rightarrow>
                    (Ok (), rs\<lparr>rs_buffered_values := rest, rs_chunked := pr_chunked_value p,
                       rs_ready_rows := rs_ready_rows rs @ rows\<rparr>)))"

text \<open>The code expects metadata here; without it, it panics.\<close>

definition process_partial_result_set :: "partial_result_set \<Rightarrow> result_set \<Rightarrow> result_step run" where
  "process_partial_result_set p rs =
     (case process_stats p rs of
        (Err e, rs1) \<Rightarrow> Ret (Err e, rs1)
      | (Ok _, rs1) \<Rightarrow>
          (if pr_values p = [] then Ret (Ok (), rs1)
           else case rs_metadata rs1 of
                  None \<Rightarrow> Panic
                | Some md \<Rightarrow> Ret (process_values p md rs1)))"

fun process_all :: "partial_result_set list \<Rightarrow> result_set \<Rightarrow> result_step run" where
  "process_all [] rs = Ret (Ok (), rs)"
| "process_all (p # ps) rs =
     bind_run (process_partial_result_set p rs) (\<lambda>(r, rs').
       case r of Err e \<Rightarrow> Ret (Err e, rs') | Ok _ \<Rightarrow> process_all ps rs')"

definition flush_buffer :: "result_set \<Rightarrow> result_step run" where
  "flush_buffer rs = process_all (rs_buffer rs) (rs\<lparr>rs_buffer := []\<rparr>)"

definition select_transaction ::
  "begun_transaction option \<Rightarrow> ctx_selector option \<Rightarrow> (error, unit) result \<times> ctx_selector option" where
  "select_transaction tx selector =
     (case selector of
        None \<Rightarrow> (Ok (), None)
      | Some sel \<Rightarrow>
          (case tx of
             Some (i, ts) \<Rightarrow>
               (if i \<noteq> [] then (case ctx_update i ts sel of (r, sel') \<Rightarrow> (r, Some sel'))
                else if is_lazy sel \<and> \<not> is_started sel then
                  (Err (spanner_error ''Spanner failed to return a transaction ID for a query that included a BeginTransaction option''), Some sel)
                else (Ok (), Some sel))
           | None \<Rightarrow>
               (if is_lazy sel \<and> \<not> is_started sel then
                  (Err (spanner_error ''Spanner failed to return a transaction ID for a query that included a BeginTransaction option''), Some sel)
                else (Ok (), Some sel))))"

definition handle_metadata :: "result_metadata \<times> begun_transaction option \<Rightarrow> result_set \<Rightarrow> result_step" where
  "handle_metadata m rs =
     (case select_transaction (snd m) (rs_selector rs) of
        (Err e, sel) \<Rightarrow> (Err e, rs\<lparr>rs_selector := sel\<rparr>)
      | (Ok _, sel) \<Rightarrow> (Ok (), rs\<lparr>rs_selector := sel, rs_metadata := Some (fst m)\<rparr>))"

definition receive_metadata :: "partial_result_set \<Rightarrow> result_set \<Rightarrow> result_step" where
  "receive_metadata p rs =
     (case (rs_metadata rs, pr_metadata p) of
        (Some _, None) \<Rightarrow> (Ok (), rs)
      | (None, None) \<Rightarrow> (Err (spanner_error ''First PartialResultSet did not contain metadata''), rs)
      | (Some _, Some m) \<Rightarrow>
          (if rs_last_resume_token rs = [] then handle_metadata m rs
           else (Err (spanner_error ''Additional metadata after first result set''), rs))
      | (None, Some m) \<Rightarrow> handle_metadata m rs)"

text \<open>When the buffer is full, its oldest message is processed, and a retry would not be safe.\<close>

definition make_room :: "result_set \<Rightarrow> result_step run" where
  "make_room rs =
     (if rs_max_buffered rs \<le> length (rs_buffer rs) then
        (let rs1 = rs\<lparr>rs_safe_to_retry := False\<rparr>
         in case rs_buffer rs1 of
              [] \<Rightarrow> Ret (Ok (), rs1)
            | oldest # rest \<Rightarrow> process_partial_result_set oldest (rs1\<lparr>rs_buffer := rest\<rparr>))
      else Ret (Ok (), rs))"

definition handle_partial_result_set :: "partial_result_set \<Rightarrow> result_set \<Rightarrow> result_step run" where
  "handle_partial_result_set p rs =
     (let rs1 = rs\<lparr>rs_tracker := tracker_update (rs_tracker rs) (pr_precommit_token p),
            rs_seen_last := rs_seen_last rs \<or> pr_last p\<rparr>
      in case receive_metadata p rs1 of
           (Err e, rs2) \<Rightarrow> Ret (Err e, rs2)
         | (Ok _, rs2) \<Rightarrow>
             (if pr_resume_token p \<noteq> [] then
                flush_buffer (rs2\<lparr>rs_last_resume_token := pr_resume_token p, rs_safe_to_retry := True,
                  rs_buffer := rs_buffer rs2 @ [p]\<rparr>)
              else
                bind_run (make_room rs2) (\<lambda>(r, rs3).
                  case r of
                    Err e \<Rightarrow> Ret (Err e, rs3)
                  | Ok _ \<Rightarrow>
                      (let rs4 = rs3\<lparr>rs_buffer := rs_buffer rs3 @ [p]\<rparr>
                       in if rs_seen_last rs4 then flush_buffer rs4 else Ret (Ok (), rs4)))))"

definition validate_stream_termination :: "result_set \<Rightarrow> (error, unit) result" where
  "validate_stream_termination rs =
     (if rs_chunked rs then Err (spanner_error ''Stream ended with chunked_value=true'')
      else if rs_buffered_values rs \<noteq> [] then Err (spanner_error ''Stream ended before row is complete'')
      else Ok ())"

definition handle_stream_end :: "result_set \<Rightarrow> result_step run" where
  "handle_stream_end rs = flush_buffer (rs\<lparr>rs_stream := None, rs_seen_last := True\<rparr>)"

section \<open>Restarting the stream\<close>

text \<open>The result \<open>None\<close> waits for the next attempt.\<close>

type_synonym stream_outcome = "(error, unit) result option \<times> stream_attempts \<times> result_set"

definition restart_selector :: "ctx_selector option \<Rightarrow> (error, txn_selector option) result" where
  "restart_selector selector =
     (case selector of
        None \<Rightarrow> Ok None
      | Some s \<Rightarrow> (case selector_for_restart s of Err e \<Rightarrow> Err e | Ok sel \<Rightarrow> Ok (Some sel)))"

definition open_stream :: "txn_selector option \<Rightarrow> stream_attempts \<Rightarrow> result_set \<Rightarrow> stream_outcome" where
  "open_stream selector attempts rs =
     (case attempts of
        [] \<Rightarrow> (None, [], rs)
      | attempt # rest \<Rightarrow>
          (case attempt selector (rs_last_resume_token rs) of
             Err e \<Rightarrow> (Some (Err e), rest, rs)
           | Ok events \<Rightarrow> (Some (Ok ()), rest, rs\<lparr>rs_stream := Some events\<rparr>)))"

definition restart_stream :: "stream_attempts \<Rightarrow> result_set \<Rightarrow> stream_outcome" where
  "restart_stream attempts rs =
     (case aborted_error (rs_aborted rs) of
        Some e \<Rightarrow> (Some (Err e), attempts, rs)
      | None \<Rightarrow>
          (case restart_selector (rs_selector rs) of
             Err e \<Rightarrow> (Some (Err e), attempts, rs)
           | Ok selector \<Rightarrow> open_stream selector attempts rs))"

definition check_retry :: "result_env \<Rightarrow> result_set \<Rightarrow> error \<Rightarrow> (error, unit) result run" where
  "check_retry env rs e =
     (case rv_policy env of
        None \<Rightarrow> Ret (Err e)
      | Some policy \<Rightarrow>
          (let state = set_attempt_count (retry_state_new (rv_start env (rs_retry_count rs)) (rs_safe_to_retry rs))
                 (1 + of_nat (rs_retry_count rs))
           in map_run (\<lambda>answer. case answer of Continue _ \<Rightarrow> Ok () | Permanent e' \<Rightarrow> Err e' | Exhausted e' \<Rightarrow> Err e')
                (on_error policy (rv_now env (rs_retry_count rs)) state e)))"

definition mark_failed :: "result_env \<Rightarrow> error \<Rightarrow> result_set \<Rightarrow> result_set" where
  "mark_failed env e rs =
     rs\<lparr>rs_selector := map_option (ctx_set_failed (rv_text env) e (rv_is_emulator env)) (rs_selector rs)\<rparr>"

fun retry_stream ::
  "nat \<Rightarrow> result_env \<Rightarrow> stream_attempts \<Rightarrow> error \<Rightarrow> result_set \<Rightarrow> stream_outcome run" where
  "retry_stream 0 env attempts e rs = Ret (None, attempts, rs)"
| "retry_stream (Suc fuel) env attempts e rs =
     bind_run (check_retry env rs e) (\<lambda>answer.
       case answer of
         Err e' \<Rightarrow> Ret (Some (Err e'), attempts, mark_failed env e' rs)
       | Ok _ \<Rightarrow>
           (case restart_stream attempts (rs\<lparr>rs_retry_count := rs_retry_count rs + 1, rs_buffer := []\<rparr>) of
              (None, attempts', rs') \<Rightarrow> Ret (None, attempts', rs')
            | (Some (Ok _), attempts', rs') \<Rightarrow> Ret (Some (Ok ()), attempts', rs')
            | (Some (Err e'), attempts', rs') \<Rightarrow> retry_stream fuel env attempts' e' (record_if_aborted env e' rs')))"

definition handle_stream_error ::
  "nat \<Rightarrow> result_env \<Rightarrow> stream_attempts \<Rightarrow> error \<Rightarrow> result_set \<Rightarrow> stream_outcome run" where
  "handle_stream_error fuel env attempts e rs =
     (let rs1 = record_if_aborted env e rs
      in if rs_safe_to_retry rs1 then retry_stream fuel env attempts e rs1
         else Ret (Some (Err e), attempts, mark_failed env e rs1))"

section \<open>Rows\<close>

definition record_error_and_return :: "result_set \<Rightarrow> result_set" where
  "record_error_and_return rs =
     rs\<lparr>rs_seen_last := True, rs_stream := None, rs_ready_rows := [], rs_buffered_values := [], rs_chunked := False,
        rs_last_resume_token := [], rs_buffer := [], rs_safe_to_retry := False\<rparr>"

text \<open>One turn of the loop of \<open>next\<close> on the stream: a message, an error, or the end.\<close>

definition stream_turn ::
  "nat \<Rightarrow> result_env \<Rightarrow> stream_attempts \<Rightarrow> stream_event list \<Rightarrow> result_set \<Rightarrow> stream_outcome run" where
  "stream_turn fuel env attempts events rs =
     (case events of
        [] \<Rightarrow> map_run (\<lambda>(r, rs'). (Some r, attempts, rs')) (handle_stream_end rs)
      | StreamMessage p # rest \<Rightarrow>
          map_run (\<lambda>(r, rs'). (Some r, attempts, rs')) (handle_partial_result_set p (rs\<lparr>rs_stream := Some rest\<rparr>))
      | StreamError e # rest \<Rightarrow> handle_stream_error fuel env attempts e (rs\<lparr>rs_stream := Some rest\<rparr>))"

text \<open>
  \<open>next\<close>: the outer \<open>None\<close> of the result is "still running", the inner one the end of the rows.
\<close>

fun next_row ::
  "nat \<Rightarrow> result_env \<Rightarrow> stream_attempts \<Rightarrow> result_set \<Rightarrow>
   ((error, row) result option option \<times> stream_attempts \<times> result_set) run" where
  "next_row 0 env attempts rs = Ret (None, attempts, rs)"
| "next_row (Suc fuel) env attempts rs =
     (case rs_ready_rows rs of
        r # rows \<Rightarrow> Ret (Some (Some (Ok r)), attempts, rs\<lparr>rs_ready_rows := rows\<rparr>)
      | [] \<Rightarrow>
          (if rs_seen_last rs then
             (let rs1 = rs\<lparr>rs_stream := None\<rparr>
              in case validate_stream_termination rs1 of
                   Err e \<Rightarrow> Ret (Some (Some (Err e)), attempts, record_error_and_return rs1)
                 | Ok _ \<Rightarrow> Ret (Some None, attempts, rs1))
           else case aborted_error (rs_aborted rs) of
                  Some e \<Rightarrow> Ret (Some (Some (Err e)), attempts, record_error_and_return rs)
                | None \<Rightarrow>
                    (case rs_stream rs of
                       None \<Rightarrow> Ret (Some None, attempts, rs)
                     | Some events \<Rightarrow>
                         bind_run (stream_turn fuel env attempts events rs) (\<lambda>(r, attempts', rs').
                           case r of
                             None \<Rightarrow> Ret (None, attempts', rs')
                           | Some (Err e) \<Rightarrow> Ret (Some (Some (Err e)), attempts', record_error_and_return rs')
                           | Some (Ok _) \<Rightarrow> next_row fuel env attempts' rs'))))"

text \<open>\<open>init_stream\<close>: the first message, which has the metadata.\<close>

fun await_first ::
  "nat \<Rightarrow> result_env \<Rightarrow> stream_attempts \<Rightarrow> result_set \<Rightarrow> stream_outcome run" where
  "await_first 0 env attempts rs = Ret (None, attempts, rs)"
| "await_first (Suc fuel) env attempts rs =
     (let ended = spanner_error ''Query stream ended without metadata or error''
      in case rs_stream rs of
           None \<Rightarrow> Ret (Some (Err ended), attempts, rs)
         | Some (StreamMessage p # rest) \<Rightarrow>
             map_run (\<lambda>(r, rs').
               case r of
                 Err e \<Rightarrow> (Some (Err e), attempts, mark_failed env e (record_if_aborted env e rs'))
               | Ok _ \<Rightarrow> (Some (Ok ()), attempts, rs'))
             (handle_partial_result_set p (rs\<lparr>rs_stream := Some rest\<rparr>))
         | Some events \<Rightarrow>
             (let e = (case events of StreamError e # _ \<Rightarrow> e | _ \<Rightarrow> ended)
              in bind_run (handle_stream_error fuel env attempts e (rs\<lparr>rs_stream := Some (tl events)\<rparr>))
                   (\<lambda>(r, attempts', rs').
                      case r of Some (Ok _) \<Rightarrow> await_first fuel env attempts' rs' | _ \<Rightarrow> Ret (r, attempts', rs'))))"

definition init_stream ::
  "nat \<Rightarrow> result_env \<Rightarrow> stream_attempts \<Rightarrow> result_set \<Rightarrow> stream_outcome run" where
  "init_stream fuel env attempts rs =
     (case restart_stream attempts rs of
        (None, attempts', rs') \<Rightarrow> Ret (None, attempts', rs')
      | (Some (Ok _), attempts', rs') \<Rightarrow> await_first fuel env attempts' rs'
      | (Some (Err e), attempts', rs') \<Rightarrow>
          bind_run (handle_stream_error fuel env attempts' e rs') (\<lambda>(r, attempts'', rs'').
            case r of Some (Ok _) \<Rightarrow> await_first fuel env attempts'' rs'' | _ \<Rightarrow> Ret (r, attempts'', rs'')))"

definition apply_defaults :: "result_env \<Rightarrow> result_env" where
  "apply_defaults env =
     (if rv_policy env = None
      then env\<lparr>rv_policy := Some (with_attempt_limit spanner_retry_policy DEFAULT_ATTEMPT_LIMIT)\<rparr> else env)"

definition create_result_set ::
  "nat \<Rightarrow> result_env \<Rightarrow> stream_attempts \<Rightarrow> ctx_selector option \<Rightarrow> token_tracker \<Rightarrow> aborted_state \<Rightarrow> stream_outcome run" where
  "create_result_set fuel env attempts selector tracker aborted =
     map_run (\<lambda>(r, attempts', rs).
       case r of
         Some (Err e) \<Rightarrow> (r, attempts', record_if_aborted env e rs)
       | _ \<Rightarrow> (r, attempts', rs))
     (init_stream fuel env attempts (result_set_new selector tracker aborted))"

text \<open>The stream of rows: what it yields, and whether it has ended.\<close>

fun rows_stream ::
  "nat \<Rightarrow> result_env \<Rightarrow> stream_attempts \<Rightarrow> result_set \<Rightarrow> ((error, row) result list \<times> bool) run" where
  "rows_stream 0 env attempts rs = Ret ([], False)"
| "rows_stream (Suc fuel) env attempts rs =
     bind_run (next_row fuel env attempts rs) (\<lambda>(r, attempts', rs').
       case r of
         None \<Rightarrow> Ret ([], False)
       | Some None \<Rightarrow> Ret ([], True)
       | Some (Some row) \<Rightarrow> map_run (\<lambda>(rows, ended). (row # rows, ended)) (rows_stream fuel env attempts' rs'))"

text \<open>A query: the result set is made, with the defaults, and its rows are read.\<close>

definition read_query ::
  "nat \<Rightarrow> result_env \<Rightarrow> stream_attempts \<Rightarrow> ctx_selector option \<Rightarrow> token_tracker \<Rightarrow> aborted_state \<Rightarrow> ((error, row) result list \<times> bool) run" where
  "read_query fuel env attempts selector tracker aborted =
     bind_run (create_result_set fuel (apply_defaults env) attempts selector tracker aborted) (\<lambda>(r, attempts', rs).
       case r of
         None \<Rightarrow> Ret ([], False)
       | Some (Err e) \<Rightarrow> Ret ([Err e], True)
       | Some (Ok _) \<Rightarrow> rows_stream fuel (apply_defaults env) attempts' rs)"

definition update_count :: "result_set \<Rightarrow> int option" where
  "update_count rs =
     (case rs_stats rs of
        None \<Rightarrow> None
      | Some s \<Rightarrow> map_option (\<lambda>c. case c of RowCountExact n \<Rightarrow> n | RowCountLowerBound n \<Rightarrow> n) (st_row_count s))"


section \<open>Values in pieces\<close>

text \<open>
  The contract of the service, from the comment of \<open>merge_values\<close> and the protocol: a string is cut
  anywhere, a list inside an element or between two elements that would not be merged. A path names
  the cut.
\<close>

fun cut_value :: "nat list \<Rightarrow> pvalue \<Rightarrow> (pvalue \<times> pvalue) option" where
  "cut_value [i] (StringValue s) = Some (StringValue (take i s), StringValue (drop i s))"
| "cut_value [i] (ListValue xs) =
     (if 0 < i \<and> i < length xs \<and> same_chunk_kind (xs ! (i - 1)) (xs ! i) then None
      else Some (ListValue (take i xs), ListValue (drop i xs)))"
| "cut_value (i # j # path) (ListValue xs) =
     (if i < length xs
      then map_option (\<lambda>(a, b). (ListValue (take i xs @ [a]), ListValue (b # drop (i + 1) xs)))
             (cut_value (j # path) (xs ! i))
      else None)"
| "cut_value _ _ = None"

lemma cut_value_kind: "cut_value path v = Some (a, b) \<Longrightarrow> same_chunk_kind a b"
  by (induction path v arbitrary: a b rule: cut_value.induct) (auto split: if_splits)

lemma merge_values_cut: "cut_value path v = Some (a, b) \<Longrightarrow> merge_values a b = Ok v"
proof (induction path v arbitrary: a b rule: cut_value.induct)
  case (2 i xs)
  show ?case
  proof (cases "0 < i \<and> i < length xs")
    case True
    then have nonempty: "take i xs \<noteq> []" and "drop i xs = xs ! i # drop (Suc i) xs"
      by (auto simp: Cons_nth_drop_Suc)
    moreover have "last (take i xs) = xs ! (i - 1)"
      using True by (simp add: last_conv_nth [OF nonempty] min_def)
    ultimately show ?thesis using 2 True by (auto split: if_splits) (metis append_take_drop_id)
  next
    case False
    with 2 show ?thesis by (auto split: list.splits)
  qed
next
  case (3 i j path xs)
  from "3.prems" obtain a' b' where c: "cut_value (j # path) (xs ! i) = Some (a', b')" and i: "i < length xs"
    and ab: "a = ListValue (take i xs @ [a'])" "b = ListValue (b' # drop (i + 1) xs)"
    by (auto split: if_splits)
  with "3.IH" [OF i c] cut_value_kind [OF c] show ?case by (simp add: id_take_nth_drop [symmetric])
qed auto

section \<open>The reference: all values, one table\<close>

text \<open>All values of the messages, with the pieces merged.\<close>

fun gather :: "pvalue list \<Rightarrow> bool \<Rightarrow> partial_result_set list \<Rightarrow> (error, pvalue list \<times> bool) result" where
  "gather vs chunked [] = Ok (vs, chunked)"
| "gather vs chunked (p # ps) =
     (if pr_values p = [] then gather vs chunked ps
      else case merge_first chunked vs (pr_values p) of
             Err e \<Rightarrow> Err e
           | Ok vs' \<Rightarrow> gather vs' (pr_chunked_value p) ps)"

definition table :: "result_metadata \<Rightarrow> pvalue list \<Rightarrow> row list" where
  "table md vs =
     map (\<lambda>i. \<lparr>row_values = take (length md) (drop (i * length md) vs), row_metadata = md\<rparr>)
       [0..<length vs div length md]"

definition rows_of :: "result_metadata \<Rightarrow> row list \<Rightarrow> bool" where
  "rows_of md rows \<longleftrightarrow> list_all (\<lambda>r. length (row_values r) = length md \<and> row_metadata r = md) rows"

definition row_cells :: "row list \<Rightarrow> pvalue list" where "row_cells rows = concat (map row_values rows)"

lemma gather_append:
  "gather vs c (ps @ qs) = (case gather vs c ps of Err e \<Rightarrow> Err e | Ok (vs', c') \<Rightarrow> gather vs' c' qs)"
  by (induction ps arbitrary: vs c) (auto split: result.splits)

lemma row_cells_simps [simp]:
  "row_cells [] = []" "row_cells (r # rows) = row_values r @ row_cells rows"
  "row_cells (rows @ rows') = row_cells rows @ row_cells rows'"
  by (simp_all add: row_cells_def)

lemma rows_of_simps [simp]:
  "rows_of md []"
  "rows_of md (r # rows) \<longleftrightarrow> length (row_values r) = length md \<and> row_metadata r = md \<and> rows_of md rows"
  "rows_of md (rows @ rows') \<longleftrightarrow> rows_of md rows \<and> rows_of md rows'"
  by (auto simp: rows_of_def)

lemma row_cells_length: "rows_of md rows \<Longrightarrow> length (row_cells rows) = length rows * length md"
  by (induction rows) auto

lemma table_step:
  assumes "md \<noteq> []" "length r = length md"
  shows "table md (r @ vs) = \<lparr>row_values = r, row_metadata = md\<rparr> # table md vs"
proof -
  have "length (r @ vs) div length md = Suc (length vs div length md)"
    using assms div_add_self1 [of "length md" "length vs"] by simp
  with assms show ?thesis by (simp add: table_def upt_conv_Cons map_Suc_upt [symmetric] del: upt_Suc)
qed

lemma table_of_rows:
  assumes "md \<noteq> []"
  shows "rows_of md rows \<Longrightarrow> table md (row_cells rows @ vs) = rows @ table md vs"
  by (induction rows) (use assms in \<open>auto simp: table_step\<close>)

text \<open>What a service may send for one query: metadata first, statistics and the end mark at most last.\<close>

definition well_framed :: "result_metadata \<Rightarrow> partial_result_set list \<Rightarrow> bool" where
  "well_framed md ps \<longleftrightarrow>
     md \<noteq> [] \<and> ps \<noteq> [] \<and> map_option fst (pr_metadata (hd ps)) = Some md \<and> list_all (\<lambda>p. pr_metadata p = None) (tl ps) \<and>
     list_all (\<lambda>p. \<not> pr_last p \<and> pr_stats p = None) (butlast ps) \<and>
     (case pr_stats (last ps) of Some (Err _) \<Rightarrow> False | _ \<Rightarrow> True) \<and>
     distinct (filter (\<lambda>t. t \<noteq> []) (map pr_resume_token ps))"

definition well_sent :: "result_metadata \<Rightarrow> partial_result_set list \<Rightarrow> pvalue list \<Rightarrow> bool" where
  "well_sent md ps vs \<longleftrightarrow> well_framed md ps \<and> gather [] False ps = Ok (vs, False) \<and> length md dvd length vs"

text \<open>What follows a resume token, and a service that fails as it likes.\<close>

definition after :: "u8 list \<Rightarrow> partial_result_set list \<Rightarrow> partial_result_set list" where
  "after t ps = (if t = [] then ps else tl (dropWhile (\<lambda>p. pr_resume_token p \<noteq> t) ps))"

definition transaction_of :: "partial_result_set list \<Rightarrow> begun_transaction option" where
  "transaction_of ps = (case pr_metadata (hd ps) of Some (_, tx) \<Rightarrow> tx | None \<Rightarrow> None)"

datatype outage = Rejected error | Broken nat error | Served

fun serve :: "partial_result_set list \<Rightarrow> outage \<Rightarrow> txn_selector option \<Rightarrow> u8 list \<Rightarrow> (error, stream_event list) result" where
  "serve ps (Rejected e) sel t = Err e"
| "serve ps (Broken k e) sel t = Ok (map StreamMessage (take k (after t ps)) @ [StreamError e])"
| "serve ps Served sel t = Ok (map StreamMessage (after t ps))"

fun events_of :: "partial_result_set list \<Rightarrow> stream_event list \<Rightarrow> bool" where
  "events_of ms (StreamError e # es) \<longleftrightarrow> True"
| "events_of (m # ms) (StreamMessage p # es) \<longleftrightarrow> p = m \<and> events_of ms es"
| "events_of [] (StreamMessage p # es) \<longleftrightarrow> False"
| "events_of ms [] \<longleftrightarrow> ms = []"

lemma events_of_messages [simp]: "events_of ms (map StreamMessage ms)"
  by (induction ms) auto

lemma events_of_broken [simp]: "events_of ms (map StreamMessage (take k ms) @ [StreamError e])"
proof (induction ms arbitrary: k)
  case (Cons m ms)
  then show ?case by (cases k) auto
qed auto

lemma serve_events: "serve ps a sel t = Ok events \<Longrightarrow> events_of (after t ps) events"
  by (cases a) auto

lemma events_of_MessageD:
  assumes "events_of ms (StreamMessage p # es)"
  obtains ms' where "ms = p # ms'" "events_of ms' es"
  using assms by (cases ms) auto

lemma after_token:
  assumes "distinct (filter (\<lambda>t. t \<noteq> []) (map pr_resume_token (xs @ p # ys)))" "pr_resume_token p \<noteq> []"
  shows "after (pr_resume_token p) (xs @ p # ys) = ys"
proof -
  have "pr_resume_token p \<notin> pr_resume_token ` set xs" using assms by auto
  then have "dropWhile (\<lambda>q. pr_resume_token q \<noteq> pr_resume_token p) (xs @ p # ys) = p # ys"
    by (subst dropWhile_append2) (auto simp: image_iff)
  with assms show ?thesis by (simp add: after_def)
qed

lemma gather_prefix:
  assumes "gather vs c (ps @ qs) = Ok x"
  obtains vs' c' where "gather vs c ps = Ok (vs', c')"
  using assms by (auto simp: gather_append split: result.splits)

section \<open>Assembling rows\<close>

lemma cut_rows_cuts:
  assumes "cut_rows (length md) c md vs = (rows, rest)" "md \<noteq> []"
  shows "rows_of md rows \<and> row_cells rows @ rest = vs \<and> length rest \<le> length md \<and>
    (length rest = length md \<longrightarrow> c) \<and> (vs \<noteq> [] \<longrightarrow> c \<longrightarrow> rest \<noteq> [])"
  using assms
proof (induction "length md" c md vs arbitrary: rows rest rule: cut_rows.induct)
  case (1 c md vs)
  show ?case
  proof (cases "length vs < length md \<or> length vs = length md \<and> c")
    case True
    with 1 show ?thesis by (auto simp: cut_rows.simps [of "length md" c md vs])
  next
    case False
    obtain rows' rest' where cut: "cut_rows (length md) c md (drop (length md) vs) = (rows', rest')"
      by (cases "cut_rows (length md) c md (drop (length md) vs)")
    from 1(3) False cut 1(2) have eq: "rows = \<lparr>row_values = take (length md) vs, row_metadata = md\<rparr> # rows'" "rest = rest'"
      by (auto simp: cut_rows.simps [of "length md" c md vs] split: if_splits)
    from False 1(3) have "\<not> (length md = 0 \<or> length vs < length md \<or> length vs = length md \<and> c)" by auto
    from 1(1) [OF this cut] 1(3) eq False show ?thesis by auto
  qed
qed

lemma merge_first_append:
  assumes "merge_first c (xs @ ys) vs = Ok zs" "c \<Longrightarrow> ys \<noteq> []"
  obtains zs' where "merge_first c ys vs = Ok zs'" "zs = xs @ zs'"
  using assms by (auto simp: merge_first_def butlast_append split: list.splits if_splits result.splits)

lemma merge_first_nonempty: "merge_first c ys vs = Ok zs \<Longrightarrow> vs \<noteq> [] \<Longrightarrow> zs \<noteq> []"
  by (auto simp: merge_first_def split: list.splits if_splits result.splits)

text \<open>The rows given out, the rows that are ready and the values left over are those of the messages \<open>dn\<close>.\<close>

definition assembled :: "result_metadata \<Rightarrow> partial_result_set list \<Rightarrow> row list \<Rightarrow> result_set \<Rightarrow> bool" where
  "assembled md dn given rs \<longleftrightarrow>
     gather [] False dn = Ok (row_cells (given @ rs_ready_rows rs) @ rs_buffered_values rs, rs_chunked rs) \<and>
     rows_of md (given @ rs_ready_rows rs) \<and> length (rs_buffered_values rs) \<le> length md \<and>
     (length (rs_buffered_values rs) = length md \<longrightarrow> rs_chunked rs) \<and>
     (rs_chunked rs \<longrightarrow> rs_buffered_values rs \<noteq> [])"

definition same_control :: "result_set \<Rightarrow> result_set \<Rightarrow> bool" where
  "same_control rs rs' \<longleftrightarrow>
     rs' = rs\<lparr>rs_buffered_values := rs_buffered_values rs', rs_chunked := rs_chunked rs',
       rs_ready_rows := rs_ready_rows rs', rs_stats := rs_stats rs'\<rparr>"

lemma same_controlD:
  assumes "same_control rs rs'"
  shows "rs_stream rs' = rs_stream rs" "rs_seen_last rs' = rs_seen_last rs" "rs_metadata rs' = rs_metadata rs"
    "rs_last_resume_token rs' = rs_last_resume_token rs" "rs_buffer rs' = rs_buffer rs"
    "rs_safe_to_retry rs' = rs_safe_to_retry rs" "rs_max_buffered rs' = rs_max_buffered rs"
    "rs_retry_count rs' = rs_retry_count rs" "rs_aborted rs' = rs_aborted rs" "rs_tracker rs' = rs_tracker rs"
  by (rule ssubst [OF assms [unfolded same_control_def], of "\<lambda>r. _ r = _"], simp)+

lemma same_control_refl [simp]: "same_control rs rs"
  by (simp add: same_control_def)

lemma same_control_trans: "same_control a b \<Longrightarrow> same_control b c \<Longrightarrow> same_control a c"
  unfolding same_control_def by (cases a; cases b; cases c) simp


text \<open>One message that is in its place is absorbed; nothing but the assembly changes.\<close>

lemma process_assembles:
  assumes sent: "well_sent md ps vs" and ps: "ps = dn @ p # rest"
    and asm: "assembled md dn given rs" and md: "rs_metadata rs = Some md" and stats: "rs_stats rs = None"
  shows "\<exists>rs'. process_partial_result_set p rs = Ret (Ok (), rs') \<and> assembled md (dn @ [p]) given rs' \<and>
    same_control rs rs' \<and> (rs_stats rs' = None \<or> rest = [])"
proof -
  have pst: "pr_stats p = None \<or> rest = [] \<and> (\<exists>st. pr_stats p = Some (Ok st))"
    using sent ps by (cases "rest = []") (auto simp: well_sent_def well_framed_def butlast_append split: option.splits result.splits)
  obtain rs1 x where st: "process_stats p rs = (Ok (), rs1)" and rs1: "rs1 = rs\<lparr>rs_stats := x\<rparr>"
    and st1: "rs_stats rs1 = None \<or> rest = []"
  proof (cases "pr_stats p")
    case None
    with stats that [of rs None] show ?thesis by (simp add: process_stats_def)
  next
    case (Some r)
    with pst stats show ?thesis by (auto simp: process_stats_def intro: that)
  qed
  have asm1: "assembled md dn given rs1" and md1: "rs_metadata rs1 = Some md" and sc1: "same_control rs rs1"
    using asm md by (simp_all add: rs1 assembled_def same_control_def)
  show ?thesis
  proof (cases "pr_values p = []")
    case True
    with st asm1 sc1 st1 show ?thesis by (auto simp: process_partial_result_set_def assembled_def gather_append)
  next
    case False
    from sent ps obtain x where "gather [] False ((dn @ [p]) @ rest) = Ok x" by (auto simp: well_sent_def well_framed_def)
    then obtain vs' c' where "gather [] False (dn @ [p]) = Ok (vs', c')" by (rule gather_prefix)
    with asm1 False obtain ws
      where ws: "merge_first (rs_chunked rs1) (row_cells (given @ rs_ready_rows rs1) @ rs_buffered_values rs1) (pr_values p) = Ok ws"
      by (auto simp: assembled_def gather_append split: result.splits)
    have "rs_chunked rs1 \<Longrightarrow> rs_buffered_values rs1 \<noteq> []" using asm1 by (simp add: assembled_def)
    then obtain ws'
      where m: "merge_first (rs_chunked rs1) (rs_buffered_values rs1) (pr_values p) = Ok ws'"
        and ws': "ws = row_cells (given @ rs_ready_rows rs1) @ ws'" by (rule merge_first_append [OF ws])
    obtain rows left where cut: "cut_rows (length md) (pr_chunked_value p) md ws' = (rows, left)"
      by (cases "cut_rows (length md) (pr_chunked_value p) md ws'")
    let ?rs = "rs1\<lparr>rs_buffered_values := left, rs_chunked := pr_chunked_value p, rs_ready_rows := rs_ready_rows rs1 @ rows\<rparr>"
    have mdn: "md \<noteq> []" using sent by (simp add: well_sent_def well_framed_def)
    have "process_partial_result_set p rs = Ret (Ok (), ?rs)"
      using st md1 False mdn m cut by (simp add: process_partial_result_set_def process_values_def)
    moreover have "assembled md (dn @ [p]) given ?rs"
      using asm1 ws ws' cut_rows_cuts [OF cut mdn] False merge_first_nonempty [OF m False]
      by (auto simp: assembled_def gather_append)
    moreover have "same_control rs ?rs"
      by (rule same_control_trans [OF sc1]) (simp add: same_control_def)
    ultimately show ?thesis using st1 by auto
  qed
qed

lemma process_all_assembles:
  assumes "well_sent md ps vs"
  shows "ps = dn @ qs @ rest \<Longrightarrow> assembled md dn given rs \<Longrightarrow> rs_metadata rs = Some md \<Longrightarrow>
    rs_stats rs = None \<or> qs = [] \<Longrightarrow>
    \<exists>rs'. process_all qs rs = Ret (Ok (), rs') \<and> assembled md (dn @ qs) given rs' \<and> same_control rs rs' \<and>
      (rs_stats rs' = None \<or> rest = [] \<or> qs = [])"
proof (induction qs arbitrary: dn rs)
  case (Cons p qs)
  then have ps: "ps = dn @ p # qs @ rest" and none: "rs_stats rs = None" by auto
  from process_assembles [OF assms ps Cons.prems(2,3) none] obtain rs1
    where p: "process_partial_result_set p rs = Ret (Ok (), rs1)" and asm1: "assembled md (dn @ [p]) given rs1"
      and sc1: "same_control rs rs1" and st1: "rs_stats rs1 = None \<or> qs @ rest = []" by blast
  have "rs_metadata rs1 = Some md" using sc1 Cons.prems(3) by (simp add: same_controlD)
  with Cons.IH [of "dn @ [p]" rs1] ps asm1 st1 obtain rs2
    where "process_all qs rs1 = Ret (Ok (), rs2)" "assembled md (dn @ p # qs) given rs2" "same_control rs1 rs2"
      "rs_stats rs2 = None \<or> rest = [] \<or> qs = []" "qs = [] \<longrightarrow> rs2 = rs1"
    by (cases "qs = []") auto
  with p sc1 st1 show ?case by (auto dest: same_control_trans)
qed auto


section \<open>Resuming\<close>

text \<open>
  The messages \<open>dn\<close> are assembled, the next are buffered, and \<open>rest\<close> is still to come. As long as a
  retry is safe, what follows the last token is exactly what a restart has to deliver again.
\<close>

definition in_step ::
  "result_metadata \<Rightarrow> partial_result_set list \<Rightarrow> row list \<Rightarrow> partial_result_set list \<Rightarrow> partial_result_set list \<Rightarrow>
   result_set \<Rightarrow> bool" where
  "in_step md ps given dn rest rs \<longleftrightarrow>
     ps = dn @ rs_buffer rs @ rest \<and> assembled md dn given rs \<and>
     (rs_metadata rs = Some md \<or> rs_metadata rs = None \<and> dn = [] \<and> rs_buffer rs = []) \<and>
     (rs_stats rs = None \<or> dn = ps) \<and> (rs_last_resume_token rs = [] \<or> dn \<noteq> []) \<and>
     (rs_safe_to_retry rs \<and> \<not> rs_seen_last rs \<longrightarrow> after (rs_last_resume_token rs) ps = rs_buffer rs @ rest) \<and>
     (rs_seen_last rs \<longrightarrow> dn = ps)"

lemma assembled_cong:
  "rs_ready_rows rs' = rs_ready_rows rs \<Longrightarrow> rs_buffered_values rs' = rs_buffered_values rs \<Longrightarrow>
   rs_chunked rs' = rs_chunked rs \<Longrightarrow> assembled md dn given rs' \<longleftrightarrow> assembled md dn given rs"
  by (simp add: assembled_def)

lemma flush_in_step:
  assumes sent: "well_sent md ps vs" and ps: "ps = dn @ rs_buffer rs @ rest"
    and asm: "assembled md dn given rs" and md: "rs_metadata rs = Some md" and stats: "rs_stats rs = None \<or> dn = ps"
  shows "\<exists>rs'. flush_buffer rs = Ret (Ok (), rs') \<and> assembled md (dn @ rs_buffer rs) given rs' \<and>
    same_control (rs\<lparr>rs_buffer := []\<rparr>) rs' \<and> (rs_stats rs' = None \<or> rest = [])"
proof -
  let ?rs = "rs\<lparr>rs_buffer := []\<rparr>"
  have "assembled md dn given ?rs" using asm by (simp add: assembled_def)
  moreover have "rs_stats ?rs = None \<or> rs_buffer rs = []" using stats ps by auto
  ultimately obtain rs' where rs': "process_all (rs_buffer rs) ?rs = Ret (Ok (), rs')"
    "assembled md (dn @ rs_buffer rs) given rs'" "same_control ?rs rs'"
    "rs_stats rs' = None \<or> rest = [] \<or> rs_buffer rs = []"
    using process_all_assembles [OF sent ps, of given ?rs] md by auto
  moreover have "rs_stats rs' = None \<or> rest = []"
    using rs' stats ps by (cases "rs_buffer rs = []") auto
  ultimately show ?thesis by (auto simp: flush_buffer_def)
qed

lemma receive_metadata_in_place:
  assumes sent: "well_sent md ps vs" and ps: "ps = dn @ rs_buffer rs @ p # rest"
    and md: "rs_metadata rs = Some md \<or> rs_metadata rs = None \<and> dn = [] \<and> rs_buffer rs = []"
    and token: "rs_last_resume_token rs = [] \<or> dn \<noteq> []"
  shows "(\<exists>e sel. dn = [] \<and> rs_buffer rs = [] \<and> select_transaction (transaction_of ps) (rs_selector rs) = (Err e, sel) \<and>
      receive_metadata p rs = (Err e, rs\<lparr>rs_selector := sel\<rparr>)) \<or>
    (\<exists>sel. receive_metadata p rs = (Ok (), rs\<lparr>rs_selector := sel, rs_metadata := Some md\<rparr>))"
proof (cases "dn = [] \<and> rs_buffer rs = []")
  case True
  with sent ps token have "map_option fst (pr_metadata p) = Some md" "rs_last_resume_token rs = []"
    by (auto simp: well_sent_def well_framed_def)
  then have m: "pr_metadata p = Some (md, transaction_of ps)" "rs_last_resume_token rs = []"
    using True ps by (auto simp: transaction_of_def)
  obtain x sel where x: "select_transaction (transaction_of ps) (rs_selector rs) = (x, sel)"
    by (cases "select_transaction (transaction_of ps) (rs_selector rs)")
  with m True show ?thesis
    by (cases x) (auto simp: receive_metadata_def handle_metadata_def split: option.splits)
next
  case False
  then obtain x xs where "dn @ rs_buffer rs = x # xs" by (cases "dn @ rs_buffer rs") auto
  moreover have "ps = (dn @ rs_buffer rs) @ p # rest" using ps by simp
  ultimately have "pr_metadata p = None" using sent by (simp add: well_sent_def well_framed_def)
  moreover have "rs_metadata rs = Some md" using False md by auto
  ultimately have "receive_metadata p rs = (Ok (), rs\<lparr>rs_selector := rs_selector rs, rs_metadata := Some md\<rparr>)"
    by (cases rs) (simp add: receive_metadata_def)
  then show ?thesis by blast
qed

lemma make_room_in_place:
  assumes sent: "well_sent md ps vs" and ps: "ps = dn @ rs_buffer rs @ p # rest"
    and asm: "assembled md dn given rs" and md: "rs_metadata rs = Some md" and none: "rs_stats rs = None"
  shows "\<exists>rs' dn'. make_room rs = Ret (Ok (), rs') \<and> ps = dn' @ rs_buffer rs' @ p # rest \<and> assembled md dn' given rs' \<and>
    rs_stats rs' = None \<and> (rs_safe_to_retry rs' \<longrightarrow> rs' = rs \<and> dn' = dn) \<and> (dn \<noteq> [] \<longrightarrow> dn' \<noteq> []) \<and>
    rs_metadata rs' = Some md \<and> rs_last_resume_token rs' = rs_last_resume_token rs \<and>
    rs_stream rs' = rs_stream rs \<and> rs_retry_count rs' = rs_retry_count rs \<and> rs_seen_last rs' = rs_seen_last rs \<and>
    rs_aborted rs' = rs_aborted rs"
proof (cases "rs_max_buffered rs \<le> length (rs_buffer rs)")
  case False
  with assms show ?thesis by (auto simp: make_room_def)
next
  case full: True
  show ?thesis
  proof (cases "rs_buffer rs")
    case Nil
    with full assms show ?thesis by (auto simp: make_room_def Let_def assembled_def)
  next
    case (Cons oldest qs)
    let ?rs = "rs\<lparr>rs_safe_to_retry := False, rs_buffer := qs\<rparr>"
    have "ps = dn @ oldest # (qs @ p # rest)" using ps Cons by simp
    moreover have "assembled md dn given ?rs" using asm by (simp add: assembled_def)
    ultimately obtain rs' where "process_partial_result_set oldest ?rs = Ret (Ok (), rs')"
      "assembled md (dn @ [oldest]) given rs'" "rs_stats rs' = None" and sc: "same_control ?rs rs'"
      using process_assembles [OF sent, of dn oldest "qs @ p # rest" given ?rs] md none by auto
    moreover have "ps = (dn @ [oldest]) @ rs_buffer rs' @ p # rest" using ps Cons by (simp add: same_controlD [OF sc])
    ultimately show ?thesis using full Cons md by (auto simp: make_room_def Let_def same_controlD [OF sc])
  qed
qed

text \<open>A message in its place fails only if the transaction selector objects to its metadata.\<close>

lemma handle_partial_in_step:
  assumes sent: "well_sent md ps vs" and step: "in_step md ps given dn (p # rest) rs"
  shows "(\<exists>e rs' sel. dn = [] \<and> rs_buffer rs = [] \<and> select_transaction (transaction_of ps) (rs_selector rs) = (Err e, sel) \<and>
      handle_partial_result_set p rs = Ret (Err e, rs')) \<or>
    (\<exists>rs' dn'. handle_partial_result_set p rs = Ret (Ok (), rs') \<and> in_step md ps given dn' rest rs' \<and>
       rs_metadata rs' = Some md \<and> rs_stream rs' = rs_stream rs \<and> rs_retry_count rs' = rs_retry_count rs \<and>
       rs_aborted rs' = rs_aborted rs \<and> dn' @ rs_buffer rs' \<noteq> [])"
proof -
  let ?rs1 = "rs\<lparr>rs_tracker := tracker_update (rs_tracker rs) (pr_precommit_token p), rs_seen_last := rs_seen_last rs \<or> pr_last p\<rparr>"
  have unseen: "\<not> rs_seen_last rs" and ps: "ps = dn @ rs_buffer rs @ p # rest" and none: "rs_stats rs = None"
    using step by (auto simp: in_step_def)
  have asm: "assembled md dn given rs" using step by (simp add: in_step_def)
  have lst: "pr_last p \<Longrightarrow> rest = []"
    using sent ps by (cases "rest = []") (auto simp: well_sent_def well_framed_def butlast_append)
  have "rs_metadata ?rs1 = Some md \<or> rs_metadata ?rs1 = None \<and> dn = [] \<and> rs_buffer ?rs1 = []"
    "rs_last_resume_token ?rs1 = [] \<or> dn \<noteq> []" "ps = dn @ rs_buffer ?rs1 @ p # rest"
    using step by (auto simp: in_step_def)
  from receive_metadata_in_place [OF sent this(3,1,2)]
  have "(\<exists>e sel. dn = [] \<and> rs_buffer rs = [] \<and> select_transaction (transaction_of ps) (rs_selector rs) = (Err e, sel) \<and>
      receive_metadata p ?rs1 = (Err e, ?rs1\<lparr>rs_selector := sel\<rparr>)) \<or>
    (\<exists>sel. receive_metadata p ?rs1 = (Ok (), ?rs1\<lparr>rs_selector := sel, rs_metadata := Some md\<rparr>))" by simp
  then consider (err) e sel where "dn = []" "rs_buffer rs = []" "select_transaction (transaction_of ps) (rs_selector rs) = (Err e, sel)"
      "receive_metadata p ?rs1 = (Err e, ?rs1\<lparr>rs_selector := sel\<rparr>)"
    | (ok) sel where "receive_metadata p ?rs1 = (Ok (), ?rs1\<lparr>rs_selector := sel, rs_metadata := Some md\<rparr>)"
    by blast
  then show ?thesis
  proof cases
    case err
    then show ?thesis by (simp add: handle_partial_result_set_def Let_def)
  next
    case ok
    let ?rs2 = "?rs1\<lparr>rs_selector := sel, rs_metadata := Some md\<rparr>"
    have final: "dn' @ rs_buffer rs' \<noteq> []" if "in_step md ps given dn' rest rs'" for dn' rs'
    proof -
      have "(dn' @ rs_buffer rs') @ rest = (dn @ rs_buffer rs @ [p]) @ rest" using that ps unfolding in_step_def by simp
      then show ?thesis by (simp only: append_same_eq) simp
    qed
    show ?thesis
    proof (cases "pr_resume_token p = []")
      case False
      let ?rs3 = "?rs2\<lparr>rs_last_resume_token := pr_resume_token p, rs_safe_to_retry := True, rs_buffer := rs_buffer rs @ [p]\<rparr>"
      have "assembled md dn given ?rs3" using asm by (simp add: assembled_def)
      with flush_in_step [OF sent, of dn ?rs3 rest given] ps none obtain rs4
        where fl: "flush_buffer ?rs3 = Ret (Ok (), rs4)" and asm4: "assembled md (dn @ rs_buffer rs @ [p]) given rs4"
          and sc: "same_control (?rs3\<lparr>rs_buffer := []\<rparr>) rs4" and st4: "rs_stats rs4 = None \<or> rest = []" by auto
      have "after (pr_resume_token p) ps = rest"
        using after_token [of "dn @ rs_buffer rs" p rest] sent ps False by (simp add: well_sent_def well_framed_def)
      then have "in_step md ps given (dn @ rs_buffer rs @ [p]) rest rs4"
        using asm4 st4 ps lst unseen by (auto simp: in_step_def same_controlD [OF sc])
      with ok fl False final show ?thesis by (auto simp: handle_partial_result_set_def Let_def same_controlD [OF sc])
    next
      case True
      have "assembled md dn given ?rs2" using asm by (simp add: assembled_def)
      with make_room_in_place [OF sent, of dn ?rs2 p rest given] ps none obtain rs3 dn'
        where room: "make_room ?rs2 = Ret (Ok (), rs3)" and ps3: "ps = dn' @ rs_buffer rs3 @ p # rest"
          and asm3: "assembled md dn' given rs3" and none3: "rs_stats rs3 = None"
          and safe3: "rs_safe_to_retry rs3 \<longrightarrow> rs3 = ?rs2 \<and> dn' = dn" and dn': "dn \<noteq> [] \<longrightarrow> dn' \<noteq> []"
          and f3: "rs_metadata rs3 = Some md" "rs_last_resume_token rs3 = rs_last_resume_token rs"
            "rs_stream rs3 = rs_stream rs" "rs_retry_count rs3 = rs_retry_count rs" "rs_seen_last rs3 = pr_last p" "rs_aborted rs3 = rs_aborted rs"
        using unseen by auto
      let ?rs4 = "rs3\<lparr>rs_buffer := rs_buffer rs3 @ [p]\<rparr>"
      have asm4: "assembled md dn' given ?rs4" using asm3 by (simp add: assembled_def)
      have safe4: "rs_safe_to_retry rs3 \<longrightarrow> after (rs_last_resume_token rs) ps = rs_buffer rs3 @ p # rest"
        using safe3 step unseen by (auto simp: in_step_def)
      have token: "rs_last_resume_token rs = [] \<or> dn' \<noteq> []" using step dn' by (auto simp: in_step_def)
      show ?thesis
      proof (cases "pr_last p")
        case False
        have "in_step md ps given dn' rest ?rs4"
          using ps3 asm4 none3 safe4 token f3 False by (simp add: in_step_def)
        with ok room True False f3 final show ?thesis by (auto simp: handle_partial_result_set_def Let_def)
      next
        case last: True
        with flush_in_step [OF sent, of dn' ?rs4 rest given] ps3 asm4 none3 f3 lst obtain rs5
          where fl: "flush_buffer ?rs4 = Ret (Ok (), rs5)" and asm5: "assembled md ps given rs5"
            and sc: "same_control (?rs4\<lparr>rs_buffer := []\<rparr>) rs5" by auto
        have "in_step md ps given ps rest rs5"
          using ps3 asm5 token f3 last lst by (auto simp: in_step_def same_controlD [OF sc])
        moreover have "ps \<noteq> []" using ps by simp
        ultimately show ?thesis using ok room True last f3 fl
          by (auto simp: handle_partial_result_set_def Let_def same_controlD [OF sc])
      qed
    qed
  qed
qed

text \<open>The stream of an unfinished result set yields what is still to come, unless it breaks.\<close>

definition on_course :: "result_metadata \<Rightarrow> partial_result_set list \<Rightarrow> row list \<Rightarrow> result_set \<Rightarrow> bool" where
  "on_course md ps given rs \<longleftrightarrow>
     (\<exists>dn rest. in_step md ps given dn rest rs \<and>
        (rs_seen_last rs \<or> (\<exists>events. rs_stream rs = Some events \<and> events_of rest events)))"

definition served :: "partial_result_set list \<Rightarrow> stream_attempts \<Rightarrow> bool" where
  "served ps attempts \<longleftrightarrow> (\<exists>outages. attempts = map (serve ps) outages)"

lemma servedI: "served ps (map (serve ps) outages)"
  by (auto simp: served_def)

lemma served_ConsE:
  assumes "served ps (attempt # attempts)"
  obtains a where "attempt = serve ps a" "served ps attempts"
  using assms unfolding served_def by (metis map_eq_Cons_D)

lemma in_step_updates [simp]:
  "in_step md ps given dn rest (rs\<lparr>rs_stream := x\<rparr>) \<longleftrightarrow> in_step md ps given dn rest rs"
  "in_step md ps given dn rest (rs\<lparr>rs_aborted := y\<rparr>) \<longleftrightarrow> in_step md ps given dn rest rs"
  "in_step md ps given dn rest (rs\<lparr>rs_retry_count := n\<rparr>) \<longleftrightarrow> in_step md ps given dn rest rs"
  by (cases rs, simp add: in_step_def assembled_def)+

lemma in_step_after:
  "in_step md ps given dn rest rs \<Longrightarrow> rs_safe_to_retry rs \<Longrightarrow> \<not> rs_seen_last rs \<Longrightarrow>
   after (rs_last_resume_token rs) ps = rs_buffer rs @ rest"
  unfolding in_step_def by blast

lemma restart_on_course:
  assumes step: "in_step md ps given dn rest rs" and safe: "rs_safe_to_retry rs" and unseen: "\<not> rs_seen_last rs"
    and sv: "served ps attempts"
    and res: "restart_stream attempts (rs\<lparr>rs_retry_count := n, rs_buffer := []\<rparr>) = (r, attempts', rs')"
  shows "served ps attempts' \<and> in_step md ps given dn (rs_buffer rs @ rest) rs' \<and> rs_safe_to_retry rs' \<and>
    \<not> rs_seen_last rs' \<and> (r = Some (Ok ()) \<longrightarrow> on_course md ps given rs')"
proof -
  let ?rs = "rs\<lparr>rs_retry_count := n, rs_buffer := []\<rparr>"
  obtain x where rs': "rs' = ?rs\<lparr>rs_stream := x\<rparr>" and sv': "served ps attempts'"
    and ev: "r = Some (Ok ()) \<longrightarrow> (\<exists>events. x = Some events \<and> events_of (after (rs_last_resume_token rs) ps) events)"
  proof (cases "aborted_error (rs_aborted rs)")
    case (Some e)
    with res sv that [of "rs_stream rs"] show ?thesis by (auto simp: restart_stream_def)
  next
    case None
    show ?thesis
    proof (cases "restart_selector (rs_selector rs)")
      case (Err e)
      with None res sv that [of "rs_stream rs"] show ?thesis by (auto simp: restart_stream_def)
    next
      case (Ok sel)
      with None res have opened: "open_stream sel attempts ?rs = (r, attempts', rs')" by (simp add: restart_stream_def)
      show ?thesis
      proof (cases attempts)
        case Nil
        with opened sv that [of "rs_stream rs"] show ?thesis by (auto simp: open_stream_def)
      next
        case (Cons attempt as)
        with sv obtain a where a: "attempt = serve ps a" "served ps as" by (auto elim: served_ConsE)
        with opened Cons that [of "rs_stream rs"] that [of "rs_stream rs'"] show ?thesis
          by (cases "serve ps a sel (rs_last_resume_token rs)") (auto simp: open_stream_def dest: serve_events)
      qed
    qed
  qed
  note a = in_step_after [OF step safe unseen]
  have step': "in_step md ps given dn (rs_buffer rs @ rest) rs'"
    using step a unseen unfolding in_step_def by (auto simp: rs' assembled_def)
  have "on_course md ps given rs'" if "r = Some (Ok ())"
    using ev that a step' by (auto simp: on_course_def rs')
  with step' sv' safe unseen show ?thesis by (simp add: rs')
qed

text \<open>A restart in full: whatever the retries come to, a stream that is opened again continues in place.\<close>

lemma retry_on_course:
  assumes "in_step md ps given dn rest rs" "rs_safe_to_retry rs" "\<not> rs_seen_last rs"
    and "served ps attempts" and "retry_stream fuel env attempts e rs = Ret (r, attempts', rs')"
  shows "served ps attempts' \<and> (r = Some (Ok ()) \<longrightarrow> on_course md ps given rs' \<and> \<not> rs_seen_last rs')"
  using assms
proof (induction fuel arbitrary: attempts e rs rest)
  case 0
  then show ?case by auto
next
  case (Suc fuel)
  let ?rs = "rs\<lparr>rs_retry_count := rs_retry_count rs + 1, rs_buffer := []\<rparr>"
  obtain r1 at1 rs1 where res: "restart_stream attempts ?rs = (r1, at1, rs1)" by (metis prod_cases3)
  from restart_on_course [OF Suc.prems(1-4) res]
  have at1: "served ps at1" and step1: "in_step md ps given dn (rs_buffer rs @ rest) rs1"
      and ctl: "rs_safe_to_retry rs1" "\<not> rs_seen_last rs1" and ok: "r1 = Some (Ok ()) \<longrightarrow> on_course md ps given rs1" by auto
  have step2: "in_step md ps given dn (rs_buffer rs @ rest) (record_if_aborted env e' rs1)" for e'
    using step1 by (simp add: record_if_aborted_def)
  have again: "served ps attempts' \<and> (r = Some (Ok ()) \<longrightarrow> on_course md ps given rs' \<and> \<not> rs_seen_last rs')"
    if "retry_stream fuel env at1 e' (record_if_aborted env e' rs1) = Ret (r, attempts', rs')" for e'
    using Suc.IH [OF step2 [of e'] _ _ at1 that] ctl by (simp add: record_if_aborted_def)
  obtain answer where "check_retry env rs e = Ret answer" using Suc.prems(5) by (auto simp: bind_run_Ret_iff)
  with Suc.prems(4,5) res at1 ok ctl(2) again show ?case
    by (cases answer; cases r1) (auto split: result.splits)
qed

lemma stream_error_on_course:
  assumes "in_step md ps given dn rest rs" "\<not> rs_seen_last rs"
    and "served ps attempts" and "handle_stream_error fuel env attempts e rs = Ret (r, attempts', rs')"
  shows "served ps attempts' \<and> (r = Some (Ok ()) \<longrightarrow> on_course md ps given rs' \<and> \<not> rs_seen_last rs')"
proof (cases "rs_safe_to_retry rs")
  case True
  moreover have "in_step md ps given dn rest (record_if_aborted env e rs)"
    using assms(1) by (simp add: record_if_aborted_def)
  ultimately show ?thesis
    using retry_on_course [of md ps given dn rest "record_if_aborted env e rs" attempts fuel env e r attempts' rs'] assms(2-4)
    by (auto simp: handle_stream_error_def Let_def record_if_aborted_def)
next
  case False
  with assms(3,4) show ?thesis by (auto simp: handle_stream_error_def record_if_aborted_def Let_def)
qed

lemma stream_end_on_course:
  assumes sent: "well_sent md ps vs" and step: "in_step md ps given dn [] rs"
  shows "\<exists>rs'. handle_stream_end rs = Ret (Ok (), rs') \<and> on_course md ps given rs' \<and> rs_seen_last rs' \<and>
    rs_stream rs' = None \<and> rs_retry_count rs' = rs_retry_count rs \<and> rs_aborted rs' = rs_aborted rs"
proof -
  let ?rs = "rs\<lparr>rs_stream := None, rs_seen_last := True\<rparr>"
  have ps: "ps = dn @ rs_buffer ?rs @ []" and "ps \<noteq> []" using sent step by (auto simp: in_step_def well_sent_def well_framed_def)
  then have md: "rs_metadata ?rs = Some md" using step by (auto simp: in_step_def)
  have "assembled md dn given ?rs" "rs_stats ?rs = None \<or> dn = ps" using step by (auto simp: in_step_def assembled_def)
  with flush_in_step [OF sent ps _ md] ps obtain rs'
    where fl: "flush_buffer ?rs = Ret (Ok (), rs')" and asm: "assembled md ps given rs'"
      and sc: "same_control (?rs\<lparr>rs_buffer := []\<rparr>) rs'" by auto
  have "in_step md ps given ps [] rs'"
    using asm md \<open>ps \<noteq> []\<close> by (simp add: in_step_def same_controlD [OF sc])
  then have "on_course md ps given rs'" by (auto simp: on_course_def same_controlD [OF sc])
  with fl show ?thesis by (simp add: handle_stream_end_def same_controlD [OF sc])
qed

lemma stream_turn_on_course:
  assumes sent: "well_sent md ps vs" and step: "in_step md ps given dn rest rs" and unseen: "\<not> rs_seen_last rs"
    and ev: "events_of rest events" and sv: "served ps attempts"
    and turn: "stream_turn fuel env attempts events rs = Ret (r, attempts', rs')"
  shows "served ps attempts' \<and> (r = Some (Ok ()) \<longrightarrow> on_course md ps given rs')"
proof (cases events)
  case Nil
  with ev have "rest = []" by simp
  with stream_end_on_course [OF sent, of given dn rs] step Nil turn sv show ?thesis
    by (auto simp: stream_turn_def)
next
  case (Cons event es)
  have step': "in_step md ps given dn rest (rs\<lparr>rs_stream := Some es\<rparr>)"
    using step by simp
  show ?thesis
  proof (cases event)
    case (StreamError e)
    then show ?thesis using stream_error_on_course [OF step', of attempts fuel env e r attempts' rs'] turn sv unseen Cons
      by (simp add: stream_turn_def)
  next
    case (StreamMessage p)
    with Cons ev obtain rest' where rest: "rest = p # rest'" "events_of rest' es" by (auto elim: events_of_MessageD)
    from handle_partial_in_step [OF sent step' [unfolded rest(1)]] show ?thesis
    proof (elim disjE exE conjE)
      fix e rs2 assume "handle_partial_result_set p (rs\<lparr>rs_stream := Some es\<rparr>) = Ret (Err e, rs2)"
      with turn sv StreamMessage Cons show ?thesis by (auto simp: stream_turn_def)
    next
      fix rs2 dn2
      assume "handle_partial_result_set p (rs\<lparr>rs_stream := Some es\<rparr>) = Ret (Ok (), rs2)"
        "in_step md ps given dn2 rest' rs2" "rs_stream rs2 = rs_stream (rs\<lparr>rs_stream := Some es\<rparr>)"
      with turn sv StreamMessage Cons rest(2) show ?thesis by (auto simp: stream_turn_def on_course_def)
    qed
  qed
qed

section \<open>The rows of a query\<close>

lemma gather_extends:
  assumes "gather (xs @ ys) c qs = Ok (zs, c')" "c \<Longrightarrow> ys \<noteq> []"
  shows "\<exists>zs'. zs = xs @ zs'"
  using assms
proof (induction qs arbitrary: ys c)
  case (Cons p qs)
  show ?case
  proof (cases "pr_values p = []")
    case True
    with Cons show ?thesis by auto
  next
    case False
    then obtain ws where ws: "merge_first c (xs @ ys) (pr_values p) = Ok ws"
      and g: "gather ws (pr_chunked_value p) qs = Ok (zs, c')" using Cons.prems(1) by (auto split: result.splits)
    from merge_first_append [OF ws Cons.prems(2)] obtain ys'
      where m: "merge_first c ys (pr_values p) = Ok ys'" and "ws = xs @ ys'" by blast
    with Cons.IH [of ys'] g merge_first_nonempty [OF m False] show ?thesis by simp
  qed
qed auto

lemma assembled_prefix:
  assumes sent: "well_sent md ps vs" and asm: "assembled md dn given rs" and ps: "ps = dn @ qs"
  shows "prefix (given @ rs_ready_rows rs) (table md vs)"
proof -
  have g: "gather (row_cells (given @ rs_ready_rows rs) @ rs_buffered_values rs) (rs_chunked rs) qs = Ok (vs, False)"
    using sent asm by (simp add: well_sent_def well_framed_def assembled_def ps gather_append)
  from gather_extends [OF g] asm obtain ws where "vs = row_cells (given @ rs_ready_rows rs) @ ws"
    by (auto simp: assembled_def)
  moreover have "md \<noteq> []" "rows_of md (given @ rs_ready_rows rs)" using sent asm by (auto simp: well_sent_def well_framed_def assembled_def)
  ultimately show ?thesis using table_of_rows [of md "given @ rs_ready_rows rs" ws] by simp
qed

lemma on_course_prefix:
  assumes sent: "well_sent md ps vs" and "on_course md ps given rs"
  shows "prefix given (table md vs)"
proof -
  from assms(2) obtain dn rest where "assembled md dn given rs" "ps = dn @ rs_buffer rs @ rest"
    unfolding on_course_def in_step_def by blast
  from assembled_prefix [OF sent this] show ?thesis by (rule append_prefixD)
qed

lemma assembled_complete:
  assumes sent: "well_sent md ps vs" and asm: "assembled md ps given rs"
  shows "given @ rs_ready_rows rs = table md vs \<and> validate_stream_termination rs = Ok ()"
proof -
  have md: "md \<noteq> []" and dvd: "length md dvd length vs" and g: "gather [] False ps = Ok (vs, False)"
    using sent by (auto simp: well_sent_def well_framed_def)
  have vs: "vs = row_cells (given @ rs_ready_rows rs) @ rs_buffered_values rs" and c: "\<not> rs_chunked rs"
    using asm g by (auto simp: assembled_def)
  have rows: "rows_of md (given @ rs_ready_rows rs)" and le: "length (rs_buffered_values rs) < length md"
    using asm c by (auto simp: assembled_def order.order_iff_strict)
  have "length vs = length (given @ rs_ready_rows rs) * length md + length (rs_buffered_values rs)"
    using row_cells_length [OF rows] by (simp only: vs length_append)
  with dvd have "length md dvd length (rs_buffered_values rs)" by (metis dvd_add_right_iff dvd_triv_right)
  with le have "rs_buffered_values rs = []" by (auto dest: dvd_imp_le)
  with c table_of_rows [OF md rows, of "[]"] vs show ?thesis
    by (simp add: validate_stream_termination_def table_def)
qed

lemma in_step_given:
  assumes "rs_ready_rows rs = row # rows"
  shows "in_step md ps (given @ [row]) dn rest (rs\<lparr>rs_ready_rows := rows\<rparr>) \<longleftrightarrow> in_step md ps given dn rest rs"
proof -
  have "assembled md dn (given @ [row]) (rs\<lparr>rs_ready_rows := rows\<rparr>) \<longleftrightarrow> assembled md dn given rs"
    using assms by (simp add: assembled_def)
  then show ?thesis by (simp add: in_step_def)
qed

text \<open>Every row that is given out is the next one of the table, and the end comes after the last.\<close>

lemma next_row_on_course:
  assumes sent: "well_sent md ps vs"
  shows "on_course md ps given rs \<Longrightarrow> served ps attempts \<Longrightarrow> next_row fuel env attempts rs = Ret (r, attempts', rs') \<Longrightarrow>
    (case r of
       None \<Rightarrow> True
     | Some None \<Rightarrow> given = table md vs
     | Some (Some (Ok row)) \<Rightarrow> on_course md ps (given @ [row]) rs' \<and> served ps attempts'
     | Some (Some (Err e)) \<Rightarrow> \<exists>rs1. rs' = record_error_and_return rs1)"
proof (induction fuel arbitrary: rs attempts)
  case (Suc fuel)
  from Suc.prems(1) obtain dn rest where step: "in_step md ps given dn rest rs"
    and live: "rs_seen_last rs \<or> (\<exists>events. rs_stream rs = Some events \<and> events_of rest events)"
    by (auto simp: on_course_def)
  show ?case
  proof (cases "rs_ready_rows rs")
    case (Cons row rows)
    have "in_step md ps (given @ [row]) dn rest (rs\<lparr>rs_ready_rows := rows\<rparr>)"
      using step by (simp add: in_step_given [OF Cons])
    with live have "on_course md ps (given @ [row]) (rs\<lparr>rs_ready_rows := rows\<rparr>)" by (auto simp: on_course_def)
    with Cons Suc.prems show ?thesis by auto
  next
    case ready: Nil
    show ?thesis
    proof (cases "rs_seen_last rs")
      case True
      have "dn = ps" "assembled md dn given rs" using step True unfolding in_step_def by blast+
      then have "assembled md ps given rs" by simp
      from assembled_complete [OF sent this] ready True Suc.prems(3) show ?thesis
        by (auto simp: Let_def validate_stream_termination_def split: result.splits if_splits)
    next
      case unseen: False
      with live obtain events where ev: "rs_stream rs = Some events" "events_of rest events" by auto
      show ?thesis
      proof (cases "aborted_error (rs_aborted rs)")
        case (Some e)
        with ready unseen Suc.prems(3) show ?thesis by auto
      next
        case None
        with ready unseen ev Suc.prems(3) obtain r1 at1 rs1
          where turn: "stream_turn fuel env attempts events rs = Ret (r1, at1, rs1)"
            and go: "(case r1 of None \<Rightarrow> Ret (None, at1, rs1)
              | Some (Err e) \<Rightarrow> Ret (Some (Some (Err e)), at1, record_error_and_return rs1)
              | Some (Ok _) \<Rightarrow> next_row fuel env at1 rs1) = Ret (r, attempts', rs')"
          by (auto simp: bind_run_Ret_iff)
        from stream_turn_on_course [OF sent step unseen ev(2) Suc.prems(2) turn]
        have sv1: "served ps at1" and ok: "r1 = Some (Ok ()) \<longrightarrow> on_course md ps given rs1" by auto
        show ?thesis
        proof (cases r1)
          case (Some answer)
          show ?thesis
          proof (cases answer)
            case (Ok u)
            with Suc.IH [OF _ sv1] ok go Some show ?thesis by simp
          qed (use go Some in auto)
        qed (use go in auto)
      qed
    qed
  qed
qed auto

lemma rows_after_error: "rows_stream fuel env attempts (record_error_and_return rs) = Ret (items, ended) \<Longrightarrow> items = []"
proof (cases fuel)
  case (Suc n)
  assume "rows_stream fuel env attempts (record_error_and_return rs) = Ret (items, ended)"
  with Suc show ?thesis
    by (cases n) (auto simp: record_error_and_return_def validate_stream_termination_def Let_def)
qed auto

lemma rows_stream_on_course:
  assumes sent: "well_sent md ps vs"
  shows "on_course md ps given rs \<Longrightarrow> served ps attempts \<Longrightarrow> rows_stream fuel env attempts rs = Ret (items, ended) \<Longrightarrow>
    \<exists>rows. prefix (given @ rows) (table md vs) \<and>
      (items = map Ok rows \<and> (ended \<longrightarrow> given @ rows = table md vs) \<or> (\<exists>e. items = map Ok rows @ [Err e]))"
proof (induction fuel arbitrary: given rs attempts items)
  case 0
  then show ?case using on_course_prefix [OF sent, of given rs] by (intro exI [of _ "[]"]) auto
next
  case (Suc fuel)
  have "prefix given (table md vs)"
    using on_course_prefix [OF sent Suc.prems(1)] .
  obtain r at1 rs1 where n: "next_row fuel env attempts rs = Ret (r, at1, rs1)"
    using Suc.prems(3) by (auto simp: bind_run_Ret_iff)
  note course = next_row_on_course [OF sent Suc.prems(1,2) n]
  show ?case
  proof (cases "\<exists>row. r = Some (Some (Ok row))")
    case True
    then obtain row where r: "r = Some (Some (Ok row))" by auto
    with course have "on_course md ps (given @ [row]) rs1" "served ps at1" by auto
    moreover from r n Suc.prems(3) obtain items1 where "rows_stream fuel env at1 rs1 = Ret (items1, ended)" "items = Ok row # items1"
      by (auto simp: map_run_Ret_iff)
    ultimately obtain rows where "prefix ((given @ [row]) @ rows) (table md vs)"
      "items1 = map Ok rows \<and> (ended \<longrightarrow> (given @ [row]) @ rows = table md vs) \<or> (\<exists>e. items1 = map Ok rows @ [Err e])"
      using Suc.IH by blast
    with \<open>items = Ok row # items1\<close> show ?thesis by (intro exI [of _ "row # rows"]) auto
  next
    case False
    with course n Suc.prems(3) \<open>prefix given (table md vs)\<close> show ?thesis
      by (intro exI [of _ "[]"]) (auto simp: map_run_Ret_iff dest: rows_after_error split: option.splits result.splits)
  qed
qed

lemma bind_run_tripleE:
  assumes "bind_run m (\<lambda>(a, b, c). f a b c) = Ret y"
  obtains a b c where "m = Ret (a, b, c)" "f a b c = Ret y"
  using assms by (cases m) auto

lemma await_first_on_course:
  assumes sent: "well_sent md ps vs"
  shows "on_course md ps given rs \<Longrightarrow> \<not> rs_seen_last rs \<Longrightarrow> served ps attempts \<Longrightarrow>
    await_first fuel env attempts rs = Ret (r, attempts', rs') \<Longrightarrow> r = Some (Ok ()) \<Longrightarrow>
    on_course md ps given rs' \<and> served ps attempts'"
proof (induction fuel arbitrary: rs attempts)
  case (Suc fuel)
  from Suc.prems(1,2) obtain dn rest events where step: "in_step md ps given dn rest rs"
    and ev: "rs_stream rs = Some events" "events_of rest events" by (auto simp: on_course_def)
  have step': "in_step md ps given dn rest (rs\<lparr>rs_stream := x\<rparr>)" for x using step by simp
  show ?case
  proof (cases "\<exists>p es. events = StreamMessage p # es")
    case True
    then obtain p es where events: "events = StreamMessage p # es" by auto
    with ev obtain rest' where rest: "rest = p # rest'" "events_of rest' es" by (auto elim: events_of_MessageD)
    from handle_partial_in_step [OF sent step' [of "Some es", unfolded rest(1)]] show ?thesis
    proof (elim disjE exE conjE)
      fix e rs2 assume "handle_partial_result_set p (rs\<lparr>rs_stream := Some es\<rparr>) = Ret (Err e, rs2)"
      with Suc.prems ev events show ?thesis by auto
    next
      fix rs2 dn2
      assume "handle_partial_result_set p (rs\<lparr>rs_stream := Some es\<rparr>) = Ret (Ok (), rs2)"
        "in_step md ps given dn2 rest' rs2" "rs_stream rs2 = rs_stream (rs\<lparr>rs_stream := Some es\<rparr>)"
      with Suc.prems ev events rest(2) show ?thesis by (auto simp: on_course_def)
    qed
  next
    case False
    then obtain e where aw: "await_first (Suc fuel) env attempts rs =
        bind_run (handle_stream_error fuel env attempts e (rs\<lparr>rs_stream := Some (tl events)\<rparr>))
          (\<lambda>(r, attempts', rs'). case r of Some (Ok _) \<Rightarrow> await_first fuel env attempts' rs' | _ \<Rightarrow> Ret (r, attempts', rs'))"
      using ev by (cases events rule: list.exhaust; cases "hd events") (auto simp: Let_def)
    obtain r1 at1 rs1
      where e: "handle_stream_error fuel env attempts e (rs\<lparr>rs_stream := Some (tl events)\<rparr>) = Ret (r1, at1, rs1)"
        and go: "(case r1 of Some (Ok _) \<Rightarrow> await_first fuel env at1 rs1 | _ \<Rightarrow> Ret (r1, at1, rs1)) = Ret (r, attempts', rs')"
      using Suc.prems(4) unfolding aw by (rule bind_run_tripleE)
    with stream_error_on_course [OF step' _ Suc.prems(3) e] Suc.prems(2,5) Suc.IH [of rs1 at1] show ?thesis
      by (auto split: option.splits result.splits)
  qed
qed auto

lemma create_on_course:
  assumes sent: "well_sent md ps vs" and sv: "served ps attempts"
    and res: "create_result_set fuel env attempts selector tracker aborted = Ret (Some (Ok ()), attempts', rs')"
  shows "on_course md ps [] rs' \<and> served ps attempts'"
proof -
  let ?rs = "result_set_new selector tracker aborted"
  have step: "in_step md ps [] [] ps ?rs" and ctl: "rs_safe_to_retry ?rs" "\<not> rs_seen_last ?rs"
    using sent by (auto simp: result_set_new_def in_step_def assembled_def after_def well_sent_def well_framed_def)
  obtain r1 at1 rs1 where start: "restart_stream attempts ?rs = (r1, at1, rs1)" by (metis prod_cases3)
  have "?rs\<lparr>rs_retry_count := 0, rs_buffer := []\<rparr> = ?rs" by (simp add: result_set_new_def)
  with restart_on_course [OF step ctl sv, of 0 r1 at1 rs1] start
  have sv1: "served ps at1" and step1: "in_step md ps [] [] ps rs1" and seen1: "\<not> rs_seen_last rs1"
    and ok: "r1 = Some (Ok ()) \<longrightarrow> on_course md ps [] rs1" by (auto simp: result_set_new_def)
  have i: "init_stream fuel env attempts ?rs = Ret (Some (Ok ()), attempts', rs')"
  proof (cases "init_stream fuel env attempts ?rs")
    case (Ret x)
    then obtain r0 at0 rs0 where "init_stream fuel env attempts ?rs = Ret (r0, at0, rs0)" by (metis prod_cases3)
    with res show ?thesis by (auto simp: create_result_set_def split: option.splits result.splits)
  qed (use res in \<open>simp add: create_result_set_def\<close>)
  show ?thesis
  proof (cases "r1 = Some (Ok ())")
    case True
    with i start have "await_first fuel env at1 rs1 = Ret (Some (Ok ()), attempts', rs')" by (simp add: init_stream_def)
    from await_first_on_course [OF sent _ seen1 sv1 this] ok True show ?thesis by simp
  next
    case False
    with i start obtain x where r1: "r1 = Some (Err x)"
      by (cases r1; cases "the r1") (auto simp: init_stream_def)
    obtain r2 at2 rs2
      where e: "handle_stream_error fuel env at1 x rs1 = Ret (r2, at2, rs2)"
        and go: "(case r2 of Some (Ok _) \<Rightarrow> await_first fuel env at2 rs2 | _ \<Rightarrow> Ret (r2, at2, rs2)) = Ret (Some (Ok ()), attempts', rs')"
      using i start r1 by (auto simp: init_stream_def elim: bind_run_tripleE)
    from stream_error_on_course [OF step1 seen1 sv1 e] have sv2: "served ps at2"
      and ok2: "r2 = Some (Ok ()) \<longrightarrow> on_course md ps [] rs2 \<and> \<not> rs_seen_last rs2" by auto
    from go have r2: "r2 = Some (Ok ())" "await_first fuel env at2 rs2 = Ret (Some (Ok ()), attempts', rs')"
      by (auto split: option.splits result.splits)
    from await_first_on_course [OF sent _ _ sv2 r2(2)] ok2 r2(1) show ?thesis by auto
  qed
qed

text \<open>
  C4. However the service's streams are refused or break, and whatever retries the policy allows,
  the rows of a query are rows of the table the service sent, in order, from the first: no row is
  lost, repeated or put together from pieces of two streams. If the rows end without an error, they
  are the whole table.\<close>

theorem query_rows_in_order:
  assumes "well_sent md ps vs"
    and "read_query fuel env (map (serve ps) outages) selector tracker aborted = Ret (items, ended)"
  shows "\<exists>rows. prefix rows (table md vs) \<and>
    (items = map Ok rows \<and> (ended \<longrightarrow> rows = table md vs) \<or> (\<exists>e. items = map Ok rows @ [Err e]))"
proof -
  let ?env = "apply_defaults env"
  from assms(2) obtain r attempts' rs where c: "create_result_set fuel ?env (map (serve ps) outages) selector tracker aborted = Ret (r, attempts', rs)"
    by (auto simp: read_query_def bind_run_Ret_iff)
  show ?thesis
  proof (cases "r = Some (Ok ())")
    case True
    with create_on_course [OF assms(1) servedI] c have "on_course md ps [] rs" "served ps attempts'" by auto
    moreover have "rows_stream fuel ?env attempts' rs = Ret (items, ended)" using assms(2) c True by (simp add: read_query_def)
    ultimately show ?thesis using rows_stream_on_course [OF assms(1)] by fastforce
  next
    case False
    with assms(2) c show ?thesis
      by (intro exI [of _ "[]"]) (auto simp: read_query_def split: option.splits result.splits)
  qed
qed

section \<open>Reading ends\<close>

text \<open>A policy that never panics and never continues after \<open>N\<close> attempts.\<close>

definition gives_up :: "result_env \<Rightarrow> nat \<Rightarrow> bool" where
  "gives_up env N \<longleftrightarrow> 0 < N \<and> N < 2 ^ 32 \<and>
     (\<forall>policy. rv_policy env = Some policy \<longrightarrow>
        (\<forall>now st e. on_error policy now st e \<noteq> Panic \<and>
           (N \<le> unat (attempt_count st) \<longrightarrow> (\<forall>e'. on_error policy now st e \<noteq> Ret (Continue e')))))"

text \<open>
  The retries that are left have their attempts, and bound the events that can still be read: a stream
  has at most \<open>L\<close>.
\<close>

definition in_budget :: "nat \<Rightarrow> stream_attempts \<Rightarrow> result_set \<Rightarrow> bool" where
  "in_budget N attempts rs \<longleftrightarrow> rs_retry_count rs < N \<and> N \<le> rs_retry_count rs + 1 + length attempts"

definition reserve :: "nat \<Rightarrow> nat \<Rightarrow> result_set \<Rightarrow> nat" where
  "reserve N L rs = (N - 1 - rs_retry_count rs) * (L + 1)"

definition pending :: "result_set \<Rightarrow> nat" where
  "pending rs = (case rs_stream rs of Some events \<Rightarrow> length events | None \<Rightarrow> 0)"

lemma check_retry_returns:
  assumes "gives_up env N" "rs_retry_count rs < N"
  shows "(\<exists>e'. check_retry env rs e = Ret (Err e')) \<or> check_retry env rs e = Ret (Ok ()) \<and> rs_retry_count rs + 1 < N"
proof (cases "rv_policy env")
  case (Some policy)
  let ?c = "rs_retry_count rs"
  let ?st = "set_attempt_count (retry_state_new (rv_start env ?c) (rs_safe_to_retry rs)) (1 + of_nat ?c)"
  have "unat (1 + of_nat ?c :: u32) = 1 + ?c"
    using assms by (simp add: gives_up_def unat_of_nat take_bit_nat_eq_self flip: of_nat_Suc)
  then have count: "unat (attempt_count ?st) = 1 + ?c" by (simp add: retry_state_defs)
  obtain answer where a: "on_error policy (rv_now env ?c) ?st e = Ret answer"
    using assms(1) Some by (cases "on_error policy (rv_now env ?c) ?st e") (auto simp: gives_up_def)
  have "?c + 1 < N" if "answer = Continue e'" for e'
    using assms(1) Some a that count by (force simp: gives_up_def not_less)
  then show ?thesis using Some a by (cases answer) (auto simp: check_retry_def Let_def)
qed (simp add: check_retry_def)

lemma serve_length: "serve ps a sel t = Ok events \<Longrightarrow> length events \<le> length ps + 1"
proof -
  have "length (after t ps) \<le> length ps"
    using length_dropWhile_le [of "\<lambda>p. pr_resume_token p \<noteq> t" ps] unfolding after_def by auto
  then show "serve ps a sel t = Ok events \<Longrightarrow> length events \<le> length ps + 1" by (cases a) auto
qed

lemma restart_returns:
  assumes "served ps attempts" "attempts \<noteq> []" "restart_stream attempts rs = (r, attempts', rs')"
  shows "\<exists>answer. r = Some answer \<and> rs_retry_count rs' = rs_retry_count rs \<and> length attempts \<le> length attempts' + 1 \<and>
    rs_safe_to_retry rs' = rs_safe_to_retry rs \<and> served ps attempts' \<and> (answer = Ok () \<longrightarrow> pending rs' \<le> length ps + 1)"
proof -
  obtain attempt as where as: "attempts = attempt # as" using assms(2) by (cases attempts) auto
  with assms(1) obtain a where a: "attempt = serve ps a" and sv: "served ps as" by (auto elim: served_ConsE)
  consider (err) e where "restart_stream attempts rs = (Some (Err e), attempts, rs)"
    | (opened) sel where "restart_stream attempts rs = open_stream sel attempts rs"
    by (cases "aborted_error (rs_aborted rs)"; cases "restart_selector (rs_selector rs)") (auto simp: restart_stream_def)
  then show ?thesis
  proof cases
    case err
    with assms show ?thesis by auto
  next
    case opened
    with assms(3) as a sv show ?thesis
      by (cases "serve ps a sel (rs_last_resume_token rs)") (auto simp: open_stream_def pending_def dest: serve_length)
  qed
qed

lemma retry_returns:
  assumes up: "gives_up env N" and L: "length ps < L"
  shows "served ps attempts \<Longrightarrow> in_budget N attempts rs \<Longrightarrow> N - rs_retry_count rs \<le> fuel \<Longrightarrow>
    \<exists>answer attempts' rs'. retry_stream fuel env attempts e rs = Ret (Some answer, attempts', rs') \<and>
      (answer = Ok () \<longrightarrow> in_budget N attempts' rs' \<and> pending rs' + reserve N L rs' < reserve N L rs)"
proof (induction fuel arbitrary: attempts rs e)
  case 0
  then show ?case by (simp add: in_budget_def)
next
  case (Suc fuel)
  let ?c = "rs_retry_count rs"
  let ?rs = "rs\<lparr>rs_retry_count := ?c + 1, rs_buffer := []\<rparr>"
  have c: "?c < N" using Suc.prems(2) by (simp add: in_budget_def)
  from check_retry_returns [OF up c, of e] show ?case
  proof (elim disjE exE conjE)
    fix e' assume "check_retry env rs e = Ret (Err e')"
    then show ?thesis by simp
  next
    assume ok: "check_retry env rs e = Ret (Ok ())" and c1: "?c + 1 < N"
    then have "attempts \<noteq> []" using Suc.prems(2) by (auto simp: in_budget_def)
    obtain r1 at1 rs1 where res: "restart_stream attempts ?rs = (r1, at1, rs1)" by (metis prod_cases3)
    from restart_returns [OF Suc.prems(1) \<open>attempts \<noteq> []\<close> res] obtain answer
      where r1: "r1 = Some answer" and c': "rs_retry_count rs1 = ?c + 1" and len: "length attempts \<le> length at1 + 1"
        and sv1: "served ps at1" and ev: "answer = Ok () \<longrightarrow> pending rs1 \<le> length ps + 1" by auto
    have bud: "in_budget N at1 rs1" using Suc.prems(2) c1 c' len by (auto simp: in_budget_def)
    have "N - 1 - ?c = Suc (N - 1 - (?c + 1))" using c1 by simp
    then have less: "reserve N L rs1 + L < reserve N L rs" by (simp only: reserve_def c') simp
    show ?thesis
    proof (cases answer)
      case (Ok u)
      with ok res r1 bud ev L less show ?thesis by auto
    next
      case (Err e')
      let ?rs2 = "record_if_aborted env e' rs1"
      have "in_budget N at1 ?rs2" "reserve N L ?rs2 = reserve N L rs1" "N - rs_retry_count ?rs2 \<le> fuel"
        using bud c' Suc.prems(3) by (auto simp: in_budget_def reserve_def record_if_aborted_def)
      with Suc.IH [OF sv1, of ?rs2 e'] ok res r1 Err less show ?thesis by auto
    qed
  qed
qed

lemma stream_error_returns:
  assumes "gives_up env N" "length ps < L" "served ps attempts" "in_budget N attempts rs" "N \<le> fuel"
  shows "\<exists>answer attempts' rs'. handle_stream_error fuel env attempts e rs = Ret (Some answer, attempts', rs') \<and>
      (answer = Ok () \<longrightarrow> in_budget N attempts' rs' \<and> pending rs' + reserve N L rs' < reserve N L rs)"
proof -
  let ?rs = "record_if_aborted env e rs"
  have "in_budget N attempts ?rs" "reserve N L ?rs = reserve N L rs" "N - rs_retry_count ?rs \<le> fuel"
    using assms by (auto simp: in_budget_def reserve_def record_if_aborted_def)
  with retry_returns [OF assms(1-3), of ?rs fuel e] show ?thesis
    by (auto simp: handle_stream_error_def Let_def)
qed

text \<open>Every turn on the stream returns, and lowers what is left to do, unless it ends the rows.\<close>

lemma stream_turn_returns:
  assumes sent: "well_sent md ps vs" and step: "in_step md ps given dn rest rs" and unseen: "\<not> rs_seen_last rs"
    and ev: "events_of rest events" and stream: "rs_stream rs = Some events" and sv: "served ps attempts"
    and up: "gives_up env N" and L: "length ps < L" and bud: "in_budget N attempts rs" and fuel: "N \<le> fuel"
  shows "\<exists>answer attempts' rs'. stream_turn fuel env attempts events rs = Ret (Some answer, attempts', rs') \<and>
    (answer = Ok () \<longrightarrow> in_budget N attempts' rs' \<and>
       (rs_seen_last rs' \<and> pending rs' = 0 \<and> reserve N L rs' = reserve N L rs \<or>
        pending rs' + reserve N L rs' < pending rs + reserve N L rs))"
proof (cases events)
  case Nil
  with ev have "rest = []" by simp
  from stream_end_on_course [OF sent, of given dn rs] step \<open>rest = []\<close> obtain rs'
    where "handle_stream_end rs = Ret (Ok (), rs')" "rs_seen_last rs'" "rs_stream rs' = None"
      "rs_retry_count rs' = rs_retry_count rs" by auto
  with Nil bud show ?thesis
    by (auto simp: stream_turn_def in_budget_def pending_def reserve_def)
next
  case (Cons event es)
  let ?rs = "rs\<lparr>rs_stream := Some es\<rparr>"
  have step': "in_step md ps given dn rest ?rs" using step by simp
  have bud': "in_budget N attempts ?rs" "reserve N L ?rs = reserve N L rs" using bud by (auto simp: in_budget_def reserve_def)
  show ?thesis
  proof (cases event)
    case (StreamError e)
    with stream_error_returns [OF up L sv bud'(1) fuel, of e] Cons bud'(2) show ?thesis
      by (auto simp: stream_turn_def)
  next
    case (StreamMessage p)
    with Cons ev obtain rest' where rest: "rest = p # rest'" by (auto elim: events_of_MessageD)
    from handle_partial_in_step [OF sent step' [unfolded rest(1)]] bud Cons StreamMessage stream show ?thesis
      by (auto simp: stream_turn_def in_budget_def pending_def reserve_def)
  qed
qed

lemma next_row_seen_last:
  assumes "on_course md ps given rs" "rs_seen_last rs" "0 < fuel"
  shows "\<exists>r rs'. next_row fuel env attempts rs = Ret (Some r, attempts, rs') \<and>
    (\<forall>row. r = Some (Ok row) \<longrightarrow> rs' = rs\<lparr>rs_ready_rows := rs_ready_rows rs'\<rparr>)"
proof -
  obtain n where "fuel = Suc n" using assms(3) by (cases fuel) auto
  with assms(2) show ?thesis
    by (cases "rs_ready_rows rs") (auto simp: Let_def validate_stream_termination_def)
qed

lemma next_row_returns:
  assumes sent: "well_sent md ps vs" and up: "gives_up env N" and L: "length ps < L"
  shows "on_course md ps given rs \<Longrightarrow> served ps attempts \<Longrightarrow> in_budget N attempts rs \<Longrightarrow>
    N + pending rs + reserve N L rs + 2 \<le> fuel \<Longrightarrow>
    \<exists>r attempts' rs'. next_row fuel env attempts rs = Ret (Some r, attempts', rs') \<and>
      (\<forall>row. r = Some (Ok row) \<longrightarrow> in_budget N attempts' rs' \<and> pending rs' + reserve N L rs' \<le> pending rs + reserve N L rs)"
proof (induction fuel arbitrary: rs attempts)
  case (Suc fuel)
  from Suc.prems(1) obtain dn rest where step: "in_step md ps given dn rest rs"
    and live: "rs_seen_last rs \<or> (\<exists>events. rs_stream rs = Some events \<and> events_of rest events)"
    by (auto simp: on_course_def)
  consider (row) r rows where "rs_ready_rows rs = r # rows" | (last) "rs_ready_rows rs = []" "rs_seen_last rs"
    | (aborted) e where "rs_ready_rows rs = []" "\<not> rs_seen_last rs" "aborted_error (rs_aborted rs) = Some e"
    | (turn) "rs_ready_rows rs = []" "\<not> rs_seen_last rs" "aborted_error (rs_aborted rs) = None"
    by (cases "rs_ready_rows rs"; cases "aborted_error (rs_aborted rs)") auto
  then show ?case
  proof cases
    case row
    with Suc.prems(3) show ?thesis by (auto simp: in_budget_def pending_def reserve_def)
  next
    case last
    then show ?thesis by (cases "validate_stream_termination (rs\<lparr>rs_stream := None\<rparr>)") (auto simp: Let_def)
  next
    case aborted
    then show ?thesis by simp
  next
    case turn
    with live obtain events where ev: "rs_stream rs = Some events" "events_of rest events" by auto
    have fuel: "N \<le> fuel" using Suc.prems(4) by simp
    from stream_turn_returns [OF sent step turn(2) ev(2,1) Suc.prems(2) up L Suc.prems(3) fuel] obtain answer at1 rs1
      where t: "stream_turn fuel env attempts events rs = Ret (Some answer, at1, rs1)"
        and ok: "answer = Ok () \<longrightarrow> in_budget N at1 rs1 \<and>
          (rs_seen_last rs1 \<and> pending rs1 = 0 \<and> reserve N L rs1 = reserve N L rs \<or>
           pending rs1 + reserve N L rs1 < pending rs + reserve N L rs)" by blast
    from stream_turn_on_course [OF sent step turn(2) ev(2) Suc.prems(2) t]
    have sv1: "served ps at1" and course1: "answer = Ok () \<longrightarrow> on_course md ps given rs1" by auto
    show ?thesis
    proof (cases answer)
      case (Err e)
      with turn ev t show ?thesis by simp
    next
      case (Ok u)
      then have n: "next_row (Suc fuel) env attempts rs = next_row fuel env at1 rs1" using turn ev t by simp
      have bud1: "in_budget N at1 rs1" and course: "on_course md ps given rs1" using ok course1 Ok by auto
      show ?thesis
      proof (cases "rs_seen_last rs1")
        case True
        from next_row_seen_last [OF course True, of fuel env at1] Suc.prems(4) obtain r rs'
          where r: "next_row fuel env at1 rs1 = Ret (Some r, at1, rs')"
            and same: "\<forall>row. r = Some (Ok row) \<longrightarrow> rs' = rs1\<lparr>rs_ready_rows := rs_ready_rows rs'\<rparr>" by auto
        have "in_budget N at1 rs' \<and> pending rs' + reserve N L rs' \<le> pending rs + reserve N L rs" if "r = Some (Ok row)" for row
        proof -
          from same that have eq: "rs' = rs1\<lparr>rs_ready_rows := rs_ready_rows rs'\<rparr>" by blast
          have "rs_retry_count rs' = rs_retry_count rs1" "rs_stream rs' = rs_stream rs1" by (subst eq, simp)+
          with bud1 ok Ok show ?thesis by (auto simp: in_budget_def pending_def reserve_def)
        qed
        with r show ?thesis unfolding n by blast
      next
        case False
        with ok Ok have less: "pending rs1 + reserve N L rs1 < pending rs + reserve N L rs" by auto
        with Suc.IH [OF course sv1 bud1] Suc.prems(4) obtain r at2 rs2
          where "next_row fuel env at1 rs1 = Ret (Some r, at2, rs2)"
            "\<forall>row. r = Some (Ok row) \<longrightarrow> in_budget N at2 rs2 \<and> pending rs2 + reserve N L rs2 \<le> pending rs1 + reserve N L rs1"
          by auto
        with less show ?thesis unfolding n by fastforce
      qed
    qed
  qed
qed auto

lemma rows_end_after_error: "2 \<le> fuel \<Longrightarrow> rows_stream fuel env attempts (record_error_and_return rs) = Ret ([], True)"
  by (cases fuel; cases "fuel - 1") (auto simp: record_error_and_return_def validate_stream_termination_def Let_def)

lemma rows_stream_ends:
  assumes sent: "well_sent md ps vs" and up: "gives_up env N" and L: "length ps < L"
  shows "on_course md ps given rs \<Longrightarrow> served ps attempts \<Longrightarrow> in_budget N attempts rs \<Longrightarrow>
    N + pending rs + reserve N L rs + (length (table md vs) - length given) + 4 \<le> fuel \<Longrightarrow>
    \<exists>items. rows_stream fuel env attempts rs = Ret (items, True)"
proof (induction fuel arbitrary: given rs attempts)
  case (Suc fuel)
  have "N + pending rs + reserve N L rs + 2 \<le> fuel" using Suc.prems(4) by simp
  from next_row_returns [OF sent up L Suc.prems(1-3) this] obtain r at1 rs1
    where n: "next_row fuel env attempts rs = Ret (Some r, at1, rs1)"
      and bud: "\<forall>row. r = Some (Ok row) \<longrightarrow> in_budget N at1 rs1 \<and> pending rs1 + reserve N L rs1 \<le> pending rs + reserve N L rs"
    by auto
  note course = next_row_on_course [OF sent Suc.prems(1,2) n]
  consider (finished) "r = None" | (err) e where "r = Some (Err e)" | (row) row where "r = Some (Ok row)"
    by (cases r; cases "the r") auto
  then show ?case
  proof cases
    case finished
    with n show ?thesis by simp
  next
    case err
    with course obtain rs2 where "rs1 = record_error_and_return rs2" by auto
    with n err rows_end_after_error [of fuel "env" at1 rs2] Suc.prems(4) show ?thesis by simp
  next
    case row
    with course have on: "on_course md ps (given @ [row]) rs1" and sv: "served ps at1" by auto
    have "length (given @ [row]) \<le> length (table md vs)" using on_course_prefix [OF sent on] by (rule prefix_length_le)
    with bud row Suc.prems(4) have "in_budget N at1 rs1"
      "N + pending rs1 + reserve N L rs1 + (length (table md vs) - length (given @ [row])) + 4 \<le> fuel" by auto
    from Suc.IH [OF on sv this] n row show ?thesis by auto
  qed
qed auto

lemma await_first_returns:
  assumes sent: "well_sent md ps vs" and up: "gives_up env N" and L: "length ps < L"
  shows "on_course md ps given rs \<Longrightarrow> \<not> rs_seen_last rs \<Longrightarrow> served ps attempts \<Longrightarrow> in_budget N attempts rs \<Longrightarrow>
    N + pending rs + reserve N L rs + 1 \<le> fuel \<Longrightarrow>
    \<exists>answer attempts' rs'. await_first fuel env attempts rs = Ret (Some answer, attempts', rs') \<and>
      (answer = Ok () \<longrightarrow> in_budget N attempts' rs' \<and> pending rs' + reserve N L rs' \<le> pending rs + reserve N L rs)"
proof (induction fuel arbitrary: rs attempts)
  case (Suc fuel)
  from Suc.prems(1,2) obtain dn rest events where step: "in_step md ps given dn rest rs"
    and ev: "rs_stream rs = Some events" "events_of rest events" by (auto simp: on_course_def)
  have step': "in_step md ps given dn rest (rs\<lparr>rs_stream := x\<rparr>)" for x using step by simp
  show ?case
  proof (cases "\<exists>p es. events = StreamMessage p # es")
    case True
    then obtain p es where events: "events = StreamMessage p # es" by auto
    with ev obtain rest' where rest: "rest = p # rest'" "events_of rest' es" by (auto elim: events_of_MessageD)
    from handle_partial_in_step [OF sent step' [of "Some es", unfolded rest(1)]] ev events Suc.prems(4)
    show ?thesis by (auto simp: in_budget_def pending_def reserve_def)
  next
    case False
    let ?rs = "rs\<lparr>rs_stream := Some (tl events)\<rparr>"
    obtain e where aw: "await_first (Suc fuel) env attempts rs =
        bind_run (handle_stream_error fuel env attempts e ?rs)
          (\<lambda>(r, attempts', rs'). case r of Some (Ok _) \<Rightarrow> await_first fuel env attempts' rs' | _ \<Rightarrow> Ret (r, attempts', rs'))"
      using ev False by (cases events rule: list.exhaust; cases "hd events") (auto simp: Let_def)
    have bud: "in_budget N attempts ?rs" "reserve N L ?rs = reserve N L rs" "N \<le> fuel"
      using Suc.prems(4,5) by (auto simp: in_budget_def reserve_def)
    from stream_error_returns [OF up L Suc.prems(3) bud(1,3), of e] obtain answer at1 rs1
      where e: "handle_stream_error fuel env attempts e ?rs = Ret (Some answer, at1, rs1)"
        and ok: "answer = Ok () \<longrightarrow> in_budget N at1 rs1 \<and> pending rs1 + reserve N L rs1 < reserve N L rs"
      using bud(2) by auto
    from stream_error_on_course [OF step' _ Suc.prems(3) e] Suc.prems(2)
    have sv1: "served ps at1" and course: "answer = Ok () \<longrightarrow> on_course md ps given rs1 \<and> \<not> rs_seen_last rs1" by auto
    show ?thesis
    proof (cases answer)
      case (Err x)
      with aw e show ?thesis by simp
    next
      case (Ok u)
      with ok course Suc.IH [of rs1 at1] sv1 Suc.prems(5) obtain a2 at2 rs2
        where "await_first fuel env at1 rs1 = Ret (Some a2, at2, rs2)"
          "a2 = Ok () \<longrightarrow> in_budget N at2 rs2 \<and> pending rs2 + reserve N L rs2 \<le> pending rs1 + reserve N L rs1" by auto
      with aw e Ok ok show ?thesis by auto
    qed
  qed
qed auto

lemma create_returns:
  assumes sent: "well_sent md ps vs" and up: "gives_up env N" and sv: "served ps attempts"
    and len: "N \<le> length attempts" and fuel: "N * (length ps + 3) \<le> fuel"
  shows "\<exists>answer attempts' rs'. create_result_set fuel env attempts selector tracker aborted = Ret (Some answer, attempts', rs') \<and>
    (answer = Ok () \<longrightarrow> in_budget N attempts' rs' \<and> N + pending rs' + reserve N (length ps + 1) rs' < N * (length ps + 3))"
proof -
  let ?rs = "result_set_new selector tracker aborted" and ?L = "length ps + 1"
  have step: "in_step md ps [] [] ps ?rs" and ctl: "rs_safe_to_retry ?rs" "\<not> rs_seen_last ?rs"
    using sent by (auto simp: result_set_new_def in_step_def assembled_def after_def well_sent_def well_framed_def)
  have N: "0 < N" using up by (simp add: gives_up_def)
  obtain k where k: "N = Suc k" using N by (cases N) auto
  obtain r1 at1 rs1 where start: "restart_stream attempts ?rs = (r1, at1, rs1)" by (metis prod_cases3)
  have eq: "?rs\<lparr>rs_retry_count := 0, rs_buffer := []\<rparr> = ?rs" by (simp add: result_set_new_def)
  with restart_on_course [OF step ctl sv, of 0 r1 at1 rs1] start
  have sv1: "served ps at1" and step1: "in_step md ps [] [] ps rs1" and seen1: "\<not> rs_seen_last rs1"
    and ok: "r1 = Some (Ok ()) \<longrightarrow> on_course md ps [] rs1" by (auto simp: result_set_new_def)
  from len N have "attempts \<noteq> []" by auto
  from restart_returns [OF sv this start] obtain answer where r1: "r1 = Some answer"
    and c: "rs_retry_count rs1 = 0" and "length attempts \<le> length at1 + 1"
    and ev: "answer = Ok () \<longrightarrow> pending rs1 \<le> length ps + 1" by (auto simp: result_set_new_def)
  then have bud: "in_budget N at1 rs1" using len N by (simp add: in_budget_def)
  have res: "reserve N ?L rs1 = k * (length ps + 2)" by (simp add: reserve_def c k)
  have first: "\<exists>a2 at' rs'. await_first fuel env at2 rs2 = Ret (Some a2, at', rs') \<and>
      (a2 = Ok () \<longrightarrow> in_budget N at' rs' \<and> N + pending rs' + reserve N ?L rs' < N * (length ps + 3))"
    if "on_course md ps [] rs2" "\<not> rs_seen_last rs2" "served ps at2" "in_budget N at2 rs2"
      "pending rs2 + reserve N ?L rs2 \<le> length ps + 1 + k * (length ps + 2)" for at2 rs2
  proof -
    have le: "N + (pending rs2 + reserve N ?L rs2) + 1 \<le> N * (length ps + 3)" using that(5) by (simp add: k algebra_simps)
    then show ?thesis using await_first_returns [OF sent up _ that(1-4), of ?L fuel] fuel by fastforce
  qed
  have "\<exists>a2 at' rs'. init_stream fuel env attempts ?rs = Ret (Some a2, at', rs') \<and>
      (a2 = Ok () \<longrightarrow> in_budget N at' rs' \<and> N + pending rs' + reserve N ?L rs' < N * (length ps + 3))"
  proof (cases answer)
    case (Ok u)
    with first [OF _ seen1 sv1 bud] ok ev r1 res start show ?thesis by (simp add: init_stream_def)
  next
    case (Err x)
    have "N \<le> fuel" using fuel by (rule order.trans [rotated]) simp
    from stream_error_returns [OF up _ sv1 bud this, of ?L x] obtain a2 at2 rs2
      where e: "handle_stream_error fuel env at1 x rs1 = Ret (Some a2, at2, rs2)"
        and ok2: "a2 = Ok () \<longrightarrow> in_budget N at2 rs2 \<and> pending rs2 + reserve N ?L rs2 < reserve N ?L rs1" by auto
    from stream_error_on_course [OF step1 seen1 sv1 e] have sv2: "served ps at2"
      and course2: "a2 = Ok () \<longrightarrow> on_course md ps [] rs2 \<and> \<not> rs_seen_last rs2" by auto
    show ?thesis
    proof (cases a2)
      case (Ok u)
      with first [OF _ _ sv2] ok2 course2 res start r1 Err e show ?thesis by (simp add: init_stream_def)
    next
      case err2: (Err y)
      with start r1 Err e show ?thesis by (simp add: init_stream_def)
    qed
  qed
  then show ?thesis by (auto simp: create_result_set_def split: result.splits)
qed

lemma default_gives_up:
  assumes "rv_policy env = None"
  shows "gives_up (apply_defaults env) 10"
proof -
  have "on_error (with_attempt_limit spanner_retry_policy 10) now st e \<noteq> Panic" for now st e
    by (auto simp: with_attempt_limit_def attempt_on_error_cases spanner_retry_policy_def spanner_on_error_def
      aip194_strict_def split: run.splits retry_result.splits)
  moreover have "on_error (with_attempt_limit spanner_retry_policy 10) now st e \<noteq> Ret (Continue e')"
    if "10 \<le> unat (attempt_count st)" for now st e e'
    using that by (auto simp: with_attempt_limit_def word_le_nat_alt word_less_nat_alt dest!: attempt_on_error_ContinueD)
  ultimately show ?thesis using assms by (auto simp: gives_up_def apply_defaults_def DEFAULT_ATTEMPT_LIMIT_def)
qed

text \<open>
  C26. Reading a query ends: if the retry policy gives up after \<open>N\<close> attempts, and the service answers
  that many, then the rows end, with all rows or with an error, after a number of turns bounded by the
  attempts, the messages and the rows. The default policy gives up after ten attempts.\<close>

theorem query_reading_ends:
  assumes sent: "well_sent md ps vs" and up: "gives_up (apply_defaults env) N" and len: "N \<le> length outages"
    and fuel: "N * (length ps + 3) + length (table md vs) + 4 \<le> fuel"
  shows "\<exists>items. read_query fuel env (map (serve ps) outages) selector tracker aborted = Ret (items, True)"
proof -
  let ?env = "apply_defaults env" and ?attempts = "map (serve ps) outages"
  from create_returns [OF sent up servedI, of outages fuel selector tracker aborted] len fuel obtain answer attempts' rs
    where c: "create_result_set fuel ?env ?attempts selector tracker aborted = Ret (Some answer, attempts', rs)"
      and ok: "answer = Ok () \<longrightarrow> in_budget N attempts' rs \<and>
        N + pending rs + reserve N (length ps + 1) rs < N * (length ps + 3)" by auto
  show ?thesis
  proof (cases answer)
    case (Err e)
    with c show ?thesis by (simp add: read_query_def)
  next
    case (Ok u)
    with create_on_course [OF sent servedI] c have on: "on_course md ps [] rs" and sv: "served ps attempts'" by auto
    have "\<exists>items. rows_stream fuel ?env attempts' rs = Ret (items, True)"
      by (rule rows_stream_ends [OF sent up _ on sv, of "length ps + 1"]) (use ok Ok fuel in auto)
    with c Ok show ?thesis by (simp add: read_query_def)
  qed
qed

section \<open>A stream that does not break\<close>

text \<open>
  The ways a service may lay out values over messages: some hold whole values, and the last value of
  a message marked as chunked is completed by the first of the next one that has any.
\<close>

inductive chunked_as :: "partial_result_set list \<Rightarrow> pvalue list \<Rightarrow> bool \<Rightarrow> bool" where
  no_message: "chunked_as [] [] False"
| no_value: "chunked_as ps vs c \<Longrightarrow> pr_values p = [] \<Longrightarrow> chunked_as (ps @ [p]) vs c"
| whole: "chunked_as ps vs False \<Longrightarrow> pr_values p = ws \<Longrightarrow> ws \<noteq> [] \<Longrightarrow>
    chunked_as (ps @ [p]) (vs @ ws) (pr_chunked_value p)"
| piece: "chunked_as ps (vs @ [a]) True \<Longrightarrow> cut_value path v = Some (a, b) \<Longrightarrow> pr_values p = b # ws \<Longrightarrow>
    chunked_as (ps @ [p]) (vs @ v # ws) (pr_chunked_value p)"

lemma chunked_as_gather: "chunked_as ps vs c \<Longrightarrow> gather [] False ps = Ok (vs, c)"
proof (induction rule: chunked_as.induct)
  case (piece ps vs a path v b p ws)
  then show ?case using merge_values_cut [of path v a b] by (simp add: gather_append merge_first_def)
qed (auto simp: gather_append merge_first_def split: list.splits)

definition calm :: "result_metadata \<Rightarrow> partial_result_set list \<Rightarrow> row list \<Rightarrow> nat \<Rightarrow> result_set \<Rightarrow> bool" where
  "calm md ps given k rs \<longleftrightarrow> aborted_error (rs_aborted rs) = None \<and>
     (\<exists>dn rest. in_step md ps given dn rest rs \<and> length rest \<le> k \<and> dn @ rs_buffer rs \<noteq> [] \<and>
        (rs_seen_last rs \<or> rs_stream rs = Some (map StreamMessage rest)))"

lemma calmI:
  "in_step md ps given dn rest rs \<Longrightarrow> length rest \<le> k \<Longrightarrow> dn @ rs_buffer rs \<noteq> [] \<Longrightarrow> rs_seen_last rs \<or> rs_stream rs = Some (map StreamMessage rest) \<Longrightarrow>
   aborted_error (rs_aborted rs) = None \<Longrightarrow> calm md ps given k rs"
  unfolding calm_def by blast

lemma calm_turn:
  assumes sent: "well_sent md ps vs" and step: "in_step md ps given dn rest rs" and dn: "dn @ rs_buffer rs \<noteq> []" and stream: "rs_stream rs = Some (map StreamMessage rest)"
    and ab: "aborted_error (rs_aborted rs) = None"
  shows "\<exists>rs'. stream_turn fuel env attempts (map StreamMessage rest) rs = Ret (Some (Ok ()), attempts, rs') \<and>
    calm md ps given (length rest - 1) rs' \<and> (rest = [] \<longrightarrow> rs_seen_last rs')"
proof (cases rest)
  case Nil
  with stream_end_on_course [OF sent, of given dn rs] step obtain rs' where
    e: "handle_stream_end rs = Ret (Ok (), rs')" and on: "on_course md ps given rs'" and seen: "rs_seen_last rs'"
    and ab': "rs_aborted rs' = rs_aborted rs" by auto
  from on obtain dn' rest' where step': "in_step md ps given dn' rest' rs'" by (auto simp: on_course_def)
  have "ps = dn' @ rs_buffer rs' @ rest'" "dn' = ps" using step' seen unfolding in_step_def by blast+
  moreover have "ps \<noteq> []" using sent by (simp add: well_sent_def well_framed_def)
  ultimately have "rest' = []" "dn' @ rs_buffer rs' \<noteq> []" by auto
  with step' seen ab ab' have "calm md ps given 0 rs'" by (intro calmI) auto
  with e seen Nil show ?thesis by (simp add: stream_turn_def)
next
  case (Cons p rest')
  let ?rs = "rs\<lparr>rs_stream := Some (map StreamMessage rest')\<rparr>"
  have "in_step md ps given dn (p # rest') ?rs" using step Cons by simp
  from handle_partial_in_step [OF sent this] dn obtain rs' dn'
    where h: "handle_partial_result_set p ?rs = Ret (Ok (), rs')" and "in_step md ps given dn' rest' rs'"
      "dn' @ rs_buffer rs' \<noteq> []" "rs_stream rs' = rs_stream ?rs" "rs_aborted rs' = rs_aborted ?rs" by auto
  then have "calm md ps given (length rest') rs'" using ab by (intro calmI) auto
  with h Cons show ?thesis by (simp add: stream_turn_def)
qed

lemma calm_next_row:
  assumes sent: "well_sent md ps vs"
  shows "calm md ps given k rs \<Longrightarrow> k + 2 \<le> fuel \<or> rs_seen_last rs \<and> 0 < fuel \<Longrightarrow>
    \<exists>r rs'. next_row fuel env attempts rs = Ret (Some r, attempts, rs') \<and>
      (r = None \<and> given = table md vs \<or> (\<exists>row. r = Some (Ok row) \<and> calm md ps (given @ [row]) k rs'))"
proof (induction fuel arbitrary: k rs)
  case (Suc fuel)
  from Suc.prems(1) obtain dn rest where step: "in_step md ps given dn rest rs" and ab: "aborted_error (rs_aborted rs) = None"
    and k: "length rest \<le> k" and dn: "dn @ rs_buffer rs \<noteq> []" and live: "rs_seen_last rs \<or> rs_stream rs = Some (map StreamMessage rest)"
    by (auto simp: calm_def)
  show ?case
  proof (cases "rs_ready_rows rs")
    case (Cons row rows)
    have "calm md ps (given @ [row]) k (rs\<lparr>rs_ready_rows := rows\<rparr>)"
      using step live ab k dn in_step_given [OF Cons, of md ps given dn rest] by (intro calmI) auto
    with Cons show ?thesis by simp
  next
    case ready: Nil
    show ?thesis
    proof (cases "rs_seen_last rs")
      case True
      have "dn = ps" "assembled md dn given rs" using step True unfolding in_step_def by blast+
      with assembled_complete [OF sent, of given rs] ready True show ?thesis
        by (auto simp: Let_def validate_stream_termination_def split: if_splits)
    next
      case False
      with live have stream: "rs_stream rs = Some (map StreamMessage rest)" by simp
      from calm_turn [OF sent step dn stream ab, of fuel env attempts] obtain rs1
        where t: "stream_turn fuel env attempts (map StreamMessage rest) rs = Ret (Some (Ok ()), attempts, rs1)"
          and c: "calm md ps given (length rest - 1) rs1" and seen: "rest = [] \<longrightarrow> rs_seen_last rs1" by blast
      have "length rest - 1 + 2 \<le> fuel \<or> rs_seen_last rs1 \<and> 0 < fuel"
        using seen Suc.prems(2) False k by (cases rest) auto
      from Suc.IH [OF c this] obtain r rs2 where n: "next_row fuel env attempts rs1 = Ret (Some r, attempts, rs2)"
        and r: "r = None \<and> given = table md vs \<or> (\<exists>row. r = Some (Ok row) \<and> calm md ps (given @ [row]) (length rest - 1) rs2)"
        by blast
      have "calm md ps (given @ [row]) k rs2" if "calm md ps (given @ [row]) (length rest - 1) rs2" for row
        using that k unfolding calm_def by (meson diff_le_self order.trans)
      with n r t ready False ab stream show ?thesis by auto
    qed
  qed
qed auto

lemma calm_rows:
  assumes sent: "well_sent md ps vs"
  shows "calm md ps given k rs \<Longrightarrow> prefix given (table md vs) \<Longrightarrow>
    k + (length (table md vs) - length given) + 3 \<le> fuel \<Longrightarrow>
    rows_stream fuel env attempts rs = Ret (map Ok (drop (length given) (table md vs)), True)"
proof (induction fuel arbitrary: given rs)
  case (Suc fuel)
  from calm_next_row [OF sent Suc.prems(1), of fuel env attempts] Suc.prems(3) obtain r rs1
    where n: "next_row fuel env attempts rs = Ret (Some r, attempts, rs1)"
      and r: "r = None \<and> given = table md vs \<or> (\<exists>row. r = Some (Ok row) \<and> calm md ps (given @ [row]) k rs1)" by auto
  from r show ?case
  proof (elim disjE exE conjE)
    assume "r = None" "given = table md vs"
    with n show ?thesis by simp
  next
    fix row assume row: "r = Some (Ok row)" and c: "calm md ps (given @ [row]) k rs1"
    from c obtain dn rest where "in_step md ps (given @ [row]) dn rest rs1" by (auto simp: calm_def)
    then have "assembled md dn (given @ [row]) rs1" "ps = dn @ rs_buffer rs1 @ rest" unfolding in_step_def by blast+
    from assembled_prefix [OF sent this] have p: "prefix (given @ [row]) (table md vs)" by (rule append_prefixD)
    then obtain zs where zs: "table md vs = given @ row # zs" by (auto simp: prefix_def)
    have "k + (length (table md vs) - length (given @ [row])) + 3 \<le> fuel"
      using Suc.prems(3) by (simp add: zs)
    from Suc.IH [OF c p this] n row zs show ?thesis by simp
  qed
qed auto

text \<open>
  C5. A query whose stream does not break returns its whole table: however the values of the rows are
  laid out over messages and cut into pieces, and wherever the resume tokens are, the rows are read
  back as they were sent and end without an error.\<close>

theorem query_returns_table:
  assumes "well_framed md ps" "chunked_as ps vs False" "length md dvd length vs"
    and "aborted_error aborted = None" "restart_selector selector = Ok sel"
    and "fst (select_transaction (transaction_of ps) selector) = Ok ()"
    and "length ps + length (table md vs) + 3 \<le> fuel"
  shows "read_query fuel env [serve ps Served] selector tracker aborted = Ret (map Ok (table md vs), True)"
proof -
  let ?env = "apply_defaults env" and ?rs = "result_set_new selector tracker aborted"
  have sent: "well_sent md ps vs"
    using assms(1-3) chunked_as_gather [of ps vs False] by (simp add: well_sent_def)
  obtain p rest where ps: "ps = p # rest" using assms(1) by (cases ps) (auto simp: well_framed_def)
  obtain n where n: "fuel = Suc n" using assms(7) by (cases fuel) auto
  let ?rs1 = "?rs\<lparr>rs_stream := Some (map StreamMessage ps)\<rparr>"
  have start: "restart_stream [serve ps Served] ?rs = (Some (Ok ()), [], ?rs1)"
    using assms(4,5) by (simp add: restart_stream_def open_stream_def result_set_new_def after_def)
  have "in_step md ps [] [] ps ?rs"
    using sent by (auto simp: result_set_new_def in_step_def assembled_def after_def well_sent_def well_framed_def)
  then have "in_step md ps [] [] (p # rest) (?rs1\<lparr>rs_stream := Some (map StreamMessage rest)\<rparr>)"
    using ps by simp
  from handle_partial_in_step [OF sent this] assms(6) obtain rs2 dn
    where h: "handle_partial_result_set p (?rs1\<lparr>rs_stream := Some (map StreamMessage rest)\<rparr>) = Ret (Ok (), rs2)"
      and step: "in_step md ps [] dn rest rs2" "dn @ rs_buffer rs2 \<noteq> []"
      and f: "rs_stream rs2 = Some (map StreamMessage rest)" "rs_aborted rs2 = aborted"
    by (auto simp: result_set_new_def)
  have calm: "calm md ps [] (length rest) rs2" using step f assms(4) by (intro calmI) auto
  have "create_result_set fuel ?env [serve ps Served] selector tracker aborted = Ret (Some (Ok ()), [], rs2)"
    using start h n by (simp add: create_result_set_def init_stream_def ps)
  with calm_rows [OF sent calm, of fuel "?env" "[]"] assms(7) ps show ?thesis by (simp add: read_query_def)
qed

section \<open>An example\<close>

definition sample_metadata :: result_metadata where
  "sample_metadata = [(''id'', 1), (''tags'', 2)]"

definition sample_message :: partial_result_set where
  "sample_message = \<lparr>pr_metadata = None, pr_values = [], pr_chunked_value = False, pr_resume_token = [],
     pr_stats = None, pr_precommit_token = None, pr_last = False\<rparr>"

text \<open>The second row's list is cut inside a string; the cut is in a message without a resume token.\<close>

definition sample_messages :: "partial_result_set list" where
  "sample_messages =
     [sample_message\<lparr>pr_metadata := Some (sample_metadata, Some ([42], None)), pr_values := [StringValue ''1'', ListValue [], StringValue ''2''],
        pr_resume_token := [7]\<rparr>,
      sample_message\<lparr>pr_values := [ListValue [StringValue ''a'', StringValue ''b'']], pr_chunked_value := True\<rparr>,
      sample_message\<lparr>pr_values := [ListValue [StringValue ''c'']], pr_resume_token := [8], pr_last := True\<rparr>]"

definition sample_values :: "pvalue list" where
  "sample_values = [StringValue ''1'', ListValue [], StringValue ''2'', ListValue [StringValue ''a'', StringValue ''bc'']]"

definition sample_env :: result_env where
  "sample_env = \<lparr>rv_policy = None, rv_start = (\<lambda>_. 0), rv_now = (\<lambda>_. 0), rv_text = (\<lambda>_. []),
     rv_delay_of = (\<lambda>_. None), rv_is_emulator = False\<rparr>"

text \<open>The query begins its transaction.\<close>

definition sample_selector :: "ctx_selector option" where
  "sample_selector = Some (Lazy (Starting \<lparr>to_mode = Some ModeReadOnly\<rparr> 0))"

definition sample_unavailable :: error where
  "sample_unavailable = service \<lparr>status_code = Unavailable, status_message = [], status_details = []\<rparr>"

definition sample_rows :: "row list" where
  "sample_rows = [\<lparr>row_values = [StringValue ''1'', ListValue []], row_metadata = sample_metadata\<rparr>,
     \<lparr>row_values = [StringValue ''2'', ListValue [StringValue ''a'', StringValue ''bc'']], row_metadata = sample_metadata\<rparr>]"

lemmas sample_defs = sample_metadata_def sample_message_def sample_messages_def sample_values_def sample_rows_def

lemma sample_framed: "well_framed sample_metadata sample_messages"
  by (simp add: well_framed_def sample_defs)

lemma sample_sent: "well_sent sample_metadata sample_messages sample_values"
  by code_simp

lemma sample_table: "table sample_metadata sample_values = sample_rows"
  by code_simp

definition sample_outages :: "outage list" where
  "sample_outages = [Rejected sample_unavailable, Broken 2 sample_unavailable, Broken 0 sample_unavailable, Broken 1 sample_unavailable, Served]"

lemma sample_run:
  "read_query 20 sample_env (map (serve sample_messages) sample_outages) sample_selector TrackerNoOp AbortedNoOp = Ret (map Ok sample_rows, True)"
  by code_simp

lemma map_Ok_no_Err: "map Ok xs \<noteq> ys @ [Err e]"
proof
  assume "map Ok xs = ys @ [Err e]"
  then have "Err e \<in> set (map Ok xs)" by simp
  then show False by auto
qed

theorem query_rows_in_order_witness:
  "well_sent sample_metadata sample_messages sample_values \<and>
   read_query 20 sample_env (map (serve sample_messages) sample_outages) sample_selector TrackerNoOp AbortedNoOp =
     Ret (map Ok sample_rows, True) \<and>
   (\<exists>rows. prefix rows (table sample_metadata sample_values) \<and> rows = sample_rows)"
  using query_rows_in_order [OF sample_sent sample_run] sample_sent sample_run
  by (auto simp: map_Ok_no_Err sample_table)

theorem query_reading_ends_witness:
  "\<exists>items. read_query 80 sample_env (map (serve sample_messages) (replicate 9 (Broken 1 sample_unavailable) @ [Served]))
     sample_selector TrackerNoOp AbortedNoOp = Ret (items, True)"
proof (rule query_reading_ends [OF sample_sent default_gives_up])
  show "10 * (length sample_messages + 3) + length (table sample_metadata sample_values) + 4 \<le> 80"
    by (simp add: sample_table) (simp add: sample_defs)
qed (simp_all add: sample_env_def)

lemma sample_chunked: "chunked_as sample_messages sample_values False"
proof -
  define p1 p2 p3 where "p1 = sample_messages ! 0" and "p2 = sample_messages ! 1" and "p3 = sample_messages ! 2"
  note defs = p1_def p2_def p3_def sample_messages_def sample_message_def
  have "chunked_as [p1] [StringValue ''1'', ListValue [], StringValue ''2''] False"
    using whole [OF no_message, of p1] by (simp add: defs)
  from whole [OF this, of p2] have "chunked_as [p1, p2]
      ([StringValue ''1'', ListValue [], StringValue ''2''] @ [ListValue [StringValue ''a'', StringValue ''b'']]) True"
    by (simp add: defs)
  from piece [OF this, of "[1, 1]" "ListValue [StringValue ''a'', StringValue ''bc'']" "ListValue [StringValue ''c'']" p3 "[]"]
  show ?thesis by (simp add: defs sample_values_def)
qed

theorem query_returns_table_witness:
  "read_query 10 sample_env [serve sample_messages Served] sample_selector TrackerNoOp AbortedNoOp = Ret (map Ok sample_rows, True)"
proof -
  have "length sample_metadata dvd length sample_values"
    "aborted_error AbortedNoOp = None"
    "restart_selector sample_selector = Ok (Some (SelectBegin \<lparr>to_mode = Some ModeReadOnly\<rparr>))"
    "fst (select_transaction (transaction_of sample_messages) sample_selector) = Ok ()"
    "length sample_messages + length (table sample_metadata sample_values) + 3 \<le> 10"
    by code_simp+
  from query_returns_table [OF sample_framed sample_chunked this] show ?thesis by (simp add: sample_table)
qed

section \<open>Time limits\<close>

text \<open>
  \<open>check_retry\<close> makes a new retry state, with the current time as the start of the loop, for every error.
  If the clock does not advance between this and the look of the policy, then a time limit does nothing:
  the answer is that of the policy without it, however long the query has been going on.\<close>

theorem time_limit_not_enforced:
  assumes "rv_now env (rs_retry_count rs) = rv_start env (rs_retry_count rs)" "0 < d"
    "rv_start env (rs_retry_count rs) + d < INSTANT_LIMIT"
  shows "check_retry (env\<lparr>rv_policy := Some (with_time_limit policy d)\<rparr>) rs e =
    check_retry (env\<lparr>rv_policy := Some policy\<rparr>) rs e"
  using assms
  by (auto simp: check_retry_def Let_def with_time_limit_def elapsed_on_error_cases retry_state_defs
    split: run.splits retry_result.splits)
end
