(* ===== verification/Spanner_Runner.thy ===== *)
theory Spanner_Runner
  imports Spanner_Transaction
begin

text \<open>
  Read-write transactions and their retries: \<open>spanner/src/transaction_runner.rs\<close>,
  \<open>transaction_retry_policy.rs\<close> and the begin, commit and rollback of
  \<open>read_write_transaction.rs\<close>.

  The RPCs act on a world \<open>'w\<close>, on which the work of the application may depend too. The work is a
  tree: it buffers mutations, executes statements one after the other and goes on with their results,
  and returns or raises. Statements are those with a single answer (\<open>execute_update\<close>,
  \<open>execute_batch_update\<close>); queries are in \<open>Spanner_Results\<close>. Channel affinity and request
  options (timeouts, tags, priorities) are left out, and so is the rollback in the background of a
  transaction that is dropped.
\<close>

section \<open>Transactions\<close>

record begin_response =
  br_id :: "u8 list"
  br_timestamp :: "int option"
  br_precommit_token :: "precommit_token option"

record 'm rw_txn =
  tx_selector :: ctx_selector
  tx_tracker :: token_tracker
  tx_aborted :: aborted_state
  tx_mutations :: "'m list"
  tx_disarmed :: bool

text \<open>
  What the application does, and the answer to a statement: the transaction id if it is not empty, the
  error that a batch reports inside its answer, and what is returned to the application in the end.
\<close>

datatype ('t, 'm, 'q) work =
    Return 't
  | Raise error
  | Buffer "'m list" "('t, 'm, 'q) work"
  | Statement 'q "(error, int list) result \<Rightarrow> ('t, 'm, 'q) work"

record stmt_response =
  sr_precommit_token :: "precommit_token option"
  sr_transaction_id :: "u8 list option"
  sr_service_error :: "error option"
  sr_result :: "(error, int list) result"

text \<open>The environment of a runner: the application's work, the RPCs, the clock, and the configuration.\<close>

record ('t, 'm, 'q, 'w) runner_env =
  re_work :: "'w \<Rightarrow> ('t, 'm, 'q) work"
  re_execute :: "'q \<Rightarrow> txn_selector \<Rightarrow> 'w \<Rightarrow> (error, stmt_response) result \<times> 'w"
  re_begin :: "txn_options \<Rightarrow> 'w \<Rightarrow> (error, begin_response) result \<times> 'w"
  re_commit :: "'m commit_request \<Rightarrow> 'w \<Rightarrow> (error, commit_response) result \<times> 'w"
  re_rollback :: "u8 list \<Rightarrow> 'w \<Rightarrow> (error, unit) result \<times> 'w"
  re_now :: "'w \<Rightarrow> instant"
  re_sleep :: "duration \<Rightarrow> 'w \<Rightarrow> 'w"
  re_backoff :: "u32 \<Rightarrow> duration"
  re_delay_of :: "error \<Rightarrow> duration option"
  re_text :: "error \<Rightarrow> string"
  re_emulator :: bool
  re_policy :: "error \<Rightarrow> u32 \<Rightarrow> duration \<Rightarrow> retry_result"
  re_timeout :: "duration option"
  re_session :: string

definition tx_record_if_aborted :: "('t, 'm, 'q, 'w) runner_env \<Rightarrow> error \<Rightarrow> 'm rw_txn \<Rightarrow> 'm rw_txn" where
  "tx_record_if_aborted env e tx = tx\<lparr>tx_aborted := aborted_record (re_delay_of env) (re_emulator env) e (tx_aborted tx)\<rparr>"

definition tx_aborted_info :: "'m rw_txn \<Rightarrow> aborted_info option" where
  "tx_aborted_info tx = aborted_info_of (tx_aborted tx)"

definition buffer_mutations :: "'m list \<Rightarrow> 'm rw_txn \<Rightarrow> 'm rw_txn" where
  "buffer_mutations ms tx = tx\<lparr>tx_mutations := tx_mutations tx @ ms\<rparr>"

definition execute_begin_transaction ::
  "('t, 'm, 'q, 'w) runner_env \<Rightarrow> txn_options \<Rightarrow> 'w \<Rightarrow> (error, begin_response) result \<times> 'w" where
  "execute_begin_transaction env options w =
     (case re_begin env options w of
        (Err e, w') \<Rightarrow> (Err e, w')
      | (Ok response, w') \<Rightarrow>
          (if br_id response = [] then (Err (spanner_error ''Transaction ID was not returned by Spanner''), w')
           else (Ok response, w')))"

record rw_builder =
  rb_previous :: "u8 list"
  rb_explicit :: bool

definition builder_options :: "rw_builder \<Rightarrow> txn_options" where
  "builder_options b = \<lparr>to_mode = Some (ModeReadWrite (rb_previous b))\<rparr>"

definition set_previous_transaction_id :: "u8 list \<Rightarrow> rw_builder \<Rightarrow> rw_builder" where
  "set_previous_transaction_id i b = b\<lparr>rb_previous := i\<rparr>"

definition build :: "('t, 'm, 'q, 'w) runner_env \<Rightarrow> rw_builder \<Rightarrow> 'w \<Rightarrow> (error, 'm rw_txn) result \<times> 'w" where
  "build env b w =
     (if rb_explicit b then
        (case execute_begin_transaction env (builder_options b) w of
           (Err e, w') \<Rightarrow> (Err e, w')
         | (Ok response, w') \<Rightarrow>
             (Ok \<lparr>tx_selector = Fixed (SelectId (br_id response)) None,
                  tx_tracker = tracker_update (TrackerTrack None) (br_precommit_token response),
                  tx_aborted = AbortedTrack None, tx_mutations = [], tx_disarmed = False\<rparr>, w'))
      else
        (Ok \<lparr>tx_selector = Lazy (NotStarted (builder_options b)), tx_tracker = TrackerTrack None,
             tx_aborted = AbortedTrack None, tx_mutations = [], tx_disarmed = False\<rparr>, w))"

text \<open>The begin of a commit without a statement before it.\<close>

definition begin_explicitly_for_commit ::
  "('t, 'm, 'q, 'w) runner_env \<Rightarrow> txn_options \<Rightarrow> 'm rw_txn \<Rightarrow> 'w \<Rightarrow> (error, u8 list) result \<times> 'm rw_txn \<times> 'w" where
  "begin_explicitly_for_commit env options tx w =
     (case execute_begin_transaction env options w of
        (Err e, w') \<Rightarrow>
          (let failed = (case tx_selector tx of Lazy _ \<Rightarrow> Lazy (Failed (failure_from_error (re_text env) e)) | fixed \<Rightarrow> fixed)
           in (Err e, tx_record_if_aborted env e (tx\<lparr>tx_selector := failed\<rparr>), w'))
      | (Ok response, w') \<Rightarrow>
          (let tx1 = tx\<lparr>tx_tracker := tracker_update (tx_tracker tx) (br_precommit_token response)\<rparr>
           in case ctx_update (br_id response) (br_timestamp response) (tx_selector tx1) of
                (Err e, Lazy st) \<Rightarrow> (Err e, tx1\<lparr>tx_selector := Lazy (fst (on_cancelled_starting st))\<rparr>, w')
              | (Err e, fixed) \<Rightarrow> (Err e, tx1\<lparr>tx_selector := fixed\<rparr>, w')
              | (Ok _, sel) \<Rightarrow> (Ok (br_id response), tx1\<lparr>tx_selector := sel\<rparr>, w')))"

definition commit_id ::
  "('t, 'm, 'q, 'w) runner_env \<Rightarrow> 'm rw_txn \<Rightarrow> 'w \<Rightarrow> (error, u8 list) result \<times> 'm rw_txn \<times> 'w" where
  "commit_id env tx w =
     (case prepare_for_commit 0 (tx_selector tx) of
        (Err e, sel) \<Rightarrow> (Err e, tx\<lparr>tx_selector := sel\<rparr>, w)
      | (Ok (CommitReady i), sel) \<Rightarrow> (Ok i, tx\<lparr>tx_selector := sel\<rparr>, w)
      | (Ok CommitStarting, sel) \<Rightarrow>
          (Err (spanner_error ''Commit called while an asynchronous statement is still starting the transaction''),
           tx\<lparr>tx_selector := sel\<rparr>, w)
      | (Ok (CommitBegin options _), sel) \<Rightarrow> begin_explicitly_for_commit env options (tx\<lparr>tx_selector := sel\<rparr>) w)"

definition commit_txn ::
  "('t, 'm, 'q, 'w) runner_env \<Rightarrow> 'm rw_txn \<Rightarrow> 'w \<Rightarrow> (error, commit_response) result \<times> 'm rw_txn \<times> 'w" where
  "commit_txn env tx w =
     (case tx_aborted_info tx of
        Some info \<Rightarrow> (Err (aborted_to_error info), tx, w)
      | None \<Rightarrow>
          (case commit_id env tx w of
             (Err e, tx1, w1) \<Rightarrow> (Err e, tx1, w1)
           | (Ok i, tx1, w1) \<Rightarrow>
               (let request = create_commit_request (re_session env) i (tx_mutations tx1) (tracker_get (tx_tracker tx1));
                    tx2 = tx1\<lparr>tx_mutations := [], tx_disarmed := True\<rparr>
                in case commit_with_precommit_retry (re_commit env)
                          (aborted_record (re_delay_of env) (re_emulator env))
                          (create_retry_commit_request (re_session env) i) request (tx_tracker tx2) (tx_aborted tx2) w1 of
                     (r, tracker, aborted, _, w2) \<Rightarrow> (r, tx2\<lparr>tx_tracker := tracker, tx_aborted := aborted\<rparr>, w2))))"

definition rollback_txn :: "('t, 'm, 'q, 'w) runner_env \<Rightarrow> 'm rw_txn \<Rightarrow> 'w \<Rightarrow> (error, unit) result \<times> 'm rw_txn \<times> 'w" where
  "rollback_txn env tx w =
     (case get_id_no_wait (tx_selector tx) of
        None \<Rightarrow> (Ok (), tx, w)
      | Some i \<Rightarrow> (case re_rollback env i w of (r, w') \<Rightarrow> (r, tx\<lparr>tx_disarmed := True\<rparr>, w')))"

section \<open>Statements\<close>

text \<open>The selector for a statement; \<open>None\<close> waits for another statement.\<close>

fun selector_now :: "ctx_selector \<Rightarrow> ((error, txn_selector) result \<times> ctx_selector) option" where
  "selector_now (Fixed sel t) = Some (Ok sel, Fixed sel t)"
| "selector_now (Lazy st) =
     (case poll_selector_status 0 st of
        (Ok (StatusReady sel), st') \<Rightarrow> Some (Ok sel, Lazy st')
      | (Ok (StatusWait _), st') \<Rightarrow> None
      | (Err e, st') \<Rightarrow> Some (Err e, Lazy st'))"

definition is_starting :: "txn_selector \<Rightarrow> bool" where
  "is_starting sel \<longleftrightarrow> (case sel of SelectBegin _ \<Rightarrow> True | _ \<Rightarrow> False)"

definition tx_set_failed :: "('t, 'm, 'q, 'w) runner_env \<Rightarrow> error \<Rightarrow> 'm rw_txn \<Rightarrow> 'm rw_txn" where
  "tx_set_failed env e tx = tx\<lparr>tx_selector := ctx_set_failed (re_text env) e (re_emulator env) (tx_selector tx)\<rparr>"

text \<open>The answer to the statement that begins the transaction.\<close>

definition begun_by_statement ::
  "('t, 'm, 'q, 'w) runner_env \<Rightarrow> stmt_response \<Rightarrow> 'm rw_txn \<Rightarrow> (error, unit) result \<times> 'm rw_txn" where
  "begun_by_statement env response tx =
     (let tx1 = (case sr_service_error response of Some e \<Rightarrow> tx_record_if_aborted env e tx | None \<Rightarrow> tx)
      in case (sr_transaction_id response, sr_service_error response) of
           (Some i, _) \<Rightarrow> (case ctx_update i None (tx_selector tx1) of (r, sel) \<Rightarrow> (r, tx1\<lparr>tx_selector := sel\<rparr>))
         | (None, Some e) \<Rightarrow> (Ok (), tx_set_failed env e tx1)
         | (None, None) \<Rightarrow>
             (let e = spanner_error ''Transaction ID was not returned by Spanner''
              in (Err e, tx_set_failed env e tx1)))"

definition statement_result ::
  "('t, 'm, 'q, 'w) runner_env \<Rightarrow> stmt_response \<Rightarrow> 'm rw_txn \<Rightarrow> (error, int list) result \<times> 'm rw_txn" where
  "statement_result env response tx =
     (case sr_result response of Ok counts \<Rightarrow> (Ok counts, tx) | Err e \<Rightarrow> (Err e, tx_record_if_aborted env e tx))"

definition execute_with_retry ::
  "('t, 'm, 'q, 'w) runner_env \<Rightarrow> 'q \<Rightarrow> txn_selector \<Rightarrow> 'm rw_txn \<Rightarrow> 'w \<Rightarrow> (error, int list) result \<times> 'm rw_txn \<times> 'w" where
  "execute_with_retry env q sel tx w =
     (case re_execute env q sel w of
        (Err e, w1) \<Rightarrow>
          (let tx1 = tx_record_if_aborted env e tx
           in (Err e, if is_starting sel then tx_set_failed env e tx1 else tx1, w1))
      | (Ok response, w1) \<Rightarrow>
          (let tx1 = tx\<lparr>tx_tracker := tracker_update (tx_tracker tx) (sr_precommit_token response)\<rparr>
           in case (if is_starting sel then begun_by_statement env response tx1 else (Ok (), tx1)) of
                (Err e, tx2) \<Rightarrow> (Err e, tx2, w1)
              | (Ok _, tx2) \<Rightarrow> (case statement_result env response tx2 of (r, tx3) \<Rightarrow> (r, tx3, w1))))"

definition execute_statement ::
  "('t, 'm, 'q, 'w) runner_env \<Rightarrow> 'q \<Rightarrow> 'm rw_txn \<Rightarrow> 'w \<Rightarrow> ((error, int list) result \<times> 'm rw_txn \<times> 'w) option" where
  "execute_statement env q tx w =
     (case tx_aborted_info tx of
        Some info \<Rightarrow> Some (Err (aborted_to_error info), tx, w)
      | None \<Rightarrow>
          (case selector_now (tx_selector tx) of
             None \<Rightarrow> None
           | Some (Err e, sel') \<Rightarrow> Some (Err e, tx\<lparr>tx_selector := sel'\<rparr>, w)
           | Some (Ok sel, sel') \<Rightarrow> Some (execute_with_retry env q sel (tx\<lparr>tx_selector := sel'\<rparr>) w)))"

primrec run_work ::
  "('t, 'm, 'q, 'w) runner_env \<Rightarrow> ('t, 'm, 'q) work \<Rightarrow> 'm rw_txn \<Rightarrow> 'w \<Rightarrow> ((error, 't) result \<times> 'm rw_txn \<times> 'w) option" where
  "run_work env (Return t) tx w = Some (Ok t, tx, w)"
| "run_work env (Raise e) tx w = Some (Err e, tx, w)"
| "run_work env (Buffer ms k) tx w = run_work env k (buffer_mutations ms tx) w"
| "run_work env (Statement q k) tx w =
     (case execute_statement env q tx w of
        None \<Rightarrow> None
      | Some (r, tx', w') \<Rightarrow> run_work env (k r) tx' w')"

section \<open>The retry policy\<close>

record basic_policy =
  bp_max_attempts :: u32
  bp_total_timeout :: duration

definition basic_on_abort :: "basic_policy \<Rightarrow> error \<Rightarrow> u32 \<Rightarrow> duration \<Rightarrow> retry_result" where
  "basic_on_abort p e attempts elapsed =
     (if 0 < bp_max_attempts p \<and> bp_max_attempts p \<le> attempts then Exhausted e
      else if 0 < bp_total_timeout p \<and> bp_total_timeout p < elapsed then Exhausted e
      else Continue e)"

definition backoff_if_aborted ::
  "('t, 'm, 'q, 'w) runner_env \<Rightarrow> instant option \<Rightarrow> error \<Rightarrow> duration option \<Rightarrow> u32 \<Rightarrow> duration \<Rightarrow> 'w \<Rightarrow> (error, unit) result \<times> 'w" where
  "backoff_if_aborted env deadline e retry_delay attempts elapsed w =
     (if \<not> is_aborted_or_emulator_error e (re_emulator env) then (Err e, w)
      else case re_policy env e attempts elapsed of
             Exhausted e' \<Rightarrow> (Err e', w)
           | Permanent e' \<Rightarrow> (Err e', w)
           | Continue e' \<Rightarrow>
               (let sleep = (case retry_delay of
                               Some d \<Rightarrow> d
                             | None \<Rightarrow> (case re_delay_of env e' of Some d \<Rightarrow> d | None \<Rightarrow> re_backoff env attempts))
                in case deadline of
                     Some d \<Rightarrow>
                       (if d \<le> re_now env w \<or> d - re_now env w < sleep then (Err e', w)
                        else (Ok (), re_sleep env sleep w))
                   | None \<Rightarrow> (Ok (), re_sleep env sleep w)))"

section \<open>Attempts\<close>

datatype previous_id = KeepId | SetId "u8 list" | ClearId

datatype attempt_error =
    AttemptAborted error "duration option" previous_id bool
  | AttemptFailed error

definition is_aborted_error :: "('t, 'm, 'q, 'w) runner_env \<Rightarrow> error \<Rightarrow> bool" where
  "is_aborted_error env e \<longleftrightarrow> is_aborted_or_emulator_error e (re_emulator env)"

definition handle_explicit_begin_error :: "('t, 'm, 'q, 'w) runner_env \<Rightarrow> error \<Rightarrow> attempt_error" where
  "handle_explicit_begin_error env e =
     (if \<not> is_aborted_error env e then AttemptFailed e else AttemptAborted e (re_delay_of env e) KeepId False)"

definition build_aborted_attempt_error :: "ctx_selector \<Rightarrow> error \<Rightarrow> duration option \<Rightarrow> bool \<Rightarrow> attempt_error" where
  "build_aborted_attempt_error sel e retry_delay inherit =
     AttemptAborted e retry_delay
       (case get_id_no_wait sel of Some i \<Rightarrow> if inherit then SetId i else ClearId | None \<Rightarrow> KeepId)
       (is_first_statement_failed sel)"

definition or_delay :: "duration option \<Rightarrow> duration option \<Rightarrow> duration option" where
  "or_delay a b = (case a of Some d \<Rightarrow> Some d | None \<Rightarrow> b)"

definition handle_work_error ::
  "('t, 'm, 'q, 'w) runner_env \<Rightarrow> 'm rw_txn \<Rightarrow> error \<Rightarrow> 'w \<Rightarrow> attempt_error \<times> 'm rw_txn \<times> 'w" where
  "handle_work_error env tx e w =
     (case tx_aborted_info tx of
        Some info \<Rightarrow>
          (build_aborted_attempt_error (tx_selector tx)
             (if is_aborted_error env e then e else aborted_to_error info)
             (or_delay (ai_retry_delay info) (re_delay_of env e)) True,
           tx\<lparr>tx_disarmed := True\<rparr>, w)
      | None \<Rightarrow>
          (case rollback_txn env tx w of
             (_, tx', w') \<Rightarrow>
               (if is_aborted_error env e
                then build_aborted_attempt_error (tx_selector tx') e (re_delay_of env e) False
                else AttemptFailed e, tx', w')))"

definition handle_commit_error :: "('t, 'm, 'q, 'w) runner_env \<Rightarrow> 'm rw_txn \<Rightarrow> error \<Rightarrow> attempt_error" where
  "handle_commit_error env tx e =
     (if \<not> is_aborted_error env e then AttemptFailed e
      else build_aborted_attempt_error (tx_selector tx) e
             (or_delay (case tx_aborted_info tx of Some info \<Rightarrow> ai_retry_delay info | None \<Rightarrow> None) (re_delay_of env e)) True)"

definition attempt ::
  "('t, 'm, 'q, 'w) runner_env \<Rightarrow> rw_builder \<Rightarrow> 'w \<Rightarrow> ((attempt_error, 't \<times> commit_response) result \<times> 'w) option" where
  "attempt env b w =
     (case build env b w of
        (Err e, w1) \<Rightarrow> Some (Err (handle_explicit_begin_error env e), w1)
      | (Ok tx, w1) \<Rightarrow>
          (case run_work env (re_work env w1) tx w1 of
             None \<Rightarrow> None
           | Some (Err e, tx2, w2) \<Rightarrow> (case handle_work_error env tx2 e w2 of (ae, _, w3) \<Rightarrow> Some (Err ae, w3))
           | Some (Ok result, tx2, w2) \<Rightarrow>
               (case commit_txn env tx2 w2 of
                  (Err e, tx3, w3) \<Rightarrow> Some (Err (handle_commit_error env tx3 e), w3)
                | (Ok response, tx3, w3) \<Rightarrow> Some (Ok (result, response), w3))))"

section \<open>The runner\<close>

record ('t, 'w) runner =
  rn_builder :: rw_builder
  rn_force_explicit :: bool
  rn_attempts :: u32
  rn_log :: "(attempt_error, 't \<times> commit_response) result list"
  rn_world :: 'w

fun apply_previous_id :: "previous_id \<Rightarrow> rw_builder \<Rightarrow> rw_builder" where
  "apply_previous_id KeepId b = b"
| "apply_previous_id (SetId i) b = set_previous_transaction_id i b"
| "apply_previous_id ClearId b = set_previous_transaction_id [] b"

fun handle_attempt_error ::
  "('t, 'm, 'q, 'w) runner_env \<Rightarrow> instant \<Rightarrow> attempt_error \<Rightarrow> ('t, 'w) runner \<Rightarrow> (error, unit) result \<times> ('t, 'w) runner" where
  "handle_attempt_error env start_time (AttemptFailed e) rn = (Err e, rn)"
| "handle_attempt_error env start_time (AttemptAborted e retry_delay previous first_failed) rn =
     (let rn1 = rn\<lparr>rn_builder := apply_previous_id previous (rn_builder rn)\<rparr>
      in if first_failed then (Ok (), rn1\<lparr>rn_force_explicit := True\<rparr>)
         else case backoff_if_aborted env (map_option (\<lambda>t. start_time + t) (re_timeout env)) e retry_delay (rn_attempts rn)
                     (re_now env (rn_world rn) - start_time) (rn_world rn) of
                (r, w) \<Rightarrow> (r, rn1\<lparr>rn_world := w\<rparr>))"

fun run_from ::
  "nat \<Rightarrow> ('t, 'm, 'q, 'w) runner_env \<Rightarrow> instant \<Rightarrow> ('t, 'w) runner \<Rightarrow> (error, 't \<times> commit_response) result option \<times> ('t, 'w) runner" where
  "run_from 0 env start_time rn = (None, rn)"
| "run_from (Suc fuel) env start_time rn =
     (let b = (if rn_force_explicit rn then (rn_builder rn)\<lparr>rb_explicit := True\<rparr> else rn_builder rn)
      in case attempt env b (rn_world rn) of
           None \<Rightarrow> (None, rn)
         | Some (r, w) \<Rightarrow>
             (let rn1 = rn\<lparr>rn_attempts := rn_attempts rn + 1, rn_log := rn_log rn @ [r], rn_world := w\<rparr>
              in case r of
                   Ok x \<Rightarrow> (Some (Ok x), rn1)
                 | Err ae \<Rightarrow>
                     (case handle_attempt_error env start_time ae rn1 of
                        (Err e, rn2) \<Rightarrow> (Some (Err e), rn2)
                      | (Ok _, rn2) \<Rightarrow> run_from fuel env start_time rn2)))"

definition run_txn ::
  "nat \<Rightarrow> ('t, 'm, 'q, 'w) runner_env \<Rightarrow> rw_builder \<Rightarrow> 'w \<Rightarrow> (error, 't \<times> commit_response) result option \<times> ('t, 'w) runner" where
  "run_txn fuel env b w =
     run_from fuel env (re_now env w) \<lparr>rn_builder = b, rn_force_explicit = False, rn_attempts = 0, rn_log = [], rn_world = w\<rparr>"

section \<open>Statements do not wait for themselves\<close>

text \<open>Between two statements of a sequential work the transaction is not being started.\<close>

definition settled :: "ctx_selector \<Rightarrow> bool" where
  "settled sel \<longleftrightarrow> (case sel of Lazy (Starting _ _) \<Rightarrow> False | _ \<Rightarrow> True)"

lemma tx_record_sel [simp]: "tx_selector (tx_record_if_aborted env e tx) = tx_selector tx"
  by (simp add: tx_record_if_aborted_def)

lemma settled_simps [simp]:
  "settled (Fixed sel t)" "settled (Lazy (NotStarted options))" "settled (Lazy (Started s t))"
  "settled (Lazy (Failed f))" "settled (Lazy FirstStatementFailed)" "\<not> settled (Lazy (Starting options n))"
  by (simp_all add: settled_def)

lemma ctx_set_failed_settles [simp]: "settled (ctx_set_failed text e emu sel)"
  by (cases sel; cases "case sel of Lazy st \<Rightarrow> st | _ \<Rightarrow> FirstStatementFailed") auto

lemma is_lazy_set_failed [simp]: "is_lazy (ctx_set_failed text e emu sel) = is_lazy sel"
  by (cases sel) auto

lemma ctx_update_settles:
  "ctx_update i ts sel = (r, sel') \<Longrightarrow> settled sel' \<and> is_lazy sel' = is_lazy sel"
proof (cases sel)
  case (Lazy st)
  assume "ctx_update i ts sel = (r, sel')"
  with Lazy show ?thesis by (cases st) (auto split: if_splits)
qed auto

lemma selector_now_settled:
  assumes "settled sel"
  shows "\<exists>r sel'. selector_now sel = Some (r, sel') \<and> is_lazy sel' = is_lazy sel \<and>
    ((\<exists>s. r = Ok s \<and> is_starting s) \<or> settled sel')"
proof (cases sel)
  case (Lazy st)
  with assms show ?thesis by (cases st) (auto simp: poll_selector_status_def is_starting_def)
qed auto

lemma begun_settles:
  assumes "begun_by_statement env response tx = (r, tx')"
  shows "settled (tx_selector tx') \<and> is_lazy (tx_selector tx') = is_lazy (tx_selector tx)"
proof -
  let ?tx = "case sr_service_error response of Some e \<Rightarrow> tx_record_if_aborted env e tx | None \<Rightarrow> tx"
  have sel: "tx_selector ?tx = tx_selector tx" by (cases "sr_service_error response") auto
  show ?thesis
  proof (cases "sr_transaction_id response")
    case (Some i)
    obtain x sel' where u: "ctx_update i None (tx_selector tx) = (x, sel')" by (cases "ctx_update i None (tx_selector tx)")
    with Some assms sel ctx_update_settles [OF u] show ?thesis by (auto simp: begun_by_statement_def Let_def)
  next
    case None
    with assms sel show ?thesis
      by (auto simp: begun_by_statement_def Let_def tx_set_failed_def split: option.splits)
  qed
qed

lemma execute_with_retry_settles:
  assumes "is_starting s \<or> settled (tx_selector tx)" "execute_with_retry env q s tx w = (r, tx', w')"
  shows "settled (tx_selector tx') \<and> is_lazy (tx_selector tx') = is_lazy (tx_selector tx)"
proof -
  obtain x w1 where x: "re_execute env q s w = (x, w1)" by (cases "re_execute env q s w")
  show ?thesis
  proof (cases x)
    case (Err e)
    with assms x show ?thesis by (auto simp: execute_with_retry_def Let_def tx_set_failed_def split: if_splits)
  next
    case (Ok response)
    let ?tx = "tx\<lparr>tx_tracker := tracker_update (tx_tracker tx) (sr_precommit_token response)\<rparr>"
    obtain y tx2 where y: "(if is_starting s then begun_by_statement env response ?tx else (Ok (), ?tx)) = (y, tx2)"
      by (metis surj_pair)
    then have "settled (tx_selector tx2) \<and> is_lazy (tx_selector tx2) = is_lazy (tx_selector tx)"
      using assms(1) begun_settles [of env response ?tx y tx2] by (auto split: if_splits)
    with assms(2) x Ok y show ?thesis
      by (cases y; cases "sr_result response") (auto simp: execute_with_retry_def Let_def statement_result_def)
  qed
qed

lemma execute_statement_settles:
  assumes "settled (tx_selector tx)"
  shows "\<exists>r tx' w'. execute_statement env q tx w = Some (r, tx', w') \<and> settled (tx_selector tx') \<and>
    is_lazy (tx_selector tx') = is_lazy (tx_selector tx)"
proof (cases "tx_aborted_info tx")
  case (Some info)
  with assms show ?thesis by (simp add: execute_statement_def)
next
  case None
  from selector_now_settled [OF assms] obtain x sel where x: "selector_now (tx_selector tx) = Some (x, sel)"
    and lazy: "is_lazy sel = is_lazy (tx_selector tx)" and s: "(\<exists>s. x = Ok s \<and> is_starting s) \<or> settled sel" by blast
  show ?thesis
  proof (cases x)
    case (Err e)
    with None x lazy s show ?thesis by (simp add: execute_statement_def)
  next
    case (Ok s')
    let ?tx = "tx\<lparr>tx_selector := sel\<rparr>"
    obtain r tx' w' where e: "execute_with_retry env q s' ?tx w = (r, tx', w')" by (metis prod_cases3)
    have "is_starting s' \<or> settled (tx_selector ?tx)" using s Ok by auto
    from execute_with_retry_settles [OF this e] None x Ok e lazy show ?thesis by (simp add: execute_statement_def)
  qed
qed

lemma run_work_settles:
  "settled (tx_selector tx) \<Longrightarrow>
   \<exists>r tx' w'. run_work env k tx w = Some (r, tx', w') \<and> settled (tx_selector tx') \<and>
     is_lazy (tx_selector tx') = is_lazy (tx_selector tx)"
proof (induction k arbitrary: tx w)
  case (Buffer ms k)
  then show ?case using Buffer.IH [of "buffer_mutations ms tx" w] by (simp add: buffer_mutations_def)
next
  case (Statement q k)
  from execute_statement_settles [OF Statement.prems, of env q w] obtain r tx' w'
    where e: "execute_statement env q tx w = Some (r, tx', w')" "settled (tx_selector tx')"
      "is_lazy (tx_selector tx') = is_lazy (tx_selector tx)" by blast
  with Statement.IH [OF rangeI e(2), of r w'] show ?case by simp
qed auto

lemma build_settled: "build env b w = (Ok tx, w') \<Longrightarrow> settled (tx_selector tx) \<and> is_lazy (tx_selector tx) = (\<not> rb_explicit b)"
  by (auto simp: build_def split: if_splits prod.splits result.splits)

lemma rollback_selector [simp]: "tx_selector (fst (snd (rollback_txn env tx w))) = tx_selector tx"
  by (auto simp: rollback_txn_def split: option.splits prod.splits)

text \<open>An attempt always ends, and only one that began its transaction in a statement can fail at its first statement.\<close>

lemma attempt_returns: "\<exists>r w'. attempt env b w = Some (r, w')"
proof (cases "build env b w")
  case (Pair x w1)
  show ?thesis
  proof (cases x)
    case (Ok tx)
    with Pair build_settled [of env b w tx w1] run_work_settles [of tx env "re_work env w1" w1] obtain r tx2 w2
      where "run_work env (re_work env w1) tx w1 = Some (r, tx2, w2)" by auto
    with Pair Ok show ?thesis by (auto simp: attempt_def split: result.splits prod.splits)
  qed (use Pair in \<open>simp add: attempt_def\<close>)
qed

lemma commit_id_lazy:
  assumes "commit_id env tx w = (r, tx', w')"
  shows "is_lazy (tx_selector tx') = is_lazy (tx_selector tx)"
proof (cases "tx_selector tx")
  case (Fixed sel t)
  with assms show ?thesis by (auto simp: commit_id_def split: option.splits)
next
  case (Lazy st)
  show ?thesis
  proof (cases st)
    case (NotStarted options)
    with assms Lazy show ?thesis
      by (auto simp: commit_id_def begin_explicitly_for_commit_def Let_def
        split: prod.splits result.splits)
  qed (use assms Lazy in \<open>auto simp: commit_id_def split: option.splits\<close>)
qed

lemma commit_txn_lazy:
  assumes "commit_txn env tx w = (r, tx', w')"
  shows "is_lazy (tx_selector tx') = is_lazy (tx_selector tx)"
proof (cases "tx_aborted_info tx")
  case None
  obtain x tx1 w1 where c: "commit_id env tx w = (x, tx1, w1)" by (metis prod_cases3)
  with assms None commit_id_lazy [OF c] show ?thesis
    by (auto simp: commit_txn_def Let_def split: result.splits prod.splits)
qed (use assms in \<open>auto simp: commit_txn_def\<close>)

lemma first_statement_failed_lazy: "is_first_statement_failed sel \<Longrightarrow> is_lazy sel"
  by (cases sel) auto

lemma first_failed_only_inline:
  assumes "attempt env b w = Some (Err (AttemptAborted e d p True), w')"
  shows "\<not> rb_explicit b"
proof -
  obtain x w1 where x: "build env b w = (x, w1)" by (cases "build env b w")
  show ?thesis
  proof (cases x)
    case (Err e')
    with assms x show ?thesis by (auto simp: attempt_def handle_explicit_begin_error_def split: if_splits)
  next
    case (Ok tx)
    with x build_settled [of env b w tx w1] have tx: "settled (tx_selector tx)" "is_lazy (tx_selector tx) = (\<not> rb_explicit b)" by auto
    from run_work_settles [OF tx(1), of env "re_work env w1" w1] obtain y tx2 w2
      where y: "run_work env (re_work env w1) tx w1 = Some (y, tx2, w2)" and lazy: "is_lazy (tx_selector tx2) = (\<not> rb_explicit b)"
      using tx(2) by auto
    show ?thesis
    proof (cases y)
      case (Err e')
      have "is_lazy (tx_selector tx2)"
        using assms x Ok y Err
        by (auto simp: attempt_def handle_work_error_def build_aborted_attempt_error_def rollback_txn_def
          intro!: first_statement_failed_lazy split: option.splits prod.splits if_splits)
      with lazy show ?thesis by simp
    next
      case ok: (Ok t)
      obtain z tx3 w3 where z: "commit_txn env tx2 w2 = (z, tx3, w3)" by (metis prod_cases3)
      with assms x Ok y ok have "is_lazy (tx_selector tx3)"
        by (auto simp: attempt_def handle_commit_error_def build_aborted_attempt_error_def
          intro!: first_statement_failed_lazy split: result.splits if_splits)
      with commit_txn_lazy [OF z] lazy show ?thesis by simp
    qed
  qed
qed

section \<open>The runner ends\<close>

text \<open>
  A policy that stops after \<open>N\<close> attempts. The retry after a failed first statement does not ask it, but
  happens at most once: the next attempt begins its transaction explicitly.
\<close>

definition stops_at :: "('t, 'm, 'q, 'w) runner_env \<Rightarrow> nat \<Rightarrow> bool" where
  "stops_at env N \<longleftrightarrow> (\<forall>e attempts elapsed e'. N \<le> unat attempts \<longrightarrow> re_policy env e attempts elapsed \<noteq> Continue e')"

lemma basic_policy_stops:
  assumes "re_policy env = basic_on_abort p" "0 < bp_max_attempts p"
  shows "stops_at env (unat (bp_max_attempts p))"
  using assms by (auto simp: stops_at_def basic_on_abort_def word_le_nat_alt)

lemma backoff_continues:
  assumes "backoff_if_aborted env deadline e d attempts elapsed w = (Ok u, w')"
  shows "\<exists>e'. re_policy env e attempts elapsed = Continue e'"
  using assms by (auto simp: backoff_if_aborted_def Let_def split: if_splits retry_result.splits)

definition runs_left :: "nat \<Rightarrow> ('t, 'w) runner \<Rightarrow> nat" where
  "runs_left N rn = max 1 (N - length (rn_log rn)) + (if rn_force_explicit rn \<or> rb_explicit (rn_builder rn) then 0 else 1)"

lemma apply_previous_explicit [simp]: "rb_explicit (apply_previous_id p b) = rb_explicit b"
  by (cases p) (simp_all add: set_previous_transaction_id_def)

definition counted :: "nat \<Rightarrow> ('t, 'w) runner \<Rightarrow> bool" where
  "counted N rn \<longleftrightarrow> rn_attempts rn = of_nat (length (rn_log rn)) \<and> length (rn_log rn) + runs_left N rn \<le> N + 1"

lemma retry_counted:
  assumes stops: "stops_at env N" and N: "N + 1 < 2 ^ 32" and rn: "counted N rn"
    and x: "attempt env (if rn_force_explicit rn then (rn_builder rn)\<lparr>rb_explicit := True\<rparr> else rn_builder rn) (rn_world rn) =
      Some (Err ae, w)"
    and h: "handle_attempt_error env start_time ae
      (rn\<lparr>rn_attempts := rn_attempts rn + 1, rn_log := rn_log rn @ [Err ae], rn_world := w\<rparr>) = (Ok u, rn2)"
  shows "counted N rn2 \<and> length (rn_log rn2) + runs_left N rn2 \<le> length (rn_log rn) + runs_left N rn"
proof (cases ae)
  case (AttemptFailed e)
  with h show ?thesis by simp
next
  case (AttemptAborted e d p first)
  let ?k = "length (rn_log rn)"
  have rn2: "rn_log rn2 = rn_log rn @ [Err ae]" "rn_attempts rn2 = rn_attempts rn + 1"
      "rb_explicit (rn_builder rn2) = rb_explicit (rn_builder rn)"
    using h AttemptAborted by (auto simp: Let_def split: if_splits prod.splits)
  have at: "rn_attempts rn + 1 = of_nat (?k + 1)" using rn by (simp add: counted_def add.commute)
  have k: "?k + 1 < 2 ^ 32" using rn N by (auto simp: counted_def runs_left_def)
  have "runs_left N rn2 + 1 \<le> runs_left N rn"
  proof (cases first)
    case True
    with x AttemptAborted first_failed_only_inline have "\<not> rb_explicit (rn_builder rn)" "\<not> rn_force_explicit rn"
      by (fastforce split: if_splits)+
    moreover have "rn_force_explicit rn2" using h AttemptAborted True by (auto simp: Let_def)
    ultimately show ?thesis using rn2 by (simp add: runs_left_def)
  next
    case False
    have same: "rn_force_explicit rn2 = rn_force_explicit rn"
      using h AttemptAborted False by (auto simp: Let_def split: prod.splits)
    from h AttemptAborted False obtain elapsed e' where "re_policy env e (of_nat (?k + 1)) elapsed = Continue e'"
      unfolding at by (auto simp: Let_def split: prod.splits dest!: backoff_continues)
    with stops have "\<not> N \<le> unat (of_nat (?k + 1) :: u32)" unfolding stops_at_def by blast
    moreover have "unat (of_nat (?k + 1) :: u32) = ?k + 1" using k by (simp only: unat_of_nat) (simp add: take_bit_nat_eq_self)
    ultimately have "?k + 1 < N" by simp
    with same rn2 show ?thesis by (simp add: runs_left_def)
  qed
  with rn rn2 at show ?thesis by (simp add: counted_def)
qed

lemma run_from_ends:
  assumes stops: "stops_at env N" and N: "N + 1 < 2 ^ 32"
  shows "counted N rn \<Longrightarrow> runs_left N rn \<le> fuel \<Longrightarrow>
    \<exists>r rn'. run_from fuel env start_time rn = (Some r, rn') \<and>
      length (rn_log rn') \<le> length (rn_log rn) + runs_left N rn"
proof (induction fuel arbitrary: rn)
  case 0
  then show ?case by (simp add: runs_left_def)
next
  case (Suc fuel)
  let ?b = "if rn_force_explicit rn then (rn_builder rn)\<lparr>rb_explicit := True\<rparr> else rn_builder rn"
  from attempt_returns [of env ?b "rn_world rn"] obtain x w where x: "attempt env ?b (rn_world rn) = Some (x, w)" by blast
  let ?rn = "rn\<lparr>rn_attempts := rn_attempts rn + 1, rn_log := rn_log rn @ [x], rn_world := w\<rparr>"
  have pos: "1 \<le> runs_left N rn" by (simp add: runs_left_def)
  show ?case
  proof (cases x)
    case (Ok y)
    with x pos show ?thesis by (simp add: Let_def)
  next
    case (Err ae)
    obtain y rn2 where y: "handle_attempt_error env start_time ae ?rn = (y, rn2)"
      by (cases "handle_attempt_error env start_time ae ?rn")
    show ?thesis
    proof (cases y)
      case err: (Err e)
      have "length (rn_log rn2) = length (rn_log rn) + 1"
        using y by (cases ae) (auto simp: Let_def split: if_splits prod.splits)
      with x Err y err pos show ?thesis by (simp add: Let_def)
    next
      case ok: (Ok u)
      from retry_counted [OF stops N Suc.prems(1) x [unfolded Err] y [unfolded Err ok]]
      have c: "counted N rn2" and le: "length (rn_log rn2) + runs_left N rn2 \<le> length (rn_log rn) + runs_left N rn" by auto
      have "length (rn_log rn2) = length (rn_log rn) + 1"
        using y by (cases ae) (auto simp: Let_def split: if_splits prod.splits)
      with le Suc.prems(2) have "runs_left N rn2 \<le> fuel" by simp
      from Suc.IH [OF c this] le x Err y ok show ?thesis by (fastforce simp: Let_def)
    qed
  qed
qed

text \<open>
  C27. A transaction runner ends. If the retry policy stops after \<open>N\<close> attempts, then there are at
  most \<open>N\<close> attempts when the transaction is begun explicitly, and at most \<open>N + 1\<close> when it is begun
  by its first statement: the attempt after a failed first statement is not counted, but happens only once.\<close>

theorem runner_attempts_bounded:
  fixes env :: "('t, 'm, 'q, 'w) runner_env"
  assumes "stops_at env N" "0 < N" "N + 1 < 2 ^ 32" "N + (if rb_explicit b then 0 else 1) \<le> fuel"
  shows "\<exists>r rn. run_txn fuel env b w = (Some r, rn) \<and> length (rn_log rn) \<le> N + (if rb_explicit b then 0 else 1)"
proof -
  let ?rn = "\<lparr>rn_builder = b, rn_force_explicit = False, rn_attempts = 0, rn_log = [], rn_world = w\<rparr> :: ('t, 'w) runner"
  have left: "runs_left N ?rn = N + (if rb_explicit b then 0 else 1)" using assms(2) by (simp add: runs_left_def)
  then have "counted N ?rn" by (simp add: counted_def)
  from run_from_ends [OF assms(1,3) this, of fuel] left assms(4) show ?thesis by (auto simp: run_txn_def)
qed

section \<open>The service confirms one commit\<close>

text \<open>The same runner in a world that also records the commits that the service confirms: those it answers
  without asking for another request.\<close>

definition log_commits :: "('t, 'm, 'q, 'w) runner_env \<Rightarrow> ('t, 'm, 'q, commit_response list \<times> 'w) runner_env" where
  "log_commits env =
     \<lparr>re_work = (\<lambda>(l, w). re_work env w),
      re_execute = (\<lambda>q sel (l, w). case re_execute env q sel w of (r, w') \<Rightarrow> (r, (l, w'))),
      re_begin = (\<lambda>options (l, w). case re_begin env options w of (r, w') \<Rightarrow> (r, (l, w'))),
      re_commit = (\<lambda>request (l, w). case re_commit env request w of
          (r, w') \<Rightarrow> (r, (case r of Ok response \<Rightarrow> if co_retry response = None then l @ [response] else l | Err _ \<Rightarrow> l, w'))),
      re_rollback = (\<lambda>i (l, w). case re_rollback env i w of (r, w') \<Rightarrow> (r, (l, w'))),
      re_now = (\<lambda>(l, w). re_now env w),
      re_sleep = (\<lambda>d (l, w). (l, re_sleep env d w)),
      re_backoff = re_backoff env, re_delay_of = re_delay_of env, re_text = re_text env, re_emulator = re_emulator env,
      re_policy = re_policy env, re_timeout = re_timeout env, re_session = re_session env\<rparr>"

lemma execute_statement_log:
  assumes "execute_statement (log_commits env) q tx (l, w) = Some (r, tx', w')"
  shows "fst w' = l"
  using assms
  by (auto simp: execute_statement_def execute_with_retry_def log_commits_def statement_result_def Let_def
    split: option.splits result.splits prod.splits if_splits)

lemma run_work_log: "run_work (log_commits env) k tx (l, w) = Some (r, tx', w') \<Longrightarrow> fst w' = l"
proof (induction k arbitrary: tx w)
  case (Statement q k)
  from Statement.prems obtain r1 tx1 l1 w1 where e: "execute_statement (log_commits env) q tx (l, w) = Some (r1, tx1, l1, w1)"
    and k: "run_work (log_commits env) (k r1) tx1 (l1, w1) = Some (r, tx', w')"
    by (auto split: option.splits)
  from execute_statement_log [OF e] Statement.IH [OF rangeI, of r1 tx1 w1] k show ?case by simp
qed auto

lemma begin_log:
  assumes "execute_begin_transaction (log_commits env) options (l, w) = (r, w')"
  shows "fst w' = l"
  using assms by (auto simp: execute_begin_transaction_def log_commits_def split: prod.splits result.splits if_splits)

lemma build_log:
  assumes "build (log_commits env) b (l, w) = (r, w')"
  shows "fst w' = l"
proof -
  obtain x w1 where "execute_begin_transaction (log_commits env) (builder_options b) (l, w) = (x, w1)"
    by (cases "execute_begin_transaction (log_commits env) (builder_options b) (l, w)")
  from begin_log [OF this] this assms show ?thesis by (auto simp: build_def split: if_splits result.splits)
qed

lemma commit_id_log:
  assumes "commit_id (log_commits env) tx (l, w) = (r, tx', w')"
  shows "fst w' = l"
proof -
  have "fst w2 = l" if "begin_explicitly_for_commit (log_commits env) options tx1 (l, w) = (r1, tx2, w2)" for options tx1 r1 tx2 w2
  proof -
    obtain x w1 where "execute_begin_transaction (log_commits env) options (l, w) = (x, w1)"
      by (cases "execute_begin_transaction (log_commits env) options (l, w)")
    from begin_log [OF this] this that show ?thesis
      by (auto simp: begin_explicitly_for_commit_def Let_def split: result.splits prod.splits ctx_selector.splits)
  qed
  with assms show ?thesis
    by (auto simp: commit_id_def split: prod.splits result.splits commit_action.splits)
qed

lemma precommit_log:
  assumes "commit_with_precommit_retry (re_commit (log_commits env)) inspect build_retry request tracker a (l, w) =
    (r, tracker', a', requests, w')"
  shows "fst w' = l @ (case r of Ok response \<Rightarrow> [response] | Err _ \<Rightarrow> [])"
  using assms
  by (auto simp: commit_with_precommit_retry_def log_commits_def Let_def
    split: prod.splits result.splits option.splits if_splits)

lemma commit_txn_log:
  assumes "commit_txn (log_commits env) tx (l, w) = (r, tx', w')"
  shows "fst w' = l @ (case r of Ok response \<Rightarrow> [response] | Err _ \<Rightarrow> [])"
proof (cases "tx_aborted_info tx")
  case None
  obtain x tx1 l1 w1 where c: "commit_id (log_commits env) tx (l, w) = (x, tx1, l1, w1)" by (metis prod_cases3 surj_pair)
  with commit_id_log [OF c] have "l1 = l" by simp
  show ?thesis
  proof (cases x)
    case (Ok i)
    with assms None c \<open>l1 = l\<close> show ?thesis
      by (auto simp: commit_txn_def Let_def dest!: precommit_log split: prod.splits)
  qed (use assms None c \<open>l1 = l\<close> in \<open>auto simp: commit_txn_def\<close>)
qed (use assms in \<open>auto simp: commit_txn_def\<close>)

lemma work_error_log:
  assumes "handle_work_error (log_commits env) tx e (l, w) = (ae, tx', w')"
  shows "fst w' = l"
  using assms by (auto simp: handle_work_error_def rollback_txn_def log_commits_def split: option.splits prod.splits)

lemma attempt_commit_log:
  assumes "attempt (log_commits env) b (l, w) = Some (r, w')"
  shows "fst w' = l @ (case r of Ok (t, response) \<Rightarrow> [response] | Err _ \<Rightarrow> [])"
proof -
  obtain x l1 w1 where x: "build (log_commits env) b (l, w) = (x, l1, w1)" by (metis prod_cases3)
  with build_log [OF x] have l1: "l1 = l" by simp
  show ?thesis
  proof (cases x)
    case (Err e)
    with assms x l1 show ?thesis by (auto simp: attempt_def)
  next
    case (Ok tx)
    with assms x l1 obtain y tx2 l2 w2
      where y: "run_work (log_commits env) (re_work (log_commits env) (l, w1)) tx (l, w1) = Some (y, tx2, l2, w2)"
      by (auto simp: attempt_def split: option.splits)
    with run_work_log [OF y] have l2: "l2 = l" by simp
    show ?thesis
    proof (cases y)
      case (Err e)
      with assms x l1 Ok y l2 show ?thesis
        by (auto simp: attempt_def dest!: work_error_log split: prod.splits)
    next
      case ok: (Ok t)
      obtain z tx3 w3 where z: "commit_txn (log_commits env) tx2 (l, w2) = (z, tx3, w3)" by (metis prod_cases3)
      with assms x l1 Ok y l2 ok commit_txn_log [OF z] show ?thesis by (auto simp: attempt_def split: result.splits)
    qed
  qed
qed

lemma attempt_error_log:
  assumes "handle_attempt_error (log_commits env) start_time ae rn = (r, rn')"
  shows "fst (rn_world rn') = fst (rn_world rn)"
  using assms
  by (cases ae; cases "rn_world rn") (auto simp: Let_def backoff_if_aborted_def log_commits_def
    split: if_splits prod.splits retry_result.splits option.splits)

lemma run_from_log:
  "run_from fuel (log_commits env) start_time rn = (r, rn') \<Longrightarrow>
   fst (rn_world rn') = fst (rn_world rn) @ (case r of Some (Ok (t, response)) \<Rightarrow> [response] | _ \<Rightarrow> [])"
proof (induction fuel arbitrary: rn)
  case (Suc fuel)
  let ?b = "if rn_force_explicit rn then (rn_builder rn)\<lparr>rb_explicit := True\<rparr> else rn_builder rn"
  obtain l w0 where w0: "rn_world rn = (l, w0)" by (cases "rn_world rn")
  from attempt_returns [of "log_commits env" ?b "rn_world rn"] obtain x w
    where x: "attempt (log_commits env) ?b (rn_world rn) = Some (x, w)" by blast
  have lw: "fst w = l @ (case x of Ok (t, response) \<Rightarrow> [response] | Err _ \<Rightarrow> [])"
    using x unfolding w0 by (rule attempt_commit_log)
  let ?rn = "rn\<lparr>rn_attempts := rn_attempts rn + 1, rn_log := rn_log rn @ [x], rn_world := w\<rparr>"
  show ?case
  proof (cases x)
    case (Ok y)
    with Suc.prems x lw w0 show ?thesis by (auto simp: Let_def)
  next
    case (Err ae)
    obtain y rn2 where y: "handle_attempt_error (log_commits env) start_time ae ?rn = (y, rn2)"
      by (cases "handle_attempt_error (log_commits env) start_time ae ?rn")
    from attempt_error_log [OF y] lw Err have "fst (rn_world rn2) = l" by simp
    with Suc.prems Suc.IH [of rn2] x Err y w0 show ?thesis by (cases y) (auto simp: Let_def)
  qed
qed auto

text \<open>
  C6. A transaction is committed at most once: whatever the work does, however its attempts are aborted
  and retried, and whatever the service answers, the service has confirmed exactly one commit when the
  runner returns a result, with the response it returns, and none when it returns an error.\<close>

theorem runner_commits_once:
  assumes "run_txn fuel (log_commits env) b ([], w) = (Some r, rn)"
  shows "fst (rn_world rn) = (case r of Ok (t, response) \<Rightarrow> [response] | Err _ \<Rightarrow> [])"
  using run_from_log [OF assms [unfolded run_txn_def]] by (auto split: result.splits)

section \<open>An example\<close>

text \<open>
  The first statement of the work fails, and the work goes on with another one. The policy allows one
  attempt; the commit is asked for a precommit token first.
\<close>

definition example_failure :: error where
  "example_failure = service (set_code status_default InvalidArgument)"

definition example_work :: "(nat, nat, bool) work" where
  "example_work = Statement True (\<lambda>_. Buffer [5] (Statement False (\<lambda>r. case r of Ok _ \<Rightarrow> Return 7 | Err e \<Rightarrow> Raise e)))"

definition example_token :: precommit_token where
  "example_token = \<lparr>pt_seq_num = 1, pt_token = [3]\<rparr>"

definition example_env :: "(nat, nat, bool, nat) runner_env" where
  "example_env =
     \<lparr>re_work = (\<lambda>_. example_work),
      re_execute = (\<lambda>q sel w. if q then (Err example_failure, w + 1)
        else (Ok \<lparr>sr_precommit_token = None, sr_transaction_id = None, sr_service_error = None, sr_result = Ok [1]\<rparr>, w + 1)),
      re_begin = (\<lambda>_ w. (Ok \<lparr>br_id = [9], br_timestamp = None, br_precommit_token = None\<rparr>, w + 1)),
      re_commit = (\<lambda>request w. (Ok \<lparr>co_timestamp = Some (int w),
        co_retry = (if cr_precommit_token request = None then Some example_token else None)\<rparr>, w + 1)),
      re_rollback = (\<lambda>_ w. (Ok (), w + 1)),
      re_now = (\<lambda>w. w), re_sleep = (\<lambda>d w. w + d), re_backoff = (\<lambda>_. 1), re_delay_of = (\<lambda>_. None), re_text = (\<lambda>_. []),
      re_emulator = False, re_policy = basic_on_abort \<lparr>bp_max_attempts = 1, bp_total_timeout = 0\<rparr>,
      re_timeout = None, re_session = ''s''\<rparr>"

definition example_builder :: rw_builder where
  "example_builder = \<lparr>rb_previous = [], rb_explicit = False\<rparr>"

definition example_response :: commit_response where
  "example_response = \<lparr>co_timestamp = Some 5, co_retry = None\<rparr>"

lemma example_run:
  "fst (run_txn 2 (log_commits example_env) example_builder ([], 0)) = Some (Ok (7, example_response))"
  by code_simp

theorem runner_commits_once_witness:
  "fst (run_txn 2 (log_commits example_env) example_builder ([], 0)) = Some (Ok (7, example_response)) \<and>
   fst (rn_world (snd (run_txn 2 (log_commits example_env) example_builder ([], 0)))) = [example_response]"
proof -
  let ?r = "run_txn 2 (log_commits example_env) example_builder ([], 0)"
  have "?r = (Some (Ok (7, example_response)), snd ?r)" using example_run by (metis prod.collapse)
  from runner_commits_once [OF this] example_run show ?thesis by simp
qed

theorem runner_attempts_bounded_witness:
  "\<exists>r rn. run_txn 2 example_env example_builder 0 = (Some r, rn) \<and> length (rn_log rn) \<le> 2"
proof -
  have "stops_at example_env 1"
    using basic_policy_stops [of example_env "\<lparr>bp_max_attempts = 1, bp_total_timeout = 0\<rparr>"] by (simp add: example_env_def)
  from runner_attempts_bounded [OF this, of example_builder 2 0] have
    "\<exists>r rn. run_txn 2 example_env example_builder 0 = (Some r, rn) \<and> length (rn_log rn) \<le> 1 + 1"
    by (simp add: example_builder_def)
  then show ?thesis by (simp only: one_add_one)
qed

text \<open>A runner with a limit of one attempt makes two.\<close>

theorem attempt_limit_exceeded:
  "re_policy example_env = basic_on_abort \<lparr>bp_max_attempts = 1, bp_total_timeout = 0\<rparr> \<and>
   length (rn_log (snd (run_txn 2 example_env example_builder 0))) = 2"
proof
  show "re_policy example_env = basic_on_abort \<lparr>bp_max_attempts = 1, bp_total_timeout = 0\<rparr>" by (simp add: example_env_def)
  show "length (rn_log (snd (run_txn 2 example_env example_builder 0))) = 2" by code_simp
qed
end
