(* ===== verification/Spanner_Write.thy ===== *)
theory Spanner_Write
  imports Spanner_Runner
begin

text \<open>
  Write-only transactions, \<open>spanner/src/write_only_transaction.rs\<close>, on the retry loop of
  \<open>transaction_retry_policy.rs\<close> (\<open>retry_aborted\<close>), and the retry policy that keeps the RPCs of a
  transaction within its deadline, from \<open>read_write_transaction.rs\<close>.

  The environment is that of \<open>Spanner_Runner\<close>; its work and its statements are not used. Writes with a
  single request (\<open>write_at_least_once\<close>), the mutation key and request options are left out.
\<close>

section \<open>Retries of aborted operations\<close>

text \<open>
  The operation acts on a state of its own (what its closure has captured) and on the world. The result also
  has the number of attempts.
\<close>

fun retry_aborted ::
  "nat \<Rightarrow> ('t, 'm, 'q, 'w) runner_env \<Rightarrow> ('s \<Rightarrow> 'w \<Rightarrow> (error, 'r) result \<times> 's \<times> 'w) \<Rightarrow> instant \<Rightarrow> u32 \<Rightarrow> 's \<Rightarrow> 'w \<Rightarrow>
   (error, 'r) result option \<times> u32 \<times> 's \<times> 'w" where
  "retry_aborted 0 env f start_time attempts s w = (None, attempts, s, w)"
| "retry_aborted (Suc fuel) env f start_time attempts s w =
     (case f s w of
        (Ok v, s1, w1) \<Rightarrow> (Some (Ok v), attempts + 1, s1, w1)
      | (Err e, s1, w1) \<Rightarrow>
          (case backoff_if_aborted env None e None (attempts + 1) (re_now env w1 - start_time) w1 of
             (Err e', w2) \<Rightarrow> (Some (Err e'), attempts + 1, s1, w2)
           | (Ok _, w2) \<Rightarrow> retry_aborted fuel env f start_time (attempts + 1) s1 w2))"

lemma retry_aborted_ends:
  fixes env :: "('t, 'm, 'q, 'w) runner_env"
  assumes stops: "stops_at env N" and N: "N < 2 ^ 32"
  shows "unat attempts < N \<Longrightarrow> N \<le> unat attempts + fuel \<Longrightarrow>
    \<exists>r n s' w'. retry_aborted fuel env f start_time attempts s w = (Some r, n, s', w') \<and> unat n \<le> N"
proof (induction fuel arbitrary: attempts s w)
  case (Suc fuel)
  have n: "unat (attempts + 1) = unat attempts + 1"
    using Suc.prems(1) N by (simp add: unat_word_ariths)
  obtain x s1 w1 where x: "f s w = (x, s1, w1)" by (metis prod_cases3)
  show ?case
  proof (cases x)
    case (Ok v)
    with x n Suc.prems(1) show ?thesis by simp
  next
    case (Err e)
    let ?elapsed = "re_now env w1 - start_time"
    obtain y w2 where y: "backoff_if_aborted env None e None (attempts + 1) ?elapsed w1 = (y, w2)" by (metis surj_pair)
    show ?thesis
    proof (cases y)
      case err: (Err e')
      with x Err y n Suc.prems(1) show ?thesis by simp
    next
      case ok: (Ok u)
      from backoff_continues [OF y [unfolded ok]] obtain e' where "re_policy env e (attempts + 1) ?elapsed = Continue e'" ..
      with stops have "\<not> N \<le> unat (attempts + 1)" unfolding stops_at_def by blast
      with Suc.IH [of "attempts + 1" s1 w2] Suc.prems n x Err y ok show ?thesis by simp
    qed
  qed
qed simp

text \<open>
  What a retried operation must do for the retries to be safe: the service confirms a commit exactly when the
  operation succeeds.
\<close>

locale confirmed_action =
  fixes f :: "'s \<Rightarrow> commit_response list \<times> 'w \<Rightarrow> (error, commit_response) result \<times> 's \<times> commit_response list \<times> 'w"
  assumes confirms: "f s (l, w) = (r, s', l', w') \<Longrightarrow> l' = l @ (case r of Ok response \<Rightarrow> [response] | Err _ \<Rightarrow> [])"
begin

lemma retries_confirm:
  "retry_aborted fuel (log_commits env) f start_time attempts s (l, w) = (r, n, s', l', w') \<Longrightarrow>
   l' = l @ (case r of Some (Ok response) \<Rightarrow> [response] | _ \<Rightarrow> [])"
proof (induction fuel arbitrary: attempts s l w)
  case (Suc fuel)
  obtain x s1 l1 w1 where x: "f s (l, w) = (x, s1, l1, w1)" by (metis prod_cases3)
  from confirms [OF this] have l1: "l1 = l @ (case x of Ok response \<Rightarrow> [response] | Err _ \<Rightarrow> [])" .
  show ?case
  proof (cases x)
    case (Ok v)
    with Suc.prems x l1 show ?thesis by auto
  next
    case (Err e)
    obtain y l2 w2 where y: "backoff_if_aborted (log_commits env) None e None (attempts + 1)
      (re_now (log_commits env) (l1, w1) - start_time) (l1, w1) = (y, l2, w2)" by (metis prod_cases3)
    then have "l2 = l1"
      by (auto simp: backoff_if_aborted_def log_commits_def Let_def split: if_splits retry_result.splits)
    with Suc.prems Suc.IH [of "attempts + 1" s1 l2 w2] x l1 Err y show ?thesis by (cases y) auto
  qed
qed simp

end

section \<open>Writes\<close>

text \<open>
  One attempt: a transaction is begun, as the successor of the one before, and the mutations are committed.
  The state is the id of the last transaction that was begun.
\<close>

definition write_attempt ::
  "('t, 'm, 'q, 'w) runner_env \<Rightarrow> 'm list \<Rightarrow> u8 list \<Rightarrow> 'w \<Rightarrow> (error, commit_response) result \<times> u8 list \<times> 'w" where
  "write_attempt env mutations previous w =
     (case re_begin env \<lparr>to_mode = Some (ModeReadWrite previous)\<rparr> w of
        (Err e, w1) \<Rightarrow> (Err e, previous, w1)
      | (Ok transaction, w1) \<Rightarrow>
          (let tracker = tracker_update (TrackerTrack None) (br_precommit_token transaction);
               request = create_commit_request (re_session env) (br_id transaction) mutations (tracker_get tracker)
           in case commit_with_precommit_retry (re_commit env) (\<lambda>_ a. a)
                     (create_retry_commit_request (re_session env) (br_id transaction)) request tracker () w1 of
                (r, _, _, _, w2) \<Rightarrow> (r, br_id transaction, w2)))"

definition write_mutations ::
  "nat \<Rightarrow> ('t, 'm, 'q, 'w) runner_env \<Rightarrow> 'm list \<Rightarrow> 'w \<Rightarrow> (error, commit_response) result option \<times> u32 \<times> u8 list \<times> 'w" where
  "write_mutations fuel env mutations w = retry_aborted fuel env (write_attempt env mutations) (re_now env w) 0 [] w"

interpretation wr: confirmed_action "write_attempt (log_commits env) mutations" for env mutations
proof
  fix s l r s' l' w w'
  assume a: "write_attempt (log_commits env) mutations s (l, w) = (r, s', l', w')"
  obtain x l1 w1 where x: "re_begin (log_commits env) \<lparr>to_mode = Some (ModeReadWrite s)\<rparr> (l, w) = (x, l1, w1)" by (metis prod_cases3)
  then have "l1 = l" by (auto simp: log_commits_def split: prod.splits)
  with a x show "l' = l @ (case r of Ok response \<Rightarrow> [response] | Err _ \<Rightarrow> [])"
    by (cases x) (auto simp: write_attempt_def Let_def dest!: precommit_log split: prod.splits)
qed

text \<open>
  C7. A write applies its mutations exactly once on success, and not at all if it fails, as far as the service
  says: whatever aborts and errors it answers, it has confirmed one commit, with the response that is returned, or
  none. And a write ends: if the policy stops after \<open>N\<close> attempts, there are at most \<open>N\<close>.\<close>

theorem write_confirms_once:
  fixes env :: "('t, 'm, 'q, 'w) runner_env"
  assumes "stops_at env N" "0 < N" "N < 2 ^ 32" "N \<le> fuel"
  shows "\<exists>r n s w'. write_mutations fuel (log_commits env) mutations ([], w) =
    (Some r, n, s, (case r of Ok response \<Rightarrow> [response] | Err _ \<Rightarrow> []), w') \<and> unat n \<le> N"
proof -
  have "stops_at (log_commits env) N" using assms(1) by (simp add: stops_at_def log_commits_def)
  from retry_aborted_ends [OF this assms(3), of 0 fuel "write_attempt (log_commits env) mutations"
    "re_now (log_commits env) ([], w)" "[]" "([], w)"] assms(2,4) obtain r n s l w'
    where run: "retry_aborted fuel (log_commits env) (write_attempt (log_commits env) mutations)
      (re_now (log_commits env) ([], w)) 0 [] ([], w) = (Some r, n, s, l, w')" "unat n \<le> N" by auto
  from wr.retries_confirm [OF run(1)] run show ?thesis by (cases r) (auto simp: write_mutations_def)
qed

text \<open>An attempt begins its transaction as the successor of the last one, and becomes the last one.\<close>

lemma write_attempt_begins_successor:
  assumes "write_attempt env mutations previous w = (r, previous', w')"
  shows "previous' = previous \<or>
    (\<exists>transaction w1. re_begin env \<lparr>to_mode = Some (ModeReadWrite previous)\<rparr> w = (Ok transaction, w1) \<and> previous' = br_id transaction)"
  using assms by (auto simp: write_attempt_def Let_def split: prod.splits result.splits)

section \<open>The deadline of a transaction\<close>

text \<open>\<open>TransactionBoundedRetryPolicy\<close>.\<close>

definition transaction_bounded_policy :: "retry_policy \<Rightarrow> instant \<Rightarrow> retry_policy" where
  "transaction_bounded_policy inner deadline =
     \<lparr>on_error = (\<lambda>now st e. if deadline \<le> now then Ret (Exhausted e) else on_error inner now st e),
      on_throttle = (\<lambda>now st e. if deadline \<le> now then Ret (ThrottleExhausted e) else on_throttle inner now st e),
      remaining_time = (\<lambda>now st.
        map_run (\<lambda>t. Some (case t of Some d \<Rightarrow> min (deadline - now) d | None \<Rightarrow> deadline - now)) (remaining_time inner now st))\<rparr>"

lemma bounded_policy_sel [simp]:
  "on_error (transaction_bounded_policy P d) now st e = (if d \<le> now then Ret (Exhausted e) else on_error P now st e)"
  "on_throttle (transaction_bounded_policy P d) now st e = (if d \<le> now then Ret (ThrottleExhausted e) else on_throttle P now st e)"
  by (simp_all add: transaction_bounded_policy_def)

context idempotency_contract
begin

lemma transaction_bounded: "idempotency_contract (transaction_bounded_policy P d)"
  by unfold_locales (auto split: if_splits dest: laws not_idempotent)

end

interpretation bounded: idempotency_contract "transaction_bounded_policy spanner_retry_policy deadline" for deadline
  by (rule spanner.transaction_bounded)

text \<open>No error is retried after the deadline, and the time that is left never reaches past it.\<close>

lemma bounded_by_deadline:
  assumes "on_error (transaction_bounded_policy P deadline) now st e = Ret (Continue e')"
  shows "now < deadline"
  using assms by (simp split: if_splits)

lemma bounded_remaining_time:
  assumes "remaining_time (transaction_bounded_policy P deadline) now st = Ret t"
  shows "\<exists>d. t = Some d \<and> now + d \<le> max now deadline"
  using assms by (auto simp: transaction_bounded_policy_def map_run_Ret_iff split: option.splits)

section \<open>A write\<close>

text \<open>The first commit is aborted, the second one is asked for a precommit token.\<close>

definition aborted_once :: "(nat, nat, bool, nat) runner_env" where
  "aborted_once =
     example_env\<lparr>re_commit := (\<lambda>request w.
         if w = 1 then (Err (service (set_code status_default Aborted)), w + 1) else re_commit example_env request w),
       re_policy := basic_on_abort \<lparr>bp_max_attempts = 3, bp_total_timeout = 0\<rparr>\<rparr>"

theorem write_confirms_once_witness:
  "\<exists>r n s w'. write_mutations 3 (log_commits aborted_once) [5, 6] ([], 0) =
     (Some r, n, s, (case r of Ok response \<Rightarrow> [response] | Err _ \<Rightarrow> []), w') \<and> is_ok r \<and> unat n \<le> 3"
proof -
  have "stops_at aborted_once 3"
    using basic_policy_stops [of aborted_once "\<lparr>bp_max_attempts = 3, bp_total_timeout = 0\<rparr>"] by (simp add: aborted_once_def)
  from write_confirms_once [OF this, of 3 "[5, 6]" 0] obtain r n s w' where
    run: "write_mutations 3 (log_commits aborted_once) [5, 6] ([], 0) =
      (Some r, n, s, (case r of Ok response \<Rightarrow> [response] | Err _ \<Rightarrow> []), w')" "unat n \<le> 3" by auto
  have "fst (write_mutations 3 (log_commits aborted_once) [5, 6] ([], 0)) = Some (Ok \<lparr>co_timestamp = Some 5, co_retry = None\<rparr>)"
    by code_simp
  with run show ?thesis by auto
qed

end
