(* ===== verification/Storage_Write.thy ===== *)
theory Storage_Write
  imports Storage_Read
begin

text \<open>
  Appendable uploads of Cloud Storage over one connection, the \<open>storage\<close> crate's
  \<open>bidi_write\<close> module: the buffer that coalesces small writes (\<open>coalescing_buffer.rs\<close>), the
  buffer of data that the service has not acknowledged (\<open>replay_buffer.rs\<close>), the specification of
  the object with its redirects (\<open>state.rs\<close>, \<open>redirect.rs\<close>, \<open>retry_redirect.rs\<close>) and the
  connector (\<open>connector.rs\<close>).

  Offsets are integers: no object has \<open>2 ^ 63\<close> bytes. CRC32C is a parameter, and so is what can be
  decoded from a gRPC status. A stream takes the requests that are sent on it until its receiving half
  is gone: \<open>bw_accepts\<close> is how many, and every later send fails. The parameters of the request
  that are the same in every attempt (\<open>CommonObjectRequestParams\<close>, the headers) are left out.
\<close>

section \<open>The coalescing buffer\<close>

definition MAX_WRITE_CHUNK_SIZE :: nat where "MAX_WRITE_CHUNK_SIZE = 2 * 1024 * 1024"

definition COALESCING_CHUNK_SIZE :: nat where "COALESCING_CHUNK_SIZE = MAX_WRITE_CHUNK_SIZE"

lemma chunk_size_pos [simp]: "0 < COALESCING_CHUNK_SIZE" "0 < MAX_WRITE_CHUNK_SIZE"
  by (simp_all add: COALESCING_CHUNK_SIZE_def MAX_WRITE_CHUNK_SIZE_def)

text \<open>The loop that slices complete chunks, and what is left.\<close>

function slice_chunks :: "bytes \<Rightarrow> bytes list \<times> bytes" where
  "slice_chunks chunk =
     (if COALESCING_CHUNK_SIZE \<le> length chunk
      then case slice_chunks (drop COALESCING_CHUNK_SIZE chunk) of
             (ready, rest) \<Rightarrow> (take COALESCING_CHUNK_SIZE chunk # ready, rest)
      else ([], chunk))"
  by pat_completeness auto
termination
  by (relation "measure length") (auto simp: COALESCING_CHUNK_SIZE_def MAX_WRITE_CHUNK_SIZE_def)

declare slice_chunks.simps [simp del]

definition coalesce_push :: "bytes \<Rightarrow> bytes \<Rightarrow> (bytes list \<times> bytes) run" where
  "coalesce_push buffer chunk =
     (if buffer \<noteq> [] then
        if COALESCING_CHUNK_SIZE < length buffer then Panic
        else
          let needed = COALESCING_CHUNK_SIZE - length buffer
          in if length chunk < needed then Ret ([], buffer @ chunk)
             else case slice_chunks (drop needed chunk) of
                    (ready, rest) \<Rightarrow> Ret ((buffer @ take needed chunk) # ready, rest)
      else Ret (slice_chunks chunk))"

definition coalesce_flush :: "bytes \<Rightarrow> bytes option \<times> bytes" where
  "coalesce_flush buffer = (if buffer = [] then (None, buffer) else (Some buffer, []))"

section \<open>Requests and responses\<close>

record object_resource =
  or_bucket :: string
  or_name :: string
  or_generation :: int
  or_size :: int
  or_finalize_time :: "int option"

datatype write_status = PersistedSize int | Resource object_resource

record write_response =
  wr_status :: "write_status option"
  wr_handle :: "bytes option"
  wr_persisted_crc32c :: "u32 option"

record write_object_spec =
  wo_resource :: "object_resource option"
  wo_predefined_acl :: string
  wo_if_generation_match :: "int option"
  wo_if_generation_not_match :: "int option"
  wo_if_metageneration_match :: "int option"
  wo_if_metageneration_not_match :: "int option"
  wo_object_size :: "int option"
  wo_appendable :: "bool option"

record append_object_spec =
  ao_bucket :: string
  ao_object :: string
  ao_generation :: int
  ao_write_handle :: "bytes option"
  ao_if_metageneration_match :: "int option"
  ao_if_metageneration_not_match :: "int option"
  ao_routing_token :: "string option"

datatype first_message = WriteSpec write_object_spec | AppendSpec append_object_spec

record write_request =
  rq_first_message :: "first_message option"
  rq_write_offset :: int
  rq_data :: "(bytes \<times> u32 option) option"
  rq_object_crc32c :: "u32 option"
  rq_state_lookup :: bool
  rq_flush :: bool
  rq_finish_write :: bool

definition request_default :: write_request where
  "request_default = \<lparr>rq_first_message = None, rq_write_offset = 0, rq_data = None, rq_object_crc32c = None,
     rq_state_lookup = False, rq_flush = False, rq_finish_write = False\<rparr>"

definition persisted_size :: "write_response \<Rightarrow> int option" where
  "persisted_size response =
     (case wr_status response of
        Some (PersistedSize s) \<Rightarrow> Some s
      | Some (Resource resource) \<Rightarrow> Some (or_size resource)
      | None \<Rightarrow> None)"

definition is_finalized :: "write_response \<Rightarrow> bool" where
  "is_finalized response =
     (case wr_status response of
        Some (Resource resource) \<Rightarrow> or_finalize_time resource \<noteq> None
      | _ \<Rightarrow> False)"

section \<open>The replay buffer\<close>

definition DEFAULT_REPLAY_BUFFER_SIZE :: nat where "DEFAULT_REPLAY_BUFFER_SIZE = 32 * 1024 * 1024"

definition MIN_REPLAY_BUFFER_SIZE :: nat where "MIN_REPLAY_BUFFER_SIZE = 2 * MAX_WRITE_CHUNK_SIZE + 1"

record replay_chunk =
  rc_write_offset :: int
  rc_data :: bytes
  rc_crc32c :: u32

definition chunk_end_offset :: "replay_chunk \<Rightarrow> int" where
  "chunk_end_offset c = rc_write_offset c + int (length (rc_data c))"

definition chunk_to_request :: "replay_chunk \<Rightarrow> write_request" where
  "chunk_to_request c = request_default\<lparr>rq_write_offset := rc_write_offset c,
     rq_data := Some (rc_data c, Some (rc_crc32c c))\<rparr>"

record replay_buffer =
  rb_queue :: "replay_chunk list"
  rb_unpersisted_bytes :: nat
  rb_capacity :: nat

definition replay_with_capacity :: "nat \<Rightarrow> replay_buffer" where
  "replay_with_capacity capacity =
     \<lparr>rb_queue = [], rb_unpersisted_bytes = 0, rb_capacity = max capacity MIN_REPLAY_BUFFER_SIZE\<rparr>"

definition replay_new :: replay_buffer where
  "replay_new = replay_with_capacity DEFAULT_REPLAY_BUFFER_SIZE"

definition replay_push :: "replay_chunk \<Rightarrow> replay_buffer \<Rightarrow> replay_buffer" where
  "replay_push c b = b\<lparr>rb_unpersisted_bytes := rb_unpersisted_bytes b + length (rc_data c),
     rb_queue := rb_queue b @ [c]\<rparr>"

text \<open>The loop over the chunks that are acknowledged as a whole, and the slice of the next one.\<close>

fun ack_loop :: "int \<Rightarrow> replay_chunk list \<Rightarrow> nat \<Rightarrow> replay_chunk list \<times> nat" where
  "ack_loop persisted [] n = ([], n)"
| "ack_loop persisted (front # q) n =
     (if chunk_end_offset front \<le> persisted then ack_loop persisted q (n - length (rc_data front))
      else (front # q, n))"

definition replay_ack :: "(bytes \<Rightarrow> u32) \<Rightarrow> int \<Rightarrow> replay_buffer \<Rightarrow> replay_buffer" where
  "replay_ack crc32c persisted b =
     (case ack_loop persisted (rb_queue b) (rb_unpersisted_bytes b) of
        (front # q, n) \<Rightarrow>
          (if rc_write_offset front < persisted then
             let trimmed = nat (persisted - rc_write_offset front);
                 data = drop trimmed (rc_data front)
             in b\<lparr>rb_queue := \<lparr>rc_write_offset = persisted, rc_data = data, rc_crc32c = crc32c data\<rparr> # q,
                  rb_unpersisted_bytes := n - trimmed\<rparr>
           else b\<lparr>rb_queue := front # q, rb_unpersisted_bytes := n\<rparr>)
      | ([], n) \<Rightarrow> b\<lparr>rb_queue := [], rb_unpersisted_bytes := n\<rparr>)"

definition replay_is_full :: "replay_buffer \<Rightarrow> bool" where
  "replay_is_full b \<longleftrightarrow> rb_capacity b \<le> rb_unpersisted_bytes b"

definition replay_end_offset :: "replay_buffer \<Rightarrow> int option" where
  "replay_end_offset b = (if rb_queue b = [] then None else Some (chunk_end_offset (last (rb_queue b))))"

section \<open>The specification of the object\<close>

datatype spec_state =
    SpecWrite write_object_spec "string option" "bytes option"
  | SpecAppend append_object_spec "bytes option"

record redirected_error =
  re_routing_token :: "string option"
  re_write_handle :: "bytes option"
  re_generation :: "int option"

definition spec_object :: "write_object_spec \<Rightarrow> string \<times> string" where
  "spec_object spec =
     (case wo_resource spec of None \<Rightarrow> ([], []) | Some r \<Rightarrow> (or_bucket r, or_name r))"

fun spec_handle_response :: "spec_state \<Rightarrow> write_response \<Rightarrow> spec_state" where
  "spec_handle_response (SpecWrite spec token chunk) m =
     SpecAppend \<lparr>ao_bucket = fst (spec_object spec), ao_object = snd (spec_object spec),
       ao_generation = (case wr_status m of Some (Resource r) \<Rightarrow> or_generation r | _ \<Rightarrow> 0),
       ao_write_handle = wr_handle m,
       ao_if_metageneration_match = wo_if_metageneration_match spec,
       ao_if_metageneration_not_match = wo_if_metageneration_not_match spec,
       ao_routing_token = token\<rparr> None"
| "spec_handle_response (SpecAppend spec chunk) m =
     (let spec1 = (case wr_status m of
            Some (Resource r) \<Rightarrow> spec\<lparr>ao_generation := or_generation r\<rparr> | _ \<Rightarrow> spec);
          spec2 = (if wr_handle m \<noteq> None then spec1\<lparr>ao_write_handle := wr_handle m\<rparr> else spec1)
      in SpecAppend spec2 None)"

fun spec_redirect :: "spec_state \<Rightarrow> redirected_error \<Rightarrow> spec_state" where
  "spec_redirect (SpecWrite spec token chunk) redirect =
     (case re_generation redirect of
        Some g \<Rightarrow>
          SpecAppend \<lparr>ao_bucket = fst (spec_object spec), ao_object = snd (spec_object spec),
            ao_generation = g, ao_write_handle = re_write_handle redirect,
            ao_if_metageneration_match = wo_if_metageneration_match spec,
            ao_if_metageneration_not_match = wo_if_metageneration_not_match spec,
            ao_routing_token = re_routing_token redirect\<rparr> chunk
      | None \<Rightarrow> SpecWrite spec (re_routing_token redirect) chunk)"
| "spec_redirect (SpecAppend spec chunk) redirect =
     (let spec1 = spec\<lparr>ao_routing_token := re_routing_token redirect\<rparr>;
          spec2 = (case re_write_handle redirect of
            Some h \<Rightarrow> spec1\<lparr>ao_write_handle := Some h\<rparr> | None \<Rightarrow> spec1);
          spec3 = (case re_generation redirect of
            Some g \<Rightarrow> spec2\<lparr>ao_generation := g\<rparr> | None \<Rightarrow> spec2)
      in SpecAppend spec3 chunk)"

text \<open>What the code reads off a gRPC status: the error for the application and the redirect in its
  details; and the status behind an error.\<close>

record 'st statuses =
  st_error :: "'st \<Rightarrow> error"
  st_redirect :: "'st \<Rightarrow> redirected_error option"
  st_inner :: "error \<Rightarrow> 'st option"

definition spec_handle_redirect :: "'st statuses \<Rightarrow> spec_state \<Rightarrow> 'st \<Rightarrow> error \<times> spec_state" where
  "spec_handle_redirect st spec status =
     (st_error st status,
      case st_redirect st status of None \<Rightarrow> spec | Some redirect \<Rightarrow> spec_redirect spec redirect)"

definition write_is_redirect :: "'st statuses \<Rightarrow> error \<Rightarrow> bool" where
  "write_is_redirect st e =
     (case error_status e of
        None \<Rightarrow> False
      | Some s \<Rightarrow>
          (if status_code s \<noteq> Aborted then False
           else case st_inner st e of None \<Rightarrow> False | Some status \<Rightarrow> st_redirect st status \<noteq> None))"


section \<open>The connector\<close>

text \<open>
  \<open>RetryRedirect\<close> counts the redirects in an atomic \<open>u32\<close>; the methods take and return the
  count.
\<close>

definition MAX_REDIRECTS_FOLLOWED :: u32 where "MAX_REDIRECTS_FOLLOWED = 3"

definition counted_redirect_on_error ::
  "'st statuses \<Rightarrow> retry_policy \<Rightarrow> u32 \<Rightarrow> instant \<Rightarrow> retry_state \<Rightarrow> error \<Rightarrow> (retry_result \<times> u32) run" where
  "counted_redirect_on_error st inner followed now state e =
     map_run (\<lambda>r.
       if \<not> write_is_redirect st e then (r, followed)
       else if followed < MAX_REDIRECTS_FOLLOWED then
         (case r of Continue e' \<Rightarrow> Continue e' | Permanent e' \<Rightarrow> Continue e' | Exhausted e' \<Rightarrow> Continue e',
          followed + 1)
       else
         (case r of Continue e' \<Rightarrow> Exhausted e' | Exhausted e' \<Rightarrow> Exhausted e' | Permanent e' \<Rightarrow> Permanent e',
          followed + 1))
     (on_error inner now state e)"

text \<open>A stream: the requests it has taken, and how many it takes before it is gone.\<close>

record connection =
  bw_sent :: "write_request list"
  bw_accepts :: nat

definition bw_closed :: "connection \<Rightarrow> bool" where
  "bw_closed cn \<longleftrightarrow> bw_accepts cn \<le> length (bw_sent cn)"

definition bw_send :: "write_request \<Rightarrow> connection \<Rightarrow> bool \<times> connection" where
  "bw_send r cn = (if bw_closed cn then (False, cn) else (True, cn\<lparr>bw_sent := bw_sent cn @ [r]\<rparr>))"

record write_connector =
  wc_spec :: spec_state
  wc_retry_state :: "retry_state option"
  wc_redirects :: "u32 option"
  wc_last_persisted_size :: int

text \<open>What the service does with one attempt to open the stream.\<close>

datatype 'st connect_outcome =
    StartError error
  | StartStatus 'st
  | FirstMessage write_response nat
  | ClosedBeforeStart
  | FirstStatus 'st
  | AttemptTimeout error

definition BUCKET_PREFIX :: string where "BUCKET_PREFIX = ''projects/_/buckets/''"

definition spec_bucket :: "spec_state \<Rightarrow> string" where
  "spec_bucket spec =
     (case spec of
        SpecWrite s _ _ \<Rightarrow> (case wo_resource s of Some r \<Rightarrow> or_bucket r | None \<Rightarrow> [])
      | SpecAppend s _ \<Rightarrow> ao_bucket s)"

definition invalid_bucket :: "string \<Rightarrow> bool" where
  "invalid_bucket b \<longleftrightarrow> \<not> (starts_with b BUCKET_PREFIX \<and> drop (length BUCKET_PREFIX) b \<noteq> [])"

definition opening_request :: "(bytes \<Rightarrow> u32) \<Rightarrow> spec_state \<Rightarrow> write_request" where
  "opening_request crc32c spec =
     (let (first_message, initial_chunk) =
        (case spec of SpecWrite s _ chunk \<Rightarrow> (WriteSpec s, chunk) | SpecAppend s chunk \<Rightarrow> (AppendSpec s, chunk))
      in request_default\<lparr>rq_first_message := Some first_message,
           rq_data := (case initial_chunk of
             Some chunk \<Rightarrow> if chunk = [] then None else Some (chunk, Some (crc32c chunk)) | None \<Rightarrow> None),
           rq_state_lookup := (case spec of SpecWrite _ _ _ \<Rightarrow> False | SpecAppend _ _ \<Rightarrow> True)\<rparr>)"

definition prepare_request ::
  "(bytes \<Rightarrow> u32) \<Rightarrow> (string \<Rightarrow> box_error) \<Rightarrow> spec_state \<Rightarrow> (error, write_request) result" where
  "prepare_request crc32c mismatch spec =
     (if invalid_bucket (spec_bucket spec) then Err (binding (mismatch (spec_bucket spec)))
      else Ok (opening_request crc32c spec))"

definition connect_attempt ::
  "(bytes \<Rightarrow> u32) \<Rightarrow> (string \<Rightarrow> box_error) \<Rightarrow> 'st statuses \<Rightarrow> spec_state \<Rightarrow> 'st connect_outcome \<Rightarrow>
   (error, write_response \<times> connection) result \<times> spec_state" where
  "connect_attempt crc32c mismatch st spec outcome =
     (case prepare_request crc32c mismatch spec of
        Err e \<Rightarrow> (Err e, spec)
      | Ok request \<Rightarrow>
          (case outcome of
             StartError e \<Rightarrow> (Err e, spec)
           | AttemptTimeout e \<Rightarrow> (Err e, spec)
           | StartStatus status \<Rightarrow> (case spec_handle_redirect st spec status of (e, spec') \<Rightarrow> (Err e, spec'))
           | FirstStatus status \<Rightarrow> (case spec_handle_redirect st spec status of (e, spec') \<Rightarrow> (Err e, spec'))
           | ClosedBeforeStart \<Rightarrow>
               (Err (io (MsgError ''bidi_write_object stream closed before start'')), spec)
           | FirstMessage m n \<Rightarrow>
               (Ok (m, \<lparr>bw_sent = [request], bw_accepts = Suc n\<rparr>), spec_handle_response spec m)))"

text \<open>
  The retry loop around the attempts, on the outcomes of the attempts it makes: it returns at the first
  success or with the error of the last attempt. Its policy sees every error but counts only redirects;
  when it stops is the subject of \<open>Retry_Loop\<close>.
\<close>

fun connect_attempt_loop ::
  "(bytes \<Rightarrow> u32) \<Rightarrow> (string \<Rightarrow> box_error) \<Rightarrow> 'st statuses \<Rightarrow> 'st connect_outcome list \<Rightarrow> error \<Rightarrow>
   spec_state \<Rightarrow> u32 \<Rightarrow> (error, write_response \<times> connection) result \<times> spec_state \<times> u32" where
  "connect_attempt_loop crc32c mismatch st [] stopped spec followed = (Err stopped, spec, followed)"
| "connect_attempt_loop crc32c mismatch st (x # xs) stopped spec followed =
     (case connect_attempt crc32c mismatch st spec x of
        (Ok r, spec') \<Rightarrow> (Ok r, spec', followed)
      | (Err e, spec') \<Rightarrow>
          connect_attempt_loop crc32c mismatch st xs e spec'
            (if write_is_redirect st e then followed + 1 else followed))"

text \<open>The environment of one reconnect: the clock, the backoff and the attempts that are made.\<close>

record 'st reconnect_env =
  rn_now :: instant
  rn_outcomes :: "'st connect_outcome list"
  rn_stopped :: error

record 'st write_options =
  op_crc32c :: "bytes \<Rightarrow> u32"
  op_mismatch :: "string \<Rightarrow> box_error"
  op_statuses :: "'st statuses"
  op_policy :: retry_policy
  op_backoff :: "retry_state \<Rightarrow> duration"

definition reset_budget :: "int \<Rightarrow> write_connector \<Rightarrow> write_connector" where
  "reset_budget persisted c =
     (if wc_last_persisted_size c < persisted
      then c\<lparr>wc_last_persisted_size := persisted, wc_retry_state := None, wc_redirects := None\<rparr> else c)"

text \<open>The retry state that counts the failure of a stream that was not redirected.\<close>

definition counted_failure :: "instant \<Rightarrow> write_connector \<Rightarrow> retry_state" where
  "counted_failure now c =
     (let state = (case wc_retry_state c of Some s \<Rightarrow> s | None \<Rightarrow> set_start (retry_state_new now True) now)
      in state\<lparr>attempt_count := attempt_count state + 1\<rparr>)"

text \<open>What the policy's answer means: the error that ends the upload, or another attempt, unless the
  backoff is longer than the time that remains.\<close>

fun follow_redirect :: "retry_result \<Rightarrow> (error, unit) result" where
  "follow_redirect (Continue e) = Ok ()"
| "follow_redirect (Permanent e) = Err e"
| "follow_redirect (Exhausted e) = Err e"

fun back_off :: "'st write_options \<Rightarrow> instant \<Rightarrow> retry_state \<Rightarrow> retry_result \<Rightarrow> (error, unit) result run" where
  "back_off opts now state (Continue e) =
     map_run (\<lambda>remaining.
       if is_some_and (\<lambda>t. t < op_backoff opts state) remaining then Err (exhausted (GaxError e)) else Ok ())
     (remaining_time (op_policy opts) now state)"
| "back_off opts now state (Permanent e) = Ret (Err e)"
| "back_off opts now state (Exhausted e) = Ret (Err e)"

definition may_reconnect ::
  "'st write_options \<Rightarrow> instant \<Rightarrow> error \<Rightarrow> write_connector \<Rightarrow> ((error, unit) result \<times> write_connector) run" where
  "may_reconnect opts now last_error c =
     (let followed = (case wc_redirects c of Some n \<Rightarrow> n | None \<Rightarrow> 0);
          decide = counted_redirect_on_error (op_statuses opts) (op_policy opts) followed now
      in if write_is_redirect (op_statuses opts) last_error then
           map_run (\<lambda>(r, followed'). (follow_redirect r, c\<lparr>wc_redirects := Some followed'\<rparr>))
             (decide (retry_state_new now True) last_error)
         else
           let state = counted_failure now c
           in bind_run (decide state last_error) (\<lambda>(r, followed').
                map_run (\<lambda>r'. (r', c\<lparr>wc_redirects := Some followed', wc_retry_state := Some state\<rparr>))
                  (back_off opts now state r)))"

definition write_connector_reconnect ::
  "'st write_options \<Rightarrow> 'st reconnect_env \<Rightarrow> error \<Rightarrow> int \<Rightarrow> write_connector \<Rightarrow>
   ((error, write_response \<times> connection) result \<times> write_connector) run" where
  "write_connector_reconnect opts env last_error persisted c =
     (let st = op_statuses opts;
          (last_error, spec) =
            (case st_inner st last_error of
               Some status \<Rightarrow> spec_handle_redirect st (wc_spec c) status
             | None \<Rightarrow> (last_error, wc_spec c));
          c1 = reset_budget persisted (c\<lparr>wc_spec := spec\<rparr>)
      in bind_run (may_reconnect opts (rn_now env) last_error c1) (\<lambda>(r, c2).
           case r of
             Err e \<Rightarrow> Ret (Err e, c2)
           | Ok _ \<Rightarrow>
               (case connect_attempt_loop (op_crc32c opts) (op_mismatch opts) st (rn_outcomes env)
                       (rn_stopped env) (wc_spec c2) (the (wc_redirects c2)) of
                  (Err e, spec', followed) \<Rightarrow> Ret (Err e, c2\<lparr>wc_spec := spec', wc_redirects := Some followed\<rparr>)
                | (Ok (initial, cn), spec', followed) \<Rightarrow>
                    (let c3 = c2\<lparr>wc_spec := spec', wc_redirects := Some followed\<rparr>
                     in Ret (Ok (initial, cn),
                          case persisted_size initial of Some p \<Rightarrow> reset_budget p c3 | None \<Rightarrow> c3)))))"


section \<open>Coalescing keeps the bytes\<close>

lemma slice_chunks_spec:
  "slice_chunks chunk = (ready, rest) \<Longrightarrow> concat ready @ rest = chunk \<and> length rest < COALESCING_CHUNK_SIZE \<and>
     list_all (\<lambda>c. length c = COALESCING_CHUNK_SIZE) ready"
proof (induction chunk arbitrary: ready rest rule: slice_chunks.induct)
  case (1 chunk)
  show ?case
  proof (cases "COALESCING_CHUNK_SIZE \<le> length chunk")
    case True
    obtain rs r where rec: "slice_chunks (drop COALESCING_CHUNK_SIZE chunk) = (rs, r)" by fastforce
    then have "slice_chunks chunk = (take COALESCING_CHUNK_SIZE chunk # rs, r)"
      using True by (simp add: slice_chunks.simps [of chunk])
    with "1.IH" [OF True rec] "1.prems" True show ?thesis by auto
  next
    case False
    with "1.prems" show ?thesis by (simp add: slice_chunks.simps [of chunk])
  qed
qed

text \<open>
  The coalescing buffer neither loses nor reorders bytes: what comes out, followed by what stays, is
  what was there followed by what came in. Chunks come out whole, and less than a chunk stays.
\<close>

lemma coalesce_push_spec:
  assumes "length buffer < COALESCING_CHUNK_SIZE"
  shows "\<exists>ready rest. coalesce_push buffer chunk = Ret (ready, rest) \<and> concat ready @ rest = buffer @ chunk \<and>
    length rest < COALESCING_CHUNK_SIZE \<and> list_all (\<lambda>c. length c = COALESCING_CHUNK_SIZE) ready"
proof (cases "buffer = []")
  case True
  obtain rs r where "slice_chunks chunk = (rs, r)" by fastforce
  with slice_chunks_spec [OF this] True show ?thesis by (simp add: coalesce_push_def)
next
  case False
  let ?n = "COALESCING_CHUNK_SIZE - length buffer"
  obtain rs r where s: "slice_chunks (drop ?n chunk) = (rs, r)" by fastforce
  from slice_chunks_spec [OF s] s False assms show ?thesis
    by (auto simp: coalesce_push_def Let_def)
qed


section \<open>The replay buffer holds a window of the data\<close>

text \<open>
  Seen from outside the replay buffer is a position and the bytes from there on: its chunks are
  contiguous, their checksums are right and the count of bytes is exact.
\<close>

fun chunks_from :: "int \<Rightarrow> replay_chunk list \<Rightarrow> bool" where
  "chunks_from p [] \<longleftrightarrow> True"
| "chunks_from p (c # cs) \<longleftrightarrow> rc_write_offset c = p \<and> chunks_from (chunk_end_offset c) cs"

definition queue_data :: "replay_chunk list \<Rightarrow> bytes" where
  "queue_data cs = concat (map rc_data cs)"

definition checked_chunks :: "(bytes \<Rightarrow> u32) \<Rightarrow> replay_chunk list \<Rightarrow> bool" where
  "checked_chunks crc32c cs \<longleftrightarrow> list_all (\<lambda>c. rc_crc32c c = crc32c (rc_data c)) cs"

definition replay_holds :: "(bytes \<Rightarrow> u32) \<Rightarrow> replay_buffer \<Rightarrow> int \<Rightarrow> bytes \<Rightarrow> bool" where
  "replay_holds crc32c b p d \<longleftrightarrow> chunks_from p (rb_queue b) \<and> queue_data (rb_queue b) = d \<and>
     checked_chunks crc32c (rb_queue b) \<and> rb_unpersisted_bytes b = length d"

lemma queue_data_simps [simp]:
  "queue_data [] = []" "queue_data (c # cs) = rc_data c @ queue_data cs"
  "queue_data (cs @ ds) = queue_data cs @ queue_data ds"
  by (simp_all add: queue_data_def)

lemma checked_chunks_simps [simp]:
  "checked_chunks crc32c []"
  "checked_chunks crc32c (c # cs) \<longleftrightarrow> rc_crc32c c = crc32c (rc_data c) \<and> checked_chunks crc32c cs"
  "checked_chunks crc32c (cs @ ds) \<longleftrightarrow> checked_chunks crc32c cs \<and> checked_chunks crc32c ds"
  by (simp_all add: checked_chunks_def)

lemma chunks_from_append:
  "chunks_from p (cs @ ds) \<longleftrightarrow> chunks_from p cs \<and> chunks_from (p + int (length (queue_data cs))) ds"
  by (induction cs arbitrary: p) (auto simp: chunk_end_offset_def algebra_simps)

lemma chunks_from_last:
  "chunks_from p cs \<Longrightarrow> cs \<noteq> [] \<Longrightarrow> chunk_end_offset (last cs) = p + int (length (queue_data cs))"
  by (induction cs arbitrary: p) (auto simp: chunk_end_offset_def)

lemma replay_holds_new: "replay_holds crc32c (replay_with_capacity n) p []"
  by (simp add: replay_holds_def replay_with_capacity_def)

lemma replay_holds_push:
  assumes "replay_holds crc32c b p d" "rc_write_offset c = p + int (length d)" "rc_crc32c c = crc32c (rc_data c)"
  shows "replay_holds crc32c (replay_push c b) p (d @ rc_data c)"
  using assms by (auto simp: replay_holds_def replay_push_def chunks_from_append)

lemma replay_end_offset_holds:
  assumes "replay_holds crc32c b p d"
  shows "replay_end_offset b = (if rb_queue b = [] then None else Some (p + int (length d)))"
  using assms chunks_from_last by (auto simp: replay_holds_def replay_end_offset_def)

lemma ack_loop_holds:
  assumes "chunks_from p cs" "checked_chunks crc32c cs" "p \<le> q" "q \<le> p + int (length (queue_data cs))"
  shows "\<exists>p' cs' n'. ack_loop q cs (length (queue_data cs)) = (cs', n') \<and> p \<le> p' \<and> p' \<le> q \<and> chunks_from p' cs' \<and>
    checked_chunks crc32c cs' \<and> queue_data cs' = drop (nat (p' - p)) (queue_data cs) \<and>
    n' = length (queue_data cs') \<and> (if cs' = [] then p' = q else q < chunk_end_offset (hd cs'))"
  using assms
proof (induction cs arbitrary: p)
  case Nil
  then show ?case by (intro exI [of _ p] exI) auto
next
  case (Cons c cs)
  show ?case
  proof (cases "chunk_end_offset c \<le> q")
    case True
    have e: "chunk_end_offset c = p + int (length (rc_data c))" using Cons.prems(1) by (simp add: chunk_end_offset_def)
    obtain p' cs' n' where "ack_loop q cs (length (queue_data cs)) = (cs', n')" "chunk_end_offset c \<le> p'" "p' \<le> q"
      "chunks_from p' cs'" "checked_chunks crc32c cs'"
      "queue_data cs' = drop (nat (p' - chunk_end_offset c)) (queue_data cs)"
      "n' = length (queue_data cs')" "if cs' = [] then p' = q else q < chunk_end_offset (hd cs')"
      using Cons.IH [of "chunk_end_offset c"] Cons.prems True e by auto
    moreover from this e have "nat (p' - p) = length (rc_data c) + nat (p' - chunk_end_offset c)" by auto
    ultimately show ?thesis using True e
      by (intro exI [of _ p'] exI [of _ cs'] exI [of _ n']) auto
  next
    case False
    with Cons.prems show ?thesis by (intro exI [of _ p] exI) auto
  qed
qed

text \<open>Acknowledging a position moves the window there, and never counts below zero.\<close>

lemma replay_holds_ack:
  assumes "replay_holds crc32c b p d" "p \<le> q" "q \<le> p + int (length d)"
  shows "replay_holds crc32c (replay_ack crc32c q b) q (drop (nat (q - p)) d)"
proof -
  obtain p' cs' n' where a: "ack_loop q (rb_queue b) (length d) = (cs', n')" "p \<le> p'" "p' \<le> q" "chunks_from p' cs'"
    "checked_chunks crc32c cs'" "queue_data cs' = drop (nat (p' - p)) d" "n' = length (queue_data cs')"
    "if cs' = [] then p' = q else q < chunk_end_offset (hd cs')"
    using ack_loop_holds [of p "rb_queue b" crc32c q] assms by (auto simp: replay_holds_def)
  have u: "rb_unpersisted_bytes b = length d" using assms(1) by (simp add: replay_holds_def)
  show ?thesis
  proof (cases cs')
    case Nil
    with a u show ?thesis by (auto simp: replay_ack_def replay_holds_def)
  next
    case (Cons f fs)
    let ?t = "nat (q - p')"
    have f: "rc_write_offset f = p'" "chunks_from (chunk_end_offset f) fs" "q < p' + int (length (rc_data f))"
      using a(4,8) Cons by (auto simp: chunk_end_offset_def)
    have d: "drop (nat (q - p)) d = drop ?t (rc_data f) @ queue_data fs"
    proof -
      have "nat (q - p) = nat (p' - p) + ?t" using a(2,3) by auto
      then have "drop (nat (q - p)) d = drop ?t (queue_data cs')" by (simp add: a(6) add.commute)
      then show ?thesis using f(3) Cons a(3) by simp
    qed
    show ?thesis
    proof (cases "p' = q")
      case True
      then show ?thesis using a u Cons f d by (auto simp: replay_ack_def replay_holds_def)
    next
      case False
      then have "p' < q" "chunks_from (int (length (rc_data f)) + p') fs"
        using a(3) f by (simp_all add: chunk_end_offset_def add.commute)
      then show ?thesis using a u Cons f d
        by (auto simp: replay_ack_def replay_holds_def Let_def chunk_end_offset_def of_nat_diff)
    qed
  qed
qed

lemma replay_ack_capacity [simp]: "rb_capacity (replay_ack crc32c q b) = rb_capacity b"
  by (simp add: replay_ack_def Let_def split: prod.split list.split)

lemma replay_push_capacity [simp]: "rb_capacity (replay_push c b) = rb_capacity b"
  by (simp add: replay_push_def)

end
