(* ===== verification/Storage_Write_Worker.thy ===== *)
theory Storage_Write_Worker
  imports Storage_Write "HOL-Library.Sublist" "HOL-Library.Multiset"
begin

text \<open>
  The worker of appendable uploads, \<open>storage/src/storage/bidi_write/worker.rs\<close>: it owns the
  stream, keeps what the service has not acknowledged, answers flushes and finalizes, and replaces a
  broken stream. The invariants are those of its buffers and of its runs.
\<close>

section \<open>The worker\<close>

text \<open>
  Senders of answers are numbers, and \<open>wk_answers\<close> is the list of what was sent on them;
  \<open>None\<close> is a sender that was dropped.
\<close>

datatype upload_intent =
    IntentAppend write_request
  | IntentFlush write_request nat
  | IntentFinalize write_request nat

datatype response_origin = FromStream | FromHandshake

datatype pending_kind = PendFlush | PendFinalize

record pending_request =
  pd_kind :: pending_kind
  pd_request :: write_request
  pd_sender :: nat

record write_worker =
  ww_connector :: write_connector
  ww_replay :: replay_buffer
  ww_pending :: "pending_request list"
  ww_persisted :: int
  ww_finalized :: bool
  ww_self_flush :: bool
  ww_answers :: "(nat \<times> (error, write_response) result option) list"

definition worker_with_replay_buffer :: "write_connector \<Rightarrow> replay_buffer \<Rightarrow> write_worker" where
  "worker_with_replay_buffer c b = \<lparr>ww_connector = c, ww_replay = b, ww_pending = [], ww_persisted = 0,
     ww_finalized = False, ww_self_flush = False, ww_answers = []\<rparr>"

definition with_persisted_size :: "int \<Rightarrow> write_worker \<Rightarrow> write_worker" where
  "with_persisted_size p w = w\<lparr>ww_persisted := p\<rparr>"

definition pending_is_satisfied :: "pending_request \<Rightarrow> write_response \<Rightarrow> int \<Rightarrow> bool" where
  "pending_is_satisfied p response persisted =
     (if persisted < rq_write_offset (pd_request p) then False
      else case pd_kind p of PendFlush \<Rightarrow> \<not> is_finalized response | PendFinalize \<Rightarrow> is_finalized response)"

definition pending_complete :: "pending_request \<Rightarrow> (error, write_response) result \<Rightarrow> write_worker \<Rightarrow> write_worker" where
  "pending_complete p r w = w\<lparr>ww_answers := ww_answers w @ [(pd_sender p, Some r)]\<rparr>"

definition above_watermark :: "replay_buffer \<Rightarrow> bool" where
  "above_watermark b \<longleftrightarrow> rb_capacity b - 2 * MAX_WRITE_CHUNK_SIZE \<le> rb_unpersisted_bytes b"

definition needs_watermark_flush :: "write_worker \<Rightarrow> bool" where
  "needs_watermark_flush w \<longleftrightarrow> \<not> ww_self_flush w \<and> ww_pending w = [] \<and> above_watermark (ww_replay w)"

fun process_intent :: "(bytes \<Rightarrow> u32) \<Rightarrow> upload_intent \<Rightarrow> write_worker \<Rightarrow> (write_request \<times> write_worker) run" where
  "process_intent crc32c (IntentAppend req) w =
     (let w1 = (case rq_data req of
            Some (content, crc) \<Rightarrow>
              w\<lparr>ww_replay := replay_push \<lparr>rc_write_offset = rq_write_offset req, rc_data = content,
                 rc_crc32c = (case crc of Some x \<Rightarrow> x | None \<Rightarrow> crc32c content)\<rparr> (ww_replay w)\<rparr>
          | None \<Rightarrow> w)
      in if needs_watermark_flush w1
         then Ret (req\<lparr>rq_flush := True, rq_state_lookup := True\<rparr>, w1\<lparr>ww_self_flush := True\<rparr>)
         else Ret (req, w1))"
| "process_intent crc32c (IntentFlush req sender) w =
     (if \<not> rq_state_lookup req \<or> \<not> rq_flush req then Panic
      else Ret (req, w\<lparr>ww_pending := ww_pending w @ [\<lparr>pd_kind = PendFlush, pd_request = req, pd_sender = sender\<rparr>]\<rparr>))"
| "process_intent crc32c (IntentFinalize req sender) w =
     (if \<not> rq_flush req \<or> \<not> rq_finish_write req then Panic
      else Ret (req, w\<lparr>ww_finalized := True,
        ww_pending := ww_pending w @ [\<lparr>pd_kind = PendFinalize, pd_request = req, pd_sender = sender\<rparr>]\<rparr>))"

text \<open>The requests at the front that a response satisfies are answered with it.\<close>

fun complete_satisfied :: "pending_request list \<Rightarrow> write_response \<Rightarrow> int \<Rightarrow> write_worker \<Rightarrow> write_worker" where
  "complete_satisfied [] response persisted w = w\<lparr>ww_pending := []\<rparr>"
| "complete_satisfied (p # ps) response persisted w =
     (if pending_is_satisfied p response persisted
      then complete_satisfied ps response persisted (pending_complete p (Ok response) w)
      else w\<lparr>ww_pending := p # ps\<rparr>)"

definition max_sent_offset :: "write_worker \<Rightarrow> int" where
  "max_sent_offset w =
     max (max (ww_persisted w) (case replay_end_offset (ww_replay w) of Some e \<Rightarrow> e | None \<Rightarrow> 0))
       (if ww_pending w = [] then 0 else rq_write_offset (pd_request (last (ww_pending w))))"

definition regressed_error :: "int \<Rightarrow> int \<Rightarrow> error" where
  "regressed_error p q = io (MsgError (''server persisted_size ('' @ idec p @
     '') regressed below acknowledged offset ('' @ idec q @ '')''))"

definition exceeded_error :: "int \<Rightarrow> int \<Rightarrow> error" where
  "exceeded_error p q = io (MsgError (''server persisted_size ('' @ idec p @
     '') exceeded highest sent write offset ('' @ idec q @ '')''))"

definition already_finalized_error :: error where
  "already_finalized_error = io (MsgError ''object is already finalized'')"

text \<open>What every response is noted for: a response to the worker's own lookup, and the latest handle.\<close>

definition note_response :: "write_response \<Rightarrow> response_origin \<Rightarrow> write_worker \<Rightarrow> write_worker" where
  "note_response response origin w =
     (let w1 = w\<lparr>ww_self_flush := False\<rparr>;
          c = ww_connector w1
      in if origin = FromStream
         then w1\<lparr>ww_connector := c\<lparr>wc_spec := spec_handle_response (wc_spec c) response\<rparr>\<rparr> else w1)"

definition write_response_success ::
  "(bytes \<Rightarrow> u32) \<Rightarrow> write_response \<Rightarrow> response_origin \<Rightarrow> write_worker \<Rightarrow> (error, unit) result \<times> write_worker" where
  "write_response_success crc32c response origin w =
     (let w2 = note_response response origin w
      in case persisted_size response of
           None \<Rightarrow> (Ok (), w2)
         | Some p \<Rightarrow>
             (if p < ww_persisted w2 then (Err (regressed_error p (ww_persisted w2)), w2)
              else if max_sent_offset w2 < p then (Err (exceeded_error p (max_sent_offset w2)), w2)
              else
                let w3 = w2\<lparr>ww_persisted := p, ww_replay := replay_ack crc32c p (ww_replay w2)\<rparr>;
                    w4 = complete_satisfied (ww_pending w3) response p w3
                in if is_finalized response \<and> (\<not> ww_finalized w4 \<or> ww_pending w4 \<noteq> [])
                   then (Err already_finalized_error, w4) else (Ok (), w4)))"

definition maybe_send_watermark_flush :: "write_worker \<Rightarrow> connection \<Rightarrow> write_worker \<times> connection" where
  "maybe_send_watermark_flush w cn =
     (if needs_watermark_flush w then
        case replay_end_offset (ww_replay w) of
          None \<Rightarrow> (w, cn)
        | Some write_offset \<Rightarrow>
            (case bw_send (request_default\<lparr>rq_write_offset := write_offset, rq_flush := True, rq_state_lookup := True\<rparr>) cn of
               (sent, cn') \<Rightarrow> (if sent then w\<lparr>ww_self_flush := True\<rparr> else w, cn'))
      else (w, cn))"

text \<open>Sending until the first failure.\<close>

fun send_all :: "write_request list \<Rightarrow> connection \<Rightarrow> bool \<times> connection" where
  "send_all [] cn = (True, cn)"
| "send_all (r # rs) cn = (case bw_send r cn of (sent, cn') \<Rightarrow> if sent then send_all rs cn' else (False, cn'))"

definition worker_reconnect_write ::
  "'st write_options \<Rightarrow> 'st reconnect_env \<Rightarrow> error \<Rightarrow> write_worker \<Rightarrow> ((error, connection) result \<times> write_worker) run" where
  "worker_reconnect_write opts env last_error w =
     (let w1 = w\<lparr>ww_self_flush := False\<rparr>
      in map_run (\<lambda>(r, c).
        let w2 = w1\<lparr>ww_connector := c\<rparr>
        in case r of
             Err e \<Rightarrow> (Err e, w2)
           | Ok (initial, cn) \<Rightarrow>
               (case write_response_success (op_crc32c opts) initial FromHandshake w2 of
                  (Err e, w3) \<Rightarrow> (Err e, w3)
                | (Ok _, w3) \<Rightarrow>
                    (case send_all (map chunk_to_request (rb_queue (ww_replay w3))) cn of
                       (False, cn1) \<Rightarrow> (Ok cn1, w3)
                     | (True, cn1) \<Rightarrow>
                         (case send_all (map pd_request (ww_pending w3)) cn1 of
                            (False, cn2) \<Rightarrow> (Ok cn2, w3)
                          | (True, cn2) \<Rightarrow>
                              (case maybe_send_watermark_flush w3 cn2 of (w4, cn3) \<Rightarrow> (Ok cn3, w4))))))
        (write_connector_reconnect opts env last_error (ww_persisted w) (ww_connector w1)))"

datatype response_action = ContinueStream | Reconnected connection | Finished

definition worker_handle_response ::
  "'st write_options \<Rightarrow> 'st reconnect_env \<Rightarrow> ('st, write_response option) result \<Rightarrow> write_worker \<Rightarrow>
   ((error, response_action) result \<times> write_worker) run" where
  "worker_handle_response opts env message w =
     (let reconnect = (\<lambda>e. map_run (\<lambda>(r, w').
            (case r of Ok cn \<Rightarrow> Ok (Reconnected cn) | Err e' \<Rightarrow> Err e', w')) (worker_reconnect_write opts env e w))
      in case message of
           Ok (Some response) \<Rightarrow>
             (case write_response_success (op_crc32c opts) response FromStream w of
                (Err e, w') \<Rightarrow> Ret (Err e, w')
              | (Ok _, w') \<Rightarrow> Ret (Ok ContinueStream, w'))
         | Ok None \<Rightarrow>
             (if ww_pending w \<noteq> [] \<or> \<not> ww_finalized w
              then reconnect (io (MsgError ''stream closed unexpectedly''))
              else Ret (Ok Finished, w))
         | Err status \<Rightarrow>
             (if ww_finalized w \<and> ww_pending w = [] then Ret (Ok Finished, w)
              else reconnect (st_error (op_statuses opts) status)))"


text \<open>
  The loop of \<open>run\<close> as a step function on events: a message or the end of the stream (with the
  environment of the reconnect it may lead to), an intent from the application, and the end of the
  intents. An intent is only taken while the replay buffer is not full. After the last intent the worker
  reads the stream to its end; after an error it answers the requests and the queued intents with it.
  When it returns, the senders it still has are dropped.
\<close>

datatype 'st write_event =
    Received "('st, write_response option) result" "'st reconnect_env"
  | NewIntent upload_intent
  | IntentsClosed

datatype write_phase = Streaming connection | Closing | Failing error | Stopped "error option"

type_synonym write_run = "write_phase \<times> write_worker"

definition fail_run :: "error \<Rightarrow> write_worker \<Rightarrow> write_run" where
  "fail_run e w =
     (Failing e, w\<lparr>ww_answers := ww_answers w @ map (\<lambda>p. (pd_sender p, Some (Err (ser (GaxError e))))) (ww_pending w),
        ww_pending := []\<rparr>)"

definition stop_run :: "write_worker \<Rightarrow> write_run" where
  "stop_run w =
     (Stopped None, w\<lparr>ww_answers := ww_answers w @ map (\<lambda>p. (pd_sender p, None)) (ww_pending w), ww_pending := []\<rparr>)"

fun answer_intent :: "(error, write_response) result option \<Rightarrow> upload_intent \<Rightarrow> write_worker \<Rightarrow> write_worker" where
  "answer_intent r (IntentAppend req) w = w"
| "answer_intent r (IntentFlush req sender) w = w\<lparr>ww_answers := ww_answers w @ [(sender, r)]\<rparr>"
| "answer_intent r (IntentFinalize req sender) w = w\<lparr>ww_answers := ww_answers w @ [(sender, r)]\<rparr>"

definition closing_response ::
  "'st write_options \<Rightarrow> ('st, write_response option) result \<Rightarrow> write_worker \<Rightarrow> write_run" where
  "closing_response opts message w =
     (case message of
        Ok (Some response) \<Rightarrow>
          (case write_response_success (op_crc32c opts) response FromStream w of
             (Err e, w') \<Rightarrow> fail_run e w'
           | (Ok _, w') \<Rightarrow> (Closing, w'))
      | Ok None \<Rightarrow> stop_run w
      | Err status \<Rightarrow>
          (if ww_finalized w \<and> ww_pending w = [] then stop_run w
           else fail_run (st_error (op_statuses opts) status) w))"

fun write_step :: "'st write_options \<Rightarrow> 'st write_event \<Rightarrow> write_run \<Rightarrow> write_run run" where
  "write_step opts (Received message env) (Streaming cn, w) =
     map_run (\<lambda>(r, w').
       case r of
         Err e \<Rightarrow> fail_run e w'
       | Ok Finished \<Rightarrow> stop_run w'
       | Ok (Reconnected cn') \<Rightarrow> (Streaming cn', w')
       | Ok ContinueStream \<Rightarrow> (case maybe_send_watermark_flush w' cn of (w'', cn') \<Rightarrow> (Streaming cn', w'')))
     (worker_handle_response opts env message w)"
| "write_step opts (NewIntent i) (Streaming cn, w) =
     map_run (\<lambda>(request, w'). (Streaming (snd (bw_send request cn)), w')) (process_intent (op_crc32c opts) i w)"
| "write_step opts IntentsClosed (Streaming cn, w) = Ret (Closing, w)"
| "write_step opts (Received message env) (Closing, w) = Ret (closing_response opts message w)"
| "write_step opts (NewIntent i) (Failing e, w) =
     Ret (Failing e, answer_intent (Some (Err (ser (GaxError e)))) i w)"
| "write_step opts IntentsClosed (Failing e, w) = Ret (Stopped (Some (ser (GaxError e))), w)"
| "write_step opts (NewIntent i) (Stopped None, w) = Ret (Stopped None, answer_intent None i w)"
| "write_step opts ev s = Ret s"

fun write_enabled :: "'st write_event \<Rightarrow> write_run \<Rightarrow> bool" where
  "write_enabled (Received m env) (ph, w) = (case ph of Streaming cn \<Rightarrow> True | Closing \<Rightarrow> True | _ \<Rightarrow> False)"
| "write_enabled (NewIntent i) (ph, w) =
     (case ph of Streaming cn \<Rightarrow> \<not> replay_is_full (ww_replay w) | Failing e \<Rightarrow> True | Stopped r \<Rightarrow> r = None | Closing \<Rightarrow> False)"
| "write_enabled IntentsClosed (ph, w) =
     (case ph of Streaming cn \<Rightarrow> \<not> replay_is_full (ww_replay w) | Failing e \<Rightarrow> True | _ \<Rightarrow> False)"

inductive write_runs :: "'st write_options \<Rightarrow> write_run \<Rightarrow> 'st write_event list \<Rightarrow> write_run \<Rightarrow> bool"
  for opts s0 where
  runs_nil: "write_runs opts s0 [] s0"
| runs_step: "write_runs opts s0 evs s \<Longrightarrow> write_enabled ev s \<Longrightarrow> write_step opts ev s = Ret s' \<Longrightarrow>
    write_runs opts s0 (evs @ [ev]) s'"


section \<open>Streams carry a window of the data\<close>

lemma bw_send_simps:
  "bw_closed cn \<Longrightarrow> bw_send r cn = (False, cn)"
  "\<not> bw_closed cn \<Longrightarrow> bw_send r cn = (True, cn\<lparr>bw_sent := bw_sent cn @ [r]\<rparr>)"
  by (simp_all add: bw_send_def)

text \<open>The data of the requests on a stream, as chunks.\<close>

definition request_chunk :: "(bytes \<Rightarrow> u32) \<Rightarrow> write_request \<Rightarrow> replay_chunk list" where
  "request_chunk crc32c r =
     (case rq_data r of
        None \<Rightarrow> []
      | Some (d, c) \<Rightarrow> [\<lparr>rc_write_offset = rq_write_offset r, rc_data = d,
          rc_crc32c = (case c of Some x \<Rightarrow> x | None \<Rightarrow> crc32c d)\<rparr>])"

definition stream_chunks :: "(bytes \<Rightarrow> u32) \<Rightarrow> connection \<Rightarrow> replay_chunk list" where
  "stream_chunks crc32c cn = concat (map (request_chunk crc32c) (bw_sent cn))"

text \<open>
  \<open>written\<close> are the bytes of the object from offset \<open>base\<close> on. A stream carries a contiguous
  part of them with the right checksums, and all of them up to the end while it is open.
\<close>

definition stream_ok :: "(bytes \<Rightarrow> u32) \<Rightarrow> int \<Rightarrow> bytes \<Rightarrow> connection \<Rightarrow> bool" where
  "stream_ok crc32c base written cn \<longleftrightarrow>
     (\<exists>p. base \<le> p \<and> p \<le> base + int (length written) \<and> chunks_from p (stream_chunks crc32c cn) \<and>
        checked_chunks crc32c (stream_chunks crc32c cn) \<and>
        prefix (queue_data (stream_chunks crc32c cn)) (drop (nat (p - base)) written) \<and>
        (bw_closed cn \<or> queue_data (stream_chunks crc32c cn) = drop (nat (p - base)) written))"

text \<open>Every pending request is on the stream; a response is due when the buffer is above its watermark.\<close>

definition stream_live :: "write_worker \<Rightarrow> connection \<Rightarrow> bool" where
  "stream_live w cn \<longleftrightarrow> bw_closed cn \<or>
     list_all (\<lambda>p. pd_request p \<in> set (bw_sent cn)) (ww_pending w) \<and> \<not> needs_watermark_flush w \<and>
     (ww_self_flush w \<longrightarrow> list_ex rq_state_lookup (bw_sent cn))"

definition spec_opened :: "spec_state \<Rightarrow> bool" where
  "spec_opened spec \<longleftrightarrow> (case spec of SpecAppend _ chunk \<Rightarrow> chunk = None | SpecWrite _ _ _ \<Rightarrow> False)"

definition worker_holds :: "(bytes \<Rightarrow> u32) \<Rightarrow> int \<Rightarrow> bytes \<Rightarrow> write_worker \<Rightarrow> bool" where
  "worker_holds crc32c base written w \<longleftrightarrow>
     0 \<le> base \<and> base \<le> ww_persisted w \<and> ww_persisted w \<le> base + int (length written) \<and>
     replay_holds crc32c (ww_replay w) (ww_persisted w) (drop (nat (ww_persisted w - base)) written) \<and>
     list_all (\<lambda>p. rq_write_offset (pd_request p) \<le> base + int (length written) \<and> rq_data (pd_request p) = None)
       (ww_pending w) \<and>
     MIN_REPLAY_BUFFER_SIZE \<le> rb_capacity (ww_replay w) \<and> spec_opened (wc_spec (ww_connector w))"

lemma stream_chunks_simps [simp]:
  "stream_chunks crc32c (cn\<lparr>bw_sent := bw_sent cn @ rs\<rparr>) =
     stream_chunks crc32c cn @ concat (map (request_chunk crc32c) rs)"
  by (simp add: stream_chunks_def)

lemma request_chunk_no_data [simp]: "rq_data r = None \<Longrightarrow> request_chunk crc32c r = []"
  by (simp add: request_chunk_def)

lemma request_chunk_of_chunk [simp]: "request_chunk crc32c (chunk_to_request c) = [c]"
  by (simp add: request_chunk_def chunk_to_request_def request_default_def)

lemma request_chunks_of_chunks: "concat (map (request_chunk crc32c \<circ> chunk_to_request) cs) = cs"
  by (induction cs) auto

lemma stream_ok_send_no_data:
  "stream_ok crc32c base written cn \<Longrightarrow> rq_data r = None \<Longrightarrow> stream_ok crc32c base written (snd (bw_send r cn))"
  by (cases "bw_closed cn") (auto simp: bw_send_simps stream_ok_def bw_closed_def)

lemma stream_ok_send_data:
  assumes ok: "stream_ok crc32c base written cn"
    and r: "request_chunk crc32c r = [c]" "rc_write_offset c = base + int (length written)"
      "rc_crc32c c = crc32c (rc_data c)"
  shows "stream_ok crc32c base (written @ rc_data c) (snd (bw_send r cn))"
proof -
  obtain p where p: "base \<le> p" "p \<le> base + int (length written)" "chunks_from p (stream_chunks crc32c cn)"
    "checked_chunks crc32c (stream_chunks crc32c cn)"
    "prefix (queue_data (stream_chunks crc32c cn)) (drop (nat (p - base)) written)"
    "bw_closed cn \<or> queue_data (stream_chunks crc32c cn) = drop (nat (p - base)) written"
    using ok by (auto simp: stream_ok_def)
  have le: "nat (p - base) \<le> length written" using p(1,2) by simp
  show ?thesis
  proof (cases "bw_closed cn")
    case True
    with p le show ?thesis by (auto simp: bw_send_simps stream_ok_def intro!: exI [of _ p])
  next
    case False
    then have q: "queue_data (stream_chunks crc32c cn) = drop (nat (p - base)) written" using p(6) by simp
    then have "p + int (length (queue_data (stream_chunks crc32c cn))) = rc_write_offset c"
      using p(1,2) r(2) by simp
    with False p q le r show ?thesis
      by (auto simp: bw_send_simps stream_ok_def chunks_from_append intro!: exI [of _ p])
  qed
qed

lemma send_all_spec:
  "send_all rs cn = (b, cn') \<Longrightarrow> bw_accepts cn' = bw_accepts cn \<and>
     (\<exists>ys zs. rs = ys @ zs \<and> bw_sent cn' = bw_sent cn @ ys \<and> (if b then zs = [] else bw_closed cn'))"
proof (induction rs arbitrary: cn)
  case Nil
  then show ?case by auto
next
  case (Cons r rs)
  show ?case
  proof (cases "bw_closed cn")
    case True
    with Cons.prems show ?thesis by (auto simp: bw_send_simps)
  next
    case False
    with Cons.prems have "send_all rs (cn\<lparr>bw_sent := bw_sent cn @ [r]\<rparr>) = (b, cn')" by (simp add: bw_send_simps)
    from Cons.IH [OF this] obtain ys zs where "bw_accepts cn' = bw_accepts cn" "rs = ys @ zs"
      "bw_sent cn' = bw_sent cn @ r # ys" "if b then zs = [] else bw_closed cn'" by auto
    then show ?thesis by (intro conjI exI [of _ "r # ys"] exI [of _ zs]) auto
  qed
qed


section \<open>Responses\<close>

lemma complete_satisfied_eq:
  "complete_satisfied ps response p w =
     w\<lparr>ww_pending := dropWhile (\<lambda>q. pending_is_satisfied q response p) ps,
       ww_answers := ww_answers w @
         map (\<lambda>q. (pd_sender q, Some (Ok response))) (takeWhile (\<lambda>q. pending_is_satisfied q response p) ps)\<rparr>"
  by (induction ps arbitrary: w) (auto simp: pending_complete_def)

lemma max_sent_offset_holds:
  assumes "worker_holds crc32c base written w"
  shows "max_sent_offset w = base + int (length written)"
proof -
  let ?e = "base + int (length written)"
  have h: "replay_holds crc32c (ww_replay w) (ww_persisted w) (drop (nat (ww_persisted w - base)) written)"
    and r: "0 \<le> base" "base \<le> ww_persisted w" "ww_persisted w \<le> ?e"
    using assms by (simp_all add: worker_holds_def)
  have e: "replay_end_offset (ww_replay w) = (if rb_queue (ww_replay w) = [] then None else Some ?e)"
    using replay_end_offset_holds [OF h] r by auto
  have "ww_persisted w = ?e" if "rb_queue (ww_replay w) = []"
    using h that r by (auto simp: replay_holds_def)
  moreover have "rq_write_offset (pd_request (last (ww_pending w))) \<le> ?e" if "ww_pending w \<noteq> []"
    using assms last_in_set [OF that] by (auto simp: worker_holds_def list_all_iff)
  ultimately show ?thesis using e r by (auto simp: max_sent_offset_def)
qed

lemma spec_opened_response [simp]: "spec_opened spec \<Longrightarrow> spec_opened (spec_handle_response spec m)"
  by (cases spec) (auto simp: spec_opened_def Let_def)

lemma spec_opened_any_response: "spec_opened (spec_handle_response spec m)"
  by (cases spec) (auto simp: spec_opened_def Let_def)

lemma spec_opened_redirect:
  "spec_opened spec \<Longrightarrow> spec_handle_redirect st spec status = (e, spec') \<Longrightarrow> spec_opened spec'"
  by (cases spec) (auto simp: spec_opened_def spec_handle_redirect_def Let_def split: option.splits)

lemma worker_holds_cong:
  assumes "ww_replay w' = ww_replay w" "ww_persisted w' = ww_persisted w" "ww_pending w' = ww_pending w"
    "spec_opened (wc_spec (ww_connector w'))"
  shows "worker_holds crc32c base written w \<Longrightarrow> worker_holds crc32c base written w'"
  using assms by (simp add: worker_holds_def)

text \<open>A response never loses data: what it acknowledges was sent, and the rest is kept.\<close>

lemma response_success_holds:
  assumes w: "worker_holds crc32c base written w"
    and s: "write_response_success crc32c response origin w = (r, w')"
  shows "worker_holds crc32c base written w'"
proof -
  define w2 where "w2 = note_response response origin w"
  have w2: "worker_holds crc32c base written w2"
    using w by (intro worker_holds_cong [OF _ _ _ _ w]) (auto simp: w2_def note_response_def Let_def worker_holds_def)
  note m = max_sent_offset_holds [OF w2]
  have ack: "worker_holds crc32c base written
      (complete_satisfied (ww_pending w2) response p (w2\<lparr>ww_persisted := p, ww_replay := replay_ack crc32c p (ww_replay w2)\<rparr>))"
    if "\<not> p < ww_persisted w2" "\<not> max_sent_offset w2 < p" for p
  proof -
    have p: "ww_persisted w2 \<le> p" "p \<le> base + int (length written)" using that m by auto
    have "replay_holds crc32c (replay_ack crc32c p (ww_replay w2)) p
        (drop (nat (p - ww_persisted w2)) (drop (nat (ww_persisted w2 - base)) written))"
      using w2 p by (intro replay_holds_ack) (auto simp: worker_holds_def)
    moreover have "nat (p - ww_persisted w2) + nat (ww_persisted w2 - base) = nat (p - base)"
      using w2 p by (auto simp: worker_holds_def)
    ultimately show ?thesis using w2 p
      by (auto simp: worker_holds_def complete_satisfied_eq list_all_iff dest: set_dropWhileD)
  qed
  show ?thesis using s ack w2
    by (auto simp: write_response_success_def w2_def [symmetric] Let_def split: option.splits if_splits)
qed

lemma response_success_same:
  "write_response_success crc32c response origin w = (r, w') \<Longrightarrow> ww_finalized w' = ww_finalized w"
  by (auto simp: write_response_success_def note_response_def Let_def complete_satisfied_eq split: option.splits if_splits)


section \<open>Reconnecting\<close>

lemma watermark_nonempty:
  assumes "worker_holds crc32c base written w" "above_watermark (ww_replay w)"
  shows "rb_queue (ww_replay w) \<noteq> []"
  using assms by (auto simp: worker_holds_def above_watermark_def replay_holds_def MIN_REPLAY_BUFFER_SIZE_def)

definition stream_ready :: "write_worker \<Rightarrow> connection \<Rightarrow> bool" where
  "stream_ready w cn \<longleftrightarrow> bw_closed cn \<or>
     list_all (\<lambda>p. pd_request p \<in> set (bw_sent cn)) (ww_pending w) \<and>
     (ww_self_flush w \<longrightarrow> list_ex rq_state_lookup (bw_sent cn))"

text \<open>The probe makes sure that a response is due.\<close>

lemma watermark_flush_holds:
  assumes w: "worker_holds crc32c base written w" and s: "stream_ok crc32c base written cn" "stream_ready w cn"
    and m: "maybe_send_watermark_flush w cn = (w', cn')"
  shows "worker_holds crc32c base written w'" "stream_ok crc32c base written cn'" "stream_live w' cn'"
    "ww_pending w' = ww_pending w" "ww_answers w' = ww_answers w"
proof -
  let ?probe = "\<lambda>e. request_default\<lparr>rq_write_offset := e, rq_flush := True, rq_state_lookup := True\<rparr>"
  have np: "rq_data (?probe e) = None" for e by (simp add: request_default_def)
  show "worker_holds crc32c base written w'"
    using m w by (auto simp: maybe_send_watermark_flush_def split: if_splits option.splits prod.splits
        intro: worker_holds_cong [of _ w] simp: worker_holds_def)
  show "ww_pending w' = ww_pending w" "ww_answers w' = ww_answers w"
    using m by (auto simp: maybe_send_watermark_flush_def split: if_splits option.splits prod.splits)
  show "stream_ok crc32c base written cn'"
  proof (cases "needs_watermark_flush w \<and> replay_end_offset (ww_replay w) \<noteq> None")
    case True
    then obtain e where e: "replay_end_offset (ww_replay w) = Some e" by blast
    have "cn' = snd (bw_send (?probe e) cn)"
      using m True e by (auto simp: maybe_send_watermark_flush_def split: prod.splits)
    with stream_ok_send_no_data [OF s(1) np [of e]] show ?thesis by simp
  next
    case False
    with m s(1) show ?thesis by (auto simp: maybe_send_watermark_flush_def split: if_splits)
  qed
  show "stream_live w' cn'"
  proof (cases "needs_watermark_flush w")
    case False
    with m s(2) show ?thesis
      by (auto simp: maybe_send_watermark_flush_def stream_ready_def stream_live_def)
  next
    case True
    then have "rb_queue (ww_replay w) \<noteq> []"
      using watermark_nonempty [OF w] by (simp add: needs_watermark_flush_def)
    then obtain e where e: "replay_end_offset (ww_replay w) = Some e" by (auto simp: replay_end_offset_def)
    show ?thesis
    proof (cases "bw_closed cn")
      case True
      with m e \<open>needs_watermark_flush w\<close> show ?thesis
        by (auto simp: maybe_send_watermark_flush_def bw_send_simps stream_live_def)
    next
      case False
      with m e True s(2) show ?thesis
        by (auto simp: maybe_send_watermark_flush_def bw_send_simps stream_live_def stream_ready_def
            needs_watermark_flush_def)
    qed
  qed
qed

text \<open>A stream that replaces another opens with a lookup and no data.\<close>

lemma connect_attempt_opened:
  assumes "spec_opened spec" "connect_attempt crc32c mm st spec outcome = (r, spec')"
  shows "spec_opened spec'"
  using assms
  by (auto simp: connect_attempt_def prepare_request_def spec_opened_any_response split: result.splits
      connect_outcome.splits if_splits prod.splits dest: spec_opened_redirect [OF assms(1)])

lemma connect_attempt_lookup:
  assumes "spec_opened spec" "connect_attempt crc32c mm st spec outcome = (Ok (m, cn), spec')"
  shows "\<exists>q. bw_sent cn = [q] \<and> rq_data q = None \<and> rq_state_lookup q"
proof -
  have "bw_sent cn = [opening_request crc32c spec]"
    using assms(2) by (auto simp: connect_attempt_def prepare_request_def split: result.splits
        connect_outcome.splits if_splits prod.splits)
  then show ?thesis
    using assms(1) by (cases spec) (auto simp: opening_request_def spec_opened_def request_default_def)
qed

lemma connect_attempt_loop_opened:
  assumes "spec_opened spec" "connect_attempt_loop crc32c mm st xs e spec k = (r, spec', k')"
  shows "spec_opened spec' \<and> (\<forall>m cn. r = Ok (m, cn) \<longrightarrow>
    (\<exists>q. bw_sent cn = [q] \<and> rq_data q = None \<and> rq_state_lookup q))"
  using assms
proof (induction xs arbitrary: e spec k)
  case Nil
  then show ?case by auto
next
  case (Cons x xs)
  obtain r1 spec1 where a: "connect_attempt crc32c mm st spec x = (r1, spec1)" by fastforce
  have opened: "spec_opened spec1" by (rule connect_attempt_opened [OF Cons.prems(1) a])
  show ?case
  proof (cases r1)
    case (Ok ok)
    with Cons.prems(2) a opened connect_attempt_lookup [OF Cons.prems(1)] show ?thesis by auto
  next
    case (Err e1)
    with Cons.prems(2) a have "connect_attempt_loop crc32c mm st xs e1 spec1
        (if write_is_redirect st e1 then k + 1 else k) = (r, spec', k')" by simp
    with Cons.IH [OF opened] show ?thesis by blast
  qed
qed

lemma reset_budget_spec [simp]: "wc_spec (reset_budget p c) = wc_spec c"
  by (simp add: reset_budget_def)

lemma may_reconnect_spec: "may_reconnect opts now e c = Ret (r, c') \<Longrightarrow> wc_spec c' = wc_spec c"
  by (auto simp: may_reconnect_def Let_def map_run_Ret_iff bind_run_Ret_iff split: if_splits)

lemma connector_reconnect_opened:
  assumes o: "spec_opened (wc_spec c)" and c: "write_connector_reconnect opts env e p c = Ret (r, c')"
  shows "spec_opened (wc_spec c')" "r = Ok (m, cn) \<Longrightarrow> \<exists>q. bw_sent cn = [q] \<and> rq_data q = None \<and> rq_state_lookup q"
proof -
  let ?st = "op_statuses opts"
  obtain e1 spec1 where s1: "(case st_inner ?st e of Some status \<Rightarrow> spec_handle_redirect ?st (wc_spec c) status
      | None \<Rightarrow> (e, wc_spec c)) = (e1, spec1)" by fastforce
  have o1: "spec_opened spec1" using s1 o by (auto split: option.splits intro: spec_opened_redirect)
  obtain r2 c2 where m: "may_reconnect opts (rn_now env) e1 (reset_budget p (c\<lparr>wc_spec := spec1\<rparr>)) = Ret (r2, c2)"
    using c s1 by (auto simp: write_connector_reconnect_def Let_def bind_run_Ret_iff)
  have o2: "spec_opened (wc_spec c2)" using may_reconnect_spec [OF m] o1 by simp
  obtain r3 spec3 k where l: "connect_attempt_loop (op_crc32c opts) (op_mismatch opts) ?st (rn_outcomes env)
      (rn_stopped env) (wc_spec c2) (the (wc_redirects c2)) = (r3, spec3, k)" by (meson prod_cases3)
  note o3 = connect_attempt_loop_opened [OF o2 l]
  show "spec_opened (wc_spec c')"
    using c s1 m o2 l o3 by (auto simp: write_connector_reconnect_def Let_def split: result.splits prod.splits option.splits)
  show "\<exists>q. bw_sent cn = [q] \<and> rq_data q = None \<and> rq_state_lookup q" if "r = Ok (m, cn)" for m cn
    using that c s1 m l o3 by (auto simp: write_connector_reconnect_def Let_def split: result.splits prod.splits)
qed


lemma send_all_map:
  assumes "send_all (map f xs) cn = (b, cn')"
  obtains ys zs where "xs = ys @ zs" "bw_sent cn' = bw_sent cn @ map f ys" "if b then zs = [] else bw_closed cn'"
    "bw_accepts cn' = bw_accepts cn"
proof -
  obtain us vs where u: "map f xs = us @ vs" "bw_sent cn' = bw_sent cn @ us" "if b then vs = [] else bw_closed cn'"
    "bw_accepts cn' = bw_accepts cn" using send_all_spec [OF assms] by blast
  then obtain ys zs where "xs = ys @ zs" "us = map f ys" "vs = map f zs" by (auto simp: map_eq_append_conv)
  with u that [of ys zs] show thesis by (cases b) auto
qed

text \<open>What the worker sends on a new stream: the chunks it holds, then the pending requests.\<close>

lemma resend_ok:
  assumes w: "worker_holds crc32c base written w"
    and cn: "bw_sent cn = [q]" "rq_data q = None"
    and s1: "send_all (map chunk_to_request (rb_queue (ww_replay w))) cn = (b1, cn1)"
  shows "stream_ok crc32c base written cn1" "\<not> b1 \<Longrightarrow> bw_closed cn1"
proof -
  obtain ys zs where ys: "rb_queue (ww_replay w) = ys @ zs"
      "bw_sent cn1 = bw_sent cn @ map chunk_to_request ys" "if b1 then zs = [] else bw_closed cn1"
    using send_all_map [OF s1] by metis
  have ch: "stream_chunks crc32c cn1 = ys"
    using ys(2) cn by (simp add: stream_chunks_def request_chunks_of_chunks)
  have "chunks_from (ww_persisted w) ys \<and> checked_chunks crc32c ys \<and>
      drop (nat (ww_persisted w - base)) written = queue_data ys @ queue_data zs"
    using w ys(1) by (auto simp: worker_holds_def replay_holds_def chunks_from_append)
  with w ch ys(3) show "stream_ok crc32c base written cn1"
    by (auto simp: stream_ok_def worker_holds_def prefix_def intro!: exI [of _ "ww_persisted w"] split: if_splits)
  show "\<not> b1 \<Longrightarrow> bw_closed cn1" using ys(3) by simp
qed

lemma resend_pending_ok:
  assumes ok: "stream_ok crc32c base written cn" and p: "list_all (\<lambda>p. rq_data (pd_request p) = None) ps"
    and s: "send_all (map pd_request ps) cn = (b, cn')"
  shows "stream_ok crc32c base written cn'" "\<not> b \<Longrightarrow> bw_closed cn'"
    "b \<Longrightarrow> list_all (\<lambda>p. pd_request p \<in> set (bw_sent cn')) ps"
proof -
  obtain ys zs where ys: "ps = ys @ zs" "bw_sent cn' = bw_sent cn @ map pd_request ys"
      "if b then zs = [] else bw_closed cn'" "bw_accepts cn' = bw_accepts cn"
    using send_all_map [OF s] by metis
  have nil: "concat (map (request_chunk crc32c) (map pd_request ys)) = []"
    using p ys(1) by (auto simp: list_all_iff)
  have "stream_chunks crc32c cn' = stream_chunks crc32c cn"
    unfolding stream_chunks_def ys(2) map_append concat_append nil by simp
  moreover have "bw_closed cn \<Longrightarrow> bw_closed cn'" using ys by (auto simp: bw_closed_def)
  ultimately show "stream_ok crc32c base written cn'" using ok by (auto simp: stream_ok_def)
  show "\<not> b \<Longrightarrow> bw_closed cn'" using ys(3) by simp
  show "b \<Longrightarrow> list_all (\<lambda>p. pd_request p \<in> set (bw_sent cn')) ps"
    using ys by (auto simp: list_all_iff)
qed

lemma reconnect_holds:
  assumes w: "worker_holds (op_crc32c opts) base written w"
    and r: "worker_reconnect_write opts env e w = Ret (r, w')"
  shows "worker_holds (op_crc32c opts) base written w'"
    "r = Ok cn \<Longrightarrow> stream_ok (op_crc32c opts) base written cn \<and> stream_live w' cn"
proof -
  let ?crc = "op_crc32c opts"
  let ?w1 = "w\<lparr>ww_self_flush := False\<rparr>"
  obtain rc c where c: "write_connector_reconnect opts env e (ww_persisted w) (ww_connector ?w1) = Ret (rc, c)"
    using r by (auto simp: worker_reconnect_write_def Let_def map_run_Ret_iff)
  have opened: "spec_opened (wc_spec (ww_connector ?w1))" using w by (simp add: worker_holds_def)
  note co = connector_reconnect_opened [OF opened c]
  have w2: "worker_holds ?crc base written (?w1\<lparr>ww_connector := c\<rparr>)"
    using co(1) w by (intro worker_holds_cong [OF _ _ _ _ w]) simp_all
  have "worker_holds ?crc base written w' \<and> (r = Ok cn \<longrightarrow> stream_ok ?crc base written cn \<and> stream_live w' cn)" for cn
  proof (cases rc)
    case (Err e')
    with r c w2 show ?thesis by (auto simp: worker_reconnect_write_def Let_def)
  next
    case (Ok ok)
    obtain m cn0 where ok: "ok = (m, cn0)" by fastforce
    obtain q where q: "bw_sent cn0 = [q]" "rq_data q = None" using co(2) Ok ok by blast
    obtain r3 w3 where s3: "write_response_success ?crc m FromHandshake (?w1\<lparr>ww_connector := c\<rparr>) = (r3, w3)" by fastforce
    have w3: "worker_holds ?crc base written w3" by (rule response_success_holds [OF w2 s3])
    have sf: "ww_self_flush w3 = False" using s3
      by (auto simp: write_response_success_def note_response_def Let_def complete_satisfied_eq split: option.splits if_splits)
    obtain b1 cn1 where s1: "send_all (map chunk_to_request (rb_queue (ww_replay w3))) cn0 = (b1, cn1)" by fastforce
    obtain b2 cn2 where s2: "send_all (map pd_request (ww_pending w3)) cn1 = (b2, cn2)" by fastforce
    obtain w4 cn3 where m4: "maybe_send_watermark_flush w3 cn2 = (w4, cn3)" by fastforce
    note st1 = resend_ok [OF w3 q s1]
    have "list_all (\<lambda>p. rq_data (pd_request p) = None) (ww_pending w3)"
      using w3 by (auto simp: worker_holds_def list_all_iff)
    note st2 = resend_pending_ok [OF st1(1) this s2]
    have "stream_ready w3 cn2" using st2(2,3) sf by (cases b2) (auto simp: stream_ready_def)
    note st3 = watermark_flush_holds [OF w3 st2(1) this m4]
    have closed: "bw_closed x \<Longrightarrow> stream_live w3 x" for x by (simp add: stream_live_def)
    show ?thesis
    proof (cases r3)
      case (Err e')
      with r c Ok ok s3 w3 show ?thesis by (auto simp: worker_reconnect_write_def Let_def)
    next
      case (Ok u)
      then have "(r, w') = (case (b1, cn1) of (False, cn1) \<Rightarrow> (Ok cn1, w3) | (True, cn1) \<Rightarrow>
          (case (b2, cn2) of (False, cn2) \<Rightarrow> (Ok cn2, w3) | (True, cn2) \<Rightarrow> (Ok cn3, w4)))"
        using r c \<open>rc = Ok ok\<close> ok s3 s1 s2 m4 by (cases b1; cases b2) (simp_all add: worker_reconnect_write_def Let_def)
      then show ?thesis using st1 st2 st3 w3 closed by (cases b1; cases b2) auto
    qed
  qed
  then show "worker_holds ?crc base written w'"
    "r = Ok cn \<Longrightarrow> stream_ok ?crc base written cn \<and> stream_live w' cn" by blast+
qed


section \<open>Runs keep the data\<close>

text \<open>
  Intents as the transport makes them: data goes to the end of what was written, with the right
  checksum if it has one, and flushes and finalizes ask for everything written.
\<close>

fun intent_ok :: "(bytes \<Rightarrow> u32) \<Rightarrow> int \<Rightarrow> upload_intent \<Rightarrow> bool" where
  "intent_ok crc32c pos (IntentAppend req) \<longleftrightarrow>
     (case rq_data req of None \<Rightarrow> True
      | Some (d, c) \<Rightarrow> rq_write_offset req = pos \<and> (c = None \<or> c = Some (crc32c d)))"
| "intent_ok crc32c pos (IntentFlush req sender) \<longleftrightarrow>
     rq_write_offset req = pos \<and> rq_data req = None \<and> rq_state_lookup req \<and> rq_flush req"
| "intent_ok crc32c pos (IntentFinalize req sender) \<longleftrightarrow>
     rq_write_offset req = pos \<and> rq_data req = None \<and> rq_flush req \<and> rq_finish_write req"

fun intent_data :: "upload_intent \<Rightarrow> bytes" where
  "intent_data (IntentAppend req) = (case rq_data req of None \<Rightarrow> [] | Some (d, c) \<Rightarrow> d)"
| "intent_data (IntentFlush req sender) = []"
| "intent_data (IntentFinalize req sender) = []"

fun intent_senders :: "upload_intent \<Rightarrow> nat list" where
  "intent_senders (IntentAppend req) = []"
| "intent_senders (IntentFlush req sender) = [sender]"
| "intent_senders (IntentFinalize req sender) = [sender]"

fun intents_ok :: "(bytes \<Rightarrow> u32) \<Rightarrow> int \<Rightarrow> upload_intent list \<Rightarrow> bool" where
  "intents_ok crc32c pos [] \<longleftrightarrow> True"
| "intents_ok crc32c pos (i # is) \<longleftrightarrow>
     intent_ok crc32c pos i \<and> intents_ok crc32c (pos + int (length (intent_data i))) is"

fun event_intent :: "'st write_event \<Rightarrow> upload_intent list" where
  "event_intent (NewIntent i) = [i]"
| "event_intent (Received m env) = []"
| "event_intent IntentsClosed = []"

definition intents_of :: "'st write_event list \<Rightarrow> upload_intent list" where
  "intents_of evs = concat (map event_intent evs)"

definition data_of :: "upload_intent list \<Rightarrow> bytes" where
  "data_of is = concat (map intent_data is)"

definition phase_ok :: "(bytes \<Rightarrow> u32) \<Rightarrow> int \<Rightarrow> bytes \<Rightarrow> write_run \<Rightarrow> bool" where
  "phase_ok crc32c base written s \<longleftrightarrow>
     (case s of (ph, w) \<Rightarrow>
        (case ph of
           Streaming cn \<Rightarrow> worker_holds crc32c base written w \<and> stream_ok crc32c base written cn \<and> stream_live w cn
         | Closing \<Rightarrow> worker_holds crc32c base written w
         | _ \<Rightarrow> True))"

lemma intents_of_snoc [simp]: "intents_of (evs @ [ev]) = intents_of evs @ event_intent ev"
  by (simp add: intents_of_def)

lemma intents_of_Nil [simp]: "intents_of [] = []"
  by (simp add: intents_of_def)

lemma data_of_append [simp]: "data_of (is @ js) = data_of is @ data_of js"
  by (simp add: data_of_def)

lemma data_of_simps [simp]: "data_of [] = []" "data_of (i # is) = intent_data i @ data_of is"
  by (simp_all add: data_of_def)

lemma intents_ok_append [simp]:
  "intents_ok crc32c pos (is @ js) \<longleftrightarrow>
     intents_ok crc32c pos is \<and> intents_ok crc32c (pos + int (length (data_of is))) js"
  by (induction "is" arbitrary: pos) (auto simp: algebra_simps)

text \<open>Reachable states and their invariants.\<close>

locale write_invariant =
  fixes opts :: "'st write_options" and ok :: "'st write_event list \<Rightarrow> bool"
    and P :: "'st write_event list \<Rightarrow> write_run \<Rightarrow> bool"
  assumes ok_prefix: "ok (evs @ [ev]) \<Longrightarrow> ok evs"
    and P_step: "P evs s \<Longrightarrow> ok (evs @ [ev]) \<Longrightarrow> write_enabled ev s \<Longrightarrow> write_step opts ev s = Ret s' \<Longrightarrow>
      P (evs @ [ev]) s'"
begin

lemma P_runs: "write_runs opts s0 evs s \<Longrightarrow> P [] s0 \<Longrightarrow> ok evs \<Longrightarrow> P evs s"
proof (induction rule: write_runs.induct)
  case runs_nil
  then show ?case by simp
next
  case (runs_step evs s ev s')
  then show ?case using P_step ok_prefix by blast
qed

end

lemma process_intent_holds:
  assumes w: "worker_holds crc32c base written w" and cn: "stream_ok crc32c base written cn" "stream_live w cn"
    and i: "intent_ok crc32c (base + int (length written)) i"
    and p: "process_intent crc32c i w = Ret (req, w')"
  shows "worker_holds crc32c base (written @ intent_data i) w'"
    "stream_ok crc32c base (written @ intent_data i) (snd (bw_send req cn))"
    "stream_live w' (snd (bw_send req cn))"
proof -
  have "worker_holds crc32c base (written @ intent_data i) w' \<and>
    stream_ok crc32c base (written @ intent_data i) (snd (bw_send req cn)) \<and>
    stream_live w' (snd (bw_send req cn))"
  proof (cases i)
    case (IntentAppend r)
    show ?thesis
    proof (cases "rq_data r")
      case None
      then have "req = r \<and> w' = w \<or> req = r\<lparr>rq_flush := True, rq_state_lookup := True\<rparr> \<and> w' = w\<lparr>ww_self_flush := True\<rparr> \<and>
          needs_watermark_flush w"
        using p IntentAppend by (auto simp: Let_def split: if_splits)
      then show ?thesis
        using w cn None IntentAppend stream_ok_send_no_data [OF cn(1), of req]
        by (cases "bw_closed cn")
          (auto simp: bw_send_simps stream_live_def needs_watermark_flush_def worker_holds_def list_all_iff)
    next
      case (Some dc)
      obtain d c where dc: "rq_data r = Some (d, c)" using Some by (cases dc) auto
      define ch where "ch = \<lparr>rc_write_offset = rq_write_offset r, rc_data = d,
        rc_crc32c = (case c of Some x \<Rightarrow> x | None \<Rightarrow> crc32c d)\<rparr>"
      define w1 where "w1 = w\<lparr>ww_replay := replay_push ch (ww_replay w)\<rparr>"
      have off: "rc_write_offset ch = base + int (length written)" and crc: "rc_crc32c ch = crc32c (rc_data ch)"
        and data: "rc_data ch = d" "intent_data i = d"
        using i IntentAppend dc by (auto simp: ch_def)
      have r: "req = r \<and> w' = w1 \<and> \<not> needs_watermark_flush w1 \<or>
          req = r\<lparr>rq_flush := True, rq_state_lookup := True\<rparr> \<and> w' = w1\<lparr>ww_self_flush := True\<rparr>"
        using p IntentAppend dc by (auto simp: Let_def w1_def ch_def split: if_splits)
      then have rch: "request_chunk crc32c req = [ch]" using dc by (auto simp: request_chunk_def ch_def)
      have h: "replay_holds crc32c (replay_push ch (ww_replay w)) (ww_persisted w)
          (drop (nat (ww_persisted w - base)) written @ rc_data ch)"
        using w off crc by (intro replay_holds_push) (auto simp: worker_holds_def)
      have "list_all (\<lambda>p. rq_write_offset (pd_request p) \<le> base + int (length (written @ d)) \<and>
          rq_data (pd_request p) = None) (ww_pending w)"
        using w by (force simp: worker_holds_def list_all_iff)
      then have "worker_holds crc32c base (written @ d) w'"
        using r w h data by (auto simp: worker_holds_def w1_def)
      moreover have "stream_ok crc32c base (written @ d) (snd (bw_send req cn))"
        using stream_ok_send_data [OF cn(1) rch off crc] data by simp
      moreover have "stream_live w' (snd (bw_send req cn))"
        using r cn(2) by (cases "bw_closed cn")
          (auto simp: bw_send_simps stream_live_def needs_watermark_flush_def w1_def list_all_iff)
      ultimately show ?thesis using data by simp
    qed
  next
    case (IntentFlush r s)
    then show ?thesis using w cn i p stream_ok_send_no_data [OF cn(1), of r]
      by (cases "bw_closed cn")
        (auto simp: bw_send_simps stream_live_def needs_watermark_flush_def worker_holds_def list_all_iff split: if_splits)
  next
    case (IntentFinalize r s)
    then show ?thesis using w cn i p stream_ok_send_no_data [OF cn(1), of r]
      by (cases "bw_closed cn")
        (auto simp: bw_send_simps stream_live_def needs_watermark_flush_def worker_holds_def list_all_iff split: if_splits)
  qed
  then show "worker_holds crc32c base (written @ intent_data i) w'"
    "stream_ok crc32c base (written @ intent_data i) (snd (bw_send req cn))"
    "stream_live w' (snd (bw_send req cn))" by blast+
qed


lemma phase_ok_simps [simp]:
  "phase_ok crc32c base written (Streaming cn, w) \<longleftrightarrow>
     worker_holds crc32c base written w \<and> stream_ok crc32c base written cn \<and> stream_live w cn"
  "phase_ok crc32c base written (Closing, w) \<longleftrightarrow> worker_holds crc32c base written w"
  "phase_ok crc32c base written (Failing e, w)" "phase_ok crc32c base written (Stopped x, w)"
  by (simp_all add: phase_ok_def)

lemma phase_ok_ended [simp]: "phase_ok crc32c base written (fail_run e w)" "phase_ok crc32c base written (stop_run w)"
  by (simp_all add: fail_run_def stop_run_def)

lemma response_ready:
  assumes "stream_live w cn" "write_response_success crc32c response FromStream w = (r, w')"
  shows "stream_ready w' cn"
proof -
  have "set (ww_pending w') \<subseteq> set (ww_pending w)" "\<not> ww_self_flush w'"
    using assms(2) by (auto simp: write_response_success_def note_response_def Let_def complete_satisfied_eq
        split: option.splits if_splits dest: set_dropWhileD)
  then show ?thesis using assms(1) by (auto simp: stream_live_def stream_ready_def list_all_iff)
qed

lemma streaming_response_ok:
  assumes ok: "phase_ok (op_crc32c opts) base written (Streaming cn, w)"
    and h: "worker_handle_response opts env message w = Ret (r, w')"
  shows "phase_ok (op_crc32c opts) base written (case r of Err e \<Rightarrow> fail_run e w' | Ok Finished \<Rightarrow> stop_run w'
    | Ok (Reconnected cn') \<Rightarrow> (Streaming cn', w')
    | Ok ContinueStream \<Rightarrow> (case maybe_send_watermark_flush w' cn of (w'', cn') \<Rightarrow> (Streaming cn', w'')))"
proof -
  let ?crc = "op_crc32c opts"
  have w: "worker_holds ?crc base written w" and s: "stream_ok ?crc base written cn" "stream_live w cn"
    using ok by simp_all
  consider (msg) response where "message = Ok (Some response)"
    | (re) e where "map_run (\<lambda>(r, w'). (case r of Ok cn \<Rightarrow> Ok (Reconnected cn) | Err e' \<Rightarrow> Err e', w'))
        (worker_reconnect_write opts env e w) = Ret (r, w')"
    | (fin) "r = Ok Finished"
    using h by (cases message) (auto simp: worker_handle_response_def split: option.splits if_splits)
  then show ?thesis
  proof cases
    case msg
    obtain r1 w1 where r1: "write_response_success ?crc response FromStream w = (r1, w1)" by fastforce
    obtain w2 cn2 where m: "maybe_send_watermark_flush w1 cn = (w2, cn2)" by fastforce
    note keeps = watermark_flush_holds [OF response_success_holds [OF w r1] s(1) response_ready [OF s(2) r1] m]
    show ?thesis using h msg r1 m keeps
      by (cases r1) (auto simp: worker_handle_response_def)
  next
    case re
    then obtain r1 where r1: "worker_reconnect_write opts env e w = Ret (r1, w')"
      "r = (case r1 of Ok cn \<Rightarrow> Ok (Reconnected cn) | Err e' \<Rightarrow> Err e')"
      by (auto simp: map_run_Ret_iff)
    show ?thesis using reconnect_holds [OF w r1(1)] r1(2) by (cases r1) auto
  next
    case fin
    then show ?thesis by simp
  qed
qed

lemma closing_response_ok:
  "worker_holds (op_crc32c opts) base written w \<Longrightarrow> phase_ok (op_crc32c opts) base written (closing_response opts message w)"
  using response_success_holds [of "op_crc32c opts" base written w]
  by (auto simp: closing_response_def split: result.splits option.splits prod.splits)

lemma write_step_ok:
  assumes ok: "phase_ok (op_crc32c opts) base written s"
    and i: "intents_ok (op_crc32c opts) (base + int (length written)) (event_intent ev)"
    and en: "write_enabled ev s" and step: "write_step opts ev s = Ret s'"
  shows "phase_ok (op_crc32c opts) base (written @ data_of (event_intent ev)) s'"
proof -
  obtain ph w where s: "s = (ph, w)" by fastforce
  show ?thesis
  proof (cases ph)
    case (Streaming cn)
    then show ?thesis
    proof (cases ev)
      case (Received message env)
      with step s Streaming obtain r w' where h: "worker_handle_response opts env message w = Ret (r, w')"
        and "s' = (case r of Err e \<Rightarrow> fail_run e w' | Ok Finished \<Rightarrow> stop_run w'
          | Ok (Reconnected cn') \<Rightarrow> (Streaming cn', w')
          | Ok ContinueStream \<Rightarrow> (case maybe_send_watermark_flush w' cn of (w'', cn') \<Rightarrow> (Streaming cn', w'')))"
        by (auto simp: map_run_Ret_iff)
      then show ?thesis using streaming_response_ok [OF _ h, of base written cn] ok s Streaming Received by simp
    next
      case (NewIntent i')
      with step s Streaming obtain req w' where p: "process_intent (op_crc32c opts) i' w = Ret (req, w')"
        and "s' = (Streaming (snd (bw_send req cn)), w')" by (auto simp: map_run_Ret_iff)
      then show ?thesis using process_intent_holds [of "op_crc32c opts" base written w cn i' req w'] ok i s Streaming NewIntent
        by simp
    next
      case IntentsClosed
      with step ok s Streaming show ?thesis by auto
    qed
  next
    case Closing
    then show ?thesis using en step s ok closing_response_ok by (cases ev) auto
  next
    case (Failing e)
    then show ?thesis using en step s by (cases ev) auto
  next
    case (Stopped x)
    then show ?thesis using en step s by (cases ev) auto
  qed
qed

interpretation upload_data: write_invariant opts "\<lambda>evs. intents_ok (op_crc32c opts) (base + int (length before)) (intents_of evs)"
  "\<lambda>evs s. phase_ok (op_crc32c opts) base (before @ data_of (intents_of evs)) s"
proof
  fix evs ev s s'
  assume "phase_ok (op_crc32c opts) base (before @ data_of (intents_of evs)) s"
    "intents_ok (op_crc32c opts) (base + int (length before)) (intents_of (evs @ [ev]))"
    "write_enabled ev s" "write_step opts ev s = Ret s'"
  then show "phase_ok (op_crc32c opts) base (before @ data_of (intents_of (evs @ [ev]))) s'"
    using write_step_ok [of opts base "before @ data_of (intents_of evs)" s ev s'] by (simp add: algebra_simps)
qed simp


section \<open>Every flush and finalize is answered\<close>

text \<open>A response confirms an intent: everything the intent asks for is persisted, and the object is
  finalized just if that was asked for.\<close>

fun confirms :: "write_response \<Rightarrow> upload_intent \<Rightarrow> bool" where
  "confirms resp (IntentAppend req) \<longleftrightarrow> False"
| "confirms resp (IntentFlush req sender) \<longleftrightarrow>
     is_some_and (\<lambda>p. rq_write_offset req \<le> p) (persisted_size resp) \<and> \<not> is_finalized resp"
| "confirms resp (IntentFinalize req sender) \<longleftrightarrow>
     is_some_and (\<lambda>p. rq_write_offset req \<le> p) (persisted_size resp) \<and> is_finalized resp"

definition pending_intent :: "pending_request \<Rightarrow> upload_intent" where
  "pending_intent p =
     (case pd_kind p of PendFlush \<Rightarrow> IntentFlush (pd_request p) (pd_sender p)
      | PendFinalize \<Rightarrow> IntentFinalize (pd_request p) (pd_sender p))"

definition answers_ok :: "upload_intent list \<Rightarrow> write_worker \<Rightarrow> bool" where
  "answers_ok is w \<longleftrightarrow>
     mset (map pd_sender (ww_pending w)) + mset (map fst (ww_answers w)) = mset (concat (map intent_senders is)) \<and>
     pending_intent ` set (ww_pending w) \<subseteq> set is \<and>
     (\<forall>sender resp. (sender, Some (Ok resp)) \<in> set (ww_answers w) \<longrightarrow>
        (\<exists>i\<in>set is. intent_senders i = [sender] \<and> confirms resp i))"

definition run_answers_ok :: "upload_intent list \<Rightarrow> write_run \<Rightarrow> bool" where
  "run_answers_ok is s \<longleftrightarrow> answers_ok is (snd s) \<and>
     (case fst s of Failing e \<Rightarrow> ww_pending (snd s) = [] | Stopped x \<Rightarrow> ww_pending (snd s) = [] | _ \<Rightarrow> True)"

lemma pending_intent_senders [simp]: "intent_senders (pending_intent p) = [pd_sender p]"
  by (cases "pd_kind p") (auto simp: pending_intent_def)

lemma satisfied_confirms:
  "persisted_size resp = Some q \<Longrightarrow> pending_is_satisfied p resp q \<Longrightarrow> confirms resp (pending_intent p)"
  by (cases "pd_kind p") (auto simp: pending_is_satisfied_def pending_intent_def split: if_splits)

lemma answers_ok_same:
  "answers_ok is w \<Longrightarrow> ww_pending w' = ww_pending w \<Longrightarrow> ww_answers w' = ww_answers w \<Longrightarrow> answers_ok is w'"
  by (simp add: answers_ok_def)

lemma complete_satisfied_answers:
  assumes ok: "answers_ok is w" and p: "persisted_size resp = Some q"
  shows "answers_ok is (complete_satisfied (ww_pending w) resp q w)"
proof -
  let ?sat = "\<lambda>p. pending_is_satisfied p resp q"
  have "mset (map pd_sender (ww_pending w)) =
      mset (map pd_sender (dropWhile ?sat (ww_pending w))) + mset (map pd_sender (takeWhile ?sat (ww_pending w)))"
    by (metis add.commute map_append mset_append takeWhile_dropWhile_id)
  moreover have "\<exists>i\<in>set is. intent_senders i = [pd_sender x] \<and> confirms resp i"
    if "x \<in> set (takeWhile ?sat (ww_pending w))" for x
  proof -
    have "x \<in> set (ww_pending w)" "?sat x" using that by (auto dest: set_takeWhileD)
    with ok satisfied_confirms [OF p] show ?thesis
      by (intro bexI [of _ "pending_intent x"]) (auto simp: answers_ok_def)
  qed
  moreover have "pending_intent ` set (dropWhile ?sat (ww_pending w)) \<subseteq> set is"
    using ok by (auto simp: answers_ok_def dest: set_dropWhileD)
  ultimately show ?thesis using ok
    by (auto simp: complete_satisfied_eq answers_ok_def comp_def ac_simps)
qed

lemma response_success_answers:
  assumes "answers_ok is w" "write_response_success crc32c resp origin w = (r, w')"
  shows "answers_ok is w'"
proof -
  let ?w2 = "note_response resp origin w"
  have w2: "answers_ok is ?w2" by (rule answers_ok_same [OF assms(1)]) (auto simp: note_response_def Let_def)
  have "answers_ok is (?w2\<lparr>ww_persisted := p, ww_replay := b\<rparr>)" for p b
    by (rule answers_ok_same [OF w2]) auto
  from complete_satisfied_answers [OF this, of resp] show ?thesis using assms(2) w2
    by (auto simp: write_response_success_def Let_def split: option.splits if_splits)
qed

lemma maybe_send_answers:
  "maybe_send_watermark_flush w cn = (w', cn') \<Longrightarrow> ww_pending w' = ww_pending w \<and> ww_answers w' = ww_answers w"
  by (auto simp: maybe_send_watermark_flush_def split: if_splits option.splits prod.splits)

lemma reconnect_answers:
  assumes ok: "answers_ok is w" and r: "worker_reconnect_write opts env e w = Ret (r, w')"
  shows "answers_ok is w'"
proof -
  obtain rc c where c: "write_connector_reconnect opts env e (ww_persisted w) (ww_connector w) = Ret (rc, c)"
    using r by (auto simp: worker_reconnect_write_def Let_def map_run_Ret_iff)
  have w2: "answers_ok is (w\<lparr>ww_self_flush := False, ww_connector := c\<rparr>)"
    by (rule answers_ok_same [OF ok]) auto
  note s = response_success_answers [OF w2]
  note same = answers_ok_same
  show ?thesis
  proof (cases rc)
    case (Err e')
    with r c w2 show ?thesis by (auto simp: worker_reconnect_write_def Let_def)
  next
    case (Ok ok)
    then show ?thesis using r c
      by (cases ok) (auto simp: worker_reconnect_write_def Let_def split: prod.splits result.splits bool.splits
          dest!: s maybe_send_answers intro: same)
  qed
qed


lemma answers_ok_mono:
  "answers_ok is w \<Longrightarrow> intent_senders i = [] \<Longrightarrow> answers_ok (is @ [i]) w"
  unfolding answers_ok_def by fastforce

lemma answers_ok_pend:
  assumes "answers_ok is w" "ww_pending w' = ww_pending w @ [p]" "ww_answers w' = ww_answers w" "pending_intent p = i"
  shows "answers_ok (is @ [i]) w'"
proof -
  have "intent_senders i = [pd_sender p]" using assms(4) pending_intent_senders by metis
  with assms show ?thesis unfolding answers_ok_def by (auto simp: ac_simps)
qed

lemma answer_intent_pending [simp]: "ww_pending (answer_intent r i w) = ww_pending w"
  by (cases i) auto

lemma process_intent_answers:
  assumes "answers_ok is w" "process_intent crc32c i w = Ret (req, w')"
  shows "answers_ok (is @ [i]) w'"
proof (cases i)
  case (IntentAppend r)
  then have "ww_pending w' = ww_pending w" "ww_answers w' = ww_answers w"
    using assms(2) by (auto simp: Let_def split: if_splits option.splits prod.splits)
  then show ?thesis using answers_ok_mono [OF answers_ok_same [OF assms(1)]] IntentAppend by simp
next
  case (IntentFlush r sender)
  with assms show ?thesis
    by (intro answers_ok_pend [OF assms(1), where p = "\<lparr>pd_kind = PendFlush, pd_request = r, pd_sender = sender\<rparr>"])
      (auto simp: pending_intent_def split: if_splits)
next
  case (IntentFinalize r sender)
  with assms show ?thesis
    by (intro answers_ok_pend [OF assms(1), where p = "\<lparr>pd_kind = PendFinalize, pd_request = r, pd_sender = sender\<rparr>"])
      (auto simp: pending_intent_def split: if_splits)
qed

lemma answer_intent_ok:
  assumes "answers_ok is w" "\<And>resp. r \<noteq> Some (Ok resp)"
  shows "answers_ok (is @ [i]) (answer_intent r i w)"
  using assms by (cases i) (auto simp: answers_ok_def)

lemma ended_answers:
  "answers_ok is w \<Longrightarrow> run_answers_ok is (fail_run e w)" "answers_ok is w \<Longrightarrow> run_answers_ok is (stop_run w)"
  by (auto simp: run_answers_ok_def fail_run_def stop_run_def answers_ok_def comp_def add.commute)

text \<open>A message of the stream, a reconnect, or the end.\<close>

lemma worker_handle_response_cases:
  assumes h: "worker_handle_response opts env message w = Ret (r, w')"
  obtains (accepted) response x where "write_response_success (op_crc32c opts) response FromStream w = (x, w')"
  | (reconnected) e x where "worker_reconnect_write opts env e w = Ret (x, w')"
  | (finished) "w' = w"
proof -
  consider (msg) response where "message = Ok (Some response)"
    | (re) e where "map_run (\<lambda>(r, w'). (case r of Ok cn \<Rightarrow> Ok (Reconnected cn) | Err e' \<Rightarrow> Err e', w'))
        (worker_reconnect_write opts env e w) = Ret (r, w')"
    | (fin) "w' = w"
    using h by (cases message) (auto simp: worker_handle_response_def split: option.splits if_splits)
  then show thesis
  proof cases
    case msg
    with h accepted show thesis by (auto simp: worker_handle_response_def split: prod.splits result.splits)
  next
    case re
    with reconnected show thesis by (auto simp: map_run_Ret_iff)
  qed (rule finished)
qed

lemma handle_response_answers:
  assumes ok: "answers_ok is w" and h: "worker_handle_response opts env message w = Ret (r, w')"
  shows "answers_ok is w'"
  using h
  by (cases rule: worker_handle_response_cases) (use ok response_success_answers [OF ok] reconnect_answers [OF ok] in auto)

lemma write_step_answers:
  assumes ok: "run_answers_ok is s" and en: "write_enabled ev s" and step: "write_step opts ev s = Ret s'"
  shows "run_answers_ok (is @ event_intent ev) s'"
proof -
  obtain ph w where s: "s = (ph, w)" by fastforce
  have w: "answers_ok is w" using ok s by (simp add: run_answers_ok_def)
  note same = answers_ok_same
  show ?thesis
  proof (cases ph)
    case (Streaming cn)
    show ?thesis
    proof (cases ev)
      case (Received message env)
      with step s Streaming obtain r w' where h: "worker_handle_response opts env message w = Ret (r, w')"
        and s': "s' = (case r of Err e \<Rightarrow> fail_run e w' | Ok Finished \<Rightarrow> stop_run w'
          | Ok (Reconnected cn') \<Rightarrow> (Streaming cn', w')
          | Ok ContinueStream \<Rightarrow> (case maybe_send_watermark_flush w' cn of (w'', cn') \<Rightarrow> (Streaming cn', w'')))"
        by (auto simp: map_run_Ret_iff)
      note w' = handle_response_answers [OF w h]
      obtain w2 cn2 where m: "maybe_send_watermark_flush w' cn = (w2, cn2)" by fastforce
      have "answers_ok is w2" using same [OF w'] maybe_send_answers [OF m] by simp
      then have "run_answers_ok is s'" using s' w' m ended_answers [OF w']
        by (cases r) (auto simp: run_answers_ok_def split: response_action.splits)
      with Received show ?thesis by simp
    next
      case (NewIntent i)
      with step s Streaming process_intent_answers [OF w] show ?thesis
        by (auto simp: map_run_Ret_iff run_answers_ok_def)
    next
      case IntentsClosed
      with step s Streaming w show ?thesis by (auto simp: run_answers_ok_def)
    qed
  next
    case Closing
    with en step s obtain m env where ev: "ev = Received m env" and s': "s' = closing_response opts m w"
      by (cases ev) auto
    have "run_answers_ok is s'"
      unfolding s' closing_response_def using response_success_answers [OF w] ended_answers w
      by (auto simp: run_answers_ok_def [of _ "(Closing, _)"] split: result.splits option.splits prod.splits)
    with ev show ?thesis by simp
  next
    case (Failing e)
    with en step s ok w answer_intent_ok [OF w] show ?thesis
      by (cases ev) (auto simp: run_answers_ok_def)
  next
    case (Stopped x)
    with en step s ok w answer_intent_ok [OF w] show ?thesis
      by (cases ev) (auto simp: run_answers_ok_def)
  qed
qed

interpretation upload_answers: write_invariant opts "\<lambda>evs. True" "\<lambda>evs s. run_answers_ok (intents_of evs) s"
  using write_step_answers by unfold_locales (auto simp del: write_step.simps)


section \<open>How requests are answered\<close>

text \<open>
  As long as the worker runs, it only answers with responses. When it has failed the other answers are
  its error, and it drops a sender without an answer only after it has stopped at the end of the stream.
\<close>

fun reply_ok :: "write_phase \<Rightarrow> (error, write_response) result option \<Rightarrow> bool" where
  "reply_ok ph None \<longleftrightarrow> ph = Stopped None"
| "reply_ok ph (Some (Ok resp)) \<longleftrightarrow> True"
| "reply_ok ph (Some (Err x)) \<longleftrightarrow>
     (case ph of Failing e \<Rightarrow> x = ser (GaxError e) | Stopped (Some y) \<Rightarrow> x = y | _ \<Rightarrow> False)"

definition replies_ok :: "write_run \<Rightarrow> bool" where
  "replies_ok s \<longleftrightarrow> list_all (reply_ok (fst s) \<circ> snd) (ww_answers (snd s))"

lemma reply_ok_running: "reply_ok (Streaming cn) a \<longleftrightarrow> reply_ok Closing a" "reply_ok Closing a \<Longrightarrow> reply_ok ph a"
  by (cases "(ph, a)" rule: reply_ok.cases; simp)+

definition responds :: "write_worker \<Rightarrow> write_worker \<Rightarrow> bool" where
  "responds w w' \<longleftrightarrow> (\<exists>xs. ww_answers w' = ww_answers w @ xs \<and> list_all (reply_ok Closing \<circ> snd) xs)"

lemma responds_same: "ww_answers w' = ww_answers w \<Longrightarrow> responds w w'"
  by (simp add: responds_def)

lemma response_success_responds:
  "write_response_success crc32c resp origin w = (r, w') \<Longrightarrow> responds w w'"
  by (auto simp: write_response_success_def note_response_def complete_satisfied_eq Let_def responds_def list_all_iff
      split: option.splits if_splits)

lemma reconnect_responds:
  assumes "worker_reconnect_write opts env e w = Ret (r, w')"
  shows "responds w w'"
proof -
  obtain rc c where c: "write_connector_reconnect opts env e (ww_persisted w) (ww_connector w) = Ret (rc, c)"
    using assms by (auto simp: worker_reconnect_write_def Let_def map_run_Ret_iff)
  have w2: "responds w w3" if "write_response_success (op_crc32c opts) initial FromHandshake
      (w\<lparr>ww_self_flush := False, ww_connector := c\<rparr>) = (x, w3)" for initial x w3
    using response_success_responds [OF that] by (simp add: responds_def)
  have same: "ww_answers w4 = ww_answers w3" if "maybe_send_watermark_flush w3 cn = (w4, cn')" for w3 w4 cn cn'
    using maybe_send_answers [OF that] by simp
  show ?thesis
  proof (cases rc)
    case (Err e')
    with assms c show ?thesis by (auto simp: worker_reconnect_write_def Let_def intro: responds_same)
  next
    case (Ok ok)
    then show ?thesis using assms c
      by (cases ok) (auto simp: worker_reconnect_write_def Let_def responds_def split: prod.splits result.splits bool.splits
          dest!: w2 same)
  qed
qed

lemma handle_response_responds:
  assumes "worker_handle_response opts env message w = Ret (r, w')"
  shows "responds w w'"
  using assms
  by (cases rule: worker_handle_response_cases)
    (auto dest: response_success_responds reconnect_responds intro: responds_same)

lemma replies_ok_running [simp]: "replies_ok (Streaming cn, w) = replies_ok (Closing, w)"
  by (simp add: replies_ok_def list_all_iff reply_ok_running(1))

lemma replies_ok_responds: "replies_ok (ph, w) \<Longrightarrow> responds w w' \<Longrightarrow> replies_ok (ph, w')"
  using reply_ok_running(2) by (fastforce simp: replies_ok_def responds_def list_all_iff)

lemma replies_ok_ended:
  assumes "replies_ok (Closing, w)"
  shows "replies_ok (fail_run e w)" "replies_ok (stop_run w)"
  using assms reply_ok_running(2) by (fastforce simp: replies_ok_def fail_run_def stop_run_def list_all_iff)+

lemma write_step_replies:
  assumes ok: "replies_ok s" and en: "write_enabled ev s" and step: "write_step opts ev s = Ret s'"
  shows "replies_ok s'"
proof -
  obtain ph w where s: "s = (ph, w)" by fastforce
  show ?thesis
  proof (cases ph)
    case (Streaming cn)
    show ?thesis
    proof (cases ev)
      case (Received message env)
      with step s Streaming obtain r w' where h: "worker_handle_response opts env message w = Ret (r, w')"
        and s': "s' = (case r of Err e \<Rightarrow> fail_run e w' | Ok Finished \<Rightarrow> stop_run w'
          | Ok (Reconnected cn') \<Rightarrow> (Streaming cn', w')
          | Ok ContinueStream \<Rightarrow> (case maybe_send_watermark_flush w' cn of (w'', cn') \<Rightarrow> (Streaming cn', w'')))"
        by (auto simp: map_run_Ret_iff)
      have w': "replies_ok (Closing, w')" using replies_ok_responds [OF _ handle_response_responds [OF h]] ok s Streaming by simp
      obtain w2 cn2 where m: "maybe_send_watermark_flush w' cn = (w2, cn2)" by fastforce
      have "replies_ok (Closing, w2)" using replies_ok_responds [OF w' responds_same] maybe_send_answers [OF m] by simp
      with s' w' m replies_ok_ended [OF w'] show ?thesis by (cases r) (auto split: response_action.splits)
    next
      case (NewIntent i)
      with step s Streaming obtain req w' where p: "process_intent (op_crc32c opts) i w = Ret (req, w')"
        and "s' = (Streaming (snd (bw_send req cn)), w')" by (auto simp: map_run_Ret_iff)
      moreover have "ww_answers w' = ww_answers w" using p by (cases i) (auto simp: Let_def split: if_splits option.splits prod.splits)
      ultimately show ?thesis using ok s Streaming replies_ok_responds [OF _ responds_same] by simp
    next
      case IntentsClosed
      with step s Streaming ok show ?thesis by auto
    qed
  next
    case Closing
    with en step s obtain m env where "s' = closing_response opts m w" by (cases ev) auto
    with ok s Closing replies_ok_ended replies_ok_responds [OF _ response_success_responds] show ?thesis
      by (auto simp: closing_response_def split: result.splits option.splits prod.splits)
  next
    case (Failing e)
    with en step s ok show ?thesis
    proof (cases ev)
      case (NewIntent i)
      with Failing step s ok show ?thesis by (cases i) (auto simp: replies_ok_def)
    next
      case IntentsClosed
      have "reply_ok (Stopped (Some (ser (GaxError e)))) a" if "reply_ok (Failing e) a" for a
        using that by (cases "(Failing e, a)" rule: reply_ok.cases) auto
      with IntentsClosed Failing step s ok show ?thesis by (fastforce simp: replies_ok_def list_all_iff)
    qed simp
  next
    case (Stopped x)
    with en step s ok show ?thesis
    proof (cases ev)
      case (NewIntent i)
      with Stopped en step s ok show ?thesis by (cases i) (auto simp: replies_ok_def)
    qed auto
  qed
qed

interpretation upload_replies: write_invariant opts "\<lambda>evs. True" "\<lambda>evs s. replies_ok s"
  using write_step_replies by unfold_locales (auto simp del: write_step.simps)

text \<open>
  And it answers when it can: the requests at the front that a message confirms are answered with it at
  once, if the size it reports is possible.
\<close>

lemma satisfied_iff:
  "persisted_size resp = Some q \<Longrightarrow> pending_is_satisfied p resp q \<longleftrightarrow> confirms resp (pending_intent p)"
  by (cases "pd_kind p") (auto simp: pending_is_satisfied_def pending_intent_def)

lemma confirms_size: "confirms resp i \<Longrightarrow> \<exists>q. persisted_size resp = Some q"
  by (cases "persisted_size resp"; cases i) auto

lemma response_success_confirms:
  assumes "write_response_success crc32c resp origin w = (r, w')" "p \<in> set (takeWhile (confirms resp \<circ> pending_intent) (ww_pending w))"
    and "worker_holds crc32c base written w"
    and "is_some_and (\<lambda>q. ww_persisted w \<le> q \<and> q \<le> base + int (length written)) (persisted_size resp)"
  shows "(pd_sender p, Some (Ok resp)) \<in> set (ww_answers w')"
proof -
  from set_takeWhileD [OF assms(2)] obtain q where q: "persisted_size resp = Some q" using confirms_size by fastforce
  have "max_sent_offset (note_response resp origin w) = max_sent_offset w"
    by (simp add: max_sent_offset_def note_response_def Let_def)
  with max_sent_offset_holds [OF assms(3)]
  have "max_sent_offset (note_response resp origin w) = base + int (length written)" by simp
  moreover have "(\<lambda>p. pending_is_satisfied p resp q) = confirms resp \<circ> pending_intent"
    using satisfied_iff [OF q] by (auto simp: comp_def)
  ultimately show ?thesis using assms(1,2,4) q
    by (auto simp: write_response_success_def complete_satisfied_eq Let_def note_response_def split: if_splits)
qed

lemma write_step_confirms:
  assumes "write_step opts (Received (Ok (Some resp)) env) (ph, w) = Ret s'" "ph = Closing \<or> (\<exists>cn. ph = Streaming cn)"
    and "p \<in> set (takeWhile (confirms resp \<circ> pending_intent) (ww_pending w))" "worker_holds (op_crc32c opts) base written w"
    and "is_some_and (\<lambda>q. ww_persisted w \<le> q \<and> q \<le> base + int (length written)) (persisted_size resp)"
  shows "(pd_sender p, Some (Ok resp)) \<in> set (ww_answers (snd s'))"
proof -
  obtain r w' where r: "write_response_success (op_crc32c opts) resp FromStream w = (r, w')" by fastforce
  have "ww_answers w2 = ww_answers w'" if "maybe_send_watermark_flush w' cn = (w2, cn')" for cn w2 cn'
    using maybe_send_answers [OF that] by simp
  with response_success_confirms [OF r assms(3-5)] r assms(1,2) show ?thesis
    by (cases r) (auto simp: worker_handle_response_def closing_response_def fail_run_def split: prod.splits)
qed


section \<open>Answers stay within the data\<close>

definition answers_within :: "int \<Rightarrow> write_worker \<Rightarrow> bool" where
  "answers_within e w \<longleftrightarrow>
     list_all (\<lambda>(sender, a). case a of Some (Ok resp) \<Rightarrow> is_some_and (\<lambda>p. p \<le> e) (persisted_size resp) | _ \<Rightarrow> True)
       (ww_answers w)"

lemma is_some_and_mono: "is_some_and P x \<Longrightarrow> (\<And>y. P y \<Longrightarrow> Q y) \<Longrightarrow> is_some_and Q x"
  by (cases x) auto

lemma answers_within_mono:
  assumes "answers_within e w" "e \<le> e'"
  shows "answers_within e' w"
proof -
  have "(case a of Some (Ok resp) \<Rightarrow> is_some_and (\<lambda>p. p \<le> e) (persisted_size resp) | _ \<Rightarrow> True) \<Longrightarrow>
      (case a of Some (Ok resp) \<Rightarrow> is_some_and (\<lambda>p. p \<le> e') (persisted_size resp) | _ \<Rightarrow> True)"
    for a :: "(error, write_response) result option"
    using assms(2) by (auto split: option.splits result.splits elim: is_some_and_mono)
  with assms(1) show ?thesis unfolding answers_within_def list_all_iff by fast
qed

lemma answers_within_same: "answers_within e w \<Longrightarrow> ww_answers w' = ww_answers w \<Longrightarrow> answers_within e w'"
  by (simp add: answers_within_def)

lemma answers_within_errors [simp]:
  "answers_within e (snd (fail_run x w)) = answers_within e w"
  "answers_within e (snd (stop_run w)) = answers_within e w"
  by (auto simp: answers_within_def fail_run_def stop_run_def list_all_iff)

lemma response_success_within:
  assumes w: "worker_holds crc32c base written w" and b: "answers_within (base + int (length written)) w"
    and s: "write_response_success crc32c response origin w = (r, w')"
  shows "answers_within (base + int (length written)) w'"
proof -
  define w2 where "w2 = note_response response origin w"
  have w2: "worker_holds crc32c base written w2"
    using w by (intro worker_holds_cong [OF _ _ _ _ w]) (auto simp: w2_def note_response_def Let_def worker_holds_def)
  have b2: "answers_within (base + int (length written)) w2"
    by (rule answers_within_same [OF b]) (simp add: w2_def note_response_def Let_def)
  have "answers_within (base + int (length written))
      (complete_satisfied (ww_pending w2) response p (w2\<lparr>ww_persisted := p, ww_replay := replay_ack crc32c p (ww_replay w2)\<rparr>))"
    if "\<not> max_sent_offset w2 < p" "persisted_size response = Some p" for p
    using b2 that max_sent_offset_holds [OF w2] by (auto simp: complete_satisfied_eq answers_within_def list_all_iff)
  with s b2 show ?thesis
    by (auto simp: write_response_success_def w2_def [symmetric] Let_def split: option.splits if_splits)
qed

lemma reconnect_within:
  assumes w: "worker_holds (op_crc32c opts) base written w" and b: "answers_within (base + int (length written)) w"
    and r: "worker_reconnect_write opts env e w = Ret (r, w')"
  shows "answers_within (base + int (length written)) w'"
proof -
  obtain rc c where c: "write_connector_reconnect opts env e (ww_persisted w) (ww_connector w) = Ret (rc, c)"
    using r by (auto simp: worker_reconnect_write_def Let_def map_run_Ret_iff)
  let ?w2 = "w\<lparr>ww_self_flush := False, ww_connector := c\<rparr>"
  have opened: "spec_opened (wc_spec (ww_connector w))" using w by (simp add: worker_holds_def)
  have w2: "worker_holds (op_crc32c opts) base written ?w2"
    using connector_reconnect_opened(1) [OF opened c] w by (intro worker_holds_cong [OF _ _ _ _ w]) simp_all
  have b2: "answers_within (base + int (length written)) ?w2" by (rule answers_within_same [OF b]) simp
  note s = response_success_within [OF w2 b2]
  note same = answers_within_same
  show ?thesis
  proof (cases rc)
    case (Err e')
    with r c b2 show ?thesis by (auto simp: worker_reconnect_write_def Let_def)
  next
    case (Ok ok)
    then show ?thesis using r c
      by (cases ok) (auto simp: worker_reconnect_write_def Let_def split: prod.splits result.splits bool.splits
          dest!: s maybe_send_answers intro: same)
  qed
qed

lemma process_intent_keeps_answers: "process_intent crc32c i w = Ret (req, w') \<Longrightarrow> ww_answers w' = ww_answers w"
  by (cases i) (auto simp: Let_def split: if_splits option.splits prod.splits)

lemma answer_intent_within: "(\<And>resp. r \<noteq> Some (Ok resp)) \<Longrightarrow> answers_within e (answer_intent r i w) = answers_within e w"
  by (cases i) (auto simp: answers_within_def split: option.splits result.splits)

lemma handle_response_within:
  assumes w: "worker_holds (op_crc32c opts) base written w" and b: "answers_within (base + int (length written)) w"
    and h: "worker_handle_response opts env message w = Ret (r, w')"
  shows "answers_within (base + int (length written)) w'"
  using h
  by (cases rule: worker_handle_response_cases) (use b response_success_within [OF w b] reconnect_within [OF w b] in auto)


definition run_within :: "int \<Rightarrow> write_run \<Rightarrow> bool" where
  "run_within e s \<longleftrightarrow> answers_within e (snd s)"

lemma write_step_within:
  assumes ok: "phase_ok (op_crc32c opts) base written s" and b: "run_within (base + int (length written)) s"
    and en: "write_enabled ev s" and step: "write_step opts ev s = Ret s'"
  shows "run_within (base + int (length (written @ data_of (event_intent ev)))) s'"
proof -
  let ?e = "base + int (length written)"
  obtain ph w where s: "s = (ph, w)" by fastforce
  have w: "answers_within ?e w" using b s by (simp add: run_within_def)
  note same = answers_within_same
  show ?thesis
  proof (cases ph)
    case (Streaming cn)
    then have holds: "worker_holds (op_crc32c opts) base written w" using ok s by simp
    show ?thesis
    proof (cases ev)
      case (Received message env)
      with step s Streaming obtain r w' where h: "worker_handle_response opts env message w = Ret (r, w')"
        and s': "s' = (case r of Err e \<Rightarrow> fail_run e w' | Ok Finished \<Rightarrow> stop_run w'
          | Ok (Reconnected cn') \<Rightarrow> (Streaming cn', w')
          | Ok ContinueStream \<Rightarrow> (case maybe_send_watermark_flush w' cn of (w'', cn') \<Rightarrow> (Streaming cn', w'')))"
        by (auto simp: map_run_Ret_iff)
      note w' = handle_response_within [OF holds w h]
      obtain w2 cn2 where m: "maybe_send_watermark_flush w' cn = (w2, cn2)" by fastforce
      have "answers_within ?e w2" using same [OF w'] maybe_send_answers [OF m] by simp
      with Received s' w' m show ?thesis
        by (cases r) (auto simp: run_within_def split: response_action.splits)
    next
      case (NewIntent i)
      with step s Streaming obtain req w' where p: "process_intent (op_crc32c opts) i w = Ret (req, w')"
        and "s' = (Streaming (snd (bw_send req cn)), w')" by (auto simp: map_run_Ret_iff)
      with answers_within_mono [OF same [OF w process_intent_keeps_answers [OF p]]] NewIntent show ?thesis
        by (simp add: run_within_def)
    next
      case IntentsClosed
      with step s Streaming w show ?thesis by (auto simp: run_within_def)
    qed
  next
    case Closing
    then have holds: "worker_holds (op_crc32c opts) base written w" using ok s by simp
    with Closing en step s response_success_within [OF holds w] w show ?thesis
      by (cases ev) (auto simp: run_within_def closing_response_def split: result.splits option.splits prod.splits)
  next
    case (Failing e)
    with en step s answers_within_mono [OF w] show ?thesis
      by (cases ev) (auto simp: run_within_def answer_intent_within)
  next
    case (Stopped x)
    with en step s answers_within_mono [OF w] show ?thesis
      by (cases ev) (auto simp: run_within_def answer_intent_within)
  qed
qed

interpretation upload_bounds: write_invariant opts "\<lambda>evs. intents_ok (op_crc32c opts) (base + int (length before)) (intents_of evs)"
  "\<lambda>evs s. phase_ok (op_crc32c opts) base (before @ data_of (intents_of evs)) s \<and>
     run_within (base + int (length (before @ data_of (intents_of evs)))) s"
proof
  fix evs ev s s'
  assume "phase_ok (op_crc32c opts) base (before @ data_of (intents_of evs)) s \<and>
      run_within (base + int (length (before @ data_of (intents_of evs)))) s"
    and "intents_ok (op_crc32c opts) (base + int (length before)) (intents_of (evs @ [ev]))"
    and step: "write_enabled ev s" "write_step opts ev s = Ret s'"
  then show "phase_ok (op_crc32c opts) base (before @ data_of (intents_of (evs @ [ev]))) s' \<and>
      run_within (base + int (length (before @ data_of (intents_of (evs @ [ev]))))) s'"
    using upload_data.P_step [of opts base before evs s ev s'] write_step_within [OF _ _ step, of base "before @ data_of (intents_of evs)"]
    by (simp only: intents_of_snoc data_of_append append_assoc)
qed simp

end
