(* ===== verification/Storage_Writer.thy ===== *)
theory Storage_Writer
  imports Storage_Write_Worker
begin

text \<open>
  The writer of appendable objects, \<open>storage/src/storage/bidi_write/transport.rs\<close>: it coalesces
  the data of the application, sends intents to its worker and waits for the answers; and the
  composition of writer and worker.

  The channel to the worker takes \<open>tw_accepts\<close> intents before the worker is gone. Answers come
  as a function of the sender, \<open>None\<close> for a sender that was dropped; \<open>joined\<close> is what
  joining the worker's task gives. \<open>combine\<close> is \<open>crc32c_combine\<close>. The conversions between
  messages and the library's own types are a parameter.
\<close>

section \<open>The writer\<close>

datatype join_result = Joined "(error, unit) result" | JoinFailed string

record writer =
  tw_intents :: "upload_intent list"
  tw_accepts :: nat
  tw_generation :: int
  tw_persisted_size :: int
  tw_write_offset :: int
  tw_running_crc32c :: "u32 option"
  tw_buffer :: bytes
  tw_worker_handle :: bool
  tw_next_sender :: nat

record 'st write_setup =
  se_options :: "'st write_options"
  se_combine :: "u32 \<Rightarrow> u32 \<Rightarrow> nat \<Rightarrow> u32"
  se_joined :: join_result
  se_accepts :: nat

definition send_intent :: "upload_intent \<Rightarrow> writer \<Rightarrow> bool \<times> writer" where
  "send_intent i t =
     (if tw_accepts t \<le> length (tw_intents t) then (False, t) else (True, t\<lparr>tw_intents := tw_intents t @ [i]\<rparr>))"

text \<open>Connecting for the first time, and the worker's first state.\<close>

definition connect_first ::
  "'st write_options \<Rightarrow> 'st reconnect_env \<Rightarrow> spec_state \<Rightarrow> (error, write_response \<times> connection \<times> write_connector) result" where
  "connect_first opts env spec =
     (case connect_attempt_loop (op_crc32c opts) (op_mismatch opts) (op_statuses opts) (rn_outcomes env)
             (rn_stopped env) spec 0 of
        (Err e, _, _) \<Rightarrow> Err e
      | (Ok (initial, cn), spec', _) \<Rightarrow>
          Ok (initial, cn, \<lparr>wc_spec = spec', wc_retry_state = None, wc_redirects = None,
            wc_last_persisted_size = (case persisted_size initial of Some p \<Rightarrow> p | None \<Rightarrow> 0)\<rparr>))"

definition seeded_buffer :: "(bytes \<Rightarrow> u32) \<Rightarrow> int \<Rightarrow> (bytes \<times> u32) option \<Rightarrow> replay_buffer" where
  "seeded_buffer crc32c p payload =
     (case payload of
        None \<Rightarrow> replay_new
      | Some (data, crc) \<Rightarrow>
          replay_ack crc32c p (replay_push \<lparr>rc_write_offset = 0, rc_data = data, rc_crc32c = crc\<rparr> replay_new))"

definition crc_baseline :: "write_response \<Rightarrow> int \<Rightarrow> (bytes \<times> u32) option \<Rightarrow> u32 option" where
  "crc_baseline initial p payload =
     (case payload of
        Some (data, crc) \<Rightarrow> Some crc
      | None \<Rightarrow> if p = 0 then Some 0 else wr_persisted_crc32c initial)"

definition start_worker ::
  "'st write_setup \<Rightarrow> write_connector \<Rightarrow> write_response \<Rightarrow> connection \<Rightarrow> int \<Rightarrow> (bytes \<times> u32) option \<Rightarrow>
   (error, writer \<times> write_run) result" where
  "start_worker se c initial cn generation payload =
     (if is_finalized initial then Err already_finalized_error
      else
        let p = (case persisted_size initial of Some p \<Rightarrow> p | None \<Rightarrow> 0);
            initial_len = (case payload of Some (data, crc) \<Rightarrow> int (length data) | None \<Rightarrow> 0);
            b = seeded_buffer (op_crc32c (se_options se)) p payload
        in Ok (\<lparr>tw_intents = [], tw_accepts = se_accepts se,
                tw_generation = (case wr_status initial of Some (Resource r) \<Rightarrow> or_generation r | _ \<Rightarrow> generation),
                tw_persisted_size = p, tw_write_offset = max p initial_len,
                tw_running_crc32c = crc_baseline initial p payload, tw_buffer = [],
                tw_worker_handle = True, tw_next_sender = 0\<rparr>,
              (Streaming cn, with_persisted_size p (worker_with_replay_buffer c b))))"

definition extract_worker_error :: "'st write_setup \<Rightarrow> string \<Rightarrow> writer \<Rightarrow> error \<times> writer" where
  "extract_worker_error se msg t =
     (if tw_worker_handle t then
        (case se_joined se of
           Joined (Err e) \<Rightarrow> e
         | Joined (Ok _) \<Rightarrow> io (MsgError ''worker terminated successfully but channel was closed'')
         | JoinFailed m \<Rightarrow> io (MsgError (''worker task error: '' @ m)), t\<lparr>tw_worker_handle := False\<rparr>)
      else (io (MsgError msg), t))"

definition append_sub_chunk :: "'st write_setup \<Rightarrow> bytes \<Rightarrow> writer \<Rightarrow> (error, unit) result \<times> writer" where
  "append_sub_chunk se chunk t =
     (let crc = op_crc32c (se_options se) chunk;
          request = request_default\<lparr>rq_write_offset := tw_write_offset t, rq_data := Some (chunk, Some crc)\<rparr>
      in case send_intent (IntentAppend request) t of
           (False, t') \<Rightarrow> (case extract_worker_error se ''channel closed'' t' of (e, t'') \<Rightarrow> (Err e, t''))
         | (True, t') \<Rightarrow>
             (Ok (), t'\<lparr>tw_write_offset := tw_write_offset t + int (length chunk),
                tw_running_crc32c := map_option (\<lambda>running. se_combine se running crc (length chunk))
                  (tw_running_crc32c t)\<rparr>))"

fun append_sub_chunks :: "'st write_setup \<Rightarrow> bytes list \<Rightarrow> writer \<Rightarrow> (error, unit) result \<times> writer" where
  "append_sub_chunks se [] t = (Ok (), t)"
| "append_sub_chunks se (c # cs) t =
     (case append_sub_chunk se c t of
        (Err e, t') \<Rightarrow> (Err e, t')
      | (Ok _, t') \<Rightarrow> append_sub_chunks se cs t')"

definition writer_append :: "'st write_setup \<Rightarrow> bytes \<Rightarrow> writer \<Rightarrow> ((error, unit) result \<times> writer) run" where
  "writer_append se chunk t =
     (if chunk = [] then Ret (Ok (), t)
      else map_run (\<lambda>(ready, rest). append_sub_chunks se ready (t\<lparr>tw_buffer := rest\<rparr>))
        (coalesce_push (tw_buffer t) chunk))"

definition append_residual :: "'st write_setup \<Rightarrow> writer \<Rightarrow> (error, unit) result \<times> writer" where
  "append_residual se t =
     (case coalesce_flush (tw_buffer t) of
        (None, b) \<Rightarrow> (Ok (), t\<lparr>tw_buffer := b\<rparr>)
      | (Some residual, b) \<Rightarrow> append_sub_chunk se residual (t\<lparr>tw_buffer := b\<rparr>))"

text \<open>Sending a request with a sender, and waiting for its answer.\<close>

definition ask_worker ::
  "'st write_setup \<Rightarrow> (nat \<Rightarrow> (error, write_response) result option) \<Rightarrow> (nat \<Rightarrow> upload_intent) \<Rightarrow> writer \<Rightarrow>
   (error, write_response) result \<times> writer" where
  "ask_worker se reply intent t =
     (let s = tw_next_sender t
      in case send_intent (intent s) (t\<lparr>tw_next_sender := Suc s\<rparr>) of
           (False, t') \<Rightarrow> (case extract_worker_error se ''channel closed'' t' of (e, t'') \<Rightarrow> (Err e, t''))
         | (True, t') \<Rightarrow>
             (case reply s of
                Some r \<Rightarrow> (r, t')
              | None \<Rightarrow> (case extract_worker_error se ''channel closed'' t' of (e, t'') \<Rightarrow> (Err e, t''))))"

definition flush_request :: "writer \<Rightarrow> write_request" where
  "flush_request t = request_default\<lparr>rq_flush := True, rq_state_lookup := True, rq_write_offset := tw_write_offset t\<rparr>"

definition writer_flush ::
  "'st write_setup \<Rightarrow> (nat \<Rightarrow> (error, write_response) result option) \<Rightarrow> writer \<Rightarrow> (error, int) result \<times> writer" where
  "writer_flush se reply t =
     (case append_residual se t of
        (Err e, t1) \<Rightarrow> (Err e, t1)
      | (Ok _, t1) \<Rightarrow>
          (case ask_worker se reply (\<lambda>s. IntentFlush (flush_request t1) s) t1 of
             (Err e, t2) \<Rightarrow> (Err e, t2)
           | (Ok response, t2) \<Rightarrow>
               (case persisted_size response of
                  None \<Rightarrow> (Err (io (MsgError ''flush response missing write_status'')), t2)
                | Some p \<Rightarrow> (Ok p, t2\<lparr>tw_persisted_size := p\<rparr>))))"

definition finalize_request :: "writer \<Rightarrow> write_request" where
  "finalize_request t = request_default\<lparr>rq_finish_write := True, rq_flush := True,
     rq_write_offset := tw_write_offset t, rq_object_crc32c := tw_running_crc32c t\<rparr>"

fun join_worker :: "join_result \<Rightarrow> (error, unit) result" where
  "join_worker (Joined r) = r"
| "join_worker (JoinFailed m) = Err (io (MsgError (''worker task error: '' @ m)))"

definition drop_and_join_worker :: "'st write_setup \<Rightarrow> writer \<Rightarrow> (error, unit) result" where
  "drop_and_join_worker se t = (if tw_worker_handle t then join_worker (se_joined se) else Ok ())"

definition writer_finalize ::
  "'st write_setup \<Rightarrow> (nat \<Rightarrow> (error, write_response) result option) \<Rightarrow> (object_resource \<Rightarrow> bool) \<Rightarrow> writer \<Rightarrow>
   (error, object_resource) result \<times> writer" where
  "writer_finalize se reply converts t =
     (case append_residual se t of
        (Err e, t1) \<Rightarrow> (Err e, t1)
      | (Ok _, t1) \<Rightarrow>
          (case ask_worker se reply (\<lambda>s. IntentFinalize (finalize_request t1) s) t1 of
             (Err e, t2) \<Rightarrow> (Err e, t2)
           | (Ok response, t2) \<Rightarrow>
               (case wr_status response of
                  Some (Resource r) \<Rightarrow>
                    (if or_finalize_time r \<noteq> None then
                       if converts r then
                         (case drop_and_join_worker se t2 of Err e \<Rightarrow> (Err e, t2) | Ok _ \<Rightarrow> (Ok r, t2))
                       else (Err (deser (MsgError ''converting resource to object'')), t2)
                     else (Err (io (MsgError ''finalize did not return a finalized resource'')), t2))
                | _ \<Rightarrow> (Err (io (MsgError ''finalize did not return a finalized resource'')), t2))))"

definition writer_close ::
  "'st write_setup \<Rightarrow> (nat \<Rightarrow> (error, write_response) result option) \<Rightarrow> writer \<Rightarrow> (error, int) result \<times> writer" where
  "writer_close se reply t =
     (case writer_flush se reply t of
        (Err e, t1) \<Rightarrow> (Err e, t1)
      | (Ok p, t1) \<Rightarrow> (case drop_and_join_worker se t1 of Err e \<Rightarrow> (Err e, t1) | Ok _ \<Rightarrow> (Ok p, t1)))"

text \<open>The three ways to get a writer.\<close>

definition new_open ::
  "'st write_setup \<Rightarrow> 'st reconnect_env \<Rightarrow> write_object_spec \<Rightarrow> (error, writer \<times> write_run) result" where
  "new_open se env spec =
     (case connect_first (se_options se) env (SpecWrite spec None None) of
        Err e \<Rightarrow> Err e
      | Ok (initial, cn, c) \<Rightarrow> start_worker se c initial cn 0 None)"

definition new_open_and_append ::
  "'st write_setup \<Rightarrow> 'st reconnect_env \<Rightarrow> write_object_spec \<Rightarrow> bytes \<Rightarrow> (error, writer \<times> write_run) result run" where
  "new_open_and_append se env spec chunk =
     (if chunk = [] then Ret (new_open se env spec)
      else
        let first = take MAX_WRITE_CHUNK_SIZE chunk
        in case connect_first (se_options se) env (SpecWrite spec None (Some first)) of
             Err e \<Rightarrow> Ret (Err e)
           | Ok (initial, cn, c) \<Rightarrow>
               (case start_worker se c initial cn 0 (Some (first, op_crc32c (se_options se) first)) of
                  Err e \<Rightarrow> Ret (Err e)
                | Ok (t, r) \<Rightarrow>
                    (if MAX_WRITE_CHUNK_SIZE < length chunk then
                       map_run (\<lambda>(res, t'). case res of Err e \<Rightarrow> Err e | Ok _ \<Rightarrow> Ok (t', r))
                         (writer_append se (drop MAX_WRITE_CHUNK_SIZE chunk) t)
                     else Ret (Ok (t, r)))))"

definition new_reopen ::
  "'st write_setup \<Rightarrow> 'st reconnect_env \<Rightarrow> append_object_spec \<Rightarrow> (error, writer \<times> write_run) result" where
  "new_reopen se env spec =
     (case connect_first (se_options se) env (SpecAppend spec None) of
        Err e \<Rightarrow> Err e
      | Ok (initial, cn, c) \<Rightarrow> start_worker se c initial cn (ao_generation spec) None)"


section \<open>The start\<close>

fun spec_chunk :: "spec_state \<Rightarrow> bytes option" where
  "spec_chunk (SpecWrite spec token chunk) = chunk"
| "spec_chunk (SpecAppend spec chunk) = chunk"

lemma spec_redirect_chunk: "spec_handle_redirect st spec status = (e, spec') \<Longrightarrow> spec_chunk spec' = spec_chunk spec"
  by (cases spec) (auto simp: spec_handle_redirect_def Let_def split: option.splits)

definition payload_chunks :: "(bytes \<Rightarrow> u32) \<Rightarrow> bytes option \<Rightarrow> replay_chunk list" where
  "payload_chunks crc32c chunk =
     (case chunk of
        Some d \<Rightarrow> if d = [] then [] else [\<lparr>rc_write_offset = 0, rc_data = d, rc_crc32c = crc32c d\<rparr>]
      | None \<Rightarrow> [])"

lemma opening_request_chunks: "request_chunk crc32c (opening_request crc32c spec) = payload_chunks crc32c (spec_chunk spec)"
  by (cases spec) (auto simp: request_chunk_def opening_request_def payload_chunks_def request_default_def split: option.split)

lemma connect_attempt_start:
  assumes "connect_attempt crc32c mm st spec outcome = (r, spec')"
  shows "case r of Err e \<Rightarrow> spec_chunk spec' = spec_chunk spec
    | Ok (m, cn) \<Rightarrow> spec_opened spec' \<and> stream_chunks crc32c cn = payload_chunks crc32c (spec_chunk spec)"
  using assms
  by (auto simp: connect_attempt_def prepare_request_def spec_opened_any_response stream_chunks_def opening_request_chunks
      split: result.splits connect_outcome.splits if_splits prod.splits dest: spec_redirect_chunk)

lemma connect_attempt_loop_start:
  "connect_attempt_loop crc32c mm st xs e spec k = (Ok (m, cn), spec', k') \<Longrightarrow>
   spec_opened spec' \<and> stream_chunks crc32c cn = payload_chunks crc32c (spec_chunk spec)"
proof (induction xs arbitrary: e spec k)
  case (Cons x xs)
  obtain r1 spec1 where a: "connect_attempt crc32c mm st spec x = (r1, spec1)" by fastforce
  with Cons.prems Cons.IH connect_attempt_start [OF a] show ?case by (cases r1) auto
qed simp

text \<open>
  The service is honest about the start: the size it reports is not negative, and no more than the
  data of the opening request if that created the object.
\<close>

definition honest_start :: "write_response \<Rightarrow> (bytes \<times> u32) option \<Rightarrow> bool" where
  "honest_start initial payload \<longleftrightarrow>
     (case persisted_size initial of
        None \<Rightarrow> True
      | Some p \<Rightarrow> 0 \<le> p \<and> (case payload of None \<Rightarrow> True | Some (d, c) \<Rightarrow> p \<le> int (length d)))"

text \<open>Where the data of a writer starts, and what is written when it starts.\<close>

definition start_base :: "write_response \<Rightarrow> (bytes \<times> u32) option \<Rightarrow> int" where
  "start_base initial payload =
     (case payload of None \<Rightarrow> (case persisted_size initial of Some p \<Rightarrow> p | None \<Rightarrow> 0) | Some _ \<Rightarrow> 0)"

definition start_data :: "(bytes \<times> u32) option \<Rightarrow> bytes" where
  "start_data payload = (case payload of None \<Rightarrow> [] | Some (d, c) \<Rightarrow> d)"

definition payload_of :: "(bytes \<Rightarrow> u32) \<Rightarrow> bytes option \<Rightarrow> (bytes \<times> u32) option" where
  "payload_of crc32c chunk = map_option (\<lambda>d. (d, crc32c d)) chunk"

definition first_chunk_ok :: "bytes option \<Rightarrow> bool" where
  "first_chunk_ok chunk \<longleftrightarrow> (case chunk of None \<Rightarrow> True | Some d \<Rightarrow> d \<noteq> [] \<and> length d \<le> MAX_WRITE_CHUNK_SIZE)"

lemma seeded_buffer_holds:
  assumes "honest_start initial (payload_of crc32c chunk)"
    and p: "p = (case persisted_size initial of Some p \<Rightarrow> p | None \<Rightarrow> 0)"
  shows "replay_holds crc32c (seeded_buffer crc32c p (payload_of crc32c chunk)) p
    (drop (nat (p - start_base initial (payload_of crc32c chunk))) (start_data (payload_of crc32c chunk)))"
proof (cases chunk)
  case None
  then show ?thesis
    by (simp add: payload_of_def seeded_buffer_def start_data_def replay_new_def replay_holds_new)
next
  case (Some d)
  have le: "0 \<le> p" "p \<le> int (length d)" using assms Some
    by (auto simp: honest_start_def payload_of_def split: option.splits)
  have "replay_holds crc32c (replay_push \<lparr>rc_write_offset = 0, rc_data = d, rc_crc32c = crc32c d\<rparr> replay_new) 0 ([] @ d)"
    using replay_holds_push [of crc32c replay_new 0 "[]" "\<lparr>rc_write_offset = 0, rc_data = d, rc_crc32c = crc32c d\<rparr>"]
    by (simp add: replay_new_def replay_holds_new)
  from replay_holds_ack [OF this, of p] le Some show ?thesis
    by (simp add: payload_of_def seeded_buffer_def start_base_def start_data_def)
qed

lemma seeded_capacity [simp]: "rb_capacity (seeded_buffer crc32c p payload) = DEFAULT_REPLAY_BUFFER_SIZE"
  by (auto simp: seeded_buffer_def replay_new_def replay_with_capacity_def DEFAULT_REPLAY_BUFFER_SIZE_def
      MIN_REPLAY_BUFFER_SIZE_def MAX_WRITE_CHUNK_SIZE_def split: option.split)

text \<open>Every way to get a writer ends in a state that satisfies the worker's invariants.\<close>

lemma start_worker_ok:
  assumes cf: "connect_first (se_options se) env spec = Ok (initial, cn, c)"
    and chunk: "first_chunk_ok (spec_chunk spec)"
    and pl: "payload = payload_of (op_crc32c (se_options se)) (spec_chunk spec)"
    and honest: "honest_start initial payload"
    and st: "start_worker se c initial cn g payload = Ok (t, s)"
  shows "phase_ok (op_crc32c (se_options se)) (start_base initial payload) (start_data payload) s \<and>
    run_answers_ok [] s \<and> ww_answers (snd s) = [] \<and>
    tw_write_offset t = start_base initial payload + int (length (start_data payload)) \<and>
    tw_intents t = [] \<and> tw_buffer t = [] \<and> tw_next_sender t = 0"
proof -
  let ?crc = "op_crc32c (se_options se)"
  define p where "p = (case persisted_size initial of Some p \<Rightarrow> p | None \<Rightarrow> 0)"
  have sc: "spec_opened (wc_spec c)" "stream_chunks ?crc cn = payload_chunks ?crc (spec_chunk spec)"
    using cf connect_attempt_loop_start by (auto simp: connect_first_def split: prod.splits result.splits) blast+
  have h: "replay_holds ?crc (seeded_buffer ?crc p payload) p (drop (nat (p - start_base initial payload)) (start_data payload))"
    unfolding pl by (rule seeded_buffer_holds [OF honest [unfolded pl] p_def])
  have le: "0 \<le> start_base initial payload" "start_base initial payload \<le> p"
      "p \<le> start_base initial payload + int (length (start_data payload))"
    using honest by (auto simp: honest_start_def start_base_def start_data_def p_def split: option.splits)
  define w where "w = with_persisted_size p (worker_with_replay_buffer c (seeded_buffer ?crc p payload))"
  have w: "worker_holds ?crc (start_base initial payload) (start_data payload) w"
    using h le sc(1) by (simp add: w_def worker_holds_def with_persisted_size_def worker_with_replay_buffer_def
        DEFAULT_REPLAY_BUFFER_SIZE_def MIN_REPLAY_BUFFER_SIZE_def MAX_WRITE_CHUNK_SIZE_def)
  have stream: "stream_ok ?crc (start_base initial payload) (start_data payload) cn"
    using chunk sc(2) le pl
    by (cases "spec_chunk spec")
      (auto simp: stream_ok_def payload_chunks_def payload_of_def first_chunk_ok_def start_base_def start_data_def)
  have small: "rb_unpersisted_bytes (seeded_buffer ?crc p payload) \<le> MAX_WRITE_CHUNK_SIZE"
    using h chunk pl by (cases "spec_chunk spec")
      (auto simp: replay_holds_def first_chunk_ok_def start_data_def payload_of_def)
  then have live: "stream_live w cn"
    by (simp add: stream_live_def w_def with_persisted_size_def worker_with_replay_buffer_def needs_watermark_flush_def
        above_watermark_def DEFAULT_REPLAY_BUFFER_SIZE_def MAX_WRITE_CHUNK_SIZE_def)
  have s: "s = (Streaming cn, w)" using st by (auto simp: start_worker_def Let_def p_def w_def split: if_splits)
  have "tw_write_offset t = start_base initial payload + int (length (start_data payload))"
    using st honest by (auto simp: start_worker_def Let_def start_base_def start_data_def honest_start_def
        split: if_splits option.splits)
  with s w stream live st show ?thesis
    by (auto simp: start_worker_def Let_def run_answers_ok_def answers_ok_def w_def with_persisted_size_def
        worker_with_replay_buffer_def split: if_splits)
qed


section \<open>The intents of a writer\<close>

definition tw_gone :: "writer \<Rightarrow> bool" where
  "tw_gone t \<longleftrightarrow> tw_accepts t \<le> length (tw_intents t)"

text \<open>
  \<open>appended\<close> is everything the application appended. The intents carry a prefix of it in order, and
  all of it but the buffered bytes while the worker is there. \<open>whole\<close> is the data before the first
  intent, whose checksum the running checksum starts from.
\<close>

definition writer_ok :: "'st write_setup \<Rightarrow> bytes option \<Rightarrow> int \<Rightarrow> bytes \<Rightarrow> writer \<Rightarrow> bool" where
  "writer_ok se whole pos appended t \<longleftrightarrow>
     intents_ok (op_crc32c (se_options se)) pos (tw_intents t) \<and>
     tw_write_offset t = pos + int (length (data_of (tw_intents t))) \<and>
     length (tw_buffer t) < COALESCING_CHUNK_SIZE \<and>
     prefix (data_of (tw_intents t)) appended \<and>
     (tw_gone t \<or> data_of (tw_intents t) @ tw_buffer t = appended) \<and>
     distinct (concat (map intent_senders (tw_intents t))) \<and>
     list_all (\<lambda>s. s < tw_next_sender t) (concat (map intent_senders (tw_intents t))) \<and>
     tw_running_crc32c t = map_option (\<lambda>d. op_crc32c (se_options se) (d @ data_of (tw_intents t))) whole"

text \<open>What \<open>crc32c_combine\<close> promises.\<close>

definition crc_law :: "'st write_setup \<Rightarrow> bool" where
  "crc_law se \<longleftrightarrow> op_crc32c (se_options se) [] = 0 \<and> (\<forall>a b. se_combine se (op_crc32c (se_options se) a) (op_crc32c (se_options se) b) (length b) =
     op_crc32c (se_options se) (a @ b))"

lemma send_intent_simps:
  "tw_gone t \<Longrightarrow> send_intent i t = (False, t)"
  "\<not> tw_gone t \<Longrightarrow> send_intent i t = (True, t\<lparr>tw_intents := tw_intents t @ [i]\<rparr>)"
  by (simp_all add: send_intent_def tw_gone_def)

lemma extract_error_keeps:
  "extract_worker_error se msg t = (e, t') \<Longrightarrow> writer_ok se whole pos appended t \<Longrightarrow> tw_gone t \<Longrightarrow>
   writer_ok se whole pos appended t' \<and> tw_gone t'"
  by (auto simp: extract_worker_error_def writer_ok_def tw_gone_def split: if_splits)

lemma extract_error_same:
  "extract_worker_error se msg t = (e, t') \<Longrightarrow> writer_ok se whole pos appended t = writer_ok se whole pos appended t'"
  by (auto simp: extract_worker_error_def writer_ok_def tw_gone_def split: if_splits)

text \<open>Moving a chunk from the front of what is left to the intents.\<close>

definition writer_owes :: "'st write_setup \<Rightarrow> bytes option \<Rightarrow> int \<Rightarrow> bytes \<Rightarrow> bytes \<Rightarrow> writer \<Rightarrow> bool" where
  "writer_owes se whole pos appended owed t \<longleftrightarrow>
     intents_ok (op_crc32c (se_options se)) pos (tw_intents t) \<and>
     tw_write_offset t = pos + int (length (data_of (tw_intents t))) \<and>
     length (tw_buffer t) < COALESCING_CHUNK_SIZE \<and>
     prefix (data_of (tw_intents t)) appended \<and>
     (tw_gone t \<or> data_of (tw_intents t) @ owed @ tw_buffer t = appended) \<and>
     distinct (concat (map intent_senders (tw_intents t))) \<and>
     list_all (\<lambda>s. s < tw_next_sender t) (concat (map intent_senders (tw_intents t))) \<and>
     tw_running_crc32c t = map_option (\<lambda>d. op_crc32c (se_options se) (d @ data_of (tw_intents t))) whole"

lemma writer_ok_owes: "writer_ok se whole pos appended t \<longleftrightarrow> writer_owes se whole pos appended [] t"
  by (simp add: writer_ok_def writer_owes_def)

lemma writer_owes_gone: "writer_owes se whole pos appended owed t \<Longrightarrow> tw_gone t \<Longrightarrow> writer_ok se whole pos appended t"
  by (simp add: writer_ok_def writer_owes_def)

lemma append_sub_chunk_ok:
  assumes law: "crc_law se" and t: "writer_owes se whole pos appended (chunk @ owed) t"
    and a: "append_sub_chunk se chunk t = (r, t')"
  shows "case r of Ok _ \<Rightarrow> writer_owes se whole pos appended owed t' | Err e \<Rightarrow> writer_ok se whole pos appended t' \<and> tw_gone t'"
proof (cases "tw_gone t")
  case True
  note ok = writer_owes_gone [OF t True]
  obtain e t1 where x: "extract_worker_error se ''channel closed'' t = (e, t1)" by fastforce
  from extract_error_keeps [OF x ok True] a x True show ?thesis
    by (auto simp: append_sub_chunk_def Let_def send_intent_simps)
next
  case False
  define req where "req = request_default\<lparr>rq_write_offset := tw_write_offset t,
    rq_data := Some (chunk, Some (op_crc32c (se_options se) chunk))\<rparr>"
  have d: "data_of (tw_intents t) @ chunk @ owed @ tw_buffer t = appended"
    using t False by (auto simp: writer_owes_def)
  have "r = Ok ()" and t': "t' = t\<lparr>tw_intents := tw_intents t @ [IntentAppend req],
      tw_write_offset := tw_write_offset t + int (length chunk),
      tw_running_crc32c := map_option (\<lambda>running. se_combine se running (op_crc32c (se_options se) chunk) (length chunk))
        (tw_running_crc32c t)\<rparr>"
    using a False by (auto simp: append_sub_chunk_def Let_def send_intent_simps req_def)
  moreover have "prefix (data_of (tw_intents t) @ chunk) appended" unfolding d [symmetric] by simp
  then have "writer_owes se whole pos appended owed t'"
    using t d law unfolding t'
    by (auto simp: writer_owes_def req_def request_default_def crc_law_def option.map_comp comp_def
        simp flip: append_assoc)
  ultimately show ?thesis by simp
qed

lemma append_sub_chunks_ok:
  assumes law: "crc_law se"
  shows "writer_owes se whole pos appended (concat cs) t \<Longrightarrow> append_sub_chunks se cs t = (r, t') \<Longrightarrow>
    writer_ok se whole pos appended t' \<and> (case r of Ok _ \<Rightarrow> True | Err e \<Rightarrow> tw_gone t')"
proof (induction cs arbitrary: t)
  case Nil
  then show ?case by (auto simp: writer_ok_owes)
next
  case (Cons c cs)
  obtain r1 t1 where a: "append_sub_chunk se c t = (r1, t1)" by fastforce
  have "case r1 of Ok _ \<Rightarrow> writer_owes se whole pos appended (concat cs) t1
      | Err e \<Rightarrow> writer_ok se whole pos appended t1 \<and> tw_gone t1"
    using append_sub_chunk_ok [OF law _ a] Cons.prems(1) by simp
  with Cons.IH [of t1] Cons.prems(2) a show ?case by (cases r1) auto
qed

lemma prefix_extend: "prefix a b \<Longrightarrow> prefix a (b @ c)"
  by (auto simp: prefix_def)

lemma writer_append_ok:
  assumes law: "crc_law se" and t: "writer_ok se whole pos appended t"
  shows "\<exists>r t'. writer_append se chunk t = Ret (r, t') \<and> writer_ok se whole pos (appended @ chunk) t' \<and>
    (case r of Ok _ \<Rightarrow> True | Err e \<Rightarrow> tw_gone t')"
proof (cases "chunk = []")
  case True
  with t show ?thesis by (simp add: writer_append_def)
next
  case False
  obtain ready rest where p: "coalesce_push (tw_buffer t) chunk = Ret (ready, rest)"
    "concat ready @ rest = tw_buffer t @ chunk" "length rest < COALESCING_CHUNK_SIZE"
    using coalesce_push_spec [of "tw_buffer t" chunk] t by (auto simp: writer_ok_def)
  obtain r t' where a: "append_sub_chunks se ready (t\<lparr>tw_buffer := rest\<rparr>) = (r, t')" by fastforce
  have "writer_owes se whole pos (appended @ chunk) (concat ready) (t\<lparr>tw_buffer := rest\<rparr>)"
    using t p(2,3) by (auto simp: writer_ok_def writer_owes_def tw_gone_def prefix_extend)
  from append_sub_chunks_ok [OF law this a] a p(1) False show ?thesis
    by (simp add: writer_append_def)
qed


lemma append_residual_ok:
  assumes law: "crc_law se" and t: "writer_ok se whole pos appended t" and a: "append_residual se t = (r, t')"
  shows "writer_ok se whole pos appended t'"
    "case r of Ok _ \<Rightarrow> tw_buffer t' = [] | Err e \<Rightarrow> tw_gone t'"
proof -
  have "writer_ok se whole pos appended t' \<and> (case r of Ok _ \<Rightarrow> tw_buffer t' = [] | Err e \<Rightarrow> tw_gone t')"
  proof (cases "tw_buffer t = []")
    case True
    then have "t\<lparr>tw_buffer := []\<rparr> = t" by (cases t) simp
    with True a t show ?thesis by (auto simp: append_residual_def coalesce_flush_def)
  next
    case False
    have "writer_owes se whole pos appended (tw_buffer t @ []) (t\<lparr>tw_buffer := []\<rparr>)"
      using t by (auto simp: writer_ok_def writer_owes_def tw_gone_def)
    moreover have b: "append_sub_chunk se (tw_buffer t) (t\<lparr>tw_buffer := []\<rparr>) = (r, t')"
      using a False by (simp add: append_residual_def coalesce_flush_def)
    moreover have "tw_buffer t' = []"
      using b by (auto simp: append_sub_chunk_def Let_def send_intent_def extract_worker_error_def split: if_splits)
    ultimately show ?thesis using append_sub_chunk_ok [OF law]
      by (cases r) (fastforce simp: writer_ok_owes)+
  qed
  then show "writer_ok se whole pos appended t'" "case r of Ok _ \<Rightarrow> tw_buffer t' = [] | Err e \<Rightarrow> tw_gone t'" by blast+
qed

lemma ask_worker_ok:
  assumes t: "writer_ok se whole pos appended t" "tw_buffer t = []"
    and i: "intent_ok (op_crc32c (se_options se)) (tw_write_offset t) (intent (tw_next_sender t))"
      "intent_data (intent (tw_next_sender t)) = []"
      "intent_senders (intent (tw_next_sender t)) = [tw_next_sender t]"
    and a: "ask_worker se reply intent t = (r, t')"
  shows "writer_ok se whole pos appended t'"
    "r = Ok resp \<Longrightarrow> reply (tw_next_sender t) = Some (Ok resp) \<and> data_of (tw_intents t) = appended \<and>
       tw_intents t' = tw_intents t @ [intent (tw_next_sender t)]"
proof -
  let ?s = "tw_next_sender t"
  let ?t1 = "t\<lparr>tw_next_sender := Suc ?s\<rparr>"
  let ?t2 = "?t1\<lparr>tw_intents := tw_intents t @ [intent ?s]\<rparr>"
  have senders: "list_all (\<lambda>x. x < Suc ?s) (concat (map intent_senders (tw_intents t)))"
    "?s \<notin> set (concat (map intent_senders (tw_intents t)))"
    using t(1) by (auto simp: writer_ok_def list_all_iff less_Suc_eq)
  have t1: "writer_ok se whole pos appended ?t1"
    using t senders(1) by (simp add: writer_ok_def tw_gone_def)
  have t2: "writer_ok se whole pos appended ?t2" if "\<not> tw_gone t"
    using t i senders that by (auto simp: writer_ok_def tw_gone_def)
  have g: "tw_gone ?t1 = tw_gone t" by (simp add: tw_gone_def)
  show "writer_ok se whole pos appended t'"
    using a t1 t2 g extract_error_same
    by (cases "tw_gone t") (fastforce simp: ask_worker_def Let_def send_intent_simps split: option.splits prod.splits)+
  show "reply ?s = Some (Ok resp) \<and> data_of (tw_intents t) = appended \<and> tw_intents t' = tw_intents t @ [intent ?s]"
    if "r = Ok resp"
    using a that t g
    by (cases "tw_gone t") (auto simp: ask_worker_def Let_def send_intent_simps writer_ok_def split: option.splits prod.splits)
qed

lemma flush_request_simps [simp]:
  "rq_flush (flush_request t)" "rq_state_lookup (flush_request t)" "rq_write_offset (flush_request t) = tw_write_offset t"
  "rq_data (flush_request t) = None"
  by (simp_all add: flush_request_def request_default_def)

lemma finalize_request_simps [simp]:
  "rq_flush (finalize_request t)" "rq_finish_write (finalize_request t)"
  "rq_write_offset (finalize_request t) = tw_write_offset t"
  "rq_data (finalize_request t) = None" "rq_object_crc32c (finalize_request t) = tw_running_crc32c t"
  by (simp_all add: finalize_request_def request_default_def)

text \<open>What a successful flush and finalize know.\<close>

lemma writer_flush_ok:
  assumes law: "crc_law se" and t: "writer_ok se whole pos appended t" and f: "writer_flush se reply t = (r, t')"
  shows "writer_ok se whole pos appended t'"
    "r = Ok n \<Longrightarrow> \<exists>is req s resp. tw_intents t' = is @ [IntentFlush req s] \<and> data_of is = appended \<and>
       s \<notin> set (concat (map intent_senders is)) \<and>
       rq_write_offset req = pos + int (length appended) \<and> reply s = Some (Ok resp) \<and> persisted_size resp = Some n"
proof -
  obtain r1 t1 where a: "append_residual se t = (r1, t1)" by fastforce
  note t1 = append_residual_ok [OF law t a]
  obtain r2 t2 where k: "ask_worker se reply (\<lambda>s. IntentFlush (flush_request t1) s) t1 = (r2, t2)" by fastforce
  have t2: "writer_ok se whole pos appended t2"
    "r2 = Ok resp \<Longrightarrow> reply (tw_next_sender t1) = Some (Ok resp) \<and> data_of (tw_intents t1) = appended \<and>
       tw_intents t2 = tw_intents t1 @ [IntentFlush (flush_request t1) (tw_next_sender t1)]"
    if "r1 = Ok ()" for resp
    using ask_worker_ok(1) [OF t1(1) _ _ _ _ k] ask_worker_ok(2) [OF t1(1) _ _ _ _ k, of resp] t1(2) that by auto
  have same: "writer_ok se whole pos appended (x\<lparr>tw_persisted_size := p\<rparr>) = writer_ok se whole pos appended x" for x p
    by (simp add: writer_ok_def tw_gone_def)
  show "writer_ok se whole pos appended t'"
    using f a k t1 t2(1) same by (cases r1; cases r2) (auto simp: writer_flush_def split: option.splits)
  assume r: "r = Ok n"
  then obtain resp where ok: "r1 = Ok ()" "r2 = Ok resp" "persisted_size resp = Some n" "tw_intents t' = tw_intents t2"
    using f a k by (cases r1; cases r2) (auto simp: writer_flush_def split: option.splits)
  have "tw_next_sender t1 \<notin> set (concat (map intent_senders (tw_intents t1)))"
    using t1(1) by (auto simp: writer_ok_def list_all_iff)
  moreover have "rq_write_offset (flush_request t1) = pos + int (length (data_of (tw_intents t1)))"
    using t1(1) by (simp add: flush_request_def writer_ok_def)
  ultimately show "\<exists>is req s resp. tw_intents t' = is @ [IntentFlush req s] \<and> data_of is = appended \<and>
       s \<notin> set (concat (map intent_senders is)) \<and>
       rq_write_offset req = pos + int (length appended) \<and> reply s = Some (Ok resp) \<and> persisted_size resp = Some n"
    using t2(2) [OF ok(1,2)] ok(3,4) by auto
qed

lemma writer_finalize_ok:
  assumes law: "crc_law se" and t: "writer_ok se whole pos appended t"
    and f: "writer_finalize se reply converts t = (Ok res, t')"
  shows "\<exists>is req s resp. tw_intents t' = is @ [IntentFinalize req s] \<and> data_of is = appended \<and>
    s \<notin> set (concat (map intent_senders is)) \<and> writer_ok se whole pos appended t' \<and>
    rq_write_offset req = pos + int (length appended) \<and> reply s = Some (Ok resp) \<and>
    rq_object_crc32c req = map_option (\<lambda>d. op_crc32c (se_options se) (d @ appended)) whole \<and>
    wr_status resp = Some (Resource res) \<and> or_finalize_time res \<noteq> None"
proof -
  obtain r1 t1 where a: "append_residual se t = (r1, t1)" by fastforce
  note t1 = append_residual_ok [OF law t a]
  obtain r2 t2 where k: "ask_worker se reply (\<lambda>s. IntentFinalize (finalize_request t1) s) t1 = (r2, t2)" by fastforce
  obtain resp where ok: "r1 = Ok ()" "r2 = Ok resp" "wr_status resp = Some (Resource res)" "or_finalize_time res \<noteq> None" "t' = t2"
    using f a k by (cases r1; cases r2) (auto simp: writer_finalize_def split: option.splits write_status.splits if_splits result.splits)
  have t2: "writer_ok se whole pos appended t2" "reply (tw_next_sender t1) = Some (Ok resp)"
    "data_of (tw_intents t1) = appended"
    "tw_intents t2 = tw_intents t1 @ [IntentFinalize (finalize_request t1) (tw_next_sender t1)]"
    using ask_worker_ok(1) [OF t1(1) _ _ _ _ k] ask_worker_ok(2) [OF t1(1) _ _ _ _ k, of resp] t1(2) ok(1,2) by auto
  have "tw_next_sender t1 \<notin> set (concat (map intent_senders (tw_intents t1)))"
    using t1(1) by (auto simp: writer_ok_def list_all_iff)
  moreover have "rq_write_offset (finalize_request t1) = pos + int (length (data_of (tw_intents t1)))"
    "rq_object_crc32c (finalize_request t1) = map_option (\<lambda>d. op_crc32c (se_options se) (d @ data_of (tw_intents t1))) whole"
    using t1(1) by (simp_all add: finalize_request_def writer_ok_def)
  ultimately show ?thesis using t2 ok(3-5) by auto
qed


section \<open>Sessions\<close>

text \<open>The ways to open a writer, and what the application does with it.\<close>

datatype write_opening = Open write_object_spec | OpenAndAppend write_object_spec bytes | Reopen append_object_spec

fun open_writer :: "'st write_setup \<Rightarrow> 'st reconnect_env \<Rightarrow> write_opening \<Rightarrow> (error, writer \<times> write_run) result run" where
  "open_writer se env (Open spec) = Ret (new_open se env spec)"
| "open_writer se env (OpenAndAppend spec chunk) = new_open_and_append se env spec chunk"
| "open_writer se env (Reopen spec) = Ret (new_reopen se env spec)"

fun opening_chunk :: "write_opening \<Rightarrow> bytes option" where
  "opening_chunk (OpenAndAppend spec chunk) = (if chunk = [] then None else Some (take MAX_WRITE_CHUNK_SIZE chunk))"
| "opening_chunk _ = None"

fun opening_data :: "write_opening \<Rightarrow> bytes" where
  "opening_data (OpenAndAppend spec chunk) = chunk"
| "opening_data _ = []"

fun opening_spec :: "write_opening \<Rightarrow> spec_state" where
  "opening_spec (Open spec) = SpecWrite spec None None"
| "opening_spec (OpenAndAppend spec chunk) = SpecWrite spec None (opening_chunk (OpenAndAppend spec chunk))"
| "opening_spec (Reopen spec) = SpecAppend spec None"

datatype writer_op = OpAppend bytes | OpFlush

fun op_data :: "writer_op \<Rightarrow> bytes" where
  "op_data (OpAppend d) = d"
| "op_data OpFlush = []"

text \<open>Operations that fail do not stop the application here.\<close>

fun writer_ops ::
  "'st write_setup \<Rightarrow> (nat \<Rightarrow> (error, write_response) result option) \<Rightarrow> writer_op list \<Rightarrow> writer \<Rightarrow> writer run" where
  "writer_ops se reply [] t = Ret t"
| "writer_ops se reply (OpAppend d # ops) t = bind_run (writer_append se d t) (\<lambda>(r, t'). writer_ops se reply ops t')"
| "writer_ops se reply (OpFlush # ops) t = (case writer_flush se reply t of (r, t') \<Rightarrow> writer_ops se reply ops t')"

lemma writer_ops_ok:
  assumes law: "crc_law se"
  shows "writer_ok se whole pos appended t \<Longrightarrow>
    \<exists>t'. writer_ops se reply ops t = Ret t' \<and> writer_ok se whole pos (appended @ concat (map op_data ops)) t'"
proof (induction ops arbitrary: t appended)
  case Nil
  then show ?case by simp
next
  case (Cons x ops)
  show ?case
  proof (cases x)
    case (OpAppend d)
    obtain r t1 where "writer_append se d t = Ret (r, t1)" "writer_ok se whole pos (appended @ d) t1"
      using writer_append_ok [OF law Cons.prems] by blast
    with Cons.IH OpAppend show ?thesis by fastforce
  next
    case OpFlush
    obtain r t1 where f: "writer_flush se reply t = (r, t1)" by fastforce
    from Cons.IH [OF writer_flush_ok(1) [OF law Cons.prems f]] f OpFlush show ?thesis by simp
  qed
qed

text \<open>
  What the service says when the stream opens is true: \<open>existing\<close> is the content of the object
  before the first byte of this writer.
\<close>

definition start_known :: "(bytes \<Rightarrow> u32) \<Rightarrow> bytes \<Rightarrow> write_response \<Rightarrow> bytes option \<Rightarrow> bool" where
  "start_known crc32c existing initial chunk \<longleftrightarrow>
     honest_start initial (payload_of crc32c chunk) \<and>
     int (length existing) = start_base initial (payload_of crc32c chunk) \<and>
     (chunk = None \<longrightarrow> (case wr_persisted_crc32c initial of None \<Rightarrow> True | Some c \<Rightarrow> c = crc32c existing))"

text \<open>The running checksum exists except when the service does not say where it starts.\<close>

definition known_whole :: "bytes \<Rightarrow> write_response \<Rightarrow> bytes option \<Rightarrow> bytes option" where
  "known_whole existing initial chunk =
     (case chunk of
        Some d \<Rightarrow> Some (existing @ d)
      | None \<Rightarrow> if existing = [] then Some [] else map_option (\<lambda>_. existing) (wr_persisted_crc32c initial))"

definition opening_first :: "write_opening \<Rightarrow> bytes" where
  "opening_first how = (case opening_chunk how of None \<Rightarrow> [] | Some d \<Rightarrow> d)"

lemma opening_chunk_ok: "first_chunk_ok (opening_chunk how)"
  by (cases how) (auto simp: first_chunk_ok_def MAX_WRITE_CHUNK_SIZE_def)

lemma opening_spec_chunk [simp]: "spec_chunk (opening_spec how) = opening_chunk how"
  by (cases how) auto

lemma start_worker_writer_ok:
  assumes law: "crc_law se" and cf: "connect_first (se_options se) env spec = Ok (initial, cn, c)"
    and chunk: "first_chunk_ok (spec_chunk spec)"
    and known: "start_known (op_crc32c (se_options se)) existing initial (spec_chunk spec)"
    and st: "start_worker se c initial cn g (payload_of (op_crc32c (se_options se)) (spec_chunk spec)) = Ok (t, s)"
    and d: "d = (case spec_chunk spec of None \<Rightarrow> [] | Some d \<Rightarrow> d)"
  shows "writer_ok se (known_whole existing initial (spec_chunk spec)) (int (length existing) + int (length d)) [] t"
    "phase_ok (op_crc32c (se_options se)) (int (length existing)) d s" "run_answers_ok [] s"
    "run_within (int (length existing) + int (length d)) s"
proof -
  let ?crc = "op_crc32c (se_options se)"
  let ?pl = "payload_of ?crc (spec_chunk spec)"
  have base: "start_base initial ?pl = int (length existing)" using known by (simp add: start_known_def)
  have data: "start_data ?pl = d" using d by (auto simp: start_data_def payload_of_def split: option.splits)
  have "honest_start initial ?pl" using known by (simp add: start_known_def)
  note ok = start_worker_ok [OF cf chunk refl this st, unfolded base data]
  then show "phase_ok ?crc (int (length existing)) d s" "run_answers_ok [] s" by auto
  show "run_within (int (length existing) + int (length d)) s"
    using ok by (simp add: run_within_def answers_within_def)
  have "tw_running_crc32c t = crc_baseline initial (case persisted_size initial of Some p \<Rightarrow> p | None \<Rightarrow> 0) ?pl"
    using st by (auto simp: start_worker_def Let_def split: if_splits)
  also have "\<dots> = map_option ?crc (known_whole existing initial (spec_chunk spec))"
    using known law base
    by (cases "spec_chunk spec")
      (auto simp: crc_baseline_def known_whole_def payload_of_def start_known_def start_base_def crc_law_def
        split: option.splits)
  finally show "writer_ok se (known_whole existing initial (spec_chunk spec)) (int (length existing) + int (length d)) [] t"
    using ok by (auto simp: writer_ok_def COALESCING_CHUNK_SIZE_def comp_def option.map_comp)
qed


lemma unit_result_cases: "\<forall>e. r \<noteq> Err e \<Longrightarrow> r \<noteq> Ok () \<Longrightarrow> False"
  by (cases r) auto

lemma new_open_and_append_start:
  assumes "new_open_and_append se env spec chunk = Ret (Ok (t, s))" "chunk \<noteq> []"
    and "connect_first (se_options se) env (SpecWrite spec None (Some (take MAX_WRITE_CHUNK_SIZE chunk))) = Ok (initial, cn, c)"
  shows "\<exists>t1. start_worker se c initial cn 0
    (Some (take MAX_WRITE_CHUNK_SIZE chunk, op_crc32c (se_options se) (take MAX_WRITE_CHUNK_SIZE chunk))) = Ok (t1, s)"
  using assms
  by (auto simp: new_open_and_append_def Let_def map_run_Ret_iff split: if_splits result.splits
      dest: unit_result_cases)

lemma open_writer_ok:
  assumes law: "crc_law se" and cf: "connect_first (se_options se) env (opening_spec how) = Ok (initial, cn, c)"
    and known: "start_known (op_crc32c (se_options se)) existing initial (opening_chunk how)"
    and op: "open_writer se env how = Ret (Ok (t, s))"
  obtains d rest where "d = opening_first how" "opening_data how = d @ rest"
    "known_whole existing initial (opening_chunk how) = Some (existing @ d) \<or>
       d = [] \<and> known_whole existing initial (opening_chunk how) = None"
    "writer_ok se (known_whole existing initial (opening_chunk how)) (int (length existing) + int (length d)) rest t"
    "phase_ok (op_crc32c (se_options se)) (int (length existing)) d s" "run_answers_ok [] s"
    "run_within (int (length existing) + int (length d)) s"
proof -
  let ?crc = "op_crc32c (se_options se)"
  define d where "d = (case opening_chunk how of None \<Rightarrow> [] | Some d \<Rightarrow> d)"
  have d': "d = (case spec_chunk (opening_spec how) of None \<Rightarrow> [] | Some d \<Rightarrow> d)" by (simp add: d_def)
  obtain t0 g where st: "start_worker se c initial cn g (payload_of ?crc (opening_chunk how)) = Ok (t0, s)"
    and t0: "t = t0 \<and> opening_data how = d \<or>
      (\<exists>r rest. opening_data how = d @ rest \<and> writer_append se rest t0 = Ret (Ok r, t))"
  proof (cases how)
    case (Open spec)
    with op cf that show thesis by (auto simp: new_open_def payload_of_def d_def)
  next
    case (OpenAndAppend spec chunk)
    show thesis
    proof (cases "chunk = []")
      case True
      with op cf OpenAndAppend that show thesis
        by (auto simp: new_open_and_append_def new_open_def payload_of_def d_def)
    next
      case False
      let ?d = "take MAX_WRITE_CHUNK_SIZE chunk"
      have no: "new_open_and_append se env spec chunk = Ret (Ok (t, s))" using op OpenAndAppend by simp
      have ex: "\<exists>r rest. chunk = ?d @ rest \<and> writer_append se rest t1 = Ret (Ok r, t)"
        if "writer_append se (drop MAX_WRITE_CHUNK_SIZE chunk) t1 = Ret (Ok r, t)" for t1 r
        using that by (intro exI [of _ r] exI [of _ "drop MAX_WRITE_CHUNK_SIZE chunk"]) simp
      obtain t1 where st: "start_worker se c initial cn 0 (Some (?d, ?crc ?d)) = Ok (t1, s)"
        using new_open_and_append_start [OF no False] cf False OpenAndAppend by auto
      with no False cf OpenAndAppend have "t = t1 \<and> length chunk \<le> MAX_WRITE_CHUNK_SIZE \<or>
          (\<exists>r. writer_append se (drop MAX_WRITE_CHUNK_SIZE chunk) t1 = Ret (Ok r, t))"
        by (auto simp: new_open_and_append_def Let_def map_run_Ret_iff split: if_splits result.splits
      dest: unit_result_cases)
      with st ex [of t1] False OpenAndAppend show thesis
        by (intro that [of 0 t1]) (auto simp: payload_of_def d_def)
    qed
  next
    case (Reopen spec)
    with op cf that show thesis by (auto simp: new_reopen_def payload_of_def d_def)
  qed
  note ok = start_worker_writer_ok [OF law cf opening_chunk_ok [of how, folded opening_spec_chunk] _ _ d', of existing g t0 s,
      unfolded opening_spec_chunk, OF known st]
  have df: "d = opening_first how" by (simp add: opening_first_def d_def)
  have kw: "known_whole existing initial (opening_chunk how) = Some (existing @ d) \<or>
      d = [] \<and> known_whole existing initial (opening_chunk how) = None"
    by (auto simp: known_whole_def d_def split: option.splits)
  let ?ok = "writer_ok se (known_whole existing initial (opening_chunk how)) (int (length existing) + int (length d))"
  consider (whole) "t = t0" "opening_data how = d"
    | (rest) r rest where "opening_data how = d @ rest" "writer_append se rest t0 = Ret (Ok r, t)"
    using t0 by blast
  then have "\<exists>rest. opening_data how = d @ rest \<and> ?ok rest t"
  proof cases
    case whole
    with ok(1) show ?thesis by (intro exI [of _ "[]"]) simp
  next
    case rest
    with writer_append_ok [OF law ok(1), of rest] show ?thesis by (intro exI [of _ rest]) auto
  qed
  with that df kw ok(2-4) show thesis by blast
qed

text \<open>
  A session: the application opens a writer and uses it; the worker has taken some of the intents so
  far. \<open>written\<close> is what the application wrote.
\<close>

lemma session_ok:
  assumes law: "crc_law se" and cf: "connect_first (se_options se) env (opening_spec how) = Ok (initial, cn, c)"
    and known: "start_known (op_crc32c (se_options se)) existing initial (opening_chunk how)"
    and op: "open_writer se env how = Ret (Ok (t0, s0))"
    and ops: "writer_ops se reply ops t0 = Ret t"
  obtains d rest where "d = opening_first how" "d @ rest = opening_data how @ concat (map op_data ops)"
    "known_whole existing initial (opening_chunk how) = Some (existing @ d) \<or>
       d = [] \<and> known_whole existing initial (opening_chunk how) = None"
    "writer_ok se (known_whole existing initial (opening_chunk how)) (int (length existing) + int (length d)) rest t"
    "phase_ok (op_crc32c (se_options se)) (int (length existing)) d s0" "run_answers_ok [] s0"
    "run_within (int (length existing) + int (length d)) s0"
proof -
  obtain d rest where o: "d = opening_first how" "opening_data how = d @ rest"
    "known_whole existing initial (opening_chunk how) = Some (existing @ d) \<or>
       d = [] \<and> known_whole existing initial (opening_chunk how) = None"
    "writer_ok se (known_whole existing initial (opening_chunk how)) (int (length existing) + int (length d)) rest t0"
    "phase_ok (op_crc32c (se_options se)) (int (length existing)) d s0" "run_answers_ok [] s0"
    "run_within (int (length existing) + int (length d)) s0"
    by (rule open_writer_ok [OF law cf known op])
  from writer_ops_ok [OF law o(4), of reply ops] ops
  have "writer_ok se (known_whole existing initial (opening_chunk how)) (int (length existing) + int (length d))
      (rest @ concat (map op_data ops)) t" by auto
  then show thesis using o by (intro that [of d "rest @ concat (map op_data ops)"]) auto
qed

lemma writer_ok_intents:
  "writer_ok se whole pos appended t \<Longrightarrow> prefix is (tw_intents t) \<Longrightarrow>
     intents_ok (op_crc32c (se_options se)) pos is \<and> prefix (data_of is) appended"
  by (auto simp: writer_ok_def prefix_def)

text \<open>What the worker's state is after a run on some of the intents.\<close>

lemma session_run_ok:
  assumes t: "writer_ok se whole (int (length existing) + int (length d)) rest t"
    and s0: "phase_ok (op_crc32c (se_options se)) (int (length existing)) d s0" "run_answers_ok [] s0"
      "run_within (int (length existing) + int (length d)) s0"
    and r: "write_runs (se_options se) s0 evs s" and i: "prefix (intents_of evs) (tw_intents t)"
  shows "phase_ok (op_crc32c (se_options se)) (int (length existing)) (d @ data_of (intents_of evs)) s"
    "run_answers_ok (intents_of evs) s" "prefix (data_of (intents_of evs)) rest"
    "run_within (int (length existing) + int (length (d @ data_of (intents_of evs)))) s"
proof -
  note ok = writer_ok_intents [OF t i]
  have "phase_ok (op_crc32c (se_options se)) (int (length existing)) (d @ data_of (intents_of evs)) s \<and>
      run_within (int (length existing) + int (length (d @ data_of (intents_of evs)))) s"
    using upload_bounds.P_runs [OF r, of "int (length existing)" d] s0 ok by simp
  moreover have "run_answers_ok (intents_of evs) s"
    using upload_answers.P_runs [OF r] s0 by simp
  ultimately show "phase_ok (op_crc32c (se_options se)) (int (length existing)) (d @ data_of (intents_of evs)) s"
    "run_answers_ok (intents_of evs) s" "prefix (data_of (intents_of evs)) rest"
    "run_within (int (length existing) + int (length (d @ data_of (intents_of evs)))) s"
    using ok by auto
qed


text \<open>
  C18. Whatever the application does with a writer, and however far the worker has come with its
  intents, streams broken and replaced included: the stream carries a contiguous part of the object
  with right offsets and checksums, and everything up to the last intent while it is open; the worker
  holds every byte that the service has not acknowledged; and while the stream is open the pending
  requests are on it, and an unanswered lookup is when the buffer is above its watermark.\<close>

theorem upload_stream_carries_data:
  assumes law: "crc_law se" and cf: "connect_first (se_options se) env (opening_spec how) = Ok (initial, cn, c)"
    and known: "start_known (op_crc32c (se_options se)) existing initial (opening_chunk how)"
    and op: "open_writer se env how = Ret (Ok (t0, s0))"
    and ops: "writer_ops se reply ops t0 = Ret t"
    and r: "write_runs (se_options se) s0 evs s" and i: "prefix (intents_of evs) (tw_intents t)"
    and w: "written = opening_first how @ data_of (intents_of evs)"
  shows "prefix written (opening_data how @ concat (map op_data ops)) \<and>
    (case s of
       (Streaming cn, w) \<Rightarrow> worker_holds (op_crc32c (se_options se)) (int (length existing)) written w \<and>
         stream_ok (op_crc32c (se_options se)) (int (length existing)) written cn \<and> stream_live w cn
     | (Closing, w) \<Rightarrow> worker_holds (op_crc32c (se_options se)) (int (length existing)) written w
     | _ \<Rightarrow> True)"
proof -
  obtain d rest where o: "d = opening_first how" "d @ rest = opening_data how @ concat (map op_data ops)"
    "writer_ok se (known_whole existing initial (opening_chunk how)) (int (length existing) + int (length d)) rest t"
    "phase_ok (op_crc32c (se_options se)) (int (length existing)) d s0" "run_answers_ok [] s0"
    "run_within (int (length existing) + int (length d)) s0"
    by (rule session_ok [OF law cf known op ops])
  note run = session_run_ok [OF o(3-6) r i]
  have "prefix (d @ data_of (intents_of evs)) (d @ rest)" using run(3) by simp
  then have "prefix written (opening_data how @ concat (map op_data ops))" unfolding w o(2) by (simp add: o(1))
  moreover have "phase_ok (op_crc32c (se_options se)) (int (length existing)) written s" using run(1) w o(1) by simp
  ultimately show ?thesis by (simp add: phase_ok_def split: prod.splits)
qed

lemma session_confirms:
  assumes "phase_ok (op_crc32c opts) base written s" "write_enabled (Received (Ok (Some message)) env) s"
    and "write_step opts (Received (Ok (Some message)) env) s = Ret s'"
    and "is_some_and (\<lambda>q. ww_persisted (snd s) \<le> q \<and> q \<le> base + int (length written)) (persisted_size message)"
    and "p \<in> set (takeWhile (confirms message \<circ> pending_intent) (ww_pending (snd s)))"
  shows "(pd_sender p, Some (Ok message)) \<in> set (ww_answers (snd s'))"
proof -
  obtain ph w where s: "s = (ph, w)" by fastforce
  have ph: "ph = Closing \<or> (\<exists>cn. ph = Streaming cn)" using assms(2) s by (cases ph) auto
  then have "worker_holds (op_crc32c opts) base written w" using assms(1) s by auto
  from write_step_confirms [OF _ ph _ this, of message env s' p] assms(3-5) s show ?thesis by simp
qed

text \<open>
  C19. Every flush and finalize that the worker took is either pending or was answered, once. An answer
  is a response that confirms the request (everything the request was about is persisted, and the object
  is finalized just if it was a finalize) or, once the worker has failed, its error; a sender is dropped
  without an answer only when the worker has stopped at the end of the stream. When the worker has failed
  or stopped, nothing is pending. And confirmed requests are answered: when a message with a possible
  size (no less than was confirmed before, no more than was written) arrives, the pending requests at the
  front that it confirms get it as their answer.\<close>

theorem upload_requests_answered_once:
  assumes law: "crc_law se" and cf: "connect_first (se_options se) env (opening_spec how) = Ok (initial, cn, c)"
    and known: "start_known (op_crc32c (se_options se)) existing initial (opening_chunk how)"
    and op: "open_writer se env how = Ret (Ok (t0, s0))"
    and ops: "writer_ops se reply ops t0 = Ret t"
    and r: "write_runs (se_options se) s0 evs s" and i: "prefix (intents_of evs) (tw_intents t)"
  shows "distinct (map pd_sender (ww_pending (snd s)) @ map fst (ww_answers (snd s))) \<and>
    set (map pd_sender (ww_pending (snd s)) @ map fst (ww_answers (snd s))) =
      set (concat (map intent_senders (intents_of evs))) \<and>
    ((sender, answer) \<in> set (ww_answers (snd s)) \<longrightarrow> reply_ok (fst s) answer \<and>
       (\<forall>resp. answer = Some (Ok resp) \<longrightarrow> (\<exists>i\<in>set (intents_of evs). intent_senders i = [sender] \<and> confirms resp i))) \<and>
    ((\<exists>e. fst s = Failing e) \<or> (\<exists>x. fst s = Stopped x) \<longrightarrow> ww_pending (snd s) = []) \<and>
    (write_enabled (Received (Ok (Some message)) renv) s \<longrightarrow>
     write_step (se_options se) (Received (Ok (Some message)) renv) s = Ret s' \<longrightarrow>
     is_some_and (\<lambda>q. ww_persisted (snd s) \<le> q \<and> q \<le> int (length (existing @ opening_first how @ data_of (intents_of evs))))
       (persisted_size message) \<longrightarrow>
     (\<forall>p \<in> set (takeWhile (confirms message \<circ> pending_intent) (ww_pending (snd s))).
        (pd_sender p, Some (Ok message)) \<in> set (ww_answers (snd s'))))"
proof -
  obtain d rest where o: "d = opening_first how"
    "writer_ok se (known_whole existing initial (opening_chunk how)) (int (length existing) + int (length d)) rest t"
    "phase_ok (op_crc32c (se_options se)) (int (length existing)) d s0" "run_answers_ok [] s0"
    "run_within (int (length existing) + int (length d)) s0"
    by (rule session_ok [OF law cf known op ops])
  note sess = session_run_ok [OF o(2-5) r i]
  note run = sess(2)
  have dist: "distinct (concat (map intent_senders (intents_of evs)))"
    using o(2) i by (auto simp: writer_ok_def prefix_def)
  have m: "mset (map pd_sender (ww_pending (snd s)) @ map fst (ww_answers (snd s))) =
      mset (concat (map intent_senders (intents_of evs)))"
    using run by (simp add: run_answers_ok_def answers_ok_def)
  have "ww_answers (snd s0) = []" using o(4) by (simp add: run_answers_ok_def answers_ok_def)
  then have "replies_ok s" using upload_replies.P_runs [OF r] by (simp add: replies_ok_def)
  then have "reply_ok (fst s) answer" if "(sender, answer) \<in> set (ww_answers (snd s))"
    using that by (fastforce simp: replies_ok_def list_all_iff)
  moreover have "distinct (map pd_sender (ww_pending (snd s)) @ map fst (ww_answers (snd s)))"
    using mset_eq_imp_distinct_iff [OF m] dist by blast
  moreover have "set (map pd_sender (ww_pending (snd s)) @ map fst (ww_answers (snd s))) =
      set (concat (map intent_senders (intents_of evs)))"
    by (rule mset_eq_setD [OF m])
  moreover have "(sender, Some (Ok resp)) \<in> set (ww_answers (snd s)) \<longrightarrow>
       (\<exists>i\<in>set (intents_of evs). intent_senders i = [sender] \<and> confirms resp i)" for resp
    using run by (simp add: run_answers_ok_def answers_ok_def)
  moreover have "(\<exists>e. fst s = Failing e) \<or> (\<exists>x. fst s = Stopped x) \<longrightarrow> ww_pending (snd s) = []"
    using run by (auto simp: run_answers_ok_def)
  moreover have "(pd_sender p, Some (Ok message)) \<in> set (ww_answers (snd s'))"
    if "write_enabled (Received (Ok (Some message)) renv) s"
      "write_step (se_options se) (Received (Ok (Some message)) renv) s = Ret s'"
      "is_some_and (\<lambda>q. ww_persisted (snd s) \<le> q \<and> q \<le> int (length (existing @ opening_first how @ data_of (intents_of evs))))
        (persisted_size message)" "p \<in> set (takeWhile (confirms message \<circ> pending_intent) (ww_pending (snd s)))" for p
    by (rule session_confirms [OF sess(1) that(1,2) _ that(4)]) (use that(3) o(1) in simp)
  ultimately show ?thesis by blast
qed


text \<open>An answer that reached the writer, and what it is about.\<close>

lemma answered_request:
  assumes t: "writer_ok se whole (int (length existing) + int (length d)) rest t"
    and s0: "phase_ok (op_crc32c (se_options se)) (int (length existing)) d s0" "run_answers_ok [] s0"
      "run_within (int (length existing) + int (length d)) s0"
    and r: "write_runs (se_options se) s0 evs s" and i: "prefix (intents_of evs) (tw_intents t)"
    and its: "tw_intents t = is @ [i]" "intent_senders i = [k]" "k \<notin> set (concat (map intent_senders is))"
    and ans: "(k, Some (Ok resp)) \<in> set (ww_answers (snd s))"
  shows "confirms resp i" "is_some_and (\<lambda>p. p \<le> int (length existing) + int (length d) + int (length rest)) (persisted_size resp)"
proof -
  note run = session_run_ok [OF t s0 r i]
  obtain j where j: "j \<in> set (intents_of evs)" "intent_senders j = [k]" "confirms resp j"
    using run(2) ans unfolding run_answers_ok_def answers_ok_def by blast
  have "j \<in> set (is @ [i])" using j(1) i its(1) by (metis set_mono_prefix subsetD)
  with j(2) its(3) have "j = i" by auto
  with j(3) show "confirms resp i" by simp
  have "length (data_of (intents_of evs)) \<le> length rest" using run(3) by (rule prefix_length_le)
  moreover have "is_some_and (\<lambda>p. p \<le> int (length existing) + int (length (d @ data_of (intents_of evs)))) (persisted_size resp)"
    using run(4) ans by (auto simp: run_within_def answers_within_def list_all_iff)
  ultimately show "is_some_and (\<lambda>p. p \<le> int (length existing) + int (length d) + int (length rest)) (persisted_size resp)"
    by (elim is_some_and_mono) simp
qed

text \<open>
  C17. A flush that succeeds returns exactly the size of the object with everything the application
  wrote in it: what was there when the writer was opened, the data it was opened with, and every append
  so far, coalesced bytes included, no more and no less.\<close>

theorem flush_returns_everything_written:
  assumes law: "crc_law se" and cf: "connect_first (se_options se) env (opening_spec how) = Ok (initial, cn, c)"
    and known: "start_known (op_crc32c (se_options se)) existing initial (opening_chunk how)"
    and op: "open_writer se env how = Ret (Ok (t0, s0))"
    and ops: "writer_ops se reply ops t0 = Ret t" and f: "writer_flush se reply t = (Ok n, t')"
    and r: "write_runs (se_options se) s0 evs s" and i: "prefix (intents_of evs) (tw_intents t')"
    and rep: "\<And>k resp. reply k = Some (Ok resp) \<Longrightarrow> (k, Some (Ok resp)) \<in> set (ww_answers (snd s))"
  shows "n = int (length (existing @ opening_data how @ concat (map op_data ops)))"
proof -
  obtain d rest where o: "d @ rest = opening_data how @ concat (map op_data ops)"
    "writer_ok se (known_whole existing initial (opening_chunk how)) (int (length existing) + int (length d)) rest t"
    "phase_ok (op_crc32c (se_options se)) (int (length existing)) d s0" "run_answers_ok [] s0"
    "run_within (int (length existing) + int (length d)) s0"
    by (rule session_ok [OF law cf known op ops])
  obtain "is" req k resp where fl: "tw_intents t' = is @ [IntentFlush req k]" "data_of is = rest"
      "k \<notin> set (concat (map intent_senders is))"
      "rq_write_offset req = int (length existing) + int (length d) + int (length rest)"
      "reply k = Some (Ok resp)" "persisted_size resp = Some n"
    using writer_flush_ok(2) [OF law o(2) f refl] by blast
  note a = answered_request [OF writer_flush_ok(1) [OF law o(2) f] o(3-5) r i fl(1) _ fl(3) rep [OF fl(5)]]
  have "n = int (length existing) + int (length d) + int (length rest)" using a fl(4,6) by simp
  also have "\<dots> = int (length (existing @ d @ rest))" by simp
  finally show ?thesis unfolding o(1) .
qed

text \<open>
  C20. A finalize that succeeds returns a finalized object whose size is that of everything written,
  and the request it sent names the checksum of the whole content of the object, unless the writer took
  over data whose checksum the service did not report.\<close>

theorem finalize_covers_everything_written:
  assumes law: "crc_law se" and cf: "connect_first (se_options se) env (opening_spec how) = Ok (initial, cn, c)"
    and known: "start_known (op_crc32c (se_options se)) existing initial (opening_chunk how)"
    and op: "open_writer se env how = Ret (Ok (t0, s0))"
    and ops: "writer_ops se reply ops t0 = Ret t" and f: "writer_finalize se reply converts t = (Ok res, t')"
    and r: "write_runs (se_options se) s0 evs s" and i: "prefix (intents_of evs) (tw_intents t')"
    and rep: "\<And>k resp. reply k = Some (Ok resp) \<Longrightarrow> (k, Some (Ok resp)) \<in> set (ww_answers (snd s))"
    and whole: "whole = existing @ opening_data how @ concat (map op_data ops)"
  shows "or_size res = int (length whole) \<and> or_finalize_time res \<noteq> None \<and>
    (\<exists>req k. last (tw_intents t') = IntentFinalize req k \<and> rq_write_offset req = int (length whole) \<and>
       (rq_object_crc32c req = Some (op_crc32c (se_options se) whole) \<or>
        rq_object_crc32c req = None \<and> existing \<noteq> [] \<and> wr_persisted_crc32c initial = None))"
proof -
  let ?crc = "op_crc32c (se_options se)"
  obtain d rest where o: "d @ rest = opening_data how @ concat (map op_data ops)"
    "writer_ok se (known_whole existing initial (opening_chunk how)) (int (length existing) + int (length d)) rest t"
    "phase_ok ?crc (int (length existing)) d s0" "run_answers_ok [] s0"
    "run_within (int (length existing) + int (length d)) s0"
    and kw: "known_whole existing initial (opening_chunk how) = Some (existing @ d) \<or>
       d = [] \<and> known_whole existing initial (opening_chunk how) = None"
    by (rule session_ok [OF law cf known op ops])
  obtain "is" req k resp where fl: "tw_intents t' = is @ [IntentFinalize req k]" "data_of is = rest"
      "k \<notin> set (concat (map intent_senders is))"
      "writer_ok se (known_whole existing initial (opening_chunk how)) (int (length existing) + int (length d)) rest t'"
      "rq_write_offset req = int (length existing) + int (length d) + int (length rest)" "reply k = Some (Ok resp)"
      "rq_object_crc32c req = map_option (\<lambda>x. ?crc (x @ rest)) (known_whole existing initial (opening_chunk how))"
      "wr_status resp = Some (Resource res)" "or_finalize_time res \<noteq> None"
    using writer_finalize_ok [OF law o(2) f] by blast
  note a = answered_request [OF fl(4) o(3-5) r i fl(1) _ fl(3) rep [OF fl(6)]]
  have w: "whole = existing @ d @ rest" unfolding whole o(1) by simp
  have "or_size res = int (length whole)" using a fl(5,8) w by (simp add: persisted_size_def)
  moreover have "rq_object_crc32c req = Some (?crc whole) \<or>
      rq_object_crc32c req = None \<and> existing \<noteq> [] \<and> wr_persisted_crc32c initial = None"
    using kw fl(7) w by (auto simp: known_whole_def split: option.splits if_splits)
  ultimately show ?thesis using fl(1,5,9) w by simp
qed


section \<open>A session with a broken stream\<close>

definition byte_sum :: "bytes \<Rightarrow> u32" where
  "byte_sum d = sum_list (map ucast d)"

definition demo_setup :: "unit write_setup" where
  "demo_setup = \<lparr>se_options = \<lparr>op_crc32c = byte_sum, op_mismatch = MsgError,
      op_statuses = \<lparr>st_error = (\<lambda>_. io (MsgError ''status'')), st_redirect = (\<lambda>_. None), st_inner = (\<lambda>_. None)\<rparr>,
      op_policy = always_retry, op_backoff = (\<lambda>_. 0)\<rparr>,
    se_combine = (\<lambda>a b n. a + b), se_joined = Joined (Ok ()), se_accepts = 8\<rparr>"

definition demo_response :: "write_status \<Rightarrow> write_response" where
  "demo_response st = \<lparr>wr_status = Some st, wr_handle = None, wr_persisted_crc32c = Some 9\<rparr>"

definition demo_env :: "unit reconnect_env" where
  "demo_env = \<lparr>rn_now = 0, rn_outcomes = [ClosedBeforeStart, FirstMessage (demo_response (PersistedSize 1)) 8],
     rn_stopped = io (MsgError ''stopped'')\<rparr>"

definition demo_opening :: write_opening where
  "demo_opening = Reopen \<lparr>ao_bucket = ''projects/_/buckets/b'', ao_object = ''o'', ao_generation = 7, ao_write_handle = None,
     ao_if_metageneration_match = None, ao_if_metageneration_not_match = None, ao_routing_token = None\<rparr>"

definition demo_object :: object_resource where
  "demo_object = \<lparr>or_bucket = ''projects/_/buckets/b'', or_name = ''o'', or_generation = 7, or_size = 3,
     or_finalize_time = Some 5\<rparr>"

definition demo_append :: write_request where
  "demo_append = request_default\<lparr>rq_write_offset := 1, rq_data := Some ([1, 2], Some 3)\<rparr>"

definition demo_flush :: write_request where
  "demo_flush = request_default\<lparr>rq_flush := True, rq_state_lookup := True, rq_write_offset := 3\<rparr>"

definition demo_connection :: connection where
  "demo_connection = \<lparr>bw_sent = [opening_request byte_sum (opening_spec demo_opening)], bw_accepts = 9\<rparr>"

definition demo_connector :: write_connector where
  "demo_connector = \<lparr>wc_spec = opening_spec demo_opening, wc_retry_state = None, wc_redirects = None,
     wc_last_persisted_size = 1\<rparr>"

definition demo_writer :: writer where
  "demo_writer = \<lparr>tw_intents = [], tw_accepts = 8, tw_generation = 7, tw_persisted_size = 1, tw_write_offset = 1,
     tw_running_crc32c = Some 9, tw_buffer = [], tw_worker_handle = True, tw_next_sender = 0\<rparr>"

definition demo_worker :: write_worker where
  "demo_worker = with_persisted_size 1 (worker_with_replay_buffer demo_connector replay_new)"

lemmas demo_defs = demo_setup_def demo_response_def demo_env_def demo_opening_def demo_object_def demo_append_def
  demo_flush_def demo_connection_def demo_connector_def demo_writer_def demo_worker_def

lemma demo_law: "crc_law demo_setup"
  by (simp add: crc_law_def demo_setup_def byte_sum_def)

lemma demo_connect:
  "connect_first (se_options demo_setup) demo_env (opening_spec demo_opening) =
     Ok (demo_response (PersistedSize 1), demo_connection, demo_connector)"
  by (simp add: connect_first_def demo_defs connect_attempt_def prepare_request_def invalid_bucket_def spec_bucket_def
      BUCKET_PREFIX_def write_is_redirect_def persisted_size_def Let_def)

lemma demo_open: "open_writer demo_setup demo_env demo_opening = Ret (Ok (demo_writer, Streaming demo_connection, demo_worker))"
  using demo_connect
  by (simp add: demo_opening_def new_reopen_def start_worker_def is_finalized_def persisted_size_def seeded_buffer_def
      crc_baseline_def demo_writer_def demo_worker_def demo_setup_def demo_response_def)

lemma demo_known: "start_known (op_crc32c (se_options demo_setup)) [9] (demo_response (PersistedSize 1)) (opening_chunk demo_opening)"
  by (simp add: start_known_def demo_defs honest_start_def start_base_def payload_of_def persisted_size_def byte_sum_def)

lemma slice_short: "length chunk < COALESCING_CHUNK_SIZE \<Longrightarrow> slice_chunks chunk = ([], chunk)"
  by (subst slice_chunks.simps) simp

lemma demo_ops:
  "writer_ops demo_setup reply [OpAppend [1], OpAppend [2]] demo_writer = Ret (demo_writer\<lparr>tw_buffer := [1, 2]\<rparr>)"
  by (simp add: writer_append_def coalesce_push_def demo_writer_def COALESCING_CHUNK_SIZE_def MAX_WRITE_CHUNK_SIZE_def slice_short)

definition demo_reply :: "nat \<Rightarrow> (error, write_response) result option" where
  "demo_reply k = (if k = 0 then Some (Ok (demo_response (PersistedSize 3))) else None)"

definition demo_flushed :: writer where
  "demo_flushed = demo_writer\<lparr>tw_intents := [IntentAppend demo_append, IntentFlush demo_flush 0],
     tw_persisted_size := 3, tw_write_offset := 3, tw_running_crc32c := Some 12, tw_next_sender := 1\<rparr>"

lemma demo_writer_flush: "writer_flush demo_setup demo_reply (demo_writer\<lparr>tw_buffer := [1, 2]\<rparr>) = (Ok 3, demo_flushed)"
  by (simp add: writer_flush_def append_residual_def coalesce_flush_def append_sub_chunk_def ask_worker_def send_intent_def
      flush_request_def demo_flushed_def demo_defs demo_reply_def byte_sum_def persisted_size_def Let_def)


text \<open>The worker takes the append, loses the stream, replays the append on a new one, and goes on.\<close>

definition demo_restored :: connection where
  "demo_restored = demo_connection\<lparr>bw_sent := bw_sent demo_connection @ [demo_append]\<rparr>"

definition demo_appended :: write_worker where
  "demo_appended = demo_worker\<lparr>ww_replay := replay_push \<lparr>rc_write_offset = 1, rc_data = [1, 2], rc_crc32c = 3\<rparr> replay_new\<rparr>"

definition demo_reconnected :: write_worker where
  "demo_reconnected = demo_appended\<lparr>ww_connector := demo_connector\<lparr>wc_redirects := Some 0,
     wc_retry_state := Some (counted_failure 0 demo_connector)\<rparr>\<rparr>"

definition demo_events :: "unit write_event list" where
  "demo_events = [NewIntent (IntentAppend demo_append), Received (Ok None) demo_env]"

definition demo_last :: "upload_intent \<Rightarrow> write_response \<Rightarrow> unit write_event list" where
  "demo_last i resp = demo_events @ [NewIntent i, Received (Ok (Some resp)) demo_env]"

lemma demo_not_full: "\<not> replay_is_full (ww_replay demo_worker)" "\<not> replay_is_full (ww_replay demo_reconnected)"
  by (simp_all add: demo_defs demo_reconnected_def demo_appended_def with_persisted_size_def worker_with_replay_buffer_def
      replay_is_full_def replay_new_def replay_with_capacity_def replay_push_def DEFAULT_REPLAY_BUFFER_SIZE_def
      MIN_REPLAY_BUFFER_SIZE_def MAX_WRITE_CHUNK_SIZE_def)

lemma demo_low: "\<not> above_watermark (ww_replay demo_appended)" "\<not> above_watermark (ww_replay demo_reconnected)"
  by (simp_all add: demo_defs demo_reconnected_def demo_appended_def with_persisted_size_def worker_with_replay_buffer_def
      above_watermark_def replay_new_def replay_with_capacity_def replay_push_def DEFAULT_REPLAY_BUFFER_SIZE_def
      MIN_REPLAY_BUFFER_SIZE_def MAX_WRITE_CHUNK_SIZE_def)

lemma demo_step_append:
  "write_step (se_options demo_setup) (NewIntent (IntentAppend demo_append)) (Streaming demo_connection, demo_worker) =
     Ret (Streaming demo_restored, demo_appended)"
  using demo_low
  by (simp add: needs_watermark_flush_def demo_restored_def demo_appended_def demo_append_def demo_setup_def demo_worker_def
      with_persisted_size_def worker_with_replay_buffer_def bw_send_def bw_closed_def demo_connection_def Let_def)

lemma no_redirect: "st_inner st e = None \<Longrightarrow> \<not> write_is_redirect st e"
  by (auto simp: write_is_redirect_def split: option.splits)

lemma demo_reconnects:
  "write_connector_reconnect (se_options demo_setup) demo_env (io (MsgError ''stream closed unexpectedly'')) 1 demo_connector =
     Ret (Ok (demo_response (PersistedSize 1), demo_connection), ww_connector demo_reconnected)"
  by (simp add: write_connector_reconnect_def demo_defs reset_budget_def may_reconnect_def no_redirect
      counted_redirect_on_error_def always_retry_def Let_def demo_reconnected_def
      connect_attempt_def prepare_request_def invalid_bucket_def spec_bucket_def BUCKET_PREFIX_def opening_request_def
      persisted_size_def)

lemma demo_buffer: "replay_push \<lparr>rc_write_offset = 1, rc_data = [1, 2], rc_crc32c = 3\<rparr> replay_new =
    \<lparr>rb_queue = [\<lparr>rc_write_offset = 1, rc_data = [1, 2], rc_crc32c = 3\<rparr>], rb_unpersisted_bytes = 2,
      rb_capacity = DEFAULT_REPLAY_BUFFER_SIZE\<rparr>"
  by (simp add: replay_push_def replay_new_def replay_with_capacity_def DEFAULT_REPLAY_BUFFER_SIZE_def
      MIN_REPLAY_BUFFER_SIZE_def MAX_WRITE_CHUNK_SIZE_def)

lemma demo_reconnected_eq:
  "demo_reconnected = \<lparr>ww_connector = demo_connector\<lparr>wc_redirects := Some 0,
       wc_retry_state := Some (counted_failure 0 demo_connector)\<rparr>,
     ww_replay = \<lparr>rb_queue = [\<lparr>rc_write_offset = 1, rc_data = [1, 2], rc_crc32c = 3\<rparr>], rb_unpersisted_bytes = 2,
       rb_capacity = DEFAULT_REPLAY_BUFFER_SIZE\<rparr>,
     ww_pending = [], ww_persisted = 1, ww_finalized = False, ww_self_flush = False, ww_answers = []\<rparr>"
  by (simp add: demo_reconnected_def demo_appended_def demo_worker_def with_persisted_size_def worker_with_replay_buffer_def
      demo_buffer)

lemma demo_appended_fields:
  "ww_pending demo_appended = []" "ww_persisted demo_appended = 1" "\<not> ww_finalized demo_appended"
  "ww_connector demo_appended = demo_connector"
  "demo_appended\<lparr>ww_self_flush := False, ww_connector := ww_connector demo_reconnected\<rparr> = demo_reconnected"
  by (simp_all add: demo_reconnected_def demo_appended_def demo_worker_def with_persisted_size_def
      worker_with_replay_buffer_def)

lemma demo_handshake:
  "write_response_success (op_crc32c (se_options demo_setup)) (demo_response (PersistedSize 1)) FromHandshake
     demo_reconnected = (Ok (), demo_reconnected)"
  by (simp add: write_response_success_def note_response_def demo_reconnected_eq demo_response_def persisted_size_def
      max_sent_offset_def replay_end_offset_def chunk_end_offset_def replay_ack_def is_finalized_def Let_def)

lemma demo_step_reconnect:
  "write_step (se_options demo_setup) (Received (Ok None) demo_env) (Streaming demo_restored, demo_appended) =
     Ret (Streaming demo_restored, demo_reconnected)"
proof -
  have "\<not> needs_watermark_flush demo_reconnected" using demo_low by (simp add: needs_watermark_flush_def)
  moreover have "send_all (map chunk_to_request (rb_queue (ww_replay demo_reconnected))) demo_connection = (True, demo_restored)"
    by (simp add: demo_reconnected_eq demo_connection_def demo_restored_def bw_send_def bw_closed_def chunk_to_request_def
        demo_append_def)
  moreover have "ww_pending demo_reconnected = []" by (simp add: demo_reconnected_eq)
  ultimately show ?thesis using demo_reconnects demo_handshake
    by (simp add: worker_handle_response_def worker_reconnect_write_def demo_appended_fields maybe_send_watermark_flush_def)
qed

text \<open>Then it takes a flush or a finalize, and the response that confirms it.\<close>

definition demo_pending :: "pending_kind \<Rightarrow> write_request \<Rightarrow> write_worker" where
  "demo_pending k r = demo_reconnected\<lparr>ww_finalized := (k = PendFinalize),
     ww_pending := [\<lparr>pd_kind = k, pd_request = r, pd_sender = 0\<rparr>]\<rparr>"

definition demo_confirmed :: "pending_kind \<Rightarrow> write_response \<Rightarrow> write_worker" where
  "demo_confirmed k resp = demo_reconnected\<lparr>ww_connector := (ww_connector demo_reconnected)\<lparr>wc_spec :=
       spec_handle_response (wc_spec (ww_connector demo_reconnected)) resp\<rparr>,
     ww_replay := \<lparr>rb_queue = [], rb_unpersisted_bytes = 0, rb_capacity = DEFAULT_REPLAY_BUFFER_SIZE\<rparr>,
     ww_persisted := 3, ww_finalized := (k = PendFinalize), ww_answers := [(0, Some (Ok resp))]\<rparr>"

definition demo_asked :: "write_request \<Rightarrow> connection" where
  "demo_asked r = demo_connection\<lparr>bw_sent := bw_sent demo_connection @ [demo_append, r]\<rparr>"

lemma demo_confirm:
  assumes "persisted_size resp = Some 3" "is_finalized resp = (k = PendFinalize)" "rq_write_offset r = 3"
  shows "write_step (se_options demo_setup) (Received (Ok (Some resp)) demo_env) (Streaming (demo_asked r), demo_pending k r) =
    Ret (Streaming (demo_asked r), demo_confirmed k resp)"
  using assms
  by (simp add: worker_handle_response_def write_response_success_def note_response_def demo_reconnected_eq demo_pending_def
      max_sent_offset_def replay_end_offset_def chunk_end_offset_def replay_ack_def demo_confirmed_def
      pending_is_satisfied_def pending_complete_def maybe_send_watermark_flush_def needs_watermark_flush_def
      above_watermark_def DEFAULT_REPLAY_BUFFER_SIZE_def MAX_WRITE_CHUNK_SIZE_def Let_def split: pending_kind.splits)


lemma write_runs_trans1:
  "write_enabled ev s0 \<Longrightarrow> write_step opts ev s0 = Ret s1 \<Longrightarrow> write_runs opts s1 evs s \<Longrightarrow> write_runs opts s0 (ev # evs) s"
proof (induction evs arbitrary: s rule: rev_induct)
  case Nil
  then have "s = s1" by (auto elim: write_runs.cases)
  with Nil show ?case using runs_step [OF runs_nil, of ev s0 opts s1] by simp
next
  case (snoc x evs)
  obtain s2 where "write_runs opts s1 evs s2" "write_enabled x s2" "write_step opts x s2 = Ret s"
    using snoc.prems(3) by (cases rule: write_runs.cases) auto
  then show ?case using snoc.IH [OF snoc.prems(1,2)] runs_step by (metis append_Cons)
qed

lemma demo_run:
  assumes "process_intent byte_sum i demo_reconnected = Ret (r, demo_pending k r)"
    and "persisted_size resp = Some 3" "is_finalized resp = (k = PendFinalize)" "rq_write_offset r = 3"
  shows "write_runs (se_options demo_setup) (Streaming demo_connection, demo_worker) (demo_last i resp)
    (Streaming (demo_asked r), demo_confirmed k resp)"
proof -
  have "write_step (se_options demo_setup) (NewIntent i) (Streaming demo_restored, demo_reconnected) =
      Ret (Streaming (demo_asked r), demo_pending k r)"
    using assms(1) by (simp add: demo_setup_def demo_restored_def demo_asked_def bw_send_def bw_closed_def demo_connection_def)
  with demo_step_append demo_step_reconnect demo_confirm [OF assms(2-4)] demo_not_full show ?thesis
    unfolding demo_last_def demo_events_def append_Cons append_Nil
    by (intro write_runs_trans1, simp_all del: write_step.simps) (rule runs_nil)
qed

lemma demo_flush_run:
  "write_runs (se_options demo_setup) (Streaming demo_connection, demo_worker)
     (demo_last (IntentFlush demo_flush 0) (demo_response (PersistedSize 3)))
     (Streaming (demo_asked demo_flush), demo_confirmed PendFlush (demo_response (PersistedSize 3)))"
  by (rule demo_run) (simp_all add: demo_flush_def demo_pending_def demo_reconnected_eq demo_response_def persisted_size_def
      is_finalized_def request_default_def)

lemma demo_intents: "intents_of (demo_last i resp) = [IntentAppend demo_append, i]"
  by (simp add: demo_last_def demo_events_def intents_of_def)

lemma demo_flush_taken:
  "prefix (intents_of (demo_last (IntentFlush demo_flush 0) (demo_response (PersistedSize 3)))) (tw_intents demo_flushed)"
  by (simp add: demo_intents demo_flushed_def)

theorem flush_returns_everything_written_witness:
  "writer_ops demo_setup demo_reply [OpAppend [1], OpAppend [2]] demo_writer = Ret (demo_writer\<lparr>tw_buffer := [1, 2]\<rparr>) \<and>
   writer_flush demo_setup demo_reply (demo_writer\<lparr>tw_buffer := [1, 2]\<rparr>) = (Ok 3, demo_flushed) \<and>
   (3 :: int) = int (length ([9 :: u8] @ opening_data demo_opening @ concat (map op_data [OpAppend [1], OpAppend [2]])))"
proof -
  have "(k, Some (Ok resp)) \<in> set (ww_answers (snd (Streaming (demo_asked demo_flush),
      demo_confirmed PendFlush (demo_response (PersistedSize 3)))))" if "demo_reply k = Some (Ok resp)" for k resp
    using that by (auto simp: demo_reply_def demo_confirmed_def split: if_splits)
  from flush_returns_everything_written [OF demo_law demo_connect demo_known demo_open demo_ops demo_writer_flush
      demo_flush_run demo_flush_taken this]
  show ?thesis using demo_ops demo_writer_flush by simp
qed


theorem upload_stream_carries_data_witness:
  "prefix [1, 2] (opening_data demo_opening @ concat (map op_data [OpAppend [1], OpAppend [2], OpFlush])) \<and>
   stream_ok byte_sum 1 [1, 2] (demo_asked demo_flush)"
proof -
  have ops: "writer_ops demo_setup demo_reply [OpAppend [1], OpAppend [2], OpFlush] demo_writer = Ret demo_flushed"
    using demo_ops [of demo_reply] demo_writer_flush by (auto simp: bind_run_Ret_iff)
  have "[1, 2] = opening_first demo_opening @
      data_of (intents_of (demo_last (IntentFlush demo_flush 0) (demo_response (PersistedSize 3))))"
    by (simp add: demo_intents opening_first_def demo_opening_def demo_append_def)
  from upload_stream_carries_data [OF demo_law demo_connect demo_known demo_open ops demo_flush_run demo_flush_taken this]
  show ?thesis by (simp add: demo_setup_def)
qed

theorem upload_requests_answered_once_witness:
  "ww_answers (demo_confirmed PendFlush (demo_response (PersistedSize 3))) =
     [(0, Some (Ok (demo_response (PersistedSize 3))))] \<and>
   confirms (demo_response (PersistedSize 3)) (IntentFlush demo_flush 0) \<and>
   reply_ok (Streaming (demo_asked demo_flush)) (Some (Ok (demo_response (PersistedSize 3))))"
proof -
  have ops: "writer_ops demo_setup demo_reply [OpAppend [1], OpAppend [2], OpFlush] demo_writer = Ret demo_flushed"
    using demo_ops [of demo_reply] demo_writer_flush by (auto simp: bind_run_Ret_iff)
  from upload_requests_answered_once [OF demo_law demo_connect demo_known demo_open ops demo_flush_run demo_flush_taken,
      of 0 "Some (Ok (demo_response (PersistedSize 3)))"]
  show ?thesis by (simp add: demo_intents demo_confirmed_def)
qed

definition demo_finalize :: write_request where
  "demo_finalize = request_default\<lparr>rq_finish_write := True, rq_flush := True, rq_write_offset := 3,
     rq_object_crc32c := Some 12\<rparr>"

definition demo_final_reply :: "nat \<Rightarrow> (error, write_response) result option" where
  "demo_final_reply k = (if k = 0 then Some (Ok (demo_response (Resource demo_object))) else None)"

definition demo_finalized :: writer where
  "demo_finalized = demo_writer\<lparr>tw_intents := [IntentAppend demo_append, IntentFinalize demo_finalize 0],
     tw_write_offset := 3, tw_running_crc32c := Some 12, tw_next_sender := 1\<rparr>"

lemma demo_writer_finalize:
  "writer_finalize demo_setup demo_final_reply (\<lambda>_. True) (demo_writer\<lparr>tw_buffer := [1, 2]\<rparr>) = (Ok demo_object, demo_finalized)"
  by (simp add: writer_finalize_def append_residual_def coalesce_flush_def append_sub_chunk_def ask_worker_def send_intent_def
      finalize_request_def demo_finalized_def demo_finalize_def demo_defs demo_final_reply_def byte_sum_def
      drop_and_join_worker_def Let_def)

lemma demo_finalize_run:
  "write_runs (se_options demo_setup) (Streaming demo_connection, demo_worker)
     (demo_last (IntentFinalize demo_finalize 0) (demo_response (Resource demo_object)))
     (Streaming (demo_asked demo_finalize), demo_confirmed PendFinalize (demo_response (Resource demo_object)))"
  by (rule demo_run) (simp_all add: demo_finalize_def demo_pending_def demo_reconnected_eq demo_response_def persisted_size_def
      is_finalized_def request_default_def demo_object_def)

theorem finalize_covers_everything_written_witness:
  "writer_finalize demo_setup demo_final_reply (\<lambda>_. True) (demo_writer\<lparr>tw_buffer := [1, 2]\<rparr>) = (Ok demo_object, demo_finalized) \<and>
   or_size demo_object = int (length [9, 1, 2 :: u8]) \<and> rq_object_crc32c demo_finalize = Some (byte_sum [9, 1, 2])"
proof -
  have rep: "(k, Some (Ok resp)) \<in> set (ww_answers (snd (Streaming (demo_asked demo_finalize),
      demo_confirmed PendFinalize (demo_response (Resource demo_object)))))" if "demo_final_reply k = Some (Ok resp)" for k resp
    using that by (auto simp: demo_final_reply_def demo_confirmed_def split: if_splits)
  have taken: "prefix (intents_of (demo_last (IntentFinalize demo_finalize 0) (demo_response (Resource demo_object))))
      (tw_intents demo_finalized)"
    by (simp add: demo_intents demo_finalized_def)
  have "[9, 1, 2] = [9] @ opening_data demo_opening @ concat (map op_data [OpAppend [1], OpAppend [2]])"
    by (simp add: demo_opening_def)
  from finalize_covers_everything_written [OF demo_law demo_connect demo_known demo_open demo_ops demo_writer_finalize
      demo_finalize_run taken rep this]
  show ?thesis using demo_writer_finalize by (simp add: demo_finalized_def demo_finalize_def demo_setup_def request_default_def)
qed

end
