(* ===== verification/Storage_Upload.thy ===== *)
theory Storage_Upload
  imports Storage_Download
begin

text \<open>
  Uploads from a source of data, \<open>storage/src/storage/perform_upload.rs\<close> with
  \<open>perform_upload/buffered.rs\<close>, \<open>buffered/progress.rs\<close> and \<open>unbuffered.rs\<close>, and
  the sources of \<open>streaming_source.rs\<close>.

  A source is the list of what it still yields. The network is a list of outcomes, one for each
  request of an attempt; \<open>None\<close> as the result of an attempt means that it waits for one more.
  Requests are logged with their outcomes. CRC32C, MD5, JSON and the error that
  \<open>to_http_error\<close> makes of a reply are parameters or part of the reply. Sizes are natural
  numbers; the code has them as \<open>u64\<close> and \<open>usize\<close>.
\<close>

section \<open>Sources\<close>

text \<open>What the code asks of \<open>http_body::SizeHint\<close>.\<close>

record size_hint =
  hint_exact :: "nat option"
  hint_upper :: "nat option"

definition exact_hint :: "nat \<Rightarrow> size_hint" where
  "exact_hint n = \<lparr>hint_exact = Some n, hint_upper = Some n\<rparr>"

record bytes_source =
  by_contents :: bytes
  by_current :: "bytes option"

definition bytes_source_new :: "bytes \<Rightarrow> bytes_source" where
  "bytes_source_new contents = \<lparr>by_contents = contents, by_current = Some contents\<rparr>"

definition bytes_source_next :: "bytes_source \<Rightarrow> bytes option \<times> bytes_source" where
  "bytes_source_next s = (by_current s, s\<lparr>by_current := None\<rparr>)"

definition bytes_source_hint :: "bytes_source \<Rightarrow> size_hint" where
  "bytes_source_hint s = exact_hint (length (by_contents s))"

definition bytes_source_seek :: "nat \<Rightarrow> bytes_source \<Rightarrow> bytes_source" where
  "bytes_source_seek offset s = s\<lparr>by_current := Some (drop (min offset (length (by_contents s))) (by_contents s))\<rparr>"

record iter_source =
  it_contents :: "bytes list"
  it_current :: "bytes list"

definition iter_source_new :: "bytes list \<Rightarrow> iter_source" where
  "iter_source_new contents = \<lparr>it_contents = contents, it_current = contents\<rparr>"

definition iter_source_next :: "iter_source \<Rightarrow> bytes option \<times> iter_source" where
  "iter_source_next s = (case it_current s of [] \<Rightarrow> (None, s) | b # bs \<Rightarrow> (Some b, s\<lparr>it_current := bs\<rparr>))"

definition iter_source_hint :: "iter_source \<Rightarrow> size_hint" where
  "iter_source_hint s = exact_hint (fold (\<lambda>b n. n + length b) (it_contents s) 0)"

text \<open>The loop of \<open>IterSource::seek\<close>.\<close>

fun seek_pieces :: "nat \<Rightarrow> bytes list \<Rightarrow> bytes list" where
  "seek_pieces offset [] = []"
| "seek_pieces offset (b # bs) =
     (if offset = 0 then b # seek_pieces 0 bs
      else if length b \<le> offset then seek_pieces (offset - length b) bs
      else drop (length b - offset) b # seek_pieces 0 bs)"

definition iter_source_seek :: "nat \<Rightarrow> iter_source \<Rightarrow> iter_source" where
  "iter_source_seek offset s = s\<lparr>it_current := seek_pieces offset (it_contents s)\<rparr>"

text \<open>\<open>ChecksummedSource\<close> over the items that the source yields.\<close>

type_synonym source_items = "(box_error, bytes) result list"

record checksummed_source =
  cs_offset :: nat
  cs_checksum :: checksum
  cs_source :: source_items

definition checksummed_new :: "checksum \<Rightarrow> source_items \<Rightarrow> checksummed_source" where
  "checksummed_new ck items = \<lparr>cs_offset = 0, cs_checksum = ck, cs_source = items\<rparr>"

definition cs_next ::
  "(u32 \<Rightarrow> bytes \<Rightarrow> u32) \<Rightarrow> checksummed_source \<Rightarrow> (box_error, bytes) result option \<times> checksummed_source" where
  "cs_next crc32c_append s =
     (case cs_source s of
        [] \<Rightarrow> (None, s)
      | Ok b # items \<Rightarrow>
          (Some (Ok b), s\<lparr>cs_checksum := checksum_update crc32c_append (cs_checksum s) (cs_offset s) b,
             cs_offset := cs_offset s + length b, cs_source := items\<rparr>)
      | Err e # items \<Rightarrow> (Some (Err e), s\<lparr>cs_source := items\<rparr>))"

definition final_checksum :: "(bytes \<Rightarrow> bytes) \<Rightarrow> checksummed_source \<Rightarrow> object_checksums" where
  "final_checksum md5_digest s = checksum_finalize md5_digest (cs_checksum s)"

definition checksum_default :: checksum where
  "checksum_default = \<lparr>ck_crc32c = None, ck_md5_hash = None\<rparr>"

definition reset_checksum :: "checksummed_source \<Rightarrow> checksummed_source" where
  "reset_checksum s = s\<lparr>cs_checksum := checksum_default\<rparr>"

definition U64_MAX :: nat where "U64_MAX = 2 ^ 64 - 1"

text \<open>\<open>seek\<close> of the source gives the items from an offset, or fails.\<close>

definition cs_seek ::
  "(nat \<Rightarrow> (box_error, source_items) result) \<Rightarrow> nat \<Rightarrow> checksummed_source \<Rightarrow>
   (box_error, unit) result \<times> checksummed_source" where
  "cs_seek seek offset s =
     (case seek offset of
        Ok items \<Rightarrow> (Ok (), s\<lparr>cs_offset := offset, cs_source := items\<rparr>)
      | Err e \<Rightarrow> (Err e, s\<lparr>cs_offset := U64_MAX\<rparr>))"

section \<open>The progress of a buffered upload\<close>

definition RESUMABLE_UPLOAD_QUANTUM :: nat where "RESUMABLE_UPLOAD_QUANTUM = 256 * 1024"

record stored_object =
  so_bucket :: string
  so_name :: string
  so_checksums :: "object_checksums option"

datatype write_error =
    UnexpectedRewind nat nat
  | TooMuchProgress nat nat
  | WriteChecksumMismatch checksum_mismatch stored_object

record in_progress_upload =
  iu_target_size :: nat
  iu_hint :: size_hint
  iu_offset :: nat
  iu_buffer :: "bytes list"
  iu_buffer_size :: nat
  iu_persisted_size :: "nat option"
  iu_remainder :: "bytes list"
  iu_source_ended :: bool

definition div_ceil :: "nat \<Rightarrow> nat \<Rightarrow> nat" where
  "div_ceil a b = (a + b - 1) div b"

definition in_progress_new :: "nat \<Rightarrow> size_hint \<Rightarrow> in_progress_upload" where
  "in_progress_new wanted_size hint =
     \<lparr>iu_target_size = max (div_ceil wanted_size RESUMABLE_UPLOAD_QUANTUM * RESUMABLE_UPLOAD_QUANTUM) RESUMABLE_UPLOAD_QUANTUM,
      iu_hint = hint, iu_offset = 0, iu_buffer = [], iu_buffer_size = 0, iu_persisted_size = Some 0,
      iu_remainder = [], iu_source_ended = False\<rparr>"

definition needs_query :: "in_progress_upload \<Rightarrow> bool" where
  "needs_query p \<longleftrightarrow> (case iu_persisted_size p of None \<Rightarrow> True | Some x \<Rightarrow> x \<noteq> iu_offset p)"

definition is_last_chunk :: "in_progress_upload \<Rightarrow> bool" where
  "is_last_chunk p \<longleftrightarrow> iu_source_ended p \<or>
     is_some_and (\<lambda>len. iu_offset p + iu_buffer_size p = len) (hint_exact (iu_hint p))"

text \<open>The closure \<open>process_buffer\<close>: the piece that is used, the size, and what is left of a piece
  when the target size is reached.\<close>

definition process_buffer :: "nat \<Rightarrow> nat \<Rightarrow> bytes \<Rightarrow> bytes \<times> nat \<times> bytes option option" where
  "process_buffer target sz b =
     (if sz + length b > target then (take (target - sz) b, target, Some (Some (drop (target - sz) b)))
      else if sz + length b = target then (b, target, Some None)
      else (b, sz + length b, None))"

definition put_back :: "bytes option \<Rightarrow> bytes list \<Rightarrow> bytes list" where
  "put_back r bs = (case r of Some b \<Rightarrow> b # bs | None \<Rightarrow> bs)"

text \<open>The two loops of \<open>next_buffer\<close>. The results are the buffer, its size, the remainder, and
  whether the target size was reached.\<close>

fun fill_from_remainder :: "nat \<Rightarrow> bytes list \<Rightarrow> bytes list \<Rightarrow> nat \<Rightarrow> bytes list \<times> nat \<times> bytes list \<times> bool" where
  "fill_from_remainder target [] buf sz = (buf, sz, [], False)"
| "fill_from_remainder target (b # bs) buf sz =
     (case process_buffer target sz b of
        (b', sz', Some r) \<Rightarrow> (buf @ [b'], sz', put_back r bs, True)
      | (b', sz', None) \<Rightarrow> fill_from_remainder target bs (buf @ [b']) sz')"

function fill_from_source ::
  "(u32 \<Rightarrow> bytes \<Rightarrow> u32) \<Rightarrow> nat \<Rightarrow> checksummed_source \<Rightarrow> bytes list \<Rightarrow> nat \<Rightarrow>
   (error, bytes list \<times> nat \<times> bytes list \<times> bool) result \<times> checksummed_source" where
  "fill_from_source app target cs buf sz =
     (case cs_next app cs of
        (None, cs') \<Rightarrow> (Ok (buf, sz, [], False), cs')
      | (Some (Err e), cs') \<Rightarrow> (Err (ser e), cs')
      | (Some (Ok b), cs') \<Rightarrow>
          (case process_buffer target sz b of
             (b', sz', Some r) \<Rightarrow> (Ok (buf @ [b'], sz', put_back r [], True), cs')
           | (b', sz', None) \<Rightarrow> fill_from_source app target cs' (buf @ [b']) sz'))"
  by pat_completeness auto
termination
  by (relation "measure (\<lambda>(app, target, cs, buf, sz). length (cs_source cs))")
    (auto simp: cs_next_def split: list.splits result.splits)

declare fill_from_source.simps [simp del]

definition next_buffer ::
  "(u32 \<Rightarrow> bytes \<Rightarrow> u32) \<Rightarrow> in_progress_upload \<Rightarrow> checksummed_source \<Rightarrow>
   (error, unit) result \<times> in_progress_upload \<times> checksummed_source" where
  "next_buffer app p cs =
     (case fill_from_remainder (iu_target_size p) (iu_remainder p) [] 0 of
        (buf, sz, rest, True) \<Rightarrow> (Ok (), p\<lparr>iu_buffer := buf, iu_buffer_size := sz, iu_remainder := rest\<rparr>, cs)
      | (buf, sz, rest, False) \<Rightarrow>
          (case fill_from_source app (iu_target_size p) cs buf sz of
             (Err e, cs') \<Rightarrow> (Err e, p\<lparr>iu_remainder := []\<rparr>, cs')
           | (Ok (buf', sz', rest', reached), cs') \<Rightarrow>
               (Ok (), p\<lparr>iu_buffer := buf', iu_buffer_size := sz', iu_remainder := rest',
                  iu_source_ended := iu_source_ended p \<or> \<not> reached\<rparr>, cs')))"

definition content_range :: "in_progress_upload \<Rightarrow> string" where
  "content_range p =
     (let n = iu_buffer_size p; ofs = iu_offset p
      in case hint_exact (iu_hint p) of
           Some len \<Rightarrow>
             (if n = 0 \<and> ofs = 0 then ''bytes */'' @ dec len
              else ''bytes '' @ dec ofs @ ''-'' @ dec (ofs + n - 1) @ ''/'' @ dec len)
         | None \<Rightarrow>
             (if n = 0 then ''bytes */'' @ dec ofs
              else if n < iu_target_size p \<or> iu_source_ended p then
                ''bytes '' @ dec ofs @ ''-'' @ dec (ofs + n - 1) @ ''/'' @ dec (ofs + n)
              else ''bytes '' @ dec ofs @ ''-'' @ dec (ofs + n - 1) @ ''/*''))"

definition put_body :: "in_progress_upload \<Rightarrow> bytes" where
  "put_body p = concat (iu_buffer p)"

text \<open>The pieces of the buffer that stay when the first \<open>skip\<close> bytes are persisted.\<close>

fun drain_persisted :: "nat \<Rightarrow> bytes list \<Rightarrow> bytes list" where
  "drain_persisted skip [] = []"
| "drain_persisted skip (b # bs) =
     (if skip = 0 then b # drain_persisted 0 bs
      else if length b \<le> skip then drain_persisted (skip - length b) bs
      else drop (length b - skip) b # drain_persisted 0 bs)"

definition handle_partial ::
  "(write_error \<Rightarrow> box_error) \<Rightarrow> nat \<Rightarrow> in_progress_upload \<Rightarrow> (error, unit) result \<times> in_progress_upload" where
  "handle_partial box persisted p =
     (if persisted < iu_offset p then (Err (ser (box (UnexpectedRewind (iu_offset p) persisted))), p)
      else if persisted \<le> iu_offset p + iu_buffer_size p then
        (Ok (), p\<lparr>iu_persisted_size := Some persisted, iu_offset := persisted,
           iu_remainder := drain_persisted (persisted - iu_offset p) (iu_buffer p) @ iu_remainder p,
           iu_buffer := [], iu_buffer_size := 0\<rparr>)
      else (Err (ser (box (TooMuchProgress (iu_offset p + iu_buffer_size p) persisted))), p))"

definition upload_handle_error :: "in_progress_upload \<Rightarrow> in_progress_upload" where
  "upload_handle_error p = p\<lparr>iu_persisted_size := None\<rparr>"


section \<open>Requests and replies\<close>

record upload_spec =
  up_bucket :: string
  up_name :: string
  up_kms_key :: string
  up_predefined_acl :: string
  up_checksums :: "object_checksums option"
  up_if_generation_match :: "int option"
  up_if_generation_not_match :: "int option"
  up_if_metageneration_match :: "int option"
  up_if_metageneration_not_match :: "int option"

record upload_env =
  ue_crc32c_append :: "u32 \<Rightarrow> bytes \<Rightarrow> u32"
  ue_md5_digest :: "bytes \<Rightarrow> bytes"
  ue_box :: "write_error \<Rightarrow> box_error"
  ue_bad_url :: "string \<Rightarrow> error option"
  ue_spec :: upload_spec

definition query_if_some :: "string \<Rightarrow> int option \<Rightarrow> (string \<times> string) list" where
  "query_if_some key v = (case v of Some x \<Rightarrow> [(key, idec x)] | None \<Rightarrow> [])"

definition query_if_set :: "string \<Rightarrow> string \<Rightarrow> (string \<times> string) list" where
  "query_if_set key v = (if v = [] then [] else [(key, v)])"

definition apply_preconditions :: "upload_spec \<Rightarrow> (string \<times> string) list" where
  "apply_preconditions spec =
     query_if_some ''ifGenerationMatch'' (up_if_generation_match spec) @
     query_if_some ''ifGenerationNotMatch'' (up_if_generation_not_match spec) @
     query_if_some ''ifMetagenerationMatch'' (up_if_metageneration_match spec) @
     query_if_some ''ifMetagenerationNotMatch'' (up_if_metageneration_not_match spec) @
     query_if_set ''kmsKeyName'' (up_kms_key spec) @ query_if_set ''predefinedAcl'' (up_predefined_acl spec)"

text \<open>
  A reply as the code reads it. The \<open>Location\<close> is \<open>Some None\<close> if it is not text; the object is
  what decoding the body gives; the error is that of \<open>to_http_error\<close>.
\<close>

record http_reply =
  hp_status :: nat
  hp_location :: "string option option"
  hp_range :: "string option"
  hp_object :: "(box_error, stored_object) result"
  hp_error :: error

datatype http_outcome = SendFailed error | Replied http_reply

definition RESUME_INCOMPLETE :: nat where "RESUME_INCOMPLETE = 308"

definition is_success :: "nat \<Rightarrow> bool" where
  "is_success status \<longleftrightarrow> 200 \<le> status \<and> status < 300"

datatype upload_status = Finalized stored_object | Partial nat

definition parse_range_end :: "string option \<Rightarrow> nat option" where
  "parse_range_end header =
     (case header of
        None \<Rightarrow> Some 0
      | Some r \<Rightarrow>
          (case strip_prefix ''bytes=0-'' r of
             None \<Rightarrow> None
           | Some fin \<Rightarrow> (case parse_u64 fin of Ok v \<Rightarrow> Some v | Err e \<Rightarrow> None)))"

definition parse_range :: "http_reply \<Rightarrow> (error, upload_status) result" where
  "parse_range reply =
     (case parse_range_end (hp_range reply) of
        None \<Rightarrow> Err (hp_error reply)
      | Some fin \<Rightarrow> Ok (Partial (if fin = 0 then 0 else (fin + 1) mod 2 ^ 64)))"

definition handle_object_response :: "http_reply \<Rightarrow> (error, stored_object) result" where
  "handle_object_response reply =
     (if \<not> is_success (hp_status reply) then Err (hp_error reply)
      else case hp_object reply of Ok ob \<Rightarrow> Ok ob | Err e \<Rightarrow> Err (deser e))"

definition query_resumable_upload_handle_response :: "http_reply \<Rightarrow> (error, upload_status) result" where
  "query_resumable_upload_handle_response reply =
     (if hp_status reply = RESUME_INCOMPLETE then parse_range reply
      else case handle_object_response reply of Ok ob \<Rightarrow> Ok (Finalized ob) | Err e \<Rightarrow> Err e)"

definition handle_start_resumable_upload_response :: "http_reply \<Rightarrow> (error, string) result" where
  "handle_start_resumable_upload_response reply =
     (if \<not> is_success (hp_status reply) then Err (hp_error reply)
      else case hp_location reply of
             None \<Rightarrow> Err (deser (MsgError ''missing Location header in start resumable upload''))
           | Some None \<Rightarrow> Err (deser (MsgError ''failed to convert header to a str''))
           | Some (Some url) \<Rightarrow> Ok url)"

section \<open>Attempts of a buffered upload\<close>

datatype upload_request =
    StartUpload "(string \<times> string) list"
  | QueryUpload string
  | PutChunk string nat "bytes list" string "u32 option"
  | PutStream string nat string source_items
  | PostObject "(string \<times> string) list" source_items

record upload_state =
  us_url :: "string option"
  us_progress :: in_progress_upload
  us_payload :: checksummed_source
  us_log :: "(upload_request \<times> http_outcome) list"

type_synonym 'a attempt = "(error, 'a) result option \<times> http_outcome list \<times> upload_state"

text \<open>Sending a request: the next outcome, which is logged, or nothing yet.\<close>

definition send_request :: "upload_request \<Rightarrow> http_outcome list \<Rightarrow> upload_state \<Rightarrow> http_outcome option \<times> http_outcome list \<times> upload_state" where
  "send_request req xs s =
     (case xs of
        [] \<Rightarrow> (None, [], s)
      | x # xs' \<Rightarrow> (Some x, xs', s\<lparr>us_log := us_log s @ [(req, x)]\<rparr>))"

definition start_resumable_upload_attempt :: "upload_env \<Rightarrow> http_outcome list \<Rightarrow> upload_state \<Rightarrow> string attempt" where
  "start_resumable_upload_attempt env xs s =
     (case strip_prefix ''projects/_/buckets/'' (up_bucket (ue_spec env)) of
        None \<Rightarrow>
          (Some (Err (binding (MsgError (''malformed bucket name, it must start with `projects/_/buckets/`: '' @
             up_bucket (ue_spec env))))), xs, s)
      | Some bucket_id \<Rightarrow>
          (case send_request (StartUpload ([(''uploadType'', ''resumable''), (''name'', up_name (ue_spec env))] @
               apply_preconditions (ue_spec env))) xs s of
             (None, xs', s') \<Rightarrow> (None, xs', s')
           | (Some (SendFailed e), xs', s') \<Rightarrow> (Some (Err (io (GaxError e))), xs', s')
           | (Some (Replied reply), xs', s') \<Rightarrow> (Some (handle_start_resumable_upload_response reply), xs', s')))"

definition query_resumable_upload_attempt ::
  "upload_env \<Rightarrow> string \<Rightarrow> http_outcome list \<Rightarrow> upload_state \<Rightarrow> upload_status attempt" where
  "query_resumable_upload_attempt env url xs s =
     (case ue_bad_url env url of
        Some e \<Rightarrow> (Some (Err e), xs, s)
      | None \<Rightarrow>
          (case send_request (QueryUpload url) xs s of
             (None, xs', s') \<Rightarrow> (None, xs', s')
           | (Some (SendFailed e), xs', s') \<Rightarrow> (Some (Err (io (GaxError e))), xs', s')
           | (Some (Replied reply), xs', s') \<Rightarrow> (Some (query_resumable_upload_handle_response reply), xs', s')))"

definition validate_response_object :: "upload_env \<Rightarrow> checksummed_source \<Rightarrow> stored_object \<Rightarrow> (error, stored_object) result" where
  "validate_response_object env payload ob =
     (let mismatch = (\<lambda>m. Err (ser (ue_box env (WriteChecksumMismatch m ob))));
          computed = validate (final_checksum (ue_md5_digest env) payload) (so_checksums ob)
      in case (case up_checksums (ue_spec env) of Some pre \<Rightarrow> validate pre (so_checksums ob) | None \<Rightarrow> Ok ()) of
           Err m \<Rightarrow> mismatch m
         | Ok _ \<Rightarrow> (case computed of Err m \<Rightarrow> mismatch m | Ok _ \<Rightarrow> Ok ob))"

definition partial_upload_request :: "upload_env \<Rightarrow> string \<Rightarrow> bool \<Rightarrow> upload_state \<Rightarrow> (error, upload_request) result" where
  "partial_upload_request env url should_send_checksum s =
     (case ue_bad_url env url of
        Some e \<Rightarrow> Err e
      | None \<Rightarrow>
          (let p = us_progress s
           in Ok (PutChunk url (iu_offset p) (iu_buffer p) (content_range p)
                (if should_send_checksum \<and> is_last_chunk p
                 then oc_crc32c (final_checksum (ue_md5_digest env) (us_payload s)) else None))))"

function put_loop :: "upload_env \<Rightarrow> string \<Rightarrow> bool \<Rightarrow> http_outcome list \<Rightarrow> upload_state \<Rightarrow> stored_object attempt" where
  "put_loop env url checksum xs s =
     (case next_buffer (ue_crc32c_append env) (us_progress s) (us_payload s) of
        (Err e, p, cs) \<Rightarrow> (Some (Err e), xs, s\<lparr>us_progress := p, us_payload := cs\<rparr>)
      | (Ok _, p, cs) \<Rightarrow>
          (let s1 = s\<lparr>us_progress := p, us_payload := cs\<rparr>
           in case partial_upload_request env url checksum s1 of
                Err e \<Rightarrow> (Some (Err e), xs, s1)
              | Ok req \<Rightarrow>
                  (case xs of
                     [] \<Rightarrow> (None, [], s1)
                   | x # xs' \<Rightarrow>
                       (let s2 = s1\<lparr>us_log := us_log s1 @ [(req, x)]\<rparr>
                        in case x of
                             SendFailed e \<Rightarrow> (Some (Err e), xs', s2)
                           | Replied reply \<Rightarrow>
                               (case query_resumable_upload_handle_response reply of
                                  Err e \<Rightarrow> (Some (Err e), xs', s2\<lparr>us_progress := upload_handle_error p\<rparr>)
                                | Ok (Finalized ob) \<Rightarrow> (Some (validate_response_object env cs ob), xs', s2)
                                | Ok (Partial persisted) \<Rightarrow>
                                    (case handle_partial (ue_box env) persisted p of
                                       (Err e, p') \<Rightarrow> (Some (Err e), xs', s2\<lparr>us_progress := p'\<rparr>)
                                     | (Ok _, p') \<Rightarrow> put_loop env url checksum xs' (s2\<lparr>us_progress := p'\<rparr>)))))))"
  by pat_completeness auto
termination
  by (relation "measure (\<lambda>(env, url, checksum, xs, s). length xs)") auto

declare put_loop.simps [simp del]

text \<open>The session of the upload: the one there is, or a new one.\<close>

definition resumable_session :: "upload_env \<Rightarrow> http_outcome list \<Rightarrow> upload_state \<Rightarrow> string attempt" where
  "resumable_session env xs s =
     (case us_url s of
        Some u \<Rightarrow> (Some (Ok u), xs, s)
      | None \<Rightarrow>
          (case start_resumable_upload_attempt env xs s of
             (Some (Ok u), xs', s') \<Rightarrow> (Some (Ok u), xs', s'\<lparr>us_url := Some u\<rparr>)
           | (r, xs', s') \<Rightarrow> (r, xs', s')))"

definition buffered_resumable_attempt :: "upload_env \<Rightarrow> http_outcome list \<Rightarrow> upload_state \<Rightarrow> stored_object attempt" where
  "buffered_resumable_attempt env xs s =
     (let is_resume = us_url s \<noteq> None
      in case resumable_session env xs s of
           (None, xs1, s1) \<Rightarrow> (None, xs1, s1)
         | (Some (Err e), xs1, s1) \<Rightarrow> (Some (Err e), xs1, s1)
         | (Some (Ok url), xs1, s1) \<Rightarrow>
             (if needs_query (us_progress s1) then
                (case query_resumable_upload_attempt env url xs1 s1 of
                   (None, xs2, s2) \<Rightarrow> (None, xs2, s2)
                 | (Some (Err e), xs2, s2) \<Rightarrow> (Some (Err e), xs2, s2)
                 | (Some (Ok (Finalized ob)), xs2, s2) \<Rightarrow> (Some (Ok ob), xs2, s2)
                 | (Some (Ok (Partial persisted)), xs2, s2) \<Rightarrow>
                     (case handle_partial (ue_box env) persisted (us_progress s2) of
                        (Err e, p') \<Rightarrow> (Some (Err e), xs2, s2\<lparr>us_progress := p'\<rparr>)
                      | (Ok _, p') \<Rightarrow>
                          put_loop env url (\<not> is_resume \<and> \<not> 0 < persisted) xs2 (s2\<lparr>us_progress := p'\<rparr>)))
              else put_loop env url (\<not> is_resume) xs1 s1))"





section \<open>Unbuffered uploads\<close>

text \<open>
  The source can seek: \<open>seek\<close> gives its items from an offset. The client reads the body while it
  sends it; \<open>taken\<close> is how many items it reads in an attempt.
\<close>

definition unbuffered_range :: "nat \<Rightarrow> size_hint \<Rightarrow> string" where
  "unbuffered_range offset hint =
     (case hint_exact hint of
        None \<Rightarrow> ''bytes '' @ dec offset @ ''-*/*''
      | Some len \<Rightarrow>
          (if len = 0 then ''bytes */0'' else ''bytes '' @ dec offset @ ''-'' @ dec (len - 1) @ ''/'' @ dec len))"

fun read_items :: "(u32 \<Rightarrow> bytes \<Rightarrow> u32) \<Rightarrow> nat \<Rightarrow> checksummed_source \<Rightarrow> checksummed_source" where
  "read_items app 0 cs = cs"
| "read_items app (Suc n) cs = read_items app n (snd (cs_next app cs))"

definition unbuffered_offset :: "upload_env \<Rightarrow> http_outcome list \<Rightarrow> upload_state \<Rightarrow> (stored_object + nat \<times> string) attempt" where
  "unbuffered_offset env xs s =
     (case us_url s of
        Some url \<Rightarrow>
          (case query_resumable_upload_attempt env url xs s of
             (None, xs', s') \<Rightarrow> (None, xs', s')
           | (Some (Err e), xs', s') \<Rightarrow> (Some (Err e), xs', s')
           | (Some (Ok (Finalized ob)), xs', s') \<Rightarrow> (Some (Ok (Inl ob)), xs', s')
           | (Some (Ok (Partial offset)), xs', s') \<Rightarrow> (Some (Ok (Inr (offset, url))), xs', s'))
      | None \<Rightarrow>
          (case start_resumable_upload_attempt env xs s of
             (None, xs', s') \<Rightarrow> (None, xs', s')
           | (Some (Err e), xs', s') \<Rightarrow> (Some (Err e), xs', s')
           | (Some (Ok url), xs', s') \<Rightarrow> (Some (Ok (Inr (0, url))), xs', s'\<lparr>us_url := Some url\<rparr>)))"

text \<open>Sending a body that streams from the payload, and the reply.\<close>

definition send_stream ::
  "upload_env \<Rightarrow> nat \<Rightarrow> upload_request \<Rightarrow> http_outcome list \<Rightarrow> upload_state \<Rightarrow> stored_object attempt" where
  "send_stream env taken req xs s =
     (case send_request req xs (s\<lparr>us_payload := read_items (ue_crc32c_append env) taken (us_payload s)\<rparr>) of
        (None, xs', s') \<Rightarrow> (None, xs', s')
      | (Some (SendFailed e), xs', s') \<Rightarrow> (Some (Err e), xs', s')
      | (Some (Replied reply), xs', s') \<Rightarrow>
          (case handle_object_response reply of
             Err e \<Rightarrow> (Some (Err e), xs', s')
           | Ok ob \<Rightarrow> (Some (validate_response_object env (us_payload s') ob), xs', s')))"

definition resumable_attempt ::
  "upload_env \<Rightarrow> (nat \<Rightarrow> (box_error, source_items) result) \<Rightarrow> size_hint \<Rightarrow> nat \<Rightarrow> http_outcome list \<Rightarrow> upload_state \<Rightarrow>
   stored_object attempt" where
  "resumable_attempt env seek hint taken xs s =
     (case unbuffered_offset env xs s of
        (None, xs1, s1) \<Rightarrow> (None, xs1, s1)
      | (Some (Err e), xs1, s1) \<Rightarrow> (Some (Err e), xs1, s1)
      | (Some (Ok (Inl ob)), xs1, s1) \<Rightarrow> (Some (Ok ob), xs1, s1)
      | (Some (Ok (Inr (offset, url))), xs1, s1) \<Rightarrow>
          (case ue_bad_url env url of
             Some e \<Rightarrow> (Some (Err e), xs1, s1)
           | None \<Rightarrow>
               (case cs_seek seek offset (us_payload s1) of
                  (Err e, cs) \<Rightarrow> (Some (Err (ser e)), xs1, s1\<lparr>us_payload := cs\<rparr>)
                | (Ok _, cs) \<Rightarrow>
                    send_stream env taken (PutStream url offset (unbuffered_range offset hint) (cs_source cs)) xs1
                      (s1\<lparr>us_payload := cs\<rparr>))))"

definition single_shot_attempt ::
  "upload_env \<Rightarrow> (nat \<Rightarrow> (box_error, source_items) result) \<Rightarrow> nat \<Rightarrow> http_outcome list \<Rightarrow> upload_state \<Rightarrow> stored_object attempt" where
  "single_shot_attempt env seek taken xs s =
     (case strip_prefix ''projects/_/buckets/'' (up_bucket (ue_spec env)) of
        None \<Rightarrow>
          (Some (Err (binding (MsgError (''malformed bucket name, it must start with `projects/_/buckets/`: '' @
             up_bucket (ue_spec env))))), xs, s)
      | Some bucket_id \<Rightarrow>
          (case cs_seek seek 0 (us_payload s) of
             (Err e, cs) \<Rightarrow> (Some (Err (ser e)), xs, s\<lparr>us_payload := cs\<rparr>)
           | (Ok _, cs) \<Rightarrow>
               send_stream env taken (PostObject ([(''uploadType'', ''multipart''), (''name'', up_name (ue_spec env))] @
                 apply_preconditions (ue_spec env)) (cs_source cs)) xs (s\<lparr>us_payload := cs\<rparr>)))"

text \<open>Reading a source to its end.\<close>

function read_all :: "(u32 \<Rightarrow> bytes \<Rightarrow> u32) \<Rightarrow> checksummed_source \<Rightarrow> (box_error, bytes list) result \<times> checksummed_source" where
  "read_all app cs =
     (case cs_next app cs of
        (None, cs') \<Rightarrow> (Ok [], cs')
      | (Some (Err e), cs') \<Rightarrow> (Err e, cs')
      | (Some (Ok b), cs') \<Rightarrow> (case read_all app cs' of (Ok bs, cs'') \<Rightarrow> (Ok (b # bs), cs'') | (Err e, cs'') \<Rightarrow> (Err e, cs'')))"
  by pat_completeness auto
termination
  by (relation "measure (\<lambda>(app, cs). length (cs_source cs))") (auto simp: cs_next_def split: list.splits result.splits)

declare read_all.simps [simp del]

definition with_checksums :: "object_checksums \<Rightarrow> upload_env \<Rightarrow> upload_env" where
  "with_checksums computed env =
     (let spec = ue_spec env;
          current = (case up_checksums spec of Some c \<Rightarrow> c | None \<Rightarrow> checksums_new)
      in env\<lparr>ue_spec := spec\<lparr>up_checksums := Some (checksums_update current computed)\<rparr>\<rparr>)"

text \<open>The checksum is computed before the upload unless it is known.\<close>

definition precompute_checksum ::
  "upload_env \<Rightarrow> (nat \<Rightarrow> (box_error, source_items) result) \<Rightarrow> bool \<Rightarrow> checksummed_source \<Rightarrow>
   (error, upload_env \<times> checksummed_source) result" where
  "precompute_checksum env seek enabled cs =
     (let has_upfront_crc32c = (case up_checksums (ue_spec env) of Some c \<Rightarrow> oc_crc32c c \<noteq> None | None \<Rightarrow> False)
      in if enabled \<and> \<not> has_upfront_crc32c then
           (case cs_seek seek 0 cs of
              (Err e, _) \<Rightarrow> Err (ser e)
            | (Ok _, cs1) \<Rightarrow>
                (case read_all (ue_crc32c_append env) cs1 of
                   (Err e, _) \<Rightarrow> Err (ser e)
                 | (Ok _, cs2) \<Rightarrow>
                     (case cs_seek seek 0 (reset_checksum cs2) of
                        (Err e, _) \<Rightarrow> Err (ser e)
                      | (Ok _, cs3) \<Rightarrow> Ok (with_checksums (final_checksum (ue_md5_digest env) cs2) env, cs3))))
         else Ok (env, cs))"

text \<open>\<open>IterSource\<close> as a source that can seek.\<close>

definition iter_seek :: "bytes list \<Rightarrow> nat \<Rightarrow> (box_error, source_items) result" where
  "iter_seek contents offset = Ok (map Ok (seek_pieces offset contents))"

definition send_buffered_single_shot ::
  "upload_env \<Rightarrow> checksummed_source \<Rightarrow> (error, upload_env \<times> (nat \<Rightarrow> (box_error, source_items) result) \<times> size_hint \<times> checksummed_source) result" where
  "send_buffered_single_shot env cs =
     (case read_all (ue_crc32c_append env) cs of
        (Err e, _) \<Rightarrow> Err (ser e)
      | (Ok collected, cs') \<Rightarrow>
          Ok (with_checksums (final_checksum (ue_md5_digest env) cs') env, iter_seek collected,
              exact_hint (length (concat collected)), checksummed_new checksum_default (map Ok collected)))"

definition uses_resumable :: "nat \<Rightarrow> size_hint \<Rightarrow> bool" where
  "uses_resumable threshold hint \<longleftrightarrow> (case hint_upper hint of None \<Rightarrow> True | Some m \<Rightarrow> threshold \<le> m)"

section \<open>Filling the buffer\<close>

lemma process_buffer_spec:
  assumes "process_buffer target sz b = (b', sz', r)" "sz < target"
  shows "b = b' @ concat (put_back (case r of Some x \<Rightarrow> x | None \<Rightarrow> None) [])" "sz' = sz + length b'"
    "r \<noteq> None \<Longrightarrow> sz' = target" "r = None \<Longrightarrow> sz' < target"
  using assms by (auto simp: process_buffer_def put_back_def split: if_splits)

lemma put_back_concat: "concat (put_back r bs) = concat (put_back r []) @ concat bs"
  by (simp add: put_back_def split: option.split)

lemma fill_from_remainder_spec:
  assumes "fill_from_remainder target rem buf sz = (buf', sz', rest, reached)" "sz = length (concat buf)" "sz < target"
  shows "concat buf' @ concat rest = concat buf @ concat rem \<and> sz' = length (concat buf') \<and>
    (if reached then sz' = target else rest = [] \<and> sz' < target)"
  using assms
proof (induction rem arbitrary: buf sz)
  case Nil
  then show ?case by auto
next
  case (Cons b bs)
  obtain b1 sz1 r where p: "process_buffer target sz b = (b1, sz1, r)" by (metis prod_cases3)
  note spec = process_buffer_spec [OF p Cons.prems(3)]
  show ?case
  proof (cases r)
    case None
    with Cons.prems p have "fill_from_remainder target bs (buf @ [b1]) sz1 = (buf', sz', rest, reached)" by simp
    from Cons.IH [OF this] spec None Cons.prems(2) show ?thesis by (auto simp: put_back_def)
  next
    case (Some x)
    with Cons.prems p have "buf' = buf @ [b1]" "sz' = sz1" "rest = put_back x bs" reached by auto
    with spec Some Cons.prems(2) show ?thesis using put_back_concat [of x bs] by auto
  qed
qed

text \<open>The pieces that a source without errors still has.\<close>

definition source_ok :: "checksummed_source \<Rightarrow> bytes list \<Rightarrow> bool" where
  "source_ok cs pieces \<longleftrightarrow> cs_source cs = map Ok pieces"

lemma fill_from_source_spec:
  assumes "source_ok cs pieces" "sz = length (concat buf)" "sz < target"
  shows "\<exists>buf' sz' rest reached cs' pieces'.
    fill_from_source app target cs buf sz = (Ok (buf', sz', rest, reached), cs') \<and> source_ok cs' pieces' \<and>
    concat buf' @ concat rest @ concat pieces' = concat buf @ concat pieces \<and> sz' = length (concat buf') \<and>
    (if reached then sz' = target else rest = [] \<and> pieces' = [] \<and> sz' < target)"
  using assms
proof (induction pieces arbitrary: cs buf sz)
  case Nil
  then show ?case by (subst fill_from_source.simps) (auto simp: cs_next_def source_ok_def)
next
  case (Cons b bs)
  obtain b1 sz1 r where p: "process_buffer target sz b = (b1, sz1, r)" by (metis prod_cases3)
  note spec = process_buffer_spec [OF p Cons.prems(3)]
  obtain cs1 where n: "cs_next app cs = (Some (Ok b), cs1)" "source_ok cs1 bs"
    using Cons.prems(1) by (auto simp: cs_next_def source_ok_def)
  show ?case
  proof (cases r)
    case None
    from spec None Cons.prems(2) have sz1: "sz1 = length (concat (buf @ [b1]))" "sz1 < target" "b = b1"
      by (auto simp: put_back_def)
    have "fill_from_source app target cs buf sz = fill_from_source app target cs1 (buf @ [b1]) sz1"
      by (subst fill_from_source.simps) (simp add: n p None)
    with Cons.IH [OF n(2) sz1(1,2)] sz1(3) show ?thesis by simp
  next
    case (Some x)
    have "fill_from_source app target cs buf sz = (Ok (buf @ [b1], sz1, put_back x [], True), cs1)"
      by (subst fill_from_source.simps) (simp add: n p Some)
    with n(2) spec Some Cons.prems(2) show ?thesis by auto
  qed
qed

lemma next_buffer_spec:
  assumes "source_ok cs pieces" "0 < iu_target_size p"
  obtains p' cs' pieces' where "next_buffer app p cs = (Ok (), p', cs')" "source_ok cs' pieces'"
    "concat (iu_buffer p') @ concat (iu_remainder p') @ concat pieces' = concat (iu_remainder p) @ concat pieces"
    "iu_buffer_size p' = length (concat (iu_buffer p'))"
    "iu_buffer_size p' = iu_target_size p \<or> iu_buffer_size p' < iu_target_size p \<and> iu_remainder p' = [] \<and> pieces' = []"
    "iu_target_size p' = iu_target_size p" "iu_hint p' = iu_hint p" "iu_offset p' = iu_offset p"
    "iu_persisted_size p' = iu_persisted_size p"
proof -
  obtain buf sz rest reached where r: "fill_from_remainder (iu_target_size p) (iu_remainder p) [] 0 = (buf, sz, rest, reached)"
    by (metis prod_cases4)
  note spec = fill_from_remainder_spec [OF r _ assms(2)]
  show thesis
  proof (cases reached)
    case True
    show thesis
      by (rule that [of "p\<lparr>iu_buffer := buf, iu_buffer_size := sz, iu_remainder := rest\<rparr>" cs pieces])
        (use r True spec assms in \<open>auto simp: next_buffer_def\<close>)
  next
    case False
    obtain buf' sz' rest' reached' cs' pieces' where
      f: "fill_from_source app (iu_target_size p) cs buf sz = (Ok (buf', sz', rest', reached'), cs')" "source_ok cs' pieces'"
        "concat buf' @ concat rest' @ concat pieces' = concat buf @ concat pieces" "sz' = length (concat buf')"
        "if reached' then sz' = iu_target_size p else rest' = [] \<and> pieces' = [] \<and> sz' < iu_target_size p"
      using fill_from_source_spec [OF assms(1), of sz buf "iu_target_size p" app] spec False by auto
    show thesis
      by (rule that [of "p\<lparr>iu_buffer := buf', iu_buffer_size := sz', iu_remainder := rest',
            iu_source_ended := iu_source_ended p \<or> \<not> reached'\<rparr>" cs' pieces'])
        (use r False spec f in \<open>auto simp: next_buffer_def split: if_splits\<close>)
  qed
qed



lemma drain_persisted_zero [simp]: "drain_persisted 0 bs = bs"
  by (induction bs) auto




section \<open>What the requests carry\<close>











lemma split_once_dec: "\<not> is_ascii_digit c \<Longrightarrow> split_once c (dec n @ c # t) = Some (dec n, t)"
proof -
  assume "\<not> is_ascii_digit c"
  then have no: "x \<noteq> c" if "x \<in> set (dec n)" for x using dec_digits [of n] that by (auto simp: list_all_iff)
  have "takeWhile (\<lambda>x. x \<noteq> c) (dec n @ c # t) = dec n" using no by (subst takeWhile_append2) auto
  moreover have "dropWhile (\<lambda>x. x \<noteq> c) (dec n @ c # t) = c # t" using no by (subst dropWhile_append2) auto
  ultimately show ?thesis by (simp add: split_once_def splitn2_def)
qed

lemma split_once_range:
  assumes "\<not> is_ascii_digit c" "c \<noteq> d"
  shows "split_once c (dec m @ d # dec n @ c # t) = Some (dec m @ d # dec n, t)"
proof -
  have no: "x \<noteq> c" if "x \<in> set (dec m @ d # dec n)" for x
    using dec_digits [of n] dec_digits [of m] that assms by (auto simp: list_all_iff)
  have "takeWhile (\<lambda>x. x \<noteq> c) ((dec m @ d # dec n) @ c # t) = dec m @ d # dec n" using no by (subst takeWhile_append2) auto
  moreover have "dropWhile (\<lambda>x. x \<noteq> c) ((dec m @ d # dec n) @ c # t) = c # t" using no by (subst dropWhile_append2) auto
  ultimately show ?thesis by (simp add: split_once_def splitn2_def)
qed

lemma parse_u64_dec: "n < 2 ^ 64 \<Longrightarrow> parse_u64 (dec n) = Ok n"
proof -
  assume n: "n < 2 ^ 64"
  obtain c cs where c: "dec n = c # cs" using dec_digits [of n] by (cases "dec n") auto
  then have "is_ascii_digit c" using dec_digits [of n] by simp
  then have "c \<noteq> CHR ''+''" by (auto simp: is_ascii_digit_def)
  with c n dec_digits [of n] show ?thesis by (simp add: parse_u64_def)
qed



definition holds_data :: "bytes \<Rightarrow> nat \<Rightarrow> in_progress_upload \<Rightarrow> checksummed_source \<Rightarrow> bool" where
  "holds_data data target p cs \<longleftrightarrow>
     (\<exists>pieces. source_ok cs pieces \<and> iu_offset p \<le> length data \<and>
        concat (iu_buffer p) @ concat (iu_remainder p) @ concat pieces = drop (iu_offset p) data) \<and>
     iu_buffer_size p = length (concat (iu_buffer p)) \<and> iu_target_size p = target \<and> 0 < target \<and> length data < 2 ^ 64"




text \<open>One turn of the loop.\<close>

definition put_request :: "upload_env \<Rightarrow> string \<Rightarrow> bool \<Rightarrow> in_progress_upload \<Rightarrow> checksummed_source \<Rightarrow> upload_request" where
  "put_request env url ck p cs = PutChunk url (iu_offset p) (iu_buffer p) (content_range p)
     (if ck \<and> is_last_chunk p then oc_crc32c (final_checksum (ue_md5_digest env) cs) else None)"

definition put_state :: "upload_env \<Rightarrow> string \<Rightarrow> bool \<Rightarrow> in_progress_upload \<Rightarrow> checksummed_source \<Rightarrow> http_outcome \<Rightarrow> upload_state \<Rightarrow> upload_state" where
  "put_state env url ck p cs x s =
     s\<lparr>us_progress := p, us_payload := cs, us_log := us_log s @ [(put_request env url ck p cs, x)]\<rparr>"

lemma put_loop_Nil:
  "next_buffer (ue_crc32c_append env) (us_progress s) (us_payload s) = (Ok u, p, cs) \<Longrightarrow> ue_bad_url env url = None \<Longrightarrow>
   put_loop env url ck [] s = (None, [], s\<lparr>us_progress := p, us_payload := cs\<rparr>)"
  by (subst put_loop.simps) (simp add: partial_upload_request_def Let_def)

lemma put_loop_Cons:
  assumes "next_buffer (ue_crc32c_append env) (us_progress s) (us_payload s) = (Ok u, p, cs)" "ue_bad_url env url = None"
  shows "put_loop env url ck (x # xs) s =
    (case x of
       SendFailed e \<Rightarrow> (Some (Err e), xs, put_state env url ck p cs x s)
     | Replied reply \<Rightarrow>
         (case query_resumable_upload_handle_response reply of
            Err e \<Rightarrow> (Some (Err e), xs, (put_state env url ck p cs x s)\<lparr>us_progress := upload_handle_error p\<rparr>)
          | Ok (Finalized ob) \<Rightarrow> (Some (validate_response_object env cs ob), xs, put_state env url ck p cs x s)
          | Ok (Partial persisted) \<Rightarrow>
              (case handle_partial (ue_box env) persisted p of
                 (Err e, p') \<Rightarrow> (Some (Err e), xs, (put_state env url ck p cs x s)\<lparr>us_progress := p'\<rparr>)
               | (Ok _, p') \<Rightarrow> put_loop env url ck xs ((put_state env url ck p cs x s)\<lparr>us_progress := p'\<rparr>))))"
  using assms
  by (subst put_loop.simps)
    (simp add: partial_upload_request_def Let_def put_state_def put_request_def
      split: http_outcome.split result.split upload_status.split prod.split)

lemma put_loop_error:
  "next_buffer (ue_crc32c_append env) (us_progress s) (us_payload s) = (Err e, p, cs) \<Longrightarrow>
   put_loop env url ck xs s = (Some (Err e), xs, s\<lparr>us_progress := p, us_payload := cs\<rparr>)"
  by (subst put_loop.simps) simp

text \<open>Requests are only added to the log.\<close>

lemma put_loop_log:
  assumes url: "ue_bad_url env url = None"
  shows "put_loop env url ck xs s = (r, xs', s') \<Longrightarrow> prefix (us_log s) (us_log s')"
proof (induction xs arbitrary: s)
  case Nil
  obtain r1 p cs where n: "next_buffer (ue_crc32c_append env) (us_progress s) (us_payload s) = (r1, p, cs)"
    by (metis prod_cases3)
  with Nil url show ?case by (cases r1) (auto simp: put_loop_Nil put_loop_error)
next
  case (Cons x xs)
  obtain r1 p cs where n: "next_buffer (ue_crc32c_append env) (us_progress s) (us_payload s) = (r1, p, cs)"
    by (metis prod_cases3)
  show ?case
  proof (cases r1)
    case (Err e)
    with n Cons.prems show ?thesis by (auto simp: put_loop_error)
  next
    case (Ok u)
    have pre: "prefix (us_log s) (us_log (put_state env url ck p cs x s))" by (simp add: put_state_def)
    have IH: "prefix (us_log s) (us_log s')"
      if "put_loop env url ck xs ((put_state env url ck p cs x s)\<lparr>us_progress := p'\<rparr>) = (r, xs', s')" for p'
      using Cons.IH [OF that] pre by (auto intro: prefix_order.trans)
    from Cons.prems show ?thesis
      unfolding put_loop_Cons [OF n [unfolded Ok] url]
      using pre IH by (auto split: http_outcome.splits result.splits upload_status.splits prod.splits)
  qed
qed






text \<open>Starting a session and asking for its state.\<close>

lemma send_request_log:
  "send_request req xs s = (x, xs', s') \<Longrightarrow> us_progress s' = us_progress s \<and> us_payload s' = us_payload s \<and> us_url s' = us_url s \<and>
     us_log s' = us_log s @ (case x of Some y \<Rightarrow> [(req, y)] | None \<Rightarrow> [])"
  by (auto simp: send_request_def split: list.splits)

lemma start_attempt_log:
  assumes "start_resumable_upload_attempt env xs s = (r, xs', s')"
  shows "us_progress s' = us_progress s \<and> us_payload s' = us_payload s \<and>
    (us_log s' = us_log s \<or> (\<exists>q x. us_log s' = us_log s @ [(StartUpload q, x)]))"
  using assms send_request_log
  by (fastforce simp: start_resumable_upload_attempt_def split: option.splits prod.splits http_outcome.splits)


lemma query_attempt_log:
  assumes "query_resumable_upload_attempt env url xs s = (r, xs', s')" "ue_bad_url env url = None"
  shows "us_progress s' = us_progress s \<and> us_payload s' = us_payload s \<and>
    (case r of
       None \<Rightarrow> us_log s' = us_log s
     | Some res \<Rightarrow> \<exists>x. us_log s' = us_log s @ [(QueryUpload url, x)] \<and>
         (\<forall>st. res = Ok st \<longrightarrow> (\<exists>reply. x = Replied reply \<and> query_resumable_upload_handle_response reply = Ok st)))"
proof -
  obtain x xs1 s1 where a: "send_request (QueryUpload url) xs s = (x, xs1, s1)" by (metis prod_cases3)
  with send_request_log [OF a] assms show ?thesis
    by (cases x) (auto simp: query_resumable_upload_attempt_def split: http_outcome.splits)
qed







section \<open>Buffered uploads\<close>




text \<open>
  A \<open>PUT\<close> that fails without a reply is not recorded in the progress of the upload: the next attempt
  does not ask the service what it has, and sends the following bytes at the same offset.
\<close>

lemma buffered_attempt_no_query:
  "us_url s = Some u \<Longrightarrow> \<not> needs_query (us_progress s) \<Longrightarrow>
   buffered_resumable_attempt env xs s = put_loop env u False xs s"
  by (simp add: buffered_resumable_attempt_def resumable_session_def)

theorem send_failure_skips_buffer:
  assumes url: "\<And>u. ue_bad_url env u = None"
    and s: "us_url s = Some u" "\<not> needs_query (us_progress s)" "iu_buffer (us_progress s) = []"
      "holds_data data target (us_progress s) (us_payload s)" "ofs = iu_offset (us_progress s)"
    and a1: "buffered_resumable_attempt env [SendFailed e] s = (r1, ys, s1)"
    and a2: "buffered_resumable_attempt env (x # xs) s1 = (r2, zs, s2)"
    and full: "ofs + target \<le> length data"
  shows "\<exists>ps1 h1 c1 ps2 h2 c2 rest.
    us_log s2 = us_log s @ [(PutChunk u ofs ps1 h1 c1, SendFailed e), (PutChunk u ofs ps2 h2 c2, x)] @ rest \<and>
    concat ps1 = take target (drop ofs data) \<and> concat ps2 = take target (drop (ofs + target) data)"
proof -
  obtain pieces where pc: "source_ok (us_payload s) pieces"
      "concat (iu_remainder (us_progress s)) @ concat pieces = drop ofs data"
    using s(3-5) by (auto simp: holds_data_def)
  have t: "iu_target_size (us_progress s) = target" "0 < target" using s(4) by (auto simp: holds_data_def)
  then have "0 < iu_target_size (us_progress s)" by simp
  from next_buffer_spec [OF pc(1) this, of "ue_crc32c_append env"]
  obtain p cs pieces1 where n: "next_buffer (ue_crc32c_append env) (us_progress s) (us_payload s) = (Ok (), p, cs)"
      "source_ok cs pieces1" "concat (iu_buffer p) @ concat (iu_remainder p) @ concat pieces1 = drop ofs data"
      "iu_buffer_size p = length (concat (iu_buffer p))"
      "iu_buffer_size p = target \<or> iu_buffer_size p < target \<and> iu_remainder p = [] \<and> pieces1 = []"
      "iu_target_size p = target" "iu_offset p = ofs" "iu_persisted_size p = iu_persisted_size (us_progress s)"
    using pc(2) t(1) s(5) by metis
  have sz: "length (concat (iu_buffer p)) = target"
    using n(3-5) full arg_cong [OF n(3), of length] by auto
  have s1: "s1 = put_state env u False p cs (SendFailed e) s"
    using a1 unfolding buffered_attempt_no_query [OF s(1,2)] put_loop_Cons [OF n(1) url] by simp
  have nq: "us_url s1 = Some u" "\<not> needs_query (us_progress s1)"
    using s(1,2,5) n(7,8) unfolding s1 by (auto simp: put_state_def needs_query_def split: option.splits)
  have p1: "us_progress s1 = p" "us_payload s1 = cs" by (simp_all add: s1 put_state_def)
  have d2: "concat (iu_remainder p) @ concat pieces1 = drop (ofs + target) data"
    using arg_cong [OF n(3), of "drop target"] sz by (simp add: add.commute)
  have "0 < iu_target_size p" using n(6) t(2) by simp
  from next_buffer_spec [OF n(2) this, of "ue_crc32c_append env"]
  obtain p2 cs2 pieces2 where m: "next_buffer (ue_crc32c_append env) p cs = (Ok (), p2, cs2)"
      "concat (iu_buffer p2) @ concat (iu_remainder p2) @ concat pieces2 = drop (ofs + target) data"
      "iu_buffer_size p2 = length (concat (iu_buffer p2))"
      "iu_buffer_size p2 = target \<or> iu_buffer_size p2 < target \<and> iu_remainder p2 = [] \<and> pieces2 = []" "iu_offset p2 = ofs"
    using d2 n(6,7) by metis
  have body2: "concat (iu_buffer p2) = take target (drop (ofs + target) data)"
    using m(3,4) unfolding m(2) [symmetric] by auto
  have "prefix (us_log (put_state env u False p2 cs2 x s1)) (us_log s2)"
    using a2 put_loop_log [OF url]
    unfolding buffered_attempt_no_query [OF nq] put_loop_Cons [OF m(1) [folded p1] url]
    by (fastforce split: http_outcome.splits result.splits upload_status.splits prod.splits)
  moreover have "concat (iu_buffer p) = take target (drop ofs data)" unfolding n(3) [symmetric] sz [symmetric] by simp
  ultimately show ?thesis using body2 n(7) m(5)
    by (auto simp: prefix_def s1 put_state_def put_request_def)
qed

text \<open>
  A persisted size inside a piece: the client keeps the last bytes of the piece, as many as were
  persisted, instead of the bytes that were not persisted.
\<close>

theorem partial_inside_piece_corrupts:
  assumes "iu_buffer p = [b]" "iu_buffer_size p = length b" "0 < k" "k < length b"
    and h: "handle_partial bx (iu_offset p + k) p = (r, p')"
  shows "r = Ok () \<and> iu_remainder p' = drop (length b - k) b # iu_remainder p \<and>
    (2 * k \<noteq> length b \<longrightarrow> concat (iu_remainder p') \<noteq> drop k b @ concat (iu_remainder p))"
proof -
  have *: "r = Ok () \<and> iu_remainder p' = drop (length b - k) b # iu_remainder p"
    using assms by (auto simp: handle_partial_def)
  have "length (drop (length b - k) b) \<noteq> length (drop k b)" if "2 * k \<noteq> length b"
    using that assms(3,4) by simp
  with * show ?thesis by (metis append_same_eq concat.simps(2))
qed


section \<open>Sources that seek\<close>

text \<open>What an unbuffered upload needs of its source: it can start again, and it can start anywhere.\<close>

locale restartable =
  fixes seek :: "nat \<Rightarrow> (box_error, source_items) result" and data :: bytes
  assumes seek_start: "\<exists>ps. seek 0 = Ok (map Ok ps) \<and> concat ps = data"
begin

lemma restart: obtains ps cs' where "cs_seek seek 0 cs = (Ok (), cs')" "cs_source cs' = map Ok ps" "concat ps = data"
    "cs_offset cs' = 0" "cs_checksum cs' = cs_checksum cs"
  using seek_start by (auto simp: cs_seek_def)

lemma single_shot_posts_data:
  assumes "single_shot_attempt env seek taken xs s = (r, ys, s')"
  shows "us_log s' = us_log s \<or>
    (\<exists>q ps x. us_log s' = us_log s @ [(PostObject q (map Ok ps), x)] \<and> concat ps = data)"
proof (cases "strip_prefix ''projects/_/buckets/'' (up_bucket (ue_spec env))")
  case None
  with assms show ?thesis by (auto simp: single_shot_attempt_def)
next
  case (Some b)
  obtain ps cs' where cs: "cs_seek seek 0 (us_payload s) = (Ok (), cs')" "cs_source cs' = map Ok ps" "concat ps = data"
    by (rule restart)
  define req where "req = PostObject ([(''uploadType'', ''multipart''), (''name'', up_name (ue_spec env))] @
    apply_preconditions (ue_spec env)) (map Ok ps)"
  define s0 where "s0 = s\<lparr>us_payload := read_items (ue_crc32c_append env) taken cs'\<rparr>"
  obtain x xs1 s1 where sr: "send_request req xs s0 = (x, xs1, s1)" by (metis prod_cases3)
  have "us_log s' = us_log s1"
    using assms Some cs sr
    by (auto simp: single_shot_attempt_def send_stream_def req_def s0_def split: option.splits http_outcome.splits result.splits)
  then show ?thesis using send_request_log [OF sr] cs(3) by (auto simp: req_def s0_def split: option.splits)
qed

end

locale seekable =
  fixes seek :: "nat \<Rightarrow> (box_error, source_items) result" and data :: bytes
  assumes seek_any: "offset \<le> length data \<Longrightarrow> \<exists>ps. seek offset = Ok (map Ok ps) \<and> concat ps = drop offset data"
begin

lemma seek_to:
  assumes "offset \<le> length data"
  obtains ps cs' where "cs_seek seek offset cs = (Ok (), cs')" "cs_source cs' = map Ok ps" "concat ps = drop offset data"
  using seek_any [OF assms] by (auto simp: cs_seek_def)

lemma put_carries_rest:
  assumes a: "resumable_attempt env seek hint taken xs s = (r, ys, s')" and url: "\<And>u. ue_bad_url env u = None"
    and i: "(PutStream u offset h items, x) \<in> set (drop (length (us_log s)) (us_log s'))" "offset \<le> length data"
  shows "h = unbuffered_range offset hint \<and> (\<exists>ps. items = map Ok ps \<and> concat ps = drop offset data)"
proof -
  obtain r1 xs1 s1 where u1: "unbuffered_offset env xs s = (r1, xs1, s1)" by (metis prod_cases3)
  have log1: "us_log s1 = us_log s \<or> (\<exists>q x. us_log s1 = us_log s @ [(StartUpload q, x)]) \<or>
      (\<exists>v x. us_log s1 = us_log s @ [(QueryUpload v, x)])"
  proof (cases "us_url s")
    case None
    obtain r2 xs2 s2 where b: "start_resumable_upload_attempt env xs s = (r2, xs2, s2)" by (metis prod_cases3)
    with start_attempt_log [OF b] None u1 show ?thesis
      by (auto simp: unbuffered_offset_def split: option.splits result.splits)
  next
    case (Some v)
    obtain r2 xs2 s2 where b: "query_resumable_upload_attempt env v xs s = (r2, xs2, s2)" by (metis prod_cases3)
    with query_attempt_log [OF b url] Some u1 show ?thesis
      by (auto simp: unbuffered_offset_def split: option.splits result.splits upload_status.splits)
  qed
  show ?thesis
  proof (cases "\<exists>o' v. r1 = Some (Ok (Inr (o', v)))")
    case False
    then have "us_log s' = us_log s1"
      using a u1 by (auto simp: resumable_attempt_def split: option.splits result.splits sum.splits)
    with log1 i show ?thesis by auto
  next
    case True
    then obtain o' v where ov: "r1 = Some (Ok (Inr (o', v)))" by blast
    obtain rc cs' where cs: "cs_seek seek o' (us_payload s1) = (rc, cs')" by fastforce
    define req where "req = PutStream v o' (unbuffered_range o' hint) (cs_source cs')"
    define s2 where "s2 = s1\<lparr>us_payload := read_items (ue_crc32c_append env) taken cs'\<rparr>"
    obtain y xs3 s3 where sr: "send_request req xs1 s2 = (y, xs3, s3)" by (metis prod_cases3)
    have "us_log s' = us_log s1 \<or> rc = Ok () \<and> us_log s' = us_log s3"
      using a u1 ov url cs sr
      by (cases rc) (auto simp: resumable_attempt_def send_stream_def req_def s2_def
          split: option.splits http_outcome.splits result.splits)
    moreover have "us_log s3 = us_log s1 @ (case y of Some z \<Rightarrow> [(req, z)] | None \<Rightarrow> [])"
      using send_request_log [OF sr] by (simp add: s2_def)
    ultimately have "rc = Ok ()" "req = PutStream u offset h items"
      using i(1) log1 by (auto split: option.splits)
    moreover obtain ps cs1 where "cs_seek seek offset (us_payload s1) = (Ok (), cs1)" "cs_source cs1 = map Ok ps"
        "concat ps = drop offset data" by (rule seek_to [OF i(2)])
    ultimately show ?thesis using cs by (auto simp: req_def)
  qed
qed

end

sublocale seekable \<subseteq> restartable
proof
  show "\<exists>ps. seek 0 = Ok (map Ok ps) \<and> concat ps = data" using seek_any [of 0] by simp
qed

definition bytes_seek :: "bytes \<Rightarrow> nat \<Rightarrow> (box_error, source_items) result" where
  "bytes_seek contents offset =
     (case bytes_source_next (bytes_source_seek offset (bytes_source_new contents)) of
        (Some b, _) \<Rightarrow> Ok [Ok b] | (None, _) \<Rightarrow> Ok [])"

interpretation bytes_payload: seekable "bytes_seek contents" contents
proof
  fix offset
  assume "offset \<le> length contents"
  then have "bytes_seek contents offset = Ok (map Ok [drop offset contents])"
    by (simp add: bytes_seek_def bytes_source_next_def bytes_source_seek_def bytes_source_new_def)
  then show "\<exists>ps. bytes_seek contents offset = Ok (map Ok ps) \<and> concat ps = drop offset contents" by fastforce
qed

lemma seek_pieces_zero [simp]: "seek_pieces 0 bs = bs"
  by (induction bs) auto

interpretation iter_payload: restartable "iter_seek contents" "concat contents"
  by unfold_locales (auto simp: iter_seek_def)


text \<open>Reading a source to its end computes the checksum of its data.\<close>

lemma read_all_crc:
  assumes law: "\<And>c a b. app (app c a) b = app c (a @ b)" "\<And>c. app c [] = c"
  shows "cs_source cs = map Ok pieces \<Longrightarrow> ck_crc32c (cs_checksum cs) = Some \<lparr>crc_checksum = v, crc_offset = cs_offset cs\<rparr> \<Longrightarrow>
    \<exists>cs'. read_all app cs = (Ok pieces, cs') \<and> ck_crc32c (cs_checksum cs') =
      Some \<lparr>crc_checksum = app v (concat pieces), crc_offset = cs_offset cs + length (concat pieces)\<rparr>"
proof (induction pieces arbitrary: cs v)
  case Nil
  then show ?case by (subst read_all.simps) (simp add: cs_next_def law)
next
  case (Cons b bs)
  define cs1 where "cs1 = cs\<lparr>cs_checksum := checksum_update app (cs_checksum cs) (cs_offset cs) b,
    cs_offset := cs_offset cs + length b, cs_source := map Ok bs\<rparr>"
  have n: "cs_next app cs = (Some (Ok b), cs1)" using Cons.prems(1) by (simp add: cs_next_def cs1_def)
  have "ck_crc32c (cs_checksum cs1) = Some \<lparr>crc_checksum = app v b, crc_offset = cs_offset cs1\<rparr>"
    using Cons.prems(2) law(2) by (cases "b = []") (simp_all add: cs1_def checksum_update_def crc32c_update_def checked_update_def)
  from Cons.IH [OF _ this] obtain cs' where "read_all app cs1 = (Ok bs, cs')"
    "ck_crc32c (cs_checksum cs') = Some \<lparr>crc_checksum = app (app v b) (concat bs), crc_offset = cs_offset cs1 + length (concat bs)\<rparr>"
    by (auto simp: cs1_def)
  then show ?case by (subst read_all.simps) (simp add: n law(1) cs1_def add.assoc)
qed

lemma with_checksums_simps [simp]:
  "ue_box (with_checksums c env) = ue_box env" "ue_bad_url (with_checksums c env) = ue_bad_url env"
  "up_checksums (ue_spec (with_checksums c env)) =
     Some (checksums_update (case up_checksums (ue_spec env) of Some k \<Rightarrow> k | None \<Rightarrow> checksums_new) c)"
  by (simp_all add: with_checksums_def Let_def)

text \<open>
  A small upload that is sent in one request: the request carries exactly the data of the source
  in every attempt, the size of its part is the size of the data, and the metadata has the checksum of
  the data, unless the application gave one.\<close>

theorem single_shot_posts_everything:
  assumes law: "\<And>c a b. ue_crc32c_append env (ue_crc32c_append env c a) b = ue_crc32c_append env c (a @ b)"
      "\<And>c. ue_crc32c_append env c [] = c"
    and ck: "ck_crc32c ck = Some \<lparr>crc_checksum = 0, crc_offset = 0\<rparr>"
    and pre: "up_checksums (ue_spec env) = None"
    and c: "send_buffered_single_shot env (checksummed_new ck (map Ok pieces)) = Ok (env', seek, hint, cs)"
    and a: "single_shot_attempt env' seek taken xs s = (r, ys, s')"
  shows "hint_exact hint = Some (length (concat pieces)) \<and>
    map_option oc_crc32c (up_checksums (ue_spec env')) = Some (Some (ue_crc32c_append env 0 (concat pieces))) \<and>
    (us_log s' = us_log s \<or>
     (\<exists>q ps x. us_log s' = us_log s @ [(PostObject q (map Ok ps), x)] \<and> concat ps = concat pieces))"
proof -
  obtain cs' where rd: "read_all (ue_crc32c_append env) (checksummed_new ck (map Ok pieces)) = (Ok pieces, cs')"
    "ck_crc32c (cs_checksum cs') = Some \<lparr>crc_checksum = ue_crc32c_append env 0 (concat pieces), crc_offset = length (concat pieces)\<rparr>"
    using read_all_crc [OF law, of "checksummed_new ck (map Ok pieces)" pieces 0] ck by (auto simp: checksummed_new_def)
  have env': "env' = with_checksums (final_checksum (ue_md5_digest env) cs') env" "seek = iter_seek pieces"
      "hint = exact_hint (length (concat pieces))"
    using c rd(1) by (auto simp: send_buffered_single_shot_def)
  have "map_option oc_crc32c (up_checksums (ue_spec env')) = Some (Some (ue_crc32c_append env 0 (concat pieces)))"
    using rd(2) pre by (simp add: env' checksums_update_def checksums_new_def final_checksum_def checksum_finalize_def)
  with iter_payload.single_shot_posts_data [OF a [unfolded env'(2)]] env'(3) show ?thesis
    by (simp add: exact_hint_def)
qed

text \<open>
  An unbuffered upload of a buffer in memory: every \<open>PUT\<close> of every attempt carries exactly the
  rest of the data from the offset it names, and its \<open>Content-Range\<close> says so.\<close>

theorem unbuffered_put_carries_rest:
  assumes a: "resumable_attempt env (bytes_seek data) (bytes_source_hint (bytes_source_new data)) taken xs s = (r, ys, s')"
    and url: "\<And>u. ue_bad_url env u = None"
    and i: "(PutStream u offset h items, x) \<in> set (drop (length (us_log s)) (us_log s'))"
    and o: "offset < length data" "length data < 2 ^ 64"
  shows "\<exists>ps. items = map Ok ps \<and> concat ps = drop offset data \<and> parse_content_range h = Ok (offset, length (concat ps))"
proof -
  obtain ps where ps: "h = unbuffered_range offset (bytes_source_hint (bytes_source_new data))" "items = map Ok ps"
      "concat ps = drop offset data"
    using bytes_payload.put_carries_rest [OF a url i] o(1) by auto
  have h: "h = ''bytes '' @ dec offset @ CHR ''-'' # dec (length data - 1) @ CHR ''/'' # dec (length data)"
    using o(1) by (auto simp: ps(1) unbuffered_range_def bytes_source_hint_def bytes_source_new_def exact_hint_def)
  have "split_once CHR ''/'' (dec offset @ CHR ''-'' # dec (length data - 1) @ CHR ''/'' # dec (length data)) =
      Some (dec offset @ CHR ''-'' # dec (length data - 1), dec (length data))"
    by (rule split_once_range) (auto simp: is_ascii_digit_def)
  moreover have "split_once CHR ''-'' (dec offset @ CHR ''-'' # dec (length data - 1)) = Some (dec offset, dec (length data - 1))"
    by (rule split_once_dec) (auto simp: is_ascii_digit_def)
  ultimately have "parse_content_range h = Ok (offset, length data - offset)"
    using o by (simp add: h parse_content_range_def strip_prefix_def parse_u64_dec Let_def)
  with ps show ?thesis by auto
qed

text \<open>\<open>IterSource\<close> loses its place when it seeks into a piece.\<close>

theorem iter_source_seek_inside_piece:
  assumes "contents = [b]" "0 < k" "k < length b" "2 * k \<noteq> length b"
  shows "concat (it_current (iter_source_seek k (iter_source_new contents))) \<noteq> drop k (concat contents)"
proof -
  have "length (drop (length b - k) b) \<noteq> length (drop k b)" using assms by simp
  then have "drop (length b - k) b \<noteq> drop k b" by metis
  with assms show ?thesis by (simp add: iter_source_seek_def iter_source_new_def)
qed

text \<open>
  The service reports what it has as the inclusive range of the persisted bytes. The client reads
  every such report back as the number of bytes, except that a single byte is read as none.\<close>

theorem persisted_range_roundtrip:
  assumes "0 < n" "n < 2 ^ 64" "hp_status reply = 308" "hp_range reply = Some (''bytes=0-'' @ dec (n - 1))"
  shows "query_resumable_upload_handle_response reply = Ok (Partial (if n = 1 then 0 else n))"
  using assms
  by (simp add: query_resumable_upload_handle_response_def RESUME_INCOMPLETE_def parse_range_def parse_range_end_def
      strip_prefix_def parse_u64_dec)


section \<open>Examples\<close>

definition demo_upload_env :: upload_env where
  "demo_upload_env = \<lparr>ue_crc32c_append = (\<lambda>c d. c + sum_list (map ucast d)), ue_md5_digest = (\<lambda>d. d),
     ue_box = (\<lambda>_. MsgError ''write''), ue_bad_url = (\<lambda>_. None),
     ue_spec = \<lparr>up_bucket = ''projects/_/buckets/b'', up_name = ''o'', up_kms_key = [], up_predefined_acl = [],
       up_checksums = None, up_if_generation_match = None, up_if_generation_not_match = None,
       up_if_metageneration_match = None, up_if_metageneration_not_match = None\<rparr>\<rparr>"

definition demo_stored :: stored_object where
  "demo_stored = \<lparr>so_bucket = ''projects/_/buckets/b'', so_name = ''o'', so_checksums = None\<rparr>"

definition demo_reply_of :: "nat \<Rightarrow> string option \<Rightarrow> http_outcome" where
  "demo_reply_of status rng = Replied \<lparr>hp_status = status, hp_location = Some (Some ''u''), hp_range = rng,
     hp_object = Ok demo_stored, hp_error = io (MsgError ''failed'')\<rparr>"

definition demo_hint :: size_hint where
  "demo_hint = \<lparr>hint_exact = None, hint_upper = None\<rparr>"








definition demo_single :: upload_state where
  "demo_single = \<lparr>us_url = None, us_progress = in_progress_new 0 demo_hint,
     us_payload = checksummed_new checksum_default (map Ok [[1, 2], [3]]), us_log = []\<rparr>"

definition demo_checksum :: checksum where
  "demo_checksum = \<lparr>ck_crc32c = Some \<lparr>crc_checksum = 0, crc_offset = 0\<rparr>, ck_md5_hash = None\<rparr>"

theorem single_shot_posts_everything_witness:
  "\<exists>env' seek hint cs r ys s'.
     send_buffered_single_shot demo_upload_env (checksummed_new demo_checksum (map Ok [[1, 2], [3]])) = Ok (env', seek, hint, cs) \<and>
     single_shot_attempt env' seek 3 [demo_reply_of 200 None] demo_single = (r, ys, s') \<and>
     map_option oc_crc32c (up_checksums (ue_spec env')) = Some (Some 6) \<and>
     us_log s' = [(PostObject [(''uploadType'', ''multipart''), (''name'', ''o'')] [Ok [1, 2], Ok [3]], demo_reply_of 200 None)]"
proof -
  have law: "ue_crc32c_append demo_upload_env (ue_crc32c_append demo_upload_env c a) b = ue_crc32c_append demo_upload_env c (a @ b)"
    "ue_crc32c_append demo_upload_env c [] = c" for c a b by (simp_all add: demo_upload_env_def)
  obtain cs' where rd: "read_all (ue_crc32c_append demo_upload_env) (checksummed_new demo_checksum (map Ok [[1, 2], [3]])) =
      (Ok [[1, 2], [3]], cs')"
    using read_all_crc [OF law, of "checksummed_new demo_checksum (map Ok [[1, 2], [3]])" "[[1, 2], [3]]" 0]
    by (auto simp: checksummed_new_def demo_checksum_def)
  define env' where "env' = with_checksums (final_checksum (ue_md5_digest demo_upload_env) cs') demo_upload_env"
  have c: "send_buffered_single_shot demo_upload_env (checksummed_new demo_checksum (map Ok [[1, 2], [3]])) =
      Ok (env', iter_seek [[1, 2], [3]], exact_hint 3, checksummed_new checksum_default (map Ok [[1, 2], [3]]))"
    using rd by (simp add: send_buffered_single_shot_def env'_def numeral_3_eq_3)
  obtain r ys s' where a: "single_shot_attempt env' (iter_seek [[1, 2], [3]]) 3 [demo_reply_of 200 None] demo_single = (r, ys, s')"
    by (metis prod_cases3)
  have "us_log s' = [(PostObject [(''uploadType'', ''multipart''), (''name'', ''o'')] [Ok [1, 2], Ok [3]], demo_reply_of 200 None)]"
    using a by (auto simp: single_shot_attempt_def env'_def with_checksums_def demo_upload_env_def strip_prefix_def Let_def
        cs_seek_def iter_seek_def send_stream_def send_request_def demo_reply_of_def demo_single_def
        apply_preconditions_def query_if_some_def query_if_set_def split: result.splits)
  moreover have "map_option oc_crc32c (up_checksums (ue_spec env')) = Some (Some (ue_crc32c_append demo_upload_env 0 (concat [[1, 2], [3]])))"
    using single_shot_posts_everything [OF law _ _ c a] by (simp add: demo_checksum_def demo_upload_env_def)
  ultimately show ?thesis using c a by (simp add: demo_upload_env_def)
qed

theorem unbuffered_put_carries_rest_witness:
  "\<exists>s' h. resumable_attempt demo_upload_env (bytes_seek [1, 2, 3]) (bytes_source_hint (bytes_source_new [1, 2, 3])) 1
      [demo_reply_of 308 (Some ''bytes=0-1''), demo_reply_of 200 None] (demo_single\<lparr>us_url := Some ''u''\<rparr>) =
      (Some (Ok demo_stored), [], s') \<and>
    us_log s' = [(QueryUpload ''u'', demo_reply_of 308 (Some ''bytes=0-1'')),
      (PutStream ''u'' 2 h [Ok [3]], demo_reply_of 200 None)] \<and>
    parse_content_range h = Ok (2, 1)"
proof -
  let ?hint = "bytes_source_hint (bytes_source_new [1, 2, 3])"
  obtain s' where a: "resumable_attempt demo_upload_env (bytes_seek [1, 2, 3]) ?hint 1
      [demo_reply_of 308 (Some ''bytes=0-1''), demo_reply_of 200 None] (demo_single\<lparr>us_url := Some ''u''\<rparr>) =
      (Some (Ok demo_stored), [], s')"
    and l: "us_log s' = [(QueryUpload ''u'', demo_reply_of 308 (Some ''bytes=0-1'')),
      (PutStream ''u'' 2 (unbuffered_range 2 ?hint) [Ok [3]], demo_reply_of 200 None)]"
    by (simp add: resumable_attempt_def unbuffered_offset_def query_resumable_upload_attempt_def demo_single_def
        demo_upload_env_def send_request_def demo_reply_of_def query_resumable_upload_handle_response_def RESUME_INCOMPLETE_def
        parse_range_def parse_range_end_def strip_prefix_def parse_u64_def is_ascii_digit_def digits_value_def
        cs_seek_def bytes_seek_def bytes_source_next_def bytes_source_seek_def bytes_source_new_def send_stream_def
        handle_object_response_def is_success_def validate_response_object_def validate_def demo_stored_def Let_def)
      (simp add: numeral_2_eq_2)
  have "\<exists>ps. ([Ok [3]] :: source_items) = map Ok ps \<and> concat ps = drop 2 [1, 2, 3] \<and>
      parse_content_range (unbuffered_range 2 ?hint) = Ok (2, length (concat ps))"
    by (rule unbuffered_put_carries_rest [OF a, of "''u''" 2 _ _ "demo_reply_of 200 None"])
      (simp_all add: l demo_upload_env_def demo_single_def)
  then have "parse_content_range (unbuffered_range 2 ?hint) = Ok (2, 1)" by auto
  with a l show ?thesis by blast
qed

theorem persisted_range_roundtrip_witness:
  "query_resumable_upload_handle_response \<lparr>hp_status = 308, hp_location = None, hp_range = Some (''bytes=0-'' @ dec 999),
      hp_object = Ok demo_stored, hp_error = io (MsgError [])\<rparr> = Ok (Partial 1000)"
  using persisted_range_roundtrip [of 1000 "\<lparr>hp_status = 308, hp_location = None, hp_range = Some (''bytes=0-'' @ dec 999),
      hp_object = Ok demo_stored, hp_error = io (MsgError [])\<rparr>"] by simp

end
