(* ===== verification/Token_Cache.thy ===== *)
theory Token_Cache
  imports Client_Policies
begin

text \<open>
  The token cache of \<open>auth/src/token_cache.rs\<close>: a task asks the token provider for tokens and publishes
  them, or the errors, on a watch channel from which the callers of \<open>token\<close> read.

  Task and callers interleave at their await points and where one looks at what the other does, so the
  model is a step function on events, with one clock. A \<open>tokio::sync::watch\<close> channel is its value and a
  version that grows with every \<open>send\<close>; a receiver remembers the version it has seen. Of the last two
  readings of the clock in a turn of the task, which only fix how long it sleeps, there is one. The tag
  generator is shared with other caches; it is counted without wrapping, and a tag is the count as a \<open>u64\<close>.
\<close>

section \<open>Tokens and answers\<close>

record token =
  tk_token :: string
  tk_token_type :: string
  tk_expires_at :: "instant option"
  tk_metadata :: "(string \<times> string) list option"

datatype entity_tag = EntityTag u64

type_synonym token_result = "(credentials_error, token \<times> entity_tag) result"

datatype cacheable_resource = NotModified | NewResource entity_tag token

definition NORMAL_REFRESH_SLACK :: duration where "NORMAL_REFRESH_SLACK = from_secs 240"

definition SHORT_REFRESH_SLACK :: duration where "SHORT_REFRESH_SLACK = from_secs 10"

text \<open>\<open>CachedTokenProvider::token\<close>, on the latest token and the tag that the caller has.\<close>

definition cached_token :: "entity_tag option \<Rightarrow> token_result \<Rightarrow> (credentials_error, cacheable_resource) result" where
  "cached_token tag r =
     (case r of
        Err e \<Rightarrow> Err e
      | Ok (data, entity_tag) \<Rightarrow> Ok (if tag = Some entity_tag then NotModified else NewResource entity_tag data))"

section \<open>The cache, its task and its callers\<close>

text \<open>
  Where the refresh task is: at the top of its loop, waiting for the provider, sleeping until a token
  expires to publish a permanent or a transient error, sleeping before the next turn, or at its end.
\<close>

datatype refresh_task =
    Checking
  | Fetching
  | FailAt instant credentials_error
  | ErrorAt instant credentials_error instant
  | SleepUntil instant
  | Stopped

text \<open>
  A caller has its tag and has read a value of some version, waits for a later version, or has its
  answer (made by \<open>cached_token\<close> from what is recorded here).
\<close>

datatype caller =
    Borrowed "entity_tag option" "token_result option" nat
  | Waiting "entity_tag option" nat
  | Answered "entity_tag option" token_result
  | Cancelled
  | Panicked

record token_cache =
  tc_now :: instant
  tc_watched :: "token_result option"
  tc_version :: nat
  tc_open :: bool
  tc_task :: refresh_task
  tc_alive :: bool
  tc_tags :: nat
  tc_callers :: "caller list"

definition token_cache_new :: "instant \<Rightarrow> nat \<Rightarrow> token_cache" where
  "token_cache_new now tags =
     \<lparr>tc_now = now, tc_watched = None, tc_version = 0, tc_open = True, tc_task = Checking, tc_alive = True,
      tc_tags = tags, tc_callers = []\<rparr>"

definition in_call :: "caller \<Rightarrow> bool" where
  "in_call c \<longleftrightarrow> (case c of Borrowed _ _ _ \<Rightarrow> True | Waiting _ _ \<Rightarrow> True | _ \<Rightarrow> False)"

text \<open>Every handle on the cache has a receiver, and so has every call.\<close>

definition receiver_count :: "token_cache \<Rightarrow> nat" where
  "receiver_count s = (if tc_alive s then 1 else 0) + length (filter in_call (tc_callers s))"

definition send_token :: "token_result \<Rightarrow> token_cache \<Rightarrow> token_cache" where
  "send_token r s =
     (if receiver_count s = 0 then s else s\<lparr>tc_watched := Some r, tc_version := tc_version s + 1\<rparr>)"

definition stop_task :: "token_cache \<Rightarrow> token_cache" where
  "stop_task s = s\<lparr>tc_task := Stopped, tc_open := False\<rparr>"

definition current_expiration :: "token_result option \<Rightarrow> instant option" where
  "current_expiration watched =
     (case watched of Some (Ok (tk, _)) \<Rightarrow> tk_expires_at tk | _ \<Rightarrow> None)"

definition refresh_check :: "token_cache \<Rightarrow> token_cache" where
  "refresh_check s = (if receiver_count s = 0 then stop_task s else s\<lparr>tc_task := Fetching\<rparr>)"

text \<open>How long the task sleeps after a token that expires.\<close>

definition refresh_sleep :: "instant \<Rightarrow> instant \<Rightarrow> instant" where
  "refresh_sleep expiry now =
     (if now \<le> expiry \<and> NORMAL_REFRESH_SLACK < expiry - now then now + (expiry - now - NORMAL_REFRESH_SLACK)
      else now + SHORT_REFRESH_SLACK)"

definition refresh_ok :: "token \<Rightarrow> instant \<Rightarrow> token_cache \<Rightarrow> token_cache" where
  "refresh_ok tk now s =
     (let s1 = send_token (Ok (tk, EntityTag (of_nat (tc_tags s)))) (s\<lparr>tc_tags := tc_tags s + 1\<rparr>)
      in case tk_expires_at tk of
           None \<Rightarrow> stop_task s1
         | Some expiry \<Rightarrow> s1\<lparr>tc_task := SleepUntil (refresh_sleep expiry now)\<rparr>)"

definition refresh_permanent :: "credentials_error \<Rightarrow> token_cache \<Rightarrow> token_cache" where
  "refresh_permanent e s =
     (case current_expiration (tc_watched s) of
        Some deadline \<Rightarrow> s\<lparr>tc_task := FailAt deadline e\<rparr>
      | None \<Rightarrow> stop_task (send_token (Err e) s))"

definition refresh_transient :: "credentials_error \<Rightarrow> instant \<Rightarrow> instant \<Rightarrow> token_cache \<Rightarrow> token_cache" where
  "refresh_transient e start_now now s =
     (let short = start_now + SHORT_REFRESH_SLACK
      in case current_expiration (tc_watched s) of
           None \<Rightarrow> (send_token (Err e) s)\<lparr>tc_task := SleepUntil short\<rparr>
         | Some d \<Rightarrow>
             (if d < now then (send_token (Err e) s)\<lparr>tc_task := SleepUntil short\<rparr>
              else if d < short then s\<lparr>tc_task := ErrorAt d e short\<rparr>
              else s\<lparr>tc_task := SleepUntil short\<rparr>))"

definition refresh_answer ::
  "(credentials_error, token) result \<Rightarrow> instant \<Rightarrow> instant \<Rightarrow> token_cache \<Rightarrow> token_cache" where
  "refresh_answer r start_now now s =
     (let s1 = s\<lparr>tc_now := now\<rparr>
      in case r of
           Ok tk \<Rightarrow> refresh_ok tk now s1
         | Err e \<Rightarrow> if \<not> creds_is_transient e then refresh_permanent e s1 else refresh_transient e start_now now s1)"

text \<open>The end of a sleep; the task may be late.\<close>

definition refresh_wake :: "token_cache \<Rightarrow> token_cache option" where
  "refresh_wake s =
     (case tc_task s of
        FailAt d e \<Rightarrow> if d \<le> tc_now s then Some (stop_task (send_token (Err e) s)) else None
      | ErrorAt d e short \<Rightarrow>
          if d \<le> tc_now s then Some ((send_token (Err e) s)\<lparr>tc_task := SleepUntil short\<rparr>) else None
      | SleepUntil t \<Rightarrow> if t \<le> tc_now s then Some (s\<lparr>tc_task := Checking\<rparr>) else None
      | _ \<Rightarrow> None)"

text \<open>\<open>latest_token_and_entity_tag\<close>, after it has read the channel.\<close>

definition latest_token :: "instant \<Rightarrow> entity_tag option \<Rightarrow> token_result option \<Rightarrow> nat \<Rightarrow> caller" where
  "latest_token now tag watched version =
     (case watched of
        None \<Rightarrow> Waiting tag version
      | Some (Err e) \<Rightarrow> Answered tag (Err e)
      | Some (Ok (tk, entity_tag)) \<Rightarrow>
          (case tk_expires_at tk of
             None \<Rightarrow> Answered tag (Ok (tk, entity_tag))
           | Some e \<Rightarrow> if e < now then Waiting tag version else Answered tag (Ok (tk, entity_tag))))"

text \<open>
  \<open>wait_for_next_token\<close>: a change is seen before the end of the channel; both \<open>unwrap\<close> and
  \<open>expect\<close> can panic.
\<close>

definition wait_for_next_token :: "token_cache \<Rightarrow> entity_tag option \<Rightarrow> nat \<Rightarrow> caller option" where
  "wait_for_next_token s tag version =
     (if version \<noteq> tc_version s then
        (case tc_watched s of Some r \<Rightarrow> Some (Answered tag r) | None \<Rightarrow> Some Panicked)
      else if \<not> tc_open s then Some Panicked else None)"

section \<open>Steps\<close>

datatype cache_event =
    Tick instant
  | TagElsewhere
  | Check
  | ProviderAnswer "(credentials_error, token) result" instant instant
  | Wake
  | Call "entity_tag option"
  | Decide nat
  | Receive nat
  | CancelCall nat
  | DropCache
  | AbortTask

definition set_caller :: "nat \<Rightarrow> caller \<Rightarrow> token_cache \<Rightarrow> token_cache" where
  "set_caller i c s = s\<lparr>tc_callers := (tc_callers s)[i := c]\<rparr>"

text \<open>
  A step that is not possible is \<open>None\<close>. The cache cannot be dropped during a call, which borrows it;
  dropping it aborts the task.
\<close>

fun cache_step :: "cache_event \<Rightarrow> token_cache \<Rightarrow> token_cache option" where
  "cache_step (Tick t) s = (if tc_now s \<le> t then Some (s\<lparr>tc_now := t\<rparr>) else None)"
| "cache_step TagElsewhere s = Some (s\<lparr>tc_tags := tc_tags s + 1\<rparr>)"
| "cache_step Check s = (if tc_task s = Checking then Some (refresh_check s) else None)"
| "cache_step (ProviderAnswer r start_now now) s =
     (if tc_task s = Fetching \<and> start_now \<le> now \<and> tc_now s \<le> now then Some (refresh_answer r start_now now s) else None)"
| "cache_step Wake s = refresh_wake s"
| "cache_step (Call tag) s =
     (if tc_alive s then Some (s\<lparr>tc_callers := tc_callers s @ [Borrowed tag (tc_watched s) (tc_version s)]\<rparr>) else None)"
| "cache_step (Decide i) s =
     (if i < length (tc_callers s) then
        (case tc_callers s ! i of
           Borrowed tag watched version \<Rightarrow> Some (set_caller i (latest_token (tc_now s) tag watched version) s)
         | _ \<Rightarrow> None)
      else None)"
| "cache_step (Receive i) s =
     (if i < length (tc_callers s) then
        (case tc_callers s ! i of
           Waiting tag version \<Rightarrow> map_option (\<lambda>c. set_caller i c s) (wait_for_next_token s tag version)
         | _ \<Rightarrow> None)
      else None)"
| "cache_step (CancelCall i) s =
     (if i < length (tc_callers s) \<and> in_call (tc_callers s ! i) then Some (set_caller i Cancelled s) else None)"
| "cache_step DropCache s =
     (if tc_alive s \<and> \<not> list_ex in_call (tc_callers s) then Some (s\<lparr>tc_alive := False\<rparr>) else None)"
| "cache_step AbortTask s = (if \<not> tc_alive s then Some (stop_task s) else None)"

fun cache_run :: "cache_event list \<Rightarrow> token_cache \<Rightarrow> token_cache option" where
  "cache_run [] s = Some s"
| "cache_run (ev # evs) s = (case cache_step ev s of None \<Rightarrow> None | Some s' \<Rightarrow> cache_run evs s')"

inductive reachable :: "token_cache \<Rightarrow> bool" where
  start: "reachable (token_cache_new now tags)"
| step: "reachable s \<Longrightarrow> cache_step ev s = Some s' \<Longrightarrow> reachable s'"

lemma reachable_run: "reachable s \<Longrightarrow> cache_run evs s = Some s' \<Longrightarrow> reachable s'"
  by (induction evs arbitrary: s) (auto split: option.splits intro: reachable.step)

section \<open>The invariant of the cache\<close>

text \<open>
  Nobody waits on a value that will not change: once the task has stopped, the cache has an error or a
  token that does not expire; a caller only waits if its value was nothing or a token that has expired.
\<close>

definition lasting :: "token_result option \<Rightarrow> bool" where
  "lasting watched \<longleftrightarrow> watched \<noteq> None \<and> current_expiration watched = None"

definition stale_token :: "instant \<Rightarrow> token_result option \<Rightarrow> bool" where
  "stale_token now watched \<longleftrightarrow> watched = None \<or> is_some_and (\<lambda>e. e < now) (current_expiration watched)"

fun caller_ok :: "token_cache \<Rightarrow> caller \<Rightarrow> bool" where
  "caller_ok s (Borrowed tag watched version) \<longleftrightarrow>
     tc_alive s \<and> version \<le> tc_version s \<and> (version = tc_version s \<longrightarrow> watched = tc_watched s)"
| "caller_ok s (Waiting tag version) \<longleftrightarrow>
     tc_alive s \<and> version \<le> tc_version s \<and> (version = tc_version s \<longrightarrow> stale_token (tc_now s) (tc_watched s))"
| "caller_ok s Panicked \<longleftrightarrow> False"
| "caller_ok s _ \<longleftrightarrow> True"

fun task_ok :: "token_cache \<Rightarrow> refresh_task \<Rightarrow> bool" where
  "task_ok s Stopped \<longleftrightarrow> \<not> tc_open s \<and> (tc_alive s \<longrightarrow> lasting (tc_watched s))"
| "task_ok s (FailAt d e) \<longleftrightarrow> tc_open s \<and> current_expiration (tc_watched s) = Some d"
| "task_ok s (ErrorAt d e short) \<longleftrightarrow> tc_open s \<and> current_expiration (tc_watched s) = Some d"
| "task_ok s _ \<longleftrightarrow> tc_open s"

definition settled_value :: "token_cache \<Rightarrow> bool" where
  "settled_value s \<longleftrightarrow>
     (tc_watched s = None \<longleftrightarrow> tc_version s = 0) \<and>
     (\<forall>tk tag. tc_watched s = Some (Ok (tk, tag)) \<longrightarrow> tk_expires_at tk = None \<longrightarrow> tc_task s = Stopped)"

definition token_cache_ok :: "token_cache \<Rightarrow> bool" where
  "token_cache_ok s \<longleftrightarrow> settled_value s \<and> task_ok s (tc_task s) \<and> list_all (caller_ok s) (tc_callers s)"

lemma cache_ok_new: "token_cache_ok (token_cache_new now tags)"
  by (simp add: token_cache_ok_def token_cache_new_def settled_value_def)

text \<open>Sending, stopping and time keep the callers.\<close>

lemma caller_ok_cong:
  assumes "caller_ok s c" "tc_alive s' = tc_alive s" "tc_version s' = tc_version s" "tc_watched s' = tc_watched s"
    "tc_now s \<le> tc_now s'"
  shows "caller_ok s' c"
  using assms by (cases c) (auto simp: stale_token_def is_some_and_iff intro: order.strict_trans2)

lemma caller_ok_sent:
  assumes "caller_ok s c" "tc_alive s' = tc_alive s" "tc_version s < tc_version s'"
  shows "caller_ok s' c"
  using assms by (cases c) auto

lemma callers_cong:
  assumes "list_all (caller_ok s) cs" "tc_alive s' = tc_alive s" "tc_version s' = tc_version s"
    "tc_watched s' = tc_watched s" "tc_now s \<le> tc_now s'"
  shows "list_all (caller_ok s') cs"
  using assms(1) by (rule list.pred_mono_strong) (rule caller_ok_cong [OF _ assms(2-5)])

lemma callers_sent:
  assumes "list_all (caller_ok s) cs" "tc_alive s' = tc_alive s" "tc_version s < tc_version s'"
  shows "list_all (caller_ok s') cs"
  using assms(1) by (rule list.pred_mono_strong) (rule caller_ok_sent [OF _ assms(2-3)])

lemma in_call_alive: "caller_ok s c \<Longrightarrow> in_call c \<Longrightarrow> tc_alive s"
  by (cases c) (auto simp: in_call_def)

lemma receivers_alive:
  assumes "list_all (caller_ok s) (tc_callers s)"
  shows "receiver_count s = 0 \<longleftrightarrow> \<not> tc_alive s"
  using assms by (auto simp: receiver_count_def filter_empty_conv list_all_iff dest: in_call_alive)

lemma send_token_sel [simp]:
  "tc_now (send_token r s) = tc_now s" "tc_open (send_token r s) = tc_open s" "tc_task (send_token r s) = tc_task s"
  "tc_alive (send_token r s) = tc_alive s" "tc_tags (send_token r s) = tc_tags s" "tc_callers (send_token r s) = tc_callers s"
  by (simp_all add: send_token_def)

lemma stop_task_sel [simp]:
  "tc_now (stop_task s) = tc_now s" "tc_open (stop_task s) = False" "tc_task (stop_task s) = Stopped"
  "tc_alive (stop_task s) = tc_alive s" "tc_tags (stop_task s) = tc_tags s" "tc_callers (stop_task s) = tc_callers s"
  "tc_watched (stop_task s) = tc_watched s" "tc_version (stop_task s) = tc_version s"
  by (simp_all add: stop_task_def)

lemma send_token_alive:
  "tc_alive s \<Longrightarrow> tc_watched (send_token r s) = Some r \<and> tc_version (send_token r s) = tc_version s + 1"
  by (simp add: send_token_def receiver_count_def)

text \<open>What the task does to a good cache: it sends something or not, and goes on in a state that fits.\<close>

lemma cache_ok_quiet:
  assumes "token_cache_ok s" "tc_callers s' = tc_callers s" "tc_alive s' = tc_alive s" "tc_version s' = tc_version s"
    "tc_watched s' = tc_watched s" "tc_now s \<le> tc_now s'" "task_ok s' (tc_task s')"
    "tc_task s = Stopped \<longrightarrow> tc_task s' = Stopped"
  shows "token_cache_ok s'"
  using assms callers_cong [of s "tc_callers s" s'] by (auto simp: token_cache_ok_def settled_value_def)

lemma cache_ok_sent:
  assumes "token_cache_ok s" "tc_callers s' = tc_callers s" "tc_alive s' = tc_alive s" "tc_alive s"
    "tc_version s' = tc_version s + 1" "tc_watched s' = Some r" "task_ok s' (tc_task s')"
    "\<forall>tk tag. r = Ok (tk, tag) \<longrightarrow> tk_expires_at tk = None \<longrightarrow> tc_task s' = Stopped"
  shows "token_cache_ok s'"
  using assms callers_sent [of s "tc_callers s" s'] by (auto simp: token_cache_ok_def settled_value_def)

lemma send_token_dead:
  assumes "token_cache_ok s" "\<not> tc_alive s"
  shows "send_token r s = s"
  using assms receivers_alive [of s] by (simp add: token_cache_ok_def send_token_def)

lemma cache_ok_task: "token_cache_ok s \<Longrightarrow> task_ok s (tc_task s)"
  by (simp add: token_cache_ok_def)

lemma task_ok_cong:
  "tc_open s' = tc_open s \<Longrightarrow> tc_alive s' = tc_alive s \<Longrightarrow> tc_watched s' = tc_watched s \<Longrightarrow> task_ok s' t = task_ok s t"
  by (cases t) auto

lemma cache_ok_publish:
  assumes ok: "token_cache_ok s" and now: "tc_now s \<le> tc_now s'"
    and s': "tc_callers s' = tc_callers s" "tc_alive s' = tc_alive s"
      "tc_version s' = tc_version (send_token r s)" "tc_watched s' = tc_watched (send_token r s)"
    and task: "tc_alive s \<Longrightarrow> tc_watched s' = Some r \<Longrightarrow> task_ok s' (tc_task s')"
      "\<not> tc_alive s \<Longrightarrow> tc_watched s' = tc_watched s \<Longrightarrow> task_ok s' (tc_task s')"
    and stays: "tc_task s = Stopped \<Longrightarrow> tc_task s' = Stopped"
    and r: "\<And>tk tag. r = Ok (tk, tag) \<Longrightarrow> tk_expires_at tk = None \<Longrightarrow> tc_task s' = Stopped"
  shows "token_cache_ok s'"
proof (cases "tc_alive s")
  case True
  with send_token_alive [OF this, of r] s' task(1) r show ?thesis
    by (intro cache_ok_sent [OF ok s'(1,2) True]) auto
next
  case False
  with send_token_dead [OF ok False, of r] s' now task(2) stays show ?thesis
    by (intro cache_ok_quiet [OF ok s'(1,2)]) auto
qed

lemma cache_ok_refresh_check:
  assumes "token_cache_ok s" "tc_task s = Checking"
  shows "token_cache_ok (refresh_check s)"
proof -
  have "receiver_count s = 0 \<longleftrightarrow> \<not> tc_alive s" using assms by (simp add: token_cache_ok_def receivers_alive)
  then show ?thesis using assms(2) cache_ok_task [OF assms(1)]
    by (auto simp: refresh_check_def intro!: cache_ok_quiet [OF assms(1)])
qed

lemma cache_ok_now: "token_cache_ok s \<Longrightarrow> tc_now s \<le> t \<Longrightarrow> token_cache_ok (s\<lparr>tc_now := t\<rparr>)"
  using cache_ok_task [of s] by (auto simp: task_ok_cong [of "s\<lparr>tc_now := t\<rparr>" s] intro!: cache_ok_quiet [of s])

lemma cache_ok_refresh_ok:
  assumes "token_cache_ok s" "tc_task s = Fetching"
  shows "token_cache_ok (refresh_ok tk now s)"
proof -
  let ?s = "s\<lparr>tc_tags := tc_tags s + 1\<rparr>" and ?r = "Ok (tk, EntityTag (of_nat (tc_tags s)))"
  have ok: "token_cache_ok ?s" by (rule cache_ok_quiet [OF assms(1)]) (use assms in \<open>auto simp: token_cache_ok_def\<close>)
  show ?thesis
  proof (cases "tk_expires_at tk")
    case None
    show ?thesis unfolding refresh_ok_def Let_def None option.case
      by (rule cache_ok_publish [OF ok, of _ ?r]) (auto simp: lasting_def current_expiration_def None)
  next
    case (Some expiry)
    have "tc_open s" using assms by (simp add: token_cache_ok_def)
    then show ?thesis unfolding refresh_ok_def Let_def Some option.case
      by (intro cache_ok_publish [OF ok, of _ ?r]) (auto simp: assms(2) Some)
  qed
qed

lemma cache_ok_refresh_permanent:
  assumes "token_cache_ok s" "tc_task s = Fetching"
  shows "token_cache_ok (refresh_permanent e s)"
proof (cases "current_expiration (tc_watched s)")
  case None
  show ?thesis unfolding refresh_permanent_def None option.case
    by (rule cache_ok_publish [OF assms(1), of _ "Err e"]) (auto simp: lasting_def current_expiration_def)
next
  case (Some d)
  have "tc_open s" using assms by (simp add: token_cache_ok_def)
  then show ?thesis unfolding refresh_permanent_def Some option.case
    by (intro cache_ok_quiet [OF assms(1)]) (auto simp: assms(2) Some)
qed

lemma cache_ok_then_sleep:
  assumes "token_cache_ok s" "tc_open s" "tc_task s \<noteq> Stopped"
  shows "token_cache_ok ((send_token (Err e) s)\<lparr>tc_task := SleepUntil t\<rparr>)" "token_cache_ok (s\<lparr>tc_task := SleepUntil t\<rparr>)"
    "token_cache_ok (s\<lparr>tc_task := Checking\<rparr>)"
  by (rule cache_ok_publish [OF assms(1), of _ "Err e"]; use assms in auto)
    (rule cache_ok_quiet [OF assms(1)]; use assms in auto)+

lemma cache_ok_refresh_transient:
  assumes "token_cache_ok s" "tc_task s = Fetching"
  shows "token_cache_ok (refresh_transient e start_now now s)"
proof -
  have "tc_open s" using assms by (simp add: token_cache_ok_def)
  moreover from this have "token_cache_ok (s\<lparr>tc_task := ErrorAt d e' t\<rparr>)" if "current_expiration (tc_watched s) = Some d" for d e' t
    by (intro cache_ok_quiet [OF assms(1)]) (auto simp: assms(2) that)
  ultimately show ?thesis using cache_ok_then_sleep [OF assms(1)]
    by (auto simp: refresh_transient_def Let_def assms(2) split: option.splits)
qed

lemma cache_ok_refresh_answer:
  assumes "token_cache_ok s" "tc_task s = Fetching" "tc_now s \<le> now"
  shows "token_cache_ok (refresh_answer r start_now now s)"
  using cache_ok_now [OF assms(1,3)] assms(2)
  by (auto simp: refresh_answer_def Let_def cache_ok_refresh_ok cache_ok_refresh_permanent cache_ok_refresh_transient
    split: result.splits)

lemma cache_ok_refresh_wake:
  assumes "token_cache_ok s" "refresh_wake s = Some s'"
  shows "token_cache_ok s'"
proof (cases "tc_task s")
  case (FailAt d e)
  then have s': "s' = stop_task (send_token (Err e) s)" using assms(2) by (simp add: refresh_wake_def split: if_splits)
  show ?thesis unfolding s'
    by (rule cache_ok_publish [OF assms(1), of _ "Err e"]) (auto simp: lasting_def current_expiration_def)
next
  case (ErrorAt d e short)
  then have "tc_open s" using assms(1) by (simp add: token_cache_ok_def)
  with ErrorAt assms cache_ok_then_sleep(1) [OF assms(1)] show ?thesis by (auto simp: refresh_wake_def split: if_splits)
next
  case (SleepUntil t)
  then have "tc_open s" using assms(1) by (simp add: token_cache_ok_def)
  with SleepUntil assms cache_ok_then_sleep(3) [OF assms(1)] show ?thesis by (auto simp: refresh_wake_def split: if_splits)
qed (use assms in \<open>auto simp: refresh_wake_def\<close>)

text \<open>What the callers do.\<close>

lemma cache_ok_set_caller:
  assumes "token_cache_ok s" "caller_ok s c"
  shows "token_cache_ok (set_caller i c s)"
proof -
  let ?s = "set_caller i c s"
  have "caller_ok ?s = caller_ok s" by (rule ext, rename_tac c', case_tac c') (auto simp: set_caller_def)
  moreover have "task_ok ?s = task_ok s" by (rule ext, rename_tac t, case_tac t) (auto simp: set_caller_def)
  moreover have "list_all (caller_ok s) ((tc_callers s)[i := c])"
    using assms by (auto simp: token_cache_ok_def list_all_iff dest!: set_update_subset_insert [THEN subsetD])
  ultimately show ?thesis using assms(1) by (simp add: token_cache_ok_def settled_value_def) (simp add: set_caller_def)
qed

lemma caller_ok_latest_token:
  assumes "caller_ok s (Borrowed tag watched version)"
  shows "caller_ok s (latest_token (tc_now s) tag watched version)"
  using assms by (auto simp: latest_token_def stale_token_def current_expiration_def split: option.splits result.splits)

lemma caller_ok_next_token:
  assumes "token_cache_ok s" "caller_ok s (Waiting tag version)" "wait_for_next_token s tag version = Some c"
  shows "caller_ok s c"
proof (cases "version = tc_version s")
  case True
  with assms(2) have "stale_token (tc_now s) (tc_watched s)" "tc_alive s" by auto
  moreover from this(1) have "\<not> lasting (tc_watched s)" by (auto simp: stale_token_def lasting_def)
  ultimately have "tc_open s" using assms(1) by (cases "tc_task s") (auto simp: token_cache_ok_def)
  with True assms(3) show ?thesis by (simp add: wait_for_next_token_def)
next
  case False
  with assms have "tc_version s \<noteq> 0" "tc_watched s \<noteq> None" by (auto simp: token_cache_ok_def settled_value_def)
  with False assms(3) show ?thesis by (auto simp: wait_for_next_token_def)
qed

lemma caller_okI: "token_cache_ok s \<Longrightarrow> i < length (tc_callers s) \<Longrightarrow> caller_ok s (tc_callers s ! i)"
  by (simp add: token_cache_ok_def list_all_length)

lemma cache_ok_step: "token_cache_ok s \<Longrightarrow> cache_step ev s = Some s' \<Longrightarrow> token_cache_ok s'"
proof (induction ev s rule: cache_step.induct)
  case (2 s)
  with cache_ok_task [of s] show ?case
    by (auto simp: task_ok_cong [of "s\<lparr>tc_tags := Suc (tc_tags s)\<rparr>" s] intro!: cache_ok_quiet [of s])
next
  case (6 tag s)
  have "caller_ok s' = caller_ok s" "task_ok s' = task_ok s" using 6(2)
    by (auto split: if_splits intro!: ext elim!: caller_ok.elims task_ok.elims)
  with 6 show ?case by (auto simp: token_cache_ok_def settled_value_def split: if_splits)
next
  case (7 i s)
  with caller_okI [OF 7(1), of i] show ?case
    by (auto split: if_splits caller.splits intro!: cache_ok_set_caller caller_ok_latest_token)
next
  case (8 i s)
  with caller_okI [OF 8(1), of i] show ?case
    by (auto split: if_splits caller.splits intro!: cache_ok_set_caller elim: caller_ok_next_token)
next
  case (10 s)
  then have s': "s' = s\<lparr>tc_alive := False\<rparr>" "\<not> list_ex in_call (tc_callers s)" by (auto split: if_splits)
  have "caller_ok s' c" if "caller_ok s c" "\<not> in_call c" for c using that s'(1) by (cases c) (auto simp: in_call_def)
  with 10(1) s' show ?case by (cases "tc_task s") (auto simp: token_cache_ok_def settled_value_def list_all_iff list_ex_iff)
next
  case (11 s)
  then show ?case by (auto split: if_splits intro!: cache_ok_quiet [of s])
qed (auto split: if_splits simp: cache_ok_now cache_ok_refresh_check cache_ok_refresh_answer cache_ok_refresh_wake
  intro!: cache_ok_set_caller)

lemma reachable_ok: "reachable s \<Longrightarrow> token_cache_ok s"
  by (induction rule: reachable.induct) (auto simp: cache_ok_new elim: cache_ok_step)

section \<open>Callers do not panic, and good tokens are kept\<close>

text \<open>
  No call of \<open>token\<close> panics: whatever the provider answers, however long its answers take, and
  however task and callers interleave, a caller never waits on a channel whose task has ended, and never
  finds the channel empty after a change.\<close>

theorem token_never_panics:
  assumes "reachable s"
  shows "Panicked \<notin> set (tc_callers s)"
  using reachable_ok [OF assms] by (auto simp: token_cache_ok_def list_all_iff)

text \<open>The task alone changes what is published.\<close>

fun task_event :: "cache_event \<Rightarrow> bool" where
  "task_event Check \<longleftrightarrow> True"
| "task_event (ProviderAnswer _ _ _) \<longleftrightarrow> True"
| "task_event Wake \<longleftrightarrow> True"
| "task_event _ \<longleftrightarrow> False"

lemmas refresh_defs = refresh_check_def refresh_answer_def refresh_ok_def refresh_permanent_def refresh_transient_def
  refresh_wake_def Let_def

lemma refresh_check_watched [simp]:
  "tc_watched (refresh_check s) = tc_watched s" "tc_version (refresh_check s) = tc_version s"
  by (auto simp: refresh_check_def)

lemma other_events_watched:
  assumes "cache_step ev s = Some s'" "\<not> task_event ev"
  shows "tc_watched s' = tc_watched s \<and> tc_version s' = tc_version s"
  using assms by (cases ev) (auto simp: set_caller_def split: if_splits caller.splits)

text \<open>
  C12. A good token stays in the cache: while the cached token has not expired, no failure of the provider
  replaces it, neither a transient nor a permanent one; only a new token does.\<close>

theorem valid_token_kept:
  assumes "reachable s" "cache_step ev s = Some s'" "tc_watched s = Some (Ok (tk, tag))"
    and valid: "case tk_expires_at tk of None \<Rightarrow> True | Some e \<Rightarrow> tc_now s' < e"
  shows "tc_watched s' = Some (Ok (tk, tag)) \<or>
    (\<exists>tk' t t'. ev = ProviderAnswer (Ok tk') t t' \<and> tc_watched s' = Some (Ok (tk', EntityTag (of_nat (tc_tags s)))))"
proof (cases "task_event ev")
  case False
  with other_events_watched [OF assms(2)] assms(3) show ?thesis by simp
next
  case True
  have ok: "token_cache_ok s" using assms(1) by (rule reachable_ok)
  have task: "task_ok s (tc_task s)" using ok by (rule cache_ok_task)
  have exp: "current_expiration (tc_watched s) = tk_expires_at tk" by (simp add: assms(3) current_expiration_def)
  have none: "tk_expires_at tk = None \<Longrightarrow> tc_task s = Stopped"
    using ok assms(3) by (auto simp: token_cache_ok_def settled_value_def)
  from True show ?thesis
  proof (cases ev)
    case Check
    with assms(2,3) show ?thesis by (auto split: if_splits)
  next
    case (ProviderAnswer r start_now now)
    with assms(2) none have s': "s' = refresh_answer r start_now now s" "tk_expires_at tk \<noteq> None"
      by (auto split: if_splits)
    with valid exp assms(3) ProviderAnswer show ?thesis
      by (auto simp: refresh_defs send_token_def
        current_expiration_def split: result.splits option.splits if_splits)
  next
    case Wake
    with assms(2) valid exp assms(3) task show ?thesis
      by (auto simp: refresh_wake_def split: refresh_task.splits if_splits)
  qed auto
qed

section \<open>Callers that wait are answered\<close>

text \<open>How many steps the task has left before it must publish something.\<close>

fun steps_left :: "refresh_task \<Rightarrow> nat" where
  "steps_left (SleepUntil _) = 3"
| "steps_left Checking = 2"
| "steps_left Fetching = 1"
| "steps_left _ = 0"

lemma version_grows: "cache_step ev s = Some s' \<Longrightarrow> tc_version s \<le> tc_version s'"
proof (cases "task_event ev")
  case True
  assume "cache_step ev s = Some s'"
  with True show ?thesis
    by (cases ev) (auto simp: refresh_defs send_token_def split: result.splits option.splits if_splits refresh_task.splits)
qed (simp add: other_events_watched)

lemma version_grows_run: "cache_run evs s = Some s' \<Longrightarrow> tc_version s \<le> tc_version s'"
proof (induction evs arbitrary: s)
  case (Cons ev evs)
  then obtain s1 where "cache_step ev s = Some s1" "cache_run evs s1 = Some s'" by (auto split: option.splits)
  with version_grows [of ev s s1] Cons.IH [of s1] show ?case by simp
qed simp

text \<open>A call that has ended, or that was not a waiting one, does not come to wait for \<open>v\<close>.\<close>

lemma callers_length: "cache_step ev s = Some s' \<Longrightarrow> length (tc_callers s) \<le> length (tc_callers s')"
  by (cases ev) (auto simp: set_caller_def refresh_defs
    split: result.splits option.splits if_splits refresh_task.splits caller.splits)

lemma ended_stays:
  assumes "cache_step ev s = Some s'" "i < length (tc_callers s)" "\<not> in_call (tc_callers s ! i)"
  shows "tc_callers s' ! i = tc_callers s ! i"
  using assms by (cases ev) (auto simp: set_caller_def refresh_defs nth_append in_call_def nth_list_update
    split: result.splits option.splits if_splits refresh_task.splits caller.splits)

lemma waiting_moves:
  assumes "cache_step ev s = Some s'" "i < length (tc_callers s)" "tc_callers s ! i = Waiting tag v"
  shows "tc_callers s' ! i = Waiting tag v \<or> \<not> in_call (tc_callers s' ! i)"
  using assms by (cases ev) (auto simp: set_caller_def refresh_defs nth_append in_call_def nth_list_update wait_for_next_token_def
    split: result.splits option.splits if_splits refresh_task.splits caller.splits)

lemma ended_stays_run:
  "cache_run evs s = Some s' \<Longrightarrow> i < length (tc_callers s) \<Longrightarrow> \<not> in_call (tc_callers s ! i) \<Longrightarrow>
   tc_callers s' ! i = tc_callers s ! i"
proof (induction evs arbitrary: s)
  case (Cons ev evs)
  then obtain s1 where s1: "cache_step ev s = Some s1" "cache_run evs s1 = Some s'" by (auto split: option.splits)
  from ended_stays [OF s1(1) Cons.prems(2,3)] callers_length [OF s1(1)] Cons.IH [OF s1(2)] Cons.prems show ?case by simp
qed simp

lemma task_makes_progress:
  assumes ok: "token_cache_ok s" and i: "i < length (tc_callers s)" "tc_callers s ! i = Waiting tag (tc_version s)"
    and st: "cache_step ev s = Some s'" and w: "tc_callers s' ! i = Waiting tag (tc_version s)"
  shows "tc_version s < tc_version s' \<or> steps_left (tc_task s') + (if task_event ev then 1 else 0) \<le> steps_left (tc_task s)"
proof -
  have alive: "tc_alive s" and stale_token: "stale_token (tc_now s) (tc_watched s)" using caller_okI [OF ok i(1)] i(2) by simp_all
  have task: "task_ok s (tc_task s)" using ok by (rule cache_ok_task)
  have count: "receiver_count s \<noteq> 0" using alive by (simp add: receiver_count_def)
  have call: "list_ex in_call (tc_callers s)" using nth_mem [OF i(1)] i(2) by (force simp: list_ex_iff in_call_def)
  show ?thesis
  proof (cases ev)
    case (ProviderAnswer r start_now now)
    then show ?thesis using st alive stale_token
      by (auto simp: refresh_defs send_token_def receiver_count_def stale_token_def current_expiration_def is_some_and_iff
        split: if_splits result.splits option.splits)
  next
    case Wake
    with st alive show ?thesis
      by (auto simp: refresh_wake_def send_token_alive split: refresh_task.splits if_splits)
  qed (use st alive count call in \<open>auto simp: refresh_check_def set_caller_def split: if_splits caller.splits\<close>)
qed

lemma version_outgrown:
  assumes "cache_run evs s = Some s'" "token_cache_ok s" "i < length (tc_callers s)" "tc_callers s ! i = Waiting tag v"
    and "tc_callers s' ! i = Waiting tag v" "steps_left (tc_task s) < length (filter task_event evs)"
  shows "v < tc_version s'"
  using assms
proof (induction evs arbitrary: s)
  case (Cons ev evs)
  then obtain s1 where s1: "cache_step ev s = Some s1" "cache_run evs s1 = Some s'" by (auto split: option.splits)
  have len: "i < length (tc_callers s1)" using Cons.prems(3) callers_length [OF s1(1)] by simp
  have w: "tc_callers s1 ! i = Waiting tag v"
    using waiting_moves [OF s1(1) Cons.prems(3,4)] ended_stays_run [OF s1(2) len] Cons.prems(5) by (auto simp: in_call_def)
  have ok: "token_cache_ok s1" using Cons.prems(2) s1(1) by (rule cache_ok_step)
  have le: "v \<le> tc_version s" using caller_okI [OF Cons.prems(2,3)] Cons.prems(4) by simp
  show ?case
  proof (cases "v = tc_version s")
    case True
    from task_makes_progress [OF Cons.prems(2,3) _ s1(1)] Cons.prems(4) w True
    consider "tc_version s < tc_version s1"
      | "steps_left (tc_task s1) + (if task_event ev then 1 else 0) \<le> steps_left (tc_task s)" by auto
    then show ?thesis
    proof cases
      case 1
      with True version_grows_run [OF s1(2)] show ?thesis by simp
    next
      case 2
      with Cons.prems(6) have "steps_left (tc_task s1) < length (filter task_event evs)" by (auto split: if_splits)
      from Cons.IH [OF s1(2) ok len w Cons.prems(5) this] show ?thesis .
    qed
  next
    case False
    with le version_grows [OF s1(1)] version_grows_run [OF s1(2)] show ?thesis by simp
  qed
qed simp

text \<open>The step of the task that comes next, when it is time and the provider answers \<open>r\<close>.\<close>

fun next_task_event :: "(credentials_error, token) result \<Rightarrow> token_cache \<Rightarrow> cache_event list" where
  "next_task_event r s =
     (case tc_task s of
        Checking \<Rightarrow> [Check]
      | Fetching \<Rightarrow> [ProviderAnswer r (tc_now s) (tc_now s)]
      | FailAt d e \<Rightarrow> [Tick (max (tc_now s) d), Wake]
      | ErrorAt d e short \<Rightarrow> [Tick (max (tc_now s) d), Wake]
      | SleepUntil t \<Rightarrow> [Tick (max (tc_now s) t), Wake]
      | Stopped \<Rightarrow> [])"

lemma task_goes_on:
  assumes "token_cache_ok s" "i < length (tc_callers s)" "tc_callers s ! i = Waiting tag (tc_version s)"
  shows "\<exists>s'. cache_run (next_task_event r s) s = Some s' \<and> length (filter task_event (next_task_event r s)) = 1"
proof -
  have "caller_ok s (Waiting tag (tc_version s))" using caller_okI [OF assms(1,2)] assms(3) by simp
  then have "tc_task s \<noteq> Stopped" using cache_ok_task [OF assms(1)] by (auto simp: stale_token_def lasting_def)
  then show ?thesis by (cases "tc_task s") (auto simp: refresh_wake_def)
qed

lemma callers_length_run: "cache_run evs s = Some s' \<Longrightarrow> length (tc_callers s) \<le> length (tc_callers s')"
  by (induction evs arbitrary: s) (fastforce split: option.splits dest: callers_length)+

text \<open>
  C13. A caller that waits is answered. If nothing has been published since it looked, the task has not
  ended: as soon as time passes and the provider answers, it makes its next step. And after at most four of
  its steps, whatever else happens in between, a caller that still waits gets what the task has published.\<close>

theorem waiting_caller_answered:
  assumes "reachable s" "i < length (tc_callers s)" "tc_callers s ! i = Waiting tag v"
  shows "(v = tc_version s \<longrightarrow>
      (\<exists>s'. cache_run (next_task_event r s) s = Some s' \<and> length (filter task_event (next_task_event r s)) = 1)) \<and>
    (\<forall>evs s'. cache_run evs s = Some s' \<longrightarrow> tc_callers s' ! i = Waiting tag v \<longrightarrow> 4 \<le> length (filter task_event evs) \<longrightarrow>
      (\<exists>s'' x. cache_step (Receive i) s' = Some s'' \<and> tc_watched s' = Some x \<and> tc_callers s'' ! i = Answered tag x))"
proof (intro conjI allI impI)
  have ok: "token_cache_ok s" using assms(1) by (rule reachable_ok)
  show "\<exists>s'. cache_run (next_task_event r s) s = Some s' \<and> length (filter task_event (next_task_event r s)) = 1"
    if "v = tc_version s"
    using task_goes_on [OF ok assms(2)] assms(3) that by simp
  fix evs s' assume run: "cache_run evs s = Some s'" "tc_callers s' ! i = Waiting tag v" "4 \<le> length (filter task_event evs)"
  have "steps_left (tc_task s) \<le> 3" by (cases "tc_task s") auto
  with version_outgrown [OF run(1) ok assms(2,3) run(2)] run(3) have v: "v < tc_version s'" by simp
  then have "tc_watched s' \<noteq> None"
    using reachable_ok [OF reachable_run [OF assms(1) run(1)]] by (auto simp: token_cache_ok_def settled_value_def)
  with callers_length_run [OF run(1)] run(2) v assms(2)
  show "\<exists>s'' x. cache_step (Receive i) s' = Some s'' \<and> tc_watched s' = Some x \<and> tc_callers s'' ! i = Answered tag x"
    by (auto simp: wait_for_next_token_def set_caller_def)
qed

section \<open>Entity tags\<close>

text \<open>Every token that is published or was read has a tag of its own, from a number below the count of tags.\<close>

fun watched_token :: "token_result option \<Rightarrow> (token \<times> entity_tag) option" where
  "watched_token (Some (Ok x)) = Some x"
| "watched_token _ = None"

fun caller_token :: "caller \<Rightarrow> (token \<times> entity_tag) option" where
  "caller_token (Borrowed tag watched version) = watched_token watched"
| "caller_token (Answered tag r) = watched_token (Some r)"
| "caller_token _ = None"

definition tagged :: "(nat \<Rightarrow> token) \<Rightarrow> nat \<Rightarrow> (token \<times> entity_tag) option \<Rightarrow> bool" where
  "tagged given n x \<longleftrightarrow> (\<forall>tk tag. x = Some (tk, tag) \<longrightarrow> (\<exists>k<n. tag = EntityTag (of_nat k) \<and> given k = tk))"

definition tags_ok :: "(nat \<Rightarrow> token) \<Rightarrow> token_cache \<Rightarrow> bool" where
  "tags_ok given s \<longleftrightarrow>
     tagged given (tc_tags s) (watched_token (tc_watched s)) \<and>
     list_all (\<lambda>c. tagged given (tc_tags s) (caller_token c)) (tc_callers s)"

lemma tagged_None [simp]: "tagged given n None"
  by (simp add: tagged_def)

lemma tagged_mono: "tagged given n x \<Longrightarrow> n \<le> m \<Longrightarrow> \<forall>k<n. given' k = given k \<Longrightarrow> tagged given' m x"
  by (force simp: tagged_def)

lemma tags_ok_quiet:
  assumes "tags_ok given s" "tc_tags s' = tc_tags s" "tc_callers s' = tc_callers s"
    and "tc_watched s' = tc_watched s \<or> watched_token (tc_watched s') = None"
  shows "tags_ok given s'"
  using assms by (auto simp: tags_ok_def)

lemma tags_ok_more:
  assumes "tags_ok given s" "tc_tags s' = Suc (tc_tags s)" "tc_callers s' = tc_callers s"
    and "tc_watched s' = tc_watched s \<or> tc_watched s' = Some (Ok (tk, EntityTag (of_nat (tc_tags s))))"
  shows "tags_ok (given(tc_tags s := tk)) s'"
proof -
  have keep: "tagged (given(tc_tags s := tk)) (Suc (tc_tags s)) x" if "tagged given (tc_tags s) x" for x
    using that by (rule tagged_mono) auto
  have "tagged (given(tc_tags s := tk)) (Suc (tc_tags s)) (Some (tk, EntityTag (of_nat (tc_tags s))))"
    by (auto simp: tagged_def intro!: exI [of _ "tc_tags s"])
  with assms keep show ?thesis
    by (auto simp: tags_ok_def elim!: list.pred_mono_strong)
qed

lemma tags_ok_set_caller:
  assumes "tags_ok given s" "tagged given (tc_tags s) (caller_token c)"
  shows "tags_ok given (set_caller i c s)"
  using assms by (auto simp: tags_ok_def set_caller_def list_all_iff dest!: set_update_subset_insert [THEN subsetD])

lemma caller_tagged: "tags_ok given s \<Longrightarrow> i < length (tc_callers s) \<Longrightarrow> tagged given (tc_tags s) (caller_token (tc_callers s ! i))"
  by (simp add: tags_ok_def list_all_length)

lemma latest_token_from: "caller_token (latest_token now tag watched version) \<in> {None, watched_token watched}"
  by (auto simp: latest_token_def split: option.splits result.splits)

lemma next_token_from:
  "wait_for_next_token s tag version = Some c \<Longrightarrow> caller_token c \<in> {None, watched_token (tc_watched s)}"
  by (auto simp: wait_for_next_token_def split: option.splits if_splits)

lemma refresh_answer_tags:
  assumes "tags_ok given s"
  shows "\<exists>given'. tags_ok given' (refresh_answer r start_now now s)"
proof (cases r)
  case (Ok tk)
  then have "tc_tags (refresh_answer r start_now now s) = Suc (tc_tags s)"
    "tc_callers (refresh_answer r start_now now s) = tc_callers s"
    "tc_watched (refresh_answer r start_now now s) = tc_watched s \<or>
      tc_watched (refresh_answer r start_now now s) = Some (Ok (tk, EntityTag (of_nat (tc_tags s))))"
    by (auto simp: refresh_defs send_token_def split: option.splits)
  from tags_ok_more [OF assms this] show ?thesis by blast
next
  case (Err e)
  then show ?thesis
    by (intro exI [of _ given] tags_ok_quiet [OF assms]) (auto simp: refresh_defs send_token_def split: option.splits)
qed

lemma tags_ok_step: "cache_step ev s = Some s' \<Longrightarrow> tags_ok given s \<Longrightarrow> \<exists>given'. tags_ok given' s'"
proof (induction ev s rule: cache_step.induct)
  case (2 s)
  then have "tags_ok (given(tc_tags s := given 0)) s'" by (intro tags_ok_more [OF 2(2)]) auto
  then show ?case by blast
next
  case (4 r start_now now s)
  then show ?case by (auto simp: refresh_answer_tags split: if_splits)
next
  case (6 tag s)
  then show ?case by (auto simp: tags_ok_def split: if_splits)
next
  case (7 i s)
  then obtain tag watched version where b: "i < length (tc_callers s)" "tc_callers s ! i = Borrowed tag watched version"
    "s' = set_caller i (latest_token (tc_now s) tag watched version) s" by (auto split: if_splits caller.splits)
  with caller_tagged [OF 7(2) b(1)] latest_token_from [of "tc_now s" tag watched version]
  have "tagged given (tc_tags s) (caller_token (latest_token (tc_now s) tag watched version))" by auto
  from tags_ok_set_caller [OF 7(2) this] b(3) show ?case by auto
next
  case (8 i s)
  then obtain tag version c where c: "wait_for_next_token s tag version = Some c" "s' = set_caller i c s"
    by (auto split: if_splits caller.splits)
  have "tagged given (tc_tags s) (watched_token (tc_watched s))" using 8(2) by (simp add: tags_ok_def)
  with next_token_from [OF c(1)] have "tagged given (tc_tags s) (caller_token c)" by auto
  from tags_ok_set_caller [OF 8(2) this] c(2) show ?case by auto
next
  case (9 i s)
  then show ?case by (auto split: if_splits intro!: tags_ok_set_caller)
qed (auto simp: refresh_defs send_token_def split: if_splits refresh_task.splits intro!: exI [of _ given] elim!: tags_ok_quiet)

lemma reachable_tags: "reachable s \<Longrightarrow> \<exists>given. tags_ok given s"
proof (induction rule: reachable.induct)
  case (start now tags)
  show ?case by (simp add: tags_ok_def token_cache_new_def)
next
  case (step s ev s')
  then show ?case using tags_ok_step by blast
qed

text \<open>
  A caller that is told that nothing changed has the right token: as long as the tag generator has not
  wrapped, if one answer gave a token with its tag, and a later caller with this tag is answered
  \<open>NotModified\<close>, then the token at that time is that very token.\<close>

theorem not_modified_same_token:
  assumes "reachable s" "tc_tags s \<le> 2 ^ 64" "i < length (tc_callers s)" "j < length (tc_callers s)"
    and i: "tc_callers s ! i = Answered t r" "cached_token t r = Ok (NewResource tag tk)"
    and j: "tc_callers s ! j = Answered (Some tag) r'" "cached_token (Some tag) r' = Ok NotModified"
  shows "r' = Ok (tk, tag)"
proof -
  obtain given where ok: "tags_ok given s" using reachable_tags [OF assms(1)] ..
  have r: "r = Ok (tk, tag)" using i(2) by (auto simp: cached_token_def split: result.splits if_splits)
  obtain tk' where r': "r' = Ok (tk', tag)" using j(2) by (auto simp: cached_token_def split: result.splits if_splits)
  from caller_tagged [OF ok assms(3)] i(1) r obtain k where k: "k < tc_tags s" "tag = EntityTag (of_nat k)" "given k = tk"
    by (auto simp: tagged_def)
  from caller_tagged [OF ok assms(4)] j(1) r' obtain k' where k': "k' < tc_tags s" "tag = EntityTag (of_nat k')" "given k' = tk'"
    by (auto simp: tagged_def)
  have "unat (of_nat k :: u64) = unat (of_nat k' :: u64)" using k k' by simp
  then have "k = k'" using k(1) k'(1) assms(2) by (simp add: unsigned_of_nat take_bit_nat_eq_self)
  with k k' r' show ?thesis by simp
qed

section \<open>A run\<close>

text \<open>
  A first caller waits; the token that comes is used by a second one, which keeps its tag, and by a third
  one with this tag. The provider then fails for good, when the token has five seconds left: a fourth caller
  still gets the token, and a fifth, after its expiry, waits for the error.
\<close>

definition sample_token :: token where
  "sample_token = \<lparr>tk_token = ''secret'', tk_token_type = ''Bearer'', tk_expires_at = Some (from_secs 15), tk_metadata = None\<rparr>"

definition sample_failure :: credentials_error where
  "sample_failure = creds_from_msg False ''revoked''"

definition token_events :: "cache_event list" where
  "token_events =
     [Check, Call None, Decide 0, ProviderAnswer (Ok sample_token) 0 0, Receive 0, Call (Some (EntityTag 7)), Decide 1,
      Tick (from_secs 10), Wake, Check, ProviderAnswer (Err sample_failure) (from_secs 10) (from_secs 10), Call None, Decide 2,
      Tick (from_secs 16), Call None, Decide 3]"

definition sample_cache :: token_cache where
  "sample_cache =
     \<lparr>tc_now = from_secs 16, tc_watched = Some (Ok (sample_token, EntityTag 7)), tc_version = 1, tc_open = True,
      tc_task = FailAt (from_secs 15) sample_failure, tc_alive = True, tc_tags = 8,
      tc_callers = [Answered None (Ok (sample_token, EntityTag 7)), Answered (Some (EntityTag 7)) (Ok (sample_token, EntityTag 7)),
        Answered None (Ok (sample_token, EntityTag 7)), Waiting None 1]\<rparr>"

lemmas sample_eval = token_events_def sample_cache_def sample_token_def sample_failure_def token_cache_new_def refresh_defs
  receiver_count_def in_call_def latest_token_def set_caller_def wait_for_next_token_def send_token_def
  current_expiration_def creds_is_transient_def creds_from_msg_def refresh_sleep_def NORMAL_REFRESH_SLACK_def
  SHORT_REFRESH_SLACK_def from_secs_def

lemma token_run: "cache_run token_events (token_cache_new 0 7) = Some sample_cache"
  by (simp add: sample_eval)

lemma sample_reachable: "reachable sample_cache"
  using reachable_run [OF reachable.start token_run] .

theorem token_never_panics_witness:
  "Waiting None 1 \<in> set (tc_callers sample_cache) \<and> Panicked \<notin> set (tc_callers sample_cache)"
  using token_never_panics [OF sample_reachable] by (simp add: sample_cache_def)

text \<open>While the token is valid, the failure of the provider does not replace it.\<close>

definition sample_before :: token_cache where
  "sample_before =
     \<lparr>tc_now = from_secs 10, tc_watched = Some (Ok (sample_token, EntityTag 7)), tc_version = 1, tc_open = True,
      tc_task = Fetching, tc_alive = True, tc_tags = 8,
      tc_callers = [Answered None (Ok (sample_token, EntityTag 7)), Answered (Some (EntityTag 7)) (Ok (sample_token, EntityTag 7))]\<rparr>"

theorem valid_token_kept_witness:
  "\<exists>s'. cache_step (ProviderAnswer (Err sample_failure) (from_secs 10) (from_secs 10)) sample_before = Some s' \<and>
     tc_watched s' = Some (Ok (sample_token, EntityTag 7))"
proof -
  let ?ev = "ProviderAnswer (Err sample_failure) (from_secs 10) (from_secs 10)"
    and ?s = "sample_before\<lparr>tc_task := FailAt (from_secs 15) sample_failure\<rparr>"
  have run: "cache_run (take 10 token_events) (token_cache_new 0 7) = Some sample_before"
    and st: "cache_step ?ev sample_before = Some ?s"
    by (simp_all add: sample_eval sample_before_def)
  have "tc_watched ?s = Some (Ok (sample_token, EntityTag 7))"
    using valid_token_kept [OF reachable_run [OF reachable.start run] st, of sample_token "EntityTag 7"]
    by (simp add: sample_before_def sample_token_def from_secs_def)
  with st show ?thesis by blast
qed

theorem waiting_caller_answered_witness:
  "\<exists>s'. cache_run (next_task_event (Err sample_failure) sample_cache) sample_cache = Some s'"
proof -
  have "tc_callers sample_cache ! 3 = Waiting None 1" "3 < length (tc_callers sample_cache)" "tc_version sample_cache = 1"
    by (simp_all add: sample_cache_def)
  with waiting_caller_answered [OF sample_reachable, of 3 None 1 "Err sample_failure"] show ?thesis by auto
qed

theorem not_modified_same_token_witness:
  "cached_token (Some (EntityTag 7)) (Ok (sample_token, EntityTag 7)) = Ok NotModified \<and>
   (Ok (sample_token, EntityTag 7) :: token_result) = Ok (sample_token, EntityTag 7)"
proof -
  let ?r = "Ok (sample_token, EntityTag 7) :: token_result"
  have "tc_tags sample_cache \<le> 2 ^ 64" "0 < length (tc_callers sample_cache)" "1 < length (tc_callers sample_cache)"
    "tc_callers sample_cache ! 0 = Answered None ?r" "cached_token None ?r = Ok (NewResource (EntityTag 7) sample_token)"
    "tc_callers sample_cache ! 1 = Answered (Some (EntityTag 7)) ?r" "cached_token (Some (EntityTag 7)) ?r = Ok NotModified"
    by (simp_all add: sample_cache_def cached_token_def)
  from not_modified_same_token [OF sample_reachable this] this(7) show ?thesis by simp
qed

end
