(* ===== verification/Request_Binding.thy ===== *)
theory Request_Binding
  imports Well_Known_Types
begin

text \<open>
  How generated code binds a request to a URI and to its routing headers: the path templates of
  \<open>gax-internal/src/routing_parameter.rs\<close> and \<open>path_parameter.rs\<close>, the query parameters of
  \<open>query_parameter.rs\<close>, the errors of \<open>gax/src/error/binding.rs\<close>, and the host of a request,
  \<open>gax-internal/src/host.rs\<close>.

  A string is its list of bytes. Percent encoding is from another crate; what is needed of it is the locale
  \<open>url_encoding\<close>. The parser of URIs is a parameter.
\<close>

section \<open>Templates\<close>

datatype segment = Literal string | SingleWildcard | MultiWildcard | TrailingMultiWildcard

definition has_prefix :: "string \<Rightarrow> string \<Rightarrow> bool" where
  "has_prefix s p \<longleftrightarrow> take (length p) s = p"

fun match_size :: "segment \<Rightarrow> string \<Rightarrow> nat option" where
  "match_size (Literal lit) haystack = (if has_prefix haystack lit then Some (length lit) else None)"
| "match_size SingleWildcard haystack =
     (let i = length (takeWhile (\<lambda>c. c \<noteq> CHR ''/'') haystack) in if i \<noteq> 0 then Some i else None)"
| "match_size MultiWildcard haystack = Some (length haystack)"
| "match_size TrailingMultiWildcard haystack =
     (if haystack = [] then Some 0
      else if has_prefix haystack ''/'' \<or> has_prefix haystack '':'' then Some (length haystack) else None)"

text \<open>One of the three loops of \<open>value\<close>: how far the segments match, and what remains.\<close>

fun match_all :: "segment list \<Rightarrow> nat \<Rightarrow> string \<Rightarrow> (nat \<times> string) option" where
  "match_all [] pos remains = Some (pos, remains)"
| "match_all (needle # needles) pos remains =
     (case match_size needle remains of
        None \<Rightarrow> None
      | Some count \<Rightarrow> match_all needles (pos + count) (drop count remains))"

definition routing_value :: "string option \<Rightarrow> segment list \<Rightarrow> segment list \<Rightarrow> segment list \<Rightarrow> string option" where
  "routing_value haystack pre matching suf =
     Option.bind haystack (\<lambda>haystack.
       Option.bind (match_all pre 0 haystack) (\<lambda>(start_pos, remains).
         Option.bind (match_all matching start_pos remains) (\<lambda>(end_pos, remains).
           Option.bind (match_all suf 0 remains) (\<lambda>(_, remains).
             if remains \<noteq> [] \<or> start_pos = end_pos then None
             else Some (take (end_pos - start_pos) (drop start_pos haystack))))))"

section \<open>What a template means\<close>

text \<open>The comments of \<open>Segment\<close>, as languages.\<close>

fun seg_lang :: "segment \<Rightarrow> string \<Rightarrow> bool" where
  "seg_lang (Literal lit) s \<longleftrightarrow> s = lit"
| "seg_lang SingleWildcard s \<longleftrightarrow> s \<noteq> [] \<and> CHR ''/'' \<notin> set s"
| "seg_lang MultiWildcard s \<longleftrightarrow> True"
| "seg_lang TrailingMultiWildcard s \<longleftrightarrow> s = [] \<or> hd s = CHR ''/'' \<or> hd s = CHR '':''"

definition matches :: "segment list \<Rightarrow> string \<Rightarrow> bool" where
  "matches segs s \<longleftrightarrow> (\<exists>parts. list_all2 seg_lang segs parts \<and> s = concat parts)"

text \<open>
  Templates that can only be split in one way: a single wildcard ends at a slash or at the end of the string,
  and the other wildcards are last. Nearly all templates of the generated code are of this form; the
  exceptions are those of the storage control client that end in \<open>/buckets/*\<close> followed by a suffix without
  a slash, and that of the operations of the asset service, which ends in a single and a trailing wildcard.
\<close>

fun delimited :: "segment list \<Rightarrow> bool" where
  "delimited [] \<longleftrightarrow> True"
| "delimited (Literal lit # segs) \<longleftrightarrow> delimited segs"
| "delimited (SingleWildcard # segs) \<longleftrightarrow>
     (case segs of [] \<Rightarrow> True | Literal (c # _) # _ \<Rightarrow> c = CHR ''/'' | _ \<Rightarrow> False) \<and> delimited segs"
| "delimited (_ # segs) \<longleftrightarrow> segs = []"

lemma matches_Nil [simp]: "matches [] s \<longleftrightarrow> s = []"
  by (auto simp: matches_def)

lemma matches_Cons: "matches (g # gs) s \<longleftrightarrow> (\<exists>a b. s = a @ b \<and> seg_lang g a \<and> matches gs b)"
  by (force simp: matches_def list_all2_Cons1)

lemma matches_append: "matches (gs @ hs) s \<longleftrightarrow> (\<exists>a b. s = a @ b \<and> matches gs a \<and> matches hs b)"
proof (induction gs arbitrary: s)
  case (Cons g gs)
  then show ?case by (auto simp: matches_Cons) (metis append.assoc)+
qed simp

lemma match_size_sound:
  assumes "match_size g s = Some n"
  shows "n \<le> length s \<and> seg_lang g (take n s)"
proof (cases g)
  case (Literal lit)
  with assms show ?thesis by (auto simp: has_prefix_def split: if_splits)
next
  case SingleWildcard
  with assms show ?thesis
    by (auto simp: Let_def length_takeWhile_le takeWhile_eq_take [symmetric] dest: set_takeWhileD split: if_splits)
next
  case TrailingMultiWildcard
  with assms show ?thesis by (cases s) (auto simp: has_prefix_def split: if_splits)
qed (use assms in auto)

lemma match_all_sound:
  "match_all gs pos s = Some (pos', rest) \<Longrightarrow> \<exists>a. s = a @ rest \<and> matches gs a \<and> pos' = pos + length a"
proof (induction gs arbitrary: pos s)
  case (Cons g gs)
  then obtain n where n: "match_size g s = Some n" "match_all gs (pos + n) (drop n s) = Some (pos', rest)"
    by (auto split: option.splits)
  from Cons.IH [OF n(2)] obtain a where a: "drop n s = a @ rest" "matches gs a" "pos' = pos + n + length a" by auto
  have "s = (take n s @ a) @ rest" using a(1) append_take_drop_id [of n s] by simp
  moreover have "matches (g # gs) (take n s @ a)" using match_size_sound [OF n(1)] a(2) by (auto simp: matches_Cons)
  ultimately show ?case using a(3) match_size_sound [OF n(1)] by (intro exI [of _ "take n s @ a"]) auto
qed auto

lemma match_size_complete:
  assumes "seg_lang g a" "matches gs b" "delimited (g # gs)"
  shows "match_size g (a @ b) = Some (length a)"
proof (cases g)
  case SingleWildcard
  have "takeWhile (\<lambda>c. c \<noteq> CHR ''/'') (a @ b) = a"
  proof (cases b)
    case Nil
    with assms(1) SingleWildcard show ?thesis by (auto simp: takeWhile_eq_all_conv)
  next
    case (Cons c b')
    with assms(2,3) SingleWildcard have "c = CHR ''/''"
      by (auto simp: matches_Cons split: list.splits segment.splits)
    with assms(1) SingleWildcard Cons show ?thesis by (simp add: takeWhile_append takeWhile_eq_all_conv)
  qed
  with SingleWildcard assms(1) show ?thesis by simp
qed (use assms in \<open>auto simp: has_prefix_def neq_Nil_conv\<close>)

lemma match_all_complete:
  "matches gs a \<Longrightarrow> matches hs b \<Longrightarrow> delimited (gs @ hs) \<Longrightarrow> match_all gs pos (a @ b) = Some (pos + length a, b)"
proof (induction gs arbitrary: pos a)
  case (Cons g gs)
  then obtain a1 a2 where a: "a = a1 @ a2" "seg_lang g a1" "matches gs a2" by (auto simp: matches_Cons)
  have "matches (gs @ hs) (a2 @ b)" using a(3) Cons.prems(2) by (auto simp: matches_append)
  from match_size_complete [OF a(2) this] Cons.prems(3) have "match_size g (a1 @ a2 @ b) = Some (length a1)" by simp
  moreover have "delimited (gs @ hs)" using Cons.prems(3) by (cases g) (auto split: list.splits)
  ultimately show ?case using Cons.IH [OF a(3) Cons.prems(2)] a(1) by simp
qed simp

lemma delimited_appendD: "delimited (gs @ hs) \<Longrightarrow> delimited hs"
proof (induction gs)
  case (Cons g gs)
  then show ?case by (cases g) (auto split: list.splits)
qed simp

text \<open>
  C15. Path templates match as they are specified. For every template, the value that \<open>value\<close> finds splits
  the string as the template says: something that the prefix matches, then the value, which is not empty and
  which the matching segments match, then something that the suffix matches, for the languages of the
  segments. For templates that are delimited, where a single wildcard is followed by a slash or by nothing and
  other wildcards are last, the value is found whenever there is such a split.\<close>

theorem routing_value_meaning:
  "(routing_value (Some h) pre matching suf = Some v \<longrightarrow>
      v \<noteq> [] \<and> (\<exists>x y. h = x @ v @ y \<and> matches pre x \<and> matches matching v \<and> matches suf y)) \<and>
   (delimited (pre @ matching @ suf) \<longrightarrow>
      v \<noteq> [] \<and> (\<exists>x y. h = x @ v @ y \<and> matches pre x \<and> matches matching v \<and> matches suf y) \<longrightarrow>
      routing_value (Some h) pre matching suf = Some v)"
proof (intro conjI impI)
  assume "routing_value (Some h) pre matching suf = Some v"
  then obtain i r1 j r2 k where m: "match_all pre 0 h = Some (i, r1)" "match_all matching i r1 = Some (j, r2)"
    "match_all suf 0 r2 = Some (k, [])" "i \<noteq> j" "v = take (j - i) (drop i h)"
    by (auto simp: routing_value_def Option.bind_eq_Some_conv split: if_splits)
  from match_all_sound [OF m(1)] obtain x where x: "h = x @ r1" "matches pre x" "i = length x" by auto
  from match_all_sound [OF m(2)] obtain w where w: "r1 = w @ r2" "matches matching w" "j = i + length w" by auto
  from match_all_sound [OF m(3)] have y: "matches suf r2" by auto
  have "v = w" using m(5) x w by simp
  with x w y m(4) show "v \<noteq> []" "\<exists>x y. h = x @ v @ y \<and> matches pre x \<and> matches matching v \<and> matches suf y" by auto
next
  assume delim: "delimited (pre @ matching @ suf)"
    and "v \<noteq> [] \<and> (\<exists>x y. h = x @ v @ y \<and> matches pre x \<and> matches matching v \<and> matches suf y)"
  then obtain x y where v: "v \<noteq> []" and h: "h = x @ v @ y" and m: "matches pre x" "matches matching v" "matches suf y" by blast
  have rest: "matches (matching @ suf) (v @ y)" using m by (auto simp: matches_append)
  have d: "delimited (matching @ suf)" "delimited (suf @ [])"
    using delim delimited_appendD [of pre "matching @ suf"] delimited_appendD [of matching suf] by auto
  from match_all_complete [OF m(1) rest delim, of 0] match_all_complete [OF m(2,3) d(1), of "length x"]
    match_all_complete [OF m(3) _ d(2), of "[]" 0] v h
  show "routing_value (Some h) pre matching suf = Some v" by (simp add: routing_value_def)
qed

text \<open>
  A single wildcard takes everything up to the next slash, so that a template in which it is followed by a
  literal that does not begin with a slash matches nothing. The templates for managed folders and objects of
  \<open>test_iam_permissions\<close> in the storage control client are of this kind, although they are described as
  \<open>projects/*/buckets/*/managedFolders/**\<close>.
\<close>

lemma match_all_append: "match_all (gs @ hs) pos s = Option.bind (match_all gs pos s) (\<lambda>(pos', s'). match_all hs pos' s')"
  by (induction gs arbitrary: pos s) (auto split: option.splits)

lemma dropped_wildcard:
  assumes "match_size SingleWildcard s = Some n" "c \<noteq> CHR ''/''"
  shows "\<not> has_prefix (drop n s) (c # lit)"
proof -
  have "drop n s = dropWhile (\<lambda>c. c \<noteq> CHR ''/'') s"
    using assms(1) by (auto simp: Let_def dropWhile_eq_drop split: if_splits)
  then have "drop n s = [] \<or> hd (drop n s) = CHR ''/''" using hd_dropWhile [of "\<lambda>c. c \<noteq> CHR ''/''" s] by auto
  with assms(2) show ?thesis by (cases "drop n s") (auto simp: has_prefix_def)
qed

theorem wildcard_then_bare_literal_never_matches:
  assumes "c \<noteq> CHR ''/''"
  shows "routing_value h pre (matching @ [SingleWildcard]) (Literal (c # lit) # suf) = None"
proof -
  have "match_all (Literal (c # lit) # suf) pos' s' = None"
    if "match_all (matching @ [SingleWildcard]) pos s = Some (end_pos, s')" for pos pos' s s' end_pos
  proof -
    from that obtain q t where "match_all [SingleWildcard] q t = Some (end_pos, s')"
      by (auto simp: match_all_append Option.bind_eq_Some_conv simp del: match_size.simps)
    then obtain n where "match_size SingleWildcard t = Some n" "s' = drop n t"
      by (auto split: option.splits simp del: match_size.simps)
    with dropped_wildcard assms show ?thesis by simp
  qed
  then have "\<not> routing_value h pre (matching @ [SingleWildcard]) (Literal (c # lit) # suf) = Some v" for v
    by (auto simp: routing_value_def Option.bind_eq_Some_conv simp del: match_all.simps)
  then show ?thesis by (cases "routing_value h pre (matching @ [SingleWildcard]) (Literal (c # lit) # suf)") auto
qed

lemma wildcard_then_bare_literal_never_matches_witness:
  "routing_value (Some ''projects/_/buckets/b/managedFolders/f'') []
     ([Literal ''projects/'', SingleWildcard, Literal ''/buckets/''] @ [SingleWildcard])
     [Literal ''managedFolders'', TrailingMultiWildcard] = None"
  by (rule wildcard_then_bare_literal_never_matches) simp

section \<open>Path parameters\<close>

definition try_match :: "string option \<Rightarrow> segment list \<Rightarrow> string option" where
  "try_match s template = routing_value s [] template []"

datatype substitution_fail = Unset | UnsetExpecting string | MismatchExpecting string string

definition maybe_error :: "string option \<Rightarrow> segment list \<Rightarrow> string \<Rightarrow> substitution_fail option" where
  "maybe_error s template expecting =
     (case s of
        None \<Rightarrow> Some (UnsetExpecting expecting)
      | Some x \<Rightarrow>
          if x = [] then Some (UnsetExpecting expecting)
          else if try_match (Some x) template = None then Some (MismatchExpecting x expecting)
          else None)"

text \<open>Fields of other types are only set or not.\<close>

datatype path_field = StringField "string option" | OtherField bool

fun field_matches :: "path_field \<Rightarrow> segment list \<Rightarrow> bool" where
  "field_matches (StringField s) template \<longleftrightarrow> try_match s template \<noteq> None"
| "field_matches (OtherField present) template \<longleftrightarrow> present"

fun field_error :: "path_field \<Rightarrow> segment list \<Rightarrow> string \<Rightarrow> substitution_fail option" where
  "field_error (StringField s) template expecting = maybe_error s template expecting"
| "field_error (OtherField present) template expecting = (if present then None else Some Unset)"

record substitution_mismatch =
  sm_field_name :: string
  sm_problem :: substitution_fail

type_synonym path_mismatch = "substitution_mismatch list"

definition maybe_add :: "path_field \<Rightarrow> segment list \<Rightarrow> string \<Rightarrow> string \<Rightarrow> path_mismatch \<Rightarrow> path_mismatch" where
  "maybe_add s template field_name expecting pm =
     (case field_error s template expecting of
        Some problem \<Rightarrow> pm @ [\<lparr>sm_field_name = field_name, sm_problem = problem\<rparr>]
      | None \<Rightarrow> pm)"

text \<open>
  A variable of a path: the field of the request, its template, its name and the template in words. Generated
  code tries its paths in order, and if none matches reports every variable that does not.
\<close>

record path_variable =
  pv_field :: path_field
  pv_template :: "segment list"
  pv_name :: string
  pv_expecting :: string

definition path_matches :: "path_variable list \<Rightarrow> bool" where
  "path_matches vs \<longleftrightarrow> list_all (\<lambda>v. field_matches (pv_field v) (pv_template v)) vs"

definition path_mismatch_of :: "path_variable list \<Rightarrow> path_mismatch" where
  "path_mismatch_of vs =
     fold (\<lambda>v. maybe_add (pv_field v) (pv_template v) (pv_name v) (pv_expecting v)) vs []"

fun first_path :: "nat \<Rightarrow> path_variable list list \<Rightarrow> nat option" where
  "first_path n [] = None"
| "first_path n (path # paths) = (if path_matches path then Some n else first_path (n + 1) paths)"

definition bind_request :: "path_variable list list \<Rightarrow> (path_mismatch list, nat) result" where
  "bind_request paths =
     (case first_path 0 paths of Some n \<Rightarrow> Ok n | None \<Rightarrow> Err (map path_mismatch_of paths))"

lemma field_error_iff: "field_error s template expecting = None \<longleftrightarrow> field_matches s template"
proof (cases s)
  case (StringField x)
  have "try_match (Some []) template = None"
    by (cases "match_all template 0 []") (auto simp: try_match_def routing_value_def dest!: match_all_sound)
  then show ?thesis using StringField
    by (auto simp: maybe_error_def try_match_def routing_value_def split: option.splits)
qed simp

lemma field_error_Some: "field_error s template expecting = Some p \<Longrightarrow> \<not> field_matches s template"
  using field_error_iff [of s template expecting] by simp

lemma path_mismatch_of_eq:
  "path_mismatch_of vs = List.map_filter (\<lambda>v. map_option (\<lambda>problem. \<lparr>sm_field_name = pv_name v, sm_problem = problem\<rparr>)
     (field_error (pv_field v) (pv_template v) (pv_expecting v))) vs"
proof -
  have "fold (\<lambda>v. maybe_add (pv_field v) (pv_template v) (pv_name v) (pv_expecting v)) vs pm =
    pm @ List.map_filter (\<lambda>v. map_option (\<lambda>problem. \<lparr>sm_field_name = pv_name v, sm_problem = problem\<rparr>)
      (field_error (pv_field v) (pv_template v) (pv_expecting v))) vs" for pm
    by (induction vs arbitrary: pm) (auto simp: maybe_add_def List.map_filter_simps split: option.splits)
  then show ?thesis by (simp add: path_mismatch_of_def)
qed

lemma first_path_Some: "first_path n paths = Some k \<Longrightarrow> n \<le> k \<and> k - n < length paths \<and> path_matches (paths ! (k - n)) \<and>
    (\<forall>j<k - n. \<not> path_matches (paths ! j))"
proof (induction paths arbitrary: n)
  case (Cons path paths)
  show ?case
  proof (cases "path_matches path")
    case False
    with Cons.prems Cons.IH [of "n + 1"] have "n + 1 \<le> k \<and> k - (n + 1) < length paths \<and> path_matches (paths ! (k - (n + 1))) \<and>
      (\<forall>j<k - (n + 1). \<not> path_matches (paths ! j))" by simp
    moreover from this have "k - n = Suc (k - (n + 1))" by linarith
    ultimately show ?thesis using False by (auto simp: nth_Cons' less_Suc_eq_0_disj)
  qed (use Cons.prems in auto)
qed simp

lemma first_path_None: "first_path n paths = None \<longleftrightarrow> list_all (\<lambda>p. \<not> path_matches p) paths"
  by (induction paths arbitrary: n) auto

text \<open>
  A request is bound to the first of its paths all of whose variables match. If there is none, the error
  explains it: it has one entry for every path, in order, and each names exactly the variables that do not match,
  at least one.\<close>

theorem bind_request_explains:
  "case bind_request paths of
     Ok n \<Rightarrow> n < length paths \<and> path_matches (paths ! n) \<and> (\<forall>j<n. \<not> path_matches (paths ! j))
   | Err pms \<Rightarrow>
       length pms = length paths \<and>
       (\<forall>i<length paths. map sm_field_name (pms ! i) =
          map pv_name (filter (\<lambda>v. \<not> field_matches (pv_field v) (pv_template v)) (paths ! i)) \<and> pms ! i \<noteq> [])"
proof (cases "first_path 0 paths")
  case (Some n)
  from first_path_Some [OF this] Some show ?thesis by (simp add: bind_request_def)
next
  case None
  then have none: "list_all (\<lambda>p. \<not> path_matches p) paths" by (simp add: first_path_None)
  have names: "map sm_field_name (path_mismatch_of vs) =
    map pv_name (filter (\<lambda>v. \<not> field_matches (pv_field v) (pv_template v)) vs)" for vs
    unfolding path_mismatch_of_eq
    by (induction vs) (auto simp: List.map_filter_simps field_error_iff dest: field_error_Some split: option.splits)
  have "path_mismatch_of vs \<noteq> []" if "\<not> path_matches vs" for vs
  proof
    assume "path_mismatch_of vs = []"
    with names [of vs] have "list_all (\<lambda>v. field_matches (pv_field v) (pv_template v)) vs"
      by (auto simp: list_all_iff filter_empty_conv)
    with that show False by (simp add: path_matches_def)
  qed
  with None none names show ?thesis by (auto simp: bind_request_def list_all_length)
qed

subsection \<open>Messages\<close>

fun sub_display :: "substitution_mismatch \<Rightarrow> string" where
  "sub_display m =
     (case sm_problem m of
        Unset \<Rightarrow> ''field `'' @ sm_field_name m @ ''` needs to be set.''
      | UnsetExpecting expected \<Rightarrow>
          ''field `'' @ sm_field_name m @ ''` needs to be set and match the template: '' @ [CHR 0x27] @ expected @ [CHR 0x27]
      | MismatchExpecting actual expected \<Rightarrow>
          ''field `'' @ sm_field_name m @ ''` should match the template: '' @ [CHR 0x27] @ expected @ [CHR 0x27] @ ''; found: '' @
          [CHR 0x27] @ actual @ [CHR 0x27])"

fun join_sep :: "string \<Rightarrow> string list \<Rightarrow> string" where
  "join_sep sep [] = []"
| "join_sep sep [x] = x"
| "join_sep sep (x # xs) = x @ sep @ join_sep sep xs"

definition path_display :: "path_mismatch \<Rightarrow> string" where
  "path_display pm = join_sep '' AND '' (map sub_display pm)"

definition binding_display :: "path_mismatch list \<Rightarrow> string" where
  "binding_display paths =
     (if length paths = 1 then path_display (hd paths)
      else ''at least one of the conditions must be met: '' @
        join_sep '' OR '' (map (\<lambda>(i, pm). ''('' @ dec (i + 1) @ '') '' @ path_display pm) (List.enumerate 0 paths)))"

section \<open>Routing headers\<close>

text \<open>The encoding of keys and values: it can be undone, and its text has no separator.\<close>

locale url_encoding =
  fixes enc :: "string \<Rightarrow> string" and undo :: "string \<Rightarrow> string"
  assumes undo_enc: "undo (enc s) = s"
    and enc_clean: "CHR ''&'' \<notin> set (enc s)" "CHR ''='' \<notin> set (enc s)"

definition format_pair :: "(string \<Rightarrow> string) \<Rightarrow> string \<times> string \<Rightarrow> string" where
  "format_pair enc kv = enc (fst kv) @ ''='' @ enc (snd kv)"

definition format_params :: "(string \<Rightarrow> string) \<Rightarrow> (string \<times> string) option list \<Rightarrow> string" where
  "format_params enc ms =
     foldl (\<lambda>acc v. if acc = [] then v else acc @ ''&'' @ v) [] (map (format_pair enc) (List.map_filter id ms))"

text \<open>How a server reads the header.\<close>

definition parse_pair :: "(string \<Rightarrow> string) \<Rightarrow> string \<Rightarrow> string \<times> string" where
  "parse_pair undo s =
     (undo (takeWhile (\<lambda>c. c \<noteq> CHR ''='') s), undo (tl (dropWhile (\<lambda>c. c \<noteq> CHR ''='') s)))"

definition parse_params :: "(string \<Rightarrow> string) \<Rightarrow> string \<Rightarrow> (string \<times> string) list" where
  "parse_params undo s = (if s = [] then [] else map (parse_pair undo) (split_on CHR ''&'' s))"

lemma split_on_clean: "c \<notin> set s \<Longrightarrow> split_on c s = [s]"
  by (induction s) auto

lemma split_on_append: "c \<notin> set s \<Longrightarrow> split_on c (s @ c # t) = s # split_on c t"
  by (induction s) auto

lemma split_join: "\<forall>x\<in>set xs. c \<notin> set x \<Longrightarrow> xs \<noteq> [] \<Longrightarrow> split_on c (join_sep [c] xs) = xs"
  by (induction "[c]" xs rule: join_sep.induct) (auto simp: split_on_clean split_on_append)

lemma foldl_join:
  "\<forall>x\<in>set xs. x \<noteq> [] \<Longrightarrow> acc \<noteq> [] \<Longrightarrow>
   foldl (\<lambda>acc v. if acc = [] then v else acc @ ''&'' @ v) acc xs = join_sep ''&'' (acc # xs)"
proof (induction xs arbitrary: acc)
  case (Cons x xs)
  with Cons.IH [of "acc @ ''&'' @ x"] show ?case by (cases xs) auto
qed simp

context url_encoding
begin

lemma pair_roundtrip: "parse_pair undo (format_pair enc kv) = kv"
proof -
  have "takeWhile (\<lambda>c. c \<noteq> CHR ''='') (enc (fst kv) @ ''='' @ enc (snd kv)) = enc (fst kv)"
    "dropWhile (\<lambda>c. c \<noteq> CHR ''='') (enc (fst kv) @ ''='' @ enc (snd kv)) = ''='' @ enc (snd kv)"
    using enc_clean(2) by (auto simp: takeWhile_append takeWhile_eq_all_conv dropWhile_append dropWhile_eq_Nil_conv)
  then show ?thesis by (simp add: parse_pair_def format_pair_def undo_enc)
qed

lemma params_roundtrip: "parse_params undo (format_params enc ms) = List.map_filter id ms"
proof (cases "List.map_filter id ms")
  case Nil
  then show ?thesis by (simp add: format_params_def parse_params_def)
next
  case (Cons kv kvs)
  let ?xs = "map (format_pair enc) (kv # kvs)"
  have ne: "\<forall>x\<in>set ?xs. x \<noteq> []" by (auto simp: format_pair_def)
  have clean: "\<forall>x\<in>set ?xs. CHR ''&'' \<notin> set x" using enc_clean by (auto simp: format_pair_def)
  have "format_params enc ms = join_sep ''&'' ?xs"
    using foldl_join [of "map (format_pair enc) kvs" "format_pair enc kv"] ne Cons by (simp add: format_params_def)
  moreover have "join_sep ''&'' ?xs \<noteq> []" using ne by (cases kvs) auto
  ultimately show ?thesis using split_join [OF clean] Cons by (simp add: parse_params_def pair_roundtrip o_def)
qed

end

subsection \<open>Percent encoding\<close>

text \<open>
  What \<open>utf8_percent_encode\<close> is documented to do with the set \<open>UNRESERVED\<close>: letters, digits and four marks
  stay, every other byte becomes a percent sign and two hexadecimal digits.
\<close>

definition unreserved :: "char \<Rightarrow> bool" where
  "unreserved c \<longleftrightarrow>
     (let n = of_char c :: nat in 48 \<le> n \<and> n \<le> 57 \<or> 65 \<le> n \<and> n \<le> 90 \<or> 97 \<le> n \<and> n \<le> 122) \<or> c \<in> set ''-._~''"

definition hex_char :: "nat \<Rightarrow> char" where
  "hex_char n = (if n < 10 then char_of (48 + n) else char_of (55 + n))"

definition hex_value :: "char \<Rightarrow> nat" where
  "hex_value c = (let n = of_char c in if n < 58 then n - 48 else n - 55)"

definition percent_char :: "char \<Rightarrow> string" where
  "percent_char c = (if unreserved c then [c] else [CHR ''%'', hex_char (of_char c div 16), hex_char (of_char c mod 16)])"

definition percent_encode :: "string \<Rightarrow> string" where
  "percent_encode s = concat (map percent_char s)"

fun percent_decode :: "string \<Rightarrow> string" where
  "percent_decode (c # a # b # s) =
     (if c = CHR ''%'' then char_of (hex_value a * 16 + hex_value b) # percent_decode s else c # percent_decode (a # b # s))"
| "percent_decode s = s"

lemma percent_decode_plain: "c \<noteq> CHR ''%'' \<Longrightarrow> percent_decode (c # s) = c # percent_decode s"
  by (cases s rule: percent_decode.cases) auto

lemma of_char_small: "of_char c < (256 :: nat)"
  by (metis mod_less_divisor of_char_mod_256 zero_less_numeral)

lemma hex_roundtrip:
  assumes "n < 16"
  shows "hex_value (hex_char n) = n" "hex_char n \<noteq> CHR ''&''" "hex_char n \<noteq> CHR ''=''"
proof -
  show "hex_value (hex_char n) = n" using assms by (auto simp: hex_value_def hex_char_def Let_def)
  show "hex_char n \<noteq> CHR ''&''" "hex_char n \<noteq> CHR ''=''" using assms
    by (auto simp: hex_char_def dest!: arg_cong [of _ _ "of_char :: char \<Rightarrow> nat"])
qed

lemma hex_digits: "(of_char c :: nat) div 16 < 16" "(of_char c :: nat) mod 16 < 16"
  using of_char_small [of c] by (auto intro: less_mult_imp_div_less)

lemma percent_decode_char: "percent_decode (percent_char c @ s) = c # percent_decode s"
proof (cases "unreserved c")
  case True
  then have "c \<noteq> CHR ''%''" by (auto simp: unreserved_def)
  with True show ?thesis by (simp add: percent_char_def percent_decode_plain)
next
  case False
  then show ?thesis using hex_digits by (simp add: percent_char_def hex_roundtrip)
qed

lemma percent_char_clean: "CHR ''&'' \<notin> set (percent_char c) \<and> CHR ''='' \<notin> set (percent_char c)"
  using hex_roundtrip(2,3) [OF hex_digits(1) [of c], THEN not_sym] hex_roundtrip(2,3) [OF hex_digits(2) [of c], THEN not_sym]
  by (auto simp: percent_char_def unreserved_def)

interpretation pe: url_encoding percent_encode percent_decode
proof
  show "percent_decode (percent_encode s) = s" for s
    by (induction s) (simp_all add: percent_encode_def percent_decode_char)
  show "CHR ''&'' \<notin> set (percent_encode s)" "CHR ''='' \<notin> set (percent_encode s)" for s
    using percent_char_clean by (auto simp: percent_encode_def)
qed

text \<open>
  Routing headers can be read back: with any encoding that can be undone and that leaves no separators, as
  percent encoding is, splitting the header at the separators gives exactly the pairs that were formatted, in order.\<close>

theorem routing_header_roundtrip:
  assumes "url_encoding enc undo"
  shows "parse_params undo (format_params enc ms) = List.map_filter id ms"
  using assms by (rule url_encoding.params_roundtrip)

theorem routing_header_roundtrip_witness:
  "format_params percent_encode [Some (''bucket'', ''projects/_''), None, Some (''source'', ''a&b'')] =
     ''bucket=projects%2F_&source=a%26b'' \<and>
   parse_params percent_decode ''bucket=projects%2F_&source=a%26b'' = [(''bucket'', ''projects/_''), (''source'', ''a&b'')]"
proof -
  let ?ms = "[Some (''bucket'', ''projects/_''), None, Some (''source'', ''a&b'')]"
  have f: "format_params percent_encode ?ms = ''bucket=projects%2F_&source=a%26b''" by code_simp
  have "url_encoding percent_encode percent_decode" ..
  from routing_header_roundtrip [OF this, of ?ms] f show ?thesis by (simp add: List.map_filter_simps)
qed

theorem routing_value_meaning_witness:
  "routing_value (Some ''projects/p/locations/l/instances/i/tables'')
     [Literal ''projects/'', SingleWildcard, Literal ''/locations/'', SingleWildcard, Literal ''/'']
     [Literal ''instances/'', SingleWildcard] [Literal ''/tables'', TrailingMultiWildcard] = Some ''instances/i''"
proof -
  let ?pre = "[Literal ''projects/'', SingleWildcard, Literal ''/locations/'', SingleWildcard, Literal ''/'']"
    and ?m = "[Literal ''instances/'', SingleWildcard]" and ?suf = "[Literal ''/tables'', TrailingMultiWildcard]"
  have d: "delimited (?pre @ ?m @ ?suf)" by simp
  have "matches ?pre ''projects/p/locations/l/''" unfolding matches_def
    by (intro exI [of _ "[''projects/'', ''p'', ''/locations/'', ''l'', ''/'']"]) simp
  moreover have "matches ?m ''instances/i''" unfolding matches_def
    by (intro exI [of _ "[''instances/'', ''i'']"]) simp
  moreover have "matches ?suf ''/tables''" unfolding matches_def
    by (intro exI [of _ "[''/tables'', '''']"]) simp
  moreover have "''projects/p/locations/l/instances/i/tables'' = ''projects/p/locations/l/'' @ ''instances/i'' @ ''/tables''" by simp
  ultimately show ?thesis
    using routing_value_meaning [THEN conjunct2, rule_format, OF d, of "''instances/i''"] by blast
qed

section \<open>The host of a request\<close>

text \<open>The parser of URIs; a parsed URI has its text, perhaps a scheme, and perhaps a host.\<close>

record uri =
  ur_text :: string
  ur_scheme :: "string option"
  ur_host :: "string option"

datatype host_error = InvalidUri string | MissingAuthority string

definition strip_suffix :: "string \<Rightarrow> string \<Rightarrow> string option" where
  "strip_suffix suf s =
     (if length suf \<le> length s \<and> drop (length s - length suf) s = suf then Some (take (length s - length suf) s) else None)"

definition DEFAULT_UNIVERSE_DOMAIN :: string where "DEFAULT_UNIVERSE_DOMAIN = ''googleapis.com''"

definition service_at_universe ::
  "(string \<Rightarrow> uri option) \<Rightarrow> string option \<Rightarrow> string \<Rightarrow> string \<Rightarrow> (host_error, uri \<times> string) result" where
  "service_at_universe parse scheme service universe_domain =
     (let host = service @ ''.'' @ universe_domain;
          s = (case scheme of Some sc \<Rightarrow> sc @ ''://'' @ host | None \<Rightarrow> host)
      in case parse s of None \<Rightarrow> Err (InvalidUri s) | Some origin \<Rightarrow> Ok (origin, host))"

definition locational :: "string \<Rightarrow> string \<Rightarrow> bool" where
  "locational service location \<longleftrightarrow>
     is_some_and (\<lambda>s. s \<noteq> []) (Option.bind (strip_suffix service location) (strip_suffix ''-''))"

definition own_endpoint :: "string \<Rightarrow> string \<Rightarrow> bool" where
  "own_endpoint service pre \<longleftrightarrow>
     (case split_on CHR ''.'' pre of
        [s, _, r] \<Rightarrow> s = service \<and> r = ''rep''
      | [location] \<Rightarrow> locational service location
      | _ \<Rightarrow> False)"

definition custom_origin ::
  "(string \<Rightarrow> uri option) \<Rightarrow> string option \<Rightarrow> string \<Rightarrow> string \<Rightarrow> uri \<Rightarrow> string \<Rightarrow> (host_error, uri \<times> string) result" where
  "custom_origin parse scheme service universe_domain origin host =
     (case (strip_suffix (''.'' @ universe_domain) host, strip_suffix ''.googleapis.com'' host) of
        (Some pre, _) \<Rightarrow>
          if own_endpoint service pre then Ok (origin, host) else service_at_universe parse scheme service universe_domain
      | (None, Some pre) \<Rightarrow>
          if own_endpoint service pre then Ok (origin, host) else service_at_universe parse scheme service DEFAULT_UNIVERSE_DOMAIN
      | (None, None) \<Rightarrow> Ok (origin, host))"

text \<open>A default endpoint without a host panics.\<close>

definition origin_and_header ::
  "(string \<Rightarrow> uri option) \<Rightarrow> string option \<Rightarrow> string \<Rightarrow> string \<Rightarrow> (host_error, uri \<times> string) result run" where
  "origin_and_header parse endpoint default_endpoint universe_domain =
     (case parse default_endpoint of
        None \<Rightarrow> Ret (Err (InvalidUri default_endpoint))
      | Some default_origin \<Rightarrow>
          (case ur_host default_origin of
             None \<Rightarrow> Panic
           | Some default_host \<Rightarrow>
               (case strip_suffix ''.googleapis.com'' default_host of
                  None \<Rightarrow> Ret (Ok (default_origin, default_host))
                | Some service \<Rightarrow>
                    (case endpoint of
                       None \<Rightarrow> Ret (service_at_universe parse (ur_scheme default_origin) service universe_domain)
                     | Some ep \<Rightarrow>
                         (case parse ep of
                            None \<Rightarrow> Ret (Err (InvalidUri ep))
                          | Some origin \<Rightarrow>
                              (case ur_host origin of
                                 None \<Rightarrow> Ret (Err (MissingAuthority ep))
                               | Some host \<Rightarrow>
                                   Ret (custom_origin parse (ur_scheme default_origin) service universe_domain origin host)))))))"

lemma strip_suffix_iff: "strip_suffix suf s = Some pre \<longleftrightarrow> s = pre @ suf"
proof
  assume "strip_suffix suf s = Some pre"
  then have "pre = take (length s - length suf) s" "drop (length s - length suf) s = suf"
    by (auto simp: strip_suffix_def split: if_splits)
  then show "s = pre @ suf" by (metis append_take_drop_id)
qed (simp add: strip_suffix_def)

lemma locational_iff: "locational service location \<longleftrightarrow> (\<exists>region. region \<noteq> [] \<and> location = region @ ''-'' @ service)"
  by (auto simp: locational_def is_some_and_iff Option.bind_eq_Some_conv strip_suffix_iff)

text \<open>
  Requests for a Google endpoint carry the service's own host, unless the endpoint is a regional or locational one of
  that very service; an endpoint elsewhere is used as it is.\<close>

lemma host_of_custom_endpoint:
  assumes "origin_and_header parse (Some endpoint) default_endpoint universe = Ret (Ok (origin, header))"
    and "parse default_endpoint = Some d" "ur_host d = Some (service @ ''.googleapis.com'')"
    and "parse endpoint = Some c" "ur_host c = Some host"
  shows "header = host \<and> origin = c \<or>
    (header = service @ ''.'' @ universe \<or> header = service @ ''.googleapis.com'') \<and>
    (\<exists>pre. \<not> own_endpoint service pre \<and> (host = pre @ ''.'' @ universe \<or> host = pre @ ''.googleapis.com''))"
proof -
  have "strip_suffix ''.googleapis.com'' (service @ ''.googleapis.com'') = Some service" by (simp add: strip_suffix_iff)
  with assms have "custom_origin parse (ur_scheme d) service universe c host = Ok (origin, header)"
    by (simp add: origin_and_header_def)
  then show ?thesis
    by (auto simp: custom_origin_def service_at_universe_def DEFAULT_UNIVERSE_DOMAIN_def strip_suffix_iff Let_def
      split: option.splits if_splits)
qed

section \<open>Query parameters\<close>

text \<open>\<open>QueryParameter::add\<close> on JSON values; the builder is the list of its query pairs, a number is its text.\<close>

datatype query_json =
    QNull
  | QBool bool
  | QNumber string
  | QString string
  | QArray "query_json list"
  | QObject "(string \<times> query_json) list"

fun add_query :: "query_json \<Rightarrow> string \<Rightarrow> (string \<times> string) list \<Rightarrow> (string \<times> string) list" where
  "add_query QNull name builder = builder"
| "add_query (QBool b) name builder = builder @ [(name, if b then ''true'' else ''false'')]"
| "add_query (QNumber n) name builder = builder @ [(name, n)]"
| "add_query (QString s) name builder = builder @ [(name, s)]"
| "add_query (QArray vs) name builder = fold (\<lambda>v b. add_query v name b) vs builder"
| "add_query (QObject kvs) name builder = fold (\<lambda>kv b. add_query (snd kv) (name @ ''.'' @ fst kv) b) kvs builder"

text \<open>The leaves of a value, with their paths.\<close>

fun json_leaves :: "query_json \<Rightarrow> (string \<times> string) list" where
  "json_leaves QNull = []"
| "json_leaves (QBool b) = [([], if b then ''true'' else ''false'')]"
| "json_leaves (QNumber n) = [([], n)]"
| "json_leaves (QString s) = [([], s)]"
| "json_leaves (QArray vs) = concat (map json_leaves vs)"
| "json_leaves (QObject kvs) = concat (map (\<lambda>kv. map (\<lambda>(p, t). (''.'' @ fst kv @ p, t)) (json_leaves (snd kv))) kvs)"

text \<open>Every leaf of a value is added once, in order, under its full path; nothing else is.\<close>

lemma fold_appends:
  assumes "\<And>x b. x \<in> set xs \<Longrightarrow> f x b = b @ g x"
  shows "fold f xs b = b @ concat (map g xs)"
  using assms by (induction xs arbitrary: b) auto

lemma query_has_every_leaf: "add_query v name b = b @ map (\<lambda>(p, t). (name @ p, t)) (json_leaves v)"
proof (induction v arbitrary: name b rule: json_leaves.induct)
  case (5 vs)
  have "fold (\<lambda>v b. add_query v name b) vs b = b @ concat (map (\<lambda>v. map (\<lambda>(p, t). (name @ p, t)) (json_leaves v)) vs)"
    by (rule fold_appends) (rule 5)
  then show ?case by (simp add: map_concat o_def)
next
  case (6 kvs)
  have "fold (\<lambda>kv b. add_query (snd kv) (name @ ''.'' @ fst kv) b) kvs b =
    b @ concat (map (\<lambda>kv. map (\<lambda>(p, t). ((name @ ''.'' @ fst kv) @ p, t)) (json_leaves (snd kv))) kvs)"
    by (rule fold_appends) (rule 6)
  then show ?case by (simp add: map_concat o_def case_prod_unfold)
qed auto

end
