(* ===== verification/Bigquery_Write.thy ===== *)
theory Bigquery_Write
  imports Client_Policies "HOL-Library.Multiset"
begin

text \<open>
  The writers of the BigQuery Storage Write API, \<open>bigquery/src/write\<close>: the optimizer that leaves out
  what a stream knows already (\<open>optimizer.rs\<close>), the task of a stream, which gives responses to the writes
  they belong to (\<open>runner.rs\<close>), the load of a stream (\<open>entry.rs\<close>) and the pool of streams (\<open>pool.rs\<close>).

  Schemas and rows are their bytes. The load of a stream, a quotient of floating point numbers, is a parameter
  of any linear order; so is whether a stream's task has ended. Stream ids are counted without wrapping, and an
  id is the count as a \<open>u64\<close>.
\<close>

section \<open>Requests and the optimizer\<close>

datatype row_data = ArrowRows "string option" string | ProtoRows "string option" string

record append_request =
  aq_write_stream :: string
  aq_rows :: "row_data option"
  aq_offset :: "int option"
  aq_trace_id :: string

datatype writer_schema = ArrowSchema string | ProtoSchema string

record send_optimizer =
  so_prev_write_stream :: string
  so_prev_schema :: "writer_schema option"
  so_keep_write_stream :: bool

definition extract_schema :: "append_request \<Rightarrow> writer_schema option" where
  "extract_schema req =
     (case aq_rows req of
        None \<Rightarrow> None
      | Some (ArrowRows schema _) \<Rightarrow> map_option ArrowSchema schema
      | Some (ProtoRows schema _) \<Rightarrow> map_option ProtoSchema schema)"

definition same_schema :: "append_request \<Rightarrow> writer_schema option \<Rightarrow> bool" where
  "same_schema req prev \<longleftrightarrow>
     (case (aq_rows req, prev) of
        (Some (ArrowRows d _), Some (ArrowSchema s)) \<Rightarrow> d = Some s
      | (Some (ProtoRows d _), Some (ProtoSchema s)) \<Rightarrow> d = Some s
      | _ \<Rightarrow> False)"

fun set_schema :: "string option \<Rightarrow> row_data \<Rightarrow> row_data" where
  "set_schema s (ArrowRows _ d) = ArrowRows s d"
| "set_schema s (ProtoRows _ d) = ProtoRows s d"

definition clear_schema :: "append_request \<Rightarrow> append_request" where
  "clear_schema req = req\<lparr>aq_rows := map_option (set_schema None) (aq_rows req)\<rparr>"

definition optimizer_new :: "append_request \<Rightarrow> send_optimizer" where
  "optimizer_new req =
     \<lparr>so_prev_write_stream = aq_write_stream req, so_prev_schema = extract_schema req, so_keep_write_stream = False\<rparr>"

definition optimize :: "append_request \<Rightarrow> send_optimizer \<Rightarrow> append_request \<times> send_optimizer" where
  "optimize req s =
     (if aq_write_stream req = so_prev_write_stream s \<and> same_schema req (so_prev_schema s) then
        (clear_schema (if so_keep_write_stream s then req else req\<lparr>aq_write_stream := []\<rparr>), s)
      else (req, s\<lparr>so_keep_write_stream := True, so_prev_write_stream := aq_write_stream req, so_prev_schema := extract_schema req\<rparr>))"

text \<open>The first request goes out as it is, the others through the optimizer.\<close>

fun optimize_rest :: "append_request list \<Rightarrow> send_optimizer \<Rightarrow> append_request list" where
  "optimize_rest [] s = []"
| "optimize_rest (r # rs) s = (case optimize r s of (r', s') \<Rightarrow> r' # optimize_rest rs s')"

fun optimize_stream :: "append_request list \<Rightarrow> append_request list" where
  "optimize_stream [] = []"
| "optimize_stream (r # rs) = r # optimize_rest rs (optimizer_new r)"

subsection \<open>The service's side\<close>

text \<open>
  What the specification of \<open>AppendRowsRequest\<close>, as the comment of \<open>SendOptimizer\<close> has it, lets the service do:
  it remembers the last write stream and schema; an absent schema is the last one; an absent write stream is the
  last one too, but only while the stream has never switched. Anything else it refuses.
\<close>

record stream_reader =
  sr_write_stream :: string
  sr_schema :: "writer_schema option"
  sr_switched :: bool

definition fill_schema :: "writer_schema option \<Rightarrow> row_data \<Rightarrow> row_data option" where
  "fill_schema known rows =
     (case (rows, known) of
        (ArrowRows None d, Some (ArrowSchema s)) \<Rightarrow> Some (ArrowRows (Some s) d)
      | (ProtoRows None d, Some (ProtoSchema s)) \<Rightarrow> Some (ProtoRows (Some s) d)
      | (ArrowRows (Some s) d, _) \<Rightarrow> Some (ArrowRows (Some s) d)
      | (ProtoRows (Some s) d, _) \<Rightarrow> Some (ProtoRows (Some s) d)
      | _ \<Rightarrow> None)"

definition service_read :: "append_request \<Rightarrow> stream_reader \<Rightarrow> (append_request \<times> stream_reader) option" where
  "service_read req v =
     (if aq_write_stream req = [] \<and> sr_switched v then None
      else case aq_rows req of
             None \<Rightarrow> None
           | Some rows \<Rightarrow>
               (case fill_schema (sr_schema v) rows of
                  None \<Rightarrow> None
                | Some rows' \<Rightarrow>
                    (let full = req\<lparr>aq_write_stream := (if aq_write_stream req = [] then sr_write_stream v else aq_write_stream req),
                       aq_rows := Some rows'\<rparr>
                     in Some (full, \<lparr>sr_write_stream = aq_write_stream full, sr_schema = extract_schema full,
                          sr_switched = (sr_switched v \<or> aq_write_stream full \<noteq> sr_write_stream v \<or> extract_schema full \<noteq> sr_schema v)\<rparr>))))"

fun read_rest :: "append_request list \<Rightarrow> stream_reader \<Rightarrow> append_request list option" where
  "read_rest [] v = Some []"
| "read_rest (r # rs) v =
     (case service_read r v of
        None \<Rightarrow> None
      | Some (full, v') \<Rightarrow> map_option (\<lambda>rest. full # rest) (read_rest rs v'))"

definition complete_request :: "append_request \<Rightarrow> bool" where
  "complete_request req \<longleftrightarrow> aq_write_stream req \<noteq> [] \<and> extract_schema req \<noteq> None"

fun read_stream :: "append_request list \<Rightarrow> append_request list option" where
  "read_stream [] = Some []"
| "read_stream (r # rs) =
     (if complete_request r then map_option (\<lambda>rest. r # rest)
        (read_rest rs \<lparr>sr_write_stream = aq_write_stream r, sr_schema = extract_schema r, sr_switched = False\<rparr>)
      else None)"

text \<open>The optimizer knows what the service knows.\<close>

definition in_sync :: "send_optimizer \<Rightarrow> stream_reader \<Rightarrow> bool" where
  "in_sync s v \<longleftrightarrow> so_prev_write_stream s = sr_write_stream v \<and> so_prev_schema s = sr_schema v \<and>
     so_keep_write_stream s = sr_switched v"

lemma same_schema_iff: "complete_request req \<Longrightarrow> same_schema req prev \<longleftrightarrow> extract_schema req = prev"
  by (auto simp: complete_request_def same_schema_def extract_schema_def split: option.splits row_data.splits writer_schema.splits)

lemma complete_rows:
  assumes "complete_request req"
  obtains s d where "aq_rows req = Some (ArrowRows (Some s) d)" | s d where "aq_rows req = Some (ProtoRows (Some s) d)"
  using assms by (auto simp: complete_request_def extract_schema_def split: option.splits row_data.splits)

lemma optimize_understood:
  assumes "complete_request req" "in_sync s v" "optimize req s = (req', s')"
  shows "\<exists>v'. service_read req' v = Some (req, v') \<and> in_sync s' v'"
proof -
  have ws: "aq_write_stream req \<noteq> []" using assms(1) by (simp add: complete_request_def)
  note defs = optimize_def in_sync_def same_schema_iff service_read_def clear_schema_def fill_schema_def extract_schema_def Let_def
  show ?thesis using assms(1)
    by (cases rule: complete_rows; cases req; cases s; cases v) (use assms ws in \<open>auto simp: defs split: if_splits\<close>)
qed

lemma optimize_rest_understood:
  "list_all complete_request rs \<Longrightarrow> in_sync s v \<Longrightarrow> read_rest (optimize_rest rs s) v = Some rs"
proof (induction rs arbitrary: s v)
  case (Cons r rs)
  obtain r' s' where o: "optimize r s = (r', s')" by (metis surj_pair)
  from optimize_understood [OF _ Cons.prems(2) o] Cons.prems(1) obtain v'
    where "service_read r' v = Some (r, v')" "in_sync s' v'" by auto
  with Cons.IH [of s' v'] Cons.prems(1) o show ?case by simp
qed simp

text \<open>
  C14. Leaving out fields loses nothing: a service that follows the specification of the stream reads back, from the
  optimized requests, exactly the requests that were written, for every sequence of writes to any streams with any
  schemas.\<close>

theorem optimizer_transparent:
  assumes "list_all complete_request rs"
  shows "read_stream (optimize_stream rs) = Some rs"
proof (cases rs)
  case (Cons r rest)
  have "in_sync (optimizer_new r) \<lparr>sr_write_stream = aq_write_stream r, sr_schema = extract_schema r, sr_switched = False\<rparr>"
    by (simp add: in_sync_def optimizer_new_def)
  from optimize_rest_understood [OF _ this, of rest] assms Cons show ?thesis by simp
qed simp

theorem optimizer_transparent_witness:
  "read_stream (optimize_stream
     [\<lparr>aq_write_stream = ''a'', aq_rows = Some (ArrowRows (Some ''x'') ''1''), aq_offset = None, aq_trace_id = ''t''\<rparr>,
      \<lparr>aq_write_stream = ''a'', aq_rows = Some (ArrowRows (Some ''x'') ''2''), aq_offset = None, aq_trace_id = []\<rparr>,
      \<lparr>aq_write_stream = ''b'', aq_rows = Some (ProtoRows (Some ''y'') ''3''), aq_offset = None, aq_trace_id = []\<rparr>,
      \<lparr>aq_write_stream = ''b'', aq_rows = Some (ProtoRows (Some ''y'') ''4''), aq_offset = None, aq_trace_id = []\<rparr>]) =
   Some [\<lparr>aq_write_stream = ''a'', aq_rows = Some (ArrowRows (Some ''x'') ''1''), aq_offset = None, aq_trace_id = ''t''\<rparr>,
      \<lparr>aq_write_stream = ''a'', aq_rows = Some (ArrowRows (Some ''x'') ''2''), aq_offset = None, aq_trace_id = []\<rparr>,
      \<lparr>aq_write_stream = ''b'', aq_rows = Some (ProtoRows (Some ''y'') ''3''), aq_offset = None, aq_trace_id = []\<rparr>,
      \<lparr>aq_write_stream = ''b'', aq_rows = Some (ProtoRows (Some ''y'') ''4''), aq_offset = None, aq_trace_id = []\<rparr>]"
  by (rule optimizer_transparent) (simp add: complete_request_def extract_schema_def)

section \<open>The task of a stream\<close>

datatype append_error = AppendRpc error | RowErrors status "string list" | UnexpectedEndOfStream

text \<open>
  A sender of a response is a number. The task waits for a first write, opens the stream with it, and then has two
  parts: one registers the sender of each write and forwards its request (\<open>st_held\<close> while the stream does not
  take it), the other gives each message to the sender that has waited longest. A dropped sender shows to its
  client as \<open>UnexpectedEndOfStream\<close>. Two histories record all writes that were submitted, and those taken, in order.
\<close>

datatype stream_phase = FirstWrite | Opening append_request nat | Streaming | Ended

record 'r stream_task =
  st_phase :: stream_phase
  st_inbox :: "(append_request \<times> nat) list"
  st_optimizer :: send_optimizer
  st_held :: "append_request option"
  st_writing :: bool
  st_pending :: "nat list"
  st_sent :: "append_request list"
  st_answers :: "(nat \<times> (append_error, 'r) result) list"
  st_dropped :: "nat list"
  st_submitted :: "nat list"
  st_taken :: "(append_request \<times> nat) list"

definition stream_task_new :: "'r stream_task" where
  "stream_task_new =
     \<lparr>st_phase = FirstWrite, st_inbox = [],
      st_optimizer = \<lparr>so_prev_write_stream = [], so_prev_schema = None, so_keep_write_stream = False\<rparr>,
      st_held = None, st_writing = True, st_pending = [], st_sent = [], st_answers = [], st_dropped = [],
      st_submitted = [], st_taken = []\<rparr>"

datatype 'r stream_step =
    Submit append_request nat
  | TakeFirst string
  | Opened "(error, unit) result"
  | Register
  | Forward bool
  | Message "(error, 'r) result"
  | WritersGone
  | StreamEnd

definition receiving :: "'r stream_task \<Rightarrow> bool" where
  "receiving s \<longleftrightarrow> st_phase s \<noteq> Ended \<and> st_writing s"

text \<open>The receiver of the writes goes away, and the writes in it with it.\<close>

definition drop_inbox :: "'r stream_task \<Rightarrow> 'r stream_task" where
  "drop_inbox s = s\<lparr>st_writing := False, st_held := None, st_dropped := st_dropped s @ map snd (st_inbox s), st_inbox := []\<rparr>"

definition end_task :: "'r stream_task \<Rightarrow> 'r stream_task" where
  "end_task s = (drop_inbox s)\<lparr>st_phase := Ended, st_dropped := st_dropped s @ map snd (st_inbox s) @ st_pending s, st_pending := []\<rparr>"

text \<open>\<open>process_response\<close>.\<close>

definition process_response :: "(error, 'r) result \<Rightarrow> 'r stream_task \<Rightarrow> 'r stream_task" where
  "process_response resp s =
     (case st_pending s of
        [] \<Rightarrow> s
      | tx # rest \<Rightarrow>
          s\<lparr>st_pending := rest,
            st_answers := st_answers s @ [(tx, case resp of Ok r \<Rightarrow> Ok r | Err e \<Rightarrow> Err (AppendRpc e))]\<rparr>)"

text \<open>The first write carries the name of the library. An event that is not possible changes nothing.\<close>

fun stream_task_step :: "'r stream_step \<Rightarrow> 'r stream_task \<Rightarrow> 'r stream_task" where
  "stream_task_step (Submit req tx) s =
     (let s1 = s\<lparr>st_submitted := st_submitted s @ [tx]\<rparr>
      in if receiving s then s1\<lparr>st_inbox := st_inbox s @ [(req, tx)]\<rparr> else s1\<lparr>st_dropped := st_dropped s @ [tx]\<rparr>)"
| "stream_task_step (TakeFirst version) s =
     (case (st_phase s, st_inbox s) of
        (FirstWrite, (req, tx) # rest) \<Rightarrow>
          (let req' = req\<lparr>aq_trace_id := ''rust-writer:'' @ version\<rparr>
           in s\<lparr>st_phase := Opening req' tx, st_inbox := rest, st_taken := [(req', tx)]\<rparr>)
      | _ \<Rightarrow> s)"
| "stream_task_step (Opened r) s =
     (case st_phase s of
        Opening req tx \<Rightarrow>
          (case r of
             Err e \<Rightarrow> end_task (s\<lparr>st_answers := st_answers s @ [(tx, Err (AppendRpc e))]\<rparr>)
           | Ok _ \<Rightarrow> s\<lparr>st_phase := Streaming, st_optimizer := optimizer_new req, st_pending := [tx], st_sent := [req]\<rparr>)
      | _ \<Rightarrow> s)"
| "stream_task_step Register s =
     (case (st_phase s, st_writing s, st_held s, st_inbox s) of
        (Streaming, True, None, (req, tx) # rest) \<Rightarrow>
          (case optimize req (st_optimizer s) of
             (req', opt) \<Rightarrow>
               s\<lparr>st_inbox := rest, st_optimizer := opt, st_pending := st_pending s @ [tx], st_held := Some req',
                 st_taken := st_taken s @ [(req, tx)]\<rparr>)
      | _ \<Rightarrow> s)"
| "stream_task_step (Forward ok) s =
     (case (st_phase s, st_held s) of
        (Streaming, Some req) \<Rightarrow>
          if ok then s\<lparr>st_held := None, st_sent := st_sent s @ [req]\<rparr> else drop_inbox s
      | _ \<Rightarrow> s)"
| "stream_task_step (Message resp) s = (if st_phase s = Streaming then process_response resp s else s)"
| "stream_task_step WritersGone s =
     (case st_phase s of
        FirstWrite \<Rightarrow> if st_inbox s = [] then end_task s else s
      | Streaming \<Rightarrow> if st_inbox s = [] \<and> st_held s = None then drop_inbox s else s
      | _ \<Rightarrow> s)"
| "stream_task_step StreamEnd s = (if st_phase s = Streaming then end_task s else s)"

definition stream_task_run :: "'r stream_step list \<Rightarrow> 'r stream_task \<Rightarrow> 'r stream_task" where
  "stream_task_run events s = fold stream_task_step events s"

subsection \<open>Writes and their responses\<close>

text \<open>Where the senders are: every one of them is in exactly one place.\<close>

definition opening_sender :: "stream_phase \<Rightarrow> nat list" where
  "opening_sender p = (case p of Opening _ tx \<Rightarrow> [tx] | _ \<Rightarrow> [])"

definition accounted :: "'r stream_task \<Rightarrow> bool" where
  "accounted s \<longleftrightarrow>
     mset (st_submitted s) = mset (map fst (st_answers s)) + mset (st_dropped s) + mset (st_pending s) +
       mset (map snd (st_inbox s)) + mset (opening_sender (st_phase s))"

text \<open>Senders are registered in the order of the requests on the stream.\<close>

definition unsent :: "'r stream_task \<Rightarrow> append_request list" where
  "unsent s = (case st_held s of None \<Rightarrow> [] | Some req \<Rightarrow> [req])"

definition in_order :: "'r stream_task \<Rightarrow> bool" where
  "in_order s \<longleftrightarrow>
     (case st_phase s of
        FirstWrite \<Rightarrow> st_taken s = [] \<and> st_answers s = [] \<and> st_pending s = [] \<and> st_sent s = [] \<and> st_held s = None \<and> st_writing s
      | Opening req tx \<Rightarrow>
          st_taken s = [(req, tx)] \<and> st_answers s = [] \<and> st_pending s = [] \<and> st_sent s = [] \<and> st_held s = None \<and> st_writing s
      | Streaming \<Rightarrow>
          map fst (st_answers s) @ st_pending s = map snd (st_taken s) \<and>
          (\<exists>rest. st_sent s @ unsent s @ rest = optimize_stream (map fst (st_taken s)) \<and> (st_writing s \<longrightarrow> rest = []))
      | Ended \<Rightarrow>
          (\<exists>more. map fst (st_answers s) @ more = map snd (st_taken s)) \<and> st_pending s = [] \<and> st_inbox s = [] \<and>
          (\<exists>rest. st_sent s @ rest = optimize_stream (map fst (st_taken s))))"

fun optimizer_after :: "append_request list \<Rightarrow> send_optimizer \<Rightarrow> send_optimizer" where
  "optimizer_after [] opt = opt"
| "optimizer_after (r # rs) opt = optimizer_after rs (snd (optimize r opt))"

lemma optimize_rest_snoc: "optimize_rest (rs @ [r]) opt = optimize_rest rs opt @ [fst (optimize r (optimizer_after rs opt))]"
  by (induction rs arbitrary: opt) (auto split: prod.splits)

lemma optimizer_after_snoc: "optimizer_after (rs @ [r]) opt = snd (optimize r (optimizer_after rs opt))"
  by (induction rs arbitrary: opt) auto

definition optimizer_right :: "'r stream_task \<Rightarrow> bool" where
  "optimizer_right s \<longleftrightarrow>
     (st_phase s = Streaming \<longrightarrow>
       (case map fst (st_taken s) of [] \<Rightarrow> False | r # rs \<Rightarrow> st_optimizer s = optimizer_after rs (optimizer_new r)))"

definition stream_task_ok :: "'r stream_task \<Rightarrow> bool" where
  "stream_task_ok s \<longleftrightarrow> accounted s \<and> in_order s \<and> optimizer_right s"

lemma accounted_step: "accounted s \<Longrightarrow> in_order s \<Longrightarrow> accounted (stream_task_step ev s)"
  by (cases ev)
    (auto simp: accounted_def in_order_def opening_sender_def end_task_def drop_inbox_def process_response_def Let_def
      split: stream_phase.splits list.splits option.splits bool.splits prod.splits result.splits if_splits)

lemma in_order_Streaming:
  "st_phase s = Streaming \<Longrightarrow> in_order s \<longleftrightarrow>
     map fst (st_answers s) @ st_pending s = map snd (st_taken s) \<and>
     (\<exists>rest. st_sent s @ unsent s @ rest = optimize_stream (map fst (st_taken s)) \<and> (st_writing s \<longrightarrow> rest = []))"
  by (simp add: in_order_def)

lemma register_ok:
  assumes "in_order s" "optimizer_right s"
  shows "in_order (stream_task_step Register s) \<and> optimizer_right (stream_task_step Register s)"
proof (cases "st_phase s = Streaming \<and> st_writing s \<and> st_held s = None \<and> st_inbox s \<noteq> []")
  case True
  then obtain req tx rest where ib: "st_inbox s = (req, tx) # rest" by (cases "st_inbox s") auto
  obtain req' opt where o: "optimize req (st_optimizer s) = (req', opt)" by (metis surj_pair)
  from assms(2) True obtain r rs where t: "map fst (st_taken s) = r # rs" "st_optimizer s = optimizer_after rs (optimizer_new r)"
    by (auto simp: optimizer_right_def split: list.splits)
  from assms(1) True have sent: "st_sent s = optimize_stream (map fst (st_taken s))"
    "map fst (st_answers s) @ st_pending s = map snd (st_taken s)"
    by (auto simp: in_order_def unsent_def)
  let ?s = "s\<lparr>st_inbox := rest, st_optimizer := opt, st_pending := st_pending s @ [tx], st_held := Some req',
    st_taken := st_taken s @ [(req, tx)]\<rparr>"
  have s': "stream_task_step Register s = ?s" using True ib o by simp
  have "st_sent ?s @ unsent ?s @ [] = optimize_stream (map fst (st_taken ?s))"
    using sent(1) t o by (simp add: unsent_def optimize_rest_snoc)
  then have "in_order ?s" using True sent(2) by (subst in_order_Streaming) auto
  moreover have "optimizer_right ?s" using t o by (simp add: optimizer_right_def optimizer_after_snoc)
  ultimately show ?thesis unfolding s' ..
next
  case False
  then have "stream_task_step Register s = s" by (auto split: stream_phase.splits bool.splits option.splits list.splits)
  with assms show ?thesis by simp
qed

lemma forward_ok:
  assumes "in_order s" "optimizer_right s"
  shows "in_order (stream_task_step (Forward ok) s) \<and> optimizer_right (stream_task_step (Forward ok) s)"
proof (cases "st_phase s = Streaming \<and> st_held s \<noteq> None")
  case True
  then obtain req where h: "st_held s = Some req" by auto
  from assms(1) True h obtain rest where r: "map fst (st_answers s) @ st_pending s = map snd (st_taken s)"
    "st_sent s @ [req] @ rest = optimize_stream (map fst (st_taken s))" "st_writing s \<longrightarrow> rest = []"
    by (auto simp: in_order_def unsent_def)
  let ?s = "stream_task_step (Forward ok) s"
  have "\<exists>rest. st_sent ?s @ unsent ?s @ rest = optimize_stream (map fst (st_taken ?s)) \<and> (st_writing ?s \<longrightarrow> rest = [])"
    using True h r(2,3) by (cases ok) (auto simp: unsent_def drop_inbox_def)
  moreover have "st_phase ?s = Streaming" "map fst (st_answers ?s) @ st_pending ?s = map snd (st_taken ?s)"
    using True h r(1) by (auto simp: drop_inbox_def)
  moreover have "optimizer_right ?s" using assms(2) True h by (auto simp: optimizer_right_def drop_inbox_def split: list.splits)
  ultimately show ?thesis by (auto simp: in_order_Streaming)
next
  case False
  then have "stream_task_step (Forward ok) s = s" by (auto split: stream_phase.splits option.splits)
  with assms show ?thesis by simp
qed

lemma in_order_step:
  assumes "in_order s" "optimizer_right s"
  shows "in_order (stream_task_step ev s) \<and> optimizer_right (stream_task_step ev s)"
proof (cases ev)
  case Register
  with register_ok [OF assms] show ?thesis by simp
next
  case (Forward ok)
  with forward_ok [OF assms] show ?thesis by simp
qed (use assms in \<open>auto simp: in_order_def optimizer_right_def unsent_def end_task_def drop_inbox_def process_response_def
    receiving_def Let_def split: stream_phase.splits list.splits option.splits result.splits if_splits prod.splits\<close>)

lemma stream_task_ok_run: "stream_task_ok (stream_task_run events stream_task_new)"
proof -
  have "stream_task_ok s \<Longrightarrow> stream_task_ok (stream_task_run events s)" for s :: "'a stream_task"
  proof (induction events arbitrary: s)
    case (Cons ev evs)
    then have "stream_task_ok (stream_task_step ev s)"
      using accounted_step [of s ev] in_order_step [of s ev] by (auto simp: stream_task_ok_def)
    with Cons.IH show ?case by (simp add: stream_task_run_def)
  qed (simp add: stream_task_run_def)
  moreover have "stream_task_ok stream_task_new"
    by (simp add: stream_task_ok_def accounted_def in_order_def optimizer_right_def stream_task_new_def opening_sender_def)
  ultimately show ?thesis .
qed

text \<open>
  What the service said to the writes, read off the events: the error with which it refused to open the stream, or the
  messages that arrived while a write was waiting, each as its client is to see it. A message that arrives when no write
  waits is not an answer to any.
\<close>

definition service_reply :: "'r stream_step \<Rightarrow> 'r stream_task \<Rightarrow> (append_error, 'r) result list" where
  "service_reply ev s =
     (case ev of
        Message (Ok r) \<Rightarrow> if st_phase s = Streaming \<and> st_pending s \<noteq> [] then [Ok r] else []
      | Message (Err e) \<Rightarrow> if st_phase s = Streaming \<and> st_pending s \<noteq> [] then [Err (AppendRpc e)] else []
      | Opened (Err e) \<Rightarrow> if opening_sender (st_phase s) \<noteq> [] then [Err (AppendRpc e)] else []
      | _ \<Rightarrow> [])"

fun service_replies :: "'r stream_step list \<Rightarrow> 'r stream_task \<Rightarrow> (append_error, 'r) result list" where
  "service_replies [] s = []"
| "service_replies (ev # evs) s = service_reply ev s @ service_replies evs (stream_task_step ev s)"

lemma answer_step: "map snd (st_answers (stream_task_step ev s)) = map snd (st_answers s) @ service_reply ev s"
  by (cases ev)
    (auto simp: service_reply_def opening_sender_def end_task_def drop_inbox_def process_response_def Let_def
      split: stream_phase.splits list.splits option.splits bool.splits prod.splits result.splits)

lemma answers_run: "map snd (st_answers (stream_task_run events s)) = map snd (st_answers s) @ service_replies events s"
  unfolding stream_task_run_def by (induction events arbitrary: s) (simp_all add: answer_step)

text \<open>Nothing is dropped as long as writes are received.\<close>

lemma dropped_step:
  "(receiving s \<Longrightarrow> st_dropped s = []) \<Longrightarrow> receiving (stream_task_step ev s) \<Longrightarrow> st_dropped (stream_task_step ev s) = []"
  by (cases ev)
    (auto simp: receiving_def end_task_def drop_inbox_def process_response_def Let_def
      split: stream_phase.splits list.splits option.splits bool.splits prod.splits result.splits if_splits)

lemma dropped_run:
  "(receiving s \<Longrightarrow> st_dropped s = []) \<Longrightarrow> receiving (stream_task_run events s) \<Longrightarrow> st_dropped (stream_task_run events s) = []"
  unfolding stream_task_run_def
proof (induction events arbitrary: s)
  case (Cons ev evs)
  from Cons.IH [of "stream_task_step ev s"] dropped_step [OF Cons.prems(1), of ev] Cons.prems(2) show ?case by simp
qed simp

text \<open>
  C11. Responses reach the writes they belong to. Whatever the clients, the two parts of the task and the service do:
  the requests on the stream are, in order, those of the writes taken; the answers given are exactly what the service
  said, its \<open>n\<close>-th reply given to the \<open>n\<close>-th of these writes; every write that was submitted is answered once,
  or dropped, or still waits; none is dropped as long as the task receives writes; and when the task has ended none
  waits.\<close>

theorem responses_reach_their_writes:
  assumes "s = stream_task_run events stream_task_new"
  shows "st_answers s = zip (map snd (st_taken s)) (service_replies events stream_task_new) \<and>
    length (service_replies events stream_task_new) \<le> length (st_taken s) \<and>
    st_sent s = take (length (st_sent s)) (optimize_stream (map fst (st_taken s))) \<and>
    mset (st_submitted s) = mset (map fst (st_answers s)) + mset (st_dropped s) + mset (st_pending s) +
      mset (map snd (st_inbox s)) + mset (opening_sender (st_phase s)) \<and>
    (receiving s \<longrightarrow> st_dropped s = []) \<and>
    (st_phase s = Ended \<longrightarrow> st_pending s = [] \<and> st_inbox s = [])"
proof -
  have ok: "accounted s" "in_order s" using stream_task_ok_run [of events] by (simp_all add: assms stream_task_ok_def)
  from ok(2) obtain more rest where more: "map fst (st_answers s) @ more = map snd (st_taken s)"
    and rest: "st_sent s @ rest = optimize_stream (map fst (st_taken s))"
    by (cases "st_phase s") (auto simp: in_order_def)
  have said: "map snd (st_answers s) = service_replies events stream_task_new"
    unfolding assms by (simp add: answers_run) (simp add: stream_task_new_def)
  have "st_answers s = zip (map snd (st_taken s)) (service_replies events stream_task_new)"
    unfolding more [symmetric] said [symmetric] by (simp add: zip_append1 zip_map_fst_snd)
  moreover have "length (service_replies events stream_task_new) \<le> length (st_taken s)"
    using arg_cong [OF more, of length] arg_cong [OF said, of length] by simp
  moreover have "st_sent s = take (length (st_sent s)) (optimize_stream (map fst (st_taken s)))"
    unfolding rest [symmetric] by simp
  moreover have "receiving s \<longrightarrow> st_dropped s = []"
    unfolding assms by (intro impI dropped_run) (simp add: stream_task_new_def)
  moreover have "st_phase s = Ended \<longrightarrow> st_pending s = [] \<and> st_inbox s = []" using ok(2) by (cases "st_phase s") (simp_all add: in_order_def)
  ultimately show ?thesis using ok(1) unfolding accounted_def by blast
qed

text \<open>Three writes; the stream breaks with an error after the first answer.\<close>

definition sample_write :: "string \<Rightarrow> append_request" where
  "sample_write d = \<lparr>aq_write_stream = ''a'', aq_rows = Some (ArrowRows (Some ''x'') d), aq_offset = None, aq_trace_id = []\<rparr>"

definition sample_steps :: "nat stream_step list" where
  "sample_steps =
     [Submit (sample_write ''1'') 10, TakeFirst ''1.0'', Submit (sample_write ''2'') 20, Submit (sample_write ''3'') 30,
      Opened (Ok ()), Register, Forward True, Message (Ok 1), Message (Err (service (set_code status_default Unavailable))), StreamEnd]"

theorem responses_reach_their_writes_witness:
  "zip (map snd (st_taken (stream_task_run sample_steps stream_task_new))) (service_replies sample_steps stream_task_new) =
     [(10, Ok 1), (20, Err (AppendRpc (service (set_code status_default Unavailable))))] \<and>
   st_dropped (stream_task_run sample_steps stream_task_new) = [30]"
proof -
  have a: "st_answers (stream_task_run sample_steps stream_task_new) =
     [(10, Ok 1), (20, Err (AppendRpc (service (set_code status_default Unavailable))))]"
    "st_dropped (stream_task_run sample_steps stream_task_new) = [30]"
    by code_simp+
  with responses_reach_their_writes [OF refl, of sample_steps] show ?thesis by simp
qed

section \<open>The load of a stream\<close>

record stream_load =
  outstanding_requests :: u64
  outstanding_bytes :: u64

definition load_guard_new :: "u64 \<Rightarrow> stream_load \<Rightarrow> stream_load" where
  "load_guard_new bytes l =
     \<lparr>outstanding_requests = outstanding_requests l + 1, outstanding_bytes = outstanding_bytes l + bytes\<rparr>"

definition load_guard_drop :: "u64 \<Rightarrow> stream_load \<Rightarrow> stream_load" where
  "load_guard_drop bytes l =
     \<lparr>outstanding_requests = outstanding_requests l - 1, outstanding_bytes = outstanding_bytes l - bytes\<rparr>"

text \<open>The counters after writes have begun and ended in any order, \<open>live\<close> the sizes of those that have not ended.\<close>

inductive load_reachable :: "u64 list \<Rightarrow> stream_load \<Rightarrow> bool" where
  idle: "load_reachable [] \<lparr>outstanding_requests = 0, outstanding_bytes = 0\<rparr>"
| enter: "load_reachable live l \<Longrightarrow> load_reachable (bytes # live) (load_guard_new bytes l)"
| leave: "load_reachable live l \<Longrightarrow> bytes \<in> set live \<Longrightarrow> load_reachable (remove1 bytes live) (load_guard_drop bytes l)"

lemma load_counts_live:
  "load_reachable live l \<Longrightarrow> outstanding_requests l = of_nat (length live) \<and> outstanding_bytes l = sum_list live"
proof (induction rule: load_reachable.induct)
  case (leave live l bytes)
  have "length live = Suc (length (remove1 bytes live))" "sum_list live = bytes + sum_list (remove1 bytes live)"
    using leave.hyps(2) length_pos_if_in_set [OF leave.hyps(2)]
    by (simp_all add: length_remove1 sum_list_map_remove1 [of _ _ id, simplified] del: length_greater_0_conv)
  with leave show ?case by (simp add: load_guard_drop_def)
qed (simp_all add: load_guard_new_def algebra_simps)

section \<open>The pool of streams\<close>

record stream_pool =
  pl_created :: nat
  pl_streams :: "u64 list"
  pl_max_streams :: nat

definition stream_pool_new :: "nat \<Rightarrow> stream_pool" where
  "stream_pool_new max_streams = \<lparr>pl_created = 1, pl_streams = [], pl_max_streams = max_streams\<rparr>"

text \<open>What the pool sees of its streams: whether they have ended, their load, and whether it is above the threshold.\<close>

record 'l pool_view =
  vw_closed :: "u64 \<Rightarrow> bool"
  vw_load :: "u64 \<Rightarrow> 'l"
  vw_is_loaded :: "u64 \<Rightarrow> bool"

definition new_stream_entry :: "stream_pool \<Rightarrow> u64 \<times> stream_pool" where
  "new_stream_entry p = (of_nat (pl_created p), p\<lparr>pl_created := pl_created p + 1\<rparr>)"

definition least_loaded :: "('l::linorder) pool_view \<Rightarrow> u64 list \<Rightarrow> u64 option" where
  "least_loaded v streams = (if streams = [] then None else Some (arg_min_list (vw_load v) streams))"

definition get_impl :: "('l::linorder) pool_view \<Rightarrow> stream_pool \<Rightarrow> (u64 \<times> stream_pool) run" where
  "get_impl v p =
     (let streams = filter (\<lambda>i. \<not> vw_closed v i) (pl_streams p);
          p1 = p\<lparr>pl_streams := streams\<rparr>;
          least = least_loaded v streams;
          should_grow = (case least of None \<Rightarrow> True | Some s \<Rightarrow> vw_is_loaded v s)
      in if length streams < pl_max_streams p \<and> should_grow then
           (case new_stream_entry p1 of (i, p2) \<Rightarrow> Ret (i, p2\<lparr>pl_streams := streams @ [i]\<rparr>))
         else case least of Some s \<Rightarrow> Ret (s, p1) | None \<Rightarrow> Panic)"

definition stream_position :: "u64 \<Rightarrow> u64 list \<Rightarrow> nat" where
  "stream_position i xs = length (takeWhile (\<lambda>j. j \<noteq> i) xs)"

definition evict_and_replace :: "('l::linorder) pool_view \<Rightarrow> u64 \<Rightarrow> stream_pool \<Rightarrow> (u64 \<times> stream_pool) run" where
  "evict_and_replace v failed p =
     (if failed \<in> set (pl_streams p) then
        (case new_stream_entry p of
           (i, p1) \<Rightarrow> Ret (i, p1\<lparr>pl_streams := (pl_streams p)[stream_position failed (pl_streams p) := i]\<rparr>))
      else get_impl v p)"

inductive pool_reachable :: "nat \<Rightarrow> stream_pool \<Rightarrow> bool" for n where
  new: "pool_reachable n (stream_pool_new n)"
| get: "pool_reachable n p \<Longrightarrow> get_impl (v :: nat pool_view) p = Ret (i, p') \<Longrightarrow> pool_reachable n p'"
| evict: "pool_reachable n p \<Longrightarrow> evict_and_replace (v :: nat pool_view) failed p = Ret (i, p') \<Longrightarrow> pool_reachable n p'"

definition known_id :: "stream_pool \<Rightarrow> u64 \<Rightarrow> bool" where
  "known_id p i \<longleftrightarrow> (\<exists>k<pl_created p. 1 \<le> k \<and> i = of_nat k)"

definition pool_ok :: "nat \<Rightarrow> stream_pool \<Rightarrow> bool" where
  "pool_ok n p \<longleftrightarrow> pl_max_streams p = n \<and> length (pl_streams p) \<le> n \<and> 1 \<le> pl_created p \<and>
     (pl_created p \<le> 2 ^ 64 \<longrightarrow> distinct (pl_streams p) \<and> list_all (known_id p) (pl_streams p))"

lemma fresh_id:
  assumes "pl_created p < 2 ^ 64" "known_id p i"
  shows "i \<noteq> of_nat (pl_created p)"
proof
  from assms(2) obtain k where k: "k < pl_created p" "i = of_nat k" by (auto simp: known_id_def)
  assume "i = of_nat (pl_created p)"
  with k have "unat (of_nat k :: u64) = unat (of_nat (pl_created p) :: u64)" by simp
  with k(1) assms(1) show False by (simp add: unsigned_of_nat take_bit_nat_eq_self)
qed

lemma known_id_mono: "known_id p i \<Longrightarrow> pl_created p \<le> pl_created p' \<Longrightarrow> known_id p' i"
  by (auto simp: known_id_def intro: less_le_trans)

lemma arg_min_list_in: "xs \<noteq> [] \<Longrightarrow> arg_min_list f xs \<in> set xs" for f :: "'a \<Rightarrow> 'l::linorder"
  by (induction f xs rule: arg_min_list.induct) (auto simp: Let_def)

lemma pool_ok_fresh:
  assumes ok: "pool_ok n p" and s: "set streams \<subseteq> set (pl_streams p)" "distinct (pl_streams p) \<longrightarrow> distinct (pre @ post)"
    and set: "set streams = set (pre @ post)" and le: "length (pre @ post) < n"
    and p': "p' = p\<lparr>pl_streams := pre @ of_nat (pl_created p) # post, pl_created := pl_created p + 1\<rparr>"
  shows "pool_ok n p'"
proof -
  let ?i = "of_nat (pl_created p) :: u64"
  have base: "pl_max_streams p' = n" "length (pl_streams p') \<le> n" "1 \<le> pl_created p'" using ok le by (auto simp: p' pool_ok_def)
  moreover have "distinct (pl_streams p') \<and> list_all (known_id p') (pl_streams p')" if c: "pl_created p' \<le> 2 ^ 64"
  proof -
    have c': "pl_created p < 2 ^ 64" "pl_created p \<le> 2 ^ 64" "1 \<le> pl_created p" using c ok by (auto simp: p' pool_ok_def)
    then have "distinct (pre @ post)" and known: "\<And>i. i \<in> set (pre @ post) \<Longrightarrow> known_id p i"
      using ok s set by (auto simp: pool_ok_def list_all_iff)
    moreover from known fresh_id [OF c'(1)] have "?i \<notin> set (pre @ post)" by blast
    moreover have "known_id p' ?i" using c'(3) by (auto simp: known_id_def p')
    moreover have "known_id p' i" if "i \<in> set (pre @ post)" for i
      using known [OF that] by (rule known_id_mono) (simp add: p')
    ultimately show ?thesis by (auto simp: p' list_all_iff)
  qed
  ultimately show ?thesis by (simp add: pool_ok_def)
qed

lemma get_impl_ok:
  assumes ok: "pool_ok n p" and n: "0 < n"
  obtains i p' where "get_impl v p = Ret (i, p')" "pool_ok n p'" "i \<in> set (pl_streams p')" "pl_created p \<le> pl_created p'"
proof -
  let ?s = "filter (\<lambda>i. \<not> vw_closed v i) (pl_streams p)"
  have "length (pl_streams p) \<le> n" using ok by (simp add: pool_ok_def)
  then have le: "length ?s \<le> n" by (rule order_trans [OF length_filter_le])
  have keep: "pool_ok n (p\<lparr>pl_streams := ?s\<rparr>)" using ok le
    by (auto simp: pool_ok_def list_all_iff known_id_def)
  show thesis
  proof (cases "length ?s < n \<and> (case least_loaded v ?s of None \<Rightarrow> True | Some s \<Rightarrow> vw_is_loaded v s)")
    case True
    let ?p = "p\<lparr>pl_streams := ?s @ [of_nat (pl_created p)], pl_created := pl_created p + 1\<rparr>"
    have "pool_ok n ?p" by (rule pool_ok_fresh [OF ok, of ?s ?s "[]"]) (use True in auto)
    moreover have "get_impl v p = Ret (of_nat (pl_created p), ?p)"
      using True ok by (auto simp: get_impl_def new_stream_entry_def Let_def pool_ok_def)
    ultimately show thesis by (intro that) auto
  next
    case False
    with n le have ne: "?s \<noteq> []" by (auto simp: least_loaded_def)
    then have "get_impl v p = Ret (arg_min_list (vw_load v) ?s, p\<lparr>pl_streams := ?s\<rparr>)"
      using False ok by (auto simp: get_impl_def least_loaded_def Let_def pool_ok_def)
    moreover have "arg_min_list (vw_load v) ?s \<in> set ?s" using ne by (rule arg_min_list_in)
    ultimately show thesis using keep by (intro that) auto
  qed
qed

text \<open>A call of the pool adds at most one stream, with the next id; so an id that is gone stays gone.\<close>

lemma pool_change:
  assumes "get_impl v p = Ret (i, p') \<or> evict_and_replace v failed p = Ret (i, p')"
  shows "set (pl_streams p') \<subseteq> set (pl_streams p) \<and> pl_created p' = pl_created p \<or>
    set (pl_streams p') \<subseteq> insert (of_nat (pl_created p)) (set (pl_streams p)) \<and> pl_created p' = pl_created p + 1"
  using assms set_update_subset_insert
  by (fastforce simp: get_impl_def evict_and_replace_def new_stream_entry_def Let_def split: if_splits option.splits)

lemma pool_avoids:
  assumes "get_impl v p = Ret (i, p') \<or> evict_and_replace v failed p = Ret (i, p')"
    and "known_id p g" "g \<notin> set (pl_streams p)" "pl_created p' \<le> 2 ^ 64"
  shows "g \<notin> set (pl_streams p')"
  using pool_change [OF assms(1)] fresh_id [of p g] assms(2-4) by auto

lemma evict_ok:
  assumes ok: "pool_ok n p" and n: "0 < n"
  obtains i p' where "evict_and_replace v failed p = Ret (i, p')" "pool_ok n p'" "i \<in> set (pl_streams p')"
    "pl_created p \<le> pl_created p'"
    "pl_created p' \<le> 2 ^ 64 \<longrightarrow> known_id p failed \<longrightarrow> failed \<notin> set (pl_streams p') \<and> i \<noteq> failed"
proof (cases "failed \<in> set (pl_streams p)")
  case True
  then obtain pre post where sp: "pl_streams p = pre @ failed # post" "failed \<notin> set pre" by (meson split_list_first)
  then have pos: "stream_position failed (pl_streams p) = length pre"
    by (auto simp: stream_position_def takeWhile_append takeWhile_eq_all_conv)
  let ?i = "of_nat (pl_created p) :: u64"
  let ?p = "p\<lparr>pl_streams := pre @ ?i # post, pl_created := pl_created p + 1\<rparr>"
  have run: "evict_and_replace v failed p = Ret (?i, ?p)"
    using True pos sp by (simp add: evict_and_replace_def new_stream_entry_def)
  have good: "pool_ok n ?p"
    by (rule pool_ok_fresh [OF ok, of "pre @ post" pre post]) (use ok sp in \<open>auto simp: pool_ok_def\<close>)
  have "failed \<notin> set (pl_streams ?p) \<and> ?i \<noteq> failed" if "pl_created ?p \<le> 2 ^ 64" "known_id p failed"
  proof -
    have "distinct (pre @ failed # post)" using ok sp that(1) by (simp add: pool_ok_def)
    moreover have "failed \<noteq> ?i" using fresh_id [of p failed] that by simp
    ultimately show ?thesis by auto
  qed
  with run good show thesis by (intro that) auto
next
  case False
  then have run: "evict_and_replace v failed p = get_impl v p" by (simp add: evict_and_replace_def)
  from get_impl_ok [OF ok n, of v] obtain i p' where g: "get_impl v p = Ret (i, p')" "pool_ok n p'" "i \<in> set (pl_streams p')"
    "pl_created p \<le> pl_created p'" by blast
  have "failed \<notin> set (pl_streams p') \<and> i \<noteq> failed" if "pl_created p' \<le> 2 ^ 64" "known_id p failed"
    using pool_avoids [OF disjI1 [OF g(1)] that(2) False that(1)] g(3) by blast
  with run g show thesis by (intro that [of i p']) auto
qed

lemma pool_reachable_ok:
  assumes "0 < n" "pool_reachable n p"
  shows "pool_ok n p"
  using assms(2)
proof (induction rule: pool_reachable.induct)
  case new
  show ?case by (simp add: pool_ok_def stream_pool_new_def)
next
  case (get p v i p')
  from get_impl_ok [OF get(3) assms(1), of v] get(2) show ?case by auto
next
  case (evict p v failed i p')
  from evict_ok [OF evict(3) assms(1), of v failed] evict(2) show ?case by auto
qed

text \<open>
  The pool of streams stays sound: with room for a stream it never panics, has no more streams than allowed, and
  their ids are distinct, as long as ids do not wrap. A stream that failed is gone once it has been reported, by
  whichever writer, and every writer that reports it gets another stream of the pool.\<close>

theorem failed_stream_replaced:
  fixes v :: "nat pool_view"
  assumes "0 < n" "pool_reachable n p" "known_id p failed" "pl_created p < 2 ^ 64"
  shows "\<exists>i p'. evict_and_replace v failed p = Ret (i, p') \<and> failed \<notin> set (pl_streams p') \<and> i \<in> set (pl_streams p') \<and>
    distinct (pl_streams p') \<and> length (pl_streams p') \<le> n"
proof -
  have ok: "pool_ok n p" using assms(1,2) by (rule pool_reachable_ok)
  from evict_ok [OF ok assms(1), of v failed] obtain i p' where e: "evict_and_replace v failed p = Ret (i, p')" "pool_ok n p'"
    "i \<in> set (pl_streams p')"
    "pl_created p' \<le> 2 ^ 64 \<longrightarrow> known_id p failed \<longrightarrow> failed \<notin> set (pl_streams p') \<and> i \<noteq> failed" by blast
  have "pl_created p' \<le> pl_created p + 1"
    using e(1) by (auto simp: evict_and_replace_def get_impl_def new_stream_entry_def Let_def split: if_splits option.splits)
  with assms(4) have "pl_created p' \<le> 2 ^ 64" by simp
  with e assms(3) show ?thesis by (auto simp: pool_ok_def)
qed

definition quiet_view :: "nat pool_view" where
  "quiet_view = \<lparr>vw_closed = (\<lambda>_. False), vw_load = (\<lambda>_. 1), vw_is_loaded = (\<lambda>_. True)\<rparr>"

definition sample_pool :: stream_pool where
  "sample_pool = \<lparr>pl_created = 3, pl_streams = [1, 2], pl_max_streams = 2\<rparr>"

lemma sample_pool_reachable: "pool_reachable 2 sample_pool"
proof -
  have a: "get_impl quiet_view (stream_pool_new 2) = Ret (1, \<lparr>pl_created = 2, pl_streams = [1], pl_max_streams = 2\<rparr>)"
    and b: "get_impl quiet_view \<lparr>pl_created = 2, pl_streams = [1], pl_max_streams = 2\<rparr> = Ret (2, sample_pool)"
    by (simp_all add: get_impl_def quiet_view_def stream_pool_new_def least_loaded_def new_stream_entry_def sample_pool_def)
  from pool_reachable.get [OF pool_reachable.get [OF pool_reachable.new a] b] show ?thesis .
qed

theorem failed_stream_replaced_witness:
  "\<exists>i p'. evict_and_replace quiet_view 1 sample_pool = Ret (i, p') \<and> 1 \<notin> set (pl_streams p') \<and> length (pl_streams p') \<le> 2"
proof -
  have "known_id sample_pool 1" by (auto simp: known_id_def sample_pool_def intro!: exI [of _ 1])
  with failed_stream_replaced [OF _ sample_pool_reachable, of 1 quiet_view] show ?thesis by (auto simp: sample_pool_def)
qed

end
