(* ===== verification/Bigquery_Dispatcher.thy ===== *)
theory Bigquery_Dispatcher
  imports Bigquery_Write
begin

text \<open>
  The dispatcher of the BigQuery writers, \<open>bigquery/src/write/dispatcher.rs\<close>, with \<open>to_result\<close> of
  \<open>append_response.rs\<close>: it sends the writes of one writer on a stream of the pool it shares with others, moves
  to another stream when that one fails, and retries.

  The cached stream is an \<open>ArcSwap\<close>: a pointer, modelled as the number of its allocation, with the id of the stream
  behind it. What happens outside of the dispatcher, the other writes of the application while one waits
  included, is a \<open>dispatch_env\<close>: functions of the dispatcher and a world. The loop has fuel, \<open>None\<close> is
  "still running".
\<close>

section \<open>Responses\<close>

datatype append_outcome = AppendResult "int option" | AppendStatus status

record append_rows_response =
  ar_response :: "append_outcome option"
  ar_row_errors :: "string list"
  ar_updated_schema :: "string option"

record append_response =
  ap_offset :: "int option"
  ap_updated_schema :: "string option"

definition to_result :: "append_rows_response \<Rightarrow> (append_error, append_response) result" where
  "to_result resp =
     (case (case ar_response resp of
              None \<Rightarrow> (None, None)
            | Some (AppendResult r) \<Rightarrow> (r, None)
            | Some (AppendStatus s) \<Rightarrow> (None, Some s)) of
        (offset, status) \<Rightarrow>
          if ar_row_errors resp \<noteq> [] then
            Err (RowErrors (case status of None \<Rightarrow> status_default | Some s \<Rightarrow> s) (ar_row_errors resp))
          else case status of
                 Some s \<Rightarrow> Err (AppendRpc (service s))
               | None \<Rightarrow> Ok \<lparr>ap_offset = offset, ap_updated_schema = ar_updated_schema resp\<rparr>)"

section \<open>The dispatcher\<close>

type_synonym stream_ref = "nat \<times> u64"

record write_dispatcher =
  dp_pool :: stream_pool
  dp_entry :: stream_ref
  dp_allocs :: nat

definition write_dispatcher_new :: "nat pool_view \<Rightarrow> stream_pool \<Rightarrow> write_dispatcher run" where
  "write_dispatcher_new v pool =
     map_run (\<lambda>(i, p). \<lparr>dp_pool = p, dp_entry = (0, i), dp_allocs = 1\<rparr>) (get_impl v pool)"

definition dispatcher_timeout :: "duration option \<Rightarrow> duration option \<Rightarrow> duration option" where
  "dispatcher_timeout attempt_timeout remaining =
     (case (attempt_timeout, remaining) of
        (None, None) \<Rightarrow> None
      | (None, Some t) \<Rightarrow> Some t
      | (Some t, None) \<Rightarrow> Some t
      | (Some a, Some r) \<Rightarrow> Some (min a r))"

text \<open>What an attempt does when its stream has failed: only the first attempt on that stream swaps the cached one.\<close>

definition replace_stream :: "nat pool_view \<Rightarrow> stream_ref \<Rightarrow> write_dispatcher \<Rightarrow> write_dispatcher run" where
  "replace_stream v stream d =
     map_run (\<lambda>(i, p).
       d\<lparr>dp_pool := p, dp_allocs := dp_allocs d + 1,
         dp_entry := if dp_entry d = stream then (dp_allocs d, i) else dp_entry d\<rparr>)
       (evict_and_replace v (snd stream) (dp_pool d))"

record ('w, 'q, 'm) dispatch_env =
  de_now :: "'w \<Rightarrow> instant"
  de_view :: "'w \<Rightarrow> nat pool_view"
  de_send :: "u64 \<Rightarrow> 'q \<Rightarrow> write_dispatcher \<times> 'w \<Rightarrow> (append_error, 'm) result \<times> write_dispatcher \<times> 'w"
  de_send_within :: "duration \<Rightarrow> u64 \<Rightarrow> 'q \<Rightarrow> write_dispatcher \<times> 'w \<Rightarrow> (append_error, 'm) result option \<times> write_dispatcher \<times> 'w"
  de_cnv :: "'m \<Rightarrow> (box_error, append_rows_response) result"
  de_backoff :: "retry_state \<Rightarrow> 'w \<Rightarrow> duration \<times> 'w"
  de_sleep :: "duration \<Rightarrow> write_dispatcher \<times> 'w \<Rightarrow> write_dispatcher \<times> 'w"

record write_retry_options =
  wo_retry_policy :: retry_policy
  wo_attempt_timeout :: "duration option"

definition send_or_timeout ::
  "('w, 'q, 'm) dispatch_env \<Rightarrow> 'q \<Rightarrow> duration option \<Rightarrow> write_dispatcher \<times> 'w \<Rightarrow> (append_error, 'm) result \<times> write_dispatcher \<times> 'w" where
  "send_or_timeout env req tmo s =
     (let stream_id = snd (dp_entry (fst s))
      in case tmo of
           None \<Rightarrow> de_send env stream_id req s
         | Some t \<Rightarrow>
             (case de_send_within env t stream_id req s of
                (Some r, s1) \<Rightarrow> (r, s1)
              | (None, s1) \<Rightarrow> (Err (AppendRpc (timeout (MsgError ''the write attempt timed out''))), s1)))"

definition send_one_attempt ::
  "('w, 'q, 'm) dispatch_env \<Rightarrow> 'q \<Rightarrow> duration option \<Rightarrow> write_dispatcher \<times> 'w \<Rightarrow>
   ((append_error, append_response) result \<times> write_dispatcher \<times> 'w) run" where
  "send_one_attempt env req tmo s =
     (case send_or_timeout env req tmo s of
        (Err e, d1, w1) \<Rightarrow> map_run (\<lambda>d2. (Err e, d2, w1)) (replace_stream (de_view env w1) (dp_entry (fst s)) d1)
      | (Ok m, s1) \<Rightarrow>
          Ret (case de_cnv env m of Err b \<Rightarrow> Err (AppendRpc (deser b)) | Ok resp \<Rightarrow> to_result resp, s1))"

datatype 'w dispatch_next = Done "(append_error, append_response) result" "write_dispatcher \<times> 'w" | Again "write_dispatcher \<times> 'w"

definition dispatcher_pause ::
  "('w, 'q, 'm) dispatch_env \<Rightarrow> write_retry_options \<Rightarrow> retry_state \<Rightarrow> error \<Rightarrow> write_dispatcher \<times> 'w \<Rightarrow> 'w dispatch_next run" where
  "dispatcher_pause env opts st e s =
     (case de_backoff env st (snd s) of
        (delay, w) \<Rightarrow>
          bind_run (remaining_time (wo_retry_policy opts) (de_now env w) st) (\<lambda>remaining.
            if is_some_and (\<lambda>t. t \<le> delay) remaining then Ret (Done (Err (AppendRpc (exhausted (GaxError e)))) (fst s, w))
            else Ret (Again (de_sleep env delay (fst s, w)))))"

definition dispatcher_on_error ::
  "('w, 'q, 'm) dispatch_env \<Rightarrow> write_retry_options \<Rightarrow> retry_state \<Rightarrow> append_error \<Rightarrow> write_dispatcher \<times> 'w \<Rightarrow> 'w dispatch_next run" where
  "dispatcher_on_error env opts st err s =
     (case err of
        RowErrors _ _ \<Rightarrow> Ret (Done (Err err) s)
      | UnexpectedEndOfStream \<Rightarrow>
          bind_run (on_error (wo_retry_policy opts) (de_now env (snd s)) st
              (io (OtherError ''the `AppendRows` stream closed unexpectedly and the client library could not recover.''))) (\<lambda>r.
            case r of
              Continue e \<Rightarrow> dispatcher_pause env opts st e s
            | Exhausted _ \<Rightarrow> Ret (Done (Err UnexpectedEndOfStream) s)
            | Permanent _ \<Rightarrow> Ret (Done (Err UnexpectedEndOfStream) s))
      | AppendRpc src \<Rightarrow>
          bind_run (on_error (wo_retry_policy opts) (de_now env (snd s)) st src) (\<lambda>r.
            case r of
              Continue e \<Rightarrow> dispatcher_pause env opts st e s
            | Exhausted e \<Rightarrow> Ret (Done (Err (AppendRpc e)) s)
            | Permanent e \<Rightarrow> Ret (Done (Err (AppendRpc e)) s)))"

definition dispatcher_attempt ::
  "('w, 'q, 'm) dispatch_env \<Rightarrow> write_retry_options \<Rightarrow> 'q \<Rightarrow> retry_state \<Rightarrow> write_dispatcher \<times> 'w \<Rightarrow> 'w dispatch_next run" where
  "dispatcher_attempt env opts req st s =
     bind_run (remaining_time (wo_retry_policy opts) (de_now env (snd s)) st) (\<lambda>remaining.
       bind_run (send_one_attempt env req (dispatcher_timeout (wo_attempt_timeout opts) remaining) s) (\<lambda>(res, s1).
         case res of Ok resp \<Rightarrow> Ret (Done (Ok resp) s1) | Err err \<Rightarrow> dispatcher_on_error env opts st err s1))"

fun dispatcher_send_from ::
  "nat \<Rightarrow> ('w, 'q, 'm) dispatch_env \<Rightarrow> write_retry_options \<Rightarrow> 'q \<Rightarrow> retry_state \<Rightarrow> write_dispatcher \<times> 'w \<Rightarrow>
   ((append_error, append_response) result \<times> write_dispatcher \<times> 'w) run option" where
  "dispatcher_send_from 0 env opts req st s = None"
| "dispatcher_send_from (Suc fuel) env opts req st s =
     (let st = set_attempt_count st (attempt_count st + 1)
      in case dispatcher_attempt env opts req st s of
           Panic \<Rightarrow> Some Panic
         | Ret (Done r s') \<Rightarrow> Some (Ret (r, s'))
         | Ret (Again s') \<Rightarrow> dispatcher_send_from fuel env opts req st s')"

definition dispatcher_send ::
  "nat \<Rightarrow> ('w, 'q, 'm) dispatch_env \<Rightarrow> write_retry_options \<Rightarrow> (box_error, 'q) result \<Rightarrow> write_dispatcher \<times> 'w \<Rightarrow>
   ((append_error, append_response) result \<times> write_dispatcher \<times> 'w) run option" where
  "dispatcher_send fuel env opts req s =
     (case req of
        Err b \<Rightarrow> Some (Ret (Err (AppendRpc (ser b)), s))
      | Ok q \<Rightarrow> dispatcher_send_from fuel env opts q (retry_state_new (de_now env (snd s)) True) s)"

section \<open>Attempts\<close>

text \<open>A policy with an attempt limit goes on only below the limit.\<close>

lemma attempt_limit_again:
  assumes "wo_retry_policy opts = limited_attempt_count p n"
    and "dispatcher_attempt env opts req st s = Ret (Again s')"
  shows "attempt_count st < n"
proof -
  from assms(2) obtain err s1 where "dispatcher_on_error env opts st err s1 = Ret (Again s')"
    by (auto simp: dispatcher_attempt_def bind_run_Ret_iff case_result_eq)
  with assms(1) show ?thesis
    by (cases err) (auto simp: dispatcher_on_error_def bind_run_Ret_iff case_retry_result_eq dest: attempt_on_error_ContinueD)
qed

lemma dispatcher_returns:
  assumes "wo_retry_policy opts = limited_attempt_count p n"
    and "attempt_count st = 0 \<or> attempt_count st < n" "unat n \<le> unat (attempt_count st) + Suc fuel"
  shows "\<exists>out. dispatcher_send_from (Suc fuel) env opts req st s = Some out"
  using assms(2,3)
proof (induction fuel arbitrary: st s)
  case 0
  let ?st = "set_attempt_count st (attempt_count st + 1)"
  have "unat (attempt_count st + 1) = Suc (unat (attempt_count st))" if "attempt_count st < n" using that by (rule unat_Suc_word)
  with 0 have "\<not> attempt_count ?st < n" by (auto simp: set_attempt_count_def word_less_nat_alt)
  with attempt_limit_again [OF assms(1), of env req ?st s] show ?case
    by (auto simp: Let_def split: run.splits dispatch_next.splits)
next
  case (Suc fuel)
  let ?st = "set_attempt_count st (attempt_count st + 1)"
  show ?case
  proof (cases "\<exists>s'. dispatcher_attempt env opts req ?st s = Ret (Again s')")
    case True
    then obtain s' where a: "dispatcher_attempt env opts req ?st s = Ret (Again s')" ..
    from attempt_limit_again [OF assms(1) a] have lt: "attempt_count st + 1 < n" by (simp add: set_attempt_count_def)
    have "unat (attempt_count st + 1) = Suc (unat (attempt_count st))" using Suc.prems(1) by (auto intro: unat_Suc_word)
    with lt Suc.prems(2) Suc.IH [of ?st s']
    have "\<exists>out. dispatcher_send_from (Suc fuel) env opts req ?st s' = Some out" by (simp add: set_attempt_count_def)
    with a show ?thesis by (simp only: dispatcher_send_from.simps(2) [of "Suc fuel"] Let_def run.case dispatch_next.case)
  qed (auto simp: Let_def split: run.splits dispatch_next.splits)
qed

text \<open>
  With a limit of n attempts a write always comes back, whatever its streams do: n attempts are enough (one if the
  limit is zero), for any timeouts, delays and errors and any other writes meanwhile.\<close>

theorem dispatcher_send_returns:
  assumes "wo_retry_policy opts = with_attempt_limit p n"
  shows "\<exists>out. dispatcher_send (max 1 (unat n)) env opts req s = Some out"
proof -
  obtain k where k: "max 1 (unat n) = Suc k" by (cases "max 1 (unat n)") auto
  then have "unat n \<le> Suc k" by (metis max.cobounded2)
  show ?thesis
  proof (cases req)
    case (Ok q)
    let ?st = "retry_state_new (de_now env (snd s)) True"
    have 0: "attempt_count ?st = 0" by (simp add: retry_state_defs)
    with dispatcher_returns [of opts p n ?st k] assms 0 Ok k \<open>unat n \<le> Suc k\<close> show ?thesis
      by (simp add: dispatcher_send_def policy_ext_defs del: dispatcher_send_from.simps)
  qed (simp add: dispatcher_send_def)
qed

text \<open>A service that is never there, and the limits of the client: the write comes back after three attempts.\<close>

definition gone_env :: "(nat, unit, unit) dispatch_env" where
  "gone_env =
     \<lparr>de_now = (\<lambda>w. 0), de_view = (\<lambda>w. \<lparr>vw_closed = (\<lambda>_. False), vw_load = (\<lambda>_. 0), vw_is_loaded = (\<lambda>_. False)\<rparr>),
      de_send = (\<lambda>i q (d, w). (Err UnexpectedEndOfStream, d, w + 1)),
      de_send_within = (\<lambda>t i q (d, w). (None, d, w + 1)),
      de_cnv = (\<lambda>m. Err (MsgError ''bad'')), de_backoff = (\<lambda>st w. (0, w)), de_sleep = (\<lambda>t s. s)\<rparr>"

definition gone_dispatcher :: write_dispatcher where
  "gone_dispatcher = \<lparr>dp_pool = \<lparr>pl_created = 2, pl_streams = [1], pl_max_streams = 2\<rparr>, dp_entry = (0, 1), dp_allocs = 1\<rparr>"

definition three_attempts :: write_retry_options where
  "three_attempts = \<lparr>wo_retry_policy = with_attempt_limit (simple_policy bigquery_write_on_error) 3, wo_attempt_timeout = None\<rparr>"

theorem dispatcher_send_returns_witness:
  "\<exists>out. dispatcher_send 3 gone_env three_attempts (Ok ()) (gone_dispatcher, 0) = Some out"
  using dispatcher_send_returns [of three_attempts "simple_policy bigquery_write_on_error" 3 gone_env "Ok ()" "(gone_dispatcher, 0)"]
  by (simp add: three_attempts_def del: dispatcher_send_from.simps)

section \<open>Streams that have failed\<close>

text \<open>
  The dispatcher with any number of writes at once and other users of its pool: a write loads the cached stream, a
  write that has loaded a stream may find that it failed, and other writers get and evict streams. The set holds
  every pointer that was loaded.
\<close>

inductive dispatch_step :: "write_dispatcher \<times> stream_ref set \<Rightarrow> write_dispatcher \<times> stream_ref set \<Rightarrow> bool" where
  load: "dispatch_step (d, L) (d, insert (dp_entry d) L)"
| fail: "s \<in> L \<Longrightarrow> replace_stream v s d = Ret d' \<Longrightarrow> dispatch_step (d, L) (d', L)"
| other_get: "get_impl (v :: nat pool_view) (dp_pool d) = Ret (i, p) \<Longrightarrow> dispatch_step (d, L) (d\<lparr>dp_pool := p\<rparr>, L)"
| other_evict: "evict_and_replace (v :: nat pool_view) failed (dp_pool d) = Ret (i, p) \<Longrightarrow> dispatch_step (d, L) (d\<lparr>dp_pool := p\<rparr>, L)"

inductive_cases dispatch_stepE: "dispatch_step (d, L) (d', L')"

definition pool_called :: "stream_pool \<Rightarrow> stream_pool \<Rightarrow> bool" where
  "pool_called p p' \<longleftrightarrow> (\<exists>(v :: nat pool_view) i failed. get_impl v p = Ret (i, p') \<or> evict_and_replace v failed p = Ret (i, p'))"

text \<open>Pointers are fresh, and a stream behind a pointer that is not cached any more has left the pool for good.\<close>

definition dispatch_ok :: "nat \<Rightarrow> write_dispatcher \<times> stream_ref set \<Rightarrow> bool" where
  "dispatch_ok n x \<longleftrightarrow>
     (case x of (d, L) \<Rightarrow>
        pool_ok n (dp_pool d) \<and>
        (\<forall>r \<in> insert (dp_entry d) L. fst r < dp_allocs d \<and> (fst r = fst (dp_entry d) \<longrightarrow> r = dp_entry d)) \<and>
        (pl_created (dp_pool d) \<le> 2 ^ 64 \<longrightarrow>
          (\<forall>r \<in> insert (dp_entry d) L. known_id (dp_pool d) (snd r)) \<and>
          (\<forall>r \<in> L. r \<noteq> dp_entry d \<longrightarrow> snd r \<notin> insert (snd (dp_entry d)) (set (pl_streams (dp_pool d))))))"

lemma pool_called_mono: "pool_called p p' \<Longrightarrow> pl_created p \<le> pl_created p'"
  unfolding pool_called_def using pool_change by fastforce

lemma pool_called_avoids:
  "pool_called p p' \<Longrightarrow> known_id p g \<Longrightarrow> g \<notin> set (pl_streams p) \<Longrightarrow> pl_created p' \<le> 2 ^ 64 \<Longrightarrow> g \<notin> set (pl_streams p')"
  unfolding pool_called_def using pool_avoids by metis

lemma pool_called_ok: "pool_called p p' \<Longrightarrow> pool_ok n p \<Longrightarrow> 0 < n \<Longrightarrow> pool_ok n p'"
  unfolding pool_called_def by (metis get_impl_ok evict_ok run.inject prod.inject)

lemma dispatch_ok_pool:
  assumes "dispatch_ok n (d, L)" "0 < n" "pool_called (dp_pool d) p"
  shows "dispatch_ok n (d\<lparr>dp_pool := p\<rparr>, L)"
proof -
  have m: "pl_created (dp_pool d) \<le> pl_created p" using assms(3) by (rule pool_called_mono)
  have "known_id p (snd r)" if "r \<in> insert (dp_entry d) L" "pl_created p \<le> 2 ^ 64" for r
    using assms(1) that m known_id_mono [of "dp_pool d" "snd r" p] by (auto simp: dispatch_ok_def)
  moreover have "snd r \<notin> set (pl_streams p)" if "r \<in> L" "r \<noteq> dp_entry d" "pl_created p \<le> 2 ^ 64" for r
    using assms(1) that m by (intro pool_called_avoids [OF assms(3)]) (auto simp: dispatch_ok_def)
  ultimately show ?thesis using assms(1) m pool_called_ok [OF assms(3) _ assms(2)] unfolding dispatch_ok_def by auto
qed

lemma dispatch_ok_fail:
  assumes ok: "dispatch_ok n (d, L)" and n: "0 < n" and s: "s \<in> L" and run: "replace_stream v s d = Ret d'"
  shows "dispatch_ok n (d', L) \<and> fst s \<noteq> fst (dp_entry d')"
proof -
  from run obtain i p where e: "evict_and_replace v (snd s) (dp_pool d) = Ret (i, p)"
    and d': "d' = d\<lparr>dp_pool := p, dp_allocs := dp_allocs d + 1, dp_entry := if dp_entry d = s then (dp_allocs d, i) else dp_entry d\<rparr>"
    by (auto simp: replace_stream_def map_run_Ret_iff)
  have call: "pool_called (dp_pool d) p" using e by (auto simp: pool_called_def)
  from dispatch_ok_pool [OF ok n call] have ok1: "dispatch_ok n (d\<lparr>dp_pool := p\<rparr>, L)" .
  show ?thesis
  proof (cases "dp_entry d = s")
    case False
    with ok1 ok s show ?thesis by (auto simp: d' dispatch_ok_def intro: less_SucI)
  next
    case True
    have pool: "pool_ok n (dp_pool d)" using ok by (simp add: dispatch_ok_def)
    from evict_ok [OF pool n, of v "snd s"] e have i: "i \<in> set (pl_streams p)" "pool_ok n p"
      and gone: "pl_created p \<le> 2 ^ 64 \<longrightarrow> known_id (dp_pool d) (snd s) \<longrightarrow> snd s \<notin> set (pl_streams p) \<and> i \<noteq> snd s" by auto
    have old: "fst r < dp_allocs d" if "r \<in> L" for r using ok that by (simp add: dispatch_ok_def)
    have "known_id p i" if "pl_created p \<le> 2 ^ 64" using i that by (simp add: pool_ok_def list_all_iff)
    moreover have "snd r \<notin> insert i (set (pl_streams p))" if "r \<in> L" "pl_created p \<le> 2 ^ 64" for r
    proof (cases "r = s")
      case True
      moreover have "known_id (dp_pool d) (snd s)"
        using ok s that(2) pool_called_mono [OF call] by (simp add: dispatch_ok_def)
      ultimately show ?thesis using gone that(2) by blast
    next
      case False
      with ok1 that \<open>dp_entry d = s\<close> have "snd r \<notin> set (pl_streams p)" by (simp add: dispatch_ok_def)
      with i(1) show ?thesis by blast
    qed
    moreover have "fst r \<noteq> dp_allocs d" if "r \<in> L" for r using old [OF that] by simp
    ultimately show ?thesis using ok1 old [OF s] old True i(2) by (auto simp: d' dispatch_ok_def intro: less_SucI)
  qed
qed

lemma dispatch_ok_step:
  assumes "dispatch_step x y" "dispatch_ok n x" "0 < n"
  shows "dispatch_ok n y"
  using assms
proof (cases rule: dispatch_step.cases)
  case (load d L)
  with assms(2) show ?thesis by (auto simp: dispatch_ok_def)
next
  case (fail s L v d d')
  with dispatch_ok_fail assms(2,3) show ?thesis by blast
next
  case (other_get v d i p L)
  then have "pool_called (dp_pool d) p" by (auto simp: pool_called_def)
  with dispatch_ok_pool assms(2,3) other_get show ?thesis by blast
next
  case (other_evict v failed d i p L)
  then have "pool_called (dp_pool d) p" by (auto simp: pool_called_def)
  with dispatch_ok_pool assms(2,3) other_evict show ?thesis by blast
qed

lemma dispatch_ok_steps: "dispatch_step\<^sup>*\<^sup>* x y \<Longrightarrow> dispatch_ok n x \<Longrightarrow> 0 < n \<Longrightarrow> dispatch_ok n y"
  by (induction rule: rtranclp_induct) (auto intro: dispatch_ok_step)

lemma dispatcher_new_ok:
  assumes "0 < n" "pool_reachable n p" "write_dispatcher_new v p = Ret d"
  shows "dispatch_ok n (d, {})"
proof -
  from assms(1,2) have "pool_ok n p" by (rule pool_reachable_ok)
  from get_impl_ok [OF this assms(1), of v] obtain i p' where g: "get_impl v p = Ret (i, p')" "pool_ok n p'" "i \<in> set (pl_streams p')"
    by metis
  then have "known_id p' i" if "pl_created p' \<le> 2 ^ 64" using that by (simp add: pool_ok_def list_all_iff)
  moreover have "d = \<lparr>dp_pool = p', dp_entry = (0, i), dp_allocs = 1\<rparr>" using assms(3) g(1) by (simp add: write_dispatcher_new_def)
  ultimately show ?thesis using g(2) by (simp add: dispatch_ok_def)
qed

text \<open>A pointer that is not cached any more is never cached again.\<close>

definition retired :: "stream_ref \<Rightarrow> write_dispatcher \<times> stream_ref set \<Rightarrow> bool" where
  "retired s x \<longleftrightarrow> s \<in> snd x \<and> fst s \<noteq> fst (dp_entry (fst x)) \<and> fst s < dp_allocs (fst x)"

lemma retired_step: "dispatch_step x y \<Longrightarrow> retired s x \<Longrightarrow> retired s y"
  by (induction rule: dispatch_step.induct) (auto simp: retired_def replace_stream_def map_run_Ret_iff split: if_splits)

lemma retired_steps: "dispatch_step\<^sup>*\<^sup>* x y \<Longrightarrow> retired s x \<Longrightarrow> retired s y"
  by (induction rule: rtranclp_induct) (auto intro: retired_step)

text \<open>
  C10. A writer never goes back to a stream that failed. Whatever other writes of the same writer and other writers of
  the pool do: from the moment one write has found the failure, the cached stream is another one, and the failed
  stream is not in the pool, for ever (as long as the ids of streams do not wrap).\<close>

theorem failed_stream_never_reused:
  assumes "0 < n" "pool_reachable n p" "write_dispatcher_new v p = Ret d\<^sub>0" "dispatch_step\<^sup>*\<^sup>* (d\<^sub>0, {}) (d, L)"
    and "s \<in> L" "replace_stream v' s d = Ret d\<^sub>1" "dispatch_step\<^sup>*\<^sup>* (d\<^sub>1, L) (d\<^sub>2, L\<^sub>2)"
    and "pl_created (dp_pool d\<^sub>2) \<le> 2 ^ 64"
  shows "snd (dp_entry d\<^sub>2) \<noteq> snd s \<and> snd s \<notin> set (pl_streams (dp_pool d\<^sub>2))"
proof -
  have "dispatch_ok n (d, L)" using dispatch_ok_steps assms(1-4) dispatcher_new_ok by blast
  then have ok1: "dispatch_ok n (d\<^sub>1, L)" and ne: "fst s \<noteq> fst (dp_entry d\<^sub>1)" using dispatch_ok_fail assms(1,5,6) by blast+
  then have "retired s (d\<^sub>1, L)" using assms(5) by (simp add: retired_def dispatch_ok_def)
  with assms(7) have "retired s (d\<^sub>2, L\<^sub>2)" by (rule retired_steps)
  moreover have "dispatch_ok n (d\<^sub>2, L\<^sub>2)" using assms(1,7) ok1 dispatch_ok_steps by blast
  ultimately show ?thesis using assms(8) by (auto simp: retired_def dispatch_ok_def)
qed

definition calm_view :: "nat pool_view" where
  "calm_view = \<lparr>vw_closed = (\<lambda>_. False), vw_load = (\<lambda>_. 0), vw_is_loaded = (\<lambda>_. False)\<rparr>"

theorem failed_stream_never_reused_witness:
  "let d = \<lparr>dp_pool = \<lparr>pl_created = 3, pl_streams = [2], pl_max_streams = 2\<rparr>, dp_entry = (1, 2), dp_allocs = 2\<rparr>
   in replace_stream calm_view (0, 1) gone_dispatcher = Ret d \<and> snd (dp_entry d) \<noteq> 1 \<and> 1 \<notin> set (pl_streams (dp_pool d))"
proof -
  let ?d = "\<lparr>dp_pool = \<lparr>pl_created = 3, pl_streams = [2], pl_max_streams = 2\<rparr>, dp_entry = (1, 2), dp_allocs = 2\<rparr>"
  have new: "write_dispatcher_new calm_view (stream_pool_new 2) = Ret gone_dispatcher"
    by (simp add: write_dispatcher_new_def get_impl_def stream_pool_new_def least_loaded_def new_stream_entry_def gone_dispatcher_def)
  have run: "replace_stream calm_view (0, 1) gone_dispatcher = Ret ?d"
    by (simp add: replace_stream_def evict_and_replace_def stream_position_def new_stream_entry_def gone_dispatcher_def)
  have "dispatch_step (gone_dispatcher, {}) (gone_dispatcher, {(0, 1)})"
    using dispatch_step.load [of gone_dispatcher "{}"] by (simp add: gone_dispatcher_def)
  from failed_stream_never_reused [OF _ pool_reachable.new new r_into_rtranclp [of dispatch_step, OF this] _ run rtranclp.rtrancl_refl] run
  show ?thesis by simp
qed

end
