(* ===== verification/Spec2Isabelle.thy ===== *)
theory Spec2Isabelle
  imports Client_Policies Long_Running Paginator Well_Known_Types Storage_Download Pubsub_Dispatch
    Pubsub_Exactly_Once Spanner_Recipe Spanner_Ranges Spanner_Results Spanner_Write Storage_Writer Storage_Upload
    Token_Cache Request_Binding Bigquery_Dispatcher
begin

text \<open>
  Verification of the hand-written core of the Google Cloud client libraries for Rust.

  \<^bold>\<open>The program.\<close> Most of the repository is generated: one crate per service with its messages
  and request builders. All of them run on a small hand-written core, and a few services (Storage,
  Pub/Sub, BigQuery, Spanner) have hand-written clients on top of it. The core is the \<open>gax\<close>
  crate (errors, the retry loop and its policies, throttlers, paginators, polling policies), the
  \<open>lro\<close> crate (pollers of long-running operations), \<open>wkt\<close> (well-known types) and
  \<open>auth\<close>. This development models the decisions of that code; input and output, the clock and
  third-party code are parameters.

  \<^bold>\<open>Theories.\<close> Paths are relative to \<open>src/src\<close> in the source tree.

  \<^item> \<open>Prelude\<close>: machine integers, panics (\<open>run\<close>), \<open>result\<close>, time.
  \<^item> \<open>Rpc_Error\<close>: \<open>gax/src/error\<close>. Codes, status messages, the error type with its
    constructors, classifiers and \<open>Display\<close>. Codes survive their wire forms, and printing a
    constructed error does not panic.
  \<^item> \<open>Retry_Policy\<close>: \<open>gax/src/retry_policy.rs\<close> and the types around it. A policy is a
    record of the three methods of the trait. The locales \<open>retry_contract\<close> and
    \<open>idempotency_contract\<close> state what the loop relies on; they are interpreted on the library's
    policies and shown to be kept by the decorators.
  \<^item> \<open>Retry_Throttler\<close>: the circuit breaker of \<open>gax/src/retry_throttler.rs\<close>, through
    the locale \<open>token_throttler\<close>.
  \<^item> \<open>Retry_Loop\<close>: \<open>gax/src/retry_loop_internal.rs\<close>. One iteration is \<open>retry_step\<close>
    on an arbitrary world; \<open>retry_loop\<close> runs it with fuel and returns \<open>None\<close> while it is
    still running. \<open>loop_state\<close> is the set of reachable states; \<open>logged\<close> records calls and
    sleeps. Shown: the bound on the calls, termination under an attempt limit (fuel \<open>n + 1\<close> is
    enough) and under a time limit (as many iterations as backoff delays add up to the limit, if the clock
    is not set back and sleeps last as long as asked for), where the result comes from, no repetition of
    requests that are not idempotent under the policies that respect idempotency, no sleep past the
    deadline, and that throttled retries are not attempts.
  \<^item> \<open>Client_Policies\<close>: the policies of \<open>storage\<close>, \<open>pubsub\<close>, \<open>bigquery\<close>,
    \<open>spanner\<close> and the token retries of \<open>auth\<close>, as interpretations of the same locales.
  \<^item> \<open>Polling_Policy\<close>, \<open>Long_Running\<close>: \<open>gax/src/polling_error_policy.rs\<close> and
    \<open>lro/src\<close>. A poller is a state and a \<open>poll\<close> function; the locale
    \<open>poller_contract\<close> is what \<open>until_done\<close> and the stream rely on, interpreted on the
    AIP-151 poller. Shown: no panics, termination under an attempt limit (fuel \<open>1 + max 1 n\<close>), the
    shape of the stream, the origin of the result, and two ways in which the poller of
    discovery-based services departs from that.
  \<^item> \<open>Paginator\<close>: \<open>gax/src/paginator.rs\<close>. The loop over pages may run for ever, so it is
    a partial function. The item stream is the flattened page stream, and pages follow tokens.
  \<^item> \<open>Well_Known_Types\<close>: \<open>wkt/src/duration.rs\<close>, \<open>timestamp.rs\<close>,
    \<open>field_mask.rs\<close>. Text forms round-trip, and clamping is exact or saturates.
  \<^item> \<open>Storage_Read\<close>: \<open>storage/src/storage/bidi\<close>. The remaining range of a read, the
    worker that dispatches responses as a step function on events, and the reader of a range.
    Progress of a read, soundness of the worker's tables as long as the \<open>i64\<close> counter of identifiers
    does not overflow, and where errors go.
  \<^item> \<open>Storage_Download\<close>: \<open>storage/src/storage/read_object\<close> and
    \<open>checksum/details.rs\<close>. Resumed downloads are exact and end; checksums count every byte once.
  \<^item> \<open>Storage_Upload\<close>: \<open>storage/src/storage/perform_upload\<close> and
    \<open>streaming_source.rs\<close>. The progress of buffered uploads and the attempts of all kinds of
    uploads on the outcomes of their requests; the locales \<open>restartable\<close> and
    \<open>seekable\<close> are what unbuffered uploads need of a source. Requests carry the data they name,
    under two conditions whose violation loses or repeats bytes: a \<open>PUT\<close> without a reply, and a
    persisted size inside a piece.
  \<^item> \<open>Storage_Write\<close>, \<open>Storage_Write_Worker\<close>, \<open>Storage_Writer\<close>:
    \<open>storage/src/storage/bidi_write\<close>, uploads of appendable objects. The buffers and the connector;
    the worker as a step function on messages and intents, whose runs the locale
    \<open>write_invariant\<close> covers; the writer, and sessions of a writer with a worker. Streams carry
    the data without gaps across reconnects, requests are answered once, with a response that confirms them
    or the error of the worker, a flush returns the size of everything written, and a finalize covers all of
    it, with its checksum where that is known.
  \<^item> \<open>Pubsub_Publisher\<close>: \<open>pubsub/src/publisher\<close>. Batches, futures and the actor of an
    ordering key as a step function on commands and finished calls; the locale
    \<open>actor_invariant\<close> carries the invariants over its runs. Every sender gets the result of its
    message, the key is published serially, batches respect the limits and a flush resolves everything.
  \<^item> \<open>Pubsub_Dispatch\<close>: the dispatcher, the actor for messages without a key, and hedged
    publishing with its token bucket: a batch is resolved by the attempt that decides about it, once, and
    hedges are paid for.
  \<^item> \<open>Pubsub_Leases\<close>: \<open>pubsub/src/subscriber\<close>. The leases of delivered messages, the
    handlers and the lease loop; the locale \<open>lease_invariant\<close> carries the invariants. Every
    exactly-once message gets one result, unless it is delivered again, at-least-once messages are settled, requests are bounded.
  \<^item> \<open>Pubsub_Exactly_Once\<close>: the leaser's requests and the retry loop for exactly-once messages,
    composed with \<open>Retry_Loop\<close> (through the locale \<open>loop_world\<close>) and with the leases. Every
    identifier is answered once, the loops end (fuel \<open>k + 2\<close> where \<open>k + 1\<close> backoff delays
    add up to the time limit), and the answers reach the handlers.
  \<^item> \<open>Spanner_Keys\<close>, \<open>Spanner_Recipe\<close>: \<open>spanner/src/routing/ssformat.rs\<close>,
    \<open>key_recipe.rs\<close>, \<open>temporal.rs\<close> and \<open>uuid.rs\<close>. The locale \<open>ordered_code\<close> is
    what the sortable format promises, interpreted on every encoder; routing keys sort like rows, and
    an encoder that fails leaves its buffer alone.
  \<^item> \<open>Spanner_Ranges\<close>: \<open>spanner/src/routing/key_range_cache.rs\<close>. The cache that maps
    routing keys to replica groups. It refines the locale \<open>learned_map\<close>; its ranges stay
    disjoint, its groups are counted exactly, and lookups are sound and complete.
  \<^item> \<open>Spanner_Transaction\<close>: \<open>spanner/src/read_only_transaction.rs\<close> and
    \<open>precommit.rs\<close>. The selector that the statements of a transaction share: its first user
    begins the transaction while the others wait. The interleavings of statements and a commit are runs
    of a step function on events. Every statement uses the same transaction, those that wait are woken when
    the start they wait for ends, and a commit sends its mutations once.
  \<^item> \<open>Spanner_Results\<close>: \<open>spanner/src/result_set.rs\<close>. The rows of a query: messages are
    buffered until a resume token makes them safe, values in pieces are merged, broken streams are
    resumed. The rows are those of the table, in order and once; reading ends when the policy gives up
    after \<open>N\<close> attempts (fuel: \<open>N\<close> times the messages and three, the rows, and four); and a
    table cut into messages in any way is read back.
  \<^item> \<open>Spanner_Runner\<close>: \<open>spanner/src/transaction_runner.rs\<close>,
    \<open>transaction_retry_policy.rs\<close> and \<open>read_write_transaction.rs\<close>. Read-write transactions and
    the loop that retries them, for any work of the application and any service. The number of attempts
    is bounded (fuel \<open>N + 1\<close>), and one commit is confirmed or none.
  \<^item> \<open>Spanner_Write\<close>: \<open>spanner/src/write_only_transaction.rs\<close> and the loop
    \<open>retry_aborted\<close> under it, and the policy that keeps RPCs within the deadline of a transaction. The
    locale \<open>confirmed_action\<close> is what the loop needs of an operation for one confirmed commit.
  \<^item> \<open>Token_Cache\<close>: \<open>auth/src/token_cache.rs\<close>. The task that refreshes a token, the channel it
    writes to and any number of callers, as a step function on events. Callers never panic, a valid token is
    not replaced by an error, and a caller that waits is answered.
  \<^item> \<open>Request_Binding\<close>: \<open>gax-internal/src/routing_parameter.rs\<close>, \<open>path_parameter.rs\<close>,
    \<open>query_parameter.rs\<close>, \<open>host.rs\<close> and \<open>gax/src/error/binding.rs\<close>. The matcher of
    path templates is sound for the languages they stand for, and complete for delimited templates; the error of a request explains every binding that
    failed, and routing headers can be read back for any encoding with the laws of \<open>url_encoding\<close>.
  \<^item> \<open>Bigquery_Write\<close>, \<open>Bigquery_Dispatcher\<close>: \<open>bigquery/src/write\<close>. What the
    optimizer leaves out the service can fill in; the task of a stream gives each reply of the
    service to its write; the
    pool of streams stays within its size with distinct ids; the dispatcher ends under an attempt limit
    (fuel \<open>max 1 n\<close>) and never goes back to a stream that failed.

  \<^bold>\<open>Conventions.\<close> A panic is a value, so that "never panics" is a statement. A loop that may not
  end has fuel or is a partial function, and where it ends this is proved for a stated amount of
  fuel. Unsigned integers are words; signed ones are integers with their range and their casts
  written out; natural numbers stand for nanoseconds and for positions that are bounded by the code.
  Code of other crates is a function argument, and its documented laws are hypotheses.

  \<^bold>\<open>Not modelled.\<close> The transports, telemetry and generated code. The adaptive throttler and the
  exponential backoff (floating point and randomness; every backoff is covered as a parameter). The
  conversions with the \<open>time\<close> and \<open>chrono\<close> crates. Of the credentials, HTTP exchanges and
  cryptography. Of Pub/Sub, the connections of the message stream; of Spanner, sessions, the choice of an
  endpoint for a routing key, channel affinity, request options and the conversions of values; of BigQuery,
  queries, reads, and the writers on streams of their own. A query inside a transaction runner is not composed
  with \<open>Spanner_Results\<close>: the work of a runner uses statements with one answer.
\<close>

end
